(* ===== verification/Kernel_Prelude.thy ===== *)
theory Kernel_Prelude
  imports Main "HOL-Library.Word"
begin

text \<open>
  The shared layer of the development: the integer widths of \<^verbatim>\<open>types.h\<close>, the kernel's error
  enumeration, the slot-table search that many subsystems of the kernel repeat
  (\<^verbatim>\<open>for (i = 0; i < N; i++) if (P(t[i])) ...\<close>) with its lemmas, and the interface of a slot
  allocator, which the fixed tables of the kernel implement.
\<close>

unbundle bit_operations_syntax

section \<open>Integer types and errors (types.h)\<close>

type_synonym u8 = "8 word"
type_synonym u16 = "16 word"
type_synonym u32 = "32 word"
type_synonym u64 = "64 word"

datatype err_t =
    ERR_OK | ERR_GENERAL | ERR_NOMEM | ERR_INVAL | ERR_BADADDR | ERR_BUSY | ERR_TIMEOUT
  | ERR_AGAIN | ERR_FAULT | ERR_NOSYS | ERR_PERM | ERR_EXIST | ERR_NOENT | ERR_IO
  | ERR_NOSPACE | ERR_NAMETOOLONG | ERR_LOOP | ERR_STALE | ERR_DEADLOCK | ERR_CAP
  | ERR_BADFD | ERR_NOTCONN | ERR_CONNREFUSED

named_theorems slot_simps \<open>facts on slot searches and table updates\<close>

section \<open>Searching a table for the first matching slot\<close>

fun find_idx :: "('a \<Rightarrow> bool) \<Rightarrow> 'a list \<Rightarrow> nat option" where
  "find_idx P [] = None"
| "find_idx P (x # xs) = (if P x then Some 0 else map_option Suc (find_idx P xs))"

lemma find_idx_None_iff [slot_simps]: "find_idx P xs = None \<longleftrightarrow> (\<forall>i < length xs. \<not> P (xs ! i))"
  by (induction xs) (auto simp: nth_Cons less_Suc_eq_0_disj split: nat.splits)

lemma find_idx_SomeD:
  "find_idx P xs = Some i \<Longrightarrow> i < length xs \<and> P (xs ! i) \<and> (\<forall>j < i. \<not> P (xs ! j))"
proof (induction xs arbitrary: i)
  case Nil
  then show ?case by simp
next
  case (Cons x xs)
  show ?case
  proof (cases "P x")
    case True
    with Cons.prems show ?thesis by simp
  next
    case False
    with Cons.prems obtain k where k: "find_idx P xs = Some k" "i = Suc k" by auto
    with Cons.IH [OF k(1)] False show ?thesis
      by (auto simp: less_Suc_eq_0_disj)
  qed
qed

lemma find_idx_bound: "find_idx P xs = Some i \<Longrightarrow> i < length xs"
  by (auto dest: find_idx_SomeD)

lemma find_idx_sat: "find_idx P xs = Some i \<Longrightarrow> P (xs ! i)"
  by (auto dest: find_idx_SomeD)

lemma find_idx_first: "find_idx P xs = Some i \<Longrightarrow> j < i \<Longrightarrow> \<not> P (xs ! j)"
  by (auto dest: find_idx_SomeD)

lemma find_idx_not_None: "i < length xs \<Longrightarrow> P (xs ! i) \<Longrightarrow> \<exists>j. find_idx P xs = Some j \<and> j \<le> i"
proof -
  assume i: "i < length xs" "P (xs ! i)"
  then obtain j where j: "find_idx P xs = Some j"
    by (cases "find_idx P xs") (auto simp: find_idx_None_iff)
  with i show ?thesis by (metis find_idx_first not_le_imp_less)
qed

lemma find_idx_unique:
  assumes "i < length xs" and "P (xs ! i)"
    and "\<And>j. j < length xs \<Longrightarrow> P (xs ! j) \<Longrightarrow> j = i"
  shows "find_idx P xs = Some i"
proof -
  obtain j where "find_idx P xs = Some j"
    using assms(1,2) find_idx_not_None by blast
  with assms(3) show ?thesis by (metis find_idx_SomeD)
qed

lemma find_idx_cong: "(\<And>x. x \<in> set xs \<Longrightarrow> P x = Q x) \<Longrightarrow> find_idx P xs = find_idx Q xs"
  by (induction xs) auto

section \<open>The interface of a slot allocator\<close>

text \<open>
  A table of numbered slots with an operation that claims a free slot and one that releases
  a slot. \<open>used s\<close> is the set of slots in use. The laws are what a client relies on: a claimed
  slot was free, claiming touches no other slot, and a claim fails only when every slot is in
  use.
\<close>

locale slot_allocator =
  fixes alloc :: "'s \<Rightarrow> nat option \<times> 's"
    and release :: "nat \<Rightarrow> 's \<Rightarrow> 's"
    and used :: "'s \<Rightarrow> nat set"
    and capacity :: "'s \<Rightarrow> nat"
    and inv :: "'s \<Rightarrow> bool"
  assumes alloc_Some: "inv s \<Longrightarrow> alloc s = (Some i, s') \<Longrightarrow>
      i \<notin> used s \<and> i < capacity s \<and> used s' = insert i (used s) \<and> capacity s' = capacity s \<and> inv s'"
    and alloc_None: "inv s \<Longrightarrow> alloc s = (None, s') \<Longrightarrow> {..<capacity s} \<subseteq> used s"
    and used_bounded: "inv s \<Longrightarrow> used s \<subseteq> {..<capacity s}"
    and release_used: "inv s \<Longrightarrow> i < capacity s \<Longrightarrow>
      used (release i s) = used s - {i} \<and> capacity (release i s) = capacity s \<and> inv (release i s)"
begin

fun alloc_n :: "nat \<Rightarrow> 's \<Rightarrow> nat list \<times> 's" where
  "alloc_n 0 s = ([], s)"
| "alloc_n (Suc n) s = (case alloc s of
     (None, s') \<Rightarrow> ([], s)
   | (Some i, s') \<Rightarrow> (case alloc_n n s' of (is, s'') \<Rightarrow> (i # is, s'')))"

text \<open>Successive claims hand out pairwise different slots, none of which was in use.\<close>

lemma alloc_n_fresh:
  "inv s \<Longrightarrow> alloc_n n s = (is, s') \<Longrightarrow>
     distinct is \<and> set is \<inter> used s = {} \<and> used s' = set is \<union> used s \<and> capacity s' = capacity s \<and> inv s'"
proof (induction n arbitrary: s "is" s')
  case 0
  then show ?case by simp
next
  case (Suc n)
  obtain r t where a: "alloc s = (r, t)" by (cases "alloc s")
  show ?case
  proof (cases r)
    case None
    with Suc.prems a show ?thesis by simp
  next
    case (Some i)
    obtain js u where n: "alloc_n n t = (js, u)" by (cases "alloc_n n t")
    from alloc_Some [OF Suc.prems(1)] a Some
    have i: "i \<notin> used s" "used t = insert i (used s)" "capacity t = capacity s" "inv t" by auto
    from Suc.IH [OF i(4) n] i Suc.prems(2) a Some n show ?thesis by auto
  qed
qed

text \<open>A released slot can be claimed again: the allocator does not leak.\<close>

lemma release_then_alloc:
  assumes "inv s" and "i < capacity s"
  shows "fst (alloc (release i s)) \<noteq> None"
proof
  assume none: "fst (alloc (release i s)) = None"
  obtain s' where "alloc (release i s) = (None, s')"
    using none by (cases "alloc (release i s)") auto
  with release_used [OF assms] alloc_None [of "release i s" s'] assms show False by auto
qed

lemma finite_used: "inv s \<Longrightarrow> finite (used s)"
  using used_bounded finite_subset by blast

lemma alloc_card:
  "inv s \<Longrightarrow> alloc s = (Some i, s') \<Longrightarrow> card (used s') = Suc (card (used s))"
  using alloc_Some [of s i s'] finite_used [of s] by simp

lemma alloc_None_full:
  assumes "inv s" and "alloc s = (None, s')"
  shows "card (used s) = capacity s"
proof -
  from alloc_None [OF assms] used_bounded [OF assms(1)]
  have "used s = {..<capacity s}" by blast
  then show ?thesis by simp
qed

end

section \<open>Lemmas on tables\<close>

lemma nth_list_update_if [slot_simps]:
  "i < length xs \<Longrightarrow> xs[j := v] ! i = (if i = j then v else xs ! i)"
  by simp

lemma all_nth_update [slot_simps]:
  "i < length xs \<Longrightarrow> (\<forall>j < length xs. P j (xs[i := v] ! j)) \<longleftrightarrow> P i v \<and> (\<forall>j < length xs. j \<noteq> i \<longrightarrow> P j (xs ! j))"
  by (auto simp: nth_list_update_if)


section \<open>Copies between byte arrays (kmemcpy)\<close>

text \<open>
  \<open>slice off n xs\<close> is what \<^verbatim>\<open>kmemcpy(buf, xs + off, n)\<close> reads, \<open>splice off bs xs\<close> is the array
  after \<^verbatim>\<open>kmemcpy(xs + off, bs, |bs|)\<close>, both for ranges inside the array.
\<close>

definition slice :: "nat \<Rightarrow> nat \<Rightarrow> 'a list \<Rightarrow> 'a list" where
  "slice off n xs = take n (drop off xs)"

definition splice :: "nat \<Rightarrow> 'a list \<Rightarrow> 'a list \<Rightarrow> 'a list" where
  "splice off bs xs = take off xs @ bs @ drop (off + length bs) xs"

lemma length_slice [simp]: "off + n \<le> length xs \<Longrightarrow> length (slice off n xs) = n"
  by (simp add: slice_def)

lemma length_splice [simp]: "off + length bs \<le> length xs \<Longrightarrow> length (splice off bs xs) = length xs"
  by (simp add: splice_def)

lemma nth_splice:
  "off + length bs \<le> length xs \<Longrightarrow> j < length xs \<Longrightarrow>
     splice off bs xs ! j = (if off \<le> j \<and> j < off + length bs then bs ! (j - off) else xs ! j)"
  by (auto simp: splice_def nth_append min_def)

lemma nth_slice: "off + n \<le> length xs \<Longrightarrow> j < n \<Longrightarrow> slice off n xs ! j = xs ! (off + j)"
  by (simp add: slice_def)

lemma slice_splice_same [simp]:
  "off + length bs \<le> length xs \<Longrightarrow> n = length bs \<Longrightarrow> slice off n (splice off bs xs) = bs"
  by (simp add: slice_def splice_def)

lemma slice_splice_other:
  assumes "off + length bs \<le> length xs" and "o' + n \<le> length xs"
    and "o' + n \<le> off \<or> off + length bs \<le> o'"
  shows "slice o' n (splice off bs xs) = slice o' n xs"
  using assms by (intro nth_equalityI) (auto simp: nth_slice nth_splice)


section \<open>Machine integers\<close>

lemma unat_u8_less: "unat (x :: u8) < 256"
proof -
  have "unat x < 2 ^ LENGTH(8)" by (rule unsigned_less)
  then show ?thesis by simp
qed

lemma unat_u32_less: "unat (x :: u32) < 2 ^ 32"
proof -
  have "unat x < 2 ^ LENGTH(32)" by (rule unsigned_less)
  then show ?thesis by simp
qed

lemma unat_u64_less: "unat (x :: u64) < 2 ^ 64"
proof -
  have "unat x < 2 ^ LENGTH(64)" by (rule unsigned_less)
  then show ?thesis by simp
qed

end
