(* ===== verification/Route.thy ===== *)
theory Route
  imports Kernel_Prelude
begin

text \<open>
  The routing table of \<^verbatim>\<open>kernel/route.c\<close> with the address helpers of \<^verbatim>\<open>include/ip.h\<close>. The
  table belongs to the current network namespace and is passed in and out; every operation runs
  under \<open>route_lock\<close>. A union of a 4-byte and a 16-byte address is its 16 bytes: storing the
  IPv4 member overwrites the first four.
\<close>

section \<open>Addresses (ip.h)\<close>

type_synonym ipv4_addr = "u8 \<times> u8 \<times> u8 \<times> u8"

fun ipv4_from_bytes :: "u8 \<Rightarrow> u8 \<Rightarrow> u8 \<Rightarrow> u8 \<Rightarrow> ipv4_addr" where
  "ipv4_from_bytes a b c d = (a, b, c, d)"

fun ipv4_to_u32 :: "ipv4_addr \<Rightarrow> u32" where
  "ipv4_to_u32 (a, b, c, d) =
     ucast a OR push_bit 8 (ucast b) OR push_bit 16 (ucast c) OR push_bit 24 (ucast d)"

definition ipv4_from_u32 :: "u32 \<Rightarrow> ipv4_addr" where
  "ipv4_from_u32 h =
     (ucast (h AND 0xFF), ucast (drop_bit 8 h AND 0xFF),
      ucast (drop_bit 16 h AND 0xFF), ucast (drop_bit 24 h AND 0xFF))"

fun ipv4_addr_equal :: "ipv4_addr \<Rightarrow> ipv4_addr \<Rightarrow> bool" where
  "ipv4_addr_equal (a0, a1, a2, a3) (b0, b1, b2, b3) \<longleftrightarrow> a0 = b0 \<and> a1 = b1 \<and> a2 = b2 \<and> a3 = b3"

definition ipv6_addr_equal :: "u8 list \<Rightarrow> u8 list \<Rightarrow> bool" where
  "ipv6_addr_equal a b \<longleftrightarrow> (\<forall>i \<in> set [0..<16]. a ! i = b ! i)"

section \<open>The table (route.h)\<close>

definition AF_INET :: int where
  "AF_INET = 4"

definition AF_INET6 :: int where
  "AF_INET6 = 6"

definition ROUTE_TABLE_SIZE :: nat where
  "ROUTE_TABLE_SIZE = 8"

record route_entry =
  r_used :: bool
  r_af :: int
  r_dst :: "u8 list"
  r_prefix_len :: int
  r_gw :: "u8 list"
  r_metric :: int

type_synonym route_table = "route_entry list"

definition put_v4 :: "ipv4_addr \<Rightarrow> u8 list \<Rightarrow> u8 list" where
  "put_v4 a u = (case a of (a0, a1, a2, a3) \<Rightarrow> splice 0 [a0, a1, a2, a3] u)"

definition get_v4 :: "u8 list \<Rightarrow> ipv4_addr" where
  "get_v4 u = (u ! 0, u ! 1, u ! 2, u ! 3)"

definition route_clear :: "route_table \<Rightarrow> route_table" where
  "route_clear t = map (\<lambda>e. e\<lparr>r_used := False\<rparr>) t"

definition route_del_v4 :: "ipv4_addr \<Rightarrow> int \<Rightarrow> route_table \<Rightarrow> err_t \<times> route_table" where
  "route_del_v4 dst prefix_len t =
     (case find_idx (\<lambda>e. r_used e \<and> r_af e = AF_INET \<and> r_prefix_len e = prefix_len \<and>
                         ipv4_addr_equal (get_v4 (r_dst e)) dst) t of
        Some i \<Rightarrow> (ERR_OK, t[i := (t ! i)\<lparr>r_used := False\<rparr>])
      | None \<Rightarrow> (ERR_NOENT, t))"

definition route_del_v6 :: "u8 list \<Rightarrow> int \<Rightarrow> route_table \<Rightarrow> err_t \<times> route_table" where
  "route_del_v6 dst prefix_len t =
     (case find_idx (\<lambda>e. r_used e \<and> r_af e = AF_INET6 \<and> r_prefix_len e = prefix_len \<and>
                         take 16 (r_dst e) = take 16 dst) t of
        Some i \<Rightarrow> (ERR_OK, t[i := (t ! i)\<lparr>r_used := False\<rparr>])
      | None \<Rightarrow> (ERR_NOENT, t))"

definition route_add_v4 :: "ipv4_addr \<Rightarrow> int \<Rightarrow> ipv4_addr \<Rightarrow> route_table \<Rightarrow> err_t \<times> route_table" where
  "route_add_v4 dst prefix_len gateway t =
     (if prefix_len < 0 \<or> prefix_len > 32 then (ERR_INVAL, t)
      else case find_idx (\<lambda>e. \<not> r_used e) t of
        Some i \<Rightarrow>
          (ERR_OK, t[i := (t ! i)\<lparr>r_used := True, r_af := AF_INET, r_dst := put_v4 dst (r_dst (t ! i)),
             r_prefix_len := prefix_len, r_gw := put_v4 gateway (r_gw (t ! i)), r_metric := 0\<rparr>])
      | None \<Rightarrow> (ERR_NOSPACE, t))"

definition route_add_v6 :: "u8 list \<Rightarrow> int \<Rightarrow> u8 list \<Rightarrow> route_table \<Rightarrow> err_t \<times> route_table" where
  "route_add_v6 dst prefix_len gateway t =
     (if prefix_len < 0 \<or> prefix_len > 128 then (ERR_INVAL, t)
      else case find_idx (\<lambda>e. \<not> r_used e) t of
        Some i \<Rightarrow>
          (ERR_OK, t[i := (t ! i)\<lparr>r_used := True, r_af := AF_INET6, r_dst := take 16 dst,
             r_prefix_len := prefix_len, r_gw := take 16 gateway, r_metric := 0\<rparr>])
      | None \<Rightarrow> (ERR_NOSPACE, t))"

text \<open>\<open>route_init\<close> adds the connected network and the default route once per namespace.\<close>

definition route_init :: "bool \<Rightarrow> route_table \<Rightarrow> bool \<times> route_table" where
  "route_init initialized t =
     (if initialized then (initialized, t)
      else (True,
        snd (route_add_v4 (ipv4_from_bytes 0 0 0 0) 0 (ipv4_from_bytes 10 0 2 2)
          (snd (route_add_v4 (ipv4_from_bytes 10 0 2 0) 24 (ipv4_from_bytes 0 0 0 0) t)))))"

definition route_table_boot :: route_table where
  "route_table_boot = replicate ROUTE_TABLE_SIZE
     \<lparr>r_used = False, r_af = 0, r_dst = replicate 16 0, r_prefix_len = 0, r_gw = replicate 16 0,
      r_metric = 0\<rparr>"

section \<open>Lookup\<close>

definition v4_mask :: "int \<Rightarrow> u32" where
  "v4_mask prefix_len =
     (let pl = (if prefix_len > 32 then 32 else prefix_len)
      in if pl > 0 then ucast (push_bit (nat (32 - pl)) (0xFFFFFFFF :: u64)) else 0)"

definition v4_match :: "ipv4_addr \<Rightarrow> route_entry \<Rightarrow> bool" where
  "v4_match dst e \<longleftrightarrow> r_used e \<and> r_af e = AF_INET \<and>
     ipv4_to_u32 dst AND v4_mask (r_prefix_len e) =
     ipv4_to_u32 (get_v4 (r_dst e)) AND v4_mask (r_prefix_len e)"

text \<open>The scan shared by both lookups: the matching entry with the largest prefix, first one wins.\<close>

fun best_route ::
  "(route_entry \<Rightarrow> bool) \<Rightarrow> nat \<Rightarrow> route_entry list \<Rightarrow> nat option \<Rightarrow> int \<Rightarrow> nat option" where
  "best_route match i [] best_idx best_prefix = best_idx"
| "best_route match i (e # es) best_idx best_prefix =
     (if match e \<and> r_prefix_len e > best_prefix
      then best_route match (Suc i) es (Some i) (r_prefix_len e)
      else best_route match (Suc i) es best_idx best_prefix)"

definition route_lookup_v4 :: "ipv4_addr \<Rightarrow> route_table \<Rightarrow> err_t \<times> ipv4_addr option" where
  "route_lookup_v4 dst t = (case best_route (v4_match dst) 0 t None (-1) of
     None \<Rightarrow> (ERR_NOENT, None)
   | Some i \<Rightarrow>
       (let gw = get_v4 (r_gw (t ! i))
        in (ERR_OK, Some (if ipv4_addr_equal gw (ipv4_from_bytes 0 0 0 0) then dst else gw))))"

definition ipv6_prefix_match :: "u8 list \<Rightarrow> u8 list \<Rightarrow> int \<Rightarrow> bool" where
  "ipv6_prefix_match a b prefix_len =
     (let full_bytes = nat (prefix_len div 8); remaining_bits = nat (prefix_len mod 8);
          mask = push_bit (8 - remaining_bits) (0xFF :: u8)
      in if \<exists>i \<in> set [0..<min full_bytes 16]. a ! i \<noteq> b ! i then False
         else if remaining_bits > 0 \<and> full_bytes < 16
           then a ! full_bytes AND mask = b ! full_bytes AND mask
         else True)"

definition v6_match :: "u8 list \<Rightarrow> route_entry \<Rightarrow> bool" where
  "v6_match dst e \<longleftrightarrow> r_used e \<and> r_af e = AF_INET6 \<and> ipv6_prefix_match dst (r_dst e) (r_prefix_len e)"

definition route_lookup_v6 :: "u8 list \<Rightarrow> route_table \<Rightarrow> err_t \<times> u8 list option" where
  "route_lookup_v6 dst t = (case best_route (v6_match dst) 0 t None (-1) of
     None \<Rightarrow> (ERR_NOENT, None)
   | Some i \<Rightarrow> (ERR_OK, Some (if take 16 (r_gw (t ! i)) = replicate 16 0 then take 16 dst
                             else take 16 (r_gw (t ! i)))))"

section \<open>Longest prefix\<close>

lemma best_route_scan:
  "best_route match i es bi bp = Some k \<Longrightarrow> (bi = Some k \<and> (\<forall>e \<in> set es. match e \<longrightarrow> r_prefix_len e \<le> bp)) \<or>
     (i \<le> k \<and> k < i + length es \<and> match (es ! (k - i)) \<and> r_prefix_len (es ! (k - i)) > bp \<and>
      (\<forall>e \<in> set es. match e \<longrightarrow> r_prefix_len e \<le> r_prefix_len (es ! (k - i))) \<and>
      (\<forall>j < k - i. match (es ! j) \<longrightarrow> r_prefix_len (es ! j) < r_prefix_len (es ! (k - i))))"
proof (induction es arbitrary: i bi bp)
  case Nil
  then show ?case by simp
next
  case (Cons e es)
  show ?case
  proof (cases "match e \<and> r_prefix_len e > bp")
    case True
    with Cons.prems have "best_route match (Suc i) es (Some i) (r_prefix_len e) = Some k" by simp
    from Cons.IH [OF this] show ?thesis
    proof
      assume "Some i = Some k \<and> (\<forall>e' \<in> set es. match e' \<longrightarrow> r_prefix_len e' \<le> r_prefix_len e)"
      with True show ?thesis by auto
    next
      assume h: "Suc i \<le> k \<and> k < Suc i + length es \<and> match (es ! (k - Suc i)) \<and>
        r_prefix_len (es ! (k - Suc i)) > r_prefix_len e \<and>
        (\<forall>e' \<in> set es. match e' \<longrightarrow> r_prefix_len e' \<le> r_prefix_len (es ! (k - Suc i))) \<and>
        (\<forall>j < k - Suc i. match (es ! j) \<longrightarrow> r_prefix_len (es ! j) < r_prefix_len (es ! (k - Suc i)))"
      then obtain d where d: "k - i = Suc d" "k - Suc i = d" by (metis Suc_diff_Suc Suc_le_lessD)
      with h True show ?thesis by (auto simp: nth_Cons split: nat.splits)
    qed
  next
    case False
    with Cons.prems have "best_route match (Suc i) es bi bp = Some k" by auto
    from Cons.IH [OF this] show ?thesis
    proof
      assume "bi = Some k \<and> (\<forall>e' \<in> set es. match e' \<longrightarrow> r_prefix_len e' \<le> bp)"
      with False show ?thesis by auto
    next
      assume h: "Suc i \<le> k \<and> k < Suc i + length es \<and> match (es ! (k - Suc i)) \<and>
        r_prefix_len (es ! (k - Suc i)) > bp \<and>
        (\<forall>e' \<in> set es. match e' \<longrightarrow> r_prefix_len e' \<le> r_prefix_len (es ! (k - Suc i))) \<and>
        (\<forall>j < k - Suc i. match (es ! j) \<longrightarrow> r_prefix_len (es ! j) < r_prefix_len (es ! (k - Suc i)))"
      then obtain d where d: "k - i = Suc d" "k - Suc i = d" by (metis Suc_diff_Suc Suc_le_lessD)
      with h False show ?thesis by (auto simp: nth_Cons split: nat.splits)
    qed
  qed
qed

lemma best_route_None:
  "best_route match i es bi bp = None \<longleftrightarrow> bi = None \<and> (\<forall>e \<in> set es. match e \<longrightarrow> r_prefix_len e \<le> bp)"
  by (induction es arbitrary: i bi bp) auto


section \<open>Well-formed tables\<close>

definition route_wf :: "route_table \<Rightarrow> bool" where
  "route_wf t \<longleftrightarrow> length t = ROUTE_TABLE_SIZE \<and>
     (\<forall>e \<in> set t. length (r_dst e) = 16 \<and> length (r_gw e) = 16 \<and>
        (r_used e \<longrightarrow> 0 \<le> r_prefix_len e \<and>
           (r_af e = AF_INET \<and> r_prefix_len e \<le> 32 \<or> r_af e = AF_INET6 \<and> r_prefix_len e \<le> 128)))"

lemma put_v4_props [simp]:
  "length u = 16 \<Longrightarrow> length (put_v4 a u) = 16" "length u = 16 \<Longrightarrow> get_v4 (put_v4 a u) = a"
  by (auto simp: put_v4_def get_v4_def splice_def split: prod.splits)

lemma route_wf_update:
  assumes "route_wf t" and "length (r_dst e) = 16 \<and> length (r_gw e) = 16 \<and> (r_used e \<longrightarrow> 0 \<le> r_prefix_len e \<and>
     (r_af e = AF_INET \<and> r_prefix_len e \<le> 32 \<or> r_af e = AF_INET6 \<and> r_prefix_len e \<le> 128))"
  shows "route_wf (t[i := e])"
  using assms by (auto simp: route_wf_def dest!: set_update_subset_insert [THEN subsetD])

lemma route_wf_nth:
  "route_wf t \<Longrightarrow> find_idx P t = Some i \<Longrightarrow> length (r_dst (t ! i)) = 16 \<and> length (r_gw (t ! i)) = 16"
  by (auto simp: route_wf_def dest!: find_idx_bound)

lemma route_wf_boot: "route_wf route_table_boot"
  by (simp add: route_wf_def route_table_boot_def)

lemma route_wf_add_v4: "route_wf t \<Longrightarrow> route_wf (snd (route_add_v4 d n g t))"
  by (auto simp: route_add_v4_def intro!: route_wf_update split: option.splits dest: route_wf_nth)

lemma route_wf_add_v6:
  "route_wf t \<Longrightarrow> length d = 16 \<Longrightarrow> length g = 16 \<Longrightarrow> route_wf (snd (route_add_v6 d n g t))"
  by (auto simp: route_add_v6_def intro!: route_wf_update split: option.splits)

lemma route_wf_unuse:
  "route_wf t \<Longrightarrow> find_idx P t = Some i \<Longrightarrow> route_wf (t[i := (t ! i)\<lparr>r_used := False\<rparr>])"
  by (auto intro!: route_wf_update dest: route_wf_nth)

lemma route_wf_del:
  "route_wf t \<Longrightarrow> route_wf (snd (route_del_v4 d n t))"
  "route_wf t \<Longrightarrow> route_wf (snd (route_del_v6 d6 n t))"
  by (auto simp: route_del_v4_def route_del_v6_def intro: route_wf_unuse split: option.splits)

lemma route_wf_clear: "route_wf t \<Longrightarrow> route_wf (route_clear t)"
  by (auto simp: route_wf_def route_clear_def)

section \<open>Bits of an address\<close>

lemma bit_ipv4:
  "n < 32 \<Longrightarrow> bit (ipv4_to_u32 (a, b, c, d)) n =
     (if n < 8 then bit a n else if n < 16 then bit b (n - 8) else if n < 24 then bit c (n - 16) else bit d (n - 24))"
  by (auto simp: bit_simps dest: bit_imp_le_length)

lemma byte_eq_iff: "(x :: u8) = y \<longleftrightarrow> (\<forall>j < 8. bit x j = bit y j)"
  by (auto simp: bit_eq_iff dest: bit_imp_le_length)

lemma bit_mask24: "bit (0xFFFFFF00 :: u32) n \<longleftrightarrow> 8 \<le> n \<and> n < 32"
proof -
  have eq: "(0xFFFFFF00 :: u32) = push_bit 8 (mask 24)" by (simp add: mask_eq_exp_minus_1 push_bit_eq_mult)
  show ?thesis unfolding eq by (auto simp: bit_push_bit_iff bit_mask_iff)
qed

lemma masked24_iff:
  "ipv4_to_u32 (a, b, c, d) AND 0xFFFFFF00 = ipv4_to_u32 (a', b', c', d') AND 0xFFFFFF00 \<longleftrightarrow>
     b = b' \<and> c = c' \<and> d = d'"
  (is "?L \<longleftrightarrow> ?R")
proof
  assume L: ?L
  have bits: "bit (ipv4_to_u32 (a, b, c, d)) n = bit (ipv4_to_u32 (a', b', c', d')) n" if "8 \<le> n" "n < 32" for n
    using arg_cong [OF L, of "\<lambda>x. bit x n"] that
    by (simp only: bit_and_iff bit_mask24 simp_thms)
  have "bit b j = bit b' j \<and> bit c j = bit c' j \<and> bit d j = bit d' j" if "j < 8" for j
    using bits [of "j + 8"] bits [of "j + 16"] bits [of "j + 24"] that
    by (simp add: bit_ipv4 del: ipv4_to_u32.simps)
  then show ?R by (simp add: byte_eq_iff)
next
  assume R: ?R
  have "bit (ipv4_to_u32 (a, b, c, d)) n = bit (ipv4_to_u32 (a', b', c', d')) n" if "8 \<le> n" "n < 32" for n
    using R that by (simp add: bit_ipv4 del: ipv4_to_u32.simps)
  then show ?L by (intro bit_word_eqI) (auto simp only: bit_and_iff bit_mask24)
qed

lemma v4_mask_24: "v4_mask 24 = 0xFFFFFF00"
  by (simp add: v4_mask_def push_bit_eq_mult)

text \<open>The first \<open>n\<close> bits of an IPv6 address, most significant bit of each byte first.\<close>

definition addr_bits :: "u8 list \<Rightarrow> bool list" where
  "addr_bits a = map (\<lambda>i. bit (a ! (i div 8)) (7 - i mod 8)) [0..<8 * length a]"

lemma take_addr_bits_iff:
  assumes "length a = length b" and "n \<le> 8 * length a"
  shows "take n (addr_bits a) = take n (addr_bits b) \<longleftrightarrow>
    (\<forall>i < n. bit (a ! (i div 8)) (7 - i mod 8) = bit (b ! (i div 8)) (7 - i mod 8))"
proof -
  have "length (take n (addr_bits a)) = n" "length (take n (addr_bits b)) = n"
    using assms by (simp_all add: addr_bits_def)
  moreover have "take n (addr_bits a) ! i = bit (a ! (i div 8)) (7 - i mod 8)"
    "take n (addr_bits b) ! i = bit (b ! (i div 8)) (7 - i mod 8)" if "i < n" for i
    using that assms by (simp_all add: addr_bits_def)
  ultimately show ?thesis by (simp add: list_eq_iff_nth_eq)
qed

lemma masked_byte_iff:
  assumes "r < 8"
  shows "(x :: u8) AND push_bit (8 - r) 0xFF = y AND push_bit (8 - r) 0xFF \<longleftrightarrow>
    (\<forall>k < r. bit x (7 - k) = bit y (7 - k))"
  (is "?L \<longleftrightarrow> ?R")
proof -
  have ff: "(0xFF :: u8) = mask 8" by (simp add: mask_eq_exp_minus_1)
  have "?L \<longleftrightarrow> (\<forall>j < 8. 8 - r \<le> j \<longrightarrow> bit x j = bit y j)"
    unfolding ff by (auto simp: bit_eq_iff bit_and_iff bit_push_bit_iff bit_mask_iff)
  also have "\<dots> \<longleftrightarrow> ?R"
  proof
    assume h: "\<forall>j < 8. 8 - r \<le> j \<longrightarrow> bit x j = bit y j"
    show ?R
    proof (intro allI impI)
      fix k assume "k < r"
      then have "7 - k < 8" "8 - r \<le> 7 - k" using assms by auto
      with h show "bit x (7 - k) = bit y (7 - k)" by blast
    qed
  next
    assume h: ?R
    show "\<forall>j < 8. 8 - r \<le> j \<longrightarrow> bit x j = bit y j"
    proof (intro allI impI)
      fix j :: nat assume "j < 8" "8 - r \<le> j"
      then have "7 - j < r" "7 - (7 - j) = j" using assms by auto
      with h show "bit x j = bit y j" by metis
    qed
  qed
  finally show ?thesis .
qed

lemma div8_split: "(k :: nat) < 8 \<Longrightarrow> (8 * q + k) div 8 = q \<and> (8 * q + k) mod 8 = k"
  by simp

definition agree_bit :: "u8 list \<Rightarrow> u8 list \<Rightarrow> nat \<Rightarrow> bool" where
  "agree_bit a b i \<longleftrightarrow> bit (a ! (i div 8)) (7 - i mod 8) = bit (b ! (i div 8)) (7 - i mod 8)"

lemma agree_bit_split: "k < 8 \<Longrightarrow> agree_bit a b (8 * q + k) \<longleftrightarrow> bit (a ! q) (7 - k) = bit (b ! q) (7 - k)"
  by (simp add: agree_bit_def)

lemma agree_bytes:
  assumes "\<forall>i < n. agree_bit a b i" and "q < n div 8"
  shows "a ! q = b ! q"
proof -
  have "bit (a ! q) j = bit (b ! q) j" if j: "j < 8" for j
  proof -
    have "8 * q + (7 - j) < n" using assms(2) j by linarith
    with assms(1) have "agree_bit a b (8 * q + (7 - j))" by blast
    with agree_bit_split [of "7 - j" a b q] j show ?thesis by simp
  qed
  then show ?thesis by (simp add: byte_eq_iff)
qed

lemma prefix_bits_split:
  "(\<forall>i < n. agree_bit a b i) \<longleftrightarrow> (\<forall>q < n div 8. a ! q = b ! q) \<and>
     (\<forall>k < n mod 8. bit (a ! (n div 8)) (7 - k) = bit (b ! (n div 8)) (7 - k))"
  (is "?L \<longleftrightarrow> ?Q \<and> ?K")
proof
  assume L: ?L
  have "bit (a ! (n div 8)) (7 - k) = bit (b ! (n div 8)) (7 - k)" if k: "k < n mod 8" for k
  proof -
    have k8: "k < 8" using k by (meson mod_less_divisor order_less_trans zero_less_numeral)
    have "8 * (n div 8) + k < n" using k mult_div_mod_eq [of 8 n] by linarith
    with L k8 agree_bit_split show ?thesis by blast
  qed
  with agree_bytes [OF L] show "?Q \<and> ?K" by blast
next
  assume QK: "?Q \<and> ?K"
  show ?L
  proof (intro allI impI)
    fix i assume i: "i < n"
    show "agree_bit a b i"
    proof (cases "i div 8 < n div 8")
      case True
      with QK show ?thesis by (simp add: agree_bit_def)
    next
      case False
      then have eq: "i div 8 = n div 8" using i by (simp add: div_le_mono le_antisym not_less)
      then have "i mod 8 < n mod 8" using i mult_div_mod_eq [of 8 n] mult_div_mod_eq [of 8 i] by linarith
      with QK eq show ?thesis by (simp add: agree_bit_def)
    qed
  qed
qed

lemma prefix_match_take:
  assumes "length a = 16" and "length b = 16" and "0 \<le> n" and "n \<le> 128"
  shows "ipv6_prefix_match a b n \<longleftrightarrow> take (nat n) (addr_bits a) = take (nat n) (addr_bits b)"
proof -
  define m where "m = nat n"
  have m: "nat (n div 8) = m div 8" "nat (n mod 8) = m mod 8" "m \<le> 128"
    using assms(3,4) by (auto simp: m_def nat_div_distrib nat_mod_distrib)
  have r: "m mod 8 < 8" by simp
  have full: "m div 8 = 16 \<Longrightarrow> m mod 8 = 0" using m(3) div_mult_mod_eq [of m 8] by linarith
  have "ipv6_prefix_match a b n \<longleftrightarrow> (\<forall>q < m div 8. a ! q = b ! q) \<and>
      (0 < m mod 8 \<longrightarrow> a ! (m div 8) AND push_bit (8 - m mod 8) 0xFF = b ! (m div 8) AND push_bit (8 - m mod 8) 0xFF)"
  proof -
    have q: "min (m div 8) 16 = m div 8" "0 < m mod 8 \<Longrightarrow> m div 8 < 16" using m(3) full by linarith+
    show ?thesis unfolding ipv6_prefix_match_def Let_def m(1,2) q(1) using q(2) by auto
  qed
  also have "\<dots> \<longleftrightarrow> (\<forall>q < m div 8. a ! q = b ! q) \<and>
      (\<forall>k < m mod 8. bit (a ! (m div 8)) (7 - k) = bit (b ! (m div 8)) (7 - k))"
    by (auto simp: masked_byte_iff [OF r])
  also have "\<dots> \<longleftrightarrow> take m (addr_bits a) = take m (addr_bits b)"
    using take_addr_bits_iff [of a b m] assms(1,2) m(3) prefix_bits_split [of m a b]
    by (simp add: agree_bit_def)
  finally show ?thesis by (simp add: m_def)
qed

section \<open>Properties\<close>

text \<open>
  C24. IPv6 prefix matching compares exactly the first \<open>n\<close> bits: for 16-byte addresses and a
  prefix length from 0 to 128, \<open>ipv6_prefix_match\<close> holds iff the bit strings of the two addresses
  (most significant bit first) agree on their first \<open>n\<close> positions.
\<close>

theorem ipv6_prefix_match_bits:
  assumes "length a = 16" and "length b = 16" and "0 \<le> n" and "n \<le> 128"
  shows "ipv6_prefix_match a b n \<longleftrightarrow> take (nat n) (addr_bits a) = take (nat n) (addr_bits b)"
  using assms by (rule prefix_match_take)

theorem ipv6_prefix_match_bits_witness:
  "ipv6_prefix_match (0xFE # 0x80 # replicate 14 0) (0xFE # 0xBF # replicate 14 1) 10"
proof -
  have "take 10 (addr_bits (0xFE # 0x80 # replicate 14 0)) = take 10 (addr_bits (0xFE # 0xBF # replicate 14 1))"
    by code_simp
  then show ?thesis
    using ipv6_prefix_match_bits [of "0xFE # 0x80 # replicate 14 0" "0xFE # 0xBF # replicate 14 1" 10] by simp
qed

text \<open>An entry routes a destination when its prefix is a prefix of the bits of the address.\<close>

definition routes_v6 :: "u8 list \<Rightarrow> route_entry \<Rightarrow> bool" where
  "routes_v6 dst e \<longleftrightarrow> r_used e \<and> r_af e = AF_INET6 \<and>
     take (nat (r_prefix_len e)) (addr_bits dst) = take (nat (r_prefix_len e)) (addr_bits (r_dst e))"

lemma v6_match_routes:
  assumes "route_wf t" "e \<in> set t" "length dst = 16"
  shows "v6_match dst e = routes_v6 dst e" "routes_v6 dst e \<Longrightarrow> 0 \<le> r_prefix_len e"
proof -
  have e: "length (r_dst e) = 16" "r_used e \<and> r_af e = AF_INET6 \<Longrightarrow> 0 \<le> r_prefix_len e \<and> r_prefix_len e \<le> 128"
    using assms(1,2) by (auto simp: route_wf_def AF_INET_def AF_INET6_def)
  then show "v6_match dst e = routes_v6 dst e" "routes_v6 dst e \<Longrightarrow> 0 \<le> r_prefix_len e"
    using prefix_match_take [OF assms(3) e(1)] by (auto simp: v6_match_def routes_v6_def)
qed

text \<open>
  C28. Longest prefix for IPv6. In a well-formed table, for a 16-byte destination, either no used IPv6 entry has a prefix of the destination's bits, and \<open>route_lookup_v6\<close> fails with \<open>ERR_NOENT\<close>; or there
  is such an entry whose prefix is the longest of all (the first such), and the next hop is its gateway, or the destination itself when the gateway is all
  zero. Having a prefix is stated on the bit strings, most significant bit first.
\<close>

theorem route_lookup_v6_longest:
  assumes "route_wf t" and "length dst = 16"
  shows "if \<exists>e \<in> set t. routes_v6 dst e
    then \<exists>i < length t. routes_v6 dst (t ! i) \<and>
      (\<forall>j < length t. routes_v6 dst (t ! j) \<longrightarrow> r_prefix_len (t ! j) \<le> r_prefix_len (t ! i) \<and> (j < i \<longrightarrow> r_prefix_len (t ! j) < r_prefix_len (t ! i))) \<and>
      route_lookup_v6 dst t = (ERR_OK, Some (if r_gw (t ! i) = replicate 16 0 then dst else r_gw (t ! i)))
    else route_lookup_v6 dst t = (ERR_NOENT, None)"
proof (cases "best_route (v6_match dst) 0 t None (-1)")
  case None
  then have "\<not> routes_v6 dst e" if "e \<in> set t" for e
    using v6_match_routes [OF assms(1) that assms(2)] that by (force simp: best_route_None)
  with None show ?thesis by (auto simp: route_lookup_v6_def)
next
  case (Some i)
  have i: "i < length t" "v6_match dst (t ! i)" "\<forall>e \<in> set t. v6_match dst e \<longrightarrow> r_prefix_len e \<le> r_prefix_len (t ! i)"
      "\<forall>j < i. v6_match dst (t ! j) \<longrightarrow> r_prefix_len (t ! j) < r_prefix_len (t ! i)"
    using best_route_scan [OF Some] by simp_all
  have m: "v6_match dst (t ! j) = routes_v6 dst (t ! j)" if "j < length t" for j using v6_match_routes(1) [OF assms(1) _ assms(2)] that by simp
  have "length (r_gw (t ! i)) = 16" using assms(1) i(1) by (simp add: route_wf_def)
  then have "route_lookup_v6 dst t = (ERR_OK, Some (if r_gw (t ! i) = replicate 16 0 then dst else r_gw (t ! i)))"
    using Some assms(2) by (simp add: route_lookup_v6_def)
  moreover have "\<forall>j < length t. routes_v6 dst (t ! j) \<longrightarrow> r_prefix_len (t ! j) \<le> r_prefix_len (t ! i) \<and> (j < i \<longrightarrow> r_prefix_len (t ! j) < r_prefix_len (t ! i))"
    using i m by auto
  ultimately show ?thesis using i(1,2) m [OF i(1)] by (auto simp del: split_paired_Ex)
qed

text \<open>A table with a default route and a direct one for fe80::/10.\<close>

definition two_routes :: route_table where
  "two_routes = snd (route_add_v6 (0xFE # 0x80 # replicate 14 0) 10 (replicate 16 0) (snd (route_add_v6 (replicate 16 0) 0 (replicate 16 7) route_table_boot)))"

theorem route_lookup_v6_longest_witness:
  "route_wf two_routes \<and> routes_v6 (0xFE # 0x9A # replicate 14 1) (two_routes ! 0) \<and> routes_v6 (0xFE # 0x9A # replicate 14 1) (two_routes ! 1) \<and>
   fst (route_lookup_v6 (0xFE # 0x9A # replicate 14 1) two_routes) = ERR_OK \<and>
   route_lookup_v6 (0xFE # 0x9A # replicate 14 1) two_routes = (ERR_OK, Some (0xFE # 0x9A # replicate 14 1)) \<and>
   route_lookup_v6 (0xFD # replicate 15 1) two_routes = (ERR_OK, Some (replicate 16 7))"
proof -
  let ?d = "0xFE # 0x9A # replicate 14 1 :: u8 list"
  have w: "route_wf two_routes" unfolding two_routes_def by (intro route_wf_add_v6 route_wf_boot) simp_all
  have r: "routes_v6 ?d (two_routes ! 0)" "routes_v6 ?d (two_routes ! 1)" by code_simp+
  have "length two_routes = 8" using w by (simp add: route_wf_def ROUTE_TABLE_SIZE_def)
  then have "\<exists>e \<in> set two_routes. routes_v6 ?d e" using r(1) by (intro bexI [of _ "two_routes ! 0"]) simp_all
  then have "fst (route_lookup_v6 ?d two_routes) = ERR_OK" using route_lookup_v6_longest [OF w, of ?d] by auto
  moreover have "route_lookup_v6 ?d two_routes = (ERR_OK, Some ?d)" "route_lookup_v6 (0xFD # replicate 15 1) two_routes = (ERR_OK, Some (replicate 16 7))" by code_simp+
  ultimately show ?thesis using w r by simp
qed

text \<open>
  The table invariant: 8 entries, 16-byte address fields, and every used entry is an IPv4
  entry with a prefix of 0 to 32 or an IPv6 entry with a prefix of 0 to 128. Every operation of
  the table keeps it, and a successful \<open>route_add_v4\<close> stores an entry that reads back as given.
\<close>

theorem route_table_invariant:
  assumes "route_wf t" and "length d6 = 16" and "length g6 = 16"
  shows "route_wf (route_clear t) \<and> route_wf (snd (route_del_v4 d n t)) \<and>
    route_wf (snd (route_del_v6 d6 n t)) \<and> route_wf (snd (route_add_v4 d n g t)) \<and>
    route_wf (snd (route_add_v6 d6 n g6 t)) \<and> route_wf (snd (route_init b t)) \<and>
    (fst (route_add_v4 d n g t) = ERR_OK \<longrightarrow>
      (\<exists>e \<in> set (snd (route_add_v4 d n g t)). r_used e \<and> r_af e = AF_INET \<and> r_prefix_len e = n \<and>
         get_v4 (r_dst e) = d \<and> get_v4 (r_gw e) = g))"
proof -
  have "\<exists>e \<in> set (snd (route_add_v4 d n g t)). r_used e \<and> r_af e = AF_INET \<and> r_prefix_len e = n \<and>
      get_v4 (r_dst e) = d \<and> get_v4 (r_gw e) = g" if "fst (route_add_v4 d n g t) = ERR_OK"
    using that assms(1)
    by (auto simp: route_add_v4_def split: if_splits option.splits
        intro!: bexI [OF _ set_update_memI] dest: route_wf_nth find_idx_bound)
  then show ?thesis
    using assms by (simp add: route_wf_clear route_wf_del route_wf_add_v4 route_wf_add_v6 route_init_def)
qed

theorem route_table_invariant_witness:
  "route_wf (snd (route_add_v6 (replicate 16 1) 64 (replicate 16 2) route_table_boot))"
  using route_table_invariant [OF route_wf_boot, of "replicate 16 1" "replicate 16 2" _ 64] by simp

text \<open>
  The IPv4 mask is applied to the wrong end of the address: \<open>ipv4_to_u32\<close> puts the first byte
  in the low bits and the mask keeps the high bits, so a /24 entry matches on the \<^emph>\<open>last\<close> three
  bytes and ignores the first. In the table that \<open>route_init\<close> builds, the host 10.0.2.15 on the
  connected network 10.0.2.0/24 is sent to the gateway 10.0.2.2, and 99.0.2.0 is taken for a
  neighbour.
\<close>

theorem route_v4_mask_wrong_end:
  "v4_match (a, b, c, d)
     \<lparr>r_used = True, r_af = AF_INET, r_dst = [a', b', c', d'] @ u, r_prefix_len = 24, r_gw = g, r_metric = m\<rparr>
     = (b = b' \<and> c = c' \<and> d = d') \<and>
   route_lookup_v4 (10, 0, 2, 15) (snd (route_init False route_table_boot)) = (ERR_OK, Some (10, 0, 2, 2)) \<and>
   route_lookup_v4 (99, 0, 2, 0) (snd (route_init False route_table_boot)) = (ERR_OK, Some (99, 0, 2, 0))"
proof (intro conjI)
  show "v4_match (a, b, c, d)
     \<lparr>r_used = True, r_af = AF_INET, r_dst = [a', b', c', d'] @ u, r_prefix_len = 24, r_gw = g, r_metric = m\<rparr>
     = (b = b' \<and> c = c' \<and> d = d')"
    by (simp add: v4_match_def v4_mask_24 get_v4_def masked24_iff del: ipv4_to_u32.simps)
  show "route_lookup_v4 (10, 0, 2, 15) (snd (route_init False route_table_boot)) = (ERR_OK, Some (10, 0, 2, 2))"
    by code_simp
  show "route_lookup_v4 (99, 0, 2, 0) (snd (route_init False route_table_boot)) = (ERR_OK, Some (99, 0, 2, 0))"
    by code_simp
qed

end
