(* ===== verification/Swap.thy ===== *)
theory Swap
  imports Kernel_Prelude
begin

text \<open>
  The swap store of \<^verbatim>\<open>kernel/swap.c\<close> and the swap page-table entries of \<^verbatim>\<open>kernel/swap.h\<close>. The
  state is the slot bitmap, the counters and the physical memory, a function from addresses to
  bytes; pages are copied byte by byte between the pool and the caller's page.
\<close>

definition PAGE_SIZE :: nat where
  "PAGE_SIZE = 4096"

definition SWAP_MAX_SLOTS :: nat where
  "SWAP_MAX_SLOTS = 1024"

record swap_state =
  swap_bitmap :: "u8 list"
  swap_nslots :: nat
  swap_pool_phys :: u64
  swap_initialized :: bool
  phys_mem :: "u64 \<Rightarrow> u8"

definition swap_boot :: "(u64 \<Rightarrow> u8) \<Rightarrow> swap_state" where
  "swap_boot m = \<lparr>swap_bitmap = replicate (SWAP_MAX_SLOTS div 8) 0, swap_nslots = 0, swap_pool_phys = 0,
     swap_initialized = False, phys_mem = m\<rparr>"

text \<open>Copying and clearing \<open>n\<close> bytes of memory; source and destination do not overlap.\<close>

definition mem_copy :: "u64 \<Rightarrow> u64 \<Rightarrow> nat \<Rightarrow> (u64 \<Rightarrow> u8) \<Rightarrow> (u64 \<Rightarrow> u8)" where
  "mem_copy dst src n m = (\<lambda>a. if unat (a - dst) < n then m (src + (a - dst)) else m a)"

definition mem_set :: "u64 \<Rightarrow> u8 \<Rightarrow> nat \<Rightarrow> (u64 \<Rightarrow> u8) \<Rightarrow> (u64 \<Rightarrow> u8)" where
  "mem_set dst v n m = (\<lambda>a. if unat (a - dst) < n then v else m a)"

definition bit_free :: "u8 list \<Rightarrow> nat \<Rightarrow> bool" where
  "bit_free bm i \<longleftrightarrow> bm ! (i div 8) AND push_bit (i mod 8) 1 \<noteq> 0"

definition bit_take :: "nat \<Rightarrow> u8 list \<Rightarrow> u8 list" where
  "bit_take i bm = bm[i div 8 := bm ! (i div 8) AND NOT (push_bit (i mod 8) 1)]"

definition bit_give :: "nat \<Rightarrow> u8 list \<Rightarrow> u8 list" where
  "bit_give i bm = bm[i div 8 := bm ! (i div 8) OR push_bit (i mod 8) 1]"

text \<open>\<open>pool\<close> is what \<open>pmm_alloc_pages(4)\<close> returned, 0 when there is no memory.\<close>

definition swap_init :: "u64 \<Rightarrow> swap_state \<Rightarrow> err_t \<times> swap_state" where
  "swap_init pool s =
     (if pool = 0 then (ERR_NOMEM, s\<lparr>swap_nslots := 4, swap_pool_phys := 0\<rparr>)
      else (ERR_OK, s\<lparr>swap_nslots := 4, swap_pool_phys := pool,
              swap_bitmap := fold bit_take [4..<SWAP_MAX_SLOTS] (replicate (SWAP_MAX_SLOTS div 8) 0xFF),
              swap_initialized := True\<rparr>))"

definition slot_phys :: "swap_state \<Rightarrow> nat \<Rightarrow> u64" where
  "slot_phys s i = swap_pool_phys s + of_nat i * of_nat PAGE_SIZE"

definition swap_alloc_slot :: "swap_state \<Rightarrow> nat option \<times> swap_state" where
  "swap_alloc_slot s =
     (if \<not> swap_initialized s then (None, s)
      else case find_idx (bit_free (swap_bitmap s)) [0..<swap_nslots s] of
        Some i \<Rightarrow> (Some i, s\<lparr>swap_bitmap := bit_take i (swap_bitmap s),
                            phys_mem := mem_set (slot_phys s i) 0 PAGE_SIZE (phys_mem s)\<rparr>)
      | None \<Rightarrow> (None, s))"

definition swap_free_slot :: "int \<Rightarrow> swap_state \<Rightarrow> swap_state" where
  "swap_free_slot slot s =
     (if \<not> swap_initialized s \<or> slot < 0 \<or> slot \<ge> int (swap_nslots s) then s
      else s\<lparr>swap_bitmap := bit_give (nat slot) (swap_bitmap s)\<rparr>)"

definition swap_out :: "int \<Rightarrow> u64 \<Rightarrow> swap_state \<Rightarrow> err_t \<times> swap_state" where
  "swap_out slot phys_addr s =
     (if \<not> swap_initialized s then (ERR_GENERAL, s)
      else if slot < 0 \<or> slot \<ge> int (swap_nslots s) then (ERR_INVAL, s)
      else if phys_addr = 0 then (ERR_INVAL, s)
      else if bit_free (swap_bitmap s) (nat slot) then (ERR_INVAL, s)
      else (ERR_OK, s\<lparr>phys_mem := mem_copy (slot_phys s (nat slot)) phys_addr PAGE_SIZE (phys_mem s)\<rparr>))"

definition swap_in :: "int \<Rightarrow> u64 \<Rightarrow> swap_state \<Rightarrow> err_t \<times> swap_state" where
  "swap_in slot phys_addr s =
     (if \<not> swap_initialized s then (ERR_GENERAL, s)
      else if slot < 0 \<or> slot \<ge> int (swap_nslots s) then (ERR_INVAL, s)
      else if phys_addr = 0 then (ERR_INVAL, s)
      else (ERR_OK, s\<lparr>phys_mem := mem_copy phys_addr (slot_phys s (nat slot)) PAGE_SIZE (phys_mem s)\<rparr>))"

definition swap_used_slots :: "swap_state \<Rightarrow> nat" where
  "swap_used_slots s =
     (if \<not> swap_initialized s then 0
      else length (filter (\<lambda>i. \<not> bit_free (swap_bitmap s) i) [0..<swap_nslots s]))"

definition swap_total_slots :: "swap_state \<Rightarrow> nat" where
  "swap_total_slots s = swap_nslots s"

section \<open>Swap page-table entries (swap.h)\<close>

definition SWAP_PTE_MARKER :: u64 where
  "SWAP_PTE_MARKER = push_bit 1 1"

definition SWAP_PTE_FLAGS_MASK :: u64 where
  "SWAP_PTE_FLAGS_MASK = 0xFFC"

text \<open>A slot number is a C \<open>int\<close>: 32 bits, sign-extended by the cast to 64 bits.\<close>

definition swap_encode_pte :: "32 word \<Rightarrow> u64 \<Rightarrow> u64" where
  "swap_encode_pte slot orig_flags =
     push_bit 12 (scast slot) OR SWAP_PTE_MARKER OR (orig_flags AND SWAP_PTE_FLAGS_MASK)"

definition swap_decode_pte :: "u64 \<Rightarrow> 32 word" where
  "swap_decode_pte pte = ucast (drop_bit 12 pte AND 0xFFFFFFFFFF)"

definition swap_decode_pte_flags :: "u64 \<Rightarrow> u64" where
  "swap_decode_pte_flags pte = pte AND SWAP_PTE_FLAGS_MASK"

section \<open>The bitmap as a set of slots\<close>

lemma find_idx_0: "0 < n \<Longrightarrow> P 0 \<Longrightarrow> find_idx P [0..<n] = Some 0"
  by (simp add: upt_conv_Cons)

lemma find_idx_upt: "find_idx P [0..<n] = Some i \<Longrightarrow> i < n \<and> P i \<and> (\<forall>j < i. \<not> P j)"
  by (auto dest!: find_idx_SomeD)

lemma find_idx_upt_None: "find_idx P [0..<n] = None \<longleftrightarrow> (\<forall>j < n. \<not> P j)"
  by (simp add: find_idx_None_iff)

lemma bit_free_iff: "bit_free bm i \<longleftrightarrow> bit (bm ! (i div 8)) (i mod 8)"
proof -
  have "bm ! (i div 8) AND push_bit (i mod 8) 1 \<noteq> 0 \<longleftrightarrow> bit (bm ! (i div 8)) (i mod 8)"
    by (simp add: bit_iff_and_push_bit_not_eq_0)
  then show ?thesis by (simp add: bit_free_def)
qed

lemma bit_exp_u8: "bit (2 ^ (i mod 8) :: u8) n \<longleftrightarrow> n = i mod 8"
  by (auto simp: bit_exp_iff)

lemma bit_take_free:
  assumes "i div 8 < length bm"
  shows "bit_free (bit_take i bm) j \<longleftrightarrow> bit_free bm j \<and> j \<noteq> i"
proof (cases "j div 8 = i div 8")
  case True
  have "j mod 8 = i mod 8 \<longleftrightarrow> j = i" using True by (metis div_mod_decomp)
  with True assms show ?thesis
    by (auto simp: bit_free_iff bit_take_def bit_and_iff bit_not_iff bit_exp_u8 push_bit_eq_mult)
next
  case False
  then show ?thesis by (auto simp: bit_free_iff bit_take_def)
qed

lemma bit_give_free:
  assumes "i div 8 < length bm"
  shows "bit_free (bit_give i bm) j \<longleftrightarrow> bit_free bm j \<or> j = i"
proof (cases "j div 8 = i div 8")
  case True
  have "j mod 8 = i mod 8 \<longleftrightarrow> j = i" using True by (metis div_mod_decomp)
  with True assms show ?thesis
    by (auto simp: bit_free_iff bit_give_def bit_or_iff bit_exp_u8 push_bit_eq_mult)
next
  case False
  then show ?thesis by (auto simp: bit_free_iff bit_give_def)
qed

definition swap_wf :: "swap_state \<Rightarrow> bool" where
  "swap_wf s \<longleftrightarrow> swap_initialized s \<and> length (swap_bitmap s) = SWAP_MAX_SLOTS div 8 \<and>
     swap_nslots s \<le> SWAP_MAX_SLOTS"

definition swap_used :: "swap_state \<Rightarrow> nat set" where
  "swap_used s = {i. i < swap_nslots s \<and> \<not> bit_free (swap_bitmap s) i}"

lemma swap_wf_div: "swap_wf s \<Longrightarrow> i < swap_nslots s \<Longrightarrow> i div 8 < length (swap_bitmap s)"
  by (auto simp: swap_wf_def SWAP_MAX_SLOTS_def)

interpretation swap: slot_allocator swap_alloc_slot "\<lambda>i. swap_free_slot (int i)" swap_used swap_nslots swap_wf
proof (unfold_locales, goal_cases)
  case (1 s i s')
  then have f: "find_idx (bit_free (swap_bitmap s)) [0..<swap_nslots s] = Some i"
    and s': "swap_bitmap s' = bit_take i (swap_bitmap s)" "swap_nslots s' = swap_nslots s"
      "swap_initialized s' = swap_initialized s"
    by (auto simp: swap_alloc_slot_def swap_wf_def split: option.splits)
  note i = find_idx_upt [OF f]
  note b = bit_take_free [OF swap_wf_div [OF 1(1)], of i]
  have "length (swap_bitmap s') = length (swap_bitmap s)" using s' by (simp add: bit_take_def)
  with i b s' 1(1) show ?case by (auto simp: swap_used_def swap_wf_def)
next
  case (2 s s')
  then have "find_idx (bit_free (swap_bitmap s)) [0..<swap_nslots s] = None"
    by (auto simp: swap_alloc_slot_def swap_wf_def split: option.splits)
  then show ?case by (auto simp: find_idx_upt_None swap_used_def)
next
  case (3 s)
  then show ?case by (auto simp: swap_used_def)
next
  case (4 s i)
  note b = bit_give_free [OF swap_wf_div [OF 4(1)], of i]
  have "length (bit_give i (swap_bitmap s)) = length (swap_bitmap s)" by (simp add: bit_give_def)
  with b 4 show ?case by (auto simp: swap_used_def swap_free_slot_def swap_wf_def)
qed


section \<open>Initialisation\<close>

lemma bit_free_fold:
  "\<forall>i \<in> set is. i div 8 < length bm \<Longrightarrow>
     length (fold bit_take is bm) = length bm \<and> (bit_free (fold bit_take is bm) j \<longleftrightarrow> bit_free bm j \<and> j \<notin> set is)"
proof (induction "is" arbitrary: bm)
  case Nil
  then show ?case by simp
next
  case (Cons i "is")
  have "length (bit_take i bm) = length bm" by (simp add: bit_take_def)
  with Cons.IH [of "bit_take i bm"] Cons.prems bit_take_free [of i bm j] show ?case by auto
qed

lemma bit_ff: "n < 8 \<Longrightarrow> bit (0xFF :: u8) n"
proof -
  assume n: "n < 8"
  have eq: "(0xFF :: u8) = mask 8" by (simp add: mask_eq_exp_minus_1)
  show ?thesis unfolding eq using n by (simp add: bit_mask_iff)
qed

lemma slot_div: "i < SWAP_MAX_SLOTS \<Longrightarrow> i div 8 < SWAP_MAX_SLOTS div 8"
  by (simp add: SWAP_MAX_SLOTS_def)

lemma swap_init_free:
  assumes "pool \<noteq> 0" and "swap_init pool s = (e, s')"
  shows "e = ERR_OK \<and> swap_wf s' \<and> swap_nslots s' = 4 \<and> swap_used s' = {}"
proof -
  let ?bm = "replicate (SWAP_MAX_SLOTS div 8) (0xFF :: u8)"
  have r: "\<forall>i \<in> set [4..<SWAP_MAX_SLOTS]. i div 8 < length ?bm" using slot_div by simp
  have ff: "bit_free ?bm j" if "j < 4" for j
    using that bit_ff [of "j mod 8"] slot_div [of j] by (simp add: bit_free_iff SWAP_MAX_SLOTS_def)
  note f = bit_free_fold [OF r]
  have s': "e = ERR_OK" "swap_nslots s' = 4" "swap_initialized s'"
    "swap_bitmap s' = fold bit_take [4..<SWAP_MAX_SLOTS] ?bm"
    using assms by (auto simp: swap_init_def)
  have "swap_used s' = {}"
    using f ff by (auto simp: swap_used_def s'(2) s'(4))
  moreover have "4 \<le> SWAP_MAX_SLOTS" by (simp add: SWAP_MAX_SLOTS_def)
  ultimately show ?thesis using s' f by (simp add: swap_wf_def)
qed

section \<open>Pages\<close>

definition page :: "u64 \<Rightarrow> (u64 \<Rightarrow> u8) \<Rightarrow> u8 list" where
  "page a m = map (\<lambda>i. m (a + of_nat i)) [0..<PAGE_SIZE]"

definition page_disjoint :: "u64 \<Rightarrow> u64 \<Rightarrow> bool" where
  "page_disjoint a b \<longleftrightarrow> PAGE_SIZE \<le> unat (a - b) \<and> PAGE_SIZE \<le> unat (b - a)"

lemma mod_sum_zero:
  assumes "(x + y) mod n = 0" and "0 < x" and "x < n" and "y < (n::nat)"
  shows "x + y = n"
proof (rule ccontr)
  assume ne: "x + y \<noteq> n"
  consider "x + y < n" | "n < x + y" using ne by linarith
  then show False
  proof cases
    case 1
    with assms show False by simp
  next
    case 2
    then have "(x + y) mod n = x + y - n" using assms(3,4) by (simp add: mod_if)
    with assms(1) 2 show False by simp
  qed
qed

lemma page_offset:
  assumes "page_disjoint a b" and "i < PAGE_SIZE"
  shows "\<not> unat (a + of_nat i - b) < PAGE_SIZE"
proof
  let ?d = "unat (a - b)"
  assume lt: "unat (a + of_nat i - b) < PAGE_SIZE"
  have i: "unat (of_nat i :: u64) = i" using assms(2) by (simp add: PAGE_SIZE_def unat_of_nat)
  have eq: "a + of_nat i - b = (a - b) + of_nat i" by simp
  have sum: "unat (a + of_nat i - b) = (?d + i) mod 2 ^ 64"
    unfolding eq using i by (simp add: unat_word_ariths(1) [of "a - b"])
  have d: "?d < 2 ^ 64" by (rule unat_u64_less)
  have ba: "unat (b - a) = 2 ^ 64 - ?d"
  proof -
    have "unat ((a - b) + (b - a)) = (?d + unat (b - a)) mod 2 ^ 64"
      by (simp only: unat_word_ariths(1)) simp
    then have "(?d + unat (b - a)) mod 2 ^ 64 = 0" by simp
    moreover have "unat (b - a) < 2 ^ 64" by (rule unat_u64_less)
    moreover have "0 < ?d" "0 < unat (b - a)" using assms(1) by (auto simp: page_disjoint_def PAGE_SIZE_def)
    ultimately show ?thesis using d mod_sum_zero [of ?d "unat (b - a)" "2 ^ 64"] by linarith
  qed
  show False
  proof (cases "?d + i < 2 ^ 64")
    case True
    with sum lt assms(1) show False by (simp add: page_disjoint_def)
  next
    case False
    with ba assms d show False by (auto simp: page_disjoint_def)
  qed
qed

lemma page_copy_self:
  "page dst (mem_copy dst src PAGE_SIZE m) = page src m"
  by (auto simp: page_def mem_copy_def PAGE_SIZE_def unat_of_nat)

lemma page_copy_other: "page_disjoint a dst \<Longrightarrow> page a (mem_copy dst src PAGE_SIZE m) = page a m"
  using page_offset [of a dst] by (auto simp: page_def mem_copy_def)

lemma page_set_other: "page_disjoint a dst \<Longrightarrow> page a (mem_set dst v PAGE_SIZE m) = page a m"
  using page_offset [of a dst] by (auto simp: page_def mem_set_def)


section \<open>Operations on other slots\<close>

text \<open>
  What can happen to the store between a \<open>swap_out\<close> and the matching \<open>swap_in\<close>: any operation
  on another slot. A page that is swapped in does not lie in the pool slot of \<open>k\<close>.
\<close>

inductive swap_other :: "nat \<Rightarrow> swap_state \<Rightarrow> swap_state \<Rightarrow> bool" for k where
  other_refl: "swap_other k s s"
| other_out: "swap_other k s t \<Longrightarrow> int k \<noteq> j \<Longrightarrow> swap_out j a t = (e, u) \<Longrightarrow> swap_other k s u"
| other_in: "swap_other k s t \<Longrightarrow> page_disjoint (slot_phys t k) a \<Longrightarrow> swap_in j a t = (e, u) \<Longrightarrow> swap_other k s u"
| other_alloc: "swap_other k s t \<Longrightarrow> swap_alloc_slot t = (r, u) \<Longrightarrow> swap_other k s u"
| other_free: "swap_other k s t \<Longrightarrow> int k \<noteq> j \<Longrightarrow> u = swap_free_slot j t \<Longrightarrow> swap_other k s u"

lemma slots_disjoint:
  assumes "i \<noteq> j" and "i \<le> SWAP_MAX_SLOTS" and "j \<le> SWAP_MAX_SLOTS"
  shows "page_disjoint (slot_phys s i) (slot_phys s j)"
proof -
  have gen: "PAGE_SIZE \<le> unat (of_nat x * of_nat PAGE_SIZE - of_nat y * of_nat PAGE_SIZE :: u64)"
    if "x \<noteq> y" "x \<le> 1024" "y \<le> 1024" for x y
  proof (cases "y < x")
    case True
    then have eq: "(of_nat x * of_nat PAGE_SIZE - of_nat y * of_nat PAGE_SIZE :: u64) = of_nat ((x - y) * PAGE_SIZE)"
      by (simp add: of_nat_diff left_diff_distrib)
    have "unat (of_nat ((x - y) * PAGE_SIZE) :: u64) = (x - y) * PAGE_SIZE"
      using that by (subst unat_of_nat) (simp add: PAGE_SIZE_def)
    with eq True show ?thesis by (simp add: PAGE_SIZE_def)
  next
    case False
    have "(of_nat ((y - x) * PAGE_SIZE) :: u64) = of_nat y * of_nat PAGE_SIZE - of_nat x * of_nat PAGE_SIZE"
      using False by (simp add: of_nat_diff left_diff_distrib)
    then have eq: "(of_nat x * of_nat PAGE_SIZE - of_nat y * of_nat PAGE_SIZE :: u64) =
        of_nat (2 ^ 64 - (y - x) * PAGE_SIZE)"
      using that by (subst of_nat_diff) (auto simp: PAGE_SIZE_def)
    have "unat (of_nat (2 ^ 64 - (y - x) * PAGE_SIZE) :: u64) = 2 ^ 64 - (y - x) * PAGE_SIZE"
      using that False by (subst unat_of_nat) (simp add: PAGE_SIZE_def)
    with eq that show ?thesis by (simp add: PAGE_SIZE_def)
  qed
  have d: "slot_phys s i - slot_phys s j = of_nat i * of_nat PAGE_SIZE - of_nat j * of_nat PAGE_SIZE"
    "slot_phys s j - slot_phys s i = of_nat j * of_nat PAGE_SIZE - of_nat i * of_nat PAGE_SIZE"
    by (simp_all add: slot_phys_def)
  show ?thesis
    unfolding page_disjoint_def d using gen [of i j] gen [of j i] assms by (auto simp: SWAP_MAX_SLOTS_def)
qed

definition swap_keeps :: "nat \<Rightarrow> swap_state \<Rightarrow> swap_state \<Rightarrow> bool" where
  "swap_keeps k s t \<longleftrightarrow> swap_wf t \<and> swap_nslots t = swap_nslots s \<and> swap_pool_phys t = swap_pool_phys s \<and>
     k \<in> swap_used t \<and> page (slot_phys s k) (phys_mem t) = page (slot_phys s k) (phys_mem s)"

lemma slot_phys_eq: "swap_pool_phys t = swap_pool_phys s \<Longrightarrow> slot_phys t k = slot_phys s k"
  by (simp add: slot_phys_def)

lemma swap_keeps_out:
  assumes "swap_keeps k s t" and "int k \<noteq> j" and "swap_out j a t = (e, u)"
  shows "swap_keeps k s u"
proof (cases "e = ERR_OK")
  case True
  with assms(3) have j: "0 \<le> j" "j < int (swap_nslots t)"
    and u: "u = t\<lparr>phys_mem := mem_copy (slot_phys t (nat j)) a PAGE_SIZE (phys_mem t)\<rparr>"
    by (auto simp: swap_out_def split: if_splits)
  have "page_disjoint (slot_phys t k) (slot_phys t (nat j))"
    using assms(1,2) j by (intro slots_disjoint) (auto simp: swap_keeps_def swap_wf_def swap_used_def)
  then have "page (slot_phys s k) (phys_mem u) = page (slot_phys s k) (phys_mem t)"
    using assms(1) u slot_phys_eq [of t s] by (simp add: swap_keeps_def page_copy_other)
  with assms(1) u show ?thesis by (simp add: swap_keeps_def swap_wf_def swap_used_def)
next
  case False
  with assms show ?thesis by (auto simp: swap_out_def split: if_splits)
qed

lemma swap_keeps_in:
  assumes "swap_keeps k s t" and "page_disjoint (slot_phys t k) a" and "swap_in j a t = (e, u)"
  shows "swap_keeps k s u"
proof (cases "e = ERR_OK")
  case True
  with assms(3) have u: "u = t\<lparr>phys_mem := mem_copy a (slot_phys t (nat j)) PAGE_SIZE (phys_mem t)\<rparr>"
    by (auto simp: swap_in_def split: if_splits)
  have "page (slot_phys s k) (phys_mem u) = page (slot_phys s k) (phys_mem t)"
    using assms(1,2) u slot_phys_eq [of t s] by (simp add: swap_keeps_def page_copy_other)
  with assms(1) u show ?thesis by (simp add: swap_keeps_def swap_wf_def swap_used_def)
next
  case False
  with assms show ?thesis by (auto simp: swap_in_def split: if_splits)
qed

lemma swap_keeps_alloc:
  assumes "swap_keeps k s t" and "swap_alloc_slot t = (r, u)"
  shows "swap_keeps k s u"
proof (cases r)
  case None
  with assms show ?thesis by (auto simp: swap_alloc_slot_def split: if_splits option.splits)
next
  case (Some i)
  have wf: "swap_wf t" and k: "k \<in> swap_used t" using assms(1) by (auto simp: swap_keeps_def)
  note al = swap.alloc_Some [OF wf assms(2) [unfolded Some]]
  have u: "phys_mem u = mem_set (slot_phys t i) 0 PAGE_SIZE (phys_mem t)" "swap_pool_phys u = swap_pool_phys t"
    using assms(2) Some by (auto simp: swap_alloc_slot_def split: if_splits option.splits)
  have "page_disjoint (slot_phys t k) (slot_phys t i)"
    using al k wf by (intro slots_disjoint) (auto simp: swap_used_def swap_wf_def)
  then have "page (slot_phys s k) (phys_mem u) = page (slot_phys s k) (phys_mem t)"
    using assms(1) u slot_phys_eq [of t s] by (simp add: swap_keeps_def page_set_other)
  with assms(1) u al show ?thesis by (auto simp: swap_keeps_def)
qed

lemma swap_keeps_free:
  assumes "swap_keeps k s t" and "int k \<noteq> j"
  shows "swap_keeps k s (swap_free_slot j t)"
proof (cases "0 \<le> j \<and> j < int (swap_nslots t)")
  case True
  then obtain i where i: "j = int i" "i < swap_nslots t" by (metis nat_0_le of_nat_less_iff)
  from swap.release_used [of t i] assms i show ?thesis
    by (auto simp: swap_keeps_def swap_free_slot_def)
next
  case False
  with assms show ?thesis by (auto simp: swap_free_slot_def)
qed

lemma swap_keeps_refl: "swap_wf s \<Longrightarrow> k \<in> swap_used s \<Longrightarrow> swap_keeps k s s"
  by (simp add: swap_keeps_def)

lemma swap_other_keeps: "swap_other k s t \<Longrightarrow> swap_wf s \<Longrightarrow> k \<in> swap_used s \<Longrightarrow> swap_keeps k s t"
  by (induction rule: swap_other.induct)
    (auto intro: swap_keeps_refl swap_keeps_out swap_keeps_in swap_keeps_alloc swap_keeps_free)

lemma swap_used_slots_card:
  assumes "swap_wf s"
  shows "swap_used_slots s = card (swap_used s)"
proof -
  have "set (filter (\<lambda>i. \<not> bit_free (swap_bitmap s) i) [0..<swap_nslots s]) = swap_used s"
    by (auto simp: swap_used_def)
  then have "card (swap_used s) = length (filter (\<lambda>i. \<not> bit_free (swap_bitmap s) i) [0..<swap_nslots s])"
    by (metis distinct_card distinct_filter distinct_upt)
  with assms show ?thesis by (simp add: swap_used_slots_def swap_wf_def)
qed

lemma page_set_self: "page a (mem_set a v PAGE_SIZE m) = replicate PAGE_SIZE v"
  by (auto simp: page_def mem_set_def PAGE_SIZE_def unat_of_nat map_replicate_const intro!: nth_equalityI)

section \<open>Properties\<close>

text \<open>
  C17. A page survives swapping: when \<open>swap_out\<close> has stored the page at \<open>a\<close> in a claimed slot and
  only other slots are used in between (allocated, freed, swapped out and in), \<open>swap_in\<close> to any
  page \<open>b\<close> succeeds and \<open>b\<close> then holds the bytes that \<open>a\<close> had.
\<close>

theorem swap_round_trip:
  assumes wf: "swap_wf s" and k: "k \<in> swap_used s" and a: "a \<noteq> 0" and b: "b \<noteq> 0"
    and out: "swap_out (int k) a s = (e, s1)" and other: "swap_other k s1 s2"
    and inn: "swap_in (int k) b s2 = (e', s3)"
  shows "e = ERR_OK \<and> e' = ERR_OK \<and> page b (phys_mem s3) = page a (phys_mem s)"
proof -
  have kn: "k < swap_nslots s" "\<not> bit_free (swap_bitmap s) k" using k by (auto simp: swap_used_def)
  have s1: "e = ERR_OK" "s1 = s\<lparr>phys_mem := mem_copy (slot_phys s k) a PAGE_SIZE (phys_mem s)\<rparr>"
    using out wf kn a by (auto simp: swap_out_def swap_wf_def)
  have "swap_wf s1" "k \<in> swap_used s1" using wf k s1(2) by (auto simp: swap_wf_def swap_used_def)
  from swap_other_keeps [OF other this] have kp: "swap_keeps k s1 s2" .
  then have s3: "e' = ERR_OK" "s3 = s2\<lparr>phys_mem := mem_copy b (slot_phys s2 k) PAGE_SIZE (phys_mem s2)\<rparr>"
    using inn kn b s1(2) by (auto simp: swap_in_def swap_keeps_def swap_wf_def)
  have "page b (phys_mem s3) = page (slot_phys s2 k) (phys_mem s2)"
    using s3(2) by (simp add: page_copy_self)
  also have "\<dots> = page (slot_phys s1 k) (phys_mem s1)"
    using kp slot_phys_eq [of s2 s1 k] by (simp add: swap_keeps_def)
  also have "\<dots> = page a (phys_mem s)"
    using s1(2) by (simp add: page_copy_self slot_phys_def)
  finally show ?thesis using s1(1) s3(1) by simp
qed


theorem swap_round_trip_witness:
  "\<exists>s s1 s3. swap_init 0x100000 (swap_boot (\<lambda>a. if a = 0x5003 then 42 else 0)) = (ERR_OK, s) \<and>
     swap_out 0 0x5000 (snd (swap_alloc_slot s)) = (ERR_OK, s1) \<and> swap_in 0 0x9000 s1 = (ERR_OK, s3) \<and>
     page 0x9000 (phys_mem s3) = page 0x5000 (phys_mem (snd (swap_alloc_slot s)))"
proof -
  obtain e s where i: "swap_init 0x100000 (swap_boot (\<lambda>a. if a = 0x5003 then 42 else 0)) = (e, s)"
    by fastforce
  have s: "e = ERR_OK" "swap_wf s" "swap_nslots s = 4" "swap_used s = {}"
    using swap_init_free [OF _ i] by auto
  have "find_idx (bit_free (swap_bitmap s)) [0..<swap_nslots s] = Some 0"
    using s(3,4) by (intro find_idx_0) (auto simp: swap_used_def)
  then obtain t where al: "swap_alloc_slot s = (Some 0, t)"
    using s(2) by (simp add: swap_alloc_slot_def swap_wf_def)
  have t: "swap_wf t" "0 \<in> swap_used t" using swap.alloc_Some [OF s(2) al] by auto
  obtain e1 s1 where out: "swap_out (int 0) 0x5000 t = (e1, s1)" by fastforce
  obtain e3 s3 where inn: "swap_in (int 0) 0x9000 s1 = (e3, s3)" by fastforce
  have "e1 = ERR_OK \<and> e3 = ERR_OK \<and> page 0x9000 (phys_mem s3) = page 0x5000 (phys_mem t)"
    by (rule swap_round_trip [OF t _ _ out other_refl inn]) simp_all
  with i s(1) al out inn show ?thesis by auto
qed

text \<open>
  Slots are exclusive: \<open>swap_alloc_slot\<close> either hands out a slot that was free, clears its
  page and marks exactly that slot used, or fails, and then every slot is in use. The counter of
  \<open>swap_used_slots\<close> follows.
\<close>

theorem swap_alloc_exclusive:
  assumes wf: "swap_wf s" and al: "swap_alloc_slot s = (r, s')"
  shows "case r of
      None \<Rightarrow> s' = s \<and> swap_used_slots s = swap_total_slots s
    | Some i \<Rightarrow> i < swap_total_slots s \<and> i \<notin> swap_used s \<and> swap_used s' = insert i (swap_used s) \<and>
        swap_used_slots s' = Suc (swap_used_slots s) \<and>
        page (slot_phys s i) (phys_mem s') = replicate PAGE_SIZE 0 \<and> swap_wf s'"
proof (cases r)
  case None
  with al have "s' = s" by (auto simp: swap_alloc_slot_def split: if_splits option.splits)
  with None swap.alloc_None_full [OF wf al [unfolded None]] swap_used_slots_card [OF wf] show ?thesis
    by (simp add: swap_total_slots_def)
next
  case (Some i)
  note a = swap.alloc_Some [OF wf al [unfolded Some]] and c = swap.alloc_card [OF wf al [unfolded Some]]
  have "phys_mem s' = mem_set (slot_phys s i) 0 PAGE_SIZE (phys_mem s)"
    using al Some by (auto simp: swap_alloc_slot_def split: if_splits option.splits)
  with Some a c swap_used_slots_card [OF wf] swap_used_slots_card [of s'] show ?thesis
    by (simp add: swap_total_slots_def page_set_self)
qed

theorem swap_alloc_exclusive_witness:
  "\<exists>s s'. swap_init 0x100000 (swap_boot (\<lambda>_. 7)) = (ERR_OK, s) \<and> swap_alloc_slot s = (Some 0, s') \<and>
     swap_used s' = {0}"
proof -
  obtain e s where i: "swap_init 0x100000 (swap_boot (\<lambda>_. 7)) = (e, s)" by fastforce
  have s: "e = ERR_OK" "swap_wf s" "swap_nslots s = 4" "swap_used s = {}"
    using swap_init_free [OF _ i] by auto
  have "find_idx (bit_free (swap_bitmap s)) [0..<swap_nslots s] = Some 0"
    using s(3,4) by (intro find_idx_0) (auto simp: swap_used_def)
  then obtain t where al: "swap_alloc_slot s = (Some 0, t)"
    using s(2) by (simp add: swap_alloc_slot_def swap_wf_def)
  from swap_alloc_exclusive [OF s(2) al] s al i show ?thesis by auto
qed

text \<open>
  A swap entry is not mistaken for a present page and loses nothing: bit 0 (present) is
  clear, bit 1 (the marker) is set, the slot number decodes to itself for every 32-bit slot, and
  the flag bits 2 to 11 of the original entry come back.
\<close>

theorem swap_pte_round_trip:
  "\<not> bit (swap_encode_pte slot flags) 0 \<and> bit (swap_encode_pte slot flags) 1 \<and>
   swap_decode_pte (swap_encode_pte slot flags) = slot \<and>
   swap_decode_pte_flags (swap_encode_pte slot flags) = flags AND SWAP_PTE_FLAGS_MASK"
proof -
  have m: "bit SWAP_PTE_FLAGS_MASK n \<longleftrightarrow> 2 \<le> n \<and> n < 12" for n
  proof -
    have eq: "SWAP_PTE_FLAGS_MASK = push_bit 2 (mask 10)"
      by (simp add: SWAP_PTE_FLAGS_MASK_def mask_eq_exp_minus_1 push_bit_eq_mult)
    show ?thesis unfolding eq by (auto simp: bit_push_bit_iff bit_mask_iff)
  qed
  have k: "bit SWAP_PTE_MARKER n \<longleftrightarrow> n = 1" for n
    unfolding SWAP_PTE_MARKER_def by (auto simp only: bit_push_bit_iff bit_1_iff) simp_all
  have e: "bit (swap_encode_pte slot flags) n \<longleftrightarrow>
      (12 \<le> n \<and> n < 64 \<and> bit (scast slot :: u64) (n - 12)) \<or> n = 1 \<or> (2 \<le> n \<and> n < 12 \<and> bit flags n)" for n
    by (auto simp: swap_encode_pte_def bit_or_iff bit_and_iff bit_push_bit_iff m k)
  have f40: "(0xFFFFFFFFFF :: u64) = mask 40" by (simp add: mask_eq_exp_minus_1)
  have "swap_decode_pte (swap_encode_pte slot flags) = slot"
  proof (rule bit_word_eqI)
    fix n assume n: "n < LENGTH(32)"
    have "bit (swap_decode_pte (swap_encode_pte slot flags)) n \<longleftrightarrow> bit (swap_encode_pte slot flags) (n + 12)"
      unfolding swap_decode_pte_def f40 using n
      by (auto simp: bit_unsigned_iff bit_and_iff bit_drop_bit_eq bit_mask_iff add.commute)
    also have "\<dots> \<longleftrightarrow> bit slot n" using n
      by (cases "n = 31") (auto simp: e bit_signed_iff min_def)
    finally show "bit (swap_decode_pte (swap_encode_pte slot flags)) n = bit slot n" .
  qed
  moreover have "swap_decode_pte_flags (swap_encode_pte slot flags) = flags AND SWAP_PTE_FLAGS_MASK"
    by (rule bit_word_eqI) (auto simp: swap_decode_pte_flags_def bit_and_iff m e)
  ultimately show ?thesis by (simp add: e)
qed

end
