(* ===== verification/Links.thy ===== *)
theory Links
  imports Kernel_Prelude
begin

text \<open>
  Doubly linked lists threaded through objects, as the kernel builds them by hand: two link
  fields \<open>N\<close> (next) and \<open>P\<close> (previous) per object and separate head and tail pointers. \<open>dll\<close> relates
  such links to the list they represent; the lemmas give the effect of the two pointer
  manipulations every list of the kernel performs, appending at the tail and unlinking a node.
\<close>

definition first_of :: "'a list \<Rightarrow> 'a option \<Rightarrow> 'a option" where
  "first_of xs q = (case xs of [] \<Rightarrow> q | x # _ \<Rightarrow> Some x)"

definition final_of :: "'a option \<Rightarrow> 'a list \<Rightarrow> 'a option" where
  "final_of p xs = (if xs = [] then p else Some (last xs))"

fun dll :: "('a \<Rightarrow> 'a option) \<Rightarrow> ('a \<Rightarrow> 'a option) \<Rightarrow> 'a option \<Rightarrow> 'a list \<Rightarrow> 'a option \<Rightarrow> bool" where
  "dll N P p [] q = True"
| "dll N P p (x # xs) q = (P x = p \<and> N x = first_of xs q \<and> dll N P (Some x) xs q)"

lemma first_of_simps [simp]:
  "first_of [] q = q" "first_of (x # xs) q = Some x"
  by (simp_all add: first_of_def)

lemma final_of_simps [simp]:
  "final_of p [] = p" "final_of p (xs @ [x]) = Some x" "final_of p (x # xs) = final_of (Some x) xs"
  by (simp_all add: final_of_def)

lemma first_of_append: "first_of (xs @ ys) q = first_of xs (first_of ys q)"
  by (cases xs) simp_all

lemma final_of_append: "final_of p (xs @ ys) = final_of (final_of p xs) ys"
  by (simp add: final_of_def)

lemma first_of_None [simp]: "first_of xs None = None \<longleftrightarrow> xs = []"
  by (cases xs) simp_all

lemma final_of_None [simp]: "final_of None xs = None \<longleftrightarrow> xs = []"
  by (simp add: final_of_def)

lemma final_of_mem: "final_of None xs = Some x \<Longrightarrow> x \<in> set xs"
  by (auto simp: final_of_def split: if_splits)

lemma first_of_mem: "first_of xs None = Some x \<Longrightarrow> x \<in> set xs"
  by (cases xs) simp_all

lemma dll_append: "dll N P p (xs @ ys) q \<longleftrightarrow> dll N P p xs (first_of ys q) \<and> dll N P (final_of p xs) ys q"
  by (induction xs arbitrary: p) (auto simp: first_of_append)

lemma dll_cong:
  "\<forall>x\<in>set xs. N' x = N x \<and> P' x = P x \<Longrightarrow> dll N' P' p xs q = dll N P p xs q"
  by (induction xs arbitrary: p) auto

text \<open>Redirecting the last node's next pointer, and the first node's previous pointer.\<close>

lemma dll_set_last:
  "dll N P p xs q \<Longrightarrow> distinct xs \<Longrightarrow>
   dll (case final_of None xs of Some l \<Rightarrow> N(l := q') | None \<Rightarrow> N) P p xs q'"
proof (induction xs rule: rev_induct)
  case (snoc x xs)
  have "dll (N(x := q')) P p xs (Some x) = dll N P p xs (Some x)"
    using snoc.prems by (intro dll_cong) auto
  then show ?case
    using snoc.prems by (simp add: dll_append fun_upd_def)
qed simp

lemma dll_set_first:
  assumes "dll N P p xs q" "distinct xs"
  shows "dll N (case first_of xs None of Some f \<Rightarrow> P(f := p') | None \<Rightarrow> P) p' xs q"
proof (cases xs)
  case (Cons x ys)
  have "dll N (P(x := p')) (Some x) ys q = dll N P (Some x) ys q"
    using assms Cons by (intro dll_cong) auto
  then show ?thesis
    using assms Cons by simp
qed simp

text \<open>Appending \<open>t\<close> after the tail.\<close>

definition snoc_next :: "'a \<Rightarrow> 'a option \<Rightarrow> ('a \<Rightarrow> 'a option) \<Rightarrow> 'a \<Rightarrow> 'a option" where
  "snoc_next t tl_ptr N = (case tl_ptr of Some l \<Rightarrow> N(l := Some t) | None \<Rightarrow> N)(t := None)"

lemma dll_snoc:
  assumes "dll N P None xs None" "distinct xs" "t \<notin> set xs"
  shows "dll (snoc_next t (final_of None xs) N) (P(t := final_of None xs)) None (xs @ [t]) None"
proof -
  have "dll (case final_of None xs of Some l \<Rightarrow> N(l := Some t) | None \<Rightarrow> N) P None xs (Some t)"
    using assms by (intro dll_set_last) auto
  then have "dll (snoc_next t (final_of None xs) N) (P(t := final_of None xs)) None xs (Some t)"
    using assms by (subst dll_cong [where N = "case final_of None xs of Some l \<Rightarrow> N(l := Some t) | None \<Rightarrow> N"
      and P = P]) (auto simp: snoc_next_def)
  then show ?thesis
    by (simp add: dll_append snoc_next_def)
qed

text \<open>Unlinking \<open>t\<close>.\<close>

definition unlink_next :: "'a \<Rightarrow> ('a \<Rightarrow> 'a option) \<Rightarrow> ('a \<Rightarrow> 'a option) \<Rightarrow> 'a \<Rightarrow> 'a option" where
  "unlink_next t N P = (case P t of Some p \<Rightarrow> N(p := N t) | None \<Rightarrow> N)(t := None)"

definition unlink_prev :: "'a \<Rightarrow> ('a \<Rightarrow> 'a option) \<Rightarrow> ('a \<Rightarrow> 'a option) \<Rightarrow> 'a \<Rightarrow> 'a option" where
  "unlink_prev t N P = (case N t of Some n \<Rightarrow> P(n := P t) | None \<Rightarrow> P)(t := None)"

lemma dll_at:
  assumes "dll N P None (xs @ t # ys) None"
  shows "P t = final_of None xs" "N t = first_of ys None"
  using assms by (simp_all add: dll_append)

lemma dll_unlink:
  assumes d: "dll N P None (xs @ t # ys) None" and dist: "distinct (xs @ t # ys)"
  shows "dll (unlink_next t N P) (unlink_prev t N P) None (xs @ ys) None"
proof -
  note at = dll_at [OF d]
  have x: "dll N P None xs (Some t)" and y: "dll N P (Some t) ys None"
    using d by (simp_all add: dll_append)
  have "dll (case final_of None xs of Some l \<Rightarrow> N(l := first_of ys None) | None \<Rightarrow> N) P None xs (first_of ys None)"
    using x dist by (intro dll_set_last) auto
  then have 1: "dll (unlink_next t N P) (unlink_prev t N P) None xs (first_of ys None)"
    using dist by (subst dll_cong [where P = P and
        N = "case final_of None xs of Some l \<Rightarrow> N(l := first_of ys None) | None \<Rightarrow> N"])
      (auto simp: unlink_next_def unlink_prev_def at split: option.splits dest: first_of_mem)
  have "dll N (case first_of ys None of Some f \<Rightarrow> P(f := final_of None xs) | None \<Rightarrow> P) (final_of None xs) ys None"
    using y dist by (intro dll_set_first) auto
  then have 2: "dll (unlink_next t N P) (unlink_prev t N P) (final_of None xs) ys None"
    using dist by (subst dll_cong [where N = N and
        P = "case first_of ys None of Some f \<Rightarrow> P(f := final_of None xs) | None \<Rightarrow> P"])
      (auto simp: unlink_next_def unlink_prev_def at split: option.splits dest: final_of_mem)
  show ?thesis
    using 1 2 by (simp add: dll_append)
qed

text \<open>Following the next pointers from the head visits the represented list, in order.\<close>

fun walk :: "nat \<Rightarrow> ('a \<Rightarrow> 'a option) \<Rightarrow> 'a option \<Rightarrow> 'a list" where
  "walk 0 N p = []"
| "walk (Suc k) N p = (case p of None \<Rightarrow> [] | Some x \<Rightarrow> x # walk k N (N x))"

lemma walk_dll: "dll N P p xs None \<Longrightarrow> length xs \<le> k \<Longrightarrow> walk k N (first_of xs None) = xs"
proof (induction xs arbitrary: p k)
  case Nil
  then show ?case by (cases k) simp_all
next
  case (Cons x xs)
  then show ?case by (cases k) auto
qed

lemma dll_first_None_prev: "dll N P None (x # xs) q \<Longrightarrow> P x = None"
  by simp

lemma dll_prev_None_is_first:
  assumes "dll N P None xs None" "t \<in> set xs" "P t = None"
  shows "\<exists>ys. xs = t # ys"
proof -
  obtain us vs where xs: "xs = us @ t # vs"
    using assms(2) by (meson split_list)
  then have "us = []"
    using assms dll_at(1) [of N P us t vs] by simp
  then show ?thesis
    using xs by simp
qed

end
