(* ===== verification/Sched_Queue.thy ===== *)
theory Sched_Queue
  imports Links
begin

text \<open>
  The run queues of \<^verbatim>\<open>kernel/sched.c\<close>: per CPU and per priority a doubly linked list through
  the thread control blocks, with head and tail pointers, a count per priority, a total and a
  256-bit bitmap of non-empty priorities. Pointers are \<open>nat option\<close>, the memory of the thread
  control blocks is \<open>thr\<close>. The operations run under \<open>sched_queue_lock\<close>.
\<close>

section \<open>Threads and per-CPU data (sched.h, smp.h)\<close>

datatype thread_state =
    THREAD_CREATED | THREAD_READY | THREAD_RUNNING | THREAD_BLOCKED | THREAD_SLEEPING
  | THREAD_ZOMBIE | THREAD_TERMINATED

record wait_queue =
  wq_waiters :: "nat option"
  wq_count :: u32

record thread =
  t_rsp :: u64
  t_id :: u64
  t_cr3 :: u64
  t_state :: thread_state
  t_priority :: int
  t_base_priority :: int
  t_time_slice :: u64
  t_total_ticks :: u64
  t_age_ticks :: u64
  t_wakeup_tick :: u64
  t_wakeup_rdtsc :: u64
  t_rq_next :: "nat option"
  t_rq_prev :: "nat option"
  t_wq_next :: "nat option"
  t_all_next :: "nat option"
  t_all_prev :: "nat option"
  t_join_queue :: wait_queue
  t_kernel_stack :: u64
  t_kernel_stack_size :: u64
  t_exit_code :: int
  t_cpu_queue :: nat
  t_cpu_affinity :: u64

text \<open>
  The last two fields of \<open>percpu\<close> stand for registers of that CPU: the page-table root in CR3 and
  the kernel stack pointer that \<open>hal_set_kernel_stack\<close> puts into its TSS.
\<close>

record percpu =
  pc_cpu_thread :: "nat option"
  pc_idle_thread :: "nat option"
  pc_rq_heads :: "nat \<Rightarrow> nat option"
  pc_rq_tails :: "nat \<Rightarrow> nat option"
  pc_rq_counts :: "nat \<Rightarrow> u32"
  pc_bitmap :: "u64 list"
  pc_rq_total :: u32
  pc_need_reschedule :: bool
  pc_idle_wake_hint :: u64
  pc_cpu_id :: nat
  pc_aging_counter :: u64
  pc_balance_counter :: u64
  pc_last_check :: u64
  pc_last_balance :: u64
  pc_retiring :: "nat option"
  pc_cr3 :: u64
  pc_kstack :: u64

datatype cpu_state = CPU_STATE_OFFLINE | CPU_STATE_ONLINE | CPU_STATE_GOING_DOWN

text \<open>
  The scheduler's globals. \<open>this_cpu\<close> is what \<open>smp_cpu_id()\<close> returns, \<open>ipis\<close> logs the reschedule
  interrupts sent to other CPUs (newest first), \<open>tsc\<close> and \<open>timer_ticks\<close> are what \<open>rdtsc()\<close> and
  \<open>hal_timer_get_ticks()\<close> return. \<open>lock_tries\<close> holds the answers the next calls of
  \<open>spinlock_try_acquire\<close> get from the hardware: False when another CPU holds the lock.
\<close>

record sched =
  thr :: "nat \<Rightarrow> thread"
  pcps :: "nat \<Rightarrow> percpu option"
  all_head :: "nat option"
  all_tail :: "nat option"
  all_count :: u32
  idle_thr :: "nat option"
  kernel_cr3 :: u64
  nr_cpus :: nat
  smp_enabled :: bool
  this_cpu :: nat
  sched_running :: bool
  sched_switch_count :: u64
  sched_yield_count :: u64
  ipis :: "nat list"
  tsc :: u64
  tsc_khz :: u64
  timer_ticks :: u64
  lock_tries :: "bool list"
  current_global :: "nat option"
  next_thread_id :: u64
  ap_ready_count :: int
  ap_tick_counter :: u64
  cpu_states :: "nat \<Rightarrow> cpu_state"

definition MAX_CPUS :: nat where
  "MAX_CPUS = 64"

definition THREAD_MAX_PRIO :: int where
  "THREAD_MAX_PRIO = 255"

definition THREAD_TIME_SLICE :: u64 where
  "THREAD_TIME_SLICE = 10"

definition AGING_INTERVAL :: u64 where
  "AGING_INTERVAL = 20"

definition upd_thr :: "nat \<Rightarrow> (thread \<Rightarrow> thread) \<Rightarrow> sched \<Rightarrow> sched" where
  "upd_thr t f s = s\<lparr>thr := (thr s)(t := f (thr s t))\<rparr>"

definition upd_pcp :: "nat \<Rightarrow> (percpu \<Rightarrow> percpu) \<Rightarrow> sched \<Rightarrow> sched" where
  "upd_pcp c f s = s\<lparr>pcps := (pcps s)(c := map_option f (pcps s c))\<rparr>"

section \<open>The priority bitmap\<close>

definition bitmap_set :: "nat \<Rightarrow> u64 list \<Rightarrow> u64 list" where
  "bitmap_set p bm = bm[p div 64 := bm ! (p div 64) OR push_bit (p mod 64) 1]"

definition bitmap_clear :: "nat \<Rightarrow> u64 list \<Rightarrow> u64 list" where
  "bitmap_clear p bm = bm[p div 64 := bm ! (p div 64) AND NOT (push_bit (p mod 64) 1)]"

text \<open>\<^verbatim>\<open>63 - __builtin_clzll(w)\<close>: the index of the highest bit set in a non-zero word.\<close>

definition highest_bit :: "u64 \<Rightarrow> nat" where
  "highest_bit w = fold (\<lambda>i b. if bit w i then i else b) [0..<64] 0"

fun bitmap_scan :: "nat \<Rightarrow> u64 list \<Rightarrow> nat option" where
  "bitmap_scan 0 bm = None"
| "bitmap_scan (Suc i) bm =
     (if bm ! i \<noteq> 0 then Some (i * 64 + highest_bit (bm ! i)) else bitmap_scan i bm)"

definition bitmap_find_highest :: "percpu \<Rightarrow> nat option" where
  "bitmap_find_highest pcp = bitmap_scan 4 (pc_bitmap pcp)"

section \<open>Enqueue and dequeue\<close>

text \<open>
  A priority as an array index: \<open>uint32_t prio = t->priority\<close>.
\<close>

definition prio_idx :: "int \<Rightarrow> nat" where
  "prio_idx p = unat (word_of_int p :: u32)"

text \<open>Appending thread \<open>t\<close> to the queue of CPU \<open>cpu\<close> at priority \<open>prio\<close>.\<close>

definition rq_append :: "nat \<Rightarrow> nat \<Rightarrow> nat \<Rightarrow> sched \<Rightarrow> sched" where
  "rq_append t cpu prio s = (case pcps s cpu of
     None \<Rightarrow> s
   | Some pcp \<Rightarrow>
       (let tail = pc_rq_tails pcp prio;
            s1 = (case tail of
                    Some l \<Rightarrow> upd_thr l (\<lambda>x. x\<lparr>t_rq_next := Some t\<rparr>) s
                  | None \<Rightarrow> upd_pcp cpu (\<lambda>c. c\<lparr>pc_rq_heads := (pc_rq_heads c)(prio := Some t),
                                             pc_bitmap := bitmap_set prio (pc_bitmap c)\<rparr>) s);
            s2 = upd_thr t (\<lambda>x. x\<lparr>t_rq_prev := tail, t_rq_next := None\<rparr>) s1
        in upd_pcp cpu (\<lambda>c. c\<lparr>pc_rq_tails := (pc_rq_tails c)(prio := Some t),
                             pc_rq_counts := (pc_rq_counts c)(prio := pc_rq_counts c prio + 1),
                             pc_rq_total := pc_rq_total c + 1\<rparr>) s2))"

definition sched_add_thread_to_cpu_locked :: "nat option \<Rightarrow> nat \<Rightarrow> sched \<Rightarrow> sched" where
  "sched_add_thread_to_cpu_locked ot cpu s = (case ot of
     None \<Rightarrow> s
   | Some t \<Rightarrow>
       if t_priority (thr s t) < 0 \<or> t_priority (thr s t) > THREAD_MAX_PRIO then s
       else if cpu \<ge> MAX_CPUS \<or> pcps s cpu = None then s
       else upd_thr t (\<lambda>x. x\<lparr>t_cpu_queue := cpu, t_state := THREAD_READY\<rparr>)
              (rq_append t cpu (prio_idx (t_priority (thr s t))) s))"

definition smp_send_reschedule :: "nat \<Rightarrow> sched \<Rightarrow> sched" where
  "smp_send_reschedule cpu s =
     (if cpu \<ge> nr_cpus s then s
      else (let s1 = upd_pcp cpu (\<lambda>c. c\<lparr>pc_need_reschedule := True\<rparr>) s
            in if cpu \<noteq> this_cpu s1 then s1\<lparr>ipis := cpu # ipis s1\<rparr> else s1))"

definition cpu_is_idle :: "nat \<Rightarrow> sched \<Rightarrow> bool" where
  "cpu_is_idle cpu s = (case pcps s cpu of None \<Rightarrow> False | Some p \<Rightarrow> pc_cpu_thread p = pc_idle_thread p)"

definition sched_add_thread_to_cpu :: "nat option \<Rightarrow> nat \<Rightarrow> sched \<Rightarrow> sched" where
  "sched_add_thread_to_cpu ot cpu s =
     (let s1 = sched_add_thread_to_cpu_locked ot cpu s
      in if cpu \<noteq> this_cpu s1 \<and> pcps s1 cpu \<noteq> None \<and> cpu_is_idle cpu s1
         then smp_send_reschedule cpu s1 else s1)"

text \<open>
  The affinity is truncated to a C \<open>int\<close> before the search and its bits are read back through a
  64-bit mask, so a negative value is sign-extended.
\<close>

definition choose_cpu :: "nat \<Rightarrow> sched \<Rightarrow> nat" where
  "choose_cpu t s =
     (let cpu = this_cpu s; aff = t_cpu_affinity (thr s t);
          mask = (scast (ucast aff :: 32 word) :: u64)
      in if aff \<noteq> 0 \<and> \<not> bit aff cpu then
           (case find_idx (bit mask) [0..<nr_cpus s] of Some c \<Rightarrow> c | None \<Rightarrow> cpu)
         else cpu)"

definition sched_add_thread :: "nat option \<Rightarrow> sched \<Rightarrow> sched" where
  "sched_add_thread ot s = (case ot of
     None \<Rightarrow> s
   | Some t \<Rightarrow> sched_add_thread_to_cpu (Some t) (choose_cpu t s) s)"

definition sched_place_thread :: "nat option \<Rightarrow> nat \<Rightarrow> sched \<Rightarrow> sched" where
  "sched_place_thread ot cpu s =
     (if ot = None \<or> cpu \<ge> MAX_CPUS \<or> pcps s cpu = None then s else sched_add_thread_to_cpu ot cpu s)"

definition sched_add_thread_locked :: "nat option \<Rightarrow> sched \<Rightarrow> sched" where
  "sched_add_thread_locked ot s = sched_add_thread_to_cpu_locked ot (this_cpu s) s"

text \<open>
  Unlinking thread \<open>t\<close> from the queue of CPU \<open>cpu\<close> at priority \<open>prio\<close>; \<open>rq_unlink\<close> also clears the
  bitmap bit of a queue that became empty.
\<close>

definition rq_detach :: "nat \<Rightarrow> nat \<Rightarrow> nat \<Rightarrow> sched \<Rightarrow> sched" where
  "rq_detach t cpu prio s =
     (let pv = t_rq_prev (thr s t); nx = t_rq_next (thr s t);
          s1 = (case pv of
                  Some p \<Rightarrow> upd_thr p (\<lambda>x. x\<lparr>t_rq_next := nx\<rparr>) s
                | None \<Rightarrow> upd_pcp cpu (\<lambda>c. c\<lparr>pc_rq_heads := (pc_rq_heads c)(prio := nx)\<rparr>) s);
          s2 = (case nx of
                  Some n \<Rightarrow> upd_thr n (\<lambda>x. x\<lparr>t_rq_prev := pv\<rparr>) s1
                | None \<Rightarrow> upd_pcp cpu (\<lambda>c. c\<lparr>pc_rq_tails := (pc_rq_tails c)(prio := pv)\<rparr>) s1);
          s3 = upd_pcp cpu (\<lambda>c. c\<lparr>pc_rq_counts := (pc_rq_counts c)(prio := pc_rq_counts c prio - 1),
                                 pc_rq_total := pc_rq_total c - 1\<rparr>) s2
      in upd_thr t (\<lambda>x. x\<lparr>t_rq_next := None, t_rq_prev := None\<rparr>) s3)"

definition clear_if_empty :: "nat \<Rightarrow> percpu \<Rightarrow> percpu" where
  "clear_if_empty prio c =
     (if pc_rq_counts c prio = 0 then c\<lparr>pc_bitmap := bitmap_clear prio (pc_bitmap c)\<rparr> else c)"

definition rq_unlink :: "nat \<Rightarrow> nat \<Rightarrow> nat \<Rightarrow> sched \<Rightarrow> sched" where
  "rq_unlink t cpu prio s = upd_pcp cpu (clear_if_empty prio) (rq_detach t cpu prio s)"

definition sched_remove_thread_locked :: "nat option \<Rightarrow> sched \<Rightarrow> sched" where
  "sched_remove_thread_locked ot s = (case ot of
     None \<Rightarrow> s
   | Some t \<Rightarrow>
       (let cpu = t_cpu_queue (thr s t); prio = prio_idx (t_priority (thr s t))
        in if cpu \<ge> MAX_CPUS then s
           else case pcps s cpu of
             None \<Rightarrow> s
           | Some pcp \<Rightarrow>
               if t_rq_prev (thr s t) = None \<and> t_rq_next (thr s t) = None \<and> pc_rq_heads pcp prio \<noteq> Some t
               then s else rq_unlink t cpu prio s))"

definition sched_remove_thread :: "nat option \<Rightarrow> sched \<Rightarrow> sched" where
  "sched_remove_thread ot s = sched_remove_thread_locked ot s"

text \<open>Taking the head \<open>t\<close> off a queue, as \<open>pick_next\<close> and \<open>sched_steal_thread\<close> do.\<close>

definition rq_pop_head :: "nat \<Rightarrow> nat \<Rightarrow> nat \<Rightarrow> sched \<Rightarrow> sched" where
  "rq_pop_head t cpu prio s =
     (let s1 = (case t_rq_next (thr s t) of
                  Some n \<Rightarrow> upd_thr n (\<lambda>x. x\<lparr>t_rq_prev := None\<rparr>)
                     (upd_pcp cpu (\<lambda>c. c\<lparr>pc_rq_heads := (pc_rq_heads c)(prio := Some n)\<rparr>) s)
                | None \<Rightarrow> upd_pcp cpu (\<lambda>c. c\<lparr>pc_rq_heads := (pc_rq_heads c)(prio := None),
                                             pc_rq_tails := (pc_rq_tails c)(prio := None)\<rparr>) s);
          s2 = upd_pcp cpu (\<lambda>c. c\<lparr>pc_rq_counts := (pc_rq_counts c)(prio := pc_rq_counts c prio - 1),
                                 pc_rq_total := pc_rq_total c - 1\<rparr>) s1;
          s3 = upd_pcp cpu (clear_if_empty prio) s2
      in upd_thr t (\<lambda>x. x\<lparr>t_rq_next := None, t_rq_prev := None\<rparr>) s3)"

section \<open>The bitmap as a set of priorities\<close>

definition bm_bit :: "u64 list \<Rightarrow> nat \<Rightarrow> bool" where
  "bm_bit bm p = bit (bm ! (p div 64)) (p mod 64)"

lemma bm_bit_set:
  assumes "length bm = 4" "p < 256"
  shows "bm_bit (bitmap_set p bm) q \<longleftrightarrow> q = p \<or> bm_bit bm q"
proof (cases "q div 64 = p div 64")
  case True
  have "q mod 64 = p mod 64 \<longleftrightarrow> q = p"
    using True by (metis div_mult_mod_eq)
  then show ?thesis
    using assms True by (auto simp: bm_bit_def bitmap_set_def bit_or_iff bit_exp_iff)
next
  case False
  then show ?thesis
    using assms by (auto simp: bm_bit_def bitmap_set_def)
qed

lemma bm_bit_clear:
  assumes "length bm = 4" "p < 256"
  shows "bm_bit (bitmap_clear p bm) q \<longleftrightarrow> q \<noteq> p \<and> bm_bit bm q"
proof (cases "q div 64 = p div 64")
  case True
  have "q mod 64 = p mod 64 \<longleftrightarrow> q = p"
    using True by (metis div_mult_mod_eq)
  then show ?thesis
    using assms True
    by (auto simp: bm_bit_def bitmap_clear_def bit_and_iff bit_not_iff bit_exp_iff)
next
  case False
  then show ?thesis
    using assms by (auto simp: bm_bit_def bitmap_clear_def)
qed

lemma length_bitmap [simp]:
  "length (bitmap_set p bm) = length bm" "length (bitmap_clear p bm) = length bm"
  by (simp_all add: bitmap_set_def bitmap_clear_def)

lemma fold_highest:
  assumes "i < n" "P i"
  defines "r \<equiv> fold (\<lambda>i b. if P i then i else b) [0..<n] (0::nat)"
  shows "P r \<and> r < n \<and> i \<le> r"
  using assms(1) unfolding r_def
proof (induction n)
  case (Suc n)
  then show ?case
    using assms(2) by (cases "i = n") (auto simp: less_Suc_eq)
qed simp

lemma highest_bit_ge: "bit w i \<Longrightarrow> bit w (highest_bit w) \<and> highest_bit w < 64 \<and> i \<le> highest_bit w"
  using fold_highest [of i 64 "bit w"] bit_imp_le_length [of w i] by (simp add: highest_bit_def)

lemma nonzero_has_bit: "w \<noteq> 0 \<Longrightarrow> \<exists>i. bit (w::u64) i"
  by (metis bit_0_eq bit_eq_iff bot_apply bot_bool_def)

lemma bitmap_scan_None: "bitmap_scan k bm = None \<Longrightarrow> p < 64 * k \<Longrightarrow> \<not> bm_bit bm p"
proof (induction k)
  case (Suc k)
  then show ?case
    by (cases "p div 64 = k") (auto simp: bm_bit_def split: if_splits)
qed simp

lemma bitmap_scan_Some:
  "bitmap_scan k bm = Some r \<Longrightarrow>
   r < 64 * k \<and> bm_bit bm r \<and> (\<forall>p<64 * k. bm_bit bm p \<longrightarrow> p \<le> r)"
proof (induction k)
  case (Suc k)
  show ?case
  proof (cases "bm ! k = 0")
    case True
    have IH: "r < 64 * k \<and> bm_bit bm r \<and> (\<forall>p<64 * k. bm_bit bm p \<longrightarrow> p \<le> r)"
      using Suc True by simp
    have "\<not> bm_bit bm p" if "p < 64 * Suc k" "\<not> p < 64 * k" for p
    proof -
      have "p div 64 = k" using that by simp
      then show ?thesis using True by (simp add: bm_bit_def)
    qed
    then show ?thesis using IH by auto
  next
    case False
    let ?h = "highest_bit (bm ! k)"
    obtain i where "bit (bm ! k) i"
      using False nonzero_has_bit by blast
    then have h: "bit (bm ! k) ?h" "?h < 64"
      using highest_bit_ge by blast+
    have r: "r = k * 64 + ?h"
      using False Suc.prems by simp
    have "p \<le> r" if "p < 64 * Suc k" "bm_bit bm p" for p
    proof (cases "p div 64 = k")
      case True
      then have "p mod 64 \<le> ?h"
        using that(2) by (intro highest_bit_ge [THEN conjunct2, THEN conjunct2]) (simp add: bm_bit_def)
      then show ?thesis using True r by (metis add_le_cancel_left div_mult_mod_eq)
    next
      case False
      then show ?thesis using that(1) r by simp
    qed
    moreover have "r div 64 = k" "r mod 64 = ?h"
      using r h(2) by simp_all
    ultimately show ?thesis
      using h r by (simp add: bm_bit_def)
  qed
qed simp

end
