(* ===== verification/Sched.thy ===== *)
theory Sched
  imports Sched_Queue
begin

text \<open>
  The operations of \<^verbatim>\<open>kernel/sched.c\<close> above the run queues: the list of all threads, work
  stealing and balancing, \<open>pick_next\<close>, \<open>schedule\<close>, sleeping, wait queues, exit, join, reaping, the
  timer tick, priorities, affinity and migration. A result of type \<open>option\<close> is None where the code
  halts or panics. Each operation runs to completion on one CPU; what other CPUs do to the two locks
  meanwhile shows in the answers of \<open>spinlock_try_acquire\<close>. \<open>schedule\<close> ends at the context switch: what the resumed thread does
  afterwards, \<open>sched_finalize_retiring\<close>, is an operation of its own, and the stack check is left out.
\<close>

section \<open>Current thread, locks, the list of all threads\<close>

definition current_thread :: "sched \<Rightarrow> nat option" where
  "current_thread s =
     (case pcps s (this_cpu s) of
        Some pcp \<Rightarrow> if this_cpu s < MAX_CPUS then pc_cpu_thread pcp else current_global s
      | None \<Rightarrow> current_global s)"

definition set_current_thread :: "nat option \<Rightarrow> sched \<Rightarrow> sched" where
  "set_current_thread t s = upd_pcp (this_cpu s) (\<lambda>c. c\<lparr>pc_cpu_thread := t\<rparr>) s"

definition spinlock_try_acquire :: "sched \<Rightarrow> bool \<times> sched" where
  "spinlock_try_acquire s =
     (case lock_tries s of [] \<Rightarrow> (True, s) | b # bs \<Rightarrow> (b, s\<lparr>lock_tries := bs\<rparr>))"

definition sched_finalize_retiring :: "sched \<Rightarrow> sched" where
  "sched_finalize_retiring s =
     (case pcps s (this_cpu s) of
        None \<Rightarrow> s
      | Some pcp \<Rightarrow>
          (case pc_retiring pcp of
             None \<Rightarrow> s
           | Some r \<Rightarrow> upd_thr r (\<lambda>x. x\<lparr>t_state := THREAD_TERMINATED\<rparr>)
                        (upd_pcp (this_cpu s) (\<lambda>c. c\<lparr>pc_retiring := None\<rparr>) s)))"

definition all_threads_add :: "nat option \<Rightarrow> sched \<Rightarrow> sched" where
  "all_threads_add ot s = (case ot of
     None \<Rightarrow> s
   | Some t \<Rightarrow>
       if t_all_next (thr s t) \<noteq> None \<or> t_all_prev (thr s t) \<noteq> None then s
       else (let tail = all_tail s;
                 s1 = upd_thr t (\<lambda>x. x\<lparr>t_all_next := None, t_all_prev := tail\<rparr>) s;
                 s2 = (case tail of
                         Some l \<Rightarrow> upd_thr l (\<lambda>x. x\<lparr>t_all_next := Some t\<rparr>) s1
                       | None \<Rightarrow> s1\<lparr>all_head := Some t\<rparr>)
             in s2\<lparr>all_tail := Some t, all_count := all_count s2 + 1\<rparr>))"

definition all_threads_remove :: "nat \<Rightarrow> sched \<Rightarrow> sched" where
  "all_threads_remove t s =
     (let p = t_all_prev (thr s t); n = t_all_next (thr s t);
          s1 = (case p of Some l \<Rightarrow> upd_thr l (\<lambda>x. x\<lparr>t_all_next := n\<rparr>) s | None \<Rightarrow> s\<lparr>all_head := n\<rparr>);
          s2 = (case n of Some l \<Rightarrow> upd_thr l (\<lambda>x. x\<lparr>t_all_prev := p\<rparr>) s1 | None \<Rightarrow> s1\<lparr>all_tail := p\<rparr>);
          s3 = upd_thr t (\<lambda>x. x\<lparr>t_all_next := None, t_all_prev := None\<rparr>) s2
      in s3\<lparr>all_count := all_count s3 - 1\<rparr>)"

text \<open>
  The threads a loop over \<open>all_threads\<close> visits: from the head along \<open>all_next\<close>, which the loop bodies
  do not change for the threads still to come. The fuel is the number of threads on the list.
\<close>

definition all_threads_list :: "sched \<Rightarrow> nat list" where
  "all_threads_list s = walk (unat (all_count s)) (\<lambda>t. t_all_next (thr s t)) (all_head s)"

definition sched_thread_count :: "sched \<Rightarrow> u32" where
  "sched_thread_count s = all_count s"

definition sched_find_thread :: "u64 \<Rightarrow> sched \<Rightarrow> nat option" where
  "sched_find_thread tid s = List.find (\<lambda>t. t_id (thr s t) = tid) (all_threads_list s)"

definition sched_find_thread_by_tid :: "u64 \<Rightarrow> sched \<Rightarrow> nat option" where
  "sched_find_thread_by_tid tid s =
     (if tid = 0 then None else List.find (\<lambda>t. t_id (thr s t) = tid) (all_threads_list s))"

section \<open>Work stealing and load balancing\<close>

fun steal_scan :: "nat list \<Rightarrow> nat \<Rightarrow> sched \<Rightarrow> nat option \<times> sched" where
  "steal_scan [] me s = (None, s)"
| "steal_scan (target # targets) me s =
     (if target = me then steal_scan targets me s
      else case pcps s target of
        None \<Rightarrow> steal_scan targets me s
      | Some tgt \<Rightarrow>
          (case spinlock_try_acquire s of (ok, s1) \<Rightarrow>
             if \<not> ok then steal_scan targets me s1
             else case bitmap_find_highest tgt of
               None \<Rightarrow> steal_scan targets me s1
             | Some tprio \<Rightarrow>
                 (case pc_rq_heads tgt tprio of
                    None \<Rightarrow> steal_scan targets me s1
                  | Some t \<Rightarrow>
                      if Some t = pc_idle_thread tgt then steal_scan targets me s1
                      else if \<not> bit (t_cpu_affinity (thr s1 t)) me then steal_scan targets me s1
                      else (let s2 = upd_thr t (\<lambda>x. x\<lparr>t_cpu_queue := me\<rparr>) (rq_pop_head t target tprio s1)
                            in (Some t, if cpu_is_idle target s2 then smp_send_reschedule target s2 else s2)))))"

definition sched_steal_thread :: "nat \<Rightarrow> sched \<Rightarrow> nat option \<times> sched" where
  "sched_steal_thread me s =
     (let ncpus = (if smp_enabled s then nr_cpus s else 1)
      in if ncpus < 2 then (None, s)
         else steal_scan (map (\<lambda>i. (me + 1 + i) mod ncpus) [0..<ncpus - 1]) me s)"

text \<open>The least loaded CPU a thread may run on, other than \<open>me\<close>, with its load.\<close>

definition best_cpu :: "nat \<Rightarrow> nat \<Rightarrow> nat \<Rightarrow> sched \<Rightarrow> nat option \<times> u32" where
  "best_cpu ct me ncpus s =
     fold (\<lambda>i (best, load).
         if i = me \<or> \<not> bit (t_cpu_affinity (thr s ct)) i then (best, load)
         else case pcps s i of
           None \<Rightarrow> (best, load)
         | Some p \<Rightarrow> if pc_rq_total p < load then (Some i, pc_rq_total p) else (best, load))
       [0..<ncpus] (None, 0xFFFFFFFF)"

fun find_migratable :: "nat list \<Rightarrow> nat \<Rightarrow> nat \<Rightarrow> u32 \<Rightarrow> sched \<Rightarrow> (nat \<times> nat) option" where
  "find_migratable [] me ncpus tot s = None"
| "find_migratable (ct # cts) me ncpus tot s =
     (if t_cpu_affinity (thr s ct) AND NOT (push_bit me 1) = 0 then find_migratable cts me ncpus tot s
      else case best_cpu ct me ncpus s of
        (Some best, load) \<Rightarrow>
          if load + 2 < tot then Some (ct, best) else find_migratable cts me ncpus tot s
      | (None, _) \<Rightarrow> find_migratable cts me ncpus tot s)"

text \<open>\<open>ci\<close> is the index of the per-CPU block the argument \<open>pcp\<close> points to.\<close>

definition sched_balance_push :: "nat \<Rightarrow> nat \<Rightarrow> sched \<Rightarrow> sched" where
  "sched_balance_push me ci s = (case pcps s ci of
     None \<Rightarrow> s
   | Some pcp \<Rightarrow>
       (let ncpus = (if smp_enabled s then nr_cpus s else 1);
            tot = fold (\<lambda>i acc. case pcps s i of None \<Rightarrow> acc | Some p \<Rightarrow> acc + pc_rq_total p) [0..<ncpus] 0;
            avg = tot div of_nat ncpus
        in if ncpus < 2 \<or> pc_rq_total pcp \<le> 1 \<or> pc_rq_total pcp \<le> avg + 2 then s
           else case spinlock_try_acquire s of (ok, s1) \<Rightarrow>
             if \<not> ok then s1
             else case List.find (\<lambda>p. pc_rq_counts pcp p > 0) (rev [0..<256]) of
               None \<Rightarrow> s1
             | Some low \<Rightarrow>
                 (case find_migratable
                         (walk (unat (pc_rq_counts pcp low)) (\<lambda>t. t_rq_next (thr s1 t)) (pc_rq_heads pcp low))
                         me ncpus (pc_rq_total pcp) s1 of
                    None \<Rightarrow> s1
                  | Some (t, target) \<Rightarrow>
                      (let s2 = rq_unlink t ci low s1;
                           s3 = upd_thr t (\<lambda>x. x\<lparr>t_cpu_queue := target\<rparr>)
                                  (rq_append t target (prio_idx (t_priority (thr s2 t))) s2)
                       in if cpu_is_idle target s3 then smp_send_reschedule target s3 else s3))))"

section \<open>Choosing the next thread\<close>

definition steal_or_idle :: "nat \<Rightarrow> nat \<Rightarrow> sched \<Rightarrow> nat option \<times> sched" where
  "steal_or_idle me ci s =
     (case sched_steal_thread me s of
        (Some t, s1) \<Rightarrow> (Some t, s1)
      | (None, s1) \<Rightarrow> (Option.bind (pcps s1 ci) pc_idle_thread, s1))"

definition proactive_steal :: "nat \<Rightarrow> nat \<Rightarrow> sched \<Rightarrow> nat option \<times> sched" where
  "proactive_steal me prio s =
     (if prio > 150 \<and> smp_enabled s \<and> nr_cpus s > 1
      then case sched_steal_thread me s of
             (Some t, s1) \<Rightarrow>
               if t_priority (thr s1 t) < int prio then (Some t, s1) else (None, sched_add_thread (Some t) s1)
           | (None, s1) \<Rightarrow> (None, s1)
      else (None, s))"

definition take_local :: "nat \<Rightarrow> nat \<Rightarrow> nat \<Rightarrow> sched \<Rightarrow> nat option \<times> sched" where
  "take_local me ci prio s =
     (case spinlock_try_acquire s of (ok, s1) \<Rightarrow>
        if \<not> ok then steal_or_idle me ci s1
        else case pcps s1 ci of
          None \<Rightarrow> (None, s1)
        | Some pcp \<Rightarrow>
            (case pc_rq_heads pcp prio of
               None \<Rightarrow> steal_or_idle me ci s1
             | Some t \<Rightarrow>
                 if Some t = pc_idle_thread pcp then steal_or_idle me ci s1
                 else (Some t, rq_pop_head t ci prio s1)))"

definition pick_next :: "nat \<Rightarrow> sched \<Rightarrow> nat option \<times> sched" where
  "pick_next ci s = (case pcps s ci of
     None \<Rightarrow> (None, s)
   | Some pcp \<Rightarrow>
       (case bitmap_find_highest pcp of
          None \<Rightarrow> steal_or_idle (pc_cpu_id pcp) ci s
        | Some prio \<Rightarrow>
            (case proactive_steal (pc_cpu_id pcp) prio s of
               (Some t, s1) \<Rightarrow> (Some t, s1)
             | (None, s1) \<Rightarrow> take_local (pc_cpu_id pcp) ci prio s1)))"

section \<open>Sleepers\<close>

definition sleep_expired :: "nat \<Rightarrow> sched \<Rightarrow> bool" where
  "sleep_expired t s =
     (let x = thr s t in
      t_state x = THREAD_SLEEPING \<and>
        (t_wakeup_rdtsc x > 0 \<and> tsc s \<ge> t_wakeup_rdtsc x \<or>
         t_wakeup_rdtsc x = 0 \<and> t_wakeup_tick x > 0 \<and> t_wakeup_tick x \<le> timer_ticks s))"

text \<open>What every wake-up does to the thread before it is queued.\<close>

definition make_ready :: "thread \<Rightarrow> thread" where
  "make_ready x = x\<lparr>t_state := THREAD_READY, t_priority := t_base_priority x,
                    t_time_slice := THREAD_TIME_SLICE, t_age_ticks := 0\<rparr>"

definition wake_sleeper :: "nat \<Rightarrow> sched \<Rightarrow> sched" where
  "wake_sleeper t s =
     (let target = t_cpu_queue (thr s t); s1 = upd_thr t make_ready s;
          cpu = (if target \<noteq> this_cpu s1 \<and> target < nr_cpus s1 \<and> pcps s1 target \<noteq> None
                 then target else this_cpu s1)
      in upd_pcp cpu (\<lambda>c. c\<lparr>pc_need_reschedule := True\<rparr>) (sched_add_thread_to_cpu_locked (Some t) cpu s1))"

fun sleepers_loop :: "nat list \<Rightarrow> nat \<Rightarrow> sched \<Rightarrow> nat \<times> sched" where
  "sleepers_loop [] woken s = (woken, s)"
| "sleepers_loop (t # ts) woken s =
     (if \<not> sleep_expired t s then sleepers_loop ts woken s
      else case spinlock_try_acquire s of (ok, s1) \<Rightarrow>
        if \<not> ok then sleepers_loop ts woken s1
        else sleepers_loop ts (woken + 1) (wake_sleeper t s1))"

definition check_sleepers :: "sched \<Rightarrow> nat \<times> sched" where
  "check_sleepers s =
     (case spinlock_try_acquire s of (ok, s1) \<Rightarrow>
        if \<not> ok then (0, s1) else sleepers_loop (all_threads_list s1) 0 s1)"

section \<open>The run-time check of the run queues (kernel\_invariant.c)\<close>

text \<open>
  \<open>validate_walk\<close> is the inner loop: it counts the threads of a queue, stops after more than
  \<open>declared + 64\<close> of them and reports a thread in state CREATED (None). The fuel \<open>declared + 65\<close> is
  one more than the number of iterations the loop can make.
\<close>

fun validate_walk :: "nat \<Rightarrow> u32 \<Rightarrow> u32 \<Rightarrow> nat option \<Rightarrow> sched \<Rightarrow> u32 option" where
  "validate_walk 0 declared walked p s = Some walked"
| "validate_walk (Suc k) declared walked p s = (case p of
     None \<Rightarrow> Some walked
   | Some t \<Rightarrow>
       if walked + 1 > declared + 64 then Some (walked + 1)
       else if t_state (thr s t) = THREAD_CREATED then None
       else validate_walk k declared (walked + 1) (t_rq_next (thr s t)) s)"

definition validate_prio :: "percpu \<Rightarrow> sched \<Rightarrow> nat \<Rightarrow> bool" where
  "validate_prio pcp s prio =
     (let declared = pc_rq_counts pcp prio in
      declared = 0 \<and> pc_rq_heads pcp prio = None \<or>
      (case validate_walk (unat declared + 65) declared 0 (pc_rq_heads pcp prio) s of
         None \<Rightarrow> False
       | Some walked \<Rightarrow> \<not> walked > declared + 64 \<and> walked = declared))"

text \<open>The result False stands for the panic.\<close>

definition sched_validate_rq :: "sched \<Rightarrow> bool \<times> sched" where
  "sched_validate_rq s =
     (if \<not> sched_running s \<or> this_cpu s \<ge> MAX_CPUS then (True, s)
      else case pcps s (this_cpu s) of
        None \<Rightarrow> (True, s)
      | Some pcp \<Rightarrow>
          (case spinlock_try_acquire s of (ok, s1) \<Rightarrow>
             (\<not> ok \<or> list_all (validate_prio pcp s1) [0..<256], s1)))"

definition sched_validate_all :: "sched \<Rightarrow> bool" where
  "sched_validate_all s =
     (\<not> sched_running s \<or>
      (case current_thread s of
         None \<Rightarrow> True
       | Some cur \<Rightarrow> t_state (thr s cur) \<in> {THREAD_RUNNING, THREAD_READY, THREAD_BLOCKED, THREAD_SLEEPING, THREAD_ZOMBIE}))"

section \<open>The context switch\<close>

definition periodic_sleepers :: "nat \<Rightarrow> sched \<Rightarrow> sched" where
  "periodic_sleepers c s = (case pcps s c of
     None \<Rightarrow> s
   | Some pcp \<Rightarrow>
       if tsc s - pc_last_check pcp \<ge> tsc_khz s * 10 \<or> pc_last_check pcp = 0
       then snd (check_sleepers (upd_pcp c (\<lambda>p. p\<lparr>pc_last_check := tsc s\<rparr>) s)) else s)"

definition periodic_balance :: "nat \<Rightarrow> sched \<Rightarrow> sched" where
  "periodic_balance c s = (case pcps s c of
     None \<Rightarrow> s
   | Some pcp \<Rightarrow>
       if tsc s - pc_last_balance pcp > tsc_khz s * 100
       then sched_balance_push c c (upd_pcp c (\<lambda>p. p\<lparr>pc_last_balance := tsc s\<rparr>) s) else s)"

text \<open>
  Making \<open>next\<close> the running thread of CPU \<open>c\<close>: its page table, its state and time slice, its kernel
  stack. \<open>switch_context\<close> itself saves and loads machine registers.
\<close>

definition load_cr3 :: "nat \<Rightarrow> nat \<Rightarrow> sched \<Rightarrow> sched" where
  "load_cr3 c nxt s =
     (let target = (if t_cr3 (thr s nxt) \<noteq> 0 then t_cr3 (thr s nxt) else kernel_cr3 s)
      in if target \<noteq> 0 then upd_pcp c (\<lambda>p. p\<lparr>pc_cr3 := target\<rparr>) s else s)"

definition dispatch :: "nat \<Rightarrow> nat \<Rightarrow> sched \<Rightarrow> sched" where
  "dispatch c nxt s =
     (let s1 = upd_pcp c (\<lambda>p. p\<lparr>pc_cpu_thread := Some nxt\<rparr>) s;
          s2 = upd_thr nxt (\<lambda>x. x\<lparr>t_state := THREAD_RUNNING, t_time_slice := THREAD_TIME_SLICE\<rparr>) s1
      in upd_pcp c (\<lambda>p. p\<lparr>pc_kstack := t_kernel_stack (thr s2 nxt) + t_kernel_stack_size (thr s2 nxt)\<rparr>) s2)"

definition rsp_ok :: "thread \<Rightarrow> bool" where
  "rsp_ok x = (t_kernel_stack x = 0 \<or>
     \<not> (t_rsp x < t_kernel_stack x \<or> t_rsp x \<ge> t_kernel_stack x + t_kernel_stack_size x))"

definition requeue_current :: "nat \<Rightarrow> nat \<Rightarrow> sched \<Rightarrow> sched" where
  "requeue_current c cur s =
     (if t_state (thr s cur) = THREAD_RUNNING \<and> Some cur \<noteq> Option.bind (pcps s c) pc_idle_thread
      then sched_add_thread (Some cur)
             (upd_thr cur (\<lambda>x. x\<lparr>t_state := THREAD_READY, t_priority := t_base_priority x, t_age_ticks := 0\<rparr>) s)
      else s)"

definition switch_to :: "nat \<Rightarrow> nat \<Rightarrow> sched \<Rightarrow> sched option" where
  "switch_to c cur s =
     (case pick_next c s of
        (nxt, s1) \<Rightarrow>
          if nxt = Some cur then
            Some (if t_state (thr s1 cur) = THREAD_RUNNING \<and> Some cur \<noteq> Option.bind (pcps s1 c) pc_idle_thread
                  then sched_add_thread nxt s1 else s1)
          else (let s2 = requeue_current c cur s1 in
                case nxt of
                  None \<Rightarrow> None
                | Some n \<Rightarrow>
                    if \<not> rsp_ok (thr s2 n) then None
                    else (let s3 = dispatch c n (load_cr3 c n s2)
                          in Some (s3\<lparr>sched_switch_count := sched_switch_count s3 + 1\<rparr>))))"

definition schedule :: "sched \<Rightarrow> sched option" where
  "schedule s =
     (let c = this_cpu s in
      if c \<ge> MAX_CPUS then None
      else case pcps s c of
        None \<Rightarrow> None
      | Some pcp \<Rightarrow>
          if pc_cpu_id pcp \<noteq> c then None
          else if \<not> sched_running s \<or> pc_cpu_thread pcp = None then Some s
          else case sched_validate_rq s of (ok, s1) \<Rightarrow>
            if \<not> ok \<or> \<not> sched_validate_all s1 then None
            else (let s2 = periodic_balance c (periodic_sleepers c s1);
                      s3 = upd_pcp c (\<lambda>p. p\<lparr>pc_need_reschedule := False\<rparr>) s2
                  in case Option.bind (pcps s3 c) pc_cpu_thread of
                       None \<Rightarrow> None
                     | Some cur \<Rightarrow> switch_to c cur s3))"

definition thread_yield :: "sched \<Rightarrow> sched option" where
  "thread_yield s =
     (case current_thread s of
        None \<Rightarrow> None
      | Some cur \<Rightarrow>
          schedule (upd_thr cur (\<lambda>x. x\<lparr>t_time_slice := 0\<rparr>) (s\<lparr>sched_yield_count := sched_yield_count s + 1\<rparr>)))"

definition thread_sleep :: "u64 \<Rightarrow> sched \<Rightarrow> sched option" where
  "thread_sleep ms s =
     (case current_thread s of
        None \<Rightarrow> Some s
      | Some cur \<Rightarrow>
          schedule (upd_thr cur (\<lambda>x. x\<lparr>t_wakeup_rdtsc := tsc s + ms * tsc_khz s, t_wakeup_tick := 0,
                                       t_state := THREAD_SLEEPING, t_time_slice := 0\<rparr>) s))"

section \<open>Wait queues\<close>

definition wait_queue_init :: wait_queue where
  "wait_queue_init = \<lparr>wq_waiters = None, wq_count = 0\<rparr>"

text \<open>
  The current thread \<open>cur\<close> puts itself in front of the waiters: the critical section of
  \<open>sched_block\<close> and of \<open>thread_join\<close>.
\<close>

definition enter_wait :: "nat \<Rightarrow> wait_queue \<Rightarrow> sched \<Rightarrow> wait_queue \<times> sched" where
  "enter_wait cur wq s =
     (let s1 = (if t_state (thr s cur) = THREAD_READY \<or> t_state (thr s cur) = THREAD_RUNNING
                then sched_remove_thread (Some cur) s else s)
      in (wq\<lparr>wq_waiters := Some cur, wq_count := wq_count wq + 1\<rparr>,
          upd_thr cur (\<lambda>x. x\<lparr>t_state := THREAD_BLOCKED, t_wq_next := wq_waiters wq\<rparr>) s1))"

definition sched_block :: "wait_queue \<Rightarrow> sched \<Rightarrow> (wait_queue \<times> sched) option" where
  "sched_block wq s =
     (case current_thread s of
        None \<Rightarrow> Some (wq, s)
      | Some cur \<Rightarrow>
          (case enter_wait cur wq s of (wq1, s1) \<Rightarrow> map_option (Pair wq1) (schedule s1)))"

definition wake_first :: "nat \<Rightarrow> wait_queue \<Rightarrow> sched \<Rightarrow> wait_queue \<times> sched" where
  "wake_first t wq s =
     (wq\<lparr>wq_waiters := t_wq_next (thr s t), wq_count := wq_count wq - 1\<rparr>,
      sched_add_thread (Some t) (upd_thr t (\<lambda>x. make_ready (x\<lparr>t_wq_next := None\<rparr>)) s))"

definition sched_wake_one :: "wait_queue \<Rightarrow> sched \<Rightarrow> wait_queue \<times> sched" where
  "sched_wake_one wq s =
     (case wq_waiters wq of None \<Rightarrow> (wq, s) | Some t \<Rightarrow> wake_first t wq s)"

text \<open>The loop of \<open>sched_wake\<close>; its fuel is the number of waiters.\<close>

fun wake_loop :: "nat \<Rightarrow> wait_queue \<Rightarrow> sched \<Rightarrow> wait_queue \<times> sched" where
  "wake_loop 0 wq s = (wq, s)"
| "wake_loop (Suc k) wq s =
     (case wq_waiters wq of
        None \<Rightarrow> (wq, s)
      | Some t \<Rightarrow> (case wake_first t wq s of (wq1, s1) \<Rightarrow> wake_loop k wq1 s1))"

definition sched_wake :: "wait_queue \<Rightarrow> sched \<Rightarrow> wait_queue \<times> sched" where
  "sched_wake wq s = wake_loop (unat (wq_count wq)) wq s"

definition wake_joiners :: "nat \<Rightarrow> sched \<Rightarrow> sched" where
  "wake_joiners t s =
     (case sched_wake (t_join_queue (thr s t)) s of (wq, s1) \<Rightarrow> upd_thr t (\<lambda>x. x\<lparr>t_join_queue := wq\<rparr>) s1)"

section \<open>Thread life cycle\<close>

definition THREAD_DEF_PRIO :: int where
  "THREAD_DEF_PRIO = 128"

definition THREAD_IDLE_PRIO :: int where
  "THREAD_IDLE_PRIO = 0"

definition THREAD_STACK_SIZE :: u64 where
  "THREAD_STACK_SIZE = 32768"

definition blank_thread :: thread where
  "blank_thread = \<lparr>t_rsp = 0, t_id = 0, t_cr3 = 0, t_state = THREAD_CREATED, t_priority = 0, t_base_priority = 0,
     t_time_slice = 0, t_total_ticks = 0, t_age_ticks = 0, t_wakeup_tick = 0, t_wakeup_rdtsc = 0,
     t_rq_next = None, t_rq_prev = None, t_wq_next = None, t_all_next = None, t_all_prev = None,
     t_join_queue = wait_queue_init, t_kernel_stack = 0, t_kernel_stack_size = 0, t_exit_code = 0,
     t_cpu_queue = 0, t_cpu_affinity = 0\<rparr>"

text \<open>
  \<open>alloc\<close> is what the page allocator returned: None, or the new TCB and the address of its kernel
  stack. Seven words are pushed on the new stack before the thread first runs.
\<close>

definition thread_create :: "(nat \<times> u64) option \<Rightarrow> int \<Rightarrow> sched \<Rightarrow> nat option \<times> sched" where
  "thread_create alloc priority s = (case alloc of
     None \<Rightarrow> (None, s)
   | Some (t, kstack) \<Rightarrow>
       (let prio = (if priority < 0 \<or> priority > THREAD_MAX_PRIO then THREAD_DEF_PRIO else priority);
            s1 = upd_thr t (\<lambda>_. blank_thread\<lparr>t_id := next_thread_id s,
                   t_rsp := kstack + THREAD_STACK_SIZE - 56, t_state := THREAD_CREATED,
                   t_priority := prio, t_base_priority := prio, t_cpu_affinity := 0xFF,
                   t_kernel_stack := kstack, t_kernel_stack_size := THREAD_STACK_SIZE,
                   t_join_queue := wait_queue_init\<rparr>) (s\<lparr>next_thread_id := next_thread_id s + 1\<rparr>)
        in (Some t, all_threads_add (Some t) s1)))"

definition thread_exit :: "int \<Rightarrow> sched \<Rightarrow> sched option" where
  "thread_exit exit_code s =
     (case current_thread s of
        None \<Rightarrow> Some s
      | Some cur \<Rightarrow>
          (let s1 = sched_remove_thread (Some cur) (sched_finalize_retiring s);
               s2 = upd_thr cur (\<lambda>x. x\<lparr>t_exit_code := exit_code, t_state := THREAD_ZOMBIE\<rparr>) s1;
               s3 = wake_joiners cur s2;
               c = this_cpu s3
           in case pick_next c s3 of
                (None, _) \<Rightarrow> None
              | (Some nxt, s4) \<Rightarrow>
                  Some (load_cr3 c nxt (dispatch c nxt
                    (upd_pcp c (\<lambda>p. p\<lparr>pc_retiring := pc_cpu_thread p\<rparr>) s4)))))"

datatype join_result = Join_Invalid | Join_Done int | Join_Wait "sched option"

text \<open>
  One iteration of the loop of \<open>thread_join\<close>: invalid arguments, the exit code of a thread that has
  ended, or blocking on its join queue (then the loop runs again once the caller is scheduled).
\<close>

definition thread_join_iter :: "nat option \<Rightarrow> sched \<Rightarrow> join_result" where
  "thread_join_iter ot s =
     (case ot of
        None \<Rightarrow> Join_Invalid
      | Some t \<Rightarrow>
          if ot = current_thread s then Join_Invalid
          else if t_state (thr s t) = THREAD_ZOMBIE \<or> t_state (thr s t) = THREAD_TERMINATED
          then Join_Done (t_exit_code (thr s t))
          else case current_thread s of
            None \<Rightarrow> Join_Wait None
          | Some cur \<Rightarrow>
              (case enter_wait cur (t_join_queue (thr s t)) s of
                 (wq, s1) \<Rightarrow> Join_Wait (schedule (upd_thr t (\<lambda>x. x\<lparr>t_join_queue := wq\<rparr>) s1))))"

definition MAX_REAP_BATCH :: nat where
  "MAX_REAP_BATCH = 64"

fun reap_scan :: "nat list \<Rightarrow> nat list \<Rightarrow> sched \<Rightarrow> nat list \<times> sched" where
  "reap_scan [] acc s = (acc, s)"
| "reap_scan (t # ts) acc s =
     (if length acc \<ge> MAX_REAP_BATCH then (acc, s)
      else if t_state (thr s t) = THREAD_TERMINATED \<and> Some t \<noteq> idle_thr s \<and> wq_count (t_join_queue (thr s t)) = 0
      then reap_scan ts (acc @ [t]) (all_threads_remove t s)
      else reap_scan ts acc s)"

text \<open>
  \<open>sched_reap_zombies\<close> returns the threads whose TCB and stack pages it gives back to the page
  allocator. The process thread list and the remapping of the guard page are not part of the model.
\<close>

definition sched_reap_zombies :: "sched \<Rightarrow> nat list \<times> sched" where
  "sched_reap_zombies s =
     (case reap_scan (all_threads_list s) [] s of
        (reaped, s1) \<Rightarrow>
          (filter (\<lambda>t. t_kernel_stack (thr s1 t) \<noteq> 0) reaped,
           fold (\<lambda>t s. if t_rq_next (thr s t) \<noteq> None \<or> t_rq_prev (thr s t) \<noteq> None
                        then sched_remove_thread (Some t) s else s) reaped s1))"

definition sched_isr_check :: "sched \<Rightarrow> bool \<times> sched" where
  "sched_isr_check s =
     (case pcps s (this_cpu s) of
        None \<Rightarrow> (False, s)
      | Some pcp \<Rightarrow>
          if pc_need_reschedule pcp then (True, upd_pcp (this_cpu s) (\<lambda>p. p\<lparr>pc_need_reschedule := False\<rparr>) s)
          else (False, s))"

section \<open>The timer tick\<close>

definition age_thread :: "nat \<Rightarrow> sched \<Rightarrow> sched" where
  "age_thread t s =
     (if Some t \<noteq> idle_thr s \<and> t_state (thr s t) = THREAD_READY
      then (let s1 = upd_thr t (\<lambda>x. x\<lparr>t_age_ticks := t_age_ticks x + 1\<rparr>) s
            in if t_age_ticks (thr s1 t) \<ge> AGING_INTERVAL \<and> t_priority (thr s1 t) < THREAD_MAX_PRIO
               then upd_thr t (\<lambda>x. x\<lparr>t_age_ticks := 0\<rparr>)
                      (sched_add_thread_locked (Some t)
                        (upd_thr t (\<lambda>x. x\<lparr>t_priority := t_priority x + 1\<rparr>)
                          (sched_remove_thread_locked (Some t) s1)))
               else s1)
      else s)"

definition tick_aging :: "sched \<Rightarrow> sched" where
  "tick_aging s =
     (let c = this_cpu s; s1 = upd_pcp c (\<lambda>p. p\<lparr>pc_aging_counter := pc_aging_counter p + 1\<rparr>) s
      in case pcps s1 c of
           None \<Rightarrow> s1
         | Some pcp \<Rightarrow>
             if pc_aging_counter pcp \<ge> AGING_INTERVAL
             then (case spinlock_try_acquire (upd_pcp c (\<lambda>p. p\<lparr>pc_aging_counter := 0\<rparr>) s1) of (ok, s2) \<Rightarrow>
                     if \<not> ok then s2
                     else case spinlock_try_acquire s2 of (ok', s3) \<Rightarrow>
                       if \<not> ok' then s3 else fold age_thread (all_threads_list s3) s3)
             else s1)"

definition tick_balance :: "sched \<Rightarrow> sched" where
  "tick_balance s =
     (let c = this_cpu s; s1 = upd_pcp c (\<lambda>p. p\<lparr>pc_balance_counter := pc_balance_counter p + 1\<rparr>) s
      in case pcps s1 c of
           None \<Rightarrow> s1
         | Some pcp \<Rightarrow>
             if pc_balance_counter pcp \<ge> 100
             then sched_balance_push (pc_cpu_id pcp) c (upd_pcp c (\<lambda>p. p\<lparr>pc_balance_counter := 0\<rparr>) s1)
             else s1)"

definition tick_current :: "nat \<Rightarrow> sched \<Rightarrow> sched" where
  "tick_current cur s =
     (let c = this_cpu s;
          s1 = upd_thr cur (\<lambda>x. x\<lparr>t_total_ticks := t_total_ticks x + 1,
                 t_time_slice := (if t_time_slice x > 0 then t_time_slice x - 1 else t_time_slice x)\<rparr>) s;
          s2 = upd_pcp c (\<lambda>p. p\<lparr>pc_idle_wake_hint := t_total_ticks (thr s1 cur)\<rparr>) s1
      in if t_time_slice (thr s2 cur) = 0 then upd_pcp c (\<lambda>p. p\<lparr>pc_need_reschedule := True\<rparr>) s2 else s2)"

text \<open>The boot processor pokes the other CPUs every time slice; the NMI watchdog is not modelled.\<close>

definition tick_aps :: "sched \<Rightarrow> sched" where
  "tick_aps s =
     (if smp_enabled s \<and> this_cpu s = 0 \<and> ap_ready_count s \<ge> int (nr_cpus s) - 1
      then (if ap_tick_counter s + 1 \<ge> THREAD_TIME_SLICE
            then s\<lparr>ap_tick_counter := 0,
                   ipis := rev (filter (\<lambda>c. pcps s c \<noteq> None \<and> cpu_states s c = CPU_STATE_ONLINE) [1..<nr_cpus s]) @ ipis s\<rparr>
            else s\<lparr>ap_tick_counter := ap_tick_counter s + 1\<rparr>)
      else s)"

definition sched_timer_tick :: "sched \<Rightarrow> sched" where
  "sched_timer_tick s =
     (if \<not> sched_running s \<or> current_thread s = None then s
      else (let s1 = tick_balance (tick_aging (snd (check_sleepers s)))
            in case current_thread s1 of
                 None \<Rightarrow> s1
               | Some cur \<Rightarrow> tick_aps (tick_current cur s1)))"

section \<open>Priority, affinity, kill, migration\<close>

definition sched_set_priority :: "nat option \<Rightarrow> int \<Rightarrow> sched \<Rightarrow> sched" where
  "sched_set_priority ot priority s = (case ot of
     None \<Rightarrow> s
   | Some t \<Rightarrow>
       if priority < 0 \<or> priority > THREAD_MAX_PRIO then s
       else if t_state (thr s t) = THREAD_READY
       then sched_add_thread_locked (Some t)
              (upd_thr t (\<lambda>x. x\<lparr>t_priority := priority, t_base_priority := priority\<rparr>)
                (sched_remove_thread_locked (Some t) s))
       else upd_thr t (\<lambda>x. x\<lparr>t_priority := priority, t_base_priority := priority\<rparr>) s)"

definition sched_set_thread_affinity :: "nat option \<Rightarrow> u64 \<Rightarrow> sched \<Rightarrow> sched" where
  "sched_set_thread_affinity ot msk s = (case ot of
     None \<Rightarrow> s
   | Some t \<Rightarrow>
       (let ncpus = (if smp_enabled s then nr_cpus s else 1);
            m = msk AND (push_bit ncpus 1 - 1)
        in if msk = 0 \<or> m = 0 then s
           else (let s1 = upd_thr t (\<lambda>x. x\<lparr>t_cpu_affinity := m\<rparr>) s
                 in if ot = current_thread s1 \<and> \<not> bit m (this_cpu s1)
                    then upd_pcp (this_cpu s1) (\<lambda>p. p\<lparr>pc_need_reschedule := True\<rparr>) s1 else s1)))"

definition sched_kill_thread :: "u64 \<Rightarrow> sched \<Rightarrow> int \<times> sched" where
  "sched_kill_thread tid s =
     (case sched_find_thread tid s of
        None \<Rightarrow> (- 1, s)
      | Some t \<Rightarrow>
          if t_state (thr s t) = THREAD_ZOMBIE \<or> t_state (thr s t) = THREAD_TERMINATED then (- 1, s)
          else (let s1 = (if t_state (thr s t) = THREAD_READY then sched_remove_thread_locked (Some t) s else s)
                in (0, wake_joiners t (upd_thr t (\<lambda>x. x\<lparr>t_state := THREAD_ZOMBIE\<rparr>) s1))))"

definition migrate_one :: "nat \<Rightarrow> nat \<Rightarrow> nat \<Rightarrow> nat \<Rightarrow> sched \<Rightarrow> sched" where
  "migrate_one from to prio t s =
     (let s1 = rq_detach t from prio s
      in upd_thr t (\<lambda>x. x\<lparr>t_cpu_queue := to\<rparr>) (rq_append t to (prio_idx (t_priority (thr s1 t))) s1))"

text \<open>
  One priority level: the loop takes the successor of \<open>t\<close> before \<open>t\<close> moves, so it visits the queue
  as it was. The source queue's bitmap bit is cleared once its head is null.
\<close>

definition migrate_prio :: "nat \<Rightarrow> nat \<Rightarrow> nat \<Rightarrow> nat \<times> sched \<Rightarrow> nat \<times> sched" where
  "migrate_prio from to prio = (\<lambda>(n, s). case pcps s from of
     None \<Rightarrow> (n, s)
   | Some src \<Rightarrow>
       (let ts = walk (unat (pc_rq_counts src prio)) (\<lambda>t. t_rq_next (thr s t)) (pc_rq_heads src prio);
            s1 = fold (migrate_one from to prio) ts s
        in (n + length ts,
            upd_pcp from (\<lambda>p. if pc_rq_heads p prio = None
                              then p\<lparr>pc_bitmap := bitmap_clear prio (pc_bitmap p)\<rparr> else p) s1)))"

definition sched_migrate_cpu :: "nat \<Rightarrow> nat \<Rightarrow> sched \<Rightarrow> nat \<times> sched" where
  "sched_migrate_cpu from to s =
     (if from = to \<or> pcps s from = None \<or> pcps s to = None then (0, s)
      else fold (migrate_prio from to) [0..<256] (0, s))"

end
