(* ===== verification/Sched_Refine.thy ===== *)
theory Sched_Refine
  imports Sched_Queue
begin

text \<open>
  The run queues as lists. \<open>rq_rel s Q\<close> says that the pointers, counters and bitmaps of the state
  \<open>s\<close> represent the abstract queues \<open>Q cpu priority\<close>. The two pointer manipulations of the
  scheduler, appending at the tail and unlinking a node, refine the corresponding list operations,
  and the bitmap search finds the highest non-empty priority.
\<close>

section \<open>The representation relation\<close>

abbreviation nx :: "sched \<Rightarrow> nat \<Rightarrow> nat option" where
  "nx s \<equiv> \<lambda>t. t_rq_next (thr s t)"

abbreviation pv :: "sched \<Rightarrow> nat \<Rightarrow> nat option" where
  "pv s \<equiv> \<lambda>t. t_rq_prev (thr s t)"

type_synonym queues = "nat \<Rightarrow> nat \<Rightarrow> nat list"

definition rq_len :: "(nat \<Rightarrow> nat list) \<Rightarrow> nat" where
  "rq_len q = (\<Sum>p<256. length (q p))"

definition cpu_rel :: "percpu \<Rightarrow> (nat \<Rightarrow> nat list) \<Rightarrow> bool" where
  "cpu_rel pcp q \<longleftrightarrow>
     length (pc_bitmap pcp) = 4 \<and> pc_rq_total pcp = of_nat (rq_len q) \<and> rq_len q < 2 ^ 32 \<and>
     (\<forall>p\<ge>256. q p = []) \<and>
     (\<forall>p<256. pc_rq_heads pcp p = first_of (q p) None \<and> pc_rq_tails pcp p = final_of None (q p) \<and>
       pc_rq_counts pcp p = of_nat (length (q p)) \<and> (bm_bit (pc_bitmap pcp) p \<longleftrightarrow> q p \<noteq> []))"

definition queued :: "queues \<Rightarrow> nat set" where
  "queued Q = {t. \<exists>c p. t \<in> set (Q c p)}"

definition rq_rel :: "sched \<Rightarrow> queues \<Rightarrow> bool" where
  "rq_rel s Q \<longleftrightarrow>
     (\<forall>c. case pcps s c of None \<Rightarrow> (\<forall>p. Q c p = []) | Some pcp \<Rightarrow> c < MAX_CPUS \<and> cpu_rel pcp (Q c)) \<and>
     (\<forall>c p. distinct (Q c p) \<and> dll (nx s) (pv s) None (Q c p) None) \<and>
     (\<forall>c p t. t \<in> set (Q c p) \<longrightarrow> t_cpu_queue (thr s t) = c \<and> t_priority (thr s t) = int p) \<and>
     (\<forall>t. t \<notin> queued Q \<longrightarrow> nx s t = None \<and> pv s t = None)"

definition q_upd :: "nat \<Rightarrow> nat \<Rightarrow> nat list \<Rightarrow> queues \<Rightarrow> queues" where
  "q_upd c p xs Q = Q(c := (Q c)(p := xs))"

lemma q_upd_apply: "q_upd c p xs Q c' p' = (if c' = c \<and> p' = p then xs else Q c' p')"
  by (simp add: q_upd_def)

lemma q_upd_row: "q_upd c p xs Q c = (Q c)(p := xs)"
  "c' \<noteq> c \<Longrightarrow> q_upd c p xs Q c' = Q c'"
  by (simp_all add: q_upd_def)

lemma rq_len_upd:
  assumes "p < 256"
  shows "rq_len (q(p := xs)) + length (q p) = rq_len q + length xs"
proof -
  have "(\<Sum>i\<in>{..<256} - {p}. length ((q(p := xs)) i)) = (\<Sum>i\<in>{..<256} - {p}. length (q i))"
    by (intro sum.cong) auto
  then show ?thesis
    using assms sum.remove [of "{..<256}" p "\<lambda>i. length (q i)"]
      sum.remove [of "{..<256}" p "\<lambda>i. length ((q(p := xs)) i)"]
    by (simp add: rq_len_def)
qed

lemma rq_len_ge: "p < 256 \<Longrightarrow> length (q p) \<le> rq_len q"
  using member_le_sum [of p "{..<256}" "\<lambda>i. length (q i)"] by (simp add: rq_len_def)

lemma prio_idx_nat: "p < 256 \<Longrightarrow> prio_idx (int p) = p"
  by (simp add: prio_idx_def take_bit_nat_eq_self unat_of_nat)

section \<open>Consequences of the relation\<close>

lemma rq_rel_facts:
  assumes "rq_rel s Q"
  shows rq_cpu: "pcps s c = Some pcp \<Longrightarrow> c < MAX_CPUS \<and> cpu_rel pcp (Q c)"
    and rq_no_cpu: "pcps s c = None \<Longrightarrow> Q c p = []"
    and rq_distinct: "distinct (Q c p)"
    and rq_dll: "dll (nx s) (pv s) None (Q c p) None"
    and rq_home: "t \<in> set (Q c p) \<Longrightarrow> t_cpu_queue (thr s t) = c \<and> t_priority (thr s t) = int p"
    and rq_unq: "t \<notin> queued Q \<Longrightarrow> nx s t = None \<and> pv s t = None"
proof -
  note r = assms [unfolded rq_rel_def]
  have 1: "case pcps s c of None \<Rightarrow> (\<forall>p. Q c p = []) | Some pcp \<Rightarrow> c < MAX_CPUS \<and> cpu_rel pcp (Q c)"
    using r by blast
  show "pcps s c = Some pcp \<Longrightarrow> c < MAX_CPUS \<and> cpu_rel pcp (Q c)" "pcps s c = None \<Longrightarrow> Q c p = []"
    using 1 by simp_all
  show "distinct (Q c p)" "dll (nx s) (pv s) None (Q c p) None"
    using r by blast+
  show "t \<in> set (Q c p) \<Longrightarrow> t_cpu_queue (thr s t) = c \<and> t_priority (thr s t) = int p"
    "t \<notin> queued Q \<Longrightarrow> nx s t = None \<and> pv s t = None"
    using r by blast+
qed

lemma cpu_relD:
  assumes "cpu_rel pcp q"
  shows "length (pc_bitmap pcp) = 4" "pc_rq_total pcp = of_nat (rq_len q)" "rq_len q < 2 ^ 32"
    "256 \<le> p \<Longrightarrow> q p = []"
    "p < 256 \<Longrightarrow> pc_rq_heads pcp p = first_of (q p) None"
    "p < 256 \<Longrightarrow> pc_rq_tails pcp p = final_of None (q p)"
    "p < 256 \<Longrightarrow> pc_rq_counts pcp p = of_nat (length (q p))"
    "p < 256 \<Longrightarrow> bm_bit (pc_bitmap pcp) p \<longleftrightarrow> q p \<noteq> []"
  using assms by (simp_all add: cpu_rel_def)

lemma queuedI: "t \<in> set (Q c p) \<Longrightarrow> t \<in> queued Q"
  by (auto simp: queued_def)

lemma rq_prio_bound:
  assumes "rq_rel s Q" "Q c p \<noteq> []"
  shows "p < 256 \<and> c < MAX_CPUS \<and> (\<exists>pcp. pcps s c = Some pcp)"
proof (cases "pcps s c")
  case None
  then show ?thesis using assms rq_no_cpu by blast
next
  case (Some pcp)
  then show ?thesis
    using assms rq_cpu [OF assms(1) Some] cpu_relD(4) [of pcp "Q c" p] by force
qed

lemma of_nat_u32_zero: "n < 2 ^ 32 \<Longrightarrow> (of_nat n :: u32) = 0 \<longleftrightarrow> n = 0"
  by (simp add: unat_eq_zero [symmetric] unat_of_nat take_bit_nat_eq_self)

lemma count_zero_iff: "cpu_rel pcp q \<Longrightarrow> p < 256 \<Longrightarrow> pc_rq_counts pcp p = 0 \<longleftrightarrow> q p = []"
proof -
  assume a: "cpu_rel pcp q" "p < 256"
  have "length (q p) < 2 ^ 32"
    using rq_len_ge [OF a(2)] cpu_relD(3) [OF a(1)] by (rule le_less_trans)
  then show ?thesis
    using of_nat_u32_zero [of "length (q p)"] a by (simp add: cpu_relD(7))
qed

text \<open>The bitmap search of \<open>bitmap_find_highest\<close>.\<close>

lemma find_highest_None:
  "cpu_rel pcp q \<Longrightarrow> bitmap_find_highest pcp = None \<Longrightarrow> q p = []"
  using cpu_relD(4,8) [of pcp q p] bitmap_scan_None [of 4 "pc_bitmap pcp" p]
  by (cases "p < 256") (auto simp: bitmap_find_highest_def)

lemma find_highest_Some:
  assumes "cpu_rel pcp q" "bitmap_find_highest pcp = Some p"
  shows "p < 256 \<and> q p \<noteq> [] \<and> (\<forall>p'. q p' \<noteq> [] \<longrightarrow> p' \<le> p)"
proof -
  have "p < 256 \<and> bm_bit (pc_bitmap pcp) p \<and> (\<forall>p'<256. bm_bit (pc_bitmap pcp) p' \<longrightarrow> p' \<le> p)"
    using assms(2) bitmap_scan_Some [of 4 "pc_bitmap pcp" p] by (simp add: bitmap_find_highest_def)
  then show ?thesis
    using assms(1) cpu_relD(4,8) by (metis linorder_not_less)
qed

section \<open>The pointer manipulations in closed form\<close>

lemma upd_thr_simps [simp]:
  "thr (upd_thr t f s) = (thr s)(t := f (thr s t))" "pcps (upd_thr t f s) = pcps s"
  by (simp_all add: upd_thr_def)

lemma upd_pcp_simps [simp]:
  "thr (upd_pcp c f s) = thr s" "pcps (upd_pcp c f s) = (pcps s)(c := map_option f (pcps s c))"
  by (simp_all add: upd_pcp_def)

definition pcp_append :: "nat \<Rightarrow> nat \<Rightarrow> percpu \<Rightarrow> percpu" where
  "pcp_append t p pcp =
     (if pc_rq_tails pcp p = None
      then pcp\<lparr>pc_rq_heads := (pc_rq_heads pcp)(p := Some t), pc_bitmap := bitmap_set p (pc_bitmap pcp)\<rparr>
      else pcp)\<lparr>pc_rq_tails := (pc_rq_tails pcp)(p := Some t),
        pc_rq_counts := (pc_rq_counts pcp)(p := pc_rq_counts pcp p + 1),
        pc_rq_total := pc_rq_total pcp + 1\<rparr>"

definition relink :: "(nat \<Rightarrow> nat option) \<Rightarrow> (nat \<Rightarrow> nat option) \<Rightarrow> (nat \<Rightarrow> thread) \<Rightarrow> nat \<Rightarrow> thread" where
  "relink N P h u = (h u)\<lparr>t_rq_next := N u, t_rq_prev := P u\<rparr>"

lemma rq_append_eq:
  assumes "pcps s c = Some pcp"
  shows "rq_append t c p s =
    s\<lparr>thr := relink (snoc_next t (pc_rq_tails pcp p) (nx s)) ((pv s)(t := pc_rq_tails pcp p)) (thr s),
      pcps := (pcps s)(c \<mapsto> pcp_append t p pcp)\<rparr>"
  using assms
  by (cases "pc_rq_tails pcp p")
    (auto simp: rq_append_def upd_thr_def upd_pcp_def pcp_append_def relink_def snoc_next_def Let_def
      fun_eq_iff intro!: sched.equality thread.equality)

definition pcp_detach :: "nat option \<Rightarrow> nat option \<Rightarrow> nat \<Rightarrow> percpu \<Rightarrow> percpu" where
  "pcp_detach pr ne p pcp =
     pcp\<lparr>pc_rq_heads := (if pr = None then (pc_rq_heads pcp)(p := ne) else pc_rq_heads pcp),
         pc_rq_tails := (if ne = None then (pc_rq_tails pcp)(p := pr) else pc_rq_tails pcp),
         pc_rq_counts := (pc_rq_counts pcp)(p := pc_rq_counts pcp p - 1),
         pc_rq_total := pc_rq_total pcp - 1\<rparr>"

lemma rq_detach_eq:
  assumes "pcps s c = Some pcp" "nx s t \<noteq> Some t" "pv s t \<noteq> Some t"
  shows "rq_detach t c p s =
    s\<lparr>thr := relink (unlink_next t (nx s) (pv s)) (unlink_prev t (nx s) (pv s)) (thr s),
      pcps := (pcps s)(c \<mapsto> pcp_detach (pv s t) (nx s t) p pcp)\<rparr>"
  using assms
  by (cases "nx s t"; cases "pv s t")
    (auto simp: rq_detach_def upd_thr_def upd_pcp_def pcp_detach_def relink_def unlink_next_def
      unlink_prev_def Let_def fun_eq_iff intro!: sched.equality thread.equality)

section \<open>Appending and unlinking refine the list operations\<close>

lemma cpu_rel_append:
  assumes r: "cpu_rel pcp q" and p: "p < 256" and len: "rq_len q + 1 < 2 ^ 32"
  shows "cpu_rel (pcp_append t p pcp) (q(p := q p @ [t]))"
proof -
  have 1: "rq_len (q(p := q p @ [t])) = rq_len q + 1"
    using rq_len_upd [OF p, of q "q p @ [t]"] by simp
  have tl: "pc_rq_tails pcp p = final_of None (q p)"
    using r p by (rule cpu_relD)
  show ?thesis
  proof (cases "q p = []")
    case True
    then show ?thesis
      using r p len tl unfolding cpu_rel_def 1 by (simp add: pcp_append_def bm_bit_set)
  next
    case False
    then show ?thesis
      using r p len tl unfolding cpu_rel_def 1
      by (simp add: pcp_append_def first_of_append) (auto simp: first_of_def split: list.splits)
  qed
qed

lemma cpu_rel_detach_upto_bitmap:
  assumes r: "cpu_rel pcp q" and p: "p < 256" and q: "q p = us @ t # vs"
  defines "pcp' \<equiv> pcp_detach (final_of None us) (first_of vs None) p pcp"
    and "q' \<equiv> q(p := us @ vs)"
  shows "rq_len q' + 1 = rq_len q"
    "pc_bitmap pcp' = pc_bitmap pcp" "pc_rq_total pcp' = of_nat (rq_len q')"
    "i < 256 \<Longrightarrow> pc_rq_heads pcp' i = first_of (q' i) None \<and> pc_rq_tails pcp' i = final_of None (q' i) \<and>
       pc_rq_counts pcp' i = of_nat (length (q' i))"
proof -
  have L: "rq_len q' + Suc (length us + length vs) = rq_len q + (length us + length vs)"
    using rq_len_upd [OF p, of q "us @ vs"] q by (simp add: q'_def)
  then show len: "rq_len q' + 1 = rq_len q" by simp
  have "(of_nat (rq_len q) :: u32) = of_nat (rq_len q') + 1"
    by (simp add: len [symmetric])
  then show "pc_rq_total pcp' = of_nat (rq_len q')"
    using cpu_relD(2) [OF r] by (auto simp: pcp'_def pcp_detach_def)
  show "pc_bitmap pcp' = pc_bitmap pcp" by (simp add: pcp'_def pcp_detach_def)
  show "pc_rq_heads pcp' i = first_of (q' i) None \<and> pc_rq_tails pcp' i = final_of None (q' i) \<and>
       pc_rq_counts pcp' i = of_nat (length (q' i))" if "i < 256"
    using that cpu_relD(5-7) [OF r that] q
    by (auto simp: pcp'_def q'_def pcp_detach_def first_of_append final_of_append)
      (auto simp: first_of_def final_of_def split: list.splits)
qed

lemma cpu_rel_unlink:
  assumes r: "cpu_rel pcp q" and p: "p < 256" and q: "q p = us @ t # vs"
  shows "cpu_rel (clear_if_empty p (pcp_detach (final_of None us) (first_of vs None) p pcp)) (q(p := us @ vs))"
    (is "cpu_rel (clear_if_empty p ?pcp) ?q")
proof -
  note d = cpu_rel_detach_upto_bitmap [OF r p q]
  have z: "pc_rq_counts ?pcp p = 0 \<longleftrightarrow> us @ vs = []"
  proof -
    have "length (us @ vs) \<le> rq_len ?q"
      using rq_len_ge [OF p, of ?q] by simp
    then have "length (us @ vs) < 2 ^ 32"
      using d(1) cpu_relD(3) [OF r] by linarith
    then show ?thesis
      using d(4) [OF p] of_nat_u32_zero [of "length (us @ vs)"] by simp
  qed
  have len: "rq_len ?q < 2 ^ 32" "\<forall>i\<ge>256. ?q i = []"
    using d(1) cpu_relD(3,4) [OF r] p by auto
  have bm: "length (pc_bitmap pcp) = 4" "\<And>i. i < 256 \<Longrightarrow> bm_bit (pc_bitmap pcp) i \<longleftrightarrow> q i \<noteq> []"
    using cpu_relD(1,8) [OF r] by blast+
  show ?thesis
  proof (cases "us @ vs = []")
    case True
    have "bm_bit (bitmap_clear p (pc_bitmap pcp)) i \<longleftrightarrow> ?q i \<noteq> []" if "i < 256" for i
      using bm_bit_clear [OF bm(1) p, of i] bm(2) [OF that] True by auto
    then show ?thesis
      using True z d(2-4) len bm(1) unfolding cpu_rel_def by (simp add: clear_if_empty_def)
  next
    case False
    have "bm_bit (pc_bitmap pcp) i \<longleftrightarrow> ?q i \<noteq> []" if "i < 256" for i
      using bm(2) [OF that] False q by auto
    moreover have "clear_if_empty p ?pcp = ?pcp"
      using False z by (auto simp: clear_if_empty_def)
    ultimately show ?thesis
      using d(2-4) len bm(1) unfolding cpu_rel_def by simp
  qed
qed

lemma thr_relink [simp]:
  "t_rq_next (relink N P h u) = N u" "t_rq_prev (relink N P h u) = P u"
  "t_cpu_queue (relink N P h u) = t_cpu_queue (h u)" "t_priority (relink N P h u) = t_priority (h u)"
  "t_state (relink N P h u) = t_state (h u)" "t_base_priority (relink N P h u) = t_base_priority (h u)"
  "t_cpu_affinity (relink N P h u) = t_cpu_affinity (h u)"
  by (simp_all add: relink_def)

lemma queued_snoc: "queued (q_upd c p (Q c p @ [t]) Q) = insert t (queued Q)"
  by (auto simp: queued_def q_upd_apply split: if_splits)

text \<open>
  Appending an unqueued thread; \<open>f\<close> stands for what the caller does to the thread's other fields.
\<close>

lemma rq_append_refines:
  assumes r: "rq_rel s Q" and c: "pcps s c = Some pcp" and p: "p < 256"
    and t: "t \<notin> queued Q" and len: "rq_len (Q c) + 1 < 2 ^ 32"
    and f: "\<And>x. t_rq_next (f x) = t_rq_next x \<and> t_rq_prev (f x) = t_rq_prev x"
    and home: "\<And>x. x\<lparr>t_rq_next := None, t_rq_prev := None\<rparr> = (thr s t)\<lparr>t_rq_next := None, t_rq_prev := None\<rparr> \<Longrightarrow>
       t_cpu_queue (f x) = c \<and> t_priority (f x) = int p"
  shows "rq_rel (upd_thr t f (rq_append t c p s)) (q_upd c p (Q c p @ [t]) Q)" (is "rq_rel ?s ?Q")
proof -
  have cr: "c < MAX_CPUS" "cpu_rel pcp (Q c)"
    using rq_cpu [OF r c] by auto
  have tl: "pc_rq_tails pcp p = final_of None (Q c p)"
    using cr(2) p by (rule cpu_relD)
  have notin: "t \<notin> set (Q c' p')" for c' p'
    using t by (auto simp: queued_def)
  have N: "nx ?s = snoc_next t (final_of None (Q c p)) (nx s)"
    and P: "pv ?s = (pv s)(t := final_of None (Q c p))"
    using f by (auto simp: rq_append_eq [OF c] tl)
  have D: "dll (nx ?s) (pv ?s) None (?Q c' p') None" for c' p'
  proof (cases "c' = c \<and> p' = p")
    case True
    then show ?thesis
      using dll_snoc [OF rq_dll [OF r, of c p] rq_distinct [OF r, of c p] notin [of c p]]
      by (simp only: N P q_upd_apply simp_thms if_True)
  next
    case False
    have "l \<notin> set (Q c' p')" if "final_of None (Q c p) = Some l" for l
      using rq_home [OF r, of l] final_of_mem [OF that] False by (metis of_nat_eq_iff)
    then have "dll (nx ?s) (pv ?s) None (Q c' p') None = dll (nx s) (pv s) None (Q c' p') None"
      unfolding N P using notin by (intro dll_cong) (auto simp: snoc_next_def split: option.splits)
    then show ?thesis
      using False rq_dll [OF r] by (auto simp: q_upd_apply)
  qed
  have H: "t_cpu_queue (thr ?s u) = c' \<and> t_priority (thr ?s u) = int p'" if "u \<in> set (?Q c' p')" for u c' p'
  proof (cases "u = t")
    case True
    then have "c' = c" "p' = p"
      using that notin by (auto simp: q_upd_apply split: if_splits)
    then show ?thesis
      using True home by (simp add: rq_append_eq [OF c] relink_def)
  next
    case False
    then show ?thesis
      using that rq_home [OF r, of u] by (auto simp: rq_append_eq [OF c] q_upd_apply split: if_splits)
  qed
  have U: "nx ?s u = None \<and> pv ?s u = None" if "u \<notin> queued ?Q" for u
  proof -
    have "snoc_next t (final_of None (Q c p)) (nx s) u = None" "((pv s)(t := final_of None (Q c p))) u = None"
      using that rq_unq [OF r, of u] queuedI [of u Q c p]
      by (auto simp: queued_snoc snoc_next_def split: option.splits dest: final_of_mem)
    then show ?thesis
      using fun_cong [OF N, of u] fun_cong [OF P, of u] by simp
  qed
  have C: "case pcps ?s c' of None \<Rightarrow> (\<forall>p. ?Q c' p = []) | Some pcp \<Rightarrow> c' < MAX_CPUS \<and> cpu_rel pcp (?Q c')" for c'
    using rq_cpu [OF r, of c'] rq_no_cpu [OF r, of c'] cpu_rel_append [OF cr(2) p len, of t] cr(1)
    by (cases "c' = c") (auto simp: rq_append_eq [OF c] q_upd_row split: option.splits)
  have "distinct (?Q c' p')" for c' p'
    using rq_distinct [OF r] notin by (auto simp: q_upd_apply)
  then show ?thesis
    unfolding rq_rel_def using C D H U by blast
qed

lemma queued_remove:
  assumes r: "rq_rel s Q" and q: "Q c p = us @ t # vs"
  shows "queued (q_upd c p (us @ vs) Q) = queued Q - {t}"
proof -
  have t: "t \<in> set (Q c p)" "t \<notin> set (us @ vs)"
    using q rq_distinct [OF r, of c p] by auto
  then have "t \<notin> set (Q c' p')" if "\<not> (c' = c \<and> p' = p)" for c' p'
    using rq_home [OF r, of t] that by (metis of_nat_eq_iff)
  then have "set (q_upd c p (us @ vs) Q c' p') = set (Q c' p') - {t}" for c' p'
    using q t by (auto simp: q_upd_apply)
  then show ?thesis
    by (auto simp: queued_def)
qed

lemma rq_links_not_self:
  assumes "rq_rel s Q" shows "nx s t \<noteq> Some t" "pv s t \<noteq> Some t"
proof -
  have "nx s t \<noteq> Some t \<and> pv s t \<noteq> Some t"
  proof (cases "t \<in> queued Q")
    case True
    then obtain c p us vs where q: "Q c p = us @ t # vs"
      by (auto simp: queued_def dest: split_list)
    then have "pv s t = final_of None us" "nx s t = first_of vs None" "t \<notin> set us" "t \<notin> set vs"
      using dll_at [of "nx s" "pv s" us t vs] rq_dll [OF assms, of c p] rq_distinct [OF assms, of c p] by auto
    then show ?thesis
      using final_of_mem first_of_mem by metis
  next
    case False
    then show ?thesis using rq_unq [OF assms] by simp
  qed
  then show "nx s t \<noteq> Some t" "pv s t \<noteq> Some t" by auto
qed

text \<open>
  The links after unlinking \<open>t\<close>. The lists are unchanged elsewhere.
\<close>

lemma rq_detach_links:
  assumes r: "rq_rel s Q" and q: "Q c p = us @ t # vs"
  defines "N \<equiv> unlink_next t (nx s) (pv s)" and "P \<equiv> unlink_prev t (nx s) (pv s)"
    and "Q' \<equiv> q_upd c p (us @ vs) Q"
  shows "distinct (Q' c' p')" "dll N P None (Q' c' p') None"
    "u \<notin> queued Q' \<Longrightarrow> N u = None \<and> P u = None"
proof -
  note dc = rq_distinct [OF r, of c p, unfolded q] and lc = rq_dll [OF r, of c p, unfolded q]
  note at = dll_at [OF lc]
  show "distinct (Q' c' p')"
    using dc rq_distinct [OF r] by (auto simp: Q'_def q_upd_apply)
  show "dll N P None (Q' c' p') None"
  proof (cases "c' = c \<and> p' = p")
    case True
    then show ?thesis
      using dll_unlink [OF lc dc] by (simp only: N_def P_def Q'_def q_upd_apply simp_thms if_True)
  next
    case False
    have "x \<notin> set (Q c' p')" if "x \<in> set (Q c p)" for x
      using rq_home [OF r, of x] that False by (metis of_nat_eq_iff)
    then have "dll N P None (Q c' p') None = dll (nx s) (pv s) None (Q c' p') None"
      unfolding N_def P_def using q at final_of_mem [of us] first_of_mem [of vs]
      by (intro dll_cong) (auto simp: unlink_next_def unlink_prev_def split: option.splits)
    then show ?thesis
      using False rq_dll [OF r] by (auto simp: Q'_def q_upd_apply)
  qed
  show "N u = None \<and> P u = None" if "u \<notin> queued Q'"
  proof (cases "u = t")
    case False
    then have "u \<notin> queued Q"
      using that queued_remove [OF r q] by (simp add: Q'_def)
    moreover from this have "u \<notin> set us" "u \<notin> set vs"
      using q by (auto simp: queued_def) (metis Un_iff set_append list.set_intros(2))+
    ultimately show ?thesis
      using rq_unq [OF r, of u] False at final_of_mem [of us] first_of_mem [of vs]
      by (auto simp: N_def P_def unlink_next_def unlink_prev_def split: option.splits)
  qed (simp add: N_def P_def unlink_next_def unlink_prev_def)
qed

lemma rq_unlink_refines:
  assumes r: "rq_rel s Q" and q: "Q c p = us @ t # vs"
  shows "rq_rel (rq_unlink t c p s) (q_upd c p (us @ vs) Q)" (is "rq_rel ?s ?Q")
proof -
  obtain pcp where c: "pcps s c = Some pcp" and p: "p < 256" and m: "c < MAX_CPUS"
    using rq_prio_bound [OF r, of c p] q by auto
  note at = dll_at [OF rq_dll [OF r, of c p, unfolded q]]
  note eq = rq_detach_eq [OF c rq_links_not_self [OF r], of t p]
  note L = rq_detach_links [OF r q]
  have cr: "cpu_rel pcp (Q c)"
    using rq_cpu [OF r c] by simp
  have N: "nx ?s = unlink_next t (nx s) (pv s)" and P: "pv ?s = unlink_prev t (nx s) (pv s)"
    by (simp_all add: rq_unlink_def eq)
  have H: "t_cpu_queue (thr ?s u) = c' \<and> t_priority (thr ?s u) = int p'" if "u \<in> set (?Q c' p')" for u c' p'
    using that rq_home [OF r, of u c' p'] q
    by (auto simp: rq_unlink_def eq q_upd_apply split: if_splits)
  have C: "case pcps ?s c' of None \<Rightarrow> (\<forall>p. ?Q c' p = []) | Some pcp \<Rightarrow> c' < MAX_CPUS \<and> cpu_rel pcp (?Q c')" for c'
    using rq_cpu [OF r, of c'] rq_no_cpu [OF r, of c'] cpu_rel_unlink [OF cr p q] m at
    by (cases "c' = c") (auto simp: rq_unlink_def eq q_upd_row split: option.splits)
  show ?thesis
    unfolding rq_rel_def N P using C H L fun_cong [OF N] fun_cong [OF P] by auto
qed

section \<open>The queue operations refine enqueue and dequeue\<close>

definition enq :: "nat \<Rightarrow> nat \<Rightarrow> nat \<Rightarrow> queues \<Rightarrow> queues" where
  "enq c p t Q = q_upd c p (Q c p @ [t]) Q"

definition deq :: "nat \<Rightarrow> queues \<Rightarrow> queues" where
  "deq t Q = (\<lambda>c p. remove1 t (Q c p))"

lemma queued_enq [simp]: "queued (enq c p t Q) = insert t (queued Q)"
  by (simp add: enq_def queued_snoc)

lemma deq_split:
  assumes r: "rq_rel s Q" and q: "Q c p = us @ t # vs"
  shows "q_upd c p (us @ vs) Q = deq t Q"
proof (intro ext)
  fix c' p'
  have "t \<notin> set us"
    using rq_distinct [OF r, of c p] q by auto
  moreover have "t \<notin> set (Q c' p')" if "\<not> (c' = c \<and> p' = p)"
    using rq_home [OF r, of t] that q by (metis in_set_conv_decomp of_nat_eq_iff)
  ultimately show "q_upd c p (us @ vs) Q c' p' = deq t Q c' p'"
    using q by (auto simp: q_upd_apply deq_def remove1_append remove1_idem)
qed

lemma deq_unqueued: "t \<notin> queued Q \<Longrightarrow> deq t Q = Q"
  by (auto simp: deq_def queued_def remove1_idem)

lemma queued_deq: "rq_rel s Q \<Longrightarrow> queued (deq t Q) = queued Q - {t}"
  by (auto simp: deq_def queued_def rq_distinct)

definition rq_part :: "percpu \<Rightarrow> (nat \<Rightarrow> nat option) \<times> (nat \<Rightarrow> nat option) \<times> (nat \<Rightarrow> u32) \<times> u64 list \<times> u32" where
  "rq_part pcp = (pc_rq_heads pcp, pc_rq_tails pcp, pc_rq_counts pcp, pc_bitmap pcp, pc_rq_total pcp)"

lemma cpu_rel_part: "rq_part a = rq_part b \<Longrightarrow> cpu_rel a q = cpu_rel b q"
  by (simp add: rq_part_def cpu_rel_def)

text \<open>Changes outside the queue fields keep the relation.\<close>

lemma cpu_clause_cong:
  assumes "map_option rq_part x = map_option rq_part y"
  shows "(case x of None \<Rightarrow> A | Some a \<Rightarrow> B \<and> cpu_rel a q) = (case y of None \<Rightarrow> A | Some a \<Rightarrow> B \<and> cpu_rel a q)"
  using assms by (cases x; cases y) (simp_all add: rq_part_def cpu_rel_def)

lemma rq_rel_frame:
  assumes r: "rq_rel s Q"
    and l: "\<And>u. nx s' u = nx s u \<and> pv s' u = pv s u"
    and h: "\<And>u. u \<in> queued Q \<Longrightarrow>
      t_cpu_queue (thr s' u) = t_cpu_queue (thr s u) \<and> t_priority (thr s' u) = t_priority (thr s u)"
    and c: "\<And>c. map_option rq_part (pcps s' c) = map_option rq_part (pcps s c)"
  shows "rq_rel s' Q"
  unfolding rq_rel_def
proof (intro conjI allI impI)
  fix c
  show "case pcps s' c of None \<Rightarrow> (\<forall>p. Q c p = []) | Some pcp \<Rightarrow> c < MAX_CPUS \<and> cpu_rel pcp (Q c)"
    unfolding cpu_clause_cong [OF c [of c]] using r unfolding rq_rel_def by blast
next
  fix c p
  show "distinct (Q c p)" by (rule rq_distinct [OF r])
  show "dll (nx s') (pv s') None (Q c p) None"
    using rq_dll [OF r, of c p] dll_cong [of "Q c p" "nx s'" "nx s" "pv s'" "pv s"] l by blast
next
  fix c p t assume t: "t \<in> set (Q c p)"
  show "t_cpu_queue (thr s' t) = c" "t_priority (thr s' t) = int p"
    using h [OF queuedI [of t Q c p, OF t]] rq_home [OF r t] by simp_all
next
  fix t assume "t \<notin> queued Q"
  then show "nx s' t = None" "pv s' t = None"
    using rq_unq [OF r, of t] l [of t] by simp_all
qed

lemma rq_rel_upd_pcp:
  "rq_rel s Q \<Longrightarrow> (\<And>x. rq_part (f x) = rq_part x) \<Longrightarrow> rq_rel (upd_pcp c f s) Q"
  by (rule rq_rel_frame) (auto simp: option.map_comp comp_def cong: map_option_cong)

lemma rq_rel_upd_thr:
  "rq_rel s Q \<Longrightarrow> (\<And>x. t_rq_next (f x) = t_rq_next x \<and> t_rq_prev (f x) = t_rq_prev x) \<Longrightarrow>
   (t \<in> queued Q \<Longrightarrow> t_cpu_queue (f (thr s t)) = t_cpu_queue (thr s t) \<and>
      t_priority (f (thr s t)) = t_priority (thr s t)) \<Longrightarrow> rq_rel (upd_thr t f s) Q"
  by (rule rq_rel_frame) auto

definition prio_ok :: "thread \<Rightarrow> bool" where
  "prio_ok x \<longleftrightarrow> 0 \<le> t_priority x \<and> t_priority x \<le> THREAD_MAX_PRIO"

lemma prio_ok_nat:
  assumes "prio_ok x" shows "prio_idx (t_priority x) = nat (t_priority x)" "nat (t_priority x) < 256"
    "int (nat (t_priority x)) = t_priority x"
  using assms prio_idx_nat [of "nat (t_priority x)"] by (auto simp: prio_ok_def THREAD_MAX_PRIO_def)

lemma add_locked_refines:
  assumes r: "rq_rel s Q" and c: "pcps s c \<noteq> None" and p: "prio_ok (thr s t)" and t: "t \<notin> queued Q"
    and len: "rq_len (Q c) + 1 < 2 ^ 32"
  shows "rq_rel (sched_add_thread_to_cpu_locked (Some t) c s) (enq c (nat (t_priority (thr s t))) t Q)"
proof -
  obtain pcp where pcp: "pcps s c = Some pcp" using c by auto
  have "rq_rel (upd_thr t (\<lambda>x. x\<lparr>t_cpu_queue := c, t_state := THREAD_READY\<rparr>)
      (rq_append t c (nat (t_priority (thr s t))) s)) (enq c (nat (t_priority (thr s t))) t Q)"
    unfolding enq_def
  proof (rule rq_append_refines [OF r pcp prio_ok_nat(2) [OF p] t len])
    fix x assume "x\<lparr>t_rq_next := None, t_rq_prev := None\<rparr> = (thr s t)\<lparr>t_rq_next := None, t_rq_prev := None\<rparr>"
    then have "t_priority (x\<lparr>t_rq_next := None, t_rq_prev := None\<rparr>) = t_priority (thr s t)" by simp
    then show "t_cpu_queue (x\<lparr>t_cpu_queue := c, t_state := THREAD_READY\<rparr>) = c \<and>
        t_priority (x\<lparr>t_cpu_queue := c, t_state := THREAD_READY\<rparr>) = int (nat (t_priority (thr s t)))"
      using prio_ok_nat(3) [OF p] by simp
  qed simp
  then show ?thesis
    using rq_cpu [OF r pcp] p pcp
    by (simp add: sched_add_thread_to_cpu_locked_def prio_ok_nat(1) prio_ok_def not_less)
qed

lemma remove_locked_refines:
  assumes r: "rq_rel s Q" and p: "prio_ok (thr s t)"
  shows "rq_rel (sched_remove_thread_locked (Some t) s) (deq t Q)"
proof (cases "t \<in> queued Q")
  case True
  then obtain c p where "t \<in> set (Q c p)" by (auto simp: queued_def)
  then obtain us vs where q: "Q c p = us @ t # vs" by (auto dest: split_list)
  have h: "t_cpu_queue (thr s t) = c" "t_priority (thr s t) = int p"
    using rq_home [OF r, of t c p] q by auto
  obtain pcp where c: "pcps s c = Some pcp" and pb: "p < 256" "c < MAX_CPUS"
    using rq_prio_bound [OF r, of c p] q by auto
  note at = dll_at [OF rq_dll [OF r, of c p, unfolded q]]
  have hd: "pc_rq_heads pcp p = first_of (Q c p) None"
    using rq_cpu [OF r c] pb(1) cpu_relD(5) by blast
  have "sched_remove_thread_locked (Some t) s = rq_unlink t c p s"
    using c pb at hd q by (auto simp: sched_remove_thread_locked_def h prio_idx_nat Let_def)
  then show ?thesis
    using rq_unlink_refines [OF r q] deq_split [OF r q] by simp
next
  case False
  have "pc_rq_heads pcp (prio_idx (t_priority (thr s t))) \<noteq> Some t"
    if "pcps s (t_cpu_queue (thr s t)) = Some pcp" for pcp
    using rq_cpu [OF r that] cpu_relD(5) prio_ok_nat [OF p] False
    by (metis first_of_mem queuedI)
  then show ?thesis
    using False r rq_unq [OF r False]
    by (auto simp: sched_remove_thread_locked_def deq_unqueued Let_def split: option.splits)
qed

lemma pop_head_is_unlink:
  assumes r: "rq_rel s Q" and q: "Q c p = t # vs"
  shows "rq_pop_head t c p s = rq_unlink t c p s"
proof -
  have at: "pv s t = None"
    using rq_dll [OF r, of c p] q by simp
  show ?thesis
    by (cases "nx s t")
      (auto simp: rq_pop_head_def rq_unlink_def rq_detach_def at upd_thr_def upd_pcp_def Let_def
        option.map_comp comp_def)
qed

lemma pop_head_refines:
  "rq_rel s Q \<Longrightarrow> Q c p = t # vs \<Longrightarrow> rq_rel (rq_pop_head t c p s) (deq t Q)"
  using rq_unlink_refines [of s Q c p "[]" t vs] deq_split [of s Q c p "[]" t vs]
  by (simp add: pop_head_is_unlink)

end
