(* ===== verification/Sched_Inv.thy ===== *)
theory Sched_Inv
  imports Sched Sched_Refine
begin

text \<open>
  The scheduler's invariant and its preservation. \<open>sched_wf s Q T\<close>: the run queues represent \<open>Q\<close>,
  all their threads are READY and among the live threads \<open>T\<close> with valid priorities, the CPUs up
  to \<open>nr_cpus\<close> exist, and idle threads are on no queue. The lemmas first treat the primitive
  changes of state, then the operations composed of them.
\<close>

section \<open>The invariant\<close>

definition cpu_cfg :: "sched \<Rightarrow> nat \<Rightarrow> (nat \<times> nat option \<times> nat option) option" where
  "cpu_cfg s c = map_option (\<lambda>p. (pc_cpu_id p, pc_idle_thread p, pc_cpu_thread p)) (pcps s c)"

definition idles :: "sched \<Rightarrow> nat set" where
  "idles s = {i. \<exists>c k t. cpu_cfg s c = Some (k, Some i, t)}"

definition thr_ok :: "thread \<Rightarrow> bool" where
  "thr_ok x \<longleftrightarrow> prio_ok x \<and> 0 \<le> t_base_priority x \<and> t_base_priority x \<le> THREAD_MAX_PRIO \<and> rsp_ok x"

definition cpus_wf :: "sched \<Rightarrow> bool" where
  "cpus_wf s \<longleftrightarrow> this_cpu s < nr_cpus s \<and> nr_cpus s \<le> MAX_CPUS \<and>
     (\<forall>c. (c < nr_cpus s \<longrightarrow> cpu_cfg s c \<noteq> None) \<and> (\<forall>k i. cpu_cfg s c = Some (k, i) \<longrightarrow> k = c))"

definition current_wf :: "sched \<Rightarrow> nat set \<Rightarrow> bool" where
  "current_wf s T \<longleftrightarrow> (\<forall>c k i t. cpu_cfg s c = Some (k, i, Some t) \<longrightarrow> t \<in> T \<and> (t \<in> idles s \<longrightarrow> i = Some t))"

definition threads_wf :: "sched \<Rightarrow> queues \<Rightarrow> nat set \<Rightarrow> bool" where
  "threads_wf s Q T \<longleftrightarrow> finite T \<and> card T < 2 ^ 31 \<and> queued Q \<subseteq> T \<and> set (all_threads_list s) \<subseteq> T \<and>
     (\<forall>t\<in>T. thr_ok (thr s t)) \<and> (\<forall>t\<in>queued Q. t_state (thr s t) = THREAD_READY)"

definition idle_wf :: "sched \<Rightarrow> queues \<Rightarrow> nat set \<Rightarrow> bool" where
  "idle_wf s Q T \<longleftrightarrow> (\<forall>i\<in>idles s. i \<in> T \<and> i \<notin> queued Q \<and>
     (t_state (thr s i) = THREAD_RUNNING \<or> t_state (thr s i) = THREAD_READY \<and> idle_thr s = Some i))"

definition sched_wf :: "sched \<Rightarrow> queues \<Rightarrow> nat set \<Rightarrow> bool" where
  "sched_wf s Q T \<longleftrightarrow> rq_rel s Q \<and> cpus_wf s \<and> threads_wf s Q T \<and> idle_wf s Q T \<and> current_wf s T"

lemma sched_wfD:
  assumes "sched_wf s Q T"
  shows "rq_rel s Q" "cpus_wf s" "threads_wf s Q T" "idle_wf s Q T"
    "finite T" "card T < 2 ^ 31" "queued Q \<subseteq> T" "set (all_threads_list s) \<subseteq> T"
    "t \<in> T \<Longrightarrow> thr_ok (thr s t)" "t \<in> T \<Longrightarrow> prio_ok (thr s t)"
    "t \<in> queued Q \<Longrightarrow> t_state (thr s t) = THREAD_READY"
    "this_cpu s < nr_cpus s" "nr_cpus s \<le> MAX_CPUS" "c < nr_cpus s \<Longrightarrow> pcps s c \<noteq> None"
    "pcps s c = Some pcp \<Longrightarrow> pc_cpu_id pcp = c"
    "i \<in> idles s \<Longrightarrow> i \<in> T" "i \<in> idles s \<Longrightarrow> i \<notin> queued Q"
    "i \<in> idles s \<Longrightarrow> t_state (thr s i) = THREAD_RUNNING \<or> t_state (thr s i) = THREAD_READY \<and> idle_thr s = Some i"
    "current_wf s T"
  using assms by (auto simp: sched_wf_def current_wf_def cpus_wf_def threads_wf_def idle_wf_def thr_ok_def cpu_cfg_def)

lemma wf_current:
  assumes "sched_wf s Q T" "pcps s c = Some pcp" "pc_cpu_thread pcp = Some t"
  shows "t \<in> T" "t \<in> idles s \<Longrightarrow> pc_idle_thread pcp = Some t"
proof -
  have "cpu_cfg s c = Some (pc_cpu_id pcp, pc_idle_thread pcp, Some t)"
    using assms(2,3) by (simp add: cpu_cfg_def)
  then show "t \<in> T" "t \<in> idles s \<Longrightarrow> pc_idle_thread pcp = Some t"
    using assms(1) unfolding sched_wf_def current_wf_def by blast+
qed

lemma idlesI: "pcps s c = Some pcp \<Longrightarrow> pc_idle_thread pcp = Some i \<Longrightarrow> i \<in> idles s"
  by (auto simp: idles_def cpu_cfg_def)

text \<open>A queue never overflows its 32-bit counters: there are fewer than \<open>2 ^ 32\<close> threads.\<close>

lemma rq_len_card:
  assumes r: "rq_rel s Q" and f: "finite (queued Q)"
  shows "rq_len (Q c) \<le> card (queued Q)"
proof -
  have disj: "set (Q c p) \<inter> set (Q c p') = {}" if "p \<noteq> p'" for p p'
    using that rq_home [OF r] by (metis disjoint_iff of_nat_eq_iff)
  have "rq_len (Q c) = (\<Sum>p<256. card (set (Q c p)))"
    by (simp add: rq_len_def distinct_card rq_distinct [OF r])
  also have "\<dots> = card (\<Union>p<256. set (Q c p))"
    using disj by (intro card_UN_disjoint [symmetric]) auto
  also have "\<dots> \<le> card (queued Q)"
    by (intro card_mono [OF f]) (auto simp: queued_def)
  finally show ?thesis .
qed

lemma rq_room:
  assumes w: "sched_wf s Q T" and t: "t \<in> T" "t \<notin> queued Q"
  shows "rq_len (Q c) + 1 < 2 ^ 32"
proof -
  have f: "finite (queued Q)"
    using sched_wfD(5,7) [OF w] by (rule rev_finite_subset)
  have "card (insert t (queued Q)) \<le> card T"
    using sched_wfD(5,7) [OF w] t(1) by (intro card_mono) auto
  then show ?thesis
    using rq_len_card [OF sched_wfD(1) [OF w] f, of c] sched_wfD(6) [OF w] f t(2) by simp
qed

section \<open>Primitive changes of state\<close>

text \<open>\<open>same_cfg s s'\<close>: the configuration parts of the invariant are untouched.\<close>

definition same_cfg :: "sched \<Rightarrow> sched \<Rightarrow> bool" where
  "same_cfg s s' \<longleftrightarrow> this_cpu s' = this_cpu s \<and> nr_cpus s' = nr_cpus s \<and> idle_thr s' = idle_thr s \<and>
     all_threads_list s' = all_threads_list s \<and> smp_enabled s' = smp_enabled s \<and>
     cpu_cfg s' = cpu_cfg s"

lemma same_cfg_refl [simp]: "same_cfg s s"
  by (simp add: same_cfg_def)

lemma same_cfg_trans: "same_cfg a b \<Longrightarrow> same_cfg b c \<Longrightarrow> same_cfg a c"
  by (simp add: same_cfg_def)

lemma same_cfg_idles: "same_cfg s s' \<Longrightarrow> idles s' = idles s"
  by (simp add: same_cfg_def idles_def)

lemma same_cfg_cpus: "same_cfg s s' \<Longrightarrow> cpus_wf s \<Longrightarrow> cpus_wf s'"
  by (simp add: same_cfg_def cpus_wf_def)

lemma sched_wf_intro:
  assumes w: "sched_wf s Q T" and cfg: "same_cfg s s'" and r: "rq_rel s' Q'"
    and q: "queued Q' \<subseteq> T"
    and ok: "\<And>t. t \<in> T \<Longrightarrow> thr_ok (thr s' t)"
    and rd: "\<And>t. t \<in> queued Q' \<Longrightarrow> t_state (thr s' t) = THREAD_READY"
    and idl: "\<And>i. i \<in> idles s \<Longrightarrow> i \<notin> queued Q' \<and>
       (t_state (thr s' i) = t_state (thr s i) \<or> t_state (thr s' i) = THREAD_RUNNING)"
  shows "sched_wf s' Q' T"
proof -
  have "idle_wf s' Q' T"
    unfolding idle_wf_def same_cfg_idles [OF cfg]
  proof
    fix i assume i: "i \<in> idles s"
    show "i \<in> T \<and> i \<notin> queued Q' \<and>
      (t_state (thr s' i) = THREAD_RUNNING \<or> t_state (thr s' i) = THREAD_READY \<and> idle_thr s' = Some i)"
      using idl [OF i] sched_wfD(16,18) [OF w, of i] i cfg by (auto simp: same_cfg_def)
  qed
  then show ?thesis
    using sched_wfD(5,6,8) [OF w] same_cfg_cpus [OF cfg sched_wfD(2) [OF w]] cfg r q ok rd
      sched_wfD(19) [OF w]
    by (simp add: sched_wf_def threads_wf_def same_cfg_def current_wf_def idles_def)
qed

text \<open>Operations on the queues touch nothing but links and the queue fields of the CPUs.\<close>

definition core :: "thread \<Rightarrow> thread" where
  "core x = x\<lparr>t_rq_next := None, t_rq_prev := None\<rparr>"

definition pcore :: "percpu \<Rightarrow> percpu" where
  "pcore p = p\<lparr>pc_rq_heads := \<lambda>_. None, pc_rq_tails := \<lambda>_. None, pc_rq_counts := \<lambda>_. 0,
               pc_bitmap := [], pc_rq_total := 0\<rparr>"

definition misc :: "sched \<Rightarrow> sched" where
  "misc s = s\<lparr>thr := \<lambda>_. blank_thread, pcps := \<lambda>_. None\<rparr>"

lemma misc_upd [simp]: "misc (upd_thr t f s) = misc s" "misc (upd_pcp c g s) = misc s"
  by (simp_all add: misc_def upd_thr_def upd_pcp_def)

definition links_only :: "sched \<Rightarrow> sched \<Rightarrow> bool" where
  "links_only s s' \<longleftrightarrow> misc s' = misc s \<and> (\<forall>u. core (thr s' u) = core (thr s u)) \<and>
     (\<forall>c. map_option pcore (pcps s' c) = map_option pcore (pcps s c))"

lemma core_fields:
  assumes "core a = core b"
  shows "t_state a = t_state b" "t_priority a = t_priority b" "t_base_priority a = t_base_priority b"
    "t_cpu_affinity a = t_cpu_affinity b" "t_all_next a = t_all_next b" "t_cpu_queue a = t_cpu_queue b"
    "t_wq_next a = t_wq_next b" "t_join_queue a = t_join_queue b" "t_wakeup_rdtsc a = t_wakeup_rdtsc b"
    "t_wakeup_tick a = t_wakeup_tick b" "t_age_ticks a = t_age_ticks b" "t_all_prev a = t_all_prev b"
    "t_kernel_stack a = t_kernel_stack b" "t_kernel_stack_size a = t_kernel_stack_size b" "t_rsp a = t_rsp b"
proof -
  have eq: "core a = core b" by (fact assms)
  show "t_state a = t_state b" "t_priority a = t_priority b" "t_base_priority a = t_base_priority b"
    "t_cpu_affinity a = t_cpu_affinity b" "t_all_next a = t_all_next b" "t_cpu_queue a = t_cpu_queue b"
    "t_wq_next a = t_wq_next b" "t_join_queue a = t_join_queue b" "t_wakeup_rdtsc a = t_wakeup_rdtsc b"
    "t_wakeup_tick a = t_wakeup_tick b" "t_age_ticks a = t_age_ticks b" "t_all_prev a = t_all_prev b"
    "t_kernel_stack a = t_kernel_stack b" "t_kernel_stack_size a = t_kernel_stack_size b" "t_rsp a = t_rsp b"
    using arg_cong [OF eq, of t_state] arg_cong [OF eq, of t_priority] arg_cong [OF eq, of t_base_priority]
      arg_cong [OF eq, of t_cpu_affinity] arg_cong [OF eq, of t_all_next] arg_cong [OF eq, of t_cpu_queue]
      arg_cong [OF eq, of t_wq_next] arg_cong [OF eq, of t_join_queue] arg_cong [OF eq, of t_wakeup_rdtsc]
      arg_cong [OF eq, of t_wakeup_tick] arg_cong [OF eq, of t_age_ticks] arg_cong [OF eq, of t_all_prev]
      arg_cong [OF eq, of t_kernel_stack] arg_cong [OF eq, of t_kernel_stack_size] arg_cong [OF eq, of t_rsp]
    by (simp_all add: core_def)
qed

lemma misc_fields:
  assumes "misc s' = misc s"
  shows "this_cpu s' = this_cpu s" "nr_cpus s' = nr_cpus s" "idle_thr s' = idle_thr s"
    "smp_enabled s' = smp_enabled s" "all_head s' = all_head s" "all_count s' = all_count s"
    "lock_tries s' = lock_tries s" "kernel_cr3 s' = kernel_cr3 s" "tsc s' = tsc s"
    "timer_ticks s' = timer_ticks s" "sched_running s' = sched_running s"
  using arg_cong [OF assms, of this_cpu] arg_cong [OF assms, of nr_cpus] arg_cong [OF assms, of idle_thr]
    arg_cong [OF assms, of smp_enabled] arg_cong [OF assms, of all_head] arg_cong [OF assms, of all_count]
    arg_cong [OF assms, of lock_tries] arg_cong [OF assms, of kernel_cr3] arg_cong [OF assms, of tsc]
    arg_cong [OF assms, of timer_ticks] arg_cong [OF assms, of sched_running]
  by (simp_all add: misc_def)

lemma links_only_refl [simp]: "links_only s s"
  by (simp add: links_only_def)

lemma links_only_trans: "links_only a b \<Longrightarrow> links_only b c \<Longrightarrow> links_only a c"
  by (simp add: links_only_def)

lemma links_only_thr: "(\<And>x. core (f x) = core x) \<Longrightarrow> links_only s (upd_thr t f s)"
  by (simp add: links_only_def)

lemma links_only_pcp: "(\<And>p. pcore (f p) = pcore p) \<Longrightarrow> links_only s (upd_pcp c f s)"
  by (simp add: links_only_def option.map_comp comp_def cong: map_option_cong)

lemmas links_only_steps = links_only_trans [OF _ links_only_thr] links_only_trans [OF _ links_only_pcp]

lemma links_only_append: "links_only s (rq_append t c p s)"
  unfolding rq_append_def Let_def
  by (auto split: option.split intro!: links_only_steps simp: core_def pcore_def)

lemma links_only_detach: "links_only s (rq_detach t c p s)"
  unfolding rq_detach_def Let_def
  by (auto split: option.split intro!: links_only_steps simp: core_def pcore_def)

lemma links_only_unlink: "links_only s (rq_unlink t c p s)"
  unfolding rq_unlink_def
  by (rule links_only_steps(2) [OF links_only_detach]) (simp add: clear_if_empty_def pcore_def)

lemma links_only_pop: "links_only s (rq_pop_head t c p s)"
  unfolding rq_pop_head_def Let_def
  by (auto split: option.split intro!: links_only_steps simp: core_def pcore_def clear_if_empty_def)

lemma links_only_remove: "links_only s (sched_remove_thread_locked ot s)"
  by (auto simp: sched_remove_thread_locked_def Let_def links_only_unlink split: option.split)

lemma links_only_cfg:
  assumes l: "links_only s s'" shows "same_cfg s s'"
proof -
  have "misc s' = misc s"
    using l by (simp add: links_only_def)
  note mf = misc_fields [OF this]
  have "t_all_next (thr s' t) = t_all_next (thr s t)" for t
    using l core_fields(5) [of "thr s' t" "thr s t"] by (simp add: links_only_def)
  moreover have "cpu_cfg s' c = cpu_cfg s c" for c
  proof -
    have m: "map_option pcore (pcps s' c) = map_option pcore (pcps s c)"
      using l by (simp add: links_only_def)
    have "(pc_cpu_id (pcore p), pc_idle_thread (pcore p), pc_cpu_thread (pcore p)) =
        (pc_cpu_id p, pc_idle_thread p, pc_cpu_thread p)" for p
      by (simp add: pcore_def)
    then show ?thesis
      using arg_cong [OF m, of "map_option (\<lambda>p. (pc_cpu_id p, pc_idle_thread p, pc_cpu_thread p))"]
      by (simp add: cpu_cfg_def option.map_comp comp_def)
  qed
  ultimately show ?thesis
    using mf by (simp add: same_cfg_def all_threads_list_def fun_eq_iff)
qed

lemma links_only_thr_fields:
  "links_only s s' \<Longrightarrow> core (thr s' u) = core (thr s u)"
  by (simp add: links_only_def)

section \<open>Preservation by the primitive changes\<close>

definition pcp_keeps :: "(percpu \<Rightarrow> percpu) \<Rightarrow> bool" where
  "pcp_keeps f \<longleftrightarrow> (\<forall>x. rq_part (f x) = rq_part x \<and> pc_cpu_id (f x) = pc_cpu_id x \<and> pc_idle_thread (f x) = pc_idle_thread x \<and>
     pc_cpu_thread (f x) = pc_cpu_thread x)"

lemma wf_upd_pcp:
  assumes w: "sched_wf s Q T" and f: "pcp_keeps f"
  shows "sched_wf (upd_pcp c f s) Q T"
proof (rule sched_wf_intro [OF w])
  have "cpu_cfg (upd_pcp c f s) = cpu_cfg s"
    using f by (auto simp: cpu_cfg_def pcp_keeps_def option.map_comp comp_def fun_eq_iff)
  then show "same_cfg s (upd_pcp c f s)"
    by (simp add: same_cfg_def all_threads_list_def upd_pcp_def)
  show "rq_rel (upd_pcp c f s) Q"
    using sched_wfD(1) [OF w] f by (intro rq_rel_upd_pcp) (auto simp: pcp_keeps_def)
qed (use sched_wfD [OF w] in auto)

lemma same_cfg_upd_thr: "(\<And>x. t_all_next (f x) = t_all_next x) \<Longrightarrow> same_cfg s (upd_thr t f s)"
  by (simp add: same_cfg_def all_threads_list_def upd_thr_def cpu_cfg_def fun_eq_iff if_distrib cong: if_cong)
    (auto intro!: arg_cong [where f = "\<lambda>N. walk _ N _"])

lemma wf_upd_thr:
  assumes w: "sched_wf s Q T"
    and f: "\<And>x. t_rq_next (f x) = t_rq_next x \<and> t_rq_prev (f x) = t_rq_prev x \<and> t_all_next (f x) = t_all_next x"
    and ok: "t \<in> T \<Longrightarrow> thr_ok (f (thr s t))"
    and q: "t \<in> queued Q \<Longrightarrow> t_cpu_queue (f (thr s t)) = t_cpu_queue (thr s t) \<and>
      t_priority (f (thr s t)) = t_priority (thr s t) \<and> t_state (f (thr s t)) = THREAD_READY"
    and i: "t \<in> idles s \<Longrightarrow> t_state (f (thr s t)) = t_state (thr s t) \<or> t_state (f (thr s t)) = THREAD_RUNNING"
  shows "sched_wf (upd_thr t f s) Q T"
proof (rule sched_wf_intro [OF w])
  show "same_cfg s (upd_thr t f s)"
    using f by (intro same_cfg_upd_thr) simp
  show "rq_rel (upd_thr t f s) Q"
    using sched_wfD(1) [OF w] f q by (intro rq_rel_upd_thr) auto
qed (use sched_wfD [OF w] ok q i in auto)

lemma wf_misc:
  assumes w: "sched_wf s Q T" and m: "thr s' = thr s" "pcps s' = pcps s" "this_cpu s' = this_cpu s" "nr_cpus s' = nr_cpus s"
    "idle_thr s' = idle_thr s" "smp_enabled s' = smp_enabled s" "all_head s' = all_head s" "all_count s' = all_count s"
  shows "sched_wf s' Q T"
proof (rule sched_wf_intro [OF w])
  show "same_cfg s s'"
    using m by (auto simp: same_cfg_def all_threads_list_def cpu_cfg_def)
  show "rq_rel s' Q"
    using sched_wfD(1) [OF w] m(1,2) by (simp add: rq_rel_def)
qed (use sched_wfD [OF w] m(1) in auto)

lemma try_fields:
  assumes "spinlock_try_acquire s = (b, s')"
  shows "thr s' = thr s" "pcps s' = pcps s" "this_cpu s' = this_cpu s" "nr_cpus s' = nr_cpus s"
    "idle_thr s' = idle_thr s" "smp_enabled s' = smp_enabled s" "all_head s' = all_head s" "all_count s' = all_count s"
    "tsc s' = tsc s" "timer_ticks s' = timer_ticks s" "sched_running s' = sched_running s"
  using assms by (auto simp: spinlock_try_acquire_def split: list.splits)

lemma wf_try: "sched_wf s Q T \<Longrightarrow> spinlock_try_acquire s = (b, s') \<Longrightarrow> sched_wf s' Q T"
  using wf_misc [of s Q T s'] try_fields [of s b s'] by blast

lemma wf_resched: "sched_wf s Q T \<Longrightarrow> sched_wf (smp_send_reschedule c s) Q T"
proof -
  assume w: "sched_wf s Q T"
  have "sched_wf (upd_pcp c (\<lambda>c. c\<lparr>pc_need_reschedule := True\<rparr>) s) Q T"
    by (rule wf_upd_pcp [OF w]) (simp add: pcp_keeps_def rq_part_def)
  then have "sched_wf (upd_pcp c (\<lambda>c. c\<lparr>pc_need_reschedule := True\<rparr>) s\<lparr>ipis := X\<rparr>) Q T" for X
    by (rule wf_misc) auto
  then show ?thesis
    using w \<open>sched_wf (upd_pcp c _ s) Q T\<close> by (simp add: smp_send_reschedule_def Let_def)
qed

lemma thr_ok_core: "core a = core b \<Longrightarrow> thr_ok a = thr_ok b"
  by (simp add: thr_ok_def prio_ok_def rsp_ok_def core_fields [of a b])

text \<open>A change of links only, to queues \<open>Q'\<close> with no new thread.\<close>

lemma wf_links_only:
  assumes w: "sched_wf s Q T" and l: "links_only s s'" and r: "rq_rel s' Q'" and q: "queued Q' \<subseteq> queued Q"
  shows "sched_wf s' Q' T"
proof (rule sched_wf_intro [OF w links_only_cfg [OF l] r])
  have c: "core (thr s' u) = core (thr s u)" for u
    using l by (simp add: links_only_def)
  show "thr_ok (thr s' t)" if "t \<in> T" for t
    using thr_ok_core [OF c [of t]] sched_wfD(9) [OF w that] by simp
  show "t_state (thr s' t) = THREAD_READY" if "t \<in> queued Q'" for t
    using core_fields(1) [OF c [of t]] sched_wfD(11) [OF w] that q by auto
  show "i \<notin> queued Q' \<and> (t_state (thr s' i) = t_state (thr s i) \<or> t_state (thr s' i) = THREAD_RUNNING)"
    if "i \<in> idles s" for i
    using core_fields(1) [OF c [of i]] sched_wfD(17) [OF w that] q by auto
qed (use q sched_wfD(7) [OF w] in auto)

lemma wf_remove_locked:
  assumes w: "sched_wf s Q T" and t: "t \<in> T"
  shows "sched_wf (sched_remove_thread_locked (Some t) s) (deq t Q) T"
  using wf_links_only [OF w links_only_remove remove_locked_refines [OF sched_wfD(1) [OF w] sched_wfD(10) [OF w t]]]
    queued_deq [OF sched_wfD(1) [OF w], of t] by auto

lemma wf_pop_head:
  assumes w: "sched_wf s Q T" and q: "Q c p = t # vs"
  shows "sched_wf (rq_pop_head t c p s) (deq t Q) T"
  using wf_links_only [OF w links_only_pop pop_head_refines [OF sched_wfD(1) [OF w] q]]
    queued_deq [OF sched_wfD(1) [OF w], of t] by auto

text \<open>What \<open>sched_add_thread_to_cpu_locked\<close> leaves in the thread control blocks.\<close>

lemma add_locked_thr:
  assumes "pcps s c \<noteq> None" "c < MAX_CPUS" "prio_ok (thr s t)"
  shows "core (thr (sched_add_thread_to_cpu_locked (Some t) c s) u) =
    (if u = t then (core (thr s t))\<lparr>t_cpu_queue := c, t_state := THREAD_READY\<rparr> else core (thr s u))"
proof -
  have "core (thr (rq_append t c p s) v) = core (thr s v)" for v p
    using links_only_append links_only_thr_fields by blast
  moreover have "core (x\<lparr>t_cpu_queue := c, t_state := THREAD_READY\<rparr>) = (core x)\<lparr>t_cpu_queue := c, t_state := THREAD_READY\<rparr>" for x
    by (simp add: core_def)
  moreover obtain p where "pcps s c = Some p" using assms(1) by auto
  ultimately show ?thesis
    using assms(2,3) by (simp add: sched_add_thread_to_cpu_locked_def prio_ok_def not_less)
qed

lemma same_cfg_add_locked: "same_cfg s (sched_add_thread_to_cpu_locked ot c s)"
  by (auto simp: sched_add_thread_to_cpu_locked_def split: option.split
      intro!: same_cfg_trans [OF links_only_cfg [OF links_only_append] same_cfg_upd_thr])

lemma wf_add_locked:
  assumes w: "sched_wf s Q T" and t: "t \<in> T" "t \<notin> queued Q" "t \<notin> idles s" and c: "pcps s c \<noteq> None"
  shows "sched_wf (sched_add_thread_to_cpu_locked (Some t) c s) (enq c (nat (t_priority (thr s t))) t Q) T"
proof (rule sched_wf_intro [OF w same_cfg_add_locked])
  let ?s = "sched_add_thread_to_cpu_locked (Some t) c s"
  have m: "c < MAX_CPUS"
    using c rq_cpu [OF sched_wfD(1) [OF w]] by auto
  note th = add_locked_thr [OF c m sched_wfD(10) [OF w t(1)]]
  have th_o: "core (thr ?s u) = core (thr s u)" if "u \<noteq> t" for u
    using th [of u] that by simp
  have th_t: "core (thr ?s t) = core ((thr s t)\<lparr>t_cpu_queue := c, t_state := THREAD_READY\<rparr>)"
    using th [of t] by (simp add: core_def)
  show "rq_rel ?s (enq c (nat (t_priority (thr s t))) t Q)"
    by (rule add_locked_refines [OF sched_wfD(1) [OF w] c sched_wfD(10) [OF w t(1)] t(2) rq_room [OF w t(1,2)]])
  show "thr_ok (thr ?s u)" if "u \<in> T" for u
    using thr_ok_core [OF th_t] thr_ok_core [OF th_o, of u] sched_wfD(9) [OF w that]
    by (cases "u = t") (auto simp: thr_ok_def prio_ok_def rsp_ok_def)
  show "t_state (thr ?s u) = THREAD_READY" if "u \<in> queued (enq c (nat (t_priority (thr s t))) t Q)" for u
    using core_fields(1) [OF th_t] core_fields(1) [OF th_o, of u] sched_wfD(11) [OF w, of u] that
    by (cases "u = t") auto
  show "i \<notin> queued (enq c (nat (t_priority (thr s t))) t Q) \<and>
      (t_state (thr ?s i) = t_state (thr s i) \<or> t_state (thr ?s i) = THREAD_RUNNING)" if "i \<in> idles s" for i
    using core_fields(1) [OF th_o, of i] t(3) that sched_wfD(17) [OF w that] by auto
qed (use t sched_wfD(7) [OF w] in auto)

lemma wf_set_cpu_thread:
  assumes w: "sched_wf s Q T" and n: "n \<in> T" "n \<in> idles s \<Longrightarrow> Option.bind (pcps s c) pc_idle_thread = Some n"
  shows "sched_wf (upd_pcp c (\<lambda>p. p\<lparr>pc_cpu_thread := Some n\<rparr>) s) Q T" (is "sched_wf ?s Q T")
proof -
  have cfg: "cpu_cfg ?s d =
      (if d = c then map_option (\<lambda>(k, i, t). (k, i, Some n)) (cpu_cfg s d) else cpu_cfg s d)" for d
    by (auto simp: cpu_cfg_def option.map_comp comp_def)
  then have idl: "idles ?s = idles s"
    by (auto simp: idles_def split: if_splits) metis
  moreover have "this_cpu ?s = this_cpu s" "nr_cpus ?s = nr_cpus s"
    by (simp_all add: upd_pcp_def)
  with sched_wfD(2) [OF w] have "cpus_wf ?s"
    by (auto simp: cpus_wf_def cfg)
  moreover have "current_wf ?s T"
    unfolding current_wf_def idl
  proof (intro allI impI)
    fix d k i t assume a: "cpu_cfg ?s d = Some (k, i, Some t)"
    show "t \<in> T \<and> (t \<in> idles s \<longrightarrow> i = Some t)"
    proof (cases "d = c")
      case True
      then show ?thesis
        using a n unfolding cfg by (auto simp: cpu_cfg_def)
    next
      case False
      then show ?thesis
        using a sched_wfD(19) [OF w] unfolding cfg current_wf_def by auto
    qed
  qed
  moreover have "all_threads_list ?s = all_threads_list s" "idle_thr ?s = idle_thr s"
    by (simp_all add: all_threads_list_def upd_pcp_def)
  moreover have "rq_rel ?s Q"
    using sched_wfD(1) [OF w] by (rule rq_rel_upd_pcp) (simp add: rq_part_def)
  ultimately show ?thesis
    using w by (simp add: sched_wf_def threads_wf_def idle_wf_def)
qed

end
