(* ===== verification/Sched_Ops.thy ===== *)
theory Sched_Ops
  imports Sched_Inv
begin

text \<open>
  The operations of the scheduler keep \<open>sched_wf\<close>: queueing a thread, stealing, balancing, choosing
  the next thread, waking sleepers and waiters, \<open>schedule\<close> and the operations built on it, the timer
  tick, priority changes, killing and migration.
\<close>

section \<open>Queueing a thread\<close>

definition same_states :: "sched \<Rightarrow> sched \<Rightarrow> bool" where
  "same_states s s' \<longleftrightarrow> (\<forall>u. t_state (thr s' u) = t_state (thr s u) \<and> t_cpu_affinity (thr s' u) = t_cpu_affinity (thr s u) \<and>
     t_base_priority (thr s' u) = t_base_priority (thr s u) \<and> t_priority (thr s' u) = t_priority (thr s u) \<and>
     t_rsp (thr s' u) = t_rsp (thr s u) \<and> t_kernel_stack (thr s' u) = t_kernel_stack (thr s u) \<and>
     t_kernel_stack_size (thr s' u) = t_kernel_stack_size (thr s u))"

lemma same_states_refl [simp]: "same_states s s"
  by (simp add: same_states_def)

lemma same_states_trans: "same_states a b \<Longrightarrow> same_states b c \<Longrightarrow> same_states a c"
  by (simp add: same_states_def)

lemma same_states_links: "links_only s s' \<Longrightarrow> same_states s s'"
  by (auto simp: same_states_def links_only_def dest: core_fields)

lemma same_states_thr: "thr s' = thr s \<Longrightarrow> same_states s s'"
  by (simp add: same_states_def)

lemma resched_thr [simp]: "thr (smp_send_reschedule c s) = thr s"
  by (simp add: smp_send_reschedule_def Let_def)

lemma same_cfg_upd_pcp: "pcp_keeps f \<Longrightarrow> same_cfg s (upd_pcp c f s)"
proof -
  assume f: "pcp_keeps f"
  have "cpu_cfg (upd_pcp c f s) = cpu_cfg s"
    using f by (auto simp: cpu_cfg_def pcp_keeps_def option.map_comp comp_def fun_eq_iff)
  then show ?thesis
    by (simp add: same_cfg_def all_threads_list_def upd_pcp_def)
qed

lemma same_cfg_misc:
  assumes m: "thr s' = thr s" "pcps s' = pcps s" "this_cpu s' = this_cpu s" "nr_cpus s' = nr_cpus s"
    "idle_thr s' = idle_thr s" "smp_enabled s' = smp_enabled s" "all_head s' = all_head s" "all_count s' = all_count s"
  shows "same_cfg s s'"
  using m by (simp add: same_cfg_def all_threads_list_def cpu_cfg_def fun_eq_iff)

lemma same_cfg_try: "spinlock_try_acquire s = (b, s') \<Longrightarrow> same_cfg s s'"
  using same_cfg_misc [of s' s] try_fields [of s b s'] by blast

lemma same_cfg_resched: "same_cfg s (smp_send_reschedule c s)"
proof -
  have 1: "same_cfg s (upd_pcp c (\<lambda>c. c\<lparr>pc_need_reschedule := True\<rparr>) s)"
    by (rule same_cfg_upd_pcp) (simp add: pcp_keeps_def rq_part_def)
  have "same_cfg x (x\<lparr>ipis := X\<rparr>)" for x X
    by (rule same_cfg_misc) simp_all
  with 1 show ?thesis
    using same_cfg_trans by (simp add: smp_send_reschedule_def Let_def)
qed

lemma choose_cpu_ok: "sched_wf s Q T \<Longrightarrow> choose_cpu t s < nr_cpus s"
  using sched_wfD(12) [of s Q T] find_idx_bound [of _ "[0..<nr_cpus s]"]
  by (auto simp: choose_cpu_def Let_def split: option.splits)

lemma wf_add_to_cpu:
  assumes w: "sched_wf s Q T" and t: "t \<in> T" "t \<notin> queued Q" "t \<notin> idles s" and c: "pcps s c \<noteq> None"
  shows "sched_wf (sched_add_thread_to_cpu (Some t) c s) (enq c (nat (t_priority (thr s t))) t Q) T"
  using wf_add_locked [OF w t c] wf_resched by (simp add: sched_add_thread_to_cpu_def Let_def)

lemma add_to_cpu_thr: "thr (sched_add_thread_to_cpu ot c s) = thr (sched_add_thread_to_cpu_locked ot c s)"
  by (simp add: sched_add_thread_to_cpu_def Let_def)

lemma same_cfg_add_to_cpu: "same_cfg s (sched_add_thread_to_cpu ot c s)"
  using same_cfg_trans [OF same_cfg_add_locked same_cfg_resched] same_cfg_add_locked
  by (simp add: sched_add_thread_to_cpu_def Let_def)

lemma same_cfg_add_thread: "same_cfg s (sched_add_thread ot s)"
  by (simp add: sched_add_thread_def same_cfg_add_to_cpu split: option.split)

lemma wf_add_thread:
  assumes w: "sched_wf s Q T" and t: "t \<in> T" "t \<notin> queued Q" "t \<notin> idles s"
  shows "sched_wf (sched_add_thread (Some t) s) (enq (choose_cpu t s) (nat (t_priority (thr s t))) t Q) T"
  using wf_add_to_cpu [OF w t sched_wfD(14) [OF w choose_cpu_ok [OF w]]] by (simp add: sched_add_thread_def)

text \<open>The thread control blocks after \<open>sched_add_thread\<close>: only the queued thread's state changes.\<close>

lemma add_thread_states:
  assumes w: "sched_wf s Q T" and t: "t \<in> T"
  shows "t_state (thr (sched_add_thread (Some t) s) u) = (if u = t then THREAD_READY else t_state (thr s u))"
    "t_priority (thr (sched_add_thread (Some t) s) u) = t_priority (thr s u)"
    "t_base_priority (thr (sched_add_thread (Some t) s) u) = t_base_priority (thr s u)"
    "t_cpu_affinity (thr (sched_add_thread (Some t) s) u) = t_cpu_affinity (thr s u)"
    "t_wq_next (thr (sched_add_thread (Some t) s) u) = t_wq_next (thr s u)"
    "t_join_queue (thr (sched_add_thread (Some t) s) u) = t_join_queue (thr s u)"
    "t_kernel_stack (thr (sched_add_thread (Some t) s) u) = t_kernel_stack (thr s u)"
    "t_kernel_stack_size (thr (sched_add_thread (Some t) s) u) = t_kernel_stack_size (thr s u)"
    "t_rsp (thr (sched_add_thread (Some t) s) u) = t_rsp (thr s u)"
proof -
  let ?c = "choose_cpu t s" and ?s = "sched_add_thread (Some t) s"
  have c: "pcps s ?c \<noteq> None" "?c < MAX_CPUS"
    using sched_wfD(13,14) [OF w] choose_cpu_ok [OF w, of t] by auto
  have "core (thr ?s u) = core (if u = t then (thr s t)\<lparr>t_cpu_queue := ?c, t_state := THREAD_READY\<rparr> else thr s u)"
    using add_locked_thr [OF c sched_wfD(10) [OF w t], of u]
    by (simp add: sched_add_thread_def add_to_cpu_thr) (simp add: core_def)
  note this [THEN core_fields(1)] this [THEN core_fields(2)] this [THEN core_fields(3)]
    this [THEN core_fields(4)] this [THEN core_fields(7)] this [THEN core_fields(8)]
    this [THEN core_fields(13)] this [THEN core_fields(14)] this [THEN core_fields(15)]
  then show "t_state (thr ?s u) = (if u = t then THREAD_READY else t_state (thr s u))"
    "t_priority (thr ?s u) = t_priority (thr s u)" "t_base_priority (thr ?s u) = t_base_priority (thr s u)"
    "t_cpu_affinity (thr ?s u) = t_cpu_affinity (thr s u)" "t_wq_next (thr ?s u) = t_wq_next (thr s u)"
    "t_join_queue (thr ?s u) = t_join_queue (thr s u)" "t_kernel_stack (thr ?s u) = t_kernel_stack (thr s u)"
    "t_kernel_stack_size (thr ?s u) = t_kernel_stack_size (thr s u)" "t_rsp (thr ?s u) = t_rsp (thr s u)"
    by (simp_all split: if_splits)
qed

section \<open>Stealing\<close>

definition steal_post :: "sched \<Rightarrow> queues \<Rightarrow> nat set \<Rightarrow> nat option \<Rightarrow> sched \<Rightarrow> bool" where
  "steal_post s Q T r s' \<longleftrightarrow> same_cfg s s' \<and> same_states s s' \<and>
     (case r of None \<Rightarrow> sched_wf s' Q T | Some t \<Rightarrow> t \<in> queued Q \<and> sched_wf s' (deq t Q) T)"

lemma steal_post_try:
  assumes "spinlock_try_acquire s = (b, s1)" "steal_post s1 Q T r s'"
  shows "steal_post s Q T r s'"
  using assms same_cfg_trans [OF same_cfg_try [OF assms(1)]]
    same_states_trans [OF same_states_thr [OF try_fields(1) [OF assms(1)]]]
  by (auto simp: steal_post_def)

lemma steal_take:
  assumes w: "sched_wf s Q T" and c: "pcps s c = Some pcp" and p: "bitmap_find_highest pcp = Some p"
    and h: "pc_rq_heads pcp p = Some t"
  shows "steal_post s Q T (Some t) (upd_thr t (\<lambda>x. x\<lparr>t_cpu_queue := me\<rparr>) (rq_pop_head t c p s))"
    (is "steal_post s Q T (Some t) ?s2")
proof -
  have cr: "cpu_rel pcp (Q c)"
    using rq_cpu [OF sched_wfD(1) [OF w] c] by simp
  then obtain vs where q: "Q c p = t # vs"
    using find_highest_Some [OF cr p] cpu_relD(5) [OF cr, of p] h by (cases "Q c p") auto
  have tq: "t \<in> queued Q"
    using q queuedI [of t Q c p] by simp
  have tn: "t \<notin> queued (deq t Q)"
    using queued_deq [OF sched_wfD(1) [OF w]] by simp
  have w1: "sched_wf (rq_pop_head t c p s) (deq t Q) T"
    by (rule wf_pop_head [OF w q])
  have "sched_wf ?s2 (deq t Q) T"
    using tn sched_wfD(9) [OF w1]
    by (intro wf_upd_thr [OF w1]) (auto simp: thr_ok_def prio_ok_def rsp_ok_def)
  moreover have "same_cfg s ?s2"
    using links_only_cfg [OF links_only_pop] by (rule same_cfg_trans) (rule same_cfg_upd_thr, simp)
  moreover have "same_states s ?s2"
    using same_states_links [OF links_only_pop, of s t c p] by (simp add: same_states_def)
  ultimately show ?thesis
    using tq by (simp add: steal_post_def)
qed

lemma steal_post_resched:
  assumes "steal_post s Q T r s'" shows "steal_post s Q T r (smp_send_reschedule c s')"
  using assms same_cfg_trans [OF _ same_cfg_resched] wf_resched
  by (auto simp: steal_post_def same_states_def split: option.splits)

lemma steal_scan_post:
  "sched_wf s Q T \<Longrightarrow> steal_scan targets me s = (r, s') \<Longrightarrow> steal_post s Q T r s'"
proof (induction targets arbitrary: s)
  case Nil
  then show ?case by (simp add: steal_post_def)
next
  case (Cons c cs)
  note w = Cons.prems(1)
  obtain b s1 where tr: "spinlock_try_acquire s = (b, s1)" by fastforce
  have w1: "sched_wf s1 Q T" by (rule wf_try [OF w tr])
  have skip: "steal_scan cs me s1 = (r, s') \<Longrightarrow> steal_post s Q T r s'"
    using steal_post_try [OF tr Cons.IH [OF w1]] by blast
  show ?case
  proof (cases "c = me \<or> pcps s c = None")
    case True
    then show ?thesis
      using Cons.IH [OF w] Cons.prems(2) by (cases "c = me") auto
  next
    case False
    then obtain tgt where tgt: "pcps s c = Some tgt" and ne: "c \<noteq> me" by auto
    have tgt1: "pcps s1 c = Some tgt" using tgt try_fields(2) [OF tr] by simp
    have take: "steal_post s Q T (Some t) (upd_thr t (\<lambda>x. x\<lparr>t_cpu_queue := me\<rparr>) (rq_pop_head t c p s1))"
      if "bitmap_find_highest tgt = Some p" "pc_rq_heads tgt p = Some t" for p t
      by (rule steal_post_try [OF tr steal_take [OF w1 tgt1 that]])
    note sc = Cons.prems(2) [simplified, unfolded tgt tr, simplified]
    show ?thesis
    proof (cases "b \<and> bitmap_find_highest tgt \<noteq> None \<and> pc_rq_heads tgt (the (bitmap_find_highest tgt)) \<noteq> None")
      case True
      then obtain p t where pt: "b" "bitmap_find_highest tgt = Some p" "pc_rq_heads tgt p = Some t" by auto
      then show ?thesis
        using sc skip take [OF pt(2,3)] steal_post_resched [OF take [OF pt(2,3)], of c] ne
        by (simp add: Let_def split: if_splits)
    next
      case False
      then show ?thesis
        using sc skip ne by (auto split: option.splits if_splits)
    qed
  qed
qed

lemma steal_post_thread: "sched_wf s Q T \<Longrightarrow> sched_steal_thread me s = (r, s') \<Longrightarrow> steal_post s Q T r s'"
  using steal_scan_post [of s Q T _ me r s']
  by (auto simp: sched_steal_thread_def Let_def steal_post_def split: if_splits)

section \<open>Choosing the next thread\<close>

definition pick_post :: "nat \<Rightarrow> sched \<Rightarrow> queues \<Rightarrow> nat set \<Rightarrow> nat option \<Rightarrow> sched \<Rightarrow> queues \<Rightarrow> bool" where
  "pick_post ci s Q T r s' Q' \<longleftrightarrow> sched_wf s' Q' T \<and> same_cfg s s' \<and> same_states s s' \<and> queued Q' \<subseteq> queued Q \<and>
     (\<forall>t. r = Some t \<longrightarrow> t \<in> T \<and> t \<notin> queued Q' \<and> (Option.bind (pcps s ci) pc_idle_thread = Some t \<or> t \<in> queued Q))"

lemma pick_post_steal:
  assumes w: "sched_wf s Q T" and st: "steal_post s Q T (Some t) s'"
  shows "pick_post ci s Q T (Some t) s' (deq t Q)"
  using st sched_wfD(7) [OF w] queued_deq [OF sched_wfD(1) [OF w], of t]
  by (auto simp: pick_post_def steal_post_def)

lemma same_cfg_idle:
  assumes "same_cfg s s'"
  shows "Option.bind (pcps s' c) pc_idle_thread = Option.bind (pcps s c) pc_idle_thread"
proof -
  have "cpu_cfg s' c = cpu_cfg s c" using assms by (simp add: same_cfg_def)
  then show ?thesis
    by (cases "pcps s c"; cases "pcps s' c") (auto simp: cpu_cfg_def)
qed

lemma pick_post_mono:
  assumes "pick_post ci s1 Q1 T r s' Q'" "same_cfg s s1" "same_states s s1" "queued Q1 \<subseteq> queued Q"
  shows "pick_post ci s Q T r s' Q'"
  using assms(1,4) same_cfg_idle [OF assms(2), of ci] same_cfg_trans [OF assms(2), of s']
    same_states_trans [OF assms(3), of s'] by (auto simp: pick_post_def)

lemma steal_or_idle_post:
  assumes w: "sched_wf s Q T" and st: "steal_or_idle me ci s = (r, s')"
  shows "\<exists>Q'. pick_post ci s Q T r s' Q'"
proof -
  obtain r1 s1 where s1: "sched_steal_thread me s = (r1, s1)" by fastforce
  note post = steal_post_thread [OF w s1]
  show ?thesis
  proof (cases r1)
    case (Some t)
    then show ?thesis
      using pick_post_steal [OF w post [unfolded Some]] st s1 by (auto simp: steal_or_idle_def)
  next
    case None
    have w1: "sched_wf s1 Q T" and cf: "same_cfg s s1" "same_states s s1"
      using post None by (simp_all add: steal_post_def)
    have r: "r = Option.bind (pcps s1 ci) pc_idle_thread" and s': "s' = s1"
      using st s1 None by (auto simp: steal_or_idle_def)
    have "t \<in> idles s1" if "r = Some t" for t
      using that r idlesI [of s1 ci] by (auto simp: bind_eq_Some_conv)
    then have "t \<in> T \<and> t \<notin> queued Q \<and> Option.bind (pcps s ci) pc_idle_thread = Some t" if "r = Some t" for t
      using that r sched_wfD(16,17) [OF w1, of t] same_cfg_idle [OF cf(1), of ci] by auto
    then have "pick_post ci s Q T r s1 Q"
      using w1 cf by (simp add: pick_post_def)
    then show ?thesis
      using s' by auto
  qed
qed

lemma pick_post_take:
  assumes w: "sched_wf s Q T" and c: "pcps s ci = Some pcp" and h: "pc_rq_heads pcp p = Some t" and p: "p < 256"
  shows "pick_post ci s Q T (Some t) (rq_pop_head t ci p s) (deq t Q)"
proof -
  have "cpu_rel pcp (Q ci)"
    using rq_cpu [OF sched_wfD(1) [OF w] c] by simp
  then obtain vs where q: "Q ci p = t # vs"
    using cpu_relD(5) [of pcp "Q ci" p] h p by (cases "Q ci p") auto
  have "t \<in> queued Q"
    using q queuedI [of t Q ci p] by simp
  then show ?thesis
    using wf_pop_head [OF w q] links_only_cfg [OF links_only_pop] same_states_links [OF links_only_pop]
      queued_deq [OF sched_wfD(1) [OF w], of t] sched_wfD(7) [OF w]
    by (auto simp: pick_post_def)
qed

lemma take_local_post:
  assumes w: "sched_wf s Q T" and p: "p < 256" and tk: "take_local me ci p s = (r, s')" and ci: "pcps s ci \<noteq> None"
  shows "\<exists>Q'. pick_post ci s Q T r s' Q'"
proof -
  obtain b s1 where tr: "spinlock_try_acquire s = (b, s1)" by fastforce
  have w1: "sched_wf s1 Q T" by (rule wf_try [OF w tr])
  have cf: "same_cfg s s1" "same_states s s1"
    using same_cfg_try [OF tr] same_states_thr [OF try_fields(1) [OF tr]] by auto
  obtain pcp where pcp: "pcps s1 ci = Some pcp"
    using ci try_fields(2) [OF tr] by auto
  have "\<exists>Q'. pick_post ci s1 Q T r s' Q'"
  proof (cases "b \<and> pc_rq_heads pcp p \<noteq> None \<and> pc_rq_heads pcp p \<noteq> pc_idle_thread pcp")
    case True
    then obtain t where "pc_rq_heads pcp p = Some t" by auto
    moreover from this have "(r, s') = (Some t, rq_pop_head t ci p s1)"
      using True tk tr pcp by (auto simp: take_local_def)
    ultimately show ?thesis
      using pick_post_take [OF w1 pcp _ p] by auto
  next
    case False
    then have "steal_or_idle me ci s1 = (r, s')"
      using tk tr pcp by (auto simp: take_local_def split: option.splits if_splits)
    then show ?thesis
      by (rule steal_or_idle_post [OF w1])
  qed
  then show ?thesis
    using pick_post_mono [OF _ cf] by blast
qed

lemma proactive_post:
  assumes w: "sched_wf s Q T" and st: "proactive_steal me p s = (r, s')"
  shows "\<exists>Q'. pick_post ci s Q T r s' Q' \<and> (r = None \<longrightarrow> queued Q' = queued Q)"
proof (cases "p > 150 \<and> smp_enabled s \<and> nr_cpus s > 1")
  case False
  then have "(r, s') = (None, s)"
    using st by (auto simp: proactive_steal_def)
  then show ?thesis
    using w by (auto simp: pick_post_def)
next
  case True
  obtain r1 s1 where s1: "sched_steal_thread me s = (r1, s1)" by fastforce
  note post = steal_post_thread [OF w s1]
  show ?thesis
  proof (cases r1)
    case None
    then have "(r, s') = (None, s1)"
      using st s1 True by (auto simp: proactive_steal_def)
    then show ?thesis
      using post None by (auto simp: pick_post_def steal_post_def)
  next
    case (Some t)
    have tq: "t \<in> queued Q" "sched_wf s1 (deq t Q) T" and cf: "same_cfg s s1" "same_states s s1"
      using post Some by (simp_all add: steal_post_def)
    show ?thesis
    proof (cases "t_priority (thr s1 t) < int p")
      case True
      then have "(r, s') = (Some t, s1)"
        using st s1 Some \<open>p > 150 \<and> _\<close> by (auto simp: proactive_steal_def)
      then show ?thesis
        using pick_post_steal [OF w post [unfolded Some]] by auto
    next
      case False
      then have rs: "r = None" "s' = sched_add_thread (Some t) s1"
        using st s1 Some \<open>p > 150 \<and> _\<close> by (auto simp: proactive_steal_def)
      have t: "t \<in> T" "t \<notin> queued (deq t Q)" "t \<notin> idles s1" "t_state (thr s1 t) = THREAD_READY"
        using tq(1) sched_wfD(7,11,17) [OF w] queued_deq [OF sched_wfD(1) [OF w]] same_cfg_idles [OF cf(1)] cf(2)
        by (auto simp: same_states_def)
      have "same_states s1 s'"
        using add_thread_states [OF tq(2) t(1)] t(4) by (simp add: same_states_def rs)
      moreover have "queued (enq c k t (deq t Q)) = queued Q" for c k
        using tq(1) queued_deq [OF sched_wfD(1) [OF w], of t] by auto
      ultimately show ?thesis
        using wf_add_thread [OF tq(2) t(1-3)] rs same_cfg_trans [OF cf(1) same_cfg_add_thread]
          same_states_trans [OF cf(2)] by (auto simp: pick_post_def)
    qed
  qed
qed

text \<open>
  \<open>pick_next\<close> keeps the invariant, changes no thread's state, and what it returns is an idle thread or
  a thread it has just taken off a queue; either way it is on no queue afterwards.
\<close>

lemma pick_next_post:
  assumes w: "sched_wf s Q T" and pk: "pick_next ci s = (r, s')"
  shows "\<exists>Q'. pick_post ci s Q T r s' Q'"
proof (cases "pcps s ci")
  case None
  then show ?thesis
    using pk w by (auto simp: pick_next_def pick_post_def)
next
  case (Some pcp)
  have cr: "cpu_rel pcp (Q ci)"
    using rq_cpu [OF sched_wfD(1) [OF w] Some] by simp
  show ?thesis
  proof (cases "bitmap_find_highest pcp")
    case None
    then show ?thesis
      using pk Some steal_or_idle_post [OF w] by (simp add: pick_next_def)
  next
    case (Some p)
    obtain r1 s1 where ps: "proactive_steal (pc_cpu_id pcp) p s = (r1, s1)" by fastforce
    obtain Q1 where Q1: "pick_post ci s Q T r1 s1 Q1"
      using proactive_post [OF w ps] by auto
    show ?thesis
    proof (cases r1)
      case None
      have "pcps s1 ci \<noteq> None"
        using Q1 \<open>pcps s ci = Some pcp\<close>
        by (auto simp: pick_post_def same_cfg_def cpu_cfg_def fun_eq_iff dest!: spec [of _ ci])
      moreover have "take_local (pc_cpu_id pcp) ci p s1 = (r, s')"
        using pk \<open>pcps s ci = Some pcp\<close> Some ps None by (simp add: pick_next_def)
      moreover have "sched_wf s1 Q1 T" "p < 256"
        using Q1 find_highest_Some [OF cr Some] by (simp_all add: pick_post_def)
      ultimately obtain Q' where "pick_post ci s1 Q1 T r s' Q'"
        using take_local_post by blast
      then show ?thesis
        using pick_post_mono [of ci s1 Q1 T r s' Q' s Q] Q1 by (auto simp: pick_post_def [of ci s Q T r1])
    next
      case (Some t)
      then show ?thesis
        using pk \<open>pcps s ci = Some pcp\<close> \<open>bitmap_find_highest pcp = Some p\<close> ps Q1 by (auto simp: pick_next_def)
    qed
  qed
qed

section \<open>Balancing\<close>

definition keeps :: "sched \<Rightarrow> queues \<Rightarrow> nat set \<Rightarrow> sched \<Rightarrow> bool" where
  "keeps s Q T s' \<longleftrightarrow> same_cfg s s' \<and> same_states s s' \<and> (\<exists>Q'. sched_wf s' Q' T \<and> queued Q' = queued Q)"

lemma keeps_refl: "sched_wf s Q T \<Longrightarrow> keeps s Q T s"
  by (auto simp: keeps_def)

lemma keeps_trans: "keeps s Q T s1 \<Longrightarrow> (\<And>Q1. sched_wf s1 Q1 T \<Longrightarrow> keeps s1 Q1 T s2) \<Longrightarrow> keeps s Q T s2"
  unfolding keeps_def using same_cfg_trans same_states_trans by metis

lemma keeps_pre: "keeps s1 Q T s2 \<Longrightarrow> same_cfg s s1 \<Longrightarrow> same_states s s1 \<Longrightarrow> keeps s Q T s2"
  unfolding keeps_def using same_cfg_trans same_states_trans by metis

lemma keeps_try: "sched_wf s Q T \<Longrightarrow> spinlock_try_acquire s = (b, s') \<Longrightarrow> keeps s Q T s'"
  using wf_try same_cfg_try same_states_thr [OF try_fields(1)] unfolding keeps_def by blast

lemma keeps_resched: "keeps s Q T s' \<Longrightarrow> keeps s Q T (smp_send_reschedule c s')"
  unfolding keeps_def using same_cfg_trans [OF _ same_cfg_resched] wf_resched
    same_states_trans [OF _ same_states_thr [OF resched_thr]] by blast

lemma keeps_upd_pcp: "sched_wf s Q T \<Longrightarrow> pcp_keeps f \<Longrightarrow> keeps s Q T (upd_pcp c f s)"
  unfolding keeps_def using wf_upd_pcp same_cfg_upd_pcp same_states_thr [OF upd_pcp_simps(1)] by blast

text \<open>Moving a queued thread to the tail of its priority on another CPU.\<close>

lemma move_keeps:
  assumes w: "sched_wf s Q T" and q: "Q c p = us @ t # vs" and d: "pcps s d \<noteq> None"
  shows "keeps s Q T (upd_thr t (\<lambda>x. x\<lparr>t_cpu_queue := d\<rparr>) (rq_append t d (prio_idx (t_priority (thr (rq_unlink t c p s) t)))
      (rq_unlink t c p s)))" (is "keeps s Q T (upd_thr t ?f (rq_append t d ?p ?s1))")
proof -
  note r = sched_wfD(1) [OF w]
  have l1: "links_only s ?s1" by (rule links_only_unlink)
  have tq: "t \<in> queued Q" using q queuedI [of t Q c p] by simp
  have r1: "rq_rel ?s1 (deq t Q)"
    using rq_unlink_refines [OF r q] deq_split [OF r q] by simp
  have w1: "sched_wf ?s1 (deq t Q) T"
    using wf_links_only [OF w l1 r1] queued_deq [OF r, of t] by auto
  have pr: "t_priority (thr ?s1 t) = int p" "p < 256"
    using core_fields(2) [OF links_only_thr_fields [OF l1, of t]] rq_home [OF r, of t c p] q rq_prio_bound [OF r, of c p]
    by auto
  have d1: "pcps ?s1 d \<noteq> None"
    using d links_only_cfg [OF l1] by (auto simp: same_cfg_def cpu_cfg_def fun_eq_iff dest!: spec [of _ d])
  then obtain pcp where d2: "pcps ?s1 d = Some pcp" by auto
  have tT: "t \<in> T" "t \<notin> queued (deq t Q)"
    using tq sched_wfD(7) [OF w] queued_deq [OF r] by auto
  let ?s2 = "upd_thr t ?f (rq_append t d ?p ?s1)" and ?Q2 = "enq d p t (deq t Q)"
  have r2: "rq_rel ?s2 ?Q2"
    unfolding enq_def pr(1) prio_idx_nat [OF pr(2)]
  proof (rule rq_append_refines [OF r1 d2 pr(2) tT(2) rq_room [OF w1 tT]])
    fix x assume "x\<lparr>t_rq_next := None, t_rq_prev := None\<rparr> = (thr ?s1 t)\<lparr>t_rq_next := None, t_rq_prev := None\<rparr>"
    then have "core x = core (thr ?s1 t)" by (simp add: core_def)
    from core_fields(2) [OF this] show "t_cpu_queue (?f x) = d \<and> t_priority (?f x) = int p"
      using pr(1) by simp
  qed simp
  have cfg: "same_cfg s ?s2"
    using same_cfg_trans [OF same_cfg_trans [OF links_only_cfg [OF l1] links_only_cfg [OF links_only_append]] same_cfg_upd_thr]
    by simp
  have st: "same_states s ?s2"
    using same_states_trans [OF same_states_links [OF l1] same_states_links [OF links_only_append]]
    by (simp add: same_states_def)
  have qq: "queued ?Q2 = queued Q"
    using tq queued_deq [OF r, of t] by auto
  have "sched_wf ?s2 ?Q2 T"
  proof (rule sched_wf_intro [OF w cfg r2])
    show "thr_ok (thr ?s2 u)" if "u \<in> T" for u
      using st sched_wfD(9) [OF w that] by (simp only: thr_ok_def prio_ok_def rsp_ok_def same_states_def)
  qed (use qq st sched_wfD(7,11,17) [OF w] in \<open>auto simp only: same_states_def\<close>)
  then show ?thesis
    using cfg st qq by (auto simp only: keeps_def)
qed

lemma best_cpu_exists:
  assumes a: "best_cpu t me n s = (Some b, l)"
  shows "pcps s b \<noteq> None"
proof -
  let ?f = "\<lambda>i (best, load). if i = me \<or> \<not> bit (t_cpu_affinity (thr s t)) i then (best, load)
      else case pcps s i of None \<Rightarrow> (best, load)
         | Some p \<Rightarrow> if pc_rq_total p < load then (Some i, pc_rq_total p) else (best, load)"
  have step: "fst (?f x a) = Some b \<Longrightarrow> fst a = Some b \<or> pcps s b \<noteq> None" for x a
    by (cases a) (auto split: if_splits option.splits)
  have "fst (fold ?f xs a) = Some b \<Longrightarrow> fst a = Some b \<or> pcps s b \<noteq> None" for xs a
  proof (induction xs arbitrary: a)
    case (Cons x xs)
    then have "fst (fold ?f xs (?f x a)) = Some b" by simp
    from Cons.IH [OF this] step [of x a] show ?case by blast
  qed simp
  from this [of "[0..<n]" "(None, 0xFFFFFFFF)"] show ?thesis
    using arg_cong [OF a, of fst] by (simp add: best_cpu_def)
qed

lemma find_migratable_Some:
  "find_migratable cts me n tot s = Some (t, d) \<Longrightarrow> t \<in> set cts \<and> pcps s d \<noteq> None"
  by (induction cts) (auto split: if_splits prod.splits option.splits dest: best_cpu_exists)

lemma balance_keeps:
  assumes w: "sched_wf s Q T"
  shows "keeps s Q T (sched_balance_push me ci s)"
proof -
  obtain b s1 where tr: "spinlock_try_acquire s = (b, s1)" by fastforce
  have w1: "sched_wf s1 Q T" and k1: "keeps s Q T s1"
    using wf_try [OF w tr] keeps_try [OF w tr] by auto
  show ?thesis
  proof (cases "pcps s ci")
    case None
    then show ?thesis using keeps_refl [OF w] by (simp add: sched_balance_push_def)
  next
    case (Some pcp)
    let ?n = "if smp_enabled s then nr_cpus s else 1"
    have pcp1: "pcps s1 ci = Some pcp" using Some try_fields(2) [OF tr] by simp
    have cr: "cpu_rel pcp (Q ci)" using rq_cpu [OF sched_wfD(1) [OF w] Some] by simp
    have step: "keeps s1 Q T (upd_thr t (\<lambda>x. x\<lparr>t_cpu_queue := d\<rparr>)
        (rq_append t d (prio_idx (t_priority (thr (rq_unlink t ci low s1) t))) (rq_unlink t ci low s1)))"
      if low: "List.find (\<lambda>p. pc_rq_counts pcp p > 0) (rev [0..<256]) = Some low"
        and mg: "find_migratable (walk (unat (pc_rq_counts pcp low)) (\<lambda>t. t_rq_next (thr s1 t)) (pc_rq_heads pcp low))
            me ?n (pc_rq_total pcp) s1 = Some (t, d)" for low t d
    proof -
      have p: "low < 256"
        using low by (auto simp: find_Some_iff rev_nth)
      have len: "unat (pc_rq_counts pcp low) = length (Q ci low)"
        using cpu_relD(7) [OF cr p] rq_len_ge [OF p, of "Q ci"] cpu_relD(3) [OF cr]
        by (simp add: unat_of_nat take_bit_nat_eq_self)
      have "walk (unat (pc_rq_counts pcp low)) (\<lambda>t. t_rq_next (thr s1 t)) (pc_rq_heads pcp low) = Q ci low"
        using walk_dll [OF rq_dll [OF sched_wfD(1) [OF w1], of ci low]] cpu_relD(5) [OF cr p] len by simp
      then have "t \<in> set (Q ci low)" and d: "pcps s1 d \<noteq> None"
        using find_migratable_Some [OF mg] by auto
      then obtain us vs where "Q ci low = us @ t # vs" by (auto dest: split_list)
      then show ?thesis
        by (rule move_keeps [OF w1 _ d])
    qed
    define mv where "mv low = find_migratable (walk (unat (pc_rq_counts pcp low)) (\<lambda>t. t_rq_next (thr s1 t))
        (pc_rq_heads pcp low)) me ?n (pc_rq_total pcp) s1" for low
    show ?thesis
    proof (cases "sched_balance_push me ci s \<in> {s, s1}")
      case True
      then show ?thesis using keeps_refl [OF w] k1 by auto
    next
      case False
      let ?fd = "List.find (\<lambda>p. pc_rq_counts pcp p > 0) (rev [0..<256])"
      obtain low t d where lm: "?fd = Some low" "mv low = Some (t, d)"
        using False Some tr unfolding sched_balance_push_def mv_def
        by (cases ?fd; cases "mv (the ?fd)") (auto simp: Let_def mv_def split: if_splits)
      note st = step [OF lm(1) lm(2) [unfolded mv_def]]
      let ?X = "upd_thr t (\<lambda>x. x\<lparr>t_cpu_queue := d\<rparr>)
        (rq_append t d (prio_idx (t_priority (thr (rq_unlink t ci low s1) t))) (rq_unlink t ci low s1))"
      have "sched_balance_push me ci s = (if cpu_is_idle d ?X then smp_send_reschedule d ?X else ?X)"
        using False Some tr lm by (auto simp: sched_balance_push_def Let_def mv_def split: if_splits)
      then have "keeps s1 Q T (sched_balance_push me ci s)"
        using st keeps_resched [OF st, of d] by simp
      then show ?thesis
        by (rule keeps_pre [OF _ same_cfg_try [OF tr] same_states_thr [OF try_fields(1) [OF tr]]])
    qed
  qed
qed

end
