(* ===== verification/Sched_Steps.thy ===== *)
theory Sched_Steps
  imports Sched_Ops
begin

text \<open>
  Preservation of the invariant by the operations that change thread states: waking sleepers and
  waiters, \<open>schedule\<close> and what is built on it, the timer tick, priority changes, killing; and that
  \<open>schedule\<close> does not panic in a well-formed state.
\<close>

section \<open>Waking sleepers\<close>

definition wfs :: "nat set \<Rightarrow> sched \<Rightarrow> bool" where
  "wfs T s \<longleftrightarrow> (\<exists>Q. sched_wf s Q T)"

text \<open>\<open>except A s s'\<close>: the configuration is the same and so are the states of threads outside \<open>A\<close>.\<close>

definition except :: "nat set \<Rightarrow> sched \<Rightarrow> sched \<Rightarrow> bool" where
  "except A s s' \<longleftrightarrow> same_cfg s s' \<and> (\<forall>u. u \<notin> A \<longrightarrow> t_state (thr s' u) = t_state (thr s u))"

lemma except_refl [simp]: "except A s s"
  by (simp add: except_def)

lemma except_trans: "except A a b \<Longrightarrow> except B b c \<Longrightarrow> except (A \<union> B) a c"
  using same_cfg_trans by (auto simp: except_def)

lemma except_mono: "except A a b \<Longrightarrow> A \<subseteq> B \<Longrightarrow> except B a b"
  by (auto simp: except_def)

lemma except_keeps: "keeps s Q T s' \<Longrightarrow> except {} s s'"
  by (simp add: except_def keeps_def same_states_def)

lemma not_queued: "sched_wf s Q T \<Longrightarrow> t_state (thr s t) \<noteq> THREAD_READY \<Longrightarrow> t \<notin> queued Q"
  using sched_wfD(11) by metis

lemma not_idle:
  "sched_wf s Q T \<Longrightarrow> t_state (thr s t) \<noteq> THREAD_READY \<Longrightarrow> t_state (thr s t) \<noteq> THREAD_RUNNING \<Longrightarrow> t \<notin> idles s"
  using sched_wfD(18) by metis

lemma wf_upd_outside:
  assumes w: "sched_wf s Q T" and t: "t \<notin> queued Q" "t \<notin> idles s"
    and f: "\<And>x. t_rq_next (f x) = t_rq_next x \<and> t_rq_prev (f x) = t_rq_prev x \<and> t_all_next (f x) = t_all_next x"
    and ok: "\<And>x. thr_ok x \<Longrightarrow> thr_ok (f x)"
  shows "sched_wf (upd_thr t f s) Q T"
  using t f ok sched_wfD(9) [OF w] by (intro wf_upd_thr [OF w]) auto

lemma make_ready_simps [simp]:
  "t_rq_next (make_ready x) = t_rq_next x" "t_rq_prev (make_ready x) = t_rq_prev x"
  "t_all_next (make_ready x) = t_all_next x" "t_state (make_ready x) = THREAD_READY"
  "t_cpu_queue (make_ready x) = t_cpu_queue x" "t_wq_next (make_ready x) = t_wq_next x"
  by (simp_all add: make_ready_def)

lemma make_ready_ok: "thr_ok x \<Longrightarrow> thr_ok (make_ready x)"
  by (simp add: make_ready_def thr_ok_def prio_ok_def rsp_ok_def)

lemma core_add_locked_other:
  assumes "sched_wf s Q T" "t \<in> T" "u \<noteq> t"
  shows "t_state (thr (sched_add_thread_to_cpu_locked (Some t) c s) u) = t_state (thr s u)"
proof (cases "pcps s c = None \<or> c \<ge> MAX_CPUS")
  case True
  then show ?thesis by (auto simp: sched_add_thread_to_cpu_locked_def)
next
  case False
  then show ?thesis
    using core_fields(1) [of "thr (sched_add_thread_to_cpu_locked (Some t) c s) u" "thr s u"]
      add_locked_thr [of s c t u] sched_wfD(10) [OF assms(1,2)] assms(3) by simp
qed

lemma wake_sleeper_wf:
  assumes w: "sched_wf s Q T" and t: "t \<in> T" "t_state (thr s t) = THREAD_SLEEPING"
  shows "\<exists>Q'. sched_wf (wake_sleeper t s) Q' T" "except {t} s (wake_sleeper t s)"
proof -
  let ?s1 = "upd_thr t make_ready s"
  let ?c = "if t_cpu_queue (thr s t) \<noteq> this_cpu ?s1 \<and> t_cpu_queue (thr s t) < nr_cpus ?s1 \<and>
      pcps ?s1 (t_cpu_queue (thr s t)) \<noteq> None then t_cpu_queue (thr s t) else this_cpu ?s1"
  let ?s2 = "sched_add_thread_to_cpu_locked (Some t) ?c ?s1"
  have s': "wake_sleeper t s = upd_pcp ?c (\<lambda>c. c\<lparr>pc_need_reschedule := True\<rparr>) ?s2"
    by (simp add: wake_sleeper_def Let_def)
  have tq: "t \<notin> queued Q" "t \<notin> idles s"
    using not_queued [OF w, of t] not_idle [OF w, of t] t(2) by auto
  have w1: "sched_wf ?s1 Q T"
    by (rule wf_upd_outside [OF w tq]) (simp_all add: make_ready_ok)
  have c1: "same_cfg s ?s1"
    by (rule same_cfg_upd_thr) simp
  have "pcps ?s1 ?c \<noteq> None"
    using sched_wfD(12,14) [OF w1] by (auto split: if_splits)
  then have w2: "sched_wf ?s2 (enq ?c (nat (t_priority (thr ?s1 t))) t Q) T"
    using tq t(1) same_cfg_idles [OF c1] by (intro wf_add_locked [OF w1]) auto
  have k: "pcp_keeps (\<lambda>c. c\<lparr>pc_need_reschedule := True\<rparr>)"
    by (simp add: pcp_keeps_def rq_part_def)
  show "\<exists>Q'. sched_wf (wake_sleeper t s) Q' T"
    unfolding s' using wf_upd_pcp [OF w2 k] by blast
  have "same_cfg s (wake_sleeper t s)"
    unfolding s' using same_cfg_trans [OF same_cfg_trans [OF c1 same_cfg_add_locked] same_cfg_upd_pcp [OF k]] .
  moreover have "t_state (thr (wake_sleeper t s) u) = t_state (thr s u)" if "u \<noteq> t" for u
    unfolding s' using core_add_locked_other [OF w1 t(1) that] that by simp
  ultimately show "except {t} s (wake_sleeper t s)"
    by (simp add: except_def)
qed

definition sleeping :: "sched \<Rightarrow> nat set" where
  "sleeping s = {t. t_state (thr s t) = THREAD_SLEEPING}"

lemma sleepers_loop_wf:
  "sched_wf s Q T \<Longrightarrow> set ts \<subseteq> T \<Longrightarrow> sleepers_loop ts n s = (m, s') \<Longrightarrow>
   wfs T s' \<and> except (sleeping s) s s'"
proof (induction ts arbitrary: n s Q)
  case Nil
  then show ?case by (auto simp: wfs_def)
next
  case (Cons t ts)
  obtain b s1 where tr: "spinlock_try_acquire s = (b, s1)" by fastforce
  have w1: "sched_wf s1 Q T" by (rule wf_try [OF Cons.prems(1) tr])
  have th: "thr s1 = thr s" and e1: "except {} s s1"
    using try_fields(1) [OF tr] same_cfg_try [OF tr] by (simp_all add: except_def)
  have sl: "sleeping s1 = sleeping s" by (simp add: sleeping_def th)
  consider "sleepers_loop ts n s = (m, s')" | "sleepers_loop ts n s1 = (m, s')"
    | "sleep_expired t s" "sleepers_loop ts (n + 1) (wake_sleeper t s1) = (m, s')"
    using Cons.prems(3) tr by (auto split: if_splits)
  then show ?case
  proof cases
    case 1
    then show ?thesis using Cons.IH [OF Cons.prems(1)] Cons.prems(2) by simp
  next
    case 2
    then have "wfs T s' \<and> except (sleeping s) s1 s'"
      using Cons.IH [OF w1] Cons.prems(2) sl by simp
    then show ?thesis using except_trans [OF e1] by simp
  next
    case 3
    then have t: "t \<in> T" "t_state (thr s1 t) = THREAD_SLEEPING"
      using Cons.prems(2) th by (auto simp: sleep_expired_def Let_def)
    obtain Q2 where w2: "sched_wf (wake_sleeper t s1) Q2 T"
      using wake_sleeper_wf(1) [OF w1 t] by auto
    have e2: "except {t} s1 (wake_sleeper t s1)" by (rule wake_sleeper_wf(2) [OF w1 t])
    have "wfs T s' \<and> except (sleeping (wake_sleeper t s1)) (wake_sleeper t s1) s'"
      using Cons.IH [OF w2 _ 3(2)] Cons.prems(2) by simp
    moreover have "sleeping (wake_sleeper t s1) \<subseteq> sleeping s" "t \<in> sleeping s"
      using e2 t(2) by (auto simp: sleeping_def except_def th)
    ultimately show ?thesis
      using except_mono [OF except_trans [OF except_trans [OF e1 e2]]] by blast
  qed
qed

lemma check_sleepers_wf:
  assumes w: "sched_wf s Q T" and c: "check_sleepers s = (m, s')"
  shows "wfs T s' \<and> except (sleeping s) s s'"
proof -
  obtain b s1 where tr: "spinlock_try_acquire s = (b, s1)" by fastforce
  have w1: "sched_wf s1 Q T" by (rule wf_try [OF w tr])
  have e1: "except {} s s1" "sleeping s1 = sleeping s"
    using try_fields(1) [OF tr] same_cfg_try [OF tr] by (simp_all add: except_def sleeping_def)
  show ?thesis
  proof (cases b)
    case True
    then have "sleepers_loop (all_threads_list s1) 0 s1 = (m, s')"
      using c tr by (simp add: check_sleepers_def)
    then show ?thesis
      using sleepers_loop_wf [OF w1 sched_wfD(8) [OF w1]] except_trans [OF e1(1), of "sleeping s"] e1(2) by auto
  next
    case False
    then show ?thesis
      using c tr w1 except_mono [OF e1(1)] by (auto simp: check_sleepers_def wfs_def)
  qed
qed

section \<open>The run-time check passes\<close>

lemma validate_walk_ok:
  assumes "dll (nx s) P p xs None" "\<forall>t\<in>set xs. t_state (thr s t) \<noteq> THREAD_CREATED"
    "i + length xs = n" "n + 64 < 2 ^ 32" "length xs < k"
  shows "validate_walk k (of_nat n) (of_nat i) (first_of xs None) s = Some (of_nat n)"
  using assms
proof (induction k arbitrary: i p xs)
  case 0
  then show ?case by simp
next
  case (Suc k)
  show ?case
  proof (cases xs)
    case Nil
    then show ?thesis using Suc.prems by simp
  next
    case (Cons t ys)
    have i: "Suc i + length ys = n"
      using Suc.prems Cons by simp
    have "unat (of_nat (Suc i) :: u32) = Suc i" "unat (of_nat (n + 64) :: u32) = n + 64"
      using Suc.prems(4) i by (simp_all only: unat_of_nat) (simp_all add: take_bit_nat_eq_self)
    then have le: "\<not> (of_nat i + 1 :: u32) > of_nat n + 64"
      using i by (simp add: word_less_nat_alt not_less add.commute)
    have "validate_walk k (of_nat n) (of_nat (Suc i)) (first_of ys None) s = Some (of_nat n)"
      using Suc.prems Cons i by (intro Suc.IH) auto
    then show ?thesis
      using Suc.prems(1,2) Cons le by (simp add: add.commute)
  qed
qed

lemma validate_prio_ok:
  assumes w: "sched_wf s Q T" and c: "pcps s c = Some pcp" and p: "p < 256"
  shows "validate_prio pcp s p"
proof -
  note r = sched_wfD(1) [OF w]
  have cr: "cpu_rel pcp (Q c)" using rq_cpu [OF r c] by simp
  have "finite (queued Q)"
    using sched_wfD(5,7) [OF w] by (rule rev_finite_subset)
  then have "rq_len (Q c) \<le> card T"
    using rq_len_card [OF r, of c] card_mono [OF sched_wfD(5,7) [OF w]] by simp
  then have n: "length (Q c p) + 64 < 2 ^ 32"
    using rq_len_ge [OF p, of "Q c"] sched_wfD(6) [OF w] by simp
  have "\<forall>t\<in>set (Q c p). t_state (thr s t) \<noteq> THREAD_CREATED"
    using sched_wfD(11) [OF w] queuedI [of _ Q c p] by fastforce
  moreover have u: "unat (of_nat (length (Q c p)) :: u32) = length (Q c p)"
    using n by (simp add: unat_of_nat take_bit_nat_eq_self)
  ultimately have "validate_walk (unat (of_nat (length (Q c p)) :: u32) + 65) (of_nat (length (Q c p))) (of_nat 0)
      (first_of (Q c p) None) s = Some (of_nat (length (Q c p)))"
    using n rq_dll [OF r, of c p] by (intro validate_walk_ok [where P = "pv s" and p = None]) simp_all
  moreover have "unat (of_nat (length (Q c p) + 64) :: u32) = length (Q c p) + 64"
    using n by (simp only: unat_of_nat) (simp add: take_bit_nat_eq_self)
  then have "\<not> (of_nat (length (Q c p)) :: u32) > of_nat (length (Q c p)) + 64"
    using u by (simp add: word_less_nat_alt)
  ultimately show ?thesis
    using cpu_relD(5,7) [OF cr p] by (simp add: validate_prio_def)
qed

lemma validate_rq_ok:
  assumes w: "sched_wf s Q T" and v: "sched_validate_rq s = (ok, s')"
  shows "ok \<and> sched_wf s' Q T \<and> except {} s s'"
proof -
  obtain b s1 where tr: "spinlock_try_acquire s = (b, s1)" by fastforce
  have w1: "sched_wf s1 Q T" by (rule wf_try [OF w tr])
  have e1: "except {} s s1"
    using try_fields(1) [OF tr] same_cfg_try [OF tr] by (simp add: except_def)
  have all: "list_all (validate_prio pcp s1) [0..<256]" if "pcps s (this_cpu s) = Some pcp" for pcp
    using validate_prio_ok [OF w1] try_fields(2) [OF tr] that by (simp add: list_all_iff)
  show ?thesis
  proof (cases "\<not> sched_running s \<or> this_cpu s \<ge> MAX_CPUS \<or> pcps s (this_cpu s) = None")
    case True
    then show ?thesis
      using v w by (auto simp: sched_validate_rq_def split: if_splits)
  next
    case False
    then obtain pcp where pcp: "pcps s (this_cpu s) = Some pcp" by auto
    then have "(ok, s') = (\<not> b \<or> list_all (validate_prio pcp s1) [0..<256], s1)"
      using v tr False unfolding sched_validate_rq_def by (auto simp: not_le)
    then show ?thesis
      using w1 e1 all [OF pcp] by simp
  qed
qed

section \<open>The context switch\<close>

lemma load_cr3_wf: "sched_wf s Q T \<Longrightarrow> sched_wf (load_cr3 c n s) Q T"
  using wf_upd_pcp [of s Q T "\<lambda>p. p\<lparr>pc_cr3 := _\<rparr>"]
  by (simp add: load_cr3_def Let_def pcp_keeps_def rq_part_def)

lemma load_cr3_cfg: "same_cfg s (load_cr3 c n s)" "thr (load_cr3 c n s) = thr s"
  using same_cfg_upd_pcp [of "\<lambda>p. p\<lparr>pc_cr3 := _\<rparr>" s c]
  by (simp_all add: load_cr3_def Let_def pcp_keeps_def rq_part_def)

lemma dispatch_wf:
  assumes w: "sched_wf s Q T" and n: "n \<in> T" "n \<notin> queued Q"
    "n \<in> idles s \<Longrightarrow> Option.bind (pcps s c) pc_idle_thread = Some n"
  shows "sched_wf (dispatch c n s) Q T"
proof -
  have w1: "sched_wf (upd_pcp c (\<lambda>p. p\<lparr>pc_cpu_thread := Some n\<rparr>) s) Q T"
    by (rule wf_set_cpu_thread [OF w n(1,3)])
  have w2: "sched_wf (upd_thr n (\<lambda>x. x\<lparr>t_state := THREAD_RUNNING, t_time_slice := THREAD_TIME_SLICE\<rparr>)
      (upd_pcp c (\<lambda>p. p\<lparr>pc_cpu_thread := Some n\<rparr>) s)) Q T"
    using n(2) sched_wfD(9) [OF w]
    by (intro wf_upd_thr [OF w1]) (auto simp: thr_ok_def prio_ok_def rsp_ok_def)
  show ?thesis
    unfolding dispatch_def Let_def
    by (rule wf_upd_pcp [OF w2]) (simp add: pcp_keeps_def rq_part_def)
qed

lemma requeue_wf:
  assumes w: "sched_wf s Q T" and c: "pcps s c = Some pcp" and cur: "pc_cpu_thread pcp = Some cur"
  shows "\<exists>Q'. sched_wf (requeue_current c cur s) Q' T \<and> queued Q' = (if t_state (thr s cur) = THREAD_RUNNING \<and>
      Some cur \<noteq> pc_idle_thread pcp then insert cur (queued Q) else queued Q)"
    "except {cur} s (requeue_current c cur s)"
proof -
  let ?f = "\<lambda>x. x\<lparr>t_state := THREAD_READY, t_priority := t_base_priority x, t_age_ticks := 0\<rparr>"
  have *: "(\<exists>Q'. sched_wf (requeue_current c cur s) Q' T \<and> queued Q' = (if t_state (thr s cur) = THREAD_RUNNING \<and>
      Some cur \<noteq> pc_idle_thread pcp then insert cur (queued Q) else queued Q)) \<and>
    except {cur} s (requeue_current c cur s)"
  proof (cases "t_state (thr s cur) = THREAD_RUNNING \<and> Some cur \<noteq> pc_idle_thread pcp")
    case True
    have t: "cur \<in> T" "cur \<notin> idles s" "cur \<notin> queued Q"
      using wf_current [OF w c cur] True not_queued [OF w, of cur] by auto
    have w1: "sched_wf (upd_thr cur ?f s) Q T"
      by (rule wf_upd_outside [OF w t(3,2)]) (auto simp: thr_ok_def prio_ok_def rsp_ok_def)
    have c1: "same_cfg s (upd_thr cur ?f s)"
      by (rule same_cfg_upd_thr) simp
    have e: "requeue_current c cur s = sched_add_thread (Some cur) (upd_thr cur ?f s)"
      using True c by (simp add: requeue_current_def)
    have "except {cur} s (requeue_current c cur s)"
      unfolding e except_def using same_cfg_trans [OF c1 same_cfg_add_thread] add_thread_states(1) [OF w1 t(1)] by simp
    moreover have "\<exists>Q'. sched_wf (requeue_current c cur s) Q' T \<and> queued Q' = insert cur (queued Q)"
      unfolding e using wf_add_thread [OF w1 t(1,3)] t(2) same_cfg_idles [OF c1]
      by (intro exI [of _ "enq (choose_cpu cur (upd_thr cur ?f s)) (nat (t_priority (thr (upd_thr cur ?f s) cur))) cur Q"]) simp
    ultimately show ?thesis using True by auto
  next
    case False
    then have "requeue_current c cur s = s" using c by (auto simp: requeue_current_def)
    then show ?thesis using w False by auto
  qed
  show "\<exists>Q'. sched_wf (requeue_current c cur s) Q' T \<and> queued Q' = (if t_state (thr s cur) = THREAD_RUNNING \<and>
      Some cur \<noteq> pc_idle_thread pcp then insert cur (queued Q) else queued Q)"
    "except {cur} s (requeue_current c cur s)"
    using * by blast+
qed

lemma same_cfg_pcp:
  assumes "same_cfg s s'" "pcps s c = Some pcp"
  shows "\<exists>pcp'. pcps s' c = Some pcp' \<and> pc_cpu_thread pcp' = pc_cpu_thread pcp \<and> pc_idle_thread pcp' = pc_idle_thread pcp \<and>
    pc_cpu_id pcp' = pc_cpu_id pcp"
proof -
  have "cpu_cfg s' c = cpu_cfg s c" using assms(1) by (simp add: same_cfg_def)
  then show ?thesis using assms(2) by (auto simp: cpu_cfg_def)
qed

lemma wfs_misc_count: "sched_wf s Q T \<Longrightarrow> sched_wf (s\<lparr>sched_switch_count := x\<rparr>) Q T"
  by (erule wf_misc) simp_all

lemma switch_away:
  assumes w: "sched_wf s Q T" and c: "pcps s c = Some pcp" and cur: "pc_cpu_thread pcp = Some cur"
    and sw: "switch_to c cur s = Some s'" and r: "fst (pick_next c s) \<noteq> Some cur"
  shows "\<exists>Q'. sched_wf s' Q' T \<and> (t_state (thr s cur) = THREAD_RUNNING \<and> Some cur \<noteq> pc_idle_thread pcp \<longrightarrow> cur \<in> queued Q')"
proof -
  obtain r s1 where pk: "pick_next c s = (r, s1)" by fastforce
  obtain Q1 where post: "pick_post c s Q T r s1 Q1" using pick_next_post [OF w pk] by auto
  have w1: "sched_wf s1 Q1 T" and cf: "same_cfg s s1" and st: "same_states s s1"
    using post by (simp_all add: pick_post_def)
  obtain pcp1 where c1: "pcps s1 c = Some pcp1" "pc_cpu_thread pcp1 = Some cur" "pc_idle_thread pcp1 = pc_idle_thread pcp"
    using same_cfg_pcp [OF cf c] cur by auto
  have ne: "r \<noteq> Some cur" using r pk by simp
  let ?s2 = "requeue_current c cur s1"
  obtain n where n: "r = Some n" and s': "s' = (dispatch c n (load_cr3 c n ?s2))
      \<lparr>sched_switch_count := sched_switch_count (dispatch c n (load_cr3 c n ?s2)) + 1\<rparr>"
    using sw pk ne by (auto simp: switch_to_def Let_def split: option.splits if_splits)
  obtain Q2 where w2: "sched_wf ?s2 Q2 T" and q2: "queued Q2 = (if t_state (thr s1 cur) = THREAD_RUNNING \<and>
      Some cur \<noteq> pc_idle_thread pcp1 then insert cur (queued Q1) else queued Q1)"
    using requeue_wf(1) [OF w1 c1(1,2)] by blast
  have cf2: "same_cfg s1 ?s2"
    using requeue_wf(2) [OF w1 c1(1,2)] by (simp add: except_def)
  have nT: "n \<in> T" "n \<notin> queued Q2" "Option.bind (pcps s c) pc_idle_thread = Some n \<or> n \<in> queued Q"
    using post n q2 ne by (auto simp: pick_post_def split: if_splits)
  have "n \<in> idles s \<Longrightarrow> Option.bind (pcps s c) pc_idle_thread = Some n"
    using nT(3) sched_wfD(17) [OF w, of n] by auto
  moreover have cf3: "same_cfg s (load_cr3 c n ?s2)"
    by (rule same_cfg_trans [OF same_cfg_trans [OF cf cf2] load_cr3_cfg(1)])
  ultimately have "n \<in> idles (load_cr3 c n ?s2) \<Longrightarrow> Option.bind (pcps (load_cr3 c n ?s2) c) pc_idle_thread = Some n"
    using same_cfg_idles [OF cf3] same_cfg_idle [OF cf3, of c] by simp
  then have "sched_wf s' Q2 T"
    unfolding s' using wfs_misc_count [OF dispatch_wf [OF load_cr3_wf [OF w2] nT(1,2)]] by blast
  moreover have "t_state (thr s1 cur) = t_state (thr s cur)" using st by (simp add: same_states_def)
  ultimately show ?thesis using q2 c1(3) by auto
qed

lemma switch_to_wf:
  assumes w: "sched_wf s Q T" and c: "pcps s c = Some pcp" and cur: "pc_cpu_thread pcp = Some cur"
    and sw: "switch_to c cur s = Some s'"
  shows "wfs T s'"
proof (cases "fst (pick_next c s) = Some cur")
  case True
  obtain r s1 where pk: "pick_next c s = (r, s1)" by fastforce
  obtain Q1 where post: "pick_post c s Q T r s1 Q1" using pick_next_post [OF w pk] by auto
  have w1: "sched_wf s1 Q1 T" and cf: "same_cfg s s1" using post by (simp_all add: pick_post_def)
  obtain pcp1 where c1: "pcps s1 c = Some pcp1" "pc_cpu_thread pcp1 = Some cur" "pc_idle_thread pcp1 = pc_idle_thread pcp"
    using same_cfg_pcp [OF cf c] cur by auto
  have t: "cur \<in> T" "cur \<notin> queued Q1" "cur \<in> idles s1 \<Longrightarrow> pc_idle_thread pcp1 = Some cur"
    using post pk True wf_current [OF w1 c1(1,2)] by (auto simp: pick_post_def)
  have "s' = s1 \<or> s' = sched_add_thread (Some cur) s1 \<and> Some cur \<noteq> pc_idle_thread pcp1"
    using sw pk True c1(1) by (auto simp: switch_to_def split: if_splits)
  moreover have "wfs T (sched_add_thread (Some cur) s1)" if "Some cur \<noteq> pc_idle_thread pcp1"
    unfolding wfs_def by (rule exI, rule wf_add_thread [OF w1 t(1,2)]) (use t(3) that in auto)
  ultimately show ?thesis
    using w1 by (auto simp: wfs_def)
next
  case False
  from switch_away [OF w c cur sw False] show ?thesis by (auto simp: wfs_def)
qed

text \<open>Before the switch: the run-time checks, waking sleepers and balancing.\<close>

definition pre_switch :: "sched \<Rightarrow> sched" where
  "pre_switch s = upd_pcp (this_cpu s) (\<lambda>p. p\<lparr>pc_need_reschedule := False\<rparr>)
     (periodic_balance (this_cpu s) (periodic_sleepers (this_cpu s) (snd (sched_validate_rq s))))"

lemma periodic_sleepers_wf:
  assumes w: "sched_wf s Q T"
  shows "wfs T (periodic_sleepers c s) \<and> except (sleeping s) s (periodic_sleepers c s)"
proof (cases "periodic_sleepers c s = s")
  case True
  then show ?thesis using w by (auto simp: wfs_def)
next
  case False
  let ?s1 = "upd_pcp c (\<lambda>p. p\<lparr>pc_last_check := tsc s\<rparr>) s"
  have k: "pcp_keeps (\<lambda>p. p\<lparr>pc_last_check := tsc s\<rparr>)" by (simp add: pcp_keeps_def rq_part_def)
  have e: "except {} s ?s1" "sleeping ?s1 = sleeping s"
    using same_cfg_upd_pcp [OF k] by (simp_all add: except_def sleeping_def)
  obtain m s' where ck: "check_sleepers ?s1 = (m, s')" by fastforce
  have "periodic_sleepers c s = s'"
    using False ck by (auto simp: periodic_sleepers_def split: option.splits if_splits)
  then show ?thesis
    using check_sleepers_wf [OF wf_upd_pcp [OF w k] ck] except_trans [OF e(1), of "sleeping s"] e(2) by auto
qed

lemma periodic_balance_wf:
  assumes w: "sched_wf s Q T"
  shows "wfs T (periodic_balance c s) \<and> except {} s (periodic_balance c s)"
proof (cases "periodic_balance c s = s")
  case True
  then show ?thesis using w by (auto simp: wfs_def)
next
  case False
  let ?s1 = "upd_pcp c (\<lambda>p. p\<lparr>pc_last_balance := tsc s\<rparr>) s"
  have k: "pcp_keeps (\<lambda>p. p\<lparr>pc_last_balance := tsc s\<rparr>)" by (simp add: pcp_keeps_def rq_part_def)
  have "periodic_balance c s = sched_balance_push c c ?s1"
    using False by (auto simp: periodic_balance_def split: option.splits if_splits)
  moreover have "keeps s Q T (sched_balance_push c c ?s1)"
    using keeps_pre [OF balance_keeps [OF wf_upd_pcp [OF w k]] same_cfg_upd_pcp [OF k] same_states_thr [OF upd_pcp_simps(1)]] .
  ultimately have "keeps s Q T (periodic_balance c s)" by simp
  from this except_keeps [OF this] show ?thesis
    by (auto simp: wfs_def keeps_def)
qed

lemma pre_switch_wf:
  assumes w: "sched_wf s Q T"
  shows "wfs T (pre_switch s) \<and> except (sleeping s) s (pre_switch s)"
proof -
  let ?c = "this_cpu s"
  obtain ok s1 where v: "sched_validate_rq s = (ok, s1)" by fastforce
  have 1: "sched_wf s1 Q T" "except {} s s1" using validate_rq_ok [OF w v] by auto
  then have sl: "sleeping s1 = sleeping s" by (simp add: sleeping_def except_def)
  let ?s2 = "periodic_sleepers ?c s1"
  obtain Q2 where 2: "sched_wf ?s2 Q2 T" "except (sleeping s) s1 ?s2"
    using periodic_sleepers_wf [OF 1(1), of ?c] sl by (auto simp: wfs_def)
  let ?s3 = "periodic_balance ?c ?s2"
  obtain Q3 where 3: "sched_wf ?s3 Q3 T" "except {} ?s2 ?s3"
    using periodic_balance_wf [OF 2(1), of ?c] by (auto simp: wfs_def)
  have k: "pcp_keeps (\<lambda>p. p\<lparr>pc_need_reschedule := False\<rparr>)" by (simp add: pcp_keeps_def rq_part_def)
  have "except {} ?s3 (pre_switch s)"
    using same_cfg_upd_pcp [OF k] by (simp add: except_def pre_switch_def v)
  then have "except (sleeping s) s (pre_switch s)"
    using except_trans [OF except_trans [OF except_trans [OF 1(2) 2(2)] 3(2)]] by fastforce
  then show ?thesis
    using wf_upd_pcp [OF 3(1) k] by (auto simp: wfs_def pre_switch_def v)
qed

lemma schedule_eq:
  assumes w: "sched_wf s Q T" and c: "pcps s (this_cpu s) = Some pcp" and run: "sched_running s"
    and cur: "pc_cpu_thread pcp = Some cur"
  shows "schedule s = (if sched_validate_all (snd (sched_validate_rq s)) then switch_to (this_cpu s) cur (pre_switch s) else None)"
    "\<exists>pcp'. pcps (pre_switch s) (this_cpu s) = Some pcp' \<and> pc_cpu_thread pcp' = Some cur \<and> pc_idle_thread pcp' = pc_idle_thread pcp"
proof -
  obtain ok s1 where v: "sched_validate_rq s = (ok, s1)" by fastforce
  have ok: "ok" using validate_rq_ok [OF w v] by simp
  show p: "\<exists>pcp'. pcps (pre_switch s) (this_cpu s) = Some pcp' \<and> pc_cpu_thread pcp' = Some cur \<and> pc_idle_thread pcp' = pc_idle_thread pcp"
    using pre_switch_wf [OF w] same_cfg_pcp [of s "pre_switch s", OF _ c] cur by (auto simp: except_def)
  then have "Option.bind (pcps (pre_switch s) (this_cpu s)) pc_cpu_thread = Some cur" by auto
  moreover have "this_cpu s < MAX_CPUS" "pc_cpu_id pcp = this_cpu s"
    using sched_wfD(12,13,15) [OF w] c by auto
  ultimately show "schedule s = (if sched_validate_all (snd (sched_validate_rq s))
      then switch_to (this_cpu s) cur (pre_switch s) else None)"
    using run cur c v ok by (simp add: schedule_def Let_def pre_switch_def not_le)
qed

lemma schedule_wf:
  assumes w: "sched_wf s Q T" and sc: "schedule s = Some s'"
  shows "wfs T s'"
proof (cases "sched_running s \<and> current_thread s \<noteq> None")
  case True
  obtain pcp where c: "pcps s (this_cpu s) = Some pcp"
    using sched_wfD(12,14) [OF w] by blast
  then obtain cur where cur: "pc_cpu_thread pcp = Some cur"
    using True sched_wfD(12,13) [OF w] by (auto simp: current_thread_def)
  obtain pcp' where c': "pcps (pre_switch s) (this_cpu s) = Some pcp'" "pc_cpu_thread pcp' = Some cur"
    using schedule_eq(2) [OF w c _ cur] True by auto
  obtain Q' where w': "sched_wf (pre_switch s) Q' T"
    using pre_switch_wf [OF w] by (auto simp: wfs_def)
  have "switch_to (this_cpu s) cur (pre_switch s) = Some s'"
    using schedule_eq(1) [OF w c _ cur] True sc by (simp split: if_splits)
  then show ?thesis
    by (rule switch_to_wf [OF w' c'])
next
  case False
  obtain pcp where c: "pcps s (this_cpu s) = Some pcp" "this_cpu s < MAX_CPUS" "pc_cpu_id pcp = this_cpu s"
    using sched_wfD(12-15) [OF w] by fastforce
  then have "s' = s"
    using False sc by (auto simp: schedule_def current_thread_def Let_def)
  then show ?thesis using w by (auto simp: wfs_def)
qed

end
