(* ===== verification/Sched_Life.thy ===== *)
theory Sched_Life
  imports Sched_Steps
begin

text \<open>
  Wait queues, priority changes, ageing and the timer tick, killing: preservation of the invariant
  by the remaining operations, and the step relation that collects all of them.
\<close>

section \<open>Wait queues\<close>

fun chain :: "('a \<Rightarrow> 'a option) \<Rightarrow> 'a option \<Rightarrow> 'a list \<Rightarrow> bool" where
  "chain N p [] = (p = None)"
| "chain N p (x # xs) = (p = Some x \<and> chain N (N x) xs)"

lemma chain_cong: "\<forall>x\<in>set xs. N' x = N x \<Longrightarrow> chain N' p xs = chain N p xs"
  by (induction xs arbitrary: p) auto

text \<open>\<open>wq\<close> holds exactly the threads \<open>xs\<close>, none of them queued, running or an idle thread.\<close>

definition waiting :: "sched \<Rightarrow> nat set \<Rightarrow> wait_queue \<Rightarrow> nat list \<Rightarrow> bool" where
  "waiting s T wq xs \<longleftrightarrow> chain (\<lambda>t. t_wq_next (thr s t)) (wq_waiters wq) xs \<and> wq_count wq = of_nat (length xs) \<and>
     length xs < 2 ^ 32 \<and> distinct xs \<and> set xs \<subseteq> T \<and>
     (\<forall>t\<in>set xs. t_state (thr s t) \<noteq> THREAD_READY \<and> t_state (thr s t) \<noteq> THREAD_RUNNING)"

lemma wake_first_step:
  assumes w: "sched_wf s Q T" and wt: "waiting s T wq (t # xs)"
    and wk: "wake_first t wq s = (wq', s')"
  shows "waiting s' T wq' xs" "except {t} s s'" "\<exists>Q'. sched_wf s' Q' T \<and> queued Q' = insert t (queued Q)"
    "t_join_queue (thr s' u) = t_join_queue (thr s u)"
proof -
  let ?f = "\<lambda>x. make_ready (x\<lparr>t_wq_next := None\<rparr>)" and ?s1 = "upd_thr t (\<lambda>x. make_ready (x\<lparr>t_wq_next := None\<rparr>)) s"
  have e: "wq' = wq\<lparr>wq_waiters := t_wq_next (thr s t), wq_count := wq_count wq - 1\<rparr>" "s' = sched_add_thread (Some t) ?s1"
    using wk by (simp_all add: wake_first_def)
  have t: "t \<in> T" "t \<notin> queued Q" "t \<notin> idles s" "t \<notin> set xs"
    using wt not_queued [OF w, of t] not_idle [OF w, of t] by (auto simp: waiting_def)
  have w1: "sched_wf ?s1 Q T"
  proof (rule wf_upd_outside [OF w t(2,3)])
    show "thr_ok x \<Longrightarrow> thr_ok (?f x)" for x
      by (rule make_ready_ok) (simp add: thr_ok_def prio_ok_def rsp_ok_def)
  qed simp
  have c1: "same_cfg s ?s1" by (rule same_cfg_upd_thr) simp
  have "sched_wf s' (enq (choose_cpu t ?s1) (nat (t_priority (thr ?s1 t))) t Q) T"
    unfolding e using t same_cfg_idles [OF c1] by (intro wf_add_thread [OF w1]) auto
  then show "\<exists>Q'. sched_wf s' Q' T \<and> queued Q' = insert t (queued Q)"
    using queued_enq by blast
  note st = add_thread_states [OF w1 t(1)]
  show "except {t} s s'"
    unfolding except_def e using same_cfg_trans [OF c1 same_cfg_add_thread] st(1) by simp
  have "chain (\<lambda>u. t_wq_next (thr s' u)) (t_wq_next (thr s t)) xs"
    using wt t(4) st(5) by (subst chain_cong [where N = "\<lambda>u. t_wq_next (thr s u)"]) (auto simp: waiting_def e)
  moreover have "(of_nat (length (t # xs)) :: u32) - 1 = of_nat (length xs)"
    by simp
  ultimately show "waiting s' T wq' xs"
    using wt t(4) st(1) unfolding waiting_def e by auto
  show "t_join_queue (thr s' u) = t_join_queue (thr s u)"
    unfolding e st(6) by (simp add: make_ready_def)
qed

lemma wake_loop_spec:
  "sched_wf s Q T \<Longrightarrow> waiting s T wq xs \<Longrightarrow> wake_loop (length xs) wq s = (wq', s') \<Longrightarrow>
   wq' = wait_queue_init \<and> except (set xs) s s' \<and> (\<exists>Q'. sched_wf s' Q' T \<and> queued Q' = set xs \<union> queued Q) \<and>
   (\<forall>u. t_join_queue (thr s' u) = t_join_queue (thr s u))"
proof (induction xs arbitrary: wq s Q)
  case Nil
  then show ?case by (cases wq) (auto simp: waiting_def wait_queue_init_def)
next
  case (Cons t xs)
  obtain wq1 s1 where w1: "wake_first t wq s = (wq1, s1)" by fastforce
  note f = wake_first_step [OF Cons.prems(1,2) w1]
  obtain Q1 where Q1: "sched_wf s1 Q1 T" "queued Q1 = insert t (queued Q)"
    using f(3) by auto
  have "wake_loop (length xs) wq1 s1 = (wq', s')"
    using Cons.prems(2,3) w1 by (auto simp: waiting_def)
  from Cons.IH [OF Q1(1) f(1) this] show ?case
    using except_trans [OF f(2), of "set xs" s'] Q1(2) f(4) by auto
qed

lemma waiting_count: "waiting s T wq xs \<Longrightarrow> unat (wq_count wq) = length xs"
  by (simp add: waiting_def unat_of_nat take_bit_nat_eq_self)

lemma sched_wake_spec:
  "sched_wf s Q T \<Longrightarrow> waiting s T wq xs \<Longrightarrow> sched_wake wq s = (wq', s') \<Longrightarrow>
   wq' = wait_queue_init \<and> except (set xs) s s' \<and> (\<exists>Q'. sched_wf s' Q' T \<and> queued Q' = set xs \<union> queued Q) \<and>
   (\<forall>u. t_join_queue (thr s' u) = t_join_queue (thr s u))"
  using wake_loop_spec by (simp add: sched_wake_def waiting_count)

lemma sched_wake_one_wf:
  assumes w: "sched_wf s Q T" and wt: "waiting s T wq xs" and wk: "sched_wake_one wq s = (wq', s')"
  shows "wfs T s' \<and> waiting s' T wq' (tl xs)"
proof (cases xs)
  case Nil
  then show ?thesis
    using wk wt w by (auto simp: sched_wake_one_def waiting_def wfs_def)
next
  case (Cons t ys)
  then have "wake_first t wq s = (wq', s')"
    using wk wt by (simp add: sched_wake_one_def waiting_def)
  from wake_first_step [OF w wt [unfolded Cons] this] show ?thesis
    using Cons by (auto simp: wfs_def)
qed

lemma remove_wf_any:
  assumes "sched_wf s Q T" "t \<in> T"
  shows "\<exists>Q'. sched_wf (sched_remove_thread (Some t) s) Q' T \<and> queued Q' = queued Q - {t}"
  unfolding sched_remove_thread_def using wf_remove_locked [OF assms] queued_deq [OF sched_wfD(1) [OF assms(1)], of t] by auto

lemma links_only_except: "links_only s s' \<Longrightarrow> except {} s s'"
  using links_only_cfg same_states_links by (auto simp: except_def same_states_def)

lemma upd_outside_except:
  "(\<And>x. t_all_next (f x) = t_all_next x) \<Longrightarrow> except {t} s (upd_thr t f s)"
  using same_cfg_upd_thr by (simp add: except_def)

text \<open>The current thread leaves the queues and becomes a waiter.\<close>

lemma enter_wait_wf:
  assumes w: "sched_wf s Q T" and cur: "cur \<in> T" "cur \<notin> idles s" and en: "enter_wait cur wq s = (wq', s')"
  shows "\<exists>Q'. sched_wf s' Q' T" "except {cur} s s'" "t_state (thr s' cur) = THREAD_BLOCKED"
proof -
  let ?s1 = "if t_state (thr s cur) = THREAD_READY \<or> t_state (thr s cur) = THREAD_RUNNING
      then sched_remove_thread (Some cur) s else s"
  have s': "s' = upd_thr cur (\<lambda>x. x\<lparr>t_state := THREAD_BLOCKED, t_wq_next := wq_waiters wq\<rparr>) ?s1"
    using en by (simp add: enter_wait_def Let_def)
  obtain Q1 where w1: "sched_wf ?s1 Q1 T" "cur \<notin> queued Q1"
    using remove_wf_any [OF w cur(1)] not_queued [OF w, of cur] w by (cases "t_state (thr s cur)") auto
  have l: "links_only s ?s1"
    by (simp add: sched_remove_thread_def links_only_remove)
  have i1: "cur \<notin> idles ?s1"
    using cur(2) same_cfg_idles [OF links_only_cfg [OF l]] by simp
  have "sched_wf (upd_thr cur (\<lambda>x. x\<lparr>t_state := THREAD_BLOCKED, t_wq_next := wq_waiters wq\<rparr>) ?s1) Q1 T"
    by (rule wf_upd_outside [OF w1 i1]) (auto simp: thr_ok_def prio_ok_def rsp_ok_def)
  then show "\<exists>Q'. sched_wf s' Q' T"
    unfolding s' by blast
  show "except {cur} s s'"
    unfolding s' using except_trans [OF links_only_except [OF l] upd_outside_except] by simp
  show "t_state (thr s' cur) = THREAD_BLOCKED"
    by (simp add: s')
qed

section \<open>Priorities and ageing\<close>

lemma requeue_prio_wf:
  assumes w: "sched_wf s Q T" and t: "t \<in> T" "t \<notin> idles s"
    and f: "\<And>x. t_rq_next (f x) = t_rq_next x \<and> t_rq_prev (f x) = t_rq_prev x \<and> t_all_next (f x) = t_all_next x"
    and ok: "thr_ok (f (thr (sched_remove_thread_locked (Some t) s) t))"
  shows "wfs T (sched_add_thread_locked (Some t) (upd_thr t f (sched_remove_thread_locked (Some t) s))) \<and>
    except {t} s (sched_add_thread_locked (Some t) (upd_thr t f (sched_remove_thread_locked (Some t) s)))"
proof -
  let ?s1 = "sched_remove_thread_locked (Some t) s"
  let ?s2 = "upd_thr t f ?s1"
  have w1: "sched_wf ?s1 (deq t Q) T" by (rule wf_remove_locked [OF w t(1)])
  have tq: "t \<notin> queued (deq t Q)" using queued_deq [OF sched_wfD(1) [OF w]] by simp
  have c1: "same_cfg s ?s1" by (rule links_only_cfg [OF links_only_remove])
  have i1: "t \<notin> idles ?s1" using t(2) same_cfg_idles [OF c1] by simp
  have w2: "sched_wf ?s2 (deq t Q) T"
    using tq i1 f ok by (intro wf_upd_thr [OF w1]) auto
  have c2: "same_cfg ?s1 ?s2" by (rule same_cfg_upd_thr) (use f in simp)
  have c: "pcps ?s2 (this_cpu ?s2) \<noteq> None" using sched_wfD(12,14) [OF w2] by blast
  have "sched_wf (sched_add_thread_to_cpu_locked (Some t) (this_cpu ?s2) ?s2)
      (enq (this_cpu ?s2) (nat (t_priority (thr ?s2 t))) t (deq t Q)) T"
    using t(1) tq i1 same_cfg_idles [OF c2] c by (intro wf_add_locked [OF w2]) auto
  moreover have "except {t} s (sched_add_thread_to_cpu_locked (Some t) (this_cpu ?s2) ?s2)"
  proof -
    have "t_state (thr (sched_add_thread_to_cpu_locked (Some t) (this_cpu ?s2) ?s2) u) = t_state (thr s u)" if "u \<noteq> t" for u
      using core_add_locked_other [OF w2 t(1) that, of "this_cpu ?s2"] that
        core_fields(1) [OF links_only_thr_fields [OF links_only_remove, of "Some t" s u]] by simp
    then show ?thesis
      using same_cfg_trans [OF same_cfg_trans [OF c1 c2] same_cfg_add_locked] by (simp add: except_def)
  qed
  ultimately show ?thesis
    unfolding sched_add_thread_locked_def wfs_def by blast
qed

lemma set_priority_wf:
  assumes w: "sched_wf s Q T" and t: "t \<in> T" "t \<notin> idles s"
  shows "wfs T (sched_set_priority (Some t) p s)"
proof (cases "p < 0 \<or> p > THREAD_MAX_PRIO")
  case True
  then show ?thesis using w by (auto simp: sched_set_priority_def wfs_def)
next
  case False
  let ?f = "\<lambda>x. x\<lparr>t_priority := p, t_base_priority := p\<rparr>"
  have ok: "thr_ok x \<Longrightarrow> thr_ok (?f x)" for x
    using False by (simp add: thr_ok_def prio_ok_def rsp_ok_def)
  show ?thesis
  proof (cases "t_state (thr s t) = THREAD_READY")
    case True
    have "thr_ok (thr (sched_remove_thread_locked (Some t) s) t)"
      using sched_wfD(9) [OF w t(1)] thr_ok_core [OF links_only_thr_fields [OF links_only_remove]] by blast
    then show ?thesis
      using requeue_prio_wf [OF w t, of ?f] ok True False by (simp add: sched_set_priority_def)
  next
    case F2: False
    have "sched_wf (upd_thr t ?f s) Q T"
      by (rule wf_upd_outside [OF w not_queued [OF w F2] t(2)]) (auto simp: ok)
    then show ?thesis
      using F2 False by (auto simp: sched_set_priority_def wfs_def)
  qed
qed

text \<open>
  Ageing never touches an idle thread that is not READY; \<open>age_thread\<close> itself exempts only the boot
  processor's idle thread.
\<close>

lemma age_thread_wf:
  assumes w: "sched_wf s Q T" and t: "t \<in> T"
  shows "wfs T (age_thread t s) \<and> except {} s (age_thread t s)"
proof (cases "Some t \<noteq> idle_thr s \<and> t_state (thr s t) = THREAD_READY")
  case False
  then have "age_thread t s = s" by (auto simp: age_thread_def)
  then show ?thesis using w by (auto simp: wfs_def)
next
  case True
  let ?g = "\<lambda>x. x\<lparr>t_age_ticks := t_age_ticks x + 1\<rparr>"
  let ?s1 = "upd_thr t ?g s"
  have ti: "t \<notin> idles s" using True sched_wfD(18) [OF w, of t] by auto
  have w1: "sched_wf ?s1 Q T"
    using sched_wfD(9,11) [OF w] by (intro wf_upd_thr [OF w]) (auto simp: thr_ok_def prio_ok_def rsp_ok_def)
  have c1: "same_cfg s ?s1" by (rule same_cfg_upd_thr) simp
  have e1: "except {} s ?s1" using c1 by (simp add: except_def)
  show ?thesis
  proof (cases "t_age_ticks (thr ?s1 t) \<ge> AGING_INTERVAL \<and> t_priority (thr ?s1 t) < THREAD_MAX_PRIO")
    case False
    then have "age_thread t s = ?s1" using True by (auto simp: age_thread_def Let_def)
    then show ?thesis using w1 e1 by (auto simp: wfs_def)
  next
    case T2: True
    let ?f = "\<lambda>x. x\<lparr>t_priority := t_priority x + 1\<rparr>"
    let ?s2 = "sched_add_thread_locked (Some t) (upd_thr t ?f (sched_remove_thread_locked (Some t) ?s1))"
    have c: "core (thr (sched_remove_thread_locked (Some t) ?s1) t) = core (thr ?s1 t)"
      by (rule links_only_thr_fields [OF links_only_remove])
    have ok: "thr_ok (?f (thr (sched_remove_thread_locked (Some t) ?s1) t))"
      using sched_wfD(9) [OF w1 t] T2 core_fields [OF c] by (simp add: thr_ok_def prio_ok_def rsp_ok_def)
    obtain Q2 where w2: "sched_wf ?s2 Q2 T" and e2: "except {t} ?s1 ?s2"
      using requeue_prio_wf [OF w1 t, of ?f] ok ti same_cfg_idles [OF c1] by (auto simp: wfs_def)
    have a: "age_thread t s = upd_thr t (\<lambda>x. x\<lparr>t_age_ticks := 0\<rparr>) ?s2"
      using True T2 by (simp add: age_thread_def Let_def)
    have w3: "sched_wf (age_thread t s) Q2 T"
      unfolding a using sched_wfD(9,11) [OF w2] by (intro wf_upd_thr [OF w2]) (auto simp: thr_ok_def prio_ok_def rsp_ok_def)
    have "t_state (thr ?s2 t) = THREAD_READY"
    proof -
      let ?s3 = "upd_thr t ?f (sched_remove_thread_locked (Some t) ?s1)"
      have w4: "sched_wf (sched_remove_thread_locked (Some t) ?s1) (deq t Q) T" by (rule wf_remove_locked [OF w1 t])
      have "t_state (thr ?s3 t) = THREAD_READY" using core_fields(1) [OF c] True by simp
      then show ?thesis
        by (auto simp: sched_add_thread_locked_def sched_add_thread_to_cpu_locked_def)
    qed
    then have "except {} s (age_thread t s)"
      unfolding a using except_trans [OF e1 e2] True same_cfg_trans [OF _ same_cfg_upd_thr]
      by (auto simp: except_def)
    then show ?thesis using w3 by (auto simp: wfs_def)
  qed
qed

lemma fold_age_wf:
  "wfs T s \<Longrightarrow> set ts \<subseteq> T \<Longrightarrow> wfs T (fold age_thread ts s) \<and> except {} s (fold age_thread ts s)"
proof (induction ts arbitrary: s)
  case (Cons t ts)
  then have 1: "wfs T (age_thread t s)" "except {} s (age_thread t s)"
    using age_thread_wf by (auto simp: wfs_def)
  from Cons.IH [OF 1(1)] Cons.prems(2) show ?case
    using except_trans [OF 1(2), of "{}"] by simp
qed simp

lemma wf_pcp_wfs: "sched_wf s Q T \<Longrightarrow> pcp_keeps f \<Longrightarrow> sched_wf (upd_pcp c f s) Q T \<and> except {} s (upd_pcp c f s)"
  using wf_upd_pcp same_cfg_upd_pcp by (auto simp: except_def)

lemma try_wfs: "sched_wf s Q T \<Longrightarrow> spinlock_try_acquire s = (b, s') \<Longrightarrow> sched_wf s' Q T \<and> except {} s s'"
  using wf_try same_cfg_try try_fields(1) by (auto simp: except_def)

lemma tick_aging_wf:
  assumes w: "sched_wf s Q T"
  shows "wfs T (tick_aging s) \<and> except {} s (tick_aging s)"
proof -
  let ?c = "this_cpu s"
  let ?s1 = "upd_pcp ?c (\<lambda>p. p\<lparr>pc_aging_counter := pc_aging_counter p + 1\<rparr>) s"
  let ?s2 = "upd_pcp ?c (\<lambda>p. p\<lparr>pc_aging_counter := 0\<rparr>) ?s1"
  have k: "pcp_keeps (\<lambda>p. p\<lparr>pc_aging_counter := pc_aging_counter p + 1\<rparr>)" "pcp_keeps (\<lambda>p. p\<lparr>pc_aging_counter := 0\<rparr>)"
    by (simp_all add: pcp_keeps_def rq_part_def)
  have w1: "sched_wf ?s1 Q T" "except {} s ?s1" using wf_pcp_wfs [OF w k(1)] by auto
  have w2: "sched_wf ?s2 Q T" "except {} ?s1 ?s2" using wf_pcp_wfs [OF w1(1) k(2)] by auto
  obtain b s3 where t3: "spinlock_try_acquire ?s2 = (b, s3)" by fastforce
  obtain b' s4 where t4: "spinlock_try_acquire s3 = (b', s4)" by fastforce
  have w3: "sched_wf s3 Q T" "except {} ?s2 s3" using try_wfs [OF w2(1) t3] by auto
  have w4: "sched_wf s4 Q T" "except {} s3 s4" using try_wfs [OF w3(1) t4] by auto
  let ?s5 = "fold age_thread (all_threads_list s4) s4"
  have w5: "wfs T ?s5" "except {} s4 ?s5"
    using fold_age_wf [of T s4 "all_threads_list s4"] w4 sched_wfD(8) [OF w4(1)] by (auto simp: wfs_def)
  have e: "except {} s ?s2" "except {} s s3" "except {} s s4" "except {} s ?s5"
    using except_trans [OF w1(2) w2(2)] except_trans [OF except_trans [OF w1(2) w2(2)] w3(2)]
      except_trans [OF except_trans [OF except_trans [OF w1(2) w2(2)] w3(2)] w4(2)]
      except_trans [OF except_trans [OF except_trans [OF except_trans [OF w1(2) w2(2)] w3(2)] w4(2)] w5(2)] by simp_all
  have "tick_aging s \<in> {?s1, s3, s4, ?s5}"
    using t3 t4 by (auto simp: tick_aging_def Let_def split: option.splits)
  then show ?thesis
    using w1 w3 w4 w5 e by (auto simp: wfs_def)
qed

lemma tick_balance_wf:
  assumes w: "sched_wf s Q T"
  shows "wfs T (tick_balance s) \<and> except {} s (tick_balance s)"
proof -
  let ?c = "this_cpu s"
  let ?s1 = "upd_pcp ?c (\<lambda>p. p\<lparr>pc_balance_counter := pc_balance_counter p + 1\<rparr>) s"
  let ?s2 = "upd_pcp ?c (\<lambda>p. p\<lparr>pc_balance_counter := 0\<rparr>) ?s1"
  have k: "pcp_keeps (\<lambda>p. p\<lparr>pc_balance_counter := pc_balance_counter p + 1\<rparr>)" "pcp_keeps (\<lambda>p. p\<lparr>pc_balance_counter := 0\<rparr>)"
    by (simp_all add: pcp_keeps_def rq_part_def)
  have w1: "sched_wf ?s1 Q T" "except {} s ?s1" using wf_pcp_wfs [OF w k(1)] by auto
  have w2: "sched_wf ?s2 Q T" "except {} ?s1 ?s2" using wf_pcp_wfs [OF w1(1) k(2)] by auto
  have w3: "wfs T (sched_balance_push me ?c ?s2)" "except {} s (sched_balance_push me ?c ?s2)" for me
    using balance_keeps [OF w2(1), of me ?c] except_trans [OF except_trans [OF w1(2) w2(2)] except_keeps]
    by (auto simp: keeps_def wfs_def)
  have "tick_balance s \<in> insert ?s1 (range (\<lambda>me. sched_balance_push me ?c ?s2))"
    by (auto simp: tick_balance_def Let_def split: option.splits)
  then show ?thesis
    using w1 w3 by (auto simp: wfs_def)
qed

lemma tick_current_wf:
  assumes w: "sched_wf s Q T" and t: "t \<in> T"
  shows "wfs T (tick_current t s)"
proof -
  let ?f = "\<lambda>x. x\<lparr>t_total_ticks := t_total_ticks x + 1,
     t_time_slice := (if t_time_slice x > 0 then t_time_slice x - 1 else t_time_slice x)\<rparr>"
  have w1: "sched_wf (upd_thr t ?f s) Q T"
    using sched_wfD(9,11) [OF w] by (intro wf_upd_thr [OF w]) (auto simp: thr_ok_def prio_ok_def rsp_ok_def)
  have w2: "sched_wf (upd_pcp c (\<lambda>p. p\<lparr>pc_idle_wake_hint := x\<rparr>) (upd_thr t ?f s)) Q T" for c x
    by (rule wf_upd_pcp [OF w1]) (simp add: pcp_keeps_def rq_part_def)
  have w3: "sched_wf (upd_pcp d (\<lambda>p. p\<lparr>pc_need_reschedule := True\<rparr>)
      (upd_pcp c (\<lambda>p. p\<lparr>pc_idle_wake_hint := x\<rparr>) (upd_thr t ?f s))) Q T" for c d x
    by (rule wf_upd_pcp [OF w2]) (simp add: pcp_keeps_def rq_part_def)
  show ?thesis
    unfolding tick_current_def Let_def wfs_def using w2 w3 by (auto intro: exI [of _ Q])
qed

lemma tick_aps_wf:
  assumes "wfs T s" shows "wfs T (tick_aps s)"
proof -
  obtain Q where w: "sched_wf s Q T" using assms by (auto simp: wfs_def)
  have "sched_wf (s\<lparr>ap_tick_counter := a, ipis := X\<rparr>) Q T" "sched_wf (s\<lparr>ap_tick_counter := a\<rparr>) Q T" for a X
    by (rule wf_misc [OF w]; simp)+
  then show ?thesis
    using w unfolding wfs_def tick_aps_def by auto
qed

lemma current_thread_in:
  assumes "sched_wf s Q T" "current_thread s = Some cur"
  shows "cur \<in> T"
proof -
  obtain pcp where c: "pcps s (this_cpu s) = Some pcp"
    using sched_wfD(12,14) [OF assms(1)] by blast
  then show ?thesis
    using assms sched_wfD(12,13) [OF assms(1)] wf_current(1) [OF assms(1) c] by (auto simp: current_thread_def)
qed

lemma sched_timer_tick_wf:
  assumes w: "sched_wf s Q T" shows "wfs T (sched_timer_tick s)"
proof (cases "\<not> sched_running s \<or> current_thread s = None")
  case True
  then show ?thesis using w by (auto simp: sched_timer_tick_def wfs_def)
next
  case False
  obtain m s1 where c: "check_sleepers s = (m, s1)" by fastforce
  obtain Q1 where 1: "sched_wf s1 Q1 T" using check_sleepers_wf [OF w c] by (auto simp: wfs_def)
  obtain Q2 where 2: "sched_wf (tick_aging s1) Q2 T" using tick_aging_wf [OF 1] by (auto simp: wfs_def)
  obtain Q3 where 3: "sched_wf (tick_balance (tick_aging s1)) Q3 T"
    using tick_balance_wf [OF 2] by (auto simp: wfs_def)
  show ?thesis
    using False c 3 tick_aps_wf [OF tick_current_wf [OF 3 current_thread_in [OF 3]]]
    by (auto simp: sched_timer_tick_def Let_def wfs_def split: option.split)
qed

section \<open>Ending threads\<close>

lemma wake_joiners_wf:
  assumes w: "sched_wf s Q T" and wt: "waiting s T (t_join_queue (thr s t)) xs"
  shows "\<exists>Q'. sched_wf (wake_joiners t s) Q' T \<and> queued Q' = set xs \<union> queued Q" "except (set xs) s (wake_joiners t s)"
proof -
  obtain wq s1 where wk: "sched_wake (t_join_queue (thr s t)) s = (wq, s1)" by fastforce
  note sp = sched_wake_spec [OF w wt wk]
  obtain Q1 where w1: "sched_wf s1 Q1 T" "queued Q1 = set xs \<union> queued Q" using sp by auto
  have e: "wake_joiners t s = upd_thr t (\<lambda>x. x\<lparr>t_join_queue := wq\<rparr>) s1" by (simp add: wake_joiners_def wk)
  have "sched_wf (wake_joiners t s) Q1 T"
    unfolding e using sched_wfD(9,11) [OF w1(1)] by (intro wf_upd_thr [OF w1(1)]) (auto simp: thr_ok_def prio_ok_def rsp_ok_def)
  then show "\<exists>Q'. sched_wf (wake_joiners t s) Q' T \<and> queued Q' = set xs \<union> queued Q" using w1(2) by auto
  have "except {} s1 (wake_joiners t s)"
    unfolding e except_def using same_cfg_upd_thr by simp
  then show "except (set xs) s (wake_joiners t s)"
    using sp except_trans [of "set xs" s s1 "{}"] by auto
qed

text \<open>Taking a thread off the queues and marking it ended, as \<open>thread_exit\<close> and \<open>sched_kill_thread\<close> do.\<close>

lemma end_thread_wf:
  assumes w: "sched_wf s Q T" and t: "t \<in> T" "t \<notin> idles s" and l: "links_only s s1" "sched_wf s1 Q1 T" "t \<notin> queued Q1"
    and f: "\<And>x. t_rq_next (f x) = t_rq_next x \<and> t_rq_prev (f x) = t_rq_prev x \<and> t_all_next (f x) = t_all_next x"
    "\<And>x. thr_ok x \<Longrightarrow> thr_ok (f x)"
  shows "sched_wf (upd_thr t f s1) Q1 T" "except {t} s (upd_thr t f s1)"
proof -
  have "t \<notin> idles s1" using t(2) same_cfg_idles [OF links_only_cfg [OF l(1)]] by simp
  then show "sched_wf (upd_thr t f s1) Q1 T"
    using l f by (intro wf_upd_outside) auto
  show "except {t} s (upd_thr t f s1)"
    using except_trans [OF links_only_except [OF l(1)] upd_outside_except [of f t s1]] f(1) by simp
qed

lemma waiting_cong:
  assumes "waiting s T wq xs" "\<And>u. u \<in> set xs \<Longrightarrow> t_state (thr s' u) = t_state (thr s u) \<and> t_wq_next (thr s' u) = t_wq_next (thr s u)"
  shows "waiting s' T wq xs"
proof -
  have "chain (\<lambda>t. t_wq_next (thr s' t)) (wq_waiters wq) xs = chain (\<lambda>t. t_wq_next (thr s t)) (wq_waiters wq) xs"
    using assms(2) by (intro chain_cong) simp
  then show ?thesis using assms by (simp add: waiting_def)
qed

text \<open>
  Killing a thread that is not an idle thread; its joiners \<open>xs\<close> are woken.
\<close>

lemma sched_kill_wf:
  assumes w: "sched_wf s Q T" and f: "sched_find_thread tid s = Some t" and t: "t \<notin> idles s"
    and wt: "waiting s T (t_join_queue (thr s t)) xs" "t \<notin> set xs"
  shows "wfs T (snd (sched_kill_thread tid s))"
proof (cases "t_state (thr s t) = THREAD_ZOMBIE \<or> t_state (thr s t) = THREAD_TERMINATED")
  case True
  then show ?thesis using w f by (auto simp: sched_kill_thread_def wfs_def)
next
  case False
  have tT: "t \<in> T"
    using f sched_wfD(8) [OF w] by (auto simp: sched_find_thread_def find_Some_iff)
  let ?s1 = "if t_state (thr s t) = THREAD_READY then sched_remove_thread_locked (Some t) s else s"
  have l: "links_only s ?s1" by (simp add: links_only_remove)
  obtain Q1 where w1: "sched_wf ?s1 Q1 T" "t \<notin> queued Q1"
    using wf_remove_locked [OF w tT] queued_deq [OF sched_wfD(1) [OF w], of t] not_queued [OF w, of t] w
    by (cases "t_state (thr s t) = THREAD_READY") auto
  let ?s2 = "upd_thr t (\<lambda>x. x\<lparr>t_state := THREAD_ZOMBIE\<rparr>) ?s1"
  have w2: "sched_wf ?s2 Q1 T"
    by (rule end_thread_wf(1) [OF w tT t l w1]) (auto simp: thr_ok_def prio_ok_def rsp_ok_def)
  have "waiting ?s2 T (t_join_queue (thr ?s2 t)) xs"
    using core_fields(8) [OF links_only_thr_fields [OF l, of t]] wt
      core_fields(1,7) [OF links_only_thr_fields [OF l]]
    by (auto intro!: waiting_cong [OF wt(1)])
  from wake_joiners_wf(1) [OF w2 this] show ?thesis
    using f False by (auto simp: sched_kill_thread_def wfs_def)
qed

text \<open>The thread that left the CPU last has ended; it is marked so once its stack is no longer in use.\<close>

definition retiring_ended :: "sched \<Rightarrow> bool" where
  "retiring_ended s \<longleftrightarrow> (\<forall>pcp r. pcps s (this_cpu s) = Some pcp \<and> pc_retiring pcp = Some r \<longrightarrow> t_state (thr s r) = THREAD_ZOMBIE)"

lemma finalize_wf:
  assumes w: "sched_wf s Q T" and r: "retiring_ended s"
  shows "sched_wf (sched_finalize_retiring s) Q T" "same_cfg s (sched_finalize_retiring s)"
    "t_state (thr (sched_finalize_retiring s) u) \<noteq> t_state (thr s u) \<Longrightarrow> t_state (thr (sched_finalize_retiring s) u) = THREAD_TERMINATED"
    "t_wq_next (thr (sched_finalize_retiring s) u) = t_wq_next (thr s u)" "t_join_queue (thr (sched_finalize_retiring s) u) = t_join_queue (thr s u)"
proof -
  have *: "sched_wf (sched_finalize_retiring s) Q T \<and> same_cfg s (sched_finalize_retiring s) \<and>
    (t_state (thr (sched_finalize_retiring s) u) \<noteq> t_state (thr s u) \<longrightarrow> t_state (thr (sched_finalize_retiring s) u) = THREAD_TERMINATED) \<and>
    t_wq_next (thr (sched_finalize_retiring s) u) = t_wq_next (thr s u) \<and> t_join_queue (thr (sched_finalize_retiring s) u) = t_join_queue (thr s u)"
  proof (cases "Option.bind (pcps s (this_cpu s)) pc_retiring")
    case None
    then have "sched_finalize_retiring s = s" by (auto simp: sched_finalize_retiring_def split: option.splits)
    then show ?thesis using w by simp
  next
    case (Some t)
    then obtain pcp where c: "pcps s (this_cpu s) = Some pcp" "pc_retiring pcp = Some t" by (auto simp: bind_eq_Some_conv)
    let ?s1 = "upd_pcp (this_cpu s) (\<lambda>c. c\<lparr>pc_retiring := None\<rparr>) s"
    have f: "sched_finalize_retiring s = upd_thr t (\<lambda>x. x\<lparr>t_state := THREAD_TERMINATED\<rparr>) ?s1" using c by (simp add: sched_finalize_retiring_def)
    have k: "pcp_keeps (\<lambda>c. c\<lparr>pc_retiring := None\<rparr>)" by (simp add: pcp_keeps_def rq_part_def)
    have z: "t_state (thr s t) = THREAD_ZOMBIE" using r c by (auto simp: retiring_ended_def)
    have w1: "sched_wf ?s1 Q T" "same_cfg s ?s1" using wf_upd_pcp [OF w k] same_cfg_upd_pcp [OF k] by auto
    have "t \<notin> queued Q" "t \<notin> idles ?s1" using not_queued [OF w, of t] not_idle [OF w, of t] z same_cfg_idles [OF w1(2)] by auto
    then have "sched_wf (upd_thr t (\<lambda>x. x\<lparr>t_state := THREAD_TERMINATED\<rparr>) ?s1) Q T"
      by (rule wf_upd_outside [OF w1(1)]) (auto simp: thr_ok_def prio_ok_def rsp_ok_def)
    moreover have "same_cfg s (upd_thr t (\<lambda>x. x\<lparr>t_state := THREAD_TERMINATED\<rparr>) ?s1)"
      by (rule same_cfg_trans [OF w1(2) same_cfg_upd_thr]) simp
    ultimately show ?thesis unfolding f by simp
  qed
  then show "sched_wf (sched_finalize_retiring s) Q T" "same_cfg s (sched_finalize_retiring s)"
    "t_state (thr (sched_finalize_retiring s) u) \<noteq> t_state (thr s u) \<Longrightarrow> t_state (thr (sched_finalize_retiring s) u) = THREAD_TERMINATED"
    "t_wq_next (thr (sched_finalize_retiring s) u) = t_wq_next (thr s u)" "t_join_queue (thr (sched_finalize_retiring s) u) = t_join_queue (thr s u)"
    by blast+
qed

lemma waiting_weaken:
  assumes "waiting s T wq xs" "\<And>u. u \<in> set xs \<Longrightarrow> t_wq_next (thr s' u) = t_wq_next (thr s u) \<and>
    (t_state (thr s' u) = t_state (thr s u) \<or> t_state (thr s' u) = THREAD_TERMINATED)"
  shows "waiting s' T wq xs"
proof -
  have "chain (\<lambda>t. t_wq_next (thr s' t)) (wq_waiters wq) xs = chain (\<lambda>t. t_wq_next (thr s t)) (wq_waiters wq) xs"
    using assms(2) by (intro chain_cong) simp
  then show ?thesis using assms by (fastforce simp: waiting_def)
qed

text \<open>The current thread, which is not an idle thread, ends; its joiners \<open>xs\<close> are woken and another thread is dispatched.\<close>

lemma thread_exit_wf:
  assumes w: "sched_wf s Q T" and r: "retiring_ended s" and cur: "current_thread s = Some cur" "cur \<notin> idles s"
    and wt: "waiting s T (t_join_queue (thr s cur)) xs" "cur \<notin> set xs" and ex: "thread_exit code s = Some s'"
  shows "wfs T s'"
proof -
  let ?s0 = "sched_finalize_retiring s"
  let ?s1 = "sched_remove_thread (Some cur) ?s0"
  let ?s2 = "upd_thr cur (\<lambda>x. x\<lparr>t_exit_code := code, t_state := THREAD_ZOMBIE\<rparr>) ?s1"
  have cT: "cur \<in> T" by (rule current_thread_in [OF w cur(1)])
  note f = finalize_wf [OF w r]
  have l: "links_only ?s0 ?s1" by (simp add: sched_remove_thread_def links_only_remove)
  obtain Q1 where w1: "sched_wf ?s1 Q1 T" "cur \<notin> queued Q1" using remove_wf_any [OF f(1) cT] by auto
  have "cur \<notin> idles ?s0" using cur(2) same_cfg_idles [OF f(2)] by simp
  then have w2: "sched_wf ?s2 Q1 T"
    by (rule end_thread_wf(1) [OF f(1) cT _ l w1]) (auto simp: thr_ok_def prio_ok_def rsp_ok_def)
  have w0: "waiting ?s0 T (t_join_queue (thr s cur)) xs" using f(3,4) by (intro waiting_weaken [OF wt(1)]) blast
  have jq: "t_join_queue (thr ?s2 cur) = t_join_queue (thr s cur)"
    using core_fields(8) [OF links_only_thr_fields [OF l, of cur]] f(5) by simp
  have "t_state (thr ?s2 u) = t_state (thr ?s0 u) \<and> t_wq_next (thr ?s2 u) = t_wq_next (thr ?s0 u)" if "u \<in> set xs" for u
    using core_fields(1,7) [OF links_only_thr_fields [OF l, of u]] that wt(2) by auto
  from waiting_cong [OF w0 this] have "waiting ?s2 T (t_join_queue (thr ?s2 cur)) xs" unfolding jq .
  from wake_joiners_wf(1) [OF w2 this] obtain Q3 where w3: "sched_wf (wake_joiners cur ?s2) Q3 T" by auto
  let ?s3 = "wake_joiners cur ?s2" and ?c = "this_cpu (wake_joiners cur ?s2)"
  obtain nx s4 where pk: "pick_next ?c ?s3 = (Some nx, s4)"
    "s' = load_cr3 ?c nx (dispatch ?c nx (upd_pcp ?c (\<lambda>p. p\<lparr>pc_retiring := pc_cpu_thread p\<rparr>) s4))"
    using ex cur(1) by (auto simp: thread_exit_def Let_def split: option.splits prod.splits)
  obtain Q4 where post: "pick_post ?c ?s3 Q3 T (Some nx) s4 Q4" using pick_next_post [OF w3 pk(1)] by auto
  have w4: "sched_wf s4 Q4 T" "same_cfg ?s3 s4" using post by (simp_all add: pick_post_def)
  have k: "pcp_keeps (\<lambda>p. p\<lparr>pc_retiring := pc_cpu_thread p\<rparr>)" by (simp add: pcp_keeps_def rq_part_def)
  let ?s5 = "upd_pcp ?c (\<lambda>p. p\<lparr>pc_retiring := pc_cpu_thread p\<rparr>) s4"
  have c5: "same_cfg ?s3 ?s5" by (rule same_cfg_trans [OF w4(2) same_cfg_upd_pcp [OF k]])
  have "nx \<in> idles ?s3 \<Longrightarrow> Option.bind (pcps ?s3 ?c) pc_idle_thread = Some nx"
    using post sched_wfD(17) [OF w3, of nx] by (auto simp: pick_post_def)
  then have "nx \<in> idles ?s5 \<Longrightarrow> Option.bind (pcps ?s5 ?c) pc_idle_thread = Some nx"
    using same_cfg_idles [OF c5] same_cfg_idle [OF c5, of ?c] by simp
  moreover have "nx \<in> T" "nx \<notin> queued Q4" using post by (simp_all add: pick_post_def)
  ultimately have "sched_wf (dispatch ?c nx ?s5) Q4 T" using dispatch_wf [OF wf_upd_pcp [OF w4(1) k]] by blast
  from load_cr3_wf [OF this] show ?thesis unfolding pk(2) wfs_def by blast
qed

text \<open>Waiting for another thread to end, until the next switch.\<close>

lemma join_wf:
  assumes w: "sched_wf s Q T" and cur: "current_thread s = Some cur" "cur \<notin> idles s" and j: "thread_join_iter (Some t) s = Join_Wait (Some s')"
  shows "wfs T s'"
proof -
  obtain wq s1 where en: "enter_wait cur (t_join_queue (thr s t)) s = (wq, s1)" by fastforce
  obtain Q1 where w1: "sched_wf s1 Q1 T"
    using enter_wait_wf(1) [OF w current_thread_in [OF w cur(1)] cur(2) en] by auto
  have "sched_wf (upd_thr t (\<lambda>x. x\<lparr>t_join_queue := wq\<rparr>) s1) Q1 T"
    using sched_wfD(9,11) [OF w1] by (intro wf_upd_thr [OF w1]) (auto simp: thr_ok_def prio_ok_def rsp_ok_def)
  then show ?thesis
    by (rule schedule_wf) (use j cur(1) en in \<open>auto simp: thread_join_iter_def split: if_splits\<close>)
qed

lemma place_wf:
  assumes w: "sched_wf s Q T" and t: "t \<in> T" "t \<notin> queued Q" "t \<notin> idles s" and c: "c < nr_cpus s"
  shows "sched_wf (sched_place_thread (Some t) c s) (enq c (nat (t_priority (thr s t))) t Q) T"
proof -
  have "pcps s c \<noteq> None" "c < MAX_CPUS" using sched_wfD(13,14) [OF w] c by auto
  with wf_add_to_cpu [OF w t, of c] show ?thesis by (auto simp: sched_place_thread_def)
qed

section \<open>The step relation\<close>

text \<open>
  \<open>sched_step T s s'\<close>: one operation of the scheduler, run on some CPU, with the conditions its callers
  establish. \<open>env\<close> lets another CPU take its turn, the clocks advance and the locks be contended. The threads are
  those of \<open>T\<close>: \<open>thread_create\<close> and \<open>sched_reap_zombies\<close>, which change this set, are not steps, nor is
  \<open>sched_migrate_cpu\<close>.
\<close>

inductive sched_step :: "nat set \<Rightarrow> sched \<Rightarrow> sched \<Rightarrow> bool" for T where
  env: "c < nr_cpus s \<Longrightarrow> sched_step T s (s\<lparr>this_cpu := c, tsc := x, timer_ticks := y, lock_tries := bs\<rparr>)"
| start: "t \<in> T \<Longrightarrow> t_state (thr s t) = THREAD_CREATED \<Longrightarrow> sched_step T s (sched_add_thread (Some t) s)"
| run: "schedule s = Some s' \<Longrightarrow> sched_step T s s'"
| yielding: "thread_yield s = Some s' \<Longrightarrow> sched_step T s s'"
| sleep: "current_thread s = Some cur \<Longrightarrow> cur \<notin> idles s \<Longrightarrow> t_state (thr s cur) = THREAD_RUNNING \<Longrightarrow>
    thread_sleep ms s = Some s' \<Longrightarrow> sched_step T s s'"
| block: "current_thread s = Some cur \<Longrightarrow> cur \<notin> idles s \<Longrightarrow> sched_block wq s = Some (wq', s') \<Longrightarrow> sched_step T s s'"
| wake: "waiting s T wq xs \<Longrightarrow> sched_step T s (snd (sched_wake wq s))"
| wake_one: "waiting s T wq xs \<Longrightarrow> sched_step T s (snd (sched_wake_one wq s))"
| sleepers: "sched_step T s (snd (check_sleepers s))"
| tick: "sched_step T s (sched_timer_tick s)"
| balance: "sched_step T s (sched_balance_push me ci s)"
| priority: "t \<in> T \<Longrightarrow> t \<notin> idles s \<Longrightarrow> sched_step T s (sched_set_priority (Some t) p s)"
| affinity: "t \<in> T \<Longrightarrow> sched_step T s (sched_set_thread_affinity (Some t) m s)"
| kill: "sched_find_thread tid s = Some t \<Longrightarrow> t \<notin> idles s \<Longrightarrow> waiting s T (t_join_queue (thr s t)) xs \<Longrightarrow> t \<notin> set xs \<Longrightarrow>
    sched_step T s (snd (sched_kill_thread tid s))"
| isr: "sched_step T s (snd (sched_isr_check s))"
| place: "t \<in> T \<Longrightarrow> t_state (thr s t) \<noteq> THREAD_READY \<Longrightarrow> t \<notin> idles s \<Longrightarrow> c < nr_cpus s \<Longrightarrow> sched_step T s (sched_place_thread (Some t) c s)"
| remove: "t \<in> T \<Longrightarrow> sched_step T s (sched_remove_thread (Some t) s)"
| finalize: "retiring_ended s \<Longrightarrow> sched_step T s (sched_finalize_retiring s)"
| leave: "retiring_ended s \<Longrightarrow> current_thread s = Some cur \<Longrightarrow> cur \<notin> idles s \<Longrightarrow> waiting s T (t_join_queue (thr s cur)) xs \<Longrightarrow>
    cur \<notin> set xs \<Longrightarrow> thread_exit code s = Some s' \<Longrightarrow> sched_step T s s'"
| join: "current_thread s = Some cur \<Longrightarrow> cur \<notin> idles s \<Longrightarrow> thread_join_iter (Some t) s = Join_Wait (Some s') \<Longrightarrow> sched_step T s s'"

lemma wf_env:
  assumes w: "sched_wf s Q T" and c: "c < nr_cpus s"
  shows "sched_wf (s\<lparr>this_cpu := c, tsc := x, timer_ticks := y, lock_tries := bs\<rparr>) Q T"
proof -
  let ?s = "s\<lparr>this_cpu := c, tsc := x, timer_ticks := y, lock_tries := bs\<rparr>"
  have "cpu_cfg ?s = cpu_cfg s" by (simp add: cpu_cfg_def fun_eq_iff)
  then show ?thesis
    using w c by (simp add: sched_wf_def cpus_wf_def threads_wf_def idle_wf_def current_wf_def idles_def
        all_threads_list_def rq_rel_def)
qed

lemma affinity_wf:
  assumes w: "sched_wf s Q T" and t: "t \<in> T"
  shows "wfs T (sched_set_thread_affinity (Some t) m s)"
proof -
  have w1: "sched_wf (upd_thr t (\<lambda>x. x\<lparr>t_cpu_affinity := a\<rparr>) s) Q T" for a
    using sched_wfD(9,11) [OF w] by (intro wf_upd_thr [OF w]) (auto simp: thr_ok_def prio_ok_def rsp_ok_def)
  have "sched_wf (upd_pcp c (\<lambda>p. p\<lparr>pc_need_reschedule := True\<rparr>) (upd_thr t (\<lambda>x. x\<lparr>t_cpu_affinity := a\<rparr>) s)) Q T" for c a
    by (rule wf_upd_pcp [OF w1]) (simp add: pcp_keeps_def rq_part_def)
  then show ?thesis
    using w w1 unfolding sched_set_thread_affinity_def wfs_def Let_def by auto
qed

lemma sleep_wf:
  assumes w: "sched_wf s Q T" and cur: "current_thread s = Some cur" "cur \<notin> idles s" "t_state (thr s cur) = THREAD_RUNNING"
    and sl: "thread_sleep ms s = Some s'"
  shows "wfs T s'"
proof -
  let ?f = "\<lambda>x. x\<lparr>t_wakeup_rdtsc := tsc s + ms * tsc_khz s, t_wakeup_tick := 0, t_state := THREAD_SLEEPING, t_time_slice := 0\<rparr>"
  have "sched_wf (upd_thr cur ?f s) Q T"
    using cur not_queued [OF w, of cur] by (intro wf_upd_outside [OF w]) (auto simp: thr_ok_def prio_ok_def rsp_ok_def)
  then show ?thesis
    by (rule schedule_wf) (use sl cur(1) in \<open>simp add: thread_sleep_def\<close>)
qed

lemma yield_wf:
  assumes w: "sched_wf s Q T" and y: "thread_yield s = Some s'"
  shows "wfs T s'"
proof -
  obtain cur where cur: "current_thread s = Some cur" using y by (auto simp: thread_yield_def split: option.splits)
  let ?s1 = "s\<lparr>sched_yield_count := sched_yield_count s + 1\<rparr>"
  have w1: "sched_wf ?s1 Q T" by (rule wf_misc [OF w]) simp_all
  have "sched_wf (upd_thr cur (\<lambda>x. x\<lparr>t_time_slice := 0\<rparr>) ?s1) Q T"
    using sched_wfD(9,11) [OF w1] by (intro wf_upd_thr [OF w1]) (auto simp: thr_ok_def prio_ok_def rsp_ok_def)
  then show ?thesis
    by (rule schedule_wf) (use y cur in \<open>simp add: thread_yield_def\<close>)
qed

lemma block_wf:
  assumes w: "sched_wf s Q T" and cur: "current_thread s = Some cur" "cur \<notin> idles s" and b: "sched_block wq s = Some (wq', s')"
  shows "wfs T s'"
proof -
  obtain wq1 s1 where en: "enter_wait cur wq s = (wq1, s1)" by fastforce
  obtain Q1 where "sched_wf s1 Q1 T"
    using enter_wait_wf(1) [OF w current_thread_in [OF w cur(1)] cur(2) en] by auto
  then show ?thesis
    by (rule schedule_wf) (use b cur(1) en in \<open>auto simp: sched_block_def\<close>)
qed

lemma isr_wf: "sched_wf s Q T \<Longrightarrow> wfs T (snd (sched_isr_check s))"
  using wf_upd_pcp [of s Q T "\<lambda>p. p\<lparr>pc_need_reschedule := False\<rparr>"]
  by (auto simp: sched_isr_check_def wfs_def pcp_keeps_def rq_part_def split: option.split)

lemma start_wf:
  assumes w: "sched_wf s Q T" and t: "t \<in> T" "t_state (thr s t) = THREAD_CREATED"
  shows "wfs T (sched_add_thread (Some t) s)"
  unfolding wfs_def
  by (rule exI, rule wf_add_thread [OF w t(1)]) (use not_queued [OF w] not_idle [OF w] t(2) in auto)

lemma wfsE: "wfs T s \<Longrightarrow> (\<And>Q. sched_wf s Q T \<Longrightarrow> P) \<Longrightarrow> P"
  by (auto simp: wfs_def)

lemma sched_step_wf: "sched_step T s s' \<Longrightarrow> wfs T s \<Longrightarrow> wfs T s'"
proof (induction rule: sched_step.induct)
  case (env c s x y bs)
  then show ?case using wf_env unfolding wfs_def by blast
next
  case (wake s wq xs)
  then show ?case using sched_wake_spec [of s _ T wq xs] by (metis prod.collapse wfs_def)
next
  case (wake_one s wq xs)
  then show ?case using sched_wake_one_wf [of s _ T wq xs] by (metis prod.collapse wfs_def)
next
  case (sleepers s)
  then show ?case using check_sleepers_wf [of s _ T] by (metis prod.collapse wfs_def)
next
  case (balance s me ci)
  then show ?case using balance_keeps [of s _ T me ci] by (auto simp: wfs_def keeps_def)
next
  case (kill tid s t xs)
  then show ?case using sched_kill_wf [of s _ T tid t xs] by (auto simp: wfs_def)
next
  case (place t s c)
  then show ?case using place_wf [of s _ T t c] not_queued [of s _ T t] by (auto simp: wfs_def)
next
  case (remove t s)
  then show ?case using remove_wf_any [of s _ T t] by (auto simp: wfs_def)
next
  case (finalize s)
  then show ?case using finalize_wf(1) [of s _ T] by (auto simp: wfs_def)
qed (auto elim!: wfsE intro: start_wf schedule_wf yield_wf sleep_wf block_wf sched_timer_tick_wf
    set_priority_wf affinity_wf isr_wf thread_exit_wf join_wf)

end
