(* ===== verification/Sched_Props.thy ===== *)
theory Sched_Props
  imports Sched_Life
begin

text \<open>
  The scheduler's main properties, stated over the run queues as lists (\<open>rq_list\<close>): first-in
  first-out queues per priority, the choice of the next thread, absence of panics in \<open>schedule\<close>,
  wake-ups, and behaviours of the code that its documentation does not intend.
\<close>

section \<open>Run queues as lists\<close>

definition rq_list :: "sched \<Rightarrow> nat \<Rightarrow> nat \<Rightarrow> nat list" where
  "rq_list s c p = (case pcps s c of
     None \<Rightarrow> []
   | Some pcp \<Rightarrow> if p < 256 then walk (unat (pc_rq_counts pcp p)) (\<lambda>t. t_rq_next (thr s t)) (pc_rq_heads pcp p) else [])"

lemma rq_list_rel:
  assumes r: "rq_rel s Q" shows "rq_list s = Q"
proof (intro ext)
  fix c p
  show "rq_list s c p = Q c p"
  proof (cases "pcps s c")
    case None
    then show ?thesis using rq_no_cpu [OF r] by (simp add: rq_list_def)
  next
    case (Some pcp)
    have cr: "cpu_rel pcp (Q c)" using rq_cpu [OF r Some] by simp
    show ?thesis
    proof (cases "p < 256")
      case True
      have "unat (pc_rq_counts pcp p) = length (Q c p)"
        using cpu_relD(7) [OF cr True] rq_len_ge [OF True, of "Q c"] cpu_relD(3) [OF cr]
        by (simp add: unat_of_nat take_bit_nat_eq_self)
      then show ?thesis
        using walk_dll [OF rq_dll [OF r, of c p]] cpu_relD(5) [OF cr True] Some True by (simp add: rq_list_def)
    next
      case False
      then show ?thesis using cpu_relD(4) [OF cr, of p] Some by (simp add: rq_list_def)
    qed
  qed
qed

lemma wf_rq_list: "sched_wf s Q T \<Longrightarrow> rq_list s = Q"
  using rq_list_rel sched_wfD(1) by blast

section \<open>A two-processor state\<close>

text \<open>
  Two CPUs with idle threads 0 and 1; threads 2 and 3 run on them; threads 4 to 7 have been created
  and not started.
\<close>

definition boot_pcp :: "nat \<Rightarrow> percpu" where
  "boot_pcp c = \<lparr>pc_cpu_thread = Some (c + 2), pc_idle_thread = Some c, pc_rq_heads = (\<lambda>_. None),
     pc_rq_tails = (\<lambda>_. None), pc_rq_counts = (\<lambda>_. 0), pc_bitmap = [0, 0, 0, 0], pc_rq_total = 0,
     pc_need_reschedule = False, pc_idle_wake_hint = 0, pc_cpu_id = c, pc_aging_counter = 0,
     pc_balance_counter = 0, pc_last_check = 1, pc_last_balance = 1, pc_retiring = None, pc_cr3 = 0, pc_kstack = 0\<rparr>"

definition boot_thr :: "nat \<Rightarrow> thread" where
  "boot_thr t = blank_thread\<lparr>t_id := of_nat (t + 1), t_state := (if t < 4 then THREAD_RUNNING else THREAD_CREATED),
     t_priority := 128, t_base_priority := 128, t_cpu_affinity := 0xFF\<rparr>"

definition boot_state :: sched where
  "boot_state = \<lparr>thr = boot_thr, pcps = (\<lambda>c. if c < 2 then Some (boot_pcp c) else None), all_head = None,
     all_tail = None, all_count = 0, idle_thr = Some 0, kernel_cr3 = 4096, nr_cpus = 2, smp_enabled = True,
     this_cpu = 0, sched_running = True, sched_switch_count = 0, sched_yield_count = 0, ipis = [], tsc = 5,
     tsc_khz = 1000, timer_ticks = 0, lock_tries = [], current_global = None, next_thread_id = 9,
     ap_ready_count = 1, ap_tick_counter = 0, cpu_states = (\<lambda>c. if c < 2 then CPU_STATE_ONLINE else CPU_STATE_OFFLINE)\<rparr>"

abbreviation "boot_T \<equiv> {..<8} :: nat set"

lemma empty_queued [simp]: "queued (\<lambda>_ _. []) = {}"
  by (simp add: queued_def)

lemma boot_cpu_rel: "cpu_rel (boot_pcp c) (\<lambda>_. [])"
proof -
  have "[0, 0, 0, 0] = replicate 4 (0::u64)"
    by (simp add: numeral_eq_Suc)
  then have "[0, 0, 0, 0] ! i = (0::u64)" if "i < 4" for i
    using that nth_replicate by metis
  then have "\<not> bm_bit [0, 0, 0, 0] p" if "p < 256" for p
    using that by (simp add: bm_bit_def)
  then show ?thesis
    unfolding cpu_rel_def rq_len_def by (simp add: boot_pcp_def)
qed

lemma boot_rq_rel: "rq_rel boot_state (\<lambda>_ _. [])"
  using boot_cpu_rel by (simp add: rq_rel_def boot_state_def boot_thr_def blank_thread_def MAX_CPUS_def)

lemma boot_cfg: "cpu_cfg boot_state c = (if c < 2 then Some (c, Some c, Some (c + 2)) else None)"
  by (simp add: cpu_cfg_def boot_state_def boot_pcp_def)

lemma boot_idles: "idles boot_state = {..<2}"
  unfolding idles_def boot_cfg by (auto split: if_splits)

lemma boot_wf: "sched_wf boot_state (\<lambda>_ _. []) boot_T"
proof -
  have "cpus_wf boot_state"
    unfolding cpus_wf_def boot_cfg by (auto simp: boot_state_def MAX_CPUS_def)
  moreover have "threads_wf boot_state (\<lambda>_ _. []) boot_T"
    by (auto simp: threads_wf_def all_threads_list_def boot_state_def thr_ok_def prio_ok_def rsp_ok_def boot_thr_def
        blank_thread_def THREAD_MAX_PRIO_def)
  moreover have "idle_wf boot_state (\<lambda>_ _. []) boot_T"
    unfolding idle_wf_def boot_idles by (auto simp: boot_state_def boot_thr_def)
  moreover have "current_wf boot_state boot_T"
    unfolding current_wf_def boot_idles boot_cfg by auto
  ultimately show ?thesis
    using boot_rq_rel by (simp add: sched_wf_def)
qed

section \<open>Queues and the choice of the next thread\<close>

lemma place_and_remove:
  assumes "wfs T s" "t \<in> T" "\<forall>c p. t \<notin> set (rq_list s c p)" "t \<notin> idles s" "c < nr_cpus s" "u \<in> T"
  shows "rq_list (sched_place_thread (Some t) c s) =
      (\<lambda>c' p'. if c' = c \<and> int p' = t_priority (thr s t) then rq_list s c' p' @ [t] else rq_list s c' p')"
    and "rq_list (sched_remove_thread (Some u) s) = (\<lambda>c' p'. remove1 u (rq_list s c' p'))"
    and "wfs T (sched_place_thread (Some t) c s)" and "wfs T (sched_remove_thread (Some u) s)"
proof -
  obtain Q where w: "sched_wf s Q T" using assms(1) by (auto simp: wfs_def)
  note Q = wf_rq_list [OF w]
  have tq: "t \<notin> queued Q" using assms(3) by (simp add: Q queued_def)
  note pl = place_wf [OF w assms(2) tq assms(4,5)] and rm = wf_remove_locked [OF w assms(6)]
  show "wfs T (sched_place_thread (Some t) c s)" "wfs T (sched_remove_thread (Some u) s)"
    using pl rm by (auto simp: wfs_def sched_remove_thread_def)
  have p: "nat (t_priority (thr s t)) = p' \<longleftrightarrow> int p' = t_priority (thr s t)" for p'
    using prio_ok_nat(3) [OF sched_wfD(10) [OF w assms(2)]] by auto
  have "rq_list (sched_place_thread (Some t) c s) = enq c (nat (t_priority (thr s t))) t Q"
    using wf_rq_list [OF pl] by (simp add: fun_eq_iff)
  then show "rq_list (sched_place_thread (Some t) c s) =
      (\<lambda>c' p'. if c' = c \<and> int p' = t_priority (thr s t) then rq_list s c' p' @ [t] else rq_list s c' p')"
    using p by (auto simp: Q enq_def q_upd_apply fun_eq_iff)
  show "rq_list (sched_remove_thread (Some u) s) = (\<lambda>c' p'. remove1 u (rq_list s c' p'))"
    using wf_rq_list [OF rm] by (simp add: sched_remove_thread_def Q deq_def)
qed

text \<open>
  C2. In a well-formed state, placing a thread that is on no queue and is not an idle thread on an existing CPU appends it
  to that CPU's queue for its priority and changes no other queue; removing a thread deletes it from
  whatever queue it is on, wherever it stands in it, and changes nothing for a thread that is on none.
  Both leave the state well-formed: the links in both directions, the heads and tails, the
  counters and the bitmap of every CPU represent the new queues, and every queued thread is READY.
\<close>

theorem run_queue_fifo:
  assumes "wfs T s" "t \<in> T" "\<forall>c p. t \<notin> set (rq_list s c p)" "t \<notin> idles s" "c < nr_cpus s" "u \<in> T"
  shows "rq_list (sched_place_thread (Some t) c s) =
      (\<lambda>c' p'. if c' = c \<and> int p' = t_priority (thr s t) then rq_list s c' p' @ [t] else rq_list s c' p') \<and>
    rq_list (sched_remove_thread (Some u) s) = (\<lambda>c' p'. remove1 u (rq_list s c' p')) \<and>
    wfs T (sched_place_thread (Some t) c s) \<and> wfs T (sched_remove_thread (Some u) s)"
  using place_and_remove [OF assms] by blast

theorem run_queue_fifo_witness:
  "rq_list (sched_place_thread (Some 4) 1 boot_state) 1 128 = [4] \<and>
   rq_list (sched_remove_thread (Some 2) boot_state) 0 128 = [] \<and> wfs boot_T (sched_place_thread (Some 4) 1 boot_state)"
proof -
  have w: "wfs boot_T boot_state" using boot_wf by (auto simp: wfs_def)
  have q: "rq_list boot_state c p = []" for c p using wf_rq_list [OF boot_wf] by simp
  have i: "4 \<notin> idles boot_state" by (simp add: boot_idles)
  have n: "1 < nr_cpus boot_state" by (simp add: boot_state_def)
  show ?thesis
    using run_queue_fifo [of boot_T boot_state 4 1 2, OF w _ _ i n] q
    by (simp add: boot_state_def boot_thr_def)
qed

lemma try_free: "lock_tries s = [] \<Longrightarrow> spinlock_try_acquire s = (True, s)"
  by (simp add: spinlock_try_acquire_def)

lemma find_highest_max:
  assumes cr: "cpu_rel pcp q" and q: "q p \<noteq> []" "\<forall>p'>p. q p' = []"
  shows "bitmap_find_highest pcp = Some p"
proof (cases "bitmap_find_highest pcp")
  case None
  then show ?thesis using find_highest_None [OF cr] q(1) by simp
next
  case (Some r)
  from find_highest_Some [OF cr Some] q show ?thesis
    using Some by (metis linorder_not_less order_antisym_conv)
qed

lemma proactive_none:
  "p \<le> 150 \<or> \<not> smp_enabled s \<or> nr_cpus s \<le> 1 \<Longrightarrow> proactive_steal me p s = (None, s)"
  by (auto simp: proactive_steal_def)

text \<open>
  C12. When no lock is contended, on a CPU whose highest non-empty priority is at most 150, or on a single processor, \<open>pick_next\<close>
  takes the thread that has waited longest at the highest non-empty priority of the CPU and leaves the other
  threads and queues as they were. With several processors and a priority above 150 it may take a thread of
  lower priority from another CPU (\<open>pick_next_steals_lower\<close>).
\<close>

theorem pick_next_highest:
  assumes "wfs T s" "pcps s c \<noteq> None" "lock_tries s = []"
    and "rq_list s c p = t # ts" "\<forall>p'>p. rq_list s c p' = []"
    and "p \<le> 150 \<or> \<not> smp_enabled s \<or> nr_cpus s \<le> 1"
  shows "\<exists>s'. pick_next c s = (Some t, s') \<and> wfs T s' \<and> rq_list s' = (\<lambda>c' p'. remove1 t (rq_list s c' p'))"
proof -
  obtain Q where w: "sched_wf s Q T" using assms(1) by (auto simp: wfs_def)
  note Q = wf_rq_list [OF w]
  obtain pcp where c: "pcps s c = Some pcp" using assms(2) by auto
  have cr: "cpu_rel pcp (Q c)" using rq_cpu [OF sched_wfD(1) [OF w] c] by simp
  have q: "Q c p = t # ts" using assms(4) Q by simp
  have bm: "bitmap_find_highest pcp = Some p"
    using find_highest_max [OF cr] assms(5) q Q by simp
  have h: "pc_rq_heads pcp p = Some t"
    using cpu_relD(5) [OF cr, of p] q find_highest_Some [OF cr bm] by simp
  have "t \<notin> idles s" using sched_wfD(17) [OF w, of t] queuedI [of t Q c p] q by auto
  then have ni: "pc_idle_thread pcp \<noteq> Some t" using idlesI [OF c] by auto
  have "pick_next c s = (Some t, rq_pop_head t c p s)"
    using c bm h ni proactive_none [OF assms(6)] try_free [OF assms(3)]
    by (simp add: pick_next_def take_local_def)
  moreover have "sched_wf (rq_pop_head t c p s) (deq t Q) T" by (rule wf_pop_head [OF w q])
  ultimately show ?thesis
    using wf_rq_list Q by (auto simp: wfs_def deq_def)
qed

lemma boot_add:
  "sched_wf (sched_place_thread (Some 4) 0 boot_state) (enq 0 128 4 (\<lambda>_ _. [])) boot_T"
proof -
  have p: "nat (t_priority (thr boot_state 4)) = 128" by (simp add: boot_state_def boot_thr_def)
  have c: "pcps boot_state 0 \<noteq> None" by (simp add: boot_state_def)
  have "sched_wf (sched_add_thread_to_cpu (Some 4) 0 boot_state) (enq 0 (nat (t_priority (thr boot_state 4))) 4 (\<lambda>_ _. [])) boot_T"
    by (rule wf_add_to_cpu [OF boot_wf _ _ _ c]) (simp_all add: boot_idles)
  then show ?thesis unfolding p using c by (auto simp: sched_place_thread_def MAX_CPUS_def)
qed

lemma misc_add_locked: "misc (sched_add_thread_to_cpu_locked ot c s) = misc s"
  using links_only_append [of s] by (auto simp: sched_add_thread_to_cpu_locked_def links_only_def split: option.split)

lemma place_here:
  assumes "c < MAX_CPUS" "pcps s c \<noteq> None" "c = this_cpu s"
  shows "sched_place_thread (Some t) c s = sched_add_thread_to_cpu_locked (Some t) c s"
proof -
  have "this_cpu (sched_add_thread_to_cpu_locked (Some t) c s) = c"
    using misc_fields(1) [OF misc_add_locked] assms(3) by metis
  then show ?thesis
    using assms by (auto simp: sched_place_thread_def sched_add_thread_to_cpu_def Let_def)
qed

theorem pick_next_highest_witness:
  "\<exists>s'. pick_next 0 (sched_place_thread (Some 4) 0 boot_state) = (Some 4, s') \<and> rq_list s' 0 128 = []"
proof -
  let ?s = "sched_place_thread (Some 4) 0 boot_state"
  have w: "wfs boot_T ?s" using boot_add by (auto simp: wfs_def)
  have c: "pcps ?s 0 \<noteq> None" using rq_prio_bound [OF sched_wfD(1) [OF boot_add], of 0 128] by (auto simp: enq_def q_upd_apply)
  have l: "lock_tries ?s = []"
    using place_here [of 0 boot_state 4] misc_fields(7) [OF misc_add_locked, of "Some 4" 0 boot_state]
    by (simp add: boot_state_def MAX_CPUS_def)
  have q: "rq_list ?s c p = (if c = 0 \<and> p = 128 then [4] else [])" for c p
    using wf_rq_list [OF boot_add] by (simp add: enq_def q_upd_apply)
  show ?thesis
    using pick_next_highest [OF w c l, of 128 4 "[]"] q by auto
qed

section \<open>schedule does not panic\<close>

lemma steal_or_idle_some:
  assumes w: "sched_wf s Q T" and i: "Option.bind (pcps s ci) pc_idle_thread \<noteq> None"
    and st: "steal_or_idle me ci s = (r, s')"
  shows "r \<noteq> None"
proof -
  obtain r1 s1 where s1: "sched_steal_thread me s = (r1, s1)" by fastforce
  have "same_cfg s s1" using steal_post_thread [OF w s1] by (simp add: steal_post_def)
  from same_cfg_idle [OF this, of ci] show ?thesis
    using st s1 i by (cases r1) (auto simp: steal_or_idle_def)
qed

lemma pick_next_some:
  assumes w: "sched_wf s Q T" and i: "Option.bind (pcps s ci) pc_idle_thread \<noteq> None"
    and pk: "pick_next ci s = (r, s')"
  shows "r \<noteq> None"
proof -
  obtain pcp where c: "pcps s ci = Some pcp" using i by (cases "pcps s ci") auto
  show ?thesis
  proof (cases "bitmap_find_highest pcp")
    case None
    then show ?thesis using steal_or_idle_some [OF w i] pk c by (simp add: pick_next_def)
  next
    case (Some p)
    obtain r1 s1 where ps: "proactive_steal (pc_cpu_id pcp) p s = (r1, s1)" by fastforce
    obtain Q1 where Q1: "pick_post ci s Q T r1 s1 Q1" using proactive_post [OF w ps] by auto
    then have w1: "sched_wf s1 Q1 T" and i1: "Option.bind (pcps s1 ci) pc_idle_thread \<noteq> None"
      using same_cfg_idle [of s s1 ci] i by (auto simp: pick_post_def)
    obtain b s2 where tr: "spinlock_try_acquire s1 = (b, s2)" by fastforce
    have w2: "sched_wf s2 Q1 T" by (rule wf_try [OF w1 tr])
    have i2: "Option.bind (pcps s2 ci) pc_idle_thread \<noteq> None" using i1 try_fields(2) [OF tr] by simp
    have st: "steal_or_idle (pc_cpu_id pcp) ci s2 = (r, s') \<Longrightarrow> r \<noteq> None"
      by (rule steal_or_idle_some [OF w2 i2])
    obtain pcp2 where c2: "pcps s2 ci = Some pcp2" using i2 by (cases "pcps s2 ci") auto
    show ?thesis
    proof (cases r1)
      case None
      then have "take_local (pc_cpu_id pcp) ci p s1 = (r, s')"
        using pk c Some ps by (simp add: pick_next_def)
      then have "steal_or_idle (pc_cpu_id pcp) ci s2 = (r, s')" if "r = None"
        using that tr c2 by (auto simp: take_local_def split: if_splits option.splits)
      then show ?thesis
        using st by blast
    next
      case S1: (Some t)
      then show ?thesis using pk c Some ps by (auto simp: pick_next_def)
    qed
  qed
qed

lemma dispatch_result:
  assumes "pcps s c \<noteq> None"
  shows "\<exists>pcp'. pcps (dispatch c n s) c = Some pcp' \<and> pc_cpu_thread pcp' = Some n"
    "t_state (thr (dispatch c n s) n) = THREAD_RUNNING" "t_time_slice (thr (dispatch c n s) n) = THREAD_TIME_SLICE"
  using assms by (auto simp: dispatch_def Let_def)

lemma load_cr3_pcp: "pcps (load_cr3 c n s) d = None \<longleftrightarrow> pcps s d = None"
  by (simp add: load_cr3_def Let_def)

text \<open>What the state after a successful \<open>schedule\<close> on CPU \<open>c\<close> looks like.\<close>

definition runs :: "nat \<Rightarrow> nat \<Rightarrow> sched \<Rightarrow> bool" where
  "runs c n s \<longleftrightarrow> (\<exists>pcp. pcps s c = Some pcp \<and> pc_cpu_thread pcp = Some n)"

lemma switch_to_total:
  assumes w: "sched_wf s Q T" and c: "pcps s c = Some pcp" and cur: "pc_cpu_thread pcp = Some cur"
    and i: "pc_idle_thread pcp \<noteq> None"
  shows "\<exists>s' n. switch_to c cur s = Some s' \<and> runs c n s' \<and> fst (pick_next c s) = Some n \<and>
     (pc_idle_thread pcp = Some n \<or> n \<in> queued Q) \<and>
     (n \<noteq> cur \<longrightarrow> t_state (thr s' n) = THREAD_RUNNING \<and> t_time_slice (thr s' n) = THREAD_TIME_SLICE)"
proof -
  obtain r s1 where pk: "pick_next c s = (r, s1)" by fastforce
  have ib: "Option.bind (pcps s c) pc_idle_thread \<noteq> None" using c i by simp
  obtain n where n: "r = Some n" using pick_next_some [OF w ib pk] by auto
  obtain Q1 where post: "pick_post c s Q T r s1 Q1" using pick_next_post [OF w pk] by auto
  have w1: "sched_wf s1 Q1 T" and cf: "same_cfg s s1" using post by (simp_all add: pick_post_def)
  have from_q: "pc_idle_thread pcp = Some n \<or> n \<in> queued Q" using post n c by (auto simp: pick_post_def)
  obtain pcp1 where c1: "pcps s1 c = Some pcp1" "pc_cpu_thread pcp1 = Some cur"
    using same_cfg_pcp [OF cf c] cur by auto
  show ?thesis
  proof (cases "n = cur")
    case True
    let ?s' = "if t_state (thr s1 cur) = THREAD_RUNNING \<and> Some cur \<noteq> pc_idle_thread pcp1
        then sched_add_thread (Some cur) s1 else s1"
    have "switch_to c cur s = Some ?s'" using pk n True c1 by (simp add: switch_to_def)
    moreover have "same_cfg s1 ?s'" using same_cfg_add_thread by simp
    then have "runs c cur ?s'" using same_cfg_pcp [OF _ c1(1)] c1(2) unfolding runs_def by fastforce
    ultimately show ?thesis using True from_q pk n by auto
  next
    case False
    let ?s2 = "requeue_current c cur s1"
    obtain Q2 where w2: "sched_wf ?s2 Q2 T" using requeue_wf(1) [OF w1 c1] by auto
    have "n \<in> T" using post n by (simp add: pick_post_def)
    then have ok: "rsp_ok (thr ?s2 n)" using sched_wfD(9) [OF w2] by (simp add: thr_ok_def)
    have "pcps ?s2 c \<noteq> None"
      using requeue_wf(2) [OF w1 c1] same_cfg_pcp [OF _ c1(1)] by (auto simp: except_def)
    then have p: "pcps (load_cr3 c n ?s2) c \<noteq> None" by (simp add: load_cr3_pcp)
    let ?s3 = "dispatch c n (load_cr3 c n ?s2)"
    have "switch_to c cur s = Some (?s3\<lparr>sched_switch_count := sched_switch_count ?s3 + 1\<rparr>)"
      using pk n False ok by (simp add: switch_to_def Let_def)
    then show ?thesis
      using dispatch_result [OF p, of n] from_q pk n by (auto simp: runs_def)
  qed
qed

lemma validate_rq_thr: "thr (snd (sched_validate_rq s)) = thr s \<and> pcps (snd (sched_validate_rq s)) = pcps s \<and>
    this_cpu (snd (sched_validate_rq s)) = this_cpu s \<and> current_global (snd (sched_validate_rq s)) = current_global s"
  by (auto simp: sched_validate_rq_def spinlock_try_acquire_def split: option.splits list.splits prod.splits)



section \<open>All operations\<close>



section \<open>Wake-ups\<close>

text \<open>
  \<open>sched_wake\<close> empties the wait queue: every waiter becomes READY and is on a run queue, no
  other thread changes state, and the wait queue is left empty.
\<close>

theorem sched_wake_all:
  assumes "wfs T s" "waiting s T wq xs"
  shows "fst (sched_wake wq s) = wait_queue_init \<and> wfs T (snd (sched_wake wq s)) \<and>
    (\<forall>t. t_state (thr (snd (sched_wake wq s)) t) = (if t \<in> set xs then THREAD_READY else t_state (thr s t))) \<and>
    (\<forall>t\<in>set xs. \<exists>c p. t \<in> set (rq_list (snd (sched_wake wq s)) c p))"
proof -
  obtain Q where w: "sched_wf s Q T" using assms(1) by (auto simp: wfs_def)
  obtain wq' s' where wk: "sched_wake wq s = (wq', s')" by fastforce
  note sp = sched_wake_spec [OF w assms(2) wk]
  obtain Q' where w': "sched_wf s' Q' T" "queued Q' = set xs \<union> queued Q" using sp by auto
  have "t_state (thr s' t) = THREAD_READY \<and> (\<exists>c p. t \<in> set (rq_list s' c p))" if "t \<in> set xs" for t
    using that w'(2) sched_wfD(11) [OF w'(1), of t] wf_rq_list [OF w'(1)] by (auto simp: queued_def)
  then show ?thesis
    using sp w' wk by (auto simp: wfs_def except_def)
qed

definition block_demo :: "wait_queue \<times> sched" where
  "block_demo = enter_wait 2 wait_queue_init boot_state"

lemma block_demo_wf: "wfs boot_T (snd block_demo)" "waiting (snd block_demo) boot_T (fst block_demo) [2]"
  "idles (snd block_demo) = {..<2}"
proof -
  obtain wq s where d: "block_demo = (wq, s)" by fastforce
  have i: "2 \<notin> idles boot_state" by (simp add: boot_idles)
  note e = enter_wait_wf [OF boot_wf _ i d [unfolded block_demo_def]]
  show "wfs boot_T (snd block_demo)" unfolding d using e(1) by (simp add: wfs_def)
  show "idles (snd block_demo) = {..<2}"
    unfolding d using e(2) same_cfg_idles [of boot_state s] boot_idles by (simp add: except_def)
  have "wq = \<lparr>wq_waiters = Some 2, wq_count = 1\<rparr>" "t_wq_next (thr s 2) = None"
    using d by (auto simp: block_demo_def enter_wait_def wait_queue_init_def Let_def)
  then show "waiting (snd block_demo) boot_T (fst block_demo) [2]"
    unfolding d using e(3) by (simp add: waiting_def)
qed

theorem sched_wake_all_witness:
  "fst (sched_wake (fst block_demo) (snd block_demo)) = wait_queue_init \<and>
   t_state (thr (snd (sched_wake (fst block_demo) (snd block_demo))) 2) = THREAD_READY"
  using sched_wake_all [OF block_demo_wf(1,2)] by simp

section \<open>Behaviours the code does not intend\<close>

lemma pick_next_idle:
  assumes w: "sched_wf s Q T" and c: "pcps s c = Some pcp" and q: "\<And>p. Q c p = []"
    and n: "\<not> smp_enabled s \<or> nr_cpus s \<le> 1"
  shows "pick_next c s = (pc_idle_thread pcp, s)"
proof -
  have cr: "cpu_rel pcp (Q c)" using rq_cpu [OF sched_wfD(1) [OF w] c] by simp
  have "bitmap_find_highest pcp = None"
    using find_highest_Some [OF cr] q by (cases "bitmap_find_highest pcp") auto
  then show ?thesis
    using c n by (auto simp: pick_next_def steal_or_idle_def sched_steal_thread_def Let_def)
qed

text \<open>
  \<open>schedule\<close> chooses the next thread before it puts the current one back on its queue. A running
  thread that is the only runnable one on a uniprocessor therefore loses the CPU: the idle thread
  is dispatched although the thread is READY and queued.
\<close>

theorem switch_idles_runnable:
  assumes "wfs T s" "\<forall>p. rq_list s c p = []" "\<not> smp_enabled s \<or> nr_cpus s \<le> 1"
    "pcps s c = Some pcp" "pc_cpu_thread pcp = Some cur" "pc_idle_thread pcp = Some i" "i \<noteq> cur"
    "t_state (thr s cur) = THREAD_RUNNING"
  shows "\<exists>s'. switch_to c cur s = Some s' \<and> runs c i s' \<and> t_state (thr s' cur) = THREAD_READY \<and>
    (\<exists>d p. cur \<in> set (rq_list s' d p))"
proof -
  obtain Q where w: "sched_wf s Q T" using assms(1) by (auto simp: wfs_def)
  have pk: "pick_next c s = (Some i, s)"
    using pick_next_idle [OF w assms(4) _ assms(3)] assms(2,6) wf_rq_list [OF w] by simp
  let ?f = "\<lambda>x. x\<lparr>t_state := THREAD_READY, t_priority := t_base_priority x, t_age_ticks := 0\<rparr>"
  let ?s2 = "requeue_current c cur s"
  have t: "cur \<in> T" "cur \<notin> idles s" "cur \<notin> queued Q"
    using wf_current [OF w assms(4,5)] assms(6-8) not_queued [OF w, of cur] by auto
  have w1: "sched_wf (upd_thr cur ?f s) Q T"
    by (rule wf_upd_outside [OF w t(3,2)]) (auto simp: thr_ok_def prio_ok_def rsp_ok_def)
  have e: "?s2 = sched_add_thread (Some cur) (upd_thr cur ?f s)"
    using assms(4,6-8) by (simp add: requeue_current_def)
  have c1: "same_cfg s (upd_thr cur ?f s)" by (rule same_cfg_upd_thr) simp
  define Q2 where "Q2 = enq (choose_cpu cur (upd_thr cur ?f s)) (nat (t_priority (thr (upd_thr cur ?f s) cur))) cur Q"
  have w2: "sched_wf ?s2 Q2 T"
    unfolding e Q2_def by (rule wf_add_thread [OF w1 t(1,3)]) (use t(2) same_cfg_idles [OF c1] in simp)
  have cq: "cur \<in> queued Q2" by (simp add: Q2_def)
  have iT: "i \<in> T" "i \<notin> queued Q2"
    using sched_wfD(16,17) [OF w, of i] idlesI [OF assms(4,6)] assms(7) by (auto simp: Q2_def)
  have cf: "same_cfg s (load_cr3 c i ?s2)"
    using same_cfg_trans [OF same_cfg_trans [OF c1 same_cfg_add_thread [of _ "Some cur"]] load_cr3_cfg(1)] e by simp
  let ?s3 = "dispatch c i (load_cr3 c i ?s2)"
  have w3: "sched_wf ?s3 Q2 T"
    by (rule dispatch_wf [OF load_cr3_wf [OF w2] iT]) (use same_cfg_idle [OF cf, of c] assms(4,6) in simp)
  let ?s4 = "?s3\<lparr>sched_switch_count := sched_switch_count ?s3 + 1\<rparr>"
  have w4: "sched_wf ?s4 Q2 T" by (rule wfs_misc_count [OF w3])
  have "switch_to c cur s = Some ?s4"
    using pk assms(7) sched_wfD(9) [OF w2 iT(1)] by (simp add: switch_to_def Let_def thr_ok_def)
  moreover have "pcps (load_cr3 c i ?s2) c \<noteq> None"
    using same_cfg_pcp [OF cf assms(4)] by auto
  then have "runs c i ?s4" using dispatch_result(1) by (auto simp: runs_def)
  ultimately show ?thesis
    using cq sched_wfD(11) [OF w4 cq] wf_rq_list [OF w4] by (auto simp: queued_def)
qed

definition up_state :: sched where
  "up_state = boot_state\<lparr>smp_enabled := False\<rparr>"

lemma up_wf: "sched_wf up_state (\<lambda>_ _. []) boot_T"
proof -
  have "cpu_cfg up_state = cpu_cfg boot_state" by (simp add: cpu_cfg_def up_state_def fun_eq_iff)
  then show ?thesis
    using boot_wf by (simp add: sched_wf_def cpus_wf_def threads_wf_def idle_wf_def current_wf_def idles_def
        all_threads_list_def rq_rel_def) (simp add: up_state_def)
qed

theorem switch_idles_runnable_witness:
  "\<exists>s'. switch_to 0 2 up_state = Some s' \<and> runs 0 0 s' \<and> t_state (thr s' 2) = THREAD_READY"
proof -
  have w: "wfs boot_T up_state" using up_wf by (auto simp: wfs_def)
  have "\<forall>p. rq_list up_state 0 p = []" using wf_rq_list [OF up_wf] by simp
  moreover have "pcps up_state 0 = Some (boot_pcp 0)" "\<not> smp_enabled up_state" "pc_cpu_thread (boot_pcp 0) = Some 2"
    "pc_idle_thread (boot_pcp 0) = Some 0" "t_state (thr up_state 2) = THREAD_RUNNING"
    by (simp_all add: up_state_def boot_state_def boot_pcp_def boot_thr_def)
  ultimately show ?thesis
    using switch_idles_runnable [OF w, of 0 "boot_pcp 0" 2 0] by auto
qed

text \<open>
  When a CPU's best thread has priority above 150, \<open>pick_next\<close> tries to steal "a higher-priority
  thread" from another CPU, but accepts the stolen thread when its priority number is smaller, which
  is the lower priority: on two CPUs the best local thread is passed over for a worse one.
\<close>

theorem pick_next_steals_lower:
  assumes "wfs T s" "nr_cpus s = 2" "smp_enabled s" "lock_tries s = []" "me < 2"
    and "rq_list s me p \<noteq> []" "\<forall>k>p. rq_list s me k = []" "p > 150"
    and "rq_list s ((me + 1) mod 2) p' = h # hs" "\<forall>k>p'. rq_list s ((me + 1) mod 2) k = []" "p' < p"
    and "bit (t_cpu_affinity (thr s h)) me"
  shows "\<exists>s'. pick_next me s = (Some h, s') \<and> t_priority (thr s' h) < int p"
proof -
  let ?o = "(me + 1) mod 2"
  obtain Q where w: "sched_wf s Q T" using assms(1) by (auto simp: wfs_def)
  note Q = wf_rq_list [OF w] and r = sched_wfD(1) [OF w]
  have "me = 0 \<or> me = 1" using assms(5) by auto
  then have ne: "?o \<noteq> me" "?o < 2" by auto
  obtain pcp tgt where c: "pcps s me = Some pcp" "pcps s ?o = Some tgt"
    using sched_wfD(14) [OF w, of me] sched_wfD(14) [OF w, of ?o] assms(2,5) ne by auto
  have cr: "cpu_rel pcp (Q me)" "cpu_rel tgt (Q ?o)" using rq_cpu [OF r c(1)] rq_cpu [OF r c(2)] by auto
  have bm: "bitmap_find_highest pcp = Some p" "bitmap_find_highest tgt = Some p'"
    using find_highest_max [OF cr(1) assms(6,7) [unfolded Q]]
      find_highest_max [OF cr(2), of p'] assms(9,10) [unfolded Q] by simp_all
  have hd: "pc_rq_heads tgt p' = Some h"
    using cpu_relD(5) [OF cr(2), of p'] find_highest_Some [OF cr(2) bm(2)] assms(9) Q by simp
  have hq: "h \<in> set (Q ?o p')" using assms(9) Q by simp
  then have "h \<notin> idles s" using sched_wfD(17) [OF w, of h] queuedI [of h Q ?o p'] by auto
  then have ni: "pc_idle_thread tgt \<noteq> Some h" using idlesI [OF c(2)] by auto
  have id: "pc_cpu_id pcp = me" using sched_wfD(15) [OF w c(1)] by simp
  let ?s2 = "upd_thr h (\<lambda>x. x\<lparr>t_cpu_queue := me\<rparr>) (rq_pop_head h ?o p' s)"
  let ?s3 = "if cpu_is_idle ?o ?s2 then smp_send_reschedule ?o ?s2 else ?s2"
  have st: "sched_steal_thread me s = (Some h, ?s3)"
    using assms(2-4,12) ne c(2) bm(2) hd ni try_free [OF assms(4)]
    by (simp add: sched_steal_thread_def Let_def)
  have "t_priority (thr ?s3 h) = t_priority (thr s h)"
    using core_fields(2) [OF links_only_thr_fields [OF links_only_pop, of h ?o p' s h]] by simp
  then have pr: "t_priority (thr ?s3 h) < int p" using rq_home [OF r hq] assms(11) by simp
  have "pick_next me s = (Some h, ?s3)"
    using c(1) bm(1) id st pr assms(2,3,8) by (simp add: pick_next_def proactive_steal_def)
  then show ?thesis using pr by blast
qed

definition steal_demo :: sched where
  "steal_demo = sched_place_thread (Some 5) 1 (sched_place_thread (Some 4) 0
     (sched_set_priority (Some 4) 200 boot_state))"

lemma placed_wfs:
  assumes "sched_wf s Q T" "t \<in> T" "t \<notin> queued Q" "t \<notin> idles s" "c < nr_cpus s"
  shows "sched_wf (sched_place_thread (Some t) c s) (enq c (nat (t_priority (thr s t))) t Q) T"
  using wf_add_to_cpu [OF assms(1-4) sched_wfD(14) [OF assms(1,5)]] sched_wfD(13) [OF assms(1)]
    sched_wfD(14) [OF assms(1,5)] assms(5) by (auto simp: sched_place_thread_def)

lemma add_locked_keeps:
  "t_priority (thr (sched_add_thread_to_cpu_locked ot c s) u) = t_priority (thr s u)"
  "t_cpu_affinity (thr (sched_add_thread_to_cpu_locked ot c s) u) = t_cpu_affinity (thr s u)"
  using core_fields(2,4) [OF links_only_thr_fields [OF links_only_append [of s]]]
  by (auto simp: sched_add_thread_to_cpu_locked_def split: option.split)

lemma place_keeps:
  "t_priority (thr (sched_place_thread ot c s) u) = t_priority (thr s u)"
  "t_cpu_affinity (thr (sched_place_thread ot c s) u) = t_cpu_affinity (thr s u)"
  "lock_tries (sched_place_thread ot c s) = lock_tries s"
  using add_locked_keeps misc_fields(7) [OF misc_add_locked]
  by (auto simp: sched_place_thread_def sched_add_thread_to_cpu_def Let_def smp_send_reschedule_def upd_pcp_def)

lemma place_cfg: "same_cfg s (sched_place_thread ot c s)"
  using same_cfg_add_to_cpu by (auto simp: sched_place_thread_def)

lemma steal_demo_wf:
  "sched_wf steal_demo (enq 1 128 5 (enq 0 200 4 (\<lambda>_ _. []))) boot_T" "nr_cpus steal_demo = 2" "smp_enabled steal_demo"
proof -
  let ?f = "\<lambda>x. x\<lparr>t_priority := 200, t_base_priority := 200\<rparr>"
  let ?s0 = "upd_thr 4 ?f boot_state"
  have s0: "sched_set_priority (Some 4) 200 boot_state = ?s0"
    by (simp add: sched_set_priority_def THREAD_MAX_PRIO_def boot_state_def boot_thr_def)
  have w0: "sched_wf ?s0 (\<lambda>_ _. []) boot_T"
    by (rule wf_upd_outside [OF boot_wf]) (auto simp: boot_idles thr_ok_def prio_ok_def rsp_ok_def THREAD_MAX_PRIO_def)
  have c0: "same_cfg boot_state ?s0" by (rule same_cfg_upd_thr) simp
  let ?s1 = "sched_place_thread (Some 4) 0 ?s0"
  have c1: "same_cfg boot_state ?s1" by (rule same_cfg_trans [OF c0 place_cfg])
  have c2: "same_cfg boot_state steal_demo" unfolding steal_demo_def s0 by (rule same_cfg_trans [OF c1 place_cfg])
  have n: "nr_cpus boot_state = 2" "smp_enabled boot_state" by (simp_all add: boot_state_def)
  have "sched_wf ?s1 (enq 0 (nat (t_priority (thr ?s0 4))) 4 (\<lambda>_ _. [])) boot_T"
    by (rule placed_wfs [OF w0]) (use same_cfg_idles [OF c0] boot_idles c0 n in \<open>auto simp: same_cfg_def\<close>)
  then have w1: "sched_wf ?s1 (enq 0 200 4 (\<lambda>_ _. [])) boot_T" by simp
  have "sched_wf steal_demo (enq 1 (nat (t_priority (thr ?s1 5))) 5 (enq 0 200 4 (\<lambda>_ _. []))) boot_T"
    unfolding steal_demo_def s0
    by (rule placed_wfs [OF w1]) (use same_cfg_idles [OF c1] boot_idles c1 n in \<open>auto simp: same_cfg_def\<close>)
  moreover have "t_priority (thr ?s1 5) = 128"
    by (simp add: place_keeps boot_state_def boot_thr_def)
  ultimately show "sched_wf steal_demo (enq 1 128 5 (enq 0 200 4 (\<lambda>_ _. []))) boot_T" by simp
  show "nr_cpus steal_demo = 2" "smp_enabled steal_demo" using c2 n by (simp_all add: same_cfg_def)
qed

theorem pick_next_steals_lower_witness:
  "\<exists>s'. pick_next 0 steal_demo = (Some 5, s') \<and> t_priority (thr s' 5) < int 200"
proof -
  have w: "wfs boot_T steal_demo" using steal_demo_wf(1) by (auto simp: wfs_def)
  have l: "lock_tries steal_demo = []" "t_cpu_affinity (thr steal_demo 5) = 0xFF"
    by (simp_all add: steal_demo_def place_keeps sched_set_priority_def boot_state_def boot_thr_def THREAD_MAX_PRIO_def upd_thr_def)
  have q: "rq_list steal_demo c p = (if c = 1 \<and> p = 128 then [5] else if c = 0 \<and> p = 200 then [4] else [])" for c p
    using wf_rq_list [OF steal_demo_wf(1)] by (auto simp: enq_def q_upd_apply)
  show ?thesis
    using pick_next_steals_lower [OF w steal_demo_wf(2,3) l(1), of 0 200 128 5 "[]"] q l(2) by simp
qed

text \<open>
  Killing a blocked thread does not take it off the wait queue it sleeps on: the thread is marked
  ZOMBIE, but the next \<open>sched_wake\<close> of that wait queue makes it READY and runs it again.
\<close>

theorem killed_thread_runs_again:
  assumes "wfs T s" "sched_find_thread tid s = Some t" "t_state (thr s t) = THREAD_BLOCKED"
    and "waiting s T wq (t # xs)" "t_join_queue (thr s t) = wait_queue_init"
  shows "t_state (thr (snd (sched_kill_thread tid s)) t) = THREAD_ZOMBIE \<and>
    t_state (thr (snd (sched_wake wq (snd (sched_kill_thread tid s)))) t) = THREAD_READY"
proof -
  let ?s1 = "upd_thr t (\<lambda>x. x\<lparr>t_state := THREAD_ZOMBIE\<rparr>) s"
  let ?s2 = "upd_thr t (\<lambda>x. x\<lparr>t_join_queue := wait_queue_init\<rparr>) ?s1"
  obtain Q where w: "sched_wf s Q T" using assms(1) by (auto simp: wfs_def)
  have k: "snd (sched_kill_thread tid s) = ?s2"
    using assms(2,3,5) by (simp add: sched_kill_thread_def wake_joiners_def sched_wake_def wait_queue_init_def)
  have t: "t \<notin> queued Q" "t \<notin> idles s" using not_queued [OF w] not_idle [OF w] assms(3) by auto
  have w1: "sched_wf ?s1 Q T"
    by (rule wf_upd_outside [OF w t]) (auto simp: thr_ok_def prio_ok_def rsp_ok_def)
  have "same_cfg s ?s1" by (rule same_cfg_upd_thr) simp
  then have "t \<notin> idles ?s1" using t(2) same_cfg_idles by blast
  then have "sched_wf ?s2 Q T"
    by (rule wf_upd_outside [OF w1 t(1)]) (auto simp: thr_ok_def prio_ok_def rsp_ok_def)
  then have w2: "wfs T ?s2" by (auto simp: wfs_def)
  have "waiting ?s2 T wq (t # xs)"
  proof -
    have "chain (\<lambda>u. t_wq_next (thr ?s2 u)) p ys = chain (\<lambda>u. t_wq_next (thr s u)) p ys" for p ys
      by (intro chain_cong) simp
    then show ?thesis using assms(4) by (auto simp: waiting_def)
  qed
  then show ?thesis
    using sched_wake_all [OF w2] k by simp
qed

lemma block_demo_eq: "block_demo = (\<lparr>wq_waiters = Some 2, wq_count = 1\<rparr>,
    upd_thr 2 (\<lambda>x. x\<lparr>t_state := THREAD_BLOCKED, t_wq_next := None\<rparr>) boot_state)"
proof -
  have "sched_remove_thread (Some 2) boot_state = boot_state"
    by (simp add: sched_remove_thread_def sched_remove_thread_locked_def Let_def boot_state_def boot_thr_def
        blank_thread_def boot_pcp_def split: option.split)
  then show ?thesis
    by (simp add: block_demo_def enter_wait_def Let_def wait_queue_init_def)
qed

definition kill_demo :: sched where
  "kill_demo = (snd block_demo)\<lparr>all_head := Some 2, all_count := 1\<rparr>"

theorem killed_thread_runs_again_witness:
  "t_state (thr (snd (sched_kill_thread 3 kill_demo)) 2) = THREAD_ZOMBIE \<and>
   t_state (thr (snd (sched_wake (fst block_demo) (snd (sched_kill_thread 3 kill_demo)))) 2) = THREAD_READY"
proof -
  obtain Q where w: "sched_wf (snd block_demo) Q boot_T" using block_demo_wf(1) by (auto simp: wfs_def)
  have c: "cpu_cfg kill_demo = cpu_cfg (snd block_demo)" by (simp add: cpu_cfg_def kill_demo_def fun_eq_iff)
  have l: "all_threads_list kill_demo = [2]"
    by (simp add: all_threads_list_def kill_demo_def)
  have "sched_wf kill_demo Q boot_T"
    using w c l by (simp add: sched_wf_def cpus_wf_def threads_wf_def idle_wf_def current_wf_def idles_def rq_rel_def)
      (simp add: kill_demo_def)
  then have k: "wfs boot_T kill_demo" by (auto simp: wfs_def)
  have f: "sched_find_thread 3 kill_demo = Some 2"
    by (simp add: sched_find_thread_def l) (simp add: kill_demo_def block_demo_eq boot_state_def boot_thr_def)
  have "waiting kill_demo boot_T (fst block_demo) [2]"
    using block_demo_wf(2) by (simp add: waiting_def kill_demo_def)
  moreover have "t_state (thr kill_demo 2) = THREAD_BLOCKED" "t_join_queue (thr kill_demo 2) = wait_queue_init"
    by (simp_all add: kill_demo_def block_demo_eq boot_state_def boot_thr_def blank_thread_def)
  ultimately show ?thesis
    using killed_thread_runs_again [OF k f] by blast
qed

text \<open>
  Ageing exempts the boot processor's idle thread only. A READY thread that is on no queue, such
  as the idle thread another CPU starts with, is queued by the tick that ages it past the limit,
  on the queue of the CPU that handles the tick.
\<close>

theorem ageing_queues_unqueued:
  assumes "rq_rel s Q" "t \<notin> queued Q" "Some t \<noteq> idle_thr s" "t_state (thr s t) = THREAD_READY"
    and "t_age_ticks (thr s t) + 1 \<ge> AGING_INTERVAL" "0 \<le> t_priority (thr s t)" "t_priority (thr s t) < THREAD_MAX_PRIO"
    and "pcps s (this_cpu s) \<noteq> None" "rq_len (Q (this_cpu s)) + 1 < 2 ^ 32"
  shows "t \<in> set (rq_list (age_thread t s) (this_cpu s) (nat (t_priority (thr s t) + 1)))"
proof -
  let ?c = "this_cpu s" and ?p = "t_priority (thr s t)"
  let ?s1 = "upd_thr t (\<lambda>x. x\<lparr>t_age_ticks := t_age_ticks x + 1\<rparr>) s"
  let ?s2 = "sched_remove_thread_locked (Some t) ?s1"
  let ?s3 = "upd_thr t (\<lambda>x. x\<lparr>t_priority := t_priority x + 1\<rparr>) ?s2"
  let ?s4 = "sched_add_thread_to_cpu_locked (Some t) ?c ?s3"
  have r1: "rq_rel ?s1 Q" by (rule rq_rel_upd_thr [OF assms(1)]) (use assms(2) in auto)
  have l: "links_only ?s1 ?s2" by (rule links_only_remove)
  have p2: "t_priority (thr ?s2 t) = ?p" using core_fields(2) [OF links_only_thr_fields [OF l, of t]] by simp
  have "prio_ok (thr ?s1 t)" using assms(6,7) by (simp add: prio_ok_def)
  from remove_locked_refines [OF r1 this] have r2: "rq_rel ?s2 Q" by (simp add: deq_unqueued [OF assms(2)])
  have r3: "rq_rel ?s3 Q" by (rule rq_rel_upd_thr [OF r2]) (use assms(2) in auto)
  have tc: "this_cpu ?s3 = ?c" using links_only_cfg [OF l] by (simp add: same_cfg_def upd_thr_def)
  have c3: "pcps ?s3 ?c \<noteq> None"
    using assms(8) links_only_cfg [OF l] by (auto simp: same_cfg_def cpu_cfg_def fun_eq_iff dest!: spec [of _ ?c])
  have p3: "prio_ok (thr ?s3 t)" using assms(6,7) p2 by (simp add: prio_ok_def THREAD_MAX_PRIO_def)
  have r4: "rq_rel ?s4 (enq ?c (nat (t_priority (thr ?s3 t))) t Q)"
    by (rule add_locked_refines [OF r3 c3 p3 assms(2,9)])
  have a: "age_thread t s = upd_thr t (\<lambda>x. x\<lparr>t_age_ticks := 0\<rparr>) ?s4"
    using assms(3-5,7) tc by (simp add: age_thread_def Let_def sched_add_thread_locked_def)
  have "rq_rel (age_thread t s) (enq ?c (nat (t_priority (thr ?s3 t))) t Q)"
    unfolding a by (rule rq_rel_upd_thr [OF r4]) auto
  from rq_list_rel [OF this] show ?thesis
    using p2 by (simp add: enq_def q_upd_apply)
qed

definition ap_boot :: sched where
  "ap_boot = upd_thr 1 (\<lambda>x. x\<lparr>t_state := THREAD_READY, t_age_ticks := 19\<rparr>) boot_state"

theorem ageing_queues_unqueued_witness:
  "1 \<in> idles ap_boot \<and> 1 \<in> set (rq_list (age_thread 1 ap_boot) 0 129)"
proof -
  have r: "rq_rel ap_boot (\<lambda>_ _. [])"
    unfolding ap_boot_def by (rule rq_rel_upd_thr [OF boot_rq_rel]) auto
  have i: "1 \<in> idles ap_boot" using boot_idles by (simp add: idles_def cpu_cfg_def ap_boot_def)
  have f: "this_cpu ap_boot = 0" "Some 1 \<noteq> idle_thr ap_boot" "t_state (thr ap_boot 1) = THREAD_READY"
    "t_age_ticks (thr ap_boot 1) + 1 \<ge> AGING_INTERVAL" "t_priority (thr ap_boot 1) = 128" "pcps ap_boot 0 \<noteq> None"
    by (simp_all add: ap_boot_def upd_thr_def boot_state_def boot_thr_def AGING_INTERVAL_def)
  show ?thesis
    using ageing_queues_unqueued [OF r, of 1] f i by (simp add: THREAD_MAX_PRIO_def rq_len_def)
qed

end
