(* ===== verification/Sync.thy ===== *)
theory Sync
  imports Sched_Props
begin

text \<open>
  The locks of \<^verbatim>\<open>kernel/sync.c\<close>: spin locks, mutexes with priority inheritance and time-outs,
  condition variables, read-write locks and sequence locks. Each function is split at the points where
  other CPUs or threads can run: one attempt of a spinning loop, one iteration of \<open>mutex_lock\<close> up to
  the point where it blocks, the release and the clean-up parts of \<open>mutex_unlock\<close>. Lock-order tracking
  and the interrupt flag are left out. The reader count of a read-write lock is an unbounded integer; in the code it is a 32-bit \<open>int\<close>.
\<close>

section \<open>Spin locks\<close>

record spinlock =
  sl_lock :: bool
  sl_holder :: u64

definition spinlock_init :: spinlock where
  "spinlock_init = \<lparr>sl_lock = False, sl_holder = 0\<rparr>"

datatype spin_result = Spin_Panic | Spin_Busy | Spin_Taken spinlock

text \<open>
  One attempt of \<open>spinlock_acquire\<close> by the thread with id \<open>cur\<close> (None before threads exist): the check
  for recursion, then the test-and-set.
\<close>

definition spinlock_acquire :: "u64 option \<Rightarrow> spinlock \<Rightarrow> spin_result" where
  "spinlock_acquire cur l =
     (if cur \<noteq> None \<and> sl_lock l \<and> Some (sl_holder l) = cur then Spin_Panic
      else if sl_lock l then Spin_Busy
      else Spin_Taken \<lparr>sl_lock = True, sl_holder = (case cur of Some i \<Rightarrow> i | None \<Rightarrow> 0)\<rparr>)"

definition spinlock_try_acquire_on :: "u64 option \<Rightarrow> spinlock \<Rightarrow> spinlock option" where
  "spinlock_try_acquire_on cur l =
     (if sl_lock l then None
      else Some \<lparr>sl_lock = True, sl_holder = (case cur of Some i \<Rightarrow> i | None \<Rightarrow> 0)\<rparr>)"

definition spinlock_release :: "spinlock \<Rightarrow> spinlock" where
  "spinlock_release l = l\<lparr>sl_holder := 0, sl_lock := False\<rparr>"

section \<open>Mutexes\<close>

record mutex =
  mx_locked :: bool
  mx_owner_tid :: u64
  mx_wait_queue :: wait_queue
  mx_orig_priority :: int

definition mutex_init :: mutex where
  "mutex_init = \<lparr>mx_locked = False, mx_owner_tid = 0, mx_wait_queue = wait_queue_init, mx_orig_priority = 0\<rparr>"

datatype lock_result = Locked mutex | Lock_Err err_t | Lock_Block sched

definition cur_id :: "sched \<Rightarrow> u64" where
  "cur_id s = (case current_thread s of Some t \<Rightarrow> t_id (thr s t) | None \<Rightarrow> 0)"

text \<open>The priority inheritance of \<open>mutex_lock\<close>: what the code calls boosting the owner.\<close>

definition boost_owner :: "mutex \<Rightarrow> sched \<Rightarrow> sched" where
  "boost_owner m s = (case current_thread s of
     None \<Rightarrow> s
   | Some cur \<Rightarrow>
       (case sched_find_thread_by_tid (mx_owner_tid m) s of
          None \<Rightarrow> s
        | Some own \<Rightarrow>
            if t_priority (thr s own) > t_priority (thr s cur)
            then sched_set_priority (Some own) (t_priority (thr s cur)) s else s))"

text \<open>
  One iteration of the loop of \<open>mutex_lock\<close>, started at time \<open>start\<close> (ns), at time \<open>now\<close>: it ends with the
  mutex taken, with an error, or goes on to \<open>sched_block\<close> on the wait queue.
\<close>

definition mutex_lock_iter :: "u64 \<Rightarrow> u64 \<Rightarrow> u64 \<Rightarrow> mutex \<Rightarrow> sched \<Rightarrow> lock_result" where
  "mutex_lock_iter timeout_ms start now m s =
     (let timeout_ns = (if timeout_ms = - 1 then - 1 else timeout_ms * 1000000) in
      if \<not> mx_locked m then
        Locked (m\<lparr>mx_locked := True, mx_owner_tid := cur_id s,
          mx_orig_priority := (case current_thread s of Some t \<Rightarrow> t_base_priority (thr s t) | None \<Rightarrow> mx_orig_priority m)\<rparr>)
      else if timeout_ms = 0 then Lock_Err ERR_BUSY
      else if timeout_ns \<noteq> - 1 \<and> now - start \<ge> timeout_ns then Lock_Err ERR_TIMEOUT
      else Lock_Block (boost_owner m s))"

text \<open>\<open>mutex_unlock\<close> up to \<open>m->locked = 0\<close>, and the rest, after which another thread may own the mutex.\<close>

definition mutex_unlock_release :: "mutex \<Rightarrow> sched \<Rightarrow> err_t + mutex" where
  "mutex_unlock_release m s =
     (if current_thread s \<noteq> None \<and> mx_owner_tid m \<noteq> cur_id s then Inl ERR_PERM
      else Inr (m\<lparr>mx_owner_tid := 0, mx_locked := False\<rparr>))"

definition mutex_unlock_finish :: "mutex \<Rightarrow> sched \<Rightarrow> mutex \<times> sched" where
  "mutex_unlock_finish m s =
     (let s1 = (case current_thread s of
                  None \<Rightarrow> s
                | Some cur \<Rightarrow>
                    if t_priority (thr s cur) \<noteq> mx_orig_priority m
                    then sched_set_priority (Some cur) (mx_orig_priority m) s else s)
      in case sched_wake (mx_wait_queue m) s1 of (wq, s2) \<Rightarrow> (m\<lparr>mx_wait_queue := wq\<rparr>, s2))"

definition mutex_unlock :: "mutex \<Rightarrow> sched \<Rightarrow> err_t \<times> mutex \<times> sched" where
  "mutex_unlock m s =
     (case mutex_unlock_release m s of
        Inl e \<Rightarrow> (e, m, s)
      | Inr m1 \<Rightarrow> (case mutex_unlock_finish m1 s of (m2, s2) \<Rightarrow> (ERR_OK, m2, s2)))"

section \<open>Condition variables\<close>

record condvar =
  cv_wait_queue :: wait_queue

definition condvar_init :: condvar where
  "condvar_init = \<lparr>cv_wait_queue = wait_queue_init\<rparr>"

text \<open>\<open>condvar_wait\<close> up to the point where it has blocked; it then runs \<open>mutex_lock\<close> without time-out.\<close>

definition condvar_wait :: "condvar \<Rightarrow> mutex \<Rightarrow> sched \<Rightarrow> (condvar \<times> mutex \<times> sched) option" where
  "condvar_wait cv m s =
     (case mutex_unlock m s of (_, m1, s1) \<Rightarrow>
        map_option (\<lambda>(wq, s2). (cv\<lparr>cv_wait_queue := wq\<rparr>, m1, s2)) (sched_block (cv_wait_queue cv) s1))"

definition condvar_signal :: "condvar \<Rightarrow> sched \<Rightarrow> condvar \<times> sched" where
  "condvar_signal cv s = (case sched_wake_one (cv_wait_queue cv) s of (wq, s1) \<Rightarrow> (cv\<lparr>cv_wait_queue := wq\<rparr>, s1))"

definition condvar_broadcast :: "condvar \<Rightarrow> sched \<Rightarrow> condvar \<times> sched" where
  "condvar_broadcast cv s = (case sched_wake (cv_wait_queue cv) s of (wq, s1) \<Rightarrow> (cv\<lparr>cv_wait_queue := wq\<rparr>, s1))"

section \<open>Read-write locks\<close>

text \<open>\<open>state\<close>: -1 a writer, 0 free, n > 0 readers. One attempt of each loop; None means try again.\<close>

record rwlock =
  rw_state :: int

definition rwlock_init :: rwlock where
  "rwlock_init = \<lparr>rw_state = 0\<rparr>"

definition rwlock_read_acquire :: "rwlock \<Rightarrow> rwlock option" where
  "rwlock_read_acquire rw = (if rw_state rw \<ge> 0 then Some (rw\<lparr>rw_state := rw_state rw + 1\<rparr>) else None)"

definition rwlock_read_release :: "rwlock \<Rightarrow> rwlock" where
  "rwlock_read_release rw = rw\<lparr>rw_state := rw_state rw - 1\<rparr>"

definition rwlock_write_acquire :: "rwlock \<Rightarrow> rwlock option" where
  "rwlock_write_acquire rw = (if rw_state rw = 0 then Some (rw\<lparr>rw_state := - 1\<rparr>) else None)"

definition rwlock_write_release :: "rwlock \<Rightarrow> rwlock" where
  "rwlock_write_release rw = rw\<lparr>rw_state := 0\<rparr>"

section \<open>Sequence locks\<close>

record seqlock =
  sq_sequence :: u64
  sq_lock :: spinlock

definition seqlock_init :: seqlock where
  "seqlock_init = \<lparr>sq_sequence = 0, sq_lock = spinlock_init\<rparr>"

text \<open>One read of the sequence number by \<open>seqlock_read_begin\<close>; None means a write is in progress.\<close>

definition seqlock_read_begin :: "seqlock \<Rightarrow> u64 option" where
  "seqlock_read_begin q = (if sq_sequence q AND 1 \<noteq> 0 then None else Some (sq_sequence q))"

definition seqlock_read_retry :: "seqlock \<Rightarrow> u64 \<Rightarrow> bool" where
  "seqlock_read_retry q start = (sq_sequence q \<noteq> start)"

definition seqlock_write_acquire :: "u64 option \<Rightarrow> seqlock \<Rightarrow> seqlock option" where
  "seqlock_write_acquire cur q = (case spinlock_acquire cur (sq_lock q) of
     Spin_Taken l \<Rightarrow> Some (q\<lparr>sq_lock := l, sq_sequence := sq_sequence q + 1\<rparr>) | _ \<Rightarrow> None)"

definition seqlock_write_release :: "seqlock \<Rightarrow> seqlock" where
  "seqlock_write_release q = q\<lparr>sq_sequence := sq_sequence q + 1, sq_lock := spinlock_release (sq_lock q)\<rparr>"

section \<open>Mutual exclusion of read-write locks\<close>

text \<open>
  \<open>rw_step\<close> runs the lock operations of many threads in any order; the two sets are the threads that
  hold the lock for reading and for writing.
\<close>

inductive rw_step :: "rwlock \<times> nat set \<times> nat set \<Rightarrow> rwlock \<times> nat set \<times> nat set \<Rightarrow> bool" where
  "rwlock_read_acquire rw = Some rw' \<Longrightarrow> t \<notin> R \<Longrightarrow> rw_step (rw, R, W) (rw', insert t R, W)"
| "t \<in> R \<Longrightarrow> rw_step (rw, R, W) (rwlock_read_release rw, R - {t}, W)"
| "rwlock_write_acquire rw = Some rw' \<Longrightarrow> rw_step (rw, R, W) (rw', R, insert t W)"
| "t \<in> W \<Longrightarrow> rw_step (rw, R, W) (rwlock_write_release rw, R, W - {t})"

definition rw_inv :: "rwlock \<times> nat set \<times> nat set \<Rightarrow> bool" where
  "rw_inv = (\<lambda>(rw, R, W). finite R \<and>
     (if rw_state rw = - 1 then R = {} \<and> (\<exists>t. W = {t}) else W = {} \<and> rw_state rw = int (card R)))"

lemma rw_step_inv: "rw_step x y \<Longrightarrow> rw_inv x \<Longrightarrow> rw_inv y"
proof (induction rule: rw_step.induct)
  case (1 rw rw' t R W)
  then show ?case
    by (auto simp: rw_inv_def rwlock_read_acquire_def split: if_splits)
next
  case (2 t R rw W)
  then have "card (R - {t}) = card R - 1" "card R > 0"
    by (auto simp: rw_inv_def card_gt_0_iff split: if_splits)
  then show ?case
    using 2 by (auto simp: rw_inv_def rwlock_read_release_def split: if_splits)
next
  case (3 rw rw' R W t)
  then show ?case
    by (auto simp: rw_inv_def rwlock_write_acquire_def split: if_splits)
next
  case (4 t W rw R)
  then show ?case
    by (auto simp: rw_inv_def rwlock_write_release_def split: if_splits)
qed

lemma rw_reach_inv: "rw_step\<^sup>*\<^sup>* x y \<Longrightarrow> rw_inv x \<Longrightarrow> rw_inv y"
  by (induction rule: rtranclp_induct) (auto intro: rw_step_inv)

text \<open>
  C14. A read-write lock that starts free is never held by two writers, nor by a writer and a reader,
  in any interleaving of its operations; its state word counts the readers.
\<close>

theorem rwlock_exclusion:
  assumes "rw_step\<^sup>*\<^sup>* (rwlock_init, {}, {}) (rw, R, W)"
  shows "finite R \<and> (W = {} \<or> (\<exists>t. W = {t}) \<and> R = {}) \<and> rw_state rw = (if W = {} then int (card R) else - 1)"
proof -
  have "rw_inv (rwlock_init, {}, {})" by (simp add: rw_inv_def rwlock_init_def)
  from rw_reach_inv [OF assms this] show ?thesis
    by (auto simp: rw_inv_def split: if_splits)
qed

theorem rwlock_exclusion_witness:
  "rw_step\<^sup>*\<^sup>* (rwlock_init, {}, {}) (\<lparr>rw_state = 1\<rparr>, {7}, {}) \<and> rw_state \<lparr>rw_state = 1\<rparr> = int (card {7::nat})"
proof -
  have "rw_step (rwlock_init, {}, {}) (\<lparr>rw_state = 1\<rparr>, insert 7 {}, {})"
    by (rule rw_step.intros(1)) (simp_all add: rwlock_init_def rwlock_read_acquire_def)
  then have r: "rw_step\<^sup>*\<^sup>* (rwlock_init, {}, {}) (\<lparr>rw_state = 1\<rparr>, {7}, {})" by blast
  then show ?thesis
    using rwlock_exclusion [OF r] by auto
qed

section \<open>Consistent reads under a sequence lock\<close>

text \<open>Writers between a reader's two looks at the sequence number: complete or unfinished writes.\<close>

inductive seq_step :: "seqlock \<Rightarrow> seqlock \<Rightarrow> bool" where
  acq: "seqlock_write_acquire cur q = Some q' \<Longrightarrow> seq_step q q'"
| rel: "sl_lock (sq_lock q) \<Longrightarrow> seq_step q (seqlock_write_release q)"

lemma seq_step_succ: "seq_step q q' \<Longrightarrow> sq_sequence q' = sq_sequence q + 1"
  by (induction rule: seq_step.induct)
    (auto simp: seqlock_write_acquire_def seqlock_write_release_def split: spin_result.splits)

lemma seq_steps: "(seq_step ^^ n) q q' \<Longrightarrow> sq_sequence q' = sq_sequence q + of_nat n"
proof (induction n arbitrary: q')
  case (Suc n)
  then obtain r where "(seq_step ^^ n) q r" "seq_step r q'" by auto
  then show ?case using Suc.IH seq_step_succ by (simp add: add.assoc)
qed simp

text \<open>The sequence number is odd exactly while a writer holds the lock.\<close>

definition seq_inv :: "seqlock \<Rightarrow> bool" where
  "seq_inv q \<longleftrightarrow> (sl_lock (sq_lock q) \<longleftrightarrow> odd (sq_sequence q))"

lemma seq_step_inv: "seq_step q q' \<Longrightarrow> seq_inv q \<Longrightarrow> seq_inv q'"
  by (induction rule: seq_step.induct)
    (auto simp: seq_inv_def seqlock_write_acquire_def seqlock_write_release_def spinlock_acquire_def
      spinlock_release_def split: spin_result.splits if_splits)

text \<open>
  A reader that starts when \<open>seqlock_read_begin\<close> succeeds and is not told to retry has not
  overlapped with a write: no writer held the lock at the start and no writer step happened in
  between, as long as fewer than 2^64 writer steps fall between the two looks.
\<close>

theorem seqlock_read_consistent:
  assumes "seq_inv q" "seqlock_read_begin q = Some start" "(seq_step ^^ n) q q'" "n < 2 ^ 64"
    "\<not> seqlock_read_retry q' start"
  shows "n = 0 \<and> q' = q \<and> \<not> sl_lock (sq_lock q)"
proof -
  have st: "start = sq_sequence q" "\<not> odd (sq_sequence q)"
    using assms(2) by (auto simp: seqlock_read_begin_def and_one_eq odd_iff_mod_2_eq_one split: if_splits)
  have "(of_nat n :: u64) = 0"
    using seq_steps [OF assms(3)] assms(5) st by (simp add: seqlock_read_retry_def)
  then have "unat (of_nat n :: u64) = 0" by simp
  then have "n = 0" using assms(4) by (simp only: unat_of_nat) (simp add: take_bit_nat_eq_self)
  then show ?thesis using assms(1,3) st by (simp add: seq_inv_def)
qed

theorem seqlock_read_consistent_witness:
  "seqlock_read_begin seqlock_init = Some 0 \<and> \<not> sl_lock (sq_lock seqlock_init)"
proof -
  have i: "seq_inv seqlock_init" by (simp add: seq_inv_def seqlock_init_def spinlock_init_def)
  have b: "seqlock_read_begin seqlock_init = Some 0" by (simp add: seqlock_read_begin_def seqlock_init_def)
  show ?thesis
    using seqlock_read_consistent [OF i b, of 0 seqlock_init] b by (simp add: seqlock_read_retry_def seqlock_init_def)
qed

section \<open>Mutexes exclude, but do not wake or inherit as intended\<close>

text \<open>
  \<open>mutex_step T ids\<close>: a thread of \<open>T\<close> takes or releases the mutex, or the wait queue changes; \<open>ids\<close> gives each
  thread its id. The set holds the threads that have taken the mutex and not released it.
\<close>

inductive mutex_step :: "nat set \<Rightarrow> (nat \<Rightarrow> u64) \<Rightarrow> mutex \<times> nat set \<Rightarrow> mutex \<times> nat set \<Rightarrow> bool" for T ids where
  lock: "mutex_lock_iter tm st now m s = Locked m' \<Longrightarrow> current_thread s = Some t \<Longrightarrow> t \<in> T \<Longrightarrow> t_id (thr s t) = ids t \<Longrightarrow>
    mutex_step T ids (m, H) (m', insert t H)"
| unlock: "mutex_unlock_release m s = Inr m' \<Longrightarrow> current_thread s = Some t \<Longrightarrow> t \<in> T \<Longrightarrow> t_id (thr s t) = ids t \<Longrightarrow>
    mutex_step T ids (m, H) (m', H - {t})"
| queue: "mutex_step T ids (m, H) (m\<lparr>mx_wait_queue := wq\<rparr>, H)"

definition mutex_inv :: "nat set \<Rightarrow> (nat \<Rightarrow> u64) \<Rightarrow> mutex \<times> nat set \<Rightarrow> bool" where
  "mutex_inv T ids = (\<lambda>(m, H). if mx_locked m then \<exists>t\<in>T. H = {t} \<and> mx_owner_tid m = ids t else H = {} \<and> mx_owner_tid m = 0)"

lemma mutex_step_inv:
  assumes "inj_on ids T" "\<And>t. t \<in> T \<Longrightarrow> ids t \<noteq> 0" "mutex_step T ids x y" "mutex_inv T ids x"
  shows "mutex_inv T ids y"
  using assms(3,4)
proof (induction rule: mutex_step.induct)
  case (lock tm st now m s m' t H)
  have "\<not> mx_locked m" "m' = m\<lparr>mx_locked := True, mx_owner_tid := cur_id s, mx_orig_priority := mx_orig_priority m'\<rparr>"
    using lock by (auto simp: mutex_lock_iter_def Let_def split: if_splits)
  then show ?case
    using lock by (auto simp: mutex_inv_def cur_id_def) (metis mutex.select_convs(1,2) mutex.surjective mutex.update_convs(1,2,4))+
next
  case (unlock m s m' t H)
  have m': "mx_owner_tid m = ids t" "m' = m\<lparr>mx_owner_tid := 0, mx_locked := False\<rparr>"
    using unlock by (auto simp: mutex_unlock_release_def cur_id_def split: if_splits)
  then show ?case
    using unlock assms(1,2) by (auto simp: mutex_inv_def inj_on_eq_iff split: if_splits)
next
  case (queue m H wq)
  then show ?case by (simp add: mutex_inv_def)
qed

text \<open>
  C15. At most one thread owns a mutex, in any interleaving of lock and unlock calls; only the owner's
  unlock succeeds.
\<close>

theorem mutex_exclusion:
  assumes "inj_on ids T" "\<forall>t\<in>T. ids t \<noteq> 0" "(mutex_step T ids)\<^sup>*\<^sup>* (mutex_init, {}) (m, H)"
  shows "if mx_locked m then \<exists>t. H = {t} \<and> mx_owner_tid m = ids t else H = {}"
proof -
  have "mutex_inv T ids (m, H)"
    using assms(3)
  proof (induction rule: rtranclp_induct2)
    case refl
    then show ?case by (simp add: mutex_inv_def mutex_init_def)
  next
    case (step m1 H1 m2 H2)
    then show ?case using mutex_step_inv [OF assms(1)] assms(2) by blast
  qed
  then show ?thesis by (auto simp: mutex_inv_def split: if_splits)
qed

lemma boot_current: "current_thread boot_state = Some 2" "cur_id boot_state = 3"
  by (simp_all add: current_thread_def cur_id_def boot_state_def boot_pcp_def boot_thr_def MAX_CPUS_def)

theorem mutex_exclusion_witness:
  "\<exists>m. (mutex_step {2} (\<lambda>_. 3))\<^sup>*\<^sup>* (mutex_init, {}) (m, {2}) \<and> mx_locked m"
proof -
  obtain m where m: "mutex_lock_iter 0 0 0 mutex_init boot_state = Locked m" "mx_locked m"
    by (simp add: mutex_lock_iter_def mutex_init_def)
  have "mutex_step {2} (\<lambda>_. 3) (mutex_init, {}) (m, insert 2 {})"
    by (rule mutex_step.lock [OF m(1) boot_current(1)]) (simp_all add: boot_state_def boot_thr_def)
  then have r: "(mutex_step {2} (\<lambda>_. 3))\<^sup>*\<^sup>* (mutex_init, {}) (m, {2})" by blast
  show ?thesis
    using mutex_exclusion [OF _ _ r] r m(2) by auto
qed

text \<open>
  Between a failed attempt to take a mutex and the call to \<open>sched_block\<close> the owner can unlock: it
  finds nobody to wake, and the caller then blocks on a mutex that is free.
\<close>

theorem mutex_lost_wakeup:
  assumes "mutex_lock_iter tm st now m s = Lock_Block s1" "mx_wait_queue m = wait_queue_init"
    and "mutex_unlock m s2 = (ERR_OK, m', s3)" "enter_wait a (mx_wait_queue m') s3 = (wq, s4)"
  shows "\<not> mx_locked m' \<and> mx_wait_queue m' = wait_queue_init \<and> wq_waiters wq = Some a \<and>
    t_state (thr s4 a) = THREAD_BLOCKED"
proof -
  have "m' = m\<lparr>mx_owner_tid := 0, mx_locked := False, mx_wait_queue := wait_queue_init\<rparr>"
    using assms(2,3)
    by (auto simp: mutex_unlock_def mutex_unlock_release_def mutex_unlock_finish_def Let_def sched_wake_def
        wait_queue_init_def split: if_splits)
  then show ?thesis
    using assms(4) by (auto simp: enter_wait_def Let_def)
qed

definition locked_mutex :: mutex where
  "locked_mutex = \<lparr>mx_locked = True, mx_owner_tid = 3, mx_wait_queue = wait_queue_init, mx_orig_priority = 128\<rparr>"

theorem mutex_lost_wakeup_witness:
  "\<exists>m' s3 wq s4. mutex_unlock locked_mutex boot_state = (ERR_OK, m', s3) \<and> \<not> mx_locked m' \<and>
     enter_wait 4 (mx_wait_queue m') s3 = (wq, s4) \<and> t_state (thr s4 4) = THREAD_BLOCKED"
proof -
  obtain s1 where 1: "mutex_lock_iter (- 1) 0 0 locked_mutex boot_state = Lock_Block s1"
    by (simp add: mutex_lock_iter_def locked_mutex_def)
  have wq: "mx_wait_queue locked_mutex = wait_queue_init" by (simp add: locked_mutex_def)
  obtain m' s3 where "mutex_unlock_finish (locked_mutex\<lparr>mx_owner_tid := 0, mx_locked := False\<rparr>) boot_state = (m', s3)"
    by fastforce
  then have 2: "mutex_unlock locked_mutex boot_state = (ERR_OK, m', s3)"
    by (simp add: mutex_unlock_def mutex_unlock_release_def boot_current) (simp add: locked_mutex_def)
  obtain w s4 where 3: "enter_wait 4 (mx_wait_queue m') s3 = (w, s4)" by fastforce
  show ?thesis
    using mutex_lost_wakeup [OF 1 wq 2 3] 2 3 by blast
qed

text \<open>
  Priority inheritance works the wrong way round: a waiter of lower priority lowers the owner's
  priority to its own, and a waiter of higher priority leaves it unchanged. Larger numbers are
  higher priorities.
\<close>

theorem mutex_inheritance_inverted:
  assumes "current_thread s = Some a" "sched_find_thread_by_tid (mx_owner_tid m) s = Some own"
    "t_state (thr s own) \<noteq> THREAD_READY" "0 \<le> t_priority (thr s a)" "t_priority (thr s a) \<le> THREAD_MAX_PRIO"
  shows "t_priority (thr (boost_owner m s) own) = min (t_priority (thr s own)) (t_priority (thr s a))"
  using assms by (auto simp: boost_owner_def sched_set_priority_def)

definition inherit_demo :: sched where
  "inherit_demo = boot_state\<lparr>all_head := Some 3, all_count := 1, thr := boot_thr(2 := (boot_thr 2)\<lparr>t_priority := 10\<rparr>)\<rparr>"

theorem mutex_inheritance_inverted_witness:
  "t_priority (thr inherit_demo 3) = 128 \<and> t_priority (thr (boost_owner (locked_mutex\<lparr>mx_owner_tid := 4\<rparr>) inherit_demo) 3) = 10"
proof -
  have c: "current_thread inherit_demo = Some 2"
    by (simp add: current_thread_def inherit_demo_def boot_state_def boot_pcp_def MAX_CPUS_def)
  have f: "sched_find_thread_by_tid (mx_owner_tid (locked_mutex\<lparr>mx_owner_tid := 4\<rparr>)) inherit_demo = Some 3"
    by (simp add: sched_find_thread_by_tid_def all_threads_list_def inherit_demo_def boot_state_def boot_thr_def)
  have p: "t_state (thr inherit_demo 3) \<noteq> THREAD_READY" "t_priority (thr inherit_demo 2) = 10" "t_priority (thr inherit_demo 3) = 128"
    by (simp_all add: inherit_demo_def boot_thr_def)
  show ?thesis
    using mutex_inheritance_inverted [OF c f p(1)] p(2,3) by (simp add: THREAD_MAX_PRIO_def)
qed

end
