(* ===== verification/Pipe.thy ===== *)
theory Pipe
  imports Sched_Props
begin

text \<open>
  Pipes (\<^verbatim>\<open>kernel/pipe.c\<close>): a ring buffer of 4096 bytes with reader and writer wait queues. The bodies
  of the loops of \<open>pipe_read\<close> and \<open>pipe_write\<close> run under the pipe's lock; each iteration is one function
  here, and readers and writers may interleave between iterations.
\<close>

section \<open>The pipe\<close>

definition PIPE_BUF_SIZE :: nat where
  "PIPE_BUF_SIZE = 4096"

record pipe =
  p_buf :: "u8 list"
  p_read_pos :: nat
  p_write_pos :: nat
  p_count :: nat
  p_readers :: wait_queue
  p_writers :: wait_queue
  p_read_closed :: bool
  p_write_closed :: bool
  p_refcount :: int

definition new_pipe :: pipe where
  "new_pipe = \<lparr>p_buf = replicate PIPE_BUF_SIZE 0, p_read_pos = 0, p_write_pos = 0, p_count = 0,
     p_readers = wait_queue_init, p_writers = wait_queue_init, p_read_closed = False,
     p_write_closed = False, p_refcount = 2\<rparr>"

section \<open>Reading and writing\<close>

text \<open>The copy loops; \<open>chunk\<close> iterations take bytes out at \<open>read_pos\<close> or put them in at \<open>write_pos\<close>.\<close>

fun take_loop :: "nat \<Rightarrow> pipe \<Rightarrow> u8 list \<times> pipe" where
  "take_loop 0 p = ([], p)"
| "take_loop (Suc n) p =
     (case take_loop n (p\<lparr>p_read_pos := (p_read_pos p + 1) mod PIPE_BUF_SIZE\<rparr>) of
        (bs, p') \<Rightarrow> (p_buf p ! p_read_pos p # bs, p'))"

fun put_loop :: "u8 list \<Rightarrow> pipe \<Rightarrow> pipe" where
  "put_loop [] p = p"
| "put_loop (b # bs) p =
     put_loop bs (p\<lparr>p_buf := (p_buf p)[p_write_pos p := b], p_write_pos := (p_write_pos p + 1) mod PIPE_BUF_SIZE\<rparr>)"

datatype read_result =
    Read_Data "u8 list" pipe sched
  | Read_End
  | Read_Block

text \<open>
  One iteration of \<open>pipe_read\<close> with \<open>want\<close> bytes still missing and \<open>got\<close> already copied. \<open>Read_End\<close> leaves
  the loop, \<open>Read_Block\<close> is the call to \<open>sched_block\<close> on the readers' queue.
\<close>

definition pipe_read_iter :: "nat \<Rightarrow> nat \<Rightarrow> pipe \<Rightarrow> sched \<Rightarrow> read_result" where
  "pipe_read_iter want got p s =
     (if p_count p > 0 then
        (let chunk = (if want > p_count p then p_count p else want)
         in case take_loop chunk p of (bs, p1) \<Rightarrow>
              (let p2 = p1\<lparr>p_count := p_count p1 - chunk\<rparr>
               in if wq_waiters (p_writers p2) \<noteq> None
                  then (case sched_wake (p_writers p2) s of (wq, s1) \<Rightarrow> Read_Data bs (p2\<lparr>p_writers := wq\<rparr>) s1)
                  else Read_Data bs p2 s))
      else if p_write_closed p then Read_End
      else if got > 0 then Read_End
      else Read_Block)"

datatype write_result =
    Write_Data nat pipe sched
  | Write_Err
  | Write_Block

text \<open>One iteration of \<open>pipe_write\<close>; \<open>bs\<close> are the bytes still to be written.\<close>

definition pipe_write_iter :: "u8 list \<Rightarrow> pipe \<Rightarrow> sched \<Rightarrow> write_result" where
  "pipe_write_iter bs p s =
     (if p_read_closed p then Write_Err
      else if p_count p < PIPE_BUF_SIZE then
        (let room = PIPE_BUF_SIZE - p_count p;
             chunk = (if length bs > room then room else length bs);
             p1 = put_loop (take chunk bs) p;
             p2 = p1\<lparr>p_count := p_count p1 + chunk\<rparr>
         in if wq_waiters (p_readers p2) \<noteq> None
            then (case sched_wake (p_readers p2) s of (wq, s1) \<Rightarrow> Write_Data chunk (p2\<lparr>p_readers := wq\<rparr>) s1)
            else Write_Data chunk p2 s)
      else Write_Block)"

text \<open>
  \<open>pipe_read\<close> and \<open>pipe_write\<close> without interference, as loops with fuel: the bytes read and the state, or
  None when the call blocks. Each iteration copies at least one byte or leaves the loop, so the number
  of bytes asked for plus one is enough.
\<close>

fun pipe_read :: "nat \<Rightarrow> nat \<Rightarrow> u8 list \<Rightarrow> pipe \<Rightarrow> sched \<Rightarrow> (u8 list \<times> pipe \<times> sched) option" where
  "pipe_read 0 want acc p s = None"
| "pipe_read (Suc fuel) want acc p s =
     (if want = 0 then Some (acc, p, s)
      else case pipe_read_iter want (length acc) p s of
        Read_Data bs p1 s1 \<Rightarrow> pipe_read fuel (want - length bs) (acc @ bs) p1 s1
      | Read_End \<Rightarrow> Some (acc, p, s)
      | Read_Block \<Rightarrow> None)"

fun pipe_write :: "nat \<Rightarrow> u8 list \<Rightarrow> nat \<Rightarrow> pipe \<Rightarrow> sched \<Rightarrow> (int \<times> pipe \<times> sched) option" where
  "pipe_write 0 bs n p s = None"
| "pipe_write (Suc fuel) bs n p s =
     (if bs = [] then Some (int n, p, s)
      else case pipe_write_iter bs p s of
        Write_Data k p1 s1 \<Rightarrow> pipe_write fuel (drop k bs) (n + k) p1 s1
      | Write_Err \<Rightarrow> Some (- 1, p, s)
      | Write_Block \<Rightarrow> None)"

section \<open>Closing, polling, creating\<close>

text \<open>\<open>pipe_close\<close> on the read node (flag 1) or the write node.\<close>

definition pipe_close :: "bool \<Rightarrow> pipe \<Rightarrow> sched \<Rightarrow> pipe \<times> sched" where
  "pipe_close is_read p s =
     (let p1 = (if is_read then p\<lparr>p_read_closed := True\<rparr> else p\<lparr>p_write_closed := True\<rparr>)
      in if p_read_closed p1 \<and> p_write_closed p1
         then (case sched_wake (p_readers p1) s of (rq, s1) \<Rightarrow>
                 (case sched_wake (p_writers p1) s1 of (wq, s2) \<Rightarrow> (p1\<lparr>p_readers := rq, p_writers := wq\<rparr>, s2)))
         else (p1, s))"

text \<open>\<open>pipe_destructor\<close>: True when the pipe is freed.\<close>

definition pipe_destructor :: "pipe \<Rightarrow> bool \<times> pipe" where
  "pipe_destructor p = (p_refcount p = 1, p\<lparr>p_refcount := p_refcount p - 1\<rparr>)"

definition POLLIN :: u32 where "POLLIN = 0x001"
definition POLLOUT :: u32 where "POLLOUT = 0x004"
definition POLLHUP :: u32 where "POLLHUP = 0x010"
definition POLLNVAL :: u32 where "POLLNVAL = 0x020"

definition pipe_poll :: "u32 \<Rightarrow> pipe option \<Rightarrow> int \<times> u32" where
  "pipe_poll events op = (case op of
     None \<Rightarrow> (- 1, POLLNVAL)
   | Some p \<Rightarrow>
       (0, (if events AND POLLIN \<noteq> 0 \<and> p_count p > 0 then POLLIN else 0) OR
           (if events AND POLLOUT \<noteq> 0 \<and> \<not> p_read_closed p then POLLOUT else 0) OR
           (if p_write_closed p then POLLHUP else 0)))"

record vfs_fd =
  fd_node :: nat
  fd_offset :: u64
  fd_flags :: int
  fd_used :: bool

definition VFS_MAX_FDS :: nat where
  "VFS_MAX_FDS = 128"

definition O_RDONLY :: int where "O_RDONLY = 0"
definition O_WRONLY :: int where "O_WRONLY = 1"

definition install_fd :: "nat \<Rightarrow> int \<Rightarrow> vfs_fd list \<Rightarrow> (nat \<times> vfs_fd list) option" where
  "install_fd node flags ft =
     (case find_idx (\<lambda>f. \<not> fd_used f) ft of
        None \<Rightarrow> None
      | Some i \<Rightarrow> Some (i, ft[i := \<lparr>fd_node = node, fd_offset = 0, fd_flags = flags, fd_used = True\<rparr>]))"

text \<open>
  \<open>pipe_create\<close> with the results of its three allocations (the pipe, the read node \<open>rn\<close>, the write node
  \<open>wn\<close>) and the values the caller's array \<open>fds\<close> holds on entry. It returns the result, the array, the
  descriptor table, the pipe if it has been set up and not freed, and whether the nodes were freed.
\<close>

definition pipe_create ::
  "bool \<Rightarrow> nat option \<Rightarrow> nat option \<Rightarrow> nat \<times> nat \<Rightarrow> vfs_fd list \<Rightarrow> sched \<Rightarrow>
   int \<times> (nat \<times> nat) \<times> vfs_fd list \<times> pipe option \<times> bool" where
  "pipe_create have_p rnode wnode fds ft s =
     (if \<not> have_p then (- 1, fds, ft, None, True)
      else case rnode of
        None \<Rightarrow> (- 1, fds, ft, None, True)
      | Some rn \<Rightarrow>
          (case wnode of
             None \<Rightarrow> (- 1, fds, ft, None, True)
           | Some wn \<Rightarrow>
               (let (fd0, ft1) = (case install_fd rn O_RDONLY ft of Some (i, f) \<Rightarrow> (i, f) | None \<Rightarrow> (fst fds, ft))
                in case install_fd wn O_WRONLY ft1 of
                     Some (j, ft2) \<Rightarrow> (0, (fd0, j), ft2, Some new_pipe, False)
                   | None \<Rightarrow>
                       (- 1, (fd0, snd fds), ft1[fd0 := (ft1 ! fd0)\<lparr>fd_used := False\<rparr>],
                        Some (fst (pipe_close False (fst (pipe_close True new_pipe s)) s)), True))))"

section \<open>The ring buffer as a queue of bytes\<close>

definition pipe_bytes :: "pipe \<Rightarrow> u8 list" where
  "pipe_bytes p = map (\<lambda>i. p_buf p ! ((p_read_pos p + i) mod PIPE_BUF_SIZE)) [0..<p_count p]"

definition pipe_wf :: "pipe \<Rightarrow> bool" where
  "pipe_wf p \<longleftrightarrow> length (p_buf p) = PIPE_BUF_SIZE \<and> p_read_pos p < PIPE_BUF_SIZE \<and> p_count p \<le> PIPE_BUF_SIZE \<and>
     p_write_pos p = (p_read_pos p + p_count p) mod PIPE_BUF_SIZE"

lemma size_pos [simp]: "0 < PIPE_BUF_SIZE"
  by (simp add: PIPE_BUF_SIZE_def)

lemma take_loop_eq:
  "p_read_pos p < PIPE_BUF_SIZE \<Longrightarrow>
   take_loop n p = (map (\<lambda>i. p_buf p ! ((p_read_pos p + i) mod PIPE_BUF_SIZE)) [0..<n],
     p\<lparr>p_read_pos := (p_read_pos p + n) mod PIPE_BUF_SIZE\<rparr>)"
proof (induction n arbitrary: p)
  case 0
  then show ?case by simp
next
  case (Suc n)
  let ?p = "p\<lparr>p_read_pos := (p_read_pos p + 1) mod PIPE_BUF_SIZE\<rparr>"
  have IH: "take_loop n ?p = (map (\<lambda>i. p_buf ?p ! ((p_read_pos ?p + i) mod PIPE_BUF_SIZE)) [0..<n],
     ?p\<lparr>p_read_pos := (p_read_pos ?p + n) mod PIPE_BUF_SIZE\<rparr>)"
    by (rule Suc.IH) simp
  have "((p_read_pos p + 1) mod PIPE_BUF_SIZE + i) mod PIPE_BUF_SIZE = (p_read_pos p + Suc i) mod PIPE_BUF_SIZE" for i
    by (simp add: mod_simps)
  then have m: "map (\<lambda>i. p_buf ?p ! ((p_read_pos ?p + i) mod PIPE_BUF_SIZE)) [0..<n] =
      map (\<lambda>i. p_buf p ! ((p_read_pos p + Suc i) mod PIPE_BUF_SIZE)) [0..<n]" by simp
  have "map (\<lambda>i. p_buf p ! ((p_read_pos p + i) mod PIPE_BUF_SIZE)) [0..<Suc n] =
      p_buf p ! p_read_pos p # map (\<lambda>i. p_buf p ! ((p_read_pos p + Suc i) mod PIPE_BUF_SIZE)) [0..<n]"
    unfolding upt_conv_Cons [OF zero_less_Suc] using Suc.prems by (simp add: map_Suc_upt [symmetric] del: upt_Suc)
  then show ?case
    using IH m by (simp add: mod_simps del: upt_Suc)
qed

lemma mod_add_inj:
  assumes "(a + i) mod n = (a + j) mod n" "i < n" "j < (n::nat)" shows "i = j"
proof -
  have le: "x = y" if "(a + x) mod n = (a + y) mod n" "x \<le> y" "y < n" for x y
  proof -
    have "n dvd y - x"
      using that mod_eq_dvd_iff_nat [of "a + x" "a + y" n] by simp
    then show ?thesis
      using that by (meson diff_is_0_eq dvd_imp_le leD le_antisym less_imp_diff_less not_gr_zero)
  qed
  show ?thesis
    using le [of i j] le [of j i] assms by (metis nat_le_linear)
qed

lemma put_loop_eq:
  assumes "p_write_pos p < PIPE_BUF_SIZE" "length (p_buf p) = PIPE_BUF_SIZE" "length bs \<le> PIPE_BUF_SIZE"
  shows "\<exists>B. put_loop bs p = p\<lparr>p_buf := B, p_write_pos := (p_write_pos p + length bs) mod PIPE_BUF_SIZE\<rparr> \<and>
    length B = PIPE_BUF_SIZE \<and>
    (\<forall>i<PIPE_BUF_SIZE. B ! ((p_write_pos p + i) mod PIPE_BUF_SIZE) =
       (if i < length bs then bs ! i else p_buf p ! ((p_write_pos p + i) mod PIPE_BUF_SIZE)))"
  using assms
proof (induction bs arbitrary: p)
  case Nil
  then show ?case by (intro exI [of _ "p_buf p"]) simp
next
  case (Cons b bs)
  let ?N = PIPE_BUF_SIZE
  let ?wp = "p_write_pos p"
  let ?p = "p\<lparr>p_buf := (p_buf p)[?wp := b], p_write_pos := (?wp + 1) mod ?N\<rparr>"
  have sh: "((?wp + 1) mod ?N + i) mod ?N = (?wp + Suc i) mod ?N" for i by (simp add: mod_simps)
  obtain B where B: "put_loop bs ?p = ?p\<lparr>p_buf := B, p_write_pos := (p_write_pos ?p + length bs) mod ?N\<rparr>" "length B = ?N"
    "\<And>i. i < ?N \<Longrightarrow> B ! ((?wp + Suc i) mod ?N) =
       (if i < length bs then bs ! i else (p_buf p)[?wp := b] ! ((?wp + Suc i) mod ?N))"
    using Cons.IH [of ?p] Cons.prems sh by auto
  have "B ! ((?wp + i) mod ?N) = (if i < length (b # bs) then (b # bs) ! i else p_buf p ! ((?wp + i) mod ?N))"
    if i: "i < ?N" for i
  proof (cases i)
    case 0
    have m: "(?wp + Suc (?N - 1)) mod ?N = ?wp" using Cons.prems(1) by simp
    have "\<not> ?N - 1 < length bs" using Cons.prems(3) by (simp add: not_less le_diff_conv2)
    then have "B ! ?wp = (p_buf p)[?wp := b] ! ?wp"
      using B(3) [of "?N - 1", unfolded m] by simp
    then show ?thesis
      using Cons.prems 0 by simp
  next
    case (Suc j)
    have "(?wp + Suc j) mod ?N \<noteq> ?wp"
      using mod_add_inj [of ?wp "Suc j" ?N 0] i Suc Cons.prems(1) by auto
    then show ?thesis
      using B(3) [of j] i Suc by auto
  qed
  then show ?case
    using B(1,2) sh [of "length bs"] by (intro exI [of _ B]) simp
qed

lemma pipe_take:
  assumes w: "pipe_wf p" and n: "n \<le> p_count p" and t: "take_loop n p = (bs, p1)"
  shows "pipe_bytes p = bs @ pipe_bytes (p1\<lparr>p_count := p_count p1 - n\<rparr>)" "pipe_wf (p1\<lparr>p_count := p_count p1 - n\<rparr>)"
    "length bs = n" "p_count p1 = p_count p"
proof -
  let ?N = PIPE_BUF_SIZE
  have e: "bs = map (\<lambda>i. p_buf p ! ((p_read_pos p + i) mod ?N)) [0..<n]"
      "p1 = p\<lparr>p_read_pos := (p_read_pos p + n) mod ?N\<rparr>"
    using take_loop_eq [of p n] w t by (auto simp: pipe_wf_def)
  have "map (\<lambda>i. p_buf p ! ((p_read_pos p + i) mod ?N)) [n..<p_count p] =
      map (\<lambda>i. p_buf p ! (((p_read_pos p + n) mod ?N + i) mod ?N)) [0..<p_count p - n]"
    by (rule nth_equalityI) (simp_all add: mod_simps add.assoc)
  moreover have "[0..<p_count p] = [0..<n] @ [n..<p_count p]" using n by (metis le0 le_add_diff_inverse upt_add_eq_append)
  ultimately show "pipe_bytes p = bs @ pipe_bytes (p1\<lparr>p_count := p_count p1 - n\<rparr>)"
    by (simp add: pipe_bytes_def e)
  show "pipe_wf (p1\<lparr>p_count := p_count p1 - n\<rparr>)"
  proof -
    have "((p_read_pos p + n) mod ?N + (p_count p - n)) mod ?N = (p_read_pos p + n + (p_count p - n)) mod ?N"
      by (simp only: mod_add_left_eq)
    also have "p_read_pos p + n + (p_count p - n) = p_read_pos p + p_count p"
      using n by simp
    finally have "((p_read_pos p + n) mod ?N + (p_count p - n)) mod ?N = (p_read_pos p + p_count p) mod ?N" .
    then show ?thesis
      using w n unfolding pipe_wf_def e by (auto intro: le_trans [OF diff_le_self])
  qed
  show "length bs = n" "p_count p1 = p_count p" by (simp_all add: e)
qed

lemma pipe_put:
  assumes w: "pipe_wf p" and n: "length bs \<le> PIPE_BUF_SIZE - p_count p"
  defines "p1 \<equiv> put_loop bs p"
  shows "pipe_bytes (p1\<lparr>p_count := p_count p1 + length bs\<rparr>) = pipe_bytes p @ bs"
    "pipe_wf (p1\<lparr>p_count := p_count p1 + length bs\<rparr>)" "p_readers p1 = p_readers p" "p_count p1 = p_count p"
proof -
  let ?N = PIPE_BUF_SIZE
  have wp: "p_write_pos p = (p_read_pos p + p_count p) mod ?N" using w by (simp add: pipe_wf_def)
  obtain B where B: "p1 = p\<lparr>p_buf := B, p_write_pos := (p_write_pos p + length bs) mod ?N\<rparr>" "length B = ?N"
    "\<And>i. i < ?N \<Longrightarrow> B ! ((p_write_pos p + i) mod ?N) =
       (if i < length bs then bs ! i else p_buf p ! ((p_write_pos p + i) mod ?N))"
    using put_loop_eq [of p bs] w n unfolding p1_def pipe_wf_def by force
  have new: "B ! ((p_read_pos p + (p_count p + i)) mod ?N) = bs ! i" if "i < length bs" for i
    using B(3) [of i] that n by (simp add: wp mod_simps add.assoc)
  have old: "B ! ((p_read_pos p + i) mod ?N) = p_buf p ! ((p_read_pos p + i) mod ?N)" if i: "i < p_count p" for i
  proof -
    have c: "p_count p \<le> ?N" using w by (simp add: pipe_wf_def)
    have "(p_write_pos p + (?N - p_count p + i)) mod ?N = (p_read_pos p + p_count p + (?N - p_count p + i)) mod ?N"
      unfolding wp by (simp only: mod_add_left_eq)
    also have "p_read_pos p + p_count p + (?N - p_count p + i) = p_read_pos p + i + ?N"
      using c by simp
    finally have "(p_write_pos p + (?N - p_count p + i)) mod ?N = (p_read_pos p + i) mod ?N"
      by simp
    moreover have "?N - p_count p + i < ?N" "\<not> ?N - p_count p + i < length bs"
      using i n c by linarith+
    ultimately show ?thesis
      using B(3) [of "?N - p_count p + i"] by presburger
  qed
  show "pipe_bytes (p1\<lparr>p_count := p_count p1 + length bs\<rparr>) = pipe_bytes p @ bs"
  proof (rule nth_equalityI)
    fix j assume "j < length (pipe_bytes (p1\<lparr>p_count := p_count p1 + length bs\<rparr>))"
    then have "j < p_count p + length bs" by (simp add: pipe_bytes_def B(1))
    then show "pipe_bytes (p1\<lparr>p_count := p_count p1 + length bs\<rparr>) ! j = (pipe_bytes p @ bs) ! j"
      using old [of j] new [of "j - p_count p"]
      by (cases "j < p_count p") (auto simp: pipe_bytes_def B(1) nth_append)
  qed (simp add: pipe_bytes_def B(1))
  show "pipe_wf (p1\<lparr>p_count := p_count p1 + length bs\<rparr>)"
  proof -
    have "p_count p + length bs \<le> ?N" using w n by (auto simp: pipe_wf_def)
    then show ?thesis using w B(2) by (simp add: pipe_wf_def B(1) mod_simps add.assoc)
  qed
  show "p_readers p1 = p_readers p" "p_count p1 = p_count p" by (simp_all add: B(1))
qed

section \<open>First in, first out\<close>

lemma read_iter_data:
  assumes w: "pipe_wf p" and r: "pipe_read_iter want got p s = Read_Data bs p' s'"
  shows "pipe_bytes p = bs @ pipe_bytes p'" "pipe_wf p'" "length bs = min want (p_count p)" "0 < p_count p"
    "p_write_closed p' = p_write_closed p" "p_read_closed p' = p_read_closed p" "p_count p' = p_count p - length bs"
proof -
  let ?n = "min want (p_count p)"
  have pos: "0 < p_count p" using r by (auto simp: pipe_read_iter_def split: if_splits)
  obtain bs' p1 where t: "take_loop ?n p = (bs', p1)" by fastforce
  have ch: "(if want > p_count p then p_count p else want) = ?n" by simp
  have e: "bs' = bs" and p'': "p' = p1\<lparr>p_count := p_count p1 - ?n, p_writers := p_writers p'\<rparr>"
    using r pos t unfolding pipe_read_iter_def ch
    by (auto simp: Let_def split: if_splits prod.splits intro!: pipe.equality)
  obtain wq where p': "p' = p1\<lparr>p_count := p_count p1 - ?n, p_writers := wq\<rparr>" using p'' by blast
  note pt = pipe_take [OF w _ t]
  have "p1 = p\<lparr>p_read_pos := (p_read_pos p + ?n) mod PIPE_BUF_SIZE\<rparr>"
    using take_loop_eq [of p ?n] w t by (auto simp: pipe_wf_def)
  then show "p_write_closed p' = p_write_closed p" "p_read_closed p' = p_read_closed p" by (simp_all add: p')
  show "pipe_bytes p = bs @ pipe_bytes p'" "pipe_wf p'" "length bs = ?n" "0 < p_count p" "p_count p' = p_count p - length bs"
    using pt e pos by (simp_all add: p' pipe_bytes_def pipe_wf_def)
qed

lemma write_iter_data:
  assumes w: "pipe_wf p" and r: "pipe_write_iter bs p s = Write_Data k p' s'"
  shows "pipe_bytes p' = pipe_bytes p @ take k bs" "pipe_wf p'" "k = min (length bs) (PIPE_BUF_SIZE - p_count p)"
    "p_count p < PIPE_BUF_SIZE" "p_count p' = p_count p + k"
proof -
  let ?k = "min (length bs) (PIPE_BUF_SIZE - p_count p)"
  let ?p1 = "put_loop (take ?k bs) p"
  have pos: "p_count p < PIPE_BUF_SIZE" "\<not> p_read_closed p"
    using r by (auto simp: pipe_write_iter_def split: if_splits)
  have ch: "(if length bs > PIPE_BUF_SIZE - p_count p then PIPE_BUF_SIZE - p_count p else length bs) = ?k" by simp
  define n q where "n = ?k" and "q = ?p1\<lparr>p_count := p_count ?p1 + ?k\<rparr>"
  obtain wq s1 where wk: "sched_wake (p_readers q) s = (wq, s1)" by fastforce
  have "pipe_write_iter bs p s = (if wq_waiters (p_readers q) \<noteq> None then Write_Data n (q\<lparr>p_readers := wq\<rparr>) s1
      else Write_Data n q s)"
    unfolding pipe_write_iter_def Let_def ch n_def using pos wk by (simp add: q_def [symmetric])
  then have "k = n \<and> (p' = q\<lparr>p_readers := wq\<rparr> \<or> p' = q\<lparr>p_readers := p_readers q\<rparr>)"
    using r by (auto split: if_splits)
  then have e: "k = ?k" and p'': "\<exists>wq. p' = ?p1\<lparr>p_count := p_count ?p1 + ?k, p_readers := wq\<rparr>"
    unfolding n_def q_def by blast+
  obtain wq where p': "p' = ?p1\<lparr>p_count := p_count ?p1 + ?k, p_readers := wq\<rparr>" using p'' by blast
  have "length (take ?k bs) \<le> PIPE_BUF_SIZE - p_count p" by simp
  note pp = pipe_put [OF w this]
  have lk: "length (take ?k bs) = ?k" by simp
  have q: "pipe_bytes p' = pipe_bytes q" "pipe_wf p' = pipe_wf q" "p_count p' = p_count ?p1 + ?k"
    by (simp_all only: p' q_def) (simp_all add: pipe_bytes_def pipe_wf_def)
  show "pipe_bytes p' = pipe_bytes p @ take k bs" "pipe_wf p'" "k = ?k" "p_count p < PIPE_BUF_SIZE" "p_count p' = p_count p + k"
    using pp(1,2,4) [unfolded lk] pos(1) by (simp_all only: q q_def e)
qed

text \<open>
  \<open>pipe_step\<close>: one iteration of some reader or writer, a reader or writer queueing up, or the closing of
  one end. The two lists are all bytes accepted from writers and all bytes handed to readers.
\<close>

inductive pipe_step :: "pipe \<times> u8 list \<times> u8 list \<Rightarrow> pipe \<times> u8 list \<times> u8 list \<Rightarrow> bool" where
  rd: "pipe_read_iter want got p s = Read_Data bs p' s' \<Longrightarrow> pipe_step (p, W, R) (p', W, R @ bs)"
| wr: "pipe_write_iter bs p s = Write_Data k p' s' \<Longrightarrow> pipe_step (p, W, R) (p', W @ take k bs, R)"
| wait: "pipe_step (p, W, R) (p\<lparr>p_readers := rq, p_writers := wq\<rparr>, W, R)"
| close: "pipe_close e p s = (p', s') \<Longrightarrow> pipe_step (p, W, R) (p', W, R)"

lemma pipe_close_bytes:
  "pipe_close e p s = (p', s') \<Longrightarrow> pipe_bytes p' = pipe_bytes p \<and> (pipe_wf p' \<longleftrightarrow> pipe_wf p)"
  by (auto simp: pipe_close_def Let_def pipe_bytes_def pipe_wf_def split: if_splits prod.splits)

definition pipe_inv :: "pipe \<times> u8 list \<times> u8 list \<Rightarrow> bool" where
  "pipe_inv = (\<lambda>(p, W, R). pipe_wf p \<and> W = R @ pipe_bytes p)"

lemma pipe_step_inv: "pipe_step x y \<Longrightarrow> pipe_inv x \<Longrightarrow> pipe_inv y"
proof (induction rule: pipe_step.induct)
  case (rd want got p s bs p' s' W R)
  then show ?case using read_iter_data(1,2) [of p want got s bs p' s'] by (simp add: pipe_inv_def)
next
  case (wr bs p s k p' s' W R)
  then show ?case using write_iter_data(1,2) [of p bs s k p' s'] by (simp add: pipe_inv_def)
next
  case (wait p W R rq wq)
  then show ?case by (simp add: pipe_inv_def pipe_bytes_def pipe_wf_def)
next
  case (close e p s p' s' W R)
  then show ?case using pipe_close_bytes by (auto simp: pipe_inv_def)
qed

lemma new_pipe_inv: "pipe_inv (new_pipe, [], [])"
  by (simp add: pipe_inv_def pipe_wf_def pipe_bytes_def new_pipe_def)

lemma pipe_reach_inv: "pipe_step\<^sup>*\<^sup>* x y \<Longrightarrow> pipe_inv x \<Longrightarrow> pipe_inv y"
  by (induction rule: rtranclp_induct) (auto intro: pipe_step_inv)

text \<open>
  C3. A pipe is a queue: in every interleaving of readers and writers the bytes handed out so far are
  a prefix of the bytes accepted so far, the rest is what the ring buffer holds, in order, and the
  buffer never holds more than \<open>PIPE_BUF_SIZE\<close> bytes.
\<close>

theorem pipe_fifo:
  assumes "pipe_step\<^sup>*\<^sup>* (new_pipe, [], []) (p, W, R)"
  shows "W = R @ pipe_bytes p \<and> length (pipe_bytes p) = p_count p \<and> p_count p \<le> PIPE_BUF_SIZE"
proof -
  from pipe_reach_inv [OF assms new_pipe_inv] show ?thesis
    by (simp add: pipe_inv_def pipe_wf_def pipe_bytes_def)
qed

lemma write_some:
  assumes w: "pipe_wf p" and o: "\<not> p_read_closed p" "p_count p < PIPE_BUF_SIZE"
  shows "\<exists>p' s'. pipe_write_iter bs p s = Write_Data (min (length bs) (PIPE_BUF_SIZE - p_count p)) p' s'"
  using o by (auto simp: pipe_write_iter_def Let_def split: prod.split)

lemma read_some:
  assumes "0 < p_count p"
  shows "\<exists>bs p' s'. pipe_read_iter want got p s = Read_Data bs p' s'"
  using assms by (auto simp: pipe_read_iter_def Let_def split: prod.split)

lemma new_pipe_simps: "\<not> p_read_closed new_pipe" "p_count new_pipe = 0" "pipe_bytes new_pipe = []"
  by (simp_all add: new_pipe_def pipe_bytes_def)

lemma new_pipe_wf: "pipe_wf new_pipe"
  using new_pipe_inv by (simp add: pipe_inv_def)

theorem pipe_fifo_witness:
  "\<exists>p. pipe_step\<^sup>*\<^sup>* (new_pipe, [], []) (p, [1, 2], []) \<and> pipe_bytes p = [1, 2]"
proof -
  obtain p s where "pipe_write_iter [1, 2] new_pipe boot_state = Write_Data 2 p s"
    using write_some [OF new_pipe_wf, of "[1, 2]" boot_state]
    by (auto simp: new_pipe_simps PIPE_BUF_SIZE_def)
  from pipe_step.wr [OF this, of "[]" "[]"] have r: "pipe_step\<^sup>*\<^sup>* (new_pipe, [], []) (p, [1, 2], [])"
    by (simp add: r_into_rtranclp numeral_2_eq_2)
  show ?thesis
    using pipe_fifo [OF r] r by auto
qed

section \<open>Whole reads and writes\<close>



text \<open>
  A write that fits into the free space returns the number of bytes and appends exactly them; a
  write to a pipe whose read end is closed fails and changes nothing.
\<close>

theorem pipe_write_returns:
  assumes "pipe_wf p" "bs \<noteq> []" "length bs \<le> PIPE_BUF_SIZE - p_count p"
  shows "if p_read_closed p then pipe_write (length bs + 1) bs 0 p s = Some (- 1, p, s)
    else \<exists>p' s'. pipe_write (length bs + 1) bs 0 p s = Some (int (length bs), p', s') \<and> pipe_bytes p' = pipe_bytes p @ bs"
proof (cases "p_read_closed p")
  case True
  then show ?thesis using assms(2) by (simp add: pipe_write_iter_def)
next
  case False
  have c: "p_count p < PIPE_BUF_SIZE" using assms(2,3) by (cases "p_count p < PIPE_BUF_SIZE") auto
  obtain p1 s1 where r: "pipe_write_iter bs p s = Write_Data (length bs) p1 s1"
    using write_some [OF assms(1) False c, of bs s] assms(3) by (auto simp: min_def)
  obtain k where k: "length bs = Suc k" using assms(2) by (cases bs) auto
  have "pipe_write (length bs) [] (length bs) p1 s1 = Some (int (length bs), p1, s1)" by (simp add: k)
  then show ?thesis
    using False assms(2) r write_iter_data(1) [OF assms(1) r] by simp
qed

theorem pipe_write_returns_witness:
  "\<exists>p' s'. pipe_write 3 [7, 8] 0 new_pipe boot_state = Some (2, p', s') \<and> pipe_bytes p' = [7, 8]"
  using pipe_write_returns [OF new_pipe_wf, of "[7, 8]" boot_state]
  by (simp add: new_pipe_simps PIPE_BUF_SIZE_def numeral_3_eq_3 del: pipe_write.simps)

section \<open>Unintended behaviours\<close>

text \<open>
  Closing the write end of an empty pipe while the read end is open does not wake the readers
  that are blocked on it, although every further read reports end of file: they stay blocked.
\<close>

theorem pipe_close_strands_readers:
  assumes "waiting s T (p_readers p) (t # xs)" "\<not> p_read_closed p" "p_count p = 0" "pipe_close False p s = (p', s')"
  shows "t_state (thr s' t) = t_state (thr s t) \<and> waiting s' T (p_readers p') (t # xs) \<and>
    pipe_read_iter want got p' s' = Read_End"
proof -
  have "p' = p\<lparr>p_write_closed := True\<rparr>" "s' = s"
    using assms(2,4) by (simp_all add: pipe_close_def Let_def)
  then show ?thesis
    using assms(1,3) by (simp add: pipe_read_iter_def)
qed

theorem pipe_close_strands_readers_witness:
  "\<exists>p' s'. pipe_close False (new_pipe\<lparr>p_readers := fst block_demo\<rparr>) (snd block_demo) = (p', s') \<and>
     waiting s' boot_T (p_readers p') [2] \<and> pipe_read_iter 1 0 p' s' = Read_End"
proof -
  obtain p' s' where c: "pipe_close False (new_pipe\<lparr>p_readers := fst block_demo\<rparr>) (snd block_demo) = (p', s')" by fastforce
  show ?thesis
    using pipe_close_strands_readers [OF _ _ _ c, of boot_T 2 "[]" 1 0] block_demo_wf(2) c
    by (simp add: new_pipe_def)
qed

text \<open>
  With a full descriptor table \<open>pipe_create\<close> fails, but it first marks free the descriptor whose
  number the caller's uninitialised array happened to hold, and it never frees the pipe.
\<close>

theorem pipe_create_full_table:
  assumes "\<forall>f\<in>set ft. fd_used f" "v < length ft"
  shows "\<exists>p. pipe_create True (Some rn) (Some wn) (v, x) ft s =
    (- 1, (v, x), ft[v := (ft ! v)\<lparr>fd_used := False\<rparr>], Some p, True)"
proof -
  have "find_idx (\<lambda>f. \<not> fd_used f) ft = None" using assms(1) by (simp add: find_idx_None_iff)
  then show ?thesis by (simp add: pipe_create_def install_fd_def)
qed

theorem pipe_create_full_table_witness:
  "\<exists>p. pipe_create True (Some 1) (Some 2) (0, 0) [\<lparr>fd_node = 9, fd_offset = 0, fd_flags = 0, fd_used = True\<rparr>] boot_state =
    (- 1, (0, 0), [\<lparr>fd_node = 9, fd_offset = 0, fd_flags = 0, fd_used = False\<rparr>], Some p, True)"
  using pipe_create_full_table [of "[\<lparr>fd_node = 9, fd_offset = 0, fd_flags = 0, fd_used = True\<rparr>]" 0 1 2 0 boot_state]
  by simp

end
