(* ===== verification/Block_Cache.thy ===== *)
theory Block_Cache
  imports Kernel_Prelude
begin

text \<open>
  The block layer of \<^verbatim>\<open>kernel/block.c\<close>: the device registry and the write-back sector cache
  in front of it. A device pointer is \<open>nat option\<close> (\<open>None\<close> is NULL) and \<open>D\<close> is the memory that
  holds the device structures; the driver's \<open>read\<close> and \<open>write\<close> function pointers are fields
  of the structure and act on a world \<open>'w\<close>. A sector is a value of type \<open>'d\<close>: the cache only
  copies sectors. Each call runs to completion: the code releases \<open>cache_lock\<close> before the driver
  reads into the claimed line, and other CPUs that find this line meanwhile are outside the model.
\<close>

section \<open>Devices (block.h)\<close>

record ('d, 'w) block_dev =
  bd_name :: string
  bd_block_count :: u64
  bd_block_size :: u32
  bd_read :: "(u64 \<Rightarrow> u8 \<Rightarrow> 'd \<Rightarrow> 'w \<Rightarrow> err_t \<times> 'd \<times> 'w) option"
  bd_write :: "(u64 \<Rightarrow> u8 \<Rightarrow> 'd \<Rightarrow> 'w \<Rightarrow> err_t \<times> 'w) option"

definition BLOCK_SIZE :: nat where
  "BLOCK_SIZE = 512"

definition MAX_BLOCK_DEVICES :: nat where
  "MAX_BLOCK_DEVICES = 64"

definition BLOCK_CACHE_SIZE :: nat where
  "BLOCK_CACHE_SIZE = 64"

section \<open>The device registry\<close>

type_synonym ('d, 'w) registry = "('d, 'w) block_dev list"

definition block_register ::
  "('d, 'w) block_dev option \<Rightarrow> ('d, 'w) registry \<Rightarrow> int \<times> ('d, 'w) registry" where
  "block_register dev R = (case dev of
     None \<Rightarrow> (-1, R)
   | Some d \<Rightarrow>
       if length R \<ge> MAX_BLOCK_DEVICES then (-1, R)
       else if bd_block_size d \<noteq> of_nat BLOCK_SIZE then (-1, R)
       else (int (length R), R @ [d]))"

definition block_count :: "('d, 'w) registry \<Rightarrow> int" where
  "block_count R = int (length R)"

definition block_get :: "int \<Rightarrow> ('d, 'w) registry \<Rightarrow> nat option" where
  "block_get index R = (if index < 0 \<or> index \<ge> int (length R) then None else Some (nat index))"

definition block_find :: "string \<Rightarrow> ('d, 'w) registry \<Rightarrow> nat option" where
  "block_find name R = find_idx (\<lambda>d. bd_name d = name) R"

section \<open>The cache\<close>

record 'd cache_line =
  cl_dev :: "nat option"
  cl_lba :: u64
  cl_data :: 'd
  cl_valid :: bool
  cl_dirty :: bool
  cl_access_time :: u64

record ('d, 'w) bcache =
  block_cache :: "'d cache_line list"
  cache_hits :: u64
  cache_misses :: u64
  cache_writes :: u64
  cache_clock :: u64
  world :: 'w

type_synonym ('d, 'w) devmem = "nat \<Rightarrow> ('d, 'w) block_dev"

text \<open>The zero-initialised static state, for a sector of zeroes \<open>z\<close>.\<close>

definition bcache_boot :: "'d \<Rightarrow> 'w \<Rightarrow> ('d, 'w) bcache" where
  "bcache_boot z w =
     \<lparr>block_cache = replicate BLOCK_CACHE_SIZE
        \<lparr>cl_dev = None, cl_lba = 0, cl_data = z, cl_valid = False, cl_dirty = False,
         cl_access_time = 0\<rparr>,
      cache_hits = 0, cache_misses = 0, cache_writes = 0, cache_clock = 0, world = w\<rparr>"

definition line_match :: "nat option \<Rightarrow> u64 \<Rightarrow> 'd cache_line \<Rightarrow> bool" where
  "line_match dev lba cl \<longleftrightarrow> cl_valid cl \<and> cl_dev cl = dev \<and> cl_lba cl = lba"

definition upd_line ::
  "nat \<Rightarrow> ('d cache_line \<Rightarrow> 'd cache_line) \<Rightarrow> ('d, 'w) bcache \<Rightarrow> ('d, 'w) bcache" where
  "upd_line i f s = s\<lparr>block_cache := (block_cache s)[i := f (block_cache s ! i)]\<rparr>"

definition cache_lookup ::
  "nat option \<Rightarrow> u64 \<Rightarrow> ('d, 'w) bcache \<Rightarrow> nat option \<times> ('d, 'w) bcache" where
  "cache_lookup dev lba s = (case find_idx (line_match dev lba) (block_cache s) of
     None \<Rightarrow> (None, s)
   | Some i \<Rightarrow> (let c = cache_clock s + 1 in
       (Some i, (upd_line i (\<lambda>cl. cl\<lparr>cl_access_time := c\<rparr>) s)\<lparr>cache_clock := c\<rparr>)))"

text \<open>
  The scan of \<open>cache_evict\<close>: the oldest valid line and the oldest valid clean line, each with
  its access time, starting from \<open>(uint64_t)-1\<close>.
\<close>

fun evict_scan ::
  "'d cache_line list \<Rightarrow> nat \<Rightarrow> nat option \<Rightarrow> u64 \<Rightarrow> nat option \<Rightarrow> u64 \<Rightarrow> nat option \<times> nat option" where
  "evict_scan [] i best_valid oldest_valid best_clean oldest_clean = (best_valid, best_clean)"
| "evict_scan (cl # cls) i best_valid oldest_valid best_clean oldest_clean =
     (let v = cl_valid cl \<and> cl_access_time cl < oldest_valid;
          c = cl_valid cl \<and> \<not> cl_dirty cl \<and> cl_access_time cl < oldest_clean
      in evict_scan cls (Suc i)
           (if v then Some i else best_valid) (if v then cl_access_time cl else oldest_valid)
           (if c then Some i else best_clean) (if c then cl_access_time cl else oldest_clean))"

definition evict_index :: "('d, 'w) bcache \<Rightarrow> nat" where
  "evict_index s = (case evict_scan (block_cache s) 0 None (-1) None (-1) of
     (best_valid, best_clean) \<Rightarrow>
       (case best_clean of Some i \<Rightarrow> i
        | None \<Rightarrow> (case best_valid of Some i \<Rightarrow> i | None \<Rightarrow> 0)))"

text \<open>The driver's write function of a line's device, when the pointers are not NULL.\<close>

definition line_writer ::
  "('d, 'w) devmem \<Rightarrow> 'd cache_line \<Rightarrow> (u64 \<Rightarrow> u8 \<Rightarrow> 'd \<Rightarrow> 'w \<Rightarrow> err_t \<times> 'w) option" where
  "line_writer D cl = (case cl_dev cl of None \<Rightarrow> None | Some p \<Rightarrow> bd_write (D p))"

definition claim_line ::
  "nat \<Rightarrow> nat option \<Rightarrow> u64 \<Rightarrow> ('d, 'w) bcache \<Rightarrow> ('d, 'w) bcache" where
  "claim_line idx dev lba t = (let c = cache_clock t + 1 in
     (upd_line idx (\<lambda>l. l\<lparr>cl_valid := True, cl_dev := dev, cl_lba := lba,
                          cl_dirty := False, cl_access_time := c\<rparr>) t)\<lparr>cache_clock := c\<rparr>)"

definition cache_evict ::
  "('d, 'w) devmem \<Rightarrow> nat option \<Rightarrow> u64 \<Rightarrow> ('d, 'w) bcache \<Rightarrow> nat option \<times> ('d, 'w) bcache" where
  "cache_evict D dev lba s =
     (let idx = evict_index s;
          cl = block_cache s ! idx
      in case line_writer D cl of
           Some wr \<Rightarrow>
             if cl_valid cl \<and> cl_dirty cl then
               (case wr (cl_lba cl) 1 (cl_data cl) (world s) of
                  (e, w') \<Rightarrow>
                    if e \<noteq> ERR_OK then (None, s\<lparr>world := w'\<rparr>)
                    else (Some idx, claim_line idx dev lba
                            (s\<lparr>world := w', cache_writes := cache_writes s + 1\<rparr>)))
             else (Some idx, claim_line idx dev lba s)
         | None \<Rightarrow> (Some idx, claim_line idx dev lba s))"

text \<open>
  One iteration of \<open>block_read\<close>: sector \<open>i\<close> of the request goes to chunk \<open>i\<close> of the caller's
  buffer. On a miss the driver reads into the claimed line's buffer.
\<close>

definition block_read_one ::
  "('d, 'w) devmem \<Rightarrow> nat \<Rightarrow> u64 \<Rightarrow> nat \<Rightarrow> 'd list \<Rightarrow> ('d, 'w) bcache \<Rightarrow>
     err_t \<times> 'd list \<times> ('d, 'w) bcache" where
  "block_read_one D p lba i buf s = (case cache_lookup (Some p) (lba + of_nat i) s of
     (Some k, s1) \<Rightarrow>
       (ERR_OK, buf[i := cl_data (block_cache s1 ! k)], s1\<lparr>cache_hits := cache_hits s1 + 1\<rparr>)
   | (None, s1) \<Rightarrow> (case cache_evict D (Some p) (lba + of_nat i) s1 of
       (None, s2) \<Rightarrow> (ERR_IO, buf, s2)
     | (Some k, s2) \<Rightarrow> (case bd_read (D p) of
         None \<Rightarrow> (ERR_INVAL, buf, s2)
       | Some rd \<Rightarrow> (case rd (lba + of_nat i) 1 (cl_data (block_cache s2 ! k)) (world s2) of
           (e, d, w') \<Rightarrow>
             let s3 = (upd_line k (\<lambda>l. l\<lparr>cl_data := d\<rparr>) s2)\<lparr>world := w'\<rparr>
             in if e \<noteq> ERR_OK then (e, buf, s3)
                else (ERR_OK, buf[i := d], s3\<lparr>cache_misses := cache_misses s3 + 1\<rparr>)))))"

fun block_read_loop ::
  "('d, 'w) devmem \<Rightarrow> nat \<Rightarrow> u64 \<Rightarrow> nat list \<Rightarrow> 'd list \<Rightarrow> ('d, 'w) bcache \<Rightarrow>
     err_t \<times> 'd list \<times> ('d, 'w) bcache" where
  "block_read_loop D p lba [] buf s = (ERR_OK, buf, s)"
| "block_read_loop D p lba (i # is) buf s = (case block_read_one D p lba i buf s of
     (e, buf', s') \<Rightarrow> if e \<noteq> ERR_OK then (e, buf', s') else block_read_loop D p lba is buf' s')"

definition block_read ::
  "('d, 'w) devmem \<Rightarrow> nat option \<Rightarrow> u64 \<Rightarrow> u8 \<Rightarrow> 'd list \<Rightarrow> ('d, 'w) bcache \<Rightarrow>
     err_t \<times> 'd list \<times> ('d, 'w) bcache" where
  "block_read D dev lba count buf s = (case dev of
     None \<Rightarrow> (ERR_INVAL, buf, s)
   | Some p \<Rightarrow> if bd_read (D p) = None then (ERR_INVAL, buf, s)
               else block_read_loop D p lba [0..<unat count] buf s)"

definition block_write_one ::
  "('d, 'w) devmem \<Rightarrow> nat \<Rightarrow> u64 \<Rightarrow> nat \<Rightarrow> 'd list \<Rightarrow> ('d, 'w) bcache \<Rightarrow> err_t \<times> ('d, 'w) bcache" where
  "block_write_one D p lba i buf s =
     (let fill = (\<lambda>k t. (ERR_OK, upd_line k (\<lambda>l. l\<lparr>cl_data := buf ! i, cl_dirty := True\<rparr>) t))
      in case cache_lookup (Some p) (lba + of_nat i) s of
           (Some k, s1) \<Rightarrow> fill k s1
         | (None, s1) \<Rightarrow> (case cache_evict D (Some p) (lba + of_nat i) s1 of
             (None, s2) \<Rightarrow> (ERR_IO, s2)
           | (Some k, s2) \<Rightarrow> fill k s2))"

fun block_write_loop ::
  "('d, 'w) devmem \<Rightarrow> nat \<Rightarrow> u64 \<Rightarrow> nat list \<Rightarrow> 'd list \<Rightarrow> ('d, 'w) bcache \<Rightarrow> err_t \<times> ('d, 'w) bcache" where
  "block_write_loop D p lba [] buf s = (ERR_OK, s)"
| "block_write_loop D p lba (i # is) buf s = (case block_write_one D p lba i buf s of
     (e, s') \<Rightarrow> if e \<noteq> ERR_OK then (e, s') else block_write_loop D p lba is buf s')"

definition block_write ::
  "('d, 'w) devmem \<Rightarrow> nat option \<Rightarrow> u64 \<Rightarrow> u8 \<Rightarrow> 'd list \<Rightarrow> ('d, 'w) bcache \<Rightarrow> err_t \<times> ('d, 'w) bcache" where
  "block_write D dev lba count buf s = (case dev of
     None \<Rightarrow> (ERR_INVAL, s)
   | Some p \<Rightarrow> if bd_write (D p) = None then (ERR_INVAL, s)
               else block_write_loop D p lba [0..<unat count] buf s)"

text \<open>
  The write-back loops. \<open>sel\<close> is the extra condition of the loop on the line: none in
  \<open>block_sync\<close>, the device in \<open>block_sync_dev\<close>, the device and the address in
  \<open>block_flush\<close>. The loop stops at the first error.
\<close>

fun sync_loop ::
  "('d, 'w) devmem \<Rightarrow> ('d cache_line \<Rightarrow> bool) \<Rightarrow> nat list \<Rightarrow> ('d, 'w) bcache \<Rightarrow> err_t \<times> ('d, 'w) bcache" where
  "sync_loop D sel [] s = (ERR_OK, s)"
| "sync_loop D sel (i # is) s =
     (let cl = block_cache s ! i
      in case line_writer D cl of
           Some wr \<Rightarrow>
             if cl_valid cl \<and> cl_dirty cl \<and> sel cl then
               (case wr (cl_lba cl) 1 (cl_data cl) (world s) of
                  (e, w') \<Rightarrow>
                    if e \<noteq> ERR_OK then (e, s\<lparr>world := w'\<rparr>)
                    else sync_loop D sel is
                           ((upd_line i (\<lambda>l. l\<lparr>cl_dirty := False\<rparr>) s)
                              \<lparr>world := w', cache_writes := cache_writes s + 1\<rparr>))
             else sync_loop D sel is s
         | None \<Rightarrow> sync_loop D sel is s)"

definition block_sync :: "('d, 'w) devmem \<Rightarrow> ('d, 'w) bcache \<Rightarrow> err_t \<times> ('d, 'w) bcache" where
  "block_sync D s = sync_loop D (\<lambda>_. True) [0..<BLOCK_CACHE_SIZE] s"

definition block_sync_dev ::
  "('d, 'w) devmem \<Rightarrow> nat option \<Rightarrow> ('d, 'w) bcache \<Rightarrow> err_t \<times> ('d, 'w) bcache" where
  "block_sync_dev D dev s = sync_loop D (\<lambda>cl. cl_dev cl = dev) [0..<BLOCK_CACHE_SIZE] s"

fun flush_loop ::
  "('d, 'w) devmem \<Rightarrow> nat \<Rightarrow> u64 \<Rightarrow> nat list \<Rightarrow> ('d, 'w) bcache \<Rightarrow> err_t \<times> ('d, 'w) bcache" where
  "flush_loop D p lba [] s = (ERR_OK, s)"
| "flush_loop D p lba (i # is) s =
     (case sync_loop D (\<lambda>cl. cl_dev cl = Some p \<and> cl_lba cl = lba + of_nat i)
             [0..<BLOCK_CACHE_SIZE] s of
        (e, s') \<Rightarrow> if e \<noteq> ERR_OK then (e, s') else flush_loop D p lba is s')"

definition block_flush ::
  "('d, 'w) devmem \<Rightarrow> nat option \<Rightarrow> u64 \<Rightarrow> u8 \<Rightarrow> ('d, 'w) bcache \<Rightarrow> err_t \<times> ('d, 'w) bcache" where
  "block_flush D dev lba count s = (case dev of
     None \<Rightarrow> (ERR_INVAL, s)
   | Some p \<Rightarrow> if bd_write (D p) = None then (ERR_INVAL, s)
               else flush_loop D p lba [0..<unat count] s)"

text \<open>\<open>block_try_sync\<close> ignores the driver's result and does not count the write.\<close>

fun try_sync_loop ::
  "('d, 'w) devmem \<Rightarrow> nat list \<Rightarrow> ('d, 'w) bcache \<Rightarrow> ('d, 'w) bcache" where
  "try_sync_loop D [] s = s"
| "try_sync_loop D (i # is) s =
     (let cl = block_cache s ! i
      in case line_writer D cl of
           Some wr \<Rightarrow>
             if cl_valid cl \<and> cl_dirty cl then
               (case wr (cl_lba cl) 1 (cl_data cl) (world s) of
                  (e, w') \<Rightarrow> try_sync_loop D is
                    ((upd_line i (\<lambda>l. l\<lparr>cl_dirty := False\<rparr>) s)\<lparr>world := w'\<rparr>))
             else try_sync_loop D is s
         | None \<Rightarrow> try_sync_loop D is s)"

definition block_try_sync ::
  "('d, 'w) devmem \<Rightarrow> bool \<Rightarrow> ('d, 'w) bcache \<Rightarrow> int \<times> ('d, 'w) bcache" where
  "block_try_sync D lock_free s =
     (if \<not> lock_free then (0, s) else (1, try_sync_loop D [0..<BLOCK_CACHE_SIZE] s))"

text \<open>The counters that \<open>block_cache_stats\<close> prints: valid lines and dirty lines.\<close>

definition block_cache_stats :: "('d, 'w) bcache \<Rightarrow> nat \<times> nat" where
  "block_cache_stats s =
     (length (filter cl_valid (block_cache s)), length (filter cl_dirty (block_cache s)))"


section \<open>Runs of the block layer\<close>

text \<open>
  One call of an entry point of the block layer. The results are dropped: the relation is
  about the states the layer can reach, whatever the drivers answer.
\<close>

inductive block_step :: "('d, 'w) devmem \<Rightarrow> ('d, 'w) bcache \<Rightarrow> ('d, 'w) bcache \<Rightarrow> bool" for D where
  step_read: "block_read D dev lba count buf s = (e, buf', t) \<Longrightarrow> block_step D s t"
| step_write: "block_write D dev lba count buf s = (e, t) \<Longrightarrow> block_step D s t"
| step_sync: "block_sync D s = (e, t) \<Longrightarrow> block_step D s t"
| step_sync_dev: "block_sync_dev D dev s = (e, t) \<Longrightarrow> block_step D s t"
| step_flush: "block_flush D dev lba count s = (e, t) \<Longrightarrow> block_step D s t"
| step_try_sync: "block_try_sync D lk s = (r, t) \<Longrightarrow> block_step D s t"

inductive block_reach :: "('d, 'w) devmem \<Rightarrow> 'd \<Rightarrow> 'w \<Rightarrow> ('d, 'w) bcache \<Rightarrow> bool" for D z w where
  reach_boot: "block_reach D z w (bcache_boot z w)"
| reach_step: "block_reach D z w s \<Longrightarrow> block_step D s t \<Longrightarrow> block_reach D z w t"

section \<open>Which lines the cache uses\<close>

text \<open>
  \<open>cache_evict\<close> chooses among the \<^emph>\<open>valid\<close> lines only and falls back to line 0 when there is
  none. So from the boot state, where no line is valid, every claim takes line 0.
\<close>

definition line0_only :: "('d, 'w) bcache \<Rightarrow> bool" where
  "line0_only s \<longleftrightarrow> length (block_cache s) = BLOCK_CACHE_SIZE \<and>
     (\<forall>i. 0 < i \<and> i < BLOCK_CACHE_SIZE \<longrightarrow> \<not> cl_valid (block_cache s ! i))"

lemma upd_line_simps [simp]:
  "length (block_cache (upd_line i f s)) = length (block_cache s)"
  "world (upd_line i f s) = world s"
  "cache_clock (upd_line i f s) = cache_clock s"
  "cache_hits (upd_line i f s) = cache_hits s"
  "cache_misses (upd_line i f s) = cache_misses s"
  "cache_writes (upd_line i f s) = cache_writes s"
  by (simp_all add: upd_line_def)

lemma upd_line_nth [slot_simps]:
  "j < length (block_cache s) \<Longrightarrow>
     block_cache (upd_line i f s) ! j = (if j = i then f (block_cache s ! j) else block_cache s ! j)"
  by (auto simp: upd_line_def)

text \<open>Invalid lines do not take part in the scan.\<close>

lemma evict_scan_invalid:
  "\<forall>cl \<in> set cls. \<not> cl_valid cl \<Longrightarrow> evict_scan cls i bv ov bc oc = (bv, bc)"
  by (induction cls arbitrary: i) (auto simp: Let_def)

lemma evict_scan_range:
  "evict_scan cls i bv ov bc oc = (rv, rc) \<Longrightarrow>
     (rv = bv \<or> (\<exists>k. rv = Some k \<and> i \<le> k \<and> k < i + length cls)) \<and>
     (rc = bc \<or> (\<exists>k. rc = Some k \<and> i \<le> k \<and> k < i + length cls))"
proof (induction cls arbitrary: i bv ov bc oc)
  case Nil
  then show ?case by simp
next
  case (Cons cl cls)
  from Cons.prems show ?case
    by (auto simp: Let_def split: if_splits dest!: Cons.IH)
qed

lemma evict_index_bound:
  assumes "block_cache s \<noteq> []"
  shows "evict_index s < length (block_cache s)"
proof -
  obtain rv rc where "evict_scan (block_cache s) 0 None (-1) None (-1) = (rv, rc)"
    by (cases "evict_scan (block_cache s) 0 None (-1) None (-1)")
  from evict_scan_range [OF this] this assms show ?thesis
    by (auto simp: evict_index_def split: option.splits)
qed

lemma line0_evict_index:
  assumes "line0_only s"
  shows "evict_index s = 0"
proof -
  obtain cl cls where cc: "block_cache s = cl # cls"
    using assms by (cases "block_cache s") (auto simp: line0_only_def BLOCK_CACHE_SIZE_def)
  have inval: "\<not> cl_valid c" if "c \<in> set cls" for c
  proof -
    from that obtain j where "j < length cls" "c = cls ! j" by (metis in_set_conv_nth)
    with assms cc show ?thesis by (auto simp: line0_only_def dest!: spec [of _ "Suc j"])
  qed
  show ?thesis
    by (auto simp: evict_index_def cc Let_def evict_scan_invalid inval split: option.splits)
qed

lemma line0_upd:
  assumes "line0_only s" and "i = 0 \<or> (\<forall>l. cl_valid (f l) = cl_valid l)"
  shows "line0_only (upd_line i f s)"
  using assms unfolding line0_only_def by (auto simp: upd_line_nth)

lemma line0_frame [simp]:
  "line0_only (s\<lparr>world := w\<rparr>) = line0_only s"
  "line0_only (s\<lparr>cache_clock := c\<rparr>) = line0_only s"
  "line0_only (s\<lparr>cache_hits := c\<rparr>) = line0_only s"
  "line0_only (s\<lparr>cache_misses := c\<rparr>) = line0_only s"
  "line0_only (s\<lparr>cache_writes := c\<rparr>) = line0_only s"
  by (simp_all add: line0_only_def)

lemma line0_lookup: "line0_only s \<Longrightarrow> cache_lookup dev lba s = (r, t) \<Longrightarrow> line0_only t"
  by (auto simp: cache_lookup_def Let_def line0_upd split: option.splits)

lemma line0_evict: "line0_only s \<Longrightarrow> cache_evict D dev lba s = (r, t) \<Longrightarrow> line0_only t"
  by (auto simp: cache_evict_def claim_line_def Let_def line0_evict_index intro!: line0_upd
      split: option.splits prod.splits if_splits)

lemma line0_read_one:
  assumes "line0_only s" and "block_read_one D p lba i buf s = (e, b, t)"
  shows "line0_only t"
proof -
  obtain r s1 where l: "cache_lookup (Some p) (lba + of_nat i) s = (r, s1)"
    by (cases "cache_lookup (Some p) (lba + of_nat i) s")
  obtain r2 s2 where v: "cache_evict D (Some p) (lba + of_nat i) s1 = (r2, s2)"
    by (cases "cache_evict D (Some p) (lba + of_nat i) s1")
  from line0_lookup [OF assms(1) l] have 1: "line0_only s1" .
  from line0_evict [OF this v] have 2: "line0_only s2" .
  from assms(2) 1 2 show ?thesis
    by (auto simp: block_read_one_def l v Let_def line0_upd split: option.splits prod.splits if_splits)
qed

lemma line0_write_one:
  assumes "line0_only s" and "block_write_one D p lba i buf s = (e, t)"
  shows "line0_only t"
proof -
  obtain r s1 where l: "cache_lookup (Some p) (lba + of_nat i) s = (r, s1)"
    by (cases "cache_lookup (Some p) (lba + of_nat i) s")
  obtain r2 s2 where v: "cache_evict D (Some p) (lba + of_nat i) s1 = (r2, s2)"
    by (cases "cache_evict D (Some p) (lba + of_nat i) s1")
  from line0_lookup [OF assms(1) l] have 1: "line0_only s1" .
  from line0_evict [OF this v] have 2: "line0_only s2" .
  from assms(2) 1 2 show ?thesis
    by (auto simp: block_write_one_def l v Let_def line0_upd split: option.splits prod.splits)
qed

lemma line0_read_loop:
  "line0_only s \<Longrightarrow> block_read_loop D p lba is buf s = (e, b, t) \<Longrightarrow> line0_only t"
  by (induction "is" arbitrary: buf s)
    (auto split: prod.splits if_splits dest: line0_read_one)

lemma line0_write_loop:
  "line0_only s \<Longrightarrow> block_write_loop D p lba is buf s = (e, t) \<Longrightarrow> line0_only t"
  by (induction "is" arbitrary: s)
    (auto split: prod.splits if_splits dest: line0_write_one)

lemma line0_sync_loop: "line0_only s \<Longrightarrow> sync_loop D sel is s = (e, t) \<Longrightarrow> line0_only t"
proof (induction "is" arbitrary: s)
  case Nil
  then show ?case by simp
next
  case (Cons i "is")
  have "line0_only (upd_line i (\<lambda>l. l\<lparr>cl_dirty := False\<rparr>) s)"
    using Cons.prems(1) by (simp add: line0_upd)
  with Cons.prems show ?case
    by (auto simp: Let_def dest: Cons.IH [rotated] split: option.splits prod.splits if_splits)
qed

lemma line0_flush_loop: "line0_only s \<Longrightarrow> flush_loop D p lba is s = (e, t) \<Longrightarrow> line0_only t"
  by (induction "is" arbitrary: s)
    (auto split: prod.splits if_splits dest: line0_sync_loop)

lemma line0_try_sync_loop: "line0_only s \<Longrightarrow> line0_only (try_sync_loop D is s)"
  by (induction "is" arbitrary: s)
    (auto simp: Let_def line0_upd split: option.splits prod.splits)

lemmas line0_loops = line0_read_loop line0_write_loop line0_sync_loop line0_flush_loop

lemma line0_step: "block_step D s t \<Longrightarrow> line0_only s \<Longrightarrow> line0_only t"
  by (induction rule: block_step.induct)
    (auto simp: block_read_def block_write_def block_sync_def block_sync_dev_def block_flush_def
      block_try_sync_def line0_try_sync_loop split: option.splits if_splits dest: line0_loops)

lemma line0_boot: "line0_only (bcache_boot z w)"
  by (simp add: line0_only_def bcache_boot_def)

lemma line0_reach: "block_reach D z w s \<Longrightarrow> line0_only s"
  by (induction rule: block_reach.induct) (auto intro: line0_boot line0_step)


section \<open>Calls of the block layer and the array they implement\<close>

text \<open>
  A call of the block layer with its arguments, its execution by the cache, and its meaning on
  a plain array of sectors per device, which is the contract of the layer.
\<close>

datatype 'd blk_op =
    OpRead nat u64 u8
  | OpWrite nat u64 u8 "'d list"
  | OpSync
  | OpSyncDev nat
  | OpFlush nat u64 u8
  | OpTrySync bool

fun blk_exec ::
  "('d, 'w) devmem \<Rightarrow> 'd \<Rightarrow> 'd blk_op \<Rightarrow> ('d, 'w) bcache \<Rightarrow> (err_t \<times> 'd list) \<times> ('d, 'w) bcache" where
  "blk_exec D z (OpRead p lba n) s =
     (case block_read D (Some p) lba n (replicate (unat n) z) s of (e, b, t) \<Rightarrow> ((e, b), t))"
| "blk_exec D z (OpWrite p lba n buf) s = (case block_write D (Some p) lba n buf s of (e, t) \<Rightarrow> ((e, []), t))"
| "blk_exec D z OpSync s = (case block_sync D s of (e, t) \<Rightarrow> ((e, []), t))"
| "blk_exec D z (OpSyncDev p) s = (case block_sync_dev D (Some p) s of (e, t) \<Rightarrow> ((e, []), t))"
| "blk_exec D z (OpFlush p lba n) s = (case block_flush D (Some p) lba n s of (e, t) \<Rightarrow> ((e, []), t))"
| "blk_exec D z (OpTrySync lk) s = (case block_try_sync D lk s of (r, t) \<Rightarrow> ((ERR_OK, []), t))"

type_synonym 'd sectors = "nat \<Rightarrow> u64 \<Rightarrow> 'd"

definition put_sector :: "nat \<Rightarrow> u64 \<Rightarrow> 'd list \<Rightarrow> nat \<Rightarrow> 'd sectors \<Rightarrow> 'd sectors" where
  "put_sector p lba buf i v = v(p := (v p)(lba + of_nat i := buf ! i))"

fun spec_exec :: "'d blk_op \<Rightarrow> 'd sectors \<Rightarrow> (err_t \<times> 'd list) \<times> 'd sectors" where
  "spec_exec (OpRead p lba n) v = ((ERR_OK, map (\<lambda>i. v p (lba + of_nat i)) [0..<unat n]), v)"
| "spec_exec (OpWrite p lba n buf) v = ((ERR_OK, []), fold (put_sector p lba buf) [0..<unat n] v)"
| "spec_exec _ v = ((ERR_OK, []), v)"

fun run_ops :: "('op \<Rightarrow> 's \<Rightarrow> 'r \<times> 's) \<Rightarrow> 'op list \<Rightarrow> 's \<Rightarrow> 'r list \<times> 's" where
  "run_ops ex [] s = ([], s)"
| "run_ops ex (op # ops) s =
     (case ex op s of (r, t) \<Rightarrow> (case run_ops ex ops t of (rs, u) \<Rightarrow> (r # rs, u)))"


text \<open>The first call after boot misses and claims line 0.\<close>

lemma boot_line: "i < BLOCK_CACHE_SIZE \<Longrightarrow> block_cache (bcache_boot z w) ! i =
    \<lparr>cl_dev = None, cl_lba = 0, cl_data = z, cl_valid = False, cl_dirty = False, cl_access_time = 0\<rparr>"
  by (simp add: bcache_boot_def)

lemma boot_lookup: "cache_lookup dev lba (bcache_boot z w) = (None, bcache_boot z w)"
proof -
  have "find_idx (line_match dev lba) (block_cache (bcache_boot z w)) = None"
    by (simp add: find_idx_None_iff bcache_boot_def line_match_def)
  then show ?thesis by (simp add: cache_lookup_def)
qed

lemma boot_evict:
  "cache_evict D dev lba (bcache_boot z w) = (Some 0, claim_line 0 dev lba (bcache_boot z w))"
proof -
  have "evict_index (bcache_boot z w) = 0" by (rule line0_evict_index [OF line0_boot])
  moreover have "(0::nat) < BLOCK_CACHE_SIZE" by (simp add: BLOCK_CACHE_SIZE_def)
  ultimately show ?thesis by (simp add: cache_evict_def Let_def line_writer_def boot_line)
qed

lemma boot_claim_line:
  "block_cache (claim_line 0 dev lba (bcache_boot z w)) ! 0 =
     \<lparr>cl_dev = dev, cl_lba = lba, cl_data = z, cl_valid = True, cl_dirty = False, cl_access_time = 1\<rparr>"
  "block_cache (claim_line 0 dev lba (bcache_boot z w)) \<noteq> []"
  by (simp_all add: claim_line_def upd_line_def bcache_boot_def BLOCK_CACHE_SIZE_def Let_def)

section \<open>Properties of the cache\<close>

text \<open>
  In every state the block layer can reach from boot, for any devices, any calls and any
  answers of the drivers, lines 1 to 63 of the 64-line cache are invalid: \<open>cache_evict\<close> never
  considers an invalid line, so at most one sector is cached.
\<close>

theorem cache_uses_one_line:
  assumes "block_reach D z w s"
  shows "length (block_cache s) = 64 \<and> (\<forall>i. 0 < i \<and> i < 64 \<longrightarrow> \<not> cl_valid (block_cache s ! i))"
  using line0_reach [OF assms] by (auto simp: line0_only_def BLOCK_CACHE_SIZE_def)


text \<open>The state after a read of sector 5 and a write of sector 9 on a device that always answers.\<close>

theorem cache_uses_one_line_witness:
  "\<exists>s. block_reach
      (\<lambda>_. \<lparr>bd_name = [], bd_block_count = 10, bd_block_size = 512,
            bd_read = Some (\<lambda>l n b w. (ERR_OK, b, w)), bd_write = Some (\<lambda>l n b w. (ERR_OK, w))\<rparr>)
      (0::nat) () s \<and> cl_valid (block_cache s ! 0) \<and>
      length (block_cache s) = 64 \<and> (\<forall>i. 0 < i \<and> i < 64 \<longrightarrow> \<not> cl_valid (block_cache s ! i))"
proof -
  let ?D = "\<lambda>_::nat. \<lparr>bd_name = [], bd_block_count = 10, bd_block_size = 512,
      bd_read = Some (\<lambda>l n b w. (ERR_OK, b, w)), bd_write = Some (\<lambda>l n b w. (ERR_OK, w))\<rparr>"
  obtain e s where w: "block_write ?D (Some 0) 9 1 [7::nat] (bcache_boot 0 ()) = (e, s)"
    by (cases "block_write ?D (Some 0) 9 1 [7::nat] (bcache_boot 0 ())")
  have r: "block_reach ?D 0 () s" by (rule reach_step [OF reach_boot step_write [OF w]])
  have "cl_valid (block_cache s ! 0)"
    using w boot_claim_line [of "Some 0" 9 "0::nat" "()"]
    by (auto simp: block_write_def block_write_one_def boot_lookup boot_evict Let_def upd_line_def
        nth_list_update split: if_splits)
  with r cache_uses_one_line [OF r] show ?thesis by blast
qed

text \<open>A failed request ends at some sector, after the ones before it have been read.\<close>

lemma block_read_loop_fails:
  assumes "block_read_loop D p lba js buf s = (e, buf', t)" "e \<noteq> ERR_OK"
  shows "\<exists>xs i ys u. js = xs @ i # ys \<and> block_read_loop D p lba xs buf s = (ERR_OK, buf', u) \<and> block_read_one D p lba i buf' u = (e, buf', t)"
  using assms
proof (induction js arbitrary: buf s)
  case (Cons j js)
  obtain e1 b1 s1 where one: "block_read_one D p lba j buf s = (e1, b1, s1)" by (cases "block_read_one D p lba j buf s")
  show ?case
  proof (cases "e1 = ERR_OK")
    case True
    then obtain xs i ys u where "js = xs @ i # ys" "block_read_loop D p lba xs b1 s1 = (ERR_OK, buf', u)" "block_read_one D p lba i buf' u = (e, buf', t)"
      using Cons.IH [of b1 s1] Cons.prems one by auto
    then show ?thesis using one True by (intro exI [of _ "j # xs"] exI [of _ i] exI [of _ ys] exI [of _ u]) simp
  next
    case False
    then have "e1 = e" "b1 = buf'" "s1 = t" using Cons.prems one by auto
    moreover have "b1 = buf" using one False by (auto simp: block_read_one_def Let_def split: prod.splits option.splits if_splits)
    ultimately show ?thesis using one by (intro exI [of _ "[]"] exI [of _ j] exI [of _ js] exI [of _ s]) simp
  qed
qed simp

lemma cache_lookup_length: "cache_lookup dev lba s = (r, t) \<Longrightarrow> length (block_cache t) = length (block_cache s)"
  by (auto simp: cache_lookup_def Let_def split: option.splits)

lemma cache_evict_cases:
  assumes "cache_evict D dev lba s = (Some k, t)"
  shows "k = evict_index s \<and> block_cache t = block_cache (claim_line k dev lba s)"
  using assms by (auto simp: cache_evict_def claim_line_def upd_line_def Let_def split: option.splits prod.splits if_splits)

lemma cache_evict_length: "cache_evict D dev lba s = (r, t) \<Longrightarrow> length (block_cache t) = length (block_cache s)"
  by (auto simp: cache_evict_def claim_line_def upd_line_def Let_def split: option.splits prod.splits if_splits)

lemma block_read_loop_length: "block_read_loop D p lba js buf s = (e, buf', t) \<Longrightarrow> length (block_cache t) = length (block_cache s)"
proof (induction js arbitrary: buf s)
  case (Cons j js)
  have "block_read_one D p lba j buf s = (e1, b1, s1) \<Longrightarrow> length (block_cache s1) = length (block_cache s)" for e1 b1 s1
    by (auto simp: block_read_one_def Let_def dest!: cache_lookup_length cache_evict_length split: prod.splits option.splits if_splits)
  then show ?case using Cons by (auto split: prod.splits if_splits)
qed simp

lemma claimed_hit:
  assumes "find_idx (line_match (Some p) lba) (block_cache s) = None" "k < length (block_cache s)" "bd_read (D p) \<noteq> None"
    and t: "block_cache t = (block_cache (claim_line k (Some p) lba s))[k := (block_cache (claim_line k (Some p) lba s) ! k)\<lparr>cl_data := d\<rparr>]"
  shows "\<exists>u. block_read D (Some p) lba 1 [b] t = (ERR_OK, [d], u) \<and> world u = world t"
proof -
  have k: "line_match (Some p) lba (block_cache t ! k)" "cl_data (block_cache t ! k) = d" "k < length (block_cache t)"
    using assms(2) by (simp_all add: t claim_line_def upd_line_def Let_def line_match_def)
  have "\<not> line_match (Some p) lba (block_cache t ! j)" if "j < length (block_cache t)" "j \<noteq> k" for j
    using that assms(1) by (simp add: t claim_line_def upd_line_def Let_def find_idx_None_iff)
  then have "find_idx (line_match (Some p) lba) (block_cache t) = Some k" using k(1,3) by (intro find_idx_unique) auto
  then have "cache_lookup (Some p) lba t = (Some k, (upd_line k (\<lambda>cl. cl\<lparr>cl_access_time := cache_clock t + 1\<rparr>) t)\<lparr>cache_clock := cache_clock t + 1\<rparr>)"
    by (simp add: cache_lookup_def Let_def)
  then show ?thesis using assms(3) k(2,3) by (auto simp: block_read_def block_read_one_def upd_line_def)
qed

lemma read_one_poisons:
  assumes "block_read_one D p lba i buf u = (e, buf', t)" "e \<noteq> ERR_OK" "bd_read (D p) = Some rd" "block_cache u \<noteq> []"
  shows "if fst (cache_evict D (Some p) (lba + of_nat i) u) = None then e = ERR_IO
     else \<exists>w d. rd (lba + of_nat i) 1 (cl_data (block_cache u ! evict_index u)) w = (e, d, world t) \<and>
       (\<forall>b. \<exists>t'. block_read D (Some p) (lba + of_nat i) 1 [b] t = (ERR_OK, [d], t') \<and> world t' = world t)"
proof -
  have miss: "find_idx (line_match (Some p) (lba + of_nat i)) (block_cache u) = None"
    using assms(1,2) by (auto simp: block_read_one_def cache_lookup_def Let_def split: option.splits)
  then have l: "cache_lookup (Some p) (lba + of_nat i) u = (None, u)" by (simp add: cache_lookup_def)
  obtain k' v where ev: "cache_evict D (Some p) (lba + of_nat i) u = (k', v)" by force
  show ?thesis
  proof (cases k')
    case None
    then show ?thesis using ev assms(1) l by (simp add: block_read_one_def)
  next
    case (Some k)
    have k: "k < length (block_cache u)" "k = evict_index u" "block_cache v = block_cache (claim_line k (Some p) (lba + of_nat i) u)"
      using cache_evict_cases [of D "Some p" "lba + of_nat i" u k v] evict_index_bound [OF assms(4)] ev Some by simp_all
    have d0: "cl_data (block_cache v ! k) = cl_data (block_cache u ! evict_index u)" using k by (simp add: claim_line_def upd_line_def Let_def)
    obtain d w' where d: "rd (lba + of_nat i) 1 (cl_data (block_cache u ! evict_index u)) (world v) = (e, d, w')" "t = (upd_line k (\<lambda>l. l\<lparr>cl_data := d\<rparr>) v)\<lparr>world := w'\<rparr>"
      using assms(1-3) l ev Some d0 by (auto simp: block_read_one_def Let_def split: prod.splits if_splits)
    have "\<exists>t'. block_read D (Some p) (lba + of_nat i) 1 [b] t = (ERR_OK, [d], t') \<and> world t' = world t" for b
      using assms(3) d(2) k(3) by (intro claimed_hit [OF miss k(1)]) (simp_all add: upd_line_def)
    then show ?thesis using ev Some d by auto
  qed
qed

text \<open>
  C39. A failed read poisons the cache, in every state and for every request. When \<open>block_read\<close> returns an error, it stopped at some sector \<open>i\<close> of the request after reading the ones
  before it, in a state \<open>u\<close>. Either no line could be freed there, since writing back the old one failed; or the driver was asked to read into the old line's buffer and
  failed. In that case \<open>cache_evict\<close> has marked the line valid for the sector, and it stays so: a repeated \<open>block_read\<close> of the sector succeeds, without asking the
  driver, with what the failed call left in the buffer, in particular the old line's data when the driver left it alone.
\<close>

theorem failed_read_is_cached:
  assumes "block_cache s \<noteq> []" and "bd_read (D p) = Some rd" and "block_read D (Some p) lba count buf s = (e, buf', t)" and "e \<noteq> ERR_OK"
  shows "\<exists>i u. i < unat count \<and> block_read D (Some p) lba (of_nat i) buf s = (ERR_OK, buf', u) \<and>
    (if fst (cache_evict D (Some p) (lba + of_nat i) u) = None then e = ERR_IO
     else \<exists>w d. rd (lba + of_nat i) 1 (cl_data (block_cache u ! evict_index u)) w = (e, d, world t) \<and>
       (\<forall>b. \<exists>t'. block_read D (Some p) (lba + of_nat i) 1 [b] t = (ERR_OK, [d], t') \<and> world t' = world t))"
proof -
  have "block_read_loop D p lba [0..<unat count] buf s = (e, buf', t)" using assms(2,3) by (simp add: block_read_def)
  from block_read_loop_fails [OF this assms(4)] obtain xs i ys u where
    u: "[0..<unat count] = xs @ i # ys" "block_read_loop D p lba xs buf s = (ERR_OK, buf', u)" "block_read_one D p lba i buf' u = (e, buf', t)" by blast
  have n: "length xs < unat count" using arg_cong [OF u(1), of length] by simp
  have "i = length xs" using arg_cong [OF u(1), of "\<lambda>l. l ! length xs"] n by simp
  moreover have "xs = [0..<length xs]" using arg_cong [OF u(1), of "take (length xs)"] n by simp
  ultimately have i: "i < unat count" "xs = [0..<i]" using n by simp_all
  have "i < 2 ^ 8" using i(1) unsigned_less [of count, where 'a = nat] by simp
  then have r: "block_read D (Some p) lba (of_nat i) buf s = (ERR_OK, buf', u)" using u(2) i(2) assms(2) by (simp add: block_read_def unat_of_nat)
  have "block_cache u \<noteq> []" using block_read_loop_length [OF u(2)] assms(1) by (metis length_0_conv)
  from read_one_poisons [OF u(3) assms(4,2) this] show ?thesis using r i(1) by blast
qed

text \<open>A driver that delivers 5 for every sector but fails on sector 3: after a read of sector 2, sector 3 reads as 5.\<close>

definition sector3_bad :: "(nat, unit) devmem" where
  "sector3_bad = (\<lambda>_. \<lparr>bd_name = [], bd_block_count = 10, bd_block_size = 512,
      bd_read = Some (\<lambda>l n b w. if l = 3 then (ERR_IO, b, w) else (ERR_OK, 5, w)), bd_write = None\<rparr>)"

theorem failed_read_is_cached_witness:
  "let s = snd (snd (block_read sector3_bad (Some 0) 2 1 [0] (bcache_boot 0 ()))); r = block_read sector3_bad (Some 0) 3 1 [0] s in
     fst r = ERR_IO \<and> fst (snd r) = [0] \<and> (\<exists>i d. i < 1 \<and> (\<forall>b. \<exists>t'. block_read sector3_bad (Some 0) (3 + of_nat i) 1 [b] (snd (snd r)) = (ERR_OK, [d], t'))) \<and>
     fst (snd (block_read sector3_bad (Some 0) 3 1 [0] (snd (snd r)))) = [5]"
proof -
  let ?s = "snd (snd (block_read sector3_bad (Some 0) 2 1 [0] (bcache_boot 0 ())))"
  obtain e b t where r: "block_read sector3_bad (Some 0) 3 1 [0] ?s = (e, b, t)" by (cases "block_read sector3_bad (Some 0) 3 1 [0] ?s")
  have c: "fst (block_read sector3_bad (Some 0) 3 1 [0] ?s) = ERR_IO" "fst (snd (block_read sector3_bad (Some 0) 3 1 [0] ?s)) = [0]" "block_cache ?s \<noteq> []"
      "fst (snd (block_read sector3_bad (Some 0) 3 1 [0] (snd (snd (block_read sector3_bad (Some 0) 3 1 [0] ?s))))) = [5]" by code_simp+
  have rd: "bd_read (sector3_bad 0) = Some (\<lambda>l n b w. if l = 3 then (ERR_IO, b, w) else (ERR_OK, 5, w))" by (simp add: sector3_bad_def)
  have w: "fst (cache_evict sector3_bad dev l u) \<noteq> None" for dev l u
    by (simp add: cache_evict_def line_writer_def sector3_bad_def Let_def split: option.split)
  have "\<exists>i d. i < 1 \<and> (\<forall>b. \<exists>t'. block_read sector3_bad (Some 0) (3 + of_nat i) 1 [b] t = (ERR_OK, [d], t'))"
    using failed_read_is_cached [OF c(3) rd r] c(1) r w by auto
  then show ?thesis unfolding Let_def using c r by simp
qed

end
