(* ===== verification/Block_Coherence.thy ===== *)
theory Block_Coherence
  imports Block_Cache
begin

text \<open>
  The coherence of the sector cache. The contract of the drivers is the locale
  \<open>block_devices\<close>; under it the cache and the devices together present one array of sectors
  per device (\<open>view\<close>), reads return it, writes update it and a successful \<open>block_sync\<close> makes it
  the devices' contents. The locale \<open>reliable_devices\<close> adds that the drivers answer every
  request, which makes the layer a refinement of the plain array.
\<close>

section \<open>The contract of the drivers and the coherence of the cache\<close>

text \<open>
  What the cache relies on: \<open>content w p lba\<close> is the sector of device \<open>p\<close> at \<open>lba\<close>. A write that
  succeeds stores exactly that sector, one that fails stores nothing, a read that succeeds
  returns the sector and changes nothing. \<open>addr\<close> are the addresses of a device, \<open>wfd\<close> the
  well-formed sectors and \<open>wfw\<close> the well-formed worlds.
\<close>

locale block_devices =
  fixes D :: "('d, 'w) devmem"
    and content :: "'w \<Rightarrow> nat \<Rightarrow> u64 \<Rightarrow> 'd"
    and addr :: "nat \<Rightarrow> u64 \<Rightarrow> bool"
    and wfd :: "'d \<Rightarrow> bool"
    and wfw :: "'w \<Rightarrow> bool"
  assumes write_ok: "wfw w \<Longrightarrow> bd_write (D p) = Some wr \<Longrightarrow> addr p lba \<Longrightarrow> wfd d \<Longrightarrow>
      wr lba 1 d w = (ERR_OK, w') \<Longrightarrow> wfw w' \<and> content w' = (content w)(p := (content w p)(lba := d))"
    and write_err: "wfw w \<Longrightarrow> bd_write (D p) = Some wr \<Longrightarrow> addr p lba \<Longrightarrow> wfd d \<Longrightarrow>
      wr lba 1 d w = (e, w') \<Longrightarrow> e \<noteq> ERR_OK \<Longrightarrow> wfw w' \<and> content w' = content w"
    and read_ok: "wfw w \<Longrightarrow> bd_read (D p) = Some rd \<Longrightarrow> addr p lba \<Longrightarrow> wfd b \<Longrightarrow>
      rd lba 1 b w = (ERR_OK, d, w') \<Longrightarrow> wfw w' \<and> content w' = content w \<and> d = content w p lba \<and> wfd d"
begin

definition line_ok :: "'w \<Rightarrow> 'd cache_line \<Rightarrow> bool" where
  "line_ok w cl \<longleftrightarrow> wfd (cl_data cl) \<and> (cl_valid cl \<longrightarrow>
     (\<exists>p. cl_dev cl = Some p \<and> addr p (cl_lba cl) \<and>
          (if cl_dirty cl then bd_write (D p) \<noteq> None else cl_data cl = content w p (cl_lba cl))))"

definition same_key :: "'d cache_line \<Rightarrow> 'd cache_line \<Rightarrow> bool" where
  "same_key a b \<longleftrightarrow> cl_valid a \<and> cl_valid b \<and> cl_dev a = cl_dev b \<and> cl_lba a = cl_lba b"

definition coherent :: "('d, 'w) bcache \<Rightarrow> bool" where
  "coherent s \<longleftrightarrow> length (block_cache s) = BLOCK_CACHE_SIZE \<and> wfw (world s) \<and>
     (\<forall>i < BLOCK_CACHE_SIZE. line_ok (world s) (block_cache s ! i)) \<and>
     (\<forall>i < BLOCK_CACHE_SIZE. \<forall>j < BLOCK_CACHE_SIZE.
        same_key (block_cache s ! i) (block_cache s ! j) \<longrightarrow> i = j)"

text \<open>What a client of the block layer sees: the cached sector, else the device's.\<close>

definition view :: "('d, 'w) bcache \<Rightarrow> nat \<Rightarrow> u64 \<Rightarrow> 'd" where
  "view s p l = (case find_idx (line_match (Some p) l) (block_cache s) of
     Some i \<Rightarrow> cl_data (block_cache s ! i) | None \<Rightarrow> content (world s) p l)"

lemma coherentD:
  assumes "coherent s"
  shows "length (block_cache s) = BLOCK_CACHE_SIZE" and "wfw (world s)"
    and "i < BLOCK_CACHE_SIZE \<Longrightarrow> line_ok (world s) (block_cache s ! i)"
    and "i < BLOCK_CACHE_SIZE \<Longrightarrow> j < BLOCK_CACHE_SIZE \<Longrightarrow>
       same_key (block_cache s ! i) (block_cache s ! j) \<Longrightarrow> i = j"
  using assms by (auto simp: coherent_def)

lemma view_hit:
  assumes "coherent s" and "i < BLOCK_CACHE_SIZE" and "line_match (Some p) l (block_cache s ! i)"
  shows "view s p l = cl_data (block_cache s ! i)"
proof -
  have "find_idx (line_match (Some p) l) (block_cache s) = Some i"
    using assms coherentD(1,4) [OF assms(1)]
    by (intro find_idx_unique) (auto simp: line_match_def same_key_def)
  then show ?thesis by (simp add: view_def)
qed

lemma view_miss:
  "find_idx (line_match (Some p) l) (block_cache s) = None \<Longrightarrow> view s p l = content (world s) p l"
  by (simp add: view_def)

lemma view_missI:
  assumes "coherent s" and "\<And>i. i < BLOCK_CACHE_SIZE \<Longrightarrow> \<not> line_match (Some p) l (block_cache s ! i)"
  shows "view s p l = content (world s) p l"
  using assms by (intro view_miss) (simp add: find_idx_None_iff coherentD)

text \<open>
  The one lemma behind every operation: a state whose lines but \<open>k\<close> are those of a coherent
  state \<open>s\<close>, whose line \<open>k\<close> holds the fresh key \<open>(p, l)\<close> with data \<open>d\<close>, and whose devices
  differ from those of \<open>s\<close> at most by the write-back of the old line \<open>k\<close>.
\<close>

definition wrote_back :: "('d, 'w) bcache \<Rightarrow> nat \<Rightarrow> 'w \<Rightarrow> bool" where
  "wrote_back s k w' \<longleftrightarrow> wfw w' \<and>
     (let cl = block_cache s ! k in
      if cl_valid cl \<and> cl_dirty cl then
        (\<exists>q. cl_dev cl = Some q \<and>
          content w' = (content (world s))(q := (content (world s) q)(cl_lba cl := cl_data cl)))
      else content w' = content (world s))"

lemma wrote_back_other:
  assumes "wrote_back s k w'" and "\<not> line_match (Some q) l (block_cache s ! k)"
  shows "content w' q l = content (world s) q l"
  using assms by (auto simp: wrote_back_def line_match_def Let_def split: if_splits)

lemma wrote_back_self:
  assumes "coherent s" and "k < BLOCK_CACHE_SIZE" and "wrote_back s k w'"
    and "line_match (Some q) l (block_cache s ! k)"
  shows "content w' q l = cl_data (block_cache s ! k)"
  using assms coherentD(3) [OF assms(1,2)]
  by (auto simp: wrote_back_def line_match_def line_ok_def Let_def split: if_splits)

lemma line_ok_wrote_back:
  assumes co: "coherent s" and k: "k < BLOCK_CACHE_SIZE" and j: "j < BLOCK_CACHE_SIZE" "j \<noteq> k"
    and wb: "wrote_back s k w'"
  shows "line_ok w' (block_cache s ! j)"
proof (cases "cl_valid (block_cache s ! j)")
  case False
  then show ?thesis using coherentD(3) [OF co j(1)] by (simp add: line_ok_def)
next
  case True
  then obtain q where q: "cl_dev (block_cache s ! j) = Some q"
    using coherentD(3) [OF co j(1)] by (auto simp: line_ok_def)
  have "\<not> line_match (Some q) (cl_lba (block_cache s ! j)) (block_cache s ! k)"
    using coherentD(4) [OF co j(1) k] True q j(2) by (auto simp: line_match_def same_key_def)
  from wrote_back_other [OF wb this] coherentD(3) [OF co j(1)] q show ?thesis
    by (auto simp: line_ok_def)
qed

definition installs ::
  "('d, 'w) bcache \<Rightarrow> ('d, 'w) bcache \<Rightarrow> nat \<Rightarrow> nat \<Rightarrow> u64 \<Rightarrow> bool" where
  "installs s t k p l \<longleftrightarrow> k < BLOCK_CACHE_SIZE \<and>
     find_idx (line_match (Some p) l) (block_cache s) = None \<and>
     length (block_cache t) = BLOCK_CACHE_SIZE \<and>
     (\<forall>j < BLOCK_CACHE_SIZE. j \<noteq> k \<longrightarrow> block_cache t ! j = block_cache s ! j) \<and>
     line_match (Some p) l (block_cache t ! k) \<and> line_ok (world t) (block_cache t ! k) \<and>
     wrote_back s k (world t)"

lemma installsD:
  assumes "installs s t k p l"
  shows "k < BLOCK_CACHE_SIZE" and "find_idx (line_match (Some p) l) (block_cache s) = None"
    and "length (block_cache t) = BLOCK_CACHE_SIZE"
    and "j < BLOCK_CACHE_SIZE \<Longrightarrow> j \<noteq> k \<Longrightarrow> block_cache t ! j = block_cache s ! j"
    and "line_match (Some p) l (block_cache t ! k)" and "line_ok (world t) (block_cache t ! k)"
    and "wrote_back s k (world t)"
  using assms by (auto simp: installs_def)

lemma installs_fresh:
  "coherent s \<Longrightarrow> installs s t k p l \<Longrightarrow> j < BLOCK_CACHE_SIZE \<Longrightarrow>
     \<not> line_match (Some p) l (block_cache s ! j)"
  by (auto simp: installs_def find_idx_None_iff coherent_def)

lemma installs_uniq:
  assumes co: "coherent s" and it: "installs s t k p l"
    and ij: "i < BLOCK_CACHE_SIZE" "j < BLOCK_CACHE_SIZE" "same_key (block_cache t ! i) (block_cache t ! j)"
  shows "i = j"
proof (rule ccontr)
  assume ne: "i \<noteq> j"
  then consider "i \<noteq> k" "j \<noteq> k" | "i = k" "j \<noteq> k" | "i \<noteq> k" "j = k" by blast
  then show False
  proof cases
    case 1
    with ij installsD(4) [OF it] ne coherentD(4) [OF co, of i j] show False by simp
  next
    case 2
    with ij installsD(4,5) [OF it] installs_fresh [OF co it, of j] show False
      by (auto simp: same_key_def line_match_def)
  next
    case 3
    with ij installsD(4,5) [OF it] installs_fresh [OF co it, of i] show False
      by (auto simp: same_key_def line_match_def)
  qed
qed

lemma installs_coherent:
  assumes co: "coherent s" and it: "installs s t k p l"
  shows "coherent t"
proof -
  have "line_ok (world t) (block_cache t ! j)" if "j < BLOCK_CACHE_SIZE" for j
    using that installsD(4,6) [OF it] line_ok_wrote_back [OF co installsD(1) [OF it] _ _ installsD(7) [OF it]]
    by (cases "j = k") auto
  moreover have "wfw (world t)" using installsD(7) [OF it] by (simp add: wrote_back_def)
  ultimately show ?thesis
    unfolding coherent_def using installs_uniq [OF co it] installsD(3) [OF it] by blast
qed

lemma installs_view_uncached:
  assumes co: "coherent s" and it: "installs s t k p l" and ne: "\<not> (q = p \<and> m = l)"
    and none: "find_idx (line_match (Some q) m) (block_cache s) = None"
  shows "view t q m = view s q m"
proof -
  have nos: "\<not> line_match (Some q) m (block_cache s ! j)" if "j < BLOCK_CACHE_SIZE" for j
    using none that coherentD(1) [OF co] by (simp add: find_idx_None_iff)
  have "\<not> line_match (Some q) m (block_cache t ! j)" if "j < BLOCK_CACHE_SIZE" for j
    using nos [OF that] installsD(4) [OF it that] installsD(5) [OF it] ne
    by (cases "j = k") (auto simp: line_match_def)
  then have "view t q m = content (world t) q m"
    by (rule view_missI [OF installs_coherent [OF co it]])
  with wrote_back_other [OF installsD(7) [OF it] nos [OF installsD(1) [OF it]]] view_miss [OF none]
  show ?thesis by simp
qed

lemma installs_view_evicted:
  assumes co: "coherent s" and it: "installs s t k p l" and ne: "\<not> (q = p \<and> m = l)"
    and old: "line_match (Some q) m (block_cache s ! k)"
  shows "view t q m = view s q m"
proof -
  note k = installsD(1) [OF it]
  have "\<not> line_match (Some q) m (block_cache t ! i)" if i: "i < BLOCK_CACHE_SIZE" for i
  proof (cases "i = k")
    case True
    with installsD(5) [OF it] ne show ?thesis by (auto simp: line_match_def)
  next
    case False
    with installsD(4) [OF it i] coherentD(4) [OF co i k] old show ?thesis
      by (auto simp: line_match_def same_key_def)
  qed
  then have "view t q m = content (world t) q m"
    by (rule view_missI [OF installs_coherent [OF co it]])
  with wrote_back_self [OF co k installsD(7) [OF it] old] view_hit [OF co k old] show ?thesis by simp
qed

lemma installs_view:
  assumes co: "coherent s" and it: "installs s t k p l"
  shows "view t = (view s)(p := (view s p)(l := cl_data (block_cache t ! k)))"
proof -
  note cot = installs_coherent [OF co it]
  have "view t q m = view s q m" if ne: "\<not> (q = p \<and> m = l)" for q m
  proof (cases "find_idx (line_match (Some q) m) (block_cache s)")
    case None
    from installs_view_uncached [OF co it ne None] show ?thesis .
  next
    case (Some j)
    then have j: "j < BLOCK_CACHE_SIZE" "line_match (Some q) m (block_cache s ! j)"
      using find_idx_SomeD [OF Some] coherentD(1) [OF co] by auto
    show ?thesis
    proof (cases "j = k")
      case False
      note same = installsD(4) [OF it j(1) False]
      from view_hit [OF cot j(1)] view_hit [OF co j] same j(2) show ?thesis by simp
    qed (use installs_view_evicted [OF co it ne] j in simp)
  qed
  with view_hit [OF cot installsD(1,5) [OF it]] show ?thesis by (intro ext) auto
qed

text \<open>Changes that touch neither the keys and data of the lines nor the devices' contents.\<close>

definition same_line :: "'d cache_line \<Rightarrow> 'd cache_line \<Rightarrow> bool" where
  "same_line a b \<longleftrightarrow> cl_valid a = cl_valid b \<and> cl_dev a = cl_dev b \<and> cl_lba a = cl_lba b \<and>
     cl_dirty a = cl_dirty b \<and> cl_data a = cl_data b"

definition same_cache :: "('d, 'w) bcache \<Rightarrow> ('d, 'w) bcache \<Rightarrow> bool" where
  "same_cache s t \<longleftrightarrow> length (block_cache t) = length (block_cache s) \<and>
     (\<forall>i < BLOCK_CACHE_SIZE. same_line (block_cache s ! i) (block_cache t ! i)) \<and>
     wfw (world t) \<and> content (world t) = content (world s)"

lemma same_line_ok: "same_line a b \<Longrightarrow> content w' = content w \<Longrightarrow> line_ok w' b = line_ok w a"
  by (auto simp: same_line_def line_ok_def)

lemma same_line_key: "same_line a b \<Longrightarrow> same_line c d \<Longrightarrow> same_key b d = same_key a c"
  by (auto simp: same_line_def same_key_def)

lemma same_cache_coherent:
  assumes "coherent s" and "same_cache s t"
  shows "coherent t"
proof -
  have sl: "same_line (block_cache s ! i) (block_cache t ! i)" if "i < BLOCK_CACHE_SIZE" for i
    using assms(2) that by (simp add: same_cache_def)
  then show ?thesis
    using assms same_line_ok [OF sl] same_line_key [OF sl sl]
    by (simp add: coherent_def same_cache_def)
qed

lemma same_cache_view:
  assumes co: "coherent s" and sc: "same_cache s t"
  shows "view t = view s"
proof (intro ext)
  fix p l
  note cot = same_cache_coherent [OF co sc]
  show "view t p l = view s p l"
  proof (cases "find_idx (line_match (Some p) l) (block_cache s)")
    case None
    then have "view t p l = content (world t) p l"
      using sc coherentD(1) [OF co]
      by (intro view_missI [OF cot]) (auto simp: find_idx_None_iff line_match_def same_cache_def same_line_def)
    with view_miss [OF None] sc show ?thesis by (simp add: same_cache_def)
  next
    case (Some i)
    then have i: "i < BLOCK_CACHE_SIZE" "line_match (Some p) l (block_cache s ! i)"
      using find_idx_SomeD [OF Some] coherentD(1) [OF co] by auto
    with sc have "line_match (Some p) l (block_cache t ! i)"
      by (auto simp: line_match_def same_cache_def same_line_def)
    from view_hit [OF cot i(1) this] view_hit [OF co i] sc i(1) show ?thesis
      by (simp add: same_cache_def same_line_def)
  qed
qed

lemma cache_lookup_same:
  assumes "coherent s" and "cache_lookup dev l s = (r, t)"
  shows "same_cache s t" and "r = find_idx (line_match dev l) (block_cache s)"
  using assms coherentD(1,2) [OF assms(1)]
  by (auto simp: cache_lookup_def same_cache_def same_line_def Let_def upd_line_nth
      split: option.splits if_splits)

text \<open>The victim of an eviction is written back when it is dirty.\<close>

lemma dirty_writer:
  assumes "coherent s" and "i < BLOCK_CACHE_SIZE" and "cl_valid (block_cache s ! i)" "cl_dirty (block_cache s ! i)"
  obtains q wr where "cl_dev (block_cache s ! i) = Some q" and "bd_write (D q) = Some wr"
    and "line_writer D (block_cache s ! i) = Some wr" and "addr q (cl_lba (block_cache s ! i))"
    and "wfd (cl_data (block_cache s ! i))"
  using coherentD(3) [OF assms(1,2)] assms(3,4) by (auto simp: line_ok_def line_writer_def)

lemma evict_fail:
  assumes co: "coherent s" and ev: "cache_evict D dev l s = (None, t)"
  shows "same_cache s t"
proof -
  let ?cl = "block_cache s ! evict_index s"
  have k: "evict_index s < BLOCK_CACHE_SIZE"
    using evict_index_bound [of s] coherentD(1) [OF co] by (force simp: BLOCK_CACHE_SIZE_def)
  from ev have d: "cl_valid ?cl" "cl_dirty ?cl"
    by (auto simp: cache_evict_def Let_def split: option.splits if_splits prod.splits)
  obtain q wr where q: "bd_write (D q) = Some wr" "line_writer D ?cl = Some wr"
    "addr q (cl_lba ?cl)" "wfd (cl_data ?cl)"
    using dirty_writer [OF co k d] by blast
  obtain e w' where w: "wr (cl_lba ?cl) 1 (cl_data ?cl) (world s) = (e, w')"
    by (cases "wr (cl_lba ?cl) 1 (cl_data ?cl) (world s)")
  from ev d q(2) w have "e \<noteq> ERR_OK" "t = s\<lparr>world := w'\<rparr>"
    by (auto simp: cache_evict_def Let_def split: if_splits)
  with write_err [OF coherentD(2) [OF co] q(1,3,4) w] show ?thesis
    by (simp add: same_cache_def same_line_def)
qed

lemma evict_claim:
  assumes co: "coherent s" and ev: "cache_evict D dev l s = (Some k, t)"
  shows "k < BLOCK_CACHE_SIZE" and "length (block_cache t) = BLOCK_CACHE_SIZE"
    and "\<forall>j < BLOCK_CACHE_SIZE. j \<noteq> k \<longrightarrow> block_cache t ! j = block_cache s ! j"
    and "line_match dev l (block_cache t ! k) \<and> \<not> cl_dirty (block_cache t ! k) \<and>
      cl_data (block_cache t ! k) = cl_data (block_cache s ! k)"
    and "wrote_back s k (world t)"
proof -
  have ki: "k = evict_index s"
    using ev by (auto simp: cache_evict_def Let_def split: option.splits if_splits prod.splits)
  show k: "k < BLOCK_CACHE_SIZE"
    using evict_index_bound [of s] coherentD(1) [OF co] ki by (force simp: BLOCK_CACHE_SIZE_def)
  show len: "length (block_cache t) = BLOCK_CACHE_SIZE"
    using ev coherentD(1) [OF co]
    by (auto simp: cache_evict_def claim_line_def Let_def split: option.splits if_splits prod.splits)
  show "\<forall>j < BLOCK_CACHE_SIZE. j \<noteq> k \<longrightarrow> block_cache t ! j = block_cache s ! j"
    using ev coherentD(1) [OF co]
    by (auto simp: cache_evict_def claim_line_def Let_def upd_line_nth split: option.splits if_splits prod.splits)
  show "line_match dev l (block_cache t ! k) \<and> \<not> cl_dirty (block_cache t ! k) \<and>
      cl_data (block_cache t ! k) = cl_data (block_cache s ! k)"
    using ev coherentD(1) [OF co] k
    by (auto simp: cache_evict_def claim_line_def Let_def upd_line_nth line_match_def
        split: option.splits if_splits prod.splits)
  show "wrote_back s k (world t)"
  proof (cases "cl_valid (block_cache s ! k) \<and> cl_dirty (block_cache s ! k)")
    case True
    let ?cl = "block_cache s ! k"
    obtain q wr where q: "cl_dev ?cl = Some q" "bd_write (D q) = Some wr" "line_writer D ?cl = Some wr"
      "addr q (cl_lba ?cl)" "wfd (cl_data ?cl)"
      using dirty_writer [OF co k] True by blast
    obtain e w' where w: "wr (cl_lba ?cl) 1 (cl_data ?cl) (world s) = (e, w')"
      by (cases "wr (cl_lba ?cl) 1 (cl_data ?cl) (world s)")
    from ev True q(3) w ki have "e = ERR_OK" "world t = w'"
      by (auto simp: cache_evict_def claim_line_def Let_def split: if_splits)
    with write_ok [OF coherentD(2) [OF co] q(2,4,5)] w True q(1) show ?thesis
      by (auto simp: wrote_back_def Let_def)
  next
    case False
    with ev ki have "world t = world s"
      by (auto simp: cache_evict_def claim_line_def Let_def split: option.splits if_splits)
    with False coherentD(2) [OF co] show ?thesis by (auto simp: wrote_back_def Let_def)
  qed
qed


text \<open>
  A miss: the line is claimed and then filled with data \<open>d\<close>, dirty or not.
\<close>

lemma clean_line_eq: "\<not> cl_dirty l \<Longrightarrow> l\<lparr>cl_data := d, cl_dirty := False\<rparr> = l\<lparr>cl_data := d\<rparr>"
  by (cases l) simp

lemma fill_installs:
  assumes co: "coherent s" and sc: "same_cache s s1"
    and miss: "find_idx (line_match (Some p) l) (block_cache s) = None"
    and ev: "cache_evict D (Some p) l s1 = (Some k, s2)"
    and t: "block_cache t = (block_cache s2)[k := (block_cache s2 ! k)\<lparr>cl_data := d, cl_dirty := b\<rparr>]"
    and w: "wfw (world t)" "content (world t) = content (world s2)"
    and d: "addr p l" "wfd d" "if b then bd_write (D p) \<noteq> None else d = content (world t) p l"
  shows "coherent t \<and> view t = (view s)(p := (view s p)(l := d))"
proof -
  note co1 = same_cache_coherent [OF co sc]
  note e = evict_claim [OF co1 ev]
  have miss1: "find_idx (line_match (Some p) l) (block_cache s1) = None"
    using miss sc coherentD(1) [OF co] coherentD(1) [OF co1]
    by (auto simp: find_idx_None_iff line_match_def same_cache_def same_line_def)
  have "installs s1 t k p l"
    using e miss1 t w d
    by (auto simp: installs_def line_match_def line_ok_def wrote_back_def Let_def nth_list_update)
  from installs_coherent [OF co1 this] installs_view [OF co1 this] t e(1,2) same_cache_view [OF co sc]
  show ?thesis by simp
qed

lemma uncached_content:
  assumes co: "coherent s" and sc: "same_cache s s1"
    and miss: "find_idx (line_match (Some p) l) (block_cache s) = None"
    and ev: "cache_evict D (Some p) l s1 = (Some k, s2)"
  shows "content (world s2) p l = view s p l"
proof -
  note co1 = same_cache_coherent [OF co sc]
  note e = evict_claim [OF co1 ev]
  have "\<not> line_match (Some p) l (block_cache s1 ! k)"
    using miss sc e(1) coherentD(1) [OF co]
    by (auto simp: find_idx_None_iff line_match_def same_cache_def same_line_def)
  from wrote_back_other [OF e(5) this] view_miss [OF miss] sc show ?thesis
    by (simp add: same_cache_def)
qed

theorem read_one_coherent:
  assumes co: "coherent s" and a: "addr p (lba + of_nat i)"
    and rd: "block_read_one D p lba i buf s = (ERR_OK, buf', t)"
  shows "coherent t \<and> view t = view s \<and> buf' = buf[i := view s p (lba + of_nat i)]"
proof -
  let ?l = "lba + of_nat i"
  obtain r s1 where lk: "cache_lookup (Some p) ?l s = (r, s1)" by (cases "cache_lookup (Some p) ?l s")
  note sc = cache_lookup_same(1) [OF co lk] and r = cache_lookup_same(2) [OF co lk]
  note co1 = same_cache_coherent [OF co sc]
  show ?thesis
  proof (cases r)
    case (Some k)
    with r have k: "k < BLOCK_CACHE_SIZE" "line_match (Some p) ?l (block_cache s ! k)"
      using coherentD(1) [OF co] by (auto dest!: find_idx_SomeD [OF sym])
    have "same_cache s t" and buf: "buf' = buf[i := cl_data (block_cache s1 ! k)]"
      using rd lk Some sc by (auto simp: block_read_one_def same_cache_def)
    with same_cache_coherent [OF co] same_cache_view [OF co] view_hit [OF co k] sc k(1)
    show ?thesis by (auto simp: same_cache_def same_line_def)
  next
    case None
    obtain k s2 where ev: "cache_evict D (Some p) ?l s1 = (Some k, s2)"
      using rd lk None by (auto simp: block_read_one_def split: prod.splits option.splits)
    obtain rdr d w' where R: "bd_read (D p) = Some rdr"
      "rdr ?l 1 (cl_data (block_cache s2 ! k)) (world s2) = (ERR_OK, d, w')"
      and bt: "buf' = buf[i := d]"
      "block_cache t = (block_cache s2)[k := (block_cache s2 ! k)\<lparr>cl_data := d\<rparr>]" "world t = w'"
      using rd lk None ev
      by (auto simp: block_read_one_def upd_line_def Let_def split: prod.splits option.splits if_splits)
    note e = evict_claim [OF co1 ev]
    have W: "wfw (world s2)" using e(5) by (simp add: wrote_back_def)
    have B: "wfd (cl_data (block_cache s2 ! k))"
      using e(1,4) coherentD(3) [OF co1] by (simp add: line_ok_def)
    note ro = read_ok [OF W R(1) a B R(2)]
    have c: "content (world s2) p ?l = view s p ?l"
      using uncached_content [OF co sc _ ev] r None by simp
    have "coherent t \<and> view t = (view s)(p := (view s p)(?l := d))"
    proof (rule fill_installs [OF co sc _ ev])
      show "block_cache t = (block_cache s2)[k := (block_cache s2 ! k)\<lparr>cl_data := d, cl_dirty := False\<rparr>]"
        using bt(2) e(4) by (simp add: clean_line_eq)
    qed (use r None ro bt a in auto)
    with ro c bt show ?thesis by auto
  qed
qed


text \<open>A hit overwrites the line in place: the key stays, the line becomes dirty.\<close>

lemma hit_write:
  assumes co: "coherent s" and k: "k < BLOCK_CACHE_SIZE" "line_match (Some p) l (block_cache s ! k)"
    and w: "bd_write (D p) \<noteq> None" and d: "wfd d" and a: "addr p l"
    and t: "t = upd_line k (\<lambda>c. c\<lparr>cl_data := d, cl_dirty := True\<rparr>) s"
  shows "coherent t \<and> view t = (view s)(p := (view s p)(l := d))"
proof -
  let ?t = "\<lambda>j. block_cache t ! j"
  have nth: "?t j = (if j = k then (block_cache s ! j)\<lparr>cl_data := d, cl_dirty := True\<rparr> else block_cache s ! j)"
    if "j < BLOCK_CACHE_SIZE" for j
    using that coherentD(1) [OF co] t by (simp add: upd_line_nth)
  have ok: "line_ok (world t) (?t j)" if "j < BLOCK_CACHE_SIZE" for j
    using nth [OF that] coherentD(3) [OF co that] k(2) w d a t by (auto simp: line_ok_def line_match_def)
  have key: "same_key (?t i) (?t j) = same_key (block_cache s ! i) (block_cache s ! j)"
    if "i < BLOCK_CACHE_SIZE" "j < BLOCK_CACHE_SIZE" for i j
    using nth that by (auto simp: same_key_def)
  have cot: "coherent t"
    unfolding coherent_def using ok key coherentD [OF co] t by auto
  have match: "line_match x y (?t j) = line_match x y (block_cache s ! j)" if "j < BLOCK_CACHE_SIZE" for x y j
    using nth [OF that] by (auto simp: line_match_def)
  have "view t q m = view s q m" if ne: "\<not> (q = p \<and> m = l)" for q m
  proof (cases "find_idx (line_match (Some q) m) (block_cache s)")
    case None
    then have "view t q m = content (world t) q m"
      using coherentD(1) [OF co] match by (intro view_missI [OF cot]) (auto simp: find_idx_None_iff)
    with view_miss [OF None] t show ?thesis by simp
  next
    case (Some j)
    then have j: "j < BLOCK_CACHE_SIZE" "line_match (Some q) m (block_cache s ! j)"
      using find_idx_SomeD [OF Some] coherentD(1) [OF co] by auto
    with k ne have "j \<noteq> k" by (auto simp: line_match_def)
    with view_hit [OF cot j(1)] match [OF j(1)] view_hit [OF co j] nth [OF j(1)] j(2)
    show ?thesis by simp
  qed
  with cot view_hit [OF cot k(1)] match [OF k(1)] k nth [OF k(1)] show ?thesis
    by (auto intro!: ext)
qed

theorem write_one_coherent:
  assumes co: "coherent s" and a: "addr p (lba + of_nat i)" and w: "bd_write (D p) \<noteq> None"
    and d: "wfd (buf ! i)" and wr: "block_write_one D p lba i buf s = (e, t)"
  shows "coherent t \<and>
    view t = (if e = ERR_OK then (view s)(p := (view s p)(lba + of_nat i := buf ! i)) else view s)"
proof -
  let ?l = "lba + of_nat i"
  obtain r s1 where lk: "cache_lookup (Some p) ?l s = (r, s1)" by (cases "cache_lookup (Some p) ?l s")
  note sc = cache_lookup_same(1) [OF co lk] and r = cache_lookup_same(2) [OF co lk]
  note co1 = same_cache_coherent [OF co sc]
  show ?thesis
  proof (cases r)
    case (Some k)
    with r have "k < BLOCK_CACHE_SIZE" "line_match (Some p) ?l (block_cache s1 ! k)"
      using coherentD(1) [OF co] sc
      by (auto dest!: find_idx_SomeD [OF sym] simp: same_cache_def same_line_def line_match_def)
    from hit_write [OF co1 this w d a] same_cache_view [OF co sc] wr lk Some show ?thesis
      by (auto simp: block_write_one_def Let_def)
  next
    case None
    obtain r2 s2 where ev: "cache_evict D (Some p) ?l s1 = (r2, s2)"
      by (cases "cache_evict D (Some p) ?l s1")
    show ?thesis
    proof (cases r2)
      case N: None
      with ev evict_fail [OF co1, of "Some p" ?l s2] wr lk None same_cache_coherent [OF co1] same_cache_view [OF co1]
        same_cache_view [OF co sc] show ?thesis
        by (auto simp: block_write_one_def Let_def)
    next
      case S: (Some k)
      with wr lk None ev have e: "e = ERR_OK"
        and t: "t = upd_line k (\<lambda>c. c\<lparr>cl_data := buf ! i, cl_dirty := True\<rparr>) s2"
        by (auto simp: block_write_one_def Let_def)
      have "wfw (world s2)" using evict_claim(5) [OF co1] ev S by (simp add: wrote_back_def)
      then have "coherent t \<and> view t = (view s)(p := (view s p)(?l := buf ! i))"
        using r None t a d w ev S
        by (intro fill_installs [OF co sc _ _, where b = True]) (auto simp: upd_line_def)
      with e show ?thesis by simp
    qed
  qed
qed


theorem read_loop_coherent:
  "coherent s \<Longrightarrow> \<forall>i \<in> set is. addr p (lba + of_nat i) \<and> i < length buf \<Longrightarrow> distinct is \<Longrightarrow>
   block_read_loop D p lba is buf s = (ERR_OK, buf', t) \<Longrightarrow>
   coherent t \<and> view t = view s \<and> length buf' = length buf \<and>
   (\<forall>j < length buf. buf' ! j = (if j \<in> set is then view s p (lba + of_nat j) else buf ! j))"
proof (induction "is" arbitrary: buf s)
  case Nil
  then show ?case by simp
next
  case (Cons i "is")
  obtain b s1 where one: "block_read_one D p lba i buf s = (ERR_OK, b, s1)"
    and rest: "block_read_loop D p lba is b s1 = (ERR_OK, buf', t)"
    using Cons.prems(4) by (auto split: prod.splits if_splits)
  have r: "coherent s1" "view s1 = view s" "b = buf[i := view s p (lba + of_nat i)]"
    using read_one_coherent [OF Cons.prems(1) _ one] Cons.prems(2) by auto
  have "coherent t \<and> view t = view s1 \<and> length buf' = length b \<and>
     (\<forall>j < length b. buf' ! j = (if j \<in> set is then view s1 p (lba + of_nat j) else b ! j))"
    using Cons.prems r rest by (intro Cons.IH) auto
  with r Cons.prems(2,3) show ?case by (auto simp: nth_list_update)
qed

theorem write_loop_coherent:
  "coherent s \<Longrightarrow> bd_write (D p) \<noteq> None \<Longrightarrow>
   \<forall>i \<in> set is. addr p (lba + of_nat i) \<and> wfd (buf ! i) \<Longrightarrow>
   block_write_loop D p lba is buf s = (ERR_OK, t) \<Longrightarrow>
   coherent t \<and> view t = fold (put_sector p lba buf) is (view s)"
proof (induction "is" arbitrary: s)
  case Nil
  then show ?case by simp
next
  case (Cons i "is")
  obtain s1 where one: "block_write_one D p lba i buf s = (ERR_OK, s1)"
    and rest: "block_write_loop D p lba is buf s1 = (ERR_OK, t)"
    using Cons.prems(4) by (auto split: prod.splits if_splits)
  have r: "coherent s1" "view s1 = put_sector p lba buf i (view s)"
    using write_one_coherent [OF Cons.prems(1) _ Cons.prems(2) _ one] Cons.prems(3)
    by (auto simp: put_sector_def)
  with Cons.IH [OF r(1) Cons.prems(2) _ rest] Cons.prems(3) show ?case by simp
qed

text \<open>Writing a dirty line back: nothing changes for the clients, the line becomes clean.\<close>

lemma write_back_coherent:
  assumes co: "coherent s" and i: "i < BLOCK_CACHE_SIZE"
    and d: "cl_valid (block_cache s ! i)" "cl_dirty (block_cache s ! i)"
    and w: "line_writer D (block_cache s ! i) = Some wr"
      "wr (cl_lba (block_cache s ! i)) 1 (cl_data (block_cache s ! i)) (world s) = (ERR_OK, w')"
    and t: "block_cache t = (block_cache s)[i := (block_cache s ! i)\<lparr>cl_dirty := False\<rparr>]" "world t = w'"
  shows "coherent t \<and> view t = view s"
proof -
  let ?cl = "block_cache s ! i"
  obtain q where q: "cl_dev ?cl = Some q" "bd_write (D q) = Some wr" "addr q (cl_lba ?cl)" "wfd (cl_data ?cl)"
    using dirty_writer [OF co i d] w(1) by (metis option.inject)
  note wo = write_ok [OF coherentD(2) [OF co] q(2,3,4) w(2)]
  have wb: "wrote_back s i w'" using wo d q(1) by (simp add: wrote_back_def)
  have nth: "block_cache t ! j = (if j = i then ?cl\<lparr>cl_dirty := False\<rparr> else block_cache s ! j)"
    if "j < BLOCK_CACHE_SIZE" for j
    using that coherentD(1) [OF co] t(1) by simp
  have ok: "line_ok (world t) (block_cache t ! j)" if "j < BLOCK_CACHE_SIZE" for j
    using nth [OF that] line_ok_wrote_back [OF co i that _ wb] wo q t(2) by (auto simp: line_ok_def)
  have key: "same_key (block_cache t ! j) (block_cache t ! k) = same_key (block_cache s ! j) (block_cache s ! k)"
    if "j < BLOCK_CACHE_SIZE" "k < BLOCK_CACHE_SIZE" for j k
    using nth that by (auto simp: same_key_def)
  have cot: "coherent t"
    unfolding coherent_def using ok key coherentD [OF co] t wo by auto
  have match: "line_match x y (block_cache t ! j) = line_match x y (block_cache s ! j)"
    if "j < BLOCK_CACHE_SIZE" for x y j
    using nth [OF that] by (auto simp: line_match_def)
  have "view t p m = view s p m" for p m
  proof (cases "find_idx (line_match (Some p) m) (block_cache s)")
    case None
    then have none: "\<not> line_match (Some p) m (block_cache s ! j)" if "j < BLOCK_CACHE_SIZE" for j
      using that coherentD(1) [OF co] by (simp add: find_idx_None_iff)
    have "view t p m = content (world t) p m"
      using none match by (intro view_missI [OF cot]) auto
    with wrote_back_other [OF wb none [OF i]] view_miss [OF None] t(2) show ?thesis by simp
  next
    case (Some j)
    then have j: "j < BLOCK_CACHE_SIZE" "line_match (Some p) m (block_cache s ! j)"
      using find_idx_SomeD [OF Some] coherentD(1) [OF co] by auto
    with view_hit [OF cot j(1)] match [OF j(1)] view_hit [OF co j] nth [OF j(1)] show ?thesis by auto
  qed
  with cot show ?thesis by (auto intro!: ext)
qed


theorem sync_loop_coherent:
  "coherent s \<Longrightarrow> \<forall>i \<in> set is. i < BLOCK_CACHE_SIZE \<Longrightarrow> sync_loop D sel is s = (e, t) \<Longrightarrow>
   coherent t \<and> view t = view s"
proof (induction "is" arbitrary: s)
  case Nil
  then show ?case by simp
next
  case (Cons i "is")
  let ?cl = "block_cache s ! i"
  have i: "i < BLOCK_CACHE_SIZE" using Cons.prems(2) by simp
  show ?case
  proof (cases "cl_valid ?cl \<and> cl_dirty ?cl \<and> sel ?cl")
    case False
    with Cons.prems have "sync_loop D sel is s = (e, t)" by (auto simp: Let_def split: option.splits)
    with Cons.IH [OF Cons.prems(1)] Cons.prems(2) show ?thesis by simp
  next
    case True
    obtain q wr where q: "bd_write (D q) = Some wr" "line_writer D ?cl = Some wr"
      "addr q (cl_lba ?cl)" "wfd (cl_data ?cl)"
      using dirty_writer [OF Cons.prems(1) i] True by blast
    obtain e1 w1 where w: "wr (cl_lba ?cl) 1 (cl_data ?cl) (world s) = (e1, w1)"
      by (cases "wr (cl_lba ?cl) 1 (cl_data ?cl) (world s)")
    let ?s1 = "(upd_line i (\<lambda>l. l\<lparr>cl_dirty := False\<rparr>) s)\<lparr>world := w1, cache_writes := cache_writes s + 1\<rparr>"
    show ?thesis
    proof (cases "e1 = ERR_OK")
      case ok: True
      have "coherent ?s1 \<and> view ?s1 = view s"
        by (rule write_back_coherent [OF Cons.prems(1) i _ _ q(2) w [unfolded ok]])
          (use True in \<open>auto simp: upd_line_def\<close>)
      with Cons.IH [of ?s1] Cons.prems True q(2) w ok show ?thesis by (simp add: Let_def)
    next
      case err: False
      with Cons.prems True q(2) w have "t = s\<lparr>world := w1\<rparr>" by (simp add: Let_def)
      with write_err [OF coherentD(2) [OF Cons.prems(1)] q(1,3,4) w err]
      have "same_cache s t" by (simp add: same_cache_def same_line_def)
      with same_cache_coherent same_cache_view Cons.prems(1) show ?thesis by blast
    qed
  qed
qed

text \<open>After a successful pass over the lines no selected line is dirty.\<close>

lemma sync_loop_frame:
  "sync_loop D sel is s = (ERR_OK, t) \<Longrightarrow> \<forall>i \<in> set is. i < length (block_cache s) \<Longrightarrow> j < length (block_cache s) \<Longrightarrow>
     length (block_cache t) = length (block_cache s) \<and>
     (block_cache t ! j = block_cache s ! j \<or> block_cache t ! j = (block_cache s ! j)\<lparr>cl_dirty := False\<rparr>)"
proof (induction "is" arbitrary: s)
  case Nil
  then show ?case by simp
next
  case (Cons i "is")
  let ?s1 = "\<lambda>w. (upd_line i (\<lambda>l. l\<lparr>cl_dirty := False\<rparr>) s)\<lparr>world := w, cache_writes := cache_writes s + 1\<rparr>"
  from Cons.prems(1) consider "sync_loop D sel is s = (ERR_OK, t)"
    | w where "sync_loop D sel is (?s1 w) = (ERR_OK, t)"
    by (auto simp: Let_def split: option.splits if_splits prod.splits)
  then show ?case
  proof cases
    case 1
    with Cons.IH Cons.prems show ?thesis by simp
  next
    case 2
    from Cons.IH [OF this] Cons.prems(2,3) show ?thesis by (auto simp: upd_line_nth split: if_splits)
  qed
qed

lemma sync_loop_Cons:
  "sync_loop D sel (i # is) s =
     (case sync_loop D sel [i] s of (e, t) \<Rightarrow> if e \<noteq> ERR_OK then (e, t) else sync_loop D sel is t)"
  by (auto simp: Let_def split: option.splits prod.splits)

lemma sync_loop_clean:
  assumes "coherent s" and "\<forall>i \<in> set is. i < BLOCK_CACHE_SIZE" and "sync_loop D sel is s = (ERR_OK, t)"
    and "\<And>l. sel (l\<lparr>cl_dirty := False\<rparr>) = sel l" and "j \<in> set is"
  shows "\<not> (cl_valid (block_cache t ! j) \<and> cl_dirty (block_cache t ! j) \<and> sel (block_cache t ! j))"
  using assms
proof (induction "is" arbitrary: s)
  case Nil
  then show ?case by simp
next
  case (Cons i "is")
  let ?cl = "block_cache s ! i"
  have i: "i < BLOCK_CACHE_SIZE" using Cons.prems(2) by simp
  obtain s1 where one: "sync_loop D sel [i] s = (ERR_OK, s1)"
    and rest: "sync_loop D sel is s1 = (ERR_OK, t)"
    using Cons.prems(3) by (subst (asm) sync_loop_Cons) (auto split: prod.splits if_splits)
  have cl: "\<not> (cl_valid (block_cache s1 ! i) \<and> cl_dirty (block_cache s1 ! i) \<and> sel (block_cache s1 ! i))"
  proof (cases "cl_valid ?cl \<and> cl_dirty ?cl")
    case False
    with one show ?thesis by (auto simp: Let_def split: option.splits)
  next
    case True
    then obtain wr where "line_writer D ?cl = Some wr"
      using dirty_writer [OF Cons.prems(1) i] by blast
    with one True i coherentD(1) [OF Cons.prems(1)] show ?thesis
      by (auto simp: Let_def upd_line_nth split: prod.splits if_splits)
  qed
  have co1: "coherent s1" using sync_loop_coherent [OF Cons.prems(1) _ one] i by simp
  show ?case
  proof (cases "j \<in> set is")
    case True
    with Cons.IH [OF co1 _ rest Cons.prems(4)] Cons.prems(2) show ?thesis by simp
  next
    case False
    with Cons.prems(5) have "j = i" by simp
    with sync_loop_frame [OF rest, of i] cl Cons.prems(2,4) i coherentD(1) [OF co1] show ?thesis by auto
  qed
qed

theorem sync_durable:
  assumes co: "coherent s" and sy: "block_sync D s = (ERR_OK, t)"
  shows "content (world t) = view s"
proof -
  have co': "coherent t" "view t = view s"
    using sync_loop_coherent [OF co _ sy [unfolded block_sync_def]] by auto
  have clean: "\<not> (cl_valid (block_cache t ! j) \<and> cl_dirty (block_cache t ! j))" if "j < BLOCK_CACHE_SIZE" for j
    using sync_loop_clean [OF co _ sy [unfolded block_sync_def], of j] that by auto
  have "view t p l = content (world t) p l" for p l
  proof (cases "find_idx (line_match (Some p) l) (block_cache t)")
    case (Some j)
    then have "j < BLOCK_CACHE_SIZE" "line_match (Some p) l (block_cache t ! j)"
      using find_idx_SomeD [OF Some] coherentD(1) [OF co'(1)] by auto
    with view_hit [OF co'(1)] coherentD(3) [OF co'(1)] clean show ?thesis
      by (force simp: line_ok_def line_match_def)
  qed (rule view_miss)
  with co'(2) show ?thesis by (auto intro!: ext)
qed


end

text \<open>
  Drivers that answer every request for one of their addresses, as a RAM disk does. Under this
  contract every call succeeds and the cache implements the plain array.
\<close>

locale reliable_devices = block_devices +
  assumes has_ops: "addr p lba \<Longrightarrow> bd_read (D p) \<noteq> None \<and> bd_write (D p) \<noteq> None"
    and write_total: "wfw w \<Longrightarrow> bd_write (D p) = Some wr \<Longrightarrow> addr p lba \<Longrightarrow> wfd d \<Longrightarrow>
      fst (wr lba 1 d w) = ERR_OK"
    and read_total: "wfw w \<Longrightarrow> bd_read (D p) = Some rd \<Longrightarrow> addr p lba \<Longrightarrow> fst (rd lba 1 b w) = ERR_OK"
begin

definition op_ok :: "'a blk_op \<Rightarrow> bool" where
  "op_ok op = (case op of
     OpRead p lba n \<Rightarrow> bd_read (D p) \<noteq> None \<and> (\<forall>i < unat n. addr p (lba + of_nat i))
   | OpWrite p lba n buf \<Rightarrow> bd_write (D p) \<noteq> None \<and>
       (\<forall>i < unat n. addr p (lba + of_nat i) \<and> wfd (buf ! i))
   | OpFlush p lba n \<Rightarrow> bd_write (D p) \<noteq> None
   | _ \<Rightarrow> True)"

lemma evict_total:
  assumes co: "coherent s"
  shows "fst (cache_evict D dev l s) \<noteq> None"
proof
  assume none: "fst (cache_evict D dev l s) = None"
  let ?cl = "block_cache s ! evict_index s"
  have k: "evict_index s < BLOCK_CACHE_SIZE"
    using evict_index_bound [of s] coherentD(1) [OF co] by (force simp: BLOCK_CACHE_SIZE_def)
  from none have d: "cl_valid ?cl" "cl_dirty ?cl"
    by (auto simp: cache_evict_def Let_def split: option.splits if_splits prod.splits)
  obtain q wr where q: "bd_write (D q) = Some wr" "line_writer D ?cl = Some wr"
    "addr q (cl_lba ?cl)" "wfd (cl_data ?cl)"
    using dirty_writer [OF co k d] by blast
  from write_total [OF coherentD(2) [OF co] q(1,3,4)] none d q(2) show False
    by (auto simp: cache_evict_def Let_def split: prod.splits)
qed

lemma read_one_total:
  assumes co: "coherent s" and a: "addr p (lba + of_nat i)"
  shows "fst (block_read_one D p lba i buf s) = ERR_OK"
proof -
  let ?l = "lba + of_nat i"
  obtain r s1 where lk: "cache_lookup (Some p) ?l s = (r, s1)" by (cases "cache_lookup (Some p) ?l s")
  note co1 = same_cache_coherent [OF co cache_lookup_same(1) [OF co lk]]
  obtain k s2 where ev: "cache_evict D (Some p) ?l s1 = (Some k, s2)"
    using evict_total [OF co1, of "Some p" ?l] by (cases "cache_evict D (Some p) ?l s1") auto
  obtain rd where rd: "bd_read (D p) = Some rd" using has_ops [OF a] by auto
  have "wfw (world s2)" using evict_claim(5) [OF co1 ev] by (simp add: wrote_back_def)
  from read_total [OF this rd a, of "cl_data (block_cache s2 ! k)"] lk ev rd show ?thesis
    by (cases r) (auto simp: block_read_one_def Let_def split: prod.splits)
qed

lemma write_one_total:
  assumes co: "coherent s"
  shows "fst (block_write_one D p lba i buf s) = ERR_OK"
proof -
  let ?l = "lba + of_nat i"
  obtain r s1 where lk: "cache_lookup (Some p) ?l s = (r, s1)" by (cases "cache_lookup (Some p) ?l s")
  note co1 = same_cache_coherent [OF co cache_lookup_same(1) [OF co lk]]
  obtain k s2 where "cache_evict D (Some p) ?l s1 = (Some k, s2)"
    using evict_total [OF co1, of "Some p" ?l] by (cases "cache_evict D (Some p) ?l s1") auto
  with lk show ?thesis by (cases r) (auto simp: block_write_one_def Let_def)
qed


lemma read_loop_total:
  "coherent s \<Longrightarrow> \<forall>i \<in> set is. addr p (lba + of_nat i) \<Longrightarrow> fst (block_read_loop D p lba is buf s) = ERR_OK"
proof (induction "is" arbitrary: buf s)
  case Nil
  then show ?case by simp
next
  case (Cons i "is")
  obtain b s1 where one: "block_read_one D p lba i buf s = (ERR_OK, b, s1)"
    using read_one_total [OF Cons.prems(1), of p lba i buf] Cons.prems(2)
    by (cases "block_read_one D p lba i buf s") auto
  with Cons.IH [of s1 b] read_one_coherent [OF Cons.prems(1) _ one] Cons.prems(2) show ?case by simp
qed

lemma write_loop_total:
  "coherent s \<Longrightarrow> bd_write (D p) \<noteq> None \<Longrightarrow> \<forall>i \<in> set is. addr p (lba + of_nat i) \<and> wfd (buf ! i) \<Longrightarrow>
   fst (block_write_loop D p lba is buf s) = ERR_OK"
proof (induction "is" arbitrary: s)
  case Nil
  then show ?case by simp
next
  case (Cons i "is")
  obtain s1 where one: "block_write_one D p lba i buf s = (ERR_OK, s1)"
    using write_one_total [OF Cons.prems(1), of p lba i buf]
    by (cases "block_write_one D p lba i buf s") auto
  with Cons.IH [of s1] write_one_coherent [OF Cons.prems(1) _ Cons.prems(2) _ one] Cons.prems(2,3)
  show ?case by simp
qed

lemma sync_loop_total:
  "coherent s \<Longrightarrow> \<forall>i \<in> set is. i < BLOCK_CACHE_SIZE \<Longrightarrow> fst (sync_loop D sel is s) = ERR_OK"
proof (induction "is" arbitrary: s)
  case Nil
  then show ?case by simp
next
  case (Cons i "is")
  obtain e s1 where one: "sync_loop D sel [i] s = (e, s1)" by (cases "sync_loop D sel [i] s")
  have "e = ERR_OK"
  proof (cases "cl_valid (block_cache s ! i) \<and> cl_dirty (block_cache s ! i)")
    case False
    with one show ?thesis by (auto simp: Let_def split: option.splits)
  next
    case True
    have "i < BLOCK_CACHE_SIZE" using Cons.prems(2) by simp
    then obtain q wr where q: "bd_write (D q) = Some wr" "line_writer D (block_cache s ! i) = Some wr"
      "addr q (cl_lba (block_cache s ! i))" "wfd (cl_data (block_cache s ! i))"
      using dirty_writer [OF Cons.prems(1)] True by blast
    from write_total [OF coherentD(2) [OF Cons.prems(1)] q(1,3,4)] one True q(2) show ?thesis
      by (auto simp: Let_def split: prod.splits if_splits)
  qed
  with Cons.IH [of s1] sync_loop_coherent [OF Cons.prems(1) _ one] Cons.prems(2) one show ?case
    by (subst sync_loop_Cons) simp
qed

lemma flush_loop_coherent:
  "coherent s \<Longrightarrow> flush_loop D p lba is s = (e, t) \<Longrightarrow> e = ERR_OK \<and> coherent t \<and> view t = view s"
proof (induction "is" arbitrary: s)
  case Nil
  then show ?case by simp
next
  case (Cons i "is")
  let ?sel = "\<lambda>cl. cl_dev cl = Some p \<and> cl_lba cl = lba + of_nat i"
  obtain s1 where one: "sync_loop D ?sel [0..<BLOCK_CACHE_SIZE] s = (ERR_OK, s1)"
    using sync_loop_total [OF Cons.prems(1), of "[0..<BLOCK_CACHE_SIZE]" ?sel]
    by (cases "sync_loop D ?sel [0..<BLOCK_CACHE_SIZE] s") auto
  from sync_loop_coherent [OF Cons.prems(1) _ one] have "coherent s1" "view s1 = view s" by auto
  with Cons.IH [of s1] Cons.prems(2) one show ?case by simp
qed

text \<open>On reliable drivers \<open>block_try_sync\<close> does what \<open>block_sync\<close> does, but for the counter.\<close>

lemma try_sync_loop_coherent:
  "coherent s \<Longrightarrow> \<forall>i \<in> set is. i < BLOCK_CACHE_SIZE \<Longrightarrow>
   coherent (try_sync_loop D is s) \<and> view (try_sync_loop D is s) = view s"
proof (induction "is" arbitrary: s)
  case Nil
  then show ?case by simp
next
  case (Cons i "is")
  let ?cl = "block_cache s ! i"
  have i: "i < BLOCK_CACHE_SIZE" using Cons.prems(2) by simp
  show ?case
  proof (cases "cl_valid ?cl \<and> cl_dirty ?cl")
    case False
    with Cons show ?thesis by (auto simp: Let_def split: option.splits)
  next
    case True
    obtain q wr where q: "bd_write (D q) = Some wr" "line_writer D ?cl = Some wr"
      "addr q (cl_lba ?cl)" "wfd (cl_data ?cl)"
      using dirty_writer [OF Cons.prems(1) i] True by blast
    obtain w1 where w: "wr (cl_lba ?cl) 1 (cl_data ?cl) (world s) = (ERR_OK, w1)"
      using write_total [OF coherentD(2) [OF Cons.prems(1)] q(1,3,4)]
      by (cases "wr (cl_lba ?cl) 1 (cl_data ?cl) (world s)") auto
    let ?s1 = "(upd_line i (\<lambda>l. l\<lparr>cl_dirty := False\<rparr>) s)\<lparr>world := w1\<rparr>"
    have "coherent ?s1 \<and> view ?s1 = view s"
      by (rule write_back_coherent [OF Cons.prems(1) i _ _ q(2) w]) (use True in \<open>auto simp: upd_line_def\<close>)
    with Cons.IH [of ?s1] Cons.prems(2) True q(2) w show ?thesis by (simp add: Let_def)
  qed
qed

text \<open>One call: the same answer as the array and the same array afterwards.\<close>

theorem exec_refines:
  assumes co: "coherent s" and ok: "op_ok op" and ex: "blk_exec D z op s = (r, t)"
  shows "coherent t \<and> spec_exec op (view s) = (r, view t)"
proof (cases op)
  case (OpRead p lba n)
  let ?b = "replicate (unat n) z"
  from ok OpRead have a: "\<forall>i \<in> set [0..<unat n]. addr p (lba + of_nat i)" and rd: "bd_read (D p) \<noteq> None"
    by (auto simp: op_ok_def)
  obtain b where l: "block_read_loop D p lba [0..<unat n] ?b s = (ERR_OK, b, t)" and r: "r = (ERR_OK, b)"
    using read_loop_total [OF co a, of ?b] ex OpRead rd by (auto simp: block_read_def split: prod.splits)
  have "coherent t \<and> view t = view s \<and> length b = length ?b \<and>
     (\<forall>j < length ?b. b ! j = (if j \<in> set [0..<unat n] then view s p (lba + of_nat j) else ?b ! j))"
    by (rule read_loop_coherent [OF co _ _ l]) (use a in auto)
  then show ?thesis using OpRead r by (auto intro!: nth_equalityI)
next
  case (OpWrite p lba n buf)
  from ok OpWrite have a: "\<forall>i \<in> set [0..<unat n]. addr p (lba + of_nat i) \<and> wfd (buf ! i)"
    and w: "bd_write (D p) \<noteq> None" by (auto simp: op_ok_def)
  have l: "block_write_loop D p lba [0..<unat n] buf s = (ERR_OK, t)" and r: "r = (ERR_OK, [])"
    using write_loop_total [OF co w a] ex OpWrite w by (auto simp: block_write_def split: prod.splits)
  from write_loop_coherent [OF co w a l] OpWrite r show ?thesis by simp
next
  case OpSync
  with ex sync_loop_total [OF co, of "[0..<BLOCK_CACHE_SIZE]"] sync_loop_coherent [OF co, of "[0..<BLOCK_CACHE_SIZE]"]
  show ?thesis by (auto simp: block_sync_def split: prod.splits) (metis fst_conv)+
next
  case (OpSyncDev p)
  with ex sync_loop_total [OF co, of "[0..<BLOCK_CACHE_SIZE]"] sync_loop_coherent [OF co, of "[0..<BLOCK_CACHE_SIZE]"]
  show ?thesis by (auto simp: block_sync_dev_def split: prod.splits) (metis fst_conv)+
next
  case (OpFlush p lba n)
  with ex ok show ?thesis
    by (auto simp: block_flush_def op_ok_def split: prod.splits dest!: flush_loop_coherent [OF co])
next
  case (OpTrySync lk)
  with ex try_sync_loop_coherent [OF co, of "[0..<BLOCK_CACHE_SIZE]"] co show ?thesis
    by (auto simp: block_try_sync_def split: if_splits)
qed

theorem run_refines:
  "coherent s \<Longrightarrow> \<forall>op \<in> set ops. op_ok op \<Longrightarrow> run_ops (blk_exec D z) ops s = (rs, t) \<Longrightarrow>
   coherent t \<and> run_ops spec_exec ops (view s) = (rs, view t)"
proof (induction ops arbitrary: s rs)
  case Nil
  then show ?case by simp
next
  case (Cons op ops)
  obtain r s1 where one: "blk_exec D z op s = (r, s1)" by (cases "blk_exec D z op s")
  obtain rs1 where rest: "run_ops (blk_exec D z) ops s1 = (rs1, t)" and rs: "rs = r # rs1"
    using Cons.prems(3) one by (auto split: prod.splits)
  from exec_refines [OF Cons.prems(1) _ one] Cons.prems(2)
  have 1: "coherent s1" "spec_exec op (view s) = (r, view s1)" by auto
  from Cons.IH [OF 1(1) _ rest] Cons.prems(2) 1(2) rs show ?case by simp
qed

lemma boot_coherent: "wfw w \<Longrightarrow> wfd z \<Longrightarrow> coherent (bcache_boot z w)"
  by (auto simp: coherent_def bcache_boot_def line_ok_def same_key_def)

lemma boot_view: "view (bcache_boot z w) = content w"
  by (intro ext)
    (auto simp: view_def bcache_boot_def line_match_def split: option.splits dest!: find_idx_SomeD)

end

end
