(* ===== verification/Ramdisk_Blk.thy ===== *)
theory Ramdisk_Blk
  imports Block_Coherence
begin

text \<open>
  The RAM-backed block device of \<^verbatim>\<open>kernel/ramdisk_blk.c\<close>: a 2 MiB byte array behind the
  \<open>read\<close>/\<open>write\<close> function pointers. \<open>rd_oob\<close> records that a copy has left the array: the C
  code has no such flag, it is how the model makes an access outside the array visible.
\<close>

definition RAMDISK_BLK_SIZE :: nat where
  "RAMDISK_BLK_SIZE = 2 * 1024 * 1024"

record ramdisk =
  rd_data :: "u8 list"
  rd_oob :: bool

type_synonym sector = "u8 list"

text \<open>The bounds check is done in 64-bit arithmetic, as in the source.\<close>

definition rd_offset :: "u64 \<Rightarrow> u64" where
  "rd_offset lba = lba * of_nat BLOCK_SIZE"

definition rd_len :: "u8 \<Rightarrow> u64" where
  "rd_len count = ucast count * of_nat BLOCK_SIZE"

definition ramdisk_blk_read :: "u64 \<Rightarrow> u8 \<Rightarrow> u8 list \<Rightarrow> ramdisk \<Rightarrow> err_t \<times> u8 list \<times> ramdisk" where
  "ramdisk_blk_read lba count buf w =
     (let offset = rd_offset lba; len = rd_len count
      in if offset + len > of_nat RAMDISK_BLK_SIZE then (ERR_NOSPACE, buf, w)
         else if unat offset + unat len > length (rd_data w) then (ERR_OK, buf, w\<lparr>rd_oob := True\<rparr>)
         else (ERR_OK, slice (unat offset) (unat len) (rd_data w) @ drop (unat len) buf, w))"

definition ramdisk_blk_write :: "u64 \<Rightarrow> u8 \<Rightarrow> u8 list \<Rightarrow> ramdisk \<Rightarrow> err_t \<times> ramdisk" where
  "ramdisk_blk_write lba count buf w =
     (let offset = rd_offset lba; len = rd_len count
      in if offset + len > of_nat RAMDISK_BLK_SIZE then (ERR_NOSPACE, w)
         else if unat offset + unat len > length (rd_data w) then (ERR_OK, w\<lparr>rd_oob := True\<rparr>)
         else (ERR_OK, w\<lparr>rd_data := splice (unat offset) (take (unat len) buf) (rd_data w)\<rparr>))"

definition ramdisk_blk_dev :: "(u8 list, ramdisk) block_dev" where
  "ramdisk_blk_dev =
     \<lparr>bd_name = ''ramdisk'', bd_block_count = of_nat (RAMDISK_BLK_SIZE div BLOCK_SIZE),
      bd_block_size = of_nat BLOCK_SIZE,
      bd_read = Some ramdisk_blk_read, bd_write = Some ramdisk_blk_write\<rparr>"

text \<open>\<open>phys\<close> is what \<open>pmm_alloc_pages\<close> returned, 0 when there is no memory.\<close>

definition ramdisk_blk_init ::
  "u64 \<Rightarrow> (u8 list, ramdisk) registry \<Rightarrow> err_t \<times> ramdisk option \<times> (u8 list, ramdisk) registry" where
  "ramdisk_blk_init phys R =
     (if phys = 0 then (ERR_NOMEM, None, R)
      else (ERR_OK, Some \<lparr>rd_data = replicate RAMDISK_BLK_SIZE 0, rd_oob = False\<rparr>,
            snd (block_register (Some ramdisk_blk_dev) R)))"

text \<open>The device memory of a system whose only device structure, at pointer 0, is the RAM disk.\<close>

definition ramdisk_mem :: "(u8 list, ramdisk) devmem" where
  "ramdisk_mem p = (if p = 0 then ramdisk_blk_dev
     else \<lparr>bd_name = [], bd_block_count = 0, bd_block_size = 0, bd_read = None, bd_write = None\<rparr>)"

section \<open>The RAM disk keeps the contract of the drivers\<close>

definition rd_addr :: "nat \<Rightarrow> u64 \<Rightarrow> bool" where
  "rd_addr p lba \<longleftrightarrow> p = 0 \<and> unat lba < RAMDISK_BLK_SIZE div BLOCK_SIZE"

definition rd_content :: "ramdisk \<Rightarrow> nat \<Rightarrow> u64 \<Rightarrow> u8 list" where
  "rd_content w p lba = (if rd_addr p lba then slice (BLOCK_SIZE * unat lba) BLOCK_SIZE (rd_data w) else [])"

definition rd_wf :: "ramdisk \<Rightarrow> bool" where
  "rd_wf w \<longleftrightarrow> length (rd_data w) = RAMDISK_BLK_SIZE \<and> \<not> rd_oob w"

definition sector_wf :: "u8 list \<Rightarrow> bool" where
  "sector_wf d \<longleftrightarrow> length d = BLOCK_SIZE"

lemmas rd_consts = RAMDISK_BLK_SIZE_def BLOCK_SIZE_def

lemma rd_offset_unat: "unat lba < 4096 \<Longrightarrow> unat (rd_offset lba) = 512 * unat lba"
  by (simp add: rd_offset_def rd_consts unat_word_ariths)

lemma rd_len_1: "rd_len 1 = 512"
  by (simp add: rd_len_def rd_consts)

lemma rd_end_unat: "unat lba < 4096 \<Longrightarrow> unat (rd_offset lba + 512) = 512 * unat lba + 512"
  by (simp add: unat_word_ariths rd_offset_unat)

lemma rd_in_bounds: "unat lba < 4096 \<Longrightarrow> \<not> rd_offset lba + 512 > of_nat RAMDISK_BLK_SIZE"
  by (simp add: word_less_nat_alt rd_end_unat rd_consts)

lemma ramdisk_write_in_range:
  assumes "rd_wf w" and "unat lba < 4096" and "sector_wf d"
  shows "ramdisk_blk_write lba 1 d w =
    (ERR_OK, w\<lparr>rd_data := splice (512 * unat lba) d (rd_data w)\<rparr>)"
  using assms rd_in_bounds [OF assms(2)]
  by (simp add: ramdisk_blk_write_def rd_len_1 rd_offset_unat rd_wf_def sector_wf_def Let_def rd_consts)

lemma ramdisk_read_in_range:
  assumes "rd_wf w" and "unat lba < 4096"
  shows "ramdisk_blk_read lba 1 b w =
    (ERR_OK, slice (512 * unat lba) 512 (rd_data w) @ drop 512 b, w)"
  using assms rd_in_bounds [OF assms(2)]
  by (simp add: ramdisk_blk_read_def rd_len_1 rd_offset_unat rd_wf_def Let_def rd_consts)


lemma rd_content_write:
  assumes "rd_wf w" and "rd_addr p lba" and "sector_wf d"
  shows "rd_content (w\<lparr>rd_data := splice (512 * unat lba) d (rd_data w)\<rparr>) =
    (rd_content w)(p := (rd_content w p)(lba := d))"
proof (intro ext)
  fix q m
  let ?w = "w\<lparr>rd_data := splice (512 * unat lba) d (rd_data w)\<rparr>"
  show "rd_content ?w q m = ((rd_content w)(p := (rd_content w p)(lba := d))) q m"
  proof (cases "rd_addr q m \<and> m \<noteq> lba")
    case True
    then have "unat m \<noteq> unat lba" using unsigned_word_eqI by blast
    then have "512 * unat m + 512 \<le> 512 * unat lba \<or> 512 * unat lba + 512 \<le> 512 * unat m" by linarith
    with True assms show ?thesis
      by (auto simp: rd_content_def rd_addr_def rd_wf_def sector_wf_def rd_consts
          intro!: slice_splice_other)
  next
    case False
    with assms show ?thesis by (auto simp: rd_content_def rd_addr_def rd_wf_def sector_wf_def rd_consts)
  qed
qed

lemma ramdisk_mem_ops:
  "bd_read (ramdisk_mem p) = Some f \<longleftrightarrow> p = 0 \<and> f = ramdisk_blk_read"
  "bd_write (ramdisk_mem p) = Some g \<longleftrightarrow> p = 0 \<and> g = ramdisk_blk_write"
  by (auto simp: ramdisk_mem_def ramdisk_blk_dev_def)

lemma rd_addr_bound: "rd_addr p lba \<Longrightarrow> unat lba < 4096"
  by (simp add: rd_addr_def rd_consts)

interpretation rd: reliable_devices ramdisk_mem rd_content rd_addr sector_wf rd_wf
proof (unfold_locales, goal_cases)
  case (1 w p wr lba d w')
  with ramdisk_write_in_range [OF 1(1) rd_addr_bound [OF 1(3)] 1(4)] rd_content_write [OF 1(1,3,4)]
  show ?case by (auto simp: ramdisk_mem_ops rd_wf_def sector_wf_def rd_addr_def rd_consts)
next
  case (2 w p wr lba d e w')
  with ramdisk_write_in_range [OF 2(1) rd_addr_bound [OF 2(3)] 2(4)]
  show ?case by (auto simp: ramdisk_mem_ops)
next
  case (3 w p f lba b d w')
  with ramdisk_read_in_range [OF 3(1) rd_addr_bound [OF 3(3)], of b]
  show ?case by (auto simp: ramdisk_mem_ops rd_content_def rd_wf_def sector_wf_def rd_addr_def rd_consts)
next
  case (4 p lba)
  then show ?case by (auto simp: ramdisk_mem_ops rd_addr_def)
next
  case (5 w p wr lba d)
  with ramdisk_write_in_range [OF 5(1) rd_addr_bound [OF 5(3)] 5(4)]
  show ?case by (auto simp: ramdisk_mem_ops)
next
  case (6 w p f lba b)
  with ramdisk_read_in_range [OF 6(1) rd_addr_bound [OF 6(3)], of b]
  show ?case by (auto simp: ramdisk_mem_ops)
qed


section \<open>Properties\<close>

definition rd_op_ok :: "u8 list blk_op \<Rightarrow> bool" where
  "rd_op_ok op = (case op of
     OpRead p lba n \<Rightarrow> p = 0 \<and> unat lba + unat n \<le> 4096
   | OpWrite p lba n buf \<Rightarrow> p = 0 \<and> unat lba + unat n \<le> 4096 \<and> (\<forall>i < unat n. length (buf ! i) = 512)
   | OpFlush p lba n \<Rightarrow> p = 0
   | _ \<Rightarrow> True)"

lemma rd_addr_range:
  assumes "unat lba + unat n \<le> 4096" and "i < unat (n :: u8)"
  shows "rd_addr 0 (lba + of_nat i)"
proof -
  have "i < 256" using assms(2) unat_u8_less [of n] by simp
  then have "unat (of_nat i :: u64) = i" by (simp add: unat_of_nat)
  then have "unat (lba + of_nat i) \<le> unat lba + i" by (simp add: unat_word_ariths)
  with assms show ?thesis by (simp add: rd_addr_def rd_consts)
qed

lemma rd_op_ok_imp: "rd_op_ok op \<Longrightarrow> rd.op_ok op"
  by (auto simp: rd_op_ok_def rd.op_ok_def rd_addr_range sector_wf_def BLOCK_SIZE_def
      ramdisk_mem_def ramdisk_blk_dev_def split: blk_op.splits)

text \<open>
  C1. The block layer over the RAM disk is an array of sectors: any sequence of reads, writes,
  syncs and flushes inside the disk returns, call by call, what a plain array with the disk's
  initial contents returns. Caching, eviction and write-back are invisible.
\<close>

theorem block_layer_is_array:
  assumes "rd_wf w" and "length z = 512" and "\<forall>op \<in> set ops. rd_op_ok op"
  shows "fst (run_ops (blk_exec ramdisk_mem z) ops (bcache_boot z w)) =
         fst (run_ops spec_exec ops (rd_content w))"
proof -
  obtain rs t where run: "run_ops (blk_exec ramdisk_mem z) ops (bcache_boot z w) = (rs, t)"
    by (cases "run_ops (blk_exec ramdisk_mem z) ops (bcache_boot z w)")
  have "rd.coherent (bcache_boot z w)"
    using assms by (intro rd.boot_coherent) (auto simp: sector_wf_def BLOCK_SIZE_def)
  from rd.run_refines [OF this _ run] assms(3) rd_op_ok_imp run show ?thesis
    by (auto simp: rd.boot_view)
qed

theorem block_layer_is_array_witness:
  "fst (run_ops (blk_exec ramdisk_mem (replicate 512 0))
      [OpWrite 0 5 1 [replicate 512 7], OpWrite 0 6 1 [replicate 512 8], OpSync, OpRead 0 5 1]
      (bcache_boot (replicate 512 0) \<lparr>rd_data = replicate RAMDISK_BLK_SIZE 0, rd_oob = False\<rparr>)) =
   [(ERR_OK, []), (ERR_OK, []), (ERR_OK, []), (ERR_OK, [replicate 512 7])]"
proof -
  have w: "rd_wf \<lparr>rd_data = replicate RAMDISK_BLK_SIZE 0, rd_oob = False\<rparr>" by (simp add: rd_wf_def)
  let ?ops = "[OpWrite 0 5 1 [replicate 512 7], OpWrite 0 6 1 [replicate 512 8], OpSync, OpRead 0 5 1]
    :: u8 list blk_op list"
  have ok: "\<forall>op \<in> set ?ops. rd_op_ok op" by (simp add: rd_op_ok_def)
  show ?thesis
    using block_layer_is_array [OF w _ ok, of "replicate 512 0"] by (simp add: put_sector_def)
qed

text \<open>
  C9. Durability of \<open>block_sync\<close>: after any such sequence of calls a \<open>block_sync\<close> succeeds, and
  then the bytes of the RAM disk itself are the array's.
\<close>

theorem block_sync_durable:
  assumes "rd_wf w" and "length z = 512" and "\<forall>op \<in> set ops. rd_op_ok op"
    and "block_sync ramdisk_mem (snd (run_ops (blk_exec ramdisk_mem z) ops (bcache_boot z w))) = (e, t)"
  shows "e = ERR_OK \<and> rd_content (world t) = snd (run_ops spec_exec ops (rd_content w))"
proof -
  obtain rs s where run: "run_ops (blk_exec ramdisk_mem z) ops (bcache_boot z w) = (rs, s)"
    by (cases "run_ops (blk_exec ramdisk_mem z) ops (bcache_boot z w)")
  have "rd.coherent (bcache_boot z w)"
    using assms by (intro rd.boot_coherent) (auto simp: sector_wf_def BLOCK_SIZE_def)
  from rd.run_refines [OF this _ run] assms(3) rd_op_ok_imp
  have co: "rd.coherent s" and v: "run_ops spec_exec ops (rd_content w) = (rs, rd.view s)"
    by (auto simp: rd.boot_view)
  have sy: "block_sync ramdisk_mem s = (e, t)" using assms(4) run by simp
  have "e = ERR_OK"
    using rd.sync_loop_total [OF co, of "[0..<BLOCK_CACHE_SIZE]"] sy
    by (auto simp: block_sync_def dest!: arg_cong [where f = fst])
  with rd.sync_durable [OF co] sy v show ?thesis by simp
qed

theorem block_sync_durable_witness:
  "\<exists>t. block_sync ramdisk_mem (snd (run_ops (blk_exec ramdisk_mem (replicate 512 0))
        [OpWrite 0 5 1 [replicate 512 7]]
        (bcache_boot (replicate 512 0) \<lparr>rd_data = replicate RAMDISK_BLK_SIZE 0, rd_oob = False\<rparr>))) = (ERR_OK, t) \<and>
     rd_content (world t) 0 5 = replicate 512 7"
proof -
  let ?w = "\<lparr>rd_data = replicate RAMDISK_BLK_SIZE 0, rd_oob = False\<rparr>"
  let ?ops = "[OpWrite 0 5 1 [replicate 512 7]] :: u8 list blk_op list"
  have w: "rd_wf ?w" by (simp add: rd_wf_def)
  have ok: "\<forall>op \<in> set ?ops. rd_op_ok op" by (simp add: rd_op_ok_def)
  obtain e t where sy: "block_sync ramdisk_mem
      (snd (run_ops (blk_exec ramdisk_mem (replicate 512 0)) ?ops (bcache_boot (replicate 512 0) ?w))) = (e, t)"
    by fastforce
  from block_sync_durable [OF w _ ok sy] have "e = ERR_OK" "rd_content (world t) 0 5 = replicate 512 7"
    by (auto simp: put_sector_def)
  with sy show ?thesis by blast
qed

text \<open>
  The RAM disk's bounds check is done in wrapping 64-bit arithmetic, so it can be passed by
  an address far outside the disk: for \<open>lba = 2^55 - 1\<close> the offset is \<open>2^64 - 512\<close>, offset plus
  length wraps to 0, and the write leaves the array.
\<close>

theorem ramdisk_bounds_check_wraps:
  assumes "rd_wf w"
  shows "ramdisk_blk_write (2 ^ 55 - 1) 1 d w = (ERR_OK, w\<lparr>rd_oob := True\<rparr>)"
  using assms by (simp add: ramdisk_blk_write_def rd_offset_def rd_len_def rd_wf_def Let_def rd_consts)

theorem ramdisk_bounds_check_wraps_witness:
  "ramdisk_blk_write (2 ^ 55 - 1) 1 [] \<lparr>rd_data = replicate RAMDISK_BLK_SIZE 0, rd_oob = False\<rparr> =
     (ERR_OK, \<lparr>rd_data = replicate RAMDISK_BLK_SIZE 0, rd_oob = True\<rparr>)"
proof -
  have "rd_wf \<lparr>rd_data = replicate RAMDISK_BLK_SIZE 0, rd_oob = False\<rparr>" by (simp add: rd_wf_def)
  from ramdisk_bounds_check_wraps [OF this, of "[]"] show ?thesis by simp
qed

end
