(* ===== verification/Journal.thy ===== *)
theory Journal
  imports Ramdisk_Blk "HOL-Library.Signed_Division"
begin

text \<open>
  The write-ahead log of \<^verbatim>\<open>kernel/journal.c\<close>: a superblock (\<open>jsb\<close>) and a ring of 255 slots on
  a block device. The operations read and write the device through its driver functions, beside
  the sector cache, and call \<open>block_flush\<close> of the block layer as a barrier. A sector is a list of
  bytes; the packed structures of the source are read and written as its 128 little-endian
  words. \<open>g\<close> is the arbitrary contents of an uninitialised stack buffer. The loops over the ring
  take fuel: \<open>None\<close> is a loop still running.
\<close>

section \<open>Words in sectors\<close>

definition le32 :: "u32 \<Rightarrow> u8 list" where
  "le32 w = [ucast w, ucast (drop_bit 8 w), ucast (drop_bit 16 w), ucast (drop_bit 24 w)]"

definition get32 :: "u8 list \<Rightarrow> nat \<Rightarrow> u32" where
  "get32 b i = ucast (b ! (4 * i)) OR push_bit 8 (ucast (b ! (4 * i + 1))) OR
     push_bit 16 (ucast (b ! (4 * i + 2))) OR push_bit 24 (ucast (b ! (4 * i + 3)))"

definition words_of :: "u8 list \<Rightarrow> u32 list" where
  "words_of b = map (get32 b) [0..<128]"

definition bytes_of :: "u32 list \<Rightarrow> u8 list" where
  "bytes_of ws = concat (map le32 ws)"

section \<open>The structures of the journal\<close>

definition JOURNAL_MAGIC :: u32 where "JOURNAL_MAGIC = 0x4A524E4C"
definition JOURNAL_BLOCKS :: int where "JOURNAL_BLOCKS = 256"
definition JOURNAL_CHECKSUM_SEED :: u32 where "JOURNAL_CHECKSUM_SEED = 0xDEADBEEF"
definition JENT_DATA :: u32 where "JENT_DATA = 2"
definition JENT_COMMIT :: u32 where "JENT_COMMIT = 3"
definition JENT_COUNT :: int where "JENT_COUNT = JOURNAL_BLOCKS - 1"

definition JSB_BLOCK :: "u32 \<Rightarrow> u64" where
  "JSB_BLOCK start = ucast start"

text \<open>The slot number is an \<open>int\<close>, converted to 64 bits by the addition.\<close>

definition JENT_BLOCK :: "u32 \<Rightarrow> int \<Rightarrow> u64" where
  "JENT_BLOCK start i = ucast start + 1 + of_int i"

record jsb_t =
  jsb_magic :: u32
  jsb_seq :: u32
  jsb_head :: u32
  jsb_tail :: u32
  jsb_flags :: u32
  jsb_pad :: "u32 list"
  jsb_checksum :: u32

definition jsb_words :: "jsb_t \<Rightarrow> u32 list" where
  "jsb_words j = [jsb_magic j, jsb_seq j, jsb_head j, jsb_tail j, jsb_flags j] @ jsb_pad j @ [jsb_checksum j]"

definition jsb_of_words :: "u32 list \<Rightarrow> jsb_t" where
  "jsb_of_words ws = \<lparr>jsb_magic = ws ! 0, jsb_seq = ws ! 1, jsb_head = ws ! 2, jsb_tail = ws ! 3,
     jsb_flags = ws ! 4, jsb_pad = take 122 (drop 5 ws), jsb_checksum = ws ! 127\<rparr>"

record jent_data_t =
  jd_type :: u32
  jd_seq :: u32
  jd_block :: u32
  jd_checksum :: u32

text \<open>\<open>pad[496]\<close> and, below, \<open>pad[500]\<close> are zeroed by \<open>kmemset\<close> and never written.\<close>

definition jent_data_words :: "jent_data_t \<Rightarrow> u32 list" where
  "jent_data_words d = [jd_type d, jd_seq d, jd_block d] @ replicate 124 0 @ [jd_checksum d]"

record jent_commit_t =
  jc_type :: u32
  jc_seq :: u32
  jc_checksum :: u32

definition jent_commit_words :: "jent_commit_t \<Rightarrow> u32 list" where
  "jent_commit_words c = [jc_type c, jc_seq c] @ replicate 125 0 @ [jc_checksum c]"

definition journal_checksum :: "u32 list \<Rightarrow> nat \<Rightarrow> u32" where
  "journal_checksum p count = foldl (XOR) JOURNAL_CHECKSUM_SEED (take count p)"

definition JENT_DATA_WORDS :: nat where "JENT_DATA_WORDS = 127"
definition JENT_COMMIT_WORDS :: nat where "JENT_COMMIT_WORDS = 127"
definition JSB_WORDS :: nat where "JSB_WORDS = 127"

text \<open>C's remainder truncates towards zero, like \<open>smod\<close>.\<close>

definition jent_next :: "int \<Rightarrow> int" where
  "jent_next i = (i + 1) smod JENT_COUNT"

definition jspace :: "jsb_t \<Rightarrow> int" where
  "jspace j =
     (if jsb_head j = jsb_tail j then JENT_COUNT - 1
      else if jsb_tail j > jsb_head j then JENT_COUNT - 1 - sint (jsb_tail j - jsb_head j)
      else sint (jsb_head j - jsb_tail j) - 1)"

section \<open>Calls of the driver\<close>

text \<open>
  \<open>bdev->read(bdev, lba, 1, buf)\<close> and \<open>bdev->write(bdev, lba, 1, buf)\<close>. A call through a NULL
  function pointer is a kernel fault; the model answers \<open>ERR_FAULT\<close>.
\<close>

definition dev_read ::
  "(u8 list, 'w) devmem \<Rightarrow> nat \<Rightarrow> u64 \<Rightarrow> u8 list \<Rightarrow> (u8 list, 'w) bcache \<Rightarrow>
     err_t \<times> u8 list \<times> (u8 list, 'w) bcache" where
  "dev_read D p lba buf s = (case bd_read (D p) of
     None \<Rightarrow> (ERR_FAULT, buf, s)
   | Some rd \<Rightarrow> (case rd lba 1 buf (world s) of (e, d, w) \<Rightarrow> (e, d, s\<lparr>world := w\<rparr>)))"

definition dev_write ::
  "(u8 list, 'w) devmem \<Rightarrow> nat \<Rightarrow> u64 \<Rightarrow> u8 list \<Rightarrow> (u8 list, 'w) bcache \<Rightarrow> err_t \<times> (u8 list, 'w) bcache" where
  "dev_write D p lba buf s = (case bd_write (D p) of
     None \<Rightarrow> (ERR_FAULT, s)
   | Some wr \<Rightarrow> (case wr lba 1 buf (world s) of (e, w) \<Rightarrow> (e, s\<lparr>world := w\<rparr>)))"

section \<open>Operations\<close>

text \<open>\<open>jsb.checksum = 0; jsb.checksum = journal_checksum(&jsb, JSB_WORDS)\<close>.\<close>

definition jsb_seal :: "jsb_t \<Rightarrow> jsb_t" where
  "jsb_seal j = (let j0 = j\<lparr>jsb_checksum := 0\<rparr>
     in j0\<lparr>jsb_checksum := journal_checksum (jsb_words j0) JSB_WORDS\<rparr>)"

definition journal_init ::
  "(u8 list, 'w) devmem \<Rightarrow> nat \<Rightarrow> u32 \<Rightarrow> (u8 list, 'w) bcache \<Rightarrow> err_t \<times> (u8 list, 'w) bcache" where
  "journal_init D p start s =
     (let jsb = jsb_seal \<lparr>jsb_magic = JOURNAL_MAGIC, jsb_seq = 1, jsb_head = 0, jsb_tail = 0,
                          jsb_flags = 0, jsb_pad = replicate 122 0, jsb_checksum = 0\<rparr>
      in case dev_write D p (JSB_BLOCK start) (bytes_of (jsb_words jsb)) s of
           (e, s') \<Rightarrow> if e \<noteq> ERR_OK then (e, s') else (ERR_OK, s'))"

text \<open>
  The replay of one committed transaction: the scan from the head to the commit record at \<open>i\<close>.
  The results of the driver are not looked at.
\<close>

fun replay_scan ::
  "nat \<Rightarrow> u8 list \<Rightarrow> (u8 list, 'w) devmem \<Rightarrow> nat \<Rightarrow> u32 \<Rightarrow> int \<Rightarrow> u32 \<Rightarrow> int \<Rightarrow> nat \<Rightarrow>
     (u8 list, 'w) bcache \<Rightarrow> (nat \<times> (u8 list, 'w) bcache) option" where
  "replay_scan 0 g D p start i seq scan recovered s = (if scan = i then Some (recovered, s) else None)"
| "replay_scan (Suc n) g D p start i seq scan recovered s =
     (if scan = i then Some (recovered, s)
      else case dev_read D p (JENT_BLOCK start scan) g s of
        (_, sbuf, s1) \<Rightarrow>
          if words_of sbuf ! 0 = JENT_DATA \<and> words_of sbuf ! 1 = seq then
            (case dev_read D p (JENT_BLOCK start (jent_next scan)) g s1 of
               (_, dblk, s2) \<Rightarrow> (case dev_write D p (ucast (words_of sbuf ! 2)) dblk s2 of
                 (_, s3) \<Rightarrow> replay_scan n g D p start i seq (jent_next (jent_next scan)) (Suc recovered) s3))
          else replay_scan n g D p start i seq (jent_next scan) recovered s1)"

definition entry_checksum :: "u32 list \<Rightarrow> u32" where
  "entry_checksum ws =
     (if ws ! 0 = JENT_DATA then journal_checksum (ws[127 := 0]) JENT_DATA_WORDS
      else if ws ! 0 = JENT_COMMIT then journal_checksum (ws[127 := 0]) JENT_COMMIT_WORDS
      else 0)"

fun recover_loop ::
  "nat \<Rightarrow> nat \<Rightarrow> u8 list \<Rightarrow> (u8 list, 'w) devmem \<Rightarrow> nat \<Rightarrow> u32 \<Rightarrow> int \<Rightarrow> int \<Rightarrow> int \<Rightarrow> nat \<Rightarrow>
     (u8 list, 'w) bcache \<Rightarrow> (nat \<times> (u8 list, 'w) bcache) option" where
  "recover_loop 0 F g D p start head tail i recovered s = (if i = tail then Some (recovered, s) else None)"
| "recover_loop (Suc n) F g D p start head tail i recovered s =
     (if i = tail then Some (recovered, s)
      else case dev_read D p (JENT_BLOCK start i) g s of
        (e, buf, s1) \<Rightarrow>
          if e \<noteq> ERR_OK then Some (recovered, s1)
          else let ws = words_of buf in
            if entry_checksum ws \<noteq> ws ! 127 then
              recover_loop n F g D p start head tail (jent_next i) recovered s1
            else if ws ! 0 = JENT_DATA then
              recover_loop n F g D p start head tail (jent_next (jent_next i)) recovered s1
            else if ws ! 0 = JENT_COMMIT then
              (case replay_scan F g D p start i (ws ! 1) head recovered s1 of
                 None \<Rightarrow> None
               | Some (r, s2) \<Rightarrow> recover_loop n F g D p start head tail (jent_next i) r s2)
            else recover_loop n F g D p start head tail (jent_next i) recovered s1)"

text \<open>The checksum test of the superblock: on a mismatch the journal is taken to be empty.\<close>

definition jsb_verify :: "jsb_t \<Rightarrow> jsb_t" where
  "jsb_verify j =
     (if journal_checksum (jsb_words (j\<lparr>jsb_checksum := 0\<rparr>)) JSB_WORDS \<noteq> jsb_checksum j
      then j\<lparr>jsb_head := 0, jsb_tail := 0\<rparr> else j)"

text \<open>The second component is what is stored through \<open>was_dirty\<close>, \<open>None\<close> when nothing is.\<close>

definition journal_recover ::
  "nat \<Rightarrow> u8 list \<Rightarrow> (u8 list, 'w) devmem \<Rightarrow> nat \<Rightarrow> u32 \<Rightarrow> (u8 list, 'w) bcache \<Rightarrow>
     (err_t \<times> int option \<times> (u8 list, 'w) bcache) option" where
  "journal_recover fuel g D p start s = (case dev_read D p (JSB_BLOCK start) g s of
     (e, buf, s1) \<Rightarrow>
       if e \<noteq> ERR_OK then Some (e, None, s1)
       else if jsb_magic (jsb_of_words (words_of buf)) \<noteq> JOURNAL_MAGIC then Some (ERR_OK, Some 0, s1)
       else let jsb = jsb_verify (jsb_of_words (words_of buf)) in
         (case recover_loop fuel fuel g D p start (sint (jsb_head jsb)) (sint (jsb_tail jsb))
                 (sint (jsb_head jsb)) 0 s1 of
            None \<Rightarrow> None
          | Some (recovered, s2) \<Rightarrow>
              (case dev_write D p (JSB_BLOCK start)
                      (bytes_of (jsb_words (jsb_seal (jsb\<lparr>jsb_head := jsb_tail jsb\<rparr>)))) s2 of
                 (_, s3) \<Rightarrow> Some (ERR_OK, Some (if recovered > 0 then 1 else 0), s3))))"

definition journal_start_txn ::
  "u8 list \<Rightarrow> (u8 list, 'w) devmem \<Rightarrow> nat \<Rightarrow> u32 \<Rightarrow> (u8 list, 'w) bcache \<Rightarrow>
     err_t \<times> u32 option \<times> (u8 list, 'w) bcache" where
  "journal_start_txn g D p start s = (case dev_read D p (JSB_BLOCK start) g s of
     (e, buf, s1) \<Rightarrow> if e \<noteq> ERR_OK then (e, None, s1)
       else (ERR_OK, Some (jsb_seq (jsb_of_words (words_of buf))), s1))"

definition data_entry :: "u32 \<Rightarrow> u32 \<Rightarrow> jent_data_t" where
  "data_entry seq block =
     (let de = \<lparr>jd_type = JENT_DATA, jd_seq = seq, jd_block = block, jd_checksum = 0\<rparr>
      in de\<lparr>jd_checksum := journal_checksum (jent_data_words de) JENT_DATA_WORDS\<rparr>)"

definition commit_entry :: "u32 \<Rightarrow> jent_commit_t" where
  "commit_entry seq =
     (let ce = \<lparr>jc_type = JENT_COMMIT, jc_seq = seq, jc_checksum = 0\<rparr>
      in ce\<lparr>jc_checksum := journal_checksum (jent_commit_words ce) JENT_COMMIT_WORDS\<rparr>)"

text \<open>The results of the two barriers are not looked at.\<close>

definition journal_log ::
  "u8 list \<Rightarrow> (u8 list, 'w) devmem \<Rightarrow> nat \<Rightarrow> u32 \<Rightarrow> u32 \<Rightarrow> u32 \<Rightarrow> u8 list \<Rightarrow> (u8 list, 'w) bcache \<Rightarrow>
     err_t \<times> (u8 list, 'w) bcache" where
  "journal_log g D p start seq block data s = (case dev_read D p (JSB_BLOCK start) g s of
     (e, buf, s1) \<Rightarrow>
       if e \<noteq> ERR_OK then (e, s1)
       else let jsb = jsb_of_words (words_of buf); slot = sint (jsb_tail jsb) in
         if jspace jsb < 3 then (ERR_NOSPACE, s1)
         else (case dev_write D p (JENT_BLOCK start slot) (bytes_of (jent_data_words (data_entry seq block))) s1 of
           (e, s2) \<Rightarrow>
             if e \<noteq> ERR_OK then (e, s2)
             else (case dev_write D p (JENT_BLOCK start (jent_next slot)) data s2 of
               (e, s3) \<Rightarrow>
                 if e \<noteq> ERR_OK then (e, s3)
                 else let s4 = snd (block_flush D (Some p) (JENT_BLOCK start slot) 1 s3);
                          s5 = snd (block_flush D (Some p) (JENT_BLOCK start (jent_next slot)) 1 s4);
                          jsb' = jsb_seal (jsb\<lparr>jsb_tail := of_int (jent_next (jent_next slot))\<rparr>)
                      in (case dev_write D p (JSB_BLOCK start) (bytes_of (jsb_words jsb')) s5 of
                            (e, s6) \<Rightarrow> if e \<noteq> ERR_OK then (e, s6) else (ERR_OK, s6)))))"

definition journal_commit ::
  "u8 list \<Rightarrow> (u8 list, 'w) devmem \<Rightarrow> nat \<Rightarrow> u32 \<Rightarrow> u32 \<Rightarrow> (u8 list, 'w) bcache \<Rightarrow>
     err_t \<times> (u8 list, 'w) bcache" where
  "journal_commit g D p start seq s = (case dev_read D p (JSB_BLOCK start) g s of
     (e, buf, s1) \<Rightarrow>
       if e \<noteq> ERR_OK then (e, s1)
       else let jsb = jsb_of_words (words_of buf); slot = sint (jsb_tail jsb) in
         if jspace jsb < 1 then (ERR_NOSPACE, s1)
         else (case dev_write D p (JENT_BLOCK start slot) (bytes_of (jent_commit_words (commit_entry seq))) s1 of
           (e, s2) \<Rightarrow>
             if e \<noteq> ERR_OK then (e, s2)
             else let s3 = snd (block_flush D (Some p) (JENT_BLOCK start slot) 1 s2);
                      jsb' = jsb_seal (jsb\<lparr>jsb_tail := of_int (jent_next slot), jsb_seq := seq + 1\<rparr>)
                  in (case dev_write D p (JSB_BLOCK start) (bytes_of (jsb_words jsb')) s3 of
                        (e, s4) \<Rightarrow> if e \<noteq> ERR_OK then (e, s4) else (ERR_OK, s4))))"

text \<open>Pass 1 of the checkpoint. The slot number is a \<open>uint32_t\<close> here.\<close>

definition next32 :: "u32 \<Rightarrow> u32" where
  "next32 i = of_int (jent_next (sint i))"

definition JENT_BLOCK32 :: "u32 \<Rightarrow> u32 \<Rightarrow> u64" where
  "JENT_BLOCK32 start i = ucast start + 1 + ucast i"

fun last_commit_scan ::
  "nat \<Rightarrow> u8 list \<Rightarrow> (u8 list, 'w) devmem \<Rightarrow> nat \<Rightarrow> u32 \<Rightarrow> u32 \<Rightarrow> u32 \<Rightarrow> u32 \<Rightarrow> (u8 list, 'w) bcache \<Rightarrow>
     (u32 \<times> (u8 list, 'w) bcache) option" where
  "last_commit_scan 0 g D p start tail scan lc s = (if scan = tail then Some (lc, s) else None)"
| "last_commit_scan (Suc n) g D p start tail scan lc s =
     (if scan = tail then Some (lc, s)
      else case dev_read D p (JENT_BLOCK32 start scan) g s of
        (e, buf, s1) \<Rightarrow>
          if e \<noteq> ERR_OK then Some (lc, s1)
          else last_commit_scan n g D p start tail
                 (if words_of buf ! 0 = JENT_DATA then next32 (next32 scan) else next32 scan)
                 (if words_of buf ! 0 = JENT_COMMIT then next32 scan else lc) s1)"

text \<open>Pass 2.\<close>

fun checkpoint_replay ::
  "nat \<Rightarrow> u8 list \<Rightarrow> (u8 list, 'w) devmem \<Rightarrow> nat \<Rightarrow> u32 \<Rightarrow> u32 \<Rightarrow> u32 \<Rightarrow> (u8 list, 'w) bcache \<Rightarrow>
     (err_t \<times> (u8 list, 'w) bcache) option" where
  "checkpoint_replay 0 g D p start lc scan s = (if scan = lc then Some (ERR_OK, s) else None)"
| "checkpoint_replay (Suc n) g D p start lc scan s =
     (if scan = lc then Some (ERR_OK, s)
      else case dev_read D p (JENT_BLOCK32 start scan) g s of
        (e, buf, s1) \<Rightarrow>
          if e \<noteq> ERR_OK then Some (e, s1)
          else if words_of buf ! 0 = JENT_DATA then
            (case dev_read D p (JENT_BLOCK32 start (next32 scan)) g s1 of
               (e, dblk, s2) \<Rightarrow>
                 if e \<noteq> ERR_OK then Some (e, s2)
                 else (case dev_write D p (ucast (words_of buf ! 2)) dblk s2 of
                   (e, s3) \<Rightarrow>
                     if e \<noteq> ERR_OK then Some (e, s3)
                     else checkpoint_replay n g D p start lc (next32 (next32 scan))
                            (snd (block_flush D (Some p) (ucast (words_of buf ! 2)) 1 s3))))
          else checkpoint_replay n g D p start lc (next32 scan) s1)"

definition journal_checkpoint ::
  "nat \<Rightarrow> u8 list \<Rightarrow> (u8 list, 'w) devmem \<Rightarrow> nat \<Rightarrow> u32 \<Rightarrow> (u8 list, 'w) bcache \<Rightarrow>
     (err_t \<times> (u8 list, 'w) bcache) option" where
  "journal_checkpoint fuel g D p start s = (case dev_read D p (JSB_BLOCK start) g s of
     (e, buf, s1) \<Rightarrow>
       if e \<noteq> ERR_OK then Some (e, s1)
       else let jsb = jsb_of_words (words_of buf) in
         if jsb_head jsb = jsb_tail jsb then Some (ERR_OK, s1)
         else (case last_commit_scan fuel g D p start (jsb_tail jsb) (jsb_head jsb) (jsb_head jsb) s1 of
           None \<Rightarrow> None
         | Some (lc, s2) \<Rightarrow>
             if lc = jsb_head jsb then Some (ERR_OK, s2)
             else (case checkpoint_replay fuel g D p start lc (jsb_head jsb) s2 of
               None \<Rightarrow> None
             | Some (e, s3) \<Rightarrow>
                 if e \<noteq> ERR_OK then Some (e, s3)
                 else Some (dev_write D p (JSB_BLOCK start)
                        (bytes_of (jsb_words (jsb_seal (jsb\<lparr>jsb_head := lc\<rparr>)))) s3))))"

end
