(* ===== verification/Journal_Props.thy ===== *)
theory Journal_Props
  imports Journal
begin

text \<open>
  The correctness of the journal. Its abstract contents are a list of entries (\<open>jent\<close>);
  \<open>journal_at\<close> says that a disk holds them. The locale \<open>journal_device\<close> is what the journal
  relies on: the contract of the drivers, and that a failed request changes nothing; in it every
  operation is shown to refine its effect on the list of entries. \<open>redo\<close> is what a recovery has to
  do.
\<close>

section \<open>Encoding\<close>

lemma length_le32 [simp]: "length (le32 w) = 4"
  by (simp add: le32_def)

lemma length_bytes_of [simp]: "length (bytes_of ws) = 4 * length ws"
  by (induction ws) (simp_all add: bytes_of_def)

lemma bytes_of_nth:
  "i < length ws \<Longrightarrow> k < 4 \<Longrightarrow> bytes_of ws ! (4 * i + k) = le32 (ws ! i) ! k"
proof (induction ws arbitrary: i)
  case (Cons w ws)
  then show ?case by (cases i) (auto simp: bytes_of_def nth_append)
qed simp

lemma join_le32:
  "ucast (ucast w :: u8) OR push_bit 8 (ucast (ucast (drop_bit 8 w) :: u8)) OR
   push_bit 16 (ucast (ucast (drop_bit 16 w) :: u8)) OR
   push_bit 24 (ucast (ucast (drop_bit 24 w) :: u8)) = (w :: u32)"
proof (rule bit_word_eqI)
  fix n
  assume "n < LENGTH(32)"
  then consider "n < 8" | "8 \<le> n" "n < 16" | "16 \<le> n" "n < 24" | "24 \<le> n" "n < 32"
    by (cases "n < 8"; cases "n < 16"; cases "n < 24") auto
  then show "bit (ucast (ucast w :: u8) OR push_bit 8 (ucast (ucast (drop_bit 8 w) :: u8)) OR
      push_bit 16 (ucast (ucast (drop_bit 16 w) :: u8)) OR
      push_bit 24 (ucast (ucast (drop_bit 24 w) :: u8)) :: u32) n = bit w n"
    by cases (auto simp: bit_or_iff bit_push_bit_iff bit_ucast_iff bit_drop_bit_eq)
qed

lemma get32_bytes_of: "i < length ws \<Longrightarrow> get32 (bytes_of ws) i = ws ! i"
  using bytes_of_nth [of i ws 0] bytes_of_nth [of i ws 1] bytes_of_nth [of i ws 2] bytes_of_nth [of i ws 3]
  by (simp add: get32_def le32_def join_le32)

lemma words_of_bytes_of: "length ws = 128 \<Longrightarrow> words_of (bytes_of ws) = ws"
  by (rule nth_equalityI) (simp_all add: words_of_def get32_bytes_of)

section \<open>The ring of slots\<close>

definition ring :: "nat \<Rightarrow> nat \<Rightarrow> nat" where
  "ring h k = (h + k) mod 255"

lemma ring_less [simp]: "ring h k < 255"
  by (simp add: ring_def)

lemma ring_0 [simp]: "h < 255 \<Longrightarrow> ring h 0 = h"
  by (simp add: ring_def)

lemma ring_ring: "ring (ring h k) j = ring h (k + j)"
  by (simp add: ring_def mod_add_left_eq add.assoc)

lemma ring_inj: "k < 255 \<Longrightarrow> k' < 255 \<Longrightarrow> ring h k = ring h k' \<longleftrightarrow> k = k'"
proof -
  have "j = 0" if "(h + k) mod 255 = (h + (k + j)) mod 255" "k + j < 255" for k j
  proof -
    from that(1) have "(255 :: nat) dvd j"
      by (metis add.assoc add_diff_cancel_left' le_add1 mod_eq_dvd_iff_nat)
    with that(2) show ?thesis by (auto elim: dvdE)
  qed
  then show "k < 255 \<Longrightarrow> k' < 255 \<Longrightarrow> ring h k = ring h k' \<longleftrightarrow> k = k'"
    unfolding ring_def by (metis add_eq_self_zero le_add_diff_inverse nat_le_linear)
qed

lemma jent_next_int: "k < 255 \<Longrightarrow> jent_next (int k) = int (ring k 1)"
  by (simp add: jent_next_def JENT_COUNT_def JOURNAL_BLOCKS_def signed_modulo_int_def ring_def zmod_int add.commute)

lemma jent_next_ring: "jent_next (int (ring h k)) = int (ring h (Suc k))"
  by (simp add: jent_next_int ring_ring)

lemma sint_small [simp]: "k < 255 \<Longrightarrow> sint (of_nat k :: u32) = int k"
  by (simp add: signed_of_nat signed_take_bit_int_eq_self)

lemma of_nat_u32_inj: "j < 255 \<Longrightarrow> k < 255 \<Longrightarrow> (of_nat j :: u32) = of_nat k \<longleftrightarrow> j = k"
  by (metis of_nat_eq_iff sint_small)

lemma next32_ring: "next32 (of_nat (ring h k)) = of_nat (ring h (Suc k))"
  by (simp add: next32_def jent_next_ring)

lemma block32_int: "k < 255 \<Longrightarrow> JENT_BLOCK32 start (of_nat k) = JENT_BLOCK start (int k)"
  by (simp add: JENT_BLOCK32_def JENT_BLOCK_def unsigned_of_nat take_bit_nat_eq_self)

lemma unat_slot: "k < 255 \<Longrightarrow> unat (JENT_BLOCK start (int k)) = unat start + 1 + k"
  using unat_u32_less [of start]
  by (simp add: JENT_BLOCK_def unat_word_ariths unsigned_ucast_eq take_bit_nat_eq_self unsigned_of_nat)

lemma unat_jsb: "unat (JSB_BLOCK start) = unat start"
  using unat_u32_less [of start] by (simp add: JSB_BLOCK_def unsigned_ucast_eq take_bit_nat_eq_self)

lemma slot_inj [simp]:
  "j < 255 \<Longrightarrow> k < 255 \<Longrightarrow> JENT_BLOCK start (int j) = JENT_BLOCK start (int k) \<longleftrightarrow> j = k"
  by (metis add_left_cancel unat_slot)

lemma slot_not_jsb [simp]:
  "k < 255 \<Longrightarrow> JENT_BLOCK start (int k) \<noteq> JSB_BLOCK start"
  "k < 255 \<Longrightarrow> JSB_BLOCK start \<noteq> JENT_BLOCK start (int k)"
  by (metis add.assoc less_add_same_cancel1 less_irrefl unat_jsb unat_slot zero_less_Suc plus_1_eq_Suc add_Suc)+

definition in_journal :: "u32 \<Rightarrow> u64 \<Rightarrow> bool" where
  "in_journal start a \<longleftrightarrow> unat start \<le> unat a \<and> unat a \<le> unat start + 255"

lemma in_journal_slots [simp]:
  "in_journal start (JSB_BLOCK start)" "k < 255 \<Longrightarrow> in_journal start (JENT_BLOCK start (int k))"
  by (simp_all add: in_journal_def unat_jsb unat_slot)

section \<open>Entries and the superblock\<close>

lemma data_entry_words:
  "length (jent_data_words (data_entry q b)) = 128"
  "jent_data_words (data_entry q b) ! 0 = JENT_DATA"
  "jent_data_words (data_entry q b) ! Suc 0 = q"
  "jent_data_words (data_entry q b) ! 2 = b"
  "entry_checksum (jent_data_words (data_entry q b)) = jent_data_words (data_entry q b) ! 127"
  by (simp_all add: jent_data_words_def data_entry_def Let_def entry_checksum_def JENT_DATA_WORDS_def
      journal_checksum_def nth_append)

lemma commit_entry_words:
  "length (jent_commit_words (commit_entry q)) = 128"
  "jent_commit_words (commit_entry q) ! 0 = JENT_COMMIT"
  "jent_commit_words (commit_entry q) ! Suc 0 = q"
  "entry_checksum (jent_commit_words (commit_entry q)) = jent_commit_words (commit_entry q) ! 127"
  by (simp_all add: jent_commit_words_def commit_entry_def Let_def entry_checksum_def JENT_COMMIT_WORDS_def
      journal_checksum_def nth_append JENT_COMMIT_def JENT_DATA_def)

lemmas entry_words [simp] = data_entry_words commit_entry_words
  words_of_bytes_of [OF data_entry_words(1)] words_of_bytes_of [OF commit_entry_words(1)]

lemma type_neq [simp]: "JENT_COMMIT \<noteq> JENT_DATA" "JENT_DATA \<noteq> JENT_COMMIT"
  by (simp_all add: JENT_COMMIT_def JENT_DATA_def)

lemma jsb_seal_fields [simp]:
  "jsb_magic (jsb_seal j) = jsb_magic j" "jsb_seq (jsb_seal j) = jsb_seq j"
  "jsb_head (jsb_seal j) = jsb_head j" "jsb_tail (jsb_seal j) = jsb_tail j"
  "jsb_flags (jsb_seal j) = jsb_flags j" "jsb_pad (jsb_seal j) = jsb_pad j"
  by (simp_all add: jsb_seal_def Let_def)

lemma jsb_seal_again:
  "jsb_seal ((jsb_seal j)\<lparr>jsb_head := h\<rparr>) = jsb_seal (j\<lparr>jsb_head := h\<rparr>)"
  "jsb_seal ((jsb_seal j)\<lparr>jsb_tail := t\<rparr>) = jsb_seal (j\<lparr>jsb_tail := t\<rparr>)"
  "jsb_seal ((jsb_seal j)\<lparr>jsb_tail := t, jsb_seq := q\<rparr>) = jsb_seal (j\<lparr>jsb_tail := t, jsb_seq := q\<rparr>)"
  by (simp_all add: jsb_seal_def Let_def)

lemma length_jsb_words: "length (jsb_pad j) = 122 \<Longrightarrow> length (jsb_words j) = 128"
  by (simp add: jsb_words_def)

lemma jsb_of_words_words: "length (jsb_pad j) = 122 \<Longrightarrow> jsb_of_words (jsb_words j) = j"
  by (simp add: jsb_of_words_def jsb_words_def nth_append)

lemma jsb_read_back:
  "length (jsb_pad j) = 122 \<Longrightarrow> jsb_of_words (words_of (bytes_of (jsb_words j))) = j"
  by (simp add: words_of_bytes_of length_jsb_words jsb_of_words_words)

lemma jsb_verify_seal: "jsb_verify (jsb_seal j) = jsb_seal j"
  by (simp add: jsb_verify_def jsb_seal_def Let_def)

lemma jspace_ring:
  assumes h: "h < 255" and n: "n \<le> 254" and j: "jsb_head j = of_nat h" "jsb_tail j = of_nat (ring h n)"
  shows "jspace j = 254 - int n"
proof -
  define t where "t = ring h n"
  have t: "t < 255" "t = (if h + n < 255 then h + n else h + n - 255)"
    using h n by (simp_all add: t_def ring_def mod_if)
  have s: "sint (of_nat a - of_nat b :: u32) = int a - int b" if "b \<le> a" "a < 255" for a b
    using that by (simp flip: of_nat_diff)
  have l: "(of_nat a :: u32) < of_nat b \<longleftrightarrow> a < b" if "a < 255" "b < 255" for a b
    using that by (simp add: word_less_nat_alt unsigned_of_nat take_bit_nat_eq_self)
  have "jspace j = (if h = t then 254 else if h < t then 254 - (int t - int h) else int h - int t - 1)"
    using h t(1) s unfolding jspace_def j t_def [symmetric]
    by (auto simp: of_nat_u32_inj l JENT_COUNT_def JOURNAL_BLOCKS_def)
  then show ?thesis using h n t(2) by (auto split: if_splits)
qed

section \<open>The abstract contents of a journal\<close>

text \<open>A logged block with its transaction and target, or the commit of a transaction.\<close>

datatype jent = JData u32 u32 "u8 list" | JCommit u32

fun enc :: "jent \<Rightarrow> u8 list list" where
  "enc (JData q b d) = [bytes_of (jent_data_words (data_entry q b)), d]"
| "enc (JCommit q) = [bytes_of (jent_commit_words (commit_entry q))]"

definition slots :: "jent list \<Rightarrow> u8 list list" where
  "slots es = concat (map enc es)"

lemma slots_simps [simp]:
  "slots [] = []" "slots (e # es) = enc e @ slots es" "slots (es @ fs) = slots es @ slots fs"
  by (simp_all add: slots_def)

lemma slots_Nil [simp]: "slots es = [] \<longleftrightarrow> es = []"
proof (cases es)
  case (Cons e fs)
  then show ?thesis by (cases e) simp_all
qed simp

lemma slot_count:
  "length (slots []) = 0" "length (slots [JData q b d]) = 2" "length (slots [JData q b d, JCommit q']) = 3"
  "length (slots [JData q b d, JCommit q', JData q'' b' d']) = 5"
  "length (slots [JData q b d, JCommit q', JData q'' b' d', JCommit q3]) = 6"
  by simp_all

definition jsb_at :: "u32 \<Rightarrow> (u64 \<Rightarrow> u8 list) \<Rightarrow> nat \<Rightarrow> nat \<Rightarrow> u32 \<Rightarrow> bool" where
  "jsb_at start C h t q \<longleftrightarrow> (\<exists>fl pad. length pad = 122 \<and> C (JSB_BLOCK start) =
     bytes_of (jsb_words (jsb_seal \<lparr>jsb_magic = JOURNAL_MAGIC, jsb_seq = q, jsb_head = of_nat h,
       jsb_tail = of_nat t, jsb_flags = fl, jsb_pad = pad, jsb_checksum = 0\<rparr>)))"

definition journal_at :: "u32 \<Rightarrow> (u64 \<Rightarrow> u8 list) \<Rightarrow> nat \<Rightarrow> jent list \<Rightarrow> u32 \<Rightarrow> bool" where
  "journal_at start C h es q \<longleftrightarrow> h < 255 \<and> length (slots es) \<le> 254 \<and>
     jsb_at start C h (ring h (length (slots es))) q \<and>
     (\<forall>k < length (slots es). C (JENT_BLOCK start (int (ring h k))) = slots es ! k)"

lemma journal_atD:
  assumes "journal_at start C h es q"
  shows "h < 255" "length (slots es) \<le> 254" "jsb_at start C h (ring h (length (slots es))) q"
    "\<And>k. k < length (slots es) \<Longrightarrow> C (JENT_BLOCK start (int (ring h k))) = slots es ! k"
  using assms by (auto simp: journal_at_def)

lemma journal_at_cong:
  "(\<And>a. in_journal start a \<Longrightarrow> C' a = C a) \<Longrightarrow> journal_at start C' h es q = journal_at start C h es q"
  by (simp add: journal_at_def jsb_at_def)

text \<open>Writing a slot outside the used part of the ring.\<close>

lemma journal_at_unused:
  assumes "journal_at start C h es q" and "length (slots es) \<le> k" and "k < 255"
  shows "journal_at start (C(JENT_BLOCK start (int (ring h k)) := d)) h es q"
  using assms by (auto simp: journal_at_def jsb_at_def ring_inj)

text \<open>Publishing an entry whose slots are already written, by a new superblock.\<close>

abbreviation jsb_image :: "u32 \<Rightarrow> nat \<Rightarrow> nat \<Rightarrow> u32 \<Rightarrow> u32 list \<Rightarrow> jsb_t" where
  "jsb_image q h t fl pad \<equiv> \<lparr>jsb_magic = JOURNAL_MAGIC, jsb_seq = q, jsb_head = of_nat h,
     jsb_tail = of_nat t, jsb_flags = fl, jsb_pad = pad, jsb_checksum = 0\<rparr>"

lemma journal_at_append:
  assumes at: "journal_at start C h es q" and n: "length (slots es) + length (enc e) \<le> 254"
    and new: "\<And>k. k < length (enc e) \<Longrightarrow> C (JENT_BLOCK start (int (ring h (length (slots es) + k)))) = enc e ! k"
    and pad: "length pad = 122"
  shows "journal_at start (C(JSB_BLOCK start := bytes_of (jsb_words (jsb_seal
     (jsb_image q' h (ring h (length (slots es) + length (enc e))) fl pad))))) h (es @ [e]) q'"
proof -
  have "C (JENT_BLOCK start (int (ring h k))) = (slots es @ enc e) ! k"
    if "k < length (slots es) + length (enc e)" for k
    using journal_atD(4) [OF at, of k] new [of "k - length (slots es)"] that
    by (cases "k < length (slots es)") (auto simp: nth_append)
  then show ?thesis
    using journal_atD(1) [OF at] n pad by (auto simp: journal_at_def jsb_at_def)
qed

section \<open>What the journal relies on\<close>

lemma sync_loop_nothing:
  "\<forall>i \<in> set is. \<not> (cl_valid (block_cache s ! i) \<and> cl_dirty (block_cache s ! i) \<and> sel (block_cache s ! i)) \<Longrightarrow>
     sync_loop D sel is s = (ERR_OK, s)"
  by (induction "is") (auto simp: Let_def split: option.splits)

text \<open>The cache holds no unwritten sector of the device: the journal works beside the cache.\<close>

definition no_dirty :: "nat \<Rightarrow> (u8 list, 'w) bcache \<Rightarrow> bool" where
  "no_dirty p s \<longleftrightarrow> length (block_cache s) = BLOCK_CACHE_SIZE \<and>
     (\<forall>i < BLOCK_CACHE_SIZE. \<not> (cl_valid (block_cache s ! i) \<and> cl_dirty (block_cache s ! i) \<and>
        cl_dev (block_cache s ! i) = Some p))"

lemma no_dirty_world [simp]: "no_dirty p (s\<lparr>world := w\<rparr>) = no_dirty p s"
  by (simp add: no_dirty_def)

text \<open>
  The device behind the journal: driver functions that keep the contract of \<open>block_devices\<close>,
  where a failed read changes nothing either, and 256 sectors at \<open>start\<close>.
\<close>

locale journal_device = block_devices D content addr wfd wfw
  for D :: "(u8 list, 'w) devmem" and content addr wfd wfw +
  fixes p :: nat and start :: u32
  assumes read_err: "wfw w \<Longrightarrow> bd_read (D p) = Some rd \<Longrightarrow> addr p lba \<Longrightarrow> wfd b \<Longrightarrow>
      rd lba 1 b w = (e, d, w') \<Longrightarrow> e \<noteq> ERR_OK \<Longrightarrow> wfw w' \<and> content w' = content w"
    and has_read: "bd_read (D p) \<noteq> None"
    and has_write: "bd_write (D p) \<noteq> None"
    and area: "in_journal start a \<Longrightarrow> addr p a"
    and wfd_iff: "wfd d \<longleftrightarrow> length d = 512"
begin

abbreviation disk :: "(u8 list, 'w) bcache \<Rightarrow> u64 \<Rightarrow> u8 list" where
  "disk s \<equiv> content (world s) p"

definition ready :: "(u8 list, 'w) bcache \<Rightarrow> bool" where
  "ready s \<longleftrightarrow> wfw (world s) \<and> no_dirty p s"

lemma read_spec:
  assumes s: "ready s" and a: "addr p a" and g: "length g = 512" and r: "dev_read D p a g s = (e, d, s')"
  shows "ready s'" "disk s' = disk s" "e = ERR_OK \<Longrightarrow> d = disk s a" "e = ERR_OK \<Longrightarrow> length d = 512"
proof -
  obtain rd where rd: "bd_read (D p) = Some rd" using has_read by blast
  obtain w where w: "rd a 1 g (world s) = (e, d, w)" "s' = s\<lparr>world := w\<rparr>"
    using r rd by (auto simp: dev_read_def split: prod.splits)
  have wf: "wfw (world s)" "wfd g" using s g by (simp_all add: ready_def wfd_iff)
  have "wfw w \<and> content w = content (world s) \<and> (e = ERR_OK \<longrightarrow> d = disk s a \<and> wfd d)"
    using read_ok [OF wf(1) rd a wf(2)] read_err [OF wf(1) rd a wf(2) w(1)] w(1) by (cases "e = ERR_OK") auto
  then show "ready s'" "disk s' = disk s" "e = ERR_OK \<Longrightarrow> d = disk s a" "e = ERR_OK \<Longrightarrow> length d = 512"
    using s by (auto simp: w(2) ready_def wfd_iff)
qed

lemma write_spec:
  assumes s: "ready s" and a: "addr p a" and d: "length d = 512" and r: "dev_write D p a d s = (e, s')"
  shows "ready s'" "disk s' = (if e = ERR_OK then (disk s)(a := d) else disk s)"
proof -
  obtain wr where wr: "bd_write (D p) = Some wr" using has_write by blast
  obtain w where w: "wr a 1 d (world s) = (e, w)" "s' = s\<lparr>world := w\<rparr>"
    using r wr by (auto simp: dev_write_def split: prod.splits)
  have wf: "wfw (world s)" "wfd d" using s d by (simp_all add: ready_def wfd_iff)
  have "wfw w \<and> content w p = (if e = ERR_OK then (disk s)(a := d) else disk s)"
    using write_ok [OF wf(1) wr a wf(2)] write_err [OF wf(1) wr a wf(2) w(1)] w(1) by (cases "e = ERR_OK") auto
  then show "ready s'" "disk s' = (if e = ERR_OK then (disk s)(a := d) else disk s)"
    using s by (auto simp: w(2) ready_def)
qed

lemma flush_nothing:
  assumes "ready s"
  shows "block_flush D (Some p) a n s = (ERR_OK, s)"
proof -
  have "sync_loop D (\<lambda>cl. cl_dev cl = Some p \<and> cl_lba cl = b) [0..<BLOCK_CACHE_SIZE] s = (ERR_OK, s)" for b
    using assms by (intro sync_loop_nothing) (auto simp: ready_def no_dirty_def)
  then have "flush_loop D p a is s = (ERR_OK, s)" for "is"
    by (induction "is") simp_all
  then show ?thesis using has_write by (simp add: block_flush_def)
qed

text \<open>Reading the superblock.\<close>

lemma read_jsb:
  assumes s: "ready s" and at: "journal_at start (disk s) h es q" and g: "length g = 512"
    and r: "dev_read D p (JSB_BLOCK start) g s = (ERR_OK, buf, s')"
  obtains fl pad where "length pad = 122"
    "jsb_of_words (words_of buf) = jsb_seal (jsb_image q h (ring h (length (slots es))) fl pad)"
proof -
  from journal_atD(3) [OF at] obtain fl pad where j: "length pad = 122" "disk s (JSB_BLOCK start) =
      bytes_of (jsb_words (jsb_seal (jsb_image q h (ring h (length (slots es))) fl pad)))"
    by (auto simp: jsb_at_def)
  have "buf = disk s (JSB_BLOCK start)"
    using read_spec(3) [OF s area g r] by simp
  with j that show ?thesis by (simp add: jsb_read_back)
qed

lemma append_spec:
  assumes s: "ready s" and at: "journal_at start (disk s) h es q" and pad: "length pad = 122"
    and n: "length (slots es) + length (enc e) \<le> 254"
    and new: "\<And>k. k < length (enc e) \<Longrightarrow>
      disk s (JENT_BLOCK start (int (ring h (length (slots es) + k)))) = enc e ! k"
    and w: "dev_write D p (JSB_BLOCK start) (bytes_of (jsb_words (jsb_seal
      (jsb_image q' h (ring h (length (slots es) + length (enc e))) fl pad)))) s = (er, s')"
  shows "ready s' \<and> (\<forall>a. \<not> in_journal start a \<longrightarrow> disk s' a = disk s a) \<and>
    (if er = ERR_OK then journal_at start (disk s') h (es @ [e]) q' else journal_at start (disk s') h es q)"
proof -
  note ws = write_spec [OF s area _ w]
  have "length (bytes_of (jsb_words (jsb_seal (jsb_image q' h (ring h (length (slots es) + length (enc e))) fl pad)))) = 512"
    using pad by (simp add: length_jsb_words)
  with ws journal_at_append [OF at n new pad] at show ?thesis by auto
qed

text \<open>Writing a slot beyond the tail does not change the contents of the journal.\<close>

lemma slot_write:
  assumes s: "ready s" and at: "journal_at start (disk s) h es q" and d: "length d = 512"
    and k: "length (slots es) \<le> k" "k < 255"
    and w: "dev_write D p (JENT_BLOCK start (int (ring h k))) d s = (e, s')"
  shows "ready s'" "journal_at start (disk s') h es q"
    "disk s' = (if e = ERR_OK then (disk s)(JENT_BLOCK start (int (ring h k)) := d) else disk s)"
  using write_spec [OF s area d w] journal_at_unused [OF at k] at by auto

text \<open>The superblock read by an operation, and the space it computes.\<close>

lemma open_journal:
  assumes s: "ready s" and at: "journal_at start (disk s) h es q" and g: "length g = 512"
  obtains (fail) e buf s1 where "dev_read D p (JSB_BLOCK start) g s = (e, buf, s1)" "e \<noteq> ERR_OK"
      "ready s1" "disk s1 = disk s"
  | (ok) buf s1 fl pad where "dev_read D p (JSB_BLOCK start) g s = (ERR_OK, buf, s1)"
      "ready s1" "disk s1 = disk s" "length pad = 122"
      "jsb_of_words (words_of buf) = jsb_seal (jsb_image q h (ring h (length (slots es))) fl pad)"
      "jspace (jsb_seal (jsb_image q h (ring h (length (slots es))) fl pad)) = 254 - int (length (slots es))"
proof -
  obtain e0 buf s1 where r: "dev_read D p (JSB_BLOCK start) g s = (e0, buf, s1)" by (metis prod_cases3)
  note rs = read_spec(1,2) [OF s area g r, simplified]
  show thesis
  proof (cases "e0 = ERR_OK")
    case False
    from fail [OF r False rs] show thesis .
  next
    case True
    note r' = r [unfolded True]
    obtain fl pad where j: "length pad = 122"
        "jsb_of_words (words_of buf) = jsb_seal (jsb_image q h (ring h (length (slots es))) fl pad)"
      using read_jsb [OF s at g r'] .
    have "jspace (jsb_seal (jsb_image q h (ring h (length (slots es))) fl pad)) = 254 - int (length (slots es))"
      using journal_atD(1,2) [OF at] by (intro jspace_ring) auto
    from ok [OF r' rs j this] show thesis .
  qed
qed

lemma log_spec:
  assumes s: "ready s" and at: "journal_at start (disk s) h es q" and g: "length g = 512"
    and data: "length data = 512" and l: "journal_log g D p start seq block data s = (e, s')"
  shows "ready s' \<and> (\<forall>a. \<not> in_journal start a \<longrightarrow> disk s' a = disk s a) \<and>
    journal_at start (disk s') h (if e = ERR_OK then es @ [JData seq block data] else es) q"
  using s at g
proof (cases rule: open_journal)
  case (fail e0 buf s1)
  with l at show ?thesis by (auto simp: journal_log_def)
next
  case (ok buf s1 fl pad)
  let ?n = "length (slots es)" and ?de = "bytes_of (jent_data_words (data_entry seq block))"
  let ?a = "\<lambda>k. JENT_BLOCK start (int (ring h (?n + k)))"
  show ?thesis
  proof (cases "?n \<le> 251")
    case False
    with l ok at show ?thesis by (auto simp: journal_log_def Let_def)
  next
    case n: True
    obtain e1 s2 where w1: "dev_write D p (?a 0) ?de s1 = (e1, s2)" by (metis prod.exhaust)
    obtain e2 s3 where w2: "dev_write D p (?a 1) data s2 = (e2, s3)" by (metis prod.exhaust)
    have at1: "journal_at start (disk s1) h es q" using at ok(3) by simp
    note x1 = slot_write [OF ok(2) at1 _ _ _ w1, simplified]
    note x2 = slot_write [OF x1(1,2) data _ _ w2, simplified]
    let ?jsb = "jsb_image q h (ring h (?n + length (enc (JData seq block data)))) fl pad"
    obtain e3 s4 where w3: "dev_write D p (JSB_BLOCK start) (bytes_of (jsb_words (jsb_seal ?jsb))) s3 = (e3, s4)"
      by (metis prod.exhaust)
    have res: "(e, s') = (if e1 \<noteq> ERR_OK then (e1, s2) else if e2 \<noteq> ERR_OK then (e2, s3) else (e3, s4))"
      using l ok n w1 w2 w3 flush_nothing [of s3] x1 x2
      by (auto simp: journal_log_def Let_def jent_next_ring jsb_seal_again numeral_2_eq_2 split: if_splits)
    show ?thesis
    proof (cases "e1 = ERR_OK \<and> e2 = ERR_OK")
      case False
      with res x1 x2 n ok(3) show ?thesis by (auto split: if_splits)
    next
      case True
      then have new: "disk s3 (?a k) = enc (JData seq block data) ! k" if "k < 2" for k
        using that n x1(3) x2(3) by (auto simp: less_2_cases_iff ring_inj)
      from append_spec [OF _ _ ok(4) _ _ w3] x2 new True res n x1 ok(3) show ?thesis by auto
    qed
  qed
qed

lemma commit_spec:
  assumes s: "ready s" and at: "journal_at start (disk s) h es q" and g: "length g = 512"
    and l: "journal_commit g D p start seq s = (e, s')"
  shows "ready s' \<and> (\<forall>a. \<not> in_journal start a \<longrightarrow> disk s' a = disk s a) \<and>
    (if e = ERR_OK then journal_at start (disk s') h (es @ [JCommit seq]) (seq + 1)
     else journal_at start (disk s') h es q)"
  using s at g
proof (cases rule: open_journal)
  case (fail e0 buf s1)
  with l at show ?thesis by (auto simp: journal_commit_def)
next
  case (ok buf s1 fl pad)
  let ?n = "length (slots es)" and ?ce = "bytes_of (jent_commit_words (commit_entry seq))"
  let ?a = "JENT_BLOCK start (int (ring h ?n))"
  show ?thesis
  proof (cases "?n \<le> 253")
    case False
    with l ok at show ?thesis by (auto simp: journal_commit_def Let_def)
  next
    case n: True
    obtain e1 s2 where w1: "dev_write D p ?a ?ce s1 = (e1, s2)" by (metis prod.exhaust)
    have at1: "journal_at start (disk s1) h es q" using at ok(3) by simp
    note x1 = slot_write [OF ok(2) at1 _ _ _ w1, simplified]
    let ?jsb = "jsb_image (seq + 1) h (ring h (?n + length (enc (JCommit seq)))) fl pad"
    obtain e3 s4 where w3: "dev_write D p (JSB_BLOCK start) (bytes_of (jsb_words (jsb_seal ?jsb))) s2 = (e3, s4)"
      by (metis prod.exhaust)
    have res: "(e, s') = (if e1 \<noteq> ERR_OK then (e1, s2) else (e3, s4))"
      using l ok n w1 w3 flush_nothing [of s2] x1
      by (auto simp: journal_commit_def Let_def jent_next_ring jsb_seal_again split: if_splits)
    show ?thesis
    proof (cases "e1 = ERR_OK")
      case False
      with res x1 n ok(3) show ?thesis by (auto split: if_splits)
    next
      case True
      then have new: "disk s2 (JENT_BLOCK start (int (ring h (?n + k)))) = enc (JCommit seq) ! k" if "k < 1" for k
        using that n x1(3) by auto
      from append_spec [OF _ _ ok(4) _ _ w3] x1 new True res n ok(3) show ?thesis by auto
    qed
  qed
qed

lemma init_spec:
  assumes s: "ready s" and l: "journal_init D p start s = (e, s')"
  shows "ready s' \<and> (\<forall>a. \<not> in_journal start a \<longrightarrow> disk s' a = disk s a) \<and>
    (e = ERR_OK \<longrightarrow> journal_at start (disk s') 0 [] 1)"
proof -
  let ?j = "jsb_image 1 0 0 0 (replicate 122 0)"
  have w: "dev_write D p (JSB_BLOCK start) (bytes_of (jsb_words (jsb_seal ?j))) s = (e, s')"
    using l by (auto simp: journal_init_def Let_def split: prod.splits if_splits)
  have "length (bytes_of (jsb_words (jsb_seal ?j))) = 512" by (simp add: length_jsb_words)
  from write_spec [OF s area this w] show ?thesis
    by (auto simp: journal_at_def jsb_at_def intro!: exI [of _ 0] exI [of _ "replicate 122 0"])
qed

lemma start_txn_spec:
  assumes s: "ready s" and at: "journal_at start (disk s) h es q" and g: "length g = 512"
    and l: "journal_start_txn g D p start s = (e, r, s')"
  shows "ready s' \<and> disk s' = disk s \<and> (e = ERR_OK \<longrightarrow> r = Some q)"
  using s at g
proof (cases rule: open_journal)
  case (fail e0 buf s1)
  with l show ?thesis by (auto simp: journal_start_txn_def)
next
  case (ok buf s1 fl pad)
  with l show ?thesis by (auto simp: journal_start_txn_def)
qed

end

section \<open>What a recovery has to do\<close>

text \<open>
  The blocks of transaction \<open>q\<close> go to their targets, in the order of the log; a recovery does this
  for every commit record, with the entries before it.
\<close>

fun apply_entry :: "u32 \<Rightarrow> jent \<Rightarrow> (u64 \<Rightarrow> u8 list) \<Rightarrow> u64 \<Rightarrow> u8 list" where
  "apply_entry q (JData q' b d) C = (if q' = q then C(ucast b := d) else C)"
| "apply_entry q (JCommit q') C = C"

definition apply_txn :: "u32 \<Rightarrow> jent list \<Rightarrow> (u64 \<Rightarrow> u8 list) \<Rightarrow> u64 \<Rightarrow> u8 list" where
  "apply_txn q es C = fold (apply_entry q) es C"

fun redo :: "jent list \<Rightarrow> jent list \<Rightarrow> (u64 \<Rightarrow> u8 list) \<Rightarrow> u64 \<Rightarrow> u8 list" where
  "redo pre [] C = C"
| "redo pre (JData q b d # es) C = redo (pre @ [JData q b d]) es C"
| "redo pre (JCommit q # es) C = redo (pre @ [JCommit q]) es (apply_txn q pre C)"

fun hit :: "u32 \<Rightarrow> jent \<Rightarrow> nat" where
  "hit q (JData q' b d) = (if q' = q then 1 else 0)"
| "hit q (JCommit q') = 0"

definition hits :: "u32 \<Rightarrow> jent list \<Rightarrow> nat" where
  "hits q es = sum_list (map (hit q) es)"

fun redone :: "jent list \<Rightarrow> jent list \<Rightarrow> nat" where
  "redone pre [] = 0"
| "redone pre (JData q b d # es) = redone (pre @ [JData q b d]) es"
| "redone pre (JCommit q # es) = hits q pre + redone (pre @ [JCommit q]) es"

lemma apply_txn_simps [simp]:
  "apply_txn q [] C = C" "apply_txn q (e # es) C = apply_txn q es (apply_entry q e C)"
  "apply_txn q (es @ fs) C = apply_txn q fs (apply_txn q es C)"
  by (simp_all add: apply_txn_def)

lemma hits_simps [simp]: "hits q [] = 0" "hits q (e # es) = hit q e + hits q es"
  "hits q (es @ fs) = hits q es + hits q fs"
  by (simp_all add: hits_def)

text \<open>
  Targets lie on the device outside the journal. No logged block looks like the descriptor of a
  block of another committed transaction: the replay of the source also parses the copies of
  the blocks of other transactions as if they were descriptors.
\<close>

definition targets_ok :: "(u64 \<Rightarrow> bool) \<Rightarrow> u32 \<Rightarrow> jent list \<Rightarrow> bool" where
  "targets_ok A start es \<longleftrightarrow> (\<forall>q b d. JData q b d \<in> set es \<longrightarrow>
     A (ucast b) \<and> \<not> in_journal start (ucast b) \<and> length d = 512)"

definition no_alias :: "u32 \<Rightarrow> jent list \<Rightarrow> bool" where
  "no_alias q es \<longleftrightarrow> (\<forall>q' b d. JData q' b d \<in> set es \<longrightarrow> q' \<noteq> q \<longrightarrow>
     \<not> (words_of d ! 0 = JENT_DATA \<and> words_of d ! 1 = q))"

lemma apply_txn_outside:
  "targets_ok A start es \<Longrightarrow> in_journal start a \<Longrightarrow> apply_txn q es C a = C a"
proof (induction es arbitrary: C)
  case (Cons e es)
  then show ?case by (cases e) (auto simp: targets_ok_def)
qed simp

lemma journal_at_target [simp]:
  "\<not> in_journal start a \<Longrightarrow> journal_at start (C(a := d)) h es q = journal_at start C h es q"
  by (rule journal_at_cong) auto

lemma journal_at_apply_txn:
  "targets_ok A start es \<Longrightarrow> journal_at start (apply_txn q es C) h fs q0 = journal_at start C h fs q0"
  by (rule journal_at_cong) (rule apply_txn_outside)

lemma journal_entry_at:
  assumes "journal_at start C h (d1 @ e # d2) q" and "k < length (enc e)"
  shows "C (JENT_BLOCK start (int (ring h (length (slots d1) + k)))) = enc e ! k"
  using journal_atD(4) [OF assms(1), of "length (slots d1) + k"] assms(2) by (simp add: nth_append)

locale journal_reliable = journal_device +
  assumes write_total: "wfw w \<Longrightarrow> bd_write (D p) = Some wr \<Longrightarrow> addr p lba \<Longrightarrow> wfd d \<Longrightarrow>
      fst (wr lba 1 d w) = ERR_OK"
    and read_total: "wfw w \<Longrightarrow> bd_read (D p) = Some rd \<Longrightarrow> addr p lba \<Longrightarrow> fst (rd lba 1 b w) = ERR_OK"
begin

lemma read_eq:
  assumes "ready s" and "addr p a" and "length g = 512"
  obtains s' where "dev_read D p a g s = (ERR_OK, disk s a, s')" "ready s'" "disk s' = disk s"
proof -
  obtain e d s' where r: "dev_read D p a g s = (e, d, s')" by (metis prod_cases3)
  then have "e = ERR_OK"
    using read_total [of "world s" _ a g] assms has_read
    by (auto simp: dev_read_def ready_def split: prod.splits)
  with r read_spec [OF assms r] that show ?thesis by simp
qed

lemma write_eq:
  assumes "ready s" and "addr p a" and "length d = 512"
  obtains s' where "dev_write D p a d s = (ERR_OK, s')" "ready s'" "disk s' = (disk s)(a := d)"
proof -
  obtain e s' where r: "dev_write D p a d s = (e, s')" by (metis prod.exhaust)
  then have "e = ERR_OK"
    using write_total [of "world s" _ a d] assms has_write
    by (auto simp: dev_write_def ready_def wfd_iff split: prod.splits)
  with r write_spec [OF assms r] that show ?thesis by simp
qed

text \<open>One entry of the log in the replay of transaction \<open>q\<close>.\<close>

lemma replay_entry:
  assumes s: "ready s" and at: "journal_at start (disk s) h (d1 @ e # d3) q0" and g: "length g = 512"
    and t: "targets_ok (addr p) start [e]" and na: "no_alias q [e]" and n: "length (enc e) \<le> n"
    and pos: "\<And>k. k < length (enc e) \<Longrightarrow> int (ring h (length (slots d1) + k)) \<noteq> i"
  shows "\<exists>s' m. n \<le> m + length (enc e) \<and> ready s' \<and> disk s' = apply_entry q e (disk s) \<and>
    replay_scan n g D p start i q (int (ring h (length (slots d1)))) r s =
    replay_scan m g D p start i q (int (ring h (length (slots (d1 @ [e]))))) (r + hit q e) s'"
proof -
  let ?a = "\<lambda>k. JENT_BLOCK start (int (ring h (length (slots d1) + k)))"
  note cont = journal_entry_at [OF at]
  obtain s1 where r1: "dev_read D p (?a 0) g s = (ERR_OK, disk s (?a 0), s1)" "ready s1" "disk s1 = disk s"
    using read_eq [OF s area g, of "?a 0"] by auto
  show ?thesis
  proof (cases e)
    case (JCommit q')
    then obtain m where m: "n = Suc m" using n by (cases n) auto
    show ?thesis
      using r1 cont [of 0] pos [of 0] JCommit
      by (intro exI [of _ s1] exI [of _ m]) (simp add: m jent_next_ring)
  next
    case (JData q' b d)
    then obtain m where m: "n = Suc (Suc m)" using n by (cases n; cases "n - 1") auto
    obtain s2 where r2: "dev_read D p (?a 1) g s1 = (ERR_OK, disk s (?a 1), s2)" "ready s2" "disk s2 = disk s"
      using read_eq [OF r1(2) area g, of "?a 1"] r1(3) by auto
    have tb: "addr p (ucast b)" "length d = 512" using t JData by (auto simp: targets_ok_def)
    show ?thesis
    proof (cases "q' = q")
      case True
      obtain s3 where w: "dev_write D p (ucast b) d s2 = (ERR_OK, s3)" "ready s3"
          "disk s3 = (disk s)(ucast b := d)"
        using write_eq [OF r2(2) tb] r2(3) by auto
      show ?thesis
        using r1 r2 w cont [of 0] cont [of 1] pos [of 0] JData True
        by (intro exI [of _ s3] exI [of _ "Suc m"]) (simp add: m jent_next_ring)
    next
      case False
      then have "\<not> (words_of d ! 0 = JENT_DATA \<and> words_of d ! Suc 0 = q)"
        using na JData by (auto simp: no_alias_def)
      with r1 r2 cont [of 0] cont [of 1] pos [of 0] pos [of 1] JData False show ?thesis
        by (intro exI [of _ s2] exI [of _ m]) (auto simp: m jent_next_ring)
    qed
  qed
qed

lemma replay_scan_spec:
  assumes "ready s" "journal_at start (disk s) h (d1 @ d2 @ d3) q0" "length g = 512"
    "targets_ok (addr p) start d2" "no_alias q d2" "length (slots d2) \<le> n"
  shows "\<exists>s'. replay_scan n g D p start (int (ring h (length (slots (d1 @ d2))))) q
      (int (ring h (length (slots d1)))) r s = Some (r + hits q d2, s') \<and>
    ready s' \<and> disk s' = apply_txn q d2 (disk s)"
  using assms
proof (induction d2 arbitrary: d1 n r s)
  case Nil
  then show ?case by (cases n) auto
next
  case (Cons e d2)
  let ?i = "int (ring h (length (slots (d1 @ e # d2))))"
  have at: "journal_at start (disk s) h (d1 @ e # (d2 @ d3)) q0" using Cons.prems(2) by simp
  have e: "targets_ok (addr p) start [e]" "no_alias q [e]" "targets_ok (addr p) start d2" "no_alias q d2"
    using Cons.prems(4,5) by (auto simp: targets_ok_def no_alias_def)
  have pos: "int (ring h (length (slots d1) + k)) \<noteq> ?i" if "k < length (enc e)" for k
    using that journal_atD(2) [OF Cons.prems(2)] by (simp add: ring_inj)
  have "length (enc e) \<le> n" using Cons.prems(6) by simp
  from replay_entry [OF Cons.prems(1) at Cons.prems(3) e(1,2) this pos, of r]
  obtain s1 m where s1: "n \<le> m + length (enc e)" "ready s1" "disk s1 = apply_entry q e (disk s)"
    "replay_scan n g D p start ?i q (int (ring h (length (slots d1)))) r s =
     replay_scan m g D p start ?i q (int (ring h (length (slots (d1 @ [e]))))) (r + hit q e) s1"
    by blast
  have "journal_at start (disk s1) h ((d1 @ [e]) @ d2 @ d3) q0"
    using at journal_at_apply_txn [OF e(1), of q "disk s"] s1(3) by simp
  from Cons.IH [OF s1(2) this Cons.prems(3) e(3,4), of m "r + hit q e"] s1 Cons.prems(6)
  show ?case by (auto simp: add.assoc)
qed

text \<open>One entry of the log in the main loop of the recovery.\<close>

lemma recover_step:
  assumes s: "ready s" and at: "journal_at start (disk s) h (d1 @ e # d2) q0" and g: "length g = 512"
  shows "\<exists>s1. ready s1 \<and> disk s1 = disk s \<and> (\<forall>n F r.
      recover_loop (Suc n) F g D p start (int h) (int (ring h (length (slots (d1 @ e # d2)))))
        (int (ring h (length (slots d1)))) r s =
      (case e of
         JData q b d \<Rightarrow> recover_loop n F g D p start (int h) (int (ring h (length (slots (d1 @ e # d2)))))
           (int (ring h (length (slots (d1 @ [e]))))) r s1
       | JCommit q \<Rightarrow>
           (case replay_scan F g D p start (int (ring h (length (slots d1)))) q (int h) r s1 of
              None \<Rightarrow> None
            | Some (r', s2) \<Rightarrow> recover_loop n F g D p start (int h) (int (ring h (length (slots (d1 @ e # d2)))))
                (int (ring h (length (slots (d1 @ [e]))))) r' s2)))"
proof -
  let ?a = "JENT_BLOCK start (int (ring h (length (slots d1))))"
  have pos: "int (ring h (length (slots d1))) \<noteq> int (ring h (length (slots (d1 @ e # d2))))"
    using journal_atD(2) [OF at] by (cases e) (simp_all add: ring_inj)
  have cont: "disk s ?a = enc e ! 0" using journal_entry_at [OF at, of 0] by (cases e) simp_all
  obtain s1 where r1: "dev_read D p ?a g s = (ERR_OK, disk s ?a, s1)" "ready s1" "disk s1 = disk s"
    using read_eq [OF s area g, of ?a] by auto
  then show ?thesis
    using cont pos
    by (intro exI [of _ s1], cases e) (simp_all add: Let_def jent_next_ring cong: option.case_cong)
qed

lemma recover_loop_spec:
  assumes "ready s" "journal_at start (disk s) h (d1 @ d2) q0" "length g = 512"
    "targets_ok (addr p) start (d1 @ d2)" "\<And>q. JCommit q \<in> set d2 \<Longrightarrow> no_alias q (d1 @ d2)"
    "length (slots d2) \<le> n" "254 \<le> F"
  shows "\<exists>s'. recover_loop n F g D p start (int h) (int (ring h (length (slots (d1 @ d2)))))
      (int (ring h (length (slots d1)))) r s = Some (r + redone d1 d2, s') \<and>
    ready s' \<and> disk s' = redo d1 d2 (disk s)"
  using assms
proof (induction d2 arbitrary: d1 n r s)
  case Nil
  then show ?case by (cases n) auto
next
  case (Cons e d2)
  have at: "journal_at start (disk s) h ((d1 @ [e]) @ d2) q0" using Cons.prems(2) by simp
  have t: "targets_ok (addr p) start ((d1 @ [e]) @ d2)" using Cons.prems(4) by simp
  have na: "no_alias q ((d1 @ [e]) @ d2)" if "JCommit q \<in> set d2" for q using Cons.prems(5) that by simp
  obtain m where m: "n = Suc m" "length (slots d2) \<le> m"
    using Cons.prems(6) by (cases n; cases e) auto
  note IH = Cons.IH [where ?d1.0 = "d1 @ [e]", OF _ _ Cons.prems(3) t na m(2) Cons.prems(7)]
  obtain s1 where s1: "ready s1" "disk s1 = disk s" and
    step: "recover_loop (Suc m) F g D p start (int h) (int (ring h (length (slots (d1 @ e # d2)))))
        (int (ring h (length (slots d1)))) r s =
      (case e of
         JData q b d \<Rightarrow> recover_loop m F g D p start (int h) (int (ring h (length (slots (d1 @ e # d2)))))
            (int (ring h (length (slots (d1 @ [e]))))) r s1
       | JCommit q \<Rightarrow>
           (case replay_scan F g D p start (int (ring h (length (slots d1)))) q (int h) r s1 of
              None \<Rightarrow> None
            | Some (r', s2) \<Rightarrow> recover_loop m F g D p start (int h) (int (ring h (length (slots (d1 @ e # d2)))))
                (int (ring h (length (slots (d1 @ [e]))))) r' s2))"
    using recover_step [OF Cons.prems(1,2,3)] by blast
  show ?case
  proof (cases e)
    case (JData q b d)
    from IH [OF s1(1), of r] at s1 JData step m(1) show ?thesis by simp
  next
    case (JCommit q)
    have d1: "targets_ok (addr p) start d1" "no_alias q d1" "length (slots d1) \<le> F"
      using Cons.prems(4,5,7) journal_atD(2) [OF Cons.prems(2)] JCommit
      by (auto simp: targets_ok_def no_alias_def)
    have "journal_at start (disk s1) h ([] @ d1 @ e # d2) q0" using Cons.prems(2) s1(2) by simp
    from replay_scan_spec [OF s1(1) this Cons.prems(3) d1, of r] journal_atD(1) [OF at] s1(2)
    obtain s2 where s2: "replay_scan F g D p start (int (ring h (length (slots d1)))) q (int h) r s1 =
        Some (r + hits q d1, s2)" "ready s2" "disk s2 = apply_txn q d1 (disk s)" by auto
    have "journal_at start (disk s2) h ((d1 @ [e]) @ d2) q0"
      using at journal_at_apply_txn [OF d1(1)] s2(3) by simp
    from IH [OF s2(2) this, of "r + hits q d1"] s2 JCommit step m(1) show ?thesis by (simp add: add.assoc)
  qed
qed

text \<open>What is left of the recovery around its main loop.\<close>

lemma recover_around:
  assumes s: "ready s" and at: "journal_at start (disk s) h es q" and g: "length g = 512"
    and loop: "\<And>s1. ready s1 \<Longrightarrow> disk s1 = disk s \<Longrightarrow>
      \<exists>s2. recover_loop fuel fuel g D p start (int h) (int (ring h (length (slots es)))) (int h) 0 s1 = Some (k, s2) \<and>
        ready s2 \<and> disk s2 = C'"
  shows "\<exists>s'. journal_recover fuel g D p start s = Some (ERR_OK, Some (if 0 < k then 1 else 0), s') \<and>
    ready s' \<and> journal_at start (disk s') (ring h (length (slots es))) [] q \<and>
    (\<forall>a. \<not> in_journal start a \<longrightarrow> disk s' a = C' a)"
  using s at g
proof (cases rule: open_journal)
  case (fail e buf s1)
  with read_eq [OF s area g, of "JSB_BLOCK start"] show ?thesis by auto
next
  case (ok buf s1 fl pad)
  let ?t = "ring h (length (slots es))"
  let ?b = "bytes_of (jsb_words (jsb_seal (jsb_image q ?t ?t fl pad)))"
  obtain s2 where s2: "recover_loop fuel fuel g D p start (int h) (int ?t) (int h) 0 s1 = Some (k, s2)"
      "ready s2" "disk s2 = C'"
    using loop [OF ok(2,3)] by blast
  have "length ?b = 512" using ok(4) by (simp add: length_jsb_words)
  from write_eq [OF s2(2) area this, of "JSB_BLOCK start"]
  obtain s3 where s3: "dev_write D p (JSB_BLOCK start) ?b s2 = (ERR_OK, s3)" "ready s3"
      "disk s3 = (disk s2)(JSB_BLOCK start := ?b)" by auto
  have "journal_at start (disk s3) ?t [] q"
    using ok(4) by (auto simp: s3(3) journal_at_def jsb_at_def)
  moreover have "disk s3 a = C' a" if "\<not> in_journal start a" for a
    using that s3(3) s2(3) by auto
  moreover have "journal_recover fuel g D p start s = Some (ERR_OK, Some (if 0 < k then 1 else 0), s3)"
    using ok s2(1) s3(1) journal_atD(1) [OF at]
    by (simp add: journal_recover_def Let_def jsb_verify_seal jsb_seal_again)
  ultimately show ?thesis using s3(2) by blast
qed

lemma recover_spec:
  assumes s: "ready s" and at: "journal_at start (disk s) h es q" and g: "length g = 512"
    and t: "targets_ok (addr p) start es" and na: "\<And>q. JCommit q \<in> set es \<Longrightarrow> no_alias q es"
    and fuel: "254 \<le> fuel"
  shows "\<exists>s'. journal_recover fuel g D p start s =
      Some (ERR_OK, Some (if 0 < redone [] es then 1 else 0), s') \<and> ready s' \<and>
    journal_at start (disk s') (ring h (length (slots es))) [] q \<and>
    (\<forall>a. \<not> in_journal start a \<longrightarrow> disk s' a = redo [] es (disk s) a)"
proof (rule recover_around [OF s at g])
  fix s1
  assume s1: "ready s1" "disk s1 = disk s"
  then have "journal_at start (disk s1) h ([] @ es) q" using at by simp
  from recover_loop_spec [OF s1(1) this g _ _ _ fuel, of fuel 0] t na fuel journal_atD(1,2) [OF at] s1(2)
  show "\<exists>s2. recover_loop fuel fuel g D p start (int h) (int (ring h (length (slots es)))) (int h) 0 s1 =
      Some (redone [] es, s2) \<and> ready s2 \<and> disk s2 = redo [] es (disk s)"
    by auto
qed

end

section \<open>The checkpoint\<close>

fun is_commit :: "jent \<Rightarrow> bool" where
  "is_commit (JCommit q) = True"
| "is_commit (JData q b d) = False"

text \<open>The entries up to the last commit record, and those after it.\<close>

definition settled :: "jent list \<Rightarrow> jent list" where
  "settled es = rev (dropWhile (\<lambda>e. \<not> is_commit e) (rev es))"

definition pending :: "jent list \<Rightarrow> jent list" where
  "pending es = rev (takeWhile (\<lambda>e. \<not> is_commit e) (rev es))"

lemma settled_pending: "settled es @ pending es = es"
  by (metis pending_def settled_def rev_append rev_rev_ident takeWhile_dropWhile_id)

lemma settled_snoc [simp]:
  "settled [] = []" "settled (es @ [JCommit q]) = es @ [JCommit q]" "settled (es @ [JData q b d]) = settled es"
  by (simp_all add: settled_def)

fun home :: "jent \<Rightarrow> (u64 \<Rightarrow> u8 list) \<Rightarrow> u64 \<Rightarrow> u8 list" where
  "home (JData q b d) C = C(ucast b := d)"
| "home (JCommit q) C = C"

lemma fold_home_outside:
  "targets_ok A start es \<Longrightarrow> in_journal start a \<Longrightarrow> fold home es C a = C a"
proof (induction es arbitrary: C)
  case (Cons e es)
  then show ?case by (cases e) (auto simp: targets_ok_def)
qed simp

lemma journal_at_drop:
  assumes "journal_at start C h (es @ fs) q"
    and "jsb_at start C' (ring h (length (slots es))) (ring h (length (slots (es @ fs)))) q"
    and "\<And>k. k < 255 \<Longrightarrow> C' (JENT_BLOCK start (int k)) = C (JENT_BLOCK start (int k))"
  shows "journal_at start C' (ring h (length (slots es))) fs q"
proof -
  have "C' (JENT_BLOCK start (int (ring (ring h (length (slots es))) k))) = slots fs ! k"
    if "k < length (slots fs)" for k
    using journal_atD(4) [OF assms(1), of "length (slots es) + k"] assms(3) that
    by (simp add: ring_ring nth_append)
  then show ?thesis using journal_atD(2) [OF assms(1)] assms(2) by (simp add: journal_at_def ring_ring)
qed

context journal_reliable
begin

lemma last_commit_spec:
  assumes "ready s" "journal_at start (disk s) h (d1 @ d2) q" "length g = 512" "length (slots d2) \<le> n"
  shows "\<exists>s'. last_commit_scan n g D p start (of_nat (ring h (length (slots (d1 @ d2)))))
      (of_nat (ring h (length (slots d1)))) (of_nat (ring h (length (slots (settled d1))))) s =
      Some (of_nat (ring h (length (slots (settled (d1 @ d2))))), s') \<and> ready s' \<and> disk s' = disk s"
  using assms
proof (induction d2 arbitrary: d1 n s)
  case Nil
  then show ?case by (cases n) auto
next
  case (Cons e d2)
  let ?k = "ring h (length (slots d1))"
  let ?a = "JENT_BLOCK start (int ?k)"
  have pos: "(of_nat ?k :: u32) \<noteq> of_nat (ring h (length (slots (d1 @ e # d2))))"
    using journal_atD(2) [OF Cons.prems(2)] by (cases e) (simp_all add: ring_inj of_nat_u32_inj)
  have cont: "disk s ?a = enc e ! 0" using journal_entry_at [OF Cons.prems(2), of 0] by (cases e) simp_all
  obtain s1 where r1: "dev_read D p ?a g s = (ERR_OK, disk s ?a, s1)" "ready s1" "disk s1 = disk s"
    using read_eq [OF Cons.prems(1) area Cons.prems(3), of ?a] by auto
  have at: "journal_at start (disk s1) h ((d1 @ [e]) @ d2) q" using Cons.prems(2) r1(3) by simp
  obtain m where m: "n = Suc m" "length (slots d2) \<le> m"
    using Cons.prems(4) by (cases n; cases e) auto
  from Cons.IH [OF r1(2) at Cons.prems(3) m(2)] r1 cont pos show ?case
    by (cases e) (simp_all add: m(1) block32_int next32_ring)
qed

lemma checkpoint_replay_spec:
  assumes "ready s" "journal_at start (disk s) h (d1 @ d2 @ d3) q" "length g = 512"
    "targets_ok (addr p) start d2" "length (slots d2) \<le> n"
  shows "\<exists>s'. checkpoint_replay n g D p start (of_nat (ring h (length (slots (d1 @ d2)))))
      (of_nat (ring h (length (slots d1)))) s = Some (ERR_OK, s') \<and> ready s' \<and> disk s' = fold home d2 (disk s)"
  using assms
proof (induction d2 arbitrary: d1 n s)
  case Nil
  then show ?case by (cases n) auto
next
  case (Cons e d2)
  let ?r = "\<lambda>k. ring h (length (slots d1) + k)"
  let ?a = "\<lambda>k. JENT_BLOCK start (int (?r k))"
  have pos: "(of_nat (?r 0) :: u32) \<noteq> of_nat (ring h (length (slots (d1 @ e # d2))))"
    using journal_atD(2) [OF Cons.prems(2)] by (cases e) (simp_all add: ring_inj of_nat_u32_inj)
  have at: "journal_at start (disk s) h ((d1 @ [e]) @ d2 @ d3) q" using Cons.prems(2) by simp
  have cont: "disk s (?a k) = enc e ! k" if "k < length (enc e)" for k
    using journal_entry_at [of start "disk s" h d1 e "d2 @ d3" q k] at that by simp
  obtain s1 where r1: "dev_read D p (?a 0) g s = (ERR_OK, disk s (?a 0), s1)" "ready s1" "disk s1 = disk s"
    using read_eq [OF Cons.prems(1) area Cons.prems(3), of "?a 0"] by auto
  have t: "targets_ok (addr p) start d2" using Cons.prems(4) by (auto simp: targets_ok_def)
  obtain m where m: "n = Suc m" "length (slots d2) \<le> m"
    using Cons.prems(5) by (cases n; cases e) auto
  note IH = Cons.IH [where ?d1.0 = "d1 @ [e]", OF _ _ Cons.prems(3) t m(2)]
  show ?case
  proof (cases e)
    case (JCommit q')
    from IH [OF r1(2)] at r1 cont [of 0] pos JCommit show ?thesis by (simp add: m(1) block32_int next32_ring)
  next
    case (JData q' b d)
    obtain s2 where r2: "dev_read D p (?a 1) g s1 = (ERR_OK, disk s (?a 1), s2)" "ready s2" "disk s2 = disk s"
      using read_eq [OF r1(2) area Cons.prems(3), of "?a 1"] r1(3) by auto
    have tb: "addr p (ucast b)" "\<not> in_journal start (ucast b)" "length d = 512"
      using Cons.prems(4) JData by (auto simp: targets_ok_def)
    obtain s3 where w: "dev_write D p (ucast b) d s2 = (ERR_OK, s3)" "ready s3" "disk s3 = (disk s)(ucast b := d)"
      using write_eq [OF r2(2) tb(1,3)] r2(3) by auto
    have "journal_at start (disk s3) h ((d1 @ [e]) @ d2 @ d3) q" using at tb(2) w(3) by simp
    from IH [OF w(2) this] r1 r2 w cont [of 0] cont [of 1] pos JData flush_nothing [OF w(2)] show ?thesis
      by (simp add: m(1) block32_int next32_ring fun_upd_def)
  qed
qed

lemma checkpoint_spec:
  assumes s: "ready s" and at: "journal_at start (disk s) h es q" and g: "length g = 512"
    and t: "targets_ok (addr p) start es" and fuel: "254 \<le> fuel"
  shows "\<exists>s'. journal_checkpoint fuel g D p start s = Some (ERR_OK, s') \<and> ready s' \<and>
    journal_at start (disk s') (ring h (length (slots (settled es)))) (pending es) q \<and>
    (\<forall>a. \<not> in_journal start a \<longrightarrow> disk s' a = fold home (settled es) (disk s) a)"
  using s at g
proof (cases rule: open_journal)
  case (fail e buf s1)
  with read_eq [OF s area g, of "JSB_BLOCK start"] show ?thesis by auto
next
  case (ok buf s1 fl pad)
  let ?n = "length (slots es)" and ?k = "length (slots (settled es))"
  note h = journal_atD(1,2) [OF at]
  have sp: "settled es @ pending es = es" by (rule settled_pending)
  have kn: "?k \<le> ?n" using arg_cong [OF sp, of "\<lambda>x. length (slots x)"] by simp
  have at1: "journal_at start (disk s1) h ([] @ es) q" using at ok(3) by simp
  from last_commit_spec [OF ok(2) at1 g, of fuel] fuel h
  obtain s2 where s2: "last_commit_scan fuel g D p start (of_nat (ring h ?n)) (of_nat h) (of_nat h) s1 =
      Some (of_nat (ring h ?k), s2)" "ready s2" "disk s2 = disk s" using ok(3) by auto
  have hd: "(of_nat (ring h j) :: u32) = of_nat h \<longleftrightarrow> j = 0" if "j \<le> 254" for j
    using that h(1) ring_inj [of j 0 h] by (simp add: of_nat_u32_inj)
  show ?thesis
  proof (cases "?k = 0")
    case True
    then have e: "settled es = []" "pending es = es" using sp by auto
    have "journal_checkpoint fuel g D p start s = Some (ERR_OK, if ?n = 0 then s1 else s2)"
      using True ok s2(1) hd [of ?n] hd [of 0] h by (auto simp: journal_checkpoint_def Let_def)
    then show ?thesis using e at h ok(2,3) s2(2,3) by (cases "?n = 0") auto
  next
    case False
    let ?b = "bytes_of (jsb_words (jsb_seal (jsb_image q (ring h ?k) (ring h ?n) fl pad)))"
    have at2: "journal_at start (disk s2) h ([] @ settled es @ pending es) q" using at s2(3) sp by simp
    have ts: "targets_ok (addr p) start (settled es)"
      using t unfolding targets_ok_def by (metis Un_iff set_append sp)
    from checkpoint_replay_spec [OF s2(2) at2 g ts, of fuel] fuel kn h s2(3)
    obtain s3 where s3: "checkpoint_replay fuel g D p start (of_nat (ring h ?k)) (of_nat h) s2 = Some (ERR_OK, s3)"
        "ready s3" "disk s3 = fold home (settled es) (disk s)" by auto
    have "length ?b = 512" using ok(4) by (simp add: length_jsb_words)
    from write_eq [OF s3(2) area this, of "JSB_BLOCK start"]
    obtain s4 where s4: "dev_write D p (JSB_BLOCK start) ?b s3 = (ERR_OK, s4)" "ready s4"
        "disk s4 = (disk s3)(JSB_BLOCK start := ?b)" by auto
    have "journal_at start (disk s4) (ring h ?k) (pending es) q"
      using at sp ok(4) fold_home_outside [OF ts] s3(3) s4(3)
      by (intro journal_at_drop [of start "disk s" h "settled es"]) (auto simp: jsb_at_def)
    moreover have "journal_checkpoint fuel g D p start s = Some (ERR_OK, s4)"
    proof -
      have "(of_nat h :: u32) \<noteq> of_nat (ring h ?n)" "(of_nat (ring h ?k) :: u32) \<noteq> of_nat h"
        using hd [of ?k] hd [of ?n] False kn h(2) by auto
      with ok s2(1) s3(1) s4(1) h show ?thesis by (simp add: journal_checkpoint_def Let_def jsb_seal_again)
    qed
    moreover have "disk s4 a = fold home (settled es) (disk s) a" if "\<not> in_journal start a" for a
      using that s4(3) s3(3) by auto
    ultimately show ?thesis using s4(2) by blast
  qed
qed

text \<open>On a device that answers, an operation fails only for lack of space.\<close>

lemma init_ok:
  assumes "ready s"
  shows "fst (journal_init D p start s) = ERR_OK"
proof -
  let ?b = "bytes_of (jsb_words (jsb_seal (jsb_image 1 0 0 0 (replicate 122 0))))"
  have "length ?b = 512" by (simp add: length_jsb_words)
  from write_eq [OF assms area this, of "JSB_BLOCK start"]
  obtain s' where "dev_write D p (JSB_BLOCK start) ?b s = (ERR_OK, s')" by auto
  then show ?thesis by (simp add: journal_init_def Let_def)
qed

lemma log_ok:
  assumes s: "ready s" and at: "journal_at start (disk s) h es q" and g: "length g = 512"
    and data: "length data = 512" and n: "length (slots es) \<le> 251"
  shows "fst (journal_log g D p start seq block data s) = ERR_OK"
  using s at g
proof (cases rule: open_journal)
  case (fail e buf s1)
  with read_eq [OF s area g, of "JSB_BLOCK start"] show ?thesis by auto
next
  case (ok buf s1 fl pad)
  let ?a = "\<lambda>k. JENT_BLOCK start (int (ring h (length (slots es) + k)))"
  let ?j = "jsb_image q h (ring h (length (slots es) + 2)) fl pad"
  obtain s2 where s2: "dev_write D p (?a 0) (bytes_of (jent_data_words (data_entry seq block))) s1 = (ERR_OK, s2)" "ready s2"
    using write_eq [OF ok(2) area, of "?a 0" "bytes_of (jent_data_words (data_entry seq block))"] by auto
  obtain s3 where s3: "dev_write D p (?a 1) data s2 = (ERR_OK, s3)" "ready s3"
    using write_eq [OF s2(2) area data, of "?a 1"] by auto
  have "length (bytes_of (jsb_words (jsb_seal ?j))) = 512" using ok(4) by (simp add: length_jsb_words)
  from write_eq [OF s3(2) area this, of "JSB_BLOCK start"]
  obtain s4 where "dev_write D p (JSB_BLOCK start) (bytes_of (jsb_words (jsb_seal ?j))) s3 = (ERR_OK, s4)" by auto
  with ok s2 s3 flush_nothing [OF s3(2)] n show ?thesis
    by (auto simp: journal_log_def Let_def jent_next_ring jsb_seal_again numeral_2_eq_2)
qed

lemma commit_ok:
  assumes s: "ready s" and at: "journal_at start (disk s) h es q" and g: "length g = 512"
    and n: "length (slots es) \<le> 253"
  shows "fst (journal_commit g D p start seq s) = ERR_OK"
  using s at g
proof (cases rule: open_journal)
  case (fail e buf s1)
  with read_eq [OF s area g, of "JSB_BLOCK start"] show ?thesis by auto
next
  case (ok buf s1 fl pad)
  let ?a = "JENT_BLOCK start (int (ring h (length (slots es))))"
  let ?j = "jsb_image (seq + 1) h (ring h (Suc (length (slots es)))) fl pad"
  obtain s2 where s2: "dev_write D p ?a (bytes_of (jent_commit_words (commit_entry seq))) s1 = (ERR_OK, s2)" "ready s2"
    using write_eq [OF ok(2) area, of ?a "bytes_of (jent_commit_words (commit_entry seq))"] by auto
  have "length (bytes_of (jsb_words (jsb_seal ?j))) = 512" using ok(4) by (simp add: length_jsb_words)
  from write_eq [OF s2(2) area this, of "JSB_BLOCK start"]
  obtain s4 where "dev_write D p (JSB_BLOCK start) (bytes_of (jsb_words (jsb_seal ?j))) s2 = (ERR_OK, s4)" by auto
  with ok s2 flush_nothing [OF s2(2)] n show ?thesis
    by (auto simp: journal_commit_def Let_def jent_next_ring jsb_seal_again)
qed

text \<open>
  The replay of \<open>q\<close> over a logged block of another transaction whose first words read as a
  descriptor of \<open>q\<close>: the copy is taken for a descriptor and the slot behind it for its block.
\<close>

lemma replay_alias:
  assumes s: "ready s" and at: "journal_at start (disk s) h (d1 @ JData q' b d # JCommit q'' # d3) q0"
    and g: "length g = 512" and al: "q' \<noteq> q" "words_of d ! 0 = JENT_DATA" "words_of d ! Suc 0 = q"
    and c: "addr p (ucast (words_of d ! 2))"
    and i: "int (ring h (length (slots d1))) \<noteq> i" "int (ring h (Suc (length (slots d1)))) \<noteq> i"
  shows "\<exists>s'. ready s' \<and>
    disk s' = (disk s)(ucast (words_of d ! 2) := bytes_of (jent_commit_words (commit_entry q''))) \<and>
    (\<forall>n r. replay_scan (Suc (Suc n)) g D p start i q (int (ring h (length (slots d1)))) r s =
       replay_scan n g D p start i q (int (ring h (length (slots d1) + 3))) (Suc r) s')"
proof -
  let ?a = "\<lambda>k. JENT_BLOCK start (int (ring h (length (slots d1) + k)))"
  let ?ce = "bytes_of (jent_commit_words (commit_entry q''))"
  have at': "journal_at start (disk s) h ((d1 @ [JData q' b d]) @ JCommit q'' # d3) q0" using at by simp
  have cont: "disk s (?a 0) = bytes_of (jent_data_words (data_entry q' b))" "disk s (?a 1) = d" "disk s (?a 2) = ?ce"
    using journal_entry_at [OF at, of 0] journal_entry_at [OF at, of 1] journal_entry_at [OF at', of 0]
    by (simp_all add: numeral_2_eq_2)
  obtain s1 where r1: "dev_read D p (?a 0) g s = (ERR_OK, disk s (?a 0), s1)" "ready s1" "disk s1 = disk s"
    using read_eq [OF s area g, of "?a 0"] by auto
  obtain s2 where r2: "dev_read D p (?a 1) g s1 = (ERR_OK, disk s (?a 1), s2)" "ready s2" "disk s2 = disk s"
    using read_eq [OF r1(2) area g, of "?a 1"] r1(3) by auto
  obtain s3 where r3: "dev_read D p (?a 2) g s2 = (ERR_OK, disk s (?a 2), s3)" "ready s3" "disk s3 = disk s"
    using read_eq [OF r2(2) area g, of "?a 2"] r2(3) by auto
  obtain s4 where w: "dev_write D p (ucast (words_of d ! 2)) ?ce s3 = (ERR_OK, s4)" "ready s4"
      "disk s4 = (disk s)(ucast (words_of d ! 2) := ?ce)"
    using write_eq [OF r3(2) c, of ?ce] r3(3) by auto
  then show ?thesis
    using r1(1) r2(1) r3(1) cont al i
    by (intro exI [of _ s4]) (simp add: jent_next_ring numeral_2_eq_2 numeral_3_eq_3)
qed

lemma replay_both:
  assumes s: "ready s" and g: "length g = 512" and F: "254 \<le> F"
    and at: "journal_at start (disk s) h [JData q1 b1 d1, JCommit q1, JData q2 b2 d2, JCommit q2] q"
    and t: "targets_ok (addr p) start [JData q2 b2 d2]"
    and al: "q1 \<noteq> q2" "words_of d1 ! 0 = JENT_DATA" "words_of d1 ! Suc 0 = q2"
    and c: "addr p (ucast (words_of d1 ! 2))" "\<not> in_journal start (ucast (words_of d1 ! 2))"
  shows "\<exists>s'. replay_scan F g D p start (int (ring h 5)) q2 (int h) r s = Some (r + 2, s') \<and> ready s' \<and>
    disk s' = (disk s)(ucast (words_of d1 ! 2) := bytes_of (jent_commit_words (commit_entry q1)), ucast b2 := d2)"
proof -
  let ?e1 = "JData q1 b1 d1" and ?e3 = "JData q2 b2 d2"
  have at': "journal_at start (disk s) h ([] @ ?e1 # JCommit q1 # [?e3, JCommit q2]) q" using at by simp
  note h = journal_atD(1) [OF at]
  obtain m where m: "F = Suc (Suc m)" "2 \<le> m" using F by (cases F; cases "F - 1") auto
  have i: "int (ring h (length (slots []))) \<noteq> int (ring h 5)" "int (ring h (Suc (length (slots [])))) \<noteq> int (ring h 5)"
    by (simp_all add: ring_inj)
  obtain s1 where s1: "ready s1"
    "disk s1 = (disk s)(ucast (words_of d1 ! 2) := bytes_of (jent_commit_words (commit_entry q1)))"
    "\<forall>n r. replay_scan (Suc (Suc n)) g D p start (int (ring h 5)) q2 (int (ring h (length (slots [])))) r s =
      replay_scan n g D p start (int (ring h 5)) q2 (int (ring h (length (slots []) + 3))) (Suc r) s1"
    using replay_alias [OF s at' g al c(1) i] by blast
  have step: "replay_scan F g D p start (int (ring h 5)) q2 (int h) r s =
      replay_scan m g D p start (int (ring h 5)) q2 (int (ring h 3)) (Suc r) s1"
    using s1(3) [rule_format, of m r] h m(1) by (simp del: replay_scan.simps)
  have at1: "journal_at start (disk s1) h ([?e1, JCommit q1] @ [?e3] @ [JCommit q2]) q"
    using at c(2) by (simp add: s1(2))
  have na: "no_alias q2 [?e3]" "length (slots [?e3]) \<le> m" using m(2) by (simp_all add: no_alias_def)
  from replay_scan_spec [OF s1(1) at1 g t na, of "Suc r"] s1(2) step show ?thesis
    by (simp add: eval_nat_numeral del: replay_scan.simps)
qed

lemma recover_data_step:
  assumes s: "ready s" and at: "journal_at start (disk s) h (d1 @ JData q b d # d2) q0" and g: "length g = 512"
    and k: "length (slots d1) = k" "length (slots (d1 @ JData q b d # d2)) = t"
  shows "\<exists>s1. ready s1 \<and> disk s1 = disk s \<and> (\<forall>n F r.
    recover_loop (Suc n) F g D p start (int h) (int (ring h t)) (int (ring h k)) r s =
    recover_loop n F g D p start (int h) (int (ring h t)) (int (ring h (k + 2))) r s1)"
  using recover_step [OF s at g, unfolded k] k(1) by (simp del: recover_loop.simps)

lemma recover_commit_step:
  assumes s: "ready s" and at: "journal_at start (disk s) h (d1 @ JCommit q # d2) q0" and g: "length g = 512"
    and k: "length (slots d1) = k" "length (slots (d1 @ JCommit q # d2)) = t"
    and replay: "\<And>s1. ready s1 \<Longrightarrow> disk s1 = disk s \<Longrightarrow>
      \<exists>s'. replay_scan F g D p start (int (ring h k)) q (int h) r s1 = Some (r', s') \<and> ready s' \<and> disk s' = C'"
  shows "\<exists>s'. ready s' \<and> disk s' = C' \<and> (\<forall>n.
    recover_loop (Suc n) F g D p start (int h) (int (ring h t)) (int (ring h k)) r s =
    recover_loop n F g D p start (int h) (int (ring h t)) (int (ring h (k + 1))) r' s')"
proof -
  have k1: "length (slots (d1 @ [JCommit q])) = k + 1" using k(1) by simp
  obtain s1 where s1: "ready s1" "disk s1 = disk s" and step: "\<forall>n F r.
      recover_loop (Suc n) F g D p start (int h) (int (ring h t)) (int (ring h k)) r s =
      (case JCommit q of
         JData q' b d \<Rightarrow> recover_loop n F g D p start (int h) (int (ring h t)) (int (ring h (k + 1))) r s1
       | JCommit q \<Rightarrow> (case replay_scan F g D p start (int (ring h k)) q (int h) r s1 of None \<Rightarrow> None
       | Some (r', s2) \<Rightarrow> recover_loop n F g D p start (int h) (int (ring h t)) (int (ring h (k + 1))) r' s2))"
    using recover_step [OF s at g, unfolded k k1] by blast
  from replay [OF s1] obtain s' where s': "ready s'" "disk s' = C'"
    "replay_scan F g D p start (int (ring h k)) q (int h) r s1 = Some (r', s')" by blast
  show ?thesis
    by (rule exI [of _ s']) (simp add: s' step del: recover_loop.simps)
qed

lemma recover_alias:
  assumes s: "ready s" and g: "length g = 512" and F: "254 \<le> F"
    and at: "journal_at start (disk s) h [JData q1 b1 d1, JCommit q1, JData q2 b2 d2, JCommit q2] q"
    and t: "targets_ok (addr p) start [JData q1 b1 d1, JCommit q1, JData q2 b2 d2, JCommit q2]"
    and al: "q1 \<noteq> q2" "words_of d1 ! 0 = JENT_DATA" "words_of d1 ! Suc 0 = q2"
    and c: "addr p (ucast (words_of d1 ! 2))" "\<not> in_journal start (ucast (words_of d1 ! 2))"
  shows "\<exists>s'. recover_loop F F g D p start (int h) (int (ring h 6)) (int h) 0 s = Some (3, s') \<and> ready s' \<and>
    disk s' = (disk s)(ucast b1 := d1, ucast (words_of d1 ! 2) := bytes_of (jent_commit_words (commit_entry q1)),
      ucast b2 := d2)"
proof -
  let ?e1 = "JData q1 b1 d1" and ?e3 = "JData q2 b2 d2"
  let ?L = "\<lambda>n i r s. recover_loop n F g D p start (int h) (int (ring h 6)) (int (ring h i)) r s"
  define m where "m = F - 4"
  have F4: "F = Suc (Suc (Suc (Suc m)))" using F by (simp add: m_def)
  note h = journal_atD(1) [OF at]
  have t1: "targets_ok (addr p) start [?e1]" "targets_ok (addr p) start [?e3]" "\<not> in_journal start (ucast b1)"
    using t by (auto simp: targets_ok_def)
  have a0: "journal_at start (disk s) h ([] @ ?e1 # [JCommit q1, ?e3, JCommit q2]) q" using at by simp
  obtain s1 where s1: "ready s1" "disk s1 = disk s" "\<forall>n F r. recover_loop (Suc n) F g D p start (int h)
      (int (ring h 6)) (int (ring h 0)) r s = recover_loop n F g D p start (int h) (int (ring h 6)) (int (ring h (0 + 2))) r s1"
    using recover_data_step [OF s a0 g, of 0 6] unfolding append.simps slot_count by blast
  have a1: "journal_at start (disk s1) h ([?e1] @ JCommit q1 # [?e3, JCommit q2]) q" using at s1(2) by simp
  have "\<exists>s'. replay_scan F g D p start (int (ring h 2)) q1 (int h) 0 t1 = Some (1, s') \<and> ready s' \<and>
      disk s' = (disk s)(ucast b1 := d1)" if "ready t1" "disk t1 = disk s1" for t1
    using replay_scan_spec [of t1 h "[]" "[?e1]" "[JCommit q1, ?e3, JCommit q2]" q g q1 F 0] that s1(2) at g t1 F h
    by (simp add: no_alias_def numeral_2_eq_2)
  from recover_commit_step [OF s1(1) a1 g, of 2 6, OF _ _ this]
  obtain s2 where s2: "ready s2" "disk s2 = (disk s)(ucast b1 := d1)" "\<forall>n. ?L (Suc n) 2 0 s1 = ?L n (2 + 1) 1 s2"
    unfolding append.simps slot_count by blast
  have at2: "journal_at start (disk s2) h [?e1, JCommit q1, ?e3, JCommit q2] q" using at t1(3) by (simp add: s2(2))
  then have a2: "journal_at start (disk s2) h ([?e1, JCommit q1] @ ?e3 # [JCommit q2]) q" by simp
  obtain s3 where s3: "ready s3" "disk s3 = disk s2" "\<forall>n F r. recover_loop (Suc n) F g D p start (int h)
      (int (ring h 6)) (int (ring h 3)) r s2 = recover_loop n F g D p start (int h) (int (ring h 6)) (int (ring h (3 + 2))) r s3"
    using recover_data_step [OF s2(1) a2 g, of 3 6] unfolding append.simps slot_count by blast
  have a3: "journal_at start (disk s3) h ([?e1, JCommit q1, ?e3] @ JCommit q2 # []) q" using at2 s3(2) by simp
  have "\<exists>s'. replay_scan F g D p start (int (ring h 5)) q2 (int h) 1 t3 = Some (1 + 2, s') \<and> ready s' \<and>
      disk s' = (disk s2)(ucast (words_of d1 ! 2) := bytes_of (jent_commit_words (commit_entry q1)), ucast b2 := d2)"
    if "ready t3" "disk t3 = disk s3" for t3
    using replay_both [of t3 g F h q1 b1 d1 q2 b2 d2 q 1] that at2 s3(2) g F t1(2) al c by (simp del: replay_scan.simps)
  from recover_commit_step [OF s3(1) a3 g, of 5 6, OF _ _ this]
  obtain s4 where s4: "ready s4" "disk s4 = (disk s2)(ucast (words_of d1 ! 2) :=
      bytes_of (jent_commit_words (commit_entry q1)), ucast b2 := d2)" "\<forall>n. ?L (Suc n) 5 1 s3 = ?L n (5 + 1) (1 + 2) s4"
    unfolding append.simps slot_count by blast
  have "?L F 0 0 s = ?L m 6 3 s4" using F4 s1(3) s2(3) s3(3) s4(3) by (simp add: eval_nat_numeral del: recover_loop.simps)
  also have "\<dots> = Some (3, s4)" by (cases m) simp_all
  finally show ?thesis using s4(1,2) s2(2) h by simp
qed

end

section \<open>Transactions\<close>

text \<open>
  A client logs the blocks of a transaction one by one and commits. It stops at the first error,
  which is also how a power failure looks: the device takes no further write.
\<close>

fun txn_log ::
  "u8 list \<Rightarrow> (u8 list, 'w) devmem \<Rightarrow> nat \<Rightarrow> u32 \<Rightarrow> u32 \<Rightarrow> (u32 \<times> u8 list) list \<Rightarrow> (u8 list, 'w) bcache \<Rightarrow>
     err_t \<times> (u8 list, 'w) bcache" where
  "txn_log g D p start q [] s = (ERR_OK, s)"
| "txn_log g D p start q ((b, d) # ws) s = (case journal_log g D p start q b d s of
     (e, s1) \<Rightarrow> if e \<noteq> ERR_OK then (e, s1) else txn_log g D p start q ws s1)"

definition run_txn ::
  "u8 list \<Rightarrow> (u8 list, 'w) devmem \<Rightarrow> nat \<Rightarrow> u32 \<Rightarrow> u32 \<Rightarrow> (u32 \<times> u8 list) list \<Rightarrow> (u8 list, 'w) bcache \<Rightarrow>
     err_t \<times> (u8 list, 'w) bcache" where
  "run_txn g D p start q ws s = (case txn_log g D p start q ws s of
     (e, s1) \<Rightarrow> if e \<noteq> ERR_OK then (e, s1) else journal_commit g D p start q s1)"

definition store_all :: "(u32 \<times> u8 list) list \<Rightarrow> (u64 \<Rightarrow> u8 list) \<Rightarrow> u64 \<Rightarrow> u8 list" where
  "store_all ws C = fold (\<lambda>(b, d) C. C(ucast b := d)) ws C"

abbreviation logged :: "u32 \<Rightarrow> (u32 \<times> u8 list) list \<Rightarrow> jent list" where
  "logged q ws \<equiv> map (\<lambda>(b, d). JData q b d) ws"

lemma apply_logged: "apply_txn q (logged q ws) C = store_all ws C"
  by (induction ws arbitrary: C) (auto simp: store_all_def)

lemma store_all_cong: "C a = C' a \<Longrightarrow> store_all ws C a = store_all ws C' a"
proof (induction ws arbitrary: C C')
  case (Cons bd ws)
  then have "(C(ucast (fst bd) := snd bd)) a = (C'(ucast (fst bd) := snd bd)) a" by simp
  then show ?case
    using Cons.IH [of "C(ucast (fst bd) := snd bd)" "C'(ucast (fst bd) := snd bd)"]
    by (simp add: store_all_def case_prod_beta fun_upd_def)
qed (simp add: store_all_def)

lemma redo_logged: "redo pre (logged q ws) C = C"
  by (induction ws arbitrary: pre) auto

lemma redo_committed: "redo pre (logged q ws @ [JCommit q]) C = apply_txn q (pre @ logged q ws) C"
  by (induction ws arbitrary: pre) auto

lemma no_alias_logged: "JCommit q' \<in> set (logged q ws @ [JCommit q]) \<Longrightarrow> no_alias q' (logged q ws @ [JCommit q])"
  by (auto simp: no_alias_def)

context journal_device
begin

lemma txn_log_spec:
  assumes "ready s" "journal_at start (disk s) h es q" "length g = 512" "\<forall>(b, d) \<in> set ws. length d = 512"
    "txn_log g D p start q ws s = (e, s')"
  shows "ready s' \<and> (\<forall>a. \<not> in_journal start a \<longrightarrow> disk s' a = disk s a) \<and>
    (\<exists>n. journal_at start (disk s') h (es @ logged q (take n ws)) q \<and> (e = ERR_OK \<longrightarrow> n = length ws))"
  using assms
proof (induction ws arbitrary: es s)
  case Nil
  then show ?case by auto
next
  case (Cons bd ws)
  obtain b d where bd: "bd = (b, d)" by (cases bd)
  obtain e1 s1 where l: "journal_log g D p start q b d s = (e1, s1)" by (metis prod.exhaust)
  note sp = log_spec [OF Cons.prems(1-3) _ l]
  show ?case
  proof (cases "e1 = ERR_OK")
    case False
    with Cons.prems(4,5) bd l sp show ?thesis by (auto intro!: exI [of _ 0])
  next
    case True
    then have "ready s1" "journal_at start (disk s1) h (es @ [JData q b d]) q"
        "\<forall>a. \<not> in_journal start a \<longrightarrow> disk s1 a = disk s a"
      using sp Cons.prems(4) bd by auto
    moreover from this obtain n where "ready s' \<and> (\<forall>a. \<not> in_journal start a \<longrightarrow> disk s' a = disk s1 a) \<and>
        journal_at start (disk s') h ((es @ [JData q b d]) @ logged q (take n ws)) q \<and>
        (e = ERR_OK \<longrightarrow> n = length ws)"
      using Cons.IH [of s1 "es @ [JData q b d]"] Cons.prems(3-5) bd l True by auto
    ultimately show ?thesis using bd by (intro conjI exI [of _ "Suc n"]) auto
  qed
qed

lemma run_txn_spec:
  assumes "ready s" "journal_at start (disk s) h [] q" "length g = 512" "\<forall>(b, d) \<in> set ws. length d = 512"
    and run: "run_txn g D p start q ws s = (e, s')"
  obtains n q' where "ready s'" "\<forall>a. \<not> in_journal start a \<longrightarrow> disk s' a = disk s a"
    "journal_at start (disk s') h (if e = ERR_OK then logged q ws @ [JCommit q] else logged q (take n ws)) q'"
proof -
  obtain e1 s1 where l: "txn_log g D p start q ws s = (e1, s1)" by (metis prod.exhaust)
  from txn_log_spec [OF assms(1-4) l] obtain n where s1: "ready s1"
      "\<forall>a. \<not> in_journal start a \<longrightarrow> disk s1 a = disk s a"
      "journal_at start (disk s1) h (logged q (take n ws)) q" "e1 = ERR_OK \<longrightarrow> n = length ws" by auto
  show thesis
  proof (cases "e1 = ERR_OK")
    case False
    with l run s1 that [where n = n and q' = q] show thesis by (auto simp: run_txn_def)
  next
    case True
    with l run have "journal_commit g D p start q s1 = (e, s')" by (simp add: run_txn_def)
    from commit_spec [OF s1(1,3) assms(3) this] s1(2,4) True
      that [where n = n and q' = q] that [where n = n and q' = "q + 1"]
    show thesis by (cases "e = ERR_OK") auto
  qed
qed

end

section \<open>The RAM disk as the device of a journal\<close>

lemma rd_journal_area:
  assumes "unat start + 255 < 4096" and "in_journal start a"
  shows "rd_addr 0 a"
  using assms by (simp add: rd_addr_def in_journal_def rd_consts)

text \<open>\<open>sfs\<close> puts the journal in the last 256 sectors of its device.\<close>

definition RD_JOURNAL :: u32 where "RD_JOURNAL = 4096 - 256"

interpretation rdj: journal_reliable ramdisk_mem rd_content rd_addr sector_wf rd_wf 0 RD_JOURNAL
proof (unfold_locales, goal_cases)
  case (1 w f lba b e d w')
  with ramdisk_read_in_range [OF 1(1) rd_addr_bound [OF 1(3)], of b] show ?case by (auto simp: ramdisk_mem_ops)
next
  case (4 a)
  then show ?case by (intro rd_journal_area [of RD_JOURNAL]) (simp_all add: RD_JOURNAL_def)
next
  case (5 d)
  show ?case by (simp add: sector_wf_def BLOCK_SIZE_def)
next
  case (6 w wr lba d)
  then show ?case using rd.write_total by blast
next
  case (7 w f lba b)
  then show ?case using rd.read_total by blast
qed (auto simp: ramdisk_mem_def ramdisk_blk_dev_def)

lemmas rdj_device = rdj.journal_device_axioms

definition rdj_boot :: "(u8 list, ramdisk) bcache" where
  "rdj_boot = bcache_boot (replicate 512 0) \<lparr>rd_data = replicate RAMDISK_BLK_SIZE 0, rd_oob = False\<rparr>"

lemma rdj_boot_ready: "rdj.ready rdj_boot" "rd_wf (world rdj_boot)" "no_dirty 0 rdj_boot"
  by (simp_all add: rdj.ready_def rdj_boot_def bcache_boot_def no_dirty_def rd_wf_def)

text \<open>A journal with one committed block: the demonstration state of the witnesses.\<close>

abbreviation "zero_buf \<equiv> replicate 512 (0 :: u8)"

definition rdj_empty :: "(u8 list, ramdisk) bcache" where
  "rdj_empty = snd (journal_init ramdisk_mem 0 RD_JOURNAL rdj_boot)"

lemma rdj_empty: "rdj.ready rdj_empty" "journal_at RD_JOURNAL (rd_content (world rdj_empty) 0) 0 [] 1"
proof -
  have i: "journal_init ramdisk_mem 0 RD_JOURNAL rdj_boot = (ERR_OK, rdj_empty)"
    using rdj.init_ok [OF rdj_boot_ready(1)] unfolding rdj_empty_def by (metis prod.exhaust_sel)
  from rdj.init_spec [OF rdj_boot_ready(1) i]
  show "rdj.ready rdj_empty" "journal_at RD_JOURNAL (rd_content (world rdj_empty) 0) 0 [] 1" by simp_all
qed

lemma rdj_target: "unat b < 3840 \<Longrightarrow> rd_addr 0 (ucast b) \<and> \<not> in_journal RD_JOURNAL (ucast (b :: u32))"
  by (simp add: rd_addr_def in_journal_def rd_consts RD_JOURNAL_def unsigned_ucast_eq take_bit_nat_eq_self)

definition rdj_run :: "jent list \<Rightarrow> (u8 list, ramdisk) bcache" where
  "rdj_run es = fold (\<lambda>e s. case e of
      JData q b d \<Rightarrow> snd (journal_log zero_buf ramdisk_mem 0 RD_JOURNAL q b d s)
    | JCommit q \<Rightarrow> snd (journal_commit zero_buf ramdisk_mem 0 RD_JOURNAL q s)) es rdj_empty"

lemma rdj_run:
  assumes "targets_ok (rd_addr 0) RD_JOURNAL es" and "length (slots es) \<le> 250"
  shows "rdj.ready (rdj_run es) \<and> (\<exists>q. journal_at RD_JOURNAL (rd_content (world (rdj_run es)) 0) 0 es q)"
  using assms
proof (induction es rule: rev_induct)
  case Nil
  then show ?case using rdj_empty by (auto simp: rdj_run_def)
next
  case (snoc e es)
  then obtain q where q: "rdj.ready (rdj_run es)" "journal_at RD_JOURNAL (rd_content (world (rdj_run es)) 0) 0 es q"
    by (auto simp: targets_ok_def)
  have z: "length zero_buf = 512" by simp
  show ?case
  proof (cases e)
    case (JData q' b d)
    then have d: "length d = 512" using snoc.prems(1) by (auto simp: targets_ok_def)
    have "length (slots es) \<le> 251" using snoc.prems(2) by simp
    from rdj.log_ok [OF q z d this, of q' b]
    obtain s' where "journal_log zero_buf ramdisk_mem 0 RD_JOURNAL q' b d (rdj_run es) = (ERR_OK, s')"
      by (metis prod.exhaust_sel)
    with rdj.log_spec [OF q z d this] JData show ?thesis by (auto simp: rdj_run_def)
  next
    case (JCommit q')
    have "length (slots es) \<le> 253" using snoc.prems(2) by simp
    from rdj.commit_ok [OF q z this, of q']
    obtain s' where "journal_commit zero_buf ramdisk_mem 0 RD_JOURNAL q' (rdj_run es) = (ERR_OK, s')"
      by (metis prod.exhaust_sel)
    with rdj.commit_spec [OF q z this] JCommit show ?thesis by (auto simp: rdj_run_def)
  qed
qed

section \<open>Properties\<close>

text \<open>
  C19. Recovery replays the log: on a device that answers its requests, from a disk whose journal
  holds the entries \<open>es\<close>, \<open>journal_recover\<close> returns, stores in every sector outside the journal
  what redoing the committed transactions in log order stores there, reports whether anything
  was replayed, and leaves an empty journal. The cache has no dirty line of the device, and the logged blocks belong in the device outside the
  journal. A further condition is that no logged block of one transaction looks
  like a block descriptor of another, committed one: its first two words are not the descriptor's tag and that transaction's
  number (\<open>no_alias\<close>). Without it recovery parses data as descriptors (\<open>journal_recover_parses_data\<close>).
\<close>

theorem journal_recover_redoes:
  assumes "journal_reliable D content addr wfd wfw p start"
    and "wfw (world s)" and "no_dirty p s" and "length g = 512" and "254 \<le> fuel"
    and "journal_at start (content (world s) p) h es q" and "targets_ok (addr p) start es"
    and "\<forall>q. JCommit q \<in> set es \<longrightarrow> no_alias q es"
  shows "\<exists>s'. journal_recover fuel g D p start s =
      Some (ERR_OK, Some (if 0 < redone [] es then 1 else 0), s') \<and>
    journal_at start (content (world s') p) (ring h (length (slots es))) [] q \<and>
    (\<forall>a. \<not> in_journal start a \<longrightarrow> content (world s') p a = redo [] es (content (world s) p) a)"
proof -
  note dev = journal_reliable.axioms(1) [OF assms(1)]
  have "journal_device.ready wfw p s" using assms(2,3) by (simp add: journal_device.ready_def [OF dev])
  from journal_reliable.recover_spec [OF assms(1) this assms(6,4,7) _ assms(5)] assms(8) show ?thesis by blast
qed

text \<open>
  C8. Transactions are atomic under crashes: a transaction is run on a device that may fail any
  of its requests (a power failure is a device that takes no further write), starting from an
  empty journal. Whatever the point of failure, a recovery of the resulting disk gives in
  every sector outside the journal either the old contents, when the transaction returned an
  error, or all its blocks, when it returned success.
\<close>

theorem journal_txn_atomic:
  assumes dev: "journal_device D content addr wfd wfw p start"
    and s: "wfw (world s)" "no_dirty p s" and g: "length g = 512"
    and at: "journal_at start (content (world s) p) h [] q"
    and run: "run_txn g D p start q ws s = (e, s1)"
    and rel: "journal_reliable D' content' addr' wfd' wfw' p' start"
    and t: "wfw' (world t)" "no_dirty p' t" "content' (world t) p' = content (world s1) p"
    and ws: "targets_ok (addr' p') start (logged q ws)" and fuel: "254 \<le> fuel"
  shows "\<exists>r t'. journal_recover fuel g D' p' start t = Some (ERR_OK, r, t') \<and>
    (\<forall>a. \<not> in_journal start a \<longrightarrow> content' (world t') p' a =
      (if e = ERR_OK then store_all ws (content (world s) p) a else content (world s) p a))"
proof -
  have rs: "journal_device.ready wfw p s" using s by (simp add: journal_device.ready_def [OF dev])
  have rt: "journal_device.ready wfw' p' t"
    using t(1,2) by (simp add: journal_device.ready_def [OF journal_reliable.axioms(1) [OF rel]])
  have len: "\<forall>(b, d) \<in> set ws. length d = 512" using ws by (fastforce simp: targets_ok_def)
  obtain n q' where s1: "\<forall>a. \<not> in_journal start a \<longrightarrow> content (world s1) p a = content (world s) p a"
    "journal_at start (content (world s1) p) h (if e = ERR_OK then logged q ws @ [JCommit q] else logged q (take n ws)) q'"
    using journal_device.run_txn_spec [OF dev rs at g len run] by metis
  define es where "es = (if e = ERR_OK then logged q ws @ [JCommit q] else logged q (take n ws))"
  have te: "targets_ok (addr' p') start es"
    using ws by (auto simp: es_def targets_ok_def dest!: in_set_takeD)
  have na: "no_alias q2 es" if "JCommit q2 \<in> set es" for q2
    using that by (auto simp: es_def no_alias_def split: if_splits)
  have "journal_at start (content' (world t) p') h es q'" using s1(2) t(3) by (simp add: es_def)
  from journal_reliable.recover_spec [OF rel rt this g te na fuel]
  obtain r t' where t': "journal_recover fuel g D' p' start t = Some (ERR_OK, r, t')"
    "\<forall>a. \<not> in_journal start a \<longrightarrow> content' (world t') p' a = redo [] es (content (world s1) p) a"
    using t(3) by auto
  have "redo [] es (content (world s1) p) a =
      (if e = ERR_OK then store_all ws (content (world s) p) a else content (world s) p a)"
    if "\<not> in_journal start a" for a
  proof -
    have "content (world s1) p a = content (world s) p a" using that s1(1) by blast
    with store_all_cong [of "content (world s1) p" a "content (world s) p" ws] show ?thesis
      by (simp add: es_def redo_logged redo_committed apply_logged)
  qed
  then have "\<forall>a. \<not> in_journal start a \<longrightarrow> content' (world t') p' a =
      (if e = ERR_OK then store_all ws (content (world s) p) a else content (world s) p a)"
    using t'(2) by simp
  with t'(1) show ?thesis by blast
qed

text \<open>
  A checkpoint writes every block logged before the last commit record to its target, drops
  exactly those entries from the journal and keeps the entries of the running transaction.
\<close>

theorem journal_checkpoint_settles:
  assumes "journal_reliable D content addr wfd wfw p start"
    and "wfw (world s)" and "no_dirty p s" and "length g = 512" and "254 \<le> fuel"
    and "journal_at start (content (world s) p) h es q" and "targets_ok (addr p) start es"
  shows "\<exists>s'. journal_checkpoint fuel g D p start s = Some (ERR_OK, s') \<and>
    journal_at start (content (world s') p) (ring h (length (slots (settled es)))) (pending es) q \<and>
    (\<forall>a. \<not> in_journal start a \<longrightarrow> content (world s') p a = fold home (settled es) (content (world s) p) a)"
proof -
  note dev = journal_reliable.axioms(1) [OF assms(1)]
  have "journal_device.ready wfw p s" using assms(2,3) by (simp add: journal_device.ready_def [OF dev])
  from journal_reliable.checkpoint_spec [OF assms(1) this assms(6,4,7,5)] show ?thesis by blast
qed

text \<open>Witnesses: on the RAM disk, with sectors of one byte value.\<close>

abbreviation "sec b \<equiv> replicate 512 (b :: u8)"

lemma one_block: "targets_ok (rd_addr 0) RD_JOURNAL [JData 1 5 (sec 9), JCommit 1]"
  using rdj_target [of 5] by (simp add: targets_ok_def)

theorem journal_recover_redoes_witness:
  "\<exists>s'. journal_recover 254 zero_buf ramdisk_mem 0 RD_JOURNAL (rdj_run [JData 1 5 (sec 9), JCommit 1]) =
     Some (ERR_OK, Some 1, s') \<and> rd_content (world s') 0 5 = sec 9"
proof -
  let ?es = "[JData 1 5 (sec 9), JCommit 1]"
  obtain q where s: "rdj.ready (rdj_run ?es)" "journal_at RD_JOURNAL (rd_content (world (rdj_run ?es)) 0) 0 ?es q"
    using rdj_run [OF one_block] by auto
  have r: "rd_wf (world (rdj_run ?es))" "no_dirty 0 (rdj_run ?es)" using s(1) by (simp_all add: rdj.ready_def)
  have na: "\<forall>q. JCommit q \<in> set ?es \<longrightarrow> no_alias q ?es" by (simp add: no_alias_def)
  have "length zero_buf = 512" by simp
  from journal_recover_redoes [OF rdj.journal_reliable_axioms r this _ s(2) one_block na, of 254] rdj_target [of 5]
  show ?thesis by auto
qed

lemma one_block_run:
  "\<exists>t. run_txn zero_buf ramdisk_mem 0 RD_JOURNAL 1 [(5, sec 9)] rdj_empty = (ERR_OK, t) \<and> rdj.ready t"
proof -
  have z: "length zero_buf = 512" "length (sec 9) = 512" by simp_all
  obtain s1 where l: "journal_log zero_buf ramdisk_mem 0 RD_JOURNAL 1 5 (sec 9) rdj_empty = (ERR_OK, s1)"
    using rdj.log_ok [OF rdj_empty z, of 1 5] by (metis prod.exhaust_sel slots_simps(1) list.size(3) zero_le)
  from rdj.log_spec [OF rdj_empty z l] have s1: "rdj.ready s1"
      "journal_at RD_JOURNAL (rd_content (world s1) 0) 0 [JData 1 5 (sec 9)] 1" by auto
  have "length (slots [JData 1 5 (sec 9)]) \<le> 253" by simp
  from rdj.commit_ok [OF s1 z(1) this, of 1]
  obtain t where c: "journal_commit zero_buf ramdisk_mem 0 RD_JOURNAL 1 s1 = (ERR_OK, t)" by (metis prod.exhaust_sel)
  from rdj.commit_spec [OF s1 z(1) c] l c show ?thesis by (simp add: run_txn_def)
qed

theorem journal_txn_atomic_witness:
  "\<exists>t r t'. run_txn zero_buf ramdisk_mem 0 RD_JOURNAL 1 [(5, sec 9)] rdj_empty = (ERR_OK, t) \<and>
     journal_recover 254 zero_buf ramdisk_mem 0 RD_JOURNAL t = Some (ERR_OK, r, t') \<and>
     rd_content (world t') 0 5 = sec 9"
proof -
  obtain t where t: "run_txn zero_buf ramdisk_mem 0 RD_JOURNAL 1 [(5, sec 9)] rdj_empty = (ERR_OK, t)" "rdj.ready t"
    using one_block_run by blast
  have r: "rd_wf (world rdj_empty)" "no_dirty 0 rdj_empty" "rd_wf (world t)" "no_dirty 0 t"
    using rdj_empty(1) t(2) by (simp_all add: rdj.ready_def)
  have z: "length zero_buf = 512" by simp
  have w: "targets_ok (rd_addr 0) RD_JOURNAL (logged 1 [(5, sec 9)])"
    using rdj_target [of 5] by (simp add: targets_ok_def)
  from journal_txn_atomic [OF rdj.journal_device_axioms r(1,2) z rdj_empty(2) t(1) rdj.journal_reliable_axioms
      r(3,4) refl w, of 254] rdj_target [of 5] t(1)
  show ?thesis by (auto simp: store_all_def)
qed

theorem journal_checkpoint_settles_witness:
  "\<exists>s'. journal_checkpoint 254 zero_buf ramdisk_mem 0 RD_JOURNAL (rdj_run [JData 1 5 (sec 9), JCommit 1]) =
     Some (ERR_OK, s') \<and> rd_content (world s') 0 5 = sec 9"
proof -
  let ?es = "[JData 1 5 (sec 9), JCommit 1]"
  obtain q where s: "rdj.ready (rdj_run ?es)" "journal_at RD_JOURNAL (rd_content (world (rdj_run ?es)) 0) 0 ?es q"
    using rdj_run [OF one_block] by auto
  have r: "rd_wf (world (rdj_run ?es))" "no_dirty 0 (rdj_run ?es)" using s(1) by (simp_all add: rdj.ready_def)
  have "length zero_buf = 512" by simp
  from journal_checkpoint_settles [OF rdj.journal_reliable_axioms r this _ s(2) one_block, of 254] rdj_target [of 5]
  show ?thesis by (auto simp: settled_def)
qed

text \<open>
  The replay of the source takes the copy of a logged block for a descriptor: when the first
  words of a block of transaction \<open>q1\<close> read as a descriptor of the later transaction \<open>q2\<close>
  (type, sequence number and target are bytes of the block), the recovery of the two committed
  transactions overwrites that target, which no transaction has logged, with the commit record
  of \<open>q1\<close>.
\<close>

theorem journal_recover_parses_data:
  assumes rel: "journal_reliable D content addr wfd wfw p start"
    and s: "wfw (world s)" "no_dirty p s" and g: "length g = 512" and fuel: "254 \<le> fuel"
    and at: "journal_at start (content (world s) p) h [JData q1 b1 d1, JCommit q1, JData q2 b2 d2, JCommit q2] q"
    and t: "targets_ok (addr p) start [JData q1 b1 d1, JCommit q1, JData q2 b2 d2, JCommit q2]"
    and al: "q1 \<noteq> q2" "words_of d1 ! 0 = JENT_DATA" "words_of d1 ! 1 = q2" "words_of d1 ! 2 = c"
    and c: "addr p (ucast c)" "\<not> in_journal start (ucast c)" "(ucast c :: u64) \<noteq> ucast b1" "(ucast c :: u64) \<noteq> ucast b2"
  shows "\<exists>s'. journal_recover fuel g D p start s = Some (ERR_OK, Some 1, s') \<and>
    content (world s') p (ucast c) = bytes_of (jent_commit_words (commit_entry q1)) \<and>
    redo [] [JData q1 b1 d1, JCommit q1, JData q2 b2 d2, JCommit q2] (content (world s) p) (ucast c) =
      content (world s) p (ucast c)"
proof -
  let ?es = "[JData q1 b1 d1, JCommit q1, JData q2 b2 d2, JCommit q2]"
  note dev = journal_reliable.axioms(1) [OF rel]
  have r: "journal_device.ready wfw p s" using s by (simp add: journal_device.ready_def [OF dev])
  let ?C = "(content (world s) p)(ucast b1 := d1, ucast c := bytes_of (jent_commit_words (commit_entry q1)),
      ucast b2 := d2)"
  have "\<exists>s2. recover_loop fuel fuel g D p start (int h) (int (ring h (length (slots ?es)))) (int h) 0 s1 = Some (3, s2) \<and>
      journal_device.ready wfw p s2 \<and> content (world s2) p = ?C"
    if "journal_device.ready wfw p s1" "content (world s1) p = content (world s) p" for s1
    using journal_reliable.recover_alias [OF rel that(1) g fuel _ t al(1,2), of h q] at al c(1,2) that(2) by (simp add: eval_nat_numeral)
  from journal_reliable.recover_around [OF rel r at g this] c(2-4) show ?thesis by auto
qed

definition alias_block :: "u8 list" where
  "alias_block = bytes_of ([JENT_DATA, 2, 77] @ replicate 125 0)"

lemma alias_block_words: "words_of alias_block = [JENT_DATA, 2, 77] @ replicate 125 0" "length alias_block = 512"
  by (simp_all add: alias_block_def words_of_bytes_of)

theorem journal_recover_parses_data_witness:
  "\<exists>s'. journal_recover 254 zero_buf ramdisk_mem 0 RD_JOURNAL
      (rdj_run [JData 1 5 alias_block, JCommit 1, JData 2 6 (sec 9), JCommit 2]) = Some (ERR_OK, Some 1, s') \<and>
    rd_content (world s') 0 77 = bytes_of (jent_commit_words (commit_entry 1))"
proof -
  let ?es = "[JData 1 5 alias_block, JCommit 1, JData 2 6 (sec 9), JCommit 2]"
  have t: "targets_ok (rd_addr 0) RD_JOURNAL ?es"
    using rdj_target [of 5] rdj_target [of 6] by (simp add: targets_ok_def alias_block_words)
  obtain q where s: "rdj.ready (rdj_run ?es)" "journal_at RD_JOURNAL (rd_content (world (rdj_run ?es)) 0) 0 ?es q"
    using rdj_run [OF t] by auto
  have r: "rd_wf (world (rdj_run ?es))" "no_dirty 0 (rdj_run ?es)" using s(1) by (simp_all add: rdj.ready_def)
  have z: "length zero_buf = 512" by simp
  from journal_recover_parses_data [OF rdj.journal_reliable_axioms r z _ s(2) t, of 254 77] rdj_target [of 77]
  show ?thesis by (auto simp: alias_block_words)
qed

end
