(* ===== verification/Kmalloc.thy ===== *)
theory Kmalloc
  imports Kernel_Prelude "HOL-Library.Monad_Syntax" "HOL-Library.Signed_Division"
begin

text \<open>
  The kernel heap of \<^verbatim>\<open>kernel/kmalloc.c\<close> (the SMP build): slabs of fixed-size objects for requests up to 1024
  bytes, with a small magazine of free objects per CPU and size, and whole pages for larger
  requests. The heap calls the page allocator through \<open>page_ops\<close>; its state is the field \<open>kh_pmm\<close>.
  Addresses are kernel virtual addresses. \<open>kh_pages v\<close> is the first 40 bytes of the page at \<open>v\<close>, which
  hold the header and the bitmap of a slab, or the page count and the first bytes of a large object:
  \<open>kp_bitmap\<close> lists the bits, bit \<open>i\<close> being bit \<open>i % 8\<close> of byte \<open>i / 8\<close>. The slabs of one size are
  linked through their headers; the model keeps the list \<open>kh_slabs\<close>. \<open>kh_mag c i\<close> is the used
  prefix of \<open>kmag_ptrs[c][i]\<close>, of length \<open>kmag_count[c][i]\<close>.

  \<open>None\<close> stands for an operation without a result: the machine is stopped by a consistency check of the
  page allocator or by \<open>kpanic\<close>, or the shift in \<open>slab_index\<close> is out of range.
\<close>

definition KERNEL_VMA_BASE :: u64 where "KERNEL_VMA_BASE = 0xFFFFFFFFC0000000"
definition KERNEL_PHYS_BASE :: u64 where "KERNEL_PHYS_BASE = 0x100000"
definition KERNEL_VMA :: u64 where "KERNEL_VMA = KERNEL_VMA_BASE + KERNEL_PHYS_BASE"

definition PHYS_TO_VIRT :: "u64 \<Rightarrow> u64" where "PHYS_TO_VIRT p = p + KERNEL_VMA_BASE"
definition VIRT_TO_PHYS :: "u64 \<Rightarrow> u64" where "VIRT_TO_PHYS v = v - KERNEL_VMA_BASE"

definition SLAB_MAGIC :: u32 where "SLAB_MAGIC = 0x5B1AB5"
definition SLAB_MAX_OBJS :: nat where "SLAB_MAX_OBJS = 128"
definition MIN_SLAB_SHIFT :: nat where "MIN_SLAB_SHIFT = 4"
definition MAX_SLAB_SHIFT :: nat where "MAX_SLAB_SHIFT = 10"
definition SLAB_COUNT :: nat where "SLAB_COUNT = MAX_SLAB_SHIFT - MIN_SLAB_SHIFT + 1"
definition SLAB_HEADER_SIZE :: nat where "SLAB_HEADER_SIZE = 24 + (SLAB_MAX_OBJS + 7) div 8"
definition KMAG_SIZE :: nat where "KMAG_SIZE = 8"
definition KMAG_CPUS :: nat where "KMAG_CPUS = 64"

record kpage =
  kp_word0 :: u64
  kp_magic :: u32
  kp_free_count :: u16
  kp_total :: u16
  kp_shift :: u8
  kp_bitmap :: "bool list"

record 's kheap =
  kh_slabs :: "nat \<Rightarrow> u64 list"
  kh_pages :: "u64 \<Rightarrow> kpage"
  kh_mag :: "nat \<Rightarrow> nat \<Rightarrow> u64 list"
  kh_used :: u64
  kh_total :: u64
  kh_pmm :: 's

text \<open>
  The services of the rest of the kernel: \<open>pmm_alloc_pages\<close>, \<open>pmm_alloc_node_pages\<close> on the current node,
  \<open>pmm_free_pages\<close> and \<open>smp_cpu_id\<close>.
\<close>

record ('e, 's) page_ops =
  po_alloc :: "'e \<Rightarrow> u32 \<Rightarrow> 's \<Rightarrow> (u64 \<times> 's) option"
  po_alloc_node :: "'e \<Rightarrow> u32 \<Rightarrow> 's \<Rightarrow> (u64 \<times> 's) option"
  po_free :: "'e \<Rightarrow> u64 \<Rightarrow> u32 \<Rightarrow> 's \<Rightarrow> 's option"
  po_cpu :: "'e \<Rightarrow> nat"

section \<open>Pages and slots\<close>

definition page_of :: "u64 \<Rightarrow> u64" where
  "page_of a = a AND NOT 4095"

definition upd_page :: "u64 \<Rightarrow> (kpage \<Rightarrow> kpage) \<Rightarrow> 's kheap \<Rightarrow> 's kheap" where
  "upd_page v f h = h\<lparr>kh_pages := (kh_pages h)(v := f (kh_pages h v))\<rparr>"

text \<open>\<open>uint16_t objsize = 1 << shift\<close>.\<close>

definition obj_size :: "nat \<Rightarrow> u16" where
  "obj_size shift = ucast (push_bit shift 1 :: u32)"

text \<open>\<open>(int)(((uint8_t*)ptr - base) / objsize)\<close>: a signed difference, rounded towards zero.\<close>

definition slot_index :: "u64 \<Rightarrow> u64 \<Rightarrow> u16 \<Rightarrow> int" where
  "slot_index ptr v objsize =
     signed_take_bit 31 (sint (ptr - (v + of_nat SLAB_HEADER_SIZE)) sdiv uint objsize)"

text \<open>Returning one object to the bitmap of its slab, in the two flush loops.\<close>

definition flush_obj :: "u64 \<Rightarrow> 's kheap \<Rightarrow> 's kheap" where
  "flush_obj ptr h = (let v = page_of ptr; pg = kh_pages h v in
     if kp_magic pg \<noteq> SLAB_MAGIC then h
     else let objsize = obj_size (unat (kp_shift pg)); slot = slot_index ptr v objsize in
       if slot \<ge> 0 \<and> slot < int (unat (kp_total pg)) then
         (upd_page v (\<lambda>g. g\<lparr>kp_bitmap := (kp_bitmap g)[nat slot := True], kp_free_count := kp_free_count g + 1\<rparr>) h)
           \<lparr>kh_used := kh_used h - ucast objsize\<rparr>
       else h)"

definition set_mag :: "nat \<Rightarrow> nat \<Rightarrow> u64 list \<Rightarrow> 's kheap \<Rightarrow> 's kheap" where
  "set_mag c i xs h = h\<lparr>kh_mag := (kh_mag h)(c := (kh_mag h c)(i := xs))\<rparr>"

definition kmag_flush :: "nat \<Rightarrow> nat \<Rightarrow> 's kheap \<Rightarrow> 's kheap" where
  "kmag_flush c i h = set_mag c i [] (fold flush_obj (kh_mag h c i) h)"

definition kmag_flush_half :: "nat \<Rightarrow> nat \<Rightarrow> 's kheap \<Rightarrow> 's kheap" where
  "kmag_flush_half c i h = (let xs = kh_mag h c i; keep = length xs div 2 in
     set_mag c i (take keep xs) (fold flush_obj (drop keep xs) h))"

definition flush_cpu :: "nat \<Rightarrow> 's kheap \<Rightarrow> 's kheap" where
  "flush_cpu c h = fold (\<lambda>i h. if kh_mag h c i \<noteq> [] then kmag_flush c i h else h) [0..<SLAB_COUNT] h"

definition kmag_flush_one_cpu :: "bool \<Rightarrow> int \<Rightarrow> 's kheap \<Rightarrow> 's kheap" where
  "kmag_flush_one_cpu smp_enabled cpu h =
     (if \<not> smp_enabled \<or> cpu < 0 \<or> cpu \<ge> int KMAG_CPUS then h else flush_cpu (nat cpu) h)"

definition kmag_flush_all :: "'s kheap \<Rightarrow> 's kheap" where
  "kmag_flush_all h = fold flush_cpu [0..<KMAG_CPUS] h"

section \<open>Allocation\<close>

text \<open>The loop of \<open>slab_index\<close>; a shift by 64 or more is undefined.\<close>

function slab_index_loop :: "u64 \<Rightarrow> nat \<Rightarrow> nat option" where
  "slab_index_loop sz idx =
     (if idx + MIN_SLAB_SHIFT \<ge> 64 then None
      else if push_bit (idx + MIN_SLAB_SHIFT) 1 < sz then slab_index_loop sz (idx + 1)
      else Some idx)"
  by pat_completeness auto
termination by (relation "measure (\<lambda>(sz, idx). 64 - idx)") auto

text \<open>The index of the size class, or \<open>None\<close> for the result -1.\<close>

definition slab_index :: "u64 \<Rightarrow> nat option option" where
  "slab_index sz =
     map_option (\<lambda>idx. if idx \<ge> SLAB_COUNT then None else Some idx)
       (slab_index_loop (if sz < push_bit MIN_SLAB_SHIFT 1 then push_bit MIN_SLAB_SHIFT 1 else sz) 0)"

definition kmalloc_init :: "'s kheap \<Rightarrow> 's kheap" where
  "kmalloc_init h = h\<lparr>kh_slabs := \<lambda>_. [], kh_mag := \<lambda>_ _. []\<rparr>"

definition slab_total :: "nat \<Rightarrow> nat" where
  "slab_total idx = max 1 (min SLAB_MAX_OBJS ((4096 - SLAB_HEADER_SIZE) div 2 ^ (idx + MIN_SLAB_SHIFT)))"

text \<open>The header and the bitmap that \<open>slab_new_page\<close> writes.\<close>

definition slab_header :: "nat \<Rightarrow> kpage" where
  "slab_header idx = \<lparr>kp_word0 = 0, kp_magic = SLAB_MAGIC, kp_free_count = of_nat (slab_total idx),
     kp_total = of_nat (slab_total idx), kp_shift = of_nat (idx + MIN_SLAB_SHIFT),
     kp_bitmap = map (\<lambda>i. i < slab_total idx) [0..<SLAB_MAX_OBJS]\<rparr>"

definition slab_new_page :: "('e, 's) page_ops \<Rightarrow> 'e \<Rightarrow> nat \<Rightarrow> 's kheap \<Rightarrow> (u64 option \<times> 's kheap) option" where
  "slab_new_page P e idx h =
     do { (phys, s) \<leftarrow> po_alloc_node P e 1 (kh_pmm h);
          if phys = 0 then Some (None, h\<lparr>kh_pmm := s\<rparr>)
          else let v = PHYS_TO_VIRT phys in
            Some (Some v, h\<lparr>kh_pmm := s, kh_pages := (kh_pages h)(v := slab_header idx),
                   kh_slabs := (kh_slabs h)(idx := v # kh_slabs h idx), kh_total := kh_total h + 4096\<rparr>) }"

text \<open>The search of the slabs for the first free slot.\<close>

fun slab_search :: "(u64 \<Rightarrow> kpage) \<Rightarrow> u64 list \<Rightarrow> (u64 \<times> nat) option" where
  "slab_search pages [] = None"
| "slab_search pages (v # vs) =
     (if kp_magic (pages v) \<noteq> SLAB_MAGIC then slab_search pages vs
      else case find_idx (\<lambda>b. b) (take (unat (kp_total (pages v))) (kp_bitmap (pages v))) of
             Some i \<Rightarrow> Some (v, i)
           | None \<Rightarrow> slab_search pages vs)"

definition take_slot :: "u64 \<Rightarrow> nat \<Rightarrow> nat \<Rightarrow> 's kheap \<Rightarrow> u64 \<times> 's kheap" where
  "take_slot v i idx h = (let objsize = obj_size (idx + MIN_SLAB_SHIFT) in
     (v + of_nat SLAB_HEADER_SIZE + of_nat i * ucast objsize,
      (upd_page v (\<lambda>g. g\<lparr>kp_bitmap := (kp_bitmap g)[i := False], kp_free_count := kp_free_count g - 1\<rparr>) h)
        \<lparr>kh_used := kh_used h + ucast objsize\<rparr>))"

text \<open>
  Requests above 1024 bytes: whole pages, cleared by the page allocator, with their number in the first word.
  \<open>pmm_alloc_pages\<close> takes a 32-bit count.
\<close>

definition blank_page :: kpage where
  "blank_page = \<lparr>kp_word0 = 0, kp_magic = 0, kp_free_count = 0, kp_total = 0, kp_shift = 0, kp_bitmap = replicate 128 False\<rparr>"

definition kmalloc_large :: "('e, 's) page_ops \<Rightarrow> 'e \<Rightarrow> u64 \<Rightarrow> 's kheap \<Rightarrow> (u64 \<times> 's kheap) option" where
  "kmalloc_large P e sz h = (let pages = (sz + 8 + 4096 - 1) div 4096 in
     do { (phys, s) \<leftarrow> po_alloc P e (ucast pages) (kh_pmm h);
          if phys = 0 then Some (0, h\<lparr>kh_pmm := s\<rparr>)
          else let v = PHYS_TO_VIRT phys in
            Some (v + 8, h\<lparr>kh_pmm := s, kh_used := kh_used h + pages * 4096, kh_total := kh_total h + pages * 4096,
                           kh_pages := (kh_pages h)(v := blank_page\<lparr>kp_word0 := pages\<rparr>)\<rparr>) })"

definition kmalloc :: "('e, 's) page_ops \<Rightarrow> 'e \<Rightarrow> u64 \<Rightarrow> 's kheap \<Rightarrow> (u64 \<times> 's kheap) option" where
  "kmalloc P e sz h =
     (if sz = 0 then Some (0, h)
      else case slab_index sz of
        None \<Rightarrow> None
      | Some None \<Rightarrow> kmalloc_large P e sz h
      | Some (Some idx) \<Rightarrow>
          (let cpu = po_cpu P e; xs = kh_mag h cpu idx in
           if xs \<noteq> [] then Some (last xs, set_mag cpu idx (butlast xs) h)
           else case slab_search (kh_pages h) (kh_slabs h idx) of
             Some (v, i) \<Rightarrow> Some (take_slot v i idx h)
           | None \<Rightarrow>
               do { (np, h1) \<leftarrow> slab_new_page P e idx h;
                    case np of None \<Rightarrow> Some (0, h1) | Some v \<Rightarrow> Some (take_slot v 0 idx h1) }))"

section \<open>Release\<close>

definition kfree_large :: "('e, 's) page_ops \<Rightarrow> 'e \<Rightarrow> u64 \<Rightarrow> 's kheap \<Rightarrow> 's kheap option" where
  "kfree_large P e v h = (let pages = kp_word0 (kh_pages h v) in
     if pages = 0 \<or> pages > push_bit 20 1 then Some h
     else do { s \<leftarrow> po_free P e (VIRT_TO_PHYS v) (ucast pages) (kh_pmm h);
               Some (h\<lparr>kh_pmm := s, kh_used := kh_used h - pages * 4096, kh_total := kh_total h - pages * 4096\<rparr>) })"

text \<open>The free through the bitmap, for a header whose size class is out of range.\<close>

definition kfree_bitmap :: "u64 \<Rightarrow> u64 \<Rightarrow> 's kheap \<Rightarrow> 's kheap option" where
  "kfree_bitmap ptr v h =
     (let pg = kh_pages h v; objsize = obj_size (unat (kp_shift pg)); slot = slot_index ptr v objsize in
      if slot < 0 \<or> slot \<ge> int (unat (kp_total pg)) then Some h
      else if kp_bitmap pg ! nat slot then None
      else Some ((upd_page v (\<lambda>g. g\<lparr>kp_bitmap := (kp_bitmap g)[nat slot := True], kp_free_count := kp_free_count g + 1\<rparr>) h)
             \<lparr>kh_used := kh_used h - ucast objsize\<rparr>))"

definition kfree :: "('e, 's) page_ops \<Rightarrow> 'e \<Rightarrow> u64 \<Rightarrow> 's kheap \<Rightarrow> 's kheap option" where
  "kfree P e ptr h =
     (if ptr = 0 \<or> ptr < KERNEL_VMA then Some h
      else let v = page_of ptr; pg = kh_pages h v in
        if kp_magic pg \<noteq> SLAB_MAGIC then kfree_large P e v h
        else let s_idx = int (unat (kp_shift pg)) - int MIN_SLAB_SHIFT in
          if 0 \<le> s_idx \<and> s_idx < int SLAB_COUNT then
            (let idx = nat s_idx; cpu = po_cpu P e; xs = kh_mag h cpu idx in
             if length xs < KMAG_SIZE then Some (set_mag cpu idx (xs @ [ptr]) h)
             else let h1 = kmag_flush_half cpu idx h in Some (set_mag cpu idx (kh_mag h1 cpu idx @ [ptr]) h1))
          else kfree_bitmap ptr v h)"

section \<open>Compaction\<close>

text \<open>One list of slabs: the pages that stay, the number of pages freed and the heap.\<close>

fun compact_list :: "('e, 's) page_ops \<Rightarrow> 'e \<Rightarrow> u64 list \<Rightarrow> 's kheap \<Rightarrow> (u64 list \<times> nat \<times> 's kheap) option" where
  "compact_list P e [] h = Some ([], 0, h)"
| "compact_list P e (v # vs) h =
     (let pg = kh_pages h v in
      if kp_magic pg = SLAB_MAGIC \<and> kp_free_count pg = kp_total pg \<and> kp_total pg > 0 then
        do { s \<leftarrow> po_free P e (VIRT_TO_PHYS v) 1 (kh_pmm h);
             (ks, n, h1) \<leftarrow> compact_list P e vs (h\<lparr>kh_pmm := s, kh_total := kh_total h - 4096\<rparr>);
             Some (ks, n + 1, h1) }
      else do { (ks, n, h1) \<leftarrow> compact_list P e vs h; Some (v # ks, n, h1) })"

fun compact_classes :: "('e, 's) page_ops \<Rightarrow> 'e \<Rightarrow> nat list \<Rightarrow> 's kheap \<Rightarrow> (nat \<times> 's kheap) option" where
  "compact_classes P e [] h = Some (0, h)"
| "compact_classes P e (i # is) h =
     do { (ks, n, h1) \<leftarrow> compact_list P e (kh_slabs h i) h;
          (m, h2) \<leftarrow> compact_classes P e is (h1\<lparr>kh_slabs := (kh_slabs h1)(i := ks)\<rparr>);
          Some (n + m, h2) }"

definition kmalloc_compact :: "('e, 's) page_ops \<Rightarrow> 'e \<Rightarrow> 's kheap \<Rightarrow> (nat \<times> 's kheap) option" where
  "kmalloc_compact P e h = compact_classes P e [0..<SLAB_COUNT] (kmag_flush_all h)"

definition kmalloc_used :: "'s kheap \<Rightarrow> u64" where "kmalloc_used h = kh_used h"
definition kmalloc_total :: "'s kheap \<Rightarrow> u64" where "kmalloc_total h = kh_total h"

end
