(* ===== verification/Vmm.thy ===== *)
theory Vmm
  imports Kmalloc
begin

text \<open>
  The page tables of \<^verbatim>\<open>vmm.c\<close>: four levels of tables of 512 entries in physical memory, which the kernel reads and
  writes through its direct map. \<open>vm_mem\<close> is the memory as 64-bit words at their physical addresses; a pointer to an
  entry is the physical address of its word. Tables and pages come from the page allocator through \<open>frame_ops\<close>,
  whose state is the field \<open>vm_pmm\<close>; \<open>vm_flushed\<close> lists the addresses flushed from the TLBs, newest first.
\<close>

definition PAGE_PRESENT :: u64 where "PAGE_PRESENT = push_bit 0 1"
definition PAGE_WRITE :: u64 where "PAGE_WRITE = push_bit 1 1"
definition PAGE_USER :: u64 where "PAGE_USER = push_bit 2 1"
definition PAGE_HUGE :: u64 where "PAGE_HUGE = push_bit 7 1"
definition PAGE_NX :: u64 where "PAGE_NX = push_bit 63 1"

definition PML4_INDEX :: "u64 \<Rightarrow> u64" where "PML4_INDEX v = drop_bit 39 v AND 0x1FF"
definition PDPT_INDEX :: "u64 \<Rightarrow> u64" where "PDPT_INDEX v = drop_bit 30 v AND 0x1FF"
definition PD_INDEX :: "u64 \<Rightarrow> u64" where "PD_INDEX v = drop_bit 21 v AND 0x1FF"
definition PT_INDEX :: "u64 \<Rightarrow> u64" where "PT_INDEX v = drop_bit 12 v AND 0x1FF"

record ('e, 's) frame_ops =
  fo_pages :: "('e, 's) page_ops"
  fo_alloc_page :: "'e \<Rightarrow> 's \<Rightarrow> (u64 \<times> 's) option"
  fo_free_page :: "'e \<Rightarrow> u64 \<Rightarrow> 's \<Rightarrow> 's option"
  fo_links :: "'s \<Rightarrow> (u64 \<Rightarrow> u64) \<Rightarrow> u64 \<Rightarrow> u64"

record 's vm =
  vm_mem :: "u64 \<Rightarrow> u64"
  vm_pmm :: 's
  kernel_pml4 :: u64
  vm_flushed :: "u64 list"

definition present :: "u64 \<Rightarrow> bool" where "present en \<longleftrightarrow> en AND PAGE_PRESENT \<noteq> 0"
definition huge :: "u64 \<Rightarrow> bool" where "huge en \<longleftrightarrow> en AND PAGE_HUGE \<noteq> 0"
definition slot :: "u64 \<Rightarrow> u64 \<Rightarrow> u64" where "slot table i = table + 8 * i"
definition entry :: "'s vm \<Rightarrow> u64 \<Rightarrow> u64 \<Rightarrow> u64" where "entry s table i = vm_mem s (slot table i)"

definition put :: "u64 \<Rightarrow> u64 \<Rightarrow> 's vm \<Rightarrow> 's vm" where
  "put a v s = s\<lparr>vm_mem := (vm_mem s)(a := v)\<rparr>"

definition clear_page :: "u64 \<Rightarrow> 's vm \<Rightarrow> 's vm" where
  "clear_page p s = s\<lparr>vm_mem := (\<lambda>a. if a - p < 4096 then 0 else vm_mem s a)\<rparr>"

definition copy_page :: "u64 \<Rightarrow> u64 \<Rightarrow> 's vm \<Rightarrow> 's vm" where
  "copy_page d p s = s\<lparr>vm_mem := (\<lambda>a. if a - d < 4096 then vm_mem s (p + (a - d)) else vm_mem s a)\<rparr>"

text \<open>
  The memory after a call of the page allocator that leaves it in the state \<open>q\<close>: the free pages on its lists hold
  the links of these lists.
\<close>

definition set_pmm :: "('e, 's) frame_ops \<Rightarrow> 's \<Rightarrow> 's vm \<Rightarrow> 's vm" where
  "set_pmm P q s = s\<lparr>vm_pmm := q, vm_mem := fo_links P q (vm_mem s)\<rparr>"

section \<open>Walking the tables\<close>

definition vmm_alloc_page_table :: "('e, 's) frame_ops \<Rightarrow> 'e \<Rightarrow> 's vm \<Rightarrow> (u64 \<times> 's vm) option" where
  "vmm_alloc_page_table P e s = (case po_alloc_node (fo_pages P) e 1 (vm_pmm s) of
     None \<Rightarrow> None
   | Some (phys, q) \<Rightarrow> (let s = set_pmm P q s in Some (phys, if phys \<noteq> 0 then clear_page phys s else s)))"

fun get_entry_loop :: "('e, 's) frame_ops \<Rightarrow> 'e \<Rightarrow> bool \<Rightarrow> u64 \<Rightarrow> u64 list \<Rightarrow> u64 \<Rightarrow> 's vm \<Rightarrow>
    (u64 option \<times> 's vm) option" where
  "get_entry_loop P e create flags [] table s = Some (None, s)"
| "get_entry_loop P e create flags [i] table s = Some (Some (slot table i), s)"
| "get_entry_loop P e create flags (i # j # is) table s = (let en = entry s table i in
     if present en then get_entry_loop P e create flags (j # is) (page_of en) s
     else if \<not> create then Some (None, s)
     else case vmm_alloc_page_table P e s of
       None \<Rightarrow> None
     | Some (new_table, s) \<Rightarrow>
         if new_table = 0 then Some (None, s)
         else let en = (new_table OR PAGE_PRESENT OR PAGE_WRITE) OR (if flags AND PAGE_USER \<noteq> 0 then PAGE_USER else 0)
           in get_entry_loop P e create flags (j # is) (page_of en) (put (slot table i) en s))"

definition indices :: "u64 \<Rightarrow> u64 list" where
  "indices virt = [PML4_INDEX virt, PDPT_INDEX virt, PD_INDEX virt, PT_INDEX virt]"

definition get_entry :: "('e, 's) frame_ops \<Rightarrow> 'e \<Rightarrow> u64 \<Rightarrow> u64 \<Rightarrow> nat \<Rightarrow> bool \<Rightarrow> u64 \<Rightarrow> 's vm \<Rightarrow>
    (u64 option \<times> 's vm) option" where
  "get_entry P e pml4_phys virt level create flags s =
     get_entry_loop P e create flags (take level (indices virt)) pml4_phys s"

definition vmm_get_kernel_pml4 :: "'s vm \<Rightarrow> u64" where
  "vmm_get_kernel_pml4 s = kernel_pml4 s"

definition vmm_walk_pagetable :: "'s vm \<Rightarrow> u64 \<Rightarrow> u64 \<Rightarrow> u64 option" where
  "vmm_walk_pagetable s pml4_phys virt = (let en = entry s pml4_phys (PML4_INDEX virt) in
     if \<not> present en then None
     else let table = page_of en; en = entry s table (PDPT_INDEX virt) in
       if \<not> present en then None
       else if huge en then Some (slot table (PDPT_INDEX virt))
       else let table = page_of en; en = entry s table (PD_INDEX virt) in
         if \<not> present en then None
         else if huge en then Some (slot table (PD_INDEX virt))
         else let table = page_of en; en = entry s table (PT_INDEX virt) in
           if \<not> present en then None else Some (slot table (PT_INDEX virt)))"

definition walk_intermediates :: "'s vm \<Rightarrow> u64 \<Rightarrow> u64 \<Rightarrow> u64 option" where
  "walk_intermediates s pml4_phys virt = (let en = entry s pml4_phys (PML4_INDEX virt) in
     if \<not> present en then None
     else let en = entry s (page_of en) (PDPT_INDEX virt) in
       if \<not> present en then None
       else let en = entry s (page_of en) (PD_INDEX virt) in
         if \<not> present en then None
         else Some (slot (page_of en) (PT_INDEX virt)))"

definition vmm_peek_pte :: "'s vm \<Rightarrow> u64 \<Rightarrow> u64 \<Rightarrow> u64 option" where
  "vmm_peek_pte s pml4_phys virt = walk_intermediates s pml4_phys virt"

section \<open>Mapping and unmapping a page\<close>

definition vmm_flush_tlb_page :: "u64 \<Rightarrow> 's vm \<Rightarrow> 's vm" where
  "vmm_flush_tlb_page virt s = s\<lparr>vm_flushed := virt # vm_flushed s\<rparr>"

definition pte_of :: "u64 \<Rightarrow> u64 \<Rightarrow> u64" where
  "pte_of phys flags = (phys AND NOT 0xFFF) OR (flags AND (0xFFF OR PAGE_NX)) OR PAGE_PRESENT"

definition vmm_map_page :: "('e, 's) frame_ops \<Rightarrow> 'e \<Rightarrow> u64 \<Rightarrow> u64 \<Rightarrow> u64 \<Rightarrow> u64 \<Rightarrow> 's vm \<Rightarrow> (err_t \<times> 's vm) option" where
  "vmm_map_page P e pml4_phys virt phys flags s =
     (if virt AND 0xFFF \<noteq> 0 then Some (ERR_INVAL, s)
      else if phys AND 0xFFF \<noteq> 0 then Some (ERR_INVAL, s)
      else case get_entry P e pml4_phys virt 4 True flags s of
        None \<Rightarrow> None
      | Some (None, s) \<Rightarrow> Some (ERR_NOMEM, s)
      | Some (Some pt, s) \<Rightarrow> Some (ERR_OK, vmm_flush_tlb_page virt (put pt (pte_of phys flags) s)))"

definition vmm_unmap_page :: "u64 \<Rightarrow> u64 \<Rightarrow> 's vm \<Rightarrow> err_t \<times> 's vm" where
  "vmm_unmap_page pml4_phys virt s = (case vmm_walk_pagetable s pml4_phys virt of
     None \<Rightarrow> (ERR_NOENT, s)
   | Some en \<Rightarrow> (ERR_OK, vmm_flush_tlb_page virt (put en 0 s)))"

section \<open>Copying the user half\<close>

definition virt_of :: "nat \<Rightarrow> nat \<Rightarrow> nat \<Rightarrow> nat \<Rightarrow> u64" where
  "virt_of i j k l = push_bit 39 (of_nat i) OR push_bit 30 (of_nat j) OR push_bit 21 (of_nat k) OR push_bit 12 (of_nat l)"

text \<open>One body per loop of the source; \<open>Some (ERR_NOMEM, s)\<close> is the early return.\<close>

fun dup_loop :: "(nat \<Rightarrow> 's vm \<Rightarrow> (err_t \<times> 's vm) option) \<Rightarrow> nat list \<Rightarrow> 's vm \<Rightarrow> (err_t \<times> 's vm) option" where
  "dup_loop body [] s = Some (ERR_OK, s)"
| "dup_loop body (i # is) s = (case body i s of
     None \<Rightarrow> None
   | Some (err, s) \<Rightarrow> if err \<noteq> ERR_OK then Some (err, s) else dup_loop body is s)"

definition dup_pte :: "('e, 's) frame_ops \<Rightarrow> 'e \<Rightarrow> u64 \<Rightarrow> nat \<Rightarrow> nat \<Rightarrow> nat \<Rightarrow> u64 \<Rightarrow> nat \<Rightarrow> 's vm \<Rightarrow> (err_t \<times> 's vm) option" where
  "dup_pte P e dst_pml4 pml4_idx pdpt_idx pd_idx src_pt pt_idx s = (let en = entry s src_pt (of_nat pt_idx) in
     if \<not> present en then Some (ERR_OK, s)
     else case po_alloc_node (fo_pages P) e 1 (vm_pmm s) of
       None \<Rightarrow> None
     | Some (new_phys, q) \<Rightarrow> (let s = set_pmm P q s in
         if new_phys = 0 then Some (ERR_NOMEM, s)
         else map_option (\<lambda>r. (ERR_OK, snd r))
           (vmm_map_page P e dst_pml4 (virt_of pml4_idx pdpt_idx pd_idx pt_idx) new_phys (en AND 0xFFF)
             (copy_page new_phys (page_of en) s))))"

definition dup_pde :: "('e, 's) frame_ops \<Rightarrow> 'e \<Rightarrow> u64 \<Rightarrow> nat \<Rightarrow> nat \<Rightarrow> u64 \<Rightarrow> nat \<Rightarrow> 's vm \<Rightarrow> (err_t \<times> 's vm) option" where
  "dup_pde P e dst_pml4 pml4_idx pdpt_idx src_pd pd_idx s = (let en = entry s src_pd (of_nat pd_idx) in
     if \<not> present en \<or> huge en then Some (ERR_OK, s)
     else dup_loop (dup_pte P e dst_pml4 pml4_idx pdpt_idx pd_idx (page_of en)) [0..<512] s)"

definition dup_pdpte :: "('e, 's) frame_ops \<Rightarrow> 'e \<Rightarrow> u64 \<Rightarrow> nat \<Rightarrow> u64 \<Rightarrow> nat \<Rightarrow> 's vm \<Rightarrow> (err_t \<times> 's vm) option" where
  "dup_pdpte P e dst_pml4 pml4_idx src_pdpt pdpt_idx s = (let en = entry s src_pdpt (of_nat pdpt_idx) in
     if \<not> present en \<or> huge en then Some (ERR_OK, s)
     else dup_loop (dup_pde P e dst_pml4 pml4_idx pdpt_idx (page_of en)) [0..<512] s)"

definition dup_pml4e :: "('e, 's) frame_ops \<Rightarrow> 'e \<Rightarrow> u64 \<Rightarrow> u64 \<Rightarrow> nat \<Rightarrow> 's vm \<Rightarrow> (err_t \<times> 's vm) option" where
  "dup_pml4e P e dst_pml4 src_pml4 pml4_idx s = (let en = entry s src_pml4 (of_nat pml4_idx) in
     if \<not> present en then Some (ERR_OK, s)
     else if page_of en = src_pml4 then Some (ERR_OK, s)
     else if pml4_idx = 255 then Some (ERR_OK, s)
     else dup_loop (dup_pdpte P e dst_pml4 pml4_idx (page_of en)) [0..<512] s)"

definition vmm_duplicate_user_pages :: "('e, 's) frame_ops \<Rightarrow> 'e \<Rightarrow> u64 \<Rightarrow> u64 \<Rightarrow> 's vm \<Rightarrow> (err_t \<times> 's vm) option" where
  "vmm_duplicate_user_pages P e dst_pml4 src_pml4 s = dup_loop (dup_pml4e P e dst_pml4 src_pml4) [0..<256] s"

section \<open>Freeing the user half\<close>

definition on_pmm :: "('e, 's) frame_ops \<Rightarrow> ('s \<Rightarrow> 's option) \<Rightarrow> 's vm \<Rightarrow> 's vm option" where
  "on_pmm P f s = map_option (\<lambda>q. set_pmm P q s) (f (vm_pmm s))"

fun free_loop_body :: "(nat \<Rightarrow> 's vm \<Rightarrow> 's vm option) \<Rightarrow> nat list \<Rightarrow> 's vm \<Rightarrow> 's vm option" where
  "free_loop_body body [] s = Some s"
| "free_loop_body body (i # is) s = Option.bind (body i s) (free_loop_body body is)"

definition free_pte :: "('e, 's) frame_ops \<Rightarrow> 'e \<Rightarrow> u64 \<Rightarrow> nat \<Rightarrow> 's vm \<Rightarrow> 's vm option" where
  "free_pte P e pt pt_idx s = (let en = entry s pt (of_nat pt_idx) in
     if \<not> present en then Some s else on_pmm P (fo_free_page P e (page_of en)) s)"

definition free_pde :: "('e, 's) frame_ops \<Rightarrow> 'e \<Rightarrow> u64 \<Rightarrow> nat \<Rightarrow> 's vm \<Rightarrow> 's vm option" where
  "free_pde P e pd pd_idx s = (let en = entry s pd (of_nat pd_idx) in
     if \<not> present en then Some s
     else if huge en then on_pmm P (po_free (fo_pages P) e (en AND NOT 0x1FFFFF) 512) s
     else Option.bind (free_loop_body (free_pte P e (page_of en)) [0..<512] s) (on_pmm P (fo_free_page P e (page_of en))))"

definition free_pdpte :: "('e, 's) frame_ops \<Rightarrow> 'e \<Rightarrow> u64 \<Rightarrow> nat \<Rightarrow> 's vm \<Rightarrow> 's vm option" where
  "free_pdpte P e pdpt pdpt_idx s = (let en = entry s pdpt (of_nat pdpt_idx) in
     if \<not> present en then Some s
     else if huge en then on_pmm P (po_free (fo_pages P) e (en AND NOT 0x3FFFFFFF) 262144) s
     else Option.bind (free_loop_body (free_pde P e (page_of en)) [0..<512] s) (on_pmm P (fo_free_page P e (page_of en))))"

definition free_pml4e :: "('e, 's) frame_ops \<Rightarrow> 'e \<Rightarrow> u64 \<Rightarrow> nat \<Rightarrow> 's vm \<Rightarrow> 's vm option" where
  "free_pml4e P e pml4_phys pml4_idx s = (let en = entry s pml4_phys (of_nat pml4_idx) in
     if \<not> present en then Some s
     else if page_of en = pml4_phys \<or> page_of en = 0 then Some (put (slot pml4_phys (of_nat pml4_idx)) 0 s)
     else map_option (put (slot pml4_phys (of_nat pml4_idx)) 0)
       (Option.bind (free_loop_body (free_pdpte P e (page_of en)) [0..<512] s) (on_pmm P (fo_free_page P e (page_of en)))))"

definition vmm_free_user_pages :: "('e, 's) frame_ops \<Rightarrow> 'e \<Rightarrow> u64 \<Rightarrow> 's vm \<Rightarrow> 's vm option" where
  "vmm_free_user_pages P e pml4_phys s = free_loop_body (free_pml4e P e pml4_phys) [0..<256] s"

section \<open>Validation and the kernel's own mapping\<close>

definition valid_pd :: "'s vm \<Rightarrow> u64 \<Rightarrow> u64 \<Rightarrow> u64 \<Rightarrow> bool" where
  "valid_pd s pml4_phys pdpt_phys pd_phys = (\<forall>k < 512. let en = entry s pd_phys (of_nat k) in
     present en \<longrightarrow> page_of en \<noteq> pml4_phys \<and> page_of en \<noteq> pdpt_phys \<and> page_of en \<noteq> pd_phys)"

definition valid_pdpt :: "'s vm \<Rightarrow> u64 \<Rightarrow> u64 \<Rightarrow> bool" where
  "valid_pdpt s pml4_phys pdpt_phys = (\<forall>j < 512. let en = entry s pdpt_phys (of_nat j) in
     present en \<longrightarrow> page_of en \<noteq> pml4_phys \<and> page_of en \<noteq> pdpt_phys \<and> valid_pd s pml4_phys pdpt_phys (page_of en))"

definition vmm_validate_pagetables :: "'s vm \<Rightarrow> u64 \<Rightarrow> err_t" where
  "vmm_validate_pagetables s pml4_phys = (if \<forall>i < 256. let en = entry s pml4_phys (of_nat i) in
     present en \<longrightarrow> page_of en \<noteq> pml4_phys \<and> valid_pdpt s pml4_phys (page_of en) then ERR_OK else ERR_INVAL)"

definition vmm_init :: "u64 \<Rightarrow> 's vm \<Rightarrow> err_t \<times> 's vm" where
  "vmm_init cr3 s = (ERR_OK, s\<lparr>kernel_pml4 := cr3\<rparr>)"

definition protect_range :: "u64 \<Rightarrow> u64 \<Rightarrow> u64 list" where
  "protect_range lo hi = (if lo < hi then map (\<lambda>k. lo + 4096 * of_nat k) [0..<unat (hi - lo) div 4096] else [])"

definition protect_page :: "u64 \<Rightarrow> 's vm \<Rightarrow> 's vm" where
  "protect_page addr s = (case vmm_walk_pagetable s (kernel_pml4 s) addr of
     None \<Rightarrow> s
   | Some pte \<Rightarrow> if present (vm_mem s pte) then (put pte (vm_mem s pte AND NOT PAGE_WRITE) s)\<lparr>vm_flushed := addr # vm_flushed s\<rparr> else s)"

text \<open>The linker symbols \<^verbatim>\<open>_text_start\<close> and \<^verbatim>\<open>_rodata_end\<close> are arguments.\<close>

definition vmm_protect_kernel_text :: "u64 \<Rightarrow> u64 \<Rightarrow> 's vm \<Rightarrow> 's vm" where
  "vmm_protect_kernel_text text_start rodata_end s =
     fold protect_page (protect_range (text_start AND NOT 0xFFF) ((rodata_end + 0xFFF) AND NOT 0xFFF)) s"

definition fill_pt :: "u64 \<Rightarrow> u64 \<Rightarrow> 's vm \<Rightarrow> 's vm" where
  "fill_pt pt_phys base s =
     fold (\<lambda>j. put (slot pt_phys (of_nat j)) ((base + of_nat j * 4096) OR PAGE_PRESENT OR PAGE_WRITE)) [0..<512] s"

definition split_pde :: "('e, 's) frame_ops \<Rightarrow> 'e \<Rightarrow> u64 \<Rightarrow> nat \<Rightarrow> 's vm \<Rightarrow> 's vm option" where
  "split_pde P e pd i s = (let en = entry s pd (of_nat i) in
     if \<not> present en \<or> \<not> huge en then Some s
     else case po_alloc_node (fo_pages P) e 1 (vm_pmm s) of
       None \<Rightarrow> None
     | Some (pt_phys, q) \<Rightarrow> (let s = set_pmm P q s in
         if pt_phys = 0 then Some s
         else Some (put (slot pd (of_nat i)) (pt_phys OR PAGE_PRESENT OR PAGE_WRITE) (fill_pt pt_phys (en AND NOT 0x1FFFFF) s))))"

definition vmm_split_identity_map :: "('e, 's) frame_ops \<Rightarrow> 'e \<Rightarrow> u64 \<Rightarrow> u64 \<Rightarrow> 's vm \<Rightarrow> 's vm option" where
  "vmm_split_identity_map P e text_start rodata_end s = (let en = entry s (kernel_pml4 s) 511 in
     if \<not> present en then Some s
     else let en = entry s (page_of en) 511 in
       if \<not> present en \<or> huge en then Some s
       else map_option (vmm_protect_kernel_text text_start rodata_end)
         (free_loop_body (split_pde P e (page_of en)) [0..<512] s))"

end
