(* ===== verification/Vma.thy ===== *)
theory Vma
  imports Vmm
begin

text \<open>
  The memory areas of processes, \<^verbatim>\<open>vma.c\<close>. The singly linked list of a process is a HOL list, head first; the lists of
  all processes, the reference counts of file nodes, the files and the page tables are the record \<open>mm\<close>. Whether the
  \<open>n\<close>-th allocation of a list node succeeds, and the file systems' operations on nodes, are the record
  \<open>vma_ops\<close>. The pages of a range are visited in order; ranges that reach the end of the 64-bit address space, where the
  loop of the source wraps, are outside user space.
\<close>

record vma =
  va_start :: u64
  va_end :: u64
  va_prot :: u32
  va_flags :: u32
  va_node :: "nat option"
  va_offset :: u64

record ('e, 's, 'f) vma_ops =
  vo_frames :: "('e, 's) frame_ops"
  vo_kmalloc :: "nat \<Rightarrow> bool"
  vo_read :: "nat \<Rightarrow> u64 \<Rightarrow> 'f \<Rightarrow> (u64 \<Rightarrow> u64) \<Rightarrow> u64 \<Rightarrow> u64"
  vo_write :: "nat \<Rightarrow> (u64 \<Rightarrow> u64) \<Rightarrow> u64 \<Rightarrow> 'f \<Rightarrow> 'f"
  vo_get_page :: "nat \<Rightarrow> (u64 \<Rightarrow> 'f \<Rightarrow> u64 \<times> 'f) option"

record ('s, 'f) mm =
  mm_vm :: "'s vm"
  cr3 :: "nat \<Rightarrow> u64"
  vmas :: "nat \<Rightarrow> vma list"
  files :: 'f
  refcount :: "nat \<Rightarrow> u32"
  kmallocs :: nat

definition PAGE_DIRTY :: u64 where "PAGE_DIRTY = push_bit 6 1"

definition shared :: "vma \<Rightarrow> bool" where "shared v \<longleftrightarrow> va_flags v AND 1 \<noteq> 0"
definition writable :: "vma \<Rightarrow> bool" where "writable v \<longleftrightarrow> va_prot v AND 2 \<noteq> 0"
definition covers :: "vma \<Rightarrow> u64 \<Rightarrow> bool" where "covers v a \<longleftrightarrow> va_start v \<le> a \<and> a < va_end v"

definition get_ref :: "nat option \<Rightarrow> ('s, 'f) mm \<Rightarrow> ('s, 'f) mm" where
  "get_ref n s = (case n of None \<Rightarrow> s | Some n \<Rightarrow> s\<lparr>refcount := (refcount s)(n := refcount s n + 1)\<rparr>)"

definition put_ref :: "nat option \<Rightarrow> ('s, 'f) mm \<Rightarrow> ('s, 'f) mm" where
  "put_ref n s = (case n of None \<Rightarrow> s | Some n \<Rightarrow> s\<lparr>refcount := (refcount s)(n := refcount s n - 1)\<rparr>)"

definition new_node :: "('e, 's, 'f) vma_ops \<Rightarrow> ('s, 'f) mm \<Rightarrow> bool \<times> ('s, 'f) mm" where
  "new_node V s = (vo_kmalloc V (kmallocs s), s\<lparr>kmallocs := kmallocs s + 1\<rparr>)"

definition set_vmas :: "nat \<Rightarrow> vma list \<Rightarrow> ('s, 'f) mm \<Rightarrow> ('s, 'f) mm" where
  "set_vmas pid vs s = s\<lparr>vmas := (vmas s)(pid := vs)\<rparr>"

section \<open>Adding and finding\<close>

definition vma_add :: "('e, 's, 'f) vma_ops \<Rightarrow> nat \<Rightarrow> u64 \<Rightarrow> u64 \<Rightarrow> u32 \<Rightarrow> u32 \<Rightarrow> nat option \<Rightarrow> u64 \<Rightarrow> ('s, 'f) mm \<Rightarrow>
    vma option \<times> ('s, 'f) mm" where
  "vma_add V pid start fin prot flags node file_offset s = (case new_node V s of
     (False, s) \<Rightarrow> (None, s)
   | (True, s) \<Rightarrow> (let v = \<lparr>va_start = start, va_end = fin, va_prot = prot, va_flags = flags, va_node = node, va_offset = file_offset\<rparr>;
       s = get_ref node s in (Some v, set_vmas pid (v # vmas s pid) s)))"

definition vma_find :: "('s, 'f) mm \<Rightarrow> nat \<Rightarrow> u64 \<Rightarrow> vma option" where
  "vma_find s pid addr = find (\<lambda>v. covers v addr) (vmas s pid)"

section \<open>Unmapping a range\<close>

definition page_range :: "u64 \<Rightarrow> u64 \<Rightarrow> u64 list" where
  "page_range lo hi = (if lo < hi then map (\<lambda>k. lo + 4096 * of_nat k) [0..<(unat (hi - lo) + 4095) div 4096] else [])"

definition set_vm :: "'s vm \<Rightarrow> ('s, 'f) mm \<Rightarrow> ('s, 'f) mm" where
  "set_vm u s = s\<lparr>mm_vm := u\<rparr>"

definition unmap_one :: "('e, 's, 'f) vma_ops \<Rightarrow> 'e \<Rightarrow> u64 \<Rightarrow> u64 \<Rightarrow> ('s, 'f) mm \<Rightarrow> ('s, 'f) mm option" where
  "unmap_one V e root p s = (let u = mm_vm s in case vmm_walk_pagetable u root p of
     None \<Rightarrow> Some s
   | Some pte \<Rightarrow> if \<not> present (vm_mem u pte) then Some s
       else map_option (\<lambda>q. set_vm (snd (vmm_unmap_page root p (set_pmm (vo_frames V) q u))) s)
         (fo_free_page (vo_frames V) e (page_of (vm_mem u pte)) (vm_pmm u)))"

fun vma_unmap_pages :: "('e, 's, 'f) vma_ops \<Rightarrow> 'e \<Rightarrow> u64 \<Rightarrow> u64 list \<Rightarrow> ('s, 'f) mm \<Rightarrow> ('s, 'f) mm option" where
  "vma_unmap_pages V e root [] s = Some s"
| "vma_unmap_pages V e root (p # ps) s = Option.bind (unmap_one V e root p s) (vma_unmap_pages V e root ps)"

definition vma_unmap_range :: "('e, 's, 'f) vma_ops \<Rightarrow> 'e \<Rightarrow> nat \<Rightarrow> u64 \<Rightarrow> u64 \<Rightarrow> ('s, 'f) mm \<Rightarrow> ('s, 'f) mm option" where
  "vma_unmap_range V e pid lo hi s = vma_unmap_pages V e (cr3 s pid) (page_range lo hi) s"

definition page_words :: "u64 \<Rightarrow> 's vm \<Rightarrow> u64 \<Rightarrow> u64" where
  "page_words phys u k = (if k < 512 then vm_mem u (slot phys k) else 0)"

definition unmap_one_shared :: "('e, 's, 'f) vma_ops \<Rightarrow> 'e \<Rightarrow> u64 \<Rightarrow> u64 \<Rightarrow> nat option \<Rightarrow> u64 \<Rightarrow> u64 \<Rightarrow> ('s, 'f) mm \<Rightarrow> ('s, 'f) mm option" where
  "unmap_one_shared V e root lo node base_off p s = (let u = mm_vm s in case vmm_walk_pagetable u root p of
     None \<Rightarrow> Some s
   | Some pte \<Rightarrow> (let en = vm_mem u pte in if \<not> present en then Some s
       else let phys = page_of en; dirty = (en AND PAGE_DIRTY \<noteq> 0); file_off = base_off + (p - lo);
           s = set_vm (snd (vmm_unmap_page root p u)) s in
         case node of
           None \<Rightarrow> map_option (\<lambda>q. set_vm (set_pmm (vo_frames V) q (mm_vm s)) s) (fo_free_page (vo_frames V) e phys (vm_pmm (mm_vm s)))
         | Some n \<Rightarrow> if vo_get_page V n \<noteq> None then Some s
             else let s = (if dirty then s\<lparr>files := vo_write V n (page_words phys (mm_vm s)) file_off (files s)\<rparr> else s) in
               map_option (\<lambda>q. set_vm (set_pmm (vo_frames V) q (mm_vm s)) s) (fo_free_page (vo_frames V) e phys (vm_pmm (mm_vm s)))))"

fun vma_unmap_pages_shared :: "('e, 's, 'f) vma_ops \<Rightarrow> 'e \<Rightarrow> u64 \<Rightarrow> u64 \<Rightarrow> nat option \<Rightarrow> u64 \<Rightarrow> u64 list \<Rightarrow> ('s, 'f) mm \<Rightarrow> ('s, 'f) mm option" where
  "vma_unmap_pages_shared V e root lo node base_off [] s = Some s"
| "vma_unmap_pages_shared V e root lo node base_off (p # ps) s =
     Option.bind (unmap_one_shared V e root lo node base_off p s) (vma_unmap_pages_shared V e root lo node base_off ps)"

definition vma_unmap_range_shared :: "('e, 's, 'f) vma_ops \<Rightarrow> 'e \<Rightarrow> nat \<Rightarrow> u64 \<Rightarrow> u64 \<Rightarrow> nat option \<Rightarrow> u64 \<Rightarrow> ('s, 'f) mm \<Rightarrow> ('s, 'f) mm option" where
  "vma_unmap_range_shared V e pid lo hi node base_off s =
     vma_unmap_pages_shared V e (cr3 s pid) lo node base_off (page_range lo hi) s"

section \<open>Removing a range\<close>

text \<open>What is left of an area: the entry with its new bounds, and a new entry for the tail of a split.\<close>

definition inter_start :: "u64 \<Rightarrow> vma \<Rightarrow> u64" where "inter_start addr v = (if addr > va_start v then addr else va_start v)"
definition inter_end :: "u64 \<Rightarrow> vma \<Rightarrow> u64" where "inter_end fin v = (if fin < va_end v then fin else va_end v)"

definition split_tail :: "vma \<Rightarrow> u64 \<Rightarrow> vma" where
  "split_tail v hi = v\<lparr>va_start := hi, va_offset := va_offset v + (hi - va_start v)\<rparr>"

definition cut_split :: "('e, 's, 'f) vma_ops \<Rightarrow> vma \<Rightarrow> u64 \<Rightarrow> u64 \<Rightarrow> ('s, 'f) mm \<Rightarrow> vma list \<times> ('s, 'f) mm" where
  "cut_split V v lo hi s = (case new_node V s of
     (True, s) \<Rightarrow> ([v\<lparr>va_end := lo\<rparr>, split_tail v hi], get_ref (va_node v) s)
   | (False, s) \<Rightarrow> ([v\<lparr>va_end := lo\<rparr>], s))"

definition unmap_inter :: "('e, 's, 'f) vma_ops \<Rightarrow> 'e \<Rightarrow> nat \<Rightarrow> vma \<Rightarrow> u64 \<Rightarrow> u64 \<Rightarrow> ('s, 'f) mm \<Rightarrow> ('s, 'f) mm option" where
  "unmap_inter V e pid v lo hi s = (if shared v
     then vma_unmap_range_shared V e pid lo hi (va_node v) (va_offset v + (lo - va_start v)) s
     else vma_unmap_range V e pid lo hi s)"

definition cut_vma :: "('e, 's, 'f) vma_ops \<Rightarrow> vma \<Rightarrow> u64 \<Rightarrow> u64 \<Rightarrow> ('s, 'f) mm \<Rightarrow> vma list \<times> ('s, 'f) mm" where
  "cut_vma V v lo hi s =
     (if lo = va_start v \<and> hi = va_end v then ([], put_ref (va_node v) s)
      else if lo = va_start v then ([v\<lparr>va_start := hi\<rparr>], s)
      else if hi = va_end v then ([v\<lparr>va_end := lo\<rparr>], s)
      else cut_split V v lo hi s)"

fun remove_loop :: "('e, 's, 'f) vma_ops \<Rightarrow> 'e \<Rightarrow> nat \<Rightarrow> u64 \<Rightarrow> u64 \<Rightarrow> vma list \<Rightarrow> ('s, 'f) mm \<Rightarrow> (vma list \<times> ('s, 'f) mm) option" where
  "remove_loop V e pid addr fin [] s = Some ([], s)"
| "remove_loop V e pid addr fin (v # vs) s = (let lo = inter_start addr v; hi = inter_end fin v in
     if lo < hi then case unmap_inter V e pid v lo hi s of
         None \<Rightarrow> None
       | Some s \<Rightarrow> (case cut_vma V v lo hi s of (ws, s) \<Rightarrow> map_option (apfst ((@) ws)) (remove_loop V e pid addr fin vs s))
     else map_option (apfst ((#) v)) (remove_loop V e pid addr fin vs s))"

definition page_len :: "u64 \<Rightarrow> u64" where "page_len len = (len + 4096 - 1) AND NOT (4096 - 1)"

definition vma_remove :: "('e, 's, 'f) vma_ops \<Rightarrow> 'e \<Rightarrow> nat \<Rightarrow> u64 \<Rightarrow> u64 \<Rightarrow> ('s, 'f) mm \<Rightarrow> (err_t \<times> ('s, 'f) mm) option" where
  "vma_remove V e pid addr len s =
     (if addr AND 0xFFF \<noteq> 0 then Some (ERR_INVAL, s)
      else map_option (\<lambda>(vs, s). (ERR_OK, set_vmas pid vs s)) (remove_loop V e pid addr (addr + page_len len) (vmas s pid) s))"

section \<open>Replacing a range\<close>

fun replace_loop :: "('e, 's, 'f) vma_ops \<Rightarrow> u64 \<Rightarrow> u64 \<Rightarrow> vma list \<Rightarrow> vma list \<Rightarrow> ('s, 'f) mm \<Rightarrow> vma list \<times> vma list \<times> ('s, 'f) mm" where
  "replace_loop V addr fin [] removed s = ([], removed, s)"
| "replace_loop V addr fin (v # vs) removed s = (let lo = inter_start addr v; hi = inter_end fin v in
     if lo < hi then
       (if lo = va_start v \<and> hi = va_end v then replace_loop V addr fin vs (v # removed) s
        else case (if lo = va_start v then ([v\<lparr>va_start := hi\<rparr>], s) else if hi = va_end v then ([v\<lparr>va_end := lo\<rparr>], s) else cut_split V v lo hi s) of
          (ws, s) \<Rightarrow> apfst ((@) ws) (replace_loop V addr fin vs removed s))
     else apfst ((#) v) (replace_loop V addr fin vs removed s))"

fun release_loop :: "('e, 's, 'f) vma_ops \<Rightarrow> 'e \<Rightarrow> nat \<Rightarrow> vma list \<Rightarrow> ('s, 'f) mm \<Rightarrow> ('s, 'f) mm option" where
  "release_loop V e pid [] s = Some s"
| "release_loop V e pid (r # rs) s = Option.bind
     (if shared r then vma_unmap_range_shared V e pid (va_start r) (va_end r) (va_node r) (va_offset r) s
      else vma_unmap_range V e pid (va_start r) (va_end r) s)
     (\<lambda>s. release_loop V e pid rs (put_ref (va_node r) s))"

definition vma_replace :: "('e, 's, 'f) vma_ops \<Rightarrow> 'e \<Rightarrow> nat \<Rightarrow> u64 \<Rightarrow> u64 \<Rightarrow> u32 \<Rightarrow> u32 \<Rightarrow> nat option \<Rightarrow> u64 \<Rightarrow> ('s, 'f) mm \<Rightarrow>
    (vma option \<times> ('s, 'f) mm) option" where
  "vma_replace V e pid addr len prot flags node file_offset s = (let fin = addr + page_len len in
     case replace_loop V addr fin (vmas s pid) [] s of (vs, removed, s) \<Rightarrow>
       (case new_node V s of
          (False, s) \<Rightarrow> Some (None, set_vmas pid (rev removed @ vs) s)
        | (True, s) \<Rightarrow>
            (let v = \<lparr>va_start = addr, va_end = fin, va_prot = prot, va_flags = flags, va_node = node, va_offset = file_offset\<rparr> in
             map_option (Pair (Some v)) (release_loop V e pid removed (set_vmas pid (v # vs) (get_ref node s))))))"

section \<open>Copying and dropping lists\<close>

definition vma_cleanup :: "nat \<Rightarrow> ('s, 'f) mm \<Rightarrow> ('s, 'f) mm" where
  "vma_cleanup pid s = set_vmas pid [] (fold (\<lambda>v. put_ref (va_node v)) (vmas s pid) s)"

fun duplicate_loop :: "('e, 's, 'f) vma_ops \<Rightarrow> vma list \<Rightarrow> vma list \<Rightarrow> ('s, 'f) mm \<Rightarrow> vma list option \<times> ('s, 'f) mm" where
  "duplicate_loop V [] out s = (Some out, s)"
| "duplicate_loop V (v # vs) out s = (case new_node V s of
     (False, s) \<Rightarrow> (None, s)
   | (True, s) \<Rightarrow> duplicate_loop V vs (v # out) (get_ref (va_node v) s))"

text \<open>\<open>cur\<close> is the process of the running thread, if any.\<close>

definition vma_duplicate :: "('e, 's, 'f) vma_ops \<Rightarrow> nat option \<Rightarrow> nat \<Rightarrow> ('s, 'f) mm \<Rightarrow> err_t \<times> ('s, 'f) mm" where
  "vma_duplicate V cur dst s = (case cur of
     None \<Rightarrow> (ERR_INVAL, s)
   | Some src \<Rightarrow> (case duplicate_loop V (vmas s src) [] s of
       (None, s) \<Rightarrow> (ERR_NOMEM, vma_cleanup dst s)
     | (Some out, s) \<Rightarrow> (ERR_OK, set_vmas dst out s)))"

section \<open>Page faults\<close>

text \<open>
  The handler drops its lock for the allocation and the file access: \<open>others\<close> is what the other threads do
  meanwhile. Before it, the area is found and the reference is taken; after it, area and page are checked again.
\<close>

definition fault_mapped :: "u64 \<Rightarrow> u64 \<Rightarrow> vma \<Rightarrow> u64 \<Rightarrow> ('s, 'f) mm \<Rightarrow> bool \<times> ('s, 'f) mm" where
  "fault_mapped root page_start v pte s =
     (if \<not> shared v \<and> writable v
      then (True, set_vm (vmm_flush_tlb_page page_start (put pte ((page_of (vm_mem (mm_vm s) pte)) OR PAGE_USER OR PAGE_PRESENT OR PAGE_WRITE) (mm_vm s))) s)
      else (False, s))"

definition mapped_at :: "'s vm \<Rightarrow> u64 \<Rightarrow> u64 \<Rightarrow> u64 option" where
  "mapped_at u root p = (case vmm_walk_pagetable u root p of
     None \<Rightarrow> None | Some pte \<Rightarrow> if present (vm_mem u pte) then Some pte else None)"

definition fill_page :: "u64 \<Rightarrow> (u64 \<Rightarrow> u64) \<Rightarrow> 's vm \<Rightarrow> 's vm" where
  "fill_page phys c u = u\<lparr>vm_mem := (\<lambda>a. if a - phys < 4096 then c ((a - phys) div 8) else vm_mem u a)\<rparr>"

text \<open>The page: that of a shared-memory object, or a new one, cleared and read from the file.\<close>

definition fault_page :: "('e, 's, 'f) vma_ops \<Rightarrow> 'e \<Rightarrow> vma \<Rightarrow> u64 \<Rightarrow> ('s, 'f) mm \<Rightarrow> (u64 \<times> ('s, 'f) mm) option" where
  "fault_page V e v file_off s =
     (let (phys, s) = (case va_node v of
        None \<Rightarrow> (0, s)
      | Some n \<Rightarrow> (case vo_get_page V n of
          None \<Rightarrow> (0, s)
        | Some g \<Rightarrow> if shared v then (case g file_off (files s) of (p, f) \<Rightarrow> (p, s\<lparr>files := f\<rparr>)) else (0, s))) in
      if phys \<noteq> 0 then Some (phys, put_ref (va_node v) s)
      else case fo_alloc_page (vo_frames V) e (vm_pmm (mm_vm s)) of
        None \<Rightarrow> None
      | Some (phys, q) \<Rightarrow> (let s = set_vm (set_pmm (vo_frames V) q (mm_vm s)) s in
          if phys = 0 then Some (0, put_ref (va_node v) s)
          else let u = clear_page phys (mm_vm s);
              u = (case va_node v of None \<Rightarrow> u | Some n \<Rightarrow> fill_page phys (vo_read V n file_off (files s) (page_words phys u)) u) in
            Some (phys, put_ref (va_node v) (set_vm u s))))"

definition fault_flags :: "vma \<Rightarrow> u64" where
  "fault_flags v = (if writable v then PAGE_USER OR PAGE_WRITE else PAGE_USER)"

definition fault_map :: "('e, 's, 'f) vma_ops \<Rightarrow> 'e \<Rightarrow> nat \<Rightarrow> u64 \<Rightarrow> vma \<Rightarrow> u64 \<Rightarrow> ('s, 'f) mm \<Rightarrow> (bool \<times> ('s, 'f) mm) option" where
  "fault_map V e pid fault_addr v phys s = (let root = cr3 s pid; page_start = fault_addr AND NOT 0xFFF;
       free = (\<lambda>b. map_option (\<lambda>q. (b, set_vm (set_pmm (vo_frames V) q (mm_vm s)) s)) (fo_free_page (vo_frames V) e phys (vm_pmm (mm_vm s)))) in
     if vma_find s pid fault_addr = None then free False
     else if mapped_at (mm_vm s) root page_start \<noteq> None then free True
     else map_option (\<lambda>r. (True, set_vm (snd r) s)) (vmm_map_page (vo_frames V) e root page_start phys (fault_flags v) (mm_vm s)))"

definition vma_handle_fault :: "('e, 's, 'f) vma_ops \<Rightarrow> 'e \<Rightarrow> (('s, 'f) mm \<Rightarrow> ('s, 'f) mm) \<Rightarrow> nat \<Rightarrow> u64 \<Rightarrow> ('s, 'f) mm \<Rightarrow>
    (bool \<times> ('s, 'f) mm) option" where
  "vma_handle_fault V e others pid fault_addr s = (let root = cr3 s pid; page_start = fault_addr AND NOT 0xFFF in
     case vma_find s pid fault_addr of
       None \<Rightarrow> Some (False, s)
     | Some v \<Rightarrow> (case mapped_at (mm_vm s) root page_start of
         Some pte \<Rightarrow> Some (fault_mapped root page_start v pte s)
       | None \<Rightarrow> (case fault_page V e v (va_offset v + (page_start - va_start v)) (get_ref (va_node v) s) of
           None \<Rightarrow> None
         | Some (phys, s) \<Rightarrow> if phys = 0 then Some (False, s) else fault_map V e pid fault_addr v phys (others s))))"

end
