(* ===== verification/Pmm.thy ===== *)
theory Pmm
  imports Kernel_Prelude "HOL-Library.Monad_Syntax"
begin

text \<open>
  The physical page allocator of \<^verbatim>\<open>kernel/pmm.c\<close>: per-node free lists, a bitmap of used pages, the
  owner of every page and a small cache of pages per CPU. A page is named by its physical
  address. The links of a free list are stored in the free pages themselves; the model keeps the
  list here, and \<open>page_mem\<close> has the zeroing of pages only; \<open>pmm_links\<close> of \<open>Vmm_Props\<close> adds the links where the contents of memory matter. \<open>cpu_cache c\<close> is the used prefix of the array \<open>cpu_cache[c]\<close>, whose length is
  \<open>cpu_cache_count[c]\<close>. \<open>page_mem\<close> is the physical memory, as 64-bit words by address.

  A consistency check of the source that fails stops the machine (\<open>for (;;) asm("cli; hlt")\<close>):
  the operation then has no result, \<open>None\<close>. Each operation runs to completion under its locks, so
  a compare-and-swap fails only when its expected value is not the one in memory.
\<close>

definition PAGE_SIZE :: nat where "PAGE_SIZE = 4096"
definition MAX_CPUS :: nat where "MAX_CPUS = 64"
definition MAX_NUMA_NODES :: nat where "MAX_NUMA_NODES = 8"
definition PMM_PERCPU_CACHE_SIZE :: nat where "PMM_PERCPU_CACHE_SIZE = 32"

definition PAGE_OWNER_UNSET :: u64 where "PAGE_OWNER_UNSET = 0"
definition PAGE_OWNER_CACHE :: u64 where "PAGE_OWNER_CACHE = -1"
definition PAGE_OWNER_RESERVED :: u64 where "PAGE_OWNER_RESERVED = -2"

record pmm =
  node_free_lists :: "nat \<Rightarrow> u64 list"
  node_free_counts :: "nat \<Rightarrow> u64"
  total_page_count :: u64
  list_free_count :: u64
  total_memory :: u64
  used_bitmap :: "u64 \<Rightarrow> u8"
  page_owner :: "u64 \<Rightarrow> u64"
  cpu_cache :: "nat \<Rightarrow> u64 list"
  oom_scheduled :: bool
  page_mem :: "u64 \<Rightarrow> u64"

record numa_region =
  nr_enabled :: bool
  nr_base :: u64
  nr_length :: u64
  nr_node :: nat

text \<open>
  What the operations read of the rest of the kernel: the running thread and CPU, the NUMA
  tables of \<^verbatim>\<open>acpi.c\<close>, the node of a CPU (\<open>None\<close> when \<open>per_cpu_data[cpu]\<close> is NULL), which per-CPU
  cache locks are free for \<open>spinlock_try_acquire\<close>, and the empty slab pages that
  \<open>kmalloc_compact\<close> would return.
\<close>

record pmm_env =
  current_thread :: u64
  smp_cpu_id :: nat
  smp_nr_cpus :: nat
  numa_available :: bool
  numa_node_count :: nat
  numa_memory_regions :: "numa_region list"
  numa_distance :: "nat \<Rightarrow> nat \<Rightarrow> u8"
  cpu_node_id :: "nat \<Rightarrow> int option"
  cache_lock_free :: "nat \<Rightarrow> bool"
  compact_pages :: "u64 list"

definition page_index :: "u64 \<Rightarrow> u64" where
  "page_index phys = phys div 4096"

definition page_aligned :: "u64 \<Rightarrow> bool" where
  "page_aligned phys \<longleftrightarrow> phys AND 0xFFF = 0"

section \<open>Bitmap and owners\<close>

definition bitmap_set :: "u64 \<Rightarrow> pmm \<Rightarrow> pmm" where
  "bitmap_set i s = s\<lparr>used_bitmap := (used_bitmap s)
     (i div 8 := used_bitmap s (i div 8) OR push_bit (unat (i mod 8)) 1)\<rparr>"

definition bitmap_clear :: "u64 \<Rightarrow> pmm \<Rightarrow> pmm" where
  "bitmap_clear i s = s\<lparr>used_bitmap := (used_bitmap s)
     (i div 8 := used_bitmap s (i div 8) AND NOT (push_bit (unat (i mod 8)) 1))\<rparr>"

definition bitmap_test :: "u64 \<Rightarrow> pmm \<Rightarrow> bool" where
  "bitmap_test i s \<longleftrightarrow> drop_bit (unat (i mod 8)) (used_bitmap s (i div 8)) AND 1 \<noteq> 0"

definition owner_set :: "u64 \<Rightarrow> u64 \<Rightarrow> pmm \<Rightarrow> pmm option" where
  "owner_set idx owner s =
     (if idx \<ge> total_page_count s then Some s
      else let old = page_owner s idx in
        if old \<noteq> PAGE_OWNER_UNSET \<and> old \<noteq> PAGE_OWNER_CACHE \<and>
           owner \<noteq> PAGE_OWNER_UNSET \<and> owner \<noteq> PAGE_OWNER_CACHE \<and> old \<noteq> owner
        then None
        else Some (s\<lparr>page_owner := (page_owner s)(idx := owner)\<rparr>))"

section \<open>Per-CPU caches\<close>

definition set_cache :: "nat \<Rightarrow> u64 list \<Rightarrow> pmm \<Rightarrow> pmm" where
  "set_cache c xs s = s\<lparr>cpu_cache := (cpu_cache s)(c := xs)\<rparr>"

definition cache_try_pop :: "pmm_env \<Rightarrow> pmm \<Rightarrow> (u64 \<times> pmm) option" where
  "cache_try_pop env s =
     (let cpu = smp_cpu_id env; xs = cpu_cache s cpu in
      if xs = [] then Some (0, s)
      else let phys = last xs; s1 = set_cache cpu (butlast xs) s; idx = page_index phys in
        if idx < total_page_count s1 \<and> \<not> bitmap_test idx s1 then None
        else if idx < total_page_count s1 then
          (if page_owner s1 idx \<noteq> PAGE_OWNER_CACHE then Some (0, s1)
           else Some (phys, s1\<lparr>page_owner := (page_owner s1)(idx := current_thread env)\<rparr>))
        else Some (phys, s1))"

definition cache_try_push :: "pmm_env \<Rightarrow> u64 \<Rightarrow> pmm \<Rightarrow> (bool \<times> pmm) option" where
  "cache_try_push env phys s =
     (let cpu = smp_cpu_id env; xs = cpu_cache s cpu; idx = page_index phys in
      if phys \<in> set xs then Some (True, s)
      else if length xs \<ge> PMM_PERCPU_CACHE_SIZE then Some (False, s)
      else if idx < total_page_count s then
        (if page_owner s idx = PAGE_OWNER_CACHE then None
         else Some (True, set_cache cpu (xs @ [phys])
                (s\<lparr>page_owner := (page_owner s)(idx := PAGE_OWNER_CACHE)\<rparr>)))
      else Some (True, set_cache cpu (xs @ [phys]) s))"

definition in_region :: "u64 \<Rightarrow> numa_region \<Rightarrow> bool" where
  "in_region pa r \<longleftrightarrow> nr_enabled r \<and> pa \<ge> nr_base r \<and> pa < nr_base r + nr_length r"

definition page_node :: "pmm_env \<Rightarrow> u64 \<Rightarrow> nat" where
  "page_node env phys =
     (if \<not> numa_available env then 0
      else case find (in_region (phys AND NOT 0xFFF)) (numa_memory_regions env) of
             Some r \<Rightarrow> nr_node r | None \<Rightarrow> 0)"

text \<open>Pushing a page on, and popping it off, the free list of a node, with the two counters.\<close>

definition list_push :: "nat \<Rightarrow> u64 \<Rightarrow> pmm \<Rightarrow> pmm" where
  "list_push nd phys s = s\<lparr>node_free_counts := (node_free_counts s)(nd := node_free_counts s nd + 1),
     list_free_count := list_free_count s + 1,
     node_free_lists := (node_free_lists s)(nd := phys # node_free_lists s nd)\<rparr>"

definition list_pop :: "nat \<Rightarrow> pmm \<Rightarrow> pmm" where
  "list_pop nd s = s\<lparr>node_free_lists := (node_free_lists s)(nd := tl (node_free_lists s nd)),
     node_free_counts := (node_free_counts s)(nd := node_free_counts s nd - 1),
     list_free_count := list_free_count s - 1\<rparr>"

text \<open>The loop body that returns a cached page to the free list of its node.\<close>

definition flush_page :: "pmm_env \<Rightarrow> u64 \<Rightarrow> pmm \<Rightarrow> pmm option" where
  "flush_page env phys s = (let idx = page_index phys in
     if idx < total_page_count s then
       do { s1 \<leftarrow> owner_set idx PAGE_OWNER_UNSET (bitmap_clear idx s);
            Some (list_push (page_node env phys) phys s1) }
     else Some s)"

fun flush_pages :: "pmm_env \<Rightarrow> u64 list \<Rightarrow> pmm \<Rightarrow> pmm option" where
  "flush_pages env [] s = Some s"
| "flush_pages env (p # ps) s = do { s1 \<leftarrow> flush_page env p s; flush_pages env ps s1 }"

definition cache_flush_half :: "pmm_env \<Rightarrow> pmm \<Rightarrow> pmm option" where
  "cache_flush_half env s =
     (let cpu = smp_cpu_id env; xs = cpu_cache s cpu; keep = length xs div 2 in
      do { s1 \<leftarrow> flush_pages env (drop keep xs) s; Some (set_cache cpu (take keep xs) s1) })"

text \<open>The whole cache of a CPU, in \<open>pmm_flush_cpu_cache\<close> and in \<open>pmm_alloc_pages\<close>.\<close>

definition flush_cache :: "pmm_env \<Rightarrow> nat \<Rightarrow> pmm \<Rightarrow> pmm option" where
  "flush_cache env c s = do { s1 \<leftarrow> flush_pages env (cpu_cache s c) s; Some (set_cache c [] s1) }"

definition pmm_flush_cpu_cache :: "pmm_env \<Rightarrow> int \<Rightarrow> pmm \<Rightarrow> pmm option" where
  "pmm_flush_cpu_cache env cpu s =
     (if cpu < 0 \<or> cpu \<ge> int MAX_CPUS then Some s else flush_cache env (nat cpu) s)"

text \<open>\<open>acpi_node_distance\<close> for nodes in range.\<close>

definition acpi_node_distance :: "pmm_env \<Rightarrow> int \<Rightarrow> int \<Rightarrow> int" where
  "acpi_node_distance env from to =
     (if \<not> numa_available env then 10
      else if from < 0 \<or> from \<ge> int MAX_NUMA_NODES \<or> to < 0 \<or> to \<ge> int MAX_NUMA_NODES then 0
      else let d = numa_distance env (nat from) (nat to) in
        if d \<noteq> 0 then int (unat d) else if from = to then 10 else 20)"

text \<open>
  The nearest node other than \<open>from\<close> that has pages: the scan of \<open>pick_refill_node\<close>,
  \<open>pmm_alloc_page\<close> and \<open>pmm_alloc_node_pages\<close>.
\<close>

fun nearest_scan :: "pmm_env \<Rightarrow> pmm \<Rightarrow> int \<Rightarrow> nat list \<Rightarrow> nat option \<Rightarrow> int \<Rightarrow> nat option" where
  "nearest_scan env s from [] best best_dist = best"
| "nearest_scan env s from (n # ns) best best_dist =
     (if int n = from \<or> node_free_lists s n = [] then nearest_scan env s from ns best best_dist
      else let d = acpi_node_distance env from (int n) in
        if best = None \<or> d < best_dist then nearest_scan env s from ns (Some n) d
        else nearest_scan env s from ns best best_dist)"

definition pick_refill_node :: "pmm_env \<Rightarrow> pmm \<Rightarrow> nat option" where
  "pick_refill_node env s =
     (let any = find (\<lambda>n. node_free_lists s n \<noteq> []) [0..<MAX_NUMA_NODES] in
      if \<not> numa_available env then any
      else let my_node = (case cpu_node_id env (smp_cpu_id env) of Some n \<Rightarrow> (if n < 0 then 0 else n) | None \<Rightarrow> 0) in
        if node_free_lists s (nat my_node) \<noteq> [] then Some (nat my_node)
        else (case nearest_scan env s my_node [0..<numa_node_count env] None 999 of
                Some n \<Rightarrow> Some n | None \<Rightarrow> any))"

fun refill_loop :: "nat \<Rightarrow> pmm_env \<Rightarrow> nat \<Rightarrow> pmm \<Rightarrow> pmm option" where
  "refill_loop 0 env nd s = Some s"
| "refill_loop (Suc m) env nd s =
     (let cpu = smp_cpu_id env in
      case node_free_lists s nd of
        [] \<Rightarrow> Some s
      | phys # _ \<Rightarrow>
          if length (cpu_cache s cpu) \<ge> PMM_PERCPU_CACHE_SIZE then Some s
          else if \<not> page_aligned phys \<or> page_index phys \<ge> total_page_count s then Some s
          else do { s1 \<leftarrow> owner_set (page_index phys) PAGE_OWNER_CACHE (bitmap_set (page_index phys) (list_pop nd s));
                    refill_loop m env nd (set_cache cpu (cpu_cache s cpu @ [phys]) s1) })"

definition cache_refill :: "pmm_env \<Rightarrow> pmm \<Rightarrow> pmm option" where
  "cache_refill env s = (case pick_refill_node env s of
     None \<Rightarrow> Some s
   | Some nd \<Rightarrow> refill_loop PMM_PERCPU_CACHE_SIZE env nd s)"

definition cache_steal :: "pmm_env \<Rightarrow> nat \<Rightarrow> pmm \<Rightarrow> nat \<times> pmm" where
  "cache_steal env victim s =
     (let me = smp_cpu_id env in
      if victim = me then (0, s)
      else if \<not> cache_lock_free env victim then (0, s)
      else let xs = cpu_cache s victim; n = length xs; steal = n div 2 in
        if steal \<le> 0 then (0, s)
        else let ys = cpu_cache s me; room = min (PMM_PERCPU_CACHE_SIZE - length ys) steal in
          if \<not> cache_lock_free env me then (0, s)
          else let moved = drop (n - room) xs in
            (room, (set_cache me (ys @ moved) (set_cache victim (take (n - room) xs) s))
               \<lparr>page_owner := (\<lambda>i. if i < total_page_count s \<and> i \<in> page_index ` set moved
                                   then PAGE_OWNER_CACHE else page_owner s i)\<rparr>))"

section \<open>Allocation\<close>

definition pmm_total_pages :: "pmm \<Rightarrow> u64" where
  "pmm_total_pages s = total_page_count s"

definition cached_count :: "pmm_env \<Rightarrow> pmm \<Rightarrow> u64" where
  "cached_count env s = (\<Sum>c \<leftarrow> [0..<smp_nr_cpus env]. of_nat (length (cpu_cache s c)))"

definition pmm_free_pages_count :: "pmm_env \<Rightarrow> pmm \<Rightarrow> u64" where
  "pmm_free_pages_count env s = list_free_count s + cached_count env s"

definition pmm_used_pages :: "pmm_env \<Rightarrow> pmm \<Rightarrow> u64" where
  "pmm_used_pages env s = (let free_sum = list_free_count s + cached_count env s in
     if free_sum > total_page_count s then 0 else total_page_count s - free_sum)"

definition page_zero :: "u64 \<Rightarrow> pmm \<Rightarrow> pmm" where
  "page_zero phys s = s\<lparr>page_mem := (\<lambda>a. if a \<in> (\<lambda>i. phys + 8 * of_nat i) ` {..<512} then 0 else page_mem s a)\<rparr>"

definition pop_from_node :: "pmm_env \<Rightarrow> int \<Rightarrow> pmm \<Rightarrow> (u64 \<times> pmm) option" where
  "pop_from_node env node s =
     (if node < 0 \<or> node \<ge> int MAX_NUMA_NODES then Some (0, s)
      else let nd = nat node in
        case node_free_lists s nd of
          [] \<Rightarrow> Some (0, s)
        | phys # _ \<Rightarrow>
            if \<not> page_aligned phys \<or> page_index phys \<ge> total_page_count s then None
            else if bitmap_test (page_index phys) s then None
            else do { s1 \<leftarrow> owner_set (page_index phys) (current_thread env)
                              (bitmap_set (page_index phys) (list_pop nd s));
                      Some (phys, s1) })"

text \<open>Pass 3 of \<open>pmm_alloc_page\<close>: the nodes in order, until one gives a page.\<close>

fun pop_any :: "pmm_env \<Rightarrow> nat list \<Rightarrow> pmm \<Rightarrow> (u64 \<times> pmm) option" where
  "pop_any env [] s = Some (0, s)"
| "pop_any env (n # ns) s =
     do { (phys, s1) \<leftarrow> pop_from_node env (int n) s;
          if phys \<noteq> 0 then Some (phys, s1) else pop_any env ns s1 }"

text \<open>Pass 4: stealing from the caches of the other CPUs.\<close>

fun steal_any :: "pmm_env \<Rightarrow> nat list \<Rightarrow> pmm \<Rightarrow> (u64 \<times> pmm) option" where
  "steal_any env [] s = Some (0, s)"
| "steal_any env (c # cs) s =
     (if c = smp_cpu_id env then steal_any env cs s
      else case cache_steal env c s of
        (n, s1) \<Rightarrow>
          if n = 0 then steal_any env cs s1
          else do { (phys, s2) \<leftarrow> cache_try_pop env s1;
                    if phys \<noteq> 0 then Some (phys, s2) else steal_any env cs s2 })"

definition pmm_current_node :: "pmm_env \<Rightarrow> int" where
  "pmm_current_node env =
     (if \<not> numa_available env then 0
      else if smp_cpu_id env < MAX_CPUS then (case cpu_node_id env (smp_cpu_id env) of Some n \<Rightarrow> n | None \<Rightarrow> 0)
      else 0)"

section \<open>Freeing\<close>

definition free_slow :: "pmm_env \<Rightarrow> u64 \<Rightarrow> pmm \<Rightarrow> pmm option" where
  "free_slow env phys s =
     (let idx = page_index phys in
      if idx \<ge> total_page_count s then Some s
      else if \<not> bitmap_test idx s then Some s
      else do {
        s1 \<leftarrow> cache_flush_half env s;
        let cpu = smp_cpu_id env;
        if page_owner s1 idx = PAGE_OWNER_CACHE then None
        else do {
          let s2 = s1\<lparr>page_owner := (page_owner s1)(idx := PAGE_OWNER_CACHE)\<rparr>;
          if length (cpu_cache s2 cpu) \<ge> PMM_PERCPU_CACHE_SIZE then
            do { s3 \<leftarrow> owner_set idx PAGE_OWNER_UNSET (bitmap_clear idx s2);
                 Some (list_push (page_node env phys) phys s3) }
          else Some (set_cache cpu (cpu_cache s2 cpu @ [phys]) s2) } })"

definition pmm_free_page :: "pmm_env \<Rightarrow> u64 \<Rightarrow> pmm \<Rightarrow> pmm option" where
  "pmm_free_page env phys s =
     (if phys = 0 \<or> \<not> page_aligned phys then Some s
      else do { (ok, s1) \<leftarrow> cache_try_push env phys s;
                if ok then Some s1 else free_slow env phys s1 })"

text \<open>\<open>phys_addr + i * PAGE_SIZE\<close>: the product is computed in 32 bits.\<close>

fun free_pages_loop :: "pmm_env \<Rightarrow> u64 \<Rightarrow> nat list \<Rightarrow> pmm \<Rightarrow> pmm option" where
  "free_pages_loop env phys [] s = Some s"
| "free_pages_loop env phys (i # is) s =
     do { s1 \<leftarrow> pmm_free_page env (phys + ucast ((of_nat i :: u32) * 4096)) s;
          free_pages_loop env phys is s1 }"

definition pmm_free_pages :: "pmm_env \<Rightarrow> u64 \<Rightarrow> u32 \<Rightarrow> pmm \<Rightarrow> pmm option" where
  "pmm_free_pages env phys count s = free_pages_loop env phys [0..<unat count] s"

definition pmm_page_owner :: "u64 \<Rightarrow> pmm \<Rightarrow> u64" where
  "pmm_page_owner phys s =
     (if page_index phys \<ge> total_page_count s then 0 else page_owner s (page_index phys))"

section \<open>Single pages\<close>

text \<open>
  The heap is compacted, which frees its empty slab pages, and the kill is queued, once.
\<close>

fun free_each :: "pmm_env \<Rightarrow> u64 list \<Rightarrow> pmm \<Rightarrow> pmm option" where
  "free_each env [] s = Some s"
| "free_each env (p # ps) s = do { s1 \<leftarrow> pmm_free_pages env p 1 s; free_each env ps s1 }"

definition pmm_oom_kill :: "pmm_env \<Rightarrow> pmm \<Rightarrow> pmm option" where
  "pmm_oom_kill env s =
     (if oom_scheduled s then Some s
      else do { s1 \<leftarrow> free_each env (compact_pages env) s; Some (s1\<lparr>oom_scheduled := True\<rparr>) })"

text \<open>Passes 1 to 3 of the slow path.\<close>

definition alloc_from_lists :: "pmm_env \<Rightarrow> pmm \<Rightarrow> (u64 \<times> pmm) option" where
  "alloc_from_lists env s =
     (let my_node = pmm_current_node env in
      do {
        (p1, s1) \<leftarrow> pop_from_node env my_node s;
        if p1 \<noteq> 0 then Some (p1, s1)
        else do {
          (p2, s2) \<leftarrow> (case nearest_scan env s1 my_node
                         [0..<(if numa_available env then numa_node_count env else 1)] None 999 of
                         Some n \<Rightarrow> pop_from_node env (int n) s1 | None \<Rightarrow> Some (0, s1));
          if p2 \<noteq> 0 then Some (p2, s2) else pop_any env [0..<MAX_NUMA_NODES] s2 } })"

definition pmm_alloc_page :: "pmm_env \<Rightarrow> pmm \<Rightarrow> (u64 \<times> pmm) option" where
  "pmm_alloc_page env s =
     do {
       (p0, s0) \<leftarrow> cache_try_pop env s;
       if p0 \<noteq> 0 then Some (p0, page_zero p0 s0)
       else do {
         (p1, s1) \<leftarrow> alloc_from_lists env s0;
         if p1 \<noteq> 0 then do { s2 \<leftarrow> cache_refill env s1; Some (p1, page_zero p1 s2) }
         else do {
           (p2, s2) \<leftarrow> steal_any env ([0..<smp_nr_cpus env] @ [0..<smp_nr_cpus env]) s1;
           if p2 \<noteq> 0 then Some (p2, page_zero p2 s2)
           else do { s3 \<leftarrow> pmm_oom_kill env s2; Some (0, s3) } } } }"

section \<open>Runs of pages\<close>

definition remove_from_node_lists :: "u64 \<Rightarrow> u32 \<Rightarrow> pmm \<Rightarrow> pmm" where
  "remove_from_node_lists first count s =
     (let hit = (\<lambda>p. page_index p \<ge> first \<and> page_index p < first + ucast count);
          gone = (\<lambda>n. of_nat (length (filter hit (node_free_lists s n))))
      in s\<lparr>node_free_lists := (\<lambda>n. if n < MAX_NUMA_NODES then filter (\<lambda>p. \<not> hit p) (node_free_lists s n)
                                   else node_free_lists s n),
           node_free_counts := (\<lambda>n. if n < MAX_NUMA_NODES then node_free_counts s n - gone n
                                    else node_free_counts s n),
           list_free_count := list_free_count s - (\<Sum>n \<leftarrow> [0..<MAX_NUMA_NODES]. gone n)\<rparr>)"

text \<open>The scan of the bitmap for \<open>count\<close> free pages in a row: the start and the length found.\<close>

fun bitmap_scan :: "pmm \<Rightarrow> u32 \<Rightarrow> nat list \<Rightarrow> u64 \<Rightarrow> u32 \<Rightarrow> u64 \<times> u32" where
  "bitmap_scan s count [] first found = (first, found)"
| "bitmap_scan s count (i # is) first found =
     (if \<not> found < count then (first, found)
      else if \<not> bitmap_test (of_nat i) s
      then bitmap_scan s count is (if found = 0 then of_nat i else first) (found + 1)
      else bitmap_scan s count is first 0)"

fun claim_pages :: "pmm_env \<Rightarrow> u64 \<Rightarrow> nat list \<Rightarrow> pmm \<Rightarrow> pmm option" where
  "claim_pages env first [] s = Some s"
| "claim_pages env first (j # js) s =
     do { s1 \<leftarrow> owner_set (first + of_nat j) (current_thread env) (bitmap_set (first + of_nat j) s);
          claim_pages env first js s1 }"

definition zero_pages :: "u64 \<Rightarrow> u32 \<Rightarrow> pmm \<Rightarrow> pmm" where
  "zero_pages first count s = fold (\<lambda>j. page_zero ((first + of_nat j) * 4096)) [0..<unat count] s"

fun flush_caches :: "pmm_env \<Rightarrow> nat list \<Rightarrow> pmm \<Rightarrow> pmm option" where
  "flush_caches env [] s = Some s"
| "flush_caches env (c # cs) s = do { s1 \<leftarrow> flush_cache env c s; flush_caches env cs s1 }"

definition pmm_alloc_pages :: "pmm_env \<Rightarrow> u32 \<Rightarrow> pmm \<Rightarrow> (u64 \<times> pmm) option" where
  "pmm_alloc_pages env count s =
     (if count = 0 then Some (0, s)
      else do {
        s1 \<leftarrow> flush_caches env [0..<smp_nr_cpus env] s;
        let (first, found) = bitmap_scan s1 count [0..<unat (total_page_count s1)] 0 0;
        if found < count then Some (0, s1)
        else do {
          s2 \<leftarrow> claim_pages env first [0..<unat count] s1;
          Some (first * 4096, zero_pages first count (remove_from_node_lists first count s2)) } })"

text \<open>
  Taking pages off one node's list, in \<open>pmm_alloc_node_pages\<close>. The state of the search is
  \<open>first\<close> (an address), \<open>found\<close> and the allocator. The list gets shorter with every iteration.
\<close>

function (sequential) take_from_node :: "pmm_env \<Rightarrow> u32 \<Rightarrow> nat \<Rightarrow> u64 \<Rightarrow> u32 \<Rightarrow> pmm \<Rightarrow> (u64 \<times> u32 \<times> pmm) option" where
  "take_from_node env count nd first found s =
     (if \<not> found < count then Some (first, found, s)
      else case node_free_lists s nd of
        [] \<Rightarrow> Some (first, found, s)
      | pa # _ \<Rightarrow>
          let idx = page_index pa in
          if idx \<ge> total_page_count s \<or> bitmap_test idx s then take_from_node env count nd first found (list_pop nd s)
          else (case owner_set idx (current_thread env) (bitmap_set idx (list_pop nd s)) of
                  None \<Rightarrow> None
                | Some s1 \<Rightarrow> take_from_node env count nd (if found = 0 then pa else first) (found + 1) s1))"
  by pat_completeness auto
termination
proof (relation "measure (\<lambda>(env, count, nd, first, found, s). length (node_free_lists s nd))", goal_cases)
  case 1
  then show ?case by simp
next
  case (2 env count nd first found s pa xs idx)
  then show ?case by (simp add: list_pop_def)
next
  case (3 env count nd first found s pa xs idx s1)
  then have "node_free_lists s1 nd = xs"
    by (auto simp: owner_set_def Let_def bitmap_set_def list_pop_def split: if_splits)
  with 3 show ?case by simp
qed

fun take_from_nodes :: "pmm_env \<Rightarrow> u32 \<Rightarrow> nat \<Rightarrow> nat list \<Rightarrow> u64 \<Rightarrow> u32 \<Rightarrow> pmm \<Rightarrow> (u64 \<times> u32 \<times> pmm) option" where
  "take_from_nodes env count skip [] first found s = Some (first, found, s)"
| "take_from_nodes env count skip (n # ns) first found s =
     (if n = skip \<or> \<not> found < count then take_from_nodes env count skip ns first found s
      else do { (first', found', s1) \<leftarrow> take_from_node env count n first found s;
                take_from_nodes env count skip ns first' found' s1 })"

definition pmm_alloc_node_pages :: "pmm_env \<Rightarrow> u32 \<Rightarrow> int \<Rightarrow> pmm \<Rightarrow> (u64 \<times> pmm) option" where
  "pmm_alloc_node_pages env count node s =
     (if count = 0 then Some (0, s)
      else if \<not> numa_available env \<or> node < 0 \<or> node \<ge> int MAX_NUMA_NODES then pmm_alloc_pages env count s
      else do {
        (first1, found1, s1) \<leftarrow> take_from_node env count (nat node) 0 0 s;
        let src = (if found1 < count \<and> numa_node_count env > 1
                   then (case nearest_scan env s1 node [0..<numa_node_count env] None 999 of
                           Some n \<Rightarrow> n | None \<Rightarrow> nat node)
                   else nat node);
        (first2, found2, s2) \<leftarrow> (if found1 < count \<and> numa_node_count env > 1
                                 then take_from_node env count src first1 found1 s1
                                 else Some (first1, found1, s1));
        (first3, found3, s3) \<leftarrow> (if found2 < count
                                 then take_from_nodes env count src [0..<MAX_NUMA_NODES] first2 found2 s2
                                 else Some (first2, found2, s2));
        (first4, found4, s4) \<leftarrow>
          (if found3 < count then
             (case bitmap_scan s3 count [0..<unat (total_page_count s3)] 0 0 of
                (first, found) \<Rightarrow>
                  if found \<ge> count then
                    do { t \<leftarrow> claim_pages env first [0..<unat count] s3;
                         Some (first, found, remove_from_node_lists first count t) }
                  else Some (first, found, s3))
           else Some (first3, found3, s3));
        if found4 < count then Some (0, s4)
        else Some (first4 * 4096, zero_pages first4 count s4) })"

section \<open>Initialisation\<close>

fun mark_loop :: "nat list \<Rightarrow> pmm \<Rightarrow> pmm option" where
  "mark_loop [] s = Some s"
| "mark_loop (i # is) s =
     (let idx = of_nat i;
          s1 = (if bitmap_test idx s then s
                else (bitmap_set idx s)\<lparr>list_free_count := list_free_count s - 1\<rparr>)
      in do { s2 \<leftarrow> owner_set idx PAGE_OWNER_RESERVED s1; mark_loop is s2 })"

definition pmm_mark_region_used :: "u64 \<Rightarrow> u64 \<Rightarrow> pmm \<Rightarrow> pmm option" where
  "pmm_mark_region_used start end s =
     mark_loop [unat (start div 4096)..<min (unat ((end + 4095) div 4096)) (unat (total_page_count s))] s"

text \<open>The pages of a region, from its first page boundary to its last.\<close>

fun add_loop :: "u64 list \<Rightarrow> pmm \<Rightarrow> pmm" where
  "add_loop [] s = s"
| "add_loop (phys # ps) s =
     add_loop ps (if page_index phys < total_page_count s \<and> \<not> bitmap_test (page_index phys) s
                  then list_push 0 phys s else s)"

definition region_pages :: "u64 \<Rightarrow> u64 \<Rightarrow> u64 list" where
  "region_pages start end =
     (let s = (start + 4095) AND NOT 4095; e = end AND NOT 4095
      in map (\<lambda>i. s + 4096 * of_nat i) [0..<(unat e - unat s) div 4096])"

definition add_region_to_free_list :: "u64 \<Rightarrow> u64 \<Rightarrow> pmm \<Rightarrow> pmm" where
  "add_region_to_free_list start end s =
     (if start \<ge> end then s else add_loop (region_pages start end) s)"

record hal_mmap_entry =
  mm_start :: u64
  mm_end :: u64
  mm_type :: u32

definition parse_mb_mmap :: "hal_mmap_entry list \<Rightarrow> pmm \<Rightarrow> pmm" where
  "parse_mb_mmap entries s =
     (if entries = [] then add_region_to_free_list (1 * 1024 * 1024) (total_memory s) s
      else fold (\<lambda>e s. if mm_type e = 1 then add_region_to_free_list (mm_start e) (mm_end e) s else s) entries s)"

text \<open>
  The bitmap is filled with ones and cleared below \<open>total_page_count\<close>; then the reserved regions
  are marked and the available ones listed. \<open>kernel_end\<close> is the address \<open>_kernel_end_phys\<close>.
\<close>

definition boot_bitmap :: "u64 \<Rightarrow> pmm \<Rightarrow> pmm" where
  "boot_bitmap pages s = fold (\<lambda>i. bitmap_clear (of_nat i)) [0..<unat pages] (s\<lparr>used_bitmap := \<lambda>_. -1\<rparr>)"

definition pmm_init :: "u64 \<Rightarrow> u64 \<Rightarrow> hal_mmap_entry list \<Rightarrow> pmm \<Rightarrow> pmm option" where
  "pmm_init mem_size kernel_end entries s =
     (let pages = mem_size div 4096;
          bitmap_pages = ((pages + 7) div 8 + 4095) div 4096;
          owner_base = (kernel_end + 4095) AND NOT 4095;
          owner_pages = (pages * 8 + 4095) div 4096;
          s1 = boot_bitmap pages (s\<lparr>total_memory := mem_size, total_page_count := pages,
                 cpu_cache := \<lambda>_. [], page_owner := \<lambda>_. 0\<rparr>)
      in do {
        s2 \<leftarrow> pmm_mark_region_used 0 0x1000 (s1\<lparr>list_free_count := pages\<rparr>);
        s3 \<leftarrow> pmm_mark_region_used 0x4000 0x7000 s2;
        s4 \<leftarrow> pmm_mark_region_used 0x7000 0xB000 s3;
        s5 \<leftarrow> pmm_mark_region_used 0xA0000 0x100000 s4;
        s6 \<leftarrow> pmm_mark_region_used 0x10000 (0x10000 + bitmap_pages * 4096) s5;
        s7 \<leftarrow> pmm_mark_region_used (mem_size - 0x1000) mem_size s6;
        s8 \<leftarrow> pmm_mark_region_used 0x100000 kernel_end s7;
        s9 \<leftarrow> pmm_mark_region_used owner_base (owner_base + owner_pages * 4096) s8;
        Some (parse_mb_mmap entries s9) })"

text \<open>Listing every free page again, on the node of its region.\<close>

fun redistribute :: "pmm_env \<Rightarrow> nat list \<Rightarrow> pmm \<Rightarrow> pmm" where
  "redistribute env [] s = s"
| "redistribute env (i # is) s =
     redistribute env is
       (if bitmap_test (of_nat i) s then s
        else let pa = of_nat i * 4096 in
          list_push (case find (in_region pa) (numa_memory_regions env) of Some r \<Rightarrow> nr_node r | None \<Rightarrow> 0) pa s)"

definition pmm_numa_init :: "pmm_env \<Rightarrow> pmm \<Rightarrow> pmm" where
  "pmm_numa_init env s =
     (if \<not> numa_available env then s
      else redistribute env [0..<unat (total_page_count s)]
        (s\<lparr>node_free_lists := \<lambda>n. if n < MAX_NUMA_NODES then [] else node_free_lists s n,
           node_free_counts := \<lambda>n. if n < MAX_NUMA_NODES then 0 else node_free_counts s n,
           list_free_count := 0\<rparr>))"

end
