(* ===== verification/Pmm_Props.thy ===== *)
theory Pmm_Props
  imports Pmm
begin

text \<open>
  The correctness of the page allocator. Every page has a status (\<open>pst\<close>): on a free list, in a
  CPU's cache, marked used in the bitmap, and its owner. \<open>pmm_wf\<close> says that the lists and caches
  agree with the bitmap and the owners and never hold a page twice; \<open>only s s' P\<close> says that
  nothing but the status of the pages in \<open>P\<close> has changed.
\<close>

section \<open>Bits and pages\<close>

lemma drop_bit_and_1: "drop_bit n (x :: 'a :: len word) AND 1 \<noteq> 0 \<longleftrightarrow> bit x n"
  by (simp add: and_one_eq bit_iff_odd_drop_bit odd_iff_mod_2_eq_one)

lemma bitmap_test_bit: "bitmap_test i s \<longleftrightarrow> bit (used_bitmap s (i div 8)) (unat (i mod 8))"
  by (simp add: bitmap_test_def drop_bit_and_1)

lemma bit_address: "(i :: u64) = j \<longleftrightarrow> i div 8 = j div 8 \<and> unat (i mod 8) = unat (j mod 8)"
  by (metis div_mult_mod_eq unsigned_word_eqI)

lemma bit_mask_u8: "bit (push_bit (unat (i mod 8 :: u64)) (1 :: u8)) n \<longleftrightarrow> n = unat (i mod 8)"
proof -
  have "unat (i mod 8) < 8" by (simp add: unat_mod)
  then show ?thesis by (auto simp: bit_push_bit_iff bit_1_iff simp del: push_bit_of_1 dest: bit_imp_le_length)
qed

lemma bitmap_test_set [simp]: "bitmap_test j (bitmap_set i s) \<longleftrightarrow> j = i \<or> bitmap_test j s"
  unfolding bitmap_test_bit bitmap_set_def bit_address [of j i]
  by (auto simp: bit_or_iff bit_mask_u8 simp del: push_bit_of_1)

lemma bitmap_test_clear [simp]: "bitmap_test j (bitmap_clear i s) \<longleftrightarrow> j \<noteq> i \<and> bitmap_test j s"
proof -
  have "unat (j mod 8) < 8" by (simp add: unat_mod)
  then show ?thesis
    unfolding bitmap_test_bit bitmap_clear_def bit_address [of j i]
    by (auto simp: bit_and_iff bit_not_iff bit_mask_u8 simp del: push_bit_of_1)
qed

lemma page_aligned_mod: "page_aligned p \<longleftrightarrow> p mod 4096 = 0"
proof -
  have "p AND 0xFFF = take_bit 12 p" by (simp add: take_bit_eq_mask mask_eq_exp_minus_1)
  also have "\<dots> = p mod 4096" by (simp add: take_bit_eq_mod)
  finally show ?thesis by (simp add: page_aligned_def)
qed

lemma page_index_inj: "page_aligned p \<Longrightarrow> page_aligned q \<Longrightarrow> page_index p = page_index q \<longleftrightarrow> p = q"
  unfolding page_aligned_mod page_index_def by (metis add_0_right div_mult_mod_eq)

section \<open>The invariant\<close>

definition page_ok :: "pmm \<Rightarrow> u64 \<Rightarrow> bool" where
  "page_ok s p \<longleftrightarrow> p \<noteq> 0 \<and> page_aligned p \<and> page_index p < total_page_count s"

definition listed :: "pmm \<Rightarrow> u64 set" where
  "listed s = (\<Union>n. set (node_free_lists s n))"

definition cached :: "pmm \<Rightarrow> u64 set" where
  "cached s = (\<Union>c. set (cpu_cache s c))"

text \<open>The pages the allocator can hand out, and the pages somebody holds.\<close>

definition free :: "pmm \<Rightarrow> u64 set" where
  "free s = listed s \<union> cached s"

definition held :: "pmm \<Rightarrow> u64 set" where
  "held s = {p. page_ok s p \<and> bitmap_test (page_index p) s \<and> p \<notin> cached s}"

text \<open>Held by a thread: the owner is not the mark of the caches.\<close>

definition owned :: "pmm \<Rightarrow> u64 set" where
  "owned s = {p \<in> held s. page_owner s (page_index p) \<noteq> PAGE_OWNER_CACHE}"

definition disjoint_lists :: "(nat \<Rightarrow> 'a list) \<Rightarrow> bool" where
  "disjoint_lists f \<longleftrightarrow> (\<forall>n. distinct (f n)) \<and> (\<forall>n m. n \<noteq> m \<longrightarrow> set (f n) \<inter> set (f m) = {})"

definition pmm_wf :: "pmm \<Rightarrow> bool" where
  "pmm_wf s \<longleftrightarrow> disjoint_lists (node_free_lists s) \<and> disjoint_lists (cpu_cache s) \<and>
     (\<forall>p \<in> listed s. page_ok s p \<and> \<not> bitmap_test (page_index p) s) \<and>
     (\<forall>i < total_page_count s. \<not> bitmap_test i s \<longrightarrow> page_owner s i = PAGE_OWNER_UNSET) \<and>
     (\<forall>p \<in> cached s. page_ok s p \<and> bitmap_test (page_index p) s \<and> page_owner s (page_index p) = PAGE_OWNER_CACHE) \<and>
     (\<forall>c. length (cpu_cache s c) \<le> PMM_PERCPU_CACHE_SIZE) \<and>
     (\<forall>n. node_free_counts s n = of_nat (length (node_free_lists s n))) \<and>
     (\<forall>n \<ge> MAX_NUMA_NODES. node_free_lists s n = [])"

text \<open>The status of a page, and an operation that changes it for the pages of \<open>P\<close> only.\<close>

definition pst :: "pmm \<Rightarrow> u64 \<Rightarrow> bool \<times> bool \<times> bool \<times> u64" where
  "pst s p = (p \<in> listed s, p \<in> cached s, bitmap_test (page_index p) s, page_owner s (page_index p))"

definition only :: "pmm \<Rightarrow> pmm \<Rightarrow> u64 set \<Rightarrow> bool" where
  "only s s' P \<longleftrightarrow> total_page_count s' = total_page_count s \<and>
     (\<forall>p. page_ok s p \<longrightarrow> p \<notin> P \<longrightarrow> pst s' p = pst s p)"

lemma only_refl: "only s s P"
  by (simp add: only_def)

lemma only_page_ok: "only s s' P \<Longrightarrow> page_ok s' p = page_ok s p"
  by (simp add: only_def page_ok_def)

lemma only_trans: "only s s' P \<Longrightarrow> only s' s'' Q \<Longrightarrow> P \<union> Q \<subseteq> R \<Longrightarrow> only s s'' R"
  unfolding only_def page_ok_def by (metis UnCI subsetD)

lemma only_at:
  assumes "only s s' P" and "page_ok s p" and "p \<notin> P"
  shows "p \<in> listed s' \<longleftrightarrow> p \<in> listed s" "p \<in> cached s' \<longleftrightarrow> p \<in> cached s"
    "bitmap_test (page_index p) s' \<longleftrightarrow> bitmap_test (page_index p) s"
    "page_owner s' (page_index p) = page_owner s (page_index p)"
  using assms by (auto simp: only_def pst_def)

lemma pmm_wfD:
  assumes "pmm_wf s"
  shows "disjoint_lists (node_free_lists s)" "disjoint_lists (cpu_cache s)"
    "p \<in> listed s \<Longrightarrow> page_ok s p" "p \<in> listed s \<Longrightarrow> \<not> bitmap_test (page_index p) s"
    "p \<in> listed s \<Longrightarrow> page_owner s (page_index p) = PAGE_OWNER_UNSET"
    "p \<in> cached s \<Longrightarrow> page_ok s p" "p \<in> cached s \<Longrightarrow> bitmap_test (page_index p) s"
    "p \<in> cached s \<Longrightarrow> page_owner s (page_index p) = PAGE_OWNER_CACHE"
    "length (cpu_cache s c) \<le> PMM_PERCPU_CACHE_SIZE"
    "node_free_counts s n = of_nat (length (node_free_lists s n))"
    "n \<ge> MAX_NUMA_NODES \<Longrightarrow> node_free_lists s n = []"
    "i < total_page_count s \<Longrightarrow> \<not> bitmap_test i s \<Longrightarrow> page_owner s i = PAGE_OWNER_UNSET"
  using assms by (auto simp: pmm_wf_def page_ok_def)

lemma in_listed: "p \<in> set (node_free_lists s n) \<Longrightarrow> p \<in> listed s"
  by (auto simp: listed_def)

lemma in_cached: "p \<in> set (cpu_cache s c) \<Longrightarrow> p \<in> cached s"
  by (auto simp: cached_def)

text \<open>The pages outside \<open>P\<close> stay free, held or owned.\<close>

lemma only_sets:
  assumes "only s s' P" and "pmm_wf s" and "pmm_wf s'"
  shows "free s' - P = free s - P" "held s' - P = held s - P" "owned s' - P = owned s - P"
proof -
  have ok: "page_ok s p" if "p \<in> listed s \<or> p \<in> cached s \<or> p \<in> listed s' \<or> p \<in> cached s'" for p
    using that pmm_wfD(3,6) [OF assms(2)] pmm_wfD(3,6) [OF assms(3)] only_page_ok [OF assms(1)] by blast
  note at = only_at [OF assms(1)]
  show "free s' - P = free s - P"
    using ok at(1,2) unfolding free_def by blast
  show "held s' - P = held s - P"
    using at(2,3) only_page_ok [OF assms(1)] unfolding held_def by blast
  show "owned s' - P = owned s - P"
    using at(2-4) only_page_ok [OF assms(1)] unfolding owned_def held_def by auto
qed

section \<open>Elementary moves\<close>

lemma disjoint_lists_sub:
  assumes "disjoint_lists f" and "distinct ys" and "set ys \<subseteq> set (f n)"
  shows "disjoint_lists (f(n := ys))"
  unfolding disjoint_lists_def
proof (intro conjI allI impI)
  fix m
  show "distinct ((f(n := ys)) m)" using assms(1,2) by (simp add: disjoint_lists_def)
next
  fix m m' :: nat
  assume "m \<noteq> m'"
  then have "set (f m) \<inter> set (f m') = {}" using assms(1) by (simp add: disjoint_lists_def)
  then show "set ((f(n := ys)) m) \<inter> set ((f(n := ys)) m') = {}" using assms(3) \<open>m \<noteq> m'\<close> by auto
qed

lemma disjoint_lists_add:
  assumes "disjoint_lists f" and "\<And>n. p \<notin> set (f n)" and "set ys = insert p (set (f n))" and "distinct ys"
  shows "disjoint_lists (f(n := ys))"
  unfolding disjoint_lists_def
proof (intro conjI allI impI)
  fix m
  show "distinct ((f(n := ys)) m)" using assms(1,4) by (simp add: disjoint_lists_def)
next
  fix m m' :: nat
  assume "m \<noteq> m'"
  then have "set (f m) \<inter> set (f m') = {}" using assms(1) by (simp add: disjoint_lists_def)
  then show "set ((f(n := ys)) m) \<inter> set ((f(n := ys)) m') = {}"
    using assms(2,3) \<open>m \<noteq> m'\<close> by auto
qed

lemma union_upd:
  fixes f :: "nat \<Rightarrow> 'a list"
  assumes "disjoint_lists f"
  shows "f n = p # xs \<Longrightarrow> (\<Union>m. set ((f(n := xs)) m)) = (\<Union>m. set (f m)) - {p}"
    "set ys = insert p (set (f n)) \<Longrightarrow> (\<Union>m. set ((f(n := ys)) m)) = insert p (\<Union>m. set (f m))"
    "f n = xs @ [p] \<Longrightarrow> (\<Union>m. set ((f(n := xs)) m)) = (\<Union>m. set (f m)) - {p}"
proof -
  have split: "(\<Union>m. set ((f(n := zs)) m)) = set zs \<union> (\<Union>m \<in> -{n}. set (f m))"
      "(\<Union>m. set (f m)) = set (f n) \<union> (\<Union>m \<in> -{n}. set (f m))" for zs
    by (auto split: if_splits)
  have other: "q \<notin> (\<Union>m \<in> -{n}. set (f m))" if "q \<in> set (f n)" for q
    using assms that unfolding disjoint_lists_def by blast
  have dist: "distinct (f n)" using assms by (simp add: disjoint_lists_def)
  show "f n = p # xs \<Longrightarrow> (\<Union>m. set ((f(n := xs)) m)) = (\<Union>m. set (f m)) - {p}"
    using split(1) [of xs] split(2) other [of p] dist by auto
  show "set ys = insert p (set (f n)) \<Longrightarrow> (\<Union>m. set ((f(n := ys)) m)) = insert p (\<Union>m. set (f m))"
    using split(1) [of ys] split(2) by auto
  show "f n = xs @ [p] \<Longrightarrow> (\<Union>m. set ((f(n := xs)) m)) = (\<Union>m. set (f m)) - {p}"
    using split(1) [of xs] split(2) other [of p] dist by auto
qed

lemma page_index_neq: "page_ok s p \<Longrightarrow> page_ok s q \<Longrightarrow> page_index p = page_index q \<longleftrightarrow> p = q"
  by (simp add: page_ok_def page_index_inj)

text \<open>A move of one page.\<close>

lemma single_move:
  assumes wf: "pmm_wf s" and p: "page_ok s p" and tot: "total_page_count s' = total_page_count s"
    and dl: "disjoint_lists (node_free_lists s')" "disjoint_lists (cpu_cache s')"
    and len: "\<And>c. length (cpu_cache s' c) \<le> PMM_PERCPU_CACHE_SIZE"
    and cnt: "\<And>n. node_free_counts s' n = of_nat (length (node_free_lists s' n))"
    and top: "\<And>n. n \<ge> MAX_NUMA_NODES \<Longrightarrow> node_free_lists s' n = []"
    and other: "\<And>i. i \<noteq> page_index p \<Longrightarrow> bitmap_test i s' = bitmap_test i s \<and> page_owner s' i = page_owner s i"
    and L: "listed s' - {p} = listed s - {p}" and C: "cached s' - {p} = cached s - {p}"
    and pl: "p \<in> listed s' \<Longrightarrow> \<not> bitmap_test (page_index p) s'"
    and pu: "\<not> bitmap_test (page_index p) s' \<Longrightarrow> page_owner s' (page_index p) = PAGE_OWNER_UNSET"
    and pc: "p \<in> cached s' \<Longrightarrow> bitmap_test (page_index p) s' \<and> page_owner s' (page_index p) = PAGE_OWNER_CACHE"
  shows "pmm_wf s'" "only s s' {p}"
proof -
  have ok: "page_ok s' q = page_ok s q" for q using tot by (simp add: page_ok_def)
  have "page_ok s' q \<and> \<not> bitmap_test (page_index q) s'" if "q \<in> listed s'" for q
  proof (cases "q = p")
    case False
    then have q: "q \<in> listed s" using that L by blast
    with pmm_wfD(3,4) [OF wf] ok other page_index_neq [OF pmm_wfD(3) [OF wf q] p] False show ?thesis by simp
  qed (use pl p ok that in simp)
  moreover have "page_ok s' q \<and> bitmap_test (page_index q) s' \<and> page_owner s' (page_index q) = PAGE_OWNER_CACHE"
    if "q \<in> cached s'" for q
  proof (cases "q = p")
    case False
    then have q: "q \<in> cached s" using that C by blast
    with pmm_wfD(6-8) [OF wf] ok other page_index_neq [OF pmm_wfD(6) [OF wf q] p] False show ?thesis by simp
  qed (use pc p ok that in simp)
  moreover have "page_owner s' i = PAGE_OWNER_UNSET" if "i < total_page_count s'" "\<not> bitmap_test i s'" for i
    using that pu other [of i] tot pmm_wfD(12) [OF wf, of i] by (cases "i = page_index p") simp_all
  ultimately show "pmm_wf s'" using dl len cnt top unfolding pmm_wf_def by blast
  have "pst s' q = pst s q" if "page_ok s q" "q \<noteq> p" for q
    using that L C other [of "page_index q"] page_index_neq [OF that(1) p] unfolding pst_def by auto
  then show "only s s' {p}" using tot by (simp add: only_def)
qed

lemma record_fields [simp]:
  "node_free_lists (bitmap_set i s) = node_free_lists s" "cpu_cache (bitmap_set i s) = cpu_cache s"
  "node_free_counts (bitmap_set i s) = node_free_counts s" "total_page_count (bitmap_set i s) = total_page_count s"
  "page_owner (bitmap_set i s) = page_owner s" "page_mem (bitmap_set i s) = page_mem s"
  "node_free_lists (bitmap_clear i s) = node_free_lists s" "cpu_cache (bitmap_clear i s) = cpu_cache s"
  "node_free_counts (bitmap_clear i s) = node_free_counts s" "total_page_count (bitmap_clear i s) = total_page_count s"
  "page_owner (bitmap_clear i s) = page_owner s" "page_mem (bitmap_clear i s) = page_mem s"
  "node_free_lists (set_cache c xs s) = node_free_lists s" "cpu_cache (set_cache c xs s) = (cpu_cache s)(c := xs)"
  "node_free_counts (set_cache c xs s) = node_free_counts s" "total_page_count (set_cache c xs s) = total_page_count s"
  "page_owner (set_cache c xs s) = page_owner s" "page_mem (set_cache c xs s) = page_mem s"
  "used_bitmap (set_cache c xs s) = used_bitmap s"
  "cpu_cache (list_push nd q s) = cpu_cache s" "total_page_count (list_push nd q s) = total_page_count s"
  "page_owner (list_push nd q s) = page_owner s" "page_mem (list_push nd q s) = page_mem s"
  "used_bitmap (list_push nd q s) = used_bitmap s"
  "cpu_cache (list_pop nd s) = cpu_cache s" "total_page_count (list_pop nd s) = total_page_count s"
  "page_owner (list_pop nd s) = page_owner s" "page_mem (list_pop nd s) = page_mem s"
  "used_bitmap (list_pop nd s) = used_bitmap s"
  by (simp_all add: bitmap_set_def bitmap_clear_def set_cache_def list_push_def list_pop_def)

lemma bitmap_test_fields [simp]:
  "bitmap_test i (set_cache c xs s) = bitmap_test i s" "bitmap_test i (list_push nd q s) = bitmap_test i s"
  "bitmap_test i (list_pop nd s) = bitmap_test i s" "bitmap_test i (s\<lparr>page_owner := f\<rparr>) = bitmap_test i s"
  "bitmap_test i (s\<lparr>page_mem := m\<rparr>) = bitmap_test i s" "bitmap_test i (s\<lparr>oom_scheduled := b\<rparr>) = bitmap_test i s"
  by (simp_all add: bitmap_test_def)

text \<open>Off a free list, to an owner.\<close>

definition take_page :: "nat \<Rightarrow> u64 \<Rightarrow> u64 \<Rightarrow> pmm \<Rightarrow> pmm" where
  "take_page nd p o' s = (bitmap_set (page_index p) (list_pop nd s))\<lparr>page_owner := (page_owner s)(page_index p := o')\<rparr>"

lemma take_page:
  assumes wf: "pmm_wf s" and l: "node_free_lists s nd = p # xs"
  shows "pmm_wf (take_page nd p o' s)" "only s (take_page nd p o' s) {p}"
    "owner_set (page_index p) o' (bitmap_set (page_index p) (list_pop nd s)) = Some (take_page nd p o' s)"
    "p \<notin> free (take_page nd p o' s)" "p \<in> held (take_page nd p o' s)" "page_ok s p" "p \<in> listed s"
    "node_free_lists (take_page nd p o' s) = (node_free_lists s)(nd := xs)"
    "listed (take_page nd p o' s) = listed s - {p}"
proof -
  let ?s = "take_page nd p o' s"
  show pl: "p \<in> listed s" using l in_listed [of p s nd] by simp
  note p = pmm_wfD(3-5) [OF wf pl]
  show "page_ok s p" by (rule p(1))
  show f: "node_free_lists ?s = (node_free_lists s)(nd := xs)" using l by (simp add: take_page_def list_pop_def)
  have f': "cpu_cache ?s = cpu_cache s" "total_page_count ?s = total_page_count s"
      "node_free_counts ?s = (node_free_counts s)(nd := node_free_counts s nd - 1)"
      "page_owner ?s = (page_owner s)(page_index p := o')"
    by (simp_all add: take_page_def list_pop_def)
  have b: "bitmap_test i ?s \<longleftrightarrow> i = page_index p \<or> bitmap_test i s" for i by (simp add: take_page_def)
  show L: "listed ?s = listed s - {p}"
    unfolding listed_def f using union_upd(1) [OF pmm_wfD(1) [OF wf] l] .
  have C: "cached ?s = cached s" by (simp add: cached_def f')
  have pc: "p \<notin> cached s" using p(2) pmm_wfD(7) [OF wf] by blast
  have dl: "disjoint_lists (node_free_lists ?s)"
    unfolding f using pmm_wfD(1) [OF wf] l
    by (intro disjoint_lists_sub) (auto simp: disjoint_lists_def, metis distinct.simps(2))
  have cnt: "node_free_counts ?s n = of_nat (length (node_free_lists ?s n))" for n
    using pmm_wfD(10) [OF wf, of n] pmm_wfD(10) [OF wf, of nd] l by (simp add: f f')
  have top: "node_free_lists ?s n = []" if "n \<ge> MAX_NUMA_NODES" for n
    using pmm_wfD(11) [OF wf that] l by (cases "n = nd") (simp_all add: f)
  show "pmm_wf ?s" "only s ?s {p}"
    by (rule single_move [OF wf p(1) f'(2) dl _ _ cnt top];
        use pmm_wfD(2,9) [OF wf] L C b pc f' in simp)+
  show "p \<notin> free ?s" using L C pc by (simp add: free_def)
  show "p \<in> held ?s" using p(1) C pc b f' by (simp add: held_def page_ok_def)
  show "owner_set (page_index p) o' (bitmap_set (page_index p) (list_pop nd s)) = Some ?s"
    using p by (auto simp: owner_set_def take_page_def page_ok_def Let_def)
qed

text \<open>A held page into the cache of a CPU.\<close>

definition put_cache :: "nat \<Rightarrow> u64 \<Rightarrow> pmm \<Rightarrow> pmm" where
  "put_cache c p s = set_cache c (cpu_cache s c @ [p]) (s\<lparr>page_owner := (page_owner s)(page_index p := PAGE_OWNER_CACHE)\<rparr>)"

lemma put_cache:
  assumes wf: "pmm_wf s" and p: "p \<in> held s" and room: "length (cpu_cache s c) < PMM_PERCPU_CACHE_SIZE"
  shows "pmm_wf (put_cache c p s)" "only s (put_cache c p s) {p}" "p \<in> free (put_cache c p s)"
    "p \<notin> held (put_cache c p s)" "node_free_lists (put_cache c p s) = node_free_lists s"
    "page_mem (put_cache c p s) = page_mem s"
proof -
  let ?s = "put_cache c p s"
  have ok: "page_ok s p" "bitmap_test (page_index p) s" "p \<notin> cached s" using p by (simp_all add: held_def)
  have pl: "p \<notin> listed s" using pmm_wfD(4) [OF wf] ok(2) by blast
  show f: "node_free_lists ?s = node_free_lists s" "page_mem ?s = page_mem s" by (simp_all add: put_cache_def)
  have f': "cpu_cache ?s = (cpu_cache s)(c := cpu_cache s c @ [p])" "total_page_count ?s = total_page_count s"
      "node_free_counts ?s = node_free_counts s" "page_owner ?s = (page_owner s)(page_index p := PAGE_OWNER_CACHE)"
    by (simp_all add: put_cache_def)
  have b: "bitmap_test i ?s = bitmap_test i s" for i by (simp add: put_cache_def)
  have L: "listed ?s = listed s" by (simp add: listed_def f)
  have C: "cached ?s = insert p (cached s)"
    unfolding cached_def f'(1) by (rule union_upd(2) [OF pmm_wfD(2) [OF wf]]) simp
  have n: "p \<notin> set (cpu_cache s n)" for n using ok(3) in_cached by blast
  have dl: "disjoint_lists (cpu_cache ?s)"
    unfolding f' using pmm_wfD(2) [OF wf] n by (intro disjoint_lists_add) (auto simp: disjoint_lists_def)
  have len: "length (cpu_cache ?s k) \<le> PMM_PERCPU_CACHE_SIZE" for k
    using pmm_wfD(9) [OF wf, of k] room by (simp add: f')
  show "pmm_wf ?s" "only s ?s {p}"
    by (rule single_move [OF wf ok(1) f'(2) _ dl len];
        use pmm_wfD(1,10,11) [OF wf] L C b pl ok f f' in simp)+
  show "p \<in> free ?s" "p \<notin> held ?s" using C by (simp_all add: free_def held_def)
qed

text \<open>The last page of a cache to an owner.\<close>

definition pop_cache :: "nat \<Rightarrow> u64 \<Rightarrow> u64 \<Rightarrow> pmm \<Rightarrow> pmm" where
  "pop_cache c p o' s = (set_cache c (butlast (cpu_cache s c)) s)\<lparr>page_owner := (page_owner s)(page_index p := o')\<rparr>"

lemma pop_cache:
  assumes wf: "pmm_wf s" and l: "cpu_cache s c = xs @ [p]"
  shows "pmm_wf (pop_cache c p o' s)" "only s (pop_cache c p o' s) {p}" "p \<notin> free (pop_cache c p o' s)"
    "p \<in> held (pop_cache c p o' s)" "p \<in> cached s" "page_owner (pop_cache c p o' s) (page_index p) = o'"
    "page_mem (pop_cache c p o' s) = page_mem s"
proof -
  let ?s = "pop_cache c p o' s"
  show pc: "p \<in> cached s" using l in_cached [of p s c] by simp
  note p = pmm_wfD(6-8) [OF wf pc]
  have pl: "p \<notin> listed s" using pmm_wfD(4) [OF wf] p(2) by blast
  have f: "node_free_lists ?s = node_free_lists s" "cpu_cache ?s = (cpu_cache s)(c := xs)"
      "total_page_count ?s = total_page_count s" "node_free_counts ?s = node_free_counts s"
      "page_owner ?s = (page_owner s)(page_index p := o')"
    using l by (simp_all add: pop_cache_def)
  then show "page_owner ?s (page_index p) = o'" by simp
  show "page_mem ?s = page_mem s" by (simp add: pop_cache_def)
  have b: "bitmap_test i ?s = bitmap_test i s" for i by (simp add: pop_cache_def)
  have L: "listed ?s = listed s" by (simp add: listed_def f)
  have C: "cached ?s = cached s - {p}"
    unfolding cached_def f(2) by (rule union_upd(3) [OF pmm_wfD(2) [OF wf] l])
  have "distinct (xs @ [p])" using pmm_wfD(2) [OF wf] l unfolding disjoint_lists_def by metis
  then have dl: "disjoint_lists (cpu_cache ?s)"
    unfolding f using l pmm_wfD(2) [OF wf] by (intro disjoint_lists_sub) auto
  have len: "length (cpu_cache ?s k) \<le> PMM_PERCPU_CACHE_SIZE" for k
    using pmm_wfD(9) [OF wf, of k] l by (cases "k = c") (simp_all add: f)
  show "pmm_wf ?s" "only s ?s {p}"
    by (rule single_move [OF wf p(1) f(3) _ dl len];
        use pmm_wfD(1,10,11) [OF wf] L C b pl p f in simp)+
  show "p \<notin> free ?s" using L C pl by (simp add: free_def)
  show "p \<in> held ?s" using p C b f by (simp add: held_def page_ok_def)
qed

text \<open>A held page back to a free list.\<close>

definition give_back :: "nat \<Rightarrow> u64 \<Rightarrow> pmm \<Rightarrow> pmm" where
  "give_back nd p s = list_push nd p ((bitmap_clear (page_index p) s)
     \<lparr>page_owner := (page_owner s)(page_index p := PAGE_OWNER_UNSET)\<rparr>)"

lemma give_back:
  assumes wf: "pmm_wf s" and p: "p \<in> held s" and nd: "nd < MAX_NUMA_NODES"
  shows "pmm_wf (give_back nd p s)" "only s (give_back nd p s) {p}" "p \<in> free (give_back nd p s)"
    "p \<notin> held (give_back nd p s)" "cpu_cache (give_back nd p s) = cpu_cache s"
    "owner_set (page_index p) PAGE_OWNER_UNSET (bitmap_clear (page_index p) s) =
       Some ((bitmap_clear (page_index p) s)\<lparr>page_owner := (page_owner s)(page_index p := PAGE_OWNER_UNSET)\<rparr>)"
    "page_mem (give_back nd p s) = page_mem s"
proof -
  let ?s = "give_back nd p s"
  have ok: "page_ok s p" "bitmap_test (page_index p) s" "p \<notin> cached s" using p by (simp_all add: held_def)
  have pl: "p \<notin> listed s" using pmm_wfD(4) [OF wf] ok(2) by blast
  have f: "node_free_lists ?s = (node_free_lists s)(nd := p # node_free_lists s nd)"
      "total_page_count ?s = total_page_count s"
      "node_free_counts ?s = (node_free_counts s)(nd := node_free_counts s nd + 1)"
      "page_owner ?s = (page_owner s)(page_index p := PAGE_OWNER_UNSET)"
    by (simp_all add: give_back_def list_push_def)
  show f': "cpu_cache ?s = cpu_cache s" "page_mem ?s = page_mem s" by (simp_all add: give_back_def)
  have b: "bitmap_test i ?s \<longleftrightarrow> i \<noteq> page_index p \<and> bitmap_test i s" for i by (simp add: give_back_def)
  have C: "cached ?s = cached s" by (simp add: cached_def f')
  have L: "listed ?s = insert p (listed s)"
    unfolding listed_def f(1) by (rule union_upd(2) [OF pmm_wfD(1) [OF wf]]) simp
  have n: "p \<notin> set (node_free_lists s m)" for m using pl in_listed by blast
  have dl: "disjoint_lists (node_free_lists ?s)"
    unfolding f using pmm_wfD(1) [OF wf] n by (intro disjoint_lists_add) (auto simp: disjoint_lists_def)
  have cnt: "node_free_counts ?s m = of_nat (length (node_free_lists ?s m))" for m
    using pmm_wfD(10) [OF wf, of m] by (auto simp: f)
  have top: "node_free_lists ?s m = []" if "m \<ge> MAX_NUMA_NODES" for m
    using pmm_wfD(11) [OF wf that] nd that by (simp add: f)
  show "pmm_wf ?s" "only s ?s {p}"
    by (rule single_move [OF wf ok(1) f(2) dl _ _ cnt top];
        use pmm_wfD(2,9) [OF wf] L C b ok f f' in simp)+
  show "p \<in> free ?s" "p \<notin> held ?s" using L b by (simp_all add: free_def held_def)
  show "owner_set (page_index p) PAGE_OWNER_UNSET (bitmap_clear (page_index p) s) =
       Some ((bitmap_clear (page_index p) s)\<lparr>page_owner := (page_owner s)(page_index p := PAGE_OWNER_UNSET)\<rparr>)"
    using ok(1) by (auto simp: owner_set_def Let_def page_ok_def)
qed

section \<open>Operations that move free pages\<close>

lemma free_held_disjoint: "pmm_wf s \<Longrightarrow> free s \<inter> held s = {}"
  using pmm_wfD(4) by (auto simp: free_def held_def)

text \<open>Nothing changes for the clients of the allocator.\<close>

definition quiet :: "pmm \<Rightarrow> pmm \<Rightarrow> bool" where
  "quiet s s' \<longleftrightarrow> pmm_wf s' \<and> free s' = free s \<and> held s' = held s \<and> owned s' = owned s \<and>
     total_page_count s' = total_page_count s \<and> page_mem s' = page_mem s"

lemma quiet_refl: "pmm_wf s \<Longrightarrow> quiet s s"
  by (simp add: quiet_def)

lemma quiet_trans: "quiet s s' \<Longrightarrow> quiet s' s'' \<Longrightarrow> quiet s s''"
  by (simp add: quiet_def)

lemma diff_eqI: "A - P = B - P \<Longrightarrow> A \<inter> P = B \<inter> P \<Longrightarrow> A = B"
  by blast

lemma quietI:
  assumes "pmm_wf s" and "pmm_wf s'" and o: "only s s' P" and "P \<subseteq> free s" and "P \<subseteq> free s'" and "page_mem s' = page_mem s"
  shows "quiet s s'"
proof -
  note sets = only_sets [OF o assms(1,2)]
  have "P \<inter> held s = {}" "P \<inter> held s' = {}"
    using free_held_disjoint [OF assms(1)] free_held_disjoint [OF assms(2)] assms(4,5) by blast+
  moreover from this have "P \<inter> owned s = {}" "P \<inter> owned s' = {}" by (auto simp: owned_def)
  moreover have "free s' \<inter> P = free s \<inter> P" using assms(4,5) by (simp add: Int_absorb1)
  ultimately have "free s' = free s" "held s' = held s" "owned s' = owned s"
    using diff_eqI [OF sets(1)] diff_eqI [OF sets(2)] diff_eqI [OF sets(3)] by (simp_all add: Int_commute)
  with assms(2,6) o show ?thesis by (simp add: quiet_def only_def)
qed

definition env_ok :: "pmm_env \<Rightarrow> bool" where
  "env_ok env \<longleftrightarrow> (\<forall>r \<in> set (numa_memory_regions env). nr_node r < MAX_NUMA_NODES) \<and>
     current_thread env \<noteq> PAGE_OWNER_CACHE"

lemma page_node_less: "env_ok env \<Longrightarrow> page_node env p < MAX_NUMA_NODES"
  by (auto simp: page_node_def env_ok_def MAX_NUMA_NODES_def find_Some_iff split: option.splits)

lemma flush_page_eq:
  assumes "pmm_wf s" and "p \<in> held s" and "env_ok env"
  shows "flush_page env p s = Some (give_back (page_node env p) p s)"
proof -
  have "page_index p < total_page_count s" using assms(2) by (simp add: held_def page_ok_def)
  then show ?thesis
    using give_back(6) [OF assms(1,2) page_node_less [OF assms(3)]] by (simp add: flush_page_def Let_def give_back_def)
qed

lemma flush_pages_spec:
  assumes "pmm_wf s" and "distinct ps" and "set ps \<subseteq> held s" and env: "env_ok env"
  shows "\<exists>s'. flush_pages env ps s = Some s' \<and> pmm_wf s' \<and> only s s' (set ps) \<and> set ps \<subseteq> free s' \<and>
    cpu_cache s' = cpu_cache s \<and> page_mem s' = page_mem s"
  using assms
proof (induction ps arbitrary: s)
  case Nil
  then show ?case by (simp add: only_refl)
next
  case (Cons p ps)
  let ?s1 = "give_back (page_node env p) p s"
  have p: "p \<in> held s" using Cons.prems(3) by simp
  note gb = give_back [OF Cons.prems(1) p page_node_less [OF env]]
  have h: "held ?s1 - {p} = held s - {p}" "free ?s1 - {p} = free s - {p}"
    using only_sets [OF gb(2) Cons.prems(1) gb(1)] by simp_all
  have "set ps \<subseteq> held ?s1" using h Cons.prems(2,3) by auto
  from Cons.IH [OF gb(1) _ this env] Cons.prems(2) obtain s' where s': "flush_pages env ps ?s1 = Some s'"
    "pmm_wf s'" "only ?s1 s' (set ps)" "set ps \<subseteq> free s'" "cpu_cache s' = cpu_cache ?s1" "page_mem s' = page_mem ?s1"
    by auto
  have "p \<in> free s'" using only_sets(1) [OF s'(3) gb(1) s'(2)] gb(3) Cons.prems(2) by auto
  moreover have "only s s' (set (p # ps))" using only_trans [OF gb(2) s'(3), of "set (p # ps)"] by simp
  ultimately show ?case
    using s' gb(5,7) flush_page_eq [OF Cons.prems(1) p env] by simp
qed

lemma flush_page_set_cache: "flush_page env p (set_cache c xs s) = map_option (set_cache c xs) (flush_page env p s)"
proof -
  have "owner_set i o' (bitmap_clear i (set_cache c xs s)) = map_option (set_cache c xs) (owner_set i o' (bitmap_clear i s))" for i o'
    by (auto simp: owner_set_def Let_def bitmap_clear_def set_cache_def)
  then show ?thesis
    by (auto simp: flush_page_def Let_def set_cache_def list_push_def bind_eq_Some_conv split: bind_splits)
qed

lemma flush_pages_set_cache:
  "flush_pages env ps (set_cache c xs s) = map_option (set_cache c xs) (flush_pages env ps s)"
proof (induction ps arbitrary: s)
  case (Cons p ps)
  then show ?case by (cases "flush_page env p s") (simp_all add: flush_page_set_cache)
qed simp

text \<open>Pages cut off the end of a cache are held by nobody but the flush.\<close>

lemma cut_cache:
  assumes wf: "pmm_wf s" and l: "cpu_cache s c = ys @ zs"
  shows "pmm_wf (set_cache c ys s)" "only s (set_cache c ys s) (set zs)" "set zs \<subseteq> held (set_cache c ys s)"
    "set zs \<subseteq> free s" "distinct zs"
proof -
  let ?s = "set_cache c ys s"
  have d: "distinct (ys @ zs)" using pmm_wfD(2) [OF wf] l unfolding disjoint_lists_def by metis
  then show "distinct zs" by simp
  have dl: "disjoint_lists (cpu_cache ?s)"
    using disjoint_lists_sub [OF pmm_wfD(2) [OF wf], of ys c] d l by simp
  have C: "cached ?s = cached s - set zs"
  proof -
    let ?R = "\<Union>m \<in> -{c}. set (cpu_cache s m)"
    have "cached ?s = set ys \<union> ?R" by (auto simp: cached_def split: if_splits)
    moreover have "cached s = set ys \<union> set zs \<union> ?R" 
    proof -
      have "cached s = set (cpu_cache s c) \<union> ?R" unfolding cached_def by blast
      then show ?thesis by (simp add: l)
    qed
    moreover have "?R \<inter> set zs = {}"
    proof -
      have "set (cpu_cache s m) \<inter> set (cpu_cache s c) = {}" if "m \<noteq> c" for m
        using pmm_wfD(2) [OF wf] that unfolding disjoint_lists_def by blast
      then show ?thesis unfolding l set_append by blast
    qed
    ultimately show ?thesis using d by auto
  qed
  have zs: "set zs \<subseteq> cached s" using in_cached [of _ s c] l by auto
  then show "set zs \<subseteq> free s" by (auto simp: free_def)
  have L: "listed ?s = listed s" by (simp add: listed_def)
  have len: "length (cpu_cache ?s k) \<le> PMM_PERCPU_CACHE_SIZE" for k
    using pmm_wfD(9) [OF wf, of k] l by (cases "k = c") simp_all
  show "pmm_wf ?s"
    using wf dl len L C unfolding pmm_wf_def page_ok_def by simp
  show "only s ?s (set zs)" by (auto simp: only_def pst_def L C)
  show "set zs \<subseteq> held ?s"
    using zs pmm_wfD(6,7) [OF wf] C by (auto simp: held_def page_ok_def)
qed

lemma flush_tail:
  assumes wf: "pmm_wf s" and l: "cpu_cache s c = ys @ zs" and env: "env_ok env"
  shows "\<exists>s1. flush_pages env zs s = Some s1 \<and> quiet s (set_cache c ys s1) \<and>
    cpu_cache (set_cache c ys s1) = (cpu_cache s)(c := ys)"
proof -
  note cut = cut_cache [OF wf l]
  obtain s' where s': "flush_pages env zs (set_cache c ys s) = Some s'" "pmm_wf s'"
      "only (set_cache c ys s) s' (set zs)" "set zs \<subseteq> free s'" "cpu_cache s' = cpu_cache (set_cache c ys s)"
      "page_mem s' = page_mem s"
    using flush_pages_spec [OF cut(1,5,3) env] by auto
  obtain s1 where s1: "flush_pages env zs s = Some s1" "s' = set_cache c ys s1"
    using s'(1) by (auto simp: flush_pages_set_cache)
  have "quiet s s'"
    using only_trans [OF cut(2) s'(3), of "set zs"] cut(4) s'(4,6)
    by (intro quietI [OF wf s'(2), of "set zs"]) simp_all
  with s1 s'(5) show ?thesis by (intro exI [of _ s1]) simp
qed

lemma cache_flush_half_spec:
  assumes wf: "pmm_wf s" and env: "env_ok env"
  shows "\<exists>s'. cache_flush_half env s = Some s' \<and> quiet s s' \<and>
    length (cpu_cache s' (smp_cpu_id env)) = length (cpu_cache s (smp_cpu_id env)) div 2"
  using flush_tail [OF wf _ env, of "smp_cpu_id env" "take (length (cpu_cache s (smp_cpu_id env)) div 2) (cpu_cache s (smp_cpu_id env))"
      "drop (length (cpu_cache s (smp_cpu_id env)) div 2) (cpu_cache s (smp_cpu_id env))"]
  by (auto simp: cache_flush_half_def Let_def)

lemma flush_cache_spec:
  assumes "pmm_wf s" and "env_ok env"
  shows "\<exists>s'. flush_cache env c s = Some s' \<and> quiet s s' \<and> cpu_cache s' = (cpu_cache s)(c := [])"
  using flush_tail [OF assms(1) _ assms(2), of c "[]" "cpu_cache s c"] by (auto simp: flush_cache_def)

lemma flush_caches_spec:
  assumes "pmm_wf s" and "env_ok env"
  shows "\<exists>s'. flush_caches env cs s = Some s' \<and> quiet s s' \<and>
    cpu_cache s' = (\<lambda>c. if c \<in> set cs then [] else cpu_cache s c)"
  using assms
proof (induction cs arbitrary: s)
  case Nil
  then show ?case by (simp add: quiet_refl)
next
  case (Cons c cs)
  obtain s1 where s1: "flush_cache env c s = Some s1" "quiet s s1" "cpu_cache s1 = (cpu_cache s)(c := [])"
    using flush_cache_spec [OF Cons.prems] by blast
  obtain s2 where "flush_caches env cs s1 = Some s2" "quiet s1 s2"
      "cpu_cache s2 = (\<lambda>c. if c \<in> set cs then [] else cpu_cache s1 c)"
    using Cons.IH [of s1] s1(2) Cons.prems(2) by (auto simp: quiet_def)
  with s1 quiet_trans [OF s1(2)] show ?case by (auto simp: fun_eq_iff)
qed

lemma refill_loop_spec:
  assumes "pmm_wf s"
  shows "\<exists>s'. refill_loop m env nd s = Some s' \<and> quiet s s'"
  using assms
proof (induction m arbitrary: s)
  case 0
  then show ?case by (simp add: quiet_refl)
next
  case (Suc m)
  let ?c = "smp_cpu_id env"
  show ?case
  proof (cases "node_free_lists s nd = [] \<or> length (cpu_cache s ?c) \<ge> PMM_PERCPU_CACHE_SIZE")
    case True
    then show ?thesis using Suc.prems by (auto simp: quiet_refl Let_def split: list.split)
  next
    case False
    then obtain p xs where l: "node_free_lists s nd = p # xs" by (cases "node_free_lists s nd") auto
    let ?t = "take_page nd p PAGE_OWNER_CACHE s" and ?u = "put_cache ?c p (take_page nd p PAGE_OWNER_CACHE s)"
    note t = take_page(1-5) [OF Suc.prems l, of PAGE_OWNER_CACHE] take_page(6,7) [OF Suc.prems l]
    have "cpu_cache ?t = cpu_cache s" by (simp add: take_page_def)
    with False have room: "length (cpu_cache ?t ?c) < PMM_PERCPU_CACHE_SIZE" by simp
    note u = put_cache [OF t(1,5) room]
    have "quiet s ?u"
      using t(7) u(3) only_trans [OF t(2) u(2), of "{p}"]
      by (intro quietI [OF Suc.prems u(1), of "{p}"]) (auto simp: free_def put_cache_def take_page_def)
    moreover have "set_cache ?c (cpu_cache s ?c @ [p]) ?t = ?u"
      by (simp add: put_cache_def set_cache_def take_page_def)
    moreover obtain s' where s': "refill_loop m env nd ?u = Some s'" "quiet ?u s'" using Suc.IH [OF u(1)] by blast
    ultimately have "refill_loop (Suc m) env nd s = Some s'" "quiet s s'"
      using t(3,6) l False quiet_trans [of s ?u s'] by (auto simp: Let_def page_ok_def not_le)
    then show ?thesis by blast
  qed
qed

lemma cache_refill_spec: "pmm_wf s \<Longrightarrow> \<exists>s'. cache_refill env s = Some s' \<and> quiet s s'"
  by (auto simp: cache_refill_def quiet_refl refill_loop_spec split: option.splits)

lemma disjoint_lists_append:
  assumes "disjoint_lists f" and "\<And>m. set zs \<inter> set (f m) = {}" and "distinct zs"
  shows "disjoint_lists (f(n := f n @ zs))"
  unfolding disjoint_lists_def
proof (intro conjI allI impI)
  fix m
  show "distinct ((f(n := f n @ zs)) m)"
    using assms(1,3) assms(2) [of n] by (simp add: disjoint_lists_def Int_commute)
next
  fix m m' :: nat
  assume "m \<noteq> m'"
  then have "set (f m) \<inter> set (f m') = {}" using assms(1) by (simp add: disjoint_lists_def)
  then show "set ((f(n := f n @ zs)) m) \<inter> set ((f(n := f n @ zs)) m') = {}"
    using assms(2) [of m] assms(2) [of m'] \<open>m \<noteq> m'\<close> by auto
qed

lemma union_upd2:
  assumes "v \<noteq> (w :: nat)"
  shows "(\<Union>m. set ((f(v := a, w := b)) m)) = set a \<union> set b \<union> (\<Union>m \<in> -{v, w}. set (f m))"
    "(\<Union>m. set (f m)) = set (f v) \<union> set (f w) \<union> (\<Union>m \<in> -{v, w}. set (f m))"
  using assms by (auto split: if_splits)

lemma cache_steal_spec:
  assumes wf: "pmm_wf s" and st: "cache_steal env v s = (n, s')" and n: "n \<noteq> 0"
  shows "quiet s s'" "cpu_cache s' (smp_cpu_id env) \<noteq> []"
proof -
  let ?me = "smp_cpu_id env" and ?xs = "cpu_cache s v"
  define mv where "mv = drop (length ?xs - n) ?xs"
  have vm: "v \<noteq> ?me" "cache_lock_free env v" "cache_lock_free env ?me" "length ?xs div 2 \<noteq> 0"
    and nl: "n = min (PMM_PERCPU_CACHE_SIZE - length (cpu_cache s ?me)) (length ?xs div 2)"
    using st n by (auto simp: cache_steal_def Let_def split: if_splits)
  define u where "u = set_cache ?me (cpu_cache s ?me @ mv) (set_cache v (take (length ?xs - n) ?xs) s)"
  have own: "page_owner s i = PAGE_OWNER_CACHE" if "i \<in> page_index ` set mv" for i
    using that pmm_wfD(8) [OF wf in_cached] by (auto simp: mv_def dest!: in_set_dropD)
  then have pid: "(\<lambda>i. if i < total_page_count s \<and> i \<in> page_index ` set mv then PAGE_OWNER_CACHE else page_owner s i) = page_owner s"
    by auto
  have "s' = u\<lparr>page_owner := (\<lambda>i. if i < total_page_count s \<and> i \<in> page_index ` set mv
      then PAGE_OWNER_CACHE else page_owner s i)\<rparr>"
  proof -
    have "cache_steal env v s = (n, u\<lparr>page_owner := (\<lambda>i. if i < total_page_count s \<and> i \<in> page_index ` set mv
        then PAGE_OWNER_CACHE else page_owner s i)\<rparr>)"
      unfolding cache_steal_def Let_def nl [symmetric] u_def mv_def using vm by simp
    then show ?thesis unfolding st prod.inject by (rule conjunct2)
  qed
  then have s': "s' = u" unfolding pid by (simp add: u_def set_cache_def)
  let ?ys = "take (length ?xs - n) ?xs"
  have l: "cpu_cache s v = ?ys @ mv" by (simp add: mv_def)
  note cut = cut_cache [OF wf l]
  have nle: "n \<le> length ?xs" unfolding nl by (rule le_trans [OF min.cobounded2 div_le_dividend])
  have room: "n \<le> PMM_PERCPU_CACHE_SIZE - length (cpu_cache s ?me)" unfolding nl by (rule min.cobounded1)
  have mvl: "length mv = n" using nle by (simp add: mv_def)
  then have mvne: "mv \<noteq> []" using n by auto
  have f: "cpu_cache u = (cpu_cache s)(v := ?ys, ?me := cpu_cache s ?me @ mv)" by (simp add: u_def)
  have C: "cached u = cached s"
  proof -
    have "set (cpu_cache s v) = set ?ys \<union> set mv" by (metis l set_append)
    then show ?thesis
      unfolding cached_def f union_upd2(1) [OF vm(1)] union_upd2(2) [OF vm(1), of "cpu_cache s"] set_append by blast
  qed
  have dl: "disjoint_lists (cpu_cache u)"
  proof -
    have d: "disjoint_lists ((cpu_cache s)(v := ?ys))" using pmm_wfD(2) [OF cut(1)] by simp
    have "set mv \<inter> set (((cpu_cache s)(v := ?ys)) m) = {}" for m
      using cut(3) in_cached [of _ "set_cache v ?ys s" m] by (auto simp: held_def)
    from disjoint_lists_append [OF d this cut(5), of ?me] vm(1) show ?thesis unfolding f by (simp add: fun_upd_def)
  qed
  have len: "length (cpu_cache u c) \<le> PMM_PERCPU_CACHE_SIZE" for c
    using pmm_wfD(9) [OF wf, of c] pmm_wfD(9) [OF wf, of v] pmm_wfD(9) [OF wf, of ?me] room mvl
    by (cases "c = ?me"; cases "c = v") (simp_all add: f)
  have g: "node_free_lists u = node_free_lists s" "node_free_counts u = node_free_counts s"
      "total_page_count u = total_page_count s" "page_owner u = page_owner s" "page_mem u = page_mem s"
      "listed u = listed s" "\<And>i. bitmap_test i u = bitmap_test i s"
    by (simp_all add: u_def listed_def)
  have "pmm_wf u" using wf dl len C g unfolding pmm_wf_def page_ok_def by simp
  moreover have "only s u {}" using C g by (simp add: only_def pst_def)
  ultimately show "quiet s s'" unfolding s' using g(5) by (intro quietI [OF wf, of _ "{}"]) auto
  show "cpu_cache s' (smp_cpu_id env) \<noteq> []" unfolding s' f using mvne by simp
qed

section \<open>Handing out and taking back a page\<close>

definition gives :: "pmm \<Rightarrow> u64 \<Rightarrow> pmm \<Rightarrow> bool" where
  "gives s p s' \<longleftrightarrow> pmm_wf s' \<and> p \<in> free s \<and> free s' = free s - {p} \<and> held s' = insert p (held s) \<and>
     owned s' = insert p (owned s) \<and> total_page_count s' = total_page_count s \<and> page_mem s' = page_mem s"

definition takes :: "pmm \<Rightarrow> u64 \<Rightarrow> pmm \<Rightarrow> bool" where
  "takes s p s' \<longleftrightarrow> pmm_wf s' \<and> free s' = insert p (free s) \<and> held s' = held s - {p} \<and>
     owned s' = owned s - {p} \<and> total_page_count s' = total_page_count s \<and> page_mem s' = page_mem s"

lemma givesI:
  assumes "pmm_wf s" and "pmm_wf s'" and o: "only s s' {p}" and "p \<in> free s" and "p \<notin> free s'" and "p \<in> held s'"
    and "page_owner s' (page_index p) \<noteq> PAGE_OWNER_CACHE" and "page_mem s' = page_mem s"
  shows "gives s p s'"
proof -
  note sets = only_sets [OF o assms(1,2)]
  have "free s' = free s - {p}" using sets(1) assms(5) by blast
  moreover have "p \<notin> held s" using free_held_disjoint [OF assms(1)] assms(4) by blast
  then have "held s' = insert p (held s)" using sets(2) assms(6) by blast
  moreover have "owned s' = insert p (owned s)"
  proof -
    have "p \<in> owned s'" using assms(6,7) by (simp add: owned_def)
    moreover have "p \<notin> owned s" using \<open>p \<notin> held s\<close> by (simp add: owned_def)
    ultimately show ?thesis using sets(3) by blast
  qed
  ultimately show ?thesis using assms(2,4,8) o by (simp add: gives_def only_def)
qed

lemma takesI:
  assumes "pmm_wf s" and "pmm_wf s'" and o: "only s s' {p}" and "p \<in> free s'" and "page_mem s' = page_mem s"
  shows "takes s p s'"
proof -
  note sets = only_sets [OF o assms(1,2)]
  have "p \<notin> held s'" using free_held_disjoint [OF assms(2)] assms(4) by blast
  then have "p \<notin> owned s'" by (simp add: owned_def)
  from sets assms(4) \<open>p \<notin> held s'\<close> this
  have "free s' = insert p (free s)" "held s' = held s - {p}" "owned s' = owned s - {p}" by blast+
  then show ?thesis using assms(2,5) o by (simp add: takes_def only_def)
qed

lemma cache_try_pop_spec:
  assumes wf: "pmm_wf s" and env: "env_ok env"
  shows "\<exists>p s'. cache_try_pop env s = Some (p, s') \<and>
    (if p = 0 then s' = s \<and> cpu_cache s (smp_cpu_id env) = [] else gives s p s')"
proof (cases "cpu_cache s (smp_cpu_id env)" rule: rev_cases)
  case Nil
  then show ?thesis by (simp add: cache_try_pop_def Let_def)
next
  case (snoc xs p)
  let ?s = "pop_cache (smp_cpu_id env) p (current_thread env) s"
  note po = pop_cache(1-4,6,7) [OF wf snoc, of "current_thread env"] pop_cache(5) [OF wf snoc]
  note p = pmm_wfD(6-8) [OF wf po(7)]
  have "gives s p ?s" using po env by (intro givesI [OF wf]) (auto simp: free_def env_ok_def)
  moreover have "cache_try_pop env s = Some (p, ?s)"
    using p snoc by (simp add: cache_try_pop_def Let_def pop_cache_def page_ok_def set_cache_def bitmap_test_def)
  moreover have "p \<noteq> 0" using p(1) by (simp add: page_ok_def)
  ultimately show ?thesis by auto
qed

lemma pop_from_node_spec:
  assumes wf: "pmm_wf s" and env: "env_ok env"
  shows "\<exists>p s'. pop_from_node env node s = Some (p, s') \<and>
    (if p = 0 then s' = s \<and> (0 \<le> node \<longrightarrow> node_free_lists s (nat node) = []) else gives s p s')"
proof (cases "node < 0 \<or> node \<ge> int MAX_NUMA_NODES \<or> node_free_lists s (nat node) = []")
  case True
  have "node_free_lists s (nat node) = []" if "node \<ge> int MAX_NUMA_NODES"
    using that pmm_wfD(11) [OF wf, of "nat node"] by (simp add: nat_le_iff le_nat_iff)
  with True show ?thesis by (auto simp: pop_from_node_def Let_def)
next
  case False
  then obtain p xs where l: "node_free_lists s (nat node) = p # xs" by (cases "node_free_lists s (nat node)") auto
  let ?s = "take_page (nat node) p (current_thread env) s"
  note t = take_page(1-5) [OF wf l, of "current_thread env"] take_page(6,7) [OF wf l]
  have "gives s p ?s" using t env by (intro givesI [OF wf]) (auto simp: free_def env_ok_def take_page_def)
  moreover have "pop_from_node env node s = Some (p, ?s)"
    using False l t(3,6) pmm_wfD(4) [OF wf t(7)] by (auto simp: pop_from_node_def Let_def page_ok_def)
  moreover have "p \<noteq> 0" using t(6) by (simp add: page_ok_def)
  ultimately show ?thesis by auto
qed

lemma pop_any_spec:
  assumes "pmm_wf s" and "env_ok env"
  shows "\<exists>p s'. pop_any env ns s = Some (p, s') \<and>
    (if p = 0 then s' = s \<and> (\<forall>n \<in> set ns. node_free_lists s n = []) else gives s p s')"
proof (induction ns)
  case (Cons n ns)
  obtain p s1 where "pop_from_node env (int n) s = Some (p, s1)"
    "if p = 0 then s1 = s \<and> (0 \<le> int n \<longrightarrow> node_free_lists s (nat (int n)) = []) else gives s p s1"
    using pop_from_node_spec [OF assms] by blast
  moreover obtain p' s' where "pop_any env ns s = Some (p', s')"
      "if p' = 0 then s' = s \<and> (\<forall>n \<in> set ns. node_free_lists s n = []) else gives s p' s'"
    using Cons by blast
  ultimately show ?case by (cases "p = 0"; cases "p' = 0") auto
qed simp

lemma alloc_from_lists_spec:
  assumes wf: "pmm_wf s" and env: "env_ok env"
  shows "\<exists>p s'. alloc_from_lists env s = Some (p, s') \<and> (if p = 0 then s' = s \<and> listed s = {} else gives s p s')"
proof -
  let ?n = "pmm_current_node env"
  obtain p1 s1 where 1: "pop_from_node env ?n s = Some (p1, s1)" "if p1 = 0 then s1 = s else gives s p1 s1"
    using pop_from_node_spec [OF wf env, of ?n] by (metis (full_types))
  let ?near = "nearest_scan env s ?n [0..<(if numa_available env then numa_node_count env else 1)] None 999"
  obtain p2 s2 where 2: "(case ?near of Some n \<Rightarrow> pop_from_node env (int n) s | None \<Rightarrow> Some (0, s)) = Some (p2, s2)"
      "if p2 = 0 then s2 = s else gives s p2 s2"
  proof (cases ?near)
    case (Some n)
    with pop_from_node_spec [OF wf env, of "int n"] that show thesis by (metis (no_types, lifting) option.case(2))
  qed (use that in auto)
  obtain p3 s3 where 3: "pop_any env [0..<MAX_NUMA_NODES] s = Some (p3, s3)"
      "if p3 = 0 then s3 = s \<and> (\<forall>n \<in> set [0..<MAX_NUMA_NODES]. node_free_lists s n = []) else gives s p3 s3"
    using pop_any_spec [OF wf env] by blast
  have "listed s = {}" if "p3 = 0"
    using 3(2) that pmm_wfD(11) [OF wf] unfolding listed_def by (force simp: not_le [symmetric])
  with 1 2 3 show ?thesis
    by (cases "p1 = 0"; cases "p2 = 0") (auto simp: alloc_from_lists_def Let_def)
qed

lemma gives_quiet: "gives s p s' \<Longrightarrow> quiet s' s'' \<Longrightarrow> gives s p s''"
  by (simp add: gives_def quiet_def)

lemma quiet_gives: "quiet s s' \<Longrightarrow> gives s' p s'' \<Longrightarrow> gives s p s''"
  by (simp add: gives_def quiet_def)

lemma quiet_takes: "quiet s s' \<Longrightarrow> takes s' p s'' \<Longrightarrow> takes s p s''"
  by (simp add: takes_def quiet_def)

lemma cache_steal_0:
  assumes "cache_steal env v s = (0, s')" and "cpu_cache s (smp_cpu_id env) = []"
  shows "s' = s" "v \<noteq> smp_cpu_id env \<Longrightarrow> cache_lock_free env v \<Longrightarrow> cache_lock_free env (smp_cpu_id env) \<Longrightarrow>
    length (cpu_cache s v) \<le> 1"
proof -
  let ?x = "length (cpu_cache s v) div 2"
  have eq: "cache_steal env v s = (if v = smp_cpu_id env \<or> \<not> cache_lock_free env v \<or> ?x = 0 \<or>
      \<not> cache_lock_free env (smp_cpu_id env) then (0, s)
    else (min PMM_PERCPU_CACHE_SIZE ?x, snd (cache_steal env v s)))"
    using assms(2) by (simp add: cache_steal_def Let_def)
  have "0 < PMM_PERCPU_CACHE_SIZE" by (simp add: PMM_PERCPU_CACHE_SIZE_def)
  with assms(1) eq have c: "v = smp_cpu_id env \<or> \<not> cache_lock_free env v \<or> ?x = 0 \<or>
      \<not> cache_lock_free env (smp_cpu_id env)"
    by (metis fst_conv min_def not_less_iff_gr_or_eq)
  with eq assms(1) show "s' = s" by auto
  show "v \<noteq> smp_cpu_id env \<Longrightarrow> cache_lock_free env v \<Longrightarrow> cache_lock_free env (smp_cpu_id env) \<Longrightarrow>
      length (cpu_cache s v) \<le> 1"
    using c by auto
qed

lemma steal_any_spec:
  assumes wf: "pmm_wf s" and env: "env_ok env" and e: "cpu_cache s (smp_cpu_id env) = []"
  shows "\<exists>p s'. steal_any env cs s = Some (p, s') \<and>
    (if p = 0 then s' = s \<and> (\<forall>c \<in> set cs. c \<noteq> smp_cpu_id env \<longrightarrow> cache_lock_free env c \<longrightarrow>
       cache_lock_free env (smp_cpu_id env) \<longrightarrow> length (cpu_cache s c) \<le> 1)
     else gives s p s')"
proof (induction cs)
  case (Cons c cs)
  then obtain p' s' where IH: "steal_any env cs s = Some (p', s')"
      "if p' = 0 then s' = s \<and> (\<forall>c \<in> set cs. c \<noteq> smp_cpu_id env \<longrightarrow> cache_lock_free env c \<longrightarrow>
         cache_lock_free env (smp_cpu_id env) \<longrightarrow> length (cpu_cache s c) \<le> 1)
       else gives s p' s'" by blast
  obtain n s1 where st: "cache_steal env c s = (n, s1)" by (metis prod.exhaust)
  show ?case
  proof (cases "n = 0")
    case True
    from cache_steal_0 [OF st [unfolded True] e] IH st True show ?thesis
      by (cases "c = smp_cpu_id env"; cases "p' = 0") auto
  next
    case False
    from st False have c: "c \<noteq> smp_cpu_id env" by (auto simp: cache_steal_def)
    note s1 = cache_steal_spec [OF wf st False]
    have "pmm_wf s1" using s1(1) by (simp add: quiet_def)
    from cache_try_pop_spec [OF this env] s1(2) obtain p s2 where p: "cache_try_pop env s1 = Some (p, s2)" "p \<noteq> 0" "gives s1 p s2"
      by (metis (full_types))
    with st False c quiet_gives [OF s1(1)] show ?thesis by auto
  qed
qed simp

lemma free_page_spec:
  assumes wf: "pmm_wf s" and env: "env_ok env" and p: "p \<in> owned s"
  shows "\<exists>s'. pmm_free_page env p s = Some s' \<and> takes s p s'"
proof -
  let ?c = "smp_cpu_id env"
  have h: "p \<in> held s" "page_owner s (page_index p) \<noteq> PAGE_OWNER_CACHE" using p by (simp_all add: owned_def)
  have ok: "p \<noteq> 0" "page_aligned p" "page_index p < total_page_count s" "bitmap_test (page_index p) s" "p \<notin> set (cpu_cache s ?c)"
    using h(1) in_cached [of p s ?c] by (auto simp: held_def page_ok_def)
  show ?thesis
  proof (cases "length (cpu_cache s ?c) < PMM_PERCPU_CACHE_SIZE")
    case True
    note u = put_cache [OF wf h(1) True]
    have "pmm_free_page env p s = Some (put_cache ?c p s)"
      using ok h(2) True by (simp add: pmm_free_page_def cache_try_push_def Let_def put_cache_def)
    with takesI [OF wf u(1,2,3,6)] show ?thesis by blast
  next
    case False
    obtain s1 where s1: "cache_flush_half env s = Some s1" "quiet s s1"
        "length (cpu_cache s1 ?c) = length (cpu_cache s ?c) div 2"
      using cache_flush_half_spec [OF wf env] by blast
    have wf1: "pmm_wf s1" and p1: "p \<in> owned s1" using s1(2) p by (simp_all add: quiet_def)
    have h1: "p \<in> held s1" "page_owner s1 (page_index p) \<noteq> PAGE_OWNER_CACHE" using p1 by (simp_all add: owned_def)
    have "length (cpu_cache s ?c) = 32" using False pmm_wfD(9) [OF wf, of ?c] by (simp add: PMM_PERCPU_CACHE_SIZE_def)
    then have room: "length (cpu_cache s1 ?c) < PMM_PERCPU_CACHE_SIZE" using s1(3) by (simp add: PMM_PERCPU_CACHE_SIZE_def)
    note u = put_cache [OF wf1 h1(1) room]
    have "pmm_free_page env p s = Some (put_cache ?c p s1)"
      using ok False s1(1) h1(2) room
      by (simp add: pmm_free_page_def cache_try_push_def Let_def put_cache_def free_slow_def)
    with quiet_takes [OF s1(2) takesI [OF wf1 u(1,2,3,6)]] show ?thesis by blast
  qed
qed

lemma free_each_spec:
  assumes "pmm_wf s" and "env_ok env" and "distinct ps" and "set ps \<subseteq> owned s"
  shows "\<exists>s'. free_each env ps s = Some s' \<and> pmm_wf s' \<and> free s' = free s \<union> set ps \<and> owned s' = owned s - set ps \<and>
    total_page_count s' = total_page_count s"
  using assms
proof (induction ps arbitrary: s)
  case (Cons p ps)
  then obtain s1 where s1: "pmm_free_page env p s = Some s1" "takes s p s1"
    using free_page_spec [of s env p] by auto
  have "pmm_free_pages env p 1 s = Some s1" using s1(1) by (simp add: pmm_free_pages_def)
  moreover have "set ps \<subseteq> owned s1" "pmm_wf s1" using Cons.prems(3,4) s1(2) by (auto simp: takes_def)
  ultimately show ?case using Cons.IH [of s1] Cons.prems(2,3) s1(2) by (auto simp: takes_def)
qed simp

lemma page_zero_fields [simp]:
  "pmm_wf (page_zero p s) = pmm_wf s" "free (page_zero p s) = free s" "held (page_zero p s) = held s"
  "owned (page_zero p s) = owned s" "total_page_count (page_zero p s) = total_page_count s"
  "bitmap_test i (page_zero p s) = bitmap_test i s" "page_owner (page_zero p s) = page_owner s"
  "node_free_lists (page_zero p s) = node_free_lists s" "cpu_cache (page_zero p s) = cpu_cache s"
  by (simp_all add: page_zero_def pmm_wf_def free_def held_def owned_def listed_def cached_def page_ok_def bitmap_test_def)

lemma page_zero_mem: "i < 512 \<Longrightarrow> page_mem (page_zero p s) (p + 8 * of_nat i) = 0"
  by (auto simp: page_zero_def)

text \<open>The slab pages that a compaction may return belong to the heap.\<close>

definition compact_ok :: "pmm_env \<Rightarrow> u64 set \<Rightarrow> bool" where
  "compact_ok env A \<longleftrightarrow> distinct (compact_pages env) \<and> set (compact_pages env) \<subseteq> A"

definition starved :: "pmm_env \<Rightarrow> pmm \<Rightarrow> bool" where
  "starved env s \<longleftrightarrow> listed s = {} \<and> cpu_cache s (smp_cpu_id env) = [] \<and>
     (\<forall>c < smp_nr_cpus env. c \<noteq> smp_cpu_id env \<longrightarrow> cache_lock_free env c \<longrightarrow>
        cache_lock_free env (smp_cpu_id env) \<longrightarrow> length (cpu_cache s c) \<le> 1)"

lemma alloc_page_spec:
  assumes wf: "pmm_wf s" and env: "env_ok env" and co: "compact_ok env (owned s)"
  shows "\<exists>p s'. pmm_alloc_page env s = Some (p, s') \<and> pmm_wf s' \<and>
    (if p = 0 then starved env s \<and> free s \<subseteq> free s' \<and> owned s - set (compact_pages env) \<subseteq> owned s'
     else p \<in> free s \<and> free s' = free s - {p} \<and> owned s' = insert p (owned s) \<and>
       (\<forall>i < 512. page_mem s' (p + 8 * of_nat i) = 0))"
proof -
  obtain p0 s0 where 0: "cache_try_pop env s = Some (p0, s0)"
      "if p0 = 0 then s0 = s \<and> cpu_cache s (smp_cpu_id env) = [] else gives s p0 s0"
    using cache_try_pop_spec [OF wf env] by blast
  obtain p1 s1 where 1: "alloc_from_lists env s = Some (p1, s1)"
      "if p1 = 0 then s1 = s \<and> listed s = {} else gives s p1 s1"
    using alloc_from_lists_spec [OF wf env] by blast
  show ?thesis
  proof (cases "p0 = 0")
    case False
    with 0 show ?thesis by (auto simp: pmm_alloc_page_def gives_def page_zero_mem)
  next
    case z0: True
    show ?thesis
    proof (cases "p1 = 0")
      case False
      then obtain s2 where s2: "cache_refill env s1 = Some s2" "quiet s1 s2"
        using cache_refill_spec [of s1 env] 1(2) by (auto simp: gives_def)
      with 1(2) False gives_quiet have "gives s p1 s2" by auto
      with 0 1 z0 False s2(1) show ?thesis by (auto simp: pmm_alloc_page_def gives_def page_zero_mem)
    next
      case z1: True
      let ?cs = "[0..<smp_nr_cpus env] @ [0..<smp_nr_cpus env]"
      obtain p2 s2 where 2: "steal_any env ?cs s = Some (p2, s2)"
          "if p2 = 0 then s2 = s \<and> (\<forall>c \<in> set ?cs. c \<noteq> smp_cpu_id env \<longrightarrow> cache_lock_free env c \<longrightarrow>
             cache_lock_free env (smp_cpu_id env) \<longrightarrow> length (cpu_cache s c) \<le> 1) else gives s p2 s2"
        using steal_any_spec [OF wf env, of ?cs] 0(2) z0 by auto
      show ?thesis
      proof (cases "p2 = 0")
        case False
        with 0 1 2 z0 z1 show ?thesis by (auto simp: pmm_alloc_page_def gives_def page_zero_mem)
      next
        case True
        have "\<exists>s3. pmm_oom_kill env s = Some s3 \<and> pmm_wf s3 \<and> free s \<subseteq> free s3 \<and>
            owned s - set (compact_pages env) \<subseteq> owned s3"
          using free_each_spec [OF wf env, of "compact_pages env"] co wf
          by (cases "oom_scheduled s")
            (auto simp: pmm_oom_kill_def compact_ok_def pmm_wf_def free_def owned_def held_def listed_def cached_def page_ok_def bitmap_test_def)
        with 0 1 2 z0 z1 True show ?thesis by (auto simp: pmm_alloc_page_def starved_def)
      qed
    qed
  qed
qed

section \<open>Runs of the allocator\<close>

text \<open>
  Clients allocate pages, and free pages they hold, in any order and on any CPU. The second
  component of the state is the set of pages they hold; a compaction frees pages of the heap,
  which is one of the clients.
\<close>

inductive pmm_step :: "pmm \<times> u64 set \<Rightarrow> pmm \<times> u64 set \<Rightarrow> bool" where
  alloc: "env_ok env \<Longrightarrow> compact_ok env H \<Longrightarrow> pmm_alloc_page env s = Some (p, s') \<Longrightarrow> p \<noteq> 0 \<Longrightarrow>
    pmm_step (s, H) (s', insert p H)"
| no_page: "env_ok env \<Longrightarrow> compact_ok env H \<Longrightarrow> pmm_alloc_page env s = Some (0, s') \<Longrightarrow>
    pmm_step (s, H) (s', H - set (compact_pages env))"
| release: "env_ok env \<Longrightarrow> p \<in> H \<Longrightarrow> pmm_free_page env p s = Some s' \<Longrightarrow> pmm_step (s, H) (s', H - {p})"
| flush: "env_ok env \<Longrightarrow> pmm_flush_cpu_cache env c s = Some s' \<Longrightarrow> pmm_step (s, H) (s', H)"

lemma pmm_step_inv:
  assumes "pmm_step (s, H) (s', H')" and "pmm_wf s" and "H \<subseteq> owned s"
  shows "pmm_wf s' \<and> H' \<subseteq> owned s'"
  using assms(1)
proof cases
  case (alloc env p)
  have "compact_ok env (owned s)" using alloc assms(3) by (auto simp: compact_ok_def)
  from alloc_page_spec [OF assms(2) alloc(2) this] alloc assms(3) show ?thesis by auto
next
  case (no_page env)
  have "compact_ok env (owned s)" using no_page assms(3) by (auto simp: compact_ok_def)
  from alloc_page_spec [OF assms(2) no_page(2) this] no_page assms(3) show ?thesis by auto
next
  case (release env p)
  with free_page_spec [OF assms(2) release(2)] assms(3) show ?thesis by (force simp: takes_def)
next
  case (flush env c)
  with flush_cache_spec [OF assms(2) flush(2), of "nat c"] assms show ?thesis
    by (auto simp: pmm_flush_cpu_cache_def quiet_def split: if_splits)
qed

lemma pmm_reach_inv:
  assumes "pmm_step\<^sup>*\<^sup>* (s0, {}) (s, H)" and "pmm_wf s0"
  shows "pmm_wf s \<and> H \<subseteq> owned s"
proof -
  have "pmm_wf (fst x) \<and> snd x \<subseteq> owned (fst x)" if "pmm_step\<^sup>*\<^sup>* (s0, {}) x" for x
    using that
  proof (induction rule: rtranclp_induct)
    case base
    show ?case using assms(2) by simp
  next
    case (step y z)
    then show ?case using pmm_step_inv [of "fst y" "snd y" "fst z" "snd z"] by simp
  qed
  from this [OF assms(1)] show ?thesis by simp
qed

section \<open>A small machine\<close>

text \<open>Sixteen pages, two of them free on node 0, one CPU, no NUMA.\<close>

definition pmm_demo :: pmm where
  "pmm_demo = \<lparr>node_free_lists = (\<lambda>_. [])(0 := [0x5000, 0x6000]), node_free_counts = (\<lambda>_. 0)(0 := 2),
     total_page_count = 16, list_free_count = 2, total_memory = 0x10000,
     used_bitmap = (\<lambda>_. 0xFF)(0 := 0x9F), page_owner = (\<lambda>_. 0), cpu_cache = (\<lambda>_. []),
     oom_scheduled = False, page_mem = (\<lambda>_. 7)\<rparr>"

definition env_demo :: pmm_env where
  "env_demo = \<lparr>current_thread = 0xFFFF800000100000, smp_cpu_id = 0, smp_nr_cpus = 1, numa_available = False,
     numa_node_count = 1, numa_memory_regions = [], numa_distance = (\<lambda>_ _. 0), cpu_node_id = (\<lambda>_. Some 0),
     cache_lock_free = (\<lambda>_. True), compact_pages = []\<rparr>"

lemma demo_bits: "\<not> bitmap_test 5 pmm_demo" "\<not> bitmap_test 6 pmm_demo" "i < 16 \<Longrightarrow> i \<noteq> 5 \<Longrightarrow> i \<noteq> 6 \<Longrightarrow> bitmap_test (of_nat i) pmm_demo"
proof -
  show "\<not> bitmap_test 5 pmm_demo" "\<not> bitmap_test 6 pmm_demo" by (simp_all add: bitmap_test_def pmm_demo_def)
  assume "i < 16" "i \<noteq> 5" "i \<noteq> 6"
  then have "i \<in> {0, 1, 2, 3, 4, 7, 8, 9, 10, 11, 12, 13, 14, 15}" by (simp, arith)
  then show "bitmap_test (of_nat i) pmm_demo" by (auto simp: bitmap_test_def pmm_demo_def)
qed

lemma demo_listed: "listed pmm_demo = {0x5000, 0x6000}" "cached pmm_demo = {}"
  by (auto simp: listed_def cached_def pmm_demo_def split: if_splits)

lemma demo_wf: "pmm_wf pmm_demo"
proof -
  have "page_ok pmm_demo p \<and> \<not> bitmap_test (page_index p) pmm_demo" if "p \<in> {0x5000, 0x6000}" for p
    using that demo_bits by (auto simp: page_ok_def page_aligned_def page_index_def pmm_demo_def)
  moreover have "page_owner pmm_demo i = PAGE_OWNER_UNSET" for i by (simp add: pmm_demo_def PAGE_OWNER_UNSET_def)
  ultimately show ?thesis
    unfolding pmm_wf_def demo_listed
    by (auto simp: disjoint_lists_def PMM_PERCPU_CACHE_SIZE_def MAX_NUMA_NODES_def pmm_demo_def)
qed

lemma env_demo_ok: "env_ok env_demo" "compact_ok env_demo A"
  by (simp_all add: env_ok_def env_demo_def PAGE_OWNER_CACHE_def compact_ok_def)

section \<open>Properties\<close>

text \<open>
  C4. A page is never handed out twice: in every state that clients can reach by allocating pages
  and freeing pages they hold, on any CPU, an allocation stops no machine, and a page it returns is
  a page of the machine, held by no client, cleared to zero; freeing a page that a client
  holds stops no machine either. When no page is returned, the free lists and the cache of the
  CPU are empty and every cache whose lock is free holds at most one page.
\<close>

theorem pmm_no_double_allocation:
  assumes "pmm_wf s0" and "pmm_step\<^sup>*\<^sup>* (s0, {}) (s, H)" and "env_ok env" and "compact_ok env H"
  shows "(\<exists>p s'. pmm_alloc_page env s = Some (p, s') \<and>
      (if p = 0 then starved env s
       else p \<notin> H \<and> page_aligned p \<and> page_index p < total_page_count s \<and>
         (\<forall>i < 512. page_mem s' (p + 8 * of_nat i) = 0))) \<and>
    (\<forall>q \<in> H. \<exists>s'. pmm_free_page env q s = Some s' \<and> q \<in> free s')"
proof -
  have inv: "pmm_wf s" "H \<subseteq> owned s" using pmm_reach_inv [OF assms(2,1)] by auto
  then have "compact_ok env (owned s)" using assms(4) by (auto simp: compact_ok_def)
  from alloc_page_spec [OF inv(1) assms(3) this] obtain p s' where p: "pmm_alloc_page env s = Some (p, s')"
    "if p = 0 then starved env s else p \<in> free s \<and> (\<forall>i < 512. page_mem s' (p + 8 * of_nat i) = 0)"
    by (metis (no_types, lifting))
  have "p \<notin> H" if "p \<in> free s" using that inv free_held_disjoint [OF inv(1)] by (auto simp: owned_def)
  moreover have "page_ok s p" if "p \<in> free s" using that pmm_wfD(3,6) [OF inv(1)] by (auto simp: free_def)
  moreover have "\<exists>s'. pmm_free_page env q s = Some s' \<and> q \<in> free s'" if "q \<in> H" for q
    using free_page_spec [OF inv(1) assms(3), of q] that inv(2) by (auto simp: takes_def)
  ultimately show ?thesis using p by (auto simp: page_ok_def)
qed

theorem pmm_no_double_allocation_witness:
  "\<exists>p s p' s'. pmm_alloc_page env_demo pmm_demo = Some (p, s) \<and> p \<noteq> 0 \<and>
     pmm_alloc_page env_demo s = Some (p', s') \<and> p' \<noteq> p"
proof -
  have "\<not> starved env_demo pmm_demo" by (simp add: starved_def demo_listed)
  with alloc_page_spec [OF demo_wf env_demo_ok] obtain p s where
    p: "pmm_alloc_page env_demo pmm_demo = Some (p, s)" "p \<noteq> 0" by (metis (no_types, lifting))
  have "pmm_step\<^sup>*\<^sup>* (pmm_demo, {}) (s, insert p {})"
    by (rule r_into_rtranclp, rule pmm_step.alloc [OF env_demo_ok p])
  from pmm_no_double_allocation [OF demo_wf this env_demo_ok] p show ?thesis by (force split: if_splits)
qed

end
