(* ===== verification/Pmm_Runs.thy ===== *)
theory Pmm_Runs
  imports Pmm_Props
begin

text \<open>
  Contiguous allocation by the scan of the bitmap, allocation from the node lists, and the
  initialisation of the allocator.
\<close>

section \<open>The scan of the bitmap\<close>

abbreviation clear :: "pmm \<Rightarrow> nat \<Rightarrow> bool" where
  "clear s k \<equiv> \<not> bitmap_test (of_nat k) s"

text \<open>The state of the scan before index \<open>i\<close>: the clear pages just below \<open>i\<close>.\<close>

definition scan_inv :: "pmm \<Rightarrow> nat \<Rightarrow> nat \<Rightarrow> nat \<Rightarrow> nat \<Rightarrow> bool" where
  "scan_inv s c i first found \<longleftrightarrow> found \<le> c \<and>
     (found \<noteq> 0 \<longrightarrow> first + found = i \<and> (\<forall>k. first \<le> k \<longrightarrow> k < i \<longrightarrow> clear s k) \<and>
        (first = 0 \<or> \<not> clear s (first - 1))) \<and>
     (found = 0 \<longrightarrow> i = 0 \<or> \<not> clear s (i - 1)) \<and>
     (found < c \<longrightarrow> (\<forall>a. a + c \<le> i \<longrightarrow> (\<exists>k. a \<le> k \<and> k < a + c \<and> \<not> clear s k)))"

lemma scan_inv_used:
  assumes "scan_inv s c i first found" and "found < c" and "\<not> clear s i"
  shows "scan_inv s c (Suc i) first' 0"
proof -
  have "\<exists>k. a \<le> k \<and> k < a + c \<and> \<not> clear s k" if "a + c \<le> Suc i" for a
  proof (cases "a + c \<le> i")
    case True
    with assms(1,2) show ?thesis by (simp add: scan_inv_def)
  next
    case False
    then have "a + c = Suc i" using that by simp
    with assms(2,3) show ?thesis by (intro exI [of _ i]) auto
  qed
  with assms(3) show ?thesis by (simp add: scan_inv_def)
qed

lemma scan_inv_clear:
  assumes inv: "scan_inv s c i first found" and f: "found < c" and i: "clear s i"
  shows "scan_inv s c (Suc i) (if found = 0 then i else first) (Suc found)"
proof -
  let ?f = "if found = 0 then i else first"
  have run: "?f + Suc found = Suc i" "\<forall>k. ?f \<le> k \<longrightarrow> k < Suc i \<longrightarrow> clear s k" "?f = 0 \<or> \<not> clear s (?f - 1)"
    using inv i by (auto simp: scan_inv_def less_Suc_eq split: if_splits)
  have "\<exists>k. a \<le> k \<and> k < a + c \<and> \<not> clear s k" if "Suc found < c" "a + c \<le> Suc i" for a
  proof (cases "a + c \<le> i")
    case True
    with inv f show ?thesis by (simp add: scan_inv_def)
  next
    case False
    with that run(1) have "a < ?f" "?f - 1 < a + c" by auto
    with run(3) show ?thesis by (intro exI [of _ "?f - 1"]) auto
  qed
  with run f show ?thesis by (simp add: scan_inv_def)
qed

lemma bitmap_scan_inv:
  assumes "scan_inv s (unat count) i (unat first) (unat found)" and "i \<le> N" and "N < 2 ^ 64"
    and "bitmap_scan s count [i..<N] first found = (f, n)"
  shows "\<exists>j \<le> N. scan_inv s (unat count) j (unat f) (unat n) \<and> (n < count \<longrightarrow> j = N)"
  using assms
proof (induction "N - i" arbitrary: i first found)
  case 0
  then show ?case by auto
next
  case (Suc m)
  then have l: "[i..<N] = i # [Suc i..<N]" and m: "m = N - Suc i" "Suc i \<le> N" "i < N" by (auto simp: upt_rec)
  show ?case
  proof (cases "found < count")
    case False
    with Suc.prems l show ?thesis by (intro exI [of _ i]) auto
  next
    case True
    then have fc: "unat found < unat count" by (simp add: word_less_nat_alt)
    show ?thesis
    proof (cases "bitmap_test (of_nat i) s")
      case used: True
      have "scan_inv s (unat count) (Suc i) (unat first) (unat (0 :: u32))"
        using scan_inv_used [OF Suc.prems(1) fc] used by simp
      from Suc.hyps(1) [OF m(1) this m(2) Suc.prems(3)] Suc.prems(4) l True used show ?thesis by simp
    next
      case False
      have "unat (found + 1) = Suc (unat found)"
        using fc unat_u32_less [of count] by (simp add: unat_word_ariths)
      moreover have "unat (of_nat i :: u64) = i" using m(3) Suc.prems(3) by (simp add: unsigned_of_nat take_bit_nat_eq_self)
      moreover have "found = 0 \<longleftrightarrow> unat found = 0" by (simp add: unat_eq_0)
      ultimately have "scan_inv s (unat count) (Suc i) (unat (if found = 0 then of_nat i else first)) (unat (found + 1))"
        using scan_inv_clear [OF Suc.prems(1) fc] False by auto
      from Suc.hyps(1) [OF m(1) this m(2) Suc.prems(3)] Suc.prems(4) l True False show ?thesis by simp
    qed
  qed
qed

lemma bitmap_scan_spec:
  assumes "count \<noteq> 0" and "bitmap_scan s count [0..<unat (total_page_count s)] 0 0 = (first, found)"
  shows "found < count \<Longrightarrow> a + unat count \<le> unat (total_page_count s) \<Longrightarrow> \<exists>k. a \<le> k \<and> k < a + unat count \<and> \<not> clear s k"
    "\<not> found < count \<Longrightarrow> unat first + unat count \<le> unat (total_page_count s) \<and>
      (\<forall>k. unat first \<le> k \<longrightarrow> k < unat first + unat count \<longrightarrow> clear s k)"
proof -
  have c: "unat count \<noteq> 0" using assms(1) by (simp add: unat_eq_0)
  have "scan_inv s (unat count) 0 (unat (0 :: u64)) (unat (0 :: u32))" using c by (simp add: scan_inv_def)
  from bitmap_scan_inv [OF this _ unat_u64_less assms(2)] obtain j where
    j: "j \<le> unat (total_page_count s)" "scan_inv s (unat count) j (unat first) (unat found)"
      "found < count \<longrightarrow> j = unat (total_page_count s)" by auto
  show "found < count \<Longrightarrow> a + unat count \<le> unat (total_page_count s) \<Longrightarrow> \<exists>k. a \<le> k \<and> k < a + unat count \<and> \<not> clear s k"
    using j by (simp add: scan_inv_def word_less_nat_alt)
  assume "\<not> found < count"
  then have "unat found = unat count" using j(2) by (simp add: scan_inv_def word_less_nat_alt)
  then show "unat first + unat count \<le> unat (total_page_count s) \<and>
      (\<forall>k. unat first \<le> k \<longrightarrow> k < unat first + unat count \<longrightarrow> clear s k)"
    using j(1,2) c by (simp add: scan_inv_def)
qed


section \<open>Claiming a run\<close>

lemma run_index:
  assumes "unat (first :: u64) + unat count \<le> unat (t :: u64)"
  shows "(\<exists>j \<in> set [0..<unat (count :: u32)]. i = first + of_nat j) \<longleftrightarrow> first \<le> i \<and> i < first + ucast count"
proof -
  have b: "unat (first + of_nat j) = unat first + j" if "j \<le> unat count" for j
    using that assms unat_u64_less [of t] by (simp add: unat_word_ariths unsigned_of_nat take_bit_nat_eq_self)
  have e: "unat (first + ucast count) = unat first + unat count"
    using b [of "unat count"] by (metis le_refl of_nat_unat)
  show ?thesis
  proof
    assume "\<exists>j \<in> set [0..<unat count]. i = first + of_nat j"
    then obtain j where "j < unat count" "i = first + of_nat j" by auto
    with b [of j] e show "first \<le> i \<and> i < first + ucast count" by (simp add: word_le_nat_alt word_less_nat_alt)
  next
    assume "first \<le> i \<and> i < first + ucast count"
    then have "unat i - unat first < unat count" "unat first \<le> unat i"
      using e by (auto simp: word_le_nat_alt word_less_nat_alt)
    moreover from this have "i = first + of_nat (unat i - unat first)"
      using b [of "unat i - unat first"] by (simp add: word_unat_eq_iff)
    ultimately show "\<exists>j \<in> set [0..<unat count]. i = first + of_nat j"
      by (intro bexI [of _ "unat i - unat first"]) simp_all
  qed
qed

lemma claim_pages_spec:
  assumes "\<forall>j \<in> set js. page_owner s (first + of_nat j) \<in> {PAGE_OWNER_UNSET, current_thread env} \<and>
      first + of_nat j < total_page_count s"
  shows "\<exists>s'. claim_pages env first js s = Some s' \<and>
    (\<forall>i. bitmap_test i s' \<longleftrightarrow> (\<exists>j \<in> set js. i = first + of_nat j) \<or> bitmap_test i s) \<and>
    (\<forall>i. page_owner s' i = (if \<exists>j \<in> set js. i = first + of_nat j then current_thread env else page_owner s i)) \<and>
    node_free_lists s' = node_free_lists s \<and> node_free_counts s' = node_free_counts s \<and> cpu_cache s' = cpu_cache s \<and>
    total_page_count s' = total_page_count s \<and> page_mem s' = page_mem s"
  using assms
proof (induction js arbitrary: s)
  case Nil
  then show ?case by simp
next
  case (Cons j js)
  let ?i = "first + of_nat j"
  let ?s1 = "(bitmap_set ?i s)\<lparr>page_owner := (page_owner s)(?i := current_thread env)\<rparr>"
  have "owner_set ?i (current_thread env) (bitmap_set ?i s) = Some ?s1"
    using Cons.prems by (auto simp: owner_set_def Let_def)
  moreover have "\<forall>j \<in> set js. page_owner ?s1 (first + of_nat j) \<in> {PAGE_OWNER_UNSET, current_thread env} \<and>
      first + of_nat j < total_page_count ?s1" using Cons.prems by auto
  ultimately show ?case using Cons.IH [of ?s1] by fastforce
qed

text \<open>The pages of a run, by address.\<close>

definition run_pages :: "pmm \<Rightarrow> u64 \<Rightarrow> u32 \<Rightarrow> u64 set" where
  "run_pages s first count = {p. page_ok s p \<and> first \<le> page_index p \<and> page_index p < first + ucast count}"

lemma disjoint_lists_filter: "disjoint_lists f \<Longrightarrow> disjoint_lists (\<lambda>n. filter P (f n))"
  unfolding disjoint_lists_def by auto

lemma length_filter_word: "of_nat (length xs) - of_nat (length (filter P xs)) = (of_nat (length (filter (\<lambda>x. \<not> P x) xs)) :: u64)"
  by (metis add_diff_cancel_left' of_nat_add sum_length_filter_compl)

text \<open>The state \<open>s'\<close> after the bits and owners of a clear run are set.\<close>

definition claimed :: "pmm_env \<Rightarrow> u64 \<Rightarrow> u32 \<Rightarrow> pmm \<Rightarrow> pmm \<Rightarrow> bool" where
  "claimed env first count s s' \<longleftrightarrow>
     (\<forall>i. bitmap_test i s' \<longleftrightarrow> (first \<le> i \<and> i < first + ucast count) \<or> bitmap_test i s) \<and>
     (\<forall>i. page_owner s' i = (if first \<le> i \<and> i < first + ucast count then current_thread env else page_owner s i)) \<and>
     node_free_lists s' = node_free_lists s \<and> node_free_counts s' = node_free_counts s \<and> cpu_cache s' = cpu_cache s \<and>
     total_page_count s' = total_page_count s \<and> page_mem s' = page_mem s"

lemma remove_fields:
  assumes wf: "pmm_wf s" and cl: "claimed env first count s s'"
  defines "t \<equiv> remove_from_node_lists first count s'"
  shows "cpu_cache t = cpu_cache s" "total_page_count t = total_page_count s"
    "bitmap_test i t \<longleftrightarrow> (first \<le> i \<and> i < first + ucast count) \<or> bitmap_test i s"
    "page_owner t i = (if first \<le> i \<and> i < first + ucast count then current_thread env else page_owner s i)"
    "node_free_lists t = (\<lambda>n. filter (\<lambda>p. \<not> (first \<le> page_index p \<and> page_index p < first + ucast count)) (node_free_lists s n))"
    "node_free_counts t m = of_nat (length (node_free_lists t m))"
    "listed t = listed s - run_pages s first count" "page_ok t p = page_ok s p"
proof -
  let ?in = "\<lambda>i. first \<le> i \<and> i < first + ucast count"
  have b: "bitmap_test i t = bitmap_test i s'" for i by (simp add: t_def remove_from_node_lists_def Let_def bitmap_test_def)
  show "cpu_cache t = cpu_cache s" and tot: "total_page_count t = total_page_count s"
    and "page_owner t i = (if ?in i then current_thread env else page_owner s i)"
    and "bitmap_test i t \<longleftrightarrow> ?in i \<or> bitmap_test i s"
    using cl by (simp_all add: b claimed_def, simp_all add: t_def remove_from_node_lists_def Let_def)
  show l: "node_free_lists t = (\<lambda>n. filter (\<lambda>p. \<not> ?in (page_index p)) (node_free_lists s n))"
    using cl pmm_wfD(11) [OF wf] by (auto simp: t_def claimed_def remove_from_node_lists_def Let_def fun_eq_iff not_less)
  show "node_free_counts t m = of_nat (length (node_free_lists t m))"
    unfolding l using cl pmm_wfD(10,11) [OF wf, of m]
    by (auto simp: t_def claimed_def remove_from_node_lists_def Let_def not_less length_filter_word)
  have "p \<in> listed t \<longleftrightarrow> p \<in> listed s \<and> \<not> ?in (page_index p)" for p by (simp add: listed_def l)
  with pmm_wfD(3) [OF wf] show "listed t = listed s - run_pages s first count" by (auto simp: run_pages_def)
  show "page_ok t p = page_ok s p" by (simp add: page_ok_def tot)
qed

lemma remove_run:
  assumes wf: "pmm_wf s" and cl: "claimed env first count s s'" and env: "env_ok env"
    and clr: "\<And>i. first \<le> i \<and> i < first + ucast count \<Longrightarrow> \<not> bitmap_test i s"
  shows "pmm_wf (remove_from_node_lists first count s')"
    "free (remove_from_node_lists first count s') = free s - run_pages s first count"
    "owned (remove_from_node_lists first count s') = owned s \<union> run_pages s first count"
    "run_pages s first count \<inter> held s = {}"
proof -
  let ?in = "\<lambda>i. first \<le> i \<and> i < first + ucast count" and ?R = "run_pages s first count"
  let ?t = "remove_from_node_lists first count s'"
  note f = remove_fields [OF wf cl]
  have R: "p \<in> ?R \<longleftrightarrow> page_ok s p \<and> ?in (page_index p)" for p by (simp add: run_pages_def)
  have C: "cached ?t = cached s" by (simp add: cached_def f(1))
  have RC: "?R \<inter> cached s = {}" using clr pmm_wfD(7) [OF wf] R by blast
  have CR: "\<not> ?in (page_index p)" if "p \<in> cached s" for p using that RC R pmm_wfD(6) [OF wf] by blast
  have "disjoint_lists (node_free_lists ?t)" unfolding f(5) by (rule disjoint_lists_filter [OF pmm_wfD(1) [OF wf]])
  moreover have "page_ok ?t p \<and> \<not> bitmap_test (page_index p) ?t" if "p \<in> listed ?t" for p
    using that pmm_wfD(3,4) [OF wf, of p] unfolding f(7) f(8) f(3) Diff_iff R by blast
  moreover have "page_owner ?t i = PAGE_OWNER_UNSET" if "i < total_page_count ?t" "\<not> bitmap_test i ?t" for i
    using that pmm_wfD(12) [OF wf, of i] unfolding f(3) f(4) f(2) by presburger
  moreover have "page_ok ?t p \<and> bitmap_test (page_index p) ?t \<and> page_owner ?t (page_index p) = PAGE_OWNER_CACHE"
    if "p \<in> cached ?t" for p
    using that pmm_wfD(6-8) [OF wf, of p] CR [of p] unfolding C f(8) f(3) f(4) by presburger
  moreover have "node_free_lists ?t m = []" if "m \<ge> MAX_NUMA_NODES" for m using pmm_wfD(11) [OF wf that] by (simp add: f(5))
  ultimately show "pmm_wf ?t" using f(6) pmm_wfD(2,9) [OF wf] unfolding pmm_wf_def f(1) by blast
  show "free ?t = free s - ?R" using f(7) C RC by (auto simp: free_def)
  have "p \<in> owned ?t \<longleftrightarrow> p \<in> owned s \<or> p \<in> ?R" for p
    using env RC clr [of "page_index p"] R [of p] C unfolding owned_def held_def mem_Collect_eq f(8) f(3) f(4)
    by (auto simp: env_ok_def)
  then show "owned ?t = owned s \<union> ?R" by blast
  show "?R \<inter> held s = {}" using clr by (auto simp: R held_def)
qed

lemma claim_run:
  assumes wf: "pmm_wf s" and le: "unat first + unat count \<le> unat (total_page_count s)"
    and cl: "\<forall>k. unat first \<le> k \<longrightarrow> k < unat first + unat count \<longrightarrow> clear s k"
  shows "first \<le> i \<and> i < first + ucast count \<Longrightarrow> \<not> bitmap_test i s"
    "\<exists>s'. claim_pages env first [0..<unat count] s = Some s' \<and> claimed env first count s s'"
proof -
  note idx = run_index [OF le]
  have b: "unat (first + of_nat j) = unat first + j" if "j < unat count" for j
    using that le unat_u64_less [of "total_page_count s"] by (simp add: unat_word_ariths unsigned_of_nat take_bit_nat_eq_self)
  have clr: "i < total_page_count s \<and> \<not> bitmap_test i s" if "first \<le> i \<and> i < first + ucast count" for i
  proof -
    from that idx [of i] obtain j where "j < unat count" "i = first + of_nat j" by auto
    with b [of j] le cl [rule_format, of "unat i"] show ?thesis by (simp add: word_less_nat_alt)
  qed
  then show "first \<le> i \<and> i < first + ucast count \<Longrightarrow> \<not> bitmap_test i s" by blast
  have "\<forall>j \<in> set [0..<unat count]. page_owner s (first + of_nat j) \<in> {PAGE_OWNER_UNSET, current_thread env} \<and>
      first + of_nat j < total_page_count s"
    using clr pmm_wfD(12) [OF wf] idx by blast
  from claim_pages_spec [OF this] show "\<exists>s'. claim_pages env first [0..<unat count] s = Some s' \<and> claimed env first count s s'"
    unfolding idx claimed_def by blast
qed

section \<open>Clearing a run\<close>

lemma zero_fields [simp]:
  "pmm_wf (fold (\<lambda>j. page_zero (a j)) js s) = pmm_wf s" "free (fold (\<lambda>j. page_zero (a j)) js s) = free s"
  "owned (fold (\<lambda>j. page_zero (a j)) js s) = owned s" "bitmap_test i (fold (\<lambda>j. page_zero (a j)) js s) = bitmap_test i s"
  "total_page_count (fold (\<lambda>j. page_zero (a j)) js s) = total_page_count s"
  by (induction js arbitrary: s) simp_all

lemma fold_zero_mem:
  "page_mem s x = 0 \<or> (\<exists>j \<in> set js. \<exists>i < 512. x = a j + 8 * of_nat i) \<Longrightarrow> page_mem (fold (\<lambda>j. page_zero (a j)) js s) x = 0"
proof (induction js arbitrary: s)
  case (Cons j js)
  then show ?case by (auto simp: page_zero_def)
qed simp

lemma page_of_index:
  assumes "i < (2 ^ 52 :: u64)"
  shows "page_aligned (i * 4096)" "page_index (i * 4096) = i"
proof -
  have "unat (i * 4096) = unat i * 4096" using assms by (simp add: unat_word_ariths word_less_nat_alt)
  then show "page_aligned (i * 4096)" "page_index (i * 4096) = i"
    unfolding page_aligned_mod page_index_def by (simp_all add: word_unat_eq_iff unat_mod unat_div)
qed

lemma run_pages_image:
  assumes le: "unat first + unat count \<le> unat (total_page_count s)" and small: "total_page_count s \<le> 2 ^ 52"
    and "first \<noteq> 0"
  shows "run_pages s first count = (\<lambda>j. first * 4096 + 4096 * of_nat j) ` {..<unat count}"
proof -
  have "p \<in> run_pages s first count \<longleftrightarrow> (\<exists>j \<in> set [0..<unat count]. p = (first + of_nat j) * 4096)" for p
  proof
    assume p: "p \<in> run_pages s first count"
    then obtain j where j: "j \<in> set [0..<unat count]" "page_index p = first + of_nat j"
      using run_index [OF le, of "page_index p"] by (auto simp: run_pages_def)
    moreover have "p = page_index p * 4096"
      using p div_mult_mod_eq [of p 4096] by (simp add: run_pages_def page_ok_def page_aligned_mod page_index_def)
    ultimately show "\<exists>j \<in> set [0..<unat count]. p = (first + of_nat j) * 4096" by metis
  next
    assume "\<exists>j \<in> set [0..<unat count]. p = (first + of_nat j) * 4096"
    then obtain j where j: "j \<in> set [0..<unat count]" "p = (first + of_nat j) * 4096" by blast
    let ?i = "first + of_nat j"
    have i: "first \<le> ?i \<and> ?i < first + ucast count" using run_index [OF le, of ?i] j(1) by blast
    moreover have "unat (first + ucast count) = unat first + unat count"
      using le unat_u64_less [of "total_page_count s"] by (simp add: unat_word_ariths unsigned_ucast_eq take_bit_nat_eq_self)
    ultimately have t: "?i < total_page_count s" using le by (auto simp: word_less_nat_alt)
    then have "?i < 2 ^ 52" using small by (rule less_le_trans)
    note pi = page_of_index [OF this]
    moreover have "?i \<noteq> 0" using i assms(3) word_le_0_iff by metis
    moreover from this pi have "p \<noteq> 0" using j(2) by (auto simp: page_index_def)
    ultimately show "p \<in> run_pages s first count" using i t j(2) by (simp add: run_pages_def page_ok_def)
  qed
  moreover have "p = (first + of_nat j) * 4096 \<longleftrightarrow> p = first * 4096 + 4096 * of_nat j" for p j
    by (simp add: algebra_simps)
  ultimately show ?thesis by (simp add: set_eq_iff image_iff atLeast0LessThan)
qed

section \<open>Page 0\<close>

lemma page_ok_index: "page_ok s p \<Longrightarrow> page_index p \<noteq> 0"
  unfolding page_ok_def page_aligned_mod page_index_def by (metis add_0 div_mult_mod_eq mult_zero_left)

lemma flush_pages_bit:
  assumes "flush_pages env ps s = Some s'" and "\<forall>p \<in> set ps. page_index p \<noteq> i"
  shows "bitmap_test i s' = bitmap_test i s"
  using assms
proof (induction ps arbitrary: s)
  case (Cons p ps)
  have "bitmap_test i s1 = bitmap_test i s" if "flush_page env p s = Some s1" for s1
    using that Cons.prems(2) by (auto simp: flush_page_def Let_def owner_set_def split: if_splits bind_splits)
  with Cons show ?case by (auto split: bind_splits)
qed simp

lemma flush_caches_bit0:
  assumes "pmm_wf s" and "env_ok env" and "flush_caches env cs s = Some s'"
  shows "bitmap_test 0 s' = bitmap_test 0 s"
  using assms
proof (induction cs arbitrary: s)
  case (Cons c cs)
  obtain s1 where s1: "flush_cache env c s = Some s1" "pmm_wf s1"
    using flush_cache_spec [OF Cons.prems(1,2), of c] by (auto simp: quiet_def)
  have "\<forall>p \<in> set (cpu_cache s c). page_index p \<noteq> 0"
    using pmm_wfD(6) [OF Cons.prems(1) in_cached] page_ok_index by blast
  with s1(1) have "bitmap_test 0 s1 = bitmap_test 0 s"
    by (auto simp: flush_cache_def flush_pages_bit split: bind_splits)
  with Cons.IH [OF s1(2) Cons.prems(2)] Cons.prems(3) s1(1) show ?case by simp
qed simp

section \<open>Contiguous allocation\<close>

lemma alloc_pages_spec:
  assumes wf: "pmm_wf s" and env: "env_ok env" and "count \<noteq> 0"
    and z: "bitmap_test 0 s" and small: "total_page_count s \<le> 2 ^ 52"
  shows "\<exists>p s'. pmm_alloc_pages env count s = Some (p, s') \<and> pmm_wf s' \<and> bitmap_test 0 s' \<and> total_page_count s' = total_page_count s \<and>
    (if p = 0 then quiet s s' \<and> (\<forall>c < smp_nr_cpus env. cpu_cache s' c = []) \<and>
       (\<forall>a. a + unat count \<le> unat (total_page_count s) \<longrightarrow> (\<exists>k. a \<le> k \<and> k < a + unat count \<and> bitmap_test (of_nat k) s'))
     else let R = (\<lambda>j. p + 4096 * of_nat j) ` {..<unat count} in
       page_aligned p \<and> R \<inter> held s = {} \<and> owned s' = owned s \<union> R \<and> free s' = free s - R \<and>
       (\<forall>q \<in> R. page_ok s q \<and> (\<forall>i < 512. page_mem s' (q + 8 * of_nat i) = 0)))"
proof -
  obtain s1 where s1: "flush_caches env [0..<smp_nr_cpus env] s = Some s1" "quiet s s1"
      "\<forall>c < smp_nr_cpus env. cpu_cache s1 c = []"
    using flush_caches_spec [OF wf env, of "[0..<smp_nr_cpus env]"] by auto
  have wf1: "pmm_wf s1" and same: "free s1 = free s" "held s1 = held s" "owned s1 = owned s"
      "total_page_count s1 = total_page_count s"
    using s1(2) by (simp_all add: quiet_def)
  have z1: "bitmap_test 0 s1" using flush_caches_bit0 [OF wf env s1(1)] z by simp
  obtain first found where sc: "bitmap_scan s1 count [0..<unat (total_page_count s1)] 0 0 = (first, found)"
    by fastforce
  note scan = bitmap_scan_spec [OF assms(3) sc]
  show ?thesis
  proof (cases "found < count")
    case True
    with s1 sc wf1 z1 scan(1) assms(3) same show ?thesis by (auto simp: pmm_alloc_pages_def)
  next
    case False
    then have le: "unat first + unat count \<le> unat (total_page_count s1)"
      and cl: "\<forall>k. unat first \<le> k \<longrightarrow> k < unat first + unat count \<longrightarrow> clear s1 k" using scan(2) by simp_all
    have f0: "first \<noteq> 0" using cl z1 assms(3) by (auto simp: unat_gt_0)
    obtain s2 where s2: "claim_pages env first [0..<unat count] s1 = Some s2" "claimed env first count s1 s2"
      using claim_run(2) [OF wf1 le cl] by blast
    let ?R = "run_pages s1 first count" and ?t = "remove_from_node_lists first count s2"
    let ?s = "zero_pages first count ?t" and ?p = "first * 4096"
    note rm = remove_run [OF wf1 s2(2) env claim_run(1) [OF wf1 le cl]]
    have res: "pmm_alloc_pages env count s = Some (?p, ?s)"
      using s1 sc s2 False assms(3) by (simp add: pmm_alloc_pages_def)
    have R: "?R = (\<lambda>j. ?p + 4096 * of_nat j) ` {..<unat count}"
      using run_pages_image [OF le _ f0] same small by simp
    have ok: "page_ok s q" if "q \<in> ?R" for q using that same by (simp add: run_pages_def page_ok_def)
    have "?p \<in> ?R" unfolding R using assms(3) by (auto simp: unat_gt_0 intro!: image_eqI [of _ _ 0])
    then have p: "page_ok s ?p" by (rule ok)
    have zero: "page_mem ?s (q + 8 * of_nat i) = 0" if "q \<in> ?R" "i < 512" for q i
    proof -
      from that R obtain j where "j < unat count" "q = (first + of_nat j) * 4096" by (auto simp: algebra_simps)
      with that(2) show ?thesis unfolding zero_pages_def by (intro fold_zero_mem) auto
    qed
    have p: "?p \<noteq> 0" "page_aligned ?p" using p by (simp_all add: page_ok_def)
    have "bitmap_test 0 ?t" "total_page_count ?t = total_page_count s" using remove_fields(2,3) [OF wf1 s2(2)] z1 same by simp_all
    then have z2: "bitmap_test 0 ?s" "total_page_count ?s = total_page_count s" by (simp_all add: zero_pages_def)
    have st: "pmm_wf ?s" "owned ?s = owned s \<union> ?R" "free ?s = free s - ?R"
      using rm same by (simp_all add: zero_pages_def)
    show ?thesis
      by (intro exI [of _ ?p] exI [of _ ?s] conjI res st(1) z2)
        (use st(2,3) p rm(4) same(2) ok zero in \<open>simp only: if_False Let_def R [symmetric], blast\<close>)
  qed
qed

section \<open>Properties\<close>

text \<open>
  C29. Contiguous allocation. On a well-formed allocator, \<open>pmm_alloc_pages\<close> stops no machine. When
  it returns an address, the \<open>count\<close> pages from it on were held by nobody, now belong to the
  caller and are cleared to zero, and no other page changes hands. When it returns 0, nothing has
  changed for the clients, and every range of \<open>count\<close> pages has a used one, even with the caches of
  the running CPUs emptied.
\<close>

theorem pmm_alloc_pages_contiguous:
  assumes wf: "pmm_wf s" and env: "env_ok env" and "count \<noteq> 0"
    and z: "bitmap_test 0 s" and small: "total_page_count s \<le> 2 ^ 52"
  shows "\<exists>p s'. pmm_alloc_pages env count s = Some (p, s') \<and> pmm_wf s' \<and>
    (if p = 0 then quiet s s' \<and> (\<forall>c < smp_nr_cpus env. cpu_cache s' c = []) \<and>
       (\<forall>a. a + unat count \<le> unat (total_page_count s) \<longrightarrow> (\<exists>k. a \<le> k \<and> k < a + unat count \<and> bitmap_test (of_nat k) s'))
     else let R = (\<lambda>j. p + 4096 * of_nat j) ` {..<unat count} in
       page_aligned p \<and> R \<inter> held s = {} \<and> owned s' = owned s \<union> R \<and> free s' = free s - R \<and>
       (\<forall>q \<in> R. page_ok s q \<and> (\<forall>i < 512. page_mem s' (q + 8 * of_nat i) = 0)))"
  using alloc_pages_spec [OF assms] by blast

theorem pmm_alloc_pages_contiguous_witness:
  "\<exists>p s'. pmm_alloc_pages env_demo 2 pmm_demo = Some (p, s') \<and> p = 0x5000 \<and>
     owned s' = owned pmm_demo \<union> {0x5000, 0x6000} \<and> page_mem s' 0x6008 = 0"
proof -
  have st: "pmm_wf pmm_demo" "env_ok env_demo" "bitmap_test 0 pmm_demo" "total_page_count pmm_demo \<le> 2 ^ 52"
    using demo_wf env_demo_ok demo_bits(3) [of 0] by (simp_all add: pmm_demo_def)
  have fl: "flush_caches env_demo [0..<smp_nr_cpus env_demo] pmm_demo = Some pmm_demo"
    by (simp add: flush_cache_def set_cache_def env_demo_def pmm_demo_def fun_upd_idem)
  have sc: "bitmap_scan pmm_demo 2 [0..<unat (total_page_count pmm_demo)] 0 0 = (5, 2)"
    using demo_bits(1,2) demo_bits(3) [of 0] demo_bits(3) [of 1] demo_bits(3) [of 2] demo_bits(3) [of 3] demo_bits(3) [of 4]
    by (simp add: upt_rec pmm_demo_def)
  have two: "{..<2 :: nat} = {0, 1}" by auto
  obtain p s' where r: "pmm_alloc_pages env_demo 2 pmm_demo = Some (p, s')"
    using pmm_alloc_pages_contiguous [OF st(1,2) _ st(3,4), of 2] by auto
  moreover from this have p: "p = 0x5000" using fl sc by (simp add: pmm_alloc_pages_def split: bind_splits)
  ultimately have "owned s' = owned pmm_demo \<union> {0x5000, 0x6000}" "\<forall>i < 512. page_mem s' (0x6000 + 8 * of_nat i) = 0"
    using pmm_alloc_pages_contiguous [OF st(1,2) _ st(3,4), of 2] 
    unfolding r p Let_def option.inject prod.inject by (auto simp: two)
  moreover from this(2) have "page_mem s' (0x6000 + 8 * of_nat 1) = 0" by (rule allE [of _ 1]) simp
  ultimately show ?thesis using r p by simp
qed

end
