(* ===== verification/Pmm_Boot.thy ===== *)
theory Pmm_Boot
  imports Pmm_Runs
begin

text \<open>
  The initialisation of the page allocator establishes its invariant, so that the properties of
  the running allocator hold from the boot on; and two places where the code does not do what it
  means to: the count of free pages after \<open>pmm_init\<close>, and the address that
  \<open>pmm_alloc_node_pages\<close> returns.
\<close>

section \<open>Listing the available memory\<close>

definition listable :: "pmm \<Rightarrow> u64 \<Rightarrow> bool" where
  "listable s p \<longleftrightarrow> page_index p < total_page_count s \<and> \<not> bitmap_test (page_index p) s"

lemma listable_push [simp]: "listable (list_push nd q s) = listable s"
  by (simp add: listable_def fun_eq_iff)

lemma list_push_lists [simp]:
  "node_free_lists (list_push nd p s) = (node_free_lists s)(nd := p # node_free_lists s nd)"
  "node_free_counts (list_push nd p s) = (node_free_counts s)(nd := node_free_counts s nd + 1)"
  "list_free_count (list_push nd p s) = list_free_count s + 1"
  by (simp_all add: list_push_def)

lemma add_loop_lists:
  "node_free_lists (add_loop ps s) = (node_free_lists s)(0 := rev (filter (listable s) ps) @ node_free_lists s 0)"
  "node_free_counts (add_loop ps s) = (node_free_counts s)(0 := node_free_counts s 0 + of_nat (length (filter (listable s) ps)))"
  "list_free_count (add_loop ps s) = list_free_count s + of_nat (length (filter (listable s) ps))"
  by (induction ps arbitrary: s) (auto simp: listable_def [symmetric] fun_eq_iff)

lemma add_loop_fields [simp]:
  "cpu_cache (add_loop ps s) = cpu_cache s" "total_page_count (add_loop ps s) = total_page_count s"
  "page_owner (add_loop ps s) = page_owner s" "bitmap_test i (add_loop ps s) = bitmap_test i s"
  "total_memory (add_loop ps s) = total_memory s"
  by (induction ps arbitrary: s) (simp_all add: list_push_def, simp_all add: bitmap_test_def)

lemma add_loop_append: "add_loop (ps @ qs) s = add_loop qs (add_loop ps s)"
  by (induction ps arbitrary: s) simp_all

text \<open>The pages of the regions that the memory map of the machine reports as available.\<close>

definition entry_pages :: "hal_mmap_entry \<Rightarrow> u64 list" where
  "entry_pages e = (if mm_type e = 1 \<and> mm_start e < mm_end e then region_pages (mm_start e) (mm_end e) else [])"

definition avail_pages :: "hal_mmap_entry list \<Rightarrow> u64 \<Rightarrow> u64 list" where
  "avail_pages entries mem =
     (if entries = [] then (if 0x100000 < mem then region_pages 0x100000 mem else []) else concat (map entry_pages entries))"

lemma parse_mb_mmap_add: "parse_mb_mmap entries s = add_loop (avail_pages entries (total_memory s)) s"
proof -
  have "fold (\<lambda>e s. if mm_type e = 1 then add_region_to_free_list (mm_start e) (mm_end e) s else s) es s =
      add_loop (concat (map entry_pages es)) s" for es s
    by (induction es arbitrary: s) (auto simp: add_loop_append entry_pages_def add_region_to_free_list_def)
  then show ?thesis by (auto simp: parse_mb_mmap_def avail_pages_def add_region_to_free_list_def)
qed

lemma page_aligned_dvd: "page_aligned p \<longleftrightarrow> 4096 dvd unat p"
  unfolding page_aligned_mod by (simp add: word_unat_eq_iff unat_mod dvd_eq_mod_eq_0)

lemma region_pages_aligned: "p \<in> set (region_pages start end) \<Longrightarrow> page_aligned p"
proof -
  assume "p \<in> set (region_pages start end)"
  then obtain i :: nat where p: "p = ((start + 4095) AND NOT 4095) + 4096 * of_nat i"
    by (auto simp: region_pages_def Let_def)
  have "page_aligned ((start + 4095) AND NOT 4095)"
    unfolding page_aligned_def by (simp add: and.assoc)
  moreover have "4096 dvd (x mod 2 ^ 64 :: nat)" if "4096 dvd x" for x by (rule dvd_mod [OF that]) simp
  ultimately show ?thesis
    unfolding page_aligned_dvd p unat_word_ariths by (simp add: unat_word_ariths)
qed

section \<open>Marking the reserved memory\<close>

definition clear_count :: "pmm \<Rightarrow> nat" where
  "clear_count s = card {i. i < total_page_count s \<and> \<not> bitmap_test i s}"

text \<open>
  Between the clearing of the bitmap and the listing of the free pages: nothing is listed or cached,
  a clear page has no owner, and \<open>list_free_count\<close> counts the clear pages.
\<close>

definition boot_inv :: "pmm \<Rightarrow> bool" where
  "boot_inv s \<longleftrightarrow> (\<forall>i. page_owner s i = PAGE_OWNER_UNSET \<or> bitmap_test i s \<and> page_owner s i = PAGE_OWNER_RESERVED) \<and>
     list_free_count s = of_nat (clear_count s) \<and> node_free_lists s = (\<lambda>_. []) \<and> node_free_counts s = (\<lambda>_. 0) \<and>
     cpu_cache s = (\<lambda>_. [])"

definition keeps_bits :: "pmm \<Rightarrow> pmm \<Rightarrow> bool" where
  "keeps_bits s s' \<longleftrightarrow> (\<forall>i. bitmap_test i s \<longrightarrow> bitmap_test i s') \<and> total_page_count s' = total_page_count s \<and>
     total_memory s' = total_memory s"

lemma keeps_bits_trans: "keeps_bits s s' \<Longrightarrow> keeps_bits s' s'' \<Longrightarrow> keeps_bits s s''"
  by (simp add: keeps_bits_def)

lemma clear_count_set:
  assumes "i < total_page_count s" and "\<not> bitmap_test i s"
  shows "clear_count s = Suc (clear_count (bitmap_set i s))"
proof -
  have "{j. j < total_page_count s \<and> \<not> bitmap_test j s} =
      insert i {j. j < total_page_count (bitmap_set i s) \<and> \<not> bitmap_test j (bitmap_set i s)}"
    using assms by auto
  moreover have "finite {j :: u64. j < n \<and> P j}" for n P by (rule finite_subset [OF subset_UNIV]) simp
  ultimately show ?thesis unfolding clear_count_def by simp
qed

lemma mark_loop_spec:
  assumes "boot_inv s" and "\<forall>i \<in> set is. i < unat (total_page_count s)"
  shows "\<exists>s'. mark_loop is s = Some s' \<and> boot_inv s' \<and> keeps_bits s s' \<and> (\<forall>i \<in> set is. bitmap_test (of_nat i) s')"
  using assms
proof (induction "is" arbitrary: s)
  case Nil
  then show ?case by (simp add: keeps_bits_def)
next
  case (Cons k ks)
  let ?i = "of_nat k :: u64"
  let ?s1 = "if bitmap_test ?i s then s else (bitmap_set ?i s)\<lparr>list_free_count := list_free_count s - 1\<rparr>"
  let ?s2 = "?s1\<lparr>page_owner := (page_owner s)(?i := PAGE_OWNER_RESERVED)\<rparr>"
  have "unat ?i = k" using Cons.prems(2) unat_u64_less [of "total_page_count s"] by (simp add: unsigned_of_nat take_bit_nat_eq_self)
  then have lt: "?i < total_page_count s" using Cons.prems(2) by (simp add: word_less_nat_alt)
  have own: "owner_set ?i PAGE_OWNER_RESERVED ?s1 = Some ?s2"
    using lt Cons.prems(1) unfolding boot_inv_def by (auto simp: owner_set_def Let_def)
  have cc: "clear_count (t\<lparr>page_owner := f, list_free_count := n\<rparr>) = clear_count t" "clear_count (t\<lparr>page_owner := f\<rparr>) = clear_count t" for t f n
    by (simp_all add: clear_count_def bitmap_test_def)
  have b: "bitmap_test j ?s2 \<longleftrightarrow> j = ?i \<or> bitmap_test j s" for j
    by (auto simp: bitmap_test_def [of _ "_\<lparr>list_free_count := _\<rparr>"] bitmap_test_def [symmetric])
  have "list_free_count ?s2 = of_nat (clear_count ?s2)"
    using Cons.prems(1) clear_count_set [OF lt] by (auto simp: cc boot_inv_def, simp add: clear_count_def bitmap_test_def)
  then have inv: "boot_inv ?s2"
    using Cons.prems(1) b unfolding boot_inv_def by (auto simp: bitmap_set_def)
  have kb: "keeps_bits s ?s2" using b by (auto simp: keeps_bits_def bitmap_set_def)
  obtain s' where s': "mark_loop ks ?s2 = Some s'" "boot_inv s'" "keeps_bits ?s2 s'" "\<forall>i \<in> set ks. bitmap_test (of_nat i) s'"
    using Cons.IH [OF inv] Cons.prems(2) kb by (auto simp: keeps_bits_def)
  moreover have "bitmap_test ?i s'" using s'(3) b [of ?i] by (simp add: keeps_bits_def)
  moreover have "mark_loop (k # ks) s = mark_loop ks ?s2" using own by (simp add: Let_def)
  ultimately show ?case using keeps_bits_trans [OF kb s'(3)] by auto
qed

lemma mark_region_spec:
  assumes "boot_inv s"
  shows "\<exists>s'. pmm_mark_region_used start end s = Some s' \<and> boot_inv s' \<and> keeps_bits s s'"
  using mark_loop_spec [OF assms, of "[unat (start div 4096)..<min (unat ((end + 4095) div 4096)) (unat (total_page_count s))]"]
  by (auto simp: pmm_mark_region_used_def)

lemma boot_bitmap_bits:
  assumes "unat i < unat pages"
  shows "\<not> bitmap_test i (boot_bitmap pages s)"
proof -
  have "bitmap_test i (fold (\<lambda>k. bitmap_clear (of_nat k)) ks t) \<longleftrightarrow> bitmap_test i t \<and> i \<notin> of_nat ` set ks" for ks t
    by (induction ks arbitrary: t) auto
  moreover have "i \<in> of_nat ` set [0..<unat pages]" using assms by (intro image_eqI [of _ _ "unat i"]) auto
  ultimately show ?thesis by (simp add: boot_bitmap_def)
qed

lemma boot_bitmap_fields [simp]:
  "node_free_lists (boot_bitmap n s) = node_free_lists s" "node_free_counts (boot_bitmap n s) = node_free_counts s"
  "cpu_cache (boot_bitmap n s) = cpu_cache s" "page_owner (boot_bitmap n s) = page_owner s"
  "total_page_count (boot_bitmap n s) = total_page_count s" "total_memory (boot_bitmap n s) = total_memory s"
proof -
  have "node_free_lists (fold (\<lambda>k. bitmap_clear (of_nat k)) ks t) = node_free_lists t \<and>
      node_free_counts (fold (\<lambda>k. bitmap_clear (of_nat k)) ks t) = node_free_counts t \<and>
      cpu_cache (fold (\<lambda>k. bitmap_clear (of_nat k)) ks t) = cpu_cache t \<and>
      page_owner (fold (\<lambda>k. bitmap_clear (of_nat k)) ks t) = page_owner t \<and>
      total_page_count (fold (\<lambda>k. bitmap_clear (of_nat k)) ks t) = total_page_count t \<and>
      total_memory (fold (\<lambda>k. bitmap_clear (of_nat k)) ks t) = total_memory t" for ks t
    by (induction ks arbitrary: t) (simp_all add: bitmap_clear_def)
  then show "node_free_lists (boot_bitmap n s) = node_free_lists s" "node_free_counts (boot_bitmap n s) = node_free_counts s"
    "cpu_cache (boot_bitmap n s) = cpu_cache s" "page_owner (boot_bitmap n s) = page_owner s"
    "total_page_count (boot_bitmap n s) = total_page_count s" "total_memory (boot_bitmap n s) = total_memory s"
    by (simp_all add: boot_bitmap_def)
qed

text \<open>The memory that the loader cleared: no page is listed.\<close>

definition pmm_bss :: "pmm \<Rightarrow> bool" where
  "pmm_bss s \<longleftrightarrow> node_free_lists s = (\<lambda>_. []) \<and> node_free_counts s = (\<lambda>_. 0)"

lemma boot_state_inv:
  assumes "pmm_bss s"
  shows "boot_inv ((boot_bitmap pages (s\<lparr>total_memory := mem, total_page_count := pages, cpu_cache := \<lambda>_. [], page_owner := \<lambda>_. 0\<rparr>))
    \<lparr>list_free_count := pages\<rparr>)"
proof -
  let ?s = "boot_bitmap pages (s\<lparr>total_memory := mem, total_page_count := pages, cpu_cache := \<lambda>_. [], page_owner := \<lambda>_. 0\<rparr>)"
  have t: "bitmap_test i (?s\<lparr>list_free_count := pages\<rparr>) = bitmap_test i ?s" for i by (simp add: bitmap_test_def)
  have "{i. i < pages \<and> \<not> bitmap_test i ?s} = {i. i < pages}" using boot_bitmap_bits by (auto simp: word_less_nat_alt)
  also have "card \<dots> = unat pages"
  proof -
    have "unat ` {i. i < pages} = {..<unat pages}"
    proof (intro equalityI subsetI)
      fix k assume "k \<in> {..<unat pages}"
      then have "unat (of_nat k :: u64) = k" "k < unat pages"
        using unat_u64_less [of pages] by (simp_all add: unsigned_of_nat take_bit_nat_eq_self)
      then show "k \<in> unat ` {i. i < pages}" by (intro image_eqI [of _ _ "of_nat k"]) (simp_all add: word_less_nat_alt)
    qed (auto simp: word_less_nat_alt)
    then show ?thesis by (metis card_image card_lessThan inj_onI unsigned_word_eqI)
  qed
  finally have "clear_count (?s\<lparr>list_free_count := pages\<rparr>) = unat pages" by (simp add: clear_count_def t)
  then show ?thesis using assms by (simp add: boot_inv_def PAGE_OWNER_UNSET_def pmm_bss_def)
qed

lemma pmm_init_marks:
  assumes "pmm_bss s" and "0 < mem div 4096"
  shows "\<exists>s9. pmm_init mem kernel_end entries s = Some (parse_mb_mmap entries s9) \<and> boot_inv s9 \<and> bitmap_test 0 s9 \<and>
    total_page_count s9 = mem div 4096 \<and> total_memory s9 = mem"
proof -
  let ?s1 = "(boot_bitmap (mem div 4096) (s\<lparr>total_memory := mem, total_page_count := mem div 4096, cpu_cache := \<lambda>_. [], page_owner := \<lambda>_. 0\<rparr>))
    \<lparr>list_free_count := mem div 4096\<rparr>"
  have b1: "boot_inv ?s1" by (rule boot_state_inv [OF assms(1)])
  have rng: "[unat (0 div 4096 :: u64)..<min (unat ((0x1000 + 4095) div 4096 :: u64)) (unat (total_page_count ?s1))] = [0]"
    using assms(2) by (simp add: word_less_nat_alt min_def upt_rec)
  obtain s2 where s2: "pmm_mark_region_used 0 0x1000 ?s1 = Some s2" "boot_inv s2" "keeps_bits ?s1 s2" "bitmap_test 0 s2"
    using mark_loop_spec [OF b1, of "[0]"] assms(2) unfolding pmm_mark_region_used_def rng by (auto simp: word_less_nat_alt)
  note mark = mark_region_spec
  obtain s3 where s3: "pmm_mark_region_used 0x4000 0x7000 s2 = Some s3" "boot_inv s3" "keeps_bits s2 s3" using mark [OF s2(2)] by blast
  obtain s4 where s4: "pmm_mark_region_used 0x7000 0xB000 s3 = Some s4" "boot_inv s4" "keeps_bits s3 s4" using mark [OF s3(2)] by blast
  obtain s5 where s5: "pmm_mark_region_used 0xA0000 0x100000 s4 = Some s5" "boot_inv s5" "keeps_bits s4 s5" using mark [OF s4(2)] by blast
  let ?bp = "(((mem div 4096) + 7) div 8 + 4095) div 4096"
  obtain s6 where s6: "pmm_mark_region_used 0x10000 (0x10000 + ?bp * 4096) s5 = Some s6" "boot_inv s6" "keeps_bits s5 s6" using mark [OF s5(2)] by blast
  obtain s7 where s7: "pmm_mark_region_used (mem - 0x1000) mem s6 = Some s7" "boot_inv s7" "keeps_bits s6 s7" using mark [OF s6(2)] by blast
  obtain s8 where s8: "pmm_mark_region_used 0x100000 kernel_end s7 = Some s8" "boot_inv s8" "keeps_bits s7 s8" using mark [OF s7(2)] by blast
  let ?ob = "(kernel_end + 4095) AND NOT 4095" and ?op = "((mem div 4096) * 8 + 4095) div 4096"
  obtain s9 where s9: "pmm_mark_region_used ?ob (?ob + ?op * 4096) s8 = Some s9" "boot_inv s9" "keeps_bits s8 s9" using mark [OF s8(2)] by blast
  have "keeps_bits s2 s9"
    using s3(3) s4(3) s5(3) s6(3) s7(3) s8(3) s9(3) by (blast intro: keeps_bits_trans)
  moreover have "pmm_init mem kernel_end entries s = Some (parse_mb_mmap entries s9)"
    unfolding pmm_init_def Let_def s2(1) s3(1) s4(1) s5(1) s6(1) s7(1) s8(1) s9(1) bind.bind_lunit by (rule refl)
  ultimately show ?thesis using s9(2) s2(3,4) by (auto simp: keeps_bits_def)
qed

section \<open>Properties\<close>

text \<open>
  C25. \<open>pmm_init\<close> stops no machine and establishes the invariant of the allocator, with page 0 in use
  and every page of the available regions free unless it is reserved, when the memory map has no
  page twice. It counts the free pages twice, though: \<open>list_free_count\<close>, meant to be the sum of the
  counts of the nodes, starts at the number of all clear pages, and the pages that are listed are
  added to it.
\<close>

theorem pmm_init_establishes:
  assumes "pmm_bss s" and "0 < mem div 4096" and "distinct (avail_pages entries mem)"
  shows "\<exists>s'. pmm_init mem kernel_end entries s = Some s' \<and> pmm_wf s' \<and> bitmap_test 0 s' \<and>
    total_page_count s' = mem div 4096 \<and>
    free s' = {p \<in> set (avail_pages entries mem). page_index p < mem div 4096 \<and> \<not> bitmap_test (page_index p) s'} \<and>
    list_free_count s' = of_nat (clear_count s') + node_free_counts s' 0"
proof -
  obtain s9 where s9: "pmm_init mem kernel_end entries s = Some (parse_mb_mmap entries s9)" "boot_inv s9" "bitmap_test 0 s9"
      "total_page_count s9 = mem div 4096" "total_memory s9 = mem"
    using pmm_init_marks [OF assms(1,2)] by blast
  let ?ps = "avail_pages entries mem" let ?s = "add_loop ?ps s9"
  have L: "listed ?s = {p \<in> set ?ps. listable s9 p}" "cached ?s = {}"
    using s9(2) by (auto simp: listed_def cached_def add_loop_lists boot_inv_def split: if_splits)
  have al: "page_aligned p" if "p \<in> set ?ps" for p
    using that region_pages_aligned by (auto simp: avail_pages_def entry_pages_def split: if_splits)
  have "page_ok ?s p \<and> \<not> bitmap_test (page_index p) ?s" if "p \<in> listed ?s" for p
    using that al [of p] s9(3) unfolding L by (auto simp: page_ok_def listable_def page_index_def)
  moreover have "disjoint_lists (node_free_lists ?s)"
    using s9(2) assms(3) by (auto simp: disjoint_lists_def add_loop_lists boot_inv_def)
  ultimately have "pmm_wf ?s"
    using s9(2) L(2) unfolding pmm_wf_def boot_inv_def
    by (auto simp: add_loop_lists disjoint_lists_def MAX_NUMA_NODES_def)
  moreover have "clear_count ?s = clear_count s9" by (simp add: clear_count_def)
  then have "list_free_count ?s = of_nat (clear_count ?s) + node_free_counts ?s 0"
    using s9(2) by (simp add: add_loop_lists boot_inv_def)
  moreover have "free ?s = {p \<in> set ?ps. page_index p < mem div 4096 \<and> \<not> bitmap_test (page_index p) ?s}"
    using L s9(4) by (simp add: free_def listable_def)
  moreover have "pmm_init mem kernel_end entries s = Some ?s" using s9(1,5) by (simp add: parse_mb_mmap_add)
  ultimately show ?thesis using s9(3,4) by auto
qed

definition boot_demo :: pmm where
  "boot_demo = pmm_demo\<lparr>node_free_lists := \<lambda>_. [], node_free_counts := \<lambda>_. 0\<rparr>"

definition mmap_demo :: "hal_mmap_entry list" where
  "mmap_demo = [\<lparr>mm_start = 0, mm_end = 0x9FC00, mm_type = 2\<rparr>, \<lparr>mm_start = 0x150000, mm_end = 0x153800, mm_type = 1\<rparr>]"

theorem pmm_init_establishes_witness:
  "\<exists>s'. pmm_init 0x200000 0x120000 mmap_demo boot_demo = Some s' \<and> pmm_wf s' \<and> free s' \<subseteq> {0x150000, 0x151000, 0x152000}"
proof -
  have a: "avail_pages mmap_demo 0x200000 = [0x150000, 0x151000, 0x152000]"
    by (simp add: avail_pages_def mmap_demo_def entry_pages_def region_pages_def upt_rec)
  have "pmm_bss boot_demo" by (simp add: pmm_bss_def boot_demo_def)
  from pmm_init_establishes [OF this, of "0x200000" mmap_demo "0x120000"] show ?thesis
    by (auto simp: a)
qed

text \<open>
  On a machine with NUMA tables, \<open>pmm_alloc_node_pages\<close> gives the caller a page off the list of
  the node and returns another address: the variable \<open>first\<close> holds the address of the page there, not
  its index, and is multiplied by the page size once more on return. The page whose
  address is returned still belongs to whoever had it, and its contents are erased.
\<close>

theorem pmm_alloc_node_pages_address:
  assumes wf: "pmm_wf s" and "numa_available env" and "0 \<le> node" and "node < int MAX_NUMA_NODES"
    and l: "node_free_lists s (nat node) = pa # rest"
  shows "\<exists>s'. pmm_alloc_node_pages env 1 node s = Some (pa * 4096, s') \<and> pa * 4096 \<noteq> pa \<and> pa \<in> held s' \<and>
    (\<forall>q. q \<noteq> pa \<longrightarrow> (q \<in> held s' \<longleftrightarrow> q \<in> held s)) \<and> (\<forall>i < 512. page_mem s' (pa * 4096 + 8 * of_nat i) = 0)"
proof -
  let ?t = "take_page (nat node) pa (current_thread env) s"
  note tp = take_page(1-5) [OF wf l, of "current_thread env"] take_page(6,7) [OF wf l]
  have idx: "page_index pa < total_page_count s" "\<not> bitmap_test (page_index pa) s"
    using tp(6) pmm_wfD(4) [OF wf tp(7)] by (simp_all add: page_ok_def)
  have take: "take_from_node env 1 (nat node) 0 0 s = Some (pa, 1, ?t)"
  proof -
    have "take_from_node env 1 nd f 1 t = Some (f, 1, t)" for nd f t by (subst take_from_node.simps) simp
    then show ?thesis using l idx tp(3) by (subst take_from_node.simps) (simp add: Let_def not_le [symmetric])
  qed
  have res: "pmm_alloc_node_pages env 1 node s = Some (pa * 4096, page_zero (pa * 4096) ?t)"
    using assms(2-4) take by (simp add: pmm_alloc_node_pages_def zero_pages_def)
  have "held ?t - {pa} = held s - {pa}" using only_sets(2) [OF tp(2) wf tp(1)] .
  moreover have "pa * 4096 \<noteq> pa"
  proof
    assume eq: "pa * 4096 = pa"
    have "pa * 4096 ^ n = pa" for n
    proof (induction n)
      case (Suc n)
      have "pa * 4096 ^ Suc n = (pa * 4096) * 4096 ^ n" by (simp only: power_Suc mult.assoc)
      also have "\<dots> = pa" unfolding eq by (rule Suc)
      finally show ?case .
    qed simp
    from this [of 6] have "pa = pa * 4096 ^ 6" by (rule sym)
    also have "(4096 :: u64) ^ 6 = 0" by simp
    finally have "pa = 0" unfolding mult_zero_right .
    with tp(6) show False by (simp add: page_ok_def)
  qed
  ultimately show ?thesis using res tp(5) page_zero_mem by (auto simp: set_eq_iff)
qed

theorem pmm_alloc_node_pages_address_witness:
  "\<exists>s'. pmm_alloc_node_pages (env_demo\<lparr>numa_available := True\<rparr>) 1 0 pmm_demo = Some (0x5000000, s') \<and> 0x5000 \<in> held s'"
  using pmm_alloc_node_pages_address [OF demo_wf, of "env_demo\<lparr>numa_available := True\<rparr>" 0 "0x5000" "[0x6000]"]
  by (auto simp: MAX_NUMA_NODES_def pmm_demo_def)

end
