(* ===== verification/Kmalloc_Props.thy ===== *)
theory Kmalloc_Props
  imports Kmalloc Pmm_Boot
begin

text \<open>
  The correctness of the kernel heap: the invariant of its slabs, magazines and large objects, that every
  operation keeps it, and the objects it hands out never overlap. The page allocator is used
  through the locale \<open>page_source\<close>, which \<open>Kmalloc_Pmm\<close> interprets on the allocator of \<^verbatim>\<open>pmm.c\<close>.
\<close>

declare slab_index_loop.simps [simp del]

section \<open>Addresses\<close>

lemma page_of_div: "page_of a = page_index a * 4096"
proof -
  have m: "(4095 :: u64) = mask 12" by (simp add: mask_eq_exp_minus_1)
  have "page_of a = push_bit 12 (drop_bit 12 a)"
    unfolding page_of_def m
    by (rule bit_eqI) (auto simp: bit_and_iff bit_not_iff bit_mask_iff bit_push_bit_iff bit_drop_bit_eq not_less)
  also have "\<dots> = page_index a * 4096"
    by (simp add: page_index_def drop_bit_eq_div push_bit_eq_mult)
  finally show ?thesis .
qed

lemma page_of_add:
  assumes "page_aligned v" and "d < 4096"
  shows "page_of (v + of_nat d) = v"
proof -
  from assms(1) obtain k where k: "unat v = 4096 * k" by (auto simp: page_aligned_dvd)
  with unat_u64_less [of v] have "4096 * k + d < 2 ^ 64" using assms(2) by simp
  then have "unat (v + of_nat d) = 4096 * k + d"
    using k assms(2) by (simp add: unat_word_ariths unsigned_of_nat take_bit_nat_eq_self)
  then have "unat (page_index (v + of_nat d)) = k" using assms(2) by (simp add: page_index_def unat_div)
  then have "unat (page_of (v + of_nat d)) = unat v"
    using k unat_u64_less [of v] by (simp add: page_of_div unat_word_ariths)
  then show ?thesis by (simp add: word_unat_eq_iff)
qed

lemma page_aligned_add:
  assumes "page_aligned v"
  shows "page_aligned (v + 4096 * of_nat j)"
proof -
  have "4096 dvd (x mod 2 ^ 64 :: nat)" if "4096 dvd x" for x by (rule dvd_mod [OF that]) simp
  with assms show ?thesis unfolding page_aligned_dvd unat_word_ariths by (simp add: unat_word_ariths)
qed

lemma page_of_run:
  assumes "page_aligned v"
  shows "page_of (v + of_nat k) = v + 4096 * of_nat (k div 4096)"
proof -
  have "(of_nat k :: u64) = of_nat (4096 * (k div 4096) + k mod 4096)" by simp
  also have "\<dots> = 4096 * of_nat (k div 4096) + of_nat (k mod 4096)" unfolding of_nat_add of_nat_mult by simp
  finally have "v + of_nat k = (v + 4096 * of_nat (k div 4096)) + of_nat (k mod 4096)" by simp
  then show ?thesis using page_of_add [OF page_aligned_add [OF assms, of "k div 4096"], of "k mod 4096"] by (simp add: add.assoc)
qed

lemma add_offset_inj: "v + of_nat d = v + of_nat d' \<longleftrightarrow> d = d'" if "d < 4096" "d' < 4096" for v :: u64
proof -
  have "unat (of_nat x :: u64) = x" if "x < 4096" for x using that by (simp add: unsigned_of_nat take_bit_nat_eq_self)
  then show ?thesis using that by (metis add_left_cancel)
qed

lemma virt_phys [simp]: "VIRT_TO_PHYS (PHYS_TO_VIRT p) = p" "PHYS_TO_VIRT (VIRT_TO_PHYS v) = v"
  by (simp_all add: VIRT_TO_PHYS_def PHYS_TO_VIRT_def)

lemma phys_inj: "VIRT_TO_PHYS v = VIRT_TO_PHYS w \<longleftrightarrow> v = w"
  by (simp add: VIRT_TO_PHYS_def)

lemma phys_add: "VIRT_TO_PHYS (v + d) = VIRT_TO_PHYS v + d"
  by (simp add: VIRT_TO_PHYS_def)

lemma phys_aligned [simp]: "page_aligned (PHYS_TO_VIRT p) \<longleftrightarrow> page_aligned p" "page_aligned (VIRT_TO_PHYS v) \<longleftrightarrow> page_aligned v"
proof -
  have "4096 dvd ((unat p + 0xFFFFFFFFC0000000) mod 2 ^ 64) \<longleftrightarrow> 4096 dvd (unat p + 0xFFFFFFFFC0000000)" for p :: u64
    by (rule dvd_mod_iff) simp
  moreover have "4096 dvd (x + 0xFFFFFFFFC0000000) \<longleftrightarrow> 4096 dvd x" for x :: nat by (rule dvd_add_left_iff) simp
  ultimately show a: "page_aligned (PHYS_TO_VIRT p) \<longleftrightarrow> page_aligned p" for p
    by (simp add: page_aligned_dvd PHYS_TO_VIRT_def KERNEL_VMA_BASE_def unat_word_ariths)
  show "page_aligned (VIRT_TO_PHYS v) \<longleftrightarrow> page_aligned v" using a [of "VIRT_TO_PHYS v"] by simp
qed

section \<open>Slots\<close>

lemma class_cases:
  assumes "idx < SLAB_COUNT"
  obtains "idx = 0" | "idx = 1" | "idx = 2" | "idx = 3" | "idx = 4" | "idx = 5" | "idx = 6"
proof -
  have "SLAB_COUNT = 7" by (simp add: SLAB_COUNT_def MAX_SLAB_SHIFT_def MIN_SLAB_SHIFT_def)
  then have "idx = 0 \<or> idx = 1 \<or> idx = 2 \<or> idx = 3 \<or> idx = 4 \<or> idx = 5 \<or> idx = 6" using assms by linarith
  with that show thesis by blast
qed

lemmas class_defs = slab_total_def SLAB_MAX_OBJS_def SLAB_HEADER_SIZE_def MIN_SLAB_SHIFT_def obj_size_def

lemma obj_size_class: "idx < SLAB_COUNT \<Longrightarrow> unat (obj_size (idx + MIN_SLAB_SHIFT)) = 2 ^ (idx + 4)"
  by (erule class_cases) (simp_all add: class_defs)

lemma slab_total_class:
  assumes "idx < SLAB_COUNT"
  shows "40 + slab_total idx * 2 ^ (idx + 4) \<le> 4096" "0 < slab_total idx" "slab_total idx \<le> 128"
  using assms by (erule_tac class_cases; simp add: class_defs)+

definition slot_addr :: "u64 \<Rightarrow> nat \<Rightarrow> nat \<Rightarrow> u64" where
  "slot_addr v idx i = v + of_nat (40 + i * 2 ^ (idx + 4))"

lemma slot_offset:
  assumes "idx < SLAB_COUNT" and "i < slab_total idx"
  shows "40 + i * 2 ^ (idx + 4) + 2 ^ (idx + 4) \<le> 4096"
proof -
  have "Suc i * 2 ^ (idx + 4) \<le> slab_total idx * 2 ^ (idx + 4)" using assms(2) by (intro mult_right_mono) simp_all
  with slab_total_class(1) [OF assms(1)] show ?thesis by simp
qed

lemma sint_offset: "m < 4096 \<Longrightarrow> sint (of_nat m :: u64) = int m"
  by (simp add: signed_of_nat signed_take_bit_int_eq_self)

lemma slot_index_addr:
  assumes "idx < SLAB_COUNT" and "i < slab_total idx"
  shows "slot_index (slot_addr v idx i) v (obj_size (idx + MIN_SLAB_SHIFT)) = int i"
proof -
  let ?n = "i * 2 ^ (idx + 4)"
  have n: "?n < 4096" using slot_offset [OF assms] by simp
  have "slot_addr v idx i - (v + of_nat SLAB_HEADER_SIZE) = of_nat ?n"
    by (simp add: slot_addr_def SLAB_HEADER_SIZE_def SLAB_MAX_OBJS_def)
  moreover have "sint (of_nat ?n :: u64) = int ?n"
    using sint_offset [OF n] .
  moreover have "uint (obj_size (idx + MIN_SLAB_SHIFT)) = 2 ^ (idx + 4)"
    using obj_size_class [OF assms(1)] by (metis of_nat_numeral of_nat_power uint_nat)
  moreover have "int ?n sdiv 2 ^ (idx + 4) = int i"
    by (simp add: signed_divide_int_def sgn_if)
  moreover have "signed_take_bit 31 (int i) = int i"
    using assms slab_total_class(3) [OF assms(1)] by (intro signed_take_bit_int_eq_self) simp_all
  ultimately show ?thesis by (simp add: slot_index_def)
qed

section \<open>The invariant\<close>

definition slab_ok :: "nat \<Rightarrow> u64 \<Rightarrow> kpage \<Rightarrow> bool" where
  "slab_ok idx v g \<longleftrightarrow> page_aligned v \<and> kp_magic g = SLAB_MAGIC \<and> unat (kp_shift g) = idx + MIN_SLAB_SHIFT \<and>
     unat (kp_total g) = slab_total idx \<and> length (kp_bitmap g) = SLAB_MAX_OBJS \<and>
     unat (kp_free_count g) = length (filter (\<lambda>b. b) (take (slab_total idx) (kp_bitmap g)))"

definition slab_wf :: "'s kheap \<Rightarrow> bool" where
  "slab_wf h \<longleftrightarrow> disjoint_lists (kh_slabs h) \<and> (\<forall>idx \<ge> SLAB_COUNT. kh_slabs h idx = []) \<and>
     (\<forall>idx. \<forall>v \<in> set (kh_slabs h idx). slab_ok idx v (kh_pages h v))"

text \<open>Slot \<open>i\<close> of the slab \<open>v\<close> of class \<open>idx\<close> exists, and is marked used in the bitmap.\<close>

definition is_slot :: "'s kheap \<Rightarrow> nat \<Rightarrow> u64 \<Rightarrow> nat \<Rightarrow> bool" where
  "is_slot h idx v i \<longleftrightarrow> v \<in> set (kh_slabs h idx) \<and> i < slab_total idx"

definition used_slot :: "'s kheap \<Rightarrow> nat \<Rightarrow> u64 \<Rightarrow> nat \<Rightarrow> bool" where
  "used_slot h idx v i \<longleftrightarrow> is_slot h idx v i \<and> \<not> kp_bitmap (kh_pages h v) ! i"

definition used_addr :: "'s kheap \<Rightarrow> nat \<Rightarrow> u64 \<Rightarrow> bool" where
  "used_addr h idx p \<longleftrightarrow> (\<exists>v i. used_slot h idx v i \<and> p = slot_addr v idx i)"

definition mags :: "'s kheap \<Rightarrow> u64 set" where
  "mags h = {p. \<exists>c idx. p \<in> set (kh_mag h c idx)}"

definition mag_wf :: "'s kheap \<Rightarrow> bool" where
  "mag_wf h \<longleftrightarrow> (\<forall>c idx. \<forall>p \<in> set (kh_mag h c idx). used_addr h idx p) \<and>
     (\<forall>idx. disjoint_lists (\<lambda>c. kh_mag h c idx)) \<and> (\<forall>c idx. length (kh_mag h c idx) \<le> KMAG_SIZE) \<and>
     (\<forall>c \<ge> KMAG_CPUS. \<forall>idx. kh_mag h c idx = [])"

definition run_of :: "u64 \<Rightarrow> nat \<Rightarrow> u64 set" where
  "run_of p n = (\<lambda>j. p + 4096 * of_nat j) ` {..<n}"

definition slab_pages :: "'s kheap \<Rightarrow> u64 set" where
  "slab_pages h = {v. \<exists>idx. v \<in> set (kh_slabs h idx)}"

text \<open>The large objects, by the address of their first page, with their number of pages.\<close>

definition big_wf :: "'s kheap \<Rightarrow> (u64 \<rightharpoonup> nat) \<Rightarrow> bool" where
  "big_wf h B \<longleftrightarrow>
     (\<forall>v k. B v = Some k \<longrightarrow> page_aligned v \<and> 0 < k \<and> kp_magic (kh_pages h v) \<noteq> SLAB_MAGIC \<and>
        (unat (kp_word0 (kh_pages h v)) = k \<or> kp_word0 (kh_pages h v) > push_bit 20 1) \<and> run_of v k \<inter> slab_pages h = {}) \<and>
     (\<forall>v k w l. B v = Some k \<longrightarrow> B w = Some l \<longrightarrow> v \<noteq> w \<longrightarrow> run_of v k \<inter> run_of w l = {})"

definition heap_pages :: "'s kheap \<Rightarrow> (u64 \<rightharpoonup> nat) \<Rightarrow> u64 set" where
  "heap_pages h B = slab_pages h \<union> {p. \<exists>v k. B v = Some k \<and> p \<in> run_of v k}"

text \<open>The live objects, as pairs of address and size.\<close>

definition live_small :: "'s kheap \<Rightarrow> u64 \<Rightarrow> nat \<Rightarrow> bool" where
  "live_small h p n \<longleftrightarrow> (\<exists>idx. used_addr h idx p \<and> n \<le> 2 ^ (idx + 4)) \<and> p \<notin> mags h"

definition live_large :: "(u64 \<rightharpoonup> nat) \<Rightarrow> u64 \<Rightarrow> nat \<Rightarrow> bool" where
  "live_large B p n \<longleftrightarrow> (\<exists>v k. B v = Some k \<and> p = v + 8 \<and> n + 8 \<le> 4096 * k)"

definition live_wf :: "'s kheap \<Rightarrow> (u64 \<rightharpoonup> nat) \<Rightarrow> (u64 \<times> nat) set \<Rightarrow> bool" where
  "live_wf h B L \<longleftrightarrow> (\<forall>(p, n) \<in> L. live_small h p n \<or> live_large B p n) \<and>
     (\<forall>p n m. (p, n) \<in> L \<longrightarrow> (p, m) \<in> L \<longrightarrow> n = m)"

definition heap_inv :: "('s \<Rightarrow> u64 set) \<Rightarrow> 's kheap \<Rightarrow> (u64 \<rightharpoonup> nat) \<Rightarrow> (u64 \<times> nat) set \<Rightarrow> bool" where
  "heap_inv own h B L \<longleftrightarrow> slab_wf h \<and> mag_wf h \<and> big_wf h B \<and> live_wf h B L \<and>
     VIRT_TO_PHYS ` heap_pages h B \<subseteq> own (kh_pmm h)"

lemma heap_invD:
  assumes "heap_inv own h B L"
  shows "slab_wf h" "mag_wf h" "big_wf h B" "live_wf h B L" "VIRT_TO_PHYS ` heap_pages h B \<subseteq> own (kh_pmm h)"
  using assms by (simp_all add: heap_inv_def)

lemma slab_wfD:
  assumes "slab_wf h" and "v \<in> set (kh_slabs h idx)"
  shows "idx < SLAB_COUNT" "slab_ok idx v (kh_pages h v)" "page_aligned v"
proof -
  show "idx < SLAB_COUNT" using assms by (cases "idx < SLAB_COUNT") (auto simp: slab_wf_def not_less)
  show "slab_ok idx v (kh_pages h v)" using assms by (simp add: slab_wf_def)
  then show "page_aligned v" by (simp add: slab_ok_def)
qed

lemma slab_class_unique: "slab_wf h \<Longrightarrow> v \<in> set (kh_slabs h i) \<Longrightarrow> v \<in> set (kh_slabs h j) \<Longrightarrow> i = j"
  unfolding slab_wf_def disjoint_lists_def by blast

section \<open>Objects do not overlap\<close>

definition extent :: "u64 \<Rightarrow> nat \<Rightarrow> u64 set" where
  "extent p n = (\<lambda>k. p + of_nat k) ` {..<n}"

lemma slot_extent:
  assumes "slab_wf h" and "is_slot h idx v i" and "n \<le> 2 ^ (idx + 4)" and "a \<in> extent (slot_addr v idx i) n"
  shows "\<exists>k < 2 ^ (idx + 4). a = v + of_nat (40 + i * 2 ^ (idx + 4) + k) \<and> 40 + i * 2 ^ (idx + 4) + k < 4096" "page_of a = v"
proof -
  have c: "idx < SLAB_COUNT" "page_aligned v" using slab_wfD [OF assms(1)] assms(2) by (auto simp: is_slot_def)
  from assms(4) obtain k where k: "k < n" "a = slot_addr v idx i + of_nat k" by (auto simp: extent_def)
  then have "k < 2 ^ (idx + 4)" using assms(3) by simp
  moreover from this have lt: "40 + i * 2 ^ (idx + 4) + k < 4096" using slot_offset [OF c(1), of i] assms(2) by (auto simp: is_slot_def)
  moreover have a: "a = v + of_nat (40 + i * 2 ^ (idx + 4) + k)" using k(2) by (simp add: slot_addr_def)
  ultimately show "\<exists>k < 2 ^ (idx + 4). a = v + of_nat (40 + i * 2 ^ (idx + 4) + k) \<and> 40 + i * 2 ^ (idx + 4) + k < 4096" by blast
  show "page_of a = v" unfolding a by (rule page_of_add [OF c(2) lt])
qed

lemma heap_slots_disjoint:
  assumes wf: "slab_wf h" and s: "is_slot h idx v i" "is_slot h idx' w j"
    and n: "n \<le> 2 ^ (idx + 4)" "m \<le> 2 ^ (idx' + 4)"
    and a: "a \<in> extent (slot_addr v idx i) n" "a \<in> extent (slot_addr w idx' j) m"
  shows "idx = idx' \<and> v = w \<and> i = j"
proof -
  have vw: "v = w" using slot_extent(2) [OF wf s(1) n(1) a(1)] slot_extent(2) [OF wf s(2) n(2) a(2)] by simp
  then have ii: "idx = idx'" using s slab_class_unique [OF wf] by (auto simp: is_slot_def)
  let ?z = "2 ^ (idx + 4) :: nat"
  obtain k where k: "k < ?z" "a = v + of_nat (40 + i * ?z + k)" "40 + i * ?z + k < 4096"
    using slot_extent(1) [OF wf s(1) n(1) a(1)] by blast
  obtain l where l: "l < ?z" "a = v + of_nat (40 + j * ?z + l)" "40 + j * ?z + l < 4096"
    using slot_extent(1) [OF wf s(2) n(2) a(2)] vw ii by blast
  have "40 + i * ?z + k = 40 + j * ?z + l" using add_offset_inj [OF k(3) l(3)] k(2) l(2) by metis
  then have "(i * ?z + k) div ?z = (j * ?z + l) div ?z" by simp
  with k(1) l(1) have "i = j" by simp
  with vw ii show ?thesis by simp
qed

lemma slot_addr_inj:
  assumes "slab_wf h" and "is_slot h idx v i" and "is_slot h idx' w j" and "slot_addr v idx i = slot_addr w idx' j"
  shows "idx = idx' \<and> v = w \<and> i = j"
  by (rule heap_slots_disjoint [OF assms(1-3), of 1 1 "slot_addr v idx i"]) (simp_all add: extent_def assms(4))

lemma large_extent:
  assumes "page_aligned v" and "n + 8 \<le> 4096 * k" and "a \<in> extent (v + 8) n"
  shows "page_of a \<in> run_of v k"
proof -
  from assms(3) obtain j where j: "j < n" "a = v + 8 + of_nat j" by (auto simp: extent_def)
  then have "a = v + of_nat (8 + j)" by simp
  then have "page_of a = v + 4096 * of_nat ((8 + j) div 4096)" using page_of_run [OF assms(1)] by metis
  moreover have "(8 + j) div 4096 < k" using j(1) assms(2) by (simp add: less_mult_imp_div_less mult.commute)
  ultimately show ?thesis by (auto simp: run_of_def)
qed

lemma used_addrD: "used_addr h idx p \<Longrightarrow> \<exists>v i. is_slot h idx v i \<and> p = slot_addr v idx i"
  by (auto simp: used_addr_def used_slot_def)

text \<open>Two live objects at different addresses have no byte in common.\<close>

lemma live_disjoint:
  assumes inv: "heap_inv own h B L" and L: "(p, n) \<in> L" "(q, m) \<in> L" and "p \<noteq> q"
  shows "extent p n \<inter> extent q m = {}"
proof -
  note wf = heap_invD [OF inv]
  have page: "\<exists>x. (x \<in> slab_pages h \<and> page_of a = x)" if "a \<in> extent p n" "live_small h p n" for a p n
  proof -
    from that(2) obtain idx v i where s: "is_slot h idx v i" "p = slot_addr v idx i" "n \<le> 2 ^ (idx + 4)"
      unfolding live_small_def using used_addrD by blast
    have "page_of a = v" by (rule slot_extent(2) [OF wf(1) s(1,3)]) (use that(1) s(2) in simp)
    with s(1) show ?thesis by (auto simp: slab_pages_def is_slot_def)
  qed
  have big: "\<exists>v k. B v = Some k \<and> p = v + 8 \<and> page_of a \<in> run_of v k" if "a \<in> extent p n" "live_large B p n" for a p n
  proof -
    from that(2) obtain v k where "B v = Some k" "p = v + 8" "n + 8 \<le> 4096 * k" by (auto simp: live_large_def)
    moreover from this have "page_aligned v" using wf(3) by (simp add: big_wf_def)
    ultimately show ?thesis using large_extent [of v n k a] that(1) by blast
  qed
  have mix: False if "a \<in> extent p n" "live_small h p n" "a \<in> extent q m" "live_large B q m" for a p n q m
    using page [OF that(1,2)] big [OF that(3,4)] wf(3) by (auto simp: big_wf_def)
  have kinds: "live_small h p n \<or> live_large B p n" "live_small h q m \<or> live_large B q m"
    using wf(4) L by (auto simp: live_wf_def)
  have False if a: "a \<in> extent p n" "a \<in> extent q m" for a
  proof -
    have "live_small h p n \<and> live_small h q m \<or> live_large B p n \<and> live_large B q m"
      using kinds mix [OF a(1) _ a(2)] mix [OF a(2) _ a(1)] by blast
    then show False
    proof
      assume "live_small h p n \<and> live_small h q m"
      then obtain idx v i idx' w j where "is_slot h idx v i" "p = slot_addr v idx i" "n \<le> 2 ^ (idx + 4)"
        "is_slot h idx' w j" "q = slot_addr w idx' j" "m \<le> 2 ^ (idx' + 4)"
        unfolding live_small_def using used_addrD by metis
      with heap_slots_disjoint [OF wf(1), of idx v i idx' w j n m a] a assms(4) show False by auto
    next
      assume "live_large B p n \<and> live_large B q m"
      with big a wf(3) assms(4) show False unfolding big_wf_def by (metis disjoint_iff)
    qed
  qed
  then show ?thesis by blast
qed

end
