(* ===== verification/Vmm_Tree.thy ===== *)
theory Vmm_Tree
  imports Vmm Kmalloc_Props
begin

text \<open>
  Page tables as trees in memory. \<open>ptree m I d t\<close>: the table \<open>t\<close> with \<open>d\<close> levels of tables below it, reached from its
  entries in \<open>I\<close>, is a tree: no table is reached in two ways. \<open>tabs\<close> is the set of its tables, \<open>path\<close> the page table that
  a list of indices leads to, and \<open>look\<close> the abstraction of the tree: a partial map from index lists to entries.
\<close>

section \<open>Entries and pages\<close>

abbreviation idx :: "u64 set" where "idx \<equiv> {i. i < 512}"

lemma page_of_slot [simp]:
  assumes "page_aligned t" and "i < 512"
  shows "page_of (slot t i) = t"
proof -
  have "8 * unat i < 4096" using assms(2) by (simp add: word_less_nat_alt)
  with page_of_add [OF assms(1)] have "page_of (t + of_nat (8 * unat i)) = t" by blast
  then show ?thesis by (simp add: slot_def)
qed

lemma entry_slot_inj:
  assumes "page_aligned t" "page_aligned t'" "i < 512" "j < 512" "slot t i = slot t' j"
  shows "t = t' \<and> i = j"
proof -
  have t: "t = t'" using assms page_of_slot by metis
  have "unat (8 * i) = 8 * unat i" "unat (8 * j) = 8 * unat j"
    using assms(3,4) by (simp_all add: unat_word_ariths word_less_nat_alt)
  with t assms(5) have "unat i = unat j" unfolding slot_def by simp
  with t show ?thesis by (simp add: word_unat_eq_iff)
qed

lemma page_aligned_page_of [simp]: "page_aligned (page_of a)"
  by (simp add: page_aligned_def page_of_def and.assoc)

lemma page_of_aligned: "page_aligned t \<Longrightarrow> page_of t = t"
  using page_of_add [of t 0] by simp

lemma in_page_iff:
  assumes "page_aligned p"
  shows "a - p < 4096 \<longleftrightarrow> page_of a = p"
proof
  assume "a - p < 4096"
  then have "unat (a - p) < 4096" by (simp add: word_less_nat_alt)
  from page_of_add [OF assms this] show "page_of a = p" by simp
next
  assume "page_of a = p"
  then have "a - p = a - page_of a" by simp
  also have "\<dots> = a mod 4096"
    unfolding page_of_div page_index_def by (metis add_diff_cancel_left' div_mult_mod_eq)
  also have "\<dots> < 4096" by (rule word_mod_less_divisor) simp
  finally show "a - p < 4096" .
qed

section \<open>Trees of tables\<close>

definition kid :: "(u64 \<Rightarrow> u64) \<Rightarrow> u64 \<Rightarrow> u64 \<Rightarrow> u64 option" where
  "kid m t i = (let en = m (slot t i) in if present en then Some (page_of en) else None)"

fun tabs :: "(u64 \<Rightarrow> u64) \<Rightarrow> u64 set \<Rightarrow> nat \<Rightarrow> u64 \<Rightarrow> u64 set" where
  "tabs m I 0 t = {t}"
| "tabs m I (Suc d) t = insert t (\<Union>i\<in>I. \<Union>c\<in>set_option (kid m t i). tabs m idx d c)"

fun ptree :: "(u64 \<Rightarrow> u64) \<Rightarrow> u64 set \<Rightarrow> nat \<Rightarrow> u64 \<Rightarrow> bool" where
  "ptree m I 0 t = page_aligned t"
| "ptree m I (Suc d) t = (page_aligned t \<and> (\<forall>i\<in>I. \<not> (present (m (slot t i)) \<and> huge (m (slot t i)))) \<and>
     (\<forall>i\<in>I. \<forall>c. kid m t i = Some c \<longrightarrow> ptree m idx d c \<and> t \<notin> tabs m idx d c) \<and>
     (\<forall>i\<in>I. \<forall>j\<in>I. \<forall>c c'. i \<noteq> j \<longrightarrow> kid m t i = Some c \<longrightarrow> kid m t j = Some c' \<longrightarrow> tabs m idx d c \<inter> tabs m idx d c' = {}))"

fun path :: "(u64 \<Rightarrow> u64) \<Rightarrow> u64 \<Rightarrow> u64 list \<Rightarrow> u64 option" where
  "path m t [] = Some t"
| "path m t (i # is) = Option.bind (kid m t i) (\<lambda>c. path m c is)"

definition look :: "(u64 \<Rightarrow> u64) \<Rightarrow> u64 \<Rightarrow> u64 list \<Rightarrow> u64 \<Rightarrow> u64 option" where
  "look m t is i = Option.bind (path m t is) (\<lambda>pt. let en = m (slot pt i) in if present en then Some en else None)"

fun vpath :: "u64 set \<Rightarrow> u64 list \<Rightarrow> bool" where
  "vpath I [] = True"
| "vpath I (i # is) = (i \<in> I \<and> vpath idx is)"

lemma look_Cons: "look m t (i # is) j = Option.bind (kid m t i) (\<lambda>c. look m c is j)"
  by (simp add: look_def)

lemma ptree_aligned: "ptree m I d t \<Longrightarrow> page_aligned t"
  by (cases d) simp_all

lemma tabs_root [simp]: "t \<in> tabs m I d t"
  by (cases d) simp_all

lemma kid_tabs: "i \<in> I \<Longrightarrow> kid m t i = Some c \<Longrightarrow> tabs m idx d c \<subseteq> tabs m I (Suc d) t"
  by force

lemma ptree_kid:
  assumes "ptree m I (Suc d) t" and "i \<in> I" and "kid m t i = Some c"
  shows "ptree m idx d c" "t \<notin> tabs m idx d c"
  using assms by simp_all

lemma ptree_disjoint:
  assumes "ptree m I (Suc d) t" and "i \<in> I" "j \<in> I" and "kid m t i = Some c" "kid m t j = Some c'" and "i \<noteq> j"
  shows "tabs m idx d c \<inter> tabs m idx d c' = {}"
  using assms by simp

lemma path_tabs:
  "path m t is = Some pt \<Longrightarrow> vpath I is \<Longrightarrow> length is = d \<Longrightarrow> pt \<in> tabs m I d t"
proof (induction "is" arbitrary: t I d)
  case (Cons i "is")
  then obtain c d' where c: "kid m t i = Some c" "path m c is = Some pt" "d = Suc d'" "length is = d'" "i \<in> I"
    by (auto simp: bind_eq_Some_conv)
  with Cons have "pt \<in> tabs m idx d' c" by auto
  with kid_tabs [OF c(5,1)] c(3) show ?case by blast
qed simp

lemma path_aligned:
  "path m t is = Some pt \<Longrightarrow> page_aligned t \<Longrightarrow> page_aligned pt"
  by (induction "is" arbitrary: t) (auto simp: bind_eq_Some_conv kid_def Let_def split: if_splits)

lemma path_inj:
  "ptree m I d t \<Longrightarrow> path m t is = Some pt \<Longrightarrow> path m t js = Some pt \<Longrightarrow> vpath I is \<Longrightarrow> vpath I js \<Longrightarrow>
   length is = d \<Longrightarrow> length js = d \<Longrightarrow> is = js"
proof (induction "is" arbitrary: js t I d)
  case (Cons i "is")
  then obtain c d' where c: "kid m t i = Some c" "path m c is = Some pt" "d = Suc d'" "length is = d'" "i \<in> I" "vpath idx is"
    by (auto simp: bind_eq_Some_conv)
  with Cons.prems obtain j ks c' where j: "js = j # ks" "kid m t j = Some c'" "path m c' ks = Some pt" "length ks = d'" "j \<in> I" "vpath idx ks"
    by (cases js) (auto simp: bind_eq_Some_conv)
  have "pt \<in> tabs m idx d' c" "pt \<in> tabs m idx d' c'" using path_tabs c j by auto
  then have "i = j" using ptree_disjoint [OF _ c(5) j(5) c(1) j(2)] Cons.prems(1) c(3) by blast
  then have "c = c'" using c j by simp
  with Cons.IH [of idx d' c ks] Cons.prems(1) c j \<open>i = j\<close> show ?case by auto
qed simp

text \<open>A table with one entry.\<close>

lemma single_kid:
  assumes "page_aligned t" and "i0 \<in> I" and k: "kid m t i0 = Some c" and c: "ptree m idx d c" "t \<notin> tabs m idx d c"
    and one: "\<And>i c'. i \<in> I \<Longrightarrow> kid m t i = Some c' \<Longrightarrow> i = i0" and small: "\<And>i. i \<in> I \<Longrightarrow> present (m (slot t i)) \<Longrightarrow> \<not> huge (m (slot t i))"
  shows "ptree m I (Suc d) t \<and> tabs m I (Suc d) t = insert t (tabs m idx d c)"
proof
  have z: "c' = c" if "i \<in> I" "kid m t i = Some c'" for i c' using one [OF that] that(2) k by simp
  have "ptree m idx d c' \<and> t \<notin> tabs m idx d c'" if "i \<in> I" "kid m t i = Some c'" for i c'
    using c unfolding z [OF that] by blast
  moreover have "tabs m idx d c1 \<inter> tabs m idx d c2 = {}" if "i \<in> I" "j \<in> I" "kid m t i = Some c1" "kid m t j = Some c2" "i \<noteq> j" for i j c1 c2
    using one [OF that(1,3)] one [OF that(2,4)] that(5) by simp
  ultimately show "ptree m I (Suc d) t" using assms(1) small unfolding ptree.simps(2) by blast
  have "(\<Union>c\<in>set_option (kid m t i). tabs m idx d c) = (if i = i0 then tabs m idx d c else {})" if "i \<in> I" for i
    using one [OF that] k by (cases "kid m t i") auto
  then have "(\<Union>i\<in>I. \<Union>c\<in>set_option (kid m t i). tabs m idx d c) = tabs m idx d c"
    using assms(2) by (simp cong: SUP_cong) (auto split: if_splits)
  then show "tabs m I (Suc d) t = insert t (tabs m idx d c)" unfolding tabs.simps(2) by simp
qed

text \<open>Only the tables of a tree matter for it.\<close>

lemma kid_cong:
  assumes "page_aligned t" and "i < 512" and "\<forall>a. page_of a = t \<longrightarrow> m' a = m a"
  shows "kid m' t i = kid m t i"
  using assms by (simp add: kid_def)

lemma entry_cong:
  assumes "page_aligned t" and "I \<subseteq> idx" and "\<forall>a. page_of a = t \<longrightarrow> m' a = m a"
  shows "\<forall>i\<in>I. m' (slot t i) = m (slot t i)"
  using assms by auto

lemma tree_cong:
  assumes "ptree m I d t" and "\<forall>a. page_of a \<in> tabs m I d t \<longrightarrow> m' a = m a" and "I \<subseteq> idx"
  shows "tabs m' I d t = tabs m I d t \<and> ptree m' I d t"
  using assms
proof (induction d arbitrary: I t)
  case (Suc d)
  have k: "kid m' t i = kid m t i" if "i \<in> I" for i
    using Suc.prems that by (intro kid_cong) auto
  have c: "tabs m' idx d c = tabs m idx d c \<and> ptree m' idx d c" if "i \<in> I" "kid m t i = Some c" for i c
  proof (rule Suc.IH)
    show "ptree m idx d c" using ptree_kid [OF Suc.prems(1) that] by simp
    show "\<forall>a. page_of a \<in> tabs m idx d c \<longrightarrow> m' a = m a" using Suc.prems(2) kid_tabs [OF that] by blast
  qed simp
  have "tabs m' I (Suc d) t = tabs m I (Suc d) t" using k c by auto
  moreover have "\<forall>i\<in>I. m' (slot t i) = m (slot t i)" using Suc.prems by (intro entry_cong) auto
  then have "ptree m' I (Suc d) t" using Suc.prems(1) k c by simp
  ultimately show ?case by simp
qed simp

lemma path_cong:
  "ptree m I d t \<Longrightarrow> \<forall>a. page_of a \<in> tabs m I d t \<longrightarrow> m' a = m a \<Longrightarrow> I \<subseteq> idx \<Longrightarrow> vpath I is \<Longrightarrow> length is = d \<Longrightarrow>
   path m' t is = path m t is"
proof (induction "is" arbitrary: I d t)
  case (Cons i "is")
  then obtain d' where d: "d = Suc d'" "length is = d'" by auto
  have k: "kid m' t i = kid m t i" using Cons.prems by (intro kid_cong) (auto simp: d)
  have "path m' c is = path m c is" if "kid m t i = Some c" for c
  proof (rule Cons.IH [of idx d'])
    have i: "i \<in> I" using Cons.prems by simp
    show "ptree m idx d' c" using ptree_kid [OF _ i that] Cons.prems(1) d by simp
    show "\<forall>a. page_of a \<in> tabs m idx d' c \<longrightarrow> m' a = m a" using Cons.prems(2) kid_tabs [OF i that, of d'] d by blast
  qed (use Cons.prems d in simp_all)
  with k show ?case by (cases "kid m t i") auto
qed simp

lemma look_cong:
  assumes "ptree m I d t" "\<forall>a. page_of a \<in> tabs m I d t \<longrightarrow> m' a = m a" "I \<subseteq> idx" "vpath I is" "length is = d" "i < 512"
  shows "look m' t is i = look m t is i"
proof (cases "path m t is")
  case (Some pt)
  have "m' (slot pt i) = m (slot pt i)"
    using assms(2) path_tabs [OF Some assms(4,5)] path_aligned [OF Some ptree_aligned [OF assms(1)]] assms(6) by simp
  with Some path_cong [OF assms(1-5)] show ?thesis by (simp add: look_def)
qed (simp add: look_def path_cong [OF assms(1-5)])

section \<open>Writing an entry of a page table\<close>

lemma write_leaf:
  assumes "ptree m I d t" "path m t is = Some pt" "vpath I is" "length is = d" "I \<subseteq> idx"
    and m': "\<forall>a. page_of a \<noteq> pt \<longrightarrow> m' a = m a"
  shows "ptree m' I d t \<and> tabs m' I d t = tabs m I d t \<and> (\<forall>js. vpath I js \<and> length js = d \<longrightarrow> path m' t js = path m t js)"
  using assms(1-5)
proof (induction "is" arbitrary: I d t)
  case (Cons i "is")
  then obtain c d' where c: "kid m t i = Some c" "path m c is = Some pt" "d = Suc d'" "length is = d'" "i \<in> I" "vpath idx is"
    by (auto simp: bind_eq_Some_conv)
  have pt: "pt \<in> tabs m idx d' c" using path_tabs c by auto
  have IH: "ptree m' idx d' c \<and> tabs m' idx d' c = tabs m idx d' c \<and>
      (\<forall>js. vpath idx js \<and> length js = d' \<longrightarrow> path m' c js = path m c js)"
    using Cons.prems(1) c by (intro Cons.IH) auto
  have al: "page_aligned t" and tc: "t \<notin> tabs m idx d' c" using Cons.prems(1) c by auto
  have k: "kid m' t j = kid m t j" if "j \<in> I" for j
    using that Cons.prems(5) al m' tc pt by (intro kid_cong) auto
  have o: "\<forall>a. page_of a \<in> tabs m idx d' c' \<longrightarrow> m' a = m a" "ptree m idx d' c'"
    if "j \<in> I" "j \<noteq> i" "kid m t j = Some c'" for j c'
  proof -
    have p: "ptree m I (Suc d') t" using Cons.prems(1) c(3) by simp
    show "ptree m idx d' c'" using ptree_kid [OF p that(1,3)] by simp
    have "tabs m idx d' c' \<inter> tabs m idx d' c = {}" by (rule ptree_disjoint [OF p that(1) c(5) that(3) c(1) that(2)])
    then have "pt \<notin> tabs m idx d' c'" using pt by blast
    then show "\<forall>a. page_of a \<in> tabs m idx d' c' \<longrightarrow> m' a = m a" using m' by metis
  qed
  have all: "ptree m' idx d' c' \<and> tabs m' idx d' c' = tabs m idx d' c' \<and>
      (\<forall>js. vpath idx js \<and> length js = d' \<longrightarrow> path m' c' js = path m c' js)" if "j \<in> I" "kid m t j = Some c'" for j c'
  proof (cases "j = i")
    case True
    with that c IH show ?thesis by simp
  next
    case False
    from tree_cong [OF o(2,1) [OF that(1) False that(2)]] path_cong [OF o(2,1) [OF that(1) False that(2)]] show ?thesis by blast
  qed
  have "t \<noteq> pt" using tc pt by blast
  then have "\<forall>j\<in>I. m' (slot t j) = m (slot t j)" using m' al Cons.prems(5) by (intro entry_cong) auto
  then have "ptree m' I d t" using Cons.prems(1) k all unfolding c(3) by simp
  moreover have "tabs m' I d t = tabs m I d t" using k all unfolding c(3) by auto
  moreover have "path m' t js = path m t js" if v: "vpath I js" "length js = d" for js
  proof -
    obtain j ks where "js = j # ks" "j \<in> I" "vpath idx ks" "length ks = d'" using v c(3) by (cases js) auto
    with k all show ?thesis by (cases "kid m t j") auto
  qed
  ultimately show ?case by blast
qed simp

lemma look_write:
  assumes "ptree m I d t" "path m t is = Some pt" "vpath I is" "length is = d" "I \<subseteq> idx" "i < 512"
    and "vpath I js" "length js = d" "j < 512"
  shows "look (m(slot pt i := v)) t js j = (if js = is \<and> j = i then (if present v then Some v else None) else look m t js j)"
proof -
  have al: "page_aligned pt" using path_aligned [OF assms(2) ptree_aligned [OF assms(1)]] .
  have p: "path (m(slot pt i := v)) t js = path m t js"
    using write_leaf [OF assms(1-5), of "m(slot pt i := v)"] al assms(6-8) by auto
  show ?thesis
  proof (cases "path m t js")
    case None
    with assms(2) p show ?thesis by (auto simp: look_def)
  next
    case (Some q)
    have q: "page_aligned q" using path_aligned [OF Some ptree_aligned [OF assms(1)]] .
    have "slot q j = slot pt i \<longleftrightarrow> js = is \<and> j = i"
      using entry_slot_inj [OF q al assms(9,6)] path_inj [OF assms(1) Some _ assms(7,3,8,4)] assms(2) Some by auto
    then show ?thesis by (auto simp: look_def Let_def Some p)
  qed
qed

section \<open>Growing a tree\<close>

text \<open>
  \<open>grows U m I d t N m'\<close>: the tables \<open>N\<close> are new in the tree, no mapping has changed, and nothing in the pages
  \<open>U\<close> outside the tree.
\<close>

definition grows :: "u64 set \<Rightarrow> (u64 \<Rightarrow> u64) \<Rightarrow> u64 set \<Rightarrow> nat \<Rightarrow> u64 \<Rightarrow> u64 set \<Rightarrow> (u64 \<Rightarrow> u64) \<Rightarrow> bool" where
  "grows U m I d t N m' \<longleftrightarrow> ptree m' I d t \<and> tabs m' I d t = tabs m I d t \<union> N \<and>
     (\<forall>a. page_of a \<in> U - (tabs m I d t \<union> N) \<longrightarrow> m' a = m a) \<and>
     (\<forall>js j. vpath I js \<and> length js = d \<and> j < 512 \<longrightarrow> look m' t js j = look m t js j)"

lemma grows_refl: "ptree m I d t \<Longrightarrow> grows U m I d t {} m"
  by (simp add: grows_def)

lemma grows_same:
  assumes "ptree m I d t" and "I \<subseteq> idx" and "tabs m I d t \<subseteq> U" and "\<forall>a. page_of a \<in> U \<longrightarrow> m' a = m a"
  shows "grows U m I d t {} m'"
proof -
  have eq: "\<forall>a. page_of a \<in> tabs m I d t \<longrightarrow> m' a = m a" using assms(3,4) by blast
  show ?thesis using tree_cong [OF assms(1) eq assms(2)] look_cong [OF assms(1) eq assms(2)] assms(4) by (simp add: grows_def)
qed

lemma grows_trans: "grows U m I d t N m' \<Longrightarrow> grows U' m' I d t N' m'' \<Longrightarrow> U \<subseteq> U' \<Longrightarrow> grows U m I d t (N \<union> N') m''"
  unfolding grows_def by (auto simp: Un_assoc)

lemma grows_kid:
  assumes "ptree m I (Suc d) t" and "kid m t i = Some c" and "i \<in> I" and "I \<subseteq> idx"
    and g: "grows U m idx d c N m'" and N: "N \<inter> tabs m I (Suc d) t = {}" and U: "tabs m I (Suc d) t \<subseteq> U"
  shows "grows U m I (Suc d) t N m'"
proof -
  have al: "page_aligned t" and tc: "t \<notin> tabs m idx d c" using assms(1-3) by auto
  have fr: "m' a = m a" if "page_of a \<in> U" "page_of a \<notin> tabs m idx d c" "page_of a \<notin> N" for a using g that by (auto simp: grows_def)
  have tU: "t \<in> U" using U by auto
  have tN: "t \<notin> N" using N by auto
  have k: "kid m' t j = kid m t j" if "j \<in> I" for j
    using that assms(4) al fr tU tc tN by (intro kid_cong) auto
  have o: "ptree m idx d c'" "\<forall>a. page_of a \<in> tabs m idx d c' \<longrightarrow> m' a = m a"
    if "j \<in> I" "j \<noteq> i" "kid m t j = Some c'" for j c'
  proof -
    show "ptree m idx d c'" using assms(1) that by simp
    have "tabs m idx d c' \<inter> tabs m idx d c = {}" using assms(1-3) that by simp
    moreover have "tabs m idx d c' \<inter> N = {}" "tabs m idx d c' \<subseteq> U" using N U kid_tabs [OF that(1,3)] by blast+
    ultimately show "\<forall>a. page_of a \<in> tabs m idx d c' \<longrightarrow> m' a = m a" using fr by blast
  qed
  have T: "tabs m' idx d c' = (if j = i then tabs m idx d c \<union> N else tabs m idx d c') \<and> ptree m' idx d c'"
    if "j \<in> I" "kid m t j = Some c'" for j c'
    using g that assms(2) tree_cong [OF o [OF that(1) _ that(2)]] by (auto simp: grows_def)
  have "tabs m' I (Suc d) t = tabs m I (Suc d) t \<union> N"
    using k T assms(2,3) by (auto split: if_splits)
  moreover have "ptree m' I (Suc d) t"
  proof -
    have "t \<notin> tabs m' idx d c'" if "j \<in> I" "kid m t j = Some c'" for j c'
      using T [OF that] tc tN assms(1) that by (auto split: if_splits)
    moreover have "tabs m' idx d c1 \<inter> tabs m' idx d c2 = {}"
      if "j1 \<in> I" "kid m t j1 = Some c1" "j2 \<in> I" "kid m t j2 = Some c2" "j1 \<noteq> j2" for j1 c1 j2 c2
    proof -
      have "tabs m idx d c1 \<inter> tabs m idx d c2 = {}" using assms(1) that by simp
      moreover have "tabs m idx d c1 \<inter> N = {}" "tabs m idx d c2 \<inter> N = {}"
        using N kid_tabs [OF that(1,2)] kid_tabs [OF that(3,4)] by blast+
      ultimately show ?thesis using T [OF that(1,2)] T [OF that(3,4)] that assms(2) by auto
    qed
    moreover have "\<forall>j\<in>I. m' (slot t j) = m (slot t j)" using fr tU tc tN al assms(4) by (intro entry_cong) auto
    ultimately show ?thesis using al k T assms(1) by simp
  qed
  moreover have "look m' t js j = look m t js j" if v: "vpath I js" "length js = Suc d" "j < 512" for js j
  proof -
    obtain j0 ks where js: "js = j0 # ks" "j0 \<in> I" "vpath idx ks" "length ks = d" using v by (cases js) auto
    have "look m' c' ks j = look m c' ks j" if "kid m t j0 = Some c'" for c'
      using g that assms(2) js v(3) look_cong [OF o [OF js(2) _ that]] by (cases "j0 = i") (auto simp: grows_def)
    then show ?thesis using k [OF js(2)] by (cases "kid m t j0") (simp_all add: js look_Cons)
  qed
  moreover have "m' a = m a" if "page_of a \<in> U - (tabs m I (Suc d) t \<union> N)" for a
    using fr that kid_tabs [OF assms(3,2)] by blast
  ultimately show ?thesis by (simp add: grows_def)
qed

text \<open>Linking a cleared page into an empty entry.\<close>

lemma not_present_0 [simp]: "\<not> present 0"
  by (simp add: present_def)

lemma cleared_table:
  assumes "\<forall>a. page_of a = p \<longrightarrow> m a = 0" and "page_aligned p"
  shows "I \<subseteq> idx \<Longrightarrow> ptree m I d p \<and> tabs m I d p = {p}"
    and "vpath I is \<Longrightarrow> I \<subseteq> idx \<Longrightarrow> j < 512 \<Longrightarrow> look m p is j = None"
proof -
  have k: "kid m p i = None" if "i < 512" for i using assms that by (simp add: kid_def)
  show "ptree m I d p \<and> tabs m I d p = {p}" if "I \<subseteq> idx" using that k assms by (cases d) auto
  show "look m p is j = None" if "vpath I is" "I \<subseteq> idx" "j < 512"
  proof (cases "is")
    case Nil
    then show ?thesis using assms that by (simp add: look_def)
  next
    case (Cons i js)
    then show ?thesis using k [of i] that by (auto simp: look_def)
  qed
qed

lemma grows_link:
  assumes "ptree m I (Suc d) t" and "\<not> present (m (slot t i))" and "i \<in> I" and "I \<subseteq> idx"
    and "p \<notin> tabs m I (Suc d) t" and "page_aligned p" and en: "present en" "\<not> huge en" "page_of en = p"
    and U: "tabs m I (Suc d) t \<subseteq> U"
    and m': "m' (slot t i) = en" "\<forall>a. page_of a = p \<longrightarrow> m' a = 0" "\<forall>a. page_of a \<in> U - {p} \<longrightarrow> a \<noteq> slot t i \<longrightarrow> m' a = m a"
  shows "grows U m I (Suc d) t {p} m'"
proof -
  have al: "page_aligned t" and pt: "p \<noteq> t" using assms(1,5) by auto
  have i: "i < 512" using assms(3,4) by auto
  have s: "page_of (slot t i) = t" "t \<in> U - {p}" using al i pt U by auto
  have k: "kid m' t j = (if j = i then Some p else kid m t j)" if "j \<in> I" for j
  proof -
    have "j < 512" using that assms(4) by auto
    then have "slot t j = slot t i \<longleftrightarrow> j = i" "page_of (slot t j) = t" using entry_slot_inj [OF al al _ i] al by auto
    then show ?thesis using m' en pt s by (simp add: kid_def)
  qed
  have ki: "kid m t i = None" using assms(2) by (simp add: kid_def)
  note cl = cleared_table [OF m'(2) assms(6)]
  have o: "ptree m idx d c" "\<forall>a. page_of a \<in> tabs m idx d c \<longrightarrow> m' a = m a"
    if "j \<in> I" "kid m t j = Some c" for j c
  proof -
    have "p \<notin> tabs m idx d c" "tabs m idx d c \<subseteq> U" using assms(5) U kid_tabs [OF that] by blast+
    with m'(3) s assms(1) that show "ptree m idx d c" "\<forall>a. page_of a \<in> tabs m idx d c \<longrightarrow> m' a = m a" by auto
  qed
  have T: "tabs m' idx d c = tabs m idx d c \<and> ptree m' idx d c" if "j \<in> I" "kid m t j = Some c" for j c
    using tree_cong [OF o [OF that]] by simp
  have cp: "tabs m' idx d p = {p}" "ptree m' idx d p" using cl(1) [of idx d] by auto
  have "tabs m' I (Suc d) t = tabs m I (Suc d) t \<union> {p}"
  proof -
    have "(\<Union>c\<in>set_option (kid m' t j). tabs m' idx d c) =
        (if j = i then {p} else {}) \<union> (\<Union>c\<in>set_option (kid m t j). tabs m idx d c)" if "j \<in> I" for j
      using k [OF that] T [OF that] ki cp by (cases "kid m t j") auto
    then show ?thesis using assms(3) by (auto split: if_splits)
  qed
  moreover have "ptree m' I (Suc d) t"
  proof -
    have pc: "p \<notin> tabs m idx d c" if "j \<in> I" "kid m t j = Some c" for j c using assms(5) kid_tabs [OF that] by blast
    have "ptree m' idx d c \<and> t \<notin> tabs m' idx d c" if "j \<in> I" "kid m' t j = Some c" for j c
      using that k T cp pt ptree_kid(2) [OF assms(1)] by (cases "j = i") auto
    moreover have "tabs m' idx d c \<inter> tabs m' idx d c' = {}"
      if "j \<in> I" "j' \<in> I" "j \<noteq> j'" "kid m' t j = Some c" "kid m' t j' = Some c'" for j j' c c'
      using that k T cp pc ptree_disjoint [OF assms(1) that(1,2) _ _ that(3)] by (cases "j = i"; cases "j' = i") auto
    moreover have "\<not> (present (m' (slot t j)) \<and> huge (m' (slot t j)))" if "j \<in> I" for j
    proof (cases "j = i")
      case True
      then show ?thesis using m'(1) en(2) by simp
    next
      case False
      have "j < 512" using that assms(4) by auto
      then have "page_of (slot t j) = t" "slot t j \<noteq> slot t i" using al entry_slot_inj [OF al al _ i, of j] False by auto
      then have "m' (slot t j) = m (slot t j)" using m'(3) s(2) by metis
      then show ?thesis using assms(1) that by simp
    qed
    ultimately show ?thesis using al by simp
  qed
  moreover have "look m' t js j = look m t js j" if v: "vpath I js" "length js = Suc d" "j < 512" for js j
  proof -
    obtain j0 ks where js: "js = j0 # ks" "j0 \<in> I" "vpath idx ks" "length ks = d" using v by (cases js) auto
    show ?thesis
    proof (cases "j0 = i")
      case True
      then show ?thesis using k [OF assms(3)] ki cl(2) [of idx ks j] js v(3) by (simp add: look_Cons)
    next
      case False
      then show ?thesis using k [OF js(2)] look_cong [OF o [OF js(2)]] js v(3) by (cases "kid m t j0") (simp_all add: look_Cons)
    qed
  qed
  moreover have "m' a = m a" if "page_of a \<in> U - (tabs m I (Suc d) t \<union> {p})" for a using m' s that by auto
  ultimately show ?thesis by (simp add: grows_def)
qed

declare ptree.simps(2) [simp del] tabs.simps(2) [simp del]

end
