(* ===== verification/Kmalloc_Ops.thy ===== *)
theory Kmalloc_Ops
  imports Kmalloc_Props
begin

text \<open>
  Every operation of the heap keeps the invariant of \<open>Kmalloc_Props\<close>: moves of one slot between the
  bitmap, the magazines and the clients, new slabs, large objects, the flushes and the compaction.
\<close>

section \<open>Setting one bit of a slab\<close>

lemma count_update:
  assumes "i < t" and "t \<le> length bm"
  shows "bm ! i \<Longrightarrow> length (filter (\<lambda>b. b) (take t bm)) = Suc (length (filter (\<lambda>b. b) (take t (bm[i := False]))))"
    "\<not> bm ! i \<Longrightarrow> length (filter (\<lambda>b. b) (take t (bm[i := True]))) = Suc (length (filter (\<lambda>b. b) (take t bm)))"
proof -
  have c: "length (filter (\<lambda>b. b) (take t xs)) = card {j. j < t \<and> xs ! j}" if "length xs = length bm" for xs :: "bool list"
    unfolding length_filter_conv_card using that assms(2) by (intro arg_cong [of _ _ card]) auto
  have f: "finite {j. j < t \<and> P j}" for P by simp
  assume b: "bm ! i"
  have "{j. j < t \<and> bm ! j} = insert i {j. j < t \<and> bm[i := False] ! j}" "i \<notin> {j. j < t \<and> bm[i := False] ! j}"
    using b assms by (auto simp: nth_list_update)
  then show "length (filter (\<lambda>b. b) (take t bm)) = Suc (length (filter (\<lambda>b. b) (take t (bm[i := False]))))"
    using c [of bm] c [of "bm[i := False]"] f by simp
next
  have c: "length (filter (\<lambda>b. b) (take t xs)) = card {j. j < t \<and> xs ! j}" if "length xs = length bm" for xs :: "bool list"
    unfolding length_filter_conv_card using that assms(2) by (intro arg_cong [of _ _ card]) auto
  have f: "finite {j. j < t \<and> P j}" for P by simp
  assume b: "\<not> bm ! i"
  have "{j. j < t \<and> bm[i := True] ! j} = insert i {j. j < t \<and> bm ! j}" "i \<notin> {j. j < t \<and> bm ! j}"
    using b assms by (auto simp: nth_list_update)
  then show "length (filter (\<lambda>b. b) (take t (bm[i := True]))) = Suc (length (filter (\<lambda>b. b) (take t bm)))"
    using c [of bm] c [of "bm[i := True]"] f by simp
qed

definition set_bit_to :: "u64 \<Rightarrow> nat \<Rightarrow> bool \<Rightarrow> u16 \<Rightarrow> u64 \<Rightarrow> 's kheap \<Rightarrow> 's kheap" where
  "set_bit_to v i b c u h = (upd_page v (\<lambda>g. g\<lparr>kp_bitmap := (kp_bitmap g)[i := b], kp_free_count := c\<rparr>) h)\<lparr>kh_used := u\<rparr>"

lemma set_bit_fields [simp]:
  "kh_slabs (set_bit_to v i b c u h) = kh_slabs h" "kh_mag (set_bit_to v i b c u h) = kh_mag h"
  "kh_pmm (set_bit_to v i b c u h) = kh_pmm h" "mags (set_bit_to v i b c u h) = mags h"
  "slab_pages (set_bit_to v i b c u h) = slab_pages h" "is_slot (set_bit_to v i b c u h) = is_slot h"
  "heap_pages (set_bit_to v i b c u h) B = heap_pages h B"
  by (simp_all add: set_bit_to_def upd_page_def mags_def slab_pages_def is_slot_def heap_pages_def fun_eq_iff)

lemma set_bit_pages: "kh_pages (set_bit_to v i b c u h) w =
    (if w = v then (kh_pages h v)\<lparr>kp_bitmap := (kp_bitmap (kh_pages h v))[i := b], kp_free_count := c\<rparr> else kh_pages h w)"
  by (simp add: set_bit_to_def upd_page_def)

text \<open>The new free count of the slab.\<close>

definition new_count :: "bool \<Rightarrow> u16 \<Rightarrow> u16" where
  "new_count b c = (if b then c + 1 else c - 1)"

lemma set_bit_wf:
  fixes h :: "'s kheap" and u :: u64
  assumes wf: "slab_wf h" and s: "is_slot h idx v i" and b: "kp_bitmap (kh_pages h v) ! i = (\<not> b)"
  defines "h' \<equiv> set_bit_to v i b (new_count b (kp_free_count (kh_pages h v))) u h"
  shows "slab_wf h'" "used_slot h' idx' w j \<longleftrightarrow> (if w = v \<and> j = i then is_slot h idx' w j \<and> \<not> b else used_slot h idx' w j)"
    "big_wf h B \<Longrightarrow> big_wf h' B"
proof -
  let ?g = "kh_pages h v" let ?t = "slab_total idx"
  have v: "v \<in> set (kh_slabs h idx)" "i < ?t" using s by (simp_all add: is_slot_def)
  note sl = slab_wfD [OF wf v(1)]
  have ok: "unat (kp_total ?g) = ?t" "length (kp_bitmap ?g) = SLAB_MAX_OBJS"
      "unat (kp_free_count ?g) = length (filter (\<lambda>b. b) (take ?t (kp_bitmap ?g)))"
    using sl(2) by (simp_all add: slab_ok_def)
  have t: "?t \<le> length (kp_bitmap ?g)" "?t \<le> 128" using ok(2) slab_total_class(3) [OF sl(1)] by (simp_all add: SLAB_MAX_OBJS_def)
  have le: "unat (kp_free_count ?g) \<le> 128" using ok(3) t(2) length_filter_le [of "\<lambda>b. b" "take ?t (kp_bitmap ?g)"] by simp
  have "unat (new_count b (kp_free_count ?g)) = length (filter (\<lambda>b. b) (take ?t ((kp_bitmap ?g)[i := b])))"
  proof (cases b)
    case True
    have "unat (kp_free_count ?g + 1) = Suc (unat (kp_free_count ?g))" using le by (simp add: unat_word_ariths)
    with True count_update(2) [OF v(2) t(1)] b ok(3) show ?thesis by (simp add: new_count_def)
  next
    case False
    with count_update(1) [OF v(2) t(1)] b ok(3)
    have c: "unat (kp_free_count ?g) = Suc (length (filter (\<lambda>b. b) (take ?t ((kp_bitmap ?g)[i := False]))))" by simp
    then have "kp_free_count ?g \<noteq> 0" by auto
    then have "unat (kp_free_count ?g - 1) = unat (kp_free_count ?g) - 1" by (simp add: unat_minus_one)
    with False c show ?thesis by (simp add: new_count_def)
  qed
  then have "slab_ok idx v (kh_pages h' v)" using sl(2) by (simp add: slab_ok_def h'_def set_bit_pages)
  moreover have "x = idx" if "v \<in> set (kh_slabs h x)" for x using slab_class_unique [OF wf that v(1)] .
  ultimately show "slab_wf h'" using wf by (auto simp: slab_wf_def h'_def set_bit_pages)
  have "i < length (kp_bitmap ?g)" using v(2) t(1) by simp
  then show "used_slot h' idx' w j \<longleftrightarrow> (if w = v \<and> j = i then is_slot h idx' w j \<and> \<not> b else used_slot h idx' w j)"
    by (auto simp: used_slot_def h'_def set_bit_pages nth_list_update)
  have "v \<in> slab_pages h" using v(1) by (auto simp: slab_pages_def)
  then have "w \<noteq> v" if "big_wf h B" "B w = Some k" for w k
  proof -
    have "w \<in> run_of w k" using that by (auto simp: big_wf_def run_of_def intro!: image_eqI [of _ _ 0])
    with that \<open>v \<in> slab_pages h\<close> show ?thesis by (auto simp: big_wf_def)
  qed
  then show "big_wf h B \<Longrightarrow> big_wf h' B" unfolding big_wf_def h'_def set_bit_fields by (simp add: set_bit_pages)
qed

lemma set_bit_used_addr:
  fixes h :: "'s kheap" and u :: u64
  assumes wf: "slab_wf h" and s: "is_slot h idx v i" and b: "kp_bitmap (kh_pages h v) ! i = (\<not> b)"
  defines "h' \<equiv> set_bit_to v i b (new_count b (kp_free_count (kh_pages h v))) u h"
  shows "used_addr h' idx' p \<longleftrightarrow>
    (if p = slot_addr v idx i then idx' = idx \<and> \<not> b else used_addr h idx' p)"
proof -
  note us = set_bit_wf(2) [OF wf s b, of u, folded h'_def]
  show ?thesis
  proof (cases "p = slot_addr v idx i")
    case True
    have "used_slot h' idx' w j \<longleftrightarrow> idx' = idx \<and> w = v \<and> j = i \<and> \<not> b" if "p = slot_addr w idx' j" for w j
    proof -
      have "idx' = idx \<and> w = v \<and> j = i" if "is_slot h idx' w j"
        using slot_addr_inj [OF wf that s] True \<open>p = slot_addr w idx' j\<close> by simp
      moreover have "used_slot h' idx' w j \<Longrightarrow> is_slot h idx' w j" by (simp add: used_slot_def h'_def)
      moreover have "used_slot h' idx v i \<longleftrightarrow> \<not> b" using us [of idx v i] s by simp
      ultimately show ?thesis by blast
    qed
    then have "used_addr h' idx' p \<longleftrightarrow> (\<exists>w j. p = slot_addr w idx' j \<and> idx' = idx \<and> w = v \<and> j = i \<and> \<not> b)"
      unfolding used_addr_def by blast
    with True show ?thesis by auto
  next
    case False
    have "used_slot h' idx' w j \<longleftrightarrow> used_slot h idx' w j" if "p = slot_addr w idx' j" for w j
    proof -
      have "idx' = idx" if "w = v" "is_slot h idx' w j" using slab_class_unique [OF wf] that s by (auto simp: is_slot_def)
      moreover have "used_slot h' idx' w j \<Longrightarrow> is_slot h idx' w j" "used_slot h idx' w j \<Longrightarrow> is_slot h idx' w j"
        by (simp_all add: used_slot_def h'_def)
      ultimately show ?thesis using us [of idx' w j] False that by metis
    qed
    then have "used_addr h' idx' p \<longleftrightarrow> used_addr h idx' p" unfolding used_addr_def by blast
    with False show ?thesis by simp
  qed
qed

lemma slot_not_large:
  assumes inv: "heap_inv own h B L" and s: "is_slot h idx v i"
  shows "\<not> live_large B (slot_addr v idx i) n"
proof
  note wf = heap_invD [OF inv]
  assume "live_large B (slot_addr v idx i) n"
  then obtain w k where w: "B w = Some k" "slot_addr v idx i = w + 8" by (auto simp: live_large_def)
  then have "page_aligned w" "w \<in> run_of w k" "run_of w k \<inter> slab_pages h = {}"
    using wf(3) by (auto simp: big_wf_def run_of_def intro!: image_eqI [of _ _ 0])
  moreover have "page_of (slot_addr v idx i) = v"
    by (rule slot_extent(2) [OF wf(1) s, of 1]) (simp_all add: extent_def)
  moreover have "page_of (w + of_nat 8) = w" using page_of_add [OF \<open>page_aligned w\<close>, of 8] by simp
  ultimately show False using w(2) s by (auto simp: slab_pages_def is_slot_def)
qed

section \<open>Moving one slot\<close>

text \<open>A slot that is in use but neither in a magazine nor held by a client.\<close>

definition limbo :: "'s kheap \<Rightarrow> (u64 \<times> nat) set \<Rightarrow> nat \<Rightarrow> u64 \<Rightarrow> bool" where
  "limbo h L idx p \<longleftrightarrow> used_addr h idx p \<and> p \<notin> mags h \<and> p \<notin> fst ` L"

lemma flush_obj_set_bit:
  assumes wf: "slab_wf h" and s: "is_slot h idx v i"
  shows "flush_obj (slot_addr v idx i) h =
    set_bit_to v i True (new_count True (kp_free_count (kh_pages h v))) (kh_used h - ucast (obj_size (idx + MIN_SLAB_SHIFT))) h"
proof -
  have v: "v \<in> set (kh_slabs h idx)" "i < slab_total idx" using s by (simp_all add: is_slot_def)
  note sl = slab_wfD [OF wf v(1)]
  have "page_of (slot_addr v idx i) = v" by (rule slot_extent(2) [OF wf s, of 1]) (simp_all add: extent_def)
  then show ?thesis using sl(2) v(2) slot_index_addr [OF sl(1) v(2)]
    by (simp add: flush_obj_def Let_def slab_ok_def set_bit_to_def new_count_def upd_page_def)
qed

lemma flush_obj_inv:
  assumes inv: "heap_inv own h B L" and p: "limbo h L idx p"
  shows "heap_inv own (flush_obj p h) B L" "kh_mag (flush_obj p h) = kh_mag h" "kh_slabs (flush_obj p h) = kh_slabs h"
    "kh_pmm (flush_obj p h) = kh_pmm h" "q \<noteq> p \<Longrightarrow> limbo (flush_obj p h) L idx q = limbo h L idx q"
proof -
  note wf = heap_invD [OF inv]
  from p obtain v i where s: "is_slot h idx v i" "\<not> kp_bitmap (kh_pages h v) ! i" "p = slot_addr v idx i"
    unfolding limbo_def used_addr_def used_slot_def by blast
  let ?h = "set_bit_to v i True (new_count True (kp_free_count (kh_pages h v))) (kh_used h - ucast (obj_size (idx + MIN_SLAB_SHIFT))) h"
  have eq: "flush_obj p h = ?h" unfolding s(3) by (rule flush_obj_set_bit [OF wf(1) s(1)])
  note sb = set_bit_wf [OF wf(1) s(1), of True] note ua = set_bit_used_addr [OF wf(1) s(1), of True]
  have u: "used_addr ?h idx' q \<longleftrightarrow> q \<noteq> p \<and> used_addr h idx' q" for idx' q using ua s(2,3) by simp
  show "kh_mag (flush_obj p h) = kh_mag h" "kh_slabs (flush_obj p h) = kh_slabs h" "kh_pmm (flush_obj p h) = kh_pmm h"
    by (simp_all add: eq)
  show "q \<noteq> p \<Longrightarrow> limbo (flush_obj p h) L idx q = limbo h L idx q" by (simp add: eq limbo_def u)
  have "q \<noteq> p" if "q \<in> set (kh_mag h c x)" for q c x using that p by (auto simp: limbo_def mags_def)
  then have "mag_wf ?h" using wf(2) unfolding mag_wf_def set_bit_fields u by blast
  moreover have "live_wf ?h B L"
  proof -
    have "q \<noteq> p" if "(q, n) \<in> L" for q n using that p by (force simp: limbo_def)
    with wf(4) show ?thesis unfolding live_wf_def live_small_def set_bit_fields u by blast
  qed
  ultimately show "heap_inv own (flush_obj p h) B L"
    using sb(1,3) s(2) wf unfolding eq heap_inv_def set_bit_fields by simp
qed

lemma flush_fold_inv:
  assumes "heap_inv own h B L" and "distinct zs" and "\<forall>p \<in> set zs. limbo h L idx p"
  shows "heap_inv own (fold flush_obj zs h) B L \<and> kh_mag (fold flush_obj zs h) = kh_mag h \<and>
    kh_slabs (fold flush_obj zs h) = kh_slabs h \<and> kh_pmm (fold flush_obj zs h) = kh_pmm h"
  using assms
proof (induction zs arbitrary: h)
  case (Cons p ps)
  note fo = flush_obj_inv [OF Cons.prems(1), of idx p]
  have lp: "limbo h L idx p" using Cons.prems(3) by simp
  have "\<forall>q \<in> set ps. limbo (flush_obj p h) L idx q"
    using flush_obj_inv(5) [OF Cons.prems(1) lp] Cons.prems(2,3) by (metis distinct.simps(2) list.set_intros(2))
  with Cons.IH [OF fo(1) [OF lp]] Cons.prems(2) fo(2-4) [OF lp] show ?case by simp
qed simp

lemma take_slot_inv:
  assumes inv: "heap_inv own h B L" and s: "is_slot h idx v i" and b: "kp_bitmap (kh_pages h v) ! i"
  shows "heap_inv own (snd (take_slot v i idx h)) B L" "limbo (snd (take_slot v i idx h)) L idx (fst (take_slot v i idx h))"
    "fst (take_slot v i idx h) = slot_addr v idx i" "kh_pmm (snd (take_slot v i idx h)) = kh_pmm h"
proof -
  note wf = heap_invD [OF inv]
  let ?p = "slot_addr v idx i"
  let ?h = "set_bit_to v i False (new_count False (kp_free_count (kh_pages h v))) (kh_used h + ucast (obj_size (idx + MIN_SLAB_SHIFT))) h"
  have c: "idx < SLAB_COUNT" using s slab_wfD(1) [OF wf(1)] by (auto simp: is_slot_def)
  have "(ucast (obj_size (idx + MIN_SLAB_SHIFT)) :: u64) = of_nat (2 ^ (idx + 4))"
    using obj_size_class [OF c] by (metis of_nat_unat)
  then have "v + of_nat SLAB_HEADER_SIZE + of_nat i * ucast (obj_size (idx + MIN_SLAB_SHIFT)) = ?p"
    by (simp add: slot_addr_def SLAB_HEADER_SIZE_def SLAB_MAX_OBJS_def)
  then have eq: "take_slot v i idx h = (?p, ?h)"
    by (simp add: take_slot_def Let_def set_bit_to_def new_count_def upd_page_def)
  then show "fst (take_slot v i idx h) = ?p" "kh_pmm (snd (take_slot v i idx h)) = kh_pmm h" by simp_all
  note sb = set_bit_wf [OF wf(1) s, of False] note ua = set_bit_used_addr [OF wf(1) s, of False]
  have u: "used_addr ?h idx' q \<longleftrightarrow> used_addr h idx' q \<or> idx' = idx \<and> q = ?p" for idx' q
  proof -
    have "\<not> used_addr h idx' ?p" for idx'
      using slot_addr_inj [OF wf(1) s] b by (auto simp: used_addr_def used_slot_def)
    then show ?thesis using ua b by auto
  qed
  have np: "\<not> used_addr h idx' ?p" for idx'
    using slot_addr_inj [OF wf(1) s] b by (auto simp: used_addr_def used_slot_def)
  have pm: "?p \<notin> mags h" using wf(2) np unfolding mag_wf_def mags_def by blast
  have pl: "?p \<notin> fst ` L"
    using wf(4) np slot_not_large [OF inv s] by (force simp: live_wf_def live_small_def)
  have "mag_wf ?h" using wf(2) unfolding mag_wf_def set_bit_fields u by blast
  moreover have "live_wf ?h B L" using wf(4) unfolding live_wf_def live_small_def set_bit_fields u by blast
  ultimately show "heap_inv own (snd (take_slot v i idx h)) B L"
    using sb(1,3) b wf unfolding eq snd_conv heap_inv_def set_bit_fields by simp
  show "limbo (snd (take_slot v i idx h)) L idx (fst (take_slot v i idx h))"
    unfolding eq limbo_def fst_conv snd_conv set_bit_fields u using pm pl by simp
qed

section \<open>Magazines\<close>

lemma set_mag_fields [simp]:
  "kh_slabs (set_mag c x ys h) = kh_slabs h" "kh_pages (set_mag c x ys h) = kh_pages h" "kh_pmm (set_mag c x ys h) = kh_pmm h"
  "slab_pages (set_mag c x ys h) = slab_pages h" "is_slot (set_mag c x ys h) = is_slot h"
  "used_addr (set_mag c x ys h) = used_addr h" "heap_pages (set_mag c x ys h) B = heap_pages h B"
  "slab_wf (set_mag c x ys h) = slab_wf h" "big_wf (set_mag c x ys h) B = big_wf h B"
  "kh_mag (set_mag c x ys h) d y = (if d = c \<and> y = x then ys else kh_mag h d y)"
  by (simp_all add: set_mag_def slab_pages_def is_slot_def used_addr_def used_slot_def heap_pages_def slab_wf_def big_wf_def fun_eq_iff)

lemma used_addr_unique: "slab_wf h \<Longrightarrow> used_addr h x p \<Longrightarrow> used_addr h y p \<Longrightarrow> x = y"
  unfolding used_addr_def used_slot_def using slot_addr_inj by blast

lemma mag_column: "(\<lambda>d. kh_mag (set_mag c x ys h) d y) = (if y = x then (\<lambda>d. kh_mag h d x)(c := ys) else (\<lambda>d. kh_mag h d y))"
  by (auto simp: fun_eq_iff)

lemma mag_cut:
  assumes inv: "heap_inv own h B L" and l: "kh_mag h c x = ys @ zs"
  shows "heap_inv own (set_mag c x ys h) B L" "distinct zs" "\<forall>p \<in> set zs. limbo (set_mag c x ys h) L x p"
proof -
  note wf = heap_invD [OF inv]
  let ?h = "set_mag c x ys h"
  have dl: "disjoint_lists (\<lambda>d. kh_mag h d y)" for y using wf(2) by (simp add: mag_wf_def)
  then have d: "distinct (ys @ zs)" using l by (metis disjoint_lists_def)
  then show "distinct zs" by simp
  have sub: "set (kh_mag ?h d y) \<subseteq> set (kh_mag h d y)" for d y using l by simp
  have m: "mags ?h \<subseteq> mags h" using sub unfolding mags_def by blast
  have "disjoint_lists (\<lambda>d. kh_mag ?h d y)" for y
    unfolding mag_column using dl disjoint_lists_sub [OF dl, of ys c x] d l by auto
  moreover have "length (kh_mag ?h d y) \<le> KMAG_SIZE" for d y
  proof -
    have "length (kh_mag h d y) \<le> KMAG_SIZE" "length (ys @ zs) \<le> KMAG_SIZE"
      using wf(2) l unfolding mag_wf_def by metis+
    then show ?thesis by simp
  qed
  moreover have "\<forall>d y. \<forall>p \<in> set (kh_mag ?h d y). used_addr ?h y p"
    using wf(2) sub unfolding mag_wf_def set_mag_fields(6) by blast
  moreover have "\<forall>d \<ge> KMAG_CPUS. \<forall>y. kh_mag ?h d y = []" using wf(2) l by (auto simp: mag_wf_def)
  ultimately have "mag_wf ?h" unfolding mag_wf_def by blast
  moreover have "live_wf ?h B L" using wf(4) m unfolding live_wf_def live_small_def set_mag_fields by blast
  ultimately show "heap_inv own ?h B L" using wf unfolding heap_inv_def set_mag_fields by simp
  show "\<forall>p \<in> set zs. limbo ?h L x p"
  proof
    fix p assume p: "p \<in> set zs"
    then have pm: "p \<in> set (kh_mag h c x)" using l by simp
    then have pm: "p \<in> set (kh_mag h c x)" "p \<in> mags h" unfolding mags_def by blast+
    then have u: "used_addr h x p" using wf(2) by (simp add: mag_wf_def)
    have "p \<notin> set (kh_mag ?h d' y')" for d' y'
    proof
      assume a: "p \<in> set (kh_mag ?h d' y')"
      then have "used_addr h y' p" using sub wf(2) unfolding mag_wf_def by blast
      then have "y' = x" using used_addr_unique [OF wf(1)] u by blast
      moreover have "d' = c" using dl [of x] a pm(1) sub \<open>y' = x\<close> unfolding disjoint_lists_def by blast
      ultimately show False using a p d by auto
    qed
    moreover have "p \<notin> fst ` L"
    proof
      assume "p \<in> fst ` L"
      then obtain n where "(p, n) \<in> L" by auto
      then have "live_large B p n" using wf(4) pm(2) by (auto simp: live_wf_def live_small_def)
      with slot_not_large [OF inv] used_addrD [OF u] show False by blast
    qed
    ultimately show "limbo ?h L x p" using u by (simp add: limbo_def mags_def)
  qed
qed

lemma mag_push:
  assumes inv: "heap_inv own h B L" and p: "limbo h L x p" and room: "length (kh_mag h c x) < KMAG_SIZE" and c: "c < KMAG_CPUS"
  shows "heap_inv own (set_mag c x (kh_mag h c x @ [p]) h) B L"
proof -
  note wf = heap_invD [OF inv]
  let ?h = "set_mag c x (kh_mag h c x @ [p]) h"
  have pn: "p \<notin> set (kh_mag h d y)" for d y using p by (auto simp: limbo_def mags_def)
  have dl: "disjoint_lists (\<lambda>d. kh_mag h d y)" for y using wf(2) by (simp add: mag_wf_def)
  then have "distinct (kh_mag h c x)" by (auto simp: disjoint_lists_def)
  then have "disjoint_lists (\<lambda>d. kh_mag ?h d y)" for y
    unfolding mag_column using dl disjoint_lists_add [OF dl [of x], of p "kh_mag h c x @ [p]" c] pn by auto
  moreover have "\<forall>d y. \<forall>q \<in> set (kh_mag ?h d y). used_addr h y q"
    using wf(2) p by (auto simp: mag_wf_def limbo_def)
  moreover have "\<forall>d y. length (kh_mag ?h d y) \<le> KMAG_SIZE" using wf(2) room by (auto simp: mag_wf_def)
  moreover have "\<forall>d \<ge> KMAG_CPUS. \<forall>y. kh_mag ?h d y = []" using wf(2) c by (auto simp: mag_wf_def)
  ultimately have "mag_wf ?h" unfolding mag_wf_def set_mag_fields(6) by blast
  moreover have m: "mags ?h \<subseteq> insert p (mags h)" by (auto simp: mags_def split: if_splits)
  have "q \<noteq> p" if "(q, n) \<in> L" for q n using that p by (force simp: limbo_def)
  then have "live_wf ?h B L" using wf(4) m unfolding live_wf_def live_small_def set_mag_fields(6) by blast
  ultimately show ?thesis using wf unfolding heap_inv_def set_mag_fields by simp
qed

text \<open>A client takes a slot, or gives it up.\<close>

lemma limbo_live:
  assumes inv: "heap_inv own h B L" and p: "limbo h L idx p" and "n \<le> 2 ^ (idx + 4)"
  shows "heap_inv own h B (insert (p, n) L)"
proof -
  note wf = heap_invD [OF inv]
  have "live_small h p n" using p assms(3) by (auto simp: limbo_def live_small_def)
  moreover have "(p, m) \<notin> L" for m using p by (force simp: limbo_def)
  ultimately have "live_wf h B (insert (p, n) L)" using wf(4) unfolding live_wf_def by blast
  then show ?thesis using wf by (simp add: heap_inv_def)
qed

lemma live_sub: "heap_inv own h B L \<Longrightarrow> L' \<subseteq> L \<Longrightarrow> heap_inv own h B L'"
  unfolding heap_inv_def live_wf_def by blast

lemma live_limbo:
  assumes inv: "heap_inv own h B L" and "(p, n) \<in> L" and "used_addr h idx p"
  shows "limbo h (L - {(p, n)}) idx p" "live_small h p n"
proof -
  note wf = heap_invD [OF inv]
  have "\<not> live_large B p n" using slot_not_large [OF inv] used_addrD [OF assms(3)] by blast
  then show "live_small h p n" using wf(4) assms(2) by (auto simp: live_wf_def)
  moreover have "(p, m) \<notin> L - {(p, n)}" for m using wf(4) assms(2) unfolding live_wf_def by blast
  ultimately show "limbo h (L - {(p, n)}) idx p" using assms(3) by (force simp: limbo_def live_small_def)
qed

section \<open>Flushing\<close>

lemma flush_obj_set_mag: "flush_obj p (set_mag c x ys h) = set_mag c x ys (flush_obj p h)"
  by (simp add: flush_obj_def Let_def set_mag_def upd_page_def)

lemma fold_flush_set_mag: "fold flush_obj zs (set_mag c x ys h) = set_mag c x ys (fold flush_obj zs h)"
  by (induction zs arbitrary: h) (simp_all add: flush_obj_set_mag)

lemma flush_tail_inv:
  assumes inv: "heap_inv own h B L" and l: "kh_mag h c x = ys @ zs"
  shows "heap_inv own (set_mag c x ys (fold flush_obj zs h)) B L"
    "kh_mag (set_mag c x ys (fold flush_obj zs h)) = (kh_mag h)(c := (kh_mag h c)(x := ys))"
    "kh_pmm (set_mag c x ys (fold flush_obj zs h)) = kh_pmm h"
    "kh_slabs (set_mag c x ys (fold flush_obj zs h)) = kh_slabs h"
proof -
  note cut = mag_cut [OF inv l]
  from flush_fold_inv [OF cut] show "heap_inv own (set_mag c x ys (fold flush_obj zs h)) B L"
    "kh_mag (set_mag c x ys (fold flush_obj zs h)) = (kh_mag h)(c := (kh_mag h c)(x := ys))"
    "kh_pmm (set_mag c x ys (fold flush_obj zs h)) = kh_pmm h"
    "kh_slabs (set_mag c x ys (fold flush_obj zs h)) = kh_slabs h"
    unfolding fold_flush_set_mag by (simp_all add: fun_eq_iff)
qed

lemma kmag_flush_inv:
  assumes "heap_inv own h B L"
  shows "heap_inv own (kmag_flush c x h) B L" "kh_mag (kmag_flush c x h) = (kh_mag h)(c := (kh_mag h c)(x := []))"
    "kh_pmm (kmag_flush c x h) = kh_pmm h" "kh_slabs (kmag_flush c x h) = kh_slabs h"
  using flush_tail_inv [OF assms, of c x "[]" "kh_mag h c x"] by (simp_all add: kmag_flush_def)

lemma flush_cpu_inv:
  assumes "heap_inv own h B L"
  shows "heap_inv own (flush_cpu c h) B L" "kh_mag (flush_cpu c h) = (kh_mag h)(c := (\<lambda>x. if x < SLAB_COUNT then [] else kh_mag h c x))"
    "kh_pmm (flush_cpu c h) = kh_pmm h" "kh_slabs (flush_cpu c h) = kh_slabs h"
proof -
  let ?f = "\<lambda>i (h :: 'a kheap). if kh_mag h c i \<noteq> [] then kmag_flush c i h else h"
  have step: "heap_inv own (?f i g) B L" "kh_mag (?f i g) = (kh_mag g)(c := (kh_mag g c)(i := []))"
      "kh_pmm (?f i g) = kh_pmm g" "kh_slabs (?f i g) = kh_slabs g" if "heap_inv own g B L" for i g
    using kmag_flush_inv [OF that, of c i] that by (auto simp: fun_eq_iff)
  have "heap_inv own (fold ?f is g) B L \<and> kh_mag (fold ?f is g) = (kh_mag g)(c := (\<lambda>x. if x \<in> set is then [] else kh_mag g c x)) \<and>
      kh_pmm (fold ?f is g) = kh_pmm g \<and> kh_slabs (fold ?f is g) = kh_slabs g" if "heap_inv own g B L" for "is" g
    using that
  proof (induction "is" arbitrary: g)
    case (Cons i js)
    note st = step [OF Cons.prems, of i]
    from Cons.IH [OF st(1)] show ?case unfolding fold.simps comp_apply st(2-4) by (auto simp: fun_eq_iff)
  qed simp
  from this [OF assms, of "[0..<SLAB_COUNT]"]
  show "heap_inv own (flush_cpu c h) B L" "kh_mag (flush_cpu c h) = (kh_mag h)(c := (\<lambda>x. if x < SLAB_COUNT then [] else kh_mag h c x))"
    "kh_pmm (flush_cpu c h) = kh_pmm h" "kh_slabs (flush_cpu c h) = kh_slabs h"
    by (simp_all add: flush_cpu_def)
qed

lemma kmag_flush_all_inv:
  assumes "heap_inv own h B L"
  shows "heap_inv own (kmag_flush_all h) B L" "c < KMAG_CPUS \<Longrightarrow> x < SLAB_COUNT \<Longrightarrow> kh_mag (kmag_flush_all h) c x = []"
    "kh_pmm (kmag_flush_all h) = kh_pmm h" "kh_slabs (kmag_flush_all h) = kh_slabs h"
    "c \<ge> KMAG_CPUS \<or> x \<ge> SLAB_COUNT \<Longrightarrow> kh_mag (kmag_flush_all h) c x = kh_mag h c x"
proof -
  have "heap_inv own (fold flush_cpu cs g) B L \<and> kh_pmm (fold flush_cpu cs g) = kh_pmm g \<and> kh_slabs (fold flush_cpu cs g) = kh_slabs g \<and>
      (\<forall>c x. kh_mag (fold flush_cpu cs g) c x = (if c \<in> set cs \<and> x < SLAB_COUNT then [] else kh_mag g c x))"
    if "heap_inv own g B L" for cs g
    using that
  proof (induction cs arbitrary: g)
    case (Cons c cs)
    note st = flush_cpu_inv [OF Cons.prems, of c]
    from Cons.IH [OF st(1)] show ?case unfolding fold.simps comp_apply st(2-4) by auto
  qed simp
  from this [OF assms, of "[0..<KMAG_CPUS]"]
  show "heap_inv own (kmag_flush_all h) B L" "c < KMAG_CPUS \<Longrightarrow> x < SLAB_COUNT \<Longrightarrow> kh_mag (kmag_flush_all h) c x = []"
    "kh_pmm (kmag_flush_all h) = kh_pmm h" "kh_slabs (kmag_flush_all h) = kh_slabs h"
    "c \<ge> KMAG_CPUS \<or> x \<ge> SLAB_COUNT \<Longrightarrow> kh_mag (kmag_flush_all h) c x = kh_mag h c x"
    by (auto simp: kmag_flush_all_def)
qed

end
