(* ===== verification/Kmalloc_Pages.thy ===== *)
theory Kmalloc_Pages
  imports Kmalloc_Ops
begin

text \<open>
  Pages that enter and leave the heap: new and emptied slabs, and large objects.
\<close>

lemma virt_run: "VIRT_TO_PHYS ` run_of v k = run_of (VIRT_TO_PHYS v) k"
  by (simp add: run_of_def image_image phys_add)

lemma run_first: "0 < k \<Longrightarrow> v \<in> run_of v k"
  by (auto simp: run_of_def intro!: image_eqI [of _ _ 0])

lemma run_one: "run_of v 1 = {v}" "run_of v (Suc 0) = {v}"
  by (auto simp: run_of_def)

lemma heap_page_own:
  assumes "heap_inv own h B L"
  shows "v \<in> slab_pages h \<Longrightarrow> VIRT_TO_PHYS v \<in> own (kh_pmm h)" "B v = Some k \<Longrightarrow> run_of (VIRT_TO_PHYS v) k \<subseteq> own (kh_pmm h)"
proof -
  note o = heap_invD(5) [OF assms]
  show "v \<in> slab_pages h \<Longrightarrow> VIRT_TO_PHYS v \<in> own (kh_pmm h)" using o by (auto simp: heap_pages_def)
  assume "B v = Some k"
  then have "run_of v k \<subseteq> heap_pages h B" by (auto simp: heap_pages_def)
  then show "run_of (VIRT_TO_PHYS v) k \<subseteq> own (kh_pmm h)" unfolding virt_run [symmetric] using o by blast
qed

section \<open>A change of the page allocator and the counters only\<close>

lemma pmm_change:
  assumes "heap_inv own h B L" and "VIRT_TO_PHYS ` heap_pages h B \<subseteq> own s"
  shows "heap_inv own (h\<lparr>kh_pmm := s, kh_used := u, kh_total := t\<rparr>) B L" "heap_inv own (h\<lparr>kh_pmm := s\<rparr>) B L"
    "heap_inv own (h\<lparr>kh_pmm := s, kh_total := t\<rparr>) B L"
  using assms unfolding heap_inv_def
  by (simp_all add: slab_wf_def mag_wf_def big_wf_def live_wf_def live_small_def used_addr_def used_slot_def is_slot_def
        mags_def slab_pages_def heap_pages_def)

section \<open>A new slab\<close>

lemma slab_header_ok:
  assumes "idx < SLAB_COUNT" and "page_aligned v"
  shows "slab_ok idx v (slab_header idx)" "i < slab_total idx \<Longrightarrow> kp_bitmap (slab_header idx) ! i"
proof -
  have t: "slab_total idx \<le> 128" by (rule slab_total_class(3) [OF assms(1)])
  have u: "unat (of_nat (slab_total idx) :: u16) = slab_total idx" "unat (of_nat (idx + MIN_SLAB_SHIFT) :: u8) = idx + MIN_SLAB_SHIFT"
    using t by (simp add: unsigned_of_nat take_bit_nat_eq_self) (rule class_cases [OF assms(1)]; simp add: MIN_SLAB_SHIFT_def)
  have "take (slab_total idx) (map (\<lambda>i. i < slab_total idx) [0..<SLAB_MAX_OBJS]) = replicate (slab_total idx) True"
    using t by (intro nth_equalityI) (simp_all add: SLAB_MAX_OBJS_def)
  then show "slab_ok idx v (slab_header idx)" using assms(2) u by (simp add: slab_ok_def slab_header_def)
  show "i < slab_total idx \<Longrightarrow> kp_bitmap (slab_header idx) ! i"
    using t by (simp add: slab_header_def SLAB_MAX_OBJS_def)
qed

lemma fresh_page:
  assumes inv: "heap_inv own h B L" and "VIRT_TO_PHYS v \<notin> own (kh_pmm h)"
  shows "v \<notin> slab_pages h" "B w = Some k \<Longrightarrow> v \<notin> run_of w k" "B v = None"
proof -
  show "v \<notin> slab_pages h" using heap_page_own(1) [OF inv] assms(2) by blast
  show r: "v \<notin> run_of w k" if "B w = Some k" for w k
    using heap_page_own(2) [OF inv that] assms(2) virt_run by blast
  show "B v = None"
  proof (cases "B v")
    case (Some k)
    then have "0 < k" using heap_invD(3) [OF inv] by (simp add: big_wf_def)
    with r [OF Some] run_first show ?thesis by blast
  qed simp
qed

lemma add_slab:
  fixes h :: "'s kheap" and t :: u64
  assumes inv: "heap_inv own h B L" and al: "page_aligned v" and new: "VIRT_TO_PHYS v \<notin> own (kh_pmm h)"
    and own: "own s = insert (VIRT_TO_PHYS v) (own (kh_pmm h))" and idx: "idx < SLAB_COUNT"
  defines "h' \<equiv> h\<lparr>kh_pmm := s, kh_pages := (kh_pages h)(v := slab_header idx),
      kh_slabs := (kh_slabs h)(idx := v # kh_slabs h idx), kh_total := t\<rparr>"
  shows "heap_inv own h' B L" "is_slot h' idx v 0" "kp_bitmap (kh_pages h' v) ! 0"
proof -
  note wf = heap_invD [OF inv] note fr = fresh_page [OF inv new]
  have vn: "v \<notin> set (kh_slabs h x)" for x using fr(1) by (auto simp: slab_pages_def)
  have hdr: "slab_ok idx v (slab_header idx)" "\<And>i. i < slab_total idx \<Longrightarrow> kp_bitmap (slab_header idx) ! i"
    using slab_header_ok [OF idx al] by simp_all
  show "is_slot h' idx v 0" "kp_bitmap (kh_pages h' v) ! 0"
    using hdr(2) slab_total_class(2) [OF idx] by (simp_all add: is_slot_def h'_def)
  have sp: "slab_pages h' = insert v (slab_pages h)" by (auto simp: slab_pages_def h'_def split: if_splits)
  have m: "kh_mag h' = kh_mag h" "mags h' = mags h" by (simp_all add: h'_def mags_def)
  have us: "used_slot h' x w i \<longleftrightarrow> used_slot h x w i" for x w i
    using vn hdr(2) by (auto simp: used_slot_def is_slot_def h'_def)
  then have u: "used_addr h' = used_addr h" by (simp add: used_addr_def fun_eq_iff)
  have "disjoint_lists (kh_slabs h')"
  proof -
    have dl: "disjoint_lists (kh_slabs h)" using wf(1) by (simp add: slab_wf_def)
    then have "distinct (v # kh_slabs h idx)" using vn by (simp add: disjoint_lists_def)
    then show ?thesis unfolding h'_def using disjoint_lists_add [OF dl vn, of "v # kh_slabs h idx" idx] by simp
  qed
  moreover have "slab_ok x w (kh_pages h' w)" if "w \<in> set (kh_slabs h' x)" for x w
    using that hdr(1) vn wf(1) by (auto simp: h'_def slab_wf_def split: if_splits)
  ultimately have "slab_wf h'" using wf(1) idx by (auto simp: slab_wf_def h'_def)
  moreover have "mag_wf h'" using wf(2) by (simp add: mag_wf_def m u)
  moreover have "big_wf h' B"
    using wf(3) fr(2,3) unfolding big_wf_def sp by (auto simp: h'_def)
  moreover have "live_wf h' B L" using wf(4) by (simp add: live_wf_def live_small_def m u)
  moreover have "VIRT_TO_PHYS ` heap_pages h' B \<subseteq> own (kh_pmm h')"
  proof -
    have "heap_pages h' B = insert v (heap_pages h B)" by (simp add: heap_pages_def sp)
    moreover have "own (kh_pmm h') = insert (VIRT_TO_PHYS v) (own (kh_pmm h))" by (simp add: h'_def own)
    ultimately show ?thesis using wf(5) by auto
  qed
  ultimately show "heap_inv own h' B L" by (simp add: heap_inv_def)
qed

section \<open>Large objects\<close>

lemma add_big:
  fixes h :: "'s kheap" and t u :: u64
  assumes inv: "heap_inv own h B L" and al: "page_aligned v" and k: "0 < k"
    and new: "run_of (VIRT_TO_PHYS v) k \<inter> own (kh_pmm h) = {}" and own: "own s = own (kh_pmm h) \<union> run_of (VIRT_TO_PHYS v) k"
    and g: "kp_magic g \<noteq> SLAB_MAGIC" "unat (kp_word0 g) = k \<or> kp_word0 g > push_bit 20 1" and n: "n + 8 \<le> 4096 * k"
  defines "h' \<equiv> h\<lparr>kh_pmm := s, kh_used := u, kh_total := t, kh_pages := (kh_pages h)(v := g)\<rparr>"
  shows "heap_inv own h' (B(v \<mapsto> k)) (insert (v + 8, n) L)" "v + 8 \<notin> fst ` L"
proof -
  note wf = heap_invD [OF inv]
  have fr: "w \<notin> slab_pages h" "B x = Some l \<Longrightarrow> w \<notin> run_of x l" "B w = None" if "w \<in> run_of v k" for w x l
  proof -
    have "VIRT_TO_PHYS w \<notin> own (kh_pmm h)" using new that unfolding virt_run [symmetric] by blast
    note fresh_page [OF inv this]
    then show "w \<notin> slab_pages h" "B x = Some l \<Longrightarrow> w \<notin> run_of x l" "B w = None" by auto
  qed
  note v = fr [OF run_first [OF k]]
  have same: "kh_mag h' = kh_mag h" "mags h' = mags h" "slab_pages h' = slab_pages h" "kh_slabs h' = kh_slabs h" "is_slot h' = is_slot h"
    by (simp_all add: h'_def mags_def slab_pages_def is_slot_def fun_eq_iff)
  have vn: "v \<notin> set (kh_slabs h x)" for x using v(1) by (auto simp: slab_pages_def)
  have us: "used_slot h' x w i \<longleftrightarrow> used_slot h x w i" for x w i
    using vn unfolding used_slot_def same by (auto simp: is_slot_def h'_def)
  then have u: "used_addr h' = used_addr h" by (simp add: used_addr_def fun_eq_iff)
  have notin: "(v + 8, m) \<notin> L" for m
  proof
    assume "(v + 8, m) \<in> L"
    then have "live_small h (v + 8) m" using wf(4) v(3) by (auto simp: live_wf_def live_large_def)
    then obtain x w i where s: "is_slot h x w i" "v + 8 = slot_addr w x i" unfolding live_small_def using used_addrD by blast
    have "page_of (slot_addr w x i) = w" by (rule slot_extent(2) [OF wf(1) s(1), of 1]) (simp_all add: extent_def)
    moreover have "page_of (v + of_nat 8) = v" by (rule page_of_add [OF al]) simp
    ultimately show False using s v(1) by (auto simp: slab_pages_def is_slot_def)
  qed
  then show "v + 8 \<notin> fst ` L" by force
  have "slab_wf h'" using wf(1) vn unfolding slab_wf_def same by (auto simp: h'_def)
  moreover have "mag_wf h'" using wf(2) by (simp add: mag_wf_def same u)
  moreover have "big_wf h' (B(v \<mapsto> k))"
    using wf(3) al k g fr unfolding big_wf_def same by (auto simp: h'_def)
  moreover have "live_wf h' (B(v \<mapsto> k)) (insert (v + 8, n) L)"
  proof -
    have "live_large (B(v \<mapsto> k)) q m" if "live_large B q m" for q m using that v(3) by (auto simp: live_large_def)
    moreover note notin
    moreover have "live_large (B(v \<mapsto> k)) (v + 8) n" using n by (auto simp: live_large_def)
    ultimately show ?thesis using wf(4) unfolding live_wf_def live_small_def same u by blast
  qed
  moreover have "VIRT_TO_PHYS ` heap_pages h' (B(v \<mapsto> k)) \<subseteq> own (kh_pmm h')"
  proof -
    have "heap_pages h' (B(v \<mapsto> k)) \<subseteq> heap_pages h B \<union> run_of v k" by (auto simp: heap_pages_def same split: if_splits)
    moreover have "VIRT_TO_PHYS ` (heap_pages h B \<union> run_of v k) \<subseteq> own (kh_pmm h')"
      using wf(5) own unfolding image_Un virt_run by (auto simp: h'_def)
    ultimately show ?thesis by blast
  qed
  ultimately show "heap_inv own h' (B(v \<mapsto> k)) (insert (v + 8, n) L)" by (simp add: heap_inv_def)
qed

lemma drop_big:
  fixes h :: "'s kheap" and t u :: u64
  assumes inv: "heap_inv own h B L" and b: "B v = Some k" and p: "(v + 8, n) \<in> L"
    and own: "own s = own (kh_pmm h) - run_of (VIRT_TO_PHYS v) k"
  shows "heap_inv own (h\<lparr>kh_pmm := s, kh_used := u, kh_total := t\<rparr>) (B(v := None)) (L - {(v + 8, n)})"
proof -
  note wf = heap_invD [OF inv]
  let ?B = "B(v := None)" and ?L = "L - {(v + 8, n)}"
  have "big_wf h ?B" using wf(3) unfolding big_wf_def by auto
  moreover have "live_wf h ?B ?L"
  proof -
    have "live_large ?B q m" if "live_large B q m" "(q, m) \<in> ?L" for q m
    proof -
      from that(1) obtain w l where w: "B w = Some l" "q = w + 8" "m + 8 \<le> 4096 * l" by (auto simp: live_large_def)
      have "w \<noteq> v" using that(2) w(2) p wf(4) unfolding live_wf_def by blast
      with w show ?thesis by (auto simp: live_large_def)
    qed
    with wf(4) show ?thesis unfolding live_wf_def by blast
  qed
  ultimately have "heap_inv own h ?B ?L"
    using wf by (auto simp: heap_inv_def heap_pages_def)
  moreover have "VIRT_TO_PHYS ` heap_pages h ?B \<subseteq> own s"
  proof -
    have "run_of v k \<inter> slab_pages h = {}" "\<And>w l. B w = Some l \<Longrightarrow> w \<noteq> v \<Longrightarrow> run_of v k \<inter> run_of w l = {}"
      using wf(3) b unfolding big_wf_def by blast+
    then have "heap_pages h ?B \<inter> run_of v k = {}" by (auto simp: heap_pages_def split: if_splits)
    moreover have "heap_pages h ?B \<subseteq> heap_pages h B" by (auto simp: heap_pages_def split: if_splits)
    ultimately have "VIRT_TO_PHYS w \<in> own (kh_pmm h) - VIRT_TO_PHYS ` run_of v k" if "w \<in> heap_pages h ?B" for w
      using that wf(5) by (auto simp: phys_inj)
    then show ?thesis unfolding own virt_run [symmetric] by (intro image_subsetI)
  qed
  ultimately show ?thesis by (rule pmm_change(1))
qed

section \<open>An empty slab leaves\<close>

definition set_slabs :: "nat \<Rightarrow> u64 list \<Rightarrow> 's kheap \<Rightarrow> 's kheap" where
  "set_slabs x vs h = h\<lparr>kh_slabs := (kh_slabs h)(x := vs)\<rparr>"

lemma full_slab_free:
  assumes wf: "slab_wf h" and v: "v \<in> set (kh_slabs h x)" and "kp_free_count (kh_pages h v) = kp_total (kh_pages h v)"
  shows "\<not> used_slot h x v i"
proof
  assume "used_slot h x v i"
  then have i: "i < slab_total x" "\<not> kp_bitmap (kh_pages h v) ! i" by (simp_all add: used_slot_def is_slot_def)
  note ok = slab_wfD [OF wf v]
  let ?l = "take (slab_total x) (kp_bitmap (kh_pages h v))"
  have len: "length ?l = slab_total x" "length (filter (\<lambda>b. b) ?l) = slab_total x"
    using ok(2) assms(3) slab_total_class(3) [OF ok(1)] by (simp_all add: slab_ok_def SLAB_MAX_OBJS_def)
  have "\<forall>b \<in> set ?l. b" using len by (metis filter_True filter_id_conv length_filter_less less_irrefl)
  moreover have "?l ! i \<in> set ?l" using i(1) len(1) by (intro nth_mem) simp
  ultimately have "?l ! i" by (rule bspec)
  with i show False by simp
qed

lemma drop_slab:
  fixes h :: "'s kheap" and t :: u64
  assumes inv: "heap_inv own h B L" and l: "kh_slabs h x = pre @ v # post"
    and full: "kp_free_count (kh_pages h v) = kp_total (kh_pages h v)"
    and own: "own s = own (kh_pmm h) - {VIRT_TO_PHYS v}"
  defines "h' \<equiv> (set_slabs x (pre @ post) h)\<lparr>kh_pmm := s, kh_total := t\<rparr>"
  shows "heap_inv own h' B L"
proof -
  note wf = heap_invD [OF inv]
  have v: "v \<in> set (kh_slabs h x)" using l by simp
  have d: "distinct (pre @ v # post)" using wf(1) l by (metis slab_wf_def disjoint_lists_def)
  have dl: "disjoint_lists (kh_slabs h)" using wf(1) by (simp add: slab_wf_def)
  have sl: "w \<in> set (kh_slabs h' y) \<longleftrightarrow> w \<in> set (kh_slabs h y) \<and> w \<noteq> v" for w y
  proof -
    have "v \<notin> set (kh_slabs h y)" if "y \<noteq> x" using slab_class_unique [OF wf(1) _ v] that by blast
    moreover have "kh_slabs h' y = (if y = x then pre @ post else kh_slabs h y)" by (simp add: h'_def set_slabs_def)
    ultimately show ?thesis using l d by (cases "y = x") auto
  qed
  have sp: "slab_pages h' = slab_pages h - {v}" unfolding slab_pages_def sl by auto
  have "used_slot h' y w i \<longleftrightarrow> used_slot h y w i" for y w i
  proof -
    have "\<not> used_slot h y v i" using full_slab_free [OF wf(1) v full] slab_class_unique [OF wf(1) _ v]
      by (auto simp: used_slot_def is_slot_def)
    then show ?thesis unfolding used_slot_def is_slot_def sl by (auto simp: h'_def set_slabs_def)
  qed
  then have u: "used_addr h' = used_addr h" by (simp add: used_addr_def fun_eq_iff)
  have m: "kh_mag h' = kh_mag h" "mags h' = mags h" "kh_pages h' = kh_pages h" by (simp_all add: h'_def set_slabs_def mags_def)
  have "disjoint_lists (kh_slabs h')"
    unfolding h'_def set_slabs_def using d l by (auto intro: disjoint_lists_sub [OF dl])
  moreover have "kh_slabs h' y = []" if "y \<ge> SLAB_COUNT" for y
  proof -
    have "kh_slabs h y = []" using that wf(1) by (simp add: slab_wf_def)
    moreover from this have "y \<noteq> x" using l by auto
    ultimately show ?thesis by (simp add: h'_def set_slabs_def)
  qed
  ultimately have "slab_wf h'" using wf(1) sl unfolding slab_wf_def m by blast
  moreover have "mag_wf h'" using wf(2) by (simp add: mag_wf_def m u)
  moreover have "big_wf h' B" using wf(3) unfolding big_wf_def sp m by blast
  moreover have "live_wf h' B L" using wf(4) by (simp add: live_wf_def live_small_def m u)
  moreover have "VIRT_TO_PHYS ` heap_pages h' B \<subseteq> own (kh_pmm h')"
  proof -
    have "w \<noteq> v" if "w \<in> heap_pages h' B" for w
    proof -
      have "v \<in> slab_pages h" using v by (auto simp: slab_pages_def)
      then show ?thesis using that wf(3) unfolding heap_pages_def sp big_wf_def by blast
    qed
    moreover have "heap_pages h' B \<subseteq> heap_pages h B" unfolding heap_pages_def sp by blast
    ultimately show ?thesis using wf(5) own by (auto simp: h'_def phys_inj)
  qed
  ultimately show ?thesis by (simp add: heap_inv_def)
qed

end
