(* ===== verification/Kmalloc_Safe.thy ===== *)
theory Kmalloc_Safe
  imports Kmalloc_Pages
begin

text \<open>
  The heap over any page allocator that keeps its promises (the locale \<open>page_source\<close>): \<open>kmalloc\<close> and \<open>kfree\<close> return,
  keep the invariant, and the steps of the whole system, in which other parts of
  the kernel take and return pages too, never make two live objects overlap.
\<close>

section \<open>The size classes\<close>

lemma slab_index_loop_Some:
  "slab_index_loop sz i = Some j \<Longrightarrow> j + MIN_SLAB_SHIFT < 64 \<and> sz \<le> push_bit (j + MIN_SLAB_SHIFT) 1"
proof (induction sz i rule: slab_index_loop.induct)
  case (1 sz i)
  note un = slab_index_loop.simps [of sz i]
  show ?case
  proof (cases "64 \<le> i + MIN_SLAB_SHIFT \<or> \<not> push_bit (i + MIN_SLAB_SHIFT) 1 < sz")
    case True
    with "1.prems" un show ?thesis by (auto simp: not_le split: if_splits)
  next
    case False
    with "1.prems" un have "slab_index_loop sz (i + 1) = Some j" by simp
    with "1.IH" False show ?thesis by simp
  qed
qed

lemma slab_index_loop_returns:
  "sz \<le> 2 ^ 63 \<Longrightarrow> i + MIN_SLAB_SHIFT \<le> 63 \<Longrightarrow> \<exists>j. slab_index_loop sz i = Some j"
proof (induction sz i rule: slab_index_loop.induct)
  case (1 sz i)
  note un = slab_index_loop.simps [of sz i]
  show ?case
  proof (cases "push_bit (i + MIN_SLAB_SHIFT) 1 < sz")
    case False
    with "1.prems" un show ?thesis by simp
  next
    case True
    then have "i + MIN_SLAB_SHIFT \<noteq> 63" using "1.prems"(1) by (auto simp: push_bit_eq_mult)
    then have "(i + 1) + MIN_SLAB_SHIFT \<le> 63" using "1.prems"(2) by simp
    with "1.IH" "1.prems" True un show ?thesis by simp
  qed
qed

lemma slab_index_Some:
  assumes "slab_index sz = Some (Some idx)"
  shows "idx < SLAB_COUNT" "unat sz \<le> 2 ^ (idx + 4)"
proof -
  let ?z = "if sz < push_bit MIN_SLAB_SHIFT 1 then push_bit MIN_SLAB_SHIFT 1 else sz"
  from assms have l: "slab_index_loop ?z 0 = Some idx" and c: "idx < SLAB_COUNT"
    by (auto simp: slab_index_def split: if_splits)
  then show "idx < SLAB_COUNT" by simp
  have "sz \<le> ?z" by auto
  also have "\<dots> \<le> push_bit (idx + MIN_SLAB_SHIFT) 1" using slab_index_loop_Some [OF l] by simp
  finally have "unat sz \<le> unat (push_bit (idx + MIN_SLAB_SHIFT) 1 :: u64)" by (simp add: word_le_nat_alt)
  also have "\<dots> = 2 ^ (idx + 4)" using c by (rule class_cases) (simp_all add: MIN_SLAB_SHIFT_def)
  finally show "unat sz \<le> 2 ^ (idx + 4)" .
qed

lemma slab_index_returns: "sz \<le> 2 ^ 63 \<Longrightarrow> \<exists>r. slab_index sz = Some r"
  using slab_index_loop_returns [of sz 0] slab_index_loop_returns [of "push_bit MIN_SLAB_SHIFT 1" 0]
  by (auto simp: slab_index_def MIN_SLAB_SHIFT_def)

lemma slab_search_Some:
  "slab_search pages vs = Some (v, i) \<Longrightarrow> v \<in> set vs \<and> i < unat (kp_total (pages v)) \<and> kp_bitmap (pages v) ! i"
proof (induction vs)
  case (Cons w vs)
  show ?case
  proof (cases "kp_magic (pages w) \<noteq> SLAB_MAGIC \<or> find_idx (\<lambda>b. b) (take (unat (kp_total (pages w))) (kp_bitmap (pages w))) = None")
    case True
    then have "slab_search pages (w # vs) = slab_search pages vs" by (auto split: option.splits)
    with Cons show ?thesis by auto
  next
    case False
    with Cons.prems have f: "find_idx (\<lambda>b. b) (take (unat (kp_total (pages w))) (kp_bitmap (pages w))) = Some i" "v = w" by auto
    from find_idx_SomeD [OF f(1)] f(2) show ?thesis by auto
  qed
qed simp

lemma offset_nonzero:
  assumes "page_aligned v" and "0 < d" and "d < 4096"
  shows "v + of_nat d \<noteq> (0 :: u64)"
proof
  assume z: "v + of_nat d = 0"
  then have "v = page_of 0" using page_of_add [OF assms(1,3)] by simp
  then have "v + of_nat d = 0 + of_nat d" by (simp add: page_of_def)
  with z have "0 + of_nat d = (0 :: u64) + of_nat 0" by simp
  with add_offset_inj [of d 0 0] assms(2,3) show False by simp
qed

lemma slot_nonzero: "slab_wf h \<Longrightarrow> is_slot h idx v i \<Longrightarrow> slot_addr v idx i \<noteq> 0"
proof -
  assume wf: "slab_wf h" and s: "is_slot h idx v i"
  then have c: "idx < SLAB_COUNT" "i < slab_total idx" "page_aligned v" using slab_wfD [OF wf] by (auto simp: is_slot_def)
  have "40 + i * 2 ^ (idx + 4) < 40 + i * 2 ^ (idx + 4) + 2 ^ (idx + 4)" by simp
  also have "\<dots> \<le> 4096" by (rule slot_offset [OF c(1,2)])
  finally show ?thesis unfolding slot_addr_def using c(3) by (intro offset_nonzero) simp_all
qed

section \<open>The page allocator as the heap sees it\<close>

locale page_source =
  fixes P :: "('e, 's) page_ops" and ok :: "'s \<Rightarrow> bool" and own :: "'s \<Rightarrow> u64 set" and envok :: "'e \<Rightarrow> bool"
  assumes alloc: "envok e \<Longrightarrow> ok s \<Longrightarrow> \<exists>p s'. po_alloc P e n s = Some (p, s') \<and> ok s' \<and>
      (if p = 0 then own s' = own s
       else n \<noteq> 0 \<and> page_aligned p \<and> run_of p (unat n) \<inter> own s = {} \<and> own s' = own s \<union> run_of p (unat n))"
    and alloc_node: "envok e \<Longrightarrow> ok s \<Longrightarrow> \<exists>p s'. po_alloc_node P e 1 s = Some (p, s') \<and> ok s' \<and>
      (if p = 0 then own s' = own s else page_aligned p \<and> p \<notin> own s \<and> own s' = insert p (own s))"
    and free: "envok e \<Longrightarrow> ok s \<Longrightarrow> n \<le> push_bit 20 1 \<Longrightarrow> run_of p (unat n) \<subseteq> own s \<Longrightarrow>
      \<exists>s'. po_free P e p n s = Some s' \<and> ok s' \<and> own s' = own s - run_of p (unat n)"
    and cpu: "envok e \<Longrightarrow> po_cpu P e < KMAG_CPUS"
begin

lemma new_page:
  assumes inv: "heap_inv own h B L" and "ok (kh_pmm h)" and "envok e" and idx: "idx < SLAB_COUNT"
  shows "\<exists>np h'. slab_new_page P e idx h = Some (np, h') \<and> heap_inv own h' B L \<and> ok (kh_pmm h') \<and>
    (\<forall>v. np = Some v \<longrightarrow> is_slot h' idx v 0 \<and> kp_bitmap (kh_pages h' v) ! 0)"
proof -
  obtain p s where s: "po_alloc_node P e 1 (kh_pmm h) = Some (p, s)" "ok s"
      "if p = 0 then own s = own (kh_pmm h) else page_aligned p \<and> p \<notin> own (kh_pmm h) \<and> own s = insert p (own (kh_pmm h))"
    using alloc_node [OF assms(3,2)] by blast
  show ?thesis
  proof (cases "p = 0")
    case True
    with s have "heap_inv own (h\<lparr>kh_pmm := s\<rparr>) B L" using pmm_change(2) [OF inv] heap_invD(5) [OF inv] by simp
    with True s show ?thesis by (simp add: slab_new_page_def)
  next
    case False
    with s add_slab [OF inv, of "PHYS_TO_VIRT p" s idx "kh_total h + 4096"] idx show ?thesis
      by (simp add: slab_new_page_def Let_def)
  qed
qed

lemma large:
  assumes inv: "heap_inv own h B L" and "ok (kh_pmm h)" and "envok e" and sz: "unat sz < 2 ^ 43" and "sz \<noteq> 0"
  shows "\<exists>p h' B'. kmalloc_large P e sz h = Some (p, h') \<and> ok (kh_pmm h') \<and>
    (if p = 0 then heap_inv own h' B L else heap_inv own h' B' (insert (p, unat sz) L) \<and> p \<notin> fst ` L)"
proof -
  let ?n = "(sz + 8 + 4096 - 1) div 4096 :: u64"
  have "unat (sz + 8 + 4096 - 1) = unat sz + 4103"
    using sz by (simp add: unat_word_ariths unat_sub word_le_nat_alt)
  then have n: "unat ?n = (unat sz + 4103) div 4096" by (simp add: unat_div)
  then have n32: "unat ?n < 2 ^ 32" using sz by simp
  then have c: "unat (ucast ?n :: u32) = unat ?n" by (simp add: unsigned_ucast_eq take_bit_nat_eq_self)
  obtain p s where s: "po_alloc P e (ucast ?n) (kh_pmm h) = Some (p, s)" "ok s"
      "if p = 0 then own s = own (kh_pmm h)
       else page_aligned p \<and> run_of p (unat ?n) \<inter> own (kh_pmm h) = {} \<and> own s = own (kh_pmm h) \<union> run_of p (unat ?n)"
    using alloc [OF assms(3,2), of "ucast ?n"] unfolding c by metis
  show ?thesis
  proof (cases "p = 0")
    case True
    with s have "heap_inv own (h\<lparr>kh_pmm := s\<rparr>) B L" using pmm_change(2) [OF inv] heap_invD(5) [OF inv] by simp
    with True s show ?thesis by (simp add: kmalloc_large_def Let_def)
  next
    case False
    have le: "unat sz + 8 \<le> 4096 * unat ?n" "0 < unat ?n" unfolding n by simp_all
    have "PHYS_TO_VIRT p + 8 \<noteq> 0" using offset_nonzero [of "PHYS_TO_VIRT p" 8] s(3) False by simp
    moreover have "PHYS_TO_VIRT p + 8 \<notin> fst ` L"
      by (rule add_big(2) [OF inv, of _ "unat ?n" s "blank_page\<lparr>kp_word0 := ?n\<rparr>" "unat sz"])
        (use False s(3) le in \<open>simp_all add: blank_page_def SLAB_MAGIC_def\<close>)
    ultimately show ?thesis using False s add_big(1) [OF inv, of "PHYS_TO_VIRT p" "unat ?n" s "blank_page\<lparr>kp_word0 := ?n\<rparr>" "unat sz"
        "kh_total h + ?n * 4096" "kh_used h + ?n * 4096"] le
      by (auto simp: kmalloc_large_def Let_def blank_page_def SLAB_MAGIC_def)
  qed
qed

lemma small:
  assumes inv: "heap_inv own h B L" and "ok (kh_pmm h)" and "envok e" and idx: "slab_index sz = Some (Some idx)" and "sz \<noteq> 0"
  shows "\<exists>p h'. kmalloc P e sz h = Some (p, h') \<and> ok (kh_pmm h') \<and>
    (if p = 0 then heap_inv own h' B L else heap_inv own h' B (insert (p, unat sz) L) \<and> p \<notin> fst ` L)"
proof -
  note c = slab_index_Some [OF idx]
  have give: "heap_inv own h' B (insert (p, unat sz) L) \<and> p \<notin> fst ` L \<and> p \<noteq> 0" if "heap_inv own h' B L" "limbo h' L idx p" for h' p
  proof -
    from that(2) obtain v i where "is_slot h' idx v i" "p = slot_addr v idx i" unfolding limbo_def using used_addrD by blast
    then have "p \<noteq> 0" using slot_nonzero [OF heap_invD(1) [OF that(1)]] by simp
    with limbo_live [OF that c(2)] that(2) show ?thesis by (simp add: limbo_def)
  qed
  have slot: "heap_inv own (snd t) B (insert (fst t, unat sz) L) \<and> fst t \<notin> fst ` L \<and> fst t \<noteq> 0 \<and> ok (kh_pmm (snd t))"
    if "heap_inv own h' B L" "is_slot h' idx v i" "kp_bitmap (kh_pages h' v) ! i" "ok (kh_pmm h')" "t = take_slot v i idx h'" for t h' v i
    using give take_slot_inv [OF that(1-3)] that(4,5) by metis
  let ?c = "po_cpu P e"
  show ?thesis
  proof (cases "kh_mag h ?c idx = []")
    case False
    then have "kh_mag h ?c idx = butlast (kh_mag h ?c idx) @ [last (kh_mag h ?c idx)]" by simp
    from mag_cut [OF inv this] give have "heap_inv own (set_mag ?c idx (butlast (kh_mag h ?c idx)) h) B (insert (last (kh_mag h ?c idx), unat sz) L)"
      "last (kh_mag h ?c idx) \<noteq> 0" "last (kh_mag h ?c idx) \<notin> fst ` L" by auto
    with False assms(2,5) idx show ?thesis by (simp add: kmalloc_def Let_def)
  next
    case empty: True
    show ?thesis
    proof (cases "slab_search (kh_pages h) (kh_slabs h idx)")
      case (Some r)
      obtain v i where r: "r = (v, i)" by (cases r)
      from slab_search_Some [OF Some [unfolded r]] have v: "v \<in> set (kh_slabs h idx)" "i < unat (kp_total (kh_pages h v))" "kp_bitmap (kh_pages h v) ! i" by auto
      then have "is_slot h idx v i" using slab_wfD(2) [OF heap_invD(1) [OF inv]] by (simp add: is_slot_def slab_ok_def)
      from slot [OF inv this v(3) assms(2) refl] Some r empty assms(5) idx show ?thesis
        by (cases "take_slot v i idx h") (simp add: kmalloc_def Let_def)
    next
      case None
      obtain np h1 where n: "slab_new_page P e idx h = Some (np, h1)" "heap_inv own h1 B L" "ok (kh_pmm h1)"
          "\<forall>v. np = Some v \<longrightarrow> is_slot h1 idx v 0 \<and> kp_bitmap (kh_pages h1 v) ! 0"
        using new_page [OF inv assms(2,3) c(1)] by blast
      show ?thesis
      proof (cases np)
        case (Some v)
        from slot [OF n(2) _ _ n(3) refl, of v 0] n Some None empty assms(5) idx show ?thesis
          by (cases "take_slot v 0 idx h1") (simp add: kmalloc_def Let_def)
      qed (use n None empty assms(5) idx in \<open>simp add: kmalloc_def Let_def\<close>)
    qed
  qed
qed

lemma kmalloc_spec:
  assumes "heap_inv own h B L" and "ok (kh_pmm h)" and "envok e" and sz: "unat sz < 2 ^ 43"
  shows "\<exists>p h' B'. kmalloc P e sz h = Some (p, h') \<and> ok (kh_pmm h') \<and>
    (if p = 0 then heap_inv own h' B L else heap_inv own h' B' (insert (p, unat sz) L) \<and> p \<notin> fst ` L)"
proof -
  have "sz \<le> 2 ^ 63" using sz by (simp add: word_le_nat_alt)
  then obtain r where r: "slab_index sz = Some r" using slab_index_returns by blast
  show ?thesis
  proof (cases "sz = 0")
    case True
    with assms show ?thesis by (auto simp: kmalloc_def)
  next
    case False
    show ?thesis
    proof (cases r)
      case None
      with r False large [OF assms False] show ?thesis by (simp add: kmalloc_def)
    next
      case (Some idx)
      from small [OF assms(1-3) r [unfolded Some] False] show ?thesis by metis
    qed
  qed
qed

lemma free_small:
  assumes inv: "heap_inv own h B L" and e: "envok e" and p: "(p, n) \<in> L" and u: "used_addr h idx p" and k: "p \<ge> KERNEL_VMA"
  shows "\<exists>h'. kfree P e p h = Some h' \<and> kh_pmm h' = kh_pmm h \<and> heap_inv own h' B (L - {(p, n)})"
proof -
  note wf = heap_invD [OF inv]
  from used_addrD [OF u] obtain v i where s: "is_slot h idx v i" "p = slot_addr v idx i" by blast
  have sl: "slab_ok idx v (kh_pages h v)" "idx < SLAB_COUNT" using s(1) slab_wfD [OF wf(1)] by (auto simp: is_slot_def)
  have pv: "page_of p = v" unfolding s(2) by (rule slot_extent(2) [OF wf(1) s(1), of 1]) (simp_all add: extent_def)
  have p0: "p \<noteq> 0" using slot_nonzero [OF wf(1) s(1)] s(2) by simp
  let ?c = "po_cpu P e" let ?xs = "kh_mag h ?c idx" let ?k = "length ?xs div 2"
  let ?h1 = "kmag_flush_half ?c idx h"
  have kf: "kfree P e p h = (if length ?xs < KMAG_SIZE then Some (set_mag ?c idx (?xs @ [p]) h)
      else Some (set_mag ?c idx (kh_mag ?h1 ?c idx @ [p]) ?h1))"
    using sl p0 k pv by (auto simp: kfree_def Let_def slab_ok_def not_less)
  show ?thesis
  proof (cases "length ?xs < KMAG_SIZE")
    case True
    from mag_push [OF live_sub [OF inv] live_limbo(1) [OF inv p u] True cpu [OF e]] True kf show ?thesis by simp
  next
    case False
    have fl: "heap_inv own ?h1 B L" "kh_mag ?h1 ?c idx = take ?k ?xs" "kh_pmm ?h1 = kh_pmm h" "kh_slabs ?h1 = kh_slabs h"
      using flush_tail_inv [OF inv, of ?c idx "take ?k ?xs" "drop ?k ?xs"] by (simp_all add: kmag_flush_half_def Let_def)
    have s1: "is_slot ?h1 idx v i" using s(1) fl(4) by (simp add: is_slot_def)
    have "\<not> live_large B p n" using slot_not_large [OF fl(1) s1] s(2) by simp
    then obtain x where x: "used_addr ?h1 x p" using heap_invD(4) [OF fl(1)] p by (auto simp: live_wf_def live_small_def)
    with slot_addr_inj [OF heap_invD(1) [OF fl(1)] s1] s(2) have u1: "used_addr ?h1 idx p" using used_addrD [OF x] by metis
    have "length ?xs \<le> KMAG_SIZE" using wf(2) by (simp add: mag_wf_def)
    then have room: "length (kh_mag ?h1 ?c idx) < KMAG_SIZE" unfolding fl(2) by (simp add: KMAG_SIZE_def)
    from mag_push [OF live_sub [OF fl(1)] live_limbo(1) [OF fl(1) p u1] room cpu [OF e]] False kf fl(3) show ?thesis by simp
  qed
qed

lemma free_large:
  assumes inv: "heap_inv own h B L" and "ok (kh_pmm h)" and e: "envok e" and p: "(v + 8, n) \<in> L" and b: "B v = Some k"
  shows "\<exists>h' B'. kfree P e (v + 8) h = Some h' \<and> ok (kh_pmm h') \<and> heap_inv own h' B' (L - {(v + 8, n)})"
proof -
  note wf = heap_invD [OF inv]
  let ?w = "kp_word0 (kh_pages h v)"
  have v: "page_aligned v" "kp_magic (kh_pages h v) \<noteq> SLAB_MAGIC" "unat ?w = k \<or> ?w > push_bit 20 1"
    using wf(3) b unfolding big_wf_def by auto
  have pv: "page_of (v + 8) = v" using page_of_add [OF v(1), of 8] by simp
  have keep: "heap_inv own h B (L - {(v + 8, n)})" by (rule live_sub [OF inv]) blast
  show ?thesis
  proof (cases "v + 8 = 0 \<or> v + 8 < KERNEL_VMA \<or> ?w = 0 \<or> ?w > push_bit 20 1")
    case True
    then have "kfree P e (v + 8) h = Some h" using v(2) pv by (auto simp: kfree_def Let_def kfree_large_def)
    with keep assms(2) show ?thesis by blast
  next
    case False
    then have "unat ?w \<le> 2 ^ 20" by (simp add: not_less word_le_nat_alt)
    then have c: "unat (ucast ?w :: u32) = k" "(ucast ?w :: u32) \<le> push_bit 20 1"
      using v(3) False by (auto simp: unsigned_ucast_eq take_bit_nat_eq_self word_le_nat_alt)
    have "run_of (VIRT_TO_PHYS v) (unat (ucast ?w :: u32)) \<subseteq> own (kh_pmm h)" unfolding c(1) by (rule heap_page_own(2) [OF inv b])
    from free [OF e assms(2) c(2) this] obtain s where
      s: "po_free P e (VIRT_TO_PHYS v) (ucast ?w) (kh_pmm h) = Some s" "ok s" "own s = own (kh_pmm h) - run_of (VIRT_TO_PHYS v) k"
      unfolding c(1) by blast
    from drop_big [OF inv b p s(3)] s(1,2) False v(2) pv show ?thesis by (auto simp: kfree_def Let_def kfree_large_def)
  qed
qed

lemma kfree_spec:
  assumes inv: "heap_inv own h B L" and "ok (kh_pmm h)" and "envok e" and p: "(p, n) \<in> L"
  shows "\<exists>h' B'. kfree P e p h = Some h' \<and> ok (kh_pmm h') \<and> heap_inv own h' B' (L - {(p, n)})"
proof (cases "p < KERNEL_VMA")
  case True
  then have "kfree P e p h = Some h" by (simp add: kfree_def)
  moreover have "heap_inv own h B (L - {(p, n)})" by (rule live_sub [OF inv]) blast
  ultimately show ?thesis using assms(2) by blast
next
  case False
  from heap_invD(4) [OF inv] p consider "live_small h p n" | "live_large B p n" by (auto simp: live_wf_def)
  then show ?thesis
  proof cases
    case 1
    then obtain idx where "used_addr h idx p" by (auto simp: live_small_def)
    from free_small [OF inv assms(3) p this] False assms(2) show ?thesis by (metis not_less)
  next
    case 2
    then obtain v k where "B v = Some k" "p = v + 8" by (auto simp: live_large_def)
    with free_large [OF assms(1-3)] p show ?thesis by blast
  qed
qed

lemma compact_list_spec:
  assumes "heap_inv own (set_slabs x (pre @ vs) h) B L" and "ok (kh_pmm h)" and e: "envok e"
  shows "\<exists>ks n h'. compact_list P e vs h = Some (ks, n, h') \<and> heap_inv own (set_slabs x (pre @ ks) h') B L \<and>
    ok (kh_pmm h') \<and> kh_slabs h' = kh_slabs h"
  using assms(1,2)
proof (induction vs arbitrary: pre h)
  case (Cons v vs)
  let ?g = "kh_pages h v"
  show ?case
  proof (cases "kp_magic ?g = SLAB_MAGIC \<and> kp_free_count ?g = kp_total ?g \<and> kp_total ?g > 0")
    case False
    from Cons.IH [of "pre @ [v]" h] Cons.prems obtain ks n h' where
      "compact_list P e vs h = Some (ks, n, h')" "heap_inv own (set_slabs x (pre @ v # ks) h') B L" "ok (kh_pmm h')" "kh_slabs h' = kh_slabs h"
      by auto
    with False show ?thesis by auto
  next
    case True
    let ?h = "set_slabs x (pre @ v # vs) h"
    have "v \<in> slab_pages ?h" by (auto simp: slab_pages_def set_slabs_def)
    from heap_page_own(1) [OF Cons.prems(1) this] have "run_of (VIRT_TO_PHYS v) (unat (1 :: u32)) \<subseteq> own (kh_pmm h)"
      by (simp add: run_one set_slabs_def)
    from free [OF e Cons.prems(2) _ this] obtain s where
      s: "po_free P e (VIRT_TO_PHYS v) 1 (kh_pmm h) = Some s" "ok s" "own s = own (kh_pmm h) - {VIRT_TO_PHYS v}"
      by (auto simp: run_one)
    let ?h1 = "h\<lparr>kh_pmm := s, kh_total := kh_total h - 4096\<rparr>"
    have "heap_inv own ((set_slabs x (pre @ vs) ?h)\<lparr>kh_pmm := s, kh_total := kh_total h - 4096\<rparr>) B L"
      by (rule drop_slab [OF Cons.prems(1), of x pre v vs]) (use True s(3) in \<open>simp_all add: set_slabs_def\<close>)
    moreover have "(set_slabs x (pre @ vs) ?h)\<lparr>kh_pmm := s, kh_total := kh_total h - 4096\<rparr> = set_slabs x (pre @ vs) ?h1"
      by (cases h) (simp add: set_slabs_def)
    ultimately have "heap_inv own (set_slabs x (pre @ vs) ?h1) B L" by simp
    from Cons.IH [OF this] s True show ?thesis by auto
  qed
qed auto

lemma compact_classes_spec:
  assumes "heap_inv own h B L" and "ok (kh_pmm h)" and e: "envok e"
  shows "\<exists>n h'. compact_classes P e is h = Some (n, h') \<and> heap_inv own h' B L \<and> ok (kh_pmm h')"
  using assms(1,2)
proof (induction "is" arbitrary: h)
  case (Cons x xs)
  have "set_slabs x ([] @ kh_slabs h x) h = h" by (simp add: set_slabs_def)
  with compact_list_spec [of x "[]" "kh_slabs h x" h B L e] Cons.prems e obtain ks n h1 where
    h1: "compact_list P e (kh_slabs h x) h = Some (ks, n, h1)" "heap_inv own (set_slabs x ks h1) B L" "ok (kh_pmm h1)"
    by auto
  moreover have "h1\<lparr>kh_slabs := (kh_slabs h1)(x := ks)\<rparr> = set_slabs x ks h1" "kh_pmm (set_slabs x ks h1) = kh_pmm h1"
    by (simp_all add: set_slabs_def)
  ultimately show ?case using Cons.IH [OF h1(2)] by auto
qed simp

lemma compact_spec:
  assumes "heap_inv own h B L" and "ok (kh_pmm h)" and "envok e"
  shows "\<exists>n h'. kmalloc_compact P e h = Some (n, h') \<and> heap_inv own h' B L \<and> ok (kh_pmm h')"
  unfolding kmalloc_compact_def
  using compact_classes_spec [OF kmag_flush_all_inv(1) [OF assms(1)] _ assms(3)] assms(2) kmag_flush_all_inv(3) [OF assms(1)] by simp

text \<open>The pages \<open>X\<close> that other parts of the kernel hold are none of the heap's business.\<close>

lemma without_others: "page_source P (\<lambda>s. ok s \<and> X \<subseteq> own s) (\<lambda>s. own s - X) envok"
proof
  fix e s and n :: u32
  assume e: "envok e" and s: "ok s \<and> X \<subseteq> own s"
  show "\<exists>p s'. po_alloc P e n s = Some (p, s') \<and> (ok s' \<and> X \<subseteq> own s') \<and> (if p = 0 then own s' - X = own s - X
       else n \<noteq> 0 \<and> page_aligned p \<and> run_of p (unat n) \<inter> (own s - X) = {} \<and> own s' - X = own s - X \<union> run_of p (unat n))"
  proof -
    obtain p s' where r: "po_alloc P e n s = Some (p, s')" "ok s'" "if p = 0 then own s' = own s
       else n \<noteq> 0 \<and> page_aligned p \<and> run_of p (unat n) \<inter> own s = {} \<and> own s' = own s \<union> run_of p (unat n)"
      using alloc [OF e] s by blast
    have "(if p = 0 then own s' - X = own s - X
       else n \<noteq> 0 \<and> page_aligned p \<and> run_of p (unat n) \<inter> (own s - X) = {} \<and> own s' - X = own s - X \<union> run_of p (unat n))"
      using r(3) s by (cases "p = 0") auto
    moreover have "X \<subseteq> own s'" using r(3) s by (cases "p = 0") auto
    ultimately show ?thesis using r(1,2) by blast
  qed
next
  fix e s
  assume e: "envok e" and s: "ok s \<and> X \<subseteq> own s"
  obtain p s' where r: "po_alloc_node P e 1 s = Some (p, s')" "ok s'"
      "if p = 0 then own s' = own s else page_aligned p \<and> p \<notin> own s \<and> own s' = insert p (own s)"
    using alloc_node [OF e] s by blast
  have "if p = 0 then own s' - X = own s - X else page_aligned p \<and> p \<notin> own s - X \<and> own s' - X = insert p (own s - X)"
    using r(3) s by (cases "p = 0") auto
  moreover have "X \<subseteq> own s'" using r(3) s by (cases "p = 0") auto
  ultimately show "\<exists>p s'. po_alloc_node P e 1 s = Some (p, s') \<and> (ok s' \<and> X \<subseteq> own s') \<and>
      (if p = 0 then own s' - X = own s - X else page_aligned p \<and> p \<notin> own s - X \<and> own s' - X = insert p (own s - X))"
    using r(1,2) by blast
next
  fix e s p and n :: u32
  assume "envok e" "ok s \<and> X \<subseteq> own s" "n \<le> push_bit 20 1" and r: "run_of p (unat n) \<subseteq> own s - X"
  then obtain s' where "po_free P e p n s = Some s'" "ok s'" "own s' = own s - run_of p (unat n)" using free [of e s n p] by blast
  with r \<open>ok s \<and> X \<subseteq> own s\<close> show "\<exists>s'. po_free P e p n s = Some s' \<and> (ok s' \<and> X \<subseteq> own s') \<and> own s' - X = own s - X - run_of p (unat n)"
    by blast
qed (rule cpu)

end

section \<open>Runs of the heap\<close>

text \<open>
  The state of a run: the heap, the live objects and the pages that other parts of the kernel hold.
  A client may write into the objects it holds; that reaches the header words only in a large
  object, whose bytes from offset 8 on are the client's. It is assumed not to store \<open>SLAB_MAGIC\<close>
  in the first word of a large object: see \<open>kfree_mistakes_data\<close>.
\<close>

inductive heap_step :: "('e, 's) page_ops \<Rightarrow> ('e \<Rightarrow> bool) \<Rightarrow> 's kheap \<times> (u64 \<times> nat) set \<times> u64 set \<Rightarrow>
    's kheap \<times> (u64 \<times> nat) set \<times> u64 set \<Rightarrow> bool" for P envok where
  alloc: "envok e \<Longrightarrow> unat sz < 2 ^ 43 \<Longrightarrow> kmalloc P e sz h = Some (p, h') \<Longrightarrow> p \<noteq> 0 \<Longrightarrow>
    heap_step P envok (h, L, X) (h', insert (p, unat sz) L, X)"
| no_memory: "envok e \<Longrightarrow> unat sz < 2 ^ 43 \<Longrightarrow> kmalloc P e sz h = Some (0, h') \<Longrightarrow> heap_step P envok (h, L, X) (h', L, X)"
| release: "envok e \<Longrightarrow> (p, n) \<in> L \<Longrightarrow> kfree P e p h = Some h' \<Longrightarrow> heap_step P envok (h, L, X) (h', L - {(p, n)}, X)"
| flush: "heap_step P envok (h, L, X) (kmag_flush_one_cpu b c h, L, X)"
| compact: "envok e \<Longrightarrow> kmalloc_compact P e h = Some (n, h') \<Longrightarrow> heap_step P envok (h, L, X) (h', L, X)"
| store: "(v + 8, n) \<in> L \<Longrightarrow> page_aligned v \<Longrightarrow> kp_word0 g = kp_word0 (kh_pages h v) \<Longrightarrow> kp_magic g \<noteq> SLAB_MAGIC \<Longrightarrow>
    heap_step P envok (h, L, X) (h\<lparr>kh_pages := (kh_pages h)(v := g)\<rparr>, L, X)"
| take_pages: "envok e \<Longrightarrow> po_alloc P e n (kh_pmm h) = Some (p, s) \<Longrightarrow>
    heap_step P envok (h, L, X) (h\<lparr>kh_pmm := s\<rparr>, L, if p = 0 then X else X \<union> run_of p (unat n))"
| return_pages: "envok e \<Longrightarrow> n \<le> push_bit 20 1 \<Longrightarrow> run_of p (unat n) \<subseteq> X \<Longrightarrow> po_free P e p n (kh_pmm h) = Some s \<Longrightarrow>
    heap_step P envok (h, L, X) (h\<lparr>kh_pmm := s\<rparr>, L, X - run_of p (unat n))"

lemma store_inv:
  assumes inv: "heap_inv own h B L" and p: "(v + 8, n) \<in> L" and al: "page_aligned v"
    and g: "kp_word0 g = kp_word0 (kh_pages h v)" "kp_magic g \<noteq> SLAB_MAGIC"
  shows "heap_inv own (h\<lparr>kh_pages := (kh_pages h)(v := g)\<rparr>) B L"
proof -
  note wf = heap_invD [OF inv]
  have "v \<notin> slab_pages h"
  proof
    assume "v \<in> slab_pages h"
    then obtain x where x: "v \<in> set (kh_slabs h x)" by (auto simp: slab_pages_def)
    from wf(4) p consider "live_small h (v + 8) n" | "live_large B (v + 8) n" by (auto simp: live_wf_def)
    then show False
    proof cases
      case 1
      then obtain y w i where s: "is_slot h y w i" "v + 8 = slot_addr w y i" unfolding live_small_def using used_addrD by blast
      have "page_of (slot_addr w y i) = w" by (rule slot_extent(2) [OF wf(1) s(1), of 1]) (simp_all add: extent_def)
      moreover have "page_of (v + of_nat 8) = v" by (rule page_of_add [OF al]) simp
      ultimately have "w = v" using s(2) by simp
      then have "v + of_nat 8 = v + of_nat (40 + i * 2 ^ (y + 4))" using s(2) by (simp add: slot_addr_def)
      moreover have "40 + i * 2 ^ (y + 4) < 4096"
        using slot_extent(1) [OF wf(1) s(1), of 1 "slot_addr w y i"] by (auto simp: extent_def)
      ultimately show False using add_offset_inj [of 8 "40 + i * 2 ^ (y + 4)" v] by simp
    next
      case 2
      then obtain k where "B v = Some k" by (auto simp: live_large_def)
      with wf(3) run_first [of k v] x show False by (auto simp: big_wf_def slab_pages_def)
    qed
  qed
  then have vn: "v \<notin> set (kh_slabs h x)" for x by (auto simp: slab_pages_def)
  let ?h = "h\<lparr>kh_pages := (kh_pages h)(v := g)\<rparr>"
  have "used_slot ?h x w i \<longleftrightarrow> used_slot h x w i" for x w i using vn by (auto simp: used_slot_def is_slot_def)
  then have u: "used_addr ?h = used_addr h" by (simp add: used_addr_def fun_eq_iff)
  have same: "kh_mag ?h = kh_mag h" "mags ?h = mags h" "slab_pages ?h = slab_pages h" by (simp_all add: mags_def slab_pages_def)
  have "slab_wf ?h" using wf(1) vn by (auto simp: slab_wf_def)
  moreover have "mag_wf ?h" using wf(2) by (simp add: mag_wf_def u)
  moreover have "big_wf ?h B" using wf(3) g unfolding big_wf_def same by auto
  moreover have "live_wf ?h B L" using wf(4) unfolding live_wf_def live_small_def u same .
  ultimately show ?thesis using wf(5) by (simp add: heap_inv_def heap_pages_def same)
qed

context page_source
begin

text \<open>The invariant of a run.\<close>

definition run_inv :: "'s kheap \<Rightarrow> (u64 \<times> nat) set \<Rightarrow> u64 set \<Rightarrow> bool" where
  "run_inv h L X \<longleftrightarrow> (\<exists>B. heap_inv (\<lambda>s. own s - X) h B L) \<and> ok (kh_pmm h) \<and> X \<subseteq> own (kh_pmm h)"

lemma step_inv:
  assumes "heap_step P envok (h, L, X) (h', L', X')" and "run_inv h L X"
  shows "run_inv h' L' X'"
proof -
  from assms(2) obtain B where inv: "heap_inv (\<lambda>s. own s - X) h B L" and o: "ok (kh_pmm h) \<and> X \<subseteq> own (kh_pmm h)"
    by (auto simp: run_inv_def)
  note ps = without_others [of X]
  from assms(1) show ?thesis
  proof cases
    case (alloc e sz p)
    with page_source.kmalloc_spec [OF ps inv o alloc(3,4)] show ?thesis by (auto simp: run_inv_def)
  next
    case (no_memory e sz)
    with page_source.kmalloc_spec [OF ps inv o no_memory(3,4)] show ?thesis by (auto simp: run_inv_def)
  next
    case (release e p n)
    with page_source.kfree_spec [OF ps inv o release(3,4)] show ?thesis by (auto simp: run_inv_def)
  next
    case (flush b c)
    with flush_cpu_inv(1,3) [OF inv] inv o show ?thesis by (auto simp: run_inv_def kmag_flush_one_cpu_def)
  next
    case (compact e n)
    with page_source.compact_spec [OF ps inv o compact(3)] show ?thesis by (auto simp: run_inv_def)
  next
    case (store v n g)
    with store_inv [OF inv] o show ?thesis by (auto simp: run_inv_def)
  next
    case (take_pages e n p s)
    then have r: "ok s" "if p = 0 then own s = own (kh_pmm h) else run_of p (unat n) \<inter> own (kh_pmm h) = {} \<and> own s = own (kh_pmm h) \<union> run_of p (unat n)"
      using alloc [OF take_pages(4), of "kh_pmm h" n] o by (auto split: if_splits)
    then have eq: "own s - X' = own (kh_pmm h) - X" "X' \<subseteq> own s" using take_pages(3) o by (auto split: if_splits)
    have "heap_inv (\<lambda>s. own s - X') (h\<lparr>kh_pmm := s\<rparr>) B L"
      using inv eq(1) pmm_change(2) [of "\<lambda>_. own (kh_pmm h) - X" h B L s] by (simp add: heap_inv_def)
    with take_pages r(1) eq(2) show ?thesis by (auto simp: run_inv_def)
  next
    case (return_pages e n p s)
    then have r: "ok s" "own s = own (kh_pmm h) - run_of p (unat n)"
      using free [OF return_pages(4), of "kh_pmm h" n p] o by auto
    then have eq: "own s - X' = own (kh_pmm h) - X" "X' \<subseteq> own s" using return_pages(3,6) o by auto
    have "heap_inv (\<lambda>s. own s - X') (h\<lparr>kh_pmm := s\<rparr>) B L"
      using inv eq(1) pmm_change(2) [of "\<lambda>_. own (kh_pmm h) - X" h B L s] by (simp add: heap_inv_def)
    with return_pages r(1) eq(2) show ?thesis by (auto simp: run_inv_def)
  qed
qed

lemma reach_inv:
  assumes "(heap_step P envok)\<^sup>*\<^sup>* (h0, L0, X0) (h, L, X)" and "run_inv h0 L0 X0"
  shows "run_inv h L X"
proof -
  have "case y of (h, L, X) \<Rightarrow> run_inv h L X" if "(heap_step P envok)\<^sup>*\<^sup>* (h0, L0, X0) y" for y
    using that
  proof (induction rule: rtranclp_induct)
    case base
    show ?case using assms(2) by simp
  next
    case (step y z)
    obtain h L X h' L' X' where "y = (h, L, X)" "z = (h', L', X')" by (metis prod_cases3)
    with step step_inv [of h L X h' L' X'] show ?case by simp
  qed
  from this [OF assms(1)] show ?thesis by simp
qed

lemma boot_inv: "ok (kh_pmm h) \<Longrightarrow> run_inv (kmalloc_init h) {} {}"
  unfolding run_inv_def
  by (intro conjI exI [of _ Map.empty])
    (simp_all add: heap_inv_def kmalloc_init_def slab_wf_def mag_wf_def big_wf_def live_wf_def heap_pages_def slab_pages_def disjoint_lists_def)

text \<open>In every reachable state, an allocation returns; a new object overlaps no live one, and live objects can be freed.\<close>

lemma no_overlap:
  assumes "(heap_step P envok)\<^sup>*\<^sup>* (kmalloc_init h0, {}, {}) (h, L, X)" and "ok (kh_pmm h0)" and e: "envok e" and "unat sz < 2 ^ 43"
  shows "(\<exists>p h'. kmalloc P e sz h = Some (p, h') \<and> (p = 0 \<or> (\<forall>(q, m) \<in> L. q \<noteq> p \<and> extent p (unat sz) \<inter> extent q m = {}))) \<and>
    (\<forall>(q, m) \<in> L. \<exists>h'. kfree P e q h = Some h')"
proof -
  have "run_inv h L X" using reach_inv [OF assms(1) boot_inv [OF assms(2)]] .
  then obtain B where inv: "heap_inv (\<lambda>s. own s - X) h B L" and o: "ok (kh_pmm h) \<and> X \<subseteq> own (kh_pmm h)"
    by (auto simp: run_inv_def)
  note ps = without_others [of X]
  obtain p h' B' where p: "kmalloc P e sz h = Some (p, h')"
      "p \<noteq> 0 \<longrightarrow> heap_inv (\<lambda>s. own s - X) h' B' (insert (p, unat sz) L)" "p = 0 \<or> p \<notin> fst ` L"
    using page_source.kmalloc_spec [OF ps inv o e assms(4)] by (metis (no_types, lifting))
  have "q \<noteq> p \<and> extent p (unat sz) \<inter> extent q m = {}" if "(q, m) \<in> L" "p \<noteq> 0" for q m
  proof -
    have "q \<noteq> p" using that p(3) by force
    moreover have "heap_inv (\<lambda>s. own s - X) h' B' (insert (p, unat sz) L)" using p(2) that(2) by simp
    ultimately show ?thesis using live_disjoint [of "\<lambda>s. own s - X" h' B' "insert (p, unat sz) L" p "unat sz" q m] that(1) by blast
  qed
  moreover have "\<exists>h'. kfree P e q h = Some h'" if "(q, m) \<in> L" for q m
    using page_source.kfree_spec [OF ps inv o e that] by blast
  ultimately show ?thesis using p(1) by blast
qed

end

end
