(* ===== verification/Vmm_Space.thy ===== *)
theory Vmm_Space
  imports Vmm_Tree Kmalloc_Safe
begin

text \<open>
  Address spaces over any page allocator that keeps its promises (the locale \<open>frame_source\<close>): the user half of a page-table
  tree is a partial map from addresses to entries, which \<open>vmm_map_page\<close> updates at one address, \<open>vmm_unmap_page\<close> deletes
  at one address, and \<open>vmm_walk_pagetable\<close> reads.
\<close>

section \<open>Entries\<close>

lemma page_small: "page_aligned p \<Longrightarrow> p AND - 4096 = p"
  using page_of_aligned [of p] by (simp add: page_of_def)

lemma aligned_and:
  assumes "page_aligned p" and "(- 4096) AND x = 0"
  shows "p AND x = 0"
proof -
  have "p AND x = (p AND - 4096) AND x" using page_small [OF assms(1)] by simp
  also have "\<dots> = p AND (- 4096 AND x)" by (rule and.assoc)
  also have "\<dots> = 0" using assms(2) by simp
  finally show ?thesis .
qed

lemma table_entry:
  fixes u :: bool
  assumes "page_aligned p"
  defines "en \<equiv> (p OR PAGE_PRESENT OR PAGE_WRITE) OR (if u then PAGE_USER else 0)"
  shows "page_of en = p" "present en" "\<not> huge en"
proof -
  note d = PAGE_PRESENT_def PAGE_WRITE_def PAGE_USER_def PAGE_HUGE_def
  show "page_of en = p" unfolding en_def page_of_def d
    by (simp add: bit.conj_disj_distrib2 page_small [OF assms(1)])
  have "p AND 128 = 0" by (rule aligned_and [OF assms(1)]) simp
  then show "\<not> huge en" unfolding en_def huge_def d by (simp add: bit.conj_disj_distrib2)
  show "present en" unfolding en_def present_def d
    by (simp add: bit.conj_disj_distrib2 aligned_and [OF assms(1)])
qed

lemma pte_entry:
  assumes "page_aligned phys" and "flags AND PAGE_NX = 0"
  shows "present (pte_of phys flags)" "page_of (pte_of phys flags) = phys"
proof -
  show "present (pte_of phys flags)" unfolding pte_of_def present_def PAGE_PRESENT_def
    by (simp add: bit.conj_disj_distrib2)
  have "(flags AND (0xFFF OR PAGE_NX)) = flags AND 0xFFF" using assms(2) by (simp add: bit.conj_disj_distrib)
  then show "page_of (pte_of phys flags) = phys" unfolding pte_of_def page_of_def PAGE_PRESENT_def
    by (simp add: bit.conj_disj_distrib2 page_small [OF assms(1)] and.assoc)
qed

lemma present_pte [simp]: "present (pte_of phys flags)"
  unfolding pte_of_def present_def PAGE_PRESENT_def by (simp add: bit.conj_disj_distrib2)

lemma index_bounds [simp]: "PML4_INDEX v < 512" "PDPT_INDEX v < 512" "PD_INDEX v < 512" "PT_INDEX v < 512"
proof -
  have "x AND 511 < 512" for x :: u64 by (rule le_less_trans [OF word_and_le1]) simp
  then show "PML4_INDEX v < 512" "PDPT_INDEX v < 512" "PD_INDEX v < 512" "PT_INDEX v < 512"
    by (simp_all add: PML4_INDEX_def PDPT_INDEX_def PD_INDEX_def PT_INDEX_def)
qed

section \<open>Address spaces as partial maps\<close>

definition user_idx :: "u64 set" where "user_idx = {i. i < 255}"

definition dir_of :: "u64 \<Rightarrow> u64 list" where "dir_of v = [PML4_INDEX v, PDPT_INDEX v, PD_INDEX v]"

definition user_addr :: "u64 \<Rightarrow> bool" where "user_addr v \<longleftrightarrow> v < push_bit 39 255"

definition space :: "'s vm \<Rightarrow> u64 \<Rightarrow> u64 \<Rightarrow> u64 option" where
  "space s root v = look (vm_mem s) root (dir_of v) (PT_INDEX v)"

definition tables :: "'s vm \<Rightarrow> u64 \<Rightarrow> u64 set" where
  "tables s root = tabs (vm_mem s) user_idx 3 root"

definition space_ok :: "'s vm \<Rightarrow> u64 \<Rightarrow> bool" where
  "space_ok s root \<longleftrightarrow> ptree (vm_mem s) user_idx 3 root"

lemma user_idx_sub [simp]: "user_idx \<subseteq> idx"
  by (auto simp: user_idx_def word_less_nat_alt)

lemma user_addr_dir: "user_addr v \<Longrightarrow> vpath user_idx (dir_of v)"
proof -
  assume "user_addr v"
  then have "unat v < 255 * 2 ^ 39" by (simp add: user_addr_def word_less_nat_alt push_bit_eq_mult)
  then have "unat v div 2 ^ 39 < 255" by (simp add: less_mult_imp_div_less)
  moreover have "drop_bit 39 v AND 511 \<le> drop_bit 39 v" by (rule word_and_le2)
  then have "unat (PML4_INDEX v) \<le> unat v div 2 ^ 39"
    unfolding PML4_INDEX_def by (simp add: word_le_nat_alt drop_bit_eq_div unat_div)
  ultimately have "PML4_INDEX v \<in> user_idx" by (simp add: user_idx_def word_less_nat_alt)
  then show ?thesis by (simp add: dir_of_def)
qed

lemma dir_length [simp]: "length (dir_of v) = 3"
  by (simp add: dir_of_def)

text \<open>Two user addresses with the same indices lie in the same page.\<close>

lemma and_mask_bits: "x AND 0x1FF = y AND (0x1FF :: u64) \<Longrightarrow> n < 9 \<Longrightarrow> bit x n = bit y n"
proof -
  assume a: "x AND 0x1FF = y AND 0x1FF" "n < 9"
  have "(0x1FF :: u64) = mask 9" by (simp add: mask_eq_exp_minus_1)
  with a(1) have "bit (x AND mask 9) n = bit (y AND mask 9) n" by simp
  with a(2) show ?thesis by (simp add: bit_and_iff bit_mask_iff)
qed

lemma user_addr_bits: "user_addr v \<Longrightarrow> n \<ge> 47 \<Longrightarrow> \<not> bit v n"
proof -
  assume u: "user_addr v" "n \<ge> 47"
  have "unat v < 2 ^ 47" using u(1) by (simp add: user_addr_def word_less_nat_alt push_bit_eq_mult)
  then have "take_bit 47 (unat v) = unat v" by (simp add: take_bit_nat_eq_self)
  then have "\<not> bit (unat v) n" using u(2) by (metis bit_take_bit_iff not_less)
  then show ?thesis by (simp add: bit_unsigned_iff)
qed

lemma same_page:
  assumes "user_addr v" "user_addr w" "dir_of v = dir_of w" "PT_INDEX v = PT_INDEX w"
  shows "page_of v = page_of w"
proof (rule bit_word_eqI)
  fix n assume n: "n < LENGTH(64)"
  have e: "drop_bit k v AND 0x1FF = drop_bit k w AND 0x1FF" if "k \<in> {12, 21, 30, 39}" for k
    using assms(3,4) that by (auto simp: dir_of_def PML4_INDEX_def PDPT_INDEX_def PD_INDEX_def PT_INDEX_def)
  have b: "bit v (k + j) = bit w (k + j)" if "k \<in> {12, 21, 30, 39}" "j < 9" for k j
    using and_mask_bits [OF e [OF that(1)] that(2)] by (simp add: bit_drop_bit_eq)
  have "bit v n = bit w n" if "n \<ge> 12"
  proof -
    consider "n < 21" | "21 \<le> n" "n < 30" | "30 \<le> n" "n < 39" | "39 \<le> n" "n < 48" | "48 \<le> n" by linarith
    then show ?thesis
      using b [of 12 "n - 12"] b [of 21 "n - 21"] b [of 30 "n - 30"] b [of 39 "n - 39"]
        user_addr_bits [OF assms(1), of n] user_addr_bits [OF assms(2), of n] that
      by cases simp_all
  qed
  moreover have "(4095 :: u64) = mask 12" by (simp add: mask_eq_exp_minus_1)
  then have "bit (NOT 4095 :: u64) n \<longleftrightarrow> n \<ge> 12" using n by (simp only: bit_not_iff bit_mask_iff) auto
  ultimately show "bit (page_of v) n = bit (page_of w) n" unfolding page_of_def bit_and_iff by blast
qed

lemma page_indices:
  assumes "page_of v = page_of w"
  shows "dir_of v = dir_of w" "PT_INDEX v = PT_INDEX w"
proof -
  have "bit v n = bit w n" if "12 \<le> n" for n
  proof (cases "n < 64")
    case True
    have "(4095 :: u64) = mask 12" by (simp add: mask_eq_exp_minus_1)
    then have "bit (NOT 4095 :: u64) n" using True that by (simp only: bit_not_iff bit_mask_iff) auto
    with assms show ?thesis unfolding page_of_def by (metis bit_and_iff)
  next
    case False
    then show ?thesis by (auto dest: bit_imp_le_length)
  qed
  then have "drop_bit k v = drop_bit k w" if "12 \<le> k" for k
    using that by (intro bit_eqI) (simp add: bit_drop_bit_eq)
  then show "dir_of v = dir_of w" "PT_INDEX v = PT_INDEX w"
    by (simp_all add: dir_of_def PML4_INDEX_def PDPT_INDEX_def PD_INDEX_def PT_INDEX_def)
qed

lemma walk_space:
  assumes "space_ok s root" and "user_addr v"
  shows "vmm_walk_pagetable s root v = map_option (\<lambda>pt. slot pt (PT_INDEX v))
      (if space s root v = None then None else path (vm_mem s) root (dir_of v))"
proof -
  let ?m = "vm_mem s"
  have i: "PML4_INDEX v \<in> user_idx" using user_addr_dir [OF assms(2)] by (simp add: dir_of_def)
  have p3: "ptree ?m user_idx (Suc 2) root" using assms(1) unfolding space_ok_def by (simp add: numeral_3_eq_3 numeral_2_eq_2)
  have nh: "\<not> huge (?m (slot t j))" if "ptree ?m I (Suc d) t" "j \<in> I" "present (?m (slot t j))" for I d t j
    using that unfolding ptree.simps by blast
  have k: "ptree ?m idx d (page_of (?m (slot t j)))" if "ptree ?m I (Suc d) t" "j \<in> I" "present (?m (slot t j))" for I d t j
  proof -
    have "kid ?m t j = Some (page_of (?m (slot t j)))" using that(3) by (simp add: kid_def)
    from ptree_kid(1) [OF that(1,2) this] show ?thesis .
  qed
  have p2: "ptree ?m idx (Suc 1) (page_of (?m (slot root (PML4_INDEX v))))" if "present (?m (slot root (PML4_INDEX v)))"
    using k [OF p3 i that] by (simp only: numeral_2_eq_2 One_nat_def)
  have p1: "ptree ?m idx (Suc 0) (page_of (?m (slot (page_of (?m (slot root (PML4_INDEX v)))) (PDPT_INDEX v))))"
    if "present (?m (slot root (PML4_INDEX v)))" "present (?m (slot (page_of (?m (slot root (PML4_INDEX v)))) (PDPT_INDEX v)))"
    using k [OF p2 [OF that(1)] _ that(2)] unfolding One_nat_def by (metis index_bounds(2) mem_Collect_eq)
  show ?thesis
    using nh [OF p2] nh [OF p1]
    by (auto simp: vmm_walk_pagetable_def entry_def Let_def space_def look_def dir_of_def kid_def)
qed

lemma page_frame: "page_aligned p \<Longrightarrow> vm_mem (clear_page p s) a = (if page_of a = p then 0 else vm_mem s a)"
  by (simp add: clear_page_def in_page_iff)

section \<open>The page allocator as the page tables see it\<close>

text \<open>
  The links of the free lists lie in pages that nobody owns; \<open>dry e s\<close> says that there is no page to hand out, which is what
  a failed allocation shows.
\<close>

locale frame_source = page_source "fo_pages F" ok own envok
  for F :: "('e, 's) frame_ops" and ok :: "'s \<Rightarrow> bool" and own :: "'s \<Rightarrow> u64 set" and envok :: "'e \<Rightarrow> bool" +
  fixes dry :: "'e \<Rightarrow> 's \<Rightarrow> bool"
  assumes free_page: "envok e \<Longrightarrow> ok s \<Longrightarrow> p \<in> own s \<Longrightarrow> \<exists>s'. fo_free_page F e p s = Some s' \<and> ok s' \<and> own s' = own s - {p}"
    and own_nonzero: "ok s \<Longrightarrow> 0 \<notin> own s"
    and links: "ok s \<Longrightarrow> page_of a \<in> own s \<Longrightarrow> fo_links F s m a = m a"
    and alloc_fails: "envok e \<Longrightarrow> ok s \<Longrightarrow> po_alloc_node (fo_pages F) e 1 s = Some (0, s') \<Longrightarrow> dry e s'"
    and dry_fails: "envok e \<Longrightarrow> ok s \<Longrightarrow> dry e s \<Longrightarrow> po_alloc_node (fo_pages F) e 1 s = Some (p, s') \<Longrightarrow> p = 0"
begin

lemma set_pmm_simps [simp]: "vm_pmm (set_pmm F q s) = q" "kernel_pml4 (set_pmm F q s) = kernel_pml4 s" "vm_flushed (set_pmm F q s) = vm_flushed s"
  by (simp_all add: set_pmm_def)

lemma set_pmm_mem: "ok q \<Longrightarrow> page_of a \<in> own q \<Longrightarrow> vm_mem (set_pmm F q s) a = vm_mem s a"
  by (simp add: set_pmm_def links)

definition grown :: "'s vm \<Rightarrow> u64 set \<Rightarrow> nat \<Rightarrow> u64 \<Rightarrow> u64 set \<Rightarrow> 's vm \<Rightarrow> bool" where
  "grown s I d t N s' \<longleftrightarrow> ok (vm_pmm s') \<and> own (vm_pmm s') = own (vm_pmm s) \<union> N \<and> N \<inter> own (vm_pmm s) = {} \<and>
     grows (own (vm_pmm s)) (vm_mem s) I d t N (vm_mem s') \<and> kernel_pml4 s' = kernel_pml4 s \<and> vm_flushed s' = vm_flushed s"

lemma alloc_table:
  assumes "envok e" and "ok (vm_pmm s)"
  shows "\<exists>p q. vmm_alloc_page_table F e s = Some (p, if p = 0 then set_pmm F q s else clear_page p (set_pmm F q s)) \<and> ok q \<and>
    (if p = 0 then own q = own (vm_pmm s) \<and> dry e q
     else page_aligned p \<and> p \<notin> own (vm_pmm s) \<and> own q = insert p (own (vm_pmm s)))"
proof -
  obtain p q where "po_alloc_node (fo_pages F) e 1 (vm_pmm s) = Some (p, q)" "ok q"
      "if p = 0 then own q = own (vm_pmm s) else page_aligned p \<and> p \<notin> own (vm_pmm s) \<and> own q = insert p (own (vm_pmm s))"
    using alloc_node [OF assms] by blast
  then show ?thesis using alloc_fails [OF assms, of q]
    by (intro exI [of _ p] exI [of _ q]) (auto simp: vmm_alloc_page_table_def Let_def)
qed

lemma grown_kid:
  assumes "ptree (vm_mem s) I (Suc d) t" and "kid (vm_mem s) t i = Some c" and "i \<in> I" and "I \<subseteq> idx"
    and "tabs (vm_mem s) I (Suc d) t \<subseteq> own (vm_pmm s)" and "grown s idx d c N s'"
  shows "grown s I (Suc d) t N s'"
  using assms(5,6) grows_kid [OF assms(1-4) _ _ assms(5), of N "vm_mem s'"] unfolding grown_def by blast

lemma grown_link:
  assumes "ptree (vm_mem s) I (Suc d) t" and "\<not> present (entry s t i)" and "i \<in> I" and "I \<subseteq> idx"
    and "tabs (vm_mem s) I (Suc d) t \<subseteq> own (vm_pmm s)"
    and "p \<notin> own (vm_pmm s)" "page_aligned p" "ok q" "own q = insert p (own (vm_pmm s))"
    and en: "present en" "\<not> huge en" "page_of en = p"
  shows "grown s I (Suc d) t {p} (put (slot t i) en (clear_page p (set_pmm F q s)))"
proof -
  let ?u = "put (slot t i) en (clear_page p (set_pmm F q s))"
  have p: "p \<notin> tabs (vm_mem s) I (Suc d) t" using assms(5,6) by blast
  have t: "page_of (slot t i) = t" "t \<noteq> p" using ptree_aligned [OF assms(1)] assms(3,4) p by auto
  have "grows (own (vm_pmm s)) (vm_mem s) I (Suc d) t {p} (vm_mem ?u)"
  proof (rule grows_link [OF assms(1) _ assms(3,4) p assms(7) en assms(5)])
    show "\<not> present (vm_mem s (slot t i))" using assms(2) by (simp add: entry_def)
    show "vm_mem ?u (slot t i) = en" by (simp add: put_def)
    show "\<forall>a. page_of a = p \<longrightarrow> vm_mem ?u a = 0" using t by (auto simp: put_def page_frame [OF assms(7)])
    show "\<forall>a. page_of a \<in> own (vm_pmm s) - {p} \<longrightarrow> a \<noteq> slot t i \<longrightarrow> vm_mem ?u a = vm_mem s a"
      using assms(9) by (auto simp: put_def page_frame [OF assms(7)] set_pmm_mem [OF assms(8)])
  qed
  moreover have "vm_pmm ?u = q" "kernel_pml4 ?u = kernel_pml4 s" "vm_flushed ?u = vm_flushed s" by (simp_all add: put_def clear_page_def)
  ultimately show ?thesis using assms(6,8,9) by (auto simp: grown_def)
qed

lemma grown_trans:
  assumes "grown s I d t N s1" and "grown s1 I d t N' s2"
  shows "grown s I d t (N \<union> N') s2"
proof -
  have "own (vm_pmm s) \<subseteq> own (vm_pmm s1)" using assms(1) by (auto simp: grown_def)
  with assms grows_trans [of "own (vm_pmm s)" "vm_mem s" I d t N "vm_mem s1" "own (vm_pmm s1)" N' "vm_mem s2"]
  show ?thesis unfolding grown_def by auto
qed

lemma grown_tree:
  assumes "grown s I d t N s'" and "tabs (vm_mem s) I d t \<subseteq> own (vm_pmm s)"
  shows "ptree (vm_mem s') I d t" "tabs (vm_mem s') I d t \<subseteq> own (vm_pmm s')" "ok (vm_pmm s')"
  using assms by (auto simp: grown_def grows_def)

definition no_page :: "'e \<Rightarrow> 's vm \<Rightarrow> bool" where
  "no_page e s \<longleftrightarrow> dry e (vm_pmm s)"

text \<open>The descent, and the tables it creates on the way.\<close>

lemma get_entry_spec:
  assumes e: "envok e"
  shows "ptree (vm_mem s) I d t \<Longrightarrow> tabs (vm_mem s) I d t \<subseteq> own (vm_pmm s) \<Longrightarrow> ok (vm_pmm s) \<Longrightarrow> I \<subseteq> idx \<Longrightarrow>
    vpath I is \<Longrightarrow> length is = d \<Longrightarrow>
    \<exists>r s' N. get_entry_loop F e True flags (is @ [j]) t s = Some (r, s') \<and> grown s I d t N s' \<and>
      (r = None \<and> no_page e s' \<or> (\<exists>pt. path (vm_mem s') t is = Some pt \<and> r = Some (slot pt j)))"
proof (induction "is" arbitrary: s I d t)
  case Nil
  then show ?case by (auto simp: grown_def grows_refl intro!: exI [of _ "{}"])
next
  case (Cons i "is")
  obtain d' where d: "d = Suc d'" "length is = d'" "i \<in> I" "vpath idx is" using Cons.prems by auto
  have rest: "get_entry_loop F e True flags ((i # is) @ [j]) t u = get_entry_loop F e True flags (is @ [j]) (page_of (entry u t i)) u"
    if "present (entry u t i)" for u :: "'s vm"
    using that by (cases "is") (simp_all add: Let_def)
  have down: "\<exists>r s' N. get_entry_loop F e True flags ((i # is) @ [j]) t u = Some (r, s') \<and> grown u I d t N s' \<and>
      (r = None \<and> no_page e s' \<or> (\<exists>pt. path (vm_mem s') t (i # is) = Some pt \<and> r = Some (slot pt j)))"
    if u: "ptree (vm_mem u) I d t" "tabs (vm_mem u) I d t \<subseteq> own (vm_pmm u)" "ok (vm_pmm u)" "present (entry u t i)" for u
  proof -
    define c where "c = page_of (entry u t i)"
    have k: "kid (vm_mem u) t i = Some c" using u(4) by (simp add: kid_def c_def entry_def)
    have t1: "ptree (vm_mem u) I (Suc d') t" "tabs (vm_mem u) I (Suc d') t \<subseteq> own (vm_pmm u)" using u(1,2) d(1) by simp_all
    have "ptree (vm_mem u) idx d' c" "tabs (vm_mem u) idx d' c \<subseteq> own (vm_pmm u)"
      using ptree_kid [OF t1(1) d(3) k] kid_tabs [OF d(3) k, of d'] t1(2) by auto
    from Cons.IH [OF this u(3) subset_refl d(4,2)] obtain r s' N where
      r: "get_entry_loop F e True flags (is @ [j]) c u = Some (r, s')" "grown u idx d' c N s'"
         "r = None \<and> no_page e s' \<or> (\<exists>pt. path (vm_mem s') c is = Some pt \<and> r = Some (slot pt j))" by blast
    have g: "grown u I d t N s'" using grown_kid [OF t1(1) k d(3) Cons.prems(4) t1(2) r(2)] d(1) by simp
    have tc: "t \<notin> tabs (vm_mem u) idx d' c" "t \<in> own (vm_pmm u)" "page_aligned t"
      using ptree_kid [OF t1(1) d(3) k] t1(2) ptree_aligned [OF u(1)] by auto
    have "t \<notin> N" using tc(2) r(2) by (auto simp: grown_def)
    then have "kid (vm_mem s') t i = kid (vm_mem u) t i"
      using tc d(3) Cons.prems(4) r(2) by (intro kid_cong) (auto simp: grown_def grows_def)
    with k r(1,3) rest [OF u(4)] g show ?thesis by (auto simp: c_def)
  qed
  show ?case
  proof (cases "present (entry s t i)")
    case True
    with down Cons.prems show ?thesis by blast
  next
    case False
    obtain p q where a: "vmm_alloc_page_table F e s = Some (p, if p = 0 then set_pmm F q s else clear_page p (set_pmm F q s))" "ok q"
      "if p = 0 then own q = own (vm_pmm s) \<and> dry e q
       else page_aligned p \<and> p \<notin> own (vm_pmm s) \<and> own q = insert p (own (vm_pmm s))"
      using alloc_table [OF e Cons.prems(3)] by blast
    show ?thesis
    proof (cases "p = 0")
      case True
      then have "get_entry_loop F e True flags ((i # is) @ [j]) t s = Some (None, set_pmm F q s)"
        using a(1) False by (cases "is") (simp_all add: Let_def)
      moreover have "grows (own (vm_pmm s)) (vm_mem s) I d t {} (vm_mem (set_pmm F q s))"
        using a True Cons.prems(1,2,4) by (intro grows_same) (auto simp: set_pmm_mem)
      then have "grown s I d t {} (set_pmm F q s)" using a True by (simp add: grown_def)
      moreover have "no_page e (set_pmm F q s)" using a(3) True by (simp add: no_page_def)
      ultimately show ?thesis by blast
    next
      case pnz: False
      define en where "en = (p OR PAGE_PRESENT OR PAGE_WRITE) OR (if flags AND PAGE_USER \<noteq> 0 then PAGE_USER else 0)"
      have p: "page_aligned p" "p \<notin> own (vm_pmm s)" "own q = insert p (own (vm_pmm s))" using a(3) pnz by auto
      note en = table_entry [OF p(1), of "flags AND PAGE_USER \<noteq> 0", folded en_def]
      define u where "u = put (slot t i) en (clear_page p (set_pmm F q s))"
      have g: "grown s I d t {p} u" unfolding u_def d(1)
        using Cons.prems d p a(2) False by (intro grown_link en) auto
      have pe: "entry u t i = en" by (simp add: u_def entry_def put_def)
      have "get_entry_loop F e True flags ((i # is) @ [j]) t s = get_entry_loop F e True flags ((i # is) @ [j]) t u"
        using a(1) False pnz en(2) unfolding rest [of u, unfolded pe, OF en(2)]
        by (cases "is") (simp_all add: Let_def u_def en_def)
      moreover obtain r s' N where r: "get_entry_loop F e True flags ((i # is) @ [j]) t u = Some (r, s')" "grown u I d t N s'"
          "r = None \<and> no_page e s' \<or> (\<exists>pt. path (vm_mem s') t (i # is) = Some pt \<and> r = Some (slot pt j))"
        using down [OF grown_tree [OF g Cons.prems(2)]] en(2) unfolding pe by blast
      ultimately show ?thesis using grown_trans [OF g r(2)] by auto
    qed
  qed
qed

text \<open>The contract of an address space: one address is remapped, the tables stay the address space's own.\<close>

definition vm_inv :: "'s vm \<Rightarrow> u64 \<Rightarrow> bool" where
  "vm_inv s root \<longleftrightarrow> space_ok s root \<and> tables s root \<subseteq> own (vm_pmm s) \<and> ok (vm_pmm s)"

lemma write_space:
  assumes "space_ok s root" and "user_addr v" and "path (vm_mem s) root (dir_of v) = Some pt"
  shows "space_ok (put (slot pt (PT_INDEX v)) x s) root" "tables (put (slot pt (PT_INDEX v)) x s) root = tables s root"
    "user_addr w \<Longrightarrow> space (put (slot pt (PT_INDEX v)) x s) root w =
       (if page_of w = page_of v then (if present x then Some x else None) else space s root w)"
    "page_of a \<notin> tables s root \<Longrightarrow> vm_mem (put (slot pt (PT_INDEX v)) x s) a = vm_mem s a"
proof -
  let ?m = "vm_mem s" and ?m' = "(vm_mem s)(slot pt (PT_INDEX v) := x)"
  have t: "ptree ?m user_idx 3 root" using assms(1) by (simp add: space_ok_def)
  note d = user_addr_dir [OF assms(2)]
  have al: "page_aligned pt" using path_aligned [OF assms(3) ptree_aligned [OF t]] .
  have pt: "pt \<in> tabs ?m user_idx 3 root" by (rule path_tabs [OF assms(3) d]) simp
  have w: "ptree ?m' user_idx 3 root \<and> tabs ?m' user_idx 3 root = tabs ?m user_idx 3 root"
    using write_leaf [OF t assms(3) d, of ?m'] al by simp
  then show "space_ok (put (slot pt (PT_INDEX v)) x s) root" "tables (put (slot pt (PT_INDEX v)) x s) root = tables s root"
    by (simp_all add: space_ok_def tables_def put_def)
  show "vm_mem (put (slot pt (PT_INDEX v)) x s) a = vm_mem s a" if "page_of a \<notin> tables s root"
    using that pt al by (auto simp: put_def tables_def)
  show "space (put (slot pt (PT_INDEX v)) x s) root w =
       (if page_of w = page_of v then (if present x then Some x else None) else space s root w)" if "user_addr w"
  proof -
    have "dir_of w = dir_of v \<and> PT_INDEX w = PT_INDEX v \<longleftrightarrow> page_of w = page_of v"
      using same_page [OF that assms(2)] page_indices [of w v] by blast
    with look_write [OF t assms(3) d _ _ _ user_addr_dir [OF that], of "PT_INDEX v" "PT_INDEX w" x]
    show ?thesis by (simp add: space_def put_def)
  qed
qed

lemma grown_space:
  assumes "grown s user_idx 3 root N s'" and "user_addr w"
  shows "space s' root w = space s root w"
  using assms user_addr_dir [OF assms(2)] by (simp add: grown_def grows_def space_def)

lemma map_page_spec:
  assumes "vm_inv s root" and "envok e" and "user_addr v"
    and "v AND 0xFFF = 0" and "phys AND 0xFFF = 0"
  shows "\<exists>r s'. vmm_map_page F e root v phys flags s = Some (r, s') \<and> vm_inv s' root \<and>
    (\<forall>w. user_addr w \<longrightarrow> space s' root w =
       (if r = ERR_OK \<and> page_of w = v then Some (pte_of phys flags) else space s root w)) \<and>
    (r = ERR_OK \<and> v \<in> set (vm_flushed s') \<or> r = ERR_NOMEM \<and> no_page e s') \<and>
    tables s root \<subseteq> tables s' root \<and> tables s' root - tables s root = own (vm_pmm s') - own (vm_pmm s) \<and>
    own (vm_pmm s) \<subseteq> own (vm_pmm s') \<and>
    (\<forall>a. page_of a \<in> own (vm_pmm s) - tables s' root \<longrightarrow> vm_mem s' a = vm_mem s a)"
proof -
  have i: "ptree (vm_mem s) user_idx 3 root" "tabs (vm_mem s) user_idx 3 root \<subseteq> own (vm_pmm s)" "ok (vm_pmm s)"
    using assms(1) by (simp_all add: vm_inv_def space_ok_def tables_def)
  obtain r s1 N where g: "get_entry_loop F e True flags (dir_of v @ [PT_INDEX v]) root s = Some (r, s1)"
      "grown s user_idx 3 root N s1" "r = None \<and> no_page e s1 \<or> (\<exists>pt. path (vm_mem s1) root (dir_of v) = Some pt \<and> r = Some (slot pt (PT_INDEX v)))"
    using get_entry_spec [OF assms(2) i _ user_addr_dir [OF assms(3)], of flags "PT_INDEX v"] by auto
  have ge: "get_entry F e root v 4 True flags s = Some (r, s1)" using g(1) by (simp add: get_entry_def indices_def dir_of_def)
  have s1: "vm_inv s1 root" using grown_tree [OF g(2) i(2)] by (simp add: vm_inv_def space_ok_def tables_def)
  have t: "tables s1 root = tables s root \<union> N" "own (vm_pmm s1) = own (vm_pmm s) \<union> N" "N \<inter> own (vm_pmm s) = {}"
      "\<forall>a. page_of a \<in> own (vm_pmm s) - tables s1 root \<longrightarrow> vm_mem s1 a = vm_mem s a"
    using g(2) by (auto simp: grown_def grows_def tables_def)
  have d: "tables s1 root - tables s root = own (vm_pmm s1) - own (vm_pmm s)" using t i(2) by (auto simp: tables_def)
  have v: "page_of v = v" using assms(4) by (intro page_of_aligned) (simp add: page_aligned_def)
  show ?thesis
  proof (cases r)
    case None
    then show ?thesis using ge assms(4,5) s1 t d grown_space [OF g(2)] g(3) by (simp add: vmm_map_page_def)
  next
    case (Some a)
    then obtain pt where pt: "path (vm_mem s1) root (dir_of v) = Some pt" "a = slot pt (PT_INDEX v)" using g(3) by auto
    let ?s2 = "put a (pte_of phys flags) s1"
    note w = write_space [OF _ assms(3) pt(1), where x = "pte_of phys flags", folded pt(2)]
    have sp: "space_ok s1 root" using s1 by (simp add: vm_inv_def)
    have "vm_inv (vmm_flush_tlb_page v ?s2) root"
      using s1 w(1,2) [OF sp] by (simp add: vm_inv_def space_ok_def tables_def vmm_flush_tlb_page_def put_def)
    moreover have "space (vmm_flush_tlb_page v ?s2) root x = space ?s2 root x" "tables (vmm_flush_tlb_page v ?s2) root = tables ?s2 root"
        "vm_pmm (vmm_flush_tlb_page v ?s2) = vm_pmm s1" "vm_mem (vmm_flush_tlb_page v ?s2) = vm_mem ?s2" for x
      by (simp_all add: space_def tables_def vmm_flush_tlb_page_def put_def)
    moreover have "v \<in> set (vm_flushed (vmm_flush_tlb_page v ?s2))" by (simp add: vmm_flush_tlb_page_def)
    moreover have "vmm_map_page F e root v phys flags s = Some (ERR_OK, vmm_flush_tlb_page v ?s2)"
      using ge Some assms(4,5) by (simp add: vmm_map_page_def)
    ultimately show ?thesis using w(2-4) [OF sp] t d grown_space [OF g(2)] v by auto
  qed
qed

lemma unmap_page_spec:
  assumes "vm_inv s root" and "user_addr v" and "vmm_unmap_page root v s = (r, s')"
  shows "vm_inv s' root \<and> r = (if space s root v = None then ERR_NOENT else ERR_OK) \<and>
    (\<forall>w. user_addr w \<longrightarrow> space s' root w = (if page_of w = page_of v then None else space s root w)) \<and>
    tables s' root = tables s root \<and> vm_pmm s' = vm_pmm s \<and> (r = ERR_OK \<longrightarrow> v \<in> set (vm_flushed s')) \<and>
    (\<forall>a. page_of a \<notin> tables s root \<longrightarrow> vm_mem s' a = vm_mem s a)"
proof -
  have sp: "space_ok s root" using assms(1) by (simp add: vm_inv_def)
  show ?thesis
  proof (cases "space s root v")
    case None
    then have "r = ERR_NOENT" "s' = s" using assms(3) walk_space [OF sp assms(2)] by (simp_all add: vmm_unmap_page_def)
    moreover have "space s root w = None" if "page_of w = page_of v" for w
      using None page_indices [OF that] by (simp add: space_def)
    ultimately show ?thesis using assms(1) None by auto
  next
    case (Some en)
    then obtain pt where pt: "path (vm_mem s) root (dir_of v) = Some pt" by (auto simp: space_def look_def bind_eq_Some_conv)
    then have "vmm_walk_pagetable s root v = Some (slot pt (PT_INDEX v))" using walk_space [OF sp assms(2)] Some by simp
    then have r: "r = ERR_OK" "s' = vmm_flush_tlb_page v (put (slot pt (PT_INDEX v)) 0 s)" using assms(3) by (simp_all add: vmm_unmap_page_def)
    note w = write_space [OF sp assms(2) pt, where x = 0]
    have "space s' root x = space (put (slot pt (PT_INDEX v)) 0 s) root x" "tables s' root = tables (put (slot pt (PT_INDEX v)) 0 s) root"
        "vm_pmm s' = vm_pmm s" "vm_mem s' = vm_mem (put (slot pt (PT_INDEX v)) 0 s)" "v \<in> set (vm_flushed s')" for x
      unfolding r by (simp_all add: space_def tables_def vmm_flush_tlb_page_def put_def)
    moreover from this have "vm_inv s' root" using assms(1) w(1,2) by (simp add: vm_inv_def space_ok_def tables_def)
    ultimately show ?thesis using w r(1) Some by simp
  qed
qed

end

end
