(* ===== verification/Vmm_Free.thy ===== *)
theory Vmm_Free
  imports Vmm_Space
begin

text \<open>
  \<open>vmm_free_user_pages\<close> returns every table and every page of an address space to the page allocator. A private
  address space is a tree of depth four, \<open>ptree m user_idx 4 root\<close>, with the pages as its last level.
\<close>

definition below :: "(u64 \<Rightarrow> u64) \<Rightarrow> nat \<Rightarrow> u64 \<Rightarrow> nat \<Rightarrow> u64 set" where
  "below m d t i = (\<Union>c\<in>set_option (kid m t (of_nat i)). tabs m idx d c)"

lemma idx_nats: "(\<Union>i\<in>idx. f i) = (\<Union>i\<in>set [0..<512]. f (of_nat i))"
proof -
  have "idx = of_nat ` {0..<512}"
  proof (rule set_eqI)
    fix x :: u64
    have "x \<in> idx \<longleftrightarrow> unat x < 512" by (simp add: word_less_nat_alt)
    also have "\<dots> \<longleftrightarrow> x \<in> of_nat ` {0..<512}"
      by (auto simp: image_iff unsigned_of_nat take_bit_nat_eq_self intro!: bexI [of _ "unat x"])
    finally show "x \<in> idx \<longleftrightarrow> x \<in> of_nat ` {0..<512}" .
  qed
  then show ?thesis by simp
qed

lemma small_nat [simp]: "i < 512 \<Longrightarrow> unat (of_nat i :: u64) = i"
  by (simp add: unsigned_of_nat take_bit_nat_eq_self)

lemma small_nat_less [simp]: "i < 512 \<Longrightarrow> (of_nat i :: u64) < 512"
  by (simp add: word_less_nat_alt)

lemma small_nat_inj: "i < 512 \<Longrightarrow> j < 512 \<Longrightarrow> (of_nat i :: u64) = of_nat j \<Longrightarrow> i = j"
  by (metis small_nat)

lemma tabs_below: "tabs m idx (Suc d) t = insert t (\<Union>i\<in>set [0..<512]. below m d t i)"
  unfolding tabs.simps idx_nats below_def ..

lemma below_disjoint:
  assumes "ptree m I (Suc d) t" and "of_nat i \<in> I" "of_nat j \<in> I" "i < 512" "j < 512" "i \<noteq> j"
  shows "below m d t i \<inter> below m d t j = {}"
proof -
  have "(of_nat i :: u64) \<noteq> of_nat j" using small_nat_inj assms(4-6) by blast
  with ptree_disjoint [OF assms(1-3)] show ?thesis by (fastforce simp: below_def)
qed

lemma root_below:
  assumes "ptree m I (Suc d) t" and "of_nat i \<in> I"
  shows "t \<notin> below m d t i"
  using ptree_kid(2) [OF assms] by (auto simp: below_def)

lemma below_present:
  assumes "present (m (slot t (of_nat i)))"
  shows "below m d t i = tabs m idx d (page_of (m (slot t (of_nat i))))"
  using assms by (simp add: below_def kid_def)

lemma below_absent: "\<not> present (m (slot t (of_nat i))) \<Longrightarrow> below m d t i = {}"
  by (simp add: below_def kid_def)

text \<open>Emptying an entry of a table.\<close>

lemma clear_kid:
  assumes t: "ptree m I (Suc d) t" and I: "I \<subseteq> idx" and i: "i < 512"
    and P: "tabs m I (Suc d) t - (if i \<in> I then \<Union>c\<in>set_option (kid m t i). tabs m idx d c else {}) \<subseteq> P"
    and fr: "\<forall>a. a \<noteq> slot t i \<longrightarrow> page_of a \<in> P \<longrightarrow> m' a = m a" and z: "\<not> present (m' (slot t i))"
  shows "ptree m' I (Suc d) t"
    "j \<in> I \<Longrightarrow> j \<noteq> i \<Longrightarrow> (\<Union>c\<in>set_option (kid m' t j). tabs m' idx d c) = (\<Union>c\<in>set_option (kid m t j). tabs m idx d c)"
    "j < 512 \<Longrightarrow> j \<noteq> i \<Longrightarrow> m' (slot t j) = m (slot t j)"
    "tabs m' I (Suc d) t \<subseteq> P"
proof -
  have al: "page_aligned t" using ptree_aligned [OF t] .
  have tP: "t \<in> P" using P ptree_kid(2) [OF t, of i] by (auto split: if_splits)
  show en: "m' (slot t j) = m (slot t j)" if "j < 512" "j \<noteq> i" for j
  proof -
    have "slot t j \<noteq> slot t i" "page_of (slot t j) \<in> P" using entry_slot_inj [OF al al that(1) i] that al tP by auto
    with fr show ?thesis by blast
  qed
  have k: "kid m' t j = (if j = i then None else kid m t j)" if "j \<in> I" for j
    using en [of j] that I z by (auto simp: kid_def)
  have sP: "tabs m idx d c \<subseteq> P" if "j \<in> I" "j \<noteq> i" "kid m t j = Some c" for j c
  proof -
    have "tabs m idx d c \<inter> tabs m idx d c' = {}" if "kid m t i = Some c'" "i \<in> I" for c'
      using ptree_disjoint [OF t \<open>j \<in> I\<close> that(2) \<open>kid m t j = Some c\<close> that(1) \<open>j \<noteq> i\<close>] .
    then have "tabs m idx d c \<inter> (if i \<in> I then \<Union>c\<in>set_option (kid m t i). tabs m idx d c else {}) = {}" by auto
    with P kid_tabs [OF that(1,3)] show ?thesis by blast
  qed
  have sub: "tabs m' idx d c = tabs m idx d c \<and> ptree m' idx d c" if "j \<in> I" "j \<noteq> i" "kid m t j = Some c" for j c
  proof (rule tree_cong)
    show "ptree m idx d c" "idx \<subseteq> idx" using ptree_kid [OF t that(1,3)] by simp_all
    have "page_of (slot t i) = t" using al i by simp
    then show "\<forall>a. page_of a \<in> tabs m idx d c \<longrightarrow> m' a = m a" using ptree_kid(2) [OF t that(1,3)] fr sP [OF that] by (metis subsetD)
  qed
  show eq: "(\<Union>c\<in>set_option (kid m' t j). tabs m' idx d c) = (\<Union>c\<in>set_option (kid m t j). tabs m idx d c)" if "j \<in> I" "j \<noteq> i" for j
    using k [OF that(1)] that sub [OF that] by auto
  have "(\<Union>c\<in>set_option (kid m' t j). tabs m' idx d c) \<subseteq> P" if "j \<in> I" for j
    using k [OF that] eq [OF that] sP [OF that] by (cases "j = i") auto
  then show "tabs m' I (Suc d) t \<subseteq> P" using tP unfolding tabs.simps(2) by blast
  show "ptree m' I (Suc d) t" unfolding ptree.simps(2)
  proof (intro conjI ballI allI impI)
    show "page_aligned t" by (rule al)
    fix j assume j: "j \<in> I"
    show "\<not> (present (m' (slot t j)) \<and> huge (m' (slot t j)))"
      using t j I z en [of j] unfolding ptree.simps(2) by (cases "j = i") auto
    fix c assume "kid m' t j = Some c"
    then have k0: "j \<noteq> i" "kid m t j = Some c" using k [OF j] by (auto split: if_splits)
    show "ptree m' idx d c" "t \<notin> tabs m' idx d c" using sub [OF j k0] ptree_kid(2) [OF t j k0(2)] by auto
    fix j' c' assume j': "j' \<in> I" "j \<noteq> j'" "kid m' t j' = Some c'"
    then have k1: "j' \<noteq> i" "kid m t j' = Some c'" using k [of j'] by (auto split: if_splits)
    from ptree_disjoint [OF t j j'(1) k0(2) k1(2) j'(2)] sub [OF j k0] sub [OF j'(1) k1]
    show "tabs m' idx d c \<inter> tabs m' idx d c' = {}" by simp
  qed
qed

context frame_source
begin

text \<open>
  \<open>frees m R X f\<close>: in every state whose allocator owns \<open>R\<close> and \<open>X\<close>, and whose memory is \<open>m\<close> there, \<open>f\<close> returns the
  pages \<open>X\<close>; the memory of the pages that are still owned is unchanged.
\<close>

definition frees :: "(u64 \<Rightarrow> u64) \<Rightarrow> u64 set \<Rightarrow> u64 set \<Rightarrow> ('s vm \<Rightarrow> 's vm option) \<Rightarrow> bool" where
  "frees m R X f \<longleftrightarrow> (\<forall>s. (\<forall>a. page_of a \<in> R \<union> X \<longrightarrow> vm_mem s a = m a) \<longrightarrow> ok (vm_pmm s) \<longrightarrow> R \<union> X \<subseteq> own (vm_pmm s) \<longrightarrow>
     (\<exists>s'. f s = Some s' \<and> ok (vm_pmm s') \<and> own (vm_pmm s') = own (vm_pmm s) - X \<and>
       (\<forall>a. page_of a \<in> own (vm_pmm s') \<longrightarrow> vm_mem s' a = vm_mem s a)))"

lemma freesD:
  assumes "frees m R X f" and "\<And>a. page_of a \<in> R \<union> X \<Longrightarrow> vm_mem s a = m a" and "ok (vm_pmm s)" and "R \<union> X \<subseteq> own (vm_pmm s)"
  obtains s' where "f s = Some s'" "ok (vm_pmm s')" "own (vm_pmm s') = own (vm_pmm s) - X"
    "\<forall>a. page_of a \<in> own (vm_pmm s') \<longrightarrow> vm_mem s' a = vm_mem s a"
  using assms unfolding frees_def by blast

lemma frees_none: "frees m R {} Some"
  by (simp add: frees_def)

lemma frees_page: "envok e \<Longrightarrow> frees m R {p} (on_pmm F (fo_free_page F e p))"
  unfolding frees_def
proof (intro allI impI)
  fix s :: "'s vm" assume "envok e" "ok (vm_pmm s)" "R \<union> {p} \<subseteq> own (vm_pmm s)"
  then obtain q where "fo_free_page F e p (vm_pmm s) = Some q" "ok q" "own q = own (vm_pmm s) - {p}" using free_page by blast
  then show "\<exists>s'. on_pmm F (fo_free_page F e p) s = Some s' \<and> ok (vm_pmm s') \<and> own (vm_pmm s') = own (vm_pmm s) - {p} \<and>
      (\<forall>a. page_of a \<in> own (vm_pmm s') \<longrightarrow> vm_mem s' a = vm_mem s a)"
    using set_pmm_mem [of q _ s] by (simp add: on_pmm_def)
qed

lemma frees_seq:
  assumes "frees m R X f" and "frees m R' Y g" and "X \<inter> (R' \<union> Y) = {}"
  shows "frees m (R \<union> R') (X \<union> Y) (\<lambda>s. Option.bind (f s) g)"
  unfolding frees_def
proof (intro allI impI)
  fix s :: "'s vm" assume s: "\<forall>a. page_of a \<in> R \<union> R' \<union> (X \<union> Y) \<longrightarrow> vm_mem s a = m a" "ok (vm_pmm s)" "R \<union> R' \<union> (X \<union> Y) \<subseteq> own (vm_pmm s)"
  obtain s1 where s1: "f s = Some s1" "ok (vm_pmm s1)" "own (vm_pmm s1) = own (vm_pmm s) - X"
      "\<forall>a. page_of a \<in> own (vm_pmm s1) \<longrightarrow> vm_mem s1 a = vm_mem s a"
    by (rule freesD [OF assms(1), of s]) (use s in auto)
  have o: "R' \<union> Y \<subseteq> own (vm_pmm s1)" using s(3) s1(3) assms(3) by blast
  have "\<forall>a. page_of a \<in> R' \<union> Y \<longrightarrow> vm_mem s1 a = m a" using s(1) s1(4) o by auto
  then obtain s2 where "g s1 = Some s2" "ok (vm_pmm s2)"
      "own (vm_pmm s2) = own (vm_pmm s1) - Y" "\<forall>a. page_of a \<in> own (vm_pmm s2) \<longrightarrow> vm_mem s2 a = vm_mem s1 a"
    using freesD [OF assms(2) _ s1(2) o] by blast
  with s1 show "\<exists>s'. Option.bind (f s) g = Some s' \<and> ok (vm_pmm s') \<and> own (vm_pmm s') = own (vm_pmm s) - (X \<union> Y) \<and>
      (\<forall>a. page_of a \<in> own (vm_pmm s') \<longrightarrow> vm_mem s' a = vm_mem s a)"
    by auto
qed

lemma frees_loop:
  "\<forall>i\<in>set is. frees m R (X i) (body i) \<Longrightarrow> distinct is \<Longrightarrow> \<forall>i\<in>set is. R \<inter> X i = {} \<Longrightarrow>
   \<forall>i\<in>set is. \<forall>j\<in>set is. i \<noteq> j \<longrightarrow> X i \<inter> X j = {} \<Longrightarrow> frees m R (\<Union>i\<in>set is. X i) (free_loop_body body is)"
proof (induction "is")
  case Nil
  then show ?case using frees_none by (simp add: frees_def)
next
  case (Cons i "is")
  have r: "frees m R (\<Union>i\<in>set is. X i) (free_loop_body body is)" using Cons by simp
  have "X i \<inter> (R \<union> (\<Union>i\<in>set is. X i)) = {}" using Cons.prems(2-4) by auto
  from frees_seq [OF _ r this, of R "body i"] Cons.prems(1) show ?case by (simp add: frees_def)
qed

text \<open>One level of tables: its entries, then the table itself.\<close>

lemma frees_level:
  assumes "envok e" and "ptree m idx (Suc d) t" and "\<forall>i < 512. frees m {t} (below m d t i) (body i)"
  shows "frees m R (tabs m idx (Suc d) t) (\<lambda>s. Option.bind (free_loop_body body [0..<512] s) (on_pmm F (fo_free_page F e t)))"
proof -
  have r: "t \<notin> below m d t i" if "i < 512" for i using root_below [OF assms(2)] that by simp
  have l: "frees m {t} (\<Union>i\<in>set [0..<512]. below m d t i) (free_loop_body body [0..<512])"
    using assms(3) below_disjoint [OF assms(2)] r by (intro frees_loop) auto
  have "(\<Union>i\<in>set [0..<512]. below m d t i) \<inter> ({} \<union> {t}) = {}" using r by auto
  from frees_seq [OF l frees_page [OF assms(1)] this] show ?thesis unfolding tabs_below frees_def by auto
qed

lemma frees_entry:
  assumes "page_aligned t" and "i < 512"
    and "present (m (slot t (of_nat i))) \<Longrightarrow> frees m {t} (tabs m idx d (page_of (m (slot t (of_nat i))))) f"
    and "\<And>s. vm_mem s (slot t (of_nat i)) = m (slot t (of_nat i)) \<Longrightarrow> body s = (if present (m (slot t (of_nat i))) then f s else Some s)"
  shows "frees m {t} (below m d t i) body"
proof -
  have eq: "frees m {t} X body" if g: "frees m {t} X g" "\<And>s. vm_mem s (slot t (of_nat i)) = m (slot t (of_nat i)) \<Longrightarrow> body s = g s" for X g
  proof -
    have p: "page_of (slot t (of_nat i)) = t" using assms(1,2) by simp
    have "body s = g s" if "\<forall>a. page_of a \<in> {t} \<union> X \<longrightarrow> vm_mem s a = m a" for s using that p by (intro g(2)) auto
    with g(1) show ?thesis unfolding frees_def by (metis (no_types, lifting))
  qed
  show ?thesis
  proof (cases "present (m (slot t (of_nat i)))")
    case True
    show ?thesis unfolding below_present [of m, OF True] by (rule eq [OF assms(3) [OF True]]) (simp add: assms(4) True)
  next
    case False
    show ?thesis unfolding below_absent [of m, OF False] by (rule eq [OF frees_none]) (simp add: assms(4) False)
  qed
qed

lemma kid_tree:
  assumes "ptree m I (Suc d) t" and "i \<in> I" and "present (m (slot t i))"
  shows "ptree m idx d (page_of (m (slot t i)))" "\<not> huge (m (slot t i))"
  using ptree_kid [OF assms(1,2), of "page_of (m (slot t i))"] assms unfolding ptree.simps(2) by (auto simp: kid_def)

lemma frees_pte: "envok e \<Longrightarrow> page_aligned pt \<Longrightarrow> i < 512 \<Longrightarrow> frees m {pt} (below m 0 pt i) (free_pte F e pt i)"
  by (rule frees_entry [where f = "on_pmm F (fo_free_page F e (page_of (m (slot pt (of_nat i)))))"])
    (simp_all add: frees_page free_pte_def entry_def Let_def)

lemma frees_pde:
  assumes "envok e" and "ptree m idx 2 pd" and "i < 512"
  shows "frees m {pd} (below m 1 pd i) (free_pde F e pd i)"
proof (rule frees_entry [OF ptree_aligned [OF assms(2)] assms(3)])
  let ?en = "m (slot pd (of_nat i))"
  have k: "ptree m idx (Suc 0) (page_of ?en)" "\<not> huge ?en" if "present ?en"
    using kid_tree [of m idx 1 pd "of_nat i"] assms(2,3) that by (simp_all add: numeral_2_eq_2)
  show "frees m {pd} (tabs m idx 1 (page_of ?en)) (\<lambda>s. Option.bind (free_loop_body (free_pte F e (page_of ?en)) [0..<512] s)
      (on_pmm F (fo_free_page F e (page_of ?en))))" if "present ?en"
    using frees_level [OF assms(1) k(1) [OF that]] frees_pte [OF assms(1) ptree_aligned [OF k(1) [OF that]]] by simp
  show "free_pde F e pd i s = (if present ?en then Option.bind (free_loop_body (free_pte F e (page_of ?en)) [0..<512] s)
      (on_pmm F (fo_free_page F e (page_of ?en))) else Some s)" if "vm_mem s (slot pd (of_nat i)) = ?en" for s
    using that k(2) by (simp add: free_pde_def entry_def Let_def)
qed

lemma frees_pdpte:
  assumes "envok e" and "ptree m idx 3 pdpt" and "i < 512"
  shows "frees m {pdpt} (below m 2 pdpt i) (free_pdpte F e pdpt i)"
proof (rule frees_entry [OF ptree_aligned [OF assms(2)] assms(3)])
  let ?en = "m (slot pdpt (of_nat i))"
  have k: "ptree m idx (Suc 1) (page_of ?en)" "\<not> huge ?en" if "present ?en"
    using kid_tree [of m idx 2 pdpt "of_nat i"] assms(2,3) that by (simp_all add: numeral_3_eq_3 numeral_2_eq_2)
  show "frees m {pdpt} (tabs m idx 2 (page_of ?en)) (\<lambda>s. Option.bind (free_loop_body (free_pde F e (page_of ?en)) [0..<512] s)
      (on_pmm F (fo_free_page F e (page_of ?en))))" if "present ?en"
    using frees_level [OF assms(1) k(1) [OF that]] frees_pde [OF assms(1)] k(1) [OF that] by (simp add: numeral_2_eq_2)
  show "free_pdpte F e pdpt i s = (if present ?en then Option.bind (free_loop_body (free_pde F e (page_of ?en)) [0..<512] s)
      (on_pmm F (fo_free_page F e (page_of ?en))) else Some s)" if "vm_mem s (slot pdpt (of_nat i)) = ?en" for s
    using that k(2) by (simp add: free_pdpte_def entry_def Let_def)
qed

text \<open>
  The root: the entries of the user half are cleared one by one, the index 255 holds no table (it is empty or
  carries the stamp of a small process id).
\<close>

lemma free_pml4e_spec:
  assumes "envok e" and "ok (vm_pmm s)" and i: "i < 512"
    and tree: "page_of (entry s root (of_nat i)) = 0 \<or> (let c = page_of (entry s root (of_nat i)) in
      present (entry s root (of_nat i)) \<longrightarrow> c \<noteq> root \<and> root \<notin> tabs (vm_mem s) idx 3 c \<and> ptree (vm_mem s) idx 3 c \<and>
      tabs (vm_mem s) idx 3 c \<subseteq> own (vm_pmm s))"
  shows "\<exists>s'. free_pml4e F e root i s = Some s' \<and> ok (vm_pmm s') \<and>
    own (vm_pmm s') = own (vm_pmm s) - (if page_of (entry s root (of_nat i)) = 0 then {} else below (vm_mem s) 3 root i) \<and>
    (\<forall>a. a \<noteq> slot root (of_nat i) \<longrightarrow> page_of a \<in> own (vm_pmm s') \<longrightarrow> vm_mem s' a = vm_mem s a) \<and> \<not> present (entry s' root (of_nat i))"
proof -
  let ?en = "entry s root (of_nat i)" and ?m = "vm_mem s"
  consider "\<not> present ?en" | "present ?en" "page_of ?en = 0" | "present ?en" "page_of ?en \<noteq> 0" by blast
  then show ?thesis
  proof cases
    case 1
    then show ?thesis using assms(2) below_absent [of ?m root i] by (auto simp: free_pml4e_def entry_def)
  next
    case 2
    then show ?thesis using assms(2) by (auto simp: free_pml4e_def Let_def put_def entry_def)
  next
    case 3
    let ?c = "page_of ?en"
    have c: "?c \<noteq> root" "root \<notin> tabs ?m idx 3 ?c" "ptree ?m idx 3 ?c" "tabs ?m idx 3 ?c \<subseteq> own (vm_pmm s)"
      using tree 3 by (simp_all add: Let_def)
    have t: "ptree ?m idx (Suc 2) ?c" using c(3) by (simp add: numeral_3_eq_3)
    have "frees ?m {} (tabs ?m idx (Suc 2) ?c) (\<lambda>s. Option.bind (free_loop_body (free_pdpte F e ?c) [0..<512] s) (on_pmm F (fo_free_page F e ?c)))"
      using frees_level [OF assms(1) t] frees_pdpte [OF assms(1) c(3)] by simp
    with assms(2) c(4) obtain s1 where "Option.bind (free_loop_body (free_pdpte F e ?c) [0..<512] s) (on_pmm F (fo_free_page F e ?c)) = Some s1"
        "ok (vm_pmm s1)" "own (vm_pmm s1) = own (vm_pmm s) - tabs ?m idx 3 ?c" "\<forall>a. page_of a \<in> own (vm_pmm s1) \<longrightarrow> vm_mem s1 a = vm_mem s a"
      unfolding frees_def by (auto simp: numeral_3_eq_3 numeral_2_eq_2)
    moreover have "below ?m 3 root i = tabs ?m idx 3 ?c" using below_present [of ?m root i] 3 by (simp add: entry_def)
    ultimately show ?thesis using 3 c(1) by (auto simp: free_pml4e_def Let_def put_def entry_def)
  qed
qed

lemma user_nat: "j < 256 \<Longrightarrow> j \<noteq> 255 \<Longrightarrow> (of_nat j :: u64) \<in> user_idx"
  by (simp add: user_idx_def word_less_nat_alt unsigned_of_nat take_bit_nat_eq_self)

lemma free_pml4e_user:
  assumes "envok e" and "ok (vm_pmm s)" and "i < 256" and "ptree (vm_mem s) user_idx (Suc 3) root"
    and "page_of (entry s root 255) = 0 \<or> \<not> present (entry s root 255)"
    and "i \<noteq> 255 \<Longrightarrow> below (vm_mem s) 3 root i \<subseteq> own (vm_pmm s)"
  shows "\<exists>s'. free_pml4e F e root i s = Some s' \<and> ok (vm_pmm s') \<and>
    own (vm_pmm s') = own (vm_pmm s) - (if i = 255 then {} else below (vm_mem s) 3 root i) \<and>
    (\<forall>a. a \<noteq> slot root (of_nat i) \<longrightarrow> page_of a \<in> own (vm_pmm s') \<longrightarrow> vm_mem s' a = vm_mem s a) \<and> \<not> present (entry s' root (of_nat i))"
proof -
  let ?m = "vm_mem s"
  let ?en = "entry s root (of_nat i)"
  have tr: "page_of ?en = 0 \<or> (let c = page_of ?en in present ?en \<longrightarrow> c \<noteq> root \<and> root \<notin> tabs ?m idx 3 c \<and> ptree ?m idx 3 c \<and>
      tabs ?m idx 3 c \<subseteq> own (vm_pmm s))"
  proof (cases "i = 255 \<or> \<not> present ?en")
    case True
    then show ?thesis using assms(5) by auto
  next
    case False
    then have k: "kid ?m root (of_nat i) = Some (page_of ?en)" by (simp add: kid_def entry_def)
    have "tabs ?m idx 3 (page_of ?en) \<subseteq> own (vm_pmm s)"
      using assms(6) False below_present [of ?m root i 3] by (auto simp: entry_def)
    with ptree_kid [OF assms(4) user_nat k] assms(3) False show ?thesis by (auto simp: Let_def)
  qed
  obtain s1 where s1: "free_pml4e F e root i s = Some s1" "ok (vm_pmm s1)"
      "own (vm_pmm s1) = own (vm_pmm s) - (if page_of ?en = 0 then {} else below ?m 3 root i)"
      "\<forall>a. a \<noteq> slot root (of_nat i) \<longrightarrow> page_of a \<in> own (vm_pmm s1) \<longrightarrow> vm_mem s1 a = ?m a" "\<not> present (entry s1 root (of_nat i))"
    using free_pml4e_spec [OF assms(1,2) _ tr] assms(3) by auto
  have z: "below ?m 3 root i = {}" if "page_of ?en = 0" "i \<noteq> 255"
  proof (rule ccontr)
    assume "below ?m 3 root i \<noteq> {}"
    then have "present ?en" using below_absent [of ?m root i 3] by (auto simp: entry_def)
    then have "0 \<in> below ?m 3 root i" using below_present [of ?m root i 3] that(1) tabs_root [of 0 ?m idx 3] by (simp add: entry_def)
    then show False using assms(2,6) own_nonzero that(2) by auto
  qed
  have x: "own (vm_pmm s1) = own (vm_pmm s) - (if i = 255 then {} else below ?m 3 root i)"
  proof (cases "i = 255")
    case True
    have "below ?m 3 root i = {} \<or> page_of ?en = 0" using True assms(5) below_absent [of ?m root i 3] by (auto simp: entry_def)
    with s1(3) True show ?thesis by auto
  next
    case False
    with s1(3) z show ?thesis by auto
  qed
  with s1 show ?thesis by blast
qed

lemma free_roots:
  assumes "envok e" and al: "page_aligned root"
  shows "ok (vm_pmm s) \<Longrightarrow> distinct is \<Longrightarrow> set is \<subseteq> {..<256} \<Longrightarrow> ptree (vm_mem s) user_idx 4 root \<Longrightarrow>
    page_of (entry s root 255) = 0 \<or> \<not> present (entry s root 255) \<Longrightarrow>
    tabs (vm_mem s) user_idx 4 root \<subseteq> own (vm_pmm s) \<Longrightarrow>
    \<exists>s'. free_loop_body (free_pml4e F e root) is s = Some s' \<and> ok (vm_pmm s') \<and>
      own (vm_pmm s') = own (vm_pmm s) - (\<Union>i\<in>set is - {255}. below (vm_mem s) 3 root i) \<and>
      (\<forall>a. page_of a \<in> own (vm_pmm s') - {root} \<longrightarrow> vm_mem s' a = vm_mem s a) \<and>
      (\<forall>i < 512. if i \<in> set is then \<not> present (entry s' root (of_nat i)) else entry s' root (of_nat i) = entry s root (of_nat i))"
proof (induction "is" arbitrary: s)
  case (Cons i "is")
  let ?m = "vm_mem s"
  have i: "i < 256" "i \<notin> set is" using Cons.prems by auto
  have t: "ptree ?m user_idx (Suc 3) root" using Cons.prems(4) by simp
  have kb: "(\<Union>c\<in>set_option (kid ?m root (of_nat i)). tabs ?m idx 3 c) = below ?m 3 root i" by (simp add: below_def)
  have bo: "below ?m 3 root j \<subseteq> own (vm_pmm s)" if "j < 256" "j \<noteq> 255" for j
    using Cons.prems(6) kid_tabs [OF user_nat [OF that], of ?m root _ 3] unfolding below_def by (cases "kid ?m root (of_nat j)") auto
  obtain s1 where s1: "free_pml4e F e root i s = Some s1" "ok (vm_pmm s1)"
      "\<forall>a. a \<noteq> slot root (of_nat i) \<longrightarrow> page_of a \<in> own (vm_pmm s1) \<longrightarrow> vm_mem s1 a = ?m a" "\<not> present (entry s1 root (of_nat i))"
    and x: "own (vm_pmm s1) = own (vm_pmm s) - (if i = 255 then {} else below ?m 3 root i)"
    using free_pml4e_user [OF assms(1) Cons.prems(1) i(1) t Cons.prems(5)] bo [OF i(1)] by auto
  have i5: "(of_nat i :: u64) < 512" using i(1) by simp
  have cl: "ptree (vm_mem s1) user_idx (Suc 3) root" "tabs (vm_mem s1) user_idx (Suc 3) root \<subseteq> own (vm_pmm s1)"
      "j \<in> user_idx \<Longrightarrow> j \<noteq> of_nat i \<Longrightarrow> (\<Union>c\<in>set_option (kid (vm_mem s1) root j). tabs (vm_mem s1) idx 3 c) = (\<Union>c\<in>set_option (kid ?m root j). tabs ?m idx 3 c)"
      "j < 512 \<Longrightarrow> j \<noteq> of_nat i \<Longrightarrow> vm_mem s1 (slot root j) = ?m (slot root j)" for j
  proof -
    have "tabs ?m user_idx (Suc 3) root - (if of_nat i \<in> user_idx then below ?m 3 root i else {}) \<subseteq> own (vm_pmm s1)"
      using Cons.prems(6) x user_nat [OF i(1)] by (cases "i = 255") (auto simp: user_idx_def)
    note c = clear_kid [OF t user_idx_sub i5 this [folded kb] s1(3) s1(4) [unfolded entry_def]]
    show "ptree (vm_mem s1) user_idx (Suc 3) root" "tabs (vm_mem s1) user_idx (Suc 3) root \<subseteq> own (vm_pmm s1)"
      "j \<in> user_idx \<Longrightarrow> j \<noteq> of_nat i \<Longrightarrow> (\<Union>c\<in>set_option (kid (vm_mem s1) root j). tabs (vm_mem s1) idx 3 c) = (\<Union>c\<in>set_option (kid ?m root j). tabs ?m idx 3 c)"
      "j < 512 \<Longrightarrow> j \<noteq> of_nat i \<Longrightarrow> vm_mem s1 (slot root j) = ?m (slot root j)" by (fact c)+
  qed
  have en: "entry s1 root (of_nat j) = entry s root (of_nat j)" if "j < 512" "j \<noteq> i" for j
    using cl(4) [of "of_nat j"] small_nat_inj [of j i] that i(1) by (auto simp: entry_def)
  have pg: "page_of (slot root (of_nat i)) = root" using al i(1) by simp
  have fr: "vm_mem s1 a = ?m a" if "page_of a \<in> own (vm_pmm s1) - {root}" for a using s1(3) pg that by (metis DiffE singletonI)
  have bl: "below (vm_mem s1) 3 root j = below ?m 3 root j" if "j \<in> set is - {255}" for j
  proof -
    have j: "j < 256" "j \<noteq> i" "(of_nat j :: u64) \<in> user_idx" using that Cons.prems i(2) user_nat by auto
    have "(of_nat j :: u64) \<noteq> of_nat i" using small_nat_inj [of j i] j i(1) by auto
    with cl(3) [OF j(3)] show ?thesis unfolding below_def by simp
  qed
  have "page_of (entry s1 root 255) = 0 \<or> \<not> present (entry s1 root 255)"
    using en [of 255] s1(4) Cons.prems(5) by (cases "i = 255") auto
  then obtain s2 where s2: "free_loop_body (free_pml4e F e root) is s1 = Some s2" "ok (vm_pmm s2)"
      "own (vm_pmm s2) = own (vm_pmm s1) - (\<Union>i\<in>set is - {255}. below ?m 3 root i)"
      "\<forall>a. page_of a \<in> own (vm_pmm s2) - {root} \<longrightarrow> vm_mem s2 a = vm_mem s1 a"
      "\<forall>i < 512. if i \<in> set is then \<not> present (entry s2 root (of_nat i)) else entry s2 root (of_nat i) = entry s1 root (of_nat i)"
    using Cons.IH [OF s1(2)] cl(1,2) Cons.prems(2,3) bl by auto
  have "own (vm_pmm s2) = own (vm_pmm s) - (\<Union>i\<in>set (i # is) - {255}. below ?m 3 root i)"
    unfolding s2(3) x by (cases "i = 255") auto
  moreover have "if j \<in> set (i # is) then \<not> present (entry s2 root (of_nat j)) else entry s2 root (of_nat j) = entry s root (of_nat j)"
    if "j < 512" for j
    using s2(5) [rule_format, OF that] s1(4) en [OF that] i(2) by (cases "j = i") auto
  moreover have "vm_mem s2 a = ?m a" if "page_of a \<in> own (vm_pmm s2) - {root}" for a
    using that s2(3,4) fr [of a] by auto
  ultimately show ?case using s1(1) s2(1,2) by simp
qed auto

end

end
