(* ===== verification/Vmm_Leaves.thy ===== *)
theory Vmm_Leaves
  imports Vmm_Free
begin

text \<open>
  The pages of an address space: every index list is that of an address, the last level of the tree of depth four is the
  set of mapped pages, and the tree is one exactly when no page is mapped twice or used as a table.
\<close>

section \<open>Leaves\<close>

definition leaf :: "(u64 \<Rightarrow> u64) \<Rightarrow> u64 set \<Rightarrow> nat \<Rightarrow> u64 \<Rightarrow> u64 list \<Rightarrow> u64 \<Rightarrow> u64 \<Rightarrow> bool" where
  "leaf m I d t is i en \<longleftrightarrow> vpath I (is @ [i]) \<and> length is = d \<and> look m t is i = Some en"

lemma leaf_0: "leaf m I 0 t is i en \<longleftrightarrow> is = [] \<and> i \<in> I \<and> present en \<and> en = m (slot t i)"
  by (auto simp: leaf_def look_def Let_def split: if_splits)

lemma leaf_Suc:
  "leaf m I (Suc d) t is i en \<longleftrightarrow> (\<exists>j js c. is = j # js \<and> j \<in> I \<and> kid m t j = Some c \<and> leaf m idx d c js i en)"
  by (cases "is") (auto simp: leaf_def look_Cons bind_eq_Some_conv)

lemma kid_0: "kid m t i = Some c \<longleftrightarrow> present (m (slot t i)) \<and> c = page_of (m (slot t i))"
  by (auto simp: kid_def Let_def)

lemma tabs_leaves:
  "c \<in> tabs m I (Suc d) t \<longleftrightarrow> c \<in> tabs m I d t \<or> (\<exists>is i en. leaf m I d t is i en \<and> c = page_of en)"
proof (induction d arbitrary: I t)
  case 0
  have "c \<in> tabs m I (Suc 0) t \<longleftrightarrow> c = t \<or> (\<exists>i\<in>I. kid m t i = Some c)" by (auto simp: tabs.simps(2))
  then show ?case unfolding leaf_0 kid_0 by auto
next
  case (Suc d)
  have "c \<in> tabs m I (Suc (Suc d)) t \<longleftrightarrow> c = t \<or> (\<exists>i\<in>I. \<exists>k. kid m t i = Some k \<and> c \<in> tabs m idx (Suc d) k)"
    unfolding tabs.simps(2) [of m I "Suc d"] by auto
  also have "\<dots> \<longleftrightarrow> c = t \<or> (\<exists>i\<in>I. \<exists>k. kid m t i = Some k \<and> c \<in> tabs m idx d k) \<or>
      (\<exists>i\<in>I. \<exists>k. kid m t i = Some k \<and> (\<exists>is j en. leaf m idx d k is j en \<and> c = page_of en))"
    unfolding Suc.IH by blast
  also have "(\<exists>i\<in>I. \<exists>k. kid m t i = Some k \<and> (\<exists>is j en. leaf m idx d k is j en \<and> c = page_of en)) \<longleftrightarrow>
      (\<exists>is i en. leaf m I (Suc d) t is i en \<and> c = page_of en)"
    unfolding leaf_Suc by blast
  also have "c = t \<or> (\<exists>i\<in>I. \<exists>k. kid m t i = Some k \<and> c \<in> tabs m idx d k) \<or> (\<exists>is i en. leaf m I (Suc d) t is i en \<and> c = page_of en) \<longleftrightarrow>
      c \<in> tabs m I (Suc d) t \<or> (\<exists>is i en. leaf m I (Suc d) t is i en \<and> c = page_of en)"
    unfolding tabs.simps(2) [of m I d] by auto
  finally show ?case .
qed

lemma ptree_leaves:
  assumes "ptree m I d t" and "\<forall>is i en. leaf m I d t is i en \<longrightarrow> \<not> huge en \<and> page_of en \<notin> tabs m I d t"
    and "\<forall>is i en js j en'. leaf m I d t is i en \<and> leaf m I d t js j en' \<and> page_of en = page_of en' \<longrightarrow> is = js \<and> i = j"
  shows "ptree m I (Suc d) t"
  using assms
proof (induction d arbitrary: I t)
  case 0
  have l: "leaf m I 0 t [] i (m (slot t i)) \<and> c = page_of (m (slot t i))" if "i \<in> I" "kid m t i = Some c" for i c
    using that by (simp add: leaf_0 kid_0)
  have "page_aligned c \<and> t \<noteq> c" if "i \<in> I" "kid m t i = Some c" for i c
    using l [OF that] "0.prems"(2) [rule_format, of "[]" i "m (slot t i)"] by auto
  moreover have "\<not> huge (m (slot t i))" if "i \<in> I" "present (m (slot t i))" for i using "0.prems"(2) that by (auto simp: leaf_0)
  moreover have "c \<noteq> c'" if "i \<in> I" "j \<in> I" "i \<noteq> j" "kid m t i = Some c" "kid m t j = Some c'" for i j c c'
    using "0.prems"(3) [rule_format, of "[]" i "m (slot t i)" "[]" j "m (slot t j)"] l [OF that(1,4)] l [OF that(2,5)] that(3) by auto
  ultimately show ?case using "0.prems"(1) unfolding ptree.simps tabs.simps(1) by blast
next
  case (Suc d)
  note t = Suc.prems(1)
  have up: "leaf m I (Suc d) t (i # is) j en" if "i \<in> I" "kid m t i = Some c" "leaf m idx d c is j en" for i c "is" j en
    using that by (auto simp: leaf_Suc)
  have k: "ptree m idx (Suc d) c" if "i \<in> I" "kid m t i = Some c" for i c
  proof (rule Suc.IH)
    show "ptree m idx d c" using ptree_kid [OF t that] by simp
    show "\<forall>is j en. leaf m idx d c is j en \<longrightarrow> \<not> huge en \<and> page_of en \<notin> tabs m idx d c"
      using up [OF that] Suc.prems(2) kid_tabs [OF that, of d] by blast
    show "\<forall>is j en js j' en'. leaf m idx d c is j en \<and> leaf m idx d c js j' en' \<and> page_of en = page_of en' \<longrightarrow> is = js \<and> j = j'"
      using up [OF that] Suc.prems(3) by (metis list.inject)
  qed
  have l: "x \<in> tabs m idx d c \<or> (\<exists>is j en. leaf m I (Suc d) t (i # is) j en \<and> x = page_of en)"
    if "i \<in> I" "kid m t i = Some c" "x \<in> tabs m idx (Suc d) c" for i c x
    using that(3) up [OF that(1,2)] unfolding tabs_leaves by blast
  have "t \<notin> tabs m idx (Suc d) c" if "i \<in> I" "kid m t i = Some c" for i c
    using l [OF that, of t] ptree_kid(2) [OF t that] Suc.prems(2) tabs_root [of t m I "Suc d"] by blast
  moreover have "tabs m idx (Suc d) c \<inter> tabs m idx (Suc d) c' = {}"
    if i: "i \<in> I" "kid m t i = Some c" and j: "j \<in> I" "kid m t j = Some c'" and "i \<noteq> j" for i c j c'
  proof -
    have d: "tabs m idx d c \<inter> tabs m idx d c' = {}" using ptree_disjoint [OF t i(1) j(1) i(2) j(2)] \<open>i \<noteq> j\<close> .
    have s: "tabs m idx d c \<subseteq> tabs m I (Suc d) t" "tabs m idx d c' \<subseteq> tabs m I (Suc d) t"
      using kid_tabs [OF i] kid_tabs [OF j] by auto
    have False if x: "x \<in> tabs m idx (Suc d) c" "x \<in> tabs m idx (Suc d) c'" for x
    proof -
      have n: "page_of en \<notin> tabs m idx d c" "page_of en \<notin> tabs m idx d c'" if "leaf m I (Suc d) t is k en" for "is" k en
        using Suc.prems(2) [rule_format, OF that] s by blast+
      have u: "page_of en \<noteq> page_of en'" if "leaf m I (Suc d) t (i # is) k en" "leaf m I (Suc d) t (j # js) k' en'" for "is" js k k' en en'
        using Suc.prems(3) [rule_format, of "i # is" k en "j # js" k' en'] that \<open>i \<noteq> j\<close> by auto
      from l [OF i x(1)] l [OF j x(2)] d n u show False by blast
    qed
    then show ?thesis by blast
  qed
  moreover have "page_aligned t \<and> (\<forall>i\<in>I. \<not> (present (m (slot t i)) \<and> huge (m (slot t i))))"
    using t unfolding ptree.simps(2) by blast
  ultimately show ?case using k unfolding ptree.simps(2) [of m I "Suc d"] by blast
qed

section \<open>Addresses from indices\<close>

lemma small_bit: "bit (of_nat x :: u64) n \<Longrightarrow> x < 512 \<Longrightarrow> n < 9"
proof -
  assume "bit (of_nat x :: u64) n" "x < 512"
  then have "bit x n" "take_bit 9 x = x" by (simp_all add: bit_of_nat_iff take_bit_nat_eq_self)
  then show ?thesis by (metis bit_take_bit_iff)
qed

lemma virt_top:
  assumes "i < 512" "j < 512" "k < 512" "l < 512"
  shows "drop_bit 39 (virt_of i j k l) = of_nat i"
proof (rule bit_word_eqI)
  fix n
  have "\<not> bit (of_nat x :: u64) (n + (39 - c))" if "x < 512" "c \<in> {12, 21, 30}" for x c
    using small_bit [of x "n + (39 - c)"] that by auto
  from this [OF assms(2), of 30] this [OF assms(3), of 21] this [OF assms(4), of 12]
  show "bit (drop_bit 39 (virt_of i j k l)) n = bit (of_nat i :: u64) n"
    by (auto simp: virt_of_def bit_or_iff bit_push_bit_iff bit_drop_bit_eq add.commute dest: small_bit [OF _ assms(1)])
qed

lemma virt_index:
  assumes "i < 512" "j < 512" "k < 512" "l < 512"
  shows "PML4_INDEX (virt_of i j k l) = of_nat i" "PDPT_INDEX (virt_of i j k l) = of_nat j"
    "PD_INDEX (virt_of i j k l) = of_nat k" "PT_INDEX (virt_of i j k l) = of_nat l" "page_of (virt_of i j k l) = virt_of i j k l"
proof -
  have m: "(0x1FF :: u64) = mask 9" "(4095 :: u64) = mask 12" by (simp_all add: mask_eq_exp_minus_1)
  note s = virt_of_def bit_or_iff bit_and_iff bit_push_bit_iff bit_drop_bit_eq bit_mask_iff bit_not_iff
  show "PML4_INDEX (virt_of i j k l) = of_nat i"
    unfolding PML4_INDEX_def m virt_top [OF assms]
    by (intro bit_word_eqI) (auto simp: bit_and_iff bit_mask_iff dest: small_bit [OF _ assms(1)])
  show "PDPT_INDEX (virt_of i j k l) = of_nat j"
    unfolding PDPT_INDEX_def m using assms by (intro bit_word_eqI) (auto simp: s dest: small_bit)
  show "PD_INDEX (virt_of i j k l) = of_nat k"
    unfolding PD_INDEX_def m using assms by (intro bit_word_eqI) (auto simp: s dest: small_bit)
  show "PT_INDEX (virt_of i j k l) = of_nat l"
    unfolding PT_INDEX_def m using assms by (intro bit_word_eqI) (auto simp: s dest: small_bit)
  show "page_of (virt_of i j k l) = virt_of i j k l"
    unfolding page_of_def m by (intro bit_word_eqI) (auto simp: s)
qed

lemma user_virt:
  assumes "i < 255" "j < 512" "k < 512" "l < 512"
  shows "user_addr (virt_of i j k l)"
proof -
  have "unat (drop_bit 39 (virt_of i j k l)) = i" using virt_top [of i j k l] assms by simp
  then have "unat (virt_of i j k l) div 2 ^ 39 < 255" using assms(1) by (simp add: drop_bit_eq_div unat_div)
  then have "unat (virt_of i j k l) < 255 * 2 ^ 39" by (simp add: div_less_iff_less_mult)
  then show ?thesis by (simp add: user_addr_def word_less_nat_alt push_bit_eq_mult)
qed

section \<open>Private address spaces\<close>

lemma pte_small:
  assumes "page_aligned phys" and "flags AND PAGE_HUGE = 0"
  shows "\<not> huge (pte_of phys flags)"
proof -
  have "(flags AND (0xFFF OR PAGE_NX)) AND PAGE_HUGE = (flags AND PAGE_HUGE) AND (0xFFF OR PAGE_NX)"
    by (simp only: and.assoc and.commute [of _ PAGE_HUGE])
  moreover have "phys AND 128 = 0" by (rule aligned_and [OF assms(1)]) simp
  then have "(phys AND NOT 4095) AND PAGE_HUGE = 0" using page_small [OF assms(1)] by (simp add: PAGE_HUGE_def)
  ultimately show ?thesis
    unfolding huge_def pte_of_def bit.conj_disj_distrib2 using assms(2) by (simp add: PAGE_HUGE_def PAGE_PRESENT_def)
qed

definition mapped :: "'s vm \<Rightarrow> u64 \<Rightarrow> u64 set" where
  "mapped s root = {p. \<exists>w en. user_addr w \<and> space s root w = Some en \<and> p = page_of en}"

definition private_space :: "'s vm \<Rightarrow> u64 \<Rightarrow> bool" where
  "private_space s root \<longleftrightarrow> space_ok s root \<and> mapped s root \<inter> tables s root = {} \<and>
     (\<forall>w en. user_addr w \<and> space s root w = Some en \<longrightarrow> \<not> huge en) \<and>
     (\<forall>v w en en'. user_addr v \<and> user_addr w \<and> space s root v = Some en \<and> space s root w = Some en' \<and>
        page_of en = page_of en' \<longrightarrow> page_of v = page_of w)"

lemma private_spaceD:
  assumes "private_space s root"
  shows "space_ok s root" "mapped s root \<inter> tables s root = {}" "user_addr w \<Longrightarrow> space s root w = Some en \<Longrightarrow> \<not> huge en"
    "user_addr v \<Longrightarrow> user_addr w \<Longrightarrow> space s root v = Some en \<Longrightarrow> space s root w = Some en' \<Longrightarrow> page_of en = page_of en' \<Longrightarrow> page_of v = page_of w"
  using assms unfolding private_space_def by blast+

lemma indices_exist:
  assumes "vpath user_idx (is @ [i])" and "length is = 3"
  shows "\<exists>w. user_addr w \<and> dir_of w = is \<and> PT_INDEX w = i \<and> page_of w = w"
proof -
  obtain a b c where "is": "is = [a, b, c]" using assms(2) by (auto simp: numeral_3_eq_3 length_Suc_conv)
  have "a < 255" "b < 512" "c < 512" "i < 512" using assms(1) by (simp_all add: "is" user_idx_def)
  then have u: "unat a < 255" "unat b < 512" "unat c < 512" "unat i < 512" by (simp_all add: word_less_nat_alt)
  let ?w = "virt_of (unat a) (unat b) (unat c) (unat i)"
  have "unat a < 512" using u(1) by simp
  from user_virt [OF u] virt_index [OF this u(2-4)] show ?thesis by (intro exI [of _ ?w]) (simp add: "is" dir_of_def)
qed

lemma leaf_space:
  "leaf (vm_mem s) user_idx 3 root is i en \<longleftrightarrow> (\<exists>w. user_addr w \<and> dir_of w = is \<and> PT_INDEX w = i \<and> space s root w = Some en)"
proof
  assume l: "leaf (vm_mem s) user_idx 3 root is i en"
  then obtain w where "user_addr w" "dir_of w = is" "PT_INDEX w = i" using indices_exist [of "is" i] by (auto simp: leaf_def)
  with l show "\<exists>w. user_addr w \<and> dir_of w = is \<and> PT_INDEX w = i \<and> space s root w = Some en" by (auto simp: leaf_def space_def)
next
  assume "\<exists>w. user_addr w \<and> dir_of w = is \<and> PT_INDEX w = i \<and> space s root w = Some en"
  then obtain w where w: "user_addr w" "dir_of w = is" "PT_INDEX w = i" "space s root w = Some en" by blast
  have "vpath user_idx (dir_of w @ [PT_INDEX w])" using user_addr_dir [OF w(1)] by (simp add: dir_of_def)
  with w show "leaf (vm_mem s) user_idx 3 root is i en" by (auto simp: leaf_def space_def)
qed

lemma private_tree:
  assumes "private_space s root"
  shows "ptree (vm_mem s) user_idx 4 root" "tabs (vm_mem s) user_idx 4 root = tables s root \<union> mapped s root"
proof -
  note p = private_spaceD [OF assms]
  have four: "(4 :: nat) = Suc 3" by simp
  show "tabs (vm_mem s) user_idx 4 root = tables s root \<union> mapped s root"
    unfolding four set_eq_iff tabs_leaves leaf_space tables_def [symmetric] mapped_def by auto
  show "ptree (vm_mem s) user_idx 4 root" unfolding four
  proof (rule ptree_leaves)
    show "ptree (vm_mem s) user_idx 3 root" using p(1) by (simp add: space_ok_def)
    show "\<forall>is i en. leaf (vm_mem s) user_idx 3 root is i en \<longrightarrow> \<not> huge en \<and> page_of en \<notin> tabs (vm_mem s) user_idx 3 root"
      using p(2,3) unfolding leaf_space tables_def [symmetric] mapped_def by blast
    show "\<forall>is i en js j en'. leaf (vm_mem s) user_idx 3 root is i en \<and> leaf (vm_mem s) user_idx 3 root js j en' \<and>
        page_of en = page_of en' \<longrightarrow> is = js \<and> i = j"
      using p(4) page_indices unfolding leaf_space by metis
  qed
qed

context frame_source
begin

lemma free_user_pages_spec:
  assumes "envok e" and "ok (vm_pmm s)" and "private_space s root"
    and "tables s root \<union> mapped s root \<subseteq> own (vm_pmm s)"
    and "page_of (entry s root 255) = 0 \<or> \<not> present (entry s root 255)"
  shows "\<exists>s'. vmm_free_user_pages F e root s = Some s' \<and> ok (vm_pmm s') \<and>
    own (vm_pmm s') = own (vm_pmm s) - (tables s root - {root} \<union> mapped s root) \<and>
    (\<forall>i < 256. \<not> present (entry s' root (of_nat i))) \<and> (\<forall>a. page_of a \<in> own (vm_pmm s') - {root} \<longrightarrow> vm_mem s' a = vm_mem s a)"
proof -
  let ?m = "vm_mem s"
  note t = private_tree [OF assms(3)]
  have r: "root \<in> tables s root" by (simp add: tables_def)
  have t4: "ptree ?m user_idx (Suc 3) root" using t(1) by simp
  have u: "user_idx = of_nat ` (set [0..<256] - {255})"
  proof (rule set_eqI)
    fix x :: u64
    have "x \<in> user_idx \<longleftrightarrow> unat x < 255" by (simp add: user_idx_def word_less_nat_alt)
    also have "\<dots> \<longleftrightarrow> x \<in> of_nat ` (set [0..<256] - {255})"
      by (auto simp: image_iff unsigned_of_nat take_bit_nat_eq_self intro!: bexI [of _ "unat x"])
    finally show "x \<in> user_idx \<longleftrightarrow> x \<in> of_nat ` (set [0..<256] - {255})" .
  qed
  have "tabs ?m user_idx (Suc 3) root = insert root (\<Union>i\<in>set [0..<256] - {255}. below ?m 3 root i)"
    unfolding tabs.simps(2) below_def by (subst u) simp
  moreover have "root \<notin> (\<Union>i\<in>set [0..<256] - {255}. below ?m 3 root i)"
    using root_below [OF t4] user_nat by auto
  ultimately have b: "(\<Union>i\<in>set [0..<256] - {255}. below ?m 3 root i) = tables s root - {root} \<union> mapped s root"
    using t(2) r private_spaceD(2) [OF assms(3)] by auto
  have al: "page_aligned root" using ptree_aligned [OF t(1)] .
  have "distinct [0..<256]" "set [0..<256] \<subseteq> {..<256}" by auto
  from free_roots [OF assms(1) al assms(2) this t(1) assms(5), unfolded b t(2), OF assms(4)]
  show ?thesis unfolding vmm_free_user_pages_def by auto
qed

lemma map_private:
  assumes "vm_inv s root" and "private_space s root" and "envok e" and "user_addr v"
    and "v AND 0xFFF = 0" and "page_aligned phys" and "flags AND PAGE_NX = 0" and "flags AND PAGE_HUGE = 0"
    and "phys \<in> own (vm_pmm s)" and "phys \<notin> tables s root" and "phys \<notin> mapped s root" and "mapped s root \<subseteq> own (vm_pmm s)"
    and "vmm_map_page F e root v phys flags s = Some (r, s')"
  shows "vm_inv s' root \<and> private_space s' root \<and> (r = ERR_OK \<or> r = ERR_NOMEM \<and> no_page e s') \<and> mapped s' root \<subseteq> insert phys (mapped s root) \<and>
    (space s root v = None \<longrightarrow> mapped s' root = (if r = ERR_OK then insert phys (mapped s root) else mapped s root)) \<and>
    (\<forall>w. user_addr w \<longrightarrow> space s' root w = (if r = ERR_OK \<and> page_of w = v then Some (pte_of phys flags) else space s root w)) \<and>
    own (vm_pmm s') = own (vm_pmm s) \<union> tables s' root \<and> own (vm_pmm s) \<inter> tables s' root = tables s root \<and>
    (\<forall>a. page_of a \<in> own (vm_pmm s) - tables s' root \<longrightarrow> vm_mem s' a = vm_mem s a)"
proof -
  have ph: "phys AND 0xFFF = 0" using assms(6) by (simp add: page_aligned_def)
  note m = map_page_spec [OF assms(1,3,4,5) ph, of flags, unfolded assms(13)]
  then have sp: "space s' root w = (if r = ERR_OK \<and> page_of w = v then Some (pte_of phys flags) else space s root w)" if "user_addr w" for w
    using that by auto
  have inv: "vm_inv s' root" and r: "r = ERR_OK \<or> r = ERR_NOMEM \<and> no_page e s'"
    and t: "tables s root \<subseteq> tables s' root" "tables s' root - tables s root = own (vm_pmm s') - own (vm_pmm s)" "own (vm_pmm s) \<subseteq> own (vm_pmm s')"
      "\<forall>a. page_of a \<in> own (vm_pmm s) - tables s' root \<longrightarrow> vm_mem s' a = vm_mem s a"
    using m by auto
  have o: "own (vm_pmm s) \<inter> tables s' root = tables s root" "own (vm_pmm s') = own (vm_pmm s) \<union> tables s' root"
    using t assms(1) by (auto simp: vm_inv_def)
  note p = private_spaceD [OF assms(2)]
  note pt = pte_entry [OF assms(6,7)]
  have v: "page_of v = v" using assms(5) by (intro page_of_aligned) (simp add: page_aligned_def)
  note nh = pte_small [OF assms(6,8)]
  have mp: "mapped s' root = (if r = ERR_OK then insert phys {p. \<exists>w en. user_addr w \<and> page_of w \<noteq> v \<and> space s root w = Some en \<and> p = page_of en}
      else mapped s root)"
    using pt(2) v assms(4) unfolding mapped_def by (auto simp: sp cong: conj_cong split: if_splits)
  then have ms: "mapped s' root \<subseteq> insert phys (mapped s root)" unfolding mapped_def by auto
  have me: "mapped s' root = (if r = ERR_OK then insert phys (mapped s root) else mapped s root)" if "space s root v = None"
  proof -
    have "page_of w \<noteq> v" if "user_addr w" "space s root w = Some en" for w en
      using that \<open>space s root v = None\<close> page_indices [of w v] unfolding v space_def by force
    then have "mapped s root = {p. \<exists>w en. user_addr w \<and> page_of w \<noteq> v \<and> space s root w = Some en \<and> p = page_of en}"
      unfolding mapped_def by blast
    with mp show ?thesis by auto
  qed
  have "private_space s' root"
    unfolding private_space_def
  proof (intro conjI allI impI)
    show "space_ok s' root" using inv by (simp add: vm_inv_def)
    show "mapped s' root \<inter> tables s' root = {}" using ms o(1) p(2) assms(9,10,12) by auto
    show "\<not> huge en" if "user_addr w \<and> space s' root w = Some en" for w en
      using that sp [of w] nh p(3) [of w en] by (auto split: if_splits)
    show "page_of x = page_of w" if "user_addr x \<and> user_addr w \<and> space s' root x = Some en \<and> space s' root w = Some en' \<and> page_of en = page_of en'"
      for x w en en'
    proof -
      have "page_of en \<noteq> phys" if "user_addr w" "space s root w = Some en" for w en using that assms(11) unfolding mapped_def by blast
      then show ?thesis using that sp [of x] sp [of w] p(4) [of x w en en'] pt(2) by (auto split: if_splits) metis
    qed
  qed
  with inv r ms me o t(4) sp show ?thesis by auto
qed

end

end
