(* ===== verification/Vmm_Fork.thy ===== *)
theory Vmm_Fork
  imports Vmm_Leaves
begin

text \<open>
  \<open>vmm_duplicate_user_pages\<close>, the copy of an address space that \<^verbatim>\<open>fork\<close> makes. \<open>copying s src dst u\<close> is its loop
  invariant: \<open>dst\<close> is a private address space whose pages are new and hold what the pages of \<open>src\<close> held at the same
  addresses, and the memory that was in use at the start is unchanged.
\<close>

definition page_copy :: "'s vm \<Rightarrow> u64 \<Rightarrow> 's vm \<Rightarrow> u64 \<Rightarrow> bool" where
  "page_copy s p u q \<longleftrightarrow> (\<forall>k < 512. vm_mem u (slot q k) = vm_mem s (slot p k))"

lemma page_copy_made:
  assumes "page_aligned q"
  shows "page_copy s p (copy_page q p s) q"
proof -
  have "slot q k - q < 4096" if "k < 512" for k
    using in_page_iff [OF assms] page_of_slot [OF assms that] by blast
  then show ?thesis by (simp add: page_copy_def copy_page_def) (simp add: slot_def)
qed

lemma copy_page_mem: "page_aligned q \<Longrightarrow> page_of a \<noteq> q \<Longrightarrow> vm_mem (copy_page q p s) a = vm_mem s a"
  by (simp add: copy_page_def in_page_iff)

lemma page_space:
  assumes "page_of w = page_of v"
  shows "space s root w = space s root v"
  unfolding space_def page_indices [OF assms] ..

lemma index_nat:
  "\<exists>y\<in>{0..<512}. PML4_INDEX w = of_nat y" "\<exists>y\<in>{0..<512}. PDPT_INDEX w = of_nat y" "\<exists>y\<in>{0..<512}. PD_INDEX w = of_nat y" "\<exists>y\<in>{0..<512}. PT_INDEX w = of_nat y"
proof -
  have n: "\<exists>y\<in>{0..<512}. x = of_nat y" if "x < 512" for x :: u64
    using that by (intro bexI [of _ "unat x"]) (simp_all add: word_less_nat_alt)
  show "\<exists>y\<in>{0..<512}. PML4_INDEX w = of_nat y" "\<exists>y\<in>{0..<512}. PDPT_INDEX w = of_nat y" "\<exists>y\<in>{0..<512}. PD_INDEX w = of_nat y" "\<exists>y\<in>{0..<512}. PT_INDEX w = of_nat y"
    by (intro n index_bounds)+
qed

lemma path_append: "path m t (is @ js) = Option.bind (path m t is) (\<lambda>c. path m c js)"
  by (induction "is" arbitrary: t) (simp_all add: Option.bind_assoc)

lemma path_snoc: "path m t is = Some c \<Longrightarrow> path m t (is @ [i]) = kid m c i"
  by (simp add: path_append)

lemma vpath_snoc: "vpath I (is @ [i]) \<longleftrightarrow> vpath I is \<and> i \<in> (if is = [] then I else idx)"
  by (induction "is" arbitrary: I) auto

lemma path_tree:
  assumes "ptree m I (length is + d) t" and "path m t is = Some c" and "vpath I is"
  shows "ptree m (if is = [] then I else idx) d c" "c \<in> tabs m I (length is + d) t" "is \<noteq> [] \<Longrightarrow> c \<noteq> t"
proof -
  have "ptree m (if is = [] then I else idx) d c \<and> c \<in> tabs m I (length is + d) t \<and> (is \<noteq> [] \<longrightarrow> c \<noteq> t)"
    using assms
  proof (induction "is" arbitrary: I t)
    case (Cons i "is")
    then obtain k where k: "kid m t i = Some k" "path m k is = Some c" "i \<in> I" "vpath idx is" by (auto simp: bind_eq_Some_conv)
    have p: "ptree m I (Suc (length is + d)) t" using Cons.prems(1) by simp
    note kt = ptree_kid [OF p k(3,1)]
    have "ptree m idx d c" "c \<in> tabs m idx (length is + d) k" using Cons.IH [OF kt(1) k(2,4)] by auto
    moreover have "c \<noteq> t" using calculation(2) kt(2) by auto
    ultimately show ?case using kid_tabs [OF k(3,1), of "length is + d"] by auto
  qed simp
  then show "ptree m (if is = [] then I else idx) d c" "c \<in> tabs m I (length is + d) t" "is \<noteq> [] \<Longrightarrow> c \<noteq> t" by blast+
qed

context frame_source
begin

definition copying :: "'s vm \<Rightarrow> u64 \<Rightarrow> u64 \<Rightarrow> 's vm \<Rightarrow> bool" where
  "copying s src dst u \<longleftrightarrow> vm_inv u dst \<and> private_space u dst \<and> own (vm_pmm s) \<subseteq> own (vm_pmm u) \<and>
     tables u dst \<inter> own (vm_pmm s) \<subseteq> {dst} \<and> mapped u dst \<subseteq> own (vm_pmm u) - own (vm_pmm s) \<and>
     (\<forall>a. page_of a \<in> own (vm_pmm s) - {dst} \<longrightarrow> vm_mem u a = vm_mem s a) \<and>
     (\<forall>w en'. user_addr w \<and> space u dst w = Some en' \<longrightarrow> (\<exists>en. space s src w = Some en \<and>
        en' = pte_of (page_of en') (en AND 0xFFF) \<and> page_copy s (page_of en) u (page_of en')))"

text \<open>An address of the source is copied, or there was no page left for it.\<close>

definition handled :: "'e \<Rightarrow> 's vm \<Rightarrow> u64 \<Rightarrow> u64 \<Rightarrow> 's vm \<Rightarrow> u64 \<Rightarrow> bool" where
  "handled e s src dst u w \<longleftrightarrow> space s src w = None \<or> space u dst w \<noteq> None \<or> no_page e u"

text \<open>A piece of the copy that deals with the addresses \<open>W\<close>.\<close>

definition copied :: "'e \<Rightarrow> 's vm \<Rightarrow> u64 \<Rightarrow> u64 \<Rightarrow> u64 set \<Rightarrow> 's vm \<Rightarrow> err_t \<Rightarrow> 's vm \<Rightarrow> bool" where
  "copied e s src dst W u r u' \<longleftrightarrow> copying s src dst u' \<and> (r = ERR_OK \<or> r = ERR_NOMEM \<and> no_page e u') \<and>
     (\<forall>w. user_addr w \<and> space u dst w \<noteq> None \<longrightarrow> space u' dst w \<noteq> None) \<and> (no_page e u \<longrightarrow> no_page e u') \<and>
     (r = ERR_OK \<longrightarrow> (\<forall>w\<in>W. user_addr w \<longrightarrow> handled e s src dst u' w))"

definition copies :: "'e \<Rightarrow> 's vm \<Rightarrow> u64 \<Rightarrow> u64 \<Rightarrow> u64 set \<Rightarrow> ('s vm \<Rightarrow> (err_t \<times> 's vm) option) \<Rightarrow> bool" where
  "copies e s src dst W f \<longleftrightarrow> (\<forall>u. copying s src dst u \<longrightarrow> (\<exists>r u'. f u = Some (r, u') \<and> copied e s src dst W u r u'))"

lemma copied_trans:
  "copied e s src dst W u ERR_OK u1 \<Longrightarrow> copied e s src dst V u1 r u2 \<Longrightarrow> copied e s src dst (W \<union> V) u r u2"
  unfolding copied_def handled_def by blast

lemma copied_stop: "copied e s src dst W u r u1 \<Longrightarrow> r \<noteq> ERR_OK \<Longrightarrow> copied e s src dst V u r u1"
  by (simp add: copied_def)

lemma copies_skip: "(\<forall>w\<in>W. user_addr w \<longrightarrow> space s src w = None) \<Longrightarrow> copies e s src dst W (\<lambda>u. Some (ERR_OK, u))"
  by (simp add: copies_def copied_def handled_def)

lemma copies_cong: "copies e s src dst W g \<Longrightarrow> (\<And>u. copying s src dst u \<Longrightarrow> f u = g u) \<Longrightarrow> copies e s src dst W f"
  by (simp add: copies_def)

lemma copies_loop:
  "\<forall>i\<in>set is. copies e s src dst (W i) (body i) \<Longrightarrow> copies e s src dst (\<Union>i\<in>set is. W i) (dup_loop body is)"
proof (induction "is")
  case Nil
  then show ?case by (simp add: copies_def copied_def)
next
  case (Cons i "is")
  have IH: "copies e s src dst (\<Union>i\<in>set is. W i) (dup_loop body is)" using Cons by simp
  show ?case unfolding copies_def
  proof (intro allI impI)
    fix u assume "copying s src dst u"
    then obtain r u1 where 1: "body i u = Some (r, u1)" "copied e s src dst (W i) u r u1"
      using Cons.prems unfolding copies_def by (metis list.set_intros(1))
    show "\<exists>r u'. dup_loop body (i # is) u = Some (r, u') \<and> copied e s src dst (\<Union>i\<in>set (i # is). W i) u r u'"
    proof (cases "r = ERR_OK")
      case True
      from IH 1(2) obtain r' u2 where 2: "dup_loop body is u1 = Some (r', u2)" "copied e s src dst (\<Union>i\<in>set is. W i) u1 r' u2"
        unfolding copies_def by (metis copied_def)
      from copied_trans [OF 1(2) [unfolded True] 2(2)] 1(1) 2(1) True show ?thesis by simp
    next
      case False
      from copied_stop [OF 1(2) False] 1(1) False show ?thesis by simp
    qed
  qed
qed

lemma low_flags: "(en AND 0xFFF) AND PAGE_NX = (0 :: u64)"
  by (simp add: PAGE_NX_def and.assoc)

lemma low_small: "\<not> huge en \<Longrightarrow> (en AND 0xFFF) AND PAGE_HUGE = (0 :: u64)"
  by (simp add: PAGE_HUGE_def huge_def and.assoc)

text \<open>One page: a new page, a copy of the contents, and a mapping in the child.\<close>

lemma copying_keep:
  assumes c: "copying s src dst u" and v: "ok (vm_pmm v)" "own (vm_pmm u) \<subseteq> own (vm_pmm v)"
    and mem: "\<And>a. page_of a \<in> own (vm_pmm u) \<Longrightarrow> vm_mem v a = vm_mem u a"
  shows "copying s src dst v" "user_addr w \<Longrightarrow> space v dst w = space u dst w" "tables v dst = tables u dst" "mapped v dst = mapped u dst"
proof -
  have inv: "vm_inv u dst" "private_space u dst" "tables u dst \<subseteq> own (vm_pmm u)" using c by (simp_all add: copying_def vm_inv_def)
  have t: "ptree (vm_mem u) user_idx 3 dst" using inv(1) by (simp add: vm_inv_def space_ok_def)
  have a: "\<forall>a. page_of a \<in> tabs (vm_mem u) user_idx 3 dst \<longrightarrow> vm_mem v a = vm_mem u a"
    using mem inv(3) unfolding tables_def by blast
  note tc = tree_cong [OF t a user_idx_sub]
  show sp: "space v dst w = space u dst w" if "user_addr w" for w
    unfolding space_def by (rule look_cong [OF t a user_idx_sub user_addr_dir [OF that]]) simp_all
  show tb: "tables v dst = tables u dst" using tc by (simp add: tables_def)
  show mp: "mapped v dst = mapped u dst" unfolding mapped_def using sp by (auto cong: conj_cong)
  have "vm_inv v dst" using tc inv(1,3) tb v by (auto simp: vm_inv_def space_ok_def)
  moreover have "private_space v dst"
    using inv(2) tc sp unfolding private_space_def space_ok_def tb mp by (simp cong: conj_cong)
  moreover have "page_copy s (page_of en) v (page_of en')" if "page_copy s (page_of en) u (page_of en')" "page_of en' \<in> mapped u dst" for en en'
  proof -
    have "page_of en' \<in> own (vm_pmm u)" using that(2) c by (auto simp: copying_def)
    then show ?thesis using that(1) mem by (simp add: page_copy_def)
  qed
  then have "\<forall>w en'. user_addr w \<and> space v dst w = Some en' \<longrightarrow> (\<exists>en. space s src w = Some en \<and>
        en' = pte_of (page_of en') (en AND 0xFFF) \<and> page_copy s (page_of en) v (page_of en'))"
    using c sp unfolding copying_def mapped_def by (simp cong: conj_cong) blast
  moreover have "\<forall>a. page_of a \<in> own (vm_pmm s) - {dst} \<longrightarrow> vm_mem v a = vm_mem s a"
    using c mem unfolding copying_def by (metis Diff_iff subsetD)
  ultimately show "copying s src dst v" using c tb mp v(2) unfolding copying_def by auto
qed

lemma map_copying:
  assumes c: "copying s src dst u" and e: "envok e" and p: "page_aligned p" "p \<in> own (vm_pmm u) - own (vm_pmm s)" "p \<notin> tables u dst" "p \<notin> mapped u dst"
    and v: "user_addr v" "page_of v = v" and en: "space s src v = Some en" "\<not> huge en" "page_copy s (page_of en) u p"
  shows "\<exists>r u'. vmm_map_page F e dst v p (en AND 0xFFF) u = Some (r, u') \<and> copying s src dst u' \<and> (r = ERR_OK \<or> r = ERR_NOMEM \<and> no_page e u') \<and>
    (\<forall>w. user_addr w \<longrightarrow> space u' dst w = (if r = ERR_OK \<and> page_of w = v then Some (pte_of p (en AND 0xFFF)) else space u dst w))"
proof -
  let ?fl = "en AND 0xFFF"
  have u: "vm_inv u dst" "private_space u dst" "mapped u dst \<subseteq> own (vm_pmm u)" using c by (auto simp: copying_def)
  have va: "v AND 0xFFF = 0" using page_aligned_page_of [of v] v(2) by (simp add: page_aligned_def)
  have pa: "p AND 0xFFF = 0" using p(1) by (simp add: page_aligned_def)
  obtain r u' where m: "vmm_map_page F e dst v p ?fl u = Some (r, u')" using map_page_spec [OF u(1) e v(1) va pa] by blast
  have po: "p \<in> own (vm_pmm u)" using p(2) by simp
  note mp = map_private [OF u(1,2) e v(1) va p(1) low_flags low_small [OF en(2)] po p(3,4) u(3) m]
  have u': "vm_inv u' dst" "private_space u' dst" "r = ERR_OK \<or> r = ERR_NOMEM \<and> no_page e u'" "mapped u' dst \<subseteq> insert p (mapped u dst)"
      "own (vm_pmm u') = own (vm_pmm u) \<union> tables u' dst" "own (vm_pmm u) \<inter> tables u' dst = tables u dst"
      "\<forall>a. page_of a \<in> own (vm_pmm u) - tables u' dst \<longrightarrow> vm_mem u' a = vm_mem u a"
      "\<forall>w. user_addr w \<longrightarrow> space u' dst w = (if r = ERR_OK \<and> page_of w = v then Some (pte_of p ?fl) else space u dst w)"
    using mp by blast+
  have cu: "own (vm_pmm s) \<subseteq> own (vm_pmm u)" "tables u dst \<inter> own (vm_pmm s) \<subseteq> {dst}" "mapped u dst \<subseteq> own (vm_pmm u) - own (vm_pmm s)"
      "\<forall>a. page_of a \<in> own (vm_pmm s) - {dst} \<longrightarrow> vm_mem u a = vm_mem s a"
      "\<forall>w en'. user_addr w \<and> space u dst w = Some en' \<longrightarrow> (\<exists>en. space s src w = Some en \<and>
        en' = pte_of (page_of en') (en AND 0xFFF) \<and> page_copy s (page_of en) u (page_of en'))"
    using c unfolding copying_def by blast+
  have ts: "tables u' dst \<inter> own (vm_pmm s) \<subseteq> {dst}" using u'(6) cu(1,2) by blast
  have pc: "page_copy s x u' q" if "page_copy s x u q" "q \<in> own (vm_pmm u)" "q \<notin> tables u dst" "page_aligned q" for x q
  proof -
    have "q \<in> own (vm_pmm u) - tables u' dst" using u'(6) that(2,3) by blast
    with that(1,4) u'(7) show ?thesis by (simp add: page_copy_def)
  qed
  have pp: "page_of (pte_of p ?fl) = p" by (rule pte_entry(2) [OF p(1) low_flags])
  have sv: "space s src w = Some en" if "page_of w = v" for w using page_space [of w v s src] that v(2) en(1) by metis
  have mo: "page_of en' \<in> own (vm_pmm u)" "page_of en' \<notin> tables u dst" if "user_addr w" "space u dst w = Some en'" for w en'
    using that private_spaceD(2) [OF u(2)] u(3) unfolding mapped_def by blast+
  have "\<exists>en. space s src w = Some en \<and> en' = pte_of (page_of en') (en AND 0xFFF) \<and> page_copy s (page_of en) u' (page_of en')"
    if w: "user_addr w" "space u' dst w = Some en'" for w en'
  proof (cases "r = ERR_OK \<and> page_of w = v")
    case True
    then have "en' = pte_of p ?fl" using u'(8) w by auto
    with sv [of w] True pp pc [OF en(3) po p(3,1)] show ?thesis by auto
  next
    case False
    then have w': "space u dst w = Some en'" using u'(8) w by metis
    then obtain en0 where "space s src w = Some en0" "en' = pte_of (page_of en') (en0 AND 0xFFF)" "page_copy s (page_of en0) u (page_of en')"
      using cu(5) w(1) by blast
    with pc [OF _ mo [OF w(1) w']] show ?thesis by auto
  qed
  moreover have "\<forall>a. page_of a \<in> own (vm_pmm s) - {dst} \<longrightarrow> vm_mem u' a = vm_mem s a"
  proof (intro allI impI)
    fix a assume a: "page_of a \<in> own (vm_pmm s) - {dst}"
    then have "page_of a \<in> own (vm_pmm u) - tables u' dst" using ts cu(1) by blast
    with u'(7) cu(4) a show "vm_mem u' a = vm_mem s a" by simp
  qed
  moreover have "mapped u' dst \<subseteq> own (vm_pmm u') - own (vm_pmm s)" using u'(4,5) cu(3) p(2) by blast
  ultimately have "copying s src dst u'"
    unfolding copying_def using u'(1,2) ts Un_upper1 [of "own (vm_pmm u)" "tables u' dst", folded u'(5), THEN subset_trans [OF cu(1)]] by blast
  with m u'(3,8) show ?thesis by blast
qed

text \<open>What the source of the copy satisfies.\<close>

definition fork_pre :: "'s vm \<Rightarrow> u64 \<Rightarrow> u64 \<Rightarrow> bool" where
  "fork_pre s src dst \<longleftrightarrow> space_ok s src \<and> tables s src \<subseteq> own (vm_pmm s) - {dst} \<and> mapped s src \<subseteq> own (vm_pmm s) - {dst} \<and>
     (\<forall>w en. user_addr w \<and> space s src w = Some en \<longrightarrow> \<not> huge en)"

lemma fork_entry:
  assumes "fork_pre s src dst" and "copying s src dst u" and "t \<in> tables s src" and "page_aligned t" and "i < 512"
  shows "entry u t i = entry s t i"
proof -
  have "page_of (slot t i) \<in> own (vm_pmm s) - {dst}" using assms by (auto simp: fork_pre_def)
  with assms(2) show ?thesis unfolding copying_def entry_def by blast
qed

lemma dup_page:
  assumes c: "copying s src dst u" and e: "envok e" and v: "user_addr v" "page_of v = v"
    and en: "space s src v = Some en" "\<not> huge en" "page_of en \<in> own (vm_pmm s) - {dst}"
  shows "\<exists>r u'. (case po_alloc_node (fo_pages F) e 1 (vm_pmm u) of None \<Rightarrow> None
     | Some (new_phys, q) \<Rightarrow> (let s = set_pmm F q u in
         if new_phys = 0 then Some (ERR_NOMEM, s)
         else map_option (\<lambda>r. (ERR_OK, snd r)) (vmm_map_page F e dst v new_phys (en AND 0xFFF) (copy_page new_phys (page_of en) s)))) =
       Some (r, u') \<and> copied e s src dst {w. page_of w = v} u r u'"
proof -
  have o: "ok (vm_pmm u)" using c by (simp add: copying_def vm_inv_def)
  obtain p q where a: "po_alloc_node (fo_pages F) e 1 (vm_pmm u) = Some (p, q)" "ok q"
      "if p = 0 then own q = own (vm_pmm u) else page_aligned p \<and> p \<notin> own (vm_pmm u) \<and> own q = insert p (own (vm_pmm u))"
    using alloc_node [OF e o] by blast
  show ?thesis
  proof (cases "p = 0")
    case True
    with a alloc_fails [OF e o] have "no_page e (set_pmm F q u)" by (simp add: no_page_def)
    moreover have "copying s src dst (set_pmm F q u)" "user_addr w \<Longrightarrow> space (set_pmm F q u) dst w = space u dst w" for w
      using a True set_pmm_mem [OF a(2)] by (auto intro!: copying_keep [OF c])
    ultimately show ?thesis using a True by (simp add: copied_def)
  next
    case False
    let ?u = "copy_page p (page_of en) (set_pmm F q u)"
    have p: "page_aligned p" "p \<notin> own (vm_pmm u)" "own q = insert p (own (vm_pmm u))" using a(3) False by auto
    have q: "vm_mem (set_pmm F q u) a = vm_mem u a" if "page_of a \<in> own (vm_pmm u)" for a using set_pmm_mem [OF a(2)] that p(3) by simp
    have pm: "vm_pmm ?u = q" by (simp add: copy_page_def)
    have "vm_mem ?u a = vm_mem u a" if "page_of a \<in> own (vm_pmm u)" for a
      using copy_page_mem [OF p(1), of a "page_of en" "set_pmm F q u"] q [OF that] that p(2) by metis
    note n = copying_keep [OF c, of ?u, unfolded pm, OF a(2) _ this, unfolded p(3), OF subset_insertI]
    have dr: "\<not> no_page e u" using dry_fails [OF e o _ a(1)] False by (auto simp: no_page_def)
    have su: "own (vm_pmm s) \<subseteq> own (vm_pmm u)" "tables u dst \<subseteq> own (vm_pmm u)" "mapped u dst \<subseteq> own (vm_pmm u)"
      using c by (auto simp: copying_def vm_inv_def)
    have pn: "p \<in> own (vm_pmm ?u) - own (vm_pmm s)" "p \<notin> tables ?u dst" "p \<notin> mapped ?u dst"
      using p(2,3) su n(3,4) by (auto simp: pm)
    have "vm_mem u (slot (page_of en) x) = vm_mem s (slot (page_of en) x)" if "x < 512" for x
      using c en(3) page_of_slot [OF page_aligned_page_of that, of en] unfolding copying_def by metis
    moreover have "vm_mem (set_pmm F q u) (slot (page_of en) x) = vm_mem u (slot (page_of en) x)" if "x < 512" for x
      using q page_of_slot [OF page_aligned_page_of that, of en] en(3) su(1) by auto
    ultimately have "page_copy s (page_of en) ?u p"
      using page_copy_made [OF p(1), of "set_pmm F q u" "page_of en"] by (simp add: page_copy_def)
    from map_copying [OF n(1) e p(1) pn v en(1,2) this] obtain r u' where
      m: "vmm_map_page F e dst v p (en AND 0xFFF) ?u = Some (r, u')" "copying s src dst u'" "r = ERR_OK \<or> r = ERR_NOMEM \<and> no_page e u'"
        "\<forall>w. user_addr w \<longrightarrow> space u' dst w = (if r = ERR_OK \<and> page_of w = v then Some (pte_of p (en AND 0xFFF)) else space ?u dst w)" by blast
    have "handled e s src dst u' w" if "page_of w = v" "user_addr w" for w
      using m(3,4) that unfolding handled_def by (cases "r = ERR_OK") auto
    moreover have "space u' dst w \<noteq> None" if "user_addr w" "space u dst w \<noteq> None" for w
      using m(4) that n(2) [of w] by (metis option.distinct(1))
    ultimately have "copied e s src dst {w. page_of w = v} u ERR_OK u'" using m(2) dr by (simp add: copied_def)
    with a(1) False m(1) show ?thesis by (simp add: Let_def)
  qed
qed

lemma copies_pte:
  assumes pre: "fork_pre s src dst" and e: "envok e" and b: "i < 255" "j < 512" "k < 512" "l < 512"
    and pt: "path (vm_mem s) src [of_nat i, of_nat j, of_nat k] = Some pt"
  shows "copies e s src dst {w. dir_of w = [of_nat i, of_nat j, of_nat k] \<and> PT_INDEX w = of_nat l} (dup_pte F e dst i j k pt l)"
    (is "copies e s src dst ?W _")
proof -
  define v where "v = virt_of i j k l"
  define en where "en = entry s pt (of_nat l)"
  have i: "i < 512" using b(1) by simp
  have v: "user_addr v" "dir_of v = [of_nat i, of_nat j, of_nat k]" "PT_INDEX v = of_nat l" "page_of v = v"
    using user_virt [OF b] virt_index [OF i b(2-4)] by (simp_all add: v_def dir_of_def)
  have sv: "space s src v = (if present en then Some en else None)"
    unfolding space_def look_def v(2,3) pt by (simp add: en_def entry_def Let_def)
  have W: "page_of w = v" if "w \<in> ?W" "user_addr w" for w using same_page [OF that(2) v(1)] that(1) v(2-4) by simp
  have sok: "ptree (vm_mem s) user_idx 3 src" using pre by (simp add: fork_pre_def space_ok_def)
  have vp: "vpath user_idx [of_nat i, of_nat j, of_nat k]" using user_addr_dir [OF v(1)] v(2) by simp
  have ptt: "pt \<in> tables s src" unfolding tables_def by (rule path_tabs [OF pt vp]) simp
  have pta: "page_aligned pt" by (rule path_aligned [OF pt ptree_aligned [OF sok]])
  have live: "entry u pt (of_nat l) = en" if "copying s src dst u" for u
    unfolding en_def using fork_entry [OF pre that ptt pta] b(4) by simp
  show ?thesis
  proof (cases "present en")
    case False
    have "space s src w = None" if "w \<in> ?W" "user_addr w" for w using W [OF that] page_space [of w v s src] v(4) sv False by simp
    then have "copies e s src dst ?W (\<lambda>u. Some (ERR_OK, u))" by (intro copies_skip) blast
    then show ?thesis by (rule copies_cong) (simp add: dup_pte_def live False Let_def)
  next
    case True
    have nh: "\<not> huge en" "page_of en \<in> own (vm_pmm s) - {dst}"
      using pre sv True v(1) unfolding fork_pre_def mapped_def by auto
    show ?thesis unfolding copies_def
    proof (intro allI impI)
      fix u assume c: "copying s src dst u"
      have "space s src v = Some en" using sv True by simp
      from dup_page [OF c e v(1,4) this nh] True
      have "\<exists>r u'. dup_pte F e dst i j k pt l u = Some (r, u') \<and> copied e s src dst {w. page_of w = v} u r u'"
        unfolding dup_pte_def live [OF c] Let_def v_def [symmetric] by simp
      then show "\<exists>r u'. dup_pte F e dst i j k pt l u = Some (r, u') \<and> copied e s src dst ?W u r u'"
        using W unfolding copied_def by blast
    qed
  qed
qed

text \<open>The upper levels.\<close>

lemma fork_level:
  assumes pre: "fork_pre s src dst" and pth: "path (vm_mem s) src is = Some t" "vpath user_idx is" "length is < 3"
    and x: "x < 512" "is = [] \<longrightarrow> x < 255"
    and body: "\<And>c. path (vm_mem s) src (is @ [of_nat x]) = Some c \<Longrightarrow> \<forall>y < 512. copies e s src dst (W y) (body c y)"
    and W: "\<And>y w. w \<in> W y \<Longrightarrow> take (Suc (length is)) (dir_of w) = is @ [of_nat x]"
    and f: "\<And>u. copying s src dst u \<Longrightarrow> entry u t (of_nat x) = entry s t (of_nat x) \<Longrightarrow>
      \<not> (present (entry s t (of_nat x)) \<and> (huge (entry s t (of_nat x)) \<or> page_of (entry s t (of_nat x)) = src)) \<Longrightarrow>
      f u = (if \<not> present (entry s t (of_nat x)) then Some (ERR_OK, u) else dup_loop (body (page_of (entry s t (of_nat x)))) [0..<512] u)"
  shows "copies e s src dst (\<Union>y\<in>set [0..<512]. W y) f"
proof -
  let ?m = "vm_mem s" and ?x = "of_nat x :: u64"
  let ?en = "entry s t ?x"
  have tr: "ptree ?m user_idx (length is + (3 - length is)) src" using pre pth(3) by (simp add: fork_pre_def space_ok_def)
  define I where "I = (if is = [] then user_idx else idx)"
  have xI: "?x \<in> I" using x by (auto simp: I_def user_idx_def word_less_nat_alt)
  obtain d where d: "3 - length is = Suc d" using pth(3) by (metis Suc_diff_Suc)
  note pt = path_tree [OF tr pth(1,2), folded I_def, unfolded d]
  have al: "page_aligned t" using ptree_aligned [OF pt(1)] .
  have "length is + Suc d = 3" using d by simp
  then have "t \<in> tables s src" using pt(2) by (simp only: tables_def)
  then have live: "entry u t ?x = ?en" if "copying s src dst u" for u
    using fork_entry [OF pre that _ al, of ?x] x(1) by simp
  have k: "kid ?m t ?x = (if present ?en then Some (page_of ?en) else None)" by (simp add: kid_def entry_def Let_def)
  have ns: "\<not> (present ?en \<and> (huge ?en \<or> page_of ?en = src))"
  proof
    assume "present ?en \<and> (huge ?en \<or> page_of ?en = src)"
    moreover have "\<not> (present ?en \<and> huge ?en)" using pt(1) xI unfolding ptree.simps(2) entry_def by blast
    ultimately have "path ?m src (is @ [?x]) = Some src" using path_snoc [OF pth(1)] k by simp
    moreover have "length (is @ [?x]) + d = length is + (3 - length is)" using d by simp
    then have "ptree ?m user_idx (length (is @ [?x]) + d) src" using tr by (simp only:)
    moreover have "vpath user_idx (is @ [?x])" using pth(2) xI by (auto simp: I_def vpath_snoc split: if_splits)
    ultimately show False using path_tree(3) by blast
  qed
  have none: "space s src w = None" if "w \<in> W y" "\<not> present ?en" for w y
  proof -
    define js where "js = drop (Suc (length is)) (dir_of w)"
    have dw: "dir_of w = (is @ [?x]) @ js" 
      using append_take_drop_id [of "Suc (length is)" "dir_of w", unfolded W [OF that(1)]] unfolding js_def by (rule sym)
    have "path ?m src (is @ [?x]) = None" using path_snoc [OF pth(1)] k that(2) by simp
    then have "path ?m src (dir_of w) = None" unfolding dw path_append [of ?m src "is @ [?x]"] by simp
    then show ?thesis by (simp add: space_def look_def)
  qed
  show ?thesis
  proof (cases "present ?en")
    case False
    then have "copies e s src dst (\<Union>y\<in>set [0..<512]. W y) (\<lambda>u. Some (ERR_OK, u))" using none by (intro copies_skip) blast
    from copies_cong [OF this] f [OF _ live ns] False show ?thesis by simp
  next
    case True
    have "path ?m src (is @ [?x]) = Some (page_of ?en)" using path_snoc [OF pth(1)] k True by simp
    then have "copies e s src dst (\<Union>y\<in>set [0..<512]. W y) (dup_loop (body (page_of ?en)) [0..<512])"
      using body by (intro copies_loop) auto
    from copies_cong [OF this] f [OF _ live ns] True show ?thesis by simp
  qed
qed

lemma copies_pde:
  assumes pre: "fork_pre s src dst" and e: "envok e" and b: "i < 255" "j < 512" "k < 512"
    and pth: "path (vm_mem s) src [of_nat i, of_nat j] = Some pd"
  shows "copies e s src dst {w. dir_of w = [of_nat i, of_nat j, of_nat k]} (dup_pde F e dst i j pd k)"
proof -
  let ?is = "[of_nat i, of_nat j] :: u64 list"
  have vp: "vpath user_idx ?is" using b by (simp add: user_idx_def word_less_nat_alt)
  have "copies e s src dst (\<Union>y\<in>set [0..<512]. {w. dir_of w = [of_nat i, of_nat j, of_nat k] \<and> PT_INDEX w = of_nat y}) (dup_pde F e dst i j pd k)"
  proof (rule fork_level [OF pre pth vp, where body = "\<lambda>c. dup_pte F e dst i j k c" and x = k])
    show "\<forall>y<512. copies e s src dst {w. dir_of w = [of_nat i, of_nat j, of_nat k] \<and> PT_INDEX w = of_nat y} (dup_pte F e dst i j k c y)"
      if "path (vm_mem s) src (?is @ [of_nat k]) = Some c" for c
      using copies_pte [OF pre e b] that by simp
  qed (use b in \<open>auto simp: dup_pde_def Let_def\<close>)
  moreover have "(\<Union>y\<in>set [0..<512]. {w. dir_of w = [of_nat i, of_nat j, of_nat k] \<and> PT_INDEX w = of_nat y}) = {w. dir_of w = [of_nat i, of_nat j, of_nat k]}"
    using index_nat(4) by auto
  ultimately show ?thesis by simp
qed

lemma copies_pdpte:
  assumes pre: "fork_pre s src dst" and e: "envok e" and b: "i < 255" "j < 512"
    and pth: "path (vm_mem s) src [of_nat i] = Some pdpt"
  shows "copies e s src dst {w. PML4_INDEX w = of_nat i \<and> PDPT_INDEX w = of_nat j} (dup_pdpte F e dst i pdpt j)"
proof -
  have vp: "vpath user_idx [of_nat i]" using b by (simp add: user_idx_def word_less_nat_alt)
  have "copies e s src dst (\<Union>y\<in>set [0..<512]. {w. dir_of w = [of_nat i, of_nat j, of_nat y]}) (dup_pdpte F e dst i pdpt j)"
  proof (rule fork_level [OF pre pth vp, where body = "\<lambda>c. dup_pde F e dst i j c" and x = j])
    show "\<forall>y<512. copies e s src dst {w. dir_of w = [of_nat i, of_nat j, of_nat y]} (dup_pde F e dst i j c y)"
      if "path (vm_mem s) src ([of_nat i] @ [of_nat j]) = Some c" for c
      using copies_pde [OF pre e b] that by simp
  qed (use b in \<open>auto simp: dup_pdpte_def Let_def dir_of_def\<close>)
  moreover have "(\<Union>y\<in>set [0..<512]. {w. dir_of w = [of_nat i, of_nat j, of_nat y]}) = {w. PML4_INDEX w = of_nat i \<and> PDPT_INDEX w = of_nat j}"
    using index_nat(3) by (auto simp: dir_of_def)
  ultimately show ?thesis by simp
qed

lemma copies_pml4e:
  assumes pre: "fork_pre s src dst" and e: "envok e" and b: "i < 255"
  shows "copies e s src dst {w. PML4_INDEX w = of_nat i} (dup_pml4e F e dst src i)"
proof -
  have pth: "path (vm_mem s) src [] = Some src" "vpath user_idx []" by simp_all
  have "copies e s src dst (\<Union>y\<in>set [0..<512]. {w. PML4_INDEX w = of_nat i \<and> PDPT_INDEX w = of_nat y}) (dup_pml4e F e dst src i)"
  proof (rule fork_level [OF pre pth, where body = "\<lambda>c. dup_pdpte F e dst i c" and x = i])
    show "\<forall>y<512. copies e s src dst {w. PML4_INDEX w = of_nat i \<and> PDPT_INDEX w = of_nat y} (dup_pdpte F e dst i c y)"
      if "path (vm_mem s) src ([] @ [of_nat i]) = Some c" for c
      using copies_pdpte [OF pre e b] that by simp
  qed (use b in \<open>auto simp: dup_pml4e_def Let_def dir_of_def\<close>)
  moreover have "(\<Union>y\<in>set [0..<512]. {w. PML4_INDEX w = of_nat i \<and> PDPT_INDEX w = of_nat y}) = {w. PML4_INDEX w = of_nat i}"
    using index_nat(2) by auto
  ultimately show ?thesis by simp
qed

lemma duplicate_spec:
  assumes pre: "fork_pre s src dst" and e: "envok e" and "vm_inv s dst" and "tables s dst = {dst}" and "\<forall>w. user_addr w \<longrightarrow> space s dst w = None"
  shows "\<exists>r s'. vmm_duplicate_user_pages F e dst src s = Some (r, s') \<and> copying s src dst s' \<and> (r = ERR_OK \<or> r = ERR_NOMEM \<and> no_page e s') \<and>
    (r = ERR_OK \<longrightarrow> (\<forall>w. user_addr w \<longrightarrow> handled e s src dst s' w))"
proof -
  have m: "mapped s dst = {}" using assms(5) by (auto simp: mapped_def)
  have c: "copying s src dst s" unfolding copying_def private_space_def
    using assms(3-5) m by (auto simp: vm_inv_def)
  let ?W = "\<lambda>i. if i = 255 then {} else {w. PML4_INDEX w = of_nat i}"
  have "copies e s src dst (?W i) (dup_pml4e F e dst src i)" if i: "i < 256" for i
  proof (cases "i = 255")
    case True
    have "copies e s src dst {} (\<lambda>u. Some (ERR_OK, u))" by (rule copies_skip) simp
    then have "copies e s src dst {} (dup_pml4e F e dst src 255)" by (rule copies_cong) (simp add: dup_pml4e_def Let_def)
    then show ?thesis unfolding True by simp
  next
    case False
    with copies_pml4e [OF pre e, of i] i show ?thesis by simp
  qed
  then have "copies e s src dst (\<Union>i\<in>set [0..<256]. ?W i) (dup_loop (dup_pml4e F e dst src) [0..<256])"
    by (intro copies_loop) auto
  with c obtain r s' where r: "vmm_duplicate_user_pages F e dst src s = Some (r, s')" "copied e s src dst (\<Union>i\<in>set [0..<256]. ?W i) s r s'"
    unfolding copies_def vmm_duplicate_user_pages_def by blast
  have U: "w \<in> (\<Union>i\<in>set [0..<256]. ?W i)" if "user_addr w" for w
  proof -
    have "PML4_INDEX w \<in> user_idx" using user_addr_dir [OF that] by (simp add: dir_of_def)
    then have "unat (PML4_INDEX w) < 255" by (simp add: user_idx_def word_less_nat_alt)
    then show ?thesis by (auto intro!: bexI [of _ "unat (PML4_INDEX w)"])
  qed
  have "handled e s src dst s' w" if "r = ERR_OK" "user_addr w" for w
    using r(2) U [OF that(2)] that unfolding copied_def by (metis (lifting))
  with r show ?thesis by (auto simp: copied_def)
qed

end

end
