(* ===== verification/Kmalloc_Pmm.thy ===== *)
theory Kmalloc_Pmm
  imports Kmalloc_Safe
begin

text \<open>
  The heap on the page allocator of \<^verbatim>\<open>pmm.c\<close>: the interpretation of \<open>page_source\<close> on its operations, and the
  properties of the heap.
\<close>

section \<open>The page allocator keeps its promises\<close>

definition pmm_ops :: "(pmm_env, pmm) page_ops" where
  "pmm_ops = \<lparr>po_alloc = pmm_alloc_pages, po_alloc_node = (\<lambda>e n. pmm_alloc_node_pages e n (pmm_current_node e)),
     po_free = pmm_free_pages, po_cpu = smp_cpu_id\<rparr>"

definition pmm_ok :: "pmm \<Rightarrow> bool" where
  "pmm_ok s \<longleftrightarrow> pmm_wf s \<and> bitmap_test 0 s \<and> total_page_count s \<le> 2 ^ 52"

text \<open>A machine without NUMA tables: with them, \<open>pmm_alloc_node_pages\<close> returns wrong addresses.\<close>

definition heap_env :: "pmm_env \<Rightarrow> bool" where
  "heap_env e \<longleftrightarrow> env_ok e \<and> \<not> numa_available e \<and> smp_cpu_id e < KMAG_CPUS"

lemma pages_alloc:
  assumes "heap_env e" and "pmm_ok s"
  shows "\<exists>p s'. pmm_alloc_pages e n s = Some (p, s') \<and> pmm_ok s' \<and>
    (if p = 0 then owned s' = owned s
     else n \<noteq> 0 \<and> page_aligned p \<and> run_of p (unat n) \<inter> owned s = {} \<and> owned s' = owned s \<union> run_of p (unat n))"
proof (cases "n = 0")
  case True
  with assms(2) show ?thesis by (simp add: pmm_alloc_pages_def)
next
  case False
  have wf: "pmm_wf s" "env_ok e" "bitmap_test 0 s" "total_page_count s \<le> 2 ^ 52" using assms by (simp_all add: pmm_ok_def heap_env_def)
  from alloc_pages_spec [OF wf(1,2) False wf(3,4)] obtain p s' where r: "pmm_alloc_pages e n s = Some (p, s')"
    "pmm_wf s'" "bitmap_test 0 s'" "total_page_count s' = total_page_count s"
    "if p = 0 then quiet s s' else page_aligned p \<and> run_of p (unat n) \<inter> held s = {} \<and> owned s' = owned s \<union> run_of p (unat n)"
    unfolding run_of_def Let_def by (metis (no_types, lifting))
  have "pmm_ok s'" using r(2-4) wf(4) by (simp add: pmm_ok_def)
  moreover have "owned s \<subseteq> held s" by (auto simp: owned_def)
  ultimately show ?thesis using r(1,5) False by (cases "p = 0") (auto simp: quiet_def)
qed

lemma cache_flush_half_bit0:
  assumes wf: "pmm_wf s" and "cache_flush_half e s = Some s'"
  shows "bitmap_test 0 s' = bitmap_test 0 s"
proof -
  let ?xs = "cpu_cache s (smp_cpu_id e)"
  obtain s1 where s1: "flush_pages e (drop (length ?xs div 2) ?xs) s = Some s1" "bitmap_test 0 s' = bitmap_test 0 s1"
    using assms(2) by (auto simp: cache_flush_half_def Let_def split: bind_splits)
  have "page_index p \<noteq> 0" if "p \<in> set (drop (length ?xs div 2) ?xs)" for p
    using pmm_wfD(6) [OF wf in_cached [OF in_set_dropD [OF that]]] by (rule page_ok_index)
  with flush_pages_bit [OF s1(1)] s1(2) show ?thesis by blast
qed

lemma free_page_bit0:
  assumes wf: "pmm_wf s" and env: "env_ok e" and p: "p \<in> owned s" and f: "pmm_free_page e p s = Some s'"
  shows "bitmap_test 0 s' = bitmap_test 0 s"
proof -
  have "page_index p \<noteq> 0" using p page_ok_index by (auto simp: owned_def held_def)
  moreover have "bitmap_test 0 s1 = bitmap_test 0 s" if "cache_try_push e p s = Some (b, s1)" for b s1
    using that by (auto simp: cache_try_push_def Let_def split: if_splits)
  moreover have "s1 = s" if "cache_try_push e p s = Some (False, s1)" for s1
    using that by (auto simp: cache_try_push_def Let_def split: if_splits)
  moreover have "bitmap_test 0 s' = bitmap_test 0 s" if "free_slow e p s = Some s'" "page_index p \<noteq> 0"
    using that cache_flush_half_bit0 [OF wf, of e]
    by (auto simp: free_slow_def Let_def owner_set_def split: if_splits bind_splits)
  ultimately show ?thesis using f
    by (auto simp: pmm_free_page_def split: if_splits bind_splits)
qed

lemma run_offset:
  assumes "i < 2 ^ 20"
  shows "(ucast ((of_nat i :: u32) * 4096) :: u64) = 4096 * of_nat i" "unat (4096 * of_nat i :: u64) = 4096 * i"
proof -
  show u: "unat (4096 * of_nat i :: u64) = 4096 * i"
    using assms by (simp add: unat_word_ariths unsigned_of_nat take_bit_nat_eq_self)
  have "unat ((of_nat i :: u32) * 4096) = 4096 * i"
    using assms by (simp add: unat_word_ariths unsigned_of_nat take_bit_nat_eq_self)
  with u assms show "(ucast ((of_nat i :: u32) * 4096) :: u64) = 4096 * of_nat i"
    by (simp add: word_unat_eq_iff unsigned_ucast_eq take_bit_nat_eq_self)
qed

lemma free_loop:
  assumes "heap_env e" and "pmm_ok s" and "distinct js" and "set js \<subseteq> {..<2 ^ 20}"
    and "(\<lambda>j. p + 4096 * of_nat j) ` set js \<subseteq> owned s"
  shows "\<exists>s'. free_pages_loop e p js s = Some s' \<and> pmm_ok s' \<and> owned s' = owned s - (\<lambda>j. p + 4096 * of_nat j) ` set js"
  using assms(2-5)
proof (induction js arbitrary: s)
  case (Cons j js)
  let ?q = "p + 4096 * of_nat j"
  have j: "j < 2 ^ 20" and ok: "pmm_wf s" "env_ok e" and q: "?q \<in> owned s"
    using Cons.prems assms(1) by (simp_all add: pmm_ok_def heap_env_def)
  obtain s1 where s1: "pmm_free_page e ?q s = Some s1" "takes s ?q s1" using free_page_spec [OF ok q] by blast
  have ok1: "pmm_ok s1"
    using s1(2) Cons.prems(1) free_page_bit0 [OF ok q s1(1)] by (simp add: pmm_ok_def takes_def)
  have o1: "owned s1 = owned s - {?q}" using s1(2) by (simp add: takes_def)
  have "p + 4096 * of_nat k \<noteq> ?q" if "k \<in> set js" for k
  proof -
    have "k < 2 ^ 20" "k \<noteq> j" using that Cons.prems(2,3) by auto
    then have "unat (4096 * of_nat k :: u64) \<noteq> unat (4096 * of_nat j :: u64)" using run_offset(2) [OF j] run_offset(2) [of k] by simp
    then show ?thesis by auto
  qed
  then have "(\<lambda>j. p + 4096 * of_nat j) ` set js \<subseteq> owned s1" using Cons.prems(4) o1 by auto
  with Cons.IH [OF ok1] Cons.prems(2,3) obtain s' where
    "free_pages_loop e p js s1 = Some s'" "pmm_ok s'" "owned s' = owned s1 - (\<lambda>j. p + 4096 * of_nat j) ` set js" by auto
  with s1(1) o1 run_offset(1) [OF j] show ?case by auto
qed simp

lemma pages_free:
  assumes "heap_env e" and "pmm_ok s" and "n \<le> push_bit 20 1" and "run_of p (unat n) \<subseteq> owned s"
  shows "\<exists>s'. pmm_free_pages e p n s = Some s' \<and> pmm_ok s' \<and> owned s' = owned s - run_of p (unat n)"
  using free_loop [OF assms(1,2), of "[0..<unat n]" p] assms(3,4)
  by (auto simp: pmm_free_pages_def run_of_def atLeast0LessThan word_le_nat_alt)

interpretation ph: page_source pmm_ops pmm_ok owned heap_env
proof
  fix e s and n :: u32
  assume "heap_env e" "pmm_ok s"
  then show "\<exists>p s'. po_alloc pmm_ops e n s = Some (p, s') \<and> pmm_ok s' \<and> (if p = 0 then owned s' = owned s
      else n \<noteq> 0 \<and> page_aligned p \<and> run_of p (unat n) \<inter> owned s = {} \<and> owned s' = owned s \<union> run_of p (unat n))"
    using pages_alloc by (simp add: pmm_ops_def)
next
  fix e s
  assume a: "heap_env e" "pmm_ok s"
  have "pmm_alloc_node_pages e 1 (pmm_current_node e) s = pmm_alloc_pages e 1 s"
    using a(1) by (simp add: pmm_alloc_node_pages_def heap_env_def)
  moreover obtain p s' where r: "pmm_alloc_pages e 1 s = Some (p, s')" "pmm_ok s'"
      "if p = 0 then owned s' = owned s else page_aligned p \<and> p \<notin> owned s \<and> owned s' = insert p (owned s)"
    using pages_alloc [OF a, of 1] unfolding unat_1 run_one by (auto split: if_splits)
  ultimately show "\<exists>p s'. po_alloc_node pmm_ops e 1 s = Some (p, s') \<and> pmm_ok s' \<and>
      (if p = 0 then owned s' = owned s else page_aligned p \<and> p \<notin> owned s \<and> owned s' = insert p (owned s))"
    unfolding pmm_ops_def by auto
next
  fix e s p and n :: u32
  assume "heap_env e" "pmm_ok s" "n \<le> push_bit 20 1" "run_of p (unat n) \<subseteq> owned s"
  then show "\<exists>s'. po_free pmm_ops e p n s = Some s' \<and> pmm_ok s' \<and> owned s' = owned s - run_of p (unat n)"
    using pages_free by (simp add: pmm_ops_def)
next
  fix e
  assume "heap_env e"
  then show "po_cpu pmm_ops e < KMAG_CPUS" by (simp add: pmm_ops_def heap_env_def)
qed

section \<open>Properties\<close>

text \<open>
  C5. The heap on the page allocator, from the initialisation on, on a machine without NUMA tables: in every state that clients reach by
  \<open>kmalloc\<close> of less than \<open>2 ^ 43\<close> bytes, \<open>kfree\<close> of live objects, writes into their objects, flushes, compactions and page
  allocations of their own, \<open>kmalloc\<close> of less than \<open>2 ^ 43\<close> bytes returns, and the object it returns has no byte in common
  with any live object; \<open>kfree\<close> of a live object returns too. The writes leave the word in front of a large object as it is and do not put
  the slab magic at the place where a slab page has it, which \<open>kfree\<close> would take for a slab page.
\<close>

theorem kmalloc_no_overlap:
  assumes "(heap_step pmm_ops heap_env)\<^sup>*\<^sup>* (kmalloc_init h0, {}, {}) (h, L, X)" and "pmm_ok (kh_pmm h0)"
    and "heap_env e" and "unat sz < 2 ^ 43"
  shows "(\<exists>p h'. kmalloc pmm_ops e sz h = Some (p, h') \<and>
      (p = 0 \<or> (\<forall>(q, m) \<in> L. q \<noteq> p \<and> extent p (unat sz) \<inter> extent q m = {}))) \<and>
    (\<forall>(q, m) \<in> L. \<exists>h'. kfree pmm_ops e q h = Some h')"
  by (rule ph.no_overlap [OF assms])

lemma demo_first_page: "\<exists>s. pmm_alloc_pages env_demo 1 pmm_demo = Some (0x5000, s)"
proof -
  have fl: "flush_caches env_demo [0..<smp_nr_cpus env_demo] pmm_demo = Some pmm_demo"
    by (simp add: flush_cache_def set_cache_def env_demo_def pmm_demo_def fun_upd_idem)
  have sc: "bitmap_scan pmm_demo 1 [0..<unat (total_page_count pmm_demo)] 0 0 = (5, 1)"
    using demo_bits(1,2) demo_bits(3) [of 0] demo_bits(3) [of 1] demo_bits(3) [of 2] demo_bits(3) [of 3] demo_bits(3) [of 4]
    by (simp add: upt_rec pmm_demo_def)
  have ok: "pmm_ok pmm_demo" "heap_env env_demo"
    using demo_wf demo_bits(3) [of 0] env_demo_ok(1) by (simp_all add: pmm_ok_def heap_env_def pmm_demo_def env_demo_def KMAG_CPUS_def)
  from pages_alloc [OF ok(2,1), of 1] fl sc show ?thesis by (auto simp: pmm_alloc_pages_def split: bind_splits)
qed

definition heap_demo :: "pmm kheap" where
  "heap_demo = \<lparr>kh_slabs = \<lambda>_. [], kh_pages = \<lambda>_. blank_page, kh_mag = \<lambda>_ _. [], kh_used = 0, kh_total = 0, kh_pmm = pmm_demo\<rparr>"

theorem kmalloc_no_overlap_witness:
  "\<exists>p h p' h'. kmalloc pmm_ops env_demo 100 (kmalloc_init heap_demo) = Some (p, h) \<and> p \<noteq> 0 \<and>
     kmalloc pmm_ops env_demo 100 h = Some (p', h') \<and> p' \<noteq> 0 \<and> extent p' 100 \<inter> extent p 100 = {}"
proof -
  have ok: "pmm_ok (kh_pmm heap_demo)" "heap_env env_demo"
    using demo_wf demo_bits(3) [of 0] env_demo_ok(1) by (simp_all add: pmm_ok_def heap_env_def heap_demo_def pmm_demo_def env_demo_def KMAG_CPUS_def)
  have r0: "(heap_step pmm_ops heap_env)\<^sup>*\<^sup>* (kmalloc_init heap_demo, {}, {}) (kmalloc_init heap_demo, {}, {})" by simp
  obtain s where s: "pmm_alloc_node_pages env_demo 1 (pmm_current_node env_demo) pmm_demo = Some (0x5000, s)"
    using demo_first_page by (auto simp: pmm_alloc_node_pages_def env_demo_def)
  have idx: "slab_index 100 = Some (Some 3)"
    by (simp add: slab_index_def slab_index_loop.simps MIN_SLAB_SHIFT_def SLAB_COUNT_def MAX_SLAB_SHIFT_def)
  define h where "h = snd (the (kmalloc pmm_ops env_demo 100 (kmalloc_init heap_demo)))"
  have p: "kmalloc pmm_ops env_demo 100 (kmalloc_init heap_demo) = Some (0xFFFFFFFFC0005028, h)"
    using s idx unfolding h_def by (simp add: kmalloc_def kmalloc_init_def heap_demo_def slab_new_page_def pmm_ops_def take_slot_def
        Let_def PHYS_TO_VIRT_def KERNEL_VMA_BASE_def SLAB_HEADER_SIZE_def SLAB_MAX_OBJS_def)
  from heap_step.alloc [of heap_env env_demo 100 pmm_ops, OF ok(2) _ p, of "{}" "{}"]
  have "(heap_step pmm_ops heap_env)\<^sup>*\<^sup>* (kmalloc_init heap_demo, {}, {}) (h, {(0xFFFFFFFFC0005028, 100)}, {})" by auto
  from kmalloc_no_overlap [OF this ok, of 100] obtain p' h' where p': "kmalloc pmm_ops env_demo 100 h = Some (p', h')"
    "p' = 0 \<or> extent p' 100 \<inter> extent 0xFFFFFFFFC0005028 100 = {}" by auto
  have pg: "kh_slabs h 3 = [0xFFFFFFFFC0005000]" "kh_mag h (smp_cpu_id env_demo) 3 = []"
    "kh_pages h 0xFFFFFFFFC0005000 = (slab_header 3)\<lparr>kp_bitmap := (kp_bitmap (slab_header 3))[0 := False],
       kp_free_count := kp_free_count (slab_header 3) - 1\<rparr>"
    using s idx unfolding h_def by (simp_all add: kmalloc_def kmalloc_init_def heap_demo_def slab_new_page_def pmm_ops_def take_slot_def
        Let_def PHYS_TO_VIRT_def KERNEL_VMA_BASE_def upd_page_def)
  have "slab_search (kh_pages h) (kh_slabs h 3) = Some (0xFFFFFFFFC0005000, 1)"
    by (simp add: pg slab_header_def slab_total_def SLAB_MAX_OBJS_def SLAB_HEADER_SIZE_def MIN_SLAB_SHIFT_def upt_rec)
  with p'(1) idx pg(2) have "p' = 0xFFFFFFFFC00050A8"
    by (auto simp: kmalloc_def Let_def pmm_ops_def take_slot_def SLAB_HEADER_SIZE_def SLAB_MAX_OBJS_def obj_size_def MIN_SLAB_SHIFT_def)
  with p p' show ?thesis by auto
qed

text \<open>
  \<open>kfree\<close> takes the first bytes of a large object for a slab header: when the client has stored
  \<open>SLAB_MAGIC\<close> in its first word, and a size class in the byte where the header has it, the object goes into a
  magazine instead of back to the page allocator, and the next request of that size class on the CPU
  gets its address.
\<close>

theorem kfree_mistakes_data:
  assumes "page_aligned v" and "v + 8 \<ge> KERNEL_VMA" and "kp_magic (kh_pages h v) = SLAB_MAGIC"
    and "unat (kp_shift (kh_pages h v)) = idx + MIN_SLAB_SHIFT" and "idx < SLAB_COUNT"
    and "length (kh_mag h (po_cpu P e) idx) < KMAG_SIZE" and "slab_index sz = Some (Some idx)" and "sz \<noteq> 0"
  shows "\<exists>h'. kfree P e (v + 8) h = Some h' \<and> kh_pmm h' = kh_pmm h \<and> (\<exists>h''. kmalloc P e sz h' = Some (v + 8, h''))"
proof -
  have "page_of (v + of_nat 8) = v" by (rule page_of_add [OF assms(1)]) simp
  moreover have "v + of_nat 8 \<noteq> 0" by (rule offset_nonzero [OF assms(1)]) simp_all
  ultimately have "kfree P e (v + 8) h = Some (set_mag (po_cpu P e) idx (kh_mag h (po_cpu P e) idx @ [v + 8]) h)"
    using assms(2-6) by (simp add: kfree_def Let_def not_less [symmetric])
  with assms(7,8) show ?thesis by (auto simp: kmalloc_def Let_def)
qed

theorem kfree_mistakes_data_witness:
  "\<exists>h'. kfree pmm_ops env_demo 0xFFFFFFFFC0200008
       (heap_demo\<lparr>kh_pages := \<lambda>_. blank_page\<lparr>kp_word0 := 2, kp_magic := SLAB_MAGIC, kp_shift := 5\<rparr>\<rparr>) = Some h' \<and>
     (\<exists>h''. kmalloc pmm_ops env_demo 20 h' = Some (0xFFFFFFFFC0200008, h''))"
proof -
  let ?h = "heap_demo\<lparr>kh_pages := \<lambda>_. blank_page\<lparr>kp_word0 := 2, kp_magic := SLAB_MAGIC, kp_shift := 5\<rparr>\<rparr>"
  have "slab_index 20 = Some (Some 1)"
    by (simp add: slab_index_def slab_index_loop.simps MIN_SLAB_SHIFT_def SLAB_COUNT_def MAX_SLAB_SHIFT_def)
  with kfree_mistakes_data [of "0xFFFFFFFFC0200000" ?h 1 pmm_ops env_demo 20] show ?thesis
    by (auto simp: page_aligned_def KERNEL_VMA_def KERNEL_VMA_BASE_def KERNEL_PHYS_BASE_def MIN_SLAB_SHIFT_def SLAB_COUNT_def
        MAX_SLAB_SHIFT_def heap_demo_def KMAG_SIZE_def)
qed

text \<open>
  A request of \<open>2 ^ 44\<close> bytes is given a single page: \<open>pmm_alloc_pages\<close> takes the number of pages in 32 bits.
\<close>

lemma kmalloc_truncates:
  assumes "po_alloc P e 1 (kh_pmm h) = Some (phys, s)" and "phys \<noteq> 0"
  shows "\<exists>h'. kmalloc P e (2 ^ 44) h = Some (PHYS_TO_VIRT phys + 8, h')"
proof -
  have "slab_index (2 ^ 44) = Some None"
    by (simp add: slab_index_def slab_index_loop.simps MIN_SLAB_SHIFT_def SLAB_COUNT_def MAX_SLAB_SHIFT_def)
  moreover have "(4294967297 :: u32) = 1" by simp
  then have "po_alloc P e 4294967297 (kh_pmm h) = Some (phys, s)" using assms(1) by (simp only:)
  ultimately show ?thesis using assms(2) by (auto simp: kmalloc_def kmalloc_large_def Let_def)
qed

end
