(* ===== verification/Vmm_Props.thy ===== *)
theory Vmm_Props
  imports Vmm_Fork Kmalloc_Pmm
begin

text \<open>
  The page tables on the page allocator of \<^verbatim>\<open>pmm.c\<close>: the interpretation of \<open>frame_source\<close> on its operations, and the
  properties of address spaces.
\<close>

section \<open>The page allocator keeps its promises\<close>

text \<open>
  The free list of a node is linked through the first words of its pages: such a word holds the kernel address of the
  next page of the list, or 0 (\<open>fp->next = node_free_lists[nd]\<close>).
\<close>

fun next_free :: "u64 list \<Rightarrow> u64 \<Rightarrow> u64" where
  "next_free [] a = 0"
| "next_free (p # ps) a = (if p = a then (case ps of [] \<Rightarrow> 0 | q # _ \<Rightarrow> PHYS_TO_VIRT q) else next_free ps a)"

definition pmm_links :: "pmm \<Rightarrow> (u64 \<Rightarrow> u64) \<Rightarrow> u64 \<Rightarrow> u64" where
  "pmm_links s m a = (case find (\<lambda>n. a \<in> set (node_free_lists s n)) [0..<MAX_NUMA_NODES] of
     None \<Rightarrow> m a | Some n \<Rightarrow> next_free (node_free_lists s n) a)"

definition pmm_frames :: "(pmm_env, pmm) frame_ops" where
  "pmm_frames = \<lparr>fo_pages = pmm_ops, fo_alloc_page = pmm_alloc_page, fo_free_page = pmm_free_page, fo_links = pmm_links\<rparr>"

lemma links_listed:
  assumes "pmm_wf s" and "pmm_links s m a \<noteq> m a"
  shows "page_of a = a" "a \<notin> owned s"
proof -
  obtain n where "a \<in> set (node_free_lists s n)"
    using assms(2) by (auto simp: pmm_links_def find_None_iff find_Some_iff split: option.splits)
  then have "a \<in> listed s" by (auto simp: listed_def)
  with assms(1) have "page_ok s a" "\<not> bitmap_test (page_index a) s" by (simp_all add: pmm_wf_def)
  then show "page_of a = a" "a \<notin> owned s" by (simp_all add: page_ok_def page_of_aligned owned_def held_def)
qed

text \<open>No page is left: all pages of the machine are in use, and the caches of the running CPUs are empty.\<close>

definition no_page_left :: "pmm_env \<Rightarrow> pmm \<Rightarrow> bool" where
  "no_page_left e s \<longleftrightarrow> (\<forall>i < total_page_count s. bitmap_test i s) \<and> (\<forall>c < smp_nr_cpus e. cpu_cache s c = [])"

lemma alloc_node_one: "heap_env e \<Longrightarrow> po_alloc_node (fo_pages pmm_frames) e 1 s = pmm_alloc_pages e 1 s"
  by (simp add: pmm_frames_def pmm_ops_def pmm_alloc_node_pages_def heap_env_def)

lemma failed_no_page:
  assumes "heap_env e" and "pmm_ok s" and "pmm_alloc_pages e 1 s = Some (0, s')"
  shows "no_page_left e s'"
proof -
  have wf: "pmm_wf s" "env_ok e" "bitmap_test 0 s" "total_page_count s \<le> 2 ^ 52" using assms by (simp_all add: pmm_ok_def heap_env_def)
  from alloc_pages_spec [OF wf(1,2) _ wf(3,4), of 1] assms(3)
  have r: "total_page_count s' = total_page_count s" "\<forall>c < smp_nr_cpus e. cpu_cache s' c = []"
      "\<forall>a. a + 1 \<le> unat (total_page_count s) \<longrightarrow> (\<exists>k. a \<le> k \<and> k < a + 1 \<and> bitmap_test (of_nat k) s')" by auto
  have "bitmap_test i s'" if "i < total_page_count s'" for i
  proof -
    have "unat i + 1 \<le> unat (total_page_count s)" using that r(1) by (simp add: word_less_nat_alt)
    with r(3) obtain k where "unat i \<le> k" "k < unat i + 1" "bitmap_test (of_nat k) s'" by blast
    moreover from this have "k = unat i" by simp
    ultimately show ?thesis by simp
  qed
  with r(2) show ?thesis by (simp add: no_page_left_def)
qed

lemma no_page_fails:
  assumes "no_page_left e s" and "pmm_alloc_pages e 1 s = Some (p, s')"
  shows "p = 0"
proof (rule ccontr)
  assume "p \<noteq> 0"
  have "flush_caches e cs s = Some s" if "set cs \<subseteq> {..<smp_nr_cpus e}" for cs
    using that assms(1) by (induction cs) (simp_all add: flush_cache_def set_cache_def fun_upd_idem no_page_left_def)
  then have fl: "flush_caches e [0..<smp_nr_cpus e] s = Some s" by force
  obtain first found where sc: "bitmap_scan s 1 [0..<unat (total_page_count s)] 0 0 = (first, found)" by fastforce
  have "\<not> found < 1" using assms(2) fl sc \<open>p \<noteq> 0\<close> by (auto simp: pmm_alloc_pages_def split: if_splits)
  with bitmap_scan_spec(2) [OF _ sc] have "unat first + 1 \<le> unat (total_page_count s)" "\<not> bitmap_test first s" by auto
  with assms(1) show False by (auto simp: no_page_left_def word_less_nat_alt)
qed

interpretation vf: frame_source pmm_frames pmm_ok owned heap_env no_page_left
proof (rule frame_source.intro)
  show "page_source (fo_pages pmm_frames) pmm_ok owned heap_env"
    using ph.page_source_axioms by (simp add: pmm_frames_def)
  show "frame_source_axioms pmm_frames pmm_ok owned heap_env no_page_left"
  proof
    fix e s p assume a: "heap_env e" "pmm_ok s" "p \<in> owned s"
    then have w: "pmm_wf s" "env_ok e" by (simp_all add: pmm_ok_def heap_env_def)
    from free_page_spec [OF w a(3)] obtain s' where s': "pmm_free_page e p s = Some s'" "takes s p s'" by blast
    have "pmm_ok s'" using s'(2) a(2) free_page_bit0 [OF w a(3) s'(1)] by (simp add: pmm_ok_def takes_def)
    with s' show "\<exists>s'. fo_free_page pmm_frames e p s = Some s' \<and> pmm_ok s' \<and> owned s' = owned s - {p}"
      by (auto simp: pmm_frames_def takes_def)
  next
    fix s assume "pmm_ok s"
    show "0 \<notin> owned s" by (simp add: owned_def held_def page_ok_def)
  next
    fix s m and a :: u64 assume "pmm_ok s" "page_of a \<in> owned s"
    then show "fo_links pmm_frames s m a = m a" using links_listed [of s m a] by (cases "pmm_links s m a = m a") (auto simp: pmm_frames_def pmm_ok_def)
  qed (use failed_no_page no_page_fails in \<open>simp_all add: alloc_node_one\<close>)
qed

definition pmm_space :: "pmm vm \<Rightarrow> u64 \<Rightarrow> bool" where
  "pmm_space s root \<longleftrightarrow> space_ok s root \<and> tables s root \<subseteq> owned (vm_pmm s) \<and> pmm_ok (vm_pmm s)"

lemma vm_inv_pmm: "vf.vm_inv s root = pmm_space s root"
  by (simp add: vf.vm_inv_def pmm_space_def)

text \<open>What the hardware and the kernel read: the entry that the walk leads to.\<close>

definition translate :: "'s vm \<Rightarrow> u64 \<Rightarrow> u64 \<Rightarrow> u64 option" where
  "translate s root w = map_option (vm_mem s) (vmm_walk_pagetable s root w)"

lemma translate_space:
  assumes "space_ok s root" and "user_addr w"
  shows "translate s root w = space s root w"
proof (cases "space s root w")
  case None
  then show ?thesis unfolding translate_def walk_space [OF assms] by simp
next
  case (Some en)
  then obtain pt where "path (vm_mem s) root (dir_of w) = Some pt" "vm_mem s (slot pt (PT_INDEX w)) = en"
    by (auto simp: space_def look_def bind_eq_Some_conv Let_def split: if_splits)
  with Some show ?thesis unfolding translate_def walk_space [OF assms] by simp
qed

lemma pmm_space_translate: "pmm_space s root \<Longrightarrow> user_addr w \<Longrightarrow> translate s root w = space s root w"
  by (simp add: pmm_space_def translate_space)

section \<open>A machine with an address space\<close>

text \<open>Tables at \<open>0x1000\<close> to \<open>0x4000\<close>, the page \<open>0x7000\<close> mapped at address 0, and an empty root at \<open>0x8000\<close>.\<close>

definition vm_demo :: "pmm vm" where
  "vm_demo = \<lparr>vm_mem = (\<lambda>_. 0)(0x1000 := 0x2007, 0x2000 := 0x3007, 0x3000 := 0x4007, 0x4000 := 0x7007, 0x7000 := 42),
     vm_pmm = pmm_demo, kernel_pml4 = 0xF000, vm_flushed = []\<rparr>"

lemma demo_owned: "{0x1000, 0x2000, 0x3000, 0x4000, 0x7000, 0x8000} \<subseteq> owned pmm_demo"
  using demo_listed(2) demo_bits(3) [of 1] demo_bits(3) [of 2] demo_bits(3) [of 3] demo_bits(3) [of 4] demo_bits(3) [of 7] demo_bits(3) [of 8]
  by (simp add: owned_def held_def page_ok_def page_aligned_def page_index_def PAGE_OWNER_CACHE_def) (simp add: pmm_demo_def)

lemma demo_slot: "page_aligned t \<Longrightarrow> page_aligned p \<Longrightarrow> i < 512 \<Longrightarrow> slot t i = p \<longleftrightarrow> t = p \<and> i = 0"
  using entry_slot_inj [of t p i 0] by (auto simp: slot_def)

lemma demo_aligned [simp]: "page_aligned 0x1000" "page_aligned 0x2000" "page_aligned 0x3000" "page_aligned 0x4000" "page_aligned 0x7000" "page_aligned 0x8000"
  by (simp_all add: page_aligned_def)

lemma demo_mem:
  assumes "page_aligned t" and "i < 512"
  shows "vm_mem vm_demo (slot t i) = (if i \<noteq> 0 then 0 else if t = 0x7000 then 42 else if t = 0x4000 then 0x7007 else
    if t = 0x3000 then 0x4007 else if t = 0x2000 then 0x3007 else if t = 0x1000 then 0x2007 else 0)"
proof (cases "i = 0")
  case True
  then show ?thesis by (simp add: slot_def vm_demo_def)
next
  case False
  then have "slot t i \<noteq> p" if "page_aligned p" for p using demo_slot [OF assms(1) that assms(2)] by simp
  with False show ?thesis by (simp add: vm_demo_def)
qed

lemma demo_entries [simp]: "present 0x2007" "present 0x3007" "present 0x4007" "present 0x7007" "\<not> present 42"
    "\<not> huge 0x2007" "\<not> huge 0x3007" "\<not> huge 0x4007" "\<not> huge 0x7007"
    "page_of 0x2007 = 0x2000" "page_of 0x3007 = 0x3000" "page_of 0x4007 = 0x4000" "page_of 0x7007 = 0x7000"
  by (simp_all add: present_def huge_def PAGE_PRESENT_def PAGE_HUGE_def page_of_def)

lemma demo_kid:
  assumes "page_aligned t" and "i < 512"
  shows "kid (vm_mem vm_demo) t i = (if i \<noteq> 0 then None else if t = 0x4000 then Some 0x7000 else
    if t = 0x3000 then Some 0x4000 else if t = 0x2000 then Some 0x3000 else if t = 0x1000 then Some 0x2000 else None)"
  unfolding kid_def demo_mem [OF assms] by simp

lemma demo_tree:
  "ptree (vm_mem vm_demo) idx 0 0x4000 \<and> tabs (vm_mem vm_demo) idx 0 0x4000 = {0x4000}"
  "ptree (vm_mem vm_demo) idx (Suc 0) 0x3000 \<and> tabs (vm_mem vm_demo) idx (Suc 0) 0x3000 = {0x3000, 0x4000}"
  "ptree (vm_mem vm_demo) idx (Suc (Suc 0)) 0x2000 \<and> tabs (vm_mem vm_demo) idx (Suc (Suc 0)) 0x2000 = {0x2000, 0x3000, 0x4000}"
  "ptree (vm_mem vm_demo) user_idx (Suc (Suc (Suc 0))) 0x1000 \<and> tabs (vm_mem vm_demo) user_idx (Suc (Suc (Suc 0))) 0x1000 = {0x1000, 0x2000, 0x3000, 0x4000}"
proof -
  have step: "ptree (vm_mem vm_demo) I (Suc d) t \<and> tabs (vm_mem vm_demo) I (Suc d) t = insert t (tabs (vm_mem vm_demo) idx d c)"
    if I: "I \<subseteq> idx" "0 \<in> I" and k: "kid (vm_mem vm_demo) t 0 = Some c" and t: "page_aligned t" "t \<in> {0x1000, 0x2000, 0x3000}"
      and c: "ptree (vm_mem vm_demo) idx d c" "t \<notin> tabs (vm_mem vm_demo) idx d c" for I d t c
  proof -
    have "i = 0" if "i \<in> I" "kid (vm_mem vm_demo) t i = Some c'" for i c'
      using demo_kid [OF t(1), of i] I(1) that by (auto split: if_splits)
    moreover have "\<not> huge (vm_mem vm_demo (slot t i))" if "i \<in> I" "present (vm_mem vm_demo (slot t i))" for i
      using demo_mem [OF t(1), of i] I(1) that t(2) by (auto split: if_splits)
    ultimately show ?thesis by (intro single_kid [OF t(1) I(2) k c])
  qed
  show 0: "ptree (vm_mem vm_demo) idx 0 0x4000 \<and> tabs (vm_mem vm_demo) idx 0 0x4000 = {0x4000}" by simp
  show 1: "ptree (vm_mem vm_demo) idx (Suc 0) 0x3000 \<and> tabs (vm_mem vm_demo) idx (Suc 0) 0x3000 = {0x3000, 0x4000}"
    using step [of idx "0x3000" "0x4000" 0] 0 demo_kid [of "0x3000" 0] by simp
  show 2: "ptree (vm_mem vm_demo) idx (Suc (Suc 0)) 0x2000 \<and> tabs (vm_mem vm_demo) idx (Suc (Suc 0)) 0x2000 = {0x2000, 0x3000, 0x4000}"
    using step [of idx "0x2000" "0x3000" "Suc 0"] 1 demo_kid [of "0x2000" 0] by simp
  show "ptree (vm_mem vm_demo) user_idx (Suc (Suc (Suc 0))) 0x1000 \<and> tabs (vm_mem vm_demo) user_idx (Suc (Suc (Suc 0))) 0x1000 = {0x1000, 0x2000, 0x3000, 0x4000}"
    using step [of user_idx "0x1000" "0x2000" "Suc (Suc 0)"] 2 demo_kid [of "0x1000" 0] user_idx_sub by (simp add: user_idx_def)
qed

lemma demo_space: "space_ok vm_demo 0x1000" "tables vm_demo 0x1000 = {0x1000, 0x2000, 0x3000, 0x4000}"
    "user_addr w \<Longrightarrow> space vm_demo 0x1000 w = (if page_of w = 0 then Some 0x7007 else None)"
proof -
  show "space_ok vm_demo 0x1000" "tables vm_demo 0x1000 = {0x1000, 0x2000, 0x3000, 0x4000}"
    using demo_tree(4) by (simp_all add: space_ok_def tables_def numeral_3_eq_3)
  assume w: "user_addr w"
  have z: "page_of 0 = 0" "user_addr 0" "dir_of 0 = [0, 0, 0]" "PT_INDEX 0 = 0"
    by (simp_all add: page_of_def user_addr_def dir_of_def PML4_INDEX_def PDPT_INDEX_def PD_INDEX_def PT_INDEX_def)
  have "dir_of w = [0, 0, 0] \<and> PT_INDEX w = 0 \<longleftrightarrow> page_of w = 0"
    using same_page [OF w z(2)] page_indices [of w 0] z by metis
  then show "space vm_demo 0x1000 w = (if page_of w = 0 then Some 0x7007 else None)"
    by (auto simp: space_def look_def dir_of_def demo_kid demo_mem Let_def)
qed

lemma demo_empty: "space_ok vm_demo 0x8000" "tables vm_demo 0x8000 = {0x8000}" "user_addr w \<Longrightarrow> space vm_demo 0x8000 w = None"
proof -
  have k: "kid (vm_mem vm_demo) 0x8000 i = None" if "i < 512" for i using demo_kid [of "0x8000" i] that by simp
  have z: "\<not> present (vm_mem vm_demo (slot 0x8000 i))" if "i < 512" for i using demo_mem [of "0x8000" i] that by simp
  have kn: "kid (vm_mem vm_demo) 0x8000 i = None" and zn: "\<not> present (vm_mem vm_demo (slot 0x8000 i))" if "i \<in> user_idx" for i
    using k z that user_idx_sub by blast+
  have three: "(3 :: nat) = Suc 2" by simp
  show "space_ok vm_demo 0x8000" "tables vm_demo 0x8000 = {0x8000}"
    using kn zn unfolding space_ok_def tables_def three ptree.simps(2) tabs.simps(2) by simp_all
  show "space vm_demo 0x8000 w = None" by (simp add: space_def look_def dir_of_def k)
qed

lemma demo_ok: "pmm_ok pmm_demo" "heap_env env_demo"
  using demo_wf demo_bits(3) [of 0] env_demo_ok(1) by (simp_all add: pmm_ok_def heap_env_def pmm_demo_def env_demo_def KMAG_CPUS_def)

lemma demo_pmm_space: "pmm_space vm_demo 0x1000" "pmm_space vm_demo 0x8000"
proof -
  have "vm_pmm vm_demo = pmm_demo" by (simp add: vm_demo_def)
  then show "pmm_space vm_demo 0x1000" "pmm_space vm_demo 0x8000"
    using demo_space(1,2) demo_empty(1,2) demo_owned demo_ok(1) by (simp_all add: pmm_space_def)
qed

section \<open>Properties\<close>

lemma no_page_pmm: "vf.no_page e s = no_page_left e (vm_pmm s)"
  by (simp add: vf.no_page_def)

text \<open>
  C10. The page tables refine a partial map from pages to entries. On a machine without NUMA tables, for a user address in
  an address space whose tables are pages of its own and hold no huge entry: \<open>vmm_map_page\<close> returns; an unaligned
  address or frame is refused and nothing changes; on success the page of \<open>v\<close> has the new entry and its TLB entry is
  flushed; every other user address keeps its translation; of the pages in use, only the tables of the address space are
  written; tables it adds were not in use. An aligned request fails only when all pages of the machine are in use
  and the caches of the running CPUs are empty, and then every address keeps its translation.
\<close>

theorem vmm_map_page_updates:
  assumes "pmm_space s root" and "heap_env e" and "user_addr v"
  shows "\<exists>r s'. vmm_map_page pmm_frames e root v phys flags s = Some (r, s') \<and> pmm_space s' root \<and>
    (if v AND 0xFFF \<noteq> 0 \<or> phys AND 0xFFF \<noteq> 0 then r = ERR_INVAL \<and> s' = s
     else r = ERR_OK \<and> v \<in> set (vm_flushed s') \<or> r = ERR_NOMEM \<and> no_page_left e (vm_pmm s')) \<and>
    (\<forall>w. user_addr w \<longrightarrow> translate s' root w =
       (if r = ERR_OK \<and> page_of w = v then Some (pte_of phys flags) else translate s root w)) \<and>
    (tables s' root - tables s root) \<inter> owned (vm_pmm s) = {} \<and>
    (\<forall>a. page_of a \<in> owned (vm_pmm s) - tables s' root \<longrightarrow> vm_mem s' a = vm_mem s a)"
proof (cases "v AND 0xFFF \<noteq> 0 \<or> phys AND 0xFFF \<noteq> 0")
  case True
  then have "vmm_map_page pmm_frames e root v phys flags s = Some (ERR_INVAL, s)" by (auto simp: vmm_map_page_def)
  with True assms(1) show ?thesis by auto
next
  case False
  then have al: "v AND 0xFFF = 0" "phys AND 0xFFF = 0" by simp_all
  obtain r s' where m: "vmm_map_page pmm_frames e root v phys flags s = Some (r, s')" "pmm_space s' root"
      "\<forall>w. user_addr w \<longrightarrow> space s' root w = (if r = ERR_OK \<and> page_of w = v then Some (pte_of phys flags) else space s root w)"
      "r = ERR_OK \<and> v \<in> set (vm_flushed s') \<or> r = ERR_NOMEM \<and> no_page_left e (vm_pmm s')"
      "tables s' root - tables s root = owned (vm_pmm s') - owned (vm_pmm s)"
      "\<forall>a. page_of a \<in> owned (vm_pmm s) - tables s' root \<longrightarrow> vm_mem s' a = vm_mem s a"
    using vf.map_page_spec [OF assms(1) [folded vm_inv_pmm] assms(2,3) al, of flags] unfolding vm_inv_pmm no_page_pmm by blast
  have "translate s' root w = (if r = ERR_OK \<and> page_of w = v then Some (pte_of phys flags) else translate s root w)" if "user_addr w" for w
    using m(3) pmm_space_translate [OF m(2) that] pmm_space_translate [OF assms(1) that] that by simp
  moreover have "(tables s' root - tables s root) \<inter> owned (vm_pmm s) = {}" using m(5) by blast
  ultimately show ?thesis using m(1,2,4,6) al by auto
qed

lemma demo_map: "\<exists>s. vmm_map_page pmm_frames env_demo 0x1000 0x1000 0x9000 7 vm_demo = Some (ERR_OK, s)"
proof -
  have i: "indices 0x1000 = [0, 0, 0, 1]" by (simp add: indices_def PML4_INDEX_def PDPT_INDEX_def PD_INDEX_def PT_INDEX_def)
  have e: "entry vm_demo 0x1000 0 = 0x2007" "entry vm_demo 0x2000 0 = 0x3007" "entry vm_demo 0x3000 0 = 0x4007"
    by (simp_all add: entry_def demo_mem)
  show ?thesis by (simp add: vmm_map_page_def get_entry_def i e)
qed

theorem vmm_map_page_updates_witness:
  "\<exists>s. vmm_map_page pmm_frames env_demo 0x1000 0x1000 0x9000 7 vm_demo = Some (ERR_OK, s) \<and>
     translate s 0x1000 0x1234 = Some 0x9007 \<and> translate s 0x1000 0 = Some 0x7007"
proof -
  have u: "user_addr 0" "user_addr 0x1000" "user_addr 0x1234" by (simp_all add: user_addr_def)
  have "page_of 0x1234 = 0x1000" "page_of 0 = 0" "pte_of 0x9000 7 = 0x9007"
    by (simp_all add: page_of_def pte_of_def PAGE_NX_def PAGE_PRESENT_def)
  with vmm_map_page_updates [OF demo_pmm_space(1) demo_ok(2) u(2), of "0x9000" 7] demo_map u demo_space(3) [OF u(1)]
    pmm_space_translate [OF demo_pmm_space(1) u(1)]
  show ?thesis by auto
qed

text \<open>
  Mapping a page and unmapping it again restores the translation of every user address, and the TLBs are flushed.
\<close>

theorem vmm_unmap_undoes_map:
  assumes "pmm_space s root" and "heap_env e" and "user_addr v" and "translate s root v = None"
    and "vmm_map_page pmm_frames e root v phys flags s = Some (ERR_OK, s1)" and "vmm_unmap_page root v s1 = (r, s2)"
  shows "r = ERR_OK \<and> pmm_space s2 root \<and> (\<forall>w. user_addr w \<longrightarrow> translate s2 root w = translate s root w) \<and>
    hd (vm_flushed s2) = v \<and> (\<forall>a. page_of a \<in> owned (vm_pmm s) - tables s2 root \<longrightarrow> vm_mem s2 a = vm_mem s a)"
proof -
  have al: "v AND 0xFFF = 0" "phys AND 0xFFF = 0" using assms(5) by (auto simp: vmm_map_page_def split: if_splits)
  from vf.map_page_spec [OF assms(1) [folded vm_inv_pmm] assms(2,3) al, of flags] assms(5)
  have m: "pmm_space s1 root" "\<forall>w. user_addr w \<longrightarrow> space s1 root w = (if page_of w = v then Some (pte_of phys flags) else space s root w)"
      "\<forall>a. page_of a \<in> owned (vm_pmm s) - tables s1 root \<longrightarrow> vm_mem s1 a = vm_mem s a"
    unfolding vm_inv_pmm by auto
  from vf.unmap_page_spec [OF m(1) [folded vm_inv_pmm] assms(3,6)]
  have u: "pmm_space s2 root" "r = (if space s1 root v = None then ERR_NOENT else ERR_OK)"
      "\<forall>w. user_addr w \<longrightarrow> space s2 root w = (if page_of w = page_of v then None else space s1 root w)"
      "tables s2 root = tables s1 root" "\<forall>a. page_of a \<notin> tables s1 root \<longrightarrow> vm_mem s2 a = vm_mem s1 a"
    unfolding vm_inv_pmm by auto
  have v: "page_of v = v" using al(1) by (intro page_of_aligned) (simp add: page_aligned_def)
  have sv: "space s1 root v = Some (pte_of phys flags)" using m(2) assms(3) v by simp
  then have r: "r = ERR_OK" using u(2) by simp
  then have "hd (vm_flushed s2) = v" using assms(6) by (auto simp: vmm_unmap_page_def vmm_flush_tlb_page_def split: option.splits)
  moreover have "translate s2 root w = translate s root w" if w: "user_addr w" for w
  proof -
    have "space s root w = None" if "page_of w = v"
      using page_space [of w v s root] that v assms(4) pmm_space_translate [OF assms(1,3)] by simp
    then have "space s2 root w = space s root w" using u(3) m(2) w v by auto
    then show ?thesis using pmm_space_translate [OF u(1) w] pmm_space_translate [OF assms(1) w] by simp
  qed
  ultimately show ?thesis using r u m(3) by auto
qed

theorem vmm_unmap_undoes_map_witness:
  "\<exists>s1 s2. vmm_map_page pmm_frames env_demo 0x1000 0x1000 0x9000 7 vm_demo = Some (ERR_OK, s1) \<and>
     vmm_unmap_page 0x1000 0x1000 s1 = (ERR_OK, s2) \<and> translate s2 0x1000 0x1000 = None"
proof -
  obtain s1 where s1: "vmm_map_page pmm_frames env_demo 0x1000 0x1000 0x9000 7 vm_demo = Some (ERR_OK, s1)" using demo_map by blast
  obtain r s2 where s2: "vmm_unmap_page 0x1000 0x1000 s1 = (r, s2)" by (cases "vmm_unmap_page 0x1000 0x1000 s1")
  have u: "user_addr 0x1000" by (simp add: user_addr_def)
  have t: "translate vm_demo 0x1000 0x1000 = None"
    using pmm_space_translate [OF demo_pmm_space(1) u] demo_space(3) [OF u] by (simp add: page_of_def)
  from vmm_unmap_undoes_map [OF demo_pmm_space(1) demo_ok(2) u t s1 s2] s1 s2 t u show ?thesis by auto
qed

text \<open>
  C13. \<open>vmm_free_user_pages\<close> gives back exactly the pages and the tables of a private address space, the root excepted. On a
  machine without NUMA tables, for an address space in which no page is mapped twice or is a table, no entry is
  huge, no page is mapped with the no-execute bit (it would not be a page of the allocator), and the index 255 carries
  no table: the function returns, the allocator owns nothing of the user half any more, all entries of the user half
  are clear, and of the pages still in use only the root is written. A page that is given back may be written
  at once, with the link of a free list.
\<close>

theorem vmm_free_user_pages_returns_all:
  assumes "pmm_ok (vm_pmm s)" and "heap_env e" and "private_space s root"
    and "tables s root \<union> mapped s root \<subseteq> owned (vm_pmm s)"
    and "page_of (entry s root 255) = 0 \<or> \<not> present (entry s root 255)"
  shows "\<exists>s'. vmm_free_user_pages pmm_frames e root s = Some s' \<and> pmm_ok (vm_pmm s') \<and>
    owned (vm_pmm s') = owned (vm_pmm s) - (tables s root - {root} \<union> mapped s root) \<and>
    (\<forall>i < 256. \<not> present (entry s' root (of_nat i))) \<and>
    (\<forall>a. page_of a \<in> owned (vm_pmm s') - {root} \<longrightarrow> vm_mem s' a = vm_mem s a)"
  by (rule vf.free_user_pages_spec [OF assms(2,1,3-5)])

lemma demo_private: "private_space vm_demo 0x1000" "mapped vm_demo 0x1000 = {0x7000}"
proof -
  have u: "user_addr 0" "page_of 0 = 0" by (simp_all add: user_addr_def page_of_def)
  show m: "mapped vm_demo 0x1000 = {0x7000}" unfolding mapped_def using u by (auto simp: demo_space(3) cong: conj_cong split: if_splits)
  have z: "page_of w = 0 \<and> en = 0x7007" if "user_addr w" "space vm_demo 0x1000 w = Some en" for w en
    using demo_space(3) [OF that(1)] that(2) by (simp split: if_splits)
  show "private_space vm_demo 0x1000" unfolding private_space_def m demo_space(2)
  proof (intro conjI allI impI)
    show "space_ok vm_demo 0x1000" by (rule demo_space(1))
    show "{0x7000} \<inter> {0x1000, 0x2000, 0x3000, 0x4000 :: u64} = {}" by simp
    show "\<not> huge en" if "user_addr w \<and> space vm_demo 0x1000 w = Some en" for w en using z [of w en] that by simp
    show "page_of v = page_of w" if "user_addr v \<and> user_addr w \<and> space vm_demo 0x1000 v = Some en \<and> space vm_demo 0x1000 w = Some en' \<and>
      page_of en = page_of en'" for v w en en' using z [of v en] z [of w en'] that by simp
  qed
qed

theorem vmm_free_user_pages_returns_all_witness:
  "\<exists>s'. vmm_free_user_pages pmm_frames env_demo 0x1000 vm_demo = Some s' \<and> owned (vm_pmm s') = owned pmm_demo - {0x2000, 0x3000, 0x4000, 0x7000}"
proof -
  have p: "vm_pmm vm_demo = pmm_demo" by (simp add: vm_demo_def)
  have st: "page_of (entry vm_demo 0x1000 255) = 0 \<or> \<not> present (entry vm_demo 0x1000 255)" by (simp add: entry_def demo_mem)
  have ps: "tables vm_demo 0x1000 - {0x1000} \<union> mapped vm_demo 0x1000 = {0x2000, 0x3000, 0x4000, 0x7000}"
    unfolding demo_space(2) demo_private(2) by auto
  have "tables vm_demo 0x1000 \<union> mapped vm_demo 0x1000 \<subseteq> owned (vm_pmm vm_demo)"
    using demo_owned unfolding p demo_space(2) demo_private(2) by simp
  from vmm_free_user_pages_returns_all [of vm_demo env_demo "0x1000", unfolded ps, OF _ demo_ok(2) demo_private(1) this st] demo_ok(1)
  show ?thesis unfolding p by blast
qed

text \<open>
  C11. The copy that fork makes, on a machine without NUMA tables and without huge entries in the parent, into an empty
  address space: the function returns; the parent's translations, and the memory of all pages in use but the child's
  root, are unchanged; the child is a private address space: whatever it maps is a page that was not in use, mapped once, with
  the contents and the low twelve flag bits that the parent has at that address; and unless the machine has run
  out of pages (all are in use at the end and the caches of the running CPUs are empty), the result is \<open>ERR_OK\<close> and
  every page of the parent is mapped in the child.
\<close>

theorem vmm_duplicate_isolates:
  assumes "heap_env e" and "space_ok s src" and "tables s src \<union> mapped s src \<subseteq> owned (vm_pmm s) - {dst}"
    and "\<forall>w en. user_addr w \<and> translate s src w = Some en \<longrightarrow> \<not> huge en"
    and "pmm_space s dst" and "tables s dst = {dst}" and "\<forall>w. user_addr w \<longrightarrow> translate s dst w = None"
  shows "\<exists>r s'. vmm_duplicate_user_pages pmm_frames e dst src s = Some (r, s') \<and>
    pmm_space s' dst \<and> private_space s' dst \<and> mapped s' dst \<inter> owned (vm_pmm s) = {} \<and>
    (\<forall>w. user_addr w \<longrightarrow> translate s' src w = translate s src w) \<and>
    (\<forall>a. page_of a \<in> owned (vm_pmm s) - {dst} \<longrightarrow> vm_mem s' a = vm_mem s a) \<and>
    (\<forall>w en'. user_addr w \<and> translate s' dst w = Some en' \<longrightarrow> (\<exists>en. translate s src w = Some en \<and>
       en' = pte_of (page_of en') (en AND 0xFFF) \<and> page_copy s (page_of en) s' (page_of en'))) \<and>
    (r = ERR_OK \<and> (\<forall>w. user_addr w \<longrightarrow> translate s src w = None \<or> translate s' dst w \<noteq> None) \<or>
     (r = ERR_OK \<or> r = ERR_NOMEM) \<and> no_page_left e (vm_pmm s'))"
proof -
  note ts = translate_space [OF assms(2)]
  have "\<not> huge en" if "user_addr w" "space s src w = Some en" for w en using assms(4) ts [OF that(1)] that by metis
  then have pre: "vf.fork_pre s src dst" using assms(2,3) unfolding vf.fork_pre_def by auto
  have dn: "\<forall>w. user_addr w \<longrightarrow> space s dst w = None" using assms(5,7) pmm_space_translate by metis
  obtain r s' where r: "vmm_duplicate_user_pages pmm_frames e dst src s = Some (r, s')" "vf.copying s src dst s'"
      "r = ERR_OK \<or> r = ERR_NOMEM \<and> no_page_left e (vm_pmm s')" "r = ERR_OK \<longrightarrow> (\<forall>w. user_addr w \<longrightarrow> vf.handled e s src dst s' w)"
    using vf.duplicate_spec [OF pre assms(1) assms(5) [folded vm_inv_pmm] assms(6) dn] unfolding no_page_pmm by blast
  have c: "pmm_space s' dst" "private_space s' dst" "mapped s' dst \<inter> owned (vm_pmm s) = {}"
      "\<forall>a. page_of a \<in> owned (vm_pmm s) - {dst} \<longrightarrow> vm_mem s' a = vm_mem s a"
      "\<forall>w en'. user_addr w \<and> space s' dst w = Some en' \<longrightarrow> (\<exists>en. space s src w = Some en \<and>
        en' = pte_of (page_of en') (en AND 0xFFF) \<and> page_copy s (page_of en) s' (page_of en'))"
    using r(2) unfolding vf.copying_def vm_inv_pmm by blast+
  note td = pmm_space_translate [OF c(1)]
  have eq: "\<forall>a. page_of a \<in> tabs (vm_mem s) user_idx 3 src \<longrightarrow> vm_mem s' a = vm_mem s a"
    using c(4) assms(3) by (auto simp: tables_def)
  have t: "ptree (vm_mem s) user_idx 3 src" using assms(2) by (simp add: space_ok_def)
  have "space_ok s' src" using tree_cong [OF t eq user_idx_sub] by (simp add: space_ok_def)
  moreover have "space s' src w = space s src w" if "user_addr w" for w
    unfolding space_def by (rule look_cong [OF t eq user_idx_sub user_addr_dir [OF that]]) simp_all
  ultimately have "translate s' src w = translate s src w" if "user_addr w" for w using translate_space ts that by metis
  moreover have "translate s src w = None \<or> translate s' dst w \<noteq> None \<or> no_page_left e (vm_pmm s')" if "r = ERR_OK" "user_addr w" for w
    using r(4) that ts [OF that(2)] td [OF that(2)] unfolding vf.handled_def no_page_pmm by metis
  moreover have "\<exists>en. translate s src w = Some en \<and> en' = pte_of (page_of en') (en AND 0xFFF) \<and> page_copy s (page_of en) s' (page_of en')"
    if "user_addr w" "translate s' dst w = Some en'" for w en'
    using c(5) that td [OF that(1)] ts [OF that(1)] by metis
  ultimately show ?thesis using r(1,3) c(1-4) by blast
qed

theorem vmm_duplicate_isolates_witness:
  "\<exists>r s'. vmm_duplicate_user_pages pmm_frames env_demo 0x8000 0x1000 vm_demo = Some (r, s') \<and>
     translate s' 0x1000 0 = Some 0x7007 \<and> 0x7000 \<notin> mapped s' 0x8000 \<and> vm_mem s' 0x7000 = 42"
proof -
  have p: "vm_pmm vm_demo = pmm_demo" by (simp add: vm_demo_def)
  have u: "user_addr 0" "page_of 0 = 0" "page_of 0x7000 = 0x7000" by (simp_all add: user_addr_def page_of_def)
  have t: "user_addr w \<Longrightarrow> translate vm_demo 0x1000 w = (if page_of w = 0 then Some 0x7007 else None)" "user_addr w \<Longrightarrow> translate vm_demo 0x8000 w = None" for w
    using pmm_space_translate [OF demo_pmm_space(1), of w] pmm_space_translate [OF demo_pmm_space(2), of w] demo_space(3) demo_empty(3) by simp_all
  have "tables vm_demo 0x1000 \<union> mapped vm_demo 0x1000 \<subseteq> owned (vm_pmm vm_demo) - {0x8000}"
    using demo_owned by (simp add: p demo_space(2) demo_private(2))
  moreover have "\<forall>w en. user_addr w \<and> translate vm_demo 0x1000 w = Some en \<longrightarrow> \<not> huge en" using t(1) by (auto split: if_splits)
  ultimately obtain r s' where "vmm_duplicate_user_pages pmm_frames env_demo 0x8000 0x1000 vm_demo = Some (r, s')"
      "mapped s' 0x8000 \<inter> owned pmm_demo = {}" "\<forall>w. user_addr w \<longrightarrow> translate s' 0x1000 w = translate vm_demo 0x1000 w"
      "\<forall>a. page_of a \<in> owned pmm_demo - {0x8000} \<longrightarrow> vm_mem s' a = vm_mem vm_demo a"
    using vmm_duplicate_isolates [OF demo_ok(2) demo_space(1) _ _ demo_pmm_space(2) demo_empty(2)] t(2) unfolding p by blast
  moreover have "vm_mem vm_demo 0x7000 = 42" by (simp add: vm_demo_def)
  ultimately show ?thesis using t(1) [OF u(1)] u demo_owned by auto
qed

section \<open>Lemmas on entries with special bits\<close>

text \<open>
  The page address that the kernel takes from an entry keeps the no-execute bit: for such a page, \<open>vma_unmap_range\<close>
  and \<open>vmm_free_user_pages\<close> give \<open>pmm_free_page\<close> an address that is no page of the machine.
\<close>

lemma nx_page_address:
  assumes "page_aligned phys"
  shows "page_of (pte_of phys (flags OR PAGE_NX)) = phys OR PAGE_NX"
proof -
  have "(flags OR PAGE_NX) AND (0xFFF OR PAGE_NX) AND - 4096 = PAGE_NX" 
    by (simp add: PAGE_NX_def bit.conj_disj_distrib bit.conj_disj_distrib2 and.assoc)
  then show ?thesis
    unfolding pte_of_def page_of_def PAGE_PRESENT_def by (simp add: bit.conj_disj_distrib2 page_small [OF assms] and.assoc)
qed

end
