(* ===== verification/Vma_Props.thy ===== *)
theory Vma_Props
  imports Vma Vmm_Props
begin

text \<open>
  Memory areas: what the list operations do to the areas that cover an address, and what unmapping a range does to the
  translations of a private address space.
\<close>

section \<open>Areas of an address\<close>

definition backing :: "vma \<Rightarrow> u64 \<Rightarrow> u64" where
  "backing v a = va_offset v + (a - va_start v)"

definition attrs :: "vma \<Rightarrow> u32 \<times> u32 \<times> nat option" where
  "attrs v = (va_prot v, va_flags v, va_node v)"

text \<open>
  What remains of an area \<open>v\<close> at an address when \<open>[addr, fin)\<close> is taken out of it: the same attributes and the same file
  position, except that the start of the area is cut without moving the offset.
\<close>

definition kept :: "u64 \<Rightarrow> u64 \<Rightarrow> u64 \<Rightarrow> vma \<Rightarrow> vma \<Rightarrow> bool" where
  "kept addr fin a v v' \<longleftrightarrow> covers v' a \<and> attrs v' = attrs v \<and>
     backing v' a = (if addr \<le> va_start v \<and> va_start v < fin then backing v a - (fin - va_start v) else backing v a)"

lemma cut_find:
  assumes ne: "inter_start addr v < inter_end fin v" and k: "vo_kmalloc V (kmallocs s)"
    and c: "cut_vma V v (inter_start addr v) (inter_end fin v) s = (ws, s')" and af: "addr < fin"
  shows "addr \<le> a \<Longrightarrow> a < fin \<Longrightarrow> find (\<lambda>w. covers w a) ws = None"
    and "\<not> (addr \<le> a \<and> a < fin) \<Longrightarrow> \<not> covers v a \<Longrightarrow> find (\<lambda>w. covers w a) ws = None"
    and "\<not> (addr \<le> a \<and> a < fin) \<Longrightarrow> covers v a \<Longrightarrow> \<exists>v'. find (\<lambda>w. covers w a) ws = Some v' \<and> kept addr fin a v v'"
  using assms
  by (auto simp: cut_vma_def cut_split_def new_node_def inter_start_def inter_end_def covers_def kept_def attrs_def backing_def
      split_tail_def not_less not_le split: if_splits prod.splits bool.splits)

lemma find_append: "find P (xs @ ys) = (case find P xs of None \<Rightarrow> find P ys | Some x \<Rightarrow> Some x)"
  by (induction xs) auto

definition cut_at :: "u64 \<Rightarrow> u64 \<Rightarrow> u64 \<Rightarrow> vma option \<Rightarrow> vma option \<Rightarrow> bool" where
  "cut_at addr fin a x x' \<longleftrightarrow> (if addr \<le> a \<and> a < fin then x' = None
     else case x of None \<Rightarrow> x' = None | Some v \<Rightarrow> \<exists>v'. x' = Some v' \<and> kept addr fin a v v')"

lemma cut_at_keep:
  assumes "\<not> inter_start addr v < inter_end fin v" and "addr < fin" and "covers v a"
  shows "\<not> (addr \<le> a \<and> a < fin)" "kept addr fin a v v"
  using assms by (auto simp: inter_start_def inter_end_def covers_def kept_def split: if_splits)

lemma cut_at_append:
  assumes ne: "inter_start addr v < inter_end fin v" and k: "vo_kmalloc V (kmallocs s)"
    and c: "cut_vma V v (inter_start addr v) (inter_end fin v) s = (us, s')" and af: "addr < fin"
    and rest: "cut_at addr fin a (find (\<lambda>v. covers v a) vs) (find (\<lambda>v. covers v a) ws)"
  shows "cut_at addr fin a (find (\<lambda>v. covers v a) (v # vs)) (find (\<lambda>v. covers v a) (us @ ws))"
proof (cases "addr \<le> a \<and> a < fin")
  case True
  with cut_find(1) [OF ne k c af, of a] rest show ?thesis by (simp add: cut_at_def find_append)
next
  case False
  with cut_find(2,3) [OF ne k c af, of a] rest show ?thesis by (cases "covers v a") (auto simp: cut_at_def find_append)
qed

lemma remove_find:
  assumes k: "\<forall>n. vo_kmalloc V n" and af: "addr < fin"
  shows "remove_loop V e pid addr fin vs s = Some (vs', s') \<Longrightarrow>
    cut_at addr fin a (find (\<lambda>v. covers v a) vs) (find (\<lambda>v. covers v a) vs')"
proof (induction vs arbitrary: s vs' s')
  case Nil
  then show ?case by (simp add: cut_at_def)
next
  case (Cons v vs)
  show ?case
  proof (cases "inter_start addr v < inter_end fin v")
    case False
    with Cons.prems obtain ws where ws: "remove_loop V e pid addr fin vs s = Some (ws, s')" "vs' = v # ws"
      by (auto simp: Let_def)
    with Cons.IH [OF ws(1)] cut_at_keep [OF False af, of a] show ?thesis by (auto simp: cut_at_def)
  next
    case True
    with Cons.prems obtain s1 us s2 ws where r: "cut_vma V v (inter_start addr v) (inter_end fin v) s1 = (us, s2)"
        "remove_loop V e pid addr fin vs s2 = Some (ws, s')" "vs' = us @ ws"
      by (auto simp: Let_def split: option.splits prod.splits)
    from cut_at_append [OF True _ r(1) af Cons.IH [OF r(2)]] k show ?thesis unfolding r(3) by blast
  qed
qed

lemma replace_find:
  assumes k: "\<forall>n. vo_kmalloc V n" and af: "addr < fin"
  shows "replace_loop V addr fin vs rs s = (vs', rs', s') \<Longrightarrow>
    cut_at addr fin a (find (\<lambda>v. covers v a) vs) (find (\<lambda>v. covers v a) vs')"
proof (induction vs arbitrary: rs s vs' rs' s')
  case Nil
  then show ?case by (simp add: cut_at_def)
next
  case (Cons v vs)
  let ?lo = "inter_start addr v" and ?hi = "inter_end fin v"
  show ?case
  proof (cases "?lo < ?hi")
    case False
    with Cons.prems obtain ws where ws: "replace_loop V addr fin vs rs s = (ws, rs', s')" "vs' = v # ws"
      by (auto simp: Let_def apfst_def map_prod_def split: prod.splits)
    with Cons.IH [OF ws(1)] cut_at_keep [OF False af, of a] show ?thesis by (auto simp: cut_at_def)
  next
    case True
    obtain us s2 where c0: "cut_vma V v ?lo ?hi s = (us, s2)" by (cases "cut_vma V v ?lo ?hi s")
    obtain ws rs0 t where r: "replace_loop V addr fin vs rs0 t = (ws, rs', s')" "vs' = us @ ws"
      using Cons.prems True c0 by (auto simp: Let_def cut_vma_def apfst_def map_prod_def split: prod.splits if_splits)
    from cut_at_append [OF True _ c0 af Cons.IH [OF r(1)]] k show ?thesis unfolding r(2) by blast
  qed
qed

section \<open>Unmapping pages of a private address space\<close>

lemma unat_page_of: "unat (page_of w) = 4096 * (unat w div 4096)"
proof -
  have "unat w div 4096 * 4096 \<le> unat w" by simp
  with unat_u64_less [of w] have "unat w div 4096 * 4096 < 2 ^ 64" by linarith
  then show ?thesis by (simp add: page_of_div page_index_def unat_word_ariths unat_div)
qed

lemma aligned_mult: "page_aligned p \<Longrightarrow> unat p = 4096 * (unat p div 4096)"
  using unat_page_of [of p] page_of_aligned [of p] by simp

lemma page_range_iff:
  assumes "page_aligned lo" and "page_aligned hi"
  shows "p \<in> set (page_range lo hi) \<longleftrightarrow> page_aligned p \<and> lo \<le> p \<and> p < hi"
proof (cases "lo < hi")
  case False
  then show ?thesis by (auto simp: page_range_def)
next
  case True
  define a b where "a = unat lo div 4096" and "b = unat hi div 4096"
  have u: "unat lo = 4096 * a" "unat hi = 4096 * b" using assms aligned_mult unfolding a_def b_def by auto
  have ab: "a < b" using True u by (simp add: word_less_nat_alt)
  have "unat (hi - lo) = 4096 * (b - a)" using True u by (simp add: unat_sub word_less_nat_alt word_le_nat_alt diff_mult_distrib2)
  then have n: "(unat (hi - lo) + 4095) div 4096 = b - a" by simp
  have w: "unat (lo + 4096 * of_nat k) = 4096 * (a + k)" if "k < b - a" for k
  proof -
    have "4096 * (a + k) < 4096 * b" using that by simp
    then have l: "4096 * (a + k) < 2 ^ 64" using u(2) unat_u64_less [of hi] by linarith
    then have "unat (4096 * of_nat k :: u64) = 4096 * k" by (simp add: unat_word_ariths unsigned_of_nat take_bit_nat_eq_self)
    then show ?thesis using l u(1) by (simp add: unat_word_ariths)
  qed
  show ?thesis
  proof
    assume "p \<in> set (page_range lo hi)"
    then obtain k where k: "k < b - a" "p = lo + 4096 * of_nat k" unfolding page_range_def n using True by auto
    with w [OF k(1)] u show "page_aligned p \<and> lo \<le> p \<and> p < hi"
      by (auto simp: word_le_nat_alt word_less_nat_alt page_aligned_dvd)
  next
    assume p: "page_aligned p \<and> lo \<le> p \<and> p < hi"
    then have up: "unat p = 4096 * (unat p div 4096)" using aligned_mult by blast
    define k where "k = unat p div 4096 - a"
    have k: "k < b - a" "unat p = 4096 * (a + k)" using p up u ab unfolding k_def by (auto simp: word_le_nat_alt word_less_nat_alt)
    then have "p = lo + 4096 * of_nat k" using w [OF k(1)] by (simp add: word_unat_eq_iff)
    with k(1) True show "p \<in> set (page_range lo hi)" unfolding page_range_def n by auto
  qed
qed

lemma aligned_le: "page_aligned lo \<Longrightarrow> lo \<le> page_of w \<longleftrightarrow> lo \<le> w"
  and aligned_less: "page_aligned lo \<Longrightarrow> page_of w < lo \<longleftrightarrow> w < lo"
proof -
  have "4096 * k \<le> 4096 * (n div 4096) \<longleftrightarrow> 4096 * k \<le> n" for k n :: nat
    by (simp add: less_eq_div_iff_mult_less_eq mult.commute)
  from this [of "unat lo div 4096" "unat w"]
  show "page_aligned lo \<Longrightarrow> lo \<le> page_of w \<longleftrightarrow> lo \<le> w"
    using aligned_mult [of lo] unat_page_of [of w] by (simp add: word_le_nat_alt)
  then show "page_aligned lo \<Longrightarrow> page_of w < lo \<longleftrightarrow> w < lo" by (metis not_less)
qed

lemma page_range_pages:
  assumes "page_aligned lo" and "page_aligned hi"
  shows "page_of ` set (page_range lo hi) = page_of ` {w. lo \<le> w \<and> w < hi}"
    "page_of w \<in> page_of ` set (page_range lo hi) \<longleftrightarrow> lo \<le> w \<and> w < hi"
proof -
  show *: "page_of w \<in> page_of ` set (page_range lo hi) \<longleftrightarrow> lo \<le> w \<and> w < hi" for w
  proof -
    have "page_of w \<in> page_of ` set (page_range lo hi) \<longleftrightarrow> page_of w \<in> set (page_range lo hi)"
      using page_of_aligned page_range_iff [OF assms] by (auto simp: image_iff)
    also have "\<dots> \<longleftrightarrow> lo \<le> w \<and> w < hi" using page_range_iff [OF assms] aligned_le [OF assms(1)] aligned_less [OF assms(2)] by simp
    finally show ?thesis .
  qed
  show "page_of ` set (page_range lo hi) = page_of ` {w. lo \<le> w \<and> w < hi}"
    using * by (auto simp: image_iff)
qed

lemma walk_cases:
  assumes "space_ok u root" and "user_addr p"
  shows "vmm_walk_pagetable u root p = None \<Longrightarrow> space u root p = None"
    "vmm_walk_pagetable u root p = Some pte \<Longrightarrow> space u root p = Some (vm_mem u pte)"
    "vmm_walk_pagetable u root p = Some pte \<Longrightarrow> present (vm_mem u pte)"
proof -
  have n: "space u root p \<noteq> None \<longrightarrow> (\<exists>pt. path (vm_mem u) root (dir_of p) = Some pt \<and> present (vm_mem u (slot pt (PT_INDEX p))) \<and>
      space u root p = Some (vm_mem u (slot pt (PT_INDEX p))))"
    by (auto simp: space_def look_def bind_eq_Some_conv Let_def split: if_splits)
  note w = walk_space [OF assms]
  show "space u root p = None" if "vmm_walk_pagetable u root p = None" using w n that by (auto split: if_splits)
  show "space u root p = Some (vm_mem u pte)" "present (vm_mem u pte)" if "vmm_walk_pagetable u root p = Some pte"
    using w n that by (auto split: if_splits)
qed

text \<open>Areas with page-aligned bounds in user space.\<close>

definition area_ok :: "vma \<Rightarrow> bool" where
  "area_ok v \<longleftrightarrow> page_aligned (va_start v) \<and> page_aligned (va_end v) \<and> va_end v \<le> push_bit 39 255"

context frame_source
begin

definition area_inv :: "'s vm \<Rightarrow> u64 \<Rightarrow> bool" where
  "area_inv u root \<longleftrightarrow> vm_inv u root \<and> private_space u root \<and> mapped u root \<subseteq> own (vm_pmm u)"

definition unmapped :: "'s vm \<Rightarrow> u64 \<Rightarrow> u64 set \<Rightarrow> 's vm \<Rightarrow> bool" where
  "unmapped u root X u' \<longleftrightarrow> area_inv u' root \<and> tables u' root = tables u root \<and> own (vm_pmm u') \<subseteq> own (vm_pmm u) \<and>
     (\<forall>w. user_addr w \<longrightarrow> space u' root w = (if page_of w \<in> X then None else space u root w))"

lemma unmapped_refl: "area_inv u root \<Longrightarrow> \<forall>w. user_addr w \<and> page_of w \<in> X \<longrightarrow> space u root w = None \<Longrightarrow> unmapped u root X u"
  by (auto simp: unmapped_def)

lemma unmapped_trans: "unmapped u root X u1 \<Longrightarrow> unmapped u1 root Y u2 \<Longrightarrow> unmapped u root (X \<union> Y) u2"
  unfolding unmapped_def by auto

lemma set_pmm_space:
  assumes "vm_inv u root" and "ok q" and "tables u root \<subseteq> own q"
  shows "vm_inv (set_pmm F q u) root" "tables (set_pmm F q u) root = tables u root"
    "user_addr w \<Longrightarrow> space (set_pmm F q u) root w = space u root w"
proof -
  have t: "ptree (vm_mem u) user_idx 3 root" using assms(1) by (simp add: vm_inv_def space_ok_def)
  have a: "\<forall>a. page_of a \<in> tabs (vm_mem u) user_idx 3 root \<longrightarrow> vm_mem (set_pmm F q u) a = vm_mem u a"
    using set_pmm_mem [OF assms(2)] assms(3) unfolding tables_def by blast
  note tc = tree_cong [OF t a user_idx_sub]
  show "tables (set_pmm F q u) root = tables u root" using tc by (simp add: tables_def)
  with tc assms show "vm_inv (set_pmm F q u) root" by (simp add: vm_inv_def space_ok_def)
  show "space (set_pmm F q u) root w = space u root w" if "user_addr w"
    unfolding space_def by (rule look_cong [OF t a user_idx_sub user_addr_dir [OF that]]) simp_all
qed

lemma unmap_private:
  assumes i: "area_inv u root" and v: "user_addr v" "space u root v = Some en"
    and t: "tables u' root = tables u root" "own (vm_pmm u') = own (vm_pmm u) - {page_of en}" "vm_inv u' root"
    and sp: "\<And>w. user_addr w \<Longrightarrow> space u' root w = (if page_of w = page_of v then None else space u root w)"
  shows "unmapped u root {page_of v} u'"
proof -
  have inv: "vm_inv u root" "private_space u root" "mapped u root \<subseteq> own (vm_pmm u)" using i by (simp_all add: area_inv_def)
  note p = private_spaceD [OF inv(2)]
  have mp: "mapped u' root \<subseteq> mapped u root - {page_of en}"
  proof
    fix x assume "x \<in> mapped u' root"
    then obtain w e' where w: "user_addr w" "space u root w = Some e'" "page_of w \<noteq> page_of v" "x = page_of e'"
      unfolding mapped_def using sp by (auto split: if_splits)
    then have "page_of e' \<noteq> page_of en" using p(4) [OF w(1) v(1) w(2) v(2)] by blast
    with w show "x \<in> mapped u root - {page_of en}" unfolding mapped_def by auto
  qed
  have "private_space u' root" unfolding private_space_def
  proof (intro conjI allI impI)
    show "space_ok u' root" using t(3) by (simp add: vm_inv_def)
    show "mapped u' root \<inter> tables u' root = {}" using mp p(2) t(1) by blast
    show "\<not> huge x" if "user_addr w \<and> space u' root w = Some x" for w x
      using that sp [of w] p(3) [of w x] by (auto split: if_splits)
    show "page_of y = page_of w" if "user_addr y \<and> user_addr w \<and> space u' root y = Some x \<and> space u' root w = Some x' \<and> page_of x = page_of x'"
      for y w x x' using that sp [of y] sp [of w] p(4) [of y w x x'] by (auto split: if_splits)
  qed
  with t mp inv(3) have "area_inv u' root" unfolding area_inv_def by blast
  then show ?thesis using t sp unfolding unmapped_def by simp
qed

text \<open>The page is freed before its entry is cleared (\<open>vma_unmap_range\<close>), or after.\<close>

lemma unmap_freed:
  assumes i: "area_inv u root" and v: "user_addr v" "space u root v = Some en"
    and q: "ok q" "own q = own (vm_pmm u) - {page_of en}"
  shows "unmapped u root {page_of v} (snd (vmm_unmap_page root v (set_pmm F q u)))"
    "unmapped u root {page_of v} (set_pmm F q (snd (vmm_unmap_page root v u)))"
proof -
  have inv: "vm_inv u root" "mapped u root \<inter> tables u root = {}" "tables u root \<subseteq> own (vm_pmm u)"
    using i private_spaceD(2) by (auto simp: area_inv_def vm_inv_def)
  have "page_of en \<in> mapped u root" using v by (auto simp: mapped_def)
  then have tq: "tables u root \<subseteq> own q" using inv q(2) by blast
  note k = set_pmm_space [OF inv(1) q(1) tq]
  obtain r u1 where u1: "vmm_unmap_page root v (set_pmm F q u) = (r, u1)" by fastforce
  note s1 = unmap_page_spec [OF k(1) v(1) u1]
  show "unmapped u root {page_of v} (snd (vmm_unmap_page root v (set_pmm F q u)))"
    unfolding u1 snd_conv by (rule unmap_private [OF i v]) (use s1 k q in auto)
  obtain r' u2 where u2: "vmm_unmap_page root v u = (r', u2)" by fastforce
  note s2 = unmap_page_spec [OF inv(1) v(1) u2]
  have "vm_inv u2 root" "tables u2 root \<subseteq> own q" using s2 tq by auto
  note k2 = set_pmm_space [OF this(1) q(1) this(2)]
  show "unmapped u root {page_of v} (set_pmm F q (snd (vmm_unmap_page root v u)))"
    unfolding u2 snd_conv by (rule unmap_private [OF i v]) (use s2 k2 q in auto)
qed

lemma area_space: "area_inv u root \<Longrightarrow> space_ok u root"
  by (simp add: area_inv_def vm_inv_def)

lemma free_area:
  assumes "area_inv u root" and "envok e" and "user_addr p" and "space u root p = Some en"
  shows "\<exists>q. fo_free_page F e (page_of en) (vm_pmm u) = Some q \<and> ok q \<and> own q = own (vm_pmm u) - {page_of en}"
proof -
  have "page_of en \<in> own (vm_pmm u)" using assms by (auto simp: area_inv_def mapped_def)
  with free_page [OF assms(2)] assms(1) show ?thesis by (auto simp: area_inv_def vm_inv_def)
qed

text \<open>The areas, counts and page-table roots, which the unmapping of pages leaves alone.\<close>

definition frame_eq :: "('s, 'f) mm \<Rightarrow> ('s, 'f) mm \<Rightarrow> bool" where
  "frame_eq s s' \<longleftrightarrow> cr3 s' = cr3 s \<and> vmas s' = vmas s \<and> refcount s' = refcount s \<and> kmallocs s' = kmallocs s"

lemma unmap_one_spec:
  assumes i: "area_inv (mm_vm s) root" and e: "envok e" and p: "user_addr p" and V: "vo_frames V = F"
  shows "\<exists>s'. unmap_one V e root p s = Some s' \<and> unmapped (mm_vm s) root {page_of p} (mm_vm s') \<and> frame_eq s s'"
proof (cases "vmm_walk_pagetable (mm_vm s) root p")
  case None
  with walk_cases(1) [OF area_space [OF i] p] have "space (mm_vm s) root w = None" if "page_of w = page_of p" for w
    using page_space [OF that, of "mm_vm s" root] by simp
  with None i show ?thesis by (auto simp: unmap_one_def frame_eq_def intro!: unmapped_refl)
next
  case (Some pte)
  let ?u = "mm_vm s" and ?en = "vm_mem (mm_vm s) pte"
  note w = walk_cases(2,3) [OF area_space [OF i] p Some]
  obtain q where q: "fo_free_page F e (page_of ?en) (vm_pmm ?u) = Some q" "ok q" "own q = own (vm_pmm ?u) - {page_of ?en}"
    using free_area [OF i e p w(1)] by blast
  from unmap_freed(1) [OF i p w(1) q(2,3)] Some w(2) q(1) V show ?thesis
    by (auto simp: unmap_one_def Let_def set_vm_def frame_eq_def)
qed

lemma unmap_one_shared_spec:
  assumes i: "area_inv (mm_vm s) root" and e: "envok e" and p: "user_addr p" and V: "vo_frames V = F" "\<forall>n. vo_get_page V n = None"
  shows "\<exists>s'. unmap_one_shared V e root lo node off p s = Some s' \<and> unmapped (mm_vm s) root {page_of p} (mm_vm s') \<and> frame_eq s s'"
proof (cases "vmm_walk_pagetable (mm_vm s) root p")
  case None
  with walk_cases(1) [OF area_space [OF i] p] have "space (mm_vm s) root w = None" if "page_of w = page_of p" for w
    using page_space [OF that, of "mm_vm s" root] by simp
  with None i show ?thesis by (auto simp: unmap_one_shared_def frame_eq_def intro!: unmapped_refl)
next
  case (Some pte)
  let ?u = "mm_vm s" and ?en = "vm_mem (mm_vm s) pte"
  note w = walk_cases(2,3) [OF area_space [OF i] p Some]
  obtain q where q: "fo_free_page F e (page_of ?en) (vm_pmm ?u) = Some q" "ok q" "own q = own (vm_pmm ?u) - {page_of ?en}"
    using free_area [OF i e p w(1)] by blast
  have "vm_pmm (snd (vmm_unmap_page root p ?u)) = vm_pmm ?u"
    by (simp add: vmm_unmap_page_def put_def vmm_flush_tlb_page_def split: option.splits)
  with unmap_freed(2) [OF i p w(1) q(2,3)] Some w(2) q(1) V show ?thesis
    by (cases node) (auto simp: unmap_one_shared_def Let_def set_vm_def frame_eq_def)
qed

lemma unmap_pages_spec:
  assumes e: "envok e" and V: "vo_frames V = F"
  shows "area_inv (mm_vm s) root \<Longrightarrow> \<forall>p\<in>set ps. user_addr p \<Longrightarrow>
    \<exists>s'. vma_unmap_pages V e root ps s = Some s' \<and> unmapped (mm_vm s) root (page_of ` set ps) (mm_vm s') \<and> frame_eq s s'"
proof (induction ps arbitrary: s)
  case Nil
  then show ?case by (simp add: unmapped_refl frame_eq_def)
next
  case (Cons p ps)
  then obtain s1 where 1: "unmap_one V e root p s = Some s1" "unmapped (mm_vm s) root {page_of p} (mm_vm s1)" "frame_eq s s1"
    using unmap_one_spec [OF _ e _ V] by (metis list.set_intros(1))
  from Cons.IH [of s1] 1(2) Cons.prems(2) obtain s2 where 2: "vma_unmap_pages V e root ps s1 = Some s2"
      "unmapped (mm_vm s1) root (page_of ` set ps) (mm_vm s2)" "frame_eq s1 s2" by (auto simp: unmapped_def)
  from 1(1,3) 2(1,3) unmapped_trans [OF 1(2) 2(2)] show ?case by (simp add: frame_eq_def)
qed

lemma unmap_pages_shared_spec:
  assumes e: "envok e" and V: "vo_frames V = F" "\<forall>n. vo_get_page V n = None"
  shows "area_inv (mm_vm s) root \<Longrightarrow> \<forall>p\<in>set ps. user_addr p \<Longrightarrow>
    \<exists>s'. vma_unmap_pages_shared V e root lo node off ps s = Some s' \<and> unmapped (mm_vm s) root (page_of ` set ps) (mm_vm s') \<and> frame_eq s s'"
proof (induction ps arbitrary: s)
  case Nil
  then show ?case by (simp add: unmapped_refl frame_eq_def)
next
  case (Cons p ps)
  then obtain s1 where 1: "unmap_one_shared V e root lo node off p s = Some s1" "unmapped (mm_vm s) root {page_of p} (mm_vm s1)" "frame_eq s s1"
    using unmap_one_shared_spec [OF _ e _ V] by (metis list.set_intros(1))
  from Cons.IH [of s1] 1(2) Cons.prems(2) obtain s2 where 2: "vma_unmap_pages_shared V e root lo node off ps s1 = Some s2"
      "unmapped (mm_vm s1) root (page_of ` set ps) (mm_vm s2)" "frame_eq s1 s2" by (auto simp: unmapped_def)
  from 1(1,3) 2(1,3) unmapped_trans [OF 1(2) 2(2)] show ?case by (simp add: frame_eq_def)
qed

lemma unmap_inter_spec:
  assumes i: "area_inv (mm_vm s) (cr3 s pid)" and e: "envok e" and V: "vo_frames V = F" "\<forall>n. vo_get_page V n = None"
    and al: "page_aligned lo" "page_aligned hi" "hi \<le> push_bit 39 255"
  shows "\<exists>s'. unmap_inter V e pid v lo hi s = Some s' \<and>
    unmapped (mm_vm s) (cr3 s pid) (page_of ` {w. lo \<le> w \<and> w < hi}) (mm_vm s') \<and> frame_eq s s'"
proof -
  have "\<forall>p\<in>set (page_range lo hi). user_addr p"
    using page_range_iff [OF al(1,2)] al(3) unfolding user_addr_def by (meson less_le_trans)
  from unmap_pages_spec [OF e V(1) i this] unmap_pages_shared_spec [OF e V i this]
  show ?thesis unfolding page_range_pages [OF al(1,2)]
    by (simp add: unmap_inter_def vma_unmap_range_def vma_unmap_range_shared_def)
qed

lemma cut_vma_frame:
  assumes "cut_vma V v lo hi s = (ws, s')"
  shows "mm_vm s' = mm_vm s" "cr3 s' = cr3 s" "vmas s' = vmas s"
  using assms by (auto simp: cut_vma_def cut_split_def new_node_def put_ref_def get_ref_def split: if_splits bool.splits option.splits)

lemma remove_loop_spec:
  assumes e: "envok e" and V: "vo_frames V = F" "\<forall>n. vo_get_page V n = None" and al: "page_aligned addr" "page_aligned fin"
  shows "area_inv (mm_vm s) (cr3 s pid) \<Longrightarrow> \<forall>v\<in>set vs. area_ok v \<Longrightarrow>
    \<exists>ws s'. remove_loop V e pid addr fin vs s = Some (ws, s') \<and> cr3 s' = cr3 s \<and> vmas s' = vmas s \<and>
      unmapped (mm_vm s) (cr3 s pid) (page_of ` {w. addr \<le> w \<and> w < fin \<and> (\<exists>v\<in>set vs. covers v w)}) (mm_vm s')"
proof (induction vs arbitrary: s)
  case Nil
  then show ?case by (simp add: unmapped_refl)
next
  case (Cons v vs)
  let ?lo = "inter_start addr v" and ?hi = "inter_end fin v"
  have ok: "page_aligned (va_start v)" "page_aligned (va_end v)" "va_end v \<le> push_bit 39 255" using Cons.prems(2) by (simp_all add: area_ok_def)
  have in_v: "{w. ?lo \<le> w \<and> w < ?hi} = {w. addr \<le> w \<and> w < fin \<and> covers v w}"
    by (auto simp: inter_start_def inter_end_def covers_def)
  have U: "{w. addr \<le> w \<and> w < fin \<and> (\<exists>v\<in>set (v # vs). covers v w)} =
      {w. ?lo \<le> w \<and> w < ?hi} \<union> {w. addr \<le> w \<and> w < fin \<and> (\<exists>v\<in>set vs. covers v w)}" unfolding in_v by auto
  show ?case
  proof (cases "?lo < ?hi")
    case False
    then have emp: "{w. ?lo \<le> w \<and> w < ?hi} = {}" by auto
    from Cons.IH [OF Cons.prems(1)] Cons.prems(2) False show ?thesis unfolding U emp Un_empty_left by (auto simp: Let_def)
  next
    case True
    have "page_aligned ?lo" "page_aligned ?hi" "?hi \<le> push_bit 39 255"
      using al ok by (auto simp: inter_start_def inter_end_def)
    from unmap_inter_spec [OF Cons.prems(1) e V this, of v] obtain s1 where
      1: "unmap_inter V e pid v ?lo ?hi s = Some s1" "unmapped (mm_vm s) (cr3 s pid) (page_of ` {w. ?lo \<le> w \<and> w < ?hi}) (mm_vm s1)" "frame_eq s s1" by blast
    obtain us s2 where 2: "cut_vma V v ?lo ?hi s1 = (us, s2)" by (cases "cut_vma V v ?lo ?hi s1")
    note f = cut_vma_frame [OF 2]
    have c: "cr3 s1 = cr3 s" "vmas s1 = vmas s" using 1(3) by (simp_all add: frame_eq_def)
    have "area_inv (mm_vm s2) (cr3 s2 pid)" using 1(2) c f by (simp add: unmapped_def)
    from Cons.IH [OF this] Cons.prems(2) obtain ws s3 where
      3: "remove_loop V e pid addr fin vs s2 = Some (ws, s3)" "cr3 s3 = cr3 s2" "vmas s3 = vmas s2"
        "unmapped (mm_vm s1) (cr3 s pid) (page_of ` {w. addr \<le> w \<and> w < fin \<and> (\<exists>v\<in>set vs. covers v w)}) (mm_vm s3)"
      unfolding f c by auto
    from unmapped_trans [OF 1(2) 3(4)] 1(1) 2 3(1-3) f c True show ?thesis unfolding U image_Un by (simp add: Let_def)
  qed
qed

end

end
