(* ===== verification/Vma_Pmm.thy ===== *)
theory Vma_Pmm
  imports Vma_Props
begin

text \<open>
  Memory areas over the page tables and the page allocator of the kernel: the properties of \<^verbatim>\<open>vma.c\<close>.
\<close>

section \<open>Taking a range out of the address space\<close>

text \<open>A process whose pages are its own: the areas are page aligned and in user space, the tables are a private tree.\<close>

definition process_ok :: "(pmm, 'f) mm \<Rightarrow> nat \<Rightarrow> bool" where
  "process_ok s pid \<longleftrightarrow> pmm_space (mm_vm s) (cr3 s pid) \<and> private_space (mm_vm s) (cr3 s pid) \<and>
     mapped (mm_vm s) (cr3 s pid) \<subseteq> owned (vm_pmm (mm_vm s)) \<and> (\<forall>v\<in>set (vmas s pid). area_ok v)"

lemma area_inv_pmm: "vf.area_inv u root \<longleftrightarrow> pmm_space u root \<and> private_space u root \<and> mapped u root \<subseteq> owned (vm_pmm u)"
  by (simp add: vf.area_inv_def vm_inv_pmm)

lemma page_len_aligned: "page_aligned (page_len len)"
  using page_aligned_page_of [of "len + 4096 - 1"] by (simp add: page_len_def page_of_def)

lemma aligned_sum: "page_aligned a \<Longrightarrow> page_aligned b \<Longrightarrow> page_aligned (a + b)"
proof -
  assume a: "page_aligned a" "page_aligned b"
  have "(4096 :: nat) dvd 2 ^ 64" by (simp add: dvd_power_le)
  with a show ?thesis unfolding page_aligned_dvd by (simp add: unat_word_ariths dvd_mod)
qed


definition vma_demo :: "(pmm_env, pmm, unit) vma_ops" where
  "vma_demo = \<lparr>vo_frames = pmm_frames, vo_kmalloc = \<lambda>_. True, vo_read = \<lambda>_ _ _ c. c, vo_write = \<lambda>_ _ _ f. f, vo_get_page = \<lambda>_. None\<rparr>"

definition mm_demo :: "(pmm, unit) mm" where
  "mm_demo = \<lparr>mm_vm = vm_demo, cr3 = (\<lambda>_. 0x1000),
     vmas = (\<lambda>_. [])(1 := [\<lparr>va_start = 0, va_end = 0x3000, va_prot = 3, va_flags = 2, va_node = None, va_offset = 0\<rparr>]),
     files = (), refcount = (\<lambda>_. 1), kmallocs = 0\<rparr>"

lemma demo_process: "process_ok mm_demo 1"
proof -
  have "vm_pmm vm_demo = pmm_demo" by (simp add: vm_demo_def)
  then show ?thesis using demo_pmm_space(1) demo_private demo_owned
    by (simp add: process_ok_def mm_demo_def area_ok_def page_aligned_def)
qed


section \<open>Reference counts of file nodes\<close>

definition cnt :: "nat \<Rightarrow> vma list \<Rightarrow> nat" where
  "cnt n vs = length (filter (\<lambda>v. va_node v = Some n) vs)"

lemma cnt_simps [simp]: "cnt n [] = 0" "cnt n (v # vs) = (if va_node v = Some n then 1 else 0) + cnt n vs" "cnt n (vs @ ws) = cnt n vs + cnt n ws"
    "cnt n (rev vs) = cnt n vs"
  by (simp_all add: cnt_def rev_filter [symmetric])

lemma ref_ops [simp]:
  "refcount (get_ref x s) n = refcount s n + (if x = Some n then 1 else 0)" "vmas (get_ref x s) = vmas s"
  "refcount (put_ref x s) n = refcount s n - (if x = Some n then 1 else 0)" "vmas (put_ref x s) = vmas s"
  "refcount (set_vmas p vs s) = refcount s" "vmas (set_vmas p vs s) = (vmas s)(p := vs)"
  by (auto simp: get_ref_def put_ref_def set_vmas_def split: option.splits)

definition keeps :: "('s, 'f) mm \<Rightarrow> ('s, 'f) mm \<Rightarrow> bool" where
  "keeps s s' \<longleftrightarrow> refcount s' = refcount s \<and> vmas s' = vmas s"

lemma unmap_keeps: "unmap_one V e root p s = Some s' \<Longrightarrow> keeps s s'"
    "unmap_one_shared V e root lo node off p s = Some s' \<Longrightarrow> keeps s s'"
  by (auto simp: unmap_one_def unmap_one_shared_def keeps_def set_vm_def Let_def split: option.splits if_splits)

lemma unmap_pages_keeps: "vma_unmap_pages V e root ps s = Some s' \<Longrightarrow> keeps s s'"
  by (induction ps arbitrary: s) (auto simp: bind_eq_Some_conv keeps_def dest!: unmap_keeps(1))

lemma unmap_pages_shared_keeps: "vma_unmap_pages_shared V e root lo node off ps s = Some s' \<Longrightarrow> keeps s s'"
  by (induction ps arbitrary: s) (auto simp: bind_eq_Some_conv keeps_def dest!: unmap_keeps(2))

lemma unmap_range_keeps:
  "vma_unmap_range V e pid lo hi s = Some s' \<Longrightarrow> keeps s s'" "vma_unmap_range_shared V e pid lo hi node off s = Some s' \<Longrightarrow> keeps s s'"
  "unmap_inter V e pid v lo hi s = Some s' \<Longrightarrow> keeps s s'"
  by (auto simp: vma_unmap_range_def vma_unmap_range_shared_def unmap_inter_def split: if_splits
      dest: unmap_pages_keeps unmap_pages_shared_keeps)

text \<open>The references that are not those of a list: what an operation on the list leaves as it is.\<close>

definition other_refs :: "('s, 'f) mm \<Rightarrow> vma list \<Rightarrow> nat \<Rightarrow> u32" where
  "other_refs s vs n = refcount s n - of_nat (cnt n vs)"

lemma cut_refs:
  "cut_vma V v lo hi s = (ws, s') \<Longrightarrow> other_refs s' ws n = other_refs s [v] n \<and> vmas s' = vmas s"
  "cut_split V v lo hi s = (ws, s') \<Longrightarrow> other_refs s' ws n = other_refs s [v] n \<and> vmas s' = vmas s"
  by (auto simp: other_refs_def cut_vma_def cut_split_def new_node_def split_tail_def split: if_splits bool.splits)

lemma other_refs_Cons: "other_refs s (v # vs) n = other_refs s [v] n - of_nat (cnt n vs)"
  by (simp add: other_refs_def)

lemma other_refs_append: "other_refs s (ws @ vs) n = other_refs s ws n - of_nat (cnt n vs)"
  by (simp add: other_refs_def)

lemma remove_refs:
  "remove_loop V e pid addr fin vs s = Some (ws, s') \<Longrightarrow> other_refs s' ws n = other_refs s vs n \<and> vmas s' = vmas s"
proof (induction vs arbitrary: s ws)
  case (Cons v vs)
  show ?case
  proof (cases "inter_start addr v < inter_end fin v")
    case False
    with Cons.prems obtain us where us: "remove_loop V e pid addr fin vs s = Some (us, s')" "ws = v # us" by (auto simp: Let_def)
    from Cons.IH [OF us(1)] show ?thesis unfolding us(2) by (auto simp: other_refs_def algebra_simps)
  next
    case True
    with Cons.prems obtain s1 xs s2 us where r: "unmap_inter V e pid v (inter_start addr v) (inter_end fin v) s = Some s1"
        "cut_vma V v (inter_start addr v) (inter_end fin v) s1 = (xs, s2)"
        "remove_loop V e pid addr fin vs s2 = Some (us, s')" "ws = xs @ us"
      by (auto simp: Let_def split: option.splits prod.splits)
    from Cons.IH [OF r(3)] cut_refs(1) [OF r(2), of n] unmap_range_keeps(3) [OF r(1)]
    show ?thesis unfolding r(4) by (auto simp: other_refs_def keeps_def algebra_simps)
  qed
qed (simp add: other_refs_def)

lemma replace_refs:
  "replace_loop V addr fin vs rs s = (ws, rs', s') \<Longrightarrow>
     other_refs s' (ws @ rs') n = other_refs s (vs @ rs) n \<and> vmas s' = vmas s"
proof (induction vs arbitrary: rs s ws)
  case (Cons v vs)
  let ?lo = "inter_start addr v" and ?hi = "inter_end fin v"
  consider "\<not> ?lo < ?hi" | "?lo < ?hi" "?lo = va_start v \<and> ?hi = va_end v" | "?lo < ?hi" "\<not> (?lo = va_start v \<and> ?hi = va_end v)" by blast
  then show ?case
  proof cases
    case 1
    with Cons.prems obtain us where us: "replace_loop V addr fin vs rs s = (us, rs', s')" "ws = v # us"
      by (auto simp: Let_def apfst_def map_prod_def split: prod.splits)
    from Cons.IH [OF us(1)] show ?thesis unfolding us(2) by (auto simp: other_refs_def algebra_simps)
  next
    case 2
    with Cons.prems have "replace_loop V addr fin vs (v # rs) s = (ws, rs', s')" by (simp add: Let_def)
    from Cons.IH [OF this] show ?thesis by (auto simp: other_refs_def algebra_simps)
  next
    case 3
    obtain xs s2 where c: "cut_vma V v ?lo ?hi s = (xs, s2)" by (cases "cut_vma V v ?lo ?hi s")
    obtain us where us: "replace_loop V addr fin vs rs s2 = (us, rs', s')" "ws = xs @ us"
      using Cons.prems 3 c by (auto simp: Let_def cut_vma_def apfst_def map_prod_def split: prod.splits if_splits)
    from Cons.IH [OF us(1)] cut_refs(1) [OF c, of n] show ?thesis unfolding us(2) by (auto simp: other_refs_def algebra_simps)
  qed
qed (simp add: other_refs_def)

lemma release_refs: "release_loop V e pid rs s = Some s' \<Longrightarrow> other_refs s rs n = refcount s' n \<and> vmas s' = vmas s"
proof (induction rs arbitrary: s)
  case (Cons r rs)
  then obtain s1 where s1: "(if shared r then vma_unmap_range_shared V e pid (va_start r) (va_end r) (va_node r) (va_offset r) s
      else vma_unmap_range V e pid (va_start r) (va_end r) s) = Some s1" "release_loop V e pid rs (put_ref (va_node r) s1) = Some s'"
    by (auto simp: bind_eq_Some_conv)
  have "keeps s s1" using s1(1) unmap_range_keeps by (metis (full_types))
  with Cons.IH [OF s1(2)] show ?case by (auto simp: other_refs_def keeps_def algebra_simps)
qed (simp add: other_refs_def)

lemma duplicate_refs:
  "duplicate_loop V vs out s = (Some ws, s') \<Longrightarrow> other_refs s' ws n = other_refs s out n \<and> vmas s' = vmas s \<and> ws = rev vs @ out"
proof (induction vs arbitrary: out s)
  case (Cons v vs)
  then have "duplicate_loop V vs (v # out) (get_ref (va_node v) (snd (new_node V s))) = (Some ws, s')"
    by (auto simp: new_node_def split: bool.splits if_splits)
  from Cons.IH [OF this] show ?case by (auto simp: other_refs_def new_node_def algebra_simps)
qed (simp add: other_refs_def)

lemma cleanup_refs: "refcount (fold (\<lambda>v. put_ref (va_node v)) vs s) n = other_refs s vs n \<and> vmas (fold (\<lambda>v. put_ref (va_node v)) vs s) = vmas s"
  by (induction vs arbitrary: s) (auto simp: other_refs_def algebra_simps)

definition spare_refs :: "nat set \<Rightarrow> ('s, 'f) mm \<Rightarrow> nat \<Rightarrow> u32" where
  "spare_refs P s n = refcount s n - of_nat (\<Sum>pid\<in>P. cnt n (vmas s pid))"

lemma spare_refs_step:
  assumes P: "finite P" "pid \<in> P" and v: "vmas s' = (vmas s)(pid := ws)" and r: "other_refs s' ws n = other_refs s (vmas s pid) n"
  shows "spare_refs P s' n = spare_refs P s n"
proof -
  define k where "k = (\<Sum>q\<in>P - {pid}. cnt n (vmas s q))"
  have "(\<Sum>q\<in>P - {pid}. cnt n (vmas s' q)) = k" unfolding k_def by (rule sum.cong) (simp_all add: v)
  then have k': "(\<Sum>q\<in>P. cnt n (vmas s' q)) = cnt n ws + k" "(\<Sum>q\<in>P. cnt n (vmas s q)) = cnt n (vmas s pid) + k"
    using sum.remove [OF P, of "\<lambda>q. cnt n (vmas s' q)"] sum.remove [OF P, of "\<lambda>q. cnt n (vmas s q)"] by (simp_all add: v k_def)
  show ?thesis using r unfolding spare_refs_def k' other_refs_def by (simp add: algebra_simps)
qed

text \<open>
  The operations on the areas of the processes \<open>P\<close>; a copy for fork goes to a process without areas. While a fault reads its page
  the locks are released: other threads may run any operations then.
\<close>

inductive vma_step :: "('e, 's, 'f) vma_ops \<Rightarrow> nat set \<Rightarrow> ('s, 'f) mm \<Rightarrow> ('s, 'f) mm \<Rightarrow> bool" for V P where
  add: "pid \<in> P \<Longrightarrow> vma_add V pid start fin prot flags node off s = (r, s') \<Longrightarrow> vma_step V P s s'"
| remove: "pid \<in> P \<Longrightarrow> vma_remove V e pid addr len s = Some (r, s') \<Longrightarrow> vma_step V P s s'"
| replace: "pid \<in> P \<Longrightarrow> vma_replace V e pid addr len prot flags node off s = Some (x, s') \<Longrightarrow> vma_step V P s s'"
| duplicate: "dst \<in> P \<Longrightarrow> vmas s dst = [] \<Longrightarrow> vma_duplicate V cur dst s = (r, s') \<Longrightarrow> r \<noteq> ERR_NOMEM \<Longrightarrow> vma_step V P s s'"
| cleanup: "pid \<in> P \<Longrightarrow> vma_step V P s (vma_cleanup pid s)"
| fault: "pid \<in> P \<Longrightarrow> (\<And>u. (vma_step V P)\<^sup>*\<^sup>* u (others u)) \<Longrightarrow> vma_handle_fault V e others pid a s = Some (b, s') \<Longrightarrow> vma_step V P s s'"

lemma fault_page_refs:
  "fault_page V e v off s = Some (p, s') \<Longrightarrow> refcount s' n = refcount s n - (if va_node v = Some n then 1 else 0) \<and> vmas s' = vmas s"
  by (auto simp: fault_page_def set_vm_def Let_def split: option.splits if_splits prod.splits)

lemma fault_map_refs: "fault_map V e pid a v p s = Some (b, s') \<Longrightarrow> keeps s s'"
  by (auto simp: fault_map_def Let_def keeps_def set_vm_def split: if_splits)

lemma fault_refs:
  assumes "vma_handle_fault V e others pid a s = Some (b, s')" and "\<And>u. spare_refs P (others u) n = spare_refs P u n"
  shows "spare_refs P s' n = spare_refs P s n"
proof -
  have eq: "spare_refs P u n = spare_refs P s n" if "refcount u n = refcount s n" "vmas u = vmas s" for u
    using that by (simp add: spare_refs_def)
  consider "s' = s" | v pte where "fault_mapped (cr3 s pid) (a AND NOT 0xFFF) v pte s = (b, s')"
    | v p s1 where "fault_page V e v (va_offset v + ((a AND NOT 0xFFF) - va_start v)) (get_ref (va_node v) s) = Some (p, s1)"
        "keeps s1 s' \<or> keeps (others s1) s'"
    using assms(1) by (auto simp: vma_handle_fault_def Let_def keeps_def split: option.splits prod.splits if_splits dest!: fault_map_refs)
  then show ?thesis
  proof cases
    case 2
    then show ?thesis by (intro eq) (auto simp: fault_mapped_def set_vm_def split: if_splits)
  next
    case 3
    have s1: "spare_refs P s1 n = spare_refs P s n" using fault_page_refs [OF 3(1), of n] by (intro eq) auto
    have "spare_refs P s' n = spare_refs P u n" if "keeps u s'" for u using that by (simp add: keeps_def spare_refs_def)
    with 3(2) s1 assms(2) show ?thesis by metis
  qed simp
qed

lemma vma_step_refs:
  assumes "vma_step V P s s'" and "finite P"
  shows "spare_refs P s' n = spare_refs P s n"
  using assms(1)
proof induction
  case (add pid start fin prot flags node off s r s')
  define v where "v = \<lparr>va_start = start, va_end = fin, va_prot = prot, va_flags = flags, va_node = node, va_offset = off\<rparr>"
  show ?case
  proof (cases "vo_kmalloc V (kmallocs s)")
    case True
    then have "s' = set_vmas pid (v # vmas s pid) (get_ref node (s\<lparr>kmallocs := kmallocs s + 1\<rparr>))"
      using add(2) by (simp add: vma_add_def new_node_def Let_def v_def)
    then show ?thesis
      by (intro spare_refs_step [OF assms(2) add(1), of _ s "v # vmas s pid"]) (auto simp: other_refs_def v_def)
  next
    case False
    then have "s' = s\<lparr>kmallocs := kmallocs s + 1\<rparr>" using add(2) by (simp add: vma_add_def new_node_def)
    then show ?thesis by (simp add: spare_refs_def)
  qed
next
  case (remove pid e addr len s r s')
  then consider "s' = s" | vs s1 where "remove_loop V e pid addr (addr + page_len len) (vmas s pid) s = Some (vs, s1)" "s' = set_vmas pid vs s1"
    by (auto simp: vma_remove_def split: if_splits)
  then show ?case
  proof cases
    case 2
    with remove_refs [OF 2(1), of n] show ?thesis by (intro spare_refs_step [OF assms(2) remove(1), of _ s vs]) (auto simp: other_refs_def)
  qed simp
next
  case (replace pid e addr len prot flags node off s x s')
  obtain vs rs s1 where l: "replace_loop V addr (addr + page_len len) (vmas s pid) [] s = (vs, rs, s1)"
    by (cases "replace_loop V addr (addr + page_len len) (vmas s pid) [] s")
  note r = replace_refs [OF l, of n, unfolded append_Nil2]
  show ?case
  proof (cases "vo_kmalloc V (kmallocs s1)")
    case False
    then have "s' = set_vmas pid (rev rs @ vs) (s1\<lparr>kmallocs := kmallocs s1 + 1\<rparr>)"
      using replace(2) l by (simp add: vma_replace_def new_node_def Let_def)
    with r show ?thesis by (intro spare_refs_step [OF assms(2) replace(1), of _ s "rev rs @ vs"]) (auto simp: other_refs_def algebra_simps)
  next
    case True
    define v where "v = \<lparr>va_start = addr, va_end = addr + page_len len, va_prot = prot, va_flags = flags, va_node = node, va_offset = off\<rparr>"
    have rl: "release_loop V e pid rs (set_vmas pid (v # vs) (get_ref node (s1\<lparr>kmallocs := kmallocs s1 + 1\<rparr>))) = Some s'"
      using replace(2) l True by (auto simp: vma_replace_def new_node_def Let_def v_def)
    define d :: u32 where "d = (if node = Some n then 1 else 0)"
    have s': "refcount s' n = refcount s1 n + d - of_nat (cnt n rs)" "vmas s' = (vmas s)(pid := v # vs)"
      using release_refs [OF rl, of n] r by (auto simp: other_refs_def d_def)
    have "other_refs s' (v # vs) n = refcount s1 n + d - of_nat (cnt n rs) - (d + of_nat (cnt n vs))"
      unfolding other_refs_def s'(1) by (simp add: v_def d_def)
    also have "\<dots> = refcount s1 n - of_nat (cnt n vs + cnt n rs)" by simp
    also have "\<dots> = other_refs s (vmas s pid) n" using r by (simp add: other_refs_def)
    finally show ?thesis using spare_refs_step [OF assms(2) replace(1) s'(2)] by blast
  qed
next
  case (duplicate dst s cur r s')
  then consider "s' = s" | src out s1 where "duplicate_loop V (vmas s src) [] s = (Some out, s1)" "s' = set_vmas dst out s1"
    by (auto simp: vma_duplicate_def split: option.splits prod.splits)
  then show ?case
  proof cases
    case (2 src out s1)
    with duplicate_refs [OF 2(1), of n] duplicate(2) show ?thesis
      by (intro spare_refs_step [OF assms(2) duplicate(1), of _ s out]) (auto simp: other_refs_def)
  qed simp
next
  case (cleanup pid s)
  with cleanup_refs [of "vmas s pid" s n] show ?case
    by (intro spare_refs_step [OF assms(2) cleanup, of _ s "[]"]) (auto simp: vma_cleanup_def other_refs_def)
next
  case (fault pid others e a s b s')
  have "spare_refs P (others u) n = spare_refs P u n" for u
    using fault.IH [of u] by (induction rule: rtranclp_induct) simp_all
  from fault_refs [OF fault.hyps(2) this] show ?case .
qed

text \<open>
  C26. The reference counts of file nodes are exact: over any sequence of additions, removals, replacements, cleanups, page
  faults (with any of these operations by other threads while the fault reads its page) and copies for fork into a process without areas that do
  not run out of memory, by the processes \<open>P\<close>, the count of each node minus the number of areas that refer to it stays the same.
  A copy that runs out of memory leaks references (\<open>vma_duplicate_leaks\<close>).
\<close>

theorem vma_refcounts_exact:
  assumes "(vma_step V P)\<^sup>*\<^sup>* s s'" and "finite P"
  shows "refcount s' n - of_nat (\<Sum>pid\<in>P. cnt n (vmas s' pid)) = refcount s n - of_nat (\<Sum>pid\<in>P. cnt n (vmas s pid))"
proof -
  have "spare_refs P s' n = spare_refs P s n"
    using assms(1) by induction (simp_all add: vma_step_refs [OF _ assms(2)])
  then show ?thesis by (simp add: spare_refs_def)
qed

theorem vma_refcounts_exact_witness:
  "\<exists>s'. (vma_step vma_demo {1})\<^sup>*\<^sup>* mm_demo s' \<and> vmas s' 1 \<noteq> vmas mm_demo 1 \<and>
     refcount s' 7 - of_nat (\<Sum>pid\<in>{1}. cnt 7 (vmas s' pid)) = refcount mm_demo 7 - of_nat (\<Sum>pid\<in>{1}. cnt 7 (vmas mm_demo pid))"
proof -
  obtain r s' where a: "vma_add vma_demo 1 0x4000 0x5000 3 1 (Some 7) 0 mm_demo = (r, s')" by (cases "vma_add vma_demo 1 0x4000 0x5000 3 1 (Some 7) 0 mm_demo")
  then have "vma_step vma_demo {1} mm_demo s'" by (intro vma_step.add) auto
  then have st: "(vma_step vma_demo {1})\<^sup>*\<^sup>* mm_demo s'" by blast
  moreover have "vmas s' 1 \<noteq> vmas mm_demo 1" using a by (auto simp: vma_add_def new_node_def vma_demo_def Let_def)
  ultimately show ?thesis using vma_refcounts_exact [OF st, of 7] by auto
qed

text \<open>
  The copy that runs out of memory: the entries made so far are lost with the references they hold, since \<open>vma_cleanup\<close> drops the list of the
  new process, which is still empty.
\<close>

lemma vma_duplicate_leaks:
  assumes "vmas s src = [v, w]" and "va_node v = Some n" and "vmas s dst = []" and "vo_kmalloc V (kmallocs s)" and "\<not> vo_kmalloc V (kmallocs s + 1)"
  shows "\<exists>s'. vma_duplicate V (Some src) dst s = (ERR_NOMEM, s') \<and> vmas s' = vmas s \<and> refcount s' n = refcount s n + 1"
  using assms by (auto simp: vma_duplicate_def new_node_def vma_cleanup_def get_ref_def set_vmas_def)

end
