(* ===== verification/Vma_Fault.thy ===== *)
theory Vma_Fault
  imports Vma_Pmm
begin

text \<open>
  The page-fault handler \<open>vma_handle_fault\<close>: the promises it needs of \<open>pmm_alloc_page\<close>, as the locale \<open>fault_source\<close>, its
  interpretation on \<^verbatim>\<open>pmm.c\<close>, and what a fault at an address of an area does.
\<close>

section \<open>Filling a new page\<close>

lemma fault_flags_small: "fault_flags v AND PAGE_NX = 0" "fault_flags v AND PAGE_HUGE = 0"
  by (simp_all add: fault_flags_def PAGE_USER_def PAGE_WRITE_def PAGE_NX_def PAGE_HUGE_def)

lemma slot_offset8:
  assumes "k < 512"
  shows "slot p k - p < 4096" "(slot p k - p) div 8 = k"
proof -
  have "unat (8 * k) = 8 * unat k" "unat k < 512" using assms by (simp_all add: unat_word_ariths word_less_nat_alt)
  then show "slot p k - p < 4096" "(slot p k - p) div 8 = k"
    by (simp_all add: slot_def word_less_nat_alt word_unat_eq_iff unat_div)
qed

definition page_content :: "('e, 's, 'f) vma_ops \<Rightarrow> vma \<Rightarrow> u64 \<Rightarrow> 'f \<Rightarrow> u64 \<Rightarrow> u64" where
  "page_content V v off f k = (case va_node v of None \<Rightarrow> 0 | Some n \<Rightarrow> vo_read V n off f (\<lambda>_. 0) k)"

lemma new_page_content:
  fixes u :: "'s vm" and v :: vma and V :: "('e, 's, 'f) vma_ops" and off :: u64 and f :: 'f
  assumes "page_aligned p"
  defines "u1 \<equiv> clear_page p u"
  defines "u2 \<equiv> (case va_node v of None \<Rightarrow> u1 | Some n \<Rightarrow> fill_page p (vo_read V n off f (page_words p u1)) u1)"
  shows "k < 512 \<Longrightarrow> vm_mem u2 (slot p k) = page_content V v off f k" "page_of a \<noteq> p \<Longrightarrow> vm_mem u2 a = vm_mem u a"
    "vm_pmm u2 = vm_pmm u"
proof -
  have z: "page_words p u1 = (\<lambda>_. 0)"
    using slot_offset8 by (auto simp: fun_eq_iff page_words_def u1_def clear_page_def)
  show "vm_mem u2 (slot p k) = page_content V v off f k" if "k < 512"
    unfolding u2_def z page_content_def using slot_offset8 [OF that, of p]
    by (auto simp: fill_page_def u1_def clear_page_def split: option.splits)
  have "\<not> a - p < 4096" if "page_of a \<noteq> p" for a using in_page_iff [OF assms(1), of a] that by simp
  then show "vm_mem u2 a = vm_mem u a" if "page_of a \<noteq> p"
    using that by (auto simp: u2_def u1_def fill_page_def clear_page_def split: option.splits)
  show "vm_pmm u2 = vm_pmm u" by (simp add: u2_def u1_def fill_page_def clear_page_def split: option.splits)
qed

locale fault_source = frame_source F ok own envok dry
  for F :: "('e, 's) frame_ops" and ok :: "'s \<Rightarrow> bool" and own :: "'s \<Rightarrow> u64 set" and envok :: "'e \<Rightarrow> bool" and dry :: "'e \<Rightarrow> 's \<Rightarrow> bool" +
  assumes alloc_page: "envok e \<Longrightarrow> ok s \<Longrightarrow> \<exists>p s'. fo_alloc_page F e s = Some (p, s') \<and> ok s' \<and>
      (if p = 0 then own s \<subseteq> own s' else page_aligned p \<and> p \<notin> own s \<and> own s' = insert p (own s))"
begin

lemma new_page_space:
  assumes i: "area_inv u root" and q: "ok (vm_pmm u')" "own (vm_pmm u') = insert p (own (vm_pmm u))" "p \<notin> own (vm_pmm u)"
    and mem: "\<And>a. page_of a \<in> own (vm_pmm u) \<Longrightarrow> vm_mem u' a = vm_mem u a"
  shows "area_inv u' root" "tables u' root = tables u root" "mapped u' root = mapped u root" "user_addr w \<Longrightarrow> space u' root w = space u root w"
proof -
  have inv: "ptree (vm_mem u) user_idx 3 root" "tables u root \<subseteq> own (vm_pmm u)" "private_space u root" "mapped u root \<subseteq> own (vm_pmm u)"
    using i by (simp_all add: area_inv_def vm_inv_def space_ok_def)
  have a: "\<forall>a. page_of a \<in> tabs (vm_mem u) user_idx 3 root \<longrightarrow> vm_mem u' a = vm_mem u a"
    using mem inv(2) unfolding tables_def by blast
  note tc = tree_cong [OF inv(1) a user_idx_sub]
  show sp: "space u' root w = space u root w" if "user_addr w" for w
    unfolding space_def by (rule look_cong [OF inv(1) a user_idx_sub user_addr_dir [OF that]]) simp_all
  show tb: "tables u' root = tables u root" using tc by (simp add: tables_def)
  show mp: "mapped u' root = mapped u root" unfolding mapped_def using sp by (auto cong: conj_cong)
  have "private_space u' root" using inv(3) tc sp unfolding private_space_def space_ok_def tb mp by (simp cong: conj_cong)
  then show "area_inv u' root" using tc tb mp inv(2,4) q unfolding area_inv_def vm_inv_def space_ok_def by blast
qed

text \<open>The new page is mapped, or mapping it needed a table and there is no page.\<close>

lemma fault_mapping:
  assumes i: "area_inv u root" and e: "envok e" and p: "p \<in> own (vm_pmm u)" "p \<notin> tables u root" "p \<notin> mapped u root" "page_aligned p"
    and v: "user_addr v" "page_of v = v" "space u root v = None"
  shows "\<exists>r u'. vmm_map_page F e root v p (fault_flags x) u = Some (r, u') \<and> area_inv u' root \<and>
    (r = ERR_OK \<or> r = ERR_NOMEM \<and> no_page e u') \<and> (\<forall>a. page_of a \<in> own (vm_pmm u) - tables u' root \<longrightarrow> vm_mem u' a = vm_mem u a) \<and>
    own (vm_pmm u) \<inter> tables u' root = tables u root \<and>
    (\<forall>w. user_addr w \<longrightarrow> space u' root w = (if r = ERR_OK \<and> page_of w = v then Some (pte_of p (fault_flags x)) else space u root w))"
proof -
  have inv: "vm_inv u root" "private_space u root" "mapped u root \<subseteq> own (vm_pmm u)" using i by (simp_all add: area_inv_def)
  have va: "v AND 0xFFF = 0" using page_aligned_page_of [of v] v(2) by (simp add: page_aligned_def)
  have pa: "p AND 0xFFF = 0" using p(4) by (simp add: page_aligned_def)
  obtain r u' where m: "vmm_map_page F e root v p (fault_flags x) u = Some (r, u')" using map_page_spec [OF inv(1) e v(1) va pa] by blast
  note mp = map_private [OF inv(1,2) e v(1) va p(4) fault_flags_small p(1,2,3) inv(3) m]
  then have u': "vm_inv u' root" "private_space u' root" "mapped u' root \<subseteq> insert p (mapped u root)"
      "own (vm_pmm u') = own (vm_pmm u) \<union> tables u' root" by blast+
  then have "area_inv u' root" using inv(3) p(1) unfolding area_inv_def by blast
  with m mp show ?thesis by blast
qed

lemma fault_page_spec:
  assumes i: "area_inv (mm_vm s) root" and e: "envok e" and V: "vo_frames V = F" "\<forall>n. vo_get_page V n = None"
  shows "\<exists>p s1. fault_page V e v off (get_ref (va_node v) s) = Some (p, s1) \<and> cr3 s1 = cr3 s \<and> vmas s1 = vmas s \<and> refcount s1 = refcount s \<and>
    (if p = 0 then (\<exists>q. fo_alloc_page F e (vm_pmm (mm_vm s)) = Some (0, q)) \<and> (\<forall>x. page_of x \<in> own (vm_pmm (mm_vm s)) \<longrightarrow> vm_mem (mm_vm s1) x = vm_mem (mm_vm s) x)
     else area_inv (mm_vm s1) root \<and> page_aligned p \<and> p \<notin> own (vm_pmm (mm_vm s)) \<and> own (vm_pmm (mm_vm s1)) = insert p (own (vm_pmm (mm_vm s))) \<and>
       tables (mm_vm s1) root = tables (mm_vm s) root \<and> mapped (mm_vm s1) root = mapped (mm_vm s) root \<and>
       (\<forall>w. user_addr w \<longrightarrow> space (mm_vm s1) root w = space (mm_vm s) root w) \<and>
       (\<forall>k < 512. vm_mem (mm_vm s1) (slot p k) = page_content V v off (files s) k) \<and>
       (\<forall>x. page_of x \<in> own (vm_pmm (mm_vm s)) \<longrightarrow> vm_mem (mm_vm s1) x = vm_mem (mm_vm s) x))"
proof -
  let ?u = "mm_vm s" and ?s = "get_ref (va_node v) s"
  have ok: "ok (vm_pmm ?u)" using i by (simp add: area_inv_def vm_inv_def)
  obtain p q where a: "fo_alloc_page F e (vm_pmm ?u) = Some (p, q)" "ok q"
      "if p = 0 then own (vm_pmm ?u) \<subseteq> own q else page_aligned p \<and> p \<notin> own (vm_pmm ?u) \<and> own q = insert p (own (vm_pmm ?u))"
    using alloc_page [OF e ok] by blast
  have g: "mm_vm ?s = ?u" "cr3 ?s = cr3 s" "vmas ?s = vmas s" "files ?s = files s" by (auto simp: get_ref_def split: option.splits)
  have r: "refcount (put_ref (va_node v) (set_vm x (get_ref (va_node v) s))) = refcount s" for x
    by (auto simp: fun_eq_iff set_vm_def get_ref_def put_ref_def split: option.splits)
  define s1 where "s1 = (if p = 0 then put_ref (va_node v) (set_vm (set_pmm F q ?u) ?s) else
     put_ref (va_node v) (set_vm (case va_node v of None \<Rightarrow> clear_page p (set_pmm F q ?u)
       | Some n \<Rightarrow> fill_page p (vo_read V n off (files s) (page_words p (clear_page p (set_pmm F q ?u)))) (clear_page p (set_pmm F q ?u))) ?s))"
  have f: "fault_page V e v off ?s = Some (p, s1)"
    using a(1) V g by (cases "va_node v") (simp_all add: fault_page_def s1_def Let_def set_vm_def)
  have s1: "cr3 s1 = cr3 s" "vmas s1 = vmas s" "refcount s1 = refcount s"
    using g r by (auto simp: s1_def put_ref_def set_vm_def split: option.splits)
  show ?thesis
  proof (cases "p = 0")
    case True
    then have "mm_vm s1 = set_pmm F q ?u" by (simp add: s1_def put_ref_def set_vm_def split: option.splits)
    then have "vm_mem (mm_vm s1) x = vm_mem ?u x" if "page_of x \<in> own (vm_pmm ?u)" for x using set_pmm_mem [OF a(2)] a(3) True that by auto
    with True f s1 a(1) show ?thesis by auto
  next
    case False
    then have p: "ok q" "page_aligned p" "p \<notin> own (vm_pmm ?u)" "own q = insert p (own (vm_pmm ?u))" using a(2,3) by auto
    have m: "mm_vm s1 = (case va_node v of None \<Rightarrow> clear_page p (set_pmm F q ?u)
       | Some n \<Rightarrow> fill_page p (vo_read V n off (files s) (page_words p (clear_page p (set_pmm F q ?u)))) (clear_page p (set_pmm F q ?u)))"
      using False by (simp add: s1_def put_ref_def set_vm_def split: option.splits)
    note n = new_page_content [OF p(2), where u = "set_pmm F q ?u" and v = v and V = V and off = off and f = "files s", folded m]
    have n': "vm_mem (mm_vm s1) x = vm_mem ?u x" if "page_of x \<in> own (vm_pmm ?u)" for x
      using n(2) [of x] set_pmm_mem [OF p(1), of x ?u] p(3,4) that by auto
    have o: "ok (vm_pmm (mm_vm s1))" "own (vm_pmm (mm_vm s1)) = insert p (own (vm_pmm ?u))" using n(3) p by simp_all
    note fr = new_page_space [OF i o p(3) n']
    have "\<forall>w. user_addr w \<longrightarrow> space (mm_vm s1) root w = space ?u root w" using fr(4) by blast
    moreover have "\<forall>k < 512. vm_mem (mm_vm s1) (slot p k) = page_content V v off (files s) k" using n(1) by blast
    ultimately show ?thesis using False f s1 p(2,3) o(2) fr(1-3) n' by auto
  qed
qed

lemma handle_fault_spec:
  assumes i: "area_inv (mm_vm s) (cr3 s pid)" and e: "envok e" and V: "vo_frames V = F" "\<forall>n. vo_get_page V n = None"
    and v: "vma_find s pid a = Some v" and a: "user_addr a" "space (mm_vm s) (cr3 s pid) a = None"
  shows "\<exists>b s'. vma_handle_fault V e id pid a s = Some (b, s') \<and> vmas s' = vmas s \<and> cr3 s' = cr3 s \<and> refcount s' = refcount s \<and>
    (if \<not> b then (\<exists>q. fo_alloc_page F e (vm_pmm (mm_vm s)) = Some (0, q)) \<and> (\<forall>x. page_of x \<in> own (vm_pmm (mm_vm s)) \<longrightarrow> vm_mem (mm_vm s') x = vm_mem (mm_vm s) x)
     else area_inv (mm_vm s') (cr3 s pid) \<and> (\<exists>r p. p \<notin> own (vm_pmm (mm_vm s)) \<and> (r = ERR_OK \<or> r = ERR_NOMEM \<and> no_page e (mm_vm s')) \<and>
       (\<forall>w. user_addr w \<longrightarrow> space (mm_vm s') (cr3 s pid) w =
          (if r = ERR_OK \<and> page_of w = page_of a then Some (pte_of p (fault_flags v)) else space (mm_vm s) (cr3 s pid) w)) \<and>
       (\<forall>k < 512. vm_mem (mm_vm s') (slot p k) = page_content V v (va_offset v + (page_of a - va_start v)) (files s) k) \<and>
       (\<forall>x. page_of x \<in> own (vm_pmm (mm_vm s)) - tables (mm_vm s) (cr3 s pid) \<longrightarrow> vm_mem (mm_vm s') x = vm_mem (mm_vm s) x)))"
proof -
  let ?root = "cr3 s pid" and ?u = "mm_vm s" and ?off = "va_offset v + (page_of a - va_start v)"
  have pa: "a AND NOT 0xFFF = page_of a" by (simp add: page_of_def)
  have "page_of a \<le> a" unfolding page_of_def by (rule word_and_le2)
  then have ua: "user_addr (page_of a)" using a(1) unfolding user_addr_def by (rule le_less_trans)
  have pp: "page_of (page_of a) = page_of a" by (rule page_of_aligned) simp
  have sn: "space ?u ?root (page_of a) = None" using page_space [OF pp, of ?u ?root] a(2) by simp
  have wn: "mapped_at u ?root (page_of a) = None" if "space_ok u ?root" "space u ?root (page_of a) = None" for u
    using walk_cases [OF that(1) ua] that(2) by (cases "vmm_walk_pagetable u ?root (page_of a)") (auto simp: mapped_at_def)
  obtain p s1 where f: "fault_page V e v ?off (get_ref (va_node v) s) = Some (p, s1)" "cr3 s1 = cr3 s" "vmas s1 = vmas s" "refcount s1 = refcount s"
      and fp: "if p = 0 then (\<exists>q. fo_alloc_page F e (vm_pmm ?u) = Some (0, q)) \<and> (\<forall>x. page_of x \<in> own (vm_pmm ?u) \<longrightarrow> vm_mem (mm_vm s1) x = vm_mem ?u x)
     else area_inv (mm_vm s1) ?root \<and> page_aligned p \<and> p \<notin> own (vm_pmm ?u) \<and> own (vm_pmm (mm_vm s1)) = insert p (own (vm_pmm ?u)) \<and>
       tables (mm_vm s1) ?root = tables ?u ?root \<and> mapped (mm_vm s1) ?root = mapped ?u ?root \<and>
       (\<forall>w. user_addr w \<longrightarrow> space (mm_vm s1) ?root w = space ?u ?root w) \<and>
       (\<forall>k < 512. vm_mem (mm_vm s1) (slot p k) = page_content V v ?off (files s) k) \<and>
       (\<forall>x. page_of x \<in> own (vm_pmm ?u) \<longrightarrow> vm_mem (mm_vm s1) x = vm_mem ?u x)"
    using fault_page_spec [OF i e V, of v ?off] by blast
  have h: "vma_handle_fault V e id pid a s = (if p = 0 then Some (False, s1) else fault_map V e pid a v p s1)"
    using v wn [OF area_space [OF i] sn] f(1) unfolding vma_handle_fault_def pa Let_def by simp
  show ?thesis
  proof (cases "p = 0")
    case True
    with h f fp show ?thesis by auto
  next
    case False
    with fp have u1: "area_inv (mm_vm s1) ?root" "page_aligned p" "p \<notin> own (vm_pmm ?u)" "own (vm_pmm (mm_vm s1)) = insert p (own (vm_pmm ?u))"
       "tables (mm_vm s1) ?root = tables ?u ?root" "mapped (mm_vm s1) ?root = mapped ?u ?root"
       "\<forall>w. user_addr w \<longrightarrow> space (mm_vm s1) ?root w = space ?u ?root w"
       "\<forall>k < 512. vm_mem (mm_vm s1) (slot p k) = page_content V v ?off (files s) k"
       "\<forall>x. page_of x \<in> own (vm_pmm ?u) \<longrightarrow> vm_mem (mm_vm s1) x = vm_mem ?u x" by (simp_all split: if_splits)
    have sub: "tables ?u ?root \<subseteq> own (vm_pmm ?u)" "mapped ?u ?root \<subseteq> own (vm_pmm ?u)" using i by (simp_all add: area_inv_def vm_inv_def)
    have pn: "p \<in> own (vm_pmm (mm_vm s1))" "p \<notin> tables (mm_vm s1) ?root" "p \<notin> mapped (mm_vm s1) ?root" using u1(3-6) sub by auto
    have sn1: "space (mm_vm s1) ?root (page_of a) = None" using u1(7) ua sn by simp
    from fault_mapping [OF u1(1) e pn u1(2) ua pp sn1, of v] obtain r u' where
      m: "vmm_map_page F e ?root (page_of a) p (fault_flags v) (mm_vm s1) = Some (r, u')" "area_inv u' ?root" "r = ERR_OK \<or> r = ERR_NOMEM \<and> no_page e u'"
        "\<forall>a. page_of a \<in> own (vm_pmm (mm_vm s1)) - tables u' ?root \<longrightarrow> vm_mem u' a = vm_mem (mm_vm s1) a" "own (vm_pmm (mm_vm s1)) \<inter> tables u' ?root = tables (mm_vm s1) ?root"
        "\<forall>w. user_addr w \<longrightarrow> space u' ?root w = (if r = ERR_OK \<and> page_of w = page_of a then Some (pte_of p (fault_flags v)) else space (mm_vm s1) ?root w)"
      by blast
    have v1: "vma_find s1 pid a = Some v" using v f(3) by (simp add: vma_find_def)
    have "vma_handle_fault V e id pid a s = Some (True, set_vm u' s1)"
      using h False m(1) v1 wn [OF area_space [OF u1(1)] sn1] V(1) f(2) unfolding fault_map_def pa Let_def by simp
    moreover have "\<forall>k < 512. vm_mem u' (slot p k) = page_content V v ?off (files s) k"
    proof (intro allI impI)
      fix k :: u64 assume k: "k < 512"
      have "p \<in> own (vm_pmm (mm_vm s1)) - tables u' ?root" using m(5) pn(1,2) by blast
      then show "vm_mem u' (slot p k) = page_content V v ?off (files s) k" using m(4) u1(8) k page_of_slot [OF u1(2) k] by simp
    qed
    moreover have "\<forall>x. page_of x \<in> own (vm_pmm ?u) - tables ?u ?root \<longrightarrow> vm_mem u' x = vm_mem ?u x"
    proof (intro allI impI)
      fix x assume x: "page_of x \<in> own (vm_pmm ?u) - tables ?u ?root"
      then have "page_of x \<in> own (vm_pmm (mm_vm s1)) - tables u' ?root" "page_of x \<in> own (vm_pmm ?u)" using m(5) u1(3-5) by auto
      then show "vm_mem u' x = vm_mem ?u x" using m(4) u1(9) by simp
    qed
    ultimately show ?thesis using m(2,3,6) u1(3,7) f(2-4) by (auto simp: set_vm_def intro!: exI [of _ r] exI [of _ p])
  qed
qed

end

section \<open>Single pages from \<open>pmm_alloc_page\<close>\<close>

definition marks :: "pmm \<Rightarrow> pmm \<Rightarrow> bool" where
  "marks s s' \<longleftrightarrow> total_page_count s' = total_page_count s \<and> (bitmap_test 0 s \<longrightarrow> bitmap_test 0 s')"

lemma marks_trans: "marks s s1 \<Longrightarrow> marks s1 s2 \<Longrightarrow> marks s s2"
  by (simp add: marks_def)

lemma marks_pop: "cache_try_pop e s = Some (p, s') \<Longrightarrow> marks s s'"
  by (auto simp: cache_try_pop_def marks_def Let_def split: if_splits)

lemma marks_owner: "owner_set i o' s = Some s' \<Longrightarrow> marks s s'"
  by (auto simp: owner_set_def marks_def Let_def split: if_splits)

lemma marks_node: "pop_from_node e n s = Some (p, s') \<Longrightarrow> marks s s'"
  by (auto simp: pop_from_node_def Let_def marks_def split: if_splits list.splits bind_splits dest!: marks_owner)

lemma marks_any: "pop_any e ns s = Some (p, s') \<Longrightarrow> marks s s'"
proof (induction ns arbitrary: s)
  case (Cons n ns)
  from Cons.prems show ?case by (auto simp: marks_def split: bind_splits if_splits dest!: marks_node Cons.IH)
qed (simp add: marks_def)

lemma marks_lists: "alloc_from_lists e s = Some (p, s') \<Longrightarrow> marks s s'"
  by (auto simp: alloc_from_lists_def Let_def marks_def split: bind_splits if_splits option.splits dest!: marks_node marks_any)

lemma marks_refill_loop: "refill_loop k e nd s = Some s' \<Longrightarrow> marks s s'"
proof (induction k arbitrary: s)
  case (Suc k)
  show ?case
  proof (cases "node_free_lists s nd")
    case (Cons ph r)
    with Suc.prems consider "s' = s" | s1 where "owner_set (page_index ph) PAGE_OWNER_CACHE (bitmap_set (page_index ph) (list_pop nd s)) = Some s1"
        "refill_loop k e nd (set_cache (smp_cpu_id e) (cpu_cache s (smp_cpu_id e) @ [ph]) s1) = Some s'"
      by (auto simp: Let_def split: if_splits bind_splits)
    then show ?thesis
    proof cases
      case 2
      from marks_owner [OF 2(1)] Suc.IH [OF 2(2)] show ?thesis by (auto simp: marks_def)
    qed (simp add: marks_def)
  qed (use Suc.prems in \<open>simp add: marks_def\<close>)
qed (simp add: marks_def)

lemma marks_steal: "marks s (snd (cache_steal e c s))"
  by (auto simp: cache_steal_def Let_def marks_def)

lemma marks_steal_any: "steal_any e cs s = Some (p, s') \<Longrightarrow> marks s s'"
proof (induction cs arbitrary: s)
  case (Cons c cs)
  obtain n s1 where n: "cache_steal e c s = (n, s1)" by (cases "cache_steal e c s")
  have m: "marks s s1" using marks_steal [of s e c] n by simp
  from Cons.prems n m show ?case
    by (auto simp: marks_def split: if_splits bind_splits dest!: marks_pop Cons.IH)
qed (simp add: marks_def)

lemma marks_alloc:
  assumes "pmm_alloc_page e s = Some (p, s')" and "compact_pages e = []"
  shows "marks s s'"
proof -
  have z: "marks t (page_zero q t)" for t q by (simp add: marks_def page_zero_def)
  have r: "marks t t'" if "cache_refill e t = Some t'" for t t'
    using that by (auto simp: cache_refill_def marks_def split: option.splits dest!: marks_refill_loop)
  have o: "marks t t'" if "pmm_oom_kill e t = Some t'" for t t'
    using that assms(2) by (auto simp: pmm_oom_kill_def marks_def split: if_splits)
  show ?thesis using assms(1) z
    by (auto simp: pmm_alloc_page_def marks_def split: bind_splits if_splits dest!: marks_pop marks_lists marks_steal_any r o)
qed

definition fault_env :: "pmm_env \<Rightarrow> bool" where
  "fault_env e \<longleftrightarrow> heap_env e \<and> compact_pages e = []"

interpretation vt: fault_source pmm_frames pmm_ok owned fault_env no_page_left
proof unfold_locales
  fix e s and n :: u32 and p
  assume "fault_env e" and s: "pmm_ok s"
  then have e: "heap_env e" "compact_pages e = []" by (simp_all add: fault_env_def)
  show "\<exists>p s'. po_alloc (fo_pages pmm_frames) e n s = Some (p, s') \<and> pmm_ok s' \<and> (if p = 0 then owned s' = owned s
      else n \<noteq> 0 \<and> page_aligned p \<and> run_of p (unat n) \<inter> owned s = {} \<and> owned s' = owned s \<union> run_of p (unat n))"
    by (rule vf.alloc [OF e(1) s])
  show "\<exists>p s'. po_alloc_node (fo_pages pmm_frames) e 1 s = Some (p, s') \<and> pmm_ok s' \<and>
      (if p = 0 then owned s' = owned s else page_aligned p \<and> p \<notin> owned s \<and> owned s' = insert p (owned s))"
    by (rule vf.alloc_node [OF e(1) s])
  show "n \<le> push_bit 20 1 \<Longrightarrow> run_of p (unat n) \<subseteq> owned s \<Longrightarrow>
      \<exists>s'. po_free (fo_pages pmm_frames) e p n s = Some s' \<and> pmm_ok s' \<and> owned s' = owned s - run_of p (unat n)"
    by (rule vf.free [OF e(1) s])
  show "p \<in> owned s \<Longrightarrow> \<exists>s'. fo_free_page pmm_frames e p s = Some s' \<and> pmm_ok s' \<and> owned s' = owned s - {p}"
    by (rule vf.free_page [OF e(1) s])
  have w: "pmm_wf s" "env_ok e" "compact_ok e (owned s)" using s e by (simp_all add: pmm_ok_def heap_env_def compact_ok_def)
  from alloc_page_spec [OF w] obtain q s' where q: "pmm_alloc_page e s = Some (q, s')" "pmm_wf s'"
      "if q = 0 then owned s - set (compact_pages e) \<subseteq> owned s' else q \<in> free s \<and> owned s' = insert q (owned s)" by (metis (no_types, lifting))
  have ok': "pmm_ok s'" using q(2) marks_alloc [OF q(1) e(2)] s by (simp add: pmm_ok_def marks_def)
  have "page_aligned q \<and> q \<notin> owned s \<and> owned s' = insert q (owned s)" if "q \<noteq> 0"
  proof -
    have f: "q \<in> free s" "owned s' = insert q (owned s)" using q(3) that by simp_all
    have "q \<notin> owned s" using f(1) free_held_disjoint [OF w(1)] by (auto simp: owned_def)
    moreover have "page_ok s q" using f(1) pmm_wfD(3,6) [OF w(1)] by (auto simp: free_def)
    ultimately show ?thesis using f(2) by (simp add: page_ok_def)
  qed
  with q(1,3) ok' e(2) show "\<exists>p s'. fo_alloc_page pmm_frames e s = Some (p, s') \<and> pmm_ok s' \<and>
      (if p = 0 then owned s \<subseteq> owned s' else page_aligned p \<and> p \<notin> owned s \<and> owned s' = insert p (owned s))"
    by (auto simp: pmm_frames_def)
  show "po_alloc_node (fo_pages pmm_frames) e 1 s = Some (0, s1) \<Longrightarrow> no_page_left e s1"
    "no_page_left e s \<Longrightarrow> po_alloc_node (fo_pages pmm_frames) e 1 s = Some (p, s1) \<Longrightarrow> p = 0" for s1
    using vf.alloc_fails [OF e(1) s] vf.dry_fails [OF e(1) s] by blast+
next
  fix e assume "fault_env e"
  then show "po_cpu (fo_pages pmm_frames) e < KMAG_CPUS" by (intro vf.cpu) (simp add: fault_env_def)
next
  fix s assume "pmm_ok s"
  then show "0 \<notin> owned s" "page_of a \<in> owned s \<Longrightarrow> fo_links pmm_frames s m a = m a" for a m
    by (rule vf.own_nonzero, rule vf.links)
qed

section \<open>A fault in an area\<close>

text \<open>
  C18. A fault of a process with a private address space at an unmapped user address of an area is resolved, on a machine without NUMA
  tables, without shared-memory objects (whose pages belong to the object), with no other thread running meanwhile and no slab pages to
  compact: \<open>vma_handle_fault\<close> returns. When it reports success, the page of
  the address translates to a page that was not in use, with the contents of the file at the position of the address (zeroes for an anonymous area) and writable
  exactly when the area is; every other address keeps its translation, no page in use but the page tables is written and the reference counts are as before.
  Success is reported too when the page tables cannot be extended because all pages are in use, and then no translation changes. Failure is reported only
  when the page allocator gives no page, and then no page in use is written.
\<close>

theorem vma_fault_maps:
  assumes "process_ok s pid" and "fault_env e" and "vo_frames V = pmm_frames" and "\<forall>n. vo_get_page V n = None"
    and "vma_find s pid a = Some v" and "user_addr a" and "translate (mm_vm s) (cr3 s pid) a = None"
  shows "\<exists>b s'. vma_handle_fault V e id pid a s = Some (b, s') \<and> vmas s' = vmas s \<and> refcount s' = refcount s \<and>
    (if \<not> b then (\<exists>q. pmm_alloc_page e (vm_pmm (mm_vm s)) = Some (0, q)) \<and>
       (\<forall>x. page_of x \<in> owned (vm_pmm (mm_vm s)) \<longrightarrow> vm_mem (mm_vm s') x = vm_mem (mm_vm s) x)
     else process_ok s' pid \<and> (\<exists>r p. p \<notin> owned (vm_pmm (mm_vm s)) \<and> (r = ERR_OK \<or> r = ERR_NOMEM \<and> no_page_left e (vm_pmm (mm_vm s'))) \<and>
       (\<forall>w. user_addr w \<longrightarrow> translate (mm_vm s') (cr3 s pid) w =
          (if r = ERR_OK \<and> page_of w = page_of a then Some (pte_of p (fault_flags v)) else translate (mm_vm s) (cr3 s pid) w)) \<and>
       (\<forall>k < 512. vm_mem (mm_vm s') (slot p k) = page_content V v (va_offset v + (page_of a - va_start v)) (files s) k) \<and>
       (\<forall>x. page_of x \<in> owned (vm_pmm (mm_vm s)) - tables (mm_vm s) (cr3 s pid) \<longrightarrow> vm_mem (mm_vm s') x = vm_mem (mm_vm s) x)))"
proof -
  let ?root = "cr3 s pid"
  have i: "vf.area_inv (mm_vm s) ?root" and sp: "pmm_space (mm_vm s) ?root" using assms(1) unfolding area_inv_pmm process_ok_def by blast+
  note t = pmm_space_translate [OF sp]
  have n: "space (mm_vm s) ?root a = None" using t [OF assms(6)] assms(7) by simp
  have f: "fo_alloc_page pmm_frames = pmm_alloc_page" by (simp add: pmm_frames_def)
  from vt.handle_fault_spec [OF i assms(2-6) n] obtain b s' where h: "vma_handle_fault V e id pid a s = Some (b, s')" "vmas s' = vmas s" "cr3 s' = cr3 s" "refcount s' = refcount s"
    and r: "if \<not> b then (\<exists>q. pmm_alloc_page e (vm_pmm (mm_vm s)) = Some (0, q)) \<and> (\<forall>x. page_of x \<in> owned (vm_pmm (mm_vm s)) \<longrightarrow> vm_mem (mm_vm s') x = vm_mem (mm_vm s) x)
     else vf.area_inv (mm_vm s') ?root \<and> (\<exists>r p. p \<notin> owned (vm_pmm (mm_vm s)) \<and> (r = ERR_OK \<or> r = ERR_NOMEM \<and> no_page_left e (vm_pmm (mm_vm s'))) \<and>
       (\<forall>w. user_addr w \<longrightarrow> space (mm_vm s') ?root w =
          (if r = ERR_OK \<and> page_of w = page_of a then Some (pte_of p (fault_flags v)) else space (mm_vm s) ?root w)) \<and>
       (\<forall>k < 512. vm_mem (mm_vm s') (slot p k) = page_content V v (va_offset v + (page_of a - va_start v)) (files s) k) \<and>
       (\<forall>x. page_of x \<in> owned (vm_pmm (mm_vm s)) - tables (mm_vm s) ?root \<longrightarrow> vm_mem (mm_vm s') x = vm_mem (mm_vm s) x))"
    unfolding f no_page_pmm by blast
  show ?thesis
  proof (cases b)
    case True
    have "\<not> \<not> b" using True by simp
    note rt = r [unfolded if_not_P [OF this]]
    have "vf.area_inv (mm_vm s') ?root" by (rule conjunct1 [OF rt])
    then have p: "process_ok s' pid" and t': "\<And>w. user_addr w \<Longrightarrow> translate (mm_vm s') ?root w = space (mm_vm s') ?root w"
      using assms(1) h(2,3) pmm_space_translate [of "mm_vm s'" ?root] unfolding area_inv_pmm process_ok_def by simp_all
    have tr: "(\<forall>w. user_addr w \<longrightarrow> translate (mm_vm s') ?root w = (if r = ERR_OK \<and> page_of w = page_of a then x else translate (mm_vm s) ?root w)) \<longleftrightarrow>
        (\<forall>w. user_addr w \<longrightarrow> space (mm_vm s') ?root w = (if r = ERR_OK \<and> page_of w = page_of a then x else space (mm_vm s) ?root w))" for r x
      using t t' by simp
    have "process_ok s' pid \<and> (\<exists>r p. p \<notin> owned (vm_pmm (mm_vm s)) \<and> (r = ERR_OK \<or> r = ERR_NOMEM \<and> no_page_left e (vm_pmm (mm_vm s'))) \<and>
       (\<forall>w. user_addr w \<longrightarrow> translate (mm_vm s') ?root w =
          (if r = ERR_OK \<and> page_of w = page_of a then Some (pte_of p (fault_flags v)) else translate (mm_vm s) ?root w)) \<and>
       (\<forall>k < 512. vm_mem (mm_vm s') (slot p k) = page_content V v (va_offset v + (page_of a - va_start v)) (files s) k) \<and>
       (\<forall>x. page_of x \<in> owned (vm_pmm (mm_vm s)) - tables (mm_vm s) ?root \<longrightarrow> vm_mem (mm_vm s') x = vm_mem (mm_vm s) x))"
      unfolding tr using p conjunct2 [OF rt] by (rule conjI)
    with h(1,2,4) True show ?thesis by (intro exI [of _ b] exI [of _ s']) (simp only: simp_thms if_False)
  next
    case False
    then show ?thesis using r h(1,2,4) by (intro exI [of _ b] exI [of _ s']) (simp only: simp_thms if_True, blast)
  qed
qed

lemma demo_alloc: "\<exists>p q. pmm_alloc_page env_demo pmm_demo = Some (p, q) \<and> p \<noteq> 0"
proof -
  have "\<not> starved env_demo pmm_demo" by (simp add: starved_def demo_listed)
  with alloc_page_spec [OF demo_wf env_demo_ok] show ?thesis by (metis (no_types, lifting))
qed

lemma demo_fault_env: "fault_env env_demo"
  using demo_ok(2) by (simp add: fault_env_def env_demo_def)

text \<open>In the example the tables for the address are there: the handler cannot fail to map the page.\<close>

lemma demo_entry:
  fixes u :: "pmm vm"
  assumes "\<forall>t\<in>{0x1000, 0x2000, 0x3000, 0x4000}. \<forall>i < 2. vm_mem u (slot t i) = vm_mem vm_demo (slot t i)" and "p AND 0xFFF = 0"
  shows "mapped_at u 0x1000 0x1000 = None" "\<exists>u'. vmm_map_page pmm_frames env_demo 0x1000 0x1000 p 6 u = Some (ERR_OK, u') \<and> vm_mem u' (slot 0x4000 1) = pte_of p 6 \<and>
    entry u' 0x1000 0 = 0x2007 \<and> entry u' 0x2000 0 = 0x3007 \<and> entry u' 0x3000 0 = 0x4007"
proof -
  have i: "indices 0x1000 = [0, 0, 0, 1]" "PML4_INDEX 0x1000 = 0" "PDPT_INDEX 0x1000 = 0" "PD_INDEX 0x1000 = 0" "PT_INDEX 0x1000 = 1"
    by (simp_all add: indices_def PML4_INDEX_def PDPT_INDEX_def PD_INDEX_def PT_INDEX_def)
  have e: "entry u 0x1000 0 = 0x2007" "entry u 0x2000 0 = 0x3007" "entry u 0x3000 0 = 0x4007" "entry u 0x4000 1 = 0"
    using assms(1) by (simp_all add: entry_def demo_mem)
  show "mapped_at u 0x1000 0x1000 = None" using e by (simp add: mapped_at_def vmm_walk_pagetable_def i Let_def present_def)
  have s: "slot 0x1000 0 \<noteq> slot 0x4000 1" "slot 0x2000 0 \<noteq> slot 0x4000 1" "slot 0x3000 0 \<noteq> slot 0x4000 1" by (simp_all add: slot_def)
  show "\<exists>u'. vmm_map_page pmm_frames env_demo 0x1000 0x1000 p 6 u = Some (ERR_OK, u') \<and> vm_mem u' (slot 0x4000 1) = pte_of p 6 \<and>
    entry u' 0x1000 0 = 0x2007 \<and> entry u' 0x2000 0 = 0x3007 \<and> entry u' 0x3000 0 = 0x4007"
    using e s assms(2) by (simp add: vmm_map_page_def get_entry_def i put_def vmm_flush_tlb_page_def entry_def)
qed

lemma demo_fault: "\<exists>s'. vma_handle_fault vma_demo env_demo id 1 0x1008 mm_demo = Some (True, s') \<and> translate (mm_vm s') 0x1000 0x1008 \<noteq> None"
proof -
  obtain p q where a: "pmm_alloc_page env_demo pmm_demo = Some (p, q)" "p \<noteq> 0" using demo_alloc by blast
  obtain p' q' where "fo_alloc_page pmm_frames env_demo pmm_demo = Some (p', q')" "pmm_ok q'"
      "if p' = 0 then owned pmm_demo \<subseteq> owned q' else page_aligned p' \<and> p' \<notin> owned pmm_demo \<and> owned q' = insert p' (owned pmm_demo)"
    using vt.alloc_page [OF demo_fault_env demo_ok(1)] by blast
  then have p: "page_aligned p" "p \<notin> owned pmm_demo" "pmm_ok q" "owned q = insert p (owned pmm_demo)" using a by (auto simp: pmm_frames_def)
  let ?u = "clear_page p (set_pmm pmm_frames q vm_demo)"
  have "vm_mem ?u (slot t i) = vm_mem vm_demo (slot t i)" if "t \<in> {0x1000, 0x2000, 0x3000, 0x4000}" "i < 2" for t i
  proof -
    have i: "i < 512" using that(2) by (rule order_less_trans) simp
    have "page_aligned t" "t \<noteq> p" using that(1) demo_owned p(2) by auto
    then have "page_of (slot t i) \<noteq> p" "page_of (slot t i) \<in> owned q" using page_of_slot [OF _ i] that(1) demo_owned p(4) by auto
    then show ?thesis by (simp only: page_frame [OF p(1)] vf.set_pmm_mem [OF p(3)] if_False)
  qed
  then have u: "\<forall>t\<in>{0x1000, 0x2000, 0x3000, 0x4000}. \<forall>i < 2. vm_mem ?u (slot t i) = vm_mem vm_demo (slot t i)" by blast
  have pz: "p AND 0xFFF = 0" using p(1) by (simp add: page_aligned_def)
  from demo_entry(2) [OF u pz] obtain u' where m: "vmm_map_page pmm_frames env_demo 0x1000 0x1000 p 6 ?u = Some (ERR_OK, u')"
    "vm_mem u' (slot 0x4000 1) = pte_of p 6" "entry u' 0x1000 0 = 0x2007" "entry u' 0x2000 0 = 0x3007" "entry u' 0x3000 0 = 0x4007" by blast
  let ?v = "\<lparr>va_start = 0, va_end = 0x3000, va_prot = 3, va_flags = 2, va_node = None, va_offset = 0\<rparr>"
  have f: "vma_find mm_demo 1 0x1008 = Some ?v" "fault_flags ?v = 6"
    by (simp_all add: vma_find_def mm_demo_def covers_def fault_flags_def writable_def PAGE_USER_def PAGE_WRITE_def)
  have fp: "fault_page vma_demo env_demo ?v o' (get_ref None mm_demo) = Some (p, set_vm ?u mm_demo)" for o'
    using a by (simp add: fault_page_def vma_demo_def get_ref_def put_ref_def pmm_frames_def set_vm_def mm_demo_def vm_demo_def)
  have g: "vma_find (set_vm ?u mm_demo) 1 0x1008 = Some ?v" using f(1) by (simp add: vma_find_def set_vm_def)
  have md: "mapped_at vm_demo 0x1000 0x1000 = None" using demo_entry(1) [of vm_demo 0] by simp
  have c: "cr3 mm_demo 1 = 0x1000" "mm_vm mm_demo = vm_demo" "(0x1008 :: u64) AND NOT 0xFFF = 0x1000" by (simp_all add: mm_demo_def)
  have fm: "fault_map vma_demo env_demo 1 0x1008 ?v p (set_vm ?u mm_demo) = Some (True, set_vm u' (set_vm ?u mm_demo))"
    using m(1) g demo_entry(1) [OF u pz] f(2) c by (simp add: fault_map_def Let_def set_vm_def vma_demo_def)
  have "vma_handle_fault vma_demo env_demo id 1 0x1008 mm_demo = Some (True, set_vm u' (set_vm ?u mm_demo))"
    using fp fm f(1) md a(2) c by (simp add: vma_handle_fault_def Let_def)
  moreover have "present (pte_of p 6)" by (simp add: pte_of_def present_def PAGE_PRESENT_def bit.conj_disj_distrib2)
  then have "translate u' 0x1000 0x1008 \<noteq> None"
    using m(2-5) by (simp add: translate_def vmm_walk_pagetable_def Let_def entry_def PML4_INDEX_def PDPT_INDEX_def PD_INDEX_def PT_INDEX_def)
  ultimately show ?thesis by (auto simp: set_vm_def)
qed

lemma resolved: "\<exists>b s. x = Some (b, s) \<and> P s \<and> Q s \<and> (if \<not> b then R s else T s) \<Longrightarrow> x = Some (True, s') \<Longrightarrow> T s'"
  by auto

theorem vma_fault_maps_witness:
  "\<exists>s' p. vma_handle_fault vma_demo env_demo id 1 0x1008 mm_demo = Some (True, s') \<and>
     translate (mm_vm s') 0x1000 0x1008 = Some (pte_of p 6) \<and> vm_mem (mm_vm s') (slot p 0) = 0 \<and> translate (mm_vm s') 0x1000 0 = Some 0x7007"
proof -
  let ?v = "\<lparr>va_start = 0, va_end = 0x3000, va_prot = 3, va_flags = 2, va_node = None, va_offset = 0\<rparr>"
  have u: "user_addr 0x1008" "user_addr 0" by (simp_all add: user_addr_def)
  have f: "vma_find mm_demo 1 0x1008 = Some ?v" "fault_flags ?v = 6"
    by (simp_all add: vma_find_def mm_demo_def covers_def fault_flags_def writable_def PAGE_USER_def PAGE_WRITE_def)
  have c: "cr3 mm_demo 1 = 0x1000" "mm_vm mm_demo = vm_demo" by (simp_all add: mm_demo_def)
  have pg: "page_of 0x1008 = 0x1000" "page_of 0 = 0" by (simp_all add: page_of_def)
  have t: "translate vm_demo 0x1000 0x1008 = None" "translate vm_demo 0x1000 0 = Some 0x7007"
    using pmm_space_translate [OF demo_pmm_space(1) u(1)] pmm_space_translate [OF demo_pmm_space(1) u(2)] demo_space(3) [OF u(1)] demo_space(3) [OF u(2)] pg by simp_all
  have V: "vo_frames vma_demo = pmm_frames" "\<forall>n. vo_get_page vma_demo n = None" by (simp_all add: vma_demo_def)
  obtain s' where s': "vma_handle_fault vma_demo env_demo id 1 0x1008 mm_demo = Some (True, s')" "translate (mm_vm s') 0x1000 0x1008 \<noteq> None"
    using demo_fault by (elim exE conjE)
  note th = resolved [OF vma_fault_maps [OF demo_process demo_fault_env V f(1) u(1), unfolded c, OF t(1)] s'(1)]
  from conjunct2 [OF th] obtain r p where
    r: "\<forall>w. user_addr w \<longrightarrow> translate (mm_vm s') 0x1000 w =
          (if r = ERR_OK \<and> page_of w = page_of 0x1008 then Some (pte_of p (fault_flags ?v)) else translate vm_demo 0x1000 w)"
      "\<forall>k < 512. vm_mem (mm_vm s') (slot p k) = page_content vma_demo ?v (va_offset ?v + (page_of 0x1008 - va_start ?v)) (files mm_demo) k"
    by (elim exE conjE)
  have "translate (mm_vm s') 0x1000 0x1008 = Some (pte_of p 6)"
    using r(1) [rule_format, OF u(1)] s'(2) t(1) f(2) by (auto split: if_splits)
  moreover have "translate (mm_vm s') 0x1000 0 = Some 0x7007" using r(1) [rule_format, OF u(2)] t(2) pg by simp
  moreover have "vm_mem (mm_vm s') (slot p 0) = 0" using r(2) by (simp add: page_content_def)
  ultimately show ?thesis using s'(1) by blast
qed

end
