(* ===== verification/Sha256.thy ===== *)
theory Sha256
  imports Kernel_Prelude
begin

text \<open>
  SHA-256, in its two copies: \<^verbatim>\<open>sha256.c\<close> of the kernel, with its client \<^verbatim>\<open>secure_boot.c\<close>, and \<^verbatim>\<open>sha256.c\<close> of \<^verbatim>\<open>libtls\<close>. A context is a record with
  its buffer of 64 bytes and its 8 words of state; a context on the stack starts with any contents. The last
  sections state the standard's hash of a whole message and show that both copies compute it, however the
  message is cut into updates.
\<close>

section \<open>The compression function\<close>

definition ROTRIGHT :: "u32 \<Rightarrow> nat \<Rightarrow> u32" where
  "ROTRIGHT a b = drop_bit b a OR push_bit (32 - b) a"

definition CH :: "u32 \<Rightarrow> u32 \<Rightarrow> u32 \<Rightarrow> u32" where
  "CH x y z = (x AND y) XOR (NOT x AND z)"

definition MAJ :: "u32 \<Rightarrow> u32 \<Rightarrow> u32 \<Rightarrow> u32" where
  "MAJ x y z = (x AND y) XOR (x AND z) XOR (y AND z)"

definition EP0 :: "u32 \<Rightarrow> u32" where
  "EP0 x = ROTRIGHT x 2 XOR ROTRIGHT x 13 XOR ROTRIGHT x 22"

definition EP1 :: "u32 \<Rightarrow> u32" where
  "EP1 x = ROTRIGHT x 6 XOR ROTRIGHT x 11 XOR ROTRIGHT x 25"

definition SIG0 :: "u32 \<Rightarrow> u32" where
  "SIG0 x = ROTRIGHT x 7 XOR ROTRIGHT x 18 XOR drop_bit 3 x"

definition SIG1 :: "u32 \<Rightarrow> u32" where
  "SIG1 x = ROTRIGHT x 17 XOR ROTRIGHT x 19 XOR drop_bit 10 x"

definition sha_K :: "u32 list" where
  "sha_K = concat
   [[0x428a2f98, 0x71374491, 0xb5c0fbcf, 0xe9b5dba5],
    [0x3956c25b, 0x59f111f1, 0x923f82a4, 0xab1c5ed5],
    [0xd807aa98, 0x12835b01, 0x243185be, 0x550c7dc3],
    [0x72be5d74, 0x80deb1fe, 0x9bdc06a7, 0xc19bf174],
    [0xe49b69c1, 0xefbe4786, 0x0fc19dc6, 0x240ca1cc],
    [0x2de92c6f, 0x4a7484aa, 0x5cb0a9dc, 0x76f988da],
    [0x983e5152, 0xa831c66d, 0xb00327c8, 0xbf597fc7],
    [0xc6e00bf3, 0xd5a79147, 0x06ca6351, 0x14292967],
    [0x27b70a85, 0x2e1b2138, 0x4d2c6dfc, 0x53380d13],
    [0x650a7354, 0x766a0abb, 0x81c2c92e, 0x92722c85],
    [0xa2bfe8a1, 0xa81a664b, 0xc24b8b70, 0xc76c51a3],
    [0xd192e819, 0xd6990624, 0xf40e3585, 0x106aa070],
    [0x19a4c116, 0x1e376c08, 0x2748774c, 0x34b0bcb5],
    [0x391c0cb3, 0x4ed8aa4a, 0x5b9cca4f, 0x682e6ff3],
    [0x748f82ee, 0x78a5636f, 0x84c87814, 0x8cc70208],
    [0x90befffa, 0xa4506ceb, 0xbef9a3f7, 0xc67178f2]]"

record sha256_ctx =
  sc_data :: "u8 list"
  sc_datalen :: u32
  sc_bitlen :: u64
  sc_state :: "u32 list"

definition be_word :: "u8 list \<Rightarrow> nat \<Rightarrow> u32" where
  "be_word d j = push_bit 24 (ucast (d ! j)) OR push_bit 16 (ucast (d ! (j + 1))) OR push_bit 8 (ucast (d ! (j + 2))) OR ucast (d ! (j + 3))"

fun schedule_loop :: "nat \<Rightarrow> u32 list \<Rightarrow> u32 list" where
  "schedule_loop 0 m = m"
| "schedule_loop (Suc n) m = (let i = length m in
     schedule_loop n (m @ [SIG1 (m ! (i - 2)) + m ! (i - 7) + SIG0 (m ! (i - 15)) + m ! (i - 16)]))"

type_synonym sha_vars = "u32 \<times> u32 \<times> u32 \<times> u32 \<times> u32 \<times> u32 \<times> u32 \<times> u32"

fun sha_round :: "u32 list \<Rightarrow> nat \<Rightarrow> sha_vars \<Rightarrow> sha_vars" where
  "sha_round m i (a, b, c, d, e, f, g, h) =
     (let t1 = h + EP1 e + CH e f g + sha_K ! i + m ! i; t2 = EP0 a + MAJ a b c
      in (t1 + t2, a, b, c, d + t1, e, f, g))"

definition vars_of :: "u32 list \<Rightarrow> sha_vars" where
  "vars_of s = (s ! 0, s ! 1, s ! 2, s ! 3, s ! 4, s ! 5, s ! 6, s ! 7)"

definition sha256_transform :: "u8 list \<Rightarrow> sha256_ctx \<Rightarrow> sha256_ctx" where
  "sha256_transform d ctx =
     (let m = schedule_loop 48 (map (\<lambda>i. be_word d (4 * i)) [0..<16]) in
      case fold (sha_round m) [0..<64] (vars_of (sc_state ctx)) of (a, b, c, dd, e, f, g, h) \<Rightarrow>
        ctx\<lparr>sc_state := map2 (+) (sc_state ctx) [a, b, c, dd, e, f, g, h]\<rparr>)"

section \<open>The kernel's copy\<close>

definition H0 :: "u32 list" where
  "H0 = [0x6a09e667, 0xbb67ae85, 0x3c6ef372, 0xa54ff53a, 0x510e527f, 0x9b05688c, 0x1f83d9ab, 0x5be0cd19]"

definition sha256_init :: "sha256_ctx \<Rightarrow> sha256_ctx" where
  "sha256_init ctx = ctx\<lparr>sc_datalen := 0, sc_bitlen := 0, sc_state := H0\<rparr>"

definition update_byte :: "u8 \<Rightarrow> sha256_ctx \<Rightarrow> sha256_ctx" where
  "update_byte x ctx =
     (let ctx = ctx\<lparr>sc_data := (sc_data ctx)[unat (sc_datalen ctx) := x], sc_datalen := sc_datalen ctx + 1\<rparr> in
      if sc_datalen ctx = 64
      then (sha256_transform (sc_data ctx) ctx)\<lparr>sc_bitlen := sc_bitlen ctx + 512, sc_datalen := 0\<rparr>
      else ctx)"

definition sha256_update :: "u8 list \<Rightarrow> sha256_ctx \<Rightarrow> sha256_ctx" where
  "sha256_update d ctx = fold update_byte d ctx"

text \<open>\<^verbatim>\<open>while (i < hi) data[i++] = 0\<close>: the bytes from \<open>i\<close> up to \<open>hi\<close> are cleared.\<close>

definition zero_from :: "nat \<Rightarrow> nat \<Rightarrow> u8 list \<Rightarrow> u8 list" where
  "zero_from i hi d = fold (\<lambda>k d. d[k := 0]) [i..<hi] d"

definition put_bitlen :: "u64 \<Rightarrow> u8 list \<Rightarrow> u8 list" where
  "put_bitlen n d = d[63 := ucast n, 62 := ucast (drop_bit 8 n), 61 := ucast (drop_bit 16 n), 60 := ucast (drop_bit 24 n),
     59 := ucast (drop_bit 32 n), 58 := ucast (drop_bit 40 n), 57 := ucast (drop_bit 48 n), 56 := ucast (drop_bit 56 n)]"

definition digest :: "u32 list \<Rightarrow> u8 list" where
  "digest s = map (\<lambda>k. ucast (drop_bit (24 - (k mod 4) * 8) (s ! (k div 4)))) [0..<32]"

definition sha256_final :: "sha256_ctx \<Rightarrow> u8 list \<times> sha256_ctx" where
  "sha256_final ctx =
     (let bits = ucast (sc_datalen ctx * 8); i = unat (sc_datalen ctx);
          ctx = ctx\<lparr>sc_data := (sc_data ctx)[i := 0x80]\<rparr>; i = i + 1;
          (i, ctx) = (if i > 56
            then (0, (let ctx = ctx\<lparr>sc_data := zero_from i 64 (sc_data ctx)\<rparr> in (sha256_transform (sc_data ctx) ctx)\<lparr>sc_datalen := 0\<rparr>))
            else (i, ctx));
          ctx = ctx\<lparr>sc_data := zero_from i 56 (sc_data ctx), sc_bitlen := sc_bitlen ctx + bits\<rparr>;
          ctx = ctx\<lparr>sc_data := put_bitlen (sc_bitlen ctx) (sc_data ctx)\<rparr>;
          ctx = sha256_transform (sc_data ctx) ctx
      in (digest (sc_state ctx), ctx))"

definition sha256 :: "sha256_ctx \<Rightarrow> u8 list \<Rightarrow> u8 list" where
  "sha256 ctx d = fst (sha256_final (sha256_update d (sha256_init ctx)))"

text \<open>The list of known hashes is a file the build generates: a parameter.\<close>

definition secure_boot_check :: "(u8 list) list \<Rightarrow> bool \<Rightarrow> sha256_ctx \<Rightarrow> u8 list \<Rightarrow> err_t" where
  "secure_boot_check known enabled ctx d =
     (if \<not> enabled then ERR_OK
      else if \<exists>h\<in>set known. sha256 ctx d = h then ERR_OK else ERR_PERM)"

section \<open>The copy of \<^verbatim>\<open>libtls\<close>\<close>

text \<open>Its compression function, initialisation and loop are those above, word for word; the padding is coded differently.\<close>

definition tls_sha256_transform :: "u8 list \<Rightarrow> sha256_ctx \<Rightarrow> sha256_ctx" where
  "tls_sha256_transform = sha256_transform"

definition tls_sha256_init :: "sha256_ctx \<Rightarrow> sha256_ctx" where
  "tls_sha256_init ctx = ctx\<lparr>sc_datalen := 0, sc_bitlen := 0, sc_state := H0\<rparr>"

definition tls_update_byte :: "u8 \<Rightarrow> sha256_ctx \<Rightarrow> sha256_ctx" where
  "tls_update_byte x ctx =
     (let ctx = ctx\<lparr>sc_data := (sc_data ctx)[unat (sc_datalen ctx) := x], sc_datalen := sc_datalen ctx + 1\<rparr> in
      if sc_datalen ctx = 64
      then (tls_sha256_transform (sc_data ctx) ctx)\<lparr>sc_bitlen := sc_bitlen ctx + 512, sc_datalen := 0\<rparr>
      else ctx)"

definition tls_sha256_update :: "u8 list \<Rightarrow> sha256_ctx \<Rightarrow> sha256_ctx" where
  "tls_sha256_update d ctx = fold tls_update_byte d ctx"

definition tls_sha256_final :: "sha256_ctx \<Rightarrow> u8 list \<times> sha256_ctx" where
  "tls_sha256_final ctx =
     (let i = unat (sc_datalen ctx); d = (sc_data ctx)[i := 0x80];
          ctx = (if i < 56 then ctx\<lparr>sc_data := zero_from (i + 1) 56 d\<rparr>
            else let ctx = ctx\<lparr>sc_data := zero_from (i + 1) 64 d\<rparr>; ctx = tls_sha256_transform (sc_data ctx) ctx
              in ctx\<lparr>sc_data := zero_from 0 56 (sc_data ctx)\<rparr>);
          ctx = ctx\<lparr>sc_bitlen := sc_bitlen ctx + ucast (sc_datalen ctx * 8)\<rparr>;
          ctx = ctx\<lparr>sc_data := put_bitlen (sc_bitlen ctx) (sc_data ctx)\<rparr>;
          ctx = tls_sha256_transform (sc_data ctx) ctx
      in (digest (sc_state ctx), ctx))"

definition tls_sha256 :: "sha256_ctx \<Rightarrow> u8 list \<Rightarrow> u8 list" where
  "tls_sha256 ctx d = fst (tls_sha256_final (tls_sha256_update d (tls_sha256_init ctx)))"

section \<open>The standard\<close>

text \<open>SHA-256 of FIPS 180-4: padding, message schedule and the iteration over blocks, on a whole message.\<close>

definition fips_Sigma0 :: "u32 \<Rightarrow> u32" where "fips_Sigma0 x = word_rotr 2 x XOR word_rotr 13 x XOR word_rotr 22 x"
definition fips_Sigma1 :: "u32 \<Rightarrow> u32" where "fips_Sigma1 x = word_rotr 6 x XOR word_rotr 11 x XOR word_rotr 25 x"
definition fips_sigma0 :: "u32 \<Rightarrow> u32" where "fips_sigma0 x = word_rotr 7 x XOR word_rotr 18 x XOR drop_bit 3 x"
definition fips_sigma1 :: "u32 \<Rightarrow> u32" where "fips_sigma1 x = word_rotr 17 x XOR word_rotr 19 x XOR drop_bit 10 x"

fun fips_W :: "(nat \<Rightarrow> u32) \<Rightarrow> nat \<Rightarrow> u32" where
  "fips_W M t = (if t < 16 then M t
     else fips_sigma1 (fips_W M (t - 2)) + fips_W M (t - 7) + fips_sigma0 (fips_W M (t - 15)) + fips_W M (t - 16))"

declare fips_W.simps [simp del]

fun fips_step :: "(nat \<Rightarrow> u32) \<Rightarrow> nat \<Rightarrow> sha_vars \<Rightarrow> sha_vars" where
  "fips_step M t (a, b, c, d, e, f, g, h) =
     (let T1 = h + fips_Sigma1 e + CH e f g + sha_K ! t + fips_W M t; T2 = fips_Sigma0 a + MAJ a b c
      in (T1 + T2, a, b, c, d + T1, e, f, g))"

definition fips_compress :: "u8 list \<Rightarrow> u32 list \<Rightarrow> u32 list" where
  "fips_compress block H = (case fold (fips_step (\<lambda>t. be_word block (4 * t))) [0..<64] (vars_of H) of
     (a, b, c, d, e, f, g, h) \<Rightarrow> map2 (+) H [a, b, c, d, e, f, g, h])"

definition be64 :: "u64 \<Rightarrow> u8 list" where
  "be64 n = map (\<lambda>k. ucast (drop_bit (56 - 8 * k) n)) [0..<8]"

definition fips_pad :: "u8 list \<Rightarrow> u8 list" where
  "fips_pad m = m @ 0x80 # replicate ((119 - length m mod 64) mod 64) 0 @ be64 (of_nat (8 * length m))"

function blocks64 :: "u8 list \<Rightarrow> u8 list list" where
  "blocks64 xs = (if length xs < 64 then [] else take 64 xs # blocks64 (drop 64 xs))"
  by pat_completeness auto
termination by (relation "measure length") auto

declare blocks64.simps [simp del]

definition fips_sha256 :: "u8 list \<Rightarrow> u8 list" where
  "fips_sha256 m = digest (fold fips_compress (blocks64 (fips_pad m)) H0)"

section \<open>The compression function is that of the standard\<close>

lemma ROTRIGHT_rotr: "0 < n \<Longrightarrow> n < 32 \<Longrightarrow> ROTRIGHT x n = word_rotr n x"
proof (rule bit_word_eqI)
  fix k assume n: "0 < n" "n < 32" and "k < LENGTH(32)"
  then have k: "k < 32" by simp
  show "bit (ROTRIGHT x n) k = bit (word_rotr n x) k"
  proof (cases "k + n < 32")
    case True
    then have "\<not> 32 - n \<le> k" by simp
    with True n show ?thesis by (simp add: ROTRIGHT_def bit_simps add.commute)
  next
    case False
    then have "(n + k) mod 32 = n + k - 32" using k n by (simp add: le_mod_geq)
    with False k n show ?thesis
      using bit_imp_le_length [of x "n + k"] by (auto simp: ROTRIGHT_def bit_simps add.commute)
  qed
qed

lemma sigma_eqs: "EP0 x = fips_Sigma0 x" "EP1 x = fips_Sigma1 x" "SIG0 x = fips_sigma0 x" "SIG1 x = fips_sigma1 x"
  by (simp_all add: EP0_def EP1_def SIG0_def SIG1_def fips_Sigma0_def fips_Sigma1_def fips_sigma0_def fips_sigma1_def ROTRIGHT_rotr)

lemma schedule_W: "16 \<le> k \<Longrightarrow> schedule_loop n (map (fips_W M) [0..<k]) = map (fips_W M) [0..<k + n]"
proof (induction n arbitrary: k)
  case (Suc n)
  have "SIG1 (fips_W M (k - 2)) + fips_W M (k - 7) + SIG0 (fips_W M (k - 15)) + fips_W M (k - 16) = fips_W M k"
    using Suc.prems by (simp add: sigma_eqs fips_W.simps [of M k])
  moreover have "map (fips_W M) [0..<k] @ [fips_W M k] = map (fips_W M) [0..<Suc k]" by simp
  ultimately show ?case using Suc.prems Suc.IH [of "Suc k"] by (simp add: Let_def del: upt_Suc)
qed simp

lemma transform_fips: "sha256_transform d ctx = ctx\<lparr>sc_state := fips_compress d (sc_state ctx)\<rparr>"
proof -
  let ?M = "\<lambda>t. be_word d (4 * t)"
  have w: "map ?M [0..<16] = map (fips_W ?M) [0..<16]" by (rule map_cong) (simp_all add: fips_W.simps del: upt_Suc)
  have m: "schedule_loop 48 (map ?M [0..<16]) = map (fips_W ?M) [0..<64]" unfolding w using schedule_W [of 16 48 ?M] by simp
  have "sha_round (map (fips_W ?M) [0..<64]) i v = fips_step ?M i v" if "i \<in> set [0..<64]" for i v
  proof -
    obtain a b c e f g hk where "v = (a, b, c, e, f, g, hk)" by (rule prod_cases7)
    moreover obtain h k where "hk = (h, k)" by (rule prod.exhaust)
    ultimately have "v = (a, b, c, e, f, g, h, k)" by simp
    then show ?thesis using that by (simp add: sigma_eqs Let_def del: upt_Suc)
  qed
  then have "fold (sha_round (map (fips_W ?M) [0..<64])) [0..<64] = fold (fips_step ?M) [0..<64]"
    by (intro fold_cong ext) (simp_all del: upt_Suc)
  then show ?thesis unfolding sha256_transform_def fips_compress_def m by (simp add: Let_def split: prod.split)
qed

section \<open>Absorbing a message\<close>

text \<open>The context after the bytes \<open>m\<close>: the whole blocks are compressed, the rest is in the buffer.\<close>

definition absorbed :: "sha256_ctx \<Rightarrow> u8 list \<Rightarrow> bool" where
  "absorbed c m \<longleftrightarrow> (\<exists>bs r. m = concat bs @ r \<and> (\<forall>b\<in>set bs. length b = 64) \<and> length r < 64 \<and>
     length (sc_data c) = 64 \<and> take (length r) (sc_data c) = r \<and> sc_datalen c = of_nat (length r) \<and>
     sc_bitlen c = of_nat (512 * length bs) \<and> sc_state c = fold fips_compress bs H0)"

lemma absorbed_init: "length (sc_data c) = 64 \<Longrightarrow> absorbed (sha256_init c) []"
  unfolding absorbed_def sha256_init_def by (intro exI [of _ "[]"]) simp

lemma absorbed_byte:
  assumes "absorbed c m"
  shows "absorbed (update_byte x c) (m @ [x])"
proof -
  from assms obtain bs r where a: "m = concat bs @ r" "\<forall>b\<in>set bs. length b = 64" "length r < 64" "length (sc_data c) = 64"
      "take (length r) (sc_data c) = r" "sc_datalen c = of_nat (length r)" "sc_bitlen c = of_nat (512 * length bs)"
      "sc_state c = fold fips_compress bs H0"
    unfolding absorbed_def by blast
  have u: "unat (sc_datalen c) = length r" using a(3,6) by (simp add: unat_of_nat)
  let ?d = "(sc_data c)[length r := x]"
  have t: "take (length r + 1) ?d = r @ [x]" using a(3,4,5) by (simp add: take_Suc_conv_app_nth)
  show ?thesis
  proof (cases "length r = 63")
    case True
    then have d: "?d = r @ [x]" using t a(4) by simp
    have l: "sc_datalen c + 1 = 64" using a(6) True by simp
    have b: "of_nat (512 * length bs) + 512 = (of_nat (512 * length (bs @ [r @ [x]])) :: u64)" by simp
    show ?thesis unfolding absorbed_def
      by (intro exI [of _ "bs @ [r @ [x]]"] exI [of _ "[]"])
        (use a l b u True d in \<open>auto simp: update_byte_def Let_def transform_fips\<close>)
  next
    case False
    then have s: "length r + 1 < 64" using a(3) by simp
    have "sc_datalen c + 1 \<noteq> 64"
    proof
      assume "sc_datalen c + 1 = 64"
      then have "sc_datalen c = 63" by (simp add: eq_diff_eq [symmetric])
      with u False show False by simp
    qed
    then show ?thesis unfolding absorbed_def
      by (intro exI [of _ bs] exI [of _ "r @ [x]"]) (use a s u t in \<open>auto simp: update_byte_def Let_def\<close>)
  qed
qed

lemma absorbed_update: "absorbed c m \<Longrightarrow> absorbed (sha256_update d c) (m @ d)"
  unfolding sha256_update_def
proof (induction d arbitrary: c m)
  case (Cons x d)
  from Cons.IH [OF absorbed_byte [OF Cons.prems, of x]] show ?case by simp
qed simp

section \<open>Padding\<close>

lemma length_zero_from [simp]: "length (zero_from i hi d) = length d"
proof -
  have "length (fold (\<lambda>k d. d[k := 0]) ks d) = length d" for ks by (induction ks arbitrary: d) simp_all
  then show ?thesis by (simp add: zero_from_def)
qed

lemma zero_from_eq: "i \<le> hi \<Longrightarrow> hi \<le> length d \<Longrightarrow> zero_from i hi d = take i d @ replicate (hi - i) 0 @ drop hi d"
proof (induction "hi - i" arbitrary: i d)
  case (Suc n)
  then have i: "i < hi" by simp
  then have "zero_from i hi d = zero_from (Suc i) hi (d[i := 0])" by (simp add: zero_from_def upt_conv_Cons)
  also have "\<dots> = take (Suc i) (d[i := 0]) @ replicate (hi - Suc i) 0 @ drop hi (d[i := 0])" using Suc i by simp
  also have "\<dots> = take i d @ replicate (hi - i) 0 @ drop hi d"
    using i Suc.prems by (simp add: take_Suc_conv_app_nth Suc_diff_Suc [symmetric])
  finally show ?case .
qed (simp add: zero_from_def)

lemma put_bitlen_eq:
  assumes "length d = 64"
  shows "put_bitlen n d = take 56 d @ be64 n"
proof -
  have "\<exists>a b c e f g h i. xs = [a, b, c, e, f, g, h, i]" if "length xs = Suc (Suc (Suc (Suc (Suc (Suc (Suc (Suc 0)))))))" for xs :: "u8 list"
    using that by (auto simp: length_Suc_conv)
  moreover have "length (drop 56 d) = Suc (Suc (Suc (Suc (Suc (Suc (Suc (Suc 0)))))))" using assms by simp
  ultimately obtain a b c e f g h i where "drop 56 d = [a, b, c, e, f, g, h, i]" by metis
  then have d: "d = take 56 d @ [a, b, c, e, f, g, h, i]" by (metis append_take_drop_id)
  have l: "length (take 56 d) = 56" using assms by simp
  have "put_bitlen n (xs @ [a, b, c, e, f, g, h, i]) = xs @ be64 n" if "length xs = 56" for xs
    using that by (simp add: put_bitlen_def be64_def list_update_append upt_rec)
  from this [OF l] show ?thesis using d by simp
qed

lemma final_buffer:
  assumes "length d = 64" and "take (length r) d = r" and "length r < hi" and "hi \<le> 64"
  shows "zero_from (length r + 1) hi (d[length r := 0x80]) = r @ 0x80 # replicate (hi - 1 - length r) 0 @ drop hi d"
proof -
  have "take (length r + 1) (d[length r := 0x80]) = r @ [0x80]" using assms by (simp add: take_Suc_conv_app_nth)
  then show ?thesis using assms by (subst zero_from_eq) simp_all
qed

lemma blocks64_concat: "\<forall>b\<in>set bs. length b = 64 \<Longrightarrow> blocks64 (concat bs @ r) = bs @ blocks64 r"
  by (induction bs) (simp_all add: blocks64.simps [of "_ @ _ @ _"])

lemma blocks64_one: "length b = 64 \<Longrightarrow> blocks64 b = [b]"
  by (simp add: blocks64.simps)

lemma length_be64 [simp]: "length (be64 n) = 8"
  by (simp add: be64_def)

text \<open>The blocks of the padded message: the whole blocks of the message, and one or two more.\<close>

definition last_blocks :: "u8 list \<Rightarrow> u64 \<Rightarrow> u8 list list" where
  "last_blocks r n = (if length r < 56 then [r @ 0x80 # replicate (55 - length r) 0 @ be64 n]
     else [r @ 0x80 # replicate (63 - length r) 0, replicate 56 0 @ be64 n])"

lemma pad_blocks:
  assumes "\<forall>b\<in>set bs. length b = 64" and "length r < 64"
  shows "blocks64 (fips_pad (concat bs @ r)) = bs @ last_blocks r (of_nat (512 * length bs + 8 * length r))"
proof -
  have "length (concat bs) = 64 * length bs" using assms(1) by (induction bs) simp_all
  then have l: "length (concat bs @ r) mod 64 = length r" "8 * length (concat bs @ r) = 512 * length bs + 8 * length r"
    using assms(2) by simp_all
  define n :: u64 where "n = of_nat (512 * length bs + 8 * length r)"
  have p: "fips_pad (concat bs @ r) = concat bs @ r @ 0x80 # replicate ((119 - length r) mod 64) 0 @ be64 n"
    by (simp add: fips_pad_def l n_def del: length_append)
  have "blocks64 (r @ 0x80 # replicate ((119 - length r) mod 64) 0 @ be64 n) = last_blocks r n"
  proof (cases "length r < 56")
    case True
    then have "(119 - length r) mod 64 = 55 - length r" by (simp add: mod_if)
    then show ?thesis using True by (simp add: last_blocks_def blocks64_one)
  next
    case False
    then have "(119 - length r) mod 64 = 119 - length r" using assms(2) by simp
    moreover have "replicate (119 - length r) (0 :: u8) = replicate (63 - length r) 0 @ replicate 56 0"
      using assms(2) by (simp add: replicate_add [symmetric])
    ultimately have "r @ 0x80 # replicate ((119 - length r) mod 64) 0 @ be64 n
        = concat [r @ 0x80 # replicate (63 - length r) 0] @ replicate 56 0 @ be64 n" by simp
    moreover have "\<forall>b\<in>set [r @ 0x80 # replicate (63 - length r) (0 :: u8)]. length b = 64" using assms(2) by simp
    ultimately show ?thesis using False blocks64_concat [of "[r @ 0x80 # replicate (63 - length r) 0]" "replicate 56 0 @ be64 n"] blocks64_one [of "replicate 56 0 @ be64 n"]
      by (simp only: last_blocks_def if_False append_Cons append_Nil length_append length_replicate length_be64)
  qed
  then show ?thesis unfolding p using blocks64_concat [OF assms(1)] by (simp add: n_def)
qed

lemma digest_blocks:
  assumes "absorbed c m"
  obtains bs r where "m = concat bs @ r" "length r < 64" "length (sc_data c) = 64" "take (length r) (sc_data c) = r" "unat (sc_datalen c) = length r"
    "sc_bitlen c + ucast (sc_datalen c * 8) = of_nat (512 * length bs + 8 * length r)" "sc_state c = fold fips_compress bs H0"
    "fips_sha256 m = digest (fold fips_compress (last_blocks r (of_nat (512 * length bs + 8 * length r))) (fold fips_compress bs H0))"
proof -
  from assms obtain bs r where a: "m = concat bs @ r" "\<forall>b\<in>set bs. length b = 64" "length r < 64" "length (sc_data c) = 64"
      "take (length r) (sc_data c) = r" "sc_datalen c = of_nat (length r)" "sc_bitlen c = of_nat (512 * length bs)"
      "sc_state c = fold fips_compress bs H0"
    unfolding absorbed_def by blast
  have u: "unat (sc_datalen c) = length r" using a(3,6) by (simp add: unat_of_nat)
  have "sc_datalen c * 8 = of_nat (8 * length r)" using a(6) by simp
  then have "unat (sc_datalen c * 8) = 8 * length r" using a(3) by (simp add: unat_of_nat del: of_nat_mult)
  then have "(ucast (sc_datalen c * 8) :: u64) = of_nat (8 * length r)" by (metis of_nat_unat)
  then have b: "sc_bitlen c + ucast (sc_datalen c * 8) = of_nat (512 * length bs + 8 * length r)" using a(7) by simp
  have f: "fips_sha256 m = digest (fold fips_compress (last_blocks r (of_nat (512 * length bs + 8 * length r))) (fold fips_compress bs H0))"
    unfolding fips_sha256_def a(1) pad_blocks [OF a(2,3)] by simp
  show ?thesis by (rule that [OF a(1,3,4,5) u b a(8) f])
qed

lemma final_fips:
  assumes "absorbed c m"
  shows "fst (sha256_final c) = fips_sha256 m"
proof -
  from digest_blocks [OF assms] obtain bs r where a: "m = concat bs @ r" "length r < 64" "length (sc_data c) = 64" "take (length r) (sc_data c) = r"
      "unat (sc_datalen c) = length r" "sc_bitlen c + ucast (sc_datalen c * 8) = of_nat (512 * length bs + 8 * length r)"
      "sc_state c = fold fips_compress bs H0"
      "fips_sha256 m = digest (fold fips_compress (last_blocks r (of_nat (512 * length bs + 8 * length r))) (fold fips_compress bs H0))" .
  define n :: u64 where "n = of_nat (512 * length bs + 8 * length r)"
  note a = a [folded n_def]
  show ?thesis
  proof (cases "length r < 56")
    case True
    note b = final_buffer [OF a(3,4) True]
    have "take (56 - length r) (0x80 # replicate (55 - length r) 0 @ xs) = 0x80 # replicate (55 - length r) 0" for xs :: "u8 list"
      using True by (simp add: take_Cons')
    then show ?thesis using True a b by (simp add: sha256_final_def Let_def transform_fips put_bitlen_eq last_blocks_def)
  next
    case False
    note b = final_buffer [OF a(3,4,2)]
    have z: "zero_from 0 56 d = replicate 56 0 @ drop 56 d" if "length d = 64" for d using that by (simp add: zero_from_eq)
    show ?thesis using False a b z by (simp add: sha256_final_def Let_def transform_fips put_bitlen_eq last_blocks_def)
  qed
qed

lemma tls_eqs: "tls_sha256_init = sha256_init" "tls_sha256_update = sha256_update"
proof -
  have "tls_update_byte = update_byte"
    by (intro ext) (simp only: tls_update_byte_def update_byte_def tls_sha256_transform_def)
  then show "tls_sha256_init = sha256_init" "tls_sha256_update = sha256_update"
    by (intro ext, simp only: tls_sha256_init_def sha256_init_def tls_sha256_update_def sha256_update_def)+
qed

lemma tls_final_fips:
  assumes "absorbed c m"
  shows "fst (tls_sha256_final c) = fips_sha256 m"
proof -
  from digest_blocks [OF assms] obtain bs r where a: "m = concat bs @ r" "length r < 64" "length (sc_data c) = 64" "take (length r) (sc_data c) = r"
      "unat (sc_datalen c) = length r" "sc_bitlen c + ucast (sc_datalen c * 8) = of_nat (512 * length bs + 8 * length r)"
      "sc_state c = fold fips_compress bs H0"
      "fips_sha256 m = digest (fold fips_compress (last_blocks r (of_nat (512 * length bs + 8 * length r))) (fold fips_compress bs H0))" .
  define n :: u64 where "n = of_nat (512 * length bs + 8 * length r)"
  note a = a [folded n_def]
  show ?thesis
  proof (cases "length r < 56")
    case True
    note b = final_buffer [OF a(3,4) True]
    have "take (56 - length r) (0x80 # replicate (55 - length r) 0 @ xs) = 0x80 # replicate (55 - length r) 0" for xs :: "u8 list"
      using True by (simp add: take_Cons')
    then show ?thesis using True a b by (simp add: tls_sha256_final_def tls_sha256_transform_def Let_def transform_fips put_bitlen_eq last_blocks_def)
  next
    case False
    note b = final_buffer [OF a(3,4,2)]
    have z: "zero_from 0 56 d = replicate 56 0 @ drop 56 d" if "length d = 64" for d using that by (simp add: zero_from_eq)
    show ?thesis using False a b z by (simp add: tls_sha256_final_def tls_sha256_transform_def Let_def transform_fips put_bitlen_eq last_blocks_def)
  qed
qed

section \<open>A streaming hash\<close>

text \<open>
  The interface its clients use: contexts that have been initialised absorb byte strings piece by piece, and the
  result is the hash of all of them.
\<close>

locale streaming_hash =
  fixes init :: "'c \<Rightarrow> 'c" and update :: "'b list \<Rightarrow> 'c \<Rightarrow> 'c" and final :: "'c \<Rightarrow> 'b list \<times> 'c"
    and H :: "'b list \<Rightarrow> 'b list" and ok :: "'c \<Rightarrow> bool" and holds :: "'c \<Rightarrow> 'b list \<Rightarrow> bool"
  assumes start: "ok c \<Longrightarrow> holds (init c) []"
    and absorb: "holds c m \<Longrightarrow> holds (update d c) (m @ d)"
    and finish: "holds c m \<Longrightarrow> fst (final c) = H m"
begin

lemma pieces: "holds c m \<Longrightarrow> holds (fold update ds c) (m @ concat ds)"
proof (induction ds arbitrary: c m)
  case (Cons d ds)
  from Cons.IH [OF absorb [OF Cons.prems, of d]] show ?case by simp
qed simp

lemma hash_pieces: "ok c \<Longrightarrow> fst (final (fold update ds (init c))) = H (concat ds)"
  using finish [OF pieces [OF start]] by simp

lemma hash_whole: "ok c \<Longrightarrow> fst (final (update d (init c))) = H d"
  using hash_pieces [of c "[d]"] by simp

lemma hash_two: "ok c \<Longrightarrow> fst (final (update e (update d (init c)))) = H (d @ e)"
  using hash_pieces [of c "[d, e]"] by simp

lemma hash_three: "ok c \<Longrightarrow> fst (final (update f (update e (update d (init c))))) = H (d @ e @ f)"
  using hash_pieces [of c "[d, e, f]"] by simp

end

definition ctx_ok :: "sha256_ctx \<Rightarrow> bool" where
  "ctx_ok c \<longleftrightarrow> length (sc_data c) = 64"

interpretation ks: streaming_hash sha256_init sha256_update sha256_final fips_sha256 ctx_ok absorbed
  by unfold_locales (simp_all add: ctx_ok_def absorbed_init absorbed_update final_fips)

interpretation ts: streaming_hash tls_sha256_init tls_sha256_update tls_sha256_final fips_sha256 ctx_ok absorbed
  by unfold_locales (simp_all add: ctx_ok_def absorbed_init absorbed_update tls_final_fips tls_eqs)

text \<open>
  C20. Both copies compute SHA-256 as the standard defines it on the whole message, however the message is cut into updates
  and whatever the context held before: the kernel's and the TLS library's digests of the pieces \<open>ds\<close> are the
  standard's hash of their concatenation.
\<close>

theorem sha256_streams_fips:
  assumes "ctx_ok c" and "ctx_ok c'"
  shows "fst (sha256_final (fold sha256_update ds (sha256_init c))) = fips_sha256 (concat ds) \<and>
    fst (tls_sha256_final (fold tls_sha256_update ds (tls_sha256_init c'))) = fips_sha256 (concat ds) \<and>
    sha256 c (concat ds) = tls_sha256 c' (concat ds)"
  using ks.hash_pieces [OF assms(1)] ts.hash_pieces [OF assms(2)] ks.hash_whole [OF assms(1)] ts.hash_whole [OF assms(2)]
  by (simp add: sha256_def tls_sha256_def)

definition ctx_demo :: sha256_ctx where
  "ctx_demo = \<lparr>sc_data = replicate 64 7, sc_datalen = 9, sc_bitlen = 1, sc_state = []\<rparr>"

theorem sha256_streams_fips_witness:
  "fst (sha256_final (sha256_update [3] (sha256_update [1, 2] (sha256_init ctx_demo)))) = fips_sha256 [1, 2, 3] \<and>
   sha256 ctx_demo [1, 2, 3] = tls_sha256 ctx_demo [1, 2, 3]"
proof -
  have "ctx_ok ctx_demo" by (simp add: ctx_ok_def ctx_demo_def)
  from sha256_streams_fips [OF this this, of "[[1, 2], [3]]"] show ?thesis by simp
qed

text \<open>The boot check accepts exactly the images whose standard hash is known, whatever the stack held.\<close>

lemma secure_boot_check_iff:
  "ctx_ok c \<Longrightarrow> secure_boot_check known True c d = ERR_OK \<longleftrightarrow> fips_sha256 d \<in> set known"
  using ks.hash_whole [of c d] by (simp add: secure_boot_check_def sha256_def)

end
