(* ===== verification/Hkdf.thy ===== *)
theory Hkdf
  imports Sha256
begin

text \<open>
  Message authentication and key derivation of the TLS library, \<^verbatim>\<open>hkdf.c\<close>, over its SHA-256. Contexts on the stack start with any
  contents, the argument \<open>c\<close>. The label buffer has 128 bytes: a longer label is the outcome \<open>None\<close>.
\<close>

section \<open>Model\<close>

definition hmac_key :: "sha256_ctx \<Rightarrow> u8 list \<Rightarrow> u8 list" where
  "hmac_key c key = (if length key > 64 then tls_sha256 c key @ replicate 32 0 else key @ replicate (64 - length key) 0)"

definition tls_hmac_sha256 :: "sha256_ctx \<Rightarrow> u8 list \<Rightarrow> u8 list \<Rightarrow> u8 list" where
  "tls_hmac_sha256 c key d = (let k0 = hmac_key c key; ipad = map (\<lambda>x. x XOR 0x36) k0; opad = map (\<lambda>x. x XOR 0x5c) k0 in
     case tls_sha256_final (tls_sha256_update d (tls_sha256_update ipad (tls_sha256_init c))) of
       (inner, c) \<Rightarrow> fst (tls_sha256_final (tls_sha256_update inner (tls_sha256_update opad (tls_sha256_init c)))))"

definition tls_hkdf_extract :: "sha256_ctx \<Rightarrow> u8 list \<Rightarrow> u8 list \<Rightarrow> u8 list" where
  "tls_hkdf_extract c salt ikm = tls_hmac_sha256 c salt ikm"

lemma length_digest [simp]: "length (digest s) = 32"
  by (simp add: digest_def)

lemma length_tls_final [simp]: "length (fst (tls_sha256_final c)) = 32"
  by (simp add: tls_sha256_final_def Let_def)

definition expand_block :: "sha256_ctx \<Rightarrow> u8 list \<Rightarrow> u8 \<Rightarrow> u8 list \<Rightarrow> u8 list" where
  "expand_block c info i t = (let ctx = tls_sha256_init c; ctx = (if i > 1 then tls_sha256_update t ctx else ctx);
     ctx = tls_sha256_update info ctx; ctx = tls_sha256_update [i] ctx in fst (tls_sha256_final ctx))"

function expand_loop :: "sha256_ctx \<Rightarrow> u8 list \<Rightarrow> nat \<Rightarrow> u8 \<Rightarrow> u8 list \<Rightarrow> u8 list \<Rightarrow> u8 list" where
  "expand_loop c info n i t out = (if length out < n
     then let t = expand_block c info i t in expand_loop c info n (i + 1) t (out @ take (n - length out) t)
     else out)"
  by pat_completeness auto
termination
  by (relation "measure (\<lambda>(c, info, n, i, t, out). n - length out)") (auto simp: expand_block_def Let_def)

declare expand_loop.simps [simp del]

text \<open>The pseudo-random key is an argument of the function; the body does not mention it. \<open>t0\<close> is the block before its first assignment.\<close>

definition tls_hkdf_expand :: "sha256_ctx \<Rightarrow> u8 list \<Rightarrow> u8 list \<Rightarrow> u8 list \<Rightarrow> nat \<Rightarrow> u8 list" where
  "tls_hkdf_expand c t0 prk info n = expand_loop c info n 1 t0 []"

definition label_info :: "u8 list \<Rightarrow> u8 list \<Rightarrow> nat \<Rightarrow> u8 list" where
  "label_info label hash n = [ucast (drop_bit 8 (of_nat n :: u64)), ucast (of_nat n :: u64)] @ [0x74, 0x6c, 0x73, 0x31, 0x33, 0x20] @ label @
     [of_nat (length hash)] @ hash"

definition tls_hkdf_expand_label :: "sha256_ctx \<Rightarrow> u8 list \<Rightarrow> u8 list \<Rightarrow> u8 list \<Rightarrow> u8 list \<Rightarrow> nat \<Rightarrow> u8 list option" where
  "tls_hkdf_expand_label c t0 secret label hash n =
     (if 2 + 6 + length label + 1 + length hash \<le> 128 then Some (tls_hkdf_expand c t0 secret (label_info label hash n) n) else None)"

text \<open>\<^verbatim>\<open>tls_record.c\<close>\<close>

definition tls_derive_secret :: "sha256_ctx \<Rightarrow> u8 list \<Rightarrow> u8 list \<Rightarrow> u8 list \<Rightarrow> u8 list \<Rightarrow> nat \<Rightarrow> u8 list option" where
  "tls_derive_secret c t0 secret label hash n = tls_hkdf_expand_label c t0 secret label hash n"

section \<open>Two passes over a streaming hash\<close>

locale reusable_hash = streaming_hash init update final H ok holds
  for init :: "'c \<Rightarrow> 'c" and update :: "'b list \<Rightarrow> 'c \<Rightarrow> 'c" and final :: "'c \<Rightarrow> 'b list \<times> 'c"
    and H :: "'b list \<Rightarrow> 'b list" and ok :: "'c \<Rightarrow> bool" and holds :: "'c \<Rightarrow> 'b list \<Rightarrow> bool" +
  assumes again: "holds c m \<Longrightarrow> ok (snd (final c))"
begin

lemma two_passes:
  assumes "ok c"
  shows "(case final (update d (update p (init c))) of (inner, c) \<Rightarrow> fst (final (update inner (update q (init c))))) = H (q @ H (p @ d))"
proof -
  have "holds (update d (update p (init c))) ((([] @ p) @ d))" by (rule absorb [OF absorb [OF start [OF assms]]])
  then have "fst (final (update d (update p (init c)))) = H (p @ d)" "ok (snd (final (update d (update p (init c)))))"
    using finish again by simp_all
  then show ?thesis using hash_two by (simp add: case_prod_unfold)
qed

end

lemma put_bitlen_length [simp]: "length (put_bitlen n d) = length d"
  by (simp add: put_bitlen_def)

lemma final_ctx_ok: "absorbed c m \<Longrightarrow> ctx_ok (snd (tls_sha256_final c))"
  by (auto simp: absorbed_def ctx_ok_def tls_sha256_final_def tls_sha256_transform_def transform_fips Let_def)

interpretation th: reusable_hash tls_sha256_init tls_sha256_update tls_sha256_final fips_sha256 ctx_ok absorbed
  by unfold_locales (rule final_ctx_ok)

section \<open>The standards\<close>

text \<open>HMAC of FIPS 198-1 over the standard's SHA-256.\<close>

definition fips_k0 :: "u8 list \<Rightarrow> u8 list" where
  "fips_k0 key = (if length key \<le> 64 then key @ replicate (64 - length key) 0 else fips_sha256 key @ replicate 32 0)"

definition fips_hmac :: "u8 list \<Rightarrow> u8 list \<Rightarrow> u8 list" where
  "fips_hmac key m = fips_sha256 (map (\<lambda>x. x XOR 0x5c) (fips_k0 key) @ fips_sha256 (map (\<lambda>x. x XOR 0x36) (fips_k0 key) @ m))"

text \<open>
  C35. The MAC of the TLS library is the standard's HMAC, for keys of any length, and so is the extraction step of the key derivation.
\<close>

theorem hmac_fips:
  assumes "ctx_ok c"
  shows "tls_hmac_sha256 c key d = fips_hmac key d \<and> tls_hkdf_extract c key d = fips_hmac key d"
proof -
  have "hmac_key c key = fips_k0 key"
    using ts.hash_whole [OF assms] by (simp add: hmac_key_def fips_k0_def tls_sha256_def)
  then show ?thesis using th.two_passes [OF assms] by (simp add: tls_hmac_sha256_def tls_hkdf_extract_def fips_hmac_def Let_def)
qed

theorem hmac_fips_witness: "tls_hmac_sha256 ctx_demo [1] [2] = fips_hmac [1] [2]"
proof -
  have "ctx_ok ctx_demo" by (simp add: ctx_ok_def ctx_demo_def)
  from hmac_fips [OF this] show ?thesis by blast
qed

section \<open>Derived keys\<close>

text \<open>What the expansion computes: for at most one block, a plain hash of the label.\<close>

lemma expand_one_block:
  assumes "ctx_ok c" and "n \<le> 32"
  shows "tls_hkdf_expand c t0 prk info n = take n (fips_sha256 (info @ [1]))"
proof (cases "n = 0")
  case False
  have b: "expand_block c info 1 t0 = fips_sha256 (info @ [1])" using ts.hash_two [OF assms(1)] by (simp add: expand_block_def Let_def)
  have l: "length (expand_block c info 1 t0) = 32" by (simp add: expand_block_def Let_def)
  have "expand_loop c info n 1 t0 [] = expand_loop c info n 2 (expand_block c info 1 t0) (take n (expand_block c info 1 t0))"
    using False by (simp add: expand_loop.simps [of c info n 1] Let_def)
  also have "\<dots> = take n (expand_block c info 1 t0)" using l assms(2) by (simp add: expand_loop.simps [of c info n 2])
  finally show ?thesis using b by (simp add: tls_hkdf_expand_def)
qed (simp add: tls_hkdf_expand_def expand_loop.simps)

lemma derive_one_block:
  assumes "ctx_ok c" and "n \<le> 32" and "length label + length hash \<le> 119"
  shows "tls_derive_secret c t0 secret label hash n = Some (take n (fips_sha256 (label_info label hash n @ [1])))"
  using assms by (simp add: tls_derive_secret_def tls_hkdf_expand_label_def expand_one_block)

end
