(* ===== verification/Aes_Gcm.thy ===== *)
theory Aes_Gcm
  imports Kernel_Prelude
begin

text \<open>
  AES-128 in Galois/counter mode, \<^verbatim>\<open>aes.c\<close> of the TLS library. Byte arrays are lists. The buffer for the authenticated data has 256
  bytes: writing past its end is the outcome \<open>GcmOverflow\<close>.
\<close>

section \<open>The block cipher\<close>

definition sbox :: "u8 list" where
  "sbox =
  [0x63, 0x7c, 0x77, 0x7b, 0xf2, 0x6b, 0x6f, 0xc5, 0x30, 0x01, 0x67, 0x2b, 0xfe, 0xd7, 0xab, 0x76,
   0xca, 0x82, 0xc9, 0x7d, 0xfa, 0x59, 0x47, 0xf0, 0xad, 0xd4, 0xa2, 0xaf, 0x9c, 0xa4, 0x72, 0xc0,
   0xb7, 0xfd, 0x93, 0x26, 0x36, 0x3f, 0xf7, 0xcc, 0x34, 0xa5, 0xe5, 0xf1, 0x71, 0xd8, 0x31, 0x15,
   0x04, 0xc7, 0x23, 0xc3, 0x18, 0x96, 0x05, 0x9a, 0x07, 0x12, 0x80, 0xe2, 0xeb, 0x27, 0xb2, 0x75,
   0x09, 0x83, 0x2c, 0x1a, 0x1b, 0x6e, 0x5a, 0xa0, 0x52, 0x3b, 0xd6, 0xb3, 0x29, 0xe3, 0x2f, 0x84,
   0x53, 0xd1, 0x00, 0xed, 0x20, 0xfc, 0xb1, 0x5b, 0x6a, 0xcb, 0xbe, 0x39, 0x4a, 0x4c, 0x58, 0xcf,
   0xd0, 0xef, 0xaa, 0xfb, 0x43, 0x4d, 0x33, 0x85, 0x45, 0xf9, 0x02, 0x7f, 0x50, 0x3c, 0x9f, 0xa8,
   0x51, 0xa3, 0x40, 0x8f, 0x92, 0x9d, 0x38, 0xf5, 0xbc, 0xb6, 0xda, 0x21, 0x10, 0xff, 0xf3, 0xd2,
   0xcd, 0x0c, 0x13, 0xec, 0x5f, 0x97, 0x44, 0x17, 0xc4, 0xa7, 0x7e, 0x3d, 0x64, 0x5d, 0x19, 0x73,
   0x60, 0x81, 0x4f, 0xdc, 0x22, 0x2a, 0x90, 0x88, 0x46, 0xee, 0xb8, 0x14, 0xde, 0x5e, 0x0b, 0xdb,
   0xe0, 0x32, 0x3a, 0x0a, 0x49, 0x06, 0x24, 0x5c, 0xc2, 0xd3, 0xac, 0x62, 0x91, 0x95, 0xe4, 0x79,
   0xe7, 0xc8, 0x37, 0x6d, 0x8d, 0xd5, 0x4e, 0xa9, 0x6c, 0x56, 0xf4, 0xea, 0x65, 0x7a, 0xae, 0x08,
   0xba, 0x78, 0x25, 0x2e, 0x1c, 0xa6, 0xb4, 0xc6, 0xe8, 0xdd, 0x74, 0x1f, 0x4b, 0xbd, 0x8b, 0x8a,
   0x70, 0x3e, 0xb5, 0x66, 0x48, 0x03, 0xf6, 0x0e, 0x61, 0x35, 0x57, 0xb9, 0x86, 0xc1, 0x1d, 0x9e,
   0xe1, 0xf8, 0x98, 0x11, 0x69, 0xd9, 0x8e, 0x94, 0x9b, 0x1e, 0x87, 0xe9, 0xce, 0x55, 0x28, 0xdf,
   0x8c, 0xa1, 0x89, 0x0d, 0xbf, 0xe6, 0x42, 0x68, 0x41, 0x99, 0x2d, 0x0f, 0xb0, 0x54, 0xbb, 0x16]"

definition rcon :: "u8 list" where
  "rcon = [0x00, 0x01, 0x02, 0x04, 0x08, 0x10, 0x20, 0x40, 0x80, 0x1b, 0x36]"

definition sub_byte :: "u8 \<Rightarrow> u8" where
  "sub_byte b = sbox ! unat b"

definition xtime :: "u8 \<Rightarrow> u8" where
  "xtime a = push_bit 1 a XOR ((drop_bit 7 a AND 1) * 0x1b)"

fun gf_mix_column :: "u8 list \<Rightarrow> u8 list" where
  "gf_mix_column [r0, r1, r2, r3] = (let t = r0 XOR r1 XOR r2 XOR r3; u = r0;
     r0 = r0 XOR (t XOR xtime (r0 XOR r1)); r1 = r1 XOR (t XOR xtime (r1 XOR r2));
     r2 = r2 XOR (t XOR xtime (r2 XOR r3)); r3 = r3 XOR (t XOR xtime (r3 XOR u)) in [r0, r1, r2, r3])"
| "gf_mix_column s = s"

definition sub_word :: "u8 list \<Rightarrow> u8 list" where
  "sub_word w = map sub_byte w"

definition rot_word :: "u8 list \<Rightarrow> u8 list" where
  "rot_word w = [w ! 1, w ! 2, w ! 3, w ! 0]"

definition expand_word :: "nat \<Rightarrow> u8 list \<Rightarrow> u8 list" where
  "expand_word i rk = (let temp = take 4 (drop (4 * (i - 1)) rk);
       temp = (if i mod 4 = 0 then (let t = sub_word (rot_word temp) in t[0 := t ! 0 XOR rcon ! (i div 4)]) else temp)
     in rk @ map2 (XOR) (take 4 (drop (4 * (i - 4)) rk)) temp)"

definition tls_aes128_key_expand :: "u8 list \<Rightarrow> u8 list" where
  "tls_aes128_key_expand key = fold expand_word [4..<44] key"

definition xor_key :: "u8 list \<Rightarrow> nat \<Rightarrow> u8 list \<Rightarrow> u8 list" where
  "xor_key rk r s = map2 (XOR) s (take 16 (drop (16 * r) rk))"

definition shift_rows :: "u8 list \<Rightarrow> u8 list" where
  "shift_rows s = map ((!) s) [0, 5, 10, 15, 4, 9, 14, 3, 8, 13, 2, 7, 12, 1, 6, 11]"

definition mix_columns :: "u8 list \<Rightarrow> u8 list" where
  "mix_columns s = gf_mix_column (take 4 s) @ gf_mix_column (take 4 (drop 4 s)) @ gf_mix_column (take 4 (drop 8 s)) @ gf_mix_column (drop 12 s)"

definition aes_round :: "u8 list \<Rightarrow> nat \<Rightarrow> u8 list \<Rightarrow> u8 list" where
  "aes_round rk r s = (let s = map sub_byte s; s = shift_rows s; s = (if r < 10 then mix_columns s else s) in xor_key rk r s)"

definition tls_aes128_encrypt_block :: "u8 list \<Rightarrow> u8 list \<Rightarrow> u8 list" where
  "tls_aes128_encrypt_block rk inp = fold (aes_round rk) [1..<11] (xor_key rk 0 inp)"

section \<open>GHASH\<close>

definition shift_right :: "u8 list \<Rightarrow> u8 list" where
  "shift_right v = drop_bit 1 (v ! 0) # map (\<lambda>j. drop_bit 1 (v ! j) OR push_bit 7 (v ! (j - 1))) [1..<16]"

definition gcm_step :: "u8 list \<Rightarrow> nat \<Rightarrow> u8 list \<times> u8 list \<Rightarrow> u8 list \<times> u8 list" where
  "gcm_step x b = (\<lambda>(z, v). (let z = (if x ! (b div 8) AND drop_bit (b mod 8) 0x80 \<noteq> 0 then map2 (XOR) z v else z);
       lsb = v ! 15 AND 1; v = shift_right v in (z, if lsb \<noteq> 0 then v[0 := v ! 0 XOR 0xe1] else v)))"

definition gcm_mul :: "u8 list \<Rightarrow> u8 list \<Rightarrow> u8 list" where
  "gcm_mul x y = fst (fold (gcm_step x) [0..<128] (replicate 16 0, y))"

definition pad16 :: "u8 list \<Rightarrow> u8 list" where
  "pad16 b = b @ replicate (16 - length b) 0"

function ghash_loop :: "u8 list \<Rightarrow> u8 list \<Rightarrow> u8 list \<Rightarrow> u8 list" where
  "ghash_loop h d out = (if d = [] then out
     else ghash_loop h (drop 16 d) (gcm_mul (map2 (XOR) out (pad16 (take 16 d))) h))"
  by pat_completeness auto
termination by (relation "measure (\<lambda>(h, d, out). length d)") auto

declare ghash_loop.simps [simp del]

definition gcm_ghash :: "u8 list \<Rightarrow> u8 list \<Rightarrow> u8 list" where
  "gcm_ghash h d = ghash_loop h d (replicate 16 0)"

section \<open>Counter mode\<close>

fun inc_from :: "nat list \<Rightarrow> u8 list \<Rightarrow> u8 list" where
  "inc_from [] x = x"
| "inc_from (i # is) x = (let x = x[i := x ! i + 1] in if x ! i \<noteq> 0 then x else inc_from is x)"

definition inc32 :: "u8 list \<Rightarrow> u8 list" where
  "inc32 x = inc_from [15, 14, 13, 12] x"

function ctr_loop :: "u8 list \<Rightarrow> u8 list \<Rightarrow> u8 list \<Rightarrow> u8 list" where
  "ctr_loop rk cb p = (if p = [] then []
     else let cb = inc32 cb; e = tls_aes128_encrypt_block rk cb
       in map2 (XOR) (take 16 p) e @ ctr_loop rk cb (drop 16 p))"
  by pat_completeness auto
termination by (relation "measure (\<lambda>(rk, cb, p). length p)") auto

declare ctr_loop.simps [simp del]

definition be_len :: "nat \<Rightarrow> u8 list" where
  "be_len n = (let b = of_nat n * 8 :: u64 in map (\<lambda>i. ucast (drop_bit (56 - 8 * i) b)) [0..<8])"

definition pad_len :: "nat \<Rightarrow> nat" where
  "pad_len n = (if n mod 16 \<noteq> 0 then 16 - n mod 16 else 0)"

text \<open>The GHASH input, or \<open>None\<close> when it does not fit into the buffer \<open>auth[256]\<close>: the code does not test this and writes behind the buffer.\<close>

definition auth_input :: "u8 list \<Rightarrow> u8 list \<Rightarrow> u8 list option" where
  "auth_input aad c = (let off = length aad + pad_len (length aad) + length c + pad_len (length c) in
     if off + 16 \<le> 256
     then Some (aad @ replicate (pad_len (length aad)) 0 @ c @ replicate (pad_len (length c)) 0 @ be_len (length aad) @ be_len (length c))
     else None)"

definition gcm_j0 :: "u8 list \<Rightarrow> u8 list" where
  "gcm_j0 nonce = nonce @ [0, 0, 0, 1]"

definition gcm_tag :: "u8 list \<Rightarrow> u8 list \<Rightarrow> u8 list \<Rightarrow> u8 list" where
  "gcm_tag rk nonce auth = (let h = tls_aes128_encrypt_block rk (replicate 16 0)
     in map2 (XOR) (gcm_ghash h auth) (tls_aes128_encrypt_block rk (gcm_j0 nonce)))"

datatype 'a gcm_result = GcmOverflow | GcmReject | GcmOk 'a

definition tls_aes128_gcm_encrypt :: "u8 list \<Rightarrow> u8 list \<Rightarrow> u8 list \<Rightarrow> u8 list \<Rightarrow> (u8 list \<times> u8 list) gcm_result" where
  "tls_aes128_gcm_encrypt key nonce aad plain = (let rk = tls_aes128_key_expand key;
       cipher = ctr_loop rk (gcm_j0 nonce) plain in
     case auth_input aad cipher of
       None \<Rightarrow> GcmOverflow
     | Some auth \<Rightarrow> GcmOk (cipher, gcm_tag rk nonce auth))"

definition tls_aes128_gcm_decrypt :: "u8 list \<Rightarrow> u8 list \<Rightarrow> u8 list \<Rightarrow> u8 list \<Rightarrow> u8 list \<Rightarrow> u8 list gcm_result" where
  "tls_aes128_gcm_decrypt key nonce aad cipher tag = (let rk = tls_aes128_key_expand key in
     case auth_input aad cipher of
       None \<Rightarrow> GcmOverflow
     | Some auth \<Rightarrow> if gcm_tag rk nonce auth \<noteq> tag then GcmReject
         else GcmOk (ctr_loop rk (gcm_j0 nonce) cipher))"

section \<open>Lengths\<close>

lemma length_mix [simp]: "length (gf_mix_column s) = length s"
  by (induction s rule: gf_mix_column.induct) (simp_all add: Let_def)

lemma length_aes_round: "length s = 16 \<Longrightarrow> 16 * Suc r \<le> length rk \<Longrightarrow> length (aes_round rk r s) = 16"
  by (simp add: aes_round_def xor_key_def shift_rows_def mix_columns_def Let_def)

lemma length_fold_round: "length s = 16 \<Longrightarrow> \<forall>r\<in>set rs. 16 * Suc r \<le> length rk \<Longrightarrow> length (fold (aes_round rk) rs s) = 16"
  by (induction rs arbitrary: s) (simp_all add: length_aes_round)

lemma length_encrypt_block: "length rk = 176 \<Longrightarrow> length inp = 16 \<Longrightarrow> length (tls_aes128_encrypt_block rk inp) = 16"
  unfolding tls_aes128_encrypt_block_def by (rule length_fold_round) (auto simp: xor_key_def)

lemma length_expand_word: "length rk = 4 * i \<Longrightarrow> 4 \<le> i \<Longrightarrow> length (expand_word i rk) = 4 * Suc i"
  by (simp add: expand_word_def Let_def sub_word_def rot_word_def)

lemma length_key_expand: "length key = 16 \<Longrightarrow> length (tls_aes128_key_expand key) = 176"
proof -
  have "length rk = 4 * i \<Longrightarrow> 4 \<le> i \<Longrightarrow> length (fold expand_word [i..<i + n] rk) = 4 * (i + n)" for rk i n
  proof (induction n arbitrary: i rk)
    case (Suc n)
    from Suc.IH [of "expand_word i rk" "Suc i"] Suc.prems show ?case
      by (simp add: upt_conv_Cons length_expand_word del: upt_Suc)
  qed simp
  from this [of key 4 40] show "length key = 16 \<Longrightarrow> length (tls_aes128_key_expand key) = 176"
    by (simp add: tls_aes128_key_expand_def)
qed

lemma length_inc_from [simp]: "length (inc_from is x) = length x"
  by (induction "is" x rule: inc_from.induct) (simp_all add: Let_def)

lemma length_inc32 [simp]: "length (inc32 x) = length x"
  unfolding inc32_def by (rule length_inc_from)

section \<open>The cipher of the standard\<close>

text \<open>FIPS 197: the state in columns of four bytes, rows shifted by their number, columns multiplied by the matrix of the standard.\<close>

definition fips_shift :: "u8 list \<Rightarrow> u8 list" where
  "fips_shift s = map (\<lambda>k. s ! (4 * ((k div 4 + k mod 4) mod 4) + k mod 4)) [0..<16]"

definition fips_mix :: "u8 list \<Rightarrow> u8 list" where
  "fips_mix s = map (\<lambda>k. let col = (\<lambda>j. s ! (4 * (k div 4) + (k mod 4 + j) mod 4)) in
     xtime (col 0) XOR (xtime (col 1) XOR col 1) XOR col 2 XOR col 3) [0..<16]"

definition fips_round :: "u8 list \<Rightarrow> nat \<Rightarrow> u8 list \<Rightarrow> u8 list" where
  "fips_round rk r s = map2 (XOR) ((if r < 10 then fips_mix else id) (fips_shift (map sub_byte s))) (take 16 (drop (16 * r) rk))"

definition fips_cipher :: "u8 list \<Rightarrow> u8 list \<Rightarrow> u8 list" where
  "fips_cipher rk inp = fold (fips_round rk) [1..<11] (map2 (XOR) inp (take 16 rk))"

lemma xtime_xor: "xtime (a XOR b) = xtime a XOR xtime b"
proof (rule bit_word_eqI)
  have c: "(drop_bit 7 x AND 1) * 0x1b = (if bit x 7 then 0x1b else 0)" for x :: u8
  proof -
    have "drop_bit 7 x AND 1 = (if bit x 7 then 1 else 0)" by (rule bit_word_eqI) (auto simp: bit_simps intro: gr0I)
    then show ?thesis by simp
  qed
  fix n assume "n < LENGTH(8)"
  then show "bit (xtime (a XOR b)) n = bit (xtime a XOR xtime b) n" unfolding xtime_def c by (auto simp: bit_simps)
qed

lemma bytes16:
  assumes "length s = 16"
  obtains a b c d e f g h i j k l m n p q where "s = [a, b, c, d, e, f, g, h, i, j, k, l, m, n, p, q]"
proof -
  have "length s = Suc (Suc (Suc (Suc (Suc (Suc (Suc (Suc (Suc (Suc (Suc (Suc (Suc (Suc (Suc (Suc 0)))))))))))))))" using assms by simp
  then show ?thesis using that by (auto simp only: length_Suc_conv length_0_conv)
qed

lemma upt16: "[0..<16] = [0, 1, 2, 3, 4, 5, 6, 7, 8, 9, 10, 11, 12, 13, 14, 15 :: nat]"
  by (simp add: upt_rec)

lemma shift_fips: "shift_rows s = fips_shift s"
  unfolding shift_rows_def fips_shift_def upt16 by simp (simp add: numeral_2_eq_2 numeral_3_eq_3)

lemma mix_column_fips: "gf_mix_column [a, b, c, d] = [xtime a XOR (xtime b XOR b) XOR c XOR d, xtime b XOR (xtime c XOR c) XOR d XOR a,
    xtime c XOR (xtime d XOR d) XOR a XOR b, xtime d XOR (xtime a XOR a) XOR b XOR c]"
  by (simp add: Let_def xtime_xor ac_simps)

lemma mix_fips:
  assumes "length s = 16"
  shows "mix_columns s = fips_mix s"
proof -
  obtain a b c d e f g h i j k l m n p q where s: "s = [a, b, c, d, e, f, g, h, i, j, k, l, m, n, p, q]"
    by (rule bytes16 [OF assms])
  show ?thesis unfolding s mix_columns_def fips_mix_def by (simp add: mix_column_fips upt_rec Let_def del: gf_mix_column.simps)
qed

text \<open>
  C34. The block cipher computes the cipher of the standard: for every expanded key and every block, the byte-wise code with its
  unrolled row shifts and its optimised column mixing gives the value of the reference cipher.
\<close>

theorem aes_block_fips:
  assumes "length rk = 176" and "length inp = 16"
  shows "tls_aes128_encrypt_block rk inp = fips_cipher rk inp"
proof -
  have r: "aes_round rk r s = fips_round rk r s" if "length s = 16" for r s
  proof -
    have "length (fips_shift (map sub_byte s)) = 16" by (simp add: fips_shift_def)
    from mix_fips [OF this] show ?thesis by (simp add: aes_round_def fips_round_def xor_key_def Let_def shift_fips)
  qed
  have "fold (aes_round rk) rs s = fold (fips_round rk) rs s" if "length s = 16" "\<forall>r\<in>set rs. 16 * Suc r \<le> length rk" for rs s
    using that
  proof (induction rs arbitrary: s)
    case (Cons x xs)
    have "length (aes_round rk x s) = 16" using Cons.prems by (simp add: length_aes_round)
    from Cons.IH [OF this] Cons.prems r [OF Cons.prems(1)] show ?case by simp
  qed simp
  then show ?thesis using assms by (simp add: tls_aes128_encrypt_block_def fips_cipher_def xor_key_def)
qed

theorem aes_block_fips_witness: "tls_aes128_encrypt_block (replicate 176 3) (replicate 16 5) = fips_cipher (replicate 176 3) (replicate 16 5)"
  by (rule aes_block_fips) simp_all

section \<open>Decryption undoes encryption\<close>

lemma map2_xor_twice: "length p \<le> length e \<Longrightarrow> map2 (XOR) (map2 (XOR) p e) e = (p :: u8 list)"
proof (induction p arbitrary: e)
  case (Cons x p)
  then obtain y ys where "e = y # ys" by (cases e) simp_all
  with Cons show ?case by (simp add: xor.assoc)
qed simp

lemma ctr_twice:
  assumes "length rk = 176"
  shows "length cb = 16 \<Longrightarrow> ctr_loop rk cb (ctr_loop rk cb p) = p \<and> length (ctr_loop rk cb p) = length p"
proof (induction "length p" arbitrary: p cb rule: less_induct)
  case less
  show ?case
  proof (cases "p = []")
    case False
    define e where "e = tls_aes128_encrypt_block rk (inc32 cb)"
    define x where "x = map2 (XOR) (take 16 p) e"
    define y where "y = ctr_loop rk (inc32 cb) (drop 16 p)"
    have e: "length e = 16" using assms less.prems by (simp add: e_def length_encrypt_block)
    have c: "ctr_loop rk cb p = x @ y" using False by (simp add: ctr_loop.simps [of rk cb p] e_def x_def y_def Let_def)
    have "length (drop 16 p) < length p" using False by (cases p) simp_all
    from less.hyps [OF this, of "inc32 cb"] less.prems
    have y: "ctr_loop rk (inc32 cb) y = drop 16 p" "length y = length (drop 16 p)" by (simp_all add: y_def)
    have x: "length x = min 16 (length p)" using e by (simp add: x_def)
    have "length x = 16 \<or> length x < 16 \<and> y = []" using x y(2) by (cases "16 \<le> length p") simp_all
    then have xy: "take 16 (x @ y) = x" "drop 16 (x @ y) = y" by auto
    have "x \<noteq> []" using x False by (cases p) auto
    then have "ctr_loop rk cb (x @ y) = map2 (XOR) x e @ ctr_loop rk (inc32 cb) y"
      using xy by (simp add: ctr_loop.simps [of rk cb "x @ y"] e_def Let_def del: take_append drop_append)
    also have "map2 (XOR) x e = take 16 p" using e by (simp add: x_def map2_xor_twice)
    finally show ?thesis using c x y by simp
  qed (simp add: ctr_loop.simps)
qed

lemma length_j0: "length nonce = 12 \<Longrightarrow> length (gcm_j0 nonce) = 16"
  by (simp add: gcm_j0_def)

lemma length_gcm_mul: "length y = 16 \<Longrightarrow> length (gcm_mul x y) = 16"
proof -
  have "length z = 16 \<Longrightarrow> length v = 16 \<Longrightarrow> length (fst (fold (gcm_step x) bs (z, v))) = 16" for bs z v
    by (induction bs arbitrary: z v) (simp_all add: gcm_step_def Let_def shift_right_def)
  then show "length y = 16 \<Longrightarrow> length (gcm_mul x y) = 16" by (simp add: gcm_mul_def)
qed

lemma length_ghash: "length h = 16 \<Longrightarrow> length out = 16 \<Longrightarrow> length (ghash_loop h d out) = 16"
  by (induction h d out rule: ghash_loop.induct) (subst ghash_loop.simps, simp add: length_gcm_mul)

lemma length_tag: "length rk = 176 \<Longrightarrow> length nonce = 12 \<Longrightarrow> length (gcm_tag rk nonce auth) = 16"
  by (simp add: gcm_tag_def Let_def gcm_ghash_def length_ghash length_encrypt_block length_j0)

lemma gcm_encrypts:
  assumes "length key = 16" and "length nonce = 12" and "length aad + pad_len (length aad) + length plain + pad_len (length plain) + 16 \<le> 256"
  shows "\<exists>cipher tag. tls_aes128_gcm_encrypt key nonce aad plain = GcmOk (cipher, tag) \<and> length cipher = length plain \<and> length tag = 16"
proof -
  have "length (ctr_loop (tls_aes128_key_expand key) (gcm_j0 nonce) plain) = length plain"
    using ctr_twice [OF length_key_expand [OF assms(1)] length_j0 [OF assms(2)]] by blast
  then show ?thesis using assms(3) length_tag [OF length_key_expand [OF assms(1)] assms(2)]
    by (simp add: tls_aes128_gcm_encrypt_def Let_def auth_input_def)
qed

text \<open>
  C21. Authenticated encryption: with a key of 16 and a nonce of 12 bytes, encryption runs out of its buffer exactly when the padded
  associated data, the padded text and the two lengths need more than 256 bytes. Otherwise the ciphertext has the length of the text, decryption
  with the tag gives the text back, and decryption with any other tag is refused.
\<close>

theorem gcm_round_trip:
  assumes "length key = 16" and "length nonce = 12"
  shows "case tls_aes128_gcm_encrypt key nonce aad plain of
      GcmOverflow \<Rightarrow> 256 < length aad + pad_len (length aad) + length plain + pad_len (length plain) + 16
    | GcmReject \<Rightarrow> False
    | GcmOk (cipher, tag) \<Rightarrow> length aad + pad_len (length aad) + length plain + pad_len (length plain) + 16 \<le> 256 \<and>
        length cipher = length plain \<and> tls_aes128_gcm_decrypt key nonce aad cipher tag = GcmOk plain \<and>
        (\<forall>tag'. tag' \<noteq> tag \<longrightarrow> tls_aes128_gcm_decrypt key nonce aad cipher tag' = GcmReject)"
proof -
  let ?rk = "tls_aes128_key_expand key"
  have c: "ctr_loop ?rk (gcm_j0 nonce) (ctr_loop ?rk (gcm_j0 nonce) plain) = plain" "length (ctr_loop ?rk (gcm_j0 nonce) plain) = length plain"
    using ctr_twice [OF length_key_expand [OF assms(1)] length_j0 [OF assms(2)]] by blast+
  show ?thesis
  proof (cases "auth_input aad (ctr_loop ?rk (gcm_j0 nonce) plain)")
    case None
    then show ?thesis using c by (simp add: tls_aes128_gcm_encrypt_def Let_def) (simp add: auth_input_def Let_def split: if_splits)
  next
    case (Some auth)
    then have "length aad + pad_len (length aad) + length plain + pad_len (length plain) + 16 \<le> 256"
      using c by (simp add: auth_input_def Let_def split: if_splits)
    with Some c show ?thesis by (simp add: tls_aes128_gcm_encrypt_def tls_aes128_gcm_decrypt_def Let_def)
  qed
qed

theorem gcm_round_trip_witness:
  "case tls_aes128_gcm_encrypt (replicate 16 1) (replicate 12 2) [] [7, 8] of GcmOk (cipher, tag) \<Rightarrow>
      length cipher = 2 \<and> tls_aes128_gcm_decrypt (replicate 16 1) (replicate 12 2) [] cipher tag = GcmOk [7, 8]
    | _ \<Rightarrow> False"
  using gcm_round_trip [of "replicate 16 1" "replicate 12 2" "[]" "[7, 8]"]
  by (simp add: pad_len_def split: gcm_result.splits prod.splits)

end
