(* ===== verification/X25519.thy ===== *)
theory X25519
  imports Kernel_Prelude
begin

text \<open>
  The key exchange of the TLS library, \<^verbatim>\<open>x25519.c\<close>: field elements as five 64-bit limbs with the arithmetic the code has, wrap-around
  included, and the ladder. The random bytes of the key pair are an argument.
\<close>

type_synonym fe = "u64 list"

definition MASK51 :: u64 where "MASK51 = 0x7ffffffffffff"

section \<open>Field elements\<close>

definition fe_add :: "fe \<Rightarrow> fe \<Rightarrow> fe" where
  "fe_add a b = map (\<lambda>i. a ! i + b ! i) [0..<5]"

definition fe_sub :: "fe \<Rightarrow> fe \<Rightarrow> fe" where
  "fe_sub a b = map (\<lambda>i. a ! i - b ! i) [0..<5]"

definition fe_sel :: "fe \<Rightarrow> fe \<Rightarrow> bool \<Rightarrow> fe" where
  "fe_sel a b c = (let m = (if c then - 1 else 0) in map (\<lambda>i. (a ! i AND NOT m) OR (b ! i AND m)) [0..<5])"

definition products :: "fe \<Rightarrow> fe \<Rightarrow> u64 list" where
  "products a b = fold (\<lambda>(i, j) t. t[i + j := t ! (i + j) + a ! i * b ! j]) (List.product [0..<5] [0..<5]) (replicate 10 0)"

definition fold_high :: "nat \<Rightarrow> u64 list \<Rightarrow> u64 list" where
  "fold_high i t = (let c = drop_bit 51 (t ! i); t = t[i := t ! i AND MASK51] in t[i - 5 := t ! (i - 5) + c * 19])"

definition carry_down :: "nat \<Rightarrow> u64 list \<Rightarrow> u64 list" where
  "carry_down i t = (if i \<noteq> 0 then let t = t[i - 1 := t ! (i - 1) + drop_bit 51 (t ! i)] in t[i := t ! i AND MASK51]
     else t[0 := t ! 0 AND MASK51])"

definition carry_up :: "nat \<Rightarrow> u64 list \<Rightarrow> u64 list" where
  "carry_up i t = (let t = t[i + 1 := t ! (i + 1) + drop_bit 51 (t ! i)] in t[i := t ! i AND MASK51])"

definition carry_top :: "u64 list \<Rightarrow> u64 list" where
  "carry_top t = (let t = t[0 := t ! 0 + drop_bit 51 (t ! 4) * 19] in t[4 := t ! 4 AND MASK51])"

definition fe_mul :: "fe \<Rightarrow> fe \<Rightarrow> fe" where
  "fe_mul a b = take 5 (carry_top (fold carry_up [0..<4] (fold carry_down (rev [0..<5]) (fold fold_high (rev [5..<10]) (products a b)))))"

definition fe_sq :: "fe \<Rightarrow> fe" where "fe_sq a = fe_mul a a"

fun inv_table :: "nat \<Rightarrow> fe \<Rightarrow> fe list \<Rightarrow> fe list" where
  "inv_table 0 a t = t"
| "inv_table (Suc n) a t = inv_table n a (t @ [fe_mul (fe_sq (last t)) a])"

definition inv_step :: "fe list \<Rightarrow> nat \<Rightarrow> fe \<Rightarrow> fe" where
  "inv_step t i u = (let u = fe_sq u in
     if i < 245 \<or> i = 240 \<or> i = 235 \<or> (i mod 5 = 0 \<and> i < 250)
     then fe_mul u (t ! (i mod 5 + (if i < 5 then 0 else 10))) else u)"

definition fe_inv :: "fe \<Rightarrow> fe" where
  "fe_inv a = (let t = inv_table 15 a [a] in fold (inv_step t) (rev [0..<251]) (t ! 15))"

definition pack_carry :: "fe \<Rightarrow> fe" where
  "pack_carry a = (let x = fold (\<lambda>i x. let c = drop_bit 51 (x ! i); x = x[i := x ! i AND MASK51] in x[i + 1 := x ! (i + 1) + c]) [0..<4] a;
     c = drop_bit 51 (x ! 4); x = x[4 := x ! 4 AND MASK51] in x[0 := x ! 0 + c * 19])"

definition fe_pack :: "fe \<Rightarrow> u8 list" where
  "fe_pack a = (let t = carry_top (fold carry_up [0..<4] (pack_carry a));
     out = map (\<lambda>k. ucast (drop_bit (8 * (k mod 8)) (t ! (k div 8)))) [0..<32] in out[31 := out ! 31 AND 127])"

definition fe_unpack :: "u8 list \<Rightarrow> fe" where
  "fe_unpack inp = (let r = fold (\<lambda>i r. r[i div 8 := r ! (i div 8) OR push_bit (8 * (i mod 8)) (ucast (inp ! i))]) [0..<32] (replicate 5 0)
     in r[4 := r ! 4 AND MASK51])"

section \<open>The ladder\<close>

definition fe_one :: fe where "fe_one = [1, 0, 0, 0, 0]"
definition fe_zero :: fe where "fe_zero = [0, 0, 0, 0, 0]"
definition fe_a24 :: fe where "fe_a24 = [121666, 0, 0, 0, 0]"

record ladder =
  la_x2 :: fe
  la_z2 :: fe
  la_x3 :: fe
  la_z3 :: fe
  la_swap :: bool

definition key_bit :: "u8 list \<Rightarrow> nat \<Rightarrow> bool" where
  "key_bit k i = odd (drop_bit (i mod 8) (k ! (i div 8)) AND 1)"

definition ladder_step :: "fe \<Rightarrow> u8 list \<Rightarrow> nat \<Rightarrow> ladder \<Rightarrow> ladder" where
  "ladder_step x1 key i l =
     (let k = key_bit key i; swap = (la_swap l \<noteq> k);
          t0 = fe_sel (la_x2 l) (la_x3 l) swap; t1 = fe_sel (la_z2 l) (la_z3 l) swap;
          x2 = t0; z2 = t1; x3 = t0; z3 = t1; swap = k;
          A = fe_add x2 z2; B = fe_sub x2 z2; C = fe_add x3 z3; D = fe_sub x3 z3;
          AA = fe_sq A; BB = fe_sq B; DA = fe_mul D A; CB = fe_mul C B;
          t0 = fe_add DA CB; x3 = fe_sq t0; t1 = fe_sub DA CB; z3 = fe_mul (fe_sq t1) x1;
          x2 = fe_mul AA BB; E = fe_sub AA BB; t0 = fe_mul E fe_a24; t1 = fe_add AA t0; z2 = fe_mul E t1
      in \<lparr>la_x2 = x2, la_z2 = z2, la_x3 = x3, la_z3 = z3, la_swap = swap\<rparr>)"

definition ladder_start :: "fe \<Rightarrow> ladder" where
  "ladder_start x1 = \<lparr>la_x2 = fe_one, la_z2 = fe_zero, la_x3 = x1, la_z3 = fe_one, la_swap = False\<rparr>"

definition ladder_out :: "ladder \<Rightarrow> u8 list" where
  "ladder_out l = (let x2 = fe_sel (la_x2 l) (la_x3 l) (la_swap l); z2 = fe_sel (la_z2 l) (la_z3 l) (la_swap l)
     in fe_pack (fe_mul x2 (fe_inv z2)))"

definition x25519_clamp :: "u8 list \<Rightarrow> u8 list" where
  "x25519_clamp k = (let k = k[0 := k ! 0 AND 248]; k = k[31 := k ! 31 AND 127] in k[31 := k ! 31 OR 64])"

definition x25519_ladder :: "fe \<Rightarrow> u8 list \<Rightarrow> u8 list" where
  "x25519_ladder x1 key = ladder_out (fold (ladder_step x1 key) (rev [0..<255]) (ladder_start x1))"

text \<open>\<open>random\<close> are the bytes of the system call; the results are the public and the private key.\<close>

definition tls_x25519_keypair :: "u8 list \<Rightarrow> u8 list \<times> u8 list" where
  "tls_x25519_keypair random = (let priv = x25519_clamp random; clamped = x25519_clamp priv
     in (x25519_ladder (fe_unpack (9 # replicate 31 0)) clamped, priv))"

definition tls_x25519_shared :: "u8 list \<Rightarrow> u8 list \<Rightarrow> u8 list \<times> int" where
  "tls_x25519_shared priv pub = (let shared = x25519_ladder (fe_unpack pub) (x25519_clamp priv)
     in (shared, if \<exists>b\<in>set shared. b \<noteq> 0 then 0 else - 1))"

section \<open>Multiplication\<close>

lemma fe_cases: "length a = 5 \<longleftrightarrow> (\<exists>a0 a1 a2 a3 a4. a = [a0, a1, a2, a3, a4])"
  by (auto simp: numeral_eq_Suc length_Suc_conv)

lemma upt5: "[0..<5] = [0, 1, 2, 3, 4 :: nat]" "[0..<4] = [0, 1, 2, 3 :: nat]" "[5..<10] = [5, 6, 7, 8, 9 :: nat]"
  by (simp_all add: upt_rec)

lemma products_commute: "length a = 5 \<Longrightarrow> length b = 5 \<Longrightarrow> products a b = products b a"
  unfolding fe_cases by (auto simp: products_def upt5 numeral_eq_Suc ac_simps)

lemma fe_mul_commute: "length a = 5 \<Longrightarrow> length b = 5 \<Longrightarrow> fe_mul a b = fe_mul b a"
  by (simp add: fe_mul_def products_commute)

lemma products_zero: "length a = 5 \<Longrightarrow> products fe_zero a = replicate 10 0"
  unfolding fe_cases by (auto simp: products_def upt5 numeral_eq_Suc fe_zero_def)

lemma length_fold: "(\<And>i t. length (f i t) = length t) \<Longrightarrow> length (fold f is t) = length t"
  by (induction "is" arbitrary: t) simp_all

lemma length_carries [simp]: "length (fold_high i t) = length t" "length (carry_down i t) = length t" "length (carry_up i t) = length t"
    "length (carry_top t) = length t"
  by (simp_all add: fold_high_def carry_down_def carry_up_def carry_top_def Let_def)

lemma length_products [simp]: "length (products a b) = 10"
  unfolding products_def by (subst length_fold) (auto split: prod.splits)

lemma length_fe [simp]: "length (fe_add a b) = 5" "length (fe_sub a b) = 5" "length (fe_sel a b c) = 5" "length (fe_mul a b) = 5" "length (fe_sq a) = 5"
    "length fe_zero = 5" "length fe_one = 5"
  by (simp_all add: fe_add_def fe_sub_def fe_sel_def Let_def fe_mul_def fe_sq_def length_fold fe_zero_def fe_one_def)

lemma fe_mul_zero: "length a = 5 \<Longrightarrow> fe_mul fe_zero a = fe_zero" "length a = 5 \<Longrightarrow> fe_mul a fe_zero = fe_zero"
proof -
  assume a: "length a = 5"
  have "fe_mul fe_zero a = fe_zero" unfolding fe_mul_def products_zero [OF a]
    by (simp add: upt5 fold_high_def carry_down_def carry_up_def carry_top_def Let_def numeral_eq_Suc fe_zero_def)
  then show "fe_mul fe_zero a = fe_zero" "fe_mul a fe_zero = fe_zero" using fe_mul_commute [OF a, of fe_zero] by simp_all
qed

lemma fe_sub_self: "fe_sub a a = fe_zero"
  by (simp add: fe_sub_def upt5 fe_zero_def)

lemma fe_zero_sel: "fe_sel a fe_zero True = fe_zero" "fe_sel fe_zero fe_zero c = fe_zero"
  by (simp_all add: fe_sel_def upt5 fe_zero_def Let_def)

lemma fe_add_zero: "length a = 5 \<Longrightarrow> fe_add a fe_zero = a" "length a = 5 \<Longrightarrow> fe_sub a fe_zero = a"
  unfolding fe_cases by (auto simp: fe_add_def fe_sub_def upt5 fe_zero_def numeral_eq_Suc)

section \<open>What the ladder computes\<close>

text \<open>Both points of the ladder are set to the same one, so the difference of the products vanishes: \<open>z3\<close> is zero after every step.\<close>

lemma step_z3: "length x1 = 5 \<Longrightarrow> la_z3 (ladder_step x1 key i l) = fe_zero"
proof -
  assume x1: "length x1 = 5"
  define A B where "A = fe_add (fe_sel (la_x2 l) (la_x3 l) (la_swap l \<noteq> key_bit key i)) (fe_sel (la_z2 l) (la_z3 l) (la_swap l \<noteq> key_bit key i))"
    and "B = fe_sub (fe_sel (la_x2 l) (la_x3 l) (la_swap l \<noteq> key_bit key i)) (fe_sel (la_z2 l) (la_z3 l) (la_swap l \<noteq> key_bit key i))"
  have "la_z3 (ladder_step x1 key i l) = fe_mul (fe_sq (fe_sub (fe_mul B A) (fe_mul A B))) x1"
    by (simp add: ladder_step_def Let_def A_def B_def)
  also have "fe_mul B A = fe_mul A B" by (rule fe_mul_commute) (simp_all add: A_def B_def)
  finally show ?thesis using x1 by (simp add: fe_sub_self fe_sq_def fe_mul_zero)
qed

lemma step_swap: "la_swap (ladder_step x1 key i l) = key_bit key i"
  by (simp add: ladder_step_def Let_def)

lemma step_z2:
  assumes "fe_sel (la_z2 l) (la_z3 l) (la_swap l \<noteq> key_bit key i) = fe_zero"
  shows "la_z2 (ladder_step x1 key i l) = fe_zero"
proof -
  define A where "A = fe_sel (la_x2 l) (la_x3 l) (la_swap l \<noteq> key_bit key i)"
  have "length A = 5" by (simp add: A_def)
  moreover have "la_z2 (ladder_step x1 key i l) = (let AA = fe_sq (fe_add A fe_zero); BB = fe_sq (fe_sub A fe_zero); E = fe_sub AA BB
      in fe_mul E (fe_add AA (fe_mul E fe_a24)))"
    using assms by (simp add: ladder_step_def Let_def A_def)
  ultimately show ?thesis by (simp add: Let_def fe_add_zero fe_sub_self fe_mul_zero)
qed

lemma ladder_dead:
  assumes "length x1 = 5" and "la_z2 l = fe_zero" and "la_z3 l = fe_zero"
  shows "la_z2 (fold (ladder_step x1 key) is l) = fe_zero \<and> la_z3 (fold (ladder_step x1 key) is l) = fe_zero"
  using assms(2,3)
proof (induction "is" arbitrary: l)
  case (Cons i "is")
  then show ?case using step_z3 [OF assms(1)] step_z2 [of l key i x1] by (simp add: fe_zero_sel)
qed simp

lemma ladder_falls:
  assumes "length x1 = 5" and "la_z3 l = fe_zero" and "la_swap l" and "\<exists>i\<in>set is. \<not> key_bit key i"
  shows "la_z2 (fold (ladder_step x1 key) is l) = fe_zero \<and> la_z3 (fold (ladder_step x1 key) is l) = fe_zero"
  using assms(2-4)
proof (induction "is" arbitrary: l)
  case (Cons i "is")
  show ?case
  proof (cases "key_bit key i")
    case True
    then show ?thesis using Cons step_z3 [OF assms(1)] step_swap by auto
  next
    case False
    then have "la_z2 (ladder_step x1 key i l) = fe_zero" using Cons.prems by (intro step_z2) (simp add: fe_zero_sel)
    then show ?thesis using ladder_dead [OF assms(1) _ step_z3 [OF assms(1)]] by simp
  qed
qed simp

lemma fe_inv_zero: "fe_inv fe_zero = fe_zero"
proof -
  have tb: "inv_table n fe_zero (replicate (Suc m) fe_zero) = replicate (Suc (m + n)) fe_zero" for n m
  proof (induction n arbitrary: m)
    case (Suc n)
    have "last (replicate (Suc m) fe_zero) = fe_zero" by simp
    then show ?case using Suc.IH [of "Suc m"] by (simp add: fe_sq_def fe_mul_zero replicate_append_same del: replicate.simps) (simp add: replicate_append_same)
  qed simp
  have t: "inv_table 15 fe_zero [fe_zero] = replicate 16 fe_zero" using tb [of 15 0] by (simp add: numeral_eq_Suc)
  have "i mod 5 + 10 < (16 :: nat)" for i using mod_less_divisor [of 5 i] by linarith
  then have st: "inv_step (replicate 16 fe_zero) i fe_zero = fe_zero" for i
    by (auto simp: inv_step_def fe_sq_def fe_mul_zero Let_def nth_replicate)
  have "fold (inv_step (replicate 16 fe_zero)) is fe_zero = fe_zero" for "is" by (induction "is") (simp_all add: st)
  then show ?thesis unfolding fe_inv_def t by simp
qed

lemma fe_pack_zero: "fe_pack fe_zero = replicate 32 0"
proof -
  have c: "carry_top (fold carry_up [0..<4] (pack_carry fe_zero)) = fe_zero"
    by (simp add: pack_carry_def upt5 carry_up_def carry_top_def Let_def fe_zero_def numeral_eq_Suc)
  have "fe_zero ! (k div 8) = 0" if "k < 32" for k
  proof -
    have "k div 8 < 5" using that by (simp add: less_mult_imp_div_less)
    moreover have "fe_zero = replicate 5 0" by (simp add: fe_zero_def numeral_eq_Suc)
    ultimately show ?thesis by (metis nth_replicate)
  qed
  then have z: "ucast (drop_bit (8 * (k mod 8)) (fe_zero ! (k div 8))) = (0 :: u8)" if "k \<in> set [0..<32]" for k
    using that unfolding set_upt by simp
  have "map (\<lambda>k. ucast (drop_bit (8 * (k mod 8)) (fe_zero ! (k div 8)))) [0..<32] = map (\<lambda>k. 0 :: u8) [0..<32]"
    by (rule map_cong [OF refl z])
  then have "map (\<lambda>k. ucast (drop_bit (8 * (k mod 8)) (fe_zero ! (k div 8)))) [0..<32] = replicate 32 (0 :: u8)"
    by (simp only: map_replicate_const length_upt diff_zero)
  then show ?thesis unfolding fe_pack_def c Let_def using list_update_id [of "replicate 32 (0 :: u8)" 31] by simp
qed

lemma clamped_bits:
  assumes "length k = 32"
  shows "key_bit (x25519_clamp k) 254" "\<not> key_bit (x25519_clamp k) 0"
proof -
  have "odd (drop_bit 6 (w AND 127 OR 64) AND 1)" for w :: u8
    by (simp add: bit_simps bit_0 [symmetric])
  moreover have "even ((w AND 248) AND 1)" for w :: u8 by (simp add: and.assoc)
  ultimately show "key_bit (x25519_clamp k) 254" "\<not> key_bit (x25519_clamp k) 0"
    using assms by (simp_all add: key_bit_def x25519_clamp_def Let_def)
qed

lemma ladder_zero:
  assumes "length x1 = 5" and "length k = 32"
  shows "x25519_ladder x1 (x25519_clamp k) = replicate 32 0"
proof -
  let ?f = "fold (ladder_step x1 (x25519_clamp k))"
  have "rev [0..<Suc 254] = 254 # rev [0..<254 :: nat]" by (simp only: upt_Suc_append [of 0 254] le0 rev_append rev.simps append_Nil append_Cons)
  then have r: "rev [0..<255] = 254 # rev [0..<254 :: nat]" by simp
  define l where "l = ladder_step x1 (x25519_clamp k) 254 (ladder_start x1)"
  have l: "la_z3 l = fe_zero" "la_swap l" using step_z3 [OF assms(1)] clamped_bits(1) [OF assms(2)] by (simp_all add: l_def step_swap)
  have "\<exists>i\<in>set (rev [0..<254]). \<not> key_bit (x25519_clamp k) i" using clamped_bits(2) [OF assms(2)] by (intro bexI [of _ 0]) (simp_all del: upt_Suc)
  from ladder_falls [OF assms(1) l this] have z: "la_z2 (?f (rev [0..<255]) (ladder_start x1)) = fe_zero" "la_z3 (?f (rev [0..<255]) (ladder_start x1)) = fe_zero"
    unfolding r l_def by (simp_all only: fold.simps comp_def)
  then show ?thesis by (simp add: x25519_ladder_def ladder_out_def Let_def fe_zero_sel fe_inv_zero fe_mul_zero fe_pack_zero)
qed

lemma length_unpack [simp]: "length (fe_unpack inp) = 5"
  by (simp add: fe_unpack_def Let_def length_fold)

text \<open>
  C27. The key exchange fails for every key: whatever the private key and the peer's public key are, the shared secret is 32 zero
  bytes and \<open>tls_x25519_shared\<close> returns the error value, and every public key \<open>tls_x25519_keypair\<close> makes is 32 zero
  bytes. (The step of the ladder sets both points to the selected one.)
\<close>

theorem x25519_shared_is_zero:
  assumes "length priv = 32"
  shows "tls_x25519_shared priv pub = (replicate 32 0, - 1) \<and>
    tls_x25519_keypair priv = (replicate 32 0, x25519_clamp priv)"
proof -
  have "length (x25519_clamp priv) = 32" using assms by (simp add: x25519_clamp_def Let_def)
  then show ?thesis using ladder_zero [OF _ assms] ladder_zero [of _ "x25519_clamp priv"]
    by (simp add: tls_x25519_shared_def tls_x25519_keypair_def Let_def)
qed

theorem x25519_shared_is_zero_witness:
  "tls_x25519_shared (replicate 32 5) (9 # replicate 31 0) = (replicate 32 0, - 1)"
  using x25519_shared_is_zero [of "replicate 32 5" "9 # replicate 31 0"] by (simp only: length_replicate simp_thms)

end
