(* ===== verification/Tls.thy ===== *)
theory Tls
  imports Hkdf Aes_Gcm X25519
begin

text \<open>
  The TLS library: records (\<^verbatim>\<open>tls_record.c\<close>), the client's handshake (\<^verbatim>\<open>tls_handshake.c\<close>) and its interface (\<^verbatim>\<open>tls.c\<close>). Arrays are lists of their size; an access
  outside an array is the outcome \<open>TlsFault\<close>, an error return is \<open>TlsFail\<close>. The system calls for sending and receiving are the record
  \<open>tls_env\<close>: the values the sends return, the byte strings the receives deliver (none or an empty one for an
  error), and what was sent. Memory that is read before it is written holds any bytes: \<open>tu_ctx\<close>, \<open>tu_block\<close> and \<open>tu_buf\<close> of \<open>tls_stack\<close>.
\<close>

section \<open>State\<close>

datatype 'a tls = TlsFault | TlsFail | TlsOk 'a

fun tls_bind :: "'a tls \<Rightarrow> ('a \<Rightarrow> 'b tls) \<Rightarrow> 'b tls" where
  "tls_bind TlsFault f = TlsFault"
| "tls_bind TlsFail f = TlsFail"
| "tls_bind (TlsOk x) f = f x"

record tls_ctx =
  handshake_done :: bool
  client_random :: "u8 list"
  server_random :: "u8 list"
  x25519_priv :: "u8 list"
  x25519_pub :: "u8 list"
  x25519_server_pub :: "u8 list"
  shared_secret :: "u8 list"
  early_secret :: "u8 list"
  handshake_secret :: "u8 list"
  master_secret :: "u8 list"
  c_hs_traffic :: "u8 list"
  s_hs_traffic :: "u8 list"
  c_hs_key :: "u8 list"
  c_hs_iv :: "u8 list"
  s_hs_key :: "u8 list"
  s_hs_iv :: "u8 list"
  c_ap_traffic :: "u8 list"
  s_ap_traffic :: "u8 list"
  c_ap_key :: "u8 list"
  c_ap_iv :: "u8 list"
  s_ap_key :: "u8 list"
  s_ap_iv :: "u8 list"
  finished_key_c :: "u8 list"
  finished_key_s :: "u8 list"
  seq_c :: u64
  seq_s :: u64
  epoch_c :: nat
  epoch_s :: nat
  transcript :: sha256_ctx
  transcript_valid :: bool
  recv_buf :: "u8 list"
  recv_len :: nat
  recv_pos :: nat

record tls_env =
  te_send :: "int list"
  te_recv :: "u8 list list"
  te_sent :: "u8 list list"

record tls_stack =
  tu_ctx :: sha256_ctx
  tu_block :: "u8 list"
  tu_buf :: "nat \<Rightarrow> u8 list"

definition stack_ok :: "tls_stack \<Rightarrow> bool" where
  "stack_ok u \<longleftrightarrow> ctx_ok (tu_ctx u) \<and> (\<forall>n. length (tu_buf u n) = n)"

definition TLS_CONTENT_CHANGECIPHERSPEC :: u8 where "TLS_CONTENT_CHANGECIPHERSPEC = 20"
definition TLS_CONTENT_ALERT :: u8 where "TLS_CONTENT_ALERT = 21"
definition TLS_CONTENT_HANDSHAKE :: u8 where "TLS_CONTENT_HANDSHAKE = 22"
definition TLS_CONTENT_APPLICATIONDATA :: u8 where "TLS_CONTENT_APPLICATIONDATA = 23"

section \<open>Records\<close>

definition tls_aead_nonce :: "u8 list \<Rightarrow> u64 \<Rightarrow> u8 list" where
  "tls_aead_nonce iv seq = map (\<lambda>i. iv ! i XOR (if i < 4 then 0 else ucast (drop_bit (8 * (11 - i)) seq))) [0..<12]"

definition record_header :: "nat \<Rightarrow> u8 list" where
  "record_header n = [TLS_CONTENT_APPLICATIONDATA, 0x03, 0x03, ucast (drop_bit 8 (of_nat n :: u64)), ucast (of_nat n :: u64)]"

text \<open>The cipher text goes to \<open>out + 5\<close>, the tag to \<open>out\<close>, and the header to \<open>out\<close> again.\<close>

definition tls_encrypt :: "tls_ctx \<Rightarrow> nat \<Rightarrow> u8 list \<Rightarrow> u8 \<Rightarrow> u8 list \<Rightarrow> (u8 list \<times> nat) tls" where
  "tls_encrypt ctx epoch plain typ out =
     (let enc = (\<lambda>key iv. if 16384 < length plain + 1 then TlsFault
        else (case tls_aes128_gcm_encrypt key (tls_aead_nonce iv (seq_c ctx)) (record_header (length plain + 1 + 16)) (plain @ [typ]) of
          GcmOk (cipher, tag) \<Rightarrow> (if length out < 5 + length cipher \<or> length out < 16 then TlsFault
            else TlsOk (splice 0 (record_header (length plain + 1 + 16)) (splice 0 tag (splice 5 cipher out)), length plain + 1 + 16 + 5))
        | _ \<Rightarrow> TlsFault))
      in if epoch = 2 then enc (c_hs_key ctx) (c_hs_iv ctx)
         else if epoch = 3 then enc (c_ap_key ctx) (c_ap_iv ctx)
         else TlsFail)"

definition tls_decrypt :: "tls_ctx \<Rightarrow> nat \<Rightarrow> u8 list \<Rightarrow> nat \<Rightarrow> (u8 \<times> u8 list) tls" where
  "tls_decrypt ctx epoch inp cap =
     (let dec = (\<lambda>key iv. if length inp < 5 + 16 then TlsFail
        else let ct_len = length inp - 5 - 16 in
          case tls_aes128_gcm_decrypt key (tls_aead_nonce iv (seq_s ctx)) (record_header (ct_len + 16)) (slice 5 ct_len inp) (drop (5 + ct_len) inp) of
            GcmOverflow \<Rightarrow> TlsFault
          | GcmReject \<Rightarrow> TlsFail
          | GcmOk inner \<Rightarrow> (if ct_len = 0 \<or> cap < ct_len - 1 then TlsFault else TlsOk (inner ! (ct_len - 1), take (ct_len - 1) inner)))
      in if epoch = 2 then dec (s_hs_key ctx) (s_hs_iv ctx)
         else if epoch = 3 then dec (s_ap_key ctx) (s_ap_iv ctx)
         else TlsFail)"

fun sys_send :: "u8 list \<Rightarrow> tls_env \<Rightarrow> int \<times> tls_env" where
  "sys_send d e = (case te_send e of [] \<Rightarrow> (- 1, e) | r # rs \<Rightarrow> (r, e\<lparr>te_send := rs, te_sent := te_sent e @ [d]\<rparr>))"

definition tls_send_record :: "tls_stack \<Rightarrow> u8 \<Rightarrow> u8 list \<Rightarrow> tls_ctx \<times> tls_env \<Rightarrow> (int \<times> tls_ctx \<times> tls_env) tls" where
  "tls_send_record u typ d = (\<lambda>(ctx, e).
     case (if epoch_c ctx = 0
         then (if 16384 < length d + 5 then TlsFault
           else TlsOk (splice 0 ([typ, 0x03, 0x03, ucast (drop_bit 8 (of_nat (length d) :: u64)), ucast (of_nat (length d) :: u64)] @ d) (tu_buf u 16384), length d + 5))
         else tls_encrypt ctx (if epoch_c ctx = 1 then 2 else epoch_c ctx) d typ (tu_buf u 16384)) of
       TlsFault \<Rightarrow> TlsFault
     | TlsFail \<Rightarrow> TlsOk (- 1, ctx, e)
     | TlsOk (buf, n) \<Rightarrow> (case sys_send (take n buf) e of (ret, e) \<Rightarrow>
          TlsOk (ret, (if ret > 0 then ctx\<lparr>seq_c := seq_c ctx + 1\<rparr> else ctx), e)))"

definition rec_len :: "u8 list \<Rightarrow> nat \<Rightarrow> nat" where
  "rec_len b p = 256 * unat (b ! (p + 3)) + unat (b ! (p + 4))"

text \<open>
  One record at \<open>start\<close> of the receive buffer, with \<open>rlen\<close> bytes after its header: its type, and its bytes copied to a buffer of
  \<open>cap\<close> bytes, or \<open>None\<close> for the error value.
\<close>

definition take_record :: "tls_stack \<Rightarrow> nat \<Rightarrow> nat \<Rightarrow> nat \<Rightarrow> tls_ctx \<Rightarrow> ((u8 \<times> u8 list \<times> nat) option \<times> tls_ctx) tls" where
  "take_record u cap start rlen ctx =
     (case (if epoch_s ctx = 0
         then (if cap < rlen then TlsFault else TlsOk (recv_buf ctx ! start, slice (start + 5) rlen (recv_buf ctx)))
         else tls_decrypt ctx (if epoch_s ctx = 1 then 2 else epoch_s ctx) (slice start (5 + rlen) (recv_buf ctx)) cap) of
       TlsFault \<Rightarrow> TlsFault
     | TlsFail \<Rightarrow> TlsOk (None, ctx)
     | TlsOk (typ, d) \<Rightarrow> TlsOk (Some (typ, splice 0 d (tu_buf u cap), length d), ctx\<lparr>seq_s := seq_s ctx + 1\<rparr>))"

definition fill_record :: "tls_stack \<Rightarrow> nat \<Rightarrow> tls_ctx \<times> tls_env \<Rightarrow> ((u8 \<times> u8 list \<times> nat) option \<times> tls_ctx \<times> tls_env) tls" where
  "fill_record u cap = (\<lambda>(ctx, e). case te_recv e of
     [] \<Rightarrow> TlsOk (None, ctx, e)
   | d # ds \<Rightarrow> (let d = take 16384 d; e = e\<lparr>te_recv := ds\<rparr> in
       if d = [] then TlsOk (None, ctx, e)
       else let ctx = ctx\<lparr>recv_buf := splice 0 d (recv_buf ctx), recv_len := length d, recv_pos := 0\<rparr> in
         if recv_len ctx < 5 then TlsOk (None, ctx, e)
         else let rlen = rec_len (recv_buf ctx) 0 in
           if recv_len ctx < 5 + rlen then TlsOk (None, ctx, e)
           else tls_bind (take_record u cap 0 rlen (ctx\<lparr>recv_pos := 5 + rlen\<rparr>)) (\<lambda>(r, ctx). TlsOk (r, ctx, e))))"

definition tls_recv_record :: "tls_stack \<Rightarrow> nat \<Rightarrow> tls_ctx \<times> tls_env \<Rightarrow> ((u8 \<times> u8 list \<times> nat) option \<times> tls_ctx \<times> tls_env) tls" where
  "tls_recv_record u cap = (\<lambda>(ctx, e).
     if recv_len ctx > recv_pos ctx then
       (let avail = recv_len ctx - recv_pos ctx in
        if avail < 5 then fill_record u cap (ctx\<lparr>recv_len := 0, recv_pos := 0\<rparr>, e)
        else let rlen = rec_len (recv_buf ctx) (recv_pos ctx) in
          if avail \<ge> 5 + rlen
          then tls_bind (take_record u cap (recv_pos ctx) rlen (ctx\<lparr>recv_pos := recv_pos ctx + (5 + rlen)\<rparr>)) (\<lambda>(r, ctx). TlsOk (r, ctx, e))
          else fill_record u cap (ctx, e))
     else fill_record u cap (ctx, e))"

section \<open>Key schedule\<close>

definition str_bytes :: "string \<Rightarrow> u8 list" where
  "str_bytes s = map of_char s"

definition hash_msg :: "u8 list \<Rightarrow> tls_ctx \<Rightarrow> tls_ctx" where
  "hash_msg msg ctx = ctx\<lparr>transcript := tls_sha256_update msg (transcript ctx)\<rparr>"

definition transcript_hash :: "tls_ctx \<Rightarrow> u8 list" where
  "transcript_hash ctx = fst (tls_sha256_final (transcript ctx))"

definition derive :: "tls_stack \<Rightarrow> u8 list \<Rightarrow> string \<Rightarrow> u8 list \<Rightarrow> nat \<Rightarrow> u8 list tls" where
  "derive u secret label hash n = (case tls_derive_secret (tu_ctx u) (tu_block u) secret (str_bytes label) hash n of
     None \<Rightarrow> TlsFault | Some k \<Rightarrow> TlsOk k)"

definition derive_handshake_keys :: "tls_stack \<Rightarrow> tls_ctx \<Rightarrow> tls_ctx tls" where
  "derive_handshake_keys u ctx =
     (let zero = replicate 32 0; early = tls_hkdf_extract (tu_ctx u) zero zero; ctx = ctx\<lparr>early_secret := early\<rparr>;
          empty_hash = tls_sha256 (tu_ctx u) [] in
      tls_bind (derive u early ''derived'' empty_hash 32) (\<lambda>derived.
      let shared = fst (tls_x25519_shared (x25519_priv ctx) (x25519_server_pub ctx)); ctx = ctx\<lparr>shared_secret := shared\<rparr>;
          hs = tls_hkdf_extract (tu_ctx u) derived shared; ctx = ctx\<lparr>handshake_secret := hs\<rparr>;
          hs_hash = transcript_hash ctx in
      tls_bind (derive u hs ''c hs traffic'' hs_hash 32) (\<lambda>ct.
      tls_bind (derive u hs ''s hs traffic'' hs_hash 32) (\<lambda>st.
      tls_bind (derive u ct ''key'' [] 16) (\<lambda>ck.
      tls_bind (derive u ct ''iv'' [] 12) (\<lambda>ci.
      tls_bind (derive u st ''key'' [] 16) (\<lambda>sk.
      tls_bind (derive u st ''iv'' [] 12) (\<lambda>si.
      tls_bind (derive u ct ''finished'' [] 32) (\<lambda>fc.
      tls_bind (derive u st ''finished'' [] 32) (\<lambda>fs.
        TlsOk (ctx\<lparr>c_hs_traffic := ct, s_hs_traffic := st, c_hs_key := ck, c_hs_iv := ci, s_hs_key := sk, s_hs_iv := si,
          finished_key_c := fc, finished_key_s := fs, epoch_c := 1, epoch_s := 1\<rparr>)))))))))))"

definition derive_application_keys :: "tls_stack \<Rightarrow> u8 list \<Rightarrow> tls_ctx \<Rightarrow> tls_ctx tls" where
  "derive_application_keys u finished ctx =
     (let empty_hash = tls_sha256 (tu_ctx u) [] in
      tls_bind (derive u (handshake_secret ctx) ''derived'' empty_hash 32) (\<lambda>derived2.
      let ms = tls_hkdf_extract (tu_ctx u) derived2 (replicate 32 0); ctx = ctx\<lparr>master_secret := ms\<rparr>;
          ctx = hash_msg finished ctx; final_hash = transcript_hash ctx in
      tls_bind (derive u ms ''c ap traffic'' final_hash 32) (\<lambda>ct.
      tls_bind (derive u ms ''s ap traffic'' final_hash 32) (\<lambda>st.
      tls_bind (derive u ct ''key'' [] 16) (\<lambda>ck.
      tls_bind (derive u ct ''iv'' [] 12) (\<lambda>ci.
      tls_bind (derive u st ''key'' [] 16) (\<lambda>sk.
      tls_bind (derive u st ''iv'' [] 12) (\<lambda>si.
        TlsOk (ctx\<lparr>c_ap_traffic := ct, s_ap_traffic := st, c_ap_key := ck, c_ap_iv := ci, s_ap_key := sk, s_ap_iv := si,
          epoch_c := 3, epoch_s := 3\<rparr>)))))))))"

section \<open>The client's handshake\<close>

definition be16 :: "nat \<Rightarrow> u8 list" where
  "be16 n = [of_nat (n div 256), of_nat n]"

definition be24 :: "nat \<Rightarrow> u8 list" where
  "be24 n = [of_nat (n div 65536), of_nat (n div 256), of_nat n]"

definition hello_extensions :: "u8 list \<Rightarrow> u8 list" where
  "hello_extensions pub = [0x00, 0x2b, 0x00, 0x03, 0x02, 0x03, 0x04] @
     [0x00, 0x33, 0x00, 0x2a, 0x00, 0x28, 0x00, 0x1d, 0x00, 0x20] @ pub @
     [0x00, 0x0d, 0x00, 0x08, 0x00, 0x06, 0x08, 0x04, 0x08, 0x07, 0x04, 0x01] @
     [0x00, 0x0a, 0x00, 0x04, 0x00, 0x02, 0x00, 0x1d]"

definition client_hello :: "u8 list \<Rightarrow> u8 list \<Rightarrow> u8 list" where
  "client_hello random pub = (let exts = hello_extensions pub;
       body = [0x03, 0x03] @ random @ [0] @ [0x00, 0x02, 0x13, 0x01] @ [0x01, 0x00] @ be16 (length exts) @ exts
     in 1 # be24 (length body) @ body)"

definition send_client_hello :: "tls_stack \<Rightarrow> u8 list \<Rightarrow> tls_ctx \<times> tls_env \<Rightarrow> (int \<times> tls_ctx \<times> tls_env) tls" where
  "send_client_hello u rnd = (\<lambda>(ctx, e). case tls_x25519_keypair rnd of (pub, priv) \<Rightarrow>
     (let ctx = ctx\<lparr>x25519_pub := pub, x25519_priv := priv\<rparr>; msg = client_hello (client_random ctx) pub;
          ctx = (hash_msg msg (ctx\<lparr>transcript := tls_sha256_init (transcript ctx)\<rparr>))\<lparr>transcript_valid := True\<rparr>
      in tls_send_record u TLS_CONTENT_HANDSHAKE msg (ctx, e)))"

definition rd16 :: "u8 list \<Rightarrow> nat \<Rightarrow> u16 tls" where
  "rd16 d p = (if p + 1 < length d then TlsOk (push_bit 8 (ucast (d ! p)) OR ucast (d ! (p + 1))) else TlsFault)"

definition key_share :: "u8 list \<Rightarrow> nat \<Rightarrow> nat \<Rightarrow> u8 list tls" where
  "key_share d pos e_len = (if e_len < 4 then TlsFail
     else tls_bind (rd16 d pos) (\<lambda>group. tls_bind (rd16 d (pos + 2)) (\<lambda>klen.
       if group \<noteq> 0x001d \<or> klen \<noteq> 32 then TlsFail
       else if pos + 4 + 32 > pos + e_len then TlsFail
       else if length d < pos + 4 + 32 then TlsFault
       else TlsOk (slice (pos + 4) 32 d))))"

lemma tls_bind_cong [fundef_cong]: "x = y \<Longrightarrow> (\<And>a. y = TlsOk a \<Longrightarrow> f a = g a) \<Longrightarrow> tls_bind x f = tls_bind y g"
  by (cases y) simp_all

function parse_exts :: "u8 list \<Rightarrow> nat \<Rightarrow> nat \<Rightarrow> u16 \<Rightarrow> u8 list option \<Rightarrow> u8 list option tls" where
  "parse_exts d len pos ext_len pub = (if pos + 4 \<le> len \<and> ext_len > 0
     then tls_bind (rd16 d pos) (\<lambda>ext_type. tls_bind (rd16 d (pos + 2)) (\<lambda>e_len.
       let pos = pos + 4; ext_len = ext_len - 4 in
       if pos + unat e_len > len then TlsFail
       else tls_bind (if ext_type = 0x0033 then tls_bind (key_share d pos (unat e_len)) (\<lambda>k. TlsOk (Some k)) else TlsOk pub)
         (\<lambda>pub. parse_exts d len (pos + unat e_len) (ext_len - e_len) pub)))
     else TlsOk pub)"
  by pat_completeness auto
termination by (relation "measure (\<lambda>(d, len, pos, ext_len, pub). len - pos)") auto

declare parse_exts.simps [simp del]

text \<open>The body of a ServerHello: \<open>d\<close> is the buffer after the message header, \<open>len\<close> the length the header gives. The result is the server's random value and key.\<close>

definition parse_hello_body :: "u8 list \<Rightarrow> nat \<Rightarrow> u8 list tls" where
  "parse_hello_body d len =
     (if 35 > len then TlsFail
      else let pos = 35 + unat (d ! 34) in
        if pos + 2 > len then TlsFail
        else tls_bind (rd16 d pos) (\<lambda>cs.
          if cs \<noteq> 0x1301 then TlsFail
          else if pos + 3 > len then TlsFail
          else if pos + 5 > len then TlsFail
          else tls_bind (rd16 d (pos + 3)) (\<lambda>ext_len.
            tls_bind (parse_exts d len (pos + 5) ext_len None) (\<lambda>pub. case pub of None \<Rightarrow> TlsFail | Some k \<Rightarrow> TlsOk k))))"

text \<open>\<open>hash_buf\<close> hashes the header and the body of a message in the buffer.\<close>

definition hash_buf :: "u8 list \<Rightarrow> nat \<Rightarrow> tls_ctx \<Rightarrow> tls_ctx tls" where
  "hash_buf buf len ctx = (if length buf < len + 4 then TlsFault else TlsOk (hash_msg (take (len + 4) buf) ctx))"

definition parse_server_hello :: "tls_stack \<Rightarrow> u8 list \<Rightarrow> nat \<Rightarrow> tls_ctx \<Rightarrow> (bool \<times> tls_ctx) tls" where
  "parse_server_hello u buf len ctx = (let d = drop 4 buf in
     if 2 > len then TlsOk (False, ctx)
     else if 34 > len then TlsOk (False, ctx)
     else let ctx = ctx\<lparr>server_random := slice 2 32 d\<rparr> in
       case parse_hello_body d len of
         TlsFault \<Rightarrow> TlsFault
       | TlsFail \<Rightarrow> TlsOk (False, ctx)
       | TlsOk k \<Rightarrow> tls_bind (hash_buf buf len (ctx\<lparr>x25519_server_pub := k\<rparr>)) (\<lambda>ctx.
           tls_bind (derive_handshake_keys u ctx) (\<lambda>ctx. TlsOk (True, ctx))))"

definition verify_server_finished :: "tls_stack \<Rightarrow> u8 list \<Rightarrow> nat \<Rightarrow> tls_ctx \<Rightarrow> (bool \<times> tls_ctx) tls" where
  "verify_server_finished u buf len ctx =
     (if len \<noteq> 32 then TlsOk (False, ctx)
      else if tls_hmac_sha256 (tu_ctx u) (finished_key_s ctx) (transcript_hash ctx) \<noteq> slice 4 32 buf then TlsOk (False, ctx)
      else tls_bind (hash_buf buf len ctx) (\<lambda>ctx. TlsOk (True, ctx)))"

definition send_client_finished :: "tls_stack \<Rightarrow> tls_ctx \<times> tls_env \<Rightarrow> (int \<times> tls_ctx \<times> tls_env) tls" where
  "send_client_finished u = (\<lambda>(ctx, e).
     (let verify_data = tls_hmac_sha256 (tu_ctx u) (finished_key_c ctx) (transcript_hash ctx); buf = [20, 0, 0, 32] @ verify_data in
      tls_bind (tls_send_record u TLS_CONTENT_HANDSHAKE buf (ctx, e)) (\<lambda>(ret, ctx, e).
        if ret < 0 then TlsOk (ret, ctx, e)
        else tls_bind (derive_application_keys u buf ctx) (\<lambda>ctx. TlsOk (0, ctx, e)))))"

text \<open>\<open>parse_encrypted_extensions\<close>, \<open>parse_certificate\<close> and \<open>parse_certificate_verify\<close> hash the message and accept it.\<close>

definition parse_certificate :: "u8 list \<Rightarrow> nat \<Rightarrow> tls_ctx \<Rightarrow> (bool \<times> tls_ctx) tls" where
  "parse_certificate buf len ctx = tls_bind (hash_buf buf len ctx) (\<lambda>ctx. TlsOk (True, ctx))"

definition hs_length :: "u8 list \<Rightarrow> nat" where
  "hs_length buf = 65536 * unat (buf ! 1) + 256 * unat (buf ! 2) + unat (buf ! 3)"

lemma fill_progress:
  "fill_record u cap (ctx, e) = TlsOk (Some x, ctx', e') \<Longrightarrow> length (te_recv e') < length (te_recv e)"
  by (auto simp: fill_record_def Let_def split: list.splits if_splits elim!: tls_bind.elims)

lemma recv_progress:
  assumes "tls_recv_record u cap (ctx, e) = TlsOk (Some x, ctx', e')"
  shows "length (te_recv e') < length (te_recv e) \<or>
    length (te_recv e') = length (te_recv e) \<and> recv_len ctx' - recv_pos ctx' < recv_len ctx - recv_pos ctx"
proof (cases "recv_len ctx > recv_pos ctx \<and> recv_len ctx - recv_pos ctx \<ge> 5 + rec_len (recv_buf ctx) (recv_pos ctx)")
  case True
  let ?c = "ctx\<lparr>recv_pos := recv_pos ctx + (5 + rec_len (recv_buf ctx) (recv_pos ctx))\<rparr>"
  have "tls_bind (take_record u cap (recv_pos ctx) (rec_len (recv_buf ctx) (recv_pos ctx)) ?c) (\<lambda>(r, ctx). TlsOk (r, ctx, e)) = TlsOk (Some x, ctx', e')"
    using assms True by (simp add: tls_recv_record_def Let_def)
  then have "e' = e" "recv_pos ctx' = recv_pos ?c" "recv_len ctx' = recv_len ?c"
    by (auto simp: take_record_def elim!: tls_bind.elims split: tls.splits prod.splits)
  then show ?thesis using True by simp arith
next
  case False
  then have "(\<exists>c. fill_record u cap (c, e) = TlsOk (Some x, ctx', e'))"
    using assms by (auto simp: tls_recv_record_def Let_def split: if_splits)
  then show ?thesis using fill_progress by blast
qed

abbreviation hs_measure :: "(tls_ctx \<times> tls_env) \<Rightarrow> nat \<times> nat" where
  "hs_measure s \<equiv> (length (te_recv (snd s)), recv_len (fst s) - recv_pos (fst s))"

function wait_server_hello :: "tls_stack \<Rightarrow> tls_ctx \<times> tls_env \<Rightarrow> (bool \<times> tls_ctx \<times> tls_env) tls" where
  "wait_server_hello u s = tls_bind (tls_recv_record u 4096 s) (\<lambda>(r, ctx, e). case r of
     None \<Rightarrow> TlsOk (False, ctx, e)
   | Some (typ, buf, len) \<Rightarrow> (let hs_len = hs_length buf in
       if typ = TLS_CONTENT_HANDSHAKE \<and> buf ! 0 = 2
       then tls_bind (hash_buf buf hs_len ctx) (\<lambda>ctx. tls_bind (parse_server_hello u buf hs_len ctx) (\<lambda>(ok, ctx). TlsOk (ok, ctx, e)))
       else if typ = TLS_CONTENT_CHANGECIPHERSPEC then wait_server_hello u (ctx, e)
       else TlsOk (False, ctx, e)))"
  by pat_completeness auto
termination
  by (relation "inv_image (less_than <*lex*> less_than) (\<lambda>(u, s). hs_measure s)") (auto dest!: recv_progress)

declare wait_server_hello.simps [simp del]

function wait_finished :: "tls_stack \<Rightarrow> tls_ctx \<times> tls_env \<Rightarrow> (bool \<times> tls_ctx \<times> tls_env) tls" where
  "wait_finished u s = tls_bind (tls_recv_record u 4096 s) (\<lambda>(r, ctx, e). case r of
     None \<Rightarrow> TlsOk (False, ctx, e)
   | Some (typ, buf, len) \<Rightarrow> (let hs_len = hs_length buf in
       if typ = TLS_CONTENT_CHANGECIPHERSPEC then wait_finished u (ctx, e)
       else if typ = TLS_CONTENT_HANDSHAKE then
         (if buf ! 0 = 8 \<or> buf ! 0 = 11 \<or> buf ! 0 = 15 then tls_bind (parse_certificate buf hs_len ctx)
            (\<lambda>(ok, ctx). if ok then wait_finished u (ctx, e) else TlsOk (False, ctx, e))
          else if buf ! 0 = 20 then tls_bind (verify_server_finished u buf hs_len ctx) (\<lambda>(ok, ctx). TlsOk (ok, ctx, e))
          else TlsOk (False, ctx, e))
       else TlsOk (False, ctx, e)))"
  by pat_completeness auto
termination
  by (relation "inv_image (less_than <*lex*> less_than) (\<lambda>(u, s). hs_measure s)")
    (auto dest!: recv_progress simp: parse_certificate_def hash_buf_def hash_msg_def split: if_splits)

declare wait_finished.simps [simp del]

definition tls_handshake :: "tls_stack \<Rightarrow> u8 list \<Rightarrow> tls_ctx \<times> tls_env \<Rightarrow> (int \<times> tls_ctx \<times> tls_env) tls" where
  "tls_handshake u rnd s = tls_bind (send_client_hello u rnd s) (\<lambda>(ret, s). if ret < 0 then TlsOk (- 1, s)
     else tls_bind (wait_server_hello u s) (\<lambda>(ok, s). if \<not> ok then TlsOk (- 1, s)
     else tls_bind (wait_finished u s) (\<lambda>(ok, s). if \<not> ok then TlsOk (- 1, s)
     else tls_bind (send_client_finished u s) (\<lambda>(ret, ctx, e). if ret < 0 then TlsOk (- 1, ctx, e)
     else TlsOk (0, ctx\<lparr>handshake_done := True\<rparr>, e)))))"

section \<open>The interface\<close>

definition tls_send :: "tls_stack \<Rightarrow> u8 list \<Rightarrow> tls_ctx \<times> tls_env \<Rightarrow> (int \<times> tls_ctx \<times> tls_env) tls" where
  "tls_send u d = (\<lambda>(ctx, e). if \<not> handshake_done ctx then TlsOk (- 1, ctx, e)
     else tls_bind (tls_send_record u TLS_CONTENT_APPLICATIONDATA d (ctx, e)) (\<lambda>(ret, s). TlsOk (if ret > 0 then int (length d) else - 1, s)))"

definition tls_recv :: "tls_stack \<Rightarrow> nat \<Rightarrow> tls_ctx \<times> tls_env \<Rightarrow> (u8 list option \<times> tls_ctx \<times> tls_env) tls" where
  "tls_recv u n = (\<lambda>(ctx, e). if \<not> handshake_done ctx then TlsOk (None, ctx, e)
     else tls_bind (tls_recv_record u n (ctx, e)) (\<lambda>(r, s). TlsOk (case r of
       None \<Rightarrow> None | Some (typ, buf, len) \<Rightarrow> if typ = TLS_CONTENT_ALERT then None else Some (take len buf), s)))"

definition tls_close :: "tls_stack \<Rightarrow> tls_ctx \<times> tls_env \<Rightarrow> (int \<times> tls_ctx \<times> tls_env) tls" where
  "tls_close u s = tls_send_record u TLS_CONTENT_ALERT [1, 0] s"

end
