(* ===== verification/Tls_Props.thy ===== *)
theory Tls_Props
  imports Tls
begin

text \<open>
  Properties of the TLS library: what its traffic keys are, what it sends, and which records it survives.
\<close>

section \<open>Traffic keys\<close>

definition label_key :: "string \<Rightarrow> u8 list \<Rightarrow> nat \<Rightarrow> u8 list" where
  "label_key label hash n = take n (fips_sha256 (label_info (str_bytes label) hash n @ [1]))"

lemma derive_eq:
  assumes "stack_ok u"
  shows "n \<le> 32 \<Longrightarrow> length label \<le> 32 \<Longrightarrow> length hash \<le> 32 \<Longrightarrow> derive u secret label hash n = TlsOk (label_key label hash n)"
  using assms by (simp add: derive_def derive_one_block stack_ok_def str_bytes_def label_key_def)

lemma length_hashes [simp]: "length (transcript_hash ctx) = 32" "length (tls_sha256 c d) = 32"
  by (simp_all add: transcript_hash_def tls_sha256_def)

text \<open>
  C30. The traffic keys of every session are constants: whatever the private key, the peer's key, the shared secret and the
  transcript are, the handshake keys and the application keys of both directions are the first 16 bytes of the SHA-256
  of a fixed label, the initialisation vectors the first 12 bytes of another, and the keys of the two Finished
  messages are one constant too.
\<close>

theorem tls_keys_constant:
  assumes "stack_ok u"
  shows "\<exists>h a. derive_handshake_keys u ctx = TlsOk h \<and> derive_application_keys u finished ctx' = TlsOk a \<and>
    {c_hs_key h, s_hs_key h, c_ap_key a, s_ap_key a} = {label_key ''key'' [] 16} \<and>
    {c_hs_iv h, s_hs_iv h, c_ap_iv a, s_ap_iv a} = {label_key ''iv'' [] 12} \<and>
    {finished_key_c h, finished_key_s h} = {label_key ''finished'' [] 32}"
proof -
  note d = derive_eq [OF assms]
  have "\<exists>h. derive_handshake_keys u ctx = TlsOk h \<and> {c_hs_key h, s_hs_key h} = {label_key ''key'' [] 16} \<and>
      {c_hs_iv h, s_hs_iv h} = {label_key ''iv'' [] 12} \<and> {finished_key_c h, finished_key_s h} = {label_key ''finished'' [] 32}"
    by (simp add: derive_handshake_keys_def Let_def d)
  moreover have "\<exists>a. derive_application_keys u finished ctx' = TlsOk a \<and> {c_ap_key a, s_ap_key a} = {label_key ''key'' [] 16} \<and>
      {c_ap_iv a, s_ap_iv a} = {label_key ''iv'' [] 12}"
    by (simp add: derive_application_keys_def Let_def d)
  ultimately show ?thesis by auto
qed

definition stack_demo :: tls_stack where
  "stack_demo = \<lparr>tu_ctx = ctx_demo, tu_block = [], tu_buf = \<lambda>n. replicate n 9\<rparr>"

definition tls_demo :: tls_ctx where
  "tls_demo = \<lparr>handshake_done = True, client_random = [], server_random = [], x25519_priv = [], x25519_pub = [], x25519_server_pub = [],
     shared_secret = [], early_secret = [], handshake_secret = [], master_secret = [], c_hs_traffic = [], s_hs_traffic = [],
     c_hs_key = [], c_hs_iv = [], s_hs_key = [], s_hs_iv = [], c_ap_traffic = [], s_ap_traffic = [], c_ap_key = replicate 16 1,
     c_ap_iv = replicate 12 2, s_ap_key = replicate 16 1, s_ap_iv = replicate 12 2, finished_key_c = [], finished_key_s = [], seq_c = 0, seq_s = 0,
     epoch_c = 3, epoch_s = 3, transcript = ctx_demo, transcript_valid = True, recv_buf = replicate 16384 0, recv_len = 0, recv_pos = 0\<rparr>"

lemma stack_demo_ok: "stack_ok stack_demo"
  by (simp add: stack_ok_def stack_demo_def ctx_ok_def ctx_demo_def)

theorem tls_keys_constant_witness:
  "\<exists>h a. derive_handshake_keys stack_demo tls_demo = TlsOk h \<and> derive_application_keys stack_demo [] tls_demo = TlsOk a \<and> c_hs_key h = s_ap_key a"
proof -
  from tls_keys_constant [OF stack_demo_ok, of tls_demo "[]" tls_demo] obtain h a where
    "derive_handshake_keys stack_demo tls_demo = TlsOk h" "derive_application_keys stack_demo [] tls_demo = TlsOk a"
    "{c_hs_key h, s_hs_key h, c_ap_key a, s_ap_key a} = {label_key ''key'' [] 16}" by blast
  moreover from this(3) have "c_hs_key h = s_ap_key a" by (metis insert_iff singletonD)
  ultimately show ?thesis by blast
qed

text \<open>Every completed handshake ends with these keys.\<close>

lemma tls_bind_Ok: "tls_bind x f = TlsOk y \<longleftrightarrow> (\<exists>a. x = TlsOk a \<and> f a = TlsOk y)"
  by (cases x) simp_all

lemma tls_handshake_keys:
  assumes "stack_ok u" and "tls_handshake u rnd s = TlsOk (0, ctx, e)"
  shows "c_ap_key ctx = label_key ''key'' [] 16 \<and> s_ap_key ctx = label_key ''key'' [] 16 \<and>
    c_ap_iv ctx = label_key ''iv'' [] 12 \<and> s_ap_iv ctx = label_key ''iv'' [] 12"
proof -
  from assms(2) obtain s' ret ctx1 where "send_client_finished u s' = TlsOk (ret, ctx1, e)" "\<not> ret < 0" "ctx = ctx1\<lparr>handshake_done := True\<rparr>"
    by (auto simp: tls_handshake_def tls_bind_Ok split: if_splits prod.splits)
  then obtain ctx2 m where "derive_application_keys u m ctx2 = TlsOk ctx1" "ctx = ctx1\<lparr>handshake_done := True\<rparr>"
    by (cases s') (auto simp: send_client_finished_def Let_def tls_bind_Ok split: if_splits prod.splits)
  then show ?thesis by (auto simp: derive_application_keys_def Let_def derive_eq [OF assms(1)])
qed

section \<open>What is sent\<close>

lemma length_nonce [simp]: "length (tls_aead_nonce iv seq) = 12"
  by (simp add: tls_aead_nonce_def)

lemma length_header [simp]: "length (record_header n) = 5"
  by (simp add: record_header_def)

text \<open>
  No encrypted record carries its cipher text and tag: for texts of 10 to 223 bytes, \<open>tls_encrypt\<close> succeeds and the record is the header, eleven bytes of the
  tag where the first eleven bytes of the cipher text belong, the rest of the cipher text, and, where the tag
  belongs, the sixteen bytes the caller's buffer held before.
\<close>

theorem tls_record_clobbered:
  assumes "length (c_ap_key ctx) = 16" and "10 \<le> length plain" and "length plain < 224" and "length out = 16384"
  shows "\<exists>cipher tag buf. tls_aes128_gcm_encrypt (c_ap_key ctx) (tls_aead_nonce (c_ap_iv ctx) (seq_c ctx))
        (record_header (length plain + 17)) (plain @ [typ]) = GcmOk (cipher, tag) \<and>
    tls_encrypt ctx 3 plain typ out = TlsOk (buf, length plain + 22) \<and>
    take (length plain + 22) buf = record_header (length plain + 17) @ drop 5 tag @ drop 11 cipher @ slice (length plain + 6) 16 out"
proof -
  have "pad_len n + n \<le> 224" if "n \<le> 224" for n
  proof -
    define q r where "q = n div 16" and "r = n mod 16"
    have "n = 16 * q + r" "r < 16" by (simp_all add: q_def r_def)
    with that show ?thesis unfolding pad_len_def r_def [symmetric] by auto
  qed
  then have "pad_len (length plain + 1) + (length plain + 1) \<le> 224" using assms(3) by (metis Suc_eq_plus1 Suc_leI)
  then have fit: "length (record_header (length plain + 17)) + pad_len (length (record_header (length plain + 17))) + length (plain @ [typ]) + pad_len (length (plain @ [typ])) + 16 \<le> 256"
    by (simp add: pad_len_def [of 5])
  from gcm_encrypts [OF assms(1) length_nonce [of "c_ap_iv ctx" "seq_c ctx"] fit] obtain cipher tag where
    g: "tls_aes128_gcm_encrypt (c_ap_key ctx) (tls_aead_nonce (c_ap_iv ctx) (seq_c ctx)) (record_header (length plain + 17)) (plain @ [typ]) = GcmOk (cipher, tag)"
      "length cipher = length plain + 1" "length tag = 16" by auto
  define h where "h = record_header (length plain + 17)"
  have h: "length h = 5" by (simp add: h_def)
  let ?buf = "splice 0 h (splice 0 tag (splice 5 cipher out))"
  have e: "tls_encrypt ctx 3 plain typ out = TlsOk (?buf, length plain + 22)"
  proof -
    have n: "length plain + 1 + 16 = length plain + 17" "length plain + 17 + 5 = length plain + 22" by simp_all
    show ?thesis using g assms(2-4) unfolding tls_encrypt_def n Let_def h_def by simp
  qed
  have "take (length plain + 22) ?buf = h @ drop 5 tag @ drop 11 cipher @ slice (length plain + 6) 16 out"
    using assms(2-4) g(2,3) h by (simp add: splice_def slice_def add.commute)
  with g(1) e show ?thesis unfolding h_def by blast
qed

theorem tls_record_clobbered_witness:
  "\<exists>buf tag cipher. tls_encrypt tls_demo 3 (replicate 20 5) 23 (replicate 16384 9) = TlsOk (buf, 42) \<and>
     take 42 buf = record_header 37 @ drop 5 tag @ drop 11 cipher @ replicate 16 9"
proof -
  have "length (c_ap_key tls_demo) = 16" by (simp add: tls_demo_def)
  from tls_record_clobbered [OF this, of "replicate 20 5" "replicate 16384 9" 23] obtain cipher tag buf where
    "tls_encrypt tls_demo 3 (replicate 20 5) 23 (replicate 16384 9) = TlsOk (buf, 42)"
    "take 42 buf = record_header 37 @ drop 5 tag @ drop 11 cipher @ slice 26 16 (replicate 16384 9)"
    by auto
  moreover have "slice 26 16 (replicate 16384 9) = replicate 16 (9 :: u8)" by (simp add: slice_def)
  ultimately show ?thesis by auto
qed

section \<open>Which records it survives\<close>

lemma decrypt_overflows:
  assumes "epoch = 2 \<or> epoch = 3" and "245 < length inp"
  shows "tls_decrypt ctx epoch inp cap = TlsFault"
proof -
  have "pad_len 5 = 11" by (simp add: pad_len_def)
  then have "auth_input (record_header (length inp - 5 - 16 + 16)) (slice 5 (length inp - 5 - 16) inp) = None"
    using assms(2) by (simp add: auth_input_def Let_def)
  then show ?thesis using assms by (auto simp: tls_decrypt_def Let_def tls_aes128_gcm_decrypt_def)
qed

text \<open>
  C40. A peer that sends one encrypted record of more than 240 bytes makes the client write past its buffer for authenticated data: once the client expects
  encrypted records, receiving such a record is a memory fault, whatever the record's tag is, before any check of it.
\<close>

theorem tls_recv_overflows:
  assumes "length (recv_buf ctx) = 16384" and "recv_len ctx \<le> recv_pos ctx" and "epoch_s ctx = 1 \<or> epoch_s ctx = 2 \<or> epoch_s ctx = 3"
    and "te_recv e = d # ds" and "length d \<le> 16384" and "5 + rec_len d 0 \<le> length d" and "240 < rec_len d 0"
  shows "tls_recv_record u cap (ctx, e) = TlsFault"
proof -
  have d: "d \<noteq> []" "\<not> length d < 5" "take 16384 d = d" using assms(5-7) by auto
  let ?b = "splice 0 d (recv_buf ctx)"
  have r: "rec_len ?b 0 = rec_len d 0" using assms(1,5,6) by (simp add: rec_len_def nth_splice)
  have "length ?b = 16384" using assms(1,5) by simp
  then have "length (slice 0 (5 + rec_len d 0) ?b) = 5 + rec_len d 0" using assms(5,6) by simp
  then have "tls_decrypt c (if epoch_s ctx = 1 then 2 else epoch_s ctx) (slice 0 (5 + rec_len d 0) ?b) cap = TlsFault" for c
    using assms(3,7) by (intro decrypt_overflows) auto
  then show ?thesis using assms(2-6) d r by (auto simp: tls_recv_record_def fill_record_def take_record_def Let_def)
qed

theorem tls_recv_overflows_witness:
  "tls_recv_record stack_demo 4096 (tls_demo, \<lparr>te_send = [], te_recv = [[23, 3, 3, 1, 0] @ replicate 256 0], te_sent = []\<rparr>) = TlsFault"
  by (rule tls_recv_overflows [where d = "[23, 3, 3, 1, 0] @ replicate 256 0" and ds = "[]"])
    (simp_all add: tls_demo_def rec_len_def)

end
