(* ===== verification/Tcp.thy ===== *)
theory Tcp
  imports Route
begin

text \<open>
  The transport protocol \<^verbatim>\<open>tcp.c\<close>. The connections of a network namespace are the list \<open>conns\<close>, a connection pointer is an index into it;
  packets handed to the network layer are appended to \<open>sent\<close> with the address they go to. What happens outside the file is the record
  \<open>tcp_env\<close>: the result of the n-th transmission, what other threads do while the lock is released, what polling
  the network card does, the callbacks of the socket layer, and the addresses of the machine. The initial sequence number (the time-stamp
  counter) is an argument.
\<close>

section \<open>Data\<close>

definition TCP_HDR_LEN :: nat where "TCP_HDR_LEN = 20"
definition TCP_MSS :: nat where "TCP_MSS = 1460"
definition TCP_MAX_CONN :: nat where "TCP_MAX_CONN = 16"
definition TCP_WINDOW :: u32 where "TCP_WINDOW = 65535"
definition TCP_BACKLOG :: nat where "TCP_BACKLOG = 8"

definition TCP_FIN :: u8 where "TCP_FIN = 1"
definition TCP_SYN :: u8 where "TCP_SYN = 2"
definition TCP_RST :: u8 where "TCP_RST = 4"
definition TCP_PSH :: u8 where "TCP_PSH = 8"
definition TCP_ACK :: u8 where "TCP_ACK = 16"

datatype tcp_state = TCP_CLOSED | TCP_LISTEN | TCP_SYN_SENT | TCP_SYN_RECEIVED | TCP_ESTABLISHED | TCP_FIN_WAIT1 | TCP_FIN_WAIT2
  | TCP_CLOSE_WAIT | TCP_CLOSING | TCP_LAST_ACK | TCP_TIME_WAIT

record tcp_conn =
  t_used :: bool
  t_af :: int
  t_state :: tcp_state
  t_local_port :: u16
  t_local_ip :: "u8 list"
  t_remote_ip :: "u8 list"
  t_remote_port :: u16
  t_snd_nxt :: u32
  t_rcv_nxt :: u32
  t_snd_una :: u32
  t_snd_wnd :: u32
  t_iss :: u32
  t_irs :: u32
  t_closed :: bool
  t_on_recv :: "nat option"
  t_on_close :: "nat option"
  t_on_connect :: "nat option"
  t_recv_done :: bool
  t_recv_buf :: "u8 list"
  t_recv_len :: u32
  t_accept_queue :: "nat list"
  t_accept_head :: nat
  t_accept_tail :: nat
  t_accept_count :: nat
  t_ipv6only :: bool
  t_nodelay :: bool
  t_recv_timeout :: int
  t_send_timeout :: int
  t_timewait_ms :: u32
  t_retrans_buf :: "u8 list"
  t_retrans_seq :: u32
  t_retrans_len :: u32
  t_rto_ms :: u32
  t_rto_remaining :: u32
  t_fin_rto_remaining :: u32
  t_fin_rto_ms :: u32

record tcp =
  conns :: "tcp_conn list"
  ephemeral_port :: u16
  tcp_initialized :: bool
  sent :: "(u8 list \<times> u8 list) list"

record tcp_env =
  tx_result :: "nat \<Rightarrow> err_t"
  other_threads :: "nat \<Rightarrow> tcp \<Rightarrow> tcp"
  rx_poll :: "nat \<Rightarrow> tcp \<Rightarrow> tcp"
  cb_recv :: "nat \<Rightarrow> nat \<Rightarrow> u8 list \<Rightarrow> u32 \<Rightarrow> tcp \<Rightarrow> tcp"
  cb_close :: "nat \<Rightarrow> nat \<Rightarrow> tcp \<Rightarrow> tcp"
  cb_connect :: "nat \<Rightarrow> nat \<Rightarrow> tcp \<Rightarrow> tcp"
  our_v4 :: "u8 list"
  our_v6 :: "u8 list"

definition upd_conn :: "nat \<Rightarrow> (tcp_conn \<Rightarrow> tcp_conn) \<Rightarrow> tcp \<Rightarrow> tcp" where
  "upd_conn i f s = s\<lparr>conns := (conns s)[i := f (conns s ! i)]\<rparr>"

section \<open>Packets\<close>

definition tcp_htons :: "u16 \<Rightarrow> u16" where
  "tcp_htons v = push_bit 8 v OR drop_bit 8 v"

definition tcp_htonl :: "u32 \<Rightarrow> u32" where
  "tcp_htonl v = push_bit 24 (take_bit 8 v) OR push_bit 16 (take_bit 8 (drop_bit 8 v)) OR push_bit 8 (take_bit 8 (drop_bit 16 v)) OR drop_bit 24 v"

definition le16 :: "u16 \<Rightarrow> u8 list" where
  "le16 v = [ucast v, ucast (drop_bit 8 v)]"

definition le32 :: "u32 \<Rightarrow> u8 list" where
  "le32 v = [ucast v, ucast (drop_bit 8 v), ucast (drop_bit 16 v), ucast (drop_bit 24 v)]"

definition ld16 :: "u8 list \<Rightarrow> nat \<Rightarrow> u16" where
  "ld16 d i = ucast (d ! i) OR push_bit 8 (ucast (d ! (i + 1)))"

definition ld32 :: "u8 list \<Rightarrow> nat \<Rightarrow> u32" where
  "ld32 d i = ucast (d ! i) OR push_bit 8 (ucast (d ! (i + 1))) OR push_bit 16 (ucast (d ! (i + 2))) OR push_bit 24 (ucast (d ! (i + 3)))"

definition sum_words :: "u8 list \<Rightarrow> nat \<Rightarrow> u32 \<Rightarrow> u32" where
  "sum_words d n acc = fold (\<lambda>i s. s + ucast (tcp_htons (ld16 d (2 * i)))) [0..<n] acc"

lemma fold_carry_less:
  assumes "drop_bit 16 (s :: u32) \<noteq> 0"
  shows "unat ((s AND 0xFFFF) + drop_bit 16 s) < unat s"
proof -
  have d: "unat (drop_bit 16 s) = unat s div 65536" unfolding unat_drop_bit_eq by (simp add: drop_bit_eq_div)
  have "s AND 0xFFFF = take_bit 16 s" by (simp add: take_bit_eq_mask mask_eq_exp_minus_1)
  then have m: "unat (s AND 0xFFFF) = unat s mod 65536" by (simp add: take_bit_eq_mod unat_mod)
  have q: "unat s div 65536 \<noteq> 0" using assms d by (metis unat_eq_zero)
  have "unat s mod 65536 + unat s div 65536 < unat s" using q div_mult_mod_eq [of "unat s" 65536] by linarith
  moreover have "unat ((s AND 0xFFFF) + drop_bit 16 s) \<le> unat (s AND 0xFFFF) + unat (drop_bit 16 s)"
    unfolding unat_word_ariths by (rule mod_less_eq_dividend)
  ultimately show ?thesis using m d by linarith
qed

function fold_carry :: "u32 \<Rightarrow> u32" where
  "fold_carry s = (if drop_bit 16 s \<noteq> 0 then fold_carry ((s AND 0xFFFF) + drop_bit 16 s) else s)"
  by pat_completeness auto
termination by (relation "measure unat") (simp_all add: fold_carry_less)

declare fold_carry.simps [simp del]

definition checksum_sum :: "u8 list \<Rightarrow> u8 list \<Rightarrow> u8 list \<Rightarrow> int \<Rightarrow> u32" where
  "checksum_sum pkt src dst af = (let tcp_len = of_nat (length pkt) :: u32;
       sum = (if af = AF_INET then sum_words dst 2 (sum_words src 2 0) + 6 + ucast (ucast tcp_len :: u16)
              else sum_words dst 8 (sum_words src 8 0) + tcp_len + 6);
       sum = sum_words pkt (length pkt div 2) sum
     in if odd (length pkt) then sum + push_bit 8 (ucast (pkt ! (length pkt - 1))) else sum)"

definition tcp_checksum_pseudo :: "u8 list \<Rightarrow> u8 list \<Rightarrow> u8 list \<Rightarrow> int \<Rightarrow> u16" where
  "tcp_checksum_pseudo pkt src dst af = tcp_htons (ucast (NOT (fold_carry (checksum_sum pkt src dst af)) AND 0xFFFF))"

definition tcp_header :: "u16 \<Rightarrow> u16 \<Rightarrow> u32 \<Rightarrow> u32 \<Rightarrow> u8 \<Rightarrow> u16 \<Rightarrow> u8 list" where
  "tcp_header src_port dst_port seq ack flags window = le16 (tcp_htons src_port) @ le16 (tcp_htons dst_port) @ le32 (tcp_htonl seq) @ le32 (tcp_htonl ack) @
     [0x50, flags] @ le16 (tcp_htons window) @ le16 0 @ le16 0"

definition put_checksum :: "u16 \<Rightarrow> u8 list \<Rightarrow> u8 list" where
  "put_checksum c pkt = splice 16 (le16 c) pkt"

definition tcp_packet :: "tcp_conn \<Rightarrow> u8 \<Rightarrow> u8 list \<Rightarrow> u8 list" where
  "tcp_packet c flags d = (let buf = tcp_header (t_local_port c) (t_remote_port c) (t_snd_nxt c) (t_rcv_nxt c) flags (ucast TCP_WINDOW) @ d
     in put_checksum (tcp_checksum_pseudo buf (t_local_ip c) (t_remote_ip c) (t_af c)) buf)"

definition tcp_transmit :: "tcp_env \<Rightarrow> u8 list \<Rightarrow> u8 list \<Rightarrow> tcp \<Rightarrow> err_t \<times> tcp" where
  "tcp_transmit E dst pkt s = (tx_result E (length (sent s)), s\<lparr>sent := sent s @ [(dst, pkt)]\<rparr>)"

definition tcp_send_pkt :: "tcp_env \<Rightarrow> nat \<Rightarrow> u8 \<Rightarrow> u8 list \<Rightarrow> tcp \<Rightarrow> err_t \<times> tcp" where
  "tcp_send_pkt E i flags d s = (let c = conns s ! i in
     tcp_transmit E (if t_af c = AF_INET then take 4 (t_remote_ip c) else t_remote_ip c) (tcp_packet c flags d) s)"

definition send_ack :: "tcp_env \<Rightarrow> nat \<Rightarrow> tcp \<Rightarrow> tcp" where
  "send_ack E i s = snd (tcp_send_pkt E i TCP_ACK [] s)"

section \<open>Finding connections\<close>

definition conn_match :: "int \<Rightarrow> u8 list \<Rightarrow> u16 \<Rightarrow> u16 \<Rightarrow> tcp_conn \<Rightarrow> bool" where
  "conn_match af src src_port dst_port c \<longleftrightarrow> t_used c \<and> t_local_port c = dst_port \<and> t_state c \<noteq> TCP_LISTEN \<and> t_remote_port c = src_port \<and>
     (if af = AF_INET
      then if t_af c = AF_INET then take 4 (t_remote_ip c) = take 4 src
        else t_af c = AF_INET6 \<and> \<not> t_ipv6only c \<and> t_remote_ip c ! 10 = 0xFF \<and> t_remote_ip c ! 11 = 0xFF \<and>
          t_remote_ip c ! 12 = src ! 0 \<and> t_remote_ip c ! 13 = src ! 1 \<and> t_remote_ip c ! 14 = src ! 2 \<and> t_remote_ip c ! 15 = src ! 3
      else t_af c = AF_INET6 \<and> take 16 (t_remote_ip c) = take 16 src)"

definition tcp_find_conn :: "int \<Rightarrow> u8 list \<Rightarrow> u16 \<Rightarrow> u16 \<Rightarrow> tcp \<Rightarrow> nat option" where
  "tcp_find_conn af src src_port dst_port s = find_idx (conn_match af src src_port dst_port) (conns s)"

definition tcp_find_listener :: "u16 \<Rightarrow> int \<Rightarrow> tcp \<Rightarrow> nat option" where
  "tcp_find_listener port af s = find_idx (\<lambda>c. t_used c \<and> t_state c = TCP_LISTEN \<and> t_local_port c = port \<and>
     \<not> (t_af c = AF_INET6 \<and> t_ipv6only c \<and> af = AF_INET) \<and> \<not> (t_af c = AF_INET \<and> af = AF_INET6)) (conns s)"

definition free_slot :: "tcp \<Rightarrow> nat option" where
  "free_slot s = find_idx (\<lambda>c. \<not> t_used c) (conns s)"

section \<open>Receiving a segment\<close>

record tcp_seg =
  g_src_port :: u16
  g_dst_port :: u16
  g_seq :: u32
  g_ack :: u32
  g_flags :: u8
  g_window :: u16
  g_payload :: "u8 list"

definition has :: "tcp_seg \<Rightarrow> u8 \<Rightarrow> bool" where
  "has g f \<longleftrightarrow> g_flags g AND f \<noteq> 0"

definition parse_seg :: "u8 list \<Rightarrow> tcp_seg option" where
  "parse_seg d = (if length d < TCP_HDR_LEN then None
     else let hdr_len = unat (drop_bit 4 (d ! 12)) * 4 in
       if hdr_len < TCP_HDR_LEN \<or> hdr_len > length d then None
       else Some \<lparr>g_src_port = tcp_htons (ld16 d 0), g_dst_port = tcp_htons (ld16 d 2), g_seq = tcp_htonl (ld32 d 4), g_ack = tcp_htonl (ld32 d 8),
         g_flags = d ! 13, g_window = tcp_htons (ld16 d 14), g_payload = drop hdr_len d\<rparr>)"

definition put_ip :: "int \<Rightarrow> u8 list \<Rightarrow> u8 list \<Rightarrow> u8 list" where
  "put_ip af a u = (if af = AF_INET then splice 0 (take 4 a) u else take 16 a)"

definition new_child :: "int \<Rightarrow> u8 list \<Rightarrow> u8 list \<Rightarrow> tcp_seg \<Rightarrow> nat option \<Rightarrow> u32 \<Rightarrow> tcp_conn \<Rightarrow> tcp_conn" where
  "new_child af src dst g on_connect iss c = c\<lparr>t_used := True, t_af := af, t_state := TCP_SYN_RECEIVED, t_local_port := g_dst_port g, t_remote_port := g_src_port g,
     t_snd_una := 0, t_snd_wnd := TCP_WINDOW, t_rcv_nxt := g_seq g + 1, t_irs := g_seq g, t_closed := False,
     t_remote_ip := put_ip af src (t_remote_ip c), t_local_ip := put_ip af dst (t_local_ip c),
     t_on_recv := None, t_on_close := None, t_on_connect := on_connect, t_recv_done := False, t_recv_len := 0, t_timewait_ms := 0,
     t_retrans_len := 0, t_rto_remaining := 0, t_rto_ms := 1000, t_fin_rto_remaining := 0, t_snd_nxt := iss, t_iss := iss\<rparr>"

definition enqueue_child :: "nat \<Rightarrow> tcp_conn \<Rightarrow> tcp_conn" where
  "enqueue_child i c = (if t_accept_count c < TCP_BACKLOG
     then c\<lparr>t_accept_queue := (t_accept_queue c)[t_accept_tail c := i], t_accept_tail := (t_accept_tail c + 1) mod TCP_BACKLOG,
       t_accept_count := t_accept_count c + 1\<rparr>
     else c)"

definition accept_syn :: "tcp_env \<Rightarrow> u32 \<Rightarrow> int \<Rightarrow> u8 list \<Rightarrow> u8 list \<Rightarrow> tcp_seg \<Rightarrow> nat \<Rightarrow> tcp \<Rightarrow> tcp" where
  "accept_syn E iss af src dst g l s = (case free_slot s of
     None \<Rightarrow> s
   | Some i \<Rightarrow> (let s = upd_conn i (new_child af src dst g (t_on_connect (conns s ! l)) iss) s;
         s = snd (tcp_send_pkt E i (TCP_SYN OR TCP_ACK) [] s);
         s = upd_conn i (\<lambda>c. c\<lparr>t_snd_nxt := t_snd_nxt c + 1\<rparr>) s
       in upd_conn l (enqueue_child i) s))"

definition refuse_syn :: "tcp_env \<Rightarrow> int \<Rightarrow> u8 list \<Rightarrow> tcp_seg \<Rightarrow> tcp \<Rightarrow> tcp" where
  "refuse_syn E af src g s = (let rst = le16 (tcp_htons (g_dst_port g)) @ le16 (tcp_htons (g_src_port g)) @ le32 0 @ le32 (tcp_htonl (g_seq g + 1)) @
         [0x50, TCP_RST OR TCP_ACK] @ le16 0 @ le16 0 @ le16 0;
       me = (if af = AF_INET then our_v4 E else our_v6 E)
     in snd (tcp_transmit E src (put_checksum (tcp_checksum_pseudo rst me src af) rst) s))"

text \<open>The callbacks that the code calls when it has released the lock.\<close>

record tcp_todo =
  td_connect :: "nat option"
  td_recv :: "nat option"
  td_close :: "nat option"
  td_deferred :: bool
  td_copy :: "u8 list"
  td_len :: u32

definition nothing :: tcp_todo where
  "nothing = \<lparr>td_connect = None, td_recv = None, td_close = None, td_deferred = False, td_copy = [], td_len = 0\<rparr>"

definition mss_copy :: "u8 list \<Rightarrow> u8 list" where
  "mss_copy p = (if length p < TCP_MSS then p else take TCP_MSS p)"

definition keep_data :: "u8 list \<Rightarrow> tcp_conn \<Rightarrow> tcp_conn" where
  "keep_data copy c = c\<lparr>t_recv_buf := splice 0 copy (t_recv_buf c), t_recv_len := of_nat (length copy), t_recv_done := True\<rparr>"

definition in_syn_sent :: "tcp_env \<Rightarrow> nat \<Rightarrow> tcp_seg \<Rightarrow> tcp \<Rightarrow> tcp_todo \<times> tcp" where
  "in_syn_sent E i g s = (if has g TCP_SYN \<and> has g TCP_ACK \<and> g_ack g = t_snd_nxt (conns s ! i)
     then (nothing\<lparr>td_connect := t_on_connect (conns s ! i)\<rparr>,
       send_ack E i (upd_conn i (\<lambda>c. c\<lparr>t_state := TCP_ESTABLISHED, t_rcv_nxt := g_seq g + 1, t_irs := g_seq g\<rparr>) s))
     else (nothing, s))"

definition in_syn_received :: "tcp_env \<Rightarrow> nat \<Rightarrow> tcp_seg \<Rightarrow> tcp \<Rightarrow> tcp_todo \<times> tcp" where
  "in_syn_received E i g s = (if has g TCP_ACK
     then let td = nothing\<lparr>td_connect := t_on_connect (conns s ! i)\<rparr>; s = upd_conn i (\<lambda>c. c\<lparr>t_state := TCP_ESTABLISHED\<rparr>) s in
       if g_payload g \<noteq> []
       then let copy = mss_copy (g_payload g);
           s = send_ack E i (upd_conn i (\<lambda>c. c\<lparr>t_rcv_nxt := g_seq g + of_nat (length (g_payload g))\<rparr>) s)
         in (td\<lparr>td_deferred := True, td_copy := copy, td_len := of_nat (length copy)\<rparr>, upd_conn i (keep_data copy) s)
       else (td, s)
     else (nothing, s))"

definition est_data :: "tcp_env \<Rightarrow> nat \<Rightarrow> tcp_seg \<Rightarrow> tcp \<Rightarrow> tcp_todo \<times> tcp" where
  "est_data E i g s = (let c = conns s ! i in
     if g_payload g = [] then (nothing, s)
     else if g_seq g = t_rcv_nxt c \<and> \<not> t_recv_done c
     then let s = send_ack E i (upd_conn i (\<lambda>c. c\<lparr>t_rcv_nxt := g_seq g + of_nat (length (g_payload g))\<rparr>) s); copy = mss_copy (g_payload g)
       in (nothing\<lparr>td_recv := t_on_recv c, td_copy := copy, td_len := of_nat (length (g_payload g))\<rparr>, upd_conn i (keep_data copy) s)
     else if g_seq g \<noteq> t_rcv_nxt c then (nothing, send_ack E i s)
     else (nothing, s))"

definition est_ack :: "tcp_seg \<Rightarrow> tcp_conn \<Rightarrow> tcp_conn" where
  "est_ack g c = (if has g TCP_ACK
     then let c = c\<lparr>t_snd_wnd := ucast (g_window g)\<rparr>; c = (if g_ack g > t_snd_una c then c\<lparr>t_snd_una := g_ack g\<rparr> else c) in
       if t_retrans_len c > 0 \<and> g_ack g \<ge> t_retrans_seq c + t_retrans_len c
       then c\<lparr>t_retrans_len := 0, t_rto_remaining := 0, t_rto_ms := 1000\<rparr> else c
     else c)"

definition in_established :: "tcp_env \<Rightarrow> nat \<Rightarrow> tcp_seg \<Rightarrow> tcp \<Rightarrow> tcp_todo \<times> tcp" where
  "in_established E i g s = (if has g TCP_FIN
     then let cb = t_on_close (conns s ! i)
       in (nothing\<lparr>td_close := cb\<rparr>, send_ack E i (upd_conn i (\<lambda>c. c\<lparr>t_rcv_nxt := g_seq g + 1, t_state := TCP_CLOSE_WAIT\<rparr>) s))
     else (case est_data E i g s of (td, s) \<Rightarrow> (td, upd_conn i (est_ack g) s)))"

definition in_fin_wait1 :: "tcp_env \<Rightarrow> nat \<Rightarrow> tcp_seg \<Rightarrow> tcp \<Rightarrow> tcp" where
  "in_fin_wait1 E i g s =
     (if has g TCP_FIN \<and> has g TCP_ACK
      then upd_conn i (\<lambda>c. c\<lparr>t_fin_rto_remaining := 0\<rparr>)
        (send_ack E i (upd_conn i (\<lambda>c. c\<lparr>t_rcv_nxt := g_seq g + 1, t_state := TCP_TIME_WAIT, t_timewait_ms := 60000\<rparr>) s))
      else if has g TCP_FIN then send_ack E i (upd_conn i (\<lambda>c. c\<lparr>t_rcv_nxt := g_seq g + 1, t_state := TCP_CLOSING\<rparr>) s)
      else if has g TCP_ACK then upd_conn i (\<lambda>c. c\<lparr>t_state := TCP_FIN_WAIT2, t_fin_rto_remaining := 0\<rparr>) s
      else s)"

definition in_fin_wait2 :: "tcp_env \<Rightarrow> nat \<Rightarrow> tcp_seg \<Rightarrow> tcp \<Rightarrow> tcp" where
  "in_fin_wait2 E i g s = (if has g TCP_FIN
     then send_ack E i (upd_conn i (\<lambda>c. c\<lparr>t_rcv_nxt := g_seq g + 1, t_state := TCP_TIME_WAIT, t_timewait_ms := 60000\<rparr>) s) else s)"

definition in_last_ack :: "nat \<Rightarrow> tcp_seg \<Rightarrow> tcp \<Rightarrow> tcp" where
  "in_last_ack i g s = (if has g TCP_ACK then upd_conn i (\<lambda>c. c\<lparr>t_state := TCP_CLOSED, t_used := False, t_fin_rto_remaining := 0\<rparr>) s else s)"

definition handle_segment :: "tcp_env \<Rightarrow> nat \<Rightarrow> tcp_seg \<Rightarrow> tcp \<Rightarrow> tcp_todo \<times> tcp" where
  "handle_segment E i g s =
     (if has g TCP_RST
      then (nothing\<lparr>td_close := t_on_close (conns s ! i)\<rparr>, upd_conn i (\<lambda>c. c\<lparr>t_state := TCP_CLOSED, t_closed := True\<rparr>) s)
      else case t_state (conns s ! i) of
        TCP_SYN_SENT \<Rightarrow> in_syn_sent E i g s
      | TCP_SYN_RECEIVED \<Rightarrow> in_syn_received E i g s
      | TCP_ESTABLISHED \<Rightarrow> in_established E i g s
      | TCP_FIN_WAIT1 \<Rightarrow> (nothing, in_fin_wait1 E i g s)
      | TCP_FIN_WAIT2 \<Rightarrow> (nothing, in_fin_wait2 E i g s)
      | TCP_CLOSING \<Rightarrow> (nothing, if has g TCP_ACK then upd_conn i (\<lambda>c. c\<lparr>t_state := TCP_TIME_WAIT\<rparr>) s else s)
      | TCP_LAST_ACK \<Rightarrow> (nothing, in_last_ack i g s)
      | TCP_TIME_WAIT \<Rightarrow> (nothing, upd_conn i (\<lambda>c. c\<lparr>t_timewait_ms := 60000\<rparr>) s)
      | _ \<Rightarrow> (nothing, s))"

definition run_callbacks :: "tcp_env \<Rightarrow> nat \<Rightarrow> tcp_todo \<Rightarrow> tcp \<Rightarrow> tcp" where
  "run_callbacks E i td s =
     (let s = (case td_connect td of None \<Rightarrow> s | Some f \<Rightarrow> cb_connect E f i s);
          s = (if td_deferred td then (case t_on_recv (conns s ! i) of None \<Rightarrow> s | Some f \<Rightarrow> cb_recv E f i (td_copy td) (td_len td) s) else s);
          s = (case td_close td of None \<Rightarrow> s | Some f \<Rightarrow> cb_close E f i s)
      in case td_recv td of None \<Rightarrow> s | Some f \<Rightarrow> cb_recv E f i (td_copy td) (td_len td) s)"

definition tcp_handle_common :: "tcp_env \<Rightarrow> u32 \<Rightarrow> int \<Rightarrow> u8 list \<Rightarrow> u8 list \<Rightarrow> u8 list \<Rightarrow> tcp \<Rightarrow> tcp" where
  "tcp_handle_common E iss af src dst d s = (case parse_seg d of
     None \<Rightarrow> s
   | Some g \<Rightarrow> (case tcp_find_conn af src (g_src_port g) (g_dst_port g) s of
       None \<Rightarrow> (case tcp_find_listener (g_dst_port g) af s of
           Some l \<Rightarrow> if has g TCP_SYN then accept_syn E iss af src dst g l s else s
         | None \<Rightarrow> if has g TCP_SYN \<and> g_dst_port g < 49152 then refuse_syn E af src g s else s)
     | Some i \<Rightarrow> (case handle_segment E i g s of (td, s) \<Rightarrow> run_callbacks E i td s)))"

section \<open>Opening and closing\<close>

definition tcp_listen :: "int \<Rightarrow> u16 \<Rightarrow> nat option \<Rightarrow> tcp \<Rightarrow> nat option \<times> tcp" where
  "tcp_listen af port on_connect s = (if \<not> tcp_initialized s then (None, s)
     else case free_slot s of
       None \<Rightarrow> (None, s)
     | Some i \<Rightarrow> (Some i, upd_conn i (\<lambda>c. c\<lparr>t_used := True, t_af := af, t_state := TCP_LISTEN, t_local_port := port,
         t_on_connect := on_connect, t_on_recv := None, t_on_close := None\<rparr>) s))"

text \<open>Waiting for a connection: up to \<open>n\<close> rounds of polling while it is neither established nor closed.\<close>

fun wait_open :: "tcp_env \<Rightarrow> nat \<Rightarrow> nat \<Rightarrow> tcp \<Rightarrow> tcp" where
  "wait_open E i 0 s = s"
| "wait_open E i (Suc n) s = (if t_state (conns s ! i) \<noteq> TCP_ESTABLISHED \<and> t_state (conns s ! i) \<noteq> TCP_CLOSED
     then wait_open E i n (rx_poll E n s) else s)"

definition tcp_connect :: "tcp_env \<Rightarrow> u32 \<Rightarrow> int \<Rightarrow> u8 list \<Rightarrow> u16 \<Rightarrow> u16 \<Rightarrow> int \<Rightarrow> tcp \<Rightarrow> nat option \<times> tcp" where
  "tcp_connect E iss af dst dst_port src_port timeout_ms s = (if \<not> tcp_initialized s then (None, s)
     else case free_slot s of
       None \<Rightarrow> (None, s)
     | Some i \<Rightarrow>
        (let (src_port, s) = (if src_port = 0 then (ephemeral_port s, s\<lparr>ephemeral_port := ephemeral_port s + 1\<rparr>) else (src_port, s));
             s = upd_conn i (\<lambda>c. c\<lparr>t_used := True, t_af := af, t_state := TCP_SYN_SENT, t_local_port := src_port, t_remote_port := dst_port,
               t_snd_una := 0, t_rcv_nxt := 0, t_closed := False, t_on_recv := None, t_on_close := None, t_on_connect := None,
               t_iss := iss, t_snd_nxt := iss, t_remote_ip := put_ip af dst (t_remote_ip c)\<rparr>) s
         in case tcp_send_pkt E i TCP_SYN [] s of (e, s) \<Rightarrow>
           if e \<noteq> ERR_OK then (None, upd_conn i (\<lambda>c. c\<lparr>t_used := False\<rparr>) s)
           else let s = upd_conn i (\<lambda>c. c\<lparr>t_snd_nxt := t_snd_nxt c + 1\<rparr>) s;
               timeout = (if timeout_ms \<le> 5000 then 30000 else timeout_ms);
               s = wait_open E i (nat (timeout div 50)) s
             in if t_state (conns s ! i) = TCP_ESTABLISHED then (Some i, s)
                else (None, upd_conn i (\<lambda>c. c\<lparr>t_used := False\<rparr>) s)))"

definition tcp_close :: "tcp_env \<Rightarrow> nat \<Rightarrow> tcp \<Rightarrow> err_t \<times> tcp" where
  "tcp_close E i s = (let c = conns s ! i in
     if \<not> t_used c then (ERR_INVAL, s)
     else if t_state c = TCP_ESTABLISHED \<or> t_state c = TCP_CLOSE_WAIT
     then let s = upd_conn i (\<lambda>c. c\<lparr>t_state := (if t_state c = TCP_ESTABLISHED then TCP_FIN_WAIT1 else TCP_LAST_ACK),
           t_snd_nxt := t_snd_nxt c + 1, t_fin_rto_remaining := 1000\<rparr>) s;
           s = other_threads E (length (sent s)) s
       in (ERR_OK, snd (tcp_send_pkt E i (TCP_FIN OR TCP_ACK) [] s))
     else (ERR_OK, upd_conn i (\<lambda>c. c\<lparr>t_state := TCP_CLOSED, t_used := False\<rparr>) s))"

section \<open>Sending data\<close>

datatype send_result = Sent nat | Failed err_t

fun wait_retrans :: "tcp_env \<Rightarrow> nat \<Rightarrow> nat \<Rightarrow> tcp \<Rightarrow> bool \<times> tcp" where
  "wait_retrans E i n s = (let c = conns s ! i in
     if t_retrans_len c > 0 \<and> t_state c = TCP_ESTABLISHED
     then (case n of 0 \<Rightarrow> (False, s) | Suc n \<Rightarrow> wait_retrans E i n (rx_poll E n s)) else (True, s))"

declare wait_retrans.simps [simp del]

function send_loop :: "tcp_env \<Rightarrow> nat \<Rightarrow> u8 list \<Rightarrow> tcp \<Rightarrow> err_t \<times> tcp" where
  "send_loop E i d s = (if d = [] then (ERR_OK, s)
     else let chunk = min TCP_MSS (length d);
         flags = (if chunk = length d then TCP_ACK OR TCP_PSH else TCP_ACK) in
       case tcp_send_pkt E i flags (take chunk d) s of (e, s) \<Rightarrow>
         (let s = other_threads E (length (sent s)) s; c = conns s ! i in
          if e \<noteq> ERR_OK then (e, s)
          else if \<not> t_used c \<or> t_state c \<noteq> TCP_ESTABLISHED then (ERR_AGAIN, s)
          else send_loop E i (drop chunk d) (upd_conn i (\<lambda>c. c\<lparr>t_snd_nxt := t_snd_nxt c + of_nat chunk,
            t_retrans_buf := splice 0 (take chunk d) (t_retrans_buf c), t_retrans_seq := t_snd_nxt c + of_nat chunk - of_nat chunk,
            t_retrans_len := of_nat chunk, t_rto_ms := 1000, t_rto_remaining := 1000\<rparr>) s)))"
  by pat_completeness auto
termination by (relation "measure (\<lambda>(E, i, d, s). length d)") (auto simp: TCP_MSS_def)

declare send_loop.simps [simp del]

definition tcp_send :: "tcp_env \<Rightarrow> nat \<Rightarrow> u8 list \<Rightarrow> tcp \<Rightarrow> send_result \<times> tcp" where
  "tcp_send E i d s = (let c = conns s ! i in
     if \<not> t_used c then (Failed ERR_INVAL, s)
     else if t_state c \<noteq> TCP_ESTABLISHED then (Failed ERR_AGAIN, s)
     else let timeout_ms = (if t_send_timeout c > 0 then t_send_timeout c else 5000) in
       case wait_retrans E i (nat (timeout_ms div 50)) s of (ready, s) \<Rightarrow>
         if \<not> ready then (Failed ERR_TIMEOUT, s)
         else if t_state (conns s ! i) \<noteq> TCP_ESTABLISHED then (Failed ERR_AGAIN, s)
         else (case send_loop E i d s of (e, s) \<Rightarrow> (if e = ERR_OK then Sent (length d) else Failed e, s)))"

section \<open>Timers\<close>

definition tick_timewait :: "tcp_conn \<Rightarrow> tcp_conn" where
  "tick_timewait c = (if t_timewait_ms c \<le> 10 then c\<lparr>t_state := TCP_CLOSED, t_used := False\<rparr> else c\<lparr>t_timewait_ms := t_timewait_ms c - 10\<rparr>)"

definition backoff :: "u32 \<Rightarrow> u32" where
  "backoff ms = (if ms * 2 > 60000 then 60000 else ms * 2)"

text \<open>The Boolean result tells whether the loop goes on with this connection.\<close>

definition tick_data :: "tcp_env \<Rightarrow> nat \<Rightarrow> tcp \<Rightarrow> bool \<times> tcp" where
  "tick_data E i s = (let c = conns s ! i in
     if t_retrans_len c > 0 \<and> t_state c = TCP_ESTABLISHED
     then if t_rto_remaining c \<le> 10
       then let rlen = t_retrans_len c; rseq = t_retrans_seq c; rbuf = take (unat rlen) (t_retrans_buf c);
           s = upd_conn i (\<lambda>c. c\<lparr>t_rto_ms := backoff (t_rto_ms c), t_rto_remaining := backoff (t_rto_ms c)\<rparr>) s;
           s = snd (tcp_send_pkt E i (TCP_ACK OR TCP_PSH) rbuf s); s = other_threads E (length (sent s)) s; c = conns s ! i
         in if \<not> t_used c \<or> t_state c \<noteq> TCP_ESTABLISHED \<or> t_retrans_len c = 0 then (False, s)
            else (True, upd_conn i (\<lambda>c. c\<lparr>t_snd_nxt := rseq + rlen\<rparr>) s)
       else (True, upd_conn i (\<lambda>c. c\<lparr>t_rto_remaining := t_rto_remaining c - 10\<rparr>) s)
     else (True, s))"

definition tick_fin :: "tcp_env \<Rightarrow> nat \<Rightarrow> tcp \<Rightarrow> tcp" where
  "tick_fin E i s = (let c = conns s ! i in
     if (t_state c = TCP_FIN_WAIT1 \<or> t_state c = TCP_LAST_ACK) \<and> t_fin_rto_remaining c > 0
     then if t_fin_rto_remaining c \<le> 10
       then let ms = (if t_fin_rto_ms c * 2 > 60000 then 60000 else if t_fin_rto_ms c \<noteq> 0 then t_fin_rto_ms c * 2 else 2000);
           s = upd_conn i (\<lambda>c. c\<lparr>t_fin_rto_ms := ms, t_fin_rto_remaining := ms\<rparr>) s;
           s = snd (tcp_send_pkt E i (TCP_FIN OR TCP_ACK) [] s); s = other_threads E (length (sent s)) s; c = conns s ! i
         in if \<not> t_used c \<or> (t_state c \<noteq> TCP_FIN_WAIT1 \<and> t_state c \<noteq> TCP_LAST_ACK) then s
            else upd_conn i (\<lambda>c. c\<lparr>t_snd_nxt := t_snd_nxt c + 1\<rparr>) s
       else upd_conn i (\<lambda>c. c\<lparr>t_fin_rto_remaining := t_fin_rto_remaining c - 10\<rparr>) s
     else s)"

definition tick_conn :: "tcp_env \<Rightarrow> nat \<Rightarrow> tcp \<Rightarrow> tcp" where
  "tick_conn E i s = (let c = conns s ! i in
     if \<not> t_used c then s
     else if t_state c = TCP_TIME_WAIT then upd_conn i tick_timewait s
     else case tick_data E i s of (go, s) \<Rightarrow> if go then tick_fin E i s else s)"

definition tcp_tick :: "tcp_env \<Rightarrow> tcp \<Rightarrow> tcp" where
  "tcp_tick E s = fold (tick_conn E) [0..<TCP_MAX_CONN] s"

definition tcp_init :: "tcp \<Rightarrow> tcp" where
  "tcp_init s = (if tcp_initialized s then s else s\<lparr>ephemeral_port := 49152, tcp_initialized := True\<rparr>)"

section \<open>The transport interface\<close>

definition zero_conn :: tcp_conn where
  "zero_conn = \<lparr>t_used = False, t_af = 0, t_state = TCP_CLOSED, t_local_port = 0, t_local_ip = replicate 16 0, t_remote_ip = replicate 16 0, t_remote_port = 0,
     t_snd_nxt = 0, t_rcv_nxt = 0, t_snd_una = 0, t_snd_wnd = 0, t_iss = 0, t_irs = 0, t_closed = False, t_on_recv = None, t_on_close = None, t_on_connect = None,
     t_recv_done = False, t_recv_buf = replicate TCP_MSS 0, t_recv_len = 0, t_accept_queue = replicate TCP_BACKLOG 0, t_accept_head = 0, t_accept_tail = 0, t_accept_count = 0,
     t_ipv6only = False, t_nodelay = False, t_recv_timeout = 0, t_send_timeout = 0, t_timewait_ms = 0, t_retrans_buf = replicate TCP_MSS 0, t_retrans_seq = 0, t_retrans_len = 0, t_rto_ms = 0,
     t_rto_remaining = 0, t_fin_rto_remaining = 0, t_fin_rto_ms = 0\<rparr>"

definition tcp_conn_create :: "int \<Rightarrow> tcp \<Rightarrow> nat option \<times> tcp" where
  "tcp_conn_create af s = (if \<not> tcp_initialized s then (None, s)
     else case free_slot s of
       None \<Rightarrow> (None, s)
     | Some i \<Rightarrow> (Some i, upd_conn i (\<lambda>_. zero_conn\<lparr>t_used := True, t_af := af, t_recv_timeout := 5000, t_send_timeout := 5000\<rparr>) s))"

definition tcp_conn_destroy :: "nat \<Rightarrow> tcp \<Rightarrow> tcp" where
  "tcp_conn_destroy i s = upd_conn i (\<lambda>c. c\<lparr>t_used := False, t_state := TCP_CLOSED\<rparr>) s"

definition port_in_use :: "u16 \<Rightarrow> tcp_conn \<Rightarrow> bool" where
  "port_in_use port c \<longleftrightarrow> t_used c \<and> t_local_port c = port \<and> t_state c \<noteq> TCP_CLOSED"

definition tcp_conn_bind :: "nat \<Rightarrow> u16 \<Rightarrow> bool \<Rightarrow> tcp \<Rightarrow> err_t \<times> tcp" where
  "tcp_conn_bind i port v6only s = (let c = conns s ! i in
     if \<not> t_used c then (ERR_INVAL, s)
     else if \<exists>j \<in> set [0..<length (conns s)]. j \<noteq> i \<and> port_in_use port (conns s ! j) \<and> t_af (conns s ! j) = t_af c then (ERR_BUSY, s)
     else if t_af c = AF_INET6 \<and> \<not> v6only \<and> (\<exists>x \<in> set (conns s). port_in_use port x \<and> t_af x = AF_INET) then (ERR_BUSY, s)
     else if t_af c = AF_INET \<and> (\<exists>x \<in> set (conns s). port_in_use port x \<and> t_af x = AF_INET6 \<and> \<not> t_ipv6only x) then (ERR_BUSY, s)
     else (ERR_OK, upd_conn i (\<lambda>c. c\<lparr>t_local_port := port, t_ipv6only := v6only\<rparr>) s))"

fun connect_loop :: "tcp_env \<Rightarrow> nat \<Rightarrow> nat list \<Rightarrow> tcp \<Rightarrow> err_t option \<times> tcp" where
  "connect_loop E i [] s = (None, s)"
| "connect_loop E i (k # ks) s =
     (let s = rx_poll E k s in
      if t_state (conns s ! i) = TCP_ESTABLISHED then (Some ERR_OK, s)
      else let (gone, s) = (if t_state (conns s ! i) = TCP_SYN_SENT \<and> k > 0 \<and> k mod 100 = 0
             then let s = upd_conn i (\<lambda>c. c\<lparr>t_snd_nxt := t_iss c\<rparr>) s; s = snd (tcp_send_pkt E i TCP_SYN [] s); s = other_threads E (length (sent s)) s
               in if \<not> t_used (conns s ! i) then (True, s) else (False, upd_conn i (\<lambda>c. c\<lparr>t_snd_nxt := t_iss c + 1\<rparr>) s)
             else (False, s)) in
        if gone \<or> \<not> t_used (conns s ! i) then (Some ERR_AGAIN, s)
        else if t_state (conns s ! i) = TCP_CLOSED then (Some ERR_AGAIN, upd_conn i (\<lambda>c. c\<lparr>t_used := False\<rparr>) s)
        else connect_loop E i ks s)"

definition connect_wait :: "tcp_env \<Rightarrow> nat \<Rightarrow> int \<Rightarrow> tcp \<Rightarrow> err_t \<times> tcp" where
  "connect_wait E i timeout_ms s =
     (if timeout_ms \<le> 0
      then let s = rx_poll E 0 s; connected = (t_state (conns s ! i) = TCP_ESTABLISHED);
          s = (if t_state (conns s ! i) = TCP_CLOSED then upd_conn i (\<lambda>c. c\<lparr>t_used := False\<rparr>) s else s)
        in (if connected then ERR_OK else ERR_AGAIN, s)
      else let t = (if t_af (conns s ! i) = AF_INET6 \<and> timeout_ms < 30000 then 30000 else timeout_ms) in
        case connect_loop E i [0..<nat (t div 50)] s of
          (Some e, s) \<Rightarrow> (e, s)
        | (None, s) \<Rightarrow> (if t_state (conns s ! i) = TCP_ESTABLISHED then ERR_OK else ERR_TIMEOUT, s))"

definition open_conn :: "tcp_env \<Rightarrow> u32 \<Rightarrow> u8 list \<Rightarrow> u16 \<Rightarrow> tcp_conn \<Rightarrow> tcp_conn" where
  "open_conn E iss dst dst_port c = c\<lparr>t_state := TCP_SYN_SENT, t_remote_port := dst_port, t_remote_ip := put_ip (t_af c) dst (t_remote_ip c),
     t_local_ip := put_ip (t_af c) (if t_af c = AF_INET then our_v4 E else our_v6 E) (t_local_ip c), t_iss := iss, t_snd_nxt := iss\<rparr>"

definition tcp_conn_connect :: "tcp_env \<Rightarrow> u32 \<Rightarrow> nat \<Rightarrow> u8 list \<Rightarrow> u16 \<Rightarrow> int \<Rightarrow> tcp \<Rightarrow> err_t \<times> tcp" where
  "tcp_conn_connect E iss i dst dst_port timeout_ms s =
     (if \<not> t_used (conns s ! i) then (ERR_INVAL, s)
      else let s = (if t_local_port (conns s ! i) = 0
            then (upd_conn i (\<lambda>c. c\<lparr>t_local_port := ephemeral_port s\<rparr>) s)\<lparr>ephemeral_port := ephemeral_port s + 1\<rparr> else s);
          s = upd_conn i (open_conn E iss dst dst_port) s
        in case tcp_send_pkt E i TCP_SYN [] s of (e, s) \<Rightarrow>
          (let s = other_threads E (length (sent s)) s in
           if e \<noteq> ERR_OK \<or> \<not> t_used (conns s ! i) then (e, upd_conn i (\<lambda>c. c\<lparr>t_used := False\<rparr>) s)
           else connect_wait E i timeout_ms (upd_conn i (\<lambda>c. c\<lparr>t_snd_nxt := t_snd_nxt c + 1\<rparr>) s)))"

definition tcp_conn_listen :: "nat \<Rightarrow> u16 \<Rightarrow> tcp \<Rightarrow> err_t \<times> tcp" where
  "tcp_conn_listen i port s = (if \<not> t_used (conns s ! i) then (ERR_INVAL, s)
     else (ERR_OK, upd_conn i (\<lambda>c. c\<lparr>t_state := TCP_LISTEN, t_local_port := port, t_accept_head := 0, t_accept_tail := 0, t_accept_count := 0\<rparr>) s))"

definition dequeue_child :: "tcp_conn \<Rightarrow> tcp_conn" where
  "dequeue_child c = c\<lparr>t_accept_head := (t_accept_head c + 1) mod TCP_BACKLOG, t_accept_count := t_accept_count c - 1\<rparr>"

fun accept_loop :: "tcp_env \<Rightarrow> nat \<Rightarrow> nat \<Rightarrow> tcp \<Rightarrow> nat option \<times> tcp" where
  "accept_loop E i 0 s = (None, s)"
| "accept_loop E i (Suc n) s = (let s = rx_poll E n s; c = conns s ! i in
     if t_accept_count c > 0 then (Some (t_accept_queue c ! t_accept_head c), upd_conn i dequeue_child s)
     else accept_loop E i n s)"

definition tcp_conn_accept :: "tcp_env \<Rightarrow> nat \<Rightarrow> int \<Rightarrow> tcp \<Rightarrow> nat option \<times> tcp" where
  "tcp_conn_accept E i timeout_ms s = (if \<not> t_used (conns s ! i) \<or> t_state (conns s ! i) \<noteq> TCP_LISTEN then (None, s)
     else accept_loop E i (nat (timeout_ms div 50)) s)"

text \<open>\<open>take_data\<close> is the part of \<open>tcp_conn_recv\<close> under the lock: the bytes for a buffer of \<open>n\<close>, when there are any.\<close>

definition take_data :: "nat \<Rightarrow> nat \<Rightarrow> tcp \<Rightarrow> u8 list option \<times> tcp" where
  "take_data i n s = (let c = conns s ! i in
     if t_recv_done c then (Some (take (min (unat (t_recv_len c)) n) (t_recv_buf c)), upd_conn i (\<lambda>c. c\<lparr>t_recv_done := False, t_recv_len := 0\<rparr>) s)
     else (None, s))"

datatype recv_result = Data "u8 list" | NoData err_t

fun recv_loop :: "tcp_env \<Rightarrow> nat \<Rightarrow> nat \<Rightarrow> nat \<Rightarrow> tcp \<Rightarrow> recv_result \<times> tcp" where
  "recv_loop E i n 0 s = (NoData ERR_TIMEOUT, s)"
| "recv_loop E i n (Suc k) s = (let s = rx_poll E k s in
     case take_data i n s of
       (Some d, s) \<Rightarrow> (Data d, s)
     | (None, s) \<Rightarrow> if t_state (conns s ! i) = TCP_CLOSED then (Data [], s) else recv_loop E i n k s)"

definition tcp_conn_recv :: "tcp_env \<Rightarrow> nat \<Rightarrow> nat \<Rightarrow> int \<Rightarrow> tcp \<Rightarrow> recv_result \<times> tcp" where
  "tcp_conn_recv E i n timeout_ms s = (let c = conns s ! i in
     if \<not> t_used c then (NoData ERR_INVAL, s)
     else if t_state c \<noteq> TCP_ESTABLISHED \<and> t_state c \<noteq> TCP_CLOSE_WAIT then (NoData ERR_AGAIN, s)
     else recv_loop E i n (nat (timeout_ms div 50)) s)"

definition tcp_conn_get_state :: "nat \<Rightarrow> tcp \<Rightarrow> tcp_state" where
  "tcp_conn_get_state i s = (if \<not> t_used (conns s ! i) then TCP_CLOSED else t_state (conns s ! i))"

end
