(* ===== verification/Tcp_Packet.thy ===== *)
theory Tcp_Packet
  imports Tcp
begin

text \<open>
  The packets of \<^verbatim>\<open>tcp.c\<close>: byte order, the round trip of a header through the parser, and the checksum, which is compared with the
  ones' complement sum of the protocol standards over the pseudo header and the segment.
\<close>

section \<open>Byte order\<close>

lemma htons_ld16: "tcp_htons (ld16 d i) = push_bit 8 (ucast (d ! i)) OR ucast (d ! (i + 1))"
  by (rule bit_word_eqI) (auto simp: tcp_htons_def ld16_def bit_simps dest: bit_imp_le_length)

lemma join16: "ucast (ucast w :: u8) OR push_bit 8 (ucast (ucast (drop_bit 8 w) :: u8)) = (w :: u16)"
  by (rule bit_word_eqI) (auto simp: bit_simps not_less)

lemma join32: "ucast (ucast w :: u8) OR push_bit 8 (ucast (ucast (drop_bit 8 w) :: u8)) OR push_bit 16 (ucast (ucast (drop_bit 16 w) :: u8)) OR
    push_bit 24 (ucast (ucast (drop_bit 24 w) :: u8)) = (w :: u32)"
proof (rule bit_word_eqI)
  fix n assume "n < LENGTH(32)"
  then consider "n < 8" | "8 \<le> n" "n < 16" | "16 \<le> n" "n < 24" | "24 \<le> n" "n < 32" by fastforce
  then show "bit (ucast (ucast w :: u8) OR push_bit 8 (ucast (ucast (drop_bit 8 w) :: u8)) OR push_bit 16 (ucast (ucast (drop_bit 16 w) :: u8)) OR
    push_bit 24 (ucast (ucast (drop_bit 24 w) :: u8)) :: u32) n = bit w n"
    by cases (auto simp: bit_simps)
qed

lemma ld_le: "length d = i \<Longrightarrow> ld16 (d @ le16 w @ e) i = w" "length d = i \<Longrightarrow> ld32 (d @ le32 v @ e) i = v"
  by (simp_all add: ld16_def ld32_def le16_def le32_def nth_append join16 join32)

lemma htons_htons [simp]: "tcp_htons (tcp_htons v) = v"
  by (rule bit_word_eqI) (auto simp: tcp_htons_def bit_simps dest: bit_imp_le_length)

lemma bit_htonl: "n < 8 \<Longrightarrow> bit (tcp_htonl v) n = bit v (n + 24)" "8 \<le> n \<Longrightarrow> n < 16 \<Longrightarrow> bit (tcp_htonl v) n = bit v (n + 8)"
    "16 \<le> n \<Longrightarrow> n < 24 \<Longrightarrow> bit (tcp_htonl v) n = bit v (n - 8)" "24 \<le> n \<Longrightarrow> n < 32 \<Longrightarrow> bit (tcp_htonl v) n = bit v (n - 24)"
  by (auto simp: tcp_htonl_def bit_simps add.commute dest: bit_imp_le_length)

lemma htonl_htonl [simp]: "tcp_htonl (tcp_htonl v) = v"
proof (rule bit_word_eqI)
  fix n assume "n < LENGTH(32)"
  then consider "n < 8" | "8 \<le> n" "n < 16" | "16 \<le> n" "n < 24" | "24 \<le> n" "n < 32" by fastforce
  then show "bit (tcp_htonl (tcp_htonl v)) n = bit v n" by cases (simp_all add: bit_htonl)
qed

lemma length_le [simp]: "length (le16 v) = 2" "length (le32 w) = 4"
  by (simp_all add: le16_def le32_def)

lemma length_tcp_header [simp]: "length (tcp_header sp dp sq ak fl wn) = 20"
  by (simp add: tcp_header_def)

section \<open>Packets\<close>

lemma put_checksum_header:
  "put_checksum w (tcp_header sp dp sq ak fl wn @ d) = le16 (tcp_htons sp) @ le16 (tcp_htons dp) @ le32 (tcp_htonl sq) @ le32 (tcp_htonl ak) @
     [0x50, fl] @ le16 (tcp_htons wn) @ le16 w @ le16 0 @ d"
  by (simp add: put_checksum_def splice_def tcp_header_def le16_def le32_def)

lemma parse_header:
  "parse_seg (put_checksum w (tcp_header sp dp sq ak fl wn @ d)) =
     Some \<lparr>g_src_port = sp, g_dst_port = dp, g_seq = sq, g_ack = ak, g_flags = fl, g_window = wn, g_payload = d\<rparr>"
proof -
  have "drop_bit 4 (0x50 :: u8) = 5" by (simp add: drop_bit_eq_div) 
  then show ?thesis
    by (simp add: parse_seg_def put_checksum_header le16_def le32_def ld16_def ld32_def join16 join32 TCP_HDR_LEN_def)
qed

section \<open>The checksum\<close>

fun be_words :: "u8 list \<Rightarrow> nat list" where
  "be_words [] = []"
| "be_words [a] = [256 * unat a]"
| "be_words (a # b # xs) = (256 * unat a + unat b) # be_words xs"

definition ones_add :: "nat \<Rightarrow> nat \<Rightarrow> nat" where
  "ones_add x y = (if x + y > 65535 then x + y - 65535 else x + y)"

definition internet_sum :: "u8 list \<Rightarrow> nat" where
  "internet_sum d = fold ones_add (be_words d) 0"

definition pseudo_header :: "int \<Rightarrow> u8 list \<Rightarrow> u8 list \<Rightarrow> nat \<Rightarrow> u8 list" where
  "pseudo_header af src dst n = (if af = AF_INET then take 4 src @ take 4 dst @ [0, 6, of_nat (n div 256), of_nat n]
     else src @ dst @ [of_nat (n div 2 ^ 24), of_nat (n div 2 ^ 16), of_nat (n div 256), of_nat n, 0, 0, 0, 6])"

lemma u8_lt: "unat (a :: u8) < 256"
  using unsigned_less [of a, where ?'a = nat] by simp

lemma unat_pair: "unat (push_bit 8 (ucast (a :: u8)) OR ucast (b :: u8) :: u16) = 256 * unat a + unat b"
proof -
  have "push_bit 8 (ucast a) AND (ucast b :: u16) = 0"
    by (rule bit_word_eqI) (auto simp: bit_simps dest: bit_imp_le_length)
  then have "push_bit 8 (ucast a) OR (ucast b :: u16) = push_bit 8 (ucast a) + ucast b" by (simp add: disjunctive_add_eq_or)
  moreover have "unat a < 256" "unat b < 256" by (rule u8_lt)+
  ultimately show ?thesis by (simp add: push_bit_eq_mult unat_word_ariths unsigned_ucast_eq take_bit_eq_mod)
qed

lemma ucast_of_unat: "(ucast (w :: u16) :: u32) = of_nat (unat w)"
  by simp

lemma sum_words_of_nat:
  "sum_words d n acc = acc + of_nat (\<Sum>i<n. 256 * unat (d ! (2 * i)) + unat (d ! (2 * i + 1)))"
proof (induction n)
  case 0 then show ?case by (simp add: sum_words_def)
next
  case (Suc n)
  have "sum_words d (Suc n) acc = sum_words d n acc + ucast (tcp_htons (ld16 d (2 * n)))" by (simp add: sum_words_def)
  moreover have "(ucast (tcp_htons (ld16 d (2 * n))) :: u32) = of_nat (256 * unat (d ! (2 * n)) + unat (d ! (2 * n + 1)))"
    unfolding htons_ld16 unat_pair [symmetric] by (rule ucast_of_unat)
  ultimately show ?case using Suc by (simp add: algebra_simps)
qed

lemma be_words_sum:
  "sum_list (be_words d) = (\<Sum>i<length d div 2. 256 * unat (d ! (2 * i)) + unat (d ! (2 * i + 1))) + (if odd (length d) then 256 * unat (last d) else 0)"
  by (induction d rule: be_words.induct) (auto simp: sum.lessThan_Suc_shift simp del: sum.lessThan_Suc)

lemma be_words_append: "even (length d) \<Longrightarrow> be_words (d @ e) = be_words d @ be_words e"
  by (induction d rule: be_words.induct) auto

lemma be_words_less: "x \<in> set (be_words d) \<Longrightarrow> x \<le> 65535"
proof (induction d rule: be_words.induct)
  case (2 a) then show ?case using u8_lt [of a] by simp
next
  case (3 a b xs) then show ?case using u8_lt [of a] u8_lt [of b] by auto
qed simp

lemma length_be_words: "length (be_words d) = (length d + 1) div 2"
  by (induction d rule: be_words.induct) auto

lemma be_words_total: "sum_list (be_words d) \<le> 65535 * ((length d + 1) div 2)"
  using sum_list_mono2 [of "be_words d" "replicate (length (be_words d)) 65535"] be_words_less [of "_" d]
  by (simp add: sum_list_replicate length_be_words mult.commute)

lemma ones_fold:
  assumes "\<forall>x \<in> set ws. x \<le> 65535" and "a \<le> 65535"
  shows "fold ones_add ws a \<le> 65535 \<and> fold ones_add ws a mod 65535 = (a + sum_list ws) mod 65535 \<and> (fold ones_add ws a = 0 \<longleftrightarrow> a + sum_list ws = 0)"
  using assms
proof (induction ws arbitrary: a)
  case (Cons w ws)
  have b: "ones_add w a \<le> 65535" using Cons.prems by (auto simp: ones_add_def)
  have m: "ones_add w a mod 65535 = (a + w) mod 65535" by (simp add: ones_add_def add.commute [of w a] le_mod_geq)
  have z: "ones_add w a = 0 \<longleftrightarrow> a = 0 \<and> w = 0" by (auto simp: ones_add_def)
  have "(ones_add w a + sum_list ws) mod 65535 = (a + w + sum_list ws) mod 65535" using m by (metis mod_add_left_eq)
  then show ?case using Cons.IH [of "ones_add w a"] Cons.prems b z by (auto simp: algebra_simps)
qed simp

lemma internet_sum_props:
  "internet_sum d \<le> 65535" "internet_sum d mod 65535 = sum_list (be_words d) mod 65535" "internet_sum d = 0 \<longleftrightarrow> sum_list (be_words d) = 0"
  using ones_fold [of "be_words d" 0] be_words_less [of _ d] by (auto simp: internet_sum_def)

lemma fold_carry_props:
  "unat (fold_carry s) \<le> 65535 \<and> unat (fold_carry s) mod 65535 = unat s mod 65535 \<and> (unat (fold_carry s) = 0 \<longleftrightarrow> unat s = 0)"
proof (induction s rule: fold_carry.induct)
  case (1 s)
  have d: "unat (drop_bit 16 s) = unat s div 65536" unfolding unat_drop_bit_eq by (simp add: drop_bit_eq_div)
  have "s AND 0xFFFF = take_bit 16 s" by (simp add: take_bit_eq_mask mask_eq_exp_minus_1)
  then have m: "unat (s AND 0xFFFF) = unat s mod 65536" by (simp add: take_bit_eq_mod unat_mod)
  have "unat s < 4294967296" using unsigned_less [of s, where ?'a = nat] by simp
  then have n: "unat ((s AND 0xFFFF) + drop_bit 16 s) = unat s mod 65536 + unat s div 65536"
    by (subst unat_word_ariths, subst m, subst d) (simp add: div_less_iff_less_mult)
  have e: "(unat s mod 65536 + unat s div 65536) mod 65535 = unat s mod 65535"
  proof -
    have "unat s = 65535 * (unat s div 65536) + (unat s mod 65536 + unat s div 65536)" using div_mult_mod_eq [of "unat s" 65536] by linarith
    then show ?thesis by (metis mod_mult_self4)
  qed
  show ?case
  proof (cases "drop_bit 16 s = 0")
    case True
    then have "unat s div 65536 = 0" using d by simp
    then show ?thesis using True by (simp add: fold_carry.simps [of s] div_eq_0_iff)
  next
    case False
    have "unat s mod 65536 + unat s div 65536 = 0 \<longleftrightarrow> unat s = 0" using div_mult_mod_eq [of "unat s" 65536] by linarith
    then show ?thesis using 1 [OF False] False n e by (simp add: fold_carry.simps [of s])
  qed
qed


lemma length_words: "n < 65536 \<Longrightarrow> 256 * unat (of_nat (n div 256) :: u8) + unat (of_nat n :: u8) = n"
  by (simp add: unat_of_nat less_mult_imp_div_less)

lemma sum_words_be:
  "length d = 2 * n \<Longrightarrow> sum_words d n acc = acc + of_nat (sum_list (be_words d))"
  by (simp add: sum_words_of_nat be_words_sum)

lemma sum_words_take: "sum_words (take (2 * n) d) n acc = sum_words d n acc"
  unfolding sum_words_of_nat by (rule arg_cong [of _ _ "\<lambda>x. acc + of_nat x"], rule sum.cong) auto

lemma pseudo_sum:
  assumes "length src = 16" "length dst = 16" "n < 65536"
  shows "of_nat (sum_list (be_words (pseudo_header af src dst n))) =
    (if af = AF_INET then sum_words dst 2 (sum_words src 2 0) + 6 + of_nat n else sum_words dst 8 (sum_words src 8 0) + of_nat n + 6)"
proof (cases "af = AF_INET")
  case True
  have "sum_words dst 2 (sum_words src 2 0) = of_nat (sum_list (be_words (take 4 src))) + of_nat (sum_list (be_words (take 4 dst)))"
    using assms sum_words_take [of 2 src 0] sum_words_take [of 2 dst "sum_words src 2 0"] sum_words_be [of "take 4 src" 2 0] sum_words_be [of "take 4 dst" 2 "sum_words src 2 0"] by simp
  moreover have "sum_list (be_words (pseudo_header af src dst n)) = sum_list (be_words (take 4 src)) + sum_list (be_words (take 4 dst)) + 6 + n"
    using True assms length_words [OF assms(3)] by (simp add: pseudo_header_def be_words_append)
  ultimately show ?thesis using True by simp
next
  case False
  have z: "n div 2 ^ 24 = 0" "n div 2 ^ 16 = 0" using assms(3) by simp_all
  have "sum_words dst 8 (sum_words src 8 0) = of_nat (sum_list (be_words src)) + of_nat (sum_list (be_words dst))"
    using assms sum_words_be [of src 8 0] sum_words_be [of dst 8 "sum_words src 8 0"] by simp
  moreover have "sum_list (be_words (pseudo_header af src dst n)) = sum_list (be_words src) + sum_list (be_words dst) + n + 6"
    using False assms z length_words [OF assms(3)] by (simp add: pseudo_header_def be_words_append)
  ultimately show ?thesis using False by simp
qed

lemma pseudo_total: "length src = 16 \<Longrightarrow> length dst = 16 \<Longrightarrow> sum_list (be_words (pseudo_header af src dst n)) \<le> 65535 * 20"
  by (rule order_trans [OF be_words_total]) (simp add: pseudo_header_def)

lemma checksum_sum_unat:
  assumes "length src = 16" "length dst = 16" "length pkt < 65536"
  shows "unat (checksum_sum pkt src dst af) = sum_list (be_words (pseudo_header af src dst (length pkt) @ pkt))"
proof -
  let ?P = "sum_list (be_words (pseudo_header af src dst (length pkt)))" and ?B = "sum_list (be_words pkt)"
  have tail: "(push_bit 8 (ucast (b :: u8)) :: u32) = of_nat (256 * unat b)" for b by (simp add: push_bit_eq_mult)
  have last: "odd (length pkt) \<Longrightarrow> last pkt = pkt ! (length pkt - 1)" by (cases pkt rule: rev_cases) (auto simp: nth_append)
  have "ucast (ucast (of_nat (length pkt) :: u32) :: u16) = (of_nat (length pkt) :: u32)"
    using assms(3) by (simp add: word_unat_eq_iff unsigned_ucast_eq take_bit_eq_mod unat_mod unat_of_nat)
  then have "checksum_sum pkt src dst af = of_nat ?P + of_nat ?B"
    using assms(3) last unfolding pseudo_sum [OF assms] checksum_sum_def Let_def be_words_sum [of pkt] sum_words_of_nat [of pkt] tail by simp
  then have "checksum_sum pkt src dst af = of_nat (?P + ?B)" by simp
  moreover have "?P \<le> 65535 * 20" using pseudo_total assms by blast
  moreover have "?B \<le> 65535 * 32768" by (rule order_trans [OF be_words_total]) (use assms(3) in simp)
  ultimately have "unat (checksum_sum pkt src dst af) = ?P + ?B" by (simp add: unat_of_nat del: of_nat_add)
  moreover have "even (length (pseudo_header af src dst (length pkt)))" using assms by (simp add: pseudo_header_def)
  ultimately show ?thesis by (simp add: be_words_append)
qed


lemma checksum_word: "256 * unat (ucast w :: u8) + unat (ucast (drop_bit 8 w) :: u8) = unat (tcp_htons w)"
proof -
  have "ld16 (le16 w) 0 = w" using ld_le(1) [of "[]" 0 w "[]"] by simp
  then show ?thesis using htons_ld16 [of "le16 w" 0] by (simp add: unat_pair le16_def)
qed

lemma put_checksum_sum:
  "sum_list (be_words (put_checksum w (tcp_header sp dp sq ak fl wn @ d))) = sum_list (be_words (tcp_header sp dp sq ak fl wn @ d)) + unat (tcp_htons w)"
proof -
  let ?h = "le16 (tcp_htons sp) @ le16 (tcp_htons dp) @ le32 (tcp_htonl sq) @ le32 (tcp_htonl ak) @ [0x50, fl] @ le16 (tcp_htons wn)"
  have "be_words (?h @ le16 v @ le16 0 @ d) = be_words ?h @ unat (tcp_htons v) # 0 # be_words d" for v
    by (subst be_words_append) (simp_all add: le16_def checksum_word)
  moreover have "unat (tcp_htons 0) = 0" by (simp add: tcp_htons_def)
  ultimately show ?thesis unfolding put_checksum_header unfolding tcp_header_def by simp
qed

lemma checksum_complement: "unat (tcp_htons (tcp_checksum_pseudo pkt src dst af)) = 65535 - unat (fold_carry (checksum_sum pkt src dst af))"
proof -
  let ?f = "fold_carry (checksum_sum pkt src dst af)"
  have f: "unat ?f \<le> 65535" using fold_carry_props by blast
  have m: "(0xFFFF :: u32) = mask 16" by (simp add: mask_eq_exp_minus_1)
  have "(ucast (NOT ?f AND 0xFFFF) :: u16) = NOT (ucast ?f)"
    by (rule bit_word_eqI) (simp add: m bit_simps)
  moreover have "unat (NOT (ucast ?f :: u16)) = 65535 - unat ?f"
  proof -
    have "unat (ucast ?f :: u16) = unat ?f" using f by (simp add: unsigned_ucast_eq take_bit_eq_mod)
    moreover have "unat (NOT v) = 65535 - unat v" for v :: u16
    proof -
      have "NOT v = - 1 - v" by (simp add: not_eq_complement)
      then show ?thesis using unat_sub [of v "- 1"] by (simp only: word_order.extremum unsigned_minus_1_eq_mask) (simp add: mask_eq_exp_minus_1)
    qed
    ultimately show ?thesis by simp
  qed
  ultimately show ?thesis by (simp add: tcp_checksum_pseudo_def)
qed

lemma checksum_closes:
  assumes "length src = 16" "length dst = 16" "length d \<le> 65515"
    and h_def: "h = tcp_header sp dp sq ak fl wn @ d" and pkt_def: "pkt = put_checksum (tcp_checksum_pseudo h src dst af) h"
  shows "internet_sum (pseudo_header af src dst (length pkt) @ pkt) = 65535"
proof -
  have l: "length h < 65536" "length pkt = length h" using assms(3) by (simp_all add: h_def pkt_def put_checksum_def)
  let ?q = "pseudo_header af src dst (length h)" and ?f = "unat (fold_carry (checksum_sum h src dst af))"
  have e: "even (length ?q)" using assms(1,2) by (simp add: pseudo_header_def)
  have s: "unat (checksum_sum h src dst af) = sum_list (be_words (?q @ h))" using assms(1,2) l(1) by (rule checksum_sum_unat)
  have t: "sum_list (be_words (?q @ pkt)) = sum_list (be_words (?q @ h)) + (65535 - ?f)"
    using e put_checksum_sum [of "tcp_checksum_pseudo h src dst af" sp dp sq ak fl wn d] checksum_complement [of h src dst af]
    by (simp add: be_words_append h_def pkt_def)
  have f: "?f \<le> 65535" "?f mod 65535 = sum_list (be_words (?q @ h)) mod 65535" "?f = 0 \<longleftrightarrow> sum_list (be_words (?q @ h)) = 0"
    using fold_carry_props [of "checksum_sum h src dst af"] s by simp_all
  have "(sum_list (be_words (?q @ h)) + (65535 - ?f)) mod 65535 = (?f + (65535 - ?f)) mod 65535" by (rule mod_add_cong) (simp_all add: f(2))
  then have m: "internet_sum (?q @ pkt) mod 65535 = 0" using f(1) t internet_sum_props(2) [of "?q @ pkt"] by simp
  have "internet_sum (?q @ pkt) \<noteq> 0" using f(1,3) t internet_sum_props(3) [of "?q @ pkt"] by linarith
  then show ?thesis using m internet_sum_props(1) [of "?q @ pkt"] l(2) by (auto simp: mod_eq_0_iff_dvd elim!: dvdE)
qed

section \<open>Packets of a connection\<close>

text \<open>
  C37. What \<open>tcp_send_pkt\<close> builds, the receiving side parses: every packet is accepted by the header checks of \<open>tcp_handle_common\<close>, and
  gives back the ports of the connection, its next sequence number and acknowledgement, the flags, the window of 65535 bytes and exactly
  the data.
\<close>

theorem tcp_packet_parses:
  "parse_seg (tcp_packet c fl d) =
     Some \<lparr>g_src_port = t_local_port c, g_dst_port = t_remote_port c, g_seq = t_snd_nxt c, g_ack = t_rcv_nxt c, g_flags = fl,
       g_window = 65535, g_payload = d\<rparr>"
  by (simp add: tcp_packet_def Let_def parse_header TCP_WINDOW_def)

text \<open>
  C31. The checksum of every packet is the one of the standards: the ones' complement sum of the 16-bit words of the pseudo header
  (the addresses, the protocol and the length, for IPv4 and for IPv6) and of the whole segment is 65535, for any connection, flags and
  data that fit a datagram, data of odd length included.
\<close>

theorem tcp_packet_checksum:
  assumes "length (t_local_ip c) = 16" and "length (t_remote_ip c) = 16" and "length d \<le> 65515"
  shows "internet_sum (pseudo_header (t_af c) (t_local_ip c) (t_remote_ip c) (length (tcp_packet c fl d)) @ tcp_packet c fl d) = 65535"
  using assms unfolding tcp_packet_def Let_def by (rule checksum_closes) simp_all

lemma tcp_packet_checksum_witness:
  "internet_sum (pseudo_header AF_INET6 (replicate 16 0) (replicate 16 0) (length (tcp_packet (zero_conn\<lparr>t_af := AF_INET6\<rparr>) TCP_ACK [1, 2, 3])) @
     tcp_packet (zero_conn\<lparr>t_af := AF_INET6\<rparr>) TCP_ACK [1, 2, 3]) = 65535"
  using tcp_packet_checksum [of "zero_conn\<lparr>t_af := AF_INET6\<rparr>" "[1, 2, 3]" TCP_ACK] by (simp add: zero_conn_def)

end
