(* ===== verification/Tcp_Wf.thy ===== *)
theory Tcp_Wf
  imports Tcp
begin

text \<open>
  The well-formed states of \<^verbatim>\<open>tcp.c\<close>: the connection table has its fixed size, the arrays of every connection have the sizes
  of their declarations, lengths stay within the buffers and the accept queue is a ring. Every operation of the file keeps
  them.
\<close>

definition ring_ok :: "tcp_conn \<Rightarrow> bool" where
  "ring_ok c \<longleftrightarrow> length (t_accept_queue c) = TCP_BACKLOG \<and> t_accept_head c < TCP_BACKLOG \<and> t_accept_count c \<le> TCP_BACKLOG \<and>
     t_accept_tail c = (t_accept_head c + t_accept_count c) mod TCP_BACKLOG"

definition conn_wf :: "tcp_conn \<Rightarrow> bool" where
  "conn_wf c \<longleftrightarrow> length (t_local_ip c) = 16 \<and> length (t_remote_ip c) = 16 \<and> length (t_recv_buf c) = TCP_MSS \<and>
     unat (t_recv_len c) \<le> TCP_MSS \<and> length (t_retrans_buf c) = TCP_MSS \<and> unat (t_retrans_len c) \<le> TCP_MSS \<and> ring_ok c"

definition tcp_wf :: "tcp \<Rightarrow> bool" where
  "tcp_wf s \<longleftrightarrow> length (conns s) = TCP_MAX_CONN \<and> (\<forall>c \<in> set (conns s). conn_wf c)"

definition env_ok :: "tcp_env \<Rightarrow> bool" where
  "env_ok E \<longleftrightarrow> (\<forall>k s. tcp_wf s \<longrightarrow> tcp_wf (other_threads E k s)) \<and> (\<forall>k s. tcp_wf s \<longrightarrow> tcp_wf (rx_poll E k s)) \<and>
     (\<forall>f i d n s. tcp_wf s \<longrightarrow> tcp_wf (cb_recv E f i d n s)) \<and> (\<forall>f i s. tcp_wf s \<longrightarrow> tcp_wf (cb_close E f i s)) \<and>
     (\<forall>f i s. tcp_wf s \<longrightarrow> tcp_wf (cb_connect E f i s)) \<and> 4 \<le> length (our_v4 E) \<and> 16 \<le> length (our_v6 E)"

definition addr_ok :: "int \<Rightarrow> u8 list \<Rightarrow> bool" where
  "addr_ok af a \<longleftrightarrow> (if af = AF_INET then 4 else 16) \<le> length a"

lemma env_okD [simp]:
  assumes "env_ok E" and "tcp_wf s"
  shows "tcp_wf (other_threads E k s)" "tcp_wf (rx_poll E k s)" "tcp_wf (cb_recv E f i d n s)" "tcp_wf (cb_close E f i s)" "tcp_wf (cb_connect E f i s)"
  using assms by (simp_all add: env_ok_def)

lemma env_ok_addrs: "env_ok E \<Longrightarrow> 4 \<le> length (our_v4 E)" "env_ok E \<Longrightarrow> 16 \<le> length (our_v6 E)"
  unfolding env_ok_def by (elim conjE, assumption)+

lemma tcp_wf_upd: "tcp_wf s \<Longrightarrow> (\<And>c. conn_wf c \<Longrightarrow> conn_wf (f c)) \<Longrightarrow> tcp_wf (upd_conn i f s)"
  by (cases "i < length (conns s)") (auto simp: tcp_wf_def upd_conn_def list_update_beyond dest: set_update_subset_insert [THEN subsetD])

lemma tcp_wf_sent [simp]: "tcp_wf (s\<lparr>sent := x\<rparr>) = tcp_wf s" "tcp_wf (s\<lparr>ephemeral_port := p\<rparr>) = tcp_wf s" "tcp_wf (s\<lparr>tcp_initialized := b\<rparr>) = tcp_wf s"
  by (simp_all add: tcp_wf_def)

lemma tcp_wf_transmit [simp]: "tcp_wf (snd (tcp_transmit E dst pkt s)) = tcp_wf s" "tcp_wf (snd (tcp_send_pkt E i fl d s)) = tcp_wf s" "tcp_wf (send_ack E i s) = tcp_wf s"
  by (simp_all add: tcp_transmit_def tcp_send_pkt_def send_ack_def Let_def)

lemma length_put_ip: "addr_ok af a \<Longrightarrow> length u = 16 \<Longrightarrow> length (put_ip af a u) = 16"
  by (auto simp: addr_ok_def put_ip_def)

lemma length_mss_copy: "length (mss_copy p) \<le> TCP_MSS"
  by (simp add: mss_copy_def)

lemma keep_data_wf: "length d \<le> TCP_MSS \<Longrightarrow> conn_wf c \<Longrightarrow> conn_wf (keep_data d c)"
  by (simp add: conn_wf_def keep_data_def ring_ok_def unat_of_nat TCP_MSS_def)

lemma enqueue_wf: "conn_wf c \<Longrightarrow> conn_wf (enqueue_child i c)"
  by (auto simp: conn_wf_def enqueue_child_def ring_ok_def TCP_BACKLOG_def mod_Suc_eq)

lemma dequeue_wf: "t_accept_count c > 0 \<Longrightarrow> conn_wf c \<Longrightarrow> conn_wf (dequeue_child c)"
proof -
  assume n: "t_accept_count c > 0" and c: "conn_wf c"
  have "((t_accept_head c + 1) mod 8 + (t_accept_count c - 1)) mod 8 = (t_accept_head c + 1 + (t_accept_count c - 1)) mod 8"
    by (rule mod_add_left_eq)
  moreover have "t_accept_head c + 1 + (t_accept_count c - 1) = t_accept_head c + t_accept_count c" using n by simp
  ultimately show ?thesis using c by (simp add: conn_wf_def dequeue_child_def ring_ok_def TCP_BACKLOG_def)
qed


text \<open>Updates that touch none of the fields of the invariant.\<close>

lemma conn_wf_fields [simp]:
  "conn_wf (c\<lparr>t_used := b\<rparr>) = conn_wf c" "conn_wf (c\<lparr>t_state := st\<rparr>) = conn_wf c" "conn_wf (c\<lparr>t_snd_nxt := w\<rparr>) = conn_wf c"
  "conn_wf (c\<lparr>t_rcv_nxt := w\<rparr>) = conn_wf c" "conn_wf (c\<lparr>t_snd_una := w\<rparr>) = conn_wf c" "conn_wf (c\<lparr>t_snd_wnd := w\<rparr>) = conn_wf c"
  "conn_wf (c\<lparr>t_iss := w\<rparr>) = conn_wf c" "conn_wf (c\<lparr>t_irs := w\<rparr>) = conn_wf c" "conn_wf (c\<lparr>t_closed := b\<rparr>) = conn_wf c"
  "conn_wf (c\<lparr>t_af := z\<rparr>) = conn_wf c" "conn_wf (c\<lparr>t_local_port := p\<rparr>) = conn_wf c" "conn_wf (c\<lparr>t_remote_port := p\<rparr>) = conn_wf c"
  "conn_wf (c\<lparr>t_on_recv := f\<rparr>) = conn_wf c" "conn_wf (c\<lparr>t_on_close := f\<rparr>) = conn_wf c" "conn_wf (c\<lparr>t_on_connect := f\<rparr>) = conn_wf c"
  "conn_wf (c\<lparr>t_recv_done := b\<rparr>) = conn_wf c" "conn_wf (c\<lparr>t_ipv6only := b\<rparr>) = conn_wf c" "conn_wf (c\<lparr>t_timewait_ms := w\<rparr>) = conn_wf c"
  "conn_wf (c\<lparr>t_retrans_seq := w\<rparr>) = conn_wf c" "conn_wf (c\<lparr>t_rto_ms := w\<rparr>) = conn_wf c" "conn_wf (c\<lparr>t_rto_remaining := w\<rparr>) = conn_wf c"
  "conn_wf (c\<lparr>t_fin_rto_remaining := w\<rparr>) = conn_wf c" "conn_wf (c\<lparr>t_fin_rto_ms := w\<rparr>) = conn_wf c"
  "conn_wf (c\<lparr>t_recv_timeout := z\<rparr>) = conn_wf c" "conn_wf (c\<lparr>t_send_timeout := z\<rparr>) = conn_wf c"
  by (simp_all add: conn_wf_def ring_ok_def)

lemma conn_wf_zero [simp]: "conn_wf c \<Longrightarrow> conn_wf (c\<lparr>t_recv_len := 0\<rparr>)" "conn_wf c \<Longrightarrow> conn_wf (c\<lparr>t_retrans_len := 0\<rparr>)"
  by (simp_all add: conn_wf_def ring_ok_def)

lemma conn_wf_ip: "length a = 16 \<Longrightarrow> conn_wf c \<Longrightarrow> conn_wf (c\<lparr>t_remote_ip := a\<rparr>)" "length a = 16 \<Longrightarrow> conn_wf c \<Longrightarrow> conn_wf (c\<lparr>t_local_ip := a\<rparr>)"
  by (simp_all add: conn_wf_def ring_ok_def)

lemma conn_wf_put_ip: "addr_ok af a \<Longrightarrow> conn_wf c \<Longrightarrow> length (put_ip af a (t_remote_ip c)) = 16" "addr_ok af a \<Longrightarrow> conn_wf c \<Longrightarrow> length (put_ip af a (t_local_ip c)) = 16"
  by (simp_all add: conn_wf_def length_put_ip)

lemma new_child_wf: "addr_ok af src \<Longrightarrow> addr_ok af dst \<Longrightarrow> conn_wf c \<Longrightarrow> conn_wf (new_child af src dst g f iss c)"
  by (simp add: new_child_def conn_wf_def ring_ok_def length_put_ip)

lemma est_ack_wf: "conn_wf c \<Longrightarrow> conn_wf (est_ack g c)"
  by (simp add: est_ack_def Let_def)

section \<open>Receiving\<close>

lemma in_syn_sent_wf: "tcp_wf s \<Longrightarrow> tcp_wf (snd (in_syn_sent E i g s))"
  by (simp add: in_syn_sent_def tcp_wf_upd)

lemma in_syn_received_wf: "tcp_wf s \<Longrightarrow> tcp_wf (snd (in_syn_received E i g s))"
  by (simp add: in_syn_received_def Let_def tcp_wf_upd keep_data_wf length_mss_copy)

lemma est_data_wf: "tcp_wf s \<Longrightarrow> tcp_wf (snd (est_data E i g s))"
  by (simp add: est_data_def Let_def tcp_wf_upd keep_data_wf length_mss_copy)

lemma in_established_wf: "tcp_wf s \<Longrightarrow> tcp_wf (snd (in_established E i g s))"
  using est_data_wf [of s E i g] by (simp add: in_established_def Let_def tcp_wf_upd est_ack_wf split_beta)

lemma in_fin_wait_wf: "tcp_wf s \<Longrightarrow> tcp_wf (in_fin_wait1 E i g s)" "tcp_wf s \<Longrightarrow> tcp_wf (in_fin_wait2 E i g s)" "tcp_wf s \<Longrightarrow> tcp_wf (in_last_ack i g s)"
  by (simp_all add: in_fin_wait1_def in_fin_wait2_def in_last_ack_def tcp_wf_upd)

lemma handle_segment_wf: "tcp_wf s \<Longrightarrow> tcp_wf (snd (handle_segment E i g s))"
  unfolding handle_segment_def
  by (cases "has g TCP_RST"; cases "t_state (conns s ! i)")
    (simp_all add: tcp_wf_upd in_syn_sent_wf in_syn_received_wf in_established_wf in_fin_wait_wf)

lemma run_callbacks_wf: "env_ok E \<Longrightarrow> tcp_wf s \<Longrightarrow> tcp_wf (run_callbacks E i td s)"
  by (simp add: run_callbacks_def Let_def split: option.split)

lemma accept_syn_wf: "addr_ok af src \<Longrightarrow> addr_ok af dst \<Longrightarrow> tcp_wf s \<Longrightarrow> tcp_wf (accept_syn E iss af src dst g l s)"
  by (simp add: accept_syn_def Let_def tcp_wf_upd new_child_wf enqueue_wf split: option.split)

lemma tcp_handle_common_wf:
  assumes "env_ok E" "addr_ok af src" "addr_ok af dst" "tcp_wf s"
  shows "tcp_wf (tcp_handle_common E iss af src dst d s)"
  using assms handle_segment_wf [OF assms(4)]
  by (auto simp: tcp_handle_common_def refuse_syn_def Let_def accept_syn_wf run_callbacks_wf split_beta split: option.split)


section \<open>Calls\<close>

lemma tcp_listen_wf: "tcp_wf s \<Longrightarrow> tcp_wf (snd (tcp_listen af port f s))"
  by (simp add: tcp_listen_def tcp_wf_upd split: option.split)

lemma wait_open_wf: "env_ok E \<Longrightarrow> tcp_wf s \<Longrightarrow> tcp_wf (wait_open E i n s)"
  by (induction n arbitrary: s) simp_all

lemma tcp_connect_wf:
  assumes "env_ok E" "addr_ok af dst" "tcp_wf s"
  shows "tcp_wf (snd (tcp_connect E iss af dst dp sp t s))"
  unfolding tcp_connect_def Let_def split_beta using assms
  by (simp add: tcp_wf_upd wait_open_wf conn_wf_ip conn_wf_put_ip split: option.split)

lemma tcp_close_wf: "env_ok E \<Longrightarrow> tcp_wf s \<Longrightarrow> tcp_wf (snd (tcp_close E i s))"
  by (simp add: tcp_close_def Let_def tcp_wf_upd)

lemma wait_retrans_wf: "env_ok E \<Longrightarrow> tcp_wf s \<Longrightarrow> tcp_wf (snd (wait_retrans E i n s))"
proof (induction n arbitrary: s)
  case 0 then show ?case by (subst wait_retrans.simps) (simp add: Let_def)
next
  case (Suc n) then show ?case by (subst wait_retrans.simps) (simp add: Let_def)
qed

lemma conn_wf_retrans:
  "length d \<le> TCP_MSS \<Longrightarrow> conn_wf c \<Longrightarrow> conn_wf (c\<lparr>t_snd_nxt := a, t_retrans_buf := splice 0 d (t_retrans_buf c), t_retrans_seq := b,
     t_retrans_len := of_nat (length d), t_rto_ms := 1000, t_rto_remaining := 1000\<rparr>)"
  by (simp add: conn_wf_def ring_ok_def unat_of_nat TCP_MSS_def)

lemma send_loop_wf: "env_ok E \<Longrightarrow> tcp_wf s \<Longrightarrow> tcp_wf (snd (send_loop E i d s))"
proof (induction d arbitrary: s rule: length_induct)
  case (1 d)
  define c where "c = min TCP_MSS (length d)"
  have c: "c \<le> TCP_MSS" "c \<le> length d" "d \<noteq> [] \<Longrightarrow> 0 < c" by (auto simp: c_def TCP_MSS_def)
  have I: "d \<noteq> [] \<Longrightarrow> tcp_wf t \<Longrightarrow> tcp_wf (snd (send_loop E i (drop c d) t))" for t using 1 c by simp
  have "tcp_wf t \<Longrightarrow> tcp_wf (upd_conn i (\<lambda>x. x\<lparr>t_snd_nxt := a x, t_retrans_buf := splice 0 (take c d) (t_retrans_buf x), t_retrans_seq := b x,
      t_retrans_len := of_nat c, t_rto_ms := 1000, t_rto_remaining := 1000\<rparr>) t)" for t a b
    using conn_wf_retrans [of "take c d"] c by (simp add: tcp_wf_upd)
  then show ?case using "1.prems" I unfolding send_loop.simps [of E i d s] Let_def c_def [symmetric] by (simp add: split_beta)
qed

lemma tcp_send_wf:
  assumes "env_ok E" "tcp_wf s"
  shows "tcp_wf (snd (tcp_send E i d s))"
proof -
  have w: "tcp_wf (snd (wait_retrans E i n s))" for n using assms by (rule wait_retrans_wf)
  show ?thesis unfolding tcp_send_def Let_def split_beta using assms w send_loop_wf [OF assms(1) w] by simp
qed

lemma tick_data_wf: "env_ok E \<Longrightarrow> tcp_wf s \<Longrightarrow> tcp_wf (snd (tick_data E i s))"
  unfolding tick_data_def Let_def by (simp add: tcp_wf_upd)

lemma tick_fin_wf: "env_ok E \<Longrightarrow> tcp_wf s \<Longrightarrow> tcp_wf (tick_fin E i s)"
  unfolding tick_fin_def Let_def by (simp add: tcp_wf_upd)

lemma tick_conn_wf: "env_ok E \<Longrightarrow> tcp_wf s \<Longrightarrow> tcp_wf (tick_conn E i s)"
  unfolding tick_conn_def Let_def split_beta by (simp add: tick_data_wf tick_fin_wf tick_timewait_def tcp_wf_upd)

lemma tcp_tick_wf: "env_ok E \<Longrightarrow> tcp_wf s \<Longrightarrow> tcp_wf (tcp_tick E s)"
proof -
  have "env_ok E \<Longrightarrow> tcp_wf s \<Longrightarrow> tcp_wf (fold (tick_conn E) is s)" for "is"
    by (induction "is" arbitrary: s) (simp_all add: tick_conn_wf)
  then show "env_ok E \<Longrightarrow> tcp_wf s \<Longrightarrow> tcp_wf (tcp_tick E s)" by (simp add: tcp_tick_def)
qed


lemma tcp_init_wf: "tcp_wf s \<Longrightarrow> tcp_wf (tcp_init s)"
  by (simp add: tcp_init_def)

lemma zero_conn_wf: "conn_wf zero_conn"
  by (simp add: zero_conn_def conn_wf_def ring_ok_def TCP_BACKLOG_def)

lemma tcp_conn_create_wf: "tcp_wf s \<Longrightarrow> tcp_wf (snd (tcp_conn_create af s))"
  by (simp add: tcp_conn_create_def tcp_wf_upd zero_conn_wf split: option.split)

lemma tcp_conn_destroy_wf: "tcp_wf s \<Longrightarrow> tcp_wf (tcp_conn_destroy i s)"
  by (simp add: tcp_conn_destroy_def tcp_wf_upd)

lemma tcp_conn_bind_wf: "tcp_wf s \<Longrightarrow> tcp_wf (snd (tcp_conn_bind i port v s))"
  by (simp add: tcp_conn_bind_def Let_def tcp_wf_upd)

lemma connect_loop_wf: "env_ok E \<Longrightarrow> tcp_wf s \<Longrightarrow> tcp_wf (snd (connect_loop E i ks s))"
proof (induction ks arbitrary: s)
  case (Cons k ks)
  then show ?case unfolding connect_loop.simps Let_def split_beta by (simp add: tcp_wf_upd)
qed simp

lemma connect_wait_wf: "env_ok E \<Longrightarrow> tcp_wf s \<Longrightarrow> tcp_wf (snd (connect_wait E i t s))"
  unfolding connect_wait_def Let_def split_beta
  by (simp add: tcp_wf_upd connect_loop_wf split: option.split)

lemma open_conn_wf:
  assumes "env_ok E" "16 \<le> length dst" "conn_wf c"
  shows "conn_wf (open_conn E iss dst dp c)"
proof -
  have "addr_ok (t_af c) dst" "addr_ok (t_af c) (if t_af c = AF_INET then our_v4 E else our_v6 E)" using env_ok_addrs [OF assms(1)] assms(2) by (simp_all add: addr_ok_def)
  then show ?thesis using assms(3) conn_wf_put_ip [of "t_af c" _ c] unfolding open_conn_def by (simp add: conn_wf_ip)
qed

lemma tcp_conn_connect_wf:
  assumes "env_ok E" "tcp_wf s" "16 \<le> length dst"
  shows "tcp_wf (snd (tcp_conn_connect E iss i dst dp t s))"
  unfolding tcp_conn_connect_def Let_def split_beta using assms
  by (simp add: tcp_wf_upd open_conn_wf connect_wait_wf)

lemma tcp_conn_listen_wf: "tcp_wf s \<Longrightarrow> tcp_wf (snd (tcp_conn_listen i port s))"
  unfolding tcp_conn_listen_def by (auto intro!: tcp_wf_upd simp: conn_wf_def ring_ok_def TCP_BACKLOG_def)

lemma upd_conn_at: "(conn_wf (conns s ! i) \<Longrightarrow> conn_wf (f (conns s ! i))) \<Longrightarrow> tcp_wf s \<Longrightarrow> tcp_wf (upd_conn i f s)"
  by (cases "i < length (conns s)") (auto simp: tcp_wf_def upd_conn_def list_update_beyond dest: set_update_subset_insert [THEN subsetD])

lemma accept_loop_wf: "env_ok E \<Longrightarrow> tcp_wf s \<Longrightarrow> tcp_wf (snd (accept_loop E i n s))"
  by (induction n arbitrary: s) (simp_all add: Let_def upd_conn_at dequeue_wf)

lemma tcp_conn_accept_wf: "env_ok E \<Longrightarrow> tcp_wf s \<Longrightarrow> tcp_wf (snd (tcp_conn_accept E i t s))"
  by (simp add: tcp_conn_accept_def accept_loop_wf)

lemma take_data_wf: "tcp_wf s \<Longrightarrow> tcp_wf (snd (take_data i n s))"
  by (simp add: take_data_def Let_def tcp_wf_upd)

lemma recv_loop_wf: "env_ok E \<Longrightarrow> tcp_wf s \<Longrightarrow> tcp_wf (snd (recv_loop E i n k s))"
proof (induction k arbitrary: s)
  case (Suc k)
  then show ?case using take_data_wf [of "rx_poll E k s" i n] by (simp add: Let_def split_beta split: option.split)
qed simp

lemma tcp_conn_recv_wf: "env_ok E \<Longrightarrow> tcp_wf s \<Longrightarrow> tcp_wf (snd (tcp_conn_recv E i n t s))"
  by (simp add: tcp_conn_recv_def Let_def recv_loop_wf)

section \<open>Histories\<close>

datatype tcp_call =
    Segment u32 int "u8 list" "u8 list" "u8 list"
  | Listen int u16 "nat option"
  | Connect u32 int "u8 list" u16 u16 int
  | Send nat "u8 list"
  | Close nat
  | Tick
  | Init
  | Create int
  | Destroy nat
  | Bind nat u16 bool
  | Connect_On u32 nat "u8 list" u16 int
  | Listen_On nat u16
  | Accept nat int
  | Recv nat nat int

fun tcp_do :: "tcp_env \<Rightarrow> tcp_call \<Rightarrow> tcp \<Rightarrow> tcp" where
  "tcp_do E (Segment iss af src dst d) s = tcp_handle_common E iss af src dst d s"
| "tcp_do E (Listen af port f) s = snd (tcp_listen af port f s)"
| "tcp_do E (Connect iss af dst dp sp t) s = snd (tcp_connect E iss af dst dp sp t s)"
| "tcp_do E (Send i d) s = snd (tcp_send E i d s)"
| "tcp_do E (Close i) s = snd (tcp_close E i s)"
| "tcp_do E Tick s = tcp_tick E s"
| "tcp_do E Init s = tcp_init s"
| "tcp_do E (Create af) s = snd (tcp_conn_create af s)"
| "tcp_do E (Destroy i) s = tcp_conn_destroy i s"
| "tcp_do E (Bind i port v) s = snd (tcp_conn_bind i port v s)"
| "tcp_do E (Connect_On iss i dst dp t) s = snd (tcp_conn_connect E iss i dst dp t s)"
| "tcp_do E (Listen_On i port) s = snd (tcp_conn_listen i port s)"
| "tcp_do E (Accept i t) s = snd (tcp_conn_accept E i t s)"
| "tcp_do E (Recv i n t) s = snd (tcp_conn_recv E i n t s)"

text \<open>The arguments a caller may give: addresses of the length of their family (the caller of \<open>tcp_conn_connect\<close> gives 16 bytes, the size of the
  union).\<close>

fun call_ok :: "tcp_call \<Rightarrow> bool" where
  "call_ok (Segment iss af src dst d) = (addr_ok af src \<and> addr_ok af dst)"
| "call_ok (Connect iss af dst dp sp t) = addr_ok af dst"
| "call_ok (Connect_On iss i dst dp t) = (16 \<le> length dst)"
| "call_ok _ = True"

lemma tcp_do_wf: "env_ok E \<Longrightarrow> tcp_wf s \<Longrightarrow> call_ok x \<Longrightarrow> tcp_wf (tcp_do E x s)"
  by (cases x) (simp_all add: tcp_handle_common_wf tcp_listen_wf tcp_connect_wf tcp_send_wf tcp_close_wf tcp_tick_wf tcp_init_wf tcp_conn_create_wf
    tcp_conn_destroy_wf tcp_conn_bind_wf tcp_conn_connect_wf tcp_conn_listen_wf tcp_conn_accept_wf tcp_conn_recv_wf)

definition tcp_start :: tcp where
  "tcp_start = \<lparr>conns = replicate TCP_MAX_CONN zero_conn, ephemeral_port = 0, tcp_initialized = False, sent = []\<rparr>"

lemma tcp_start_wf: "tcp_wf tcp_start"
  by (simp add: tcp_start_def tcp_wf_def zero_conn_wf)

lemma tcp_history_wf: "env_ok E \<Longrightarrow> \<forall>x \<in> set xs. call_ok x \<Longrightarrow> tcp_wf s \<Longrightarrow> tcp_wf (fold (tcp_do E) xs s)"
  by (induction xs arbitrary: s) (simp_all add: tcp_do_wf)


text \<open>Two environments: one in which nothing else happens, and one in which every poll of the card delivers a SYN packet and other threads run
  the timer while a packet is sent.\<close>

definition quiet_env :: tcp_env where
  "quiet_env = \<lparr>tx_result = \<lambda>_. ERR_OK, other_threads = \<lambda>_ s. s, rx_poll = \<lambda>_ s. s, cb_recv = \<lambda>_ _ _ _ s. s, cb_close = \<lambda>_ _ s. s,
     cb_connect = \<lambda>_ _ s. s, our_v4 = [10, 0, 0, 1], our_v6 = replicate 16 0\<rparr>"

definition busy_env :: tcp_env where
  "busy_env = quiet_env\<lparr>other_threads := \<lambda>_. tcp_tick quiet_env,
     rx_poll := \<lambda>k. tcp_handle_common quiet_env (of_nat k) AF_INET [10, 0, 0, 2] [10, 0, 0, 1] (tcp_header 5000 80 7 0 TCP_SYN 65535)\<rparr>"

lemma quiet_env_ok: "env_ok quiet_env"
  by (simp add: env_ok_def quiet_env_def)

lemma busy_env_ok: "env_ok busy_env"
  unfolding env_ok_def
  by (simp add: busy_env_def tcp_tick_wf quiet_env_ok tcp_handle_common_wf addr_ok_def) (simp add: quiet_env_def)

section \<open>The property\<close>

text \<open>
  C32. Every history keeps the types of the state. Starting from the cleared namespace, after any sequence of segments, calls and timer ticks, and
  whatever callbacks, other threads and the network card do in between (as long as they keep it themselves), the table has 16 connections, and in
  each of them the receive and the retransmission buffer hold 1460 bytes with lengths that stay inside them, the addresses have 16 bytes, and the
  accept queue is a ring of 8 entries whose head, tail and count agree.
\<close>

theorem tcp_history_typed:
  assumes "env_ok E" and "\<forall>x \<in> set xs. call_ok x"
  shows "tcp_wf (fold (tcp_do E) xs tcp_start)"
  using assms tcp_start_wf by (rule tcp_history_wf)

lemma tcp_history_typed_witness:
  "tcp_wf (fold (tcp_do busy_env) [Init, Listen AF_INET 80 None, Create AF_INET, Connect_On 9 1 (replicate 16 1) 25 200, Accept 0 500, Close 1, Tick] tcp_start)"
  by (rule tcp_history_typed [OF busy_env_ok]) simp

end
