(* ===== verification/Tcp_Props.thy ===== *)
theory Tcp_Props
  imports Tcp_Packet Tcp_Wf
begin

text \<open>
  Properties of \<^verbatim>\<open>tcp.c\<close>: the transitions of a connection, delivery of the stream in order, what a retransmission achieves and the end of
  a closed connection.
\<close>

section \<open>Single steps\<close>

lemma conns_send [simp]: "conns (snd (tcp_send_pkt E i fl d s)) = conns s" "conns (send_ack E i s) = conns s"
  by (simp_all add: tcp_send_pkt_def tcp_transmit_def send_ack_def Let_def)

lemma sent_send: "sent (snd (tcp_send_pkt E i fl d s)) =
    sent s @ [(if t_af (conns s ! i) = AF_INET then take 4 (t_remote_ip (conns s ! i)) else t_remote_ip (conns s ! i), tcp_packet (conns s ! i) fl d)]"
  by (simp add: tcp_send_pkt_def tcp_transmit_def Let_def)

lemma conns_upd [simp]: "length (conns (upd_conn i f s)) = length (conns s)" "j \<noteq> i \<Longrightarrow> conns (upd_conn i f s) ! j = conns s ! j"
    "i < length (conns s) \<Longrightarrow> conns (upd_conn i f s) ! i = f (conns s ! i)" "sent (upd_conn i f s) = sent s"
  by (simp_all add: upd_conn_def)

lemmas seg_defs = handle_segment_def in_syn_sent_def in_syn_received_def in_established_def est_data_def in_fin_wait1_def in_fin_wait2_def in_last_ack_def

lemma handle_segment_other: "j \<noteq> i \<Longrightarrow> conns (snd (handle_segment E i g s)) ! j = conns s ! j"
  unfolding seg_defs by (cases "t_state (conns s ! i)") (simp_all add: Let_def)

lemma handle_segment_length: "length (conns (snd (handle_segment E i g s))) = length (conns s)"
  unfolding seg_defs by (cases "t_state (conns s ! i)") (simp_all add: Let_def)


section \<open>Transitions\<close>

definition endpoint :: "tcp_conn \<Rightarrow> int \<times> u16 \<times> u16 \<times> u8 list \<times> bool" where
  "endpoint c = (t_af c, t_local_port c, t_remote_port c, t_remote_ip c, t_ipv6only c)"

definition peer_addr :: "tcp_conn \<Rightarrow> u8 list" where
  "peer_addr c = (if t_af c = AF_INET then take 4 (t_remote_ip c) else t_remote_ip c)"

text \<open>
  What \<^verbatim>\<open>tcp.c\<close> makes of a segment \<open>g\<close> for the connection \<open>c\<close>: its next state, the next number it expects, its clock, and
  whether it answers.
\<close>

definition next_state :: "tcp_seg \<Rightarrow> tcp_conn \<Rightarrow> tcp_state" where
  "next_state g c = (let ack = has g TCP_ACK; fin = has g TCP_FIN in
     if has g TCP_RST then TCP_CLOSED
     else case t_state c of
       TCP_SYN_SENT \<Rightarrow> if has g TCP_SYN \<and> ack \<and> g_ack g = t_snd_nxt c then TCP_ESTABLISHED else TCP_SYN_SENT
     | TCP_SYN_RECEIVED \<Rightarrow> if ack then TCP_ESTABLISHED else TCP_SYN_RECEIVED
     | TCP_ESTABLISHED \<Rightarrow> if fin then TCP_CLOSE_WAIT else TCP_ESTABLISHED
     | TCP_FIN_WAIT1 \<Rightarrow> if fin then if ack then TCP_TIME_WAIT else TCP_CLOSING else if ack then TCP_FIN_WAIT2 else TCP_FIN_WAIT1
     | TCP_FIN_WAIT2 \<Rightarrow> if fin then TCP_TIME_WAIT else TCP_FIN_WAIT2
     | TCP_CLOSING \<Rightarrow> if ack then TCP_TIME_WAIT else TCP_CLOSING
     | TCP_LAST_ACK \<Rightarrow> if ack then TCP_CLOSED else TCP_LAST_ACK
     | st \<Rightarrow> st)"

definition takes_fin :: "tcp_seg \<Rightarrow> tcp_conn \<Rightarrow> bool" where
  "takes_fin g c \<longleftrightarrow> \<not> has g TCP_RST \<and> has g TCP_FIN \<and> t_state c \<in> {TCP_ESTABLISHED, TCP_FIN_WAIT1, TCP_FIN_WAIT2}"

definition opens :: "tcp_seg \<Rightarrow> tcp_conn \<Rightarrow> bool" where
  "opens g c \<longleftrightarrow> t_state c \<in> {TCP_SYN_SENT, TCP_SYN_RECEIVED} \<and> next_state g c = TCP_ESTABLISHED"

definition takes_data :: "tcp_seg \<Rightarrow> tcp_conn \<Rightarrow> bool" where
  "takes_data g c \<longleftrightarrow> \<not> has g TCP_RST \<and> g_payload g \<noteq> [] \<and>
     (if t_state c = TCP_ESTABLISHED then \<not> has g TCP_FIN \<and> g_seq g = t_rcv_nxt c \<and> \<not> t_recv_done c else t_state c = TCP_SYN_RECEIVED \<and> has g TCP_ACK)"

definition next_rcv :: "tcp_seg \<Rightarrow> tcp_conn \<Rightarrow> u32" where
  "next_rcv g c = (if takes_fin g c \<or> t_state c = TCP_SYN_SENT \<and> opens g c then g_seq g + 1
     else if takes_data g c then g_seq g + of_nat (length (g_payload g)) else t_rcv_nxt c)"

definition next_clock :: "tcp_seg \<Rightarrow> tcp_conn \<Rightarrow> u32" where
  "next_clock g c = (if \<not> has g TCP_RST \<and> t_state c = TCP_TIME_WAIT \<or> takes_fin g c \<and> next_state g c = TCP_TIME_WAIT then 60000 else t_timewait_ms c)"

definition replies :: "tcp_seg \<Rightarrow> tcp_conn \<Rightarrow> bool" where
  "replies g c \<longleftrightarrow> takes_fin g c \<or> t_state c = TCP_SYN_SENT \<and> opens g c \<or> takes_data g c \<or>
     \<not> has g TCP_RST \<and> t_state c = TCP_ESTABLISHED \<and> \<not> has g TCP_FIN \<and> g_payload g \<noteq> [] \<and> g_seq g \<noteq> t_rcv_nxt c"

text \<open>
  The protocol standard takes the acknowledgement of a segment first and its FIN afterwards. These are its transitions for a segment that acknowledges
  all that the connection has sent.
\<close>

fun rfc_ack :: "tcp_state \<Rightarrow> tcp_state" where
  "rfc_ack TCP_SYN_SENT = TCP_ESTABLISHED"
| "rfc_ack TCP_SYN_RECEIVED = TCP_ESTABLISHED"
| "rfc_ack TCP_FIN_WAIT1 = TCP_FIN_WAIT2"
| "rfc_ack TCP_CLOSING = TCP_TIME_WAIT"
| "rfc_ack TCP_LAST_ACK = TCP_CLOSED"
| "rfc_ack st = st"

fun rfc_fin :: "tcp_state \<Rightarrow> tcp_state" where
  "rfc_fin TCP_SYN_RECEIVED = TCP_CLOSE_WAIT"
| "rfc_fin TCP_ESTABLISHED = TCP_CLOSE_WAIT"
| "rfc_fin TCP_FIN_WAIT1 = TCP_CLOSING"
| "rfc_fin TCP_FIN_WAIT2 = TCP_TIME_WAIT"
| "rfc_fin st = st"

definition rfc_next :: "tcp_seg \<Rightarrow> tcp_state \<Rightarrow> tcp_state" where
  "rfc_next g st = (if has g TCP_RST then TCP_CLOSED else if has g TCP_FIN then rfc_fin (rfc_ack st) else rfc_ack st)"

definition acks_all :: "tcp_seg \<Rightarrow> tcp_conn \<Rightarrow> bool" where
  "acks_all g c \<longleftrightarrow> has g TCP_ACK \<and> g_ack g = t_snd_nxt c \<and> (has g TCP_SYN \<longleftrightarrow> t_state c = TCP_SYN_SENT) \<and>
     (has g TCP_FIN \<longrightarrow> t_state c \<notin> {TCP_SYN_SENT, TCP_SYN_RECEIVED})"

lemmas table_defs = next_state_def takes_fin_def opens_def takes_data_def next_rcv_def next_clock_def replies_def

lemma endpoint_upd [simp]: "endpoint (c\<lparr>t_rcv_nxt := w\<rparr>) = endpoint c" "endpoint (c\<lparr>t_snd_nxt := w\<rparr>) = endpoint c" "endpoint (c\<lparr>t_rto_ms := w\<rparr>) = endpoint c"
    "endpoint (c\<lparr>t_rto_remaining := w\<rparr>) = endpoint c" "endpoint (c\<lparr>t_recv_len := w\<rparr>) = endpoint c" "endpoint (c\<lparr>t_recv_done := b\<rparr>) = endpoint c"
  by (simp_all add: endpoint_def)

lemma parse_ack: "parse_seg (tcp_packet c fl d) = Some \<lparr>g_src_port = t_local_port c, g_dst_port = t_remote_port c, g_seq = t_snd_nxt c,
    g_ack = t_rcv_nxt c, g_flags = fl, g_window = ucast TCP_WINDOW, g_payload = d\<rparr>"
  unfolding tcp_packet_def Let_def by (rule parse_header)

lemma sent_ack: "sent (send_ack E i s) =
    sent s @ [(if t_af (conns s ! i) = AF_INET then take 4 (t_remote_ip (conns s ! i)) else t_remote_ip (conns s ! i), tcp_packet (conns s ! i) TCP_ACK [])]"
  by (simp add: send_ack_def sent_send)

lemma est_ack_fields [simp]: "t_state (est_ack g c) = t_state c" "t_rcv_nxt (est_ack g c) = t_rcv_nxt c" "t_local_port (est_ack g c) = t_local_port c"
    "t_remote_port (est_ack g c) = t_remote_port c" "t_recv_done (est_ack g c) = t_recv_done c" "t_recv_buf (est_ack g c) = t_recv_buf c"
    "t_recv_len (est_ack g c) = t_recv_len c" "t_timewait_ms (est_ack g c) = t_timewait_ms c" "t_used (est_ack g c) = t_used c" "endpoint (est_ack g c) = endpoint c"
  by (simp_all add: est_ack_def Let_def endpoint_def)

lemma keep_data_fields [simp]: "t_state (keep_data d c) = t_state c" "t_rcv_nxt (keep_data d c) = t_rcv_nxt c" "t_local_port (keep_data d c) = t_local_port c"
    "t_remote_port (keep_data d c) = t_remote_port c" "t_timewait_ms (keep_data d c) = t_timewait_ms c" "t_used (keep_data d c) = t_used c"
    "endpoint (keep_data d c) = endpoint c"
  by (simp_all add: keep_data_def endpoint_def)

lemma segment_state:
  assumes "i < length (conns s)"
  shows "t_state (conns (snd (handle_segment E i g s)) ! i) = next_state g (conns s ! i)"
  using assms unfolding seg_defs next_state_def Let_def by (cases "t_state (conns s ! i)") (simp_all add: Let_def)

lemma segment_rcv:
  assumes "i < length (conns s)"
  shows "t_rcv_nxt (conns (snd (handle_segment E i g s)) ! i) = next_rcv g (conns s ! i)"
  using assms unfolding seg_defs table_defs Let_def by (cases "t_state (conns s ! i)") (simp_all add: Let_def)

lemma segment_clock:
  assumes "i < length (conns s)"
  shows "t_timewait_ms (conns (snd (handle_segment E i g s)) ! i) = next_clock g (conns s ! i)"
  using assms unfolding seg_defs table_defs Let_def by (cases "t_state (conns s ! i)") (simp_all add: Let_def)

lemma segment_sent:
  assumes "i < length (conns s)"
  shows "sent (snd (handle_segment E i g s)) = sent s @
    (if replies g (conns s ! i) then [(peer_addr (conns s ! i), tcp_packet ((conns s ! i)\<lparr>t_rcv_nxt := next_rcv g (conns s ! i)\<rparr>) TCP_ACK [])] else [])"
  using assms unfolding seg_defs table_defs Let_def
  by (cases "t_state (conns s ! i)") (simp_all add: Let_def sent_ack tcp_packet_def peer_addr_def)

lemma segment_calls:
  shows "td_connect (fst (handle_segment E i g s)) = (if opens g (conns s ! i) then t_on_connect (conns s ! i) else None)"
    "td_close (fst (handle_segment E i g s)) =
      (if has g TCP_RST \<or> t_state (conns s ! i) = TCP_ESTABLISHED \<and> has g TCP_FIN then t_on_close (conns s ! i) else None)"
  unfolding seg_defs table_defs Let_def nothing_def by (cases "t_state (conns s ! i)"; simp add: Let_def)+

lemma next_state_rfc: "acks_all g c \<Longrightarrow> t_state c \<noteq> TCP_LISTEN \<Longrightarrow> next_state g c = rfc_next g (t_state c)"
  unfolding acks_all_def next_state_def rfc_next_def Let_def by (cases "t_state c") simp_all


section \<open>Delivery in order\<close>

definition stream :: "(u32 \<Rightarrow> u8) \<Rightarrow> u32 \<Rightarrow> nat \<Rightarrow> u8 list" where
  "stream f a n = map (\<lambda>k. f (a + of_nat k)) [0..<n]"

definition pending :: "tcp_conn \<Rightarrow> u8 list" where
  "pending c = (if t_recv_done c then take (unat (t_recv_len c)) (t_recv_buf c) else [])"

text \<open>
  A run: packets of any kind arrive, the timer ticks, and the owner of the connection \<open>i\<close> reads. The condition \<open>event_ok\<close> restricts only the packets that carry the
  endpoint \<open>c\<close> of the connection: they are not a RST or a FIN, have at most 1460 bytes and hold bytes of the peer's stream \<open>f\<close>. Reads offer at least 1460 bytes.
\<close>

datatype tcp_event = Packet u32 int "u8 list" "u8 list" "u8 list" | Timer | Read nat

fun tcp_event_step :: "tcp_env \<Rightarrow> nat \<Rightarrow> tcp_event \<Rightarrow> tcp \<Rightarrow> u8 list \<times> tcp" where
  "tcp_event_step E i (Packet iss af src dst d) s = ([], tcp_handle_common E iss af src dst d s)"
| "tcp_event_step E i Timer s = ([], tcp_tick E s)"
| "tcp_event_step E i (Read n) s = (case take_data i n s of (d, s) \<Rightarrow> (case d of None \<Rightarrow> [] | Some b \<Rightarrow> b, s))"

fun tcp_run :: "tcp_env \<Rightarrow> nat \<Rightarrow> tcp_event list \<Rightarrow> tcp \<Rightarrow> u8 list \<times> tcp" where
  "tcp_run E i [] s = ([], s)"
| "tcp_run E i (e # es) s = (case tcp_event_step E i e s of (d, s) \<Rightarrow> (case tcp_run E i es s of (ds, s) \<Rightarrow> (d @ ds, s)))"

definition of_stream :: "(u32 \<Rightarrow> u8) \<Rightarrow> tcp_seg \<Rightarrow> bool" where
  "of_stream f g \<longleftrightarrow> \<not> has g TCP_RST \<and> \<not> has g TCP_FIN \<and> length (g_payload g) \<le> TCP_MSS \<and> g_payload g = stream f (g_seq g) (length (g_payload g))"

fun event_ok :: "(u32 \<Rightarrow> u8) \<Rightarrow> tcp_conn \<Rightarrow> tcp_event \<Rightarrow> bool" where
  "event_ok f c (Packet iss af src dst d) = (case parse_seg d of
     None \<Rightarrow> True
   | Some g \<Rightarrow> conn_match af src (g_src_port g) (g_dst_port g) c \<longrightarrow> of_stream f g)"
| "event_ok f c Timer = True"
| "event_ok f c (Read n) = (TCP_MSS \<le> n)"

text \<open>Callbacks and other threads leave the connection \<open>i\<close> alone; with the rest they may do what they like.\<close>

definition spares :: "nat \<Rightarrow> (tcp \<Rightarrow> tcp) \<Rightarrow> bool" where
  "spares i h \<longleftrightarrow> (\<forall>s. length (conns (h s)) = length (conns s) \<and> conns (h s) ! i = conns s ! i)"

definition calm :: "tcp_env \<Rightarrow> nat \<Rightarrow> bool" where
  "calm E i \<longleftrightarrow> (\<forall>k. spares i (other_threads E k)) \<and> (\<forall>f j d n. spares i (cb_recv E f j d n)) \<and> (\<forall>f j. spares i (cb_close E f j)) \<and>
     (\<forall>f j. spares i (cb_connect E f j))"

lemma stream_append: "stream f a m @ stream f (a + of_nat m) n = stream f a (m + n)"
  by (rule nth_equalityI) (auto simp: stream_def nth_append add.assoc simp flip: of_nat_add)

lemma pending_keep: "length p \<le> TCP_MSS \<Longrightarrow> length (t_recv_buf c) = TCP_MSS \<Longrightarrow> pending (keep_data (mss_copy p) c) = p"
  by (auto simp: pending_def keep_data_def mss_copy_def splice_def unat_of_nat TCP_MSS_def)

lemma established_step:
  assumes "i < length (conns s)" and c: "c = conns s ! i" and c': "c' = conns (snd (handle_segment E i g s)) ! i"
    and "t_state c = TCP_ESTABLISHED" "\<not> has g TCP_RST" "\<not> has g TCP_FIN" "length (g_payload g) \<le> TCP_MSS" "length (t_recv_buf c) = TCP_MSS"
  shows "t_state c' = TCP_ESTABLISHED" "length (t_recv_buf c') = TCP_MSS"
    "if g_payload g \<noteq> [] \<and> g_seq g = t_rcv_nxt c \<and> \<not> t_recv_done c
     then t_rcv_nxt c' = t_rcv_nxt c + of_nat (length (g_payload g)) \<and> pending c = [] \<and> pending c' = g_payload g
     else t_rcv_nxt c' = t_rcv_nxt c \<and> pending c' = pending c"
proof -
  have p: "pending (est_ack g x) = pending x" for x by (simp add: pending_def)
  have r: "pending (keep_data (mss_copy (g_payload g)) ((conns s ! i)\<lparr>t_rcv_nxt := w\<rparr>)) = g_payload g" for w
    using assms(7,8) c by (intro pending_keep) simp_all
  have l: "length (splice 0 (mss_copy (g_payload g)) (t_recv_buf c)) = TCP_MSS" using assms(8) length_mss_copy [of "g_payload g"] by simp
  have h: "handle_segment E i g s = in_established E i g s" using assms(4,5) c by (simp add: handle_segment_def)
  show "t_state c' = TCP_ESTABLISHED" using assms(1,4,6) c unfolding c' h in_established_def est_data_def by (simp add: Let_def)
  show "length (t_recv_buf c') = TCP_MSS" using assms(1,6,8) l c unfolding c' h in_established_def est_data_def by (simp add: Let_def keep_data_def)
  show "if g_payload g \<noteq> [] \<and> g_seq g = t_rcv_nxt c \<and> \<not> t_recv_done c
     then t_rcv_nxt c' = t_rcv_nxt c + of_nat (length (g_payload g)) \<and> pending c = [] \<and> pending c' = g_payload g
     else t_rcv_nxt c' = t_rcv_nxt c \<and> pending c' = pending c"
    using assms(1,6) p r c unfolding c' h in_established_def est_data_def by (simp add: Let_def pending_def [of "conns s ! i"])
qed


definition receiving :: "nat \<Rightarrow> tcp \<Rightarrow> bool" where
  "receiving i s \<longleftrightarrow> i < length (conns s) \<and> t_state (conns s ! i) = TCP_ESTABLISHED \<and> length (t_recv_buf (conns s ! i)) = TCP_MSS"

lemma read_step:
  assumes "receiving i s" "TCP_MSS \<le> n" "take_data i n s = (d, t)"
  shows "receiving i t" "(case d of None \<Rightarrow> [] | Some b \<Rightarrow> b) @ pending (conns t ! i) = pending (conns s ! i)" "t_rcv_nxt (conns t ! i) = t_rcv_nxt (conns s ! i)"
  using assms by (auto simp: take_data_def Let_def pending_def min_def receiving_def split: if_splits)

text \<open>What a step does to the connection: the state, the endpoint and the use of the slot stay, and \<open>m\<close> bytes of the stream come in.\<close>

definition comes_in :: "(u32 \<Rightarrow> u8) \<Rightarrow> u8 list \<Rightarrow> nat \<Rightarrow> tcp \<Rightarrow> tcp \<Rightarrow> nat \<Rightarrow> bool" where
  "comes_in f d i s t m \<longleftrightarrow> receiving i t \<and> t_used (conns t ! i) \<and> endpoint (conns t ! i) = endpoint (conns s ! i) \<and>
     d @ pending (conns t ! i) = pending (conns s ! i) @ stream f (t_rcv_nxt (conns s ! i)) m \<and> t_rcv_nxt (conns t ! i) = t_rcv_nxt (conns s ! i) + of_nat m"

lemma comes_in_same:
  "receiving i s \<Longrightarrow> t_used (conns s ! i) \<Longrightarrow> conns t ! i = conns s ! i \<Longrightarrow> length (conns t) = length (conns s) \<Longrightarrow> comes_in f [] i s t 0"
  by (simp add: comes_in_def receiving_def stream_def)

lemma comes_in_spared: "spares i h \<Longrightarrow> comes_in f d i s t m \<Longrightarrow> comes_in f d i s (h t) m"
  by (simp add: comes_in_def receiving_def spares_def)

lemma comes_in_callbacks:
  assumes "calm E i" "comes_in f d i s t m"
  shows "comes_in f d i s (run_callbacks E j td t) m"
proof -
  have "spares i (cb_recv E x j p n)" "spares i (cb_close E x j)" "spares i (cb_connect E x j)" for x p n using assms(1) by (simp_all add: calm_def)
  note h = this [THEN comes_in_spared]
  show ?thesis unfolding run_callbacks_def Let_def using assms(2) by (auto simp: h split: option.split)
qed

lemma conn_match_endpoint:
  "endpoint c = endpoint c' \<Longrightarrow> t_used c = t_used c' \<Longrightarrow> t_state c = t_state c' \<Longrightarrow> conn_match af src p q c = conn_match af src p q c'"
  by (simp add: endpoint_def conn_match_def)

lemma segment_comes_in:
  assumes "receiving i s" "t_used (conns s ! i)" "of_stream f g" and t: "t = snd (handle_segment E i g s)"
  shows "comes_in f [] i s t (if g_payload g \<noteq> [] \<and> g_seq g = t_rcv_nxt (conns s ! i) \<and> \<not> t_recv_done (conns s ! i) then length (g_payload g) else 0)"
proof -
  have g: "\<not> has g TCP_RST" "\<not> has g TCP_FIN" "length (g_payload g) \<le> TCP_MSS" "stream f (g_seq g) (length (g_payload g)) = g_payload g"
    using assms(3) by (auto simp: of_stream_def)
  have r: "i < length (conns s)" "t_state (conns s ! i) = TCP_ESTABLISHED" "length (t_recv_buf (conns s ! i)) = TCP_MSS" using assms(1) by (simp_all add: receiving_def)
  note st = established_step [OF r(1) refl refl r(2) g(1-3) r(3), of E, folded t]
  have "t_used (conns t ! i)" "endpoint (conns t ! i) = endpoint (conns s ! i)"
    using r(1,2) g(1,2) assms(2) unfolding t handle_segment_def in_established_def est_data_def by (simp_all add: Let_def)
  moreover have "receiving i t" using st(1,2) r(1) by (simp add: receiving_def t handle_segment_length)
  ultimately show ?thesis using st(3) g(4) unfolding comes_in_def by (auto simp: stream_def [of f _ 0] split: if_splits)
qed

lemma accept_other:
  assumes "i < length (conns s)" "t_used (conns s ! i)" "l \<noteq> i"
  shows "conns (accept_syn E iss af src dst g l s) ! i = conns s ! i \<and> length (conns (accept_syn E iss af src dst g l s)) = length (conns s)"
proof (cases "free_slot s")
  case None
  then show ?thesis by (simp add: accept_syn_def)
next
  case (Some k)
  then have "k \<noteq> i" using find_idx_sat [OF Some [unfolded free_slot_def]] assms(2) by auto
  then show ?thesis using Some assms(3) by (simp add: accept_syn_def Let_def)
qed

lemma packet_step:
  assumes "receiving i s" "t_used (conns s ! i)" "calm E i" "event_ok f (conns s ! i) (Packet iss af src dst d)"
  shows "\<exists>m. comes_in f [] i s (tcp_handle_common E iss af src dst d s) m"
proof (cases "parse_seg d")
  case None
  then show ?thesis using comes_in_same [OF assms(1,2), of s f] by (auto simp: tcp_handle_common_def)
next
  case (Some g)
  have r: "i < length (conns s)" "t_state (conns s ! i) = TCP_ESTABLISHED" using assms(1) by (simp_all add: receiving_def)
  show ?thesis
  proof (cases "tcp_find_conn af src (g_src_port g) (g_dst_port g) s")
    case None
    have l: "l \<noteq> i" if "tcp_find_listener (g_dst_port g) af s = Some l" for l using find_idx_sat [OF that [unfolded tcp_find_listener_def]] r(2) by auto
    have "conns (tcp_handle_common E iss af src dst d s) ! i = conns s ! i \<and> length (conns (tcp_handle_common E iss af src dst d s)) = length (conns s)"
      using Some None accept_other [OF r(1) assms(2) l] by (auto simp: tcp_handle_common_def refuse_syn_def tcp_transmit_def Let_def split: option.split)
    then show ?thesis using comes_in_same [OF assms(1,2)] by blast
  next
    case j: (Some j)
    let ?t = "snd (handle_segment E j g s)"
    have m: "conn_match af src (g_src_port g) (g_dst_port g) (conns s ! j)" using find_idx_sat [OF j [unfolded tcp_find_conn_def]] .
    have "\<exists>m. comes_in f [] i s ?t m"
    proof (cases "j = i")
      case True
      then show ?thesis using segment_comes_in [OF assms(1,2), of f g] m assms(4) Some by auto
    next
      case False
      then show ?thesis using comes_in_same [OF assms(1,2), of ?t f] handle_segment_other [of i j E g s] handle_segment_length [of E j g s] by auto
    qed
    then obtain m where "comes_in f [] i s ?t m" by blast
    from comes_in_callbacks [OF assms(3) this, of j "fst (handle_segment E j g s)"] show ?thesis using Some j by (auto simp: tcp_handle_common_def split_beta)
  qed
qed

text \<open>The timer leaves alone what the receiving side of an established connection reads.\<close>

definition same_rx :: "nat \<Rightarrow> tcp \<Rightarrow> tcp \<Rightarrow> bool" where
  "same_rx i s t \<longleftrightarrow> length (conns t) = length (conns s) \<and> (let c = conns s ! i; c' = conns t ! i in t_used c' = t_used c \<and> t_state c' = t_state c \<and>
     endpoint c' = endpoint c \<and> t_rcv_nxt c' = t_rcv_nxt c \<and> t_recv_done c' = t_recv_done c \<and> t_recv_len c' = t_recv_len c \<and> t_recv_buf c' = t_recv_buf c)"

lemma same_rx_refl: "same_rx i s s"
  by (simp add: same_rx_def Let_def)

lemma same_rx_trans: "same_rx i s t \<Longrightarrow> same_rx i t u \<Longrightarrow> same_rx i s u"
  by (simp add: same_rx_def Let_def)

lemma tick_conn_rx:
  assumes "calm E i" "i < length (conns s)" "t_state (conns s ! i) = TCP_ESTABLISHED"
  shows "same_rx i s (tick_conn E j s)"
proof -
  have o: "length (conns (other_threads E k u)) = length (conns u)" "conns (other_threads E k u) ! i = conns u ! i" for k u
    using assms(1) by (simp_all add: calm_def spares_def)
  have other: "same_rx i u (snd (tick_data E j u)) \<and> same_rx i u (tick_fin E j u)" if "j \<noteq> i" for u
    using that unfolding tick_data_def tick_fin_def Let_def by (simp add: same_rx_def o)
  show ?thesis
  proof (cases "j = i")
    case True
    then have "tick_conn E j s = (if t_used (conns s ! i) then snd (tick_data E i s) else s)"
      using assms(2,3) unfolding tick_conn_def tick_data_def tick_fin_def Let_def by (simp add: o)
    then show ?thesis using assms(2,3) unfolding tick_data_def Let_def by (simp add: same_rx_def o)
  next
    case False
    have "same_rx i s (upd_conn j tick_timewait s)" using False by (simp add: same_rx_def)
    then show ?thesis using other [OF False] same_rx_trans [of i s "snd (tick_data E j s)" "tick_fin E j (snd (tick_data E j s))"] same_rx_refl
      unfolding tick_conn_def Let_def split_beta by auto
  qed
qed

lemma timer_step:
  assumes "receiving i s" "t_used (conns s ! i)" "calm E i"
  shows "comes_in f [] i s (tcp_tick E s) 0"
proof -
  have "same_rx i s (fold (tick_conn E) js s)" if "i < length (conns s)" "t_state (conns s ! i) = TCP_ESTABLISHED" for js s
    using that
  proof (induction js arbitrary: s)
    case Nil
    then show ?case by (simp add: same_rx_def)
  next
    case (Cons j js)
    have "same_rx i s (tick_conn E j s)" using tick_conn_rx [OF assms(3) Cons.prems] .
    then show ?case using Cons.IH [of "tick_conn E j s"] Cons.prems same_rx_trans [of i s "tick_conn E j s" "fold (tick_conn E) js (tick_conn E j s)"]
      by (simp add: same_rx_def Let_def)
  qed
  then have "same_rx i s (tcp_tick E s)" using assms(1) by (simp add: tcp_tick_def receiving_def)
  then show ?thesis using assms(1,2) by (simp add: comes_in_def receiving_def same_rx_def Let_def pending_def stream_def)
qed

lemma event_step:
  assumes "receiving i s" "t_used (conns s ! i)" "calm E i" "event_ok f (conns s ! i) e" "tcp_event_step E i e s = (d, t)"
  shows "\<exists>m. comes_in f d i s t m"
proof (cases e)
  case (Packet iss af src dst p)
  then show ?thesis using packet_step [OF assms(1-3)] assms(4,5) by auto
next
  case Timer
  then show ?thesis using timer_step [OF assms(1-3)] assms(5) by auto
next
  case (Read n)
  then obtain b where b: "take_data i n s = (b, t)" "d = (case b of None \<Rightarrow> [] | Some b \<Rightarrow> b)" using assms(5) by (auto split: prod.splits)
  have "TCP_MSS \<le> n" using assms(4) Read by simp
  moreover have "t_used (conns t ! i)" "endpoint (conns t ! i) = endpoint (conns s ! i)"
    using b(1) assms(1,2) by (auto simp: take_data_def Let_def receiving_def endpoint_def split: if_splits)
  ultimately show ?thesis using read_step [OF assms(1) _ b(1)] b(2) by (intro exI [of _ 0]) (simp add: comes_in_def stream_def)
qed

lemma event_ok_cong:
  assumes "endpoint c = endpoint c'" "t_used c = t_used c'" "t_state c = t_state c'"
  shows "event_ok f c e = event_ok f c' e"
  using conn_match_endpoint [OF assms] by (cases e) (auto split: option.split)

lemma tcp_run_stream:
  assumes "receiving i s" and "t_used (conns s ! i)" and "calm E i" and "\<forall>e \<in> set es. event_ok f (conns s ! i) e" and "tcp_run E i es s = (out, t)"
  shows "\<exists>n. comes_in f out i s t n"
  using assms(1,2,4,5)
proof (induction es arbitrary: s out)
  case Nil
  then show ?case using comes_in_same [of i s s f] by auto
next
  case (Cons e es)
  obtain d u where d: "tcp_event_step E i e s = (d, u)" by force
  obtain ds where ds: "tcp_run E i es u = (ds, t)" "out = d @ ds" using Cons.prems(4) d by (auto split: prod.splits)
  obtain m where m: "comes_in f d i s u m" using event_step [OF Cons.prems(1,2) assms(3) _ d, of f] Cons.prems(3) by auto
  have u: "receiving i u" "t_used (conns u ! i)" "endpoint (conns u ! i) = endpoint (conns s ! i)" using m by (simp_all add: comes_in_def)
  have "event_ok f (conns u ! i) x = event_ok f (conns s ! i) x" for x
    using event_ok_cong [OF u(3), of f x] u(1,2) Cons.prems(1,2) by (simp add: receiving_def)
  then obtain n where n: "comes_in f ds i u t n" using Cons.IH [OF u(1,2) _ ds(1)] Cons.prems(3) by auto
  have "d @ ds @ pending (conns t ! i) = d @ pending (conns u ! i) @ stream f (t_rcv_nxt (conns u ! i)) n" using n by (simp add: comes_in_def)
  also have "\<dots> = (pending (conns s ! i) @ stream f (t_rcv_nxt (conns s ! i)) m) @ stream f (t_rcv_nxt (conns s ! i) + of_nat m) n"
    using m by (simp add: comes_in_def flip: append_assoc)
  also have "\<dots> = pending (conns s ! i) @ stream f (t_rcv_nxt (conns s ! i)) (m + n)" by (simp add: stream_append)
  finally show ?case using m n ds(2) by (intro exI [of _ "m + n"]) (simp add: comes_in_def add.assoc)
qed

lemma packet_taken:
  assumes "receiving i s" "t_used (conns s ! i)" "calm E i" "parse_seg d = Some g" "tcp_find_conn af src (g_src_port g) (g_dst_port g) s = Some i" "of_stream f g"
    "g_payload g \<noteq> []" "g_seq g = t_rcv_nxt (conns s ! i)" "\<not> t_recv_done (conns s ! i)"
  shows "comes_in f [] i s (tcp_handle_common E iss af src dst d s) (length (g_payload g))"
  using comes_in_callbacks [OF assms(3) segment_comes_in [OF assms(1,2,6) refl, of E]] assms(4,5,7-9)
  by (simp add: tcp_handle_common_def split_beta)

text \<open>
  C23. The stream arrives in order and without gaps or repetitions. Let connection \<open>i\<close> be established with an empty buffer, and let any packets arrive, the timer tick and the application
  read, in any order. Packets that carry the addresses and ports of the connection hold bytes of the peer's stream \<open>f\<close>, as often and in whatever order they come, at most
  1460 in each, and neither FIN nor RST; all other packets, also SYNs and those for other connections, are arbitrary, and finding the connection is part of the run. Readers give a buffer of at least 1460 bytes, and
  callbacks and other threads do not touch the connection. Then what has been read so far, followed by what waits in the buffer, is exactly the first part of the
  stream from the first expected sequence number on, and the next expected number stands right behind it (numbers wrap at \<open>2 ^ 32\<close>). And nothing more is needed to
  go on: if the buffer is empty and a packet comes for which \<open>tcp_find_conn\<close> finds the connection and which starts at the expected number, all its bytes are taken.
\<close>

theorem tcp_in_order:
  assumes "receiving i s" and "t_used (conns s ! i)" and "\<not> t_recv_done (conns s ! i)" and "calm E i" and "\<forall>e \<in> set es. event_ok f (conns s ! i) e"
    and "tcp_run E i es s = (out, t)"
  shows "(\<exists>n. out @ pending (conns t ! i) = stream f (t_rcv_nxt (conns s ! i)) n \<and> t_rcv_nxt (conns t ! i) = t_rcv_nxt (conns s ! i) + of_nat n) \<and>
    (\<forall>iss af src dst d g. parse_seg d = Some g \<and> tcp_find_conn af src (g_src_port g) (g_dst_port g) t = Some i \<and> of_stream f g \<and> g_payload g \<noteq> [] \<and>
       g_seq g = t_rcv_nxt (conns t ! i) \<and> \<not> t_recv_done (conns t ! i) \<longrightarrow>
       (let c = conns (tcp_handle_common E iss af src dst d t) ! i in pending c = g_payload g \<and> t_rcv_nxt c = g_seq g + of_nat (length (g_payload g))))"
proof -
  obtain n where n: "comes_in f out i s t n" using tcp_run_stream [OF assms(1,2,4-6)] by blast
  then have t: "receiving i t" "t_used (conns t ! i)" by (simp_all add: comes_in_def)
  have "pending c = g_payload g \<and> t_rcv_nxt c = g_seq g + of_nat (length (g_payload g))"
    if "parse_seg d = Some g" "tcp_find_conn af src (g_src_port g) (g_dst_port g) t = Some i" "of_stream f g" "g_payload g \<noteq> []"
      "g_seq g = t_rcv_nxt (conns t ! i)" "\<not> t_recv_done (conns t ! i)" "c = conns (tcp_handle_common E iss af src dst d t) ! i" for iss af src dst d g c
  proof -
    have "stream f (t_rcv_nxt (conns t ! i)) (length (g_payload g)) = g_payload g" using that(3,5) by (simp add: of_stream_def)
    then show ?thesis using packet_taken [OF t assms(4) that(1-6), of iss dst] that(5-7) by (simp add: comes_in_def pending_def [of "conns t ! i"])
  qed
  moreover have "\<exists>n. out @ pending (conns t ! i) = stream f (t_rcv_nxt (conns s ! i)) n \<and> t_rcv_nxt (conns t ! i) = t_rcv_nxt (conns s ! i) + of_nat n"
    using n assms(3) by (intro exI [of _ n]) (simp add: comes_in_def pending_def [of "conns s ! i"])
  ultimately show ?thesis unfolding Let_def by blast
qed

section \<open>Retransmission\<close>

definition awaiting :: "nat \<Rightarrow> tcp \<Rightarrow> bool" where
  "awaiting i s \<longleftrightarrow> i < length (conns s) \<and> (let c = conns s ! i in t_used c \<and> t_state c = TCP_ESTABLISHED \<and> t_retrans_len c > 0 \<and>
     unat (t_retrans_len c) \<le> TCP_MSS \<and> t_snd_nxt c = t_retrans_seq c + t_retrans_len c)"

definition repeats :: "u32 \<Rightarrow> u8 list \<Rightarrow> bool" where
  "repeats q pkt \<longleftrightarrow> (\<exists>a. parse_seg pkt = Some a \<and> g_seq a = q \<and> g_flags a = TCP_ACK OR TCP_PSH \<and> length (g_payload a) \<le> TCP_MSS)"

lemma tick_conn_repeats:
  assumes "\<And>k u. other_threads E k u = u" "awaiting i s"
  defines "c \<equiv> conns s ! i"
  shows "awaiting i (tick_conn E i s) \<and> t_snd_nxt (conns (tick_conn E i s) ! i) = t_snd_nxt c \<and>
    (\<exists>ps. sent (tick_conn E i s) = sent s @ ps \<and> (\<forall>(dst, pkt) \<in> set ps. repeats (t_snd_nxt c) pkt))"
proof -
  have c: "i < length (conns s)" "t_used c" "t_state c = TCP_ESTABLISHED" "t_retrans_len c > 0" "unat (t_retrans_len c) \<le> TCP_MSS"
      "t_snd_nxt c = t_retrans_seq c + t_retrans_len c"
    using assms(2) by (simp_all add: awaiting_def Let_def c_def)
  have r: "repeats (t_snd_nxt x) (tcp_packet x (TCP_ACK OR TCP_PSH) (take (unat (t_retrans_len c)) b))" for x b
    unfolding repeats_def parse_ack using c(5) by simp
  have e: "tick_conn E i s = snd (tick_data E i s)" using c
    by (auto simp: tick_conn_def tick_data_def tick_fin_def Let_def assms(1) c_def)
  have z: "t_retrans_len c \<noteq> 0" using c(4) by auto
  show ?thesis using c z r [of "c\<lparr>t_rto_ms := backoff (t_rto_ms c), t_rto_remaining := backoff (t_rto_ms c)\<rparr>"] unfolding e tick_data_def awaiting_def Let_def assms(1) c_def
    by (simp add: sent_send)
qed


lemma ticks_repeat:
  assumes "\<And>k u. other_threads E k u = u" "awaiting i s"
  shows "awaiting i ((tick_conn E i ^^ n) s) \<and> t_snd_nxt (conns ((tick_conn E i ^^ n) s) ! i) = t_snd_nxt (conns s ! i) \<and>
    (\<exists>ps. sent ((tick_conn E i ^^ n) s) = sent s @ ps \<and> (\<forall>(dst, pkt) \<in> set ps. repeats (t_snd_nxt (conns s ! i)) pkt))"
proof (induction n)
  case 0 then show ?case using assms(2) by simp
next
  case (Suc n)
  let ?t = "(tick_conn E i ^^ n) s"
  obtain ps where ps: "sent ?t = sent s @ ps" "\<forall>(dst, pkt) \<in> set ps. repeats (t_snd_nxt (conns s ! i)) pkt" using Suc by blast
  obtain qs where "sent (tick_conn E i ?t) = sent ?t @ qs" "\<forall>(dst, pkt) \<in> set qs. repeats (t_snd_nxt (conns ?t ! i)) pkt"
      "awaiting i (tick_conn E i ?t)" "t_snd_nxt (conns (tick_conn E i ?t) ! i) = t_snd_nxt (conns ?t ! i)"
    using tick_conn_repeats [OF assms(1), of i ?t] Suc by blast
  then show ?case using ps Suc by (intro conjI exI [of _ "ps @ qs"]) auto
qed

text \<open>
  C38. A lost segment is never recovered. While a segment with the sequence number \<open>t_retrans_seq\<close> is unacknowledged, the timer sends its data again
  with the sequence number behind it, since \<open>tcp_send_pkt\<close> always takes \<open>t_snd_nxt\<close>. After any number of ticks, no packet the timer has sent moves a peer that waits for the lost
  segment: with an empty or a full buffer, it still waits for the same number and has no more data than before.
\<close>

theorem tcp_lost_segment_never_recovered:
  assumes "\<And>k u. other_threads E k u = u" and "awaiting i s" and "(dst, pkt) \<in> set (drop (length (sent s)) (sent ((tick_conn E i ^^ n) s)))"
    and "receiving j r" and "t_rcv_nxt (conns r ! j) = t_retrans_seq (conns s ! i)" and "parse_seg pkt = Some a"
  shows "let c = conns (snd (handle_segment E' j a r)) ! j in t_rcv_nxt c = t_retrans_seq (conns s ! i) \<and> pending c = pending (conns r ! j)"
proof -
  have "repeats (t_snd_nxt (conns s ! i)) pkt" using ticks_repeat [OF assms(1,2), of n] assms(3) by auto
  then have a: "g_seq a = t_snd_nxt (conns s ! i)" "g_flags a = TCP_ACK OR TCP_PSH" "length (g_payload a) \<le> TCP_MSS"
    using assms(6) by (auto simp: repeats_def)
  have fl: "\<not> has a TCP_RST" "\<not> has a TCP_FIN" by (simp_all add: has_def a(2) TCP_ACK_def TCP_PSH_def TCP_RST_def TCP_FIN_def)
  have "g_seq a \<noteq> t_rcv_nxt (conns r ! j)" using a(1) assms(2,5) by (auto simp: awaiting_def Let_def)
  moreover have r: "j < length (conns r)" "t_state (conns r ! j) = TCP_ESTABLISHED" "length (t_recv_buf (conns r ! j)) = TCP_MSS" using assms(4) by (simp_all add: receiving_def)
  ultimately show ?thesis using established_step(3) [OF r(1) refl refl r(2) fl a(3) r(3), of E'] assms(5) by (simp add: Let_def)
qed

section \<open>The end of a connection\<close>

lemma tick_parts_other:
  assumes "\<And>k u. other_threads E k u = u" "j \<noteq> i"
  shows "conns (snd (tick_data E j s)) ! i = conns s ! i \<and> length (conns (snd (tick_data E j s))) = length (conns s)"
    "conns (tick_fin E j s) ! i = conns s ! i \<and> length (conns (tick_fin E j s)) = length (conns s)"
  using assms(2) unfolding tick_data_def tick_fin_def Let_def assms(1) by simp_all

lemma tick_conn_other:
  assumes "\<And>k u. other_threads E k u = u" "j \<noteq> i"
  shows "conns (tick_conn E j s) ! i = conns s ! i \<and> length (conns (tick_conn E j s)) = length (conns s)"
  using assms(2) tick_parts_other [OF assms(1) assms(2)] unfolding tick_conn_def Let_def split_beta by simp

lemma ticks_other:
  assumes "\<And>k u. other_threads E k u = u" "i \<notin> set js"
  shows "conns (fold (tick_conn E) js s) ! i = conns s ! i \<and> length (conns (fold (tick_conn E) js s)) = length (conns s)"
  using assms(2)
proof (induction js arbitrary: s)
  case (Cons j js)
  then show ?case using tick_conn_other [OF assms(1), of j i s] Cons.IH [of "tick_conn E j s"] by auto
qed simp

lemma tcp_tick_timewait:
  assumes "\<And>k u. other_threads E k u = u" "i < TCP_MAX_CONN" "length (conns s) = TCP_MAX_CONN" "t_used (conns s ! i)" "t_state (conns s ! i) = TCP_TIME_WAIT"
  shows "conns (tcp_tick E s) ! i = tick_timewait (conns s ! i)" "length (conns (tcp_tick E s)) = TCP_MAX_CONN"
proof -
  have "[0..<TCP_MAX_CONN] = [0..<i] @ i # [Suc i..<TCP_MAX_CONN]" using assms(2) by (metis le0 le_add_diff_inverse less_imp_le_nat upt_add_eq_append upt_conv_Cons)
  then have e: "tcp_tick E s = fold (tick_conn E) [Suc i..<TCP_MAX_CONN] (tick_conn E i (fold (tick_conn E) [0..<i] s))" by (simp add: tcp_tick_def)
  let ?u = "fold (tick_conn E) [0..<i] s"
  have u: "conns ?u ! i = conns s ! i" "length (conns ?u) = TCP_MAX_CONN" using ticks_other [OF assms(1), of i "[0..<i]" s] assms(3) by simp_all
  have t: "tick_conn E i ?u = upd_conn i tick_timewait ?u" using u assms(4,5) by (simp add: tick_conn_def)
  show "conns (tcp_tick E s) ! i = tick_timewait (conns s ! i)" "length (conns (tcp_tick E s)) = TCP_MAX_CONN"
    using ticks_other [OF assms(1), of i "[Suc i..<TCP_MAX_CONN]" "tick_conn E i ?u"] u assms(2) unfolding e t by simp_all
qed


lemma tick_timewait_counts:
  "unat (t_timewait_ms c) \<le> 10 \<Longrightarrow> tick_timewait c = c\<lparr>t_state := TCP_CLOSED, t_used := False\<rparr>"
  "10 < unat (t_timewait_ms c) \<Longrightarrow> tick_timewait c = c\<lparr>t_timewait_ms := t_timewait_ms c - 10\<rparr> \<and> unat (t_timewait_ms c - 10) = unat (t_timewait_ms c) - 10"
  by (auto simp: tick_timewait_def word_le_nat_alt unat_sub)

lemma timewait_ticks:
  assumes "\<And>k u. other_threads E k u = u" "i < TCP_MAX_CONN" "length (conns s) = TCP_MAX_CONN" "t_used (conns s ! i)" "t_state (conns s ! i) = TCP_TIME_WAIT"
    "10 * n < unat (t_timewait_ms (conns s ! i))"
  shows "let t = (tcp_tick E ^^ n) s in length (conns t) = TCP_MAX_CONN \<and> t_used (conns t ! i) \<and> t_state (conns t ! i) = TCP_TIME_WAIT \<and>
    unat (t_timewait_ms (conns t ! i)) = unat (t_timewait_ms (conns s ! i)) - 10 * n"
  using assms(6)
proof (induction n)
  case 0 then show ?case using assms by simp
next
  case (Suc n)
  let ?t = "(tcp_tick E ^^ n) s"
  have t: "length (conns ?t) = TCP_MAX_CONN" "t_used (conns ?t ! i)" "t_state (conns ?t ! i) = TCP_TIME_WAIT"
      "unat (t_timewait_ms (conns ?t ! i)) = unat (t_timewait_ms (conns s ! i)) - 10 * n"
    using Suc by (simp_all add: Let_def)
  have "10 < unat (t_timewait_ms (conns ?t ! i))" using t(4) Suc.prems by simp
  then show ?case using tcp_tick_timewait [OF assms(1,2) t(1-3)] tick_timewait_counts(2) [of "conns ?t ! i"] t by (simp add: Let_def)
qed

text \<open>
  C36. A closed connection is released. From the moment a connection is in the state TIME_WAIT with at most 60000 milliseconds on its clock, some number of timer
  ticks, at most 6000 and not before the clock has run down, makes its slot free, and until then it is in TIME_WAIT, whatever the timer does for the
  other connections.
\<close>

theorem tcp_time_wait_expires:
  assumes "\<And>k u. other_threads E k u = u" and "i < TCP_MAX_CONN" and "length (conns s) = TCP_MAX_CONN" and "t_used (conns s ! i)" and "t_state (conns s ! i) = TCP_TIME_WAIT"
    and "unat (t_timewait_ms (conns s ! i)) \<le> 60000"
  shows "\<exists>n \<le> 6000. \<not> t_used (conns ((tcp_tick E ^^ n) s) ! i) \<and> t_state (conns ((tcp_tick E ^^ n) s) ! i) = TCP_CLOSED \<and>
    unat (t_timewait_ms (conns s ! i)) \<le> 10 * n \<and>
    (\<forall>m < n. t_used (conns ((tcp_tick E ^^ m) s) ! i) \<and> t_state (conns ((tcp_tick E ^^ m) s) ! i) = TCP_TIME_WAIT)"
proof -
  let ?T = "unat (t_timewait_ms (conns s ! i))"
  define k where "k = (?T - 1) div 10"
  obtain r where d: "10 * k + r = ?T - 1" "r < 10" by (rule that [of "(?T - 1) mod 10"]) (simp_all add: k_def)
  have k: "?T \<le> 10 * Suc k" using d by simp
  have k': "k < 6000" using d assms(6) by simp
  have stay: "length (conns ((tcp_tick E ^^ m) s)) = TCP_MAX_CONN \<and> t_used (conns ((tcp_tick E ^^ m) s) ! i) \<and> t_state (conns ((tcp_tick E ^^ m) s) ! i) = TCP_TIME_WAIT \<and>
      unat (t_timewait_ms (conns ((tcp_tick E ^^ m) s) ! i)) = ?T - 10 * m" if "m \<le> k" for m
  proof (cases "m = 0")
    case True then show ?thesis using assms by simp
  next
    case False
    then have "10 * m < ?T" using that d by linarith
    from timewait_ticks [OF assms(1-5) this] show ?thesis by (simp add: Let_def)
  qed
  have "unat (t_timewait_ms (conns ((tcp_tick E ^^ k) s) ! i)) \<le> 10" using stay [of k] k by simp
  then have "conns ((tcp_tick E ^^ Suc k) s) ! i = (conns ((tcp_tick E ^^ k) s) ! i)\<lparr>t_state := TCP_CLOSED, t_used := False\<rparr>"
    using tcp_tick_timewait(1) [OF assms(1,2), of "(tcp_tick E ^^ k) s"] stay [of k] tick_timewait_counts(1) [of "conns ((tcp_tick E ^^ k) s) ! i"] by simp
  then show ?thesis using stay k k' by (intro exI [of _ "Suc k"]) (simp add: less_Suc_eq_le)
qed

section \<open>Witnesses\<close>

definition one_conn :: "tcp_conn \<Rightarrow> tcp" where
  "one_conn c = tcp_start\<lparr>conns := (conns tcp_start)[0 := c]\<rparr>"

definition open_at :: "u32 \<Rightarrow> tcp_conn" where
  "open_at a = zero_conn\<lparr>t_used := True, t_af := AF_INET, t_state := TCP_ESTABLISHED, t_rcv_nxt := a, t_snd_nxt := 100\<rparr>"

text \<open>A packet of the peer: its sequence number, the number it acknowledges, its flags and its data.\<close>

definition from_peer :: "u32 \<Rightarrow> u32 \<Rightarrow> u8 \<Rightarrow> u8 list \<Rightarrow> u8 list" where
  "from_peer q a fl d = tcp_packet (zero_conn\<lparr>t_snd_nxt := q, t_rcv_nxt := a\<rparr>) fl d"

definition peer_seg :: "u32 \<Rightarrow> u32 \<Rightarrow> u8 \<Rightarrow> u8 list \<Rightarrow> tcp_seg" where
  "peer_seg q a fl d = \<lparr>g_src_port = 0, g_dst_port = 0, g_seq = q, g_ack = a, g_flags = fl, g_window = 65535, g_payload = d\<rparr>"

lemma parse_from_peer: "parse_seg (from_peer q a fl d) = Some (peer_seg q a fl d)"
  unfolding from_peer_def parse_ack by (simp add: peer_seg_def zero_conn_def TCP_WINDOW_def)

lemma one_conn_simps [simp]: "length (conns (one_conn c)) = TCP_MAX_CONN" "conns (one_conn c) ! 0 = c" "sent (one_conn c) = []"
  by (simp_all add: one_conn_def tcp_start_def TCP_MAX_CONN_def)

lemma find_peer:
  assumes "t_used c" "t_af c = AF_INET" "t_local_port c = 0" "t_remote_port c = 0" "t_state c \<noteq> TCP_LISTEN" "t_remote_ip c = replicate 16 0"
  shows "tcp_find_conn AF_INET [0, 0, 0, 0] 0 0 (one_conn c) = Some 0"
  using assms unfolding tcp_find_conn_def one_conn_def tcp_start_def by (simp add: conn_match_def TCP_MAX_CONN_def numeral_eq_Suc)


lemma tcp_in_order_witness:
  "let s = one_conn (open_at (- 2)); P = (\<lambda>q d. Packet 0 AF_INET [0, 0, 0, 0] [10, 0, 0, 1] (from_peer q 0 TCP_PSH d));
     es = [P 1 [1], P (- 2) [254, 255, 0], Timer, P (- 2) [254], Read 1460, Packet 5 AF_INET [10, 0, 0, 9] [10, 0, 0, 1] (from_peer 9 0 TCP_RST [77]), P 1 [1, 2]];
     r = tcp_run quiet_env 0 es s
   in \<exists>n. fst r @ pending (conns (snd r) ! 0) = stream ucast (- 2) n \<and> t_rcv_nxt (conns (snd r) ! 0) = - 2 + of_nat n"
proof -
  let ?s = "one_conn (open_at (- 2))" and ?P = "\<lambda>q d. Packet 0 AF_INET [0, 0, 0, 0] [10, 0, 0, 1] (from_peer q 0 TCP_PSH d)"
  let ?es = "[?P 1 [1], ?P (- 2) [254, 255, 0], Timer, ?P (- 2) [254], Read 1460, Packet 5 AF_INET [10, 0, 0, 9] [10, 0, 0, 1] (from_peer 9 0 TCP_RST [77]), ?P 1 [1, 2]]"
  have m: "ucast (- 1 :: u32) = (255 :: u8)" by (simp add: word_unat_eq_iff unsigned_ucast_eq unsigned_minus_1_eq_mask take_bit_eq_mod mask_eq_exp_minus_1)
  have "event_ok ucast (conns ?s ! 0) (?P q d)" if "length d \<le> TCP_MSS" "d = stream ucast q (length d)" for q d
    using that by (simp add: parse_from_peer of_stream_def peer_seg_def has_def TCP_PSH_def TCP_RST_def TCP_FIN_def)
  moreover have "event_ok ucast (conns ?s ! 0) (Packet 5 AF_INET [10, 0, 0, 9] [10, 0, 0, 1] (from_peer 9 0 TCP_RST [77]))"
  proof -
    have "replicate 4 (0 :: u8) = [0, 0, 0, 0]" by (simp add: numeral_eq_Suc)
    then show ?thesis by (simp add: parse_from_peer conn_match_def open_at_def zero_conn_def)
  qed
  ultimately have "\<forall>e \<in> set ?es. event_ok ucast (conns ?s ! 0) e" by (simp add: stream_def TCP_MSS_def upt_rec m del: event_ok.simps(1))
  moreover have "receiving 0 ?s" "\<not> t_recv_done (conns ?s ! 0)" "t_used (conns ?s ! 0)" by (simp_all add: receiving_def open_at_def zero_conn_def TCP_MAX_CONN_def)
  moreover have "calm quiet_env 0" by (simp add: calm_def spares_def quiet_env_def)
  ultimately show ?thesis
    using tcp_in_order [of 0 ?s quiet_env ?es ucast "fst (tcp_run quiet_env 0 ?es ?s)" "snd (tcp_run quiet_env 0 ?es ?s)"] unfolding Let_def by (simp add: open_at_def)
qed

text \<open>A sender with an unacknowledged segment of three bytes at 97 whose timer runs out, and a peer that waits for 97.\<close>

definition lost_at_97 :: tcp where
  "lost_at_97 = one_conn ((open_at 0)\<lparr>t_retrans_seq := 97, t_retrans_len := 3, t_rto_remaining := 10, t_rto_ms := 1000\<rparr>)"

lemma lost_at_97_resend:
  "drop (length (sent lost_at_97)) (sent ((tick_conn quiet_env 0 ^^ 1) lost_at_97)) =
     [(take 4 (t_remote_ip zero_conn), tcp_packet ((open_at 0)\<lparr>t_retrans_seq := 97, t_retrans_len := 3, t_rto_ms := 2000, t_rto_remaining := 2000\<rparr>) (TCP_ACK OR TCP_PSH)
       (take 3 (t_retrans_buf zero_conn)))]"
  by (simp add: tick_conn_def tick_data_def tick_fin_def backoff_def sent_send Let_def lost_at_97_def quiet_env_def TCP_MAX_CONN_def upd_conn_def) (simp add: open_at_def)

lemma tcp_lost_segment_never_recovered_witness:
  "\<exists>dst pkt a. (dst, pkt) \<in> set (drop (length (sent lost_at_97)) (sent ((tick_conn quiet_env 0 ^^ 1) lost_at_97))) \<and> parse_seg pkt = Some a \<and>
     (let c = conns (snd (handle_segment quiet_env 0 a (one_conn (open_at 97)))) ! 0 in t_rcv_nxt c = 97 \<and> pending c = [])"
proof -
  let ?p = "tcp_packet ((open_at 0)\<lparr>t_retrans_seq := 97, t_retrans_len := 3, t_rto_ms := 2000, t_rto_remaining := 2000\<rparr>) (TCP_ACK OR TCP_PSH) (take 3 (t_retrans_buf zero_conn))"
  obtain a where a: "parse_seg ?p = Some a" unfolding parse_ack by blast
  have q: "other_threads quiet_env k u = u" for k u by (simp add: quiet_env_def)
  have w: "awaiting 0 lost_at_97" by (simp add: awaiting_def lost_at_97_def Let_def open_at_def TCP_MAX_CONN_def TCP_MSS_def)
  have r: "receiving 0 (one_conn (open_at 97))" by (simp add: receiving_def open_at_def zero_conn_def TCP_MAX_CONN_def)
  have i: "(take 4 (t_remote_ip zero_conn), ?p) \<in> set (drop (length (sent lost_at_97)) (sent ((tick_conn quiet_env 0 ^^ 1) lost_at_97)))"
    unfolding lost_at_97_resend by simp
  have n: "t_rcv_nxt (conns (one_conn (open_at 97)) ! 0) = t_retrans_seq (conns lost_at_97 ! 0)" by (simp add: lost_at_97_def open_at_def)
  have "pending (conns (one_conn (open_at 97)) ! 0) = []" "t_retrans_seq (conns lost_at_97 ! 0) = 97" by (simp_all add: pending_def open_at_def zero_conn_def lost_at_97_def)
  then show ?thesis using tcp_lost_segment_never_recovered [OF q w i r n a, of quiet_env] a i by (intro exI conjI) simp_all
qed

lemma tcp_time_wait_expires_witness:
  "let s = one_conn ((open_at 0)\<lparr>t_state := TCP_TIME_WAIT, t_timewait_ms := 60000\<rparr>) in
   \<exists>n \<le> 6000. \<not> t_used (conns ((tcp_tick quiet_env ^^ n) s) ! 0) \<and> t_state (conns ((tcp_tick quiet_env ^^ n) s) ! 0) = TCP_CLOSED \<and> 60000 \<le> 10 * n \<and>
     (\<forall>m < n. t_used (conns ((tcp_tick quiet_env ^^ m) s) ! 0) \<and> t_state (conns ((tcp_tick quiet_env ^^ m) s) ! 0) = TCP_TIME_WAIT)"
proof -
  have q: "other_threads quiet_env k u = u" for k u by (simp add: quiet_env_def)
  show ?thesis using tcp_time_wait_expires [OF q, of 0 "one_conn ((open_at 0)\<lparr>t_state := TCP_TIME_WAIT, t_timewait_ms := 60000\<rparr>)"]
    unfolding Let_def one_conn_simps by (simp add: TCP_MAX_CONN_def open_at_def)
qed

end
