(* ===== verification/Spec2Isabelle.thy ===== *)
theory Spec2Isabelle
  imports Route Swap Sync Pipe Journal_Props Vma_Fault Tls_Props Tcp_Props
begin

text \<open>
  A verification of the TRY1 kernel (the C code under \<^verbatim>\<open>src/os/src\<close>), an x86-64 kernel with SMP,
  by a shallow embedding: structures are records, enumerations are datatypes, machine integers are words of their width,
  and every operation is a function on an explicit state that returns its result and the new state. A
  consistency check that stops the machine, and a shift or index the language leaves undefined, is the
  absence of a result (\<open>None\<close>). Operations run to completion under their locks; where the
  interleaving of threads or CPUs matters, a step relation has one rule per operation, and the properties are invariants
  of its reachable states.

  \<^bold>\<open>The parts and their theories.\<close>

  \<^item> \<open>Kernel_Prelude\<close>: the integer types and error codes of \<^verbatim>\<open>include/types.h\<close>, searches of slot tables, the
    interface \<open>slot_allocator\<close> of a slot allocator, slices of byte lists.
  \<^item> Block layer. \<open>Block_Cache\<close> models \<^verbatim>\<open>kernel/block.c\<close>: the device registry and the write-back sector cache; the driver of
    a device is an argument. \<open>Block_Coherence\<close> proves that reads and writes through the cache are those
    of an array of sectors, for every driver that meets the locale of a reliable device;
    \<open>Ramdisk_Blk\<close> models \<^verbatim>\<open>kernel/ramdisk_blk.c\<close>, interprets the locale on it and states the properties.
  \<^item> \<open>Journal\<close> and \<open>Journal_Props\<close>: \<^verbatim>\<open>kernel/journal.c\<close> on byte sectors, over the block layer. The loops over the ring of
    slots take fuel: 254 iterations, the number of slots, are proved to be enough. Recovery redoes the committed
    transactions, and a transaction interrupted by any failing request is applied entirely or not at all.
  \<^item> Scheduler. \<open>Links\<close> has doubly linked lists threaded through records; \<open>Sched_Queue\<close>, \<open>Sched_Refine\<close> the run queues
    of \<^verbatim>\<open>kernel/sched.c\<close> and their refinement of FIFO queues per priority; \<open>Sched\<close> the whole scheduler
    (choice of the next thread, stealing and balancing, sleep, wait queues, creation, exit, join, reaping, ticks,
    ageing, priorities, affinity, migration); \<open>Sched_Inv\<close>, \<open>Sched_Ops\<close>, \<open>Sched_Steps\<close>, \<open>Sched_Life\<close> its invariant and that every
    operation keeps it; \<open>Sched_Props\<close> the properties.
  \<^item> \<open>Sync\<close>: spinlocks, mutexes with priority inheritance, condition variables, reader-writer locks and sequence
    locks of \<^verbatim>\<open>kernel/sync.c\<close> and \<^verbatim>\<open>sync.h\<close>. A blocking call is one iteration of its wait loop.
  \<^item> \<open>Pipe\<close>: \<^verbatim>\<open>kernel/pipe.c\<close>, over the scheduler's wait queues.
  \<^item> \<open>Route\<close>: the IPv4 and IPv6 routing table of \<^verbatim>\<open>kernel/route.c\<close>.
  \<^item> \<open>Swap\<close>: the swap store and the page-table encoding of \<^verbatim>\<open>kernel/swap.c\<close>.
  \<^item> Page allocator. \<open>Pmm\<close> models \<^verbatim>\<open>kernel/pmm.c\<close>: bitmap, owners, per-node lists, per-CPU caches, contiguous and
    per-node allocation, initialisation. \<open>Pmm_Props\<close> has its invariant and the safety of runs; \<open>Pmm_Runs\<close> contiguous
    allocation; \<open>Pmm_Boot\<close> the initialisation.
  \<^item> Kernel heap. \<open>Kmalloc\<close> models \<^verbatim>\<open>kernel/kmalloc.c\<close> (slabs, magazines, large objects, compaction) over a record of page
    operations; \<open>Kmalloc_Props\<close>, \<open>Kmalloc_Ops\<close>, \<open>Kmalloc_Pages\<close> the invariant and the moves of objects and pages;
    \<open>Kmalloc_Safe\<close> the locale \<open>page_source\<close> of the page allocator's promises and the heap's lemmas in it; \<open>Kmalloc_Pmm\<close> the
    interpretation on \<^verbatim>\<open>pmm.c\<close> and the properties.
  \<^item> \<^verbatim>\<open>vmm.c\<close> (page tables). \<open>Vmm\<close> holds physical memory as 64-bit words (the record \<open>vm\<close>) and every
    operation on the four levels of tables: the walks, \<open>vmm_map_page\<close>, \<open>vmm_unmap_page\<close>, the copy and the release of the
    user half, the validation, the split and the protection of the kernel mapping. \<open>Vmm_Tree\<close> is the theory of
    tables as trees in memory (\<open>ptree\<close>, \<open>tabs\<close>, \<open>path\<close>, \<open>look\<close>); \<open>Vmm_Space\<close> the locale \<open>frame_source\<close>, which extends
    \<open>page_source\<close> by single pages and the links stored in free ones, and the user half as a partial map; \<open>Vmm_Free\<close> and \<open>Vmm_Leaves\<close> the release of a
    private address space; \<open>Vmm_Fork\<close> the copy for fork; \<open>Vmm_Props\<close> the interpretation on \<^verbatim>\<open>pmm.c\<close> and the properties.
    The TLBs appear as the list of flushed addresses.
  \<^item> \<^verbatim>\<open>vma.c\<close> (memory areas). \<open>Vma\<close> holds the area lists, the reference counts of file nodes and every operation, the
    page-fault handler included, over the page tables of \<open>Vmm\<close>; the file systems' operations on nodes and the outcome of
    \<open>kmalloc\<close> are parameters. \<open>Vma_Props\<close> has the lemmas on lists of areas and on unmapping ranges, \<open>Vma_Pmm\<close> and \<open>Vma_Fault\<close> the properties.
  \<^item> \<^verbatim>\<open>sha256.c\<close> and \<^verbatim>\<open>secure_boot.c\<close> of the kernel. \<open>Sha256\<close> has both copies of SHA-256 (the kernel's and the
    TLS library's, with 32-bit words and byte buffers), the hash of the standard as a function of the whole message, and the locale \<open>streaming_hash\<close>
    of a hash fed piecewise, interpreted on both copies; the list of known image hashes is generated and a parameter.
  \<^item> \<^verbatim>\<open>libtls\<close> (the TLS 1.3 client). \<open>Hkdf\<close> models \<^verbatim>\<open>hkdf.c\<close> (locale \<open>reusable_hash\<close>, interpreted on the library's
    hash), \<open>Aes_Gcm\<close> \<^verbatim>\<open>aes.c\<close>, \<open>X25519\<close> \<^verbatim>\<open>x25519.c\<close> on 64-bit limbs, \<open>Tls\<close> the record layer, the handshake and the interface
    (\<^verbatim>\<open>tls_record.c\<close>, \<^verbatim>\<open>tls_handshake.c\<close>, \<^verbatim>\<open>tls.c\<close>): a context record, an environment with the results of the
    system calls, and results that tell a returned error from a write outside a buffer. \<open>Tls_Props\<close> has the properties.
  \<^item> \<^verbatim>\<open>tcp.c\<close> (transport). \<open>Tcp\<close> has the connection table, packets and every operation; what the network layer, the card, callbacks and
    other threads do is the record \<open>tcp_env\<close>, with other threads acting wherever the code releases its lock around a transmission. Waiting loops run for the number of rounds of the code.
    \<open>Tcp_Packet\<close> compares packets and checksums with the standard, \<open>Tcp_Wf\<close> shows that every history keeps the shape of the state, \<open>Tcp_Props\<close> has the exact transitions and their agreement with the standard,
    delivery in order with packets dispatched by \<open>tcp_find_conn\<close>, retransmission and the release of closed connections.

  \<^bold>\<open>What the properties show.\<close> Functional refinements of abstract specifications (a disk as an array, a run queue
  and a pipe as queues, recovery as redoing a log), safety of all reachable states (no page and no heap
  byte handed out twice, mutual exclusion, atomic transactions, scheduler invariants), functional behaviour on all branches,
  equality of the cryptographic routines with the functions of their standards, round trips, termination of the loops, and, where the code does not do what it means to, theorems that exhibit it.

  \<^bold>\<open>Conditions.\<close> A property states what it needs of the machine, and the cases it leaves out are those in which the code fails. Those of the heap, the page tables and the
  memory areas need a machine without NUMA tables, since \<open>pmm_alloc_node_pages\<close> returns wrong addresses (\<open>pmm_alloc_node_pages_address\<close>). Those of the page tables need that
  no entry is huge; of the areas, that there are no shared-memory objects; that of recovery, that no logged block looks like a descriptor (\<open>journal_recover_parses_data\<close>); that of
  delivery in order, that segments carry at most 1460 bytes and no FIN, and that readers offer as much.
  The memory of the page tables (\<open>vm_mem\<close>) holds what the allocator stores in free pages, so that the statements about what is left unwritten are about pages in use.

  \<^bold>\<open>Simplifications.\<close> \<open>schedule\<close> ends at the context switch; \<open>block_read\<close> is one step with the driver's read; the reader count of a read-write lock is
  unbounded; a copy of a page takes all its bytes at once; the hash input of AES-GCM is no result when it does not fit its buffer. \<open>sched_step\<close> has no rule for
  creating and reaping threads, for the migration off a CPU and for the start of further CPUs; \<open>vma_step\<close> has none for a copy that runs out of memory.

  \<^bold>\<open>Bounds.\<close> Loops of the code are recursion over lists of indices or structural recursion; the loops that follow data are
  given fuel with a proof that it suffices (journal, pipe) or a termination proof.

  \<^bold>\<open>Not modelled.\<close> Device drivers and the machine layer (their behaviour is the hardware's), the shell, the boot code, the tests, and so far
  the system-call layer, file systems, network protocols other than routing and TCP, and the user libraries other than TLS. Interleavings inside
  one operation are not modelled: an operation is atomic under its locks, so races between a check and a
  later lock are outside the model except where a step relation splits the operation.
\<close>

end
